(* ===== verification/Prelude.thy ===== *)
theory Prelude
  imports Main "HOL-Library.Word"
begin

text \<open>
  The vocabulary the component theories share: bytes and blocks of memory, the C integer
  conversions, results of functions that may hit an assertion, and the generic facts about
  lists, blocks and bit operations that carry the component proofs.

  A block of memory is the list of its bytes; an address inside it is an offset. Reads and
  writes of a run of bytes are \<open>chunk\<close> and \<open>blit\<close>; \<open>memmove\<close> copies through a snapshot of the
  source, as the C function does, so it is right for overlapping runs too.
\<close>

unbundle bit_operations_syntax

type_synonym byte = "8 word"
type_synonym bytes = "8 word list"

named_theorems bitarith "bit operations on numbers as arithmetic"
named_theorems block_simps "reads after writes on blocks of memory"

section \<open>Results\<close>

text \<open>\<open>Abort\<close> is a failed \<open>assert\<close> (the process stops); \<open>Ok\<close> is a normal return.\<close>

datatype 'a outcome = Abort | Ok 'a

primrec bind_outcome :: "'a outcome \<Rightarrow> ('a \<Rightarrow> 'b outcome) \<Rightarrow> 'b outcome" where
  "bind_outcome Abort f = Abort"
| "bind_outcome (Ok x) f = f x"

definition c_assert :: "bool \<Rightarrow> 'a outcome \<Rightarrow> 'a outcome" where
  "c_assert b r = (if b then r else Abort)"

lemma c_assert_simps [simp]: "c_assert True r = r" "c_assert False r = Abort"
  by (simp_all add: c_assert_def)

lemma c_assert_Ok [simp]: "c_assert b r = Ok x \<longleftrightarrow> b \<and> r = Ok x"
  by (simp add: c_assert_def)

lemma bind_outcome_Ok: "bind_outcome r f = Ok y \<longleftrightarrow> (\<exists>x. r = Ok x \<and> f x = Ok y)"
  by (cases r) auto

section \<open>C integer conversions\<close>

text \<open>Conversion to an unsigned type of \<open>w\<close> bits, and to a signed one (two's complement).\<close>

definition c_unsigned :: "nat \<Rightarrow> int \<Rightarrow> nat" where
  "c_unsigned w i = nat (i mod 2 ^ w)"

definition c_signed :: "nat \<Rightarrow> int \<Rightarrow> int" where
  "c_signed w i = (let m = i mod 2 ^ w in if 2 * m < 2 ^ w then m else m - 2 ^ w)"

definition fits_signed :: "nat \<Rightarrow> int \<Rightarrow> bool" where
  "fits_signed w i \<longleftrightarrow> - (2 ^ w) \<le> 2 * i \<and> 2 * i < 2 ^ w"

lemma c_unsigned_less [simp]: "c_unsigned w i < 2 ^ w"
proof -
  have "i mod 2 ^ w < 2 ^ w" by simp
  then show ?thesis unfolding c_unsigned_def by (simp add: nat_less_iff)
qed

lemma c_unsigned_id: "0 \<le> i \<Longrightarrow> i < 2 ^ w \<Longrightarrow> c_unsigned w i = nat i"
  by (simp add: c_unsigned_def)

lemma int_c_unsigned: "int (c_unsigned w i) = i mod 2 ^ w"
  by (simp add: c_unsigned_def)

lemma c_signed_id: "fits_signed w i \<Longrightarrow> c_signed w i = i"
proof -
  assume a: "fits_signed w i"
  show ?thesis
  proof (cases "0 \<le> i")
    case True
    with a have "i mod 2 ^ w = i" by (simp add: fits_signed_def)
    with a show ?thesis by (simp add: c_signed_def fits_signed_def)
  next
    case False
    then have "(i + 2 ^ w) mod 2 ^ w = i + 2 ^ w"
      using a by (intro mod_pos_pos_trivial) (auto simp: fits_signed_def)
    then have "i mod 2 ^ w = i + 2 ^ w" by simp
    with a False show ?thesis by (simp add: c_signed_def fits_signed_def)
  qed
qed

lemma c_signed_fits: "fits_signed w (c_signed w i)"
proof -
  have a: "0 \<le> i mod 2 ^ w" "i mod 2 ^ w < 2 ^ w" by simp_all
  show ?thesis
  proof (cases "2 * (i mod 2 ^ w) < 2 ^ w")
    case True
    have "- (2 ^ w) \<le> (0::int)" by simp
    also have "0 \<le> 2 * (i mod 2 ^ w)" by simp
    finally show ?thesis using True by (simp add: c_signed_def fits_signed_def Let_def)
  next
    case False
    obtain m where m: "m = i mod 2 ^ w" by simp
    have "0 < (2::int) ^ w" by simp
    with a(2) have "2 * m - 2 * 2 ^ w < 2 ^ w" unfolding m by linarith
    with False a show ?thesis by (simp add: c_signed_def fits_signed_def m)
  qed
qed

lemma c_signed_mod: "c_signed w (i mod 2 ^ w) = c_signed w i"
  by (simp add: c_signed_def)

lemma c_signed_c_unsigned [simp]: "c_signed w (int (c_unsigned w i)) = c_signed w i"
  by (simp add: int_c_unsigned c_signed_mod)

lemma fits_signed_mono: "fits_signed v i \<Longrightarrow> v \<le> w \<Longrightarrow> fits_signed w i"
proof -
  assume a: "fits_signed v i" and b: "v \<le> w"
  from b have "(2::int) ^ v \<le> 2 ^ w" by simp
  with a show ?thesis unfolding fits_signed_def by linarith
qed

section \<open>Bit operations as arithmetic\<close>

text \<open>
  Shifts and masks of the code, on numbers without a width: a right shift is a division, a mask
  of low bits a remainder, and an \<open>OR\<close> of parts that do not overlap a sum.
\<close>

lemma and_mask_mod:
  "x AND 1 = x mod (2::nat)" "x AND 3 = x mod (4::nat)" "x AND 7 = x mod (8::nat)"
  "x AND 15 = x mod (16::nat)" "x AND 31 = x mod (32::nat)" "x AND 63 = x mod (64::nat)"
  "x AND 127 = x mod (128::nat)" "x AND 255 = x mod (256::nat)"
  using take_bit_eq_mask [of 1 x] take_bit_eq_mask [of 2 x] take_bit_eq_mask [of 3 x]
    take_bit_eq_mask [of 4 x] take_bit_eq_mask [of 5 x] take_bit_eq_mask [of 6 x]
    take_bit_eq_mask [of 7 x] take_bit_eq_mask [of 8 x]
  by (simp_all add: take_bit_eq_mod mask_eq_exp_minus_1)

lemma and_mask_mod_int:
  "x AND 1 = x mod (2::int)" "x AND 31 = x mod (32::int)" "x AND 63 = x mod (64::int)"
  "x AND 127 = x mod (128::int)" "x AND 255 = x mod (256::int)"
  using take_bit_eq_mask [of 1 x] take_bit_eq_mask [of 5 x] take_bit_eq_mask [of 6 x]
    take_bit_eq_mask [of 7 x] take_bit_eq_mask [of 8 x]
  by (simp_all add: take_bit_eq_mod mask_eq_exp_minus_1)

lemma or_shifted_add:
  fixes x y :: nat
  assumes "x < 2 ^ n"
  shows "x OR y * 2 ^ n = x + y * 2 ^ n"
proof -
  have x: "take_bit n x = x" using assms by (simp add: take_bit_nat_eq_self_iff)
  have "bit (take_bit n x AND push_bit n y) i = bit (0::nat) i" for i
    by (auto simp: bit_simps)
  then have "x AND push_bit n y = 0" unfolding x by (rule bit_eqI)
  then show ?thesis
    by (simp add: disjunctive_add_eq_or [symmetric] push_bit_eq_mult)
qed

lemma or_push_bit_add:
  "(x :: nat) < 2 ^ n \<Longrightarrow> x OR push_bit n y = x + y * 2 ^ n"
  "(x :: nat) < 2 ^ n \<Longrightarrow> push_bit n y OR x = x + y * 2 ^ n"
  using or_shifted_add [of x n y] by (simp_all add: push_bit_eq_mult or.commute)

lemma and_push_bit: "(n :: nat) AND push_bit k m = push_bit k (drop_bit k n AND m)"
  by (rule bit_eqI) (auto simp: bit_simps)

lemma and_high_mask:
  "(n :: nat) AND 128 = n div 128 mod 2 * 128" "n AND 192 = n div 64 mod 4 * 64"
  "n AND 224 = n div 32 mod 8 * 32" "n AND 240 = n div 16 mod 16 * 16"
  using and_push_bit [of n 7 1] and_push_bit [of n 6 3] and_push_bit [of n 5 7] and_push_bit [of n 4 15]
  by (simp_all add: drop_bit_eq_div push_bit_eq_mult and_mask_mod)

lemma div_eq_range: "0 < k \<Longrightarrow> n div k = q \<longleftrightarrow> q * k \<le> n \<and> n < (q + 1) * k" for n k q :: nat
  using less_eq_div_iff_mult_less_eq [of k q n] div_less_iff_less_mult [of k n "q + 1"] by auto

lemma high_mask_range:
  assumes "(n :: nat) < 256"
  shows "n AND 128 = 0 \<longleftrightarrow> n < 128" "n AND 192 = 128 \<longleftrightarrow> 128 \<le> n \<and> n < 192"
    "n AND 224 = 192 \<longleftrightarrow> 192 \<le> n \<and> n < 224" "n AND 240 = 224 \<longleftrightarrow> 224 \<le> n \<and> n < 240"
    "n AND 255 = n"
proof -
  have div: "n div 128 < 2" "n div 64 < 4" "n div 32 < 8" "n div 16 < 16"
    using assms by (simp_all add: div_less_iff_less_mult)
  show "n AND 128 = 0 \<longleftrightarrow> n < 128"
    unfolding and_high_mask(1) using div(1) by (simp add: div_eq_0_iff)
  have "n div 64 * 64 = 128 \<longleftrightarrow> n div 64 = 2" by linarith
  then show "n AND 192 = 128 \<longleftrightarrow> 128 \<le> n \<and> n < 192"
    unfolding and_high_mask(2) using div(2) by (simp add: div_eq_range)
  have "n div 32 * 32 = 192 \<longleftrightarrow> n div 32 = 6" by linarith
  then show "n AND 224 = 192 \<longleftrightarrow> 192 \<le> n \<and> n < 224"
    unfolding and_high_mask(3) using div(3) by (simp add: div_eq_range)
  have "n div 16 * 16 = 224 \<longleftrightarrow> n div 16 = 14" by linarith
  then show "n AND 240 = 224 \<longleftrightarrow> 224 \<le> n \<and> n < 240"
    unfolding and_high_mask(4) using div(4) by (simp add: div_eq_range)
  show "n AND 255 = n" using assms by (simp add: and_mask_mod)
qed

lemma unat_and_byte: "unat (a AND b) = unat a AND unat (b :: byte)"
  by (rule unsigned_and_eq)

section \<open>Blocks of memory\<close>

definition chunk :: "'a list \<Rightarrow> nat \<Rightarrow> nat \<Rightarrow> 'a list" where
  "chunk m off n = take n (drop off m)"

definition blit :: "'a list \<Rightarrow> nat \<Rightarrow> 'a list \<Rightarrow> 'a list" where
  "blit m off xs = take off m @ xs @ drop (off + length xs) m"

text \<open>\<open>memmove(m + dst, m + src, n)\<close>, and \<open>realloc\<close> to \<open>n\<close> bytes (fresh bytes are zero here;
  the code never reads one before writing it).\<close>

definition memmove :: "'a list \<Rightarrow> nat \<Rightarrow> nat \<Rightarrow> nat \<Rightarrow> 'a list" where
  "memmove m dst src n = blit m dst (chunk m src n)"

definition zrealloc :: "bytes \<Rightarrow> nat \<Rightarrow> bytes" where
  "zrealloc m n = take n m @ replicate (n - length m) 0"

lemma length_chunk [simp]: "length (chunk m off n) = min n (length m - off)"
  by (simp add: chunk_def)

lemma length_blit [simp]: "off + length xs \<le> length m \<Longrightarrow> length (blit m off xs) = length m"
  by (simp add: blit_def)

lemma length_memmove [simp]:
  "src + n \<le> length m \<Longrightarrow> dst + n \<le> length m \<Longrightarrow> length (memmove m dst src n) = length m"
  by (simp add: memmove_def)

lemma length_zrealloc [simp]: "length (zrealloc m n) = n"
  by (simp add: zrealloc_def)

lemma nth_chunk [simp]: "i < n \<Longrightarrow> off + i < length m \<Longrightarrow> chunk m off n ! i = m ! (off + i)"
  by (simp add: chunk_def)

lemma nth_blit:
  "off + length xs \<le> length m \<Longrightarrow> i < length m \<Longrightarrow>
   blit m off xs ! i = (if off \<le> i \<and> i < off + length xs then xs ! (i - off) else m ! i)"
  by (auto simp: blit_def nth_append)

lemma chunk_blit_same [block_simps]:
  "off + length xs \<le> length m \<Longrightarrow> n = length xs \<Longrightarrow> chunk (blit m off xs) off n = xs"
  by (simp add: chunk_def blit_def)

lemma chunk_blit_other [block_simps]:
  assumes "off + length xs \<le> length m" "p + n \<le> off \<or> off + length xs \<le> p" "p + n \<le> length m"
  shows "chunk (blit m off xs) p n = chunk m p n"
  using assms by (intro nth_equalityI) (auto simp: nth_blit)

lemma chunk_memmove_to [block_simps]:
  "src + n \<le> length m \<Longrightarrow> dst + n \<le> length m \<Longrightarrow> i + k \<le> n \<Longrightarrow>
   chunk (memmove m dst src n) (dst + i) k = chunk m (src + i) k"
  by (intro nth_equalityI) (auto simp: memmove_def nth_blit add.assoc)

lemma chunk_memmove_other [block_simps]:
  "src + n \<le> length m \<Longrightarrow> dst + n \<le> length m \<Longrightarrow> p + k \<le> dst \<or> dst + n \<le> p \<Longrightarrow>
   p + k \<le> length m \<Longrightarrow> chunk (memmove m dst src n) p k = chunk m p k"
  by (simp add: memmove_def chunk_blit_other)

lemma chunk_zrealloc [block_simps]:
  "p + k \<le> length m \<Longrightarrow> p + k \<le> n \<Longrightarrow> chunk (zrealloc m n) p k = chunk m p k"
  by (intro nth_equalityI) (auto simp: zrealloc_def nth_append)

lemma chunk_append_left [simp]: "p + k \<le> length xs \<Longrightarrow> chunk (xs @ ys) p k = chunk xs p k"
  by (simp add: chunk_def)

lemma chunk_append_right [simp]: "chunk (xs @ ys) (length xs + p) k = chunk ys p k"
  by (simp add: chunk_def)

lemma chunk_all [simp]: "chunk xs 0 (length xs) = xs"
  by (simp add: chunk_def)

section \<open>Little-endian numbers\<close>

primrec le_bytes :: "nat \<Rightarrow> nat \<Rightarrow> bytes" where
  "le_bytes 0 v = []"
| "le_bytes (Suc n) v = word_of_nat v # le_bytes n (v div 256)"

primrec le_nat :: "bytes \<Rightarrow> nat" where
  "le_nat [] = 0"
| "le_nat (b # bs) = unat b + 256 * le_nat bs"

lemma length_le_bytes [simp]: "length (le_bytes n v) = n"
  by (induction n arbitrary: v) simp_all

lemma unat_of_nat_byte [simp]: "unat (word_of_nat v :: byte) = v mod 256"
  by (simp add: unat_of_nat)

lemma le_nat_le_bytes [simp]: "le_nat (le_bytes n v) = v mod 256 ^ n"
proof (induction n arbitrary: v)
  case (Suc n)
  then show ?case by (simp add: mod_mult2_eq)
qed simp

lemma unat_byte_less [simp]: "unat (b :: byte) < 256"
  using unsigned_less [of b] by simp

lemma le_nat_less: "le_nat bs < 256 ^ length bs"
proof (induction bs)
  case (Cons b bs)
  have "unat b + 256 * le_nat bs < 256 * (le_nat bs + 1)" using unat_byte_less [of b] by simp
  also have "\<dots> \<le> 256 * 256 ^ length bs" using Cons by simp
  finally show ?case by simp
qed simp

lemma byte_256: "(256 :: byte) = 0"
  by (simp add: word_unat_eq_iff unat_numeral)

lemma le_bytes_le_nat [simp]: "n = length bs \<Longrightarrow> le_bytes n (le_nat bs) = bs"
proof (induction bs arbitrary: n)
  case (Cons b bs)
  have "(unat b + 256 * le_nat bs) div 256 = le_nat bs" using unat_byte_less [of b] by simp
  moreover have "word_of_nat (unat b + 256 * le_nat bs) = b"
    by (simp add: byte_256)
  ultimately show ?case using Cons by simp
qed simp

lemma le_nat_append: "le_nat (xs @ ys) = le_nat xs + 256 ^ length xs * le_nat ys"
  by (induction xs) (simp_all add: algebra_simps)

end
