(* ===== verification/Endianconv.thy ===== *)
theory Endianconv
  imports Prelude
begin

text \<open>
  \<open>endianconv.c\<close> and the macros of \<open>endianconv.h\<close>: byte reversal in place, and the conversions
  that run only on a big-endian host. The host's byte order is the parameter \<open>be\<close> (true for a
  big-endian host), so that what the storage formats promise can be stated for both hosts: a
  number stored through \<open>memrevNNifbe\<close> is little-endian in memory whatever the host.
\<close>

section \<open>The host's representation of an unsigned number\<close>

definition host_bytes :: "bool \<Rightarrow> nat \<Rightarrow> nat \<Rightarrow> bytes" where
  "host_bytes be n v = (if be then rev (le_bytes n v) else le_bytes n v)"

definition host_nat :: "bool \<Rightarrow> bytes \<Rightarrow> nat" where
  "host_nat be bs = le_nat (if be then rev bs else bs)"

section \<open>Reversal in place\<close>

definition memrev16 :: "bytes \<Rightarrow> bytes" where
  "memrev16 x =
     (let t = x ! 0; x = x[0 := x ! 1]; x = x[1 := t] in x)"

definition memrev32 :: "bytes \<Rightarrow> bytes" where
  "memrev32 x =
     (let t = x ! 0; x = x[0 := x ! 3]; x = x[3 := t];
          t = x ! 1; x = x[1 := x ! 2]; x = x[2 := t] in x)"

definition memrev64 :: "bytes \<Rightarrow> bytes" where
  "memrev64 x =
     (let t = x ! 0; x = x[0 := x ! 7]; x = x[7 := t];
          t = x ! 1; x = x[1 := x ! 6]; x = x[6 := t];
          t = x ! 2; x = x[2 := x ! 5]; x = x[5 := t];
          t = x ! 3; x = x[3 := x ! 4]; x = x[4 := t] in x)"

definition intrev16 :: "bool \<Rightarrow> nat \<Rightarrow> nat" where
  "intrev16 be v = host_nat be (memrev16 (host_bytes be 2 v))"

definition intrev32 :: "bool \<Rightarrow> nat \<Rightarrow> nat" where
  "intrev32 be v = host_nat be (memrev32 (host_bytes be 4 v))"

definition intrev64 :: "bool \<Rightarrow> nat \<Rightarrow> nat" where
  "intrev64 be v = host_nat be (memrev64 (host_bytes be 8 v))"

definition memrev16ifbe :: "bool \<Rightarrow> bytes \<Rightarrow> bytes" where
  "memrev16ifbe be x = (if be then memrev16 x else x)"

definition memrev32ifbe :: "bool \<Rightarrow> bytes \<Rightarrow> bytes" where
  "memrev32ifbe be x = (if be then memrev32 x else x)"

definition memrev64ifbe :: "bool \<Rightarrow> bytes \<Rightarrow> bytes" where
  "memrev64ifbe be x = (if be then memrev64 x else x)"

definition intrev32ifbe :: "bool \<Rightarrow> nat \<Rightarrow> nat" where
  "intrev32ifbe be v = (if be then intrev32 be v else v)"

section \<open>Reversal, and its inverse\<close>

lemma memrev16_rev: "length x = 2 \<Longrightarrow> memrev16 x = rev x"
  by (auto simp: memrev16_def length_Suc_conv numeral_2_eq_2)

lemma memrev32_rev: "length x = 4 \<Longrightarrow> memrev32 x = rev x"
  by (auto simp: memrev32_def length_Suc_conv eval_nat_numeral)

lemma memrev64_rev: "length x = 8 \<Longrightarrow> memrev64 x = rev x"
  by (auto simp: memrev64_def length_Suc_conv eval_nat_numeral)

lemma length_host_bytes [simp]: "length (host_bytes be n v) = n"
  by (simp add: host_bytes_def)

lemma host_nat_host_bytes [simp]: "host_nat be (host_bytes be n v) = v mod 256 ^ n"
  by (simp add: host_nat_def host_bytes_def)

lemma host_bytes_host_nat [simp]: "n = length bs \<Longrightarrow> host_bytes be n (host_nat be bs) = bs"
  by (simp add: host_nat_def host_bytes_def)

lemma memrevifbe_host_bytes [simp]:
  "memrev16ifbe be (host_bytes be 2 v) = le_bytes 2 v"
  "memrev32ifbe be (host_bytes be 4 v) = le_bytes 4 v"
  "memrev64ifbe be (host_bytes be 8 v) = le_bytes 8 v"
  by (simp_all add: memrev16ifbe_def memrev32ifbe_def memrev64ifbe_def memrev16_rev memrev32_rev
      memrev64_rev host_bytes_def)

lemma host_nat_memrevifbe [simp]:
  "length x = 2 \<Longrightarrow> host_nat be (memrev16ifbe be x) = le_nat x"
  "length x = 4 \<Longrightarrow> host_nat be (memrev32ifbe be x) = le_nat x"
  "length x = 8 \<Longrightarrow> host_nat be (memrev64ifbe be x) = le_nat x"
  by (simp_all add: memrev16ifbe_def memrev32ifbe_def memrev64ifbe_def memrev16_rev memrev32_rev
      memrev64_rev host_nat_def)

lemma length_memrevifbe [simp]:
  "length x = 2 \<Longrightarrow> length (memrev16ifbe be x) = 2"
  "length x = 4 \<Longrightarrow> length (memrev32ifbe be x) = 4"
  "length x = 8 \<Longrightarrow> length (memrev64ifbe be x) = 8"
  by (simp_all add: memrev16ifbe_def memrev32ifbe_def memrev64ifbe_def memrev16_rev memrev32_rev
      memrev64_rev)

lemma host_bytes_intrev32ifbe:
  "host_bytes be 4 (intrev32ifbe be v) = le_bytes 4 v"
  by (simp add: intrev32ifbe_def intrev32_def memrev32_rev) (simp add: host_bytes_def)

lemma intrev32_involutive:
  "intrev32 be (intrev32 be v) = v mod 2 ^ 32"
  by (simp add: intrev32_def memrev32_rev)

lemma intrev32ifbe_involutive [simp]:
  "v < 2 ^ 32 \<Longrightarrow> intrev32ifbe be (intrev32ifbe be v) = v"
  by (simp add: intrev32ifbe_def intrev32_involutive)

lemma intrev32_less [simp]: "intrev32 be v < 4294967296"
  using le_nat_less [of "memrev32 (host_bytes be 4 v)"] le_nat_less [of "rev (memrev32 (host_bytes be 4 v))"]
  by (cases be) (simp_all add: intrev32_def host_nat_def memrev32_rev)

lemma intrev32ifbe_less [simp]: "v < 4294967296 \<Longrightarrow> intrev32ifbe be v < 4294967296"
  by (simp add: intrev32ifbe_def)

lemma le_bytes_0: "le_bytes n 0 = replicate n 0"
  by (induction n) simp_all

lemma le_nat_zeros: "le_nat (replicate n 0) = 0"
  by (induction n) simp_all

lemma intrev32ifbe_0 [simp]: "intrev32ifbe be 0 = 0"
  by (simp add: intrev32ifbe_def intrev32_def memrev32_rev host_bytes_def host_nat_def le_bytes_0
      le_nat_zeros)

end
