(* ===== verification/Set_Interface.thy ===== *)
theory Set_Interface
  imports Prelude
begin

text \<open>
  The contract of a set of bounded size: what the code that stores members (the set type of
  \<open>t_set.c\<close>) relies on, whatever the encoding. A provider gives the empty set, insertion and
  removal with a flag that says whether anything changed, and a membership test; the contract
  states them over the abstract set. The client part runs a sequence of insertions and removals
  and is proved here once, for every provider.
\<close>

datatype 'a set_op = Insert_op 'a | Remove_op 'a

primrec set_op_arg :: "'a set_op \<Rightarrow> 'a" where
  "set_op_arg (Insert_op x) = x"
| "set_op_arg (Remove_op x) = x"

text \<open>The operation on abstract sets, and the flag it reports.\<close>

primrec set_spec :: "'a set_op \<Rightarrow> 'a set \<Rightarrow> 'a set" where
  "set_spec (Insert_op x) A = insert x A"
| "set_spec (Remove_op x) A = A - {x}"

primrec set_spec_flag :: "'a set_op \<Rightarrow> 'a set \<Rightarrow> bool" where
  "set_spec_flag (Insert_op x) A = (x \<notin> A)"
| "set_spec_flag (Remove_op x) A = (x \<in> A)"

text \<open>A run over an implementation, with the flags in order.\<close>

primrec set_step :: "('s \<Rightarrow> 'a \<Rightarrow> 's \<times> bool) \<Rightarrow> ('s \<Rightarrow> 'a \<Rightarrow> 's \<times> bool) \<Rightarrow> 's \<Rightarrow> 'a set_op \<Rightarrow> 's \<times> bool" where
  "set_step add rem s (Insert_op x) = add s x"
| "set_step add rem s (Remove_op x) = rem s x"

fun set_run :: "('s \<Rightarrow> 'a \<Rightarrow> 's \<times> bool) \<Rightarrow> ('s \<Rightarrow> 'a \<Rightarrow> 's \<times> bool) \<Rightarrow> 's \<Rightarrow> 'a set_op list \<Rightarrow> 's \<times> bool list" where
  "set_run add rem s [] = (s, [])"
| "set_run add rem s (c # cs) =
     (let (s, b) = set_step add rem s c; (s, bs) = set_run add rem s cs in (s, b # bs))"

fun set_spec_flags :: "'a set \<Rightarrow> 'a set_op list \<Rightarrow> bool list" where
  "set_spec_flags A [] = []"
| "set_spec_flags A (c # cs) = set_spec_flag c A # set_spec_flags (set_spec c A) cs"

lemma finite_set_spec: "finite A \<Longrightarrow> finite (set_spec c A)"
  by (cases c) simp_all

lemma card_set_spec: "finite A \<Longrightarrow> card (set_spec c A) \<le> Suc (card A)"
  by (cases c) (simp_all add: card_insert_if card_Diff1_le le_SucI)

lemma card_fold_set_spec: "finite A \<Longrightarrow> card (fold set_spec cs A) \<le> card A + length cs"
proof (induction cs arbitrary: A)
  case (Cons c cs)
  have "card (fold set_spec cs (set_spec c A)) \<le> card (set_spec c A) + length cs"
    using Cons.prems by (intro Cons.IH finite_set_spec)
  with card_set_spec [OF Cons.prems, of c] show ?case by simp
qed simp

locale bounded_set =
  fixes empty :: 's
    and add :: "'s \<Rightarrow> 'a \<Rightarrow> 's \<times> bool"
    and rem :: "'s \<Rightarrow> 'a \<Rightarrow> 's \<times> bool"
    and mem :: "'s \<Rightarrow> 'a \<Rightarrow> bool"
    and abs :: "'s \<Rightarrow> 'a set"
    and inv :: "'s \<Rightarrow> bool"
    and valid :: "'a \<Rightarrow> bool"
    and room :: nat
  assumes empty_inv: "inv empty" and empty_abs: "abs empty = {}"
    and add_spec: "inv s \<Longrightarrow> valid x \<Longrightarrow> card (abs s) < room \<Longrightarrow> add s x = (s', b) \<Longrightarrow>
          inv s' \<and> abs s' = insert x (abs s) \<and> b = (x \<notin> abs s)"
    and rem_spec: "inv s \<Longrightarrow> valid x \<Longrightarrow> card (abs s) < room \<Longrightarrow> rem s x = (s', b) \<Longrightarrow>
          inv s' \<and> abs s' = abs s - {x} \<and> b = (x \<in> abs s)"
    and mem_spec: "inv s \<Longrightarrow> card (abs s) < room \<Longrightarrow> mem s x \<longleftrightarrow> x \<in> abs s"
    and abs_finite: "finite (abs s)"
begin

lemma step_spec:
  assumes "inv s" "valid (set_op_arg c)" "card (abs s) < room" "set_step add rem s c = (s', b)"
  shows "inv s' \<and> abs s' = set_spec c (abs s) \<and> b = set_spec_flag c (abs s)"
proof (cases c)
  case (Insert_op x)
  with assms add_spec [of s x s' b] show ?thesis by simp
next
  case (Remove_op x)
  with assms rem_spec [of s x s' b] show ?thesis by simp
qed

text \<open>A run of at most as many operations as there is room for behaves as the abstract sets do.\<close>

lemma run_spec:
  assumes "inv s" "\<forall>c \<in> set cs. valid (set_op_arg c)" "card (abs s) + length cs \<le> room"
    "set_run add rem s cs = (s', bs)"
  shows "inv s' \<and> abs s' = fold set_spec cs (abs s) \<and> bs = set_spec_flags (abs s) cs"
  using assms
proof (induction cs arbitrary: s s' bs)
  case Nil
  then show ?case by simp
next
  case (Cons c cs)
  obtain t b where t: "set_step add rem s c = (t, b)" by (metis surj_pair)
  obtain bs' where bs: "set_run add rem t cs = (s', bs')" "bs = b # bs'"
    using Cons.prems(4) t by (auto split: prod.splits)
  have st: "inv t \<and> abs t = set_spec c (abs s) \<and> b = set_spec_flag c (abs s)"
    using Cons.prems t by (intro step_spec) auto
  have "card (abs t) + length cs \<le> room" using Cons.prems(3) st card_set_spec [OF abs_finite, of c s] by simp
  with Cons.IH [OF _ _ _ bs(1)] Cons.prems(2) st bs(2) show ?case by simp
qed

lemma run_empty:
  assumes "\<forall>c \<in> set cs. valid (set_op_arg c)" "length cs \<le> room" "set_run add rem empty cs = (s', bs)"
  shows "inv s' \<and> abs s' = fold set_spec cs {} \<and> bs = set_spec_flags {} cs"
  using run_spec [OF empty_inv assms(1) _ assms(3)] assms(2) by (simp add: empty_abs)

lemma run_mem:
  assumes "\<forall>c \<in> set cs. valid (set_op_arg c)" "length cs < room" "set_run add rem empty cs = (s', bs)"
  shows "mem s' x \<longleftrightarrow> x \<in> fold set_spec cs {}"
proof -
  have "card (fold set_spec cs {}) \<le> length cs" using card_fold_set_spec [of "{}" cs] by simp
  with run_empty [OF assms(1) _ assms(3)] assms(2) show ?thesis by (simp add: mem_spec)
qed

end

declare set_run.simps [simp del]

end
