(* ===== verification/Intset.thy ===== *)
theory Intset
  imports Endianconv Set_Interface
begin

text \<open>
  \<open>intset.c\<close>: sets of integers as a sorted array of 16, 32 or 64 bit numbers. The struct is a
  record of its two header fields, as the host reads them, and of the bytes of \<open>contents\<close>; the
  fields are stored through \<open>intrev32ifbe\<close>, so their little-endian form is the same on every
  host. The host's byte order is the parameter \<open>be\<close>.
\<close>

section \<open>The struct, reads and writes of elements\<close>

record intset =
  is_encoding :: nat
  is_length :: nat
  is_contents :: bytes

definition INTSET_ENC_INT16 :: nat where "INTSET_ENC_INT16 = 2"
definition INTSET_ENC_INT32 :: nat where "INTSET_ENC_INT32 = 4"
definition INTSET_ENC_INT64 :: nat where "INTSET_ENC_INT64 = 8"

lemmas intset_encs = INTSET_ENC_INT16_def INTSET_ENC_INT32_def INTSET_ENC_INT64_def

definition intsetValueEncoding :: "int \<Rightarrow> nat" where
  "intsetValueEncoding v =
     (if v < - (2 ^ 31) \<or> v > 2 ^ 31 - 1 then INTSET_ENC_INT64
      else if v < - (2 ^ 15) \<or> v > 2 ^ 15 - 1 then INTSET_ENC_INT32
      else INTSET_ENC_INT16)"

definition intsetGetEncoded :: "bool \<Rightarrow> intset \<Rightarrow> nat \<Rightarrow> nat \<Rightarrow> int" where
  "intsetGetEncoded be s pos enc =
     (if enc = INTSET_ENC_INT64 then
        c_signed 64 (int (host_nat be (memrev64ifbe be (chunk (is_contents s) (8 * pos) 8))))
      else if enc = INTSET_ENC_INT32 then
        c_signed 32 (int (host_nat be (memrev32ifbe be (chunk (is_contents s) (4 * pos) 4))))
      else
        c_signed 16 (int (host_nat be (memrev16ifbe be (chunk (is_contents s) (2 * pos) 2)))))"

definition intsetGet0 :: "bool \<Rightarrow> intset \<Rightarrow> nat \<Rightarrow> int" where
  "intsetGet0 be s pos = intsetGetEncoded be s pos (c_unsigned 8 (int (intrev32ifbe be (is_encoding s))))"

definition intsetSet :: "bool \<Rightarrow> intset \<Rightarrow> nat \<Rightarrow> int \<Rightarrow> intset" where
  "intsetSet be s pos value =
     (let encoding = intrev32ifbe be (is_encoding s) in
      if encoding = INTSET_ENC_INT64 then
        let m = blit (is_contents s) (8 * pos) (host_bytes be 8 (c_unsigned 64 value))
        in s\<lparr>is_contents := blit m (8 * pos) (memrev64ifbe be (chunk m (8 * pos) 8))\<rparr>
      else if encoding = INTSET_ENC_INT32 then
        let m = blit (is_contents s) (4 * pos) (host_bytes be 4 (c_unsigned 32 value))
        in s\<lparr>is_contents := blit m (4 * pos) (memrev32ifbe be (chunk m (4 * pos) 4))\<rparr>
      else
        let m = blit (is_contents s) (2 * pos) (host_bytes be 2 (c_unsigned 16 value))
        in s\<lparr>is_contents := blit m (2 * pos) (memrev16ifbe be (chunk m (2 * pos) 2))\<rparr>)"

definition intsetNew :: "bool \<Rightarrow> intset" where
  "intsetNew be =
     \<lparr>is_encoding = intrev32ifbe be INTSET_ENC_INT16, is_length = 0, is_contents = []\<rparr>"

definition intsetAllocSize :: "bool \<Rightarrow> intset \<Rightarrow> nat outcome" where
  "intsetAllocSize be s =
     (let sz = (intrev32ifbe be (is_length s) * intrev32ifbe be (is_encoding s)) mod 2 ^ 64
      in c_assert (sz \<le> 2 ^ 64 - 1 - 8) (Ok (8 + sz)))"

text \<open>
  \<open>intsetResize\<close> also asserts that the size does not overflow; on two 32-bit factors it never
  does (\<open>intsetResize_assert\<close> below), so the model returns the block directly.
\<close>

definition intsetResize :: "bool \<Rightarrow> intset \<Rightarrow> nat \<Rightarrow> intset" where
  "intsetResize be s len =
     (let sz = (len * intrev32ifbe be (is_encoding s)) mod 2 ^ 64
      in s\<lparr>is_contents := zrealloc (is_contents s) sz\<rparr>)"

section \<open>Search\<close>

text \<open>
  The \<open>while\<close> loop of \<open>intsetSearch\<close>, from \<open>min\<close> (\<open>mn\<close>), \<open>max\<close> (\<open>mx\<close>), \<open>mid\<close> and \<open>cur\<close>. The midpoint is taken
  on \<open>unsigned int\<close>; for bounds of C's \<open>int\<close> the sum does not wrap (\<open>search_mid_no_wrap\<close>).
\<close>

function intsetSearch_loop :: "bool \<Rightarrow> intset \<Rightarrow> int \<Rightarrow> nat \<Rightarrow> int \<Rightarrow> nat \<Rightarrow> int \<Rightarrow> nat \<times> nat \<times> int" where
  "intsetSearch_loop be s value mn mx mid cur =
     (if mx \<ge> int mn then
        let mid = nat ((int mn + mx) div 2);
            cur = intsetGet0 be s mid
        in if value > cur then intsetSearch_loop be s value (mid + 1) mx mid cur
           else if value < cur then intsetSearch_loop be s value mn (int mid - 1) mid cur
           else (mn, mid, cur)
      else (mn, mid, cur))"
  by pat_completeness auto
termination
  by (relation "measure (\<lambda>(be, s, value, mn, mx, mid, cur). nat (mx + 1 - int mn))") auto

declare intsetSearch_loop.simps [simp del]

definition intsetSearch :: "bool \<Rightarrow> intset \<Rightarrow> int \<Rightarrow> bool \<times> nat" where
  "intsetSearch be s value =
     (let mn = 0; mx = c_signed 32 (int (intrev32ifbe be (is_length s)) - 1) in
      if intrev32ifbe be (is_length s) = 0 then (False, 0)
      else if value > intsetGet0 be s (nat mx) then (False, intrev32ifbe be (is_length s))
      else if value < intsetGet0 be s 0 then (False, 0)
      else
        let (mn, mid, cur) = intsetSearch_loop be s value mn mx 0 (-1)
        in if value = cur then (True, mid) else (False, mn))"

section \<open>Insertion and removal\<close>

text \<open>The \<open>while(length--)\<close> loop that widens the elements in place, from the last to the first.\<close>

primrec upgrade_loop :: "bool \<Rightarrow> nat \<Rightarrow> nat \<Rightarrow> nat \<Rightarrow> intset \<Rightarrow> intset" where
  "upgrade_loop be prepend curenc 0 s = s"
| "upgrade_loop be prepend curenc (Suc len) s =
     upgrade_loop be prepend curenc len
       (intsetSet be s (len + prepend) (intsetGetEncoded be s len curenc))"

definition intsetUpgradeAndAdd :: "bool \<Rightarrow> intset \<Rightarrow> int \<Rightarrow> intset" where
  "intsetUpgradeAndAdd be s value =
     (let curenc = c_unsigned 8 (int (intrev32ifbe be (is_encoding s)));
          newenc = intsetValueEncoding value;
          len = c_signed 32 (int (intrev32ifbe be (is_length s)));
          prepend = (if value < 0 then 1 else 0);
          s = s\<lparr>is_encoding := intrev32ifbe be newenc\<rparr>;
          s = intsetResize be s (c_unsigned 32 (int (intrev32ifbe be (is_length s)) + 1));
          s = upgrade_loop be prepend curenc (nat len) s;
          s = (if prepend \<noteq> 0 then intsetSet be s 0 value
               else intsetSet be s (intrev32ifbe be (is_length s)) value)
      in s\<lparr>is_length := intrev32ifbe be (c_unsigned 32 (int (intrev32ifbe be (is_length s)) + 1))\<rparr>)"

definition intsetMoveTail :: "bool \<Rightarrow> intset \<Rightarrow> nat \<Rightarrow> nat \<Rightarrow> intset" where
  "intsetMoveTail be s from to =
     (let bytes = c_unsigned 32 (int (intrev32ifbe be (is_length s)) - int from);
          encoding = intrev32ifbe be (is_encoding s);
          (src, dst, bytes) =
            (if encoding = INTSET_ENC_INT64 then (8 * from, 8 * to, (bytes * 8) mod 2 ^ 32)
             else if encoding = INTSET_ENC_INT32 then (4 * from, 4 * to, (bytes * 4) mod 2 ^ 32)
             else (2 * from, 2 * to, (bytes * 2) mod 2 ^ 32))
      in s\<lparr>is_contents := memmove (is_contents s) dst src bytes\<rparr>)"

definition intsetAdd :: "bool \<Rightarrow> intset \<Rightarrow> int \<Rightarrow> intset \<times> bool" where
  "intsetAdd be s value =
     (let valenc = intsetValueEncoding value in
      if valenc > intrev32ifbe be (is_encoding s) then (intsetUpgradeAndAdd be s value, True)
      else
        let (found, pos) = intsetSearch be s value in
        if found then (s, False)
        else
          let s = intsetResize be s (c_unsigned 32 (int (intrev32ifbe be (is_length s)) + 1));
              s = (if pos < intrev32ifbe be (is_length s) then intsetMoveTail be s pos (pos + 1) else s);
              s = intsetSet be s pos value
          in (s\<lparr>is_length := intrev32ifbe be (c_unsigned 32 (int (intrev32ifbe be (is_length s)) + 1))\<rparr>,
              True))"

definition intsetRemove :: "bool \<Rightarrow> intset \<Rightarrow> int \<Rightarrow> intset \<times> bool" where
  "intsetRemove be s value =
     (let valenc = intsetValueEncoding value;
          (found, pos) =
            (if valenc \<le> intrev32ifbe be (is_encoding s) then intsetSearch be s value else (False, 0))
      in if found then
           let len = intrev32ifbe be (is_length s);
               s = (if pos < c_unsigned 32 (int len - 1) then intsetMoveTail be s (pos + 1) pos else s);
               s = intsetResize be s (c_unsigned 32 (int len - 1))
           in (s\<lparr>is_length := intrev32ifbe be (c_unsigned 32 (int len - 1))\<rparr>, True)
         else (s, False))"

section \<open>Queries\<close>

definition intsetFind :: "bool \<Rightarrow> intset \<Rightarrow> int \<Rightarrow> bool" where
  "intsetFind be s value =
     (let valenc = intsetValueEncoding value
      in valenc \<le> intrev32ifbe be (is_encoding s) \<and> fst (intsetSearch be s value))"

text \<open>\<open>rnd\<close> is the value \<open>rand()\<close> returns.\<close>

definition intsetRandom :: "bool \<Rightarrow> nat \<Rightarrow> intset \<Rightarrow> int outcome" where
  "intsetRandom be rnd s =
     (let len = intrev32ifbe be (is_length s)
      in c_assert (len \<noteq> 0) (Ok (intsetGet0 be s (rnd mod len))))"

definition intsetMax :: "bool \<Rightarrow> intset \<Rightarrow> int" where
  "intsetMax be s =
     (let len = intrev32ifbe be (is_length s) in intsetGet0 be s (c_unsigned 32 (int len - 1)))"

definition intsetMin :: "bool \<Rightarrow> intset \<Rightarrow> int" where
  "intsetMin be s = intsetGet0 be s 0"

text \<open>\<open>intsetGet\<close> answers 0 (\<open>None\<close>) or 1 and the value (\<open>Some\<close>).\<close>

definition intsetGet :: "bool \<Rightarrow> intset \<Rightarrow> nat \<Rightarrow> int option" where
  "intsetGet be s pos =
     (if pos < intrev32ifbe be (is_length s) then Some (intsetGet0 be s pos) else None)"

definition intsetLen :: "bool \<Rightarrow> intset \<Rightarrow> nat" where
  "intsetLen be s = intrev32ifbe be (is_length s)"

definition intsetBlobLen :: "bool \<Rightarrow> intset \<Rightarrow> nat" where
  "intsetBlobLen be s = 8 + intrev32ifbe be (is_length s) * intrev32ifbe be (is_encoding s)"

text \<open>The bytes of a struct, and the struct a pointer to bytes is cast to.\<close>

definition intset_blob :: "bool \<Rightarrow> intset \<Rightarrow> bytes" where
  "intset_blob be s =
     host_bytes be 4 (is_encoding s) @ host_bytes be 4 (is_length s) @ is_contents s"

definition intset_cast :: "bool \<Rightarrow> bytes \<Rightarrow> intset" where
  "intset_cast be p =
     \<lparr>is_encoding = host_nat be (chunk p 0 4), is_length = host_nat be (chunk p 4 4),
      is_contents = drop 8 p\<rparr>"

text \<open>The \<open>for\<close> loop that compares each record with the one before it, from index \<open>i\<close>.\<close>

function validate_loop :: "bool \<Rightarrow> intset \<Rightarrow> nat \<Rightarrow> nat \<Rightarrow> int \<Rightarrow> bool" where
  "validate_loop be s count i prev =
     (if i < count then
        let cur = intsetGet0 be s i
        in if cur \<le> prev then False else validate_loop be s count (i + 1) cur
      else True)"
  by pat_completeness auto
termination
  by (relation "measure (\<lambda>(be, s, count, i, prev). count - i)") auto

declare validate_loop.simps [simp del]

definition intsetValidateIntegrity :: "bool \<Rightarrow> bytes \<Rightarrow> nat \<Rightarrow> bool \<Rightarrow> bool" where
  "intsetValidateIntegrity be p sz deep =
     (let s = intset_cast be p in
      if sz < 8 then False
      else
        let encoding = intrev32ifbe be (is_encoding s) in
        if encoding \<notin> {INTSET_ENC_INT64, INTSET_ENC_INT32, INTSET_ENC_INT16} then False
        else
          let record_size = encoding; count = intrev32ifbe be (is_length s) in
          if 8 + count * record_size \<noteq> sz then False
          else if count = 0 then False
          else if \<not> deep then True
          else validate_loop be s count 1 (intsetGet0 be s 0))"

section \<open>Elements as numbers, whatever the host\<close>

abbreviation is_enc :: "bool \<Rightarrow> intset \<Rightarrow> nat" where
  "is_enc be s \<equiv> intrev32ifbe be (is_encoding s)"

abbreviation is_len :: "bool \<Rightarrow> intset \<Rightarrow> nat" where
  "is_len be s \<equiv> intrev32ifbe be (is_length s)"

definition elt :: "nat \<Rightarrow> bytes \<Rightarrow> nat \<Rightarrow> int" where
  "elt enc m pos = c_signed (8 * enc) (int (le_nat (chunk m (enc * pos) enc)))"

definition put :: "nat \<Rightarrow> bytes \<Rightarrow> nat \<Rightarrow> int \<Rightarrow> bytes" where
  "put enc m pos v = blit m (enc * pos) (le_bytes enc (c_unsigned (8 * enc) v))"

definition intset_elems :: "bool \<Rightarrow> intset \<Rightarrow> int list" where
  "intset_elems be s = map (elt (is_enc be s) (is_contents s)) [0..<is_len be s]"

definition intset_wf :: "bool \<Rightarrow> intset \<Rightarrow> bool" where
  "intset_wf be s \<longleftrightarrow>
     is_encoding s < 2 ^ 32 \<and> is_length s < 2 ^ 32 \<and> is_enc be s \<in> {2, 4, 8} \<and>
     length (is_contents s) = is_len be s * is_enc be s \<and> sorted_wrt (<) (intset_elems be s)"

lemma length_put [simp]: "enc * pos + enc \<le> length m \<Longrightarrow> length (put enc m pos v) = length m"
  by (simp add: put_def)

lemma elt_put_same [block_simps]:
  "enc * pos + enc \<le> length m \<Longrightarrow> fits_signed (8 * enc) v \<Longrightarrow> elt enc (put enc m pos v) pos = v"
proof -
  assume a: "enc * pos + enc \<le> length m" "fits_signed (8 * enc) v"
  have "c_unsigned (8 * enc) v < 256 ^ enc"
    using c_unsigned_less [of "8 * enc" v] by (simp add: power_mult)
  with a show ?thesis
    by (simp add: elt_def put_def chunk_blit_same c_signed_id)
qed

lemma elt_put_disjoint:
  "enc' * pos' + enc' \<le> length m \<Longrightarrow> enc * pos + enc \<le> length m \<Longrightarrow>
   enc * pos + enc \<le> enc' * pos' \<or> enc' * pos' + enc' \<le> enc * pos \<Longrightarrow>
   elt enc (put enc' m pos' v) pos = elt enc m pos"
  by (simp add: elt_def put_def chunk_blit_other)

lemma elt_put_other [block_simps]:
  assumes "enc * pos' + enc \<le> length m" "enc * pos + enc \<le> length m" "pos \<noteq> pos'"
  shows "elt enc (put enc m pos' v) pos = elt enc m pos"
proof -
  from assms(3) have "enc * pos + enc \<le> enc * pos' \<or> enc * pos' + enc \<le> enc * pos"
    by (metis Suc_leI linorder_neqE_nat mult_Suc_right mult_le_mono2 add.commute)
  with assms show ?thesis by (simp add: elt_put_disjoint)
qed

lemma intsetGetEncoded_elt:
  "enc \<in> {2, 4, 8} \<Longrightarrow> enc * pos + enc \<le> length (is_contents s) \<Longrightarrow>
   intsetGetEncoded be s pos enc = elt enc (is_contents s) pos"
  by (auto simp: intsetGetEncoded_def elt_def intset_encs)

lemma blit_twice: "length xs = length ys \<Longrightarrow> off \<le> length m \<Longrightarrow> blit (blit m off xs) off ys = blit m off ys"
  by (simp add: blit_def)

lemma intsetSet_put:
  "is_enc be s \<in> {2, 4, 8} \<Longrightarrow> is_enc be s * pos + is_enc be s \<le> length (is_contents s) \<Longrightarrow>
   intsetSet be s pos v = s\<lparr>is_contents := put (is_enc be s) (is_contents s) pos v\<rparr>"
  by (auto simp: intsetSet_def put_def intset_encs chunk_blit_same blit_twice)

lemma intsetGet0_elt:
  "is_enc be s \<in> {2, 4, 8} \<Longrightarrow> is_enc be s * pos + is_enc be s \<le> length (is_contents s) \<Longrightarrow>
   intsetGet0 be s pos = elt (is_enc be s) (is_contents s) pos"
  by (auto simp: intsetGet0_def intsetGetEncoded_elt c_unsigned_id)

lemma elt_bound: "(pos::nat) < n \<Longrightarrow> enc * pos + enc \<le> n * enc"
  by (metis Suc_leI mult.commute mult_Suc_right mult_le_mono2 add.commute)

lemma length_intset_elems [simp]: "length (intset_elems be s) = is_len be s"
  by (simp add: intset_elems_def)

lemma intsetGet0_nth:
  "intset_wf be s \<Longrightarrow> pos < is_len be s \<Longrightarrow> intsetGet0 be s pos = intset_elems be s ! pos"
  by (auto simp: intset_wf_def intset_elems_def intsetGet0_elt elt_bound)

lemma fits_elt: "fits_signed (8 * enc) (elt enc m pos)"
  by (simp add: elt_def c_signed_fits)

section \<open>The encoding of a value\<close>

lemma intsetValueEncoding_in: "intsetValueEncoding v \<in> {2, 4, 8}"
  by (simp add: intsetValueEncoding_def intset_encs)

lemma intsetValueEncoding_fits:
  "fits_signed 64 v \<Longrightarrow> intsetValueEncoding v \<le> enc \<Longrightarrow> enc \<in> {2, 4, 8} \<Longrightarrow> fits_signed (8 * enc) v"
  by (auto simp: intsetValueEncoding_def intset_encs fits_signed_def split: if_splits)

lemma intsetValueEncoding_outside:
  assumes "enc < intsetValueEncoding v" "enc \<in> {2, 4, 8}" "fits_signed (8 * enc) x"
  shows "if v < 0 then v < x else x < v"
  using assms by (auto simp: intsetValueEncoding_def intset_encs fits_signed_def split: if_splits)

section \<open>Search\<close>

lemma search_mid_no_wrap:
  "0 \<le> mn \<Longrightarrow> mn \<le> mx \<Longrightarrow> mx < 2 ^ 31 \<Longrightarrow> drop_bit 1 (c_unsigned 32 (mn + mx)) = nat ((mn + mx) div 2)"
  by (simp add: c_unsigned_id drop_bit_eq_div nat_div_distrib)

text \<open>What the loop keeps: everything left of \<open>mn\<close> is smaller, everything right of \<open>mx\<close> larger.\<close>

lemma intsetSearch_loop_correct:
  assumes "intset_wf be s" "mn \<le> is_len be s" "mx < int (is_len be s)" "int mn \<le> mx + 1"
    "\<forall>i < mn. intset_elems be s ! i < v"
    "\<forall>i < is_len be s. mx < int i \<longrightarrow> v < intset_elems be s ! i"
    "int mn \<le> mx \<or> v \<noteq> cur"
    "intsetSearch_loop be s v mn mx mid cur = (mn', mid', cur')"
  shows "if v = cur' then mid' < is_len be s \<and> intset_elems be s ! mid' = v
         else mn' \<le> is_len be s \<and> (\<forall>i < mn'. intset_elems be s ! i < v) \<and>
              (\<forall>i < is_len be s. mn' \<le> i \<longrightarrow> v < intset_elems be s ! i)"
  using assms
proof (induction be s v mn mx mid cur rule: intsetSearch_loop.induct)
  case (1 be s v mn mx mid cur)
  show ?case
  proof (cases "int mn \<le> mx")
    case False
    with "1.prems" show ?thesis by (auto simp: intsetSearch_loop.simps [of be s v mn mx mid cur])
  next
    case True
    define m where "m = nat ((int mn + mx) div 2)"
    have m: "mn \<le> m" "int m \<le> mx" "m < is_len be s"
      using True "1.prems"(3) by (auto simp: m_def)
    have cur: "intsetGet0 be s m = intset_elems be s ! m"
      using m(3) "1.prems"(1) by (simp add: intsetGet0_nth)
    have sorted: "sorted_wrt (<) (intset_elems be s)" using "1.prems"(1) by (simp add: intset_wf_def)
    have below: "intset_elems be s ! i \<le> intset_elems be s ! m" if "i \<le> m" for i
      using sorted that m(3) by (cases "i = m") (auto simp: sorted_wrt_iff_nth_less less_imp_le)
    have above: "intset_elems be s ! m \<le> intset_elems be s ! i" if "m \<le> i" "i < is_len be s" for i
      using sorted that m(3) by (cases "i = m") (auto simp: sorted_wrt_iff_nth_less less_imp_le)
    have step: "(if intset_elems be s ! m < v then intsetSearch_loop be s v (m + 1) mx m (intset_elems be s ! m)
        else if v < intset_elems be s ! m
          then intsetSearch_loop be s v mn (int m - 1) m (intset_elems be s ! m)
        else (mn, m, intset_elems be s ! m)) = (mn', mid', cur')"
      using "1.prems"(8) True cur
      by (simp add: intsetSearch_loop.simps [of be s v mn mx mid cur] Let_def m_def [symmetric]
          split: if_splits)
    consider "intset_elems be s ! m < v" | "v < intset_elems be s ! m" | "v = intset_elems be s ! m"
      by linarith
    then show ?thesis
    proof cases
      case 1
      have lt: "\<forall>i < m + 1. intset_elems be s ! i < v"
        using 1 below by (metis Suc_eq_plus1 less_Suc_eq_le order_le_less_trans)
      have ne: "int (m + 1) \<le> mx \<or> v \<noteq> intset_elems be s ! m" using 1 by simp
      have rec: "intsetSearch_loop be s v (m + 1) mx m (intset_elems be s ! m) = (mn', mid', cur')"
        using step 1 by simp
      have le: "m + 1 \<le> is_len be s" "int (m + 1) \<le> mx + 1" using m by simp_all
      show ?thesis
        by (rule "1.IH"(1) [OF True m_def cur [symmetric] 1 "1.prems"(1) le(1) "1.prems"(3) le(2) lt
              "1.prems"(6) ne rec])
    next
      case 2
      have gt: "\<forall>i < is_len be s. int m - 1 < int i \<longrightarrow> v < intset_elems be s ! i"
      proof (intro allI impI)
        fix i assume i: "i < is_len be s" "int m - 1 < int i"
        then have "m \<le> i" by simp
        from above [OF this i(1)] 2 show "v < intset_elems be s ! i" by simp
      qed
      have nlt: "\<not> intset_elems be s ! m < v" using 2 by simp
      have ne: "int mn \<le> int m - 1 \<or> v \<noteq> intset_elems be s ! m" using 2 by simp
      have rec: "intsetSearch_loop be s v mn (int m - 1) m (intset_elems be s ! m) = (mn', mid', cur')"
        using step 2 by simp
      have le: "int m - 1 < int (is_len be s)" "int mn \<le> int m - 1 + 1" using m by simp_all
      show ?thesis
        by (rule "1.IH"(2) [OF True m_def cur [symmetric] nlt 2 "1.prems"(1,2) le "1.prems"(5) gt ne rec])
    next
      case 3
      with m step show ?thesis by auto
    qed
  qed
qed

lemma intsetSearch_correct:
  assumes "intset_wf be s" "is_len be s < 2 ^ 31" "intsetSearch be s v = (found, pos)"
  shows "found \<longleftrightarrow> v \<in> set (intset_elems be s)"
    and "found \<Longrightarrow> pos < is_len be s \<and> intset_elems be s ! pos = v"
    and "\<not> found \<Longrightarrow> pos \<le> is_len be s \<and> (\<forall>i < pos. intset_elems be s ! i < v) \<and>
           (\<forall>i < is_len be s. pos \<le> i \<longrightarrow> v < intset_elems be s ! i)"
proof -
  let ?xs = "intset_elems be s" and ?n = "is_len be s"
  have post: "if found then pos < ?n \<and> ?xs ! pos = v
      else pos \<le> ?n \<and> (\<forall>i < pos. ?xs ! i < v) \<and> (\<forall>i < ?n. pos \<le> i \<longrightarrow> v < ?xs ! i)"
  proof (cases "?n = 0")
    case True
    with assms(3) show ?thesis by (auto simp: intsetSearch_def)
  next
    case False
    have mx: "c_signed 32 (int ?n - 1) = int ?n - 1"
      using assms(2) by (intro c_signed_id) (simp add: fits_signed_def)
    have sorted: "sorted_wrt (<) ?xs" using assms(1) by (simp add: intset_wf_def)
    have last: "?xs ! i \<le> ?xs ! (?n - 1)" if "i < ?n" for i
      using sorted that by (cases "i = ?n - 1") (auto simp: sorted_wrt_iff_nth_less less_imp_le)
    have first: "?xs ! 0 \<le> ?xs ! i" if "i < ?n" for i
      using sorted that by (cases "i = 0") (auto simp: sorted_wrt_iff_nth_less less_imp_le)
    have get: "intsetGet0 be s (nat (int ?n - 1)) = ?xs ! (?n - 1)" "intsetGet0 be s 0 = ?xs ! 0"
      using False assms(1) by (simp_all add: intsetGet0_nth nat_diff_distrib)
    note unfold = assms(3) [unfolded intsetSearch_def Let_def mx get]
    consider "?xs ! (?n - 1) < v" | "v < ?xs ! 0" | "v \<le> ?xs ! (?n - 1)" "?xs ! 0 \<le> v" by linarith
    then show ?thesis
    proof cases
      case 1
      with False unfold have "\<not> found" "pos = ?n" by auto
      with 1 last show ?thesis by (auto intro: le_less_trans)
    next
      case 2
      have "?xs ! 0 \<le> ?xs ! (?n - 1)" using False by (intro last) simp
      with 2 have "\<not> ?xs ! (?n - 1) < v" by simp
      with False 2 unfold have "\<not> found" "pos = 0" by auto
      with 2 first show ?thesis by (auto intro: less_le_trans)
    next
      case 3
      obtain mn' mid' cur' where
        loop: "intsetSearch_loop be s v 0 (int ?n - 1) 0 (-1) = (mn', mid', cur')"
        by (metis prod_cases3)
      have "if v = cur' then mid' < ?n \<and> ?xs ! mid' = v
         else mn' \<le> ?n \<and> (\<forall>i < mn'. ?xs ! i < v) \<and> (\<forall>i < ?n. mn' \<le> i \<longrightarrow> v < ?xs ! i)"
        using False assms(1) by (intro intsetSearch_loop_correct [OF _ _ _ _ _ _ _ loop]) auto
      with 3 False unfold loop show ?thesis by (auto split: if_splits)
    qed
  qed
  show 1: "found \<longleftrightarrow> v \<in> set ?xs"
    using post by (auto simp: in_set_conv_nth split: if_splits) (metis linorder_not_less order_less_irrefl)
  show "found \<Longrightarrow> pos < ?n \<and> ?xs ! pos = v" using post by simp
  show "\<not> found \<Longrightarrow> pos \<le> ?n \<and> (\<forall>i < pos. ?xs ! i < v) \<and> (\<forall>i < ?n. pos \<le> i \<longrightarrow> v < ?xs ! i)"
    using post by simp
qed

section \<open>Moving and widening elements\<close>

lemma elt_memmove_to [block_simps]:
  assumes "e * (from + k) \<le> length m" "e * (to + k) \<le> length m" "i < k"
  shows "elt e (memmove m (e * to) (e * from) (e * k)) (to + i) = elt e m (from + i)"
proof -
  have "e * i + e \<le> e * k" using elt_bound [OF assms(3), of e] by (simp add: mult.commute)
  with assms show ?thesis
    by (simp add: elt_def chunk_memmove_to distrib_left)
qed

lemma elt_memmove_other [block_simps]:
  assumes "e * (from + k) \<le> length m" "e * (to + k) \<le> length m" "e * i + e \<le> length m"
    "i < to \<or> to + k \<le> i"
  shows "elt e (memmove m (e * to) (e * from) (e * k)) i = elt e m i"
proof -
  have "e * i + e \<le> e * to \<or> e * to + e * k \<le> e * i"
    using assms(4) elt_bound [of i to e] mult_le_mono2 [of "to + k" i e]
    by (auto simp: mult.commute distrib_left)
  with assms show ?thesis by (simp add: elt_def chunk_memmove_other distrib_left)
qed

lemma elt_zrealloc [block_simps]:
  "e * i + e \<le> length m \<Longrightarrow> e * i + e \<le> n \<Longrightarrow> elt e (zrealloc m n) i = elt e m i"
  by (simp add: elt_def chunk_zrealloc)

lemma resize_eq:
  assumes "len < 2 ^ 32" "is_enc be s < 2 ^ 32"
  shows "intsetResize be s len = s\<lparr>is_contents := zrealloc (is_contents s) (len * is_enc be s)\<rparr>"
proof -
  have "len * is_enc be s < 2 ^ 32 * 2 ^ 32" using assms by (intro mult_strict_mono) auto
  then show ?thesis by (simp add: intsetResize_def)
qed

text \<open>The assertion of \<open>intsetResize\<close> and of \<open>intsetAllocSize\<close> cannot fail.\<close>

lemma intsetResize_assert:
  assumes "len < 2 ^ 32" "enc < 2 ^ 32"
  shows "(len * enc) mod 2 ^ 64 \<le> 2 ^ 64 - 1 - (8 :: nat)"
proof -
  have "len * enc \<le> (2 ^ 32 - 1) * (2 ^ 32 - 1)" using assms by (intro mult_le_mono) auto
  then show ?thesis by simp
qed

lemma moveTail_eq:
  assumes "is_enc be s \<in> {2, 4, 8}" "is_len be s < 2 ^ 29" "from \<le> is_len be s"
  shows "intsetMoveTail be s from to = s\<lparr>is_contents := memmove (is_contents s) (is_enc be s * to)
           (is_enc be s * from) (is_enc be s * (is_len be s - from))\<rparr>"
proof -
  have "c_unsigned 32 (int (is_len be s) - int from) = is_len be s - from"
    using assms(2,3) by (simp add: c_unsigned_id of_nat_diff [symmetric] del: of_nat_diff)
  moreover have "(is_len be s - from) * 8 < 2 ^ 32" using assms(2) by simp
  ultimately show ?thesis using assms(1) by (auto simp: intsetMoveTail_def intset_encs mult.commute)
qed

text \<open>
  One pass of the widening loop: element \<open>j\<close> is read in the old width while every element from
  \<open>j\<close> on already stands, shifted by \<open>prepend\<close>, in the new width behind it.
\<close>

lemma upgrade_loop_correct:
  assumes "is_enc be s \<in> {2, 4, 8}" "c \<in> {2, 4, 8}" "c < is_enc be s" "p \<le> 1" "l + p \<le> N"
    "N * is_enc be s \<le> length (is_contents s)"
  shows "\<exists>m. upgrade_loop be p c l s = s\<lparr>is_contents := m\<rparr> \<and> length m = length (is_contents s) \<and>
    (\<forall>j < l. elt (is_enc be s) m (j + p) = elt c (is_contents s) j) \<and>
    (\<forall>j. l + p \<le> j \<and> j < N \<longrightarrow> elt (is_enc be s) m j = elt (is_enc be s) (is_contents s) j)"
  using assms
proof (induction l arbitrary: s)
  case 0
  have "s = s\<lparr>is_contents := is_contents s\<rparr>" by simp
  then show ?case by (metis upgrade_loop.simps(1) less_nat_zero_code)
next
  case (Suc l)
  let ?e = "is_enc be s" and ?m = "is_contents s"
  have le: "?e * (l + p) + ?e \<le> length ?m"
    using Suc.prems elt_bound [of "l + p" N ?e] by simp
  have cl: "c * j + c \<le> ?e * j + ?e" for j
    using Suc.prems(3) by (intro add_mono mult_le_mono) auto
  have cle: "c * l + c \<le> length ?m"
    using cl [of l] le by (meson add_mono le_add1 le_trans mult_le_mono2 order_refl)
  let ?v = "elt c ?m l"
  let ?s = "s\<lparr>is_contents := put ?e ?m (l + p) ?v\<rparr>"
  have step: "intsetSet be s (l + p) (intsetGetEncoded be s l c) = ?s"
    using Suc.prems(1,2) le cle by (simp add: intsetSet_put intsetGetEncoded_elt)
  have fits: "fits_signed (8 * ?e) ?v"
    by (rule fits_signed_mono [OF fits_elt [of c]]) (use Suc.prems(3) in simp)
  have "\<exists>m. upgrade_loop be p c l ?s = ?s\<lparr>is_contents := m\<rparr> \<and> length m = length (is_contents ?s) \<and>
    (\<forall>j < l. elt (is_enc be ?s) m (j + p) = elt c (is_contents ?s) j) \<and>
    (\<forall>j. l + p \<le> j \<and> j < N \<longrightarrow> elt (is_enc be ?s) m j = elt (is_enc be ?s) (is_contents ?s) j)"
    using Suc.prems le by (intro Suc.IH) simp_all
  then obtain m where m: "upgrade_loop be p c l ?s = ?s\<lparr>is_contents := m\<rparr>" "length m = length ?m"
    "\<forall>j < l. elt ?e m (j + p) = elt c (put ?e ?m (l + p) ?v) j"
    "\<forall>j. l + p \<le> j \<and> j < N \<longrightarrow> elt ?e m j = elt ?e (put ?e ?m (l + p) ?v) j"
    using le by auto
  have low: "elt c (put ?e ?m (l + p) ?v) j = elt c ?m j" if "j < l" for j
  proof -
    have "c * j + c \<le> ?e * l" using cl [of j] elt_bound [OF that, of ?e] by (simp add: mult.commute)
    then have "c * j + c \<le> ?e * (l + p)" by (simp add: distrib_left)
    with le show ?thesis by (intro elt_put_disjoint) simp_all
  qed
  have mid: "elt ?e m (l + p) = elt c ?m l"
    using m(4) Suc.prems(5) le fits by (simp add: elt_put_same)
  have high: "elt ?e m j = elt ?e ?m j" if "Suc l + p \<le> j" "j < N" for j
    using that m(4) le elt_bound [OF that(2), of ?e] Suc.prems(6) by (simp add: elt_put_other)
  have "\<forall>j < Suc l. elt ?e m (j + p) = elt c ?m j"
    using m(3) low mid by (auto simp: less_Suc_eq)
  with m(1,2) high step show ?case by (intro exI [of _ m]) simp
qed

section \<open>Insertion and removal refine the operations on sets\<close>

lemma sorted_insert_at:
  fixes v :: "'a :: linorder"
  assumes "sorted_wrt (<) xs" "pos \<le> length xs" "\<forall>i < pos. xs ! i < v"
    "\<forall>i < length xs. pos \<le> i \<longrightarrow> v < xs ! i"
  shows "sorted_wrt (<) (take pos xs @ v # drop pos xs)"
    and "set (take pos xs @ v # drop pos xs) = insert v (set xs)"
proof -
  have "\<forall>x \<in> set (take pos xs). x < v" using assms(2,3) by (auto simp: in_set_conv_nth)
  moreover have "\<forall>y \<in> set (drop pos xs). v < y" using assms(4) by (auto simp: in_set_conv_nth)
  moreover have "sorted_wrt (<) (take pos xs @ drop pos xs)" using assms(1) by simp
  ultimately show "sorted_wrt (<) (take pos xs @ v # drop pos xs)"
    unfolding sorted_wrt_append by fastforce
  show "set (take pos xs @ v # drop pos xs) = insert v (set xs)"
    by (metis append_take_drop_id set_append Un_insert_right list.simps(15))
qed

lemma intsetUpgradeAndAdd_correct:
  assumes wf: "intset_wf be s" and len: "is_len be s < 2 ^ 29"
    and enc: "is_enc be s < intsetValueEncoding v" and v: "fits_signed 64 v"
  shows "intset_wf be (intsetUpgradeAndAdd be s v)"
    and "intset_elems be (intsetUpgradeAndAdd be s v) =
           (if v < 0 then v # intset_elems be s else intset_elems be s @ [v])"
proof -
  let ?e = "is_enc be s" and ?n = "is_len be s" and ?e' = "intsetValueEncoding v"
    and ?p = "(if v < 0 then 1 else 0) :: nat" and ?xs = "intset_elems be s" and ?m = "is_contents s"
  have e: "?e \<in> {2, 4, 8}" "?e' \<in> {2, 4, 8}" "length ?m = ?n * ?e" "sorted_wrt (<) ?xs"
    using wf intsetValueEncoding_in [of v] by (simp_all add: intset_wf_def)
  have e32: "?e' < 2 ^ 32" using e(2) by auto
  define m1 where "m1 = zrealloc ?m ((?n + 1) * ?e')"
  define s1 where "s1 = s\<lparr>is_encoding := intrev32ifbe be ?e', is_contents := m1\<rparr>"
  have s1: "is_enc be s1 = ?e'" "is_len be s1 = ?n" "is_contents s1 = m1"
    using e32 by (simp_all add: s1_def)
  have "\<exists>m. upgrade_loop be ?p ?e ?n s1 = s1\<lparr>is_contents := m\<rparr> \<and> length m = length (is_contents s1) \<and>
    (\<forall>j < ?n. elt (is_enc be s1) m (j + ?p) = elt ?e (is_contents s1) j) \<and>
    (\<forall>j. ?n + ?p \<le> j \<and> j < ?n + 1 \<longrightarrow> elt (is_enc be s1) m j = elt (is_enc be s1) (is_contents s1) j)"
    using e enc by (intro upgrade_loop_correct) (auto simp: s1 m1_def)
  then obtain m2 where m2: "upgrade_loop be ?p ?e ?n s1 = s1\<lparr>is_contents := m2\<rparr>"
    "length m2 = (?n + 1) * ?e'" "\<forall>j < ?n. elt ?e' m2 (j + ?p) = elt ?e m1 j"
    by (auto simp: s1 m1_def)
  define q where "q = (if v < 0 then 0 else ?n)"
  have q: "?e' * q + ?e' \<le> length m2" using m2(2) by (simp add: q_def)
  have fits: "fits_signed (8 * ?e') v" using v e(2) by (intro intsetValueEncoding_fits) auto
  define s2 where "s2 = s1\<lparr>is_contents := put ?e' m2 q v, is_length := intrev32ifbe be (?n + 1)\<rparr>"
  have res: "intsetUpgradeAndAdd be s v = s2"
  proof -
    have "c_signed 32 (int ?n) = int ?n" using len by (intro c_signed_id) (simp add: fits_signed_def)
    moreover have "c_unsigned 8 (int ?e) = ?e" using e(1) by (auto simp: c_unsigned_id)
    moreover have "c_unsigned 32 (int ?n + 1) = ?n + 1" using len by (simp add: c_unsigned_id)
    moreover have "intsetResize be (s\<lparr>is_encoding := intrev32ifbe be ?e'\<rparr>) (?n + 1) = s1"
      using e32 len by (simp add: resize_eq s1_def m1_def)
    moreover have "intsetSet be (s1\<lparr>is_contents := m2\<rparr>) q v = s1\<lparr>is_contents := put ?e' m2 q v\<rparr>"
      using s1 e(2) q by (simp add: intsetSet_put)
    ultimately show ?thesis
      using m2(1) s1(2) by (simp add: intsetUpgradeAndAdd_def Let_def s2_def q_def split: if_splits)
  qed
  have s2: "is_enc be s2 = ?e'" "is_len be s2 = ?n + 1" "is_contents s2 = put ?e' m2 q v"
    using e32 len by (simp_all add: s2_def s1_def)
  have old: "elt ?e m1 j = ?xs ! j" if "j < ?n" for j
  proof -
    have a: "?e * j + ?e \<le> ?n * ?e" using that by (rule elt_bound)
    also have "\<dots> \<le> (?n + 1) * ?e'" using enc by (intro mult_le_mono) auto
    finally show ?thesis using a that e(3) by (simp add: m1_def elt_zrealloc intset_elems_def)
  qed
  have moved: "elt ?e' (put ?e' m2 q v) (j + ?p) = ?xs ! j" if "j < ?n" for j
  proof -
    have "?e' * (j + ?p) + ?e' \<le> length m2" using elt_bound [of "j + ?p" "?n + 1" ?e'] that m2(2) by simp
    moreover have "j + ?p \<noteq> q" using that by (simp add: q_def)
    ultimately show ?thesis using q m2(3) old that by (simp add: elt_put_other)
  qed
  have new: "elt ?e' (put ?e' m2 q v) q = v" using q fits by (simp add: elt_put_same)
  show elems: "intset_elems be (intsetUpgradeAndAdd be s v) = (if v < 0 then v # ?xs else ?xs @ [v])"
  proof (rule nth_equalityI)
    show "length (intset_elems be (intsetUpgradeAndAdd be s v)) = length (if v < 0 then v # ?xs else ?xs @ [v])"
      by (simp add: res s2)
    fix i assume "i < length (intset_elems be (intsetUpgradeAndAdd be s v))"
    then have i: "i < ?n + 1" by (simp add: res s2)
    then have nth: "intset_elems be (intsetUpgradeAndAdd be s v) ! i = elt ?e' (put ?e' m2 q v) i"
      by (simp add: intset_elems_def res s2 del: upt_Suc)
    show "intset_elems be (intsetUpgradeAndAdd be s v) ! i = (if v < 0 then v # ?xs else ?xs @ [v]) ! i"
      using i moved [of "i - ?p"] new unfolding nth
      by (cases "i = q") (auto simp: q_def nth_append nth_Cons' split: if_splits)
  qed
  have "\<forall>x \<in> set ?xs. if v < 0 then v < x else x < v"
    using intsetValueEncoding_outside [OF enc e(1) fits_elt] by (auto simp: intset_elems_def)
  then have "sorted_wrt (<) (intset_elems be s2)"
    using e(4) elems by (auto simp: res sorted_wrt_append split: if_splits)
  moreover have "is_encoding s2 < 2 ^ 32" "is_length s2 < 2 ^ 32"
    using e32 len by (simp_all add: s2_def s1_def)
  ultimately show "intset_wf be (intsetUpgradeAndAdd be s v)"
    using e(2) q m2(2) by (simp add: intset_wf_def res s2)
qed

text \<open>
  The array after an insertion at \<open>pos\<close> that moves the tail up, and after a removal at \<open>pos\<close>
  that moves it down.
\<close>

lemma elems_insert_move:
  assumes "length m = (n + 1) * e" "pos \<le> n" "fits_signed (8 * e) v"
  shows "map (elt e (put e (memmove m (e * (pos + 1)) (e * pos) (e * (n - pos))) pos v)) [0..<n + 1] =
         take pos (map (elt e m) [0..<n]) @ v # drop pos (map (elt e m) [0..<n])"
    (is "map (elt e (put e ?mm pos v)) _ = take pos ?xs @ v # drop pos ?xs")
proof (rule nth_equalityI)
  show "length (map (elt e (put e ?mm pos v)) [0..<n + 1]) = length (take pos ?xs @ v # drop pos ?xs)"
    using assms(2) by simp
  fix i assume "i < length (map (elt e (put e ?mm pos v)) [0..<n + 1])"
  then have i: "i < n + 1" by simp
  have fit: "e * (pos + (n - pos)) \<le> length m" "e * (pos + 1 + (n - pos)) \<le> length m"
    using assms(1,2) by (simp_all add: mult.commute)
  then have mm: "length ?mm = length m" by (intro length_memmove) (simp_all add: distrib_left)
  have in_m: "e * j + e \<le> length m" if "j < n + 1" for j
    using elt_bound [OF that, of e] assms(1) by simp
  have "elt e (put e ?mm pos v) i = (take pos ?xs @ v # drop pos ?xs) ! i"
  proof (cases "i = pos")
    case True
    then show ?thesis using in_m [OF i] mm assms(2,3) by (simp add: elt_put_same nth_append)
  next
    case False
    then have "elt e (put e ?mm pos v) i = elt e ?mm i"
      using in_m [OF i] in_m [of pos] mm assms(2) by (simp add: elt_put_other)
    moreover have "elt e ?mm i = (if i < pos then elt e m i else elt e m (i - 1))"
    proof (cases "i < pos")
      case True
      then have "elt e ?mm i = elt e m i" using fit in_m [OF i] by (intro elt_memmove_other) simp_all
      with True show ?thesis by simp
    next
      case False
      with \<open>i \<noteq> pos\<close> i have "elt e ?mm (pos + 1 + (i - pos - 1)) = elt e m (pos + (i - pos - 1))"
        using fit by (intro elt_memmove_to) auto
      with False \<open>i \<noteq> pos\<close> show ?thesis by simp
    qed
    ultimately show ?thesis using False i assms(2) by (auto simp: nth_append nth_Cons')
  qed
  then show "map (elt e (put e ?mm pos v)) [0..<n + 1] ! i = (take pos ?xs @ v # drop pos ?xs) ! i"
    using i by (simp del: upt_Suc)
qed

lemma elems_remove_move:
  assumes "length m = n * e" "pos < n"
  shows "map (elt e (memmove m (e * pos) (e * (pos + 1)) (e * (n - (pos + 1))))) [0..<n - 1] =
         take pos (map (elt e m) [0..<n]) @ drop (pos + 1) (map (elt e m) [0..<n])"
    (is "map (elt e ?mm) _ = take pos ?xs @ drop (pos + 1) ?xs")
proof (rule nth_equalityI)
  show "length (map (elt e ?mm) [0..<n - 1]) = length (take pos ?xs @ drop (pos + 1) ?xs)"
    using assms(2) by simp
  fix i assume "i < length (map (elt e ?mm) [0..<n - 1])"
  then have i: "i < n - 1" by simp
  have fit: "e * (pos + 1 + (n - (pos + 1))) \<le> length m" "e * (pos + (n - (pos + 1))) \<le> length m"
    using assms by (simp_all add: mult.commute)
  have in_m: "e * i + e \<le> length m" using elt_bound [of i n e] assms(1) i by simp
  have "elt e ?mm i = (if i < pos then elt e m i else elt e m (i + 1))"
  proof (cases "i < pos")
    case True
    then have "elt e ?mm i = elt e m i" using fit in_m by (intro elt_memmove_other) simp_all
    with True show ?thesis by simp
  next
    case False
    with i have "elt e ?mm (pos + (i - pos)) = elt e m (pos + 1 + (i - pos))"
      using fit by (intro elt_memmove_to) auto
    with False show ?thesis by simp
  qed
  then show "map (elt e ?mm) [0..<n - 1] ! i = (take pos ?xs @ drop (pos + 1) ?xs) ! i"
    using i assms(2) by (auto simp: nth_append)
qed

lemma intset_outside:
  assumes "intset_wf be s" "is_enc be s < intsetValueEncoding v"
  shows "v \<notin> set (intset_elems be s)"
proof -
  have e: "is_enc be s \<in> {2, 4, 8}" using assms(1) by (simp add: intset_wf_def)
  have "v \<noteq> elt (is_enc be s) (is_contents s) i" for i
    using intsetValueEncoding_outside [OF assms(2) e fits_elt [of _ "is_contents s" i]]
    by (auto split: if_splits)
  then show ?thesis by (auto simp: intset_elems_def)
qed

text \<open>The statements of \<open>intsetAdd\<close> after a search that did not find the value.\<close>

lemma intset_insert_at:
  assumes wf: "intset_wf be s" and len: "is_len be s < 2 ^ 29" and fits: "fits_signed (8 * is_enc be s) v"
    and pos: "pos \<le> is_len be s" "\<forall>i < pos. intset_elems be s ! i < v"
      "\<forall>i < is_len be s. pos \<le> i \<longrightarrow> v < intset_elems be s ! i"
  defines "s1 \<equiv> intsetResize be s (is_len be s + 1)"
  defines "s2 \<equiv> if pos < is_len be s then intsetMoveTail be s1 pos (pos + 1) else s1"
  defines "s' \<equiv> (intsetSet be s2 pos v)\<lparr>is_length := intrev32ifbe be (is_len be s + 1)\<rparr>"
  shows "intset_wf be s'" and "set (intset_elems be s') = insert v (set (intset_elems be s))"
    and "is_length (intsetSet be s2 pos v) = is_length s"
proof -
  let ?e = "is_enc be s" and ?n = "is_len be s" and ?xs = "intset_elems be s" and ?m = "is_contents s"
  have e: "?e \<in> {2, 4, 8}" "length ?m = ?n * ?e" "sorted_wrt (<) ?xs" "is_encoding s < 2 ^ 32"
    using wf by (simp_all add: intset_wf_def)
  define m where "m = zrealloc ?m ((?n + 1) * ?e)"
  define mm where "mm = memmove m (?e * (pos + 1)) (?e * pos) (?e * (?n - pos))"
  have lm: "length m = (?n + 1) * ?e" by (simp add: m_def)
  have fit: "?e * pos + ?e \<le> (?n + 1) * ?e" using pos(1) elt_bound [of pos "?n + 1" ?e] by simp
  have "?e * pos + ?e * (?n - pos) = ?e * ?n" using pos(1) by (metis add_mult_distrib2 le_add_diff_inverse)
  then have lmm: "length mm = length m" using lm by (simp add: mm_def mult.commute)
  have s1: "s1 = s\<lparr>is_contents := m\<rparr>" using e(1) len by (auto simp: resize_eq m_def s1_def)
  have "mm = m" if "pos = ?n" using that fit lm by (simp add: mm_def memmove_def blit_def chunk_def)
  moreover have "intsetMoveTail be s1 pos (pos + 1) = s\<lparr>is_contents := mm\<rparr>"
    using e(1) len pos(1) by (simp add: moveTail_eq s1 mm_def)
  ultimately have s2: "s2 = s\<lparr>is_contents := mm\<rparr>" using pos(1) by (auto simp: s2_def s1)
  have set: "intsetSet be s2 pos v = s\<lparr>is_contents := put ?e mm pos v\<rparr>"
    using e(1) fit lm lmm by (simp add: s2 intsetSet_put)
  then show "is_length (intsetSet be s2 pos v) = is_length s" by simp
  have s': "s' = s\<lparr>is_contents := put ?e mm pos v, is_length := intrev32ifbe be (?n + 1)\<rparr>"
    by (simp add: s'_def set)
  have len': "is_len be s' = ?n + 1" using len by (simp add: s')
  have "elt ?e m i = elt ?e ?m i" if "i < ?n" for i
    unfolding m_def by (rule elt_zrealloc) (use elt_bound [of i "?n + 1" ?e] elt_bound [OF that] that e(2) in simp_all)
  then have old: "map (elt ?e m) [0..<?n] = ?xs" by (simp add: intset_elems_def)
  have elems: "intset_elems be s' = take pos ?xs @ v # drop pos ?xs"
    using elems_insert_move [OF lm pos(1) fits] len' unfolding old
    by (simp add: intset_elems_def s' mm_def del: upt_Suc)
  have "\<forall>i < length ?xs. pos \<le> i \<longrightarrow> v < ?xs ! i" using pos(3) by simp
  note ins = sorted_insert_at [OF e(3) _ pos(2) this, folded elems]
  have "is_length s' < 2 ^ 32" using len by (simp add: s')
  moreover have "length (is_contents s') = is_len be s' * ?e" using lm fit lmm len' by (simp add: s')
  ultimately show "intset_wf be s'" using e ins(1) pos(1) by (simp add: intset_wf_def s')
  show "set (intset_elems be s') = insert v (set ?xs)" using ins(2) pos(1) by simp
qed

lemma intsetAdd_correct:
  assumes wf: "intset_wf be s" and len: "is_len be s < 2 ^ 29" and v: "fits_signed 64 v"
    and add: "intsetAdd be s v = (s', ok)"
  shows "intset_wf be s' \<and> set (intset_elems be s') = insert v (set (intset_elems be s)) \<and>
    (ok \<longleftrightarrow> v \<notin> set (intset_elems be s))"
proof (cases "is_enc be s < intsetValueEncoding v")
  case True
  from True add have "s' = intsetUpgradeAndAdd be s v" "ok" by (auto simp: intsetAdd_def)
  moreover have "v \<notin> set (intset_elems be s)" using wf True by (rule intset_outside)
  ultimately show ?thesis using intsetUpgradeAndAdd_correct [OF wf len True v] by auto
next
  case False
  then have fits: "fits_signed (8 * is_enc be s) v"
    using v wf by (intro intsetValueEncoding_fits) (auto simp: intset_wf_def)
  obtain found pos where se: "intsetSearch be s v = (found, pos)" by (metis surj_pair)
  have "is_len be s < 2 ^ 31" using len by simp
  note sc = intsetSearch_correct [OF wf this se]
  show ?thesis
  proof (cases found)
    case True
    with False se add sc(1) wf show ?thesis by (auto simp: intsetAdd_def)
  next
    case nf: False
    have "c_unsigned 32 (int (is_len be s) + 1) = is_len be s + 1" using len by (simp add: c_unsigned_id)
    moreover have "is_length (intsetResize be s n) = is_length s" for n by (simp add: intsetResize_def Let_def)
    moreover have pos: "pos \<le> is_len be s" "\<forall>i < pos. intset_elems be s ! i < v"
      "\<forall>i < is_len be s. pos \<le> i \<longrightarrow> v < intset_elems be s ! i" using sc(3) [OF nf] by auto
    moreover note intset_insert_at [OF wf len fits pos]
    ultimately show ?thesis
      using add False se nf sc(1) by (simp add: intsetAdd_def Let_def cong: if_cong)
  qed
qed

lemma intsetRemove_correct:
  assumes wf: "intset_wf be s" and len: "is_len be s < 2 ^ 29"
    and rem: "intsetRemove be s v = (s', ok)" and v: "fits_signed 64 v"
  shows "intset_wf be s' \<and> set (intset_elems be s') = set (intset_elems be s) - {v} \<and>
    (ok \<longleftrightarrow> v \<in> set (intset_elems be s))"
proof -
  let ?e = "is_enc be s" and ?n = "is_len be s" and ?xs = "intset_elems be s" and ?m = "is_contents s"
  have e: "?e \<in> {2, 4, 8}" "length ?m = ?n * ?e" "sorted_wrt (<) ?xs" "is_encoding s < 2 ^ 32"
    using wf by (simp_all add: intset_wf_def)
  have out: "v \<notin> set ?xs" if "\<not> intsetValueEncoding v \<le> ?e"
    using that by (intro intset_outside [OF wf]) simp
  obtain found pos where se: "intsetSearch be s v = (found, pos)" by (metis surj_pair)
  have "?n < 2 ^ 31" using len by simp
  note sc = intsetSearch_correct [OF wf this se]
  show ?thesis
  proof (cases "intsetValueEncoding v \<le> ?e \<and> found")
    case False
    with rem se have "s' = s" "\<not> ok" by (auto simp: intsetRemove_def split: if_splits)
    with False sc(1) out wf show ?thesis by auto
  next
    case True
    with sc(2) have pos: "pos < ?n" "?xs ! pos = v" by auto
    define mm where "mm = memmove ?m (?e * pos) (?e * (pos + 1)) (?e * (?n - (pos + 1)))"
    define m' where "m' = zrealloc mm ((?n - 1) * ?e)"
    have "?e * (pos + 1) + ?e * (?n - (pos + 1)) = ?e * ?n" using pos(1)
      by (metis Suc_eq_plus1 Suc_leI add_mult_distrib2 le_add_diff_inverse)
    then have lmm: "length mm = length ?m" using e(2) by (simp add: mm_def mult.commute)
    have u: "c_unsigned 32 (int ?n - 1) = ?n - 1" using len pos(1) by (simp add: c_unsigned_id nat_diff_distrib)
    have move: "(if pos < ?n - 1 then intsetMoveTail be s (pos + 1) pos else s) = s\<lparr>is_contents := mm\<rparr>"
    proof (cases "pos < ?n - 1")
      case True
      with e(1) len show ?thesis by (simp add: moveTail_eq mm_def)
    next
      case False
      with pos(1) have "?n - (pos + 1) = 0" by simp
      with False show ?thesis by (simp add: mm_def memmove_def blit_def chunk_def)
    qed
    have "intsetResize be (s\<lparr>is_contents := mm\<rparr>) (?n - 1) = s\<lparr>is_contents := m'\<rparr>"
      using e(1) len by (auto simp: resize_eq m'_def)
    with True rem se u move have s': "s' = s\<lparr>is_contents := m', is_length := intrev32ifbe be (?n - 1)\<rparr>" and ok
      by (auto simp: intsetRemove_def Let_def)
    have len': "is_len be s' = ?n - 1" using len by (simp add: s')
    have "elt ?e m' i = elt ?e mm i" if "i < ?n - 1" for i
      unfolding m'_def by (rule elt_zrealloc) (use elt_bound [of i ?n ?e] elt_bound [OF that, of ?e] that e(2) lmm in simp_all)
    then have "map (elt ?e m') [0..<?n - 1] = map (elt ?e mm) [0..<?n - 1]" by simp
    also have "\<dots> = take pos ?xs @ drop (pos + 1) ?xs"
      unfolding mm_def intset_elems_def by (rule elems_remove_move [OF e(2) pos(1)])
    finally have elems: "intset_elems be s' = take pos ?xs @ drop (pos + 1) ?xs"
      using len' by (simp add: intset_elems_def s')
    have split: "?xs = take pos ?xs @ v # drop (pos + 1) ?xs"
      using pos id_take_nth_drop [of pos ?xs] by simp
    have "sorted_wrt (<) (take pos ?xs @ v # drop (pos + 1) ?xs)" using e(3) split by simp
    then have "sorted_wrt (<) (take pos ?xs @ drop (pos + 1) ?xs)" "v \<notin> set (take pos ?xs)"
      "v \<notin> set (drop (pos + 1) ?xs)" by (auto simp: sorted_wrt_append)
    moreover have "set ?xs = insert v (set (take pos ?xs) \<union> set (drop (pos + 1) ?xs))"
      by (subst split) simp
    moreover have "is_length s' < 2 ^ 32" "length (is_contents s') = is_len be s' * ?e"
      using len len' by (simp_all add: s' m'_def)
    moreover have "is_encoding s' = is_encoding s" by (simp add: s')
    ultimately have "intset_wf be s'" "set (intset_elems be s') = set ?xs - {v}" "v \<in> set ?xs"
      using e by (auto simp: intset_wf_def elems)
    with \<open>ok\<close> show ?thesis by simp
  qed
qed

section \<open>Queries\<close>

lemma intsetFind_correct:
  assumes "intset_wf be s" "is_len be s < 2 ^ 31"
  shows "intsetFind be s v \<longleftrightarrow> v \<in> set (intset_elems be s)"
proof -
  obtain found pos where se: "intsetSearch be s v = (found, pos)" by (metis surj_pair)
  have "v \<in> set (intset_elems be s) \<Longrightarrow> intsetValueEncoding v \<le> is_enc be s"
    using intset_outside [OF assms(1), of v] linorder_not_le by blast
  then show ?thesis
    using intsetSearch_correct(1) [OF assms se] se by (auto simp: intsetFind_def)
qed

lemma intset_elems_le_last:
  "intset_wf be s \<Longrightarrow> x \<in> set (intset_elems be s) \<Longrightarrow> x \<le> intset_elems be s ! (is_len be s - 1)"
proof -
  assume wf: "intset_wf be s" and "x \<in> set (intset_elems be s)"
  then obtain i where i: "i < is_len be s" "x = intset_elems be s ! i" by (auto simp: in_set_conv_nth)
  with wf show ?thesis
    by (cases "i = is_len be s - 1") (auto simp: intset_wf_def sorted_wrt_iff_nth_less less_imp_le)
qed

lemma intset_elems_ge_first:
  "intset_wf be s \<Longrightarrow> x \<in> set (intset_elems be s) \<Longrightarrow> intset_elems be s ! 0 \<le> x"
proof -
  assume wf: "intset_wf be s" and "x \<in> set (intset_elems be s)"
  then obtain i where i: "i < is_len be s" "x = intset_elems be s ! i" by (auto simp: in_set_conv_nth)
  with wf show ?thesis
    by (cases "i = 0") (auto simp: intset_wf_def sorted_wrt_iff_nth_less less_imp_le)
qed

lemma intsetMax_Max:
  assumes "intset_wf be s" "0 < is_len be s"
  shows "intsetMax be s = Max (set (intset_elems be s))"
proof -
  have "is_len be s < 2 ^ 32" using assms(1) by (simp add: intset_wf_def)
  then have "c_unsigned 32 (int (is_len be s) - 1) = is_len be s - 1"
    using assms(2) by (simp add: c_unsigned_id nat_diff_distrib)
  then have "intsetMax be s = intset_elems be s ! (is_len be s - 1)"
    using assms by (simp add: intsetMax_def intsetGet0_nth)
  moreover have "Max (set (intset_elems be s)) = intset_elems be s ! (is_len be s - 1)"
    using assms intset_elems_le_last by (intro Max_eqI) auto
  ultimately show ?thesis by simp
qed

lemma intsetMin_Min:
  assumes "intset_wf be s" "0 < is_len be s"
  shows "intsetMin be s = Min (set (intset_elems be s))"
proof -
  have "Min (set (intset_elems be s)) = intset_elems be s ! 0"
    using assms intset_elems_ge_first by (intro Min_eqI) auto
  then show ?thesis using assms by (simp add: intsetMin_def intsetGet0_nth)
qed

lemma intsetGet_nth:
  "intset_wf be s \<Longrightarrow>
   intsetGet be s pos = (if pos < intsetLen be s then Some (intset_elems be s ! pos) else None)"
  by (simp add: intsetGet_def intsetLen_def intsetGet0_nth)

section \<open>Validation\<close>

text \<open>
  A blob passes the deep validation exactly when it is the image of a well-formed, non-empty set
  of that size: nothing corrupt is let in, and nothing the code itself writes is rejected.
\<close>

lemma validate_loop_sorted:
  "0 < i \<Longrightarrow> validate_loop be s count i (intsetGet0 be s (i - 1)) \<longleftrightarrow>
   (\<forall>j. i \<le> j \<and> j < count \<longrightarrow> intsetGet0 be s (j - 1) < intsetGet0 be s j)"
proof (induction "count - i" arbitrary: i)
  case 0
  then show ?case by (subst validate_loop.simps) auto
next
  case (Suc k)
  have IH: "validate_loop be s count (Suc i) (intsetGet0 be s i) \<longleftrightarrow>
    (\<forall>j. Suc i \<le> j \<and> j < count \<longrightarrow> intsetGet0 be s (j - 1) < intsetGet0 be s j)"
    using Suc.hyps(1) [of "Suc i"] Suc.hyps(2) by simp
  have split: "(\<forall>j. i \<le> j \<and> j < count \<longrightarrow> P j) \<longleftrightarrow> P i \<and> (\<forall>j. Suc i \<le> j \<and> j < count \<longrightarrow> P j)" for P
    using Suc.hyps(2) by (metis Suc_leI le_eq_less_or_eq Suc_leD zero_less_Suc zero_less_diff)
  show ?case
    unfolding split [of "\<lambda>j. intsetGet0 be s (j - 1) < intsetGet0 be s j"] IH [symmetric]
    using Suc.hyps(2) by (subst validate_loop.simps) (auto simp: Let_def)
qed

lemma sorted_wrt_adjacent:
  fixes f :: "nat \<Rightarrow> int"
  shows "sorted_wrt (<) (map f [0..<n]) \<longleftrightarrow> (\<forall>j. 1 \<le> j \<and> j < n \<longrightarrow> f (j - 1) < f j)"
proof -
  have "sorted_wrt (<) (map f [0..<n]) \<longleftrightarrow> (\<forall>i. Suc i < n \<longrightarrow> f i < f (Suc i))"
    by (simp add: sorted_wrt_iff_nth_Suc_transp)
  also have "\<dots> \<longleftrightarrow> (\<forall>j. 1 \<le> j \<and> j < n \<longrightarrow> f (j - 1) < f j)"
    by (metis One_nat_def Suc_le_D diff_Suc_1 le_numeral_extra(4) Suc_le_mono zero_le)
  finally show ?thesis .
qed

lemma intset_cast_blob:
  assumes "is_encoding s < 2 ^ 32" "is_length s < 2 ^ 32"
  shows "intset_cast be (intset_blob be s) = s"
proof -
  have "chunk (host_bytes be 4 (is_encoding s) @ host_bytes be 4 (is_length s) @ is_contents s) 4 4
      = host_bytes be 4 (is_length s)"
    using chunk_append_right [of "host_bytes be 4 (is_encoding s)" _ 0 4]
    by (simp add: chunk_def)
  with assms show ?thesis by (simp add: intset_cast_def intset_blob_def chunk_def)
qed

lemma intset_blob_cast:
  "8 \<le> length p \<Longrightarrow> intset_blob be (intset_cast be p) = p"
  by (simp add: intset_blob_def intset_cast_def)
    (simp add: chunk_def take_add [symmetric] append_assoc [symmetric] del: append_assoc)

lemma intset_cast_wf:
  assumes "intsetValidateIntegrity be p (length p) True"
  shows "intset_wf be (intset_cast be p) \<and> 0 < is_len be (intset_cast be p) \<and> 8 \<le> length p"
proof -
  define s where "s = intset_cast be p"
  have v: "8 \<le> length p" "is_enc be s \<in> {2, 4, 8}" "8 + is_len be s * is_enc be s = length p"
    "is_len be s \<noteq> 0" "validate_loop be s (is_len be s) 1 (intsetGet0 be s 0)"
    using assms by (auto simp: intsetValidateIntegrity_def Let_def s_def intset_encs split: if_splits)
  have fields: "is_encoding s < 2 ^ 32" "is_length s < 2 ^ 32"
    using le_nat_less [of "chunk p 0 4"] le_nat_less [of "rev (chunk p 0 4)"] le_nat_less [of "chunk p 4 4"]
      le_nat_less [of "rev (chunk p 4 4)"] v(1)
    by (simp_all add: s_def intset_cast_def host_nat_def)
  have len: "length (is_contents s) = is_len be s * is_enc be s"
    using v(3) by (simp add: s_def intset_cast_def)
  have get: "intsetGet0 be s j = elt (is_enc be s) (is_contents s) j" if "j < is_len be s" for j
    using elt_bound [OF that] v(2) len by (intro intsetGet0_elt) auto
  have "\<forall>j. 1 \<le> j \<and> j < is_len be s \<longrightarrow> intsetGet0 be s (j - 1) < intsetGet0 be s j"
    using validate_loop_sorted [of 1 be s "is_len be s"] v(5) by simp
  then have "\<forall>j. 1 \<le> j \<and> j < is_len be s \<longrightarrow>
      elt (is_enc be s) (is_contents s) (j - 1) < elt (is_enc be s) (is_contents s) j"
    using get by (metis diff_le_self le_less_trans)
  then have "sorted_wrt (<) (intset_elems be s)" unfolding intset_elems_def sorted_wrt_adjacent .
  with v fields len show ?thesis by (simp add: intset_wf_def s_def)
qed

lemma intsetValidateIntegrity_blob:
  assumes wf: "intset_wf be s" and "0 < is_len be s"
  shows "intsetValidateIntegrity be (intset_blob be s) (length (intset_blob be s)) True"
proof -
  have f: "is_encoding s < 2 ^ 32" "is_length s < 2 ^ 32" "is_enc be s \<in> {2, 4, 8}"
    "length (is_contents s) = is_len be s * is_enc be s" "sorted_wrt (<) (intset_elems be s)"
    using wf by (simp_all add: intset_wf_def)
  have cast: "intset_cast be (intset_blob be s) = s" using f by (intro intset_cast_blob)
  have "\<forall>j. 1 \<le> j \<and> j < is_len be s \<longrightarrow> intsetGet0 be s (j - 1) < intsetGet0 be s j"
    using f(5) wf by (auto simp: intsetGet0_nth sorted_wrt_iff_nth_less)
  then have "validate_loop be s (is_len be s) 1 (intsetGet0 be s 0)"
    using validate_loop_sorted [of 1 be s "is_len be s"] by simp
  moreover have "length (intset_blob be s) = 8 + is_len be s * is_enc be s"
    by (simp add: intset_blob_def f(4))
  ultimately show ?thesis
    using f(3) assms(2) by (auto simp: intsetValidateIntegrity_def cast intset_encs Let_def)
qed

section \<open>The blob is determined by the encoding and the elements\<close>

lemma c_unsigned_c_signed [simp]: "c_unsigned w (c_signed w i) = c_unsigned w i"
  by (simp add: c_unsigned_def c_signed_def Let_def)

lemma concat_chunks: "n * e \<le> length m \<Longrightarrow> concat (map (\<lambda>j. chunk m (e * j) e) [0..<n]) = take (n * e) m"
proof (induction n)
  case (Suc n)
  have "take (Suc n * e) m = take (n * e) m @ chunk m (e * n) e"
    using take_add [of "n * e" e m] by (simp add: chunk_def add.commute mult.commute)
  with Suc show ?case by simp
qed simp

lemma contents_canonical:
  assumes "intset_wf be s"
  shows "is_contents s =
    concat (map (\<lambda>x. le_bytes (is_enc be s) (c_unsigned (8 * is_enc be s) x)) (intset_elems be s))"
proof -
  let ?e = "is_enc be s" and ?m = "is_contents s" and ?n = "is_len be s"
  have len: "length ?m = ?n * ?e" using assms by (simp add: intset_wf_def)
  have "le_bytes ?e (c_unsigned (8 * ?e) (elt ?e ?m j)) = chunk ?m (?e * j) ?e" if "j < ?n" for j
  proof -
    have l: "length (chunk ?m (?e * j) ?e) = ?e" using elt_bound [OF that, of ?e] len by simp
    then have "le_nat (chunk ?m (?e * j) ?e) < 2 ^ (8 * ?e)"
      using le_nat_less [of "chunk ?m (?e * j) ?e"] by (simp add: power_mult)
    then show ?thesis using l by (simp add: elt_def c_unsigned_id)
  qed
  then have "map (\<lambda>x. le_bytes ?e (c_unsigned (8 * ?e) x)) (intset_elems be s) =
      map (\<lambda>j. chunk ?m (?e * j) ?e) [0..<?n]"
    by (simp add: intset_elems_def)
  with concat_chunks [of ?n ?e ?m] len show ?thesis by simp
qed

lemma intset_blob_canonical:
  assumes "intset_wf be s"
  shows "intset_blob be s = le_bytes 4 (is_enc be s) @ le_bytes 4 (is_len be s) @
    concat (map (\<lambda>x. le_bytes (is_enc be s) (c_unsigned (8 * is_enc be s) x)) (intset_elems be s))"
proof -
  have "is_encoding s < 2 ^ 32" "is_length s < 2 ^ 32" using assms by (simp_all add: intset_wf_def)
  then have "host_bytes be 4 (is_encoding s) = le_bytes 4 (is_enc be s)"
    "host_bytes be 4 (is_length s) = le_bytes 4 (is_len be s)"
    using host_bytes_intrev32ifbe [of be "is_enc be s"] host_bytes_intrev32ifbe [of be "is_len be s"] by simp_all
  then show ?thesis using contents_canonical [OF assms] by (simp add: intset_blob_def)
qed

text \<open>What the operations do to the encoding.\<close>

lemma is_encoding_steps [simp]:
  "is_encoding (intsetSet be s pos v) = is_encoding s"
  "is_encoding (intsetResize be s len) = is_encoding s"
  "is_encoding (intsetMoveTail be s from to) = is_encoding s"
  by (simp_all add: intsetSet_def intsetResize_def intsetMoveTail_def Let_def)

lemma is_encoding_upgrade_loop [simp]: "is_encoding (upgrade_loop be p c l s) = is_encoding s"
  by (induction l arbitrary: s) simp_all

lemma is_enc_intsetAdd:
  assumes "intsetAdd be s v = (s', ok)"
  shows "is_enc be s' = max (is_enc be s) (intsetValueEncoding v)"
proof -
  have "intsetValueEncoding v < 2 ^ 32" using intsetValueEncoding_in [of v] by auto
  then show ?thesis
    using assms by (auto simp: intsetAdd_def intsetUpgradeAndAdd_def Let_def split: if_splits prod.splits)
qed

lemma is_enc_intsetRemove: "intsetRemove be s v = (s', ok) \<Longrightarrow> is_enc be s' = is_enc be s"
  by (auto simp: intsetRemove_def Let_def split: if_splits prod.splits)

section \<open>Both hosts implement the contract of sets\<close>

lemma card_intset_elems: "intset_wf be s \<Longrightarrow> card (set (intset_elems be s)) = is_len be s"
  by (simp add: intset_wf_def distinct_card strict_sorted_iff)

lemma intsetNew_wf: "intset_wf be (intsetNew be)" "intset_elems be (intsetNew be) = []"
  by (simp_all add: intset_wf_def intset_elems_def intsetNew_def intset_encs)

definition intset_room :: nat where "intset_room = 2 ^ 29"

interpretation ints: bounded_set "intsetNew be" "intsetAdd be" "intsetRemove be" "intsetFind be"
  "\<lambda>s. set (intset_elems be s)" "intset_wf be" "fits_signed 64" intset_room for be
proof unfold_locales
  fix s s' x b
  assume s: "intset_wf be s" "fits_signed 64 x" "card (set (intset_elems be s)) < intset_room"
  then have l: "is_len be s < 2 ^ 29" by (simp add: card_intset_elems intset_room_def)
  show "intset_wf be s' \<and> set (intset_elems be s') = insert x (set (intset_elems be s)) \<and>
      b = (x \<notin> set (intset_elems be s))" if "intsetAdd be s x = (s', b)"
    using intsetAdd_correct [OF s(1) l s(2) that] by simp
  show "intset_wf be s' \<and> set (intset_elems be s') = set (intset_elems be s) - {x} \<and>
      b = (x \<in> set (intset_elems be s))" if "intsetRemove be s x = (s', b)"
    using intsetRemove_correct [OF s(1) l that s(2)] by simp
next
  fix s x
  assume "intset_wf be s" "card (set (intset_elems be s)) < intset_room"
  then show "intsetFind be s x \<longleftrightarrow> x \<in> set (intset_elems be s)"
    by (intro intsetFind_correct) (simp_all add: card_intset_elems intset_room_def)
qed (simp_all add: intsetNew_wf)

text \<open>The same run on two hosts goes through sets with the same encoding and the same elements.\<close>

lemma sorted_wrt_unique:
  "sorted_wrt (<) xs \<Longrightarrow> sorted_wrt (<) ys \<Longrightarrow> set xs = set ys \<Longrightarrow> xs = (ys :: int list)"
  by (metis sorted_distinct_set_unique strict_sorted_iff)

lemma intset_run_enc:
  assumes "is_enc be s = is_enc be' t"
  shows "is_enc be (fst (set_run (intsetAdd be) (intsetRemove be) s cs)) =
    is_enc be' (fst (set_run (intsetAdd be') (intsetRemove be') t cs))"
  using assms
proof (induction cs arbitrary: s t)
  case (Cons c cs)
  obtain s1 b1 t1 b2 where st: "set_step (intsetAdd be) (intsetRemove be) s c = (s1, b1)"
    "set_step (intsetAdd be') (intsetRemove be') t c = (t1, b2)" by (metis surj_pair)
  have "is_enc be s1 = is_enc be' t1"
    using st Cons.prems is_enc_intsetAdd is_enc_intsetRemove by (cases c) auto
  from Cons.IH [OF this] st show ?case by (simp add: set_run.simps case_prod_beta)
qed (simp add: set_run.simps)

section \<open>The byte count of \<open>intsetMoveTail\<close> has 32 bits\<close>

text \<open>
  The number of bytes to move is computed on \<open>uint32_t\<close>. For \<open>2 ^ 29\<close> elements of 64 bits it is
  \<open>2 ^ 32\<close>, that is 0: nothing moves. The limit on an intset's length in \<open>t_set.c\<close> is \<open>2 ^ 30\<close>.
\<close>

lemma moveTail_nothing:
  assumes "is_enc be s = 8" "is_len be s = 2 ^ 29" "8 \<le> length (is_contents s)"
  shows "intsetMoveTail be s 0 1 = s"
proof -
  have "c_unsigned 32 (2 ^ 29) = 2 ^ 29" by (simp add: c_unsigned_id)
  then have "(c_unsigned 32 (int (is_len be s) - int 0) * 8) mod 2 ^ 32 = 0" by (simp add: assms(2))
  with assms show ?thesis by (simp add: intsetMoveTail_def intset_encs memmove_def blit_def chunk_def)
qed

lemma chunk_concat:
  "(\<And>x. x \<in> set xs \<Longrightarrow> length x = e) \<Longrightarrow> j < length xs \<Longrightarrow> chunk (concat xs) (e * j) e = xs ! j"
proof (induction xs arbitrary: j)
  case (Cons x xs)
  then show ?case
  proof (cases j)
    case (Suc i)
    have "chunk (x @ concat xs) (length x + e * i) e = chunk (concat xs) (e * i) e" by simp
    with Cons Suc show ?thesis by simp
  qed (simp add: chunk_def)
qed simp

definition int_ramp :: "nat \<Rightarrow> intset" where
  "int_ramp n = \<lparr>is_encoding = 8, is_length = n,
     is_contents = concat (map (\<lambda>j. le_bytes 8 (2 ^ 40 + j)) [0..<n])\<rparr>"

lemma int_ramp_elems: "n < 2 ^ 32 \<Longrightarrow> intset_elems False (int_ramp n) = map (\<lambda>j. 2 ^ 40 + int j) [0..<n]"
proof -
  assume n: "n < 2 ^ 32"
  have "elt 8 (is_contents (int_ramp n)) j = 2 ^ 40 + int j" if "j < n" for j
  proof -
    have "chunk (is_contents (int_ramp n)) (8 * j) 8 = le_bytes 8 (2 ^ 40 + j)"
      unfolding int_ramp_def intset.simps by (subst chunk_concat) (use that in auto)
    moreover have "c_signed 64 (2 ^ 40 + int j) = 2 ^ 40 + int j"
      using that n by (intro c_signed_id) (simp add: fits_signed_def)
    ultimately show ?thesis using that n by (simp add: elt_def)
  qed
  then show ?thesis by (simp add: intset_elems_def int_ramp_def intrev32ifbe_def)
qed

lemma int_ramp_wf: "n < 2 ^ 32 \<Longrightarrow> intset_wf False (int_ramp n)"
proof -
  assume n: "n < 2 ^ 32"
  have "length (is_contents (int_ramp n)) = n * 8"
    by (simp add: int_ramp_def length_concat comp_def sum_list_triv)
  moreover have "sorted_wrt (<) (map (\<lambda>j. 2 ^ 40 + int j) [0..<n])"
    by (simp add: sorted_wrt_map)
  ultimately show ?thesis
    using n int_ramp_elems [OF n] by (simp add: intset_wf_def) (simp add: int_ramp_def intrev32ifbe_def)
qed

section \<open>Properties\<close>

text \<open>
  Property C4: starting from the empty set, any run of insertions and removals of 64-bit integers
  (up to \<open>2 ^ 29\<close> of them) leaves a sorted array without duplicates that holds exactly the members
  of the mathematical set, on hosts of either byte order; every call reports whether it changed
  the set.
\<close>

theorem intset_run_refines_sets:
  assumes "\<forall>c \<in> set cs. fits_signed 64 (set_op_arg c)" "length cs \<le> intset_room"
    "set_run (intsetAdd be) (intsetRemove be) (intsetNew be) cs = (s, flags)"
  shows "intset_wf be s \<and> set (intset_elems be s) = fold set_spec cs {} \<and> flags = set_spec_flags {} cs"
  using ints.run_empty [OF assms] .

theorem intset_run_refines_sets_witness:
  "\<exists>s. set_run (intsetAdd True) (intsetRemove True) (intsetNew True)
     [Insert_op 5, Insert_op 70000, Insert_op 5, Remove_op 70000, Insert_op (- 1)] =
     (s, [True, True, False, True, True]) \<and> set (intset_elems True s) = {- 1, 5}"
proof -
  let ?cs = "[Insert_op 5, Insert_op 70000, Insert_op 5, Remove_op 70000, Insert_op (- 1)] :: int set_op list"
  obtain s flags where run: "set_run (intsetAdd True) (intsetRemove True) (intsetNew True) ?cs = (s, flags)"
    by (metis surj_pair)
  have a: "\<forall>c \<in> set ?cs. fits_signed 64 (set_op_arg c)"
    by (simp add: fits_signed_def)
  have b: "length ?cs \<le> intset_room"
    by (simp add: intset_room_def)
  have f: "fold set_spec ?cs {} = {- 1, 5}" by auto
  have g: "set_spec_flags {} ?cs = [True, True, False, True, True]" by simp
  have "set (intset_elems True s) = {- 1, 5} \<and> flags = [True, True, False, True, True]"
    using intset_run_refines_sets [OF a b run] unfolding f g by blast
  with run show ?thesis by blast
qed

text \<open>
  Property C30: the serialised blob does not depend on the host: the same operations leave the same
  bytes on a little-endian and on a big-endian machine.
\<close>

theorem intset_blob_host_independent:
  assumes "\<forall>c \<in> set cs. fits_signed 64 (set_op_arg c)" "length cs \<le> intset_room"
  shows "intset_blob True (fst (set_run (intsetAdd True) (intsetRemove True) (intsetNew True) cs)) =
         intset_blob False (fst (set_run (intsetAdd False) (intsetRemove False) (intsetNew False) cs))"
proof -
  obtain s b where s: "set_run (intsetAdd True) (intsetRemove True) (intsetNew True) cs = (s, b)"
    by (metis surj_pair)
  obtain t b' where t: "set_run (intsetAdd False) (intsetRemove False) (intsetNew False) cs = (t, b')"
    by (metis surj_pair)
  have wf: "intset_wf True s" "intset_wf False t" "set (intset_elems True s) = set (intset_elems False t)"
    using ints.run_empty [OF assms s] ints.run_empty [OF assms t] by simp_all
  then have "intset_elems True s = intset_elems False t"
    by (intro sorted_wrt_unique) (simp_all add: intset_wf_def)
  moreover have "is_len True s = is_len False t" using wf card_intset_elems by metis
  moreover have "is_enc True (intsetNew True) = is_enc False (intsetNew False)"
    by (simp add: intsetNew_def intset_encs)
  then have "is_enc True s = is_enc False t" using intset_run_enc [of True "intsetNew True" False "intsetNew False" cs] s t by simp
  ultimately show ?thesis using wf by (simp add: s t intset_blob_canonical)
qed

theorem intset_blob_host_independent_witness:
  "intset_blob True (fst (set_run (intsetAdd True) (intsetRemove True) (intsetNew True) [Insert_op 258])) =
   intset_blob False (fst (set_run (intsetAdd False) (intsetRemove False) (intsetNew False) [Insert_op 258]))"
  by (rule intset_blob_host_independent) (simp_all add: fits_signed_def intset_room_def)

text \<open>
  Property C31: a block of bytes passes the deep validation exactly when it is the blob of a
  well-formed, non-empty set.
\<close>

theorem intsetValidateIntegrity_iff:
  "intsetValidateIntegrity be p (length p) True \<longleftrightarrow>
   (\<exists>s. intset_wf be s \<and> 0 < is_len be s \<and> p = intset_blob be s)"
proof
  assume v: "intsetValidateIntegrity be p (length p) True"
  then have c: "intset_wf be (intset_cast be p) \<and> 0 < is_len be (intset_cast be p) \<and> 8 \<le> length p"
    by (rule intset_cast_wf)
  then have "p = intset_blob be (intset_cast be p)" by (simp add: intset_blob_cast)
  with c show "\<exists>s. intset_wf be s \<and> 0 < is_len be s \<and> p = intset_blob be s" by blast
next
  assume "\<exists>s. intset_wf be s \<and> 0 < is_len be s \<and> p = intset_blob be s"
  then show "intsetValidateIntegrity be p (length p) True" using intsetValidateIntegrity_blob by auto
qed

text \<open>
  Property C36: a set of \<open>2 ^ 29\<close> elements of 64 bits, which the length limit of \<open>t_set.c\<close> admits,
  loses its smallest element when a smaller one is added: \<open>intsetMoveTail\<close> moves nothing because
  its byte count wraps to 0, and the new value overwrites the first element.
\<close>

theorem intsetAdd_overflow_loses_element:
  assumes wf: "intset_wf be s" and enc: "is_enc be s = 8" and len: "is_len be s = 2 ^ 29"
    and v: "fits_signed 64 v" "v < intset_elems be s ! 0" and add: "intsetAdd be s v = (s', ok)"
  shows "ok \<and> intset_elems be s ! 0 \<notin> set (take (2 ^ 29) (intset_elems be s'))"
proof -
  let ?xs = "intset_elems be s" and ?m = "is_contents s"
  have m: "length ?m = 2 ^ 32" "sorted_wrt (<) ?xs" using wf enc len by (simp_all add: intset_wf_def)
  have nz: "is_len be s \<noteq> 0" by (simp add: len)
  have first: "intsetGet0 be s 0 = ?xs ! 0" using wf len by (simp add: intsetGet0_nth)
  have "c_signed 32 (2 ^ 29 - 1) = 2 ^ 29 - 1" by (intro c_signed_id) (simp add: fits_signed_def)
  then have mx: "c_signed 32 (int (is_len be s) - 1) = int (is_len be s - 1)" by (simp add: len)
  have "intsetGet0 be s (is_len be s - 1) = ?xs ! (is_len be s - 1)" using wf len by (simp add: intsetGet0_nth)
  moreover have "?xs ! 0 \<le> ?xs ! (is_len be s - 1)"
    using wf len by (intro intset_elems_ge_first) (auto intro: nth_mem)
  ultimately have search: "intsetSearch be s v = (False, 0)"
    using v(2) nz by (simp add: intsetSearch_def Let_def mx first nat_diff_distrib)
  have ve: "\<not> intsetValueEncoding v > is_enc be s" using intsetValueEncoding_in [of v] enc by auto
  have "c_unsigned 32 (2 ^ 29 + 1) = 2 ^ 29 + 1" by (simp add: c_unsigned_id)
  then have len1: "c_unsigned 32 (int (is_len be s) + 1) = is_len be s + 1" by (simp add: len)
  define s1 where "s1 = s\<lparr>is_contents := zrealloc ?m (2 ^ 32 + 8)\<rparr>"
  have resize: "intsetResize be s (is_len be s + 1) = s1"
    using enc len resize_eq [of "is_len be s + 1" be s] by (simp add: s1_def)
  have move: "intsetMoveTail be s1 0 1 = s1" using enc len by (intro moveTail_nothing) (simp_all add: s1_def)
  have set: "intsetSet be s1 0 v = s1\<lparr>is_contents := put 8 (zrealloc ?m (2 ^ 32 + 8)) 0 v\<rparr>"
    using enc by (simp add: intsetSet_put s1_def)
  have s': "s' = s\<lparr>is_contents := put 8 (zrealloc ?m (2 ^ 32 + 8)) 0 v,
      is_length := intrev32ifbe be (2 ^ 29 + 1)\<rparr>" and ok
    using add ve search len1 resize move set
    by (auto simp: intsetAdd_def Let_def s1_def len)
  have nth: "intset_elems be s' ! j = (if j = 0 then v else ?xs ! j)" if "j < 2 ^ 29" for j
    using that enc len m v(1) by (simp add: intset_elems_def s' elt_put_same elt_put_other elt_zrealloc)
  have "?xs ! 0 \<noteq> intset_elems be s' ! j" if j: "j < 2 ^ 29" for j
  proof (cases "j = 0")
    case True
    then show ?thesis using nth [OF j] v(2) by simp
  next
    case False
    have "j < length ?xs" using j len by (simp add: intset_elems_def)
    with False have "?xs ! 0 < ?xs ! j" by (intro sorted_wrt_nth_less [OF m(2)]) simp_all
    with False show ?thesis using nth [OF j] by simp
  qed
  then show ?thesis using \<open>ok\<close> by (auto simp: in_set_conv_nth dest: sym)
qed

theorem intsetAdd_overflow_loses_element_witness:
  "2 ^ 40 \<notin> set (take (2 ^ 29) (intset_elems False (fst (intsetAdd False (int_ramp (2 ^ 29)) (- 1)))))"
proof -
  have n: "(2 :: nat) ^ 29 < 2 ^ 32" by simp
  have enc: "is_enc False (int_ramp (2 ^ 29)) = 8" and len: "is_len False (int_ramp (2 ^ 29)) = 2 ^ 29"
    by (simp_all add: int_ramp_def intrev32ifbe_def)
  have v: "fits_signed 64 (- 1)" by (simp add: fits_signed_def)
  have first: "intset_elems False (int_ramp (2 ^ 29)) ! 0 = 2 ^ 40" using int_ramp_elems [OF n] by simp
  obtain s' ok where add: "intsetAdd False (int_ramp (2 ^ 29)) (- 1) = (s', ok)" by (metis surj_pair)
  have "- 1 < intset_elems False (int_ramp (2 ^ 29)) ! 0" by (simp only: first) simp
  from intsetAdd_overflow_loses_element [OF int_ramp_wf [OF n] enc len v this add]
  have "2 ^ 40 \<notin> set (take (2 ^ 29) (intset_elems False s'))" unfolding first by blast
  then show ?thesis unfolding add fst_conv .
qed

end
