(* ===== verification/Numbers.thy ===== *)
theory Numbers
  imports Prelude
begin

text \<open>
  The conversions between numbers and decimal strings of \<open>util.c\<close>. A string is the list of its
  bytes; the pointer that walks over it is the list of the bytes that are left. A buffer the code
  writes to is the list of its bytes, and its size the argument \<open>dstlen\<close> the code checks. The
  specification is the decimal representation \<open>decimal\<close>.
\<close>

section \<open>The decimal representation\<close>

definition CHAR_0 :: byte where "CHAR_0 = 48"
definition CHAR_9 :: byte where "CHAR_9 = 57"
definition CHAR_minus :: byte where "CHAR_minus = 45"

lemmas char_defs = CHAR_0_def CHAR_9_def CHAR_minus_def

definition digit :: "nat \<Rightarrow> byte" where
  "digit d = word_of_nat (48 + d)"

fun dec_digits :: "nat \<Rightarrow> bytes" where
  "dec_digits n = (if n < 10 then [digit n] else dec_digits (n div 10) @ [digit (n mod 10)])"

declare dec_digits.simps [simp del]

definition decimal :: "int \<Rightarrow> bytes" where
  "decimal v = (if v < 0 then CHAR_minus # dec_digits (nat (- v)) else dec_digits (nat v))"

section \<open>The number of digits\<close>

fun digits10 :: "nat \<Rightarrow> nat" where
  "digits10 v =
     (if v < 10 then 1
      else if v < 100 then 2
      else if v < 1000 then 3
      else if v < 1000000000000 then
        (if v < 100000000 then
           (if v < 1000000 then
              (if v < 10000 then 4 else 5 + (if v \<ge> 100000 then 1 else 0))
            else 7 + (if v \<ge> 10000000 then 1 else 0))
         else if v < 10000000000 then 9 + (if v \<ge> 1000000000 then 1 else 0)
         else 11 + (if v \<ge> 100000000000 then 1 else 0))
      else 12 + digits10 (v div 1000000000000))"

declare digits10.simps [simp del]

definition LLONG_MIN :: int where "LLONG_MIN = - (2 ^ 63)"
definition LLONG_MAX :: int where "LLONG_MAX = 2 ^ 63 - 1"
definition ULLONG_MAX :: nat where "ULLONG_MAX = 2 ^ 64 - 1"

lemmas llong_defs = LLONG_MIN_def LLONG_MAX_def ULLONG_MAX_def

definition sdigits10 :: "int \<Rightarrow> nat" where
  "sdigits10 v =
     (if v < 0 then
        let uv = (if v \<noteq> LLONG_MIN then c_unsigned 64 (- v) else c_unsigned 64 LLONG_MAX + 1)
        in digits10 uv + 1
      else digits10 (c_unsigned 64 v))"

section \<open>Numbers to strings\<close>

text \<open>The table of the 100 pairs of digits, as the code spells it.\<close>

definition pair_digits :: bytes where
  "pair_digits = map of_char (
     ''0001020304050607080910111213141516171819'' @
     ''2021222324252627282930313233343536373839'' @
     ''4041424344454647484950515253545556575859'' @
     ''6061626364656667686970717273747576777879'' @
     ''8081828384858687888990919293949596979899'')"

fun ull_loop :: "nat \<Rightarrow> nat \<Rightarrow> bytes \<Rightarrow> nat \<times> nat \<times> bytes" where
  "ull_loop val next dst =
     (if val \<ge> 100 then
        let i = (val mod 100) * 2;
            dst = dst[next := pair_digits ! (i + 1)];
            dst = dst[next - 1 := pair_digits ! i]
        in ull_loop (val div 100) (next - 2) dst
      else (val, next, dst))"

declare ull_loop.simps [simp del]

definition ull2string :: "bytes \<Rightarrow> nat \<Rightarrow> nat \<Rightarrow> nat \<times> bytes" where
  "ull2string dst dstlen val =
     (let len = digits10 val in
      if len \<ge> dstlen then (0, if dstlen > 0 then dst[0 := 0] else dst)
      else
        let next = len - 1;
            dst = dst[next + 1 := 0];
            (v, next, dst) = ull_loop val next dst
        in if v < 10 then (len, dst[next := word_of_nat (48 + v)])
           else
             let i = v * 2;
                 dst = dst[next := pair_digits ! (i + 1)];
                 dst = dst[next - 1 := pair_digits ! i]
             in (len, dst))"

text \<open>\<open>dst++\<close> after the sign: the rest of the code sees the tail of the buffer.\<close>

definition ll2string :: "bytes \<Rightarrow> nat \<Rightarrow> int \<Rightarrow> nat \<times> bytes" where
  "ll2string dst dstlen svalue =
     (if svalue < 0 then
        let v = (if svalue \<noteq> LLONG_MIN then c_unsigned 64 (- svalue)
                 else c_unsigned 64 LLONG_MAX + 1)
        in if dstlen < 2 then (0, if dstlen > 0 then dst[0 := 0] else dst)
           else
             let dst = dst[0 := CHAR_minus];
                 (len, rest) = ull2string (tl dst) (dstlen - 1) v;
                 dst = hd dst # rest
             in if len = 0 then (0, dst) else (len + 1, dst)
      else
        let (len, dst) = ull2string dst dstlen (c_unsigned 64 svalue)
        in if len = 0 then (0, dst) else (len, dst))"

section \<open>Strings to numbers\<close>

definition LONG_STR_SIZE :: nat where "LONG_STR_SIZE = 21"

definition is_digit :: "byte \<Rightarrow> bool" where
  "is_digit c \<longleftrightarrow> CHAR_0 \<le> c \<and> c \<le> CHAR_9"

definition digit_value :: "byte \<Rightarrow> nat" where
  "digit_value c = unat (c - CHAR_0)"

text \<open>The digit loop: \<open>None\<close> is the return on overflow, otherwise the number and what is left.\<close>

fun parse_digits :: "bytes \<Rightarrow> nat \<Rightarrow> (nat \<times> bytes) option" where
  "parse_digits [] v = Some (v, [])"
| "parse_digits (c # p) v =
     (if is_digit c then
        if v > ULLONG_MAX div 10 then None
        else
          let v = v * 10 in
          if v > ULLONG_MAX - digit_value c then None
          else parse_digits p (v + digit_value c)
      else Some (v, c # p))"

definition string2ll :: "bytes \<Rightarrow> int option" where
  "string2ll s =
     (if s = [] \<or> length s \<ge> LONG_STR_SIZE then None
      else if length s = 1 \<and> s ! 0 = CHAR_0 then Some 0
      else
        let negative = (s ! 0 = CHAR_minus);
            p = (if negative then tl s else s)
        in if p = [] then None
           else if CHAR_0 < p ! 0 \<and> p ! 0 \<le> CHAR_9 then
             case parse_digits (tl p) (digit_value (p ! 0)) of
               None \<Rightarrow> None
             | Some (v, rest) \<Rightarrow>
                 if rest \<noteq> [] then None
                 else if negative then
                   if v > c_unsigned 64 (- (LLONG_MIN + 1)) + 1 then None
                   else Some (c_signed 64 (- int v))
                 else if int v > LLONG_MAX then None
                 else Some (c_signed 64 (int v))
           else None)"

text \<open>\<open>long\<close> has 64 bits here.\<close>

definition string2l :: "bytes \<Rightarrow> int option" where
  "string2l s =
     (case string2ll s of
        None \<Rightarrow> None
      | Some llval \<Rightarrow> if llval < - (2 ^ 63) \<or> llval > 2 ^ 63 - 1 then None else Some llval)"

text \<open>
  \<open>strtoull(s, end, 10)\<close> of the C library on a string without its terminator: the value, what is
  left at \<open>end\<close>, and whether \<open>errno\<close> is \<open>ERANGE\<close>. A minus sign negates in the unsigned type.
\<close>

definition is_space :: "byte \<Rightarrow> bool" where
  "is_space c \<longleftrightarrow> c = 32 \<or> (9 \<le> c \<and> c \<le> 13)"

definition dec_value :: "bytes \<Rightarrow> nat" where
  "dec_value ds = foldl (\<lambda>v c. v * 10 + digit_value c) 0 ds"

definition strtoull10 :: "bytes \<Rightarrow> nat \<times> bytes \<times> bool" where
  "strtoull10 s =
     (let s1 = dropWhile is_space s;
          neg = (s1 \<noteq> [] \<and> hd s1 = CHAR_minus);
          s2 = (if s1 \<noteq> [] \<and> (hd s1 = CHAR_minus \<or> hd s1 = 43) then tl s1 else s1);
          ds = takeWhile is_digit s2;
          rest = dropWhile is_digit s2
      in if ds = [] then (0, s, False)
         else if dec_value ds > ULLONG_MAX then (ULLONG_MAX, rest, True)
         else (if neg then c_unsigned 64 (- int (dec_value ds)) else dec_value ds, rest, False))"

definition string2ull :: "bytes \<Rightarrow> nat option" where
  "string2ull s =
     (case string2ll s of
        Some ll \<Rightarrow> if ll < 0 then None else Some (c_unsigned 64 ll)
      | None \<Rightarrow>
          let (v, rest, erange) = strtoull10 s
          in if erange \<or> \<not> (s \<noteq> [] \<and> rest = []) then None else Some v)"

text \<open>
  \<open>memtoull\<close>: a number of bytes with a unit. \<open>None\<close> is the return of 0 with \<open>*err\<close> set. Whether
  \<open>strtoull\<close> sets \<open>EINVAL\<close> for the empty string is left to the C library (\<open>einval\<close>).
\<close>

definition to_lower :: "byte \<Rightarrow> byte" where
  "to_lower c = (if 65 \<le> c \<and> c \<le> 90 then c + 32 else c)"

definition strcaseeq :: "bytes \<Rightarrow> bytes \<Rightarrow> bool" where
  "strcaseeq a b \<longleftrightarrow> map to_lower a = map to_lower b"

definition unit_multiplier :: "bytes \<Rightarrow> nat option" where
  "unit_multiplier u =
     (if u = [] \<or> strcaseeq u [98] then Some 1
      else if strcaseeq u [107] then Some 1000
      else if strcaseeq u [107, 98] then Some 1024
      else if strcaseeq u [109] then Some (1000 * 1000)
      else if strcaseeq u [109, 98] then Some (1024 * 1024)
      else if strcaseeq u [103] then Some (1000 * 1000 * 1000)
      else if strcaseeq u [103, 98] then Some (1024 * 1024 * 1024)
      else None)"

definition memtoull :: "bool \<Rightarrow> bytes \<Rightarrow> nat option" where
  "memtoull einval p =
     (if p \<noteq> [] \<and> hd p = CHAR_minus then None
      else
        let u = dropWhile is_digit p in
        case unit_multiplier u of
          None \<Rightarrow> None
        | Some mul \<Rightarrow>
            let digits = length p - length u in
            if digits \<ge> 128 then None
            else
              let buf = take digits p; (v, rest, erange) = strtoull10 buf
              in if (v = 0 \<and> einval \<and> buf = []) \<or> rest \<noteq> [] then None
                 else Some (c_unsigned 64 (int v * int mul)))"

section \<open>Hexadecimal numbers\<close>

definition safe_is_c_in_range :: "byte \<Rightarrow> byte \<Rightarrow> byte \<Rightarrow> bool" where
  "safe_is_c_in_range c start stop \<longleftrightarrow> c \<ge> start \<and> c \<le> stop"

definition base_16_char_type :: "byte \<Rightarrow> int" where
  "base_16_char_type c =
     (if safe_is_c_in_range c 48 57 then 0
      else if safe_is_c_in_range c 97 102 then 1
      else if safe_is_c_in_range c 65 70 then 2
      else - 1)"

definition ascii_to_dec :: "int list" where
  "ascii_to_dec = [48, 97 - 10, 65 - 10]"

text \<open>\<open>None\<close> is the return of -1 on overflow. The read of \<open>src[slen]\<close> before the test of the index
  has no effect on the result.\<close>

function base16_loop :: "bytes \<Rightarrow> nat \<Rightarrow> nat \<Rightarrow> nat \<Rightarrow> nat option" where
  "base16_loop src slen idx result =
     (if idx < slen \<and> base_16_char_type (src ! idx) \<noteq> - 1 then
        let curr_val = nat (int (unat (src ! idx)) - ascii_to_dec ! nat (base_16_char_type (src ! idx)))
        in if result > ULLONG_MAX div 16 \<or> result > (ULLONG_MAX - curr_val) div 16 then None
           else base16_loop src slen (idx + 1) (result * 16 + curr_val)
      else Some result)"
  by pat_completeness auto

termination base16_loop
  by (relation "measure (\<lambda>(src, slen, idx, result). slen - idx)") auto

declare base16_loop.simps [simp del]

definition string2ul_base16_async_signal_safe :: "bytes \<Rightarrow> nat \<Rightarrow> nat option" where
  "string2ul_base16_async_signal_safe src slen = base16_loop src slen 0 0"

section \<open>Bytes of a buffer\<close>

text \<open>\<open>mempbrk\<close> returns the index of the first byte in the set; \<open>memmapchars\<close> replaces bytes in
  place through the tables \<open>from\<close> and \<open>to\<close>.\<close>

function mempbrk_loop :: "bytes \<Rightarrow> nat \<Rightarrow> bytes \<Rightarrow> nat \<Rightarrow> nat \<Rightarrow> nat option" where
  "mempbrk_loop s len chars charslen j =
     (if j < len then
        if \<exists>n < charslen. s ! j = chars ! n then Some j
        else mempbrk_loop s len chars charslen (j + 1)
      else None)"
  by pat_completeness auto

termination mempbrk_loop
  by (relation "measure (\<lambda>(s, len, chars, charslen, j). len - j)") auto

declare mempbrk_loop.simps [simp del]

definition mempbrk :: "bytes \<Rightarrow> nat \<Rightarrow> bytes \<Rightarrow> nat \<Rightarrow> nat option" where
  "mempbrk s len chars charslen = mempbrk_loop s len chars charslen 0"

function map_byte_loop :: "byte \<Rightarrow> bytes \<Rightarrow> bytes \<Rightarrow> nat \<Rightarrow> nat \<Rightarrow> byte" where
  "map_byte_loop c src_set dst_set setlen i =
     (if i < setlen then if c = src_set ! i then dst_set ! i else map_byte_loop c src_set dst_set setlen (i + 1)
      else c)"
  by pat_completeness auto

termination map_byte_loop
  by (relation "measure (\<lambda>(c, src_set, dst_set, setlen, i). setlen - i)") auto

declare map_byte_loop.simps [simp del]

function memmapchars_loop :: "bytes \<Rightarrow> nat \<Rightarrow> bytes \<Rightarrow> bytes \<Rightarrow> nat \<Rightarrow> nat \<Rightarrow> bytes" where
  "memmapchars_loop s len src_set dst_set setlen j =
     (if j < len then
        memmapchars_loop (s[j := map_byte_loop (s ! j) src_set dst_set setlen 0]) len src_set dst_set setlen (j + 1)
      else s)"
  by pat_completeness auto

termination memmapchars_loop
  by (relation "measure (\<lambda>(s, len, src_set, dst_set, setlen, j). len - j)") auto

declare memmapchars_loop.simps [simp del]

definition memmapchars :: "bytes \<Rightarrow> nat \<Rightarrow> bytes \<Rightarrow> bytes \<Rightarrow> nat \<Rightarrow> bytes" where
  "memmapchars s len src_set dst_set setlen = memmapchars_loop s len src_set dst_set setlen 0"

section \<open>Digits and their values\<close>

lemma unat_digit: "d < 10 \<Longrightarrow> unat (digit d) = 48 + d"
proof -
  assume d: "d < 10"
  have "unat (digit d) = (48 + d) mod 256" unfolding digit_def by (rule unat_of_nat_byte)
  then show ?thesis using d by simp
qed

lemma digit_value_digit [simp]: "d < 10 \<Longrightarrow> digit_value (digit d) = d"
  by (simp add: digit_value_def digit_def CHAR_0_def)

lemma is_digit_digit [simp]: "d < 10 \<Longrightarrow> is_digit (digit d)"
  by (simp add: is_digit_def char_defs word_le_nat_alt unat_digit)

lemma is_digit_unat: "is_digit c \<longleftrightarrow> 48 \<le> unat c \<and> unat c \<le> 57"
  by (simp add: is_digit_def char_defs word_le_nat_alt)

lemma digit_value_unat: "is_digit c \<Longrightarrow> digit_value c = unat c - 48"
  by (simp add: is_digit_unat digit_value_def CHAR_0_def unat_sub word_le_nat_alt)

lemma digit_value_less: "is_digit c \<Longrightarrow> digit_value c < 10"
  using digit_value_unat [of c] is_digit_unat [of c] by linarith

lemma digit_digit_value [simp]: "is_digit c \<Longrightarrow> digit (digit_value c) = c"
  by (simp add: digit_def digit_value_def CHAR_0_def)

lemma digit_eq_iff: "d < 10 \<Longrightarrow> e < 10 \<Longrightarrow> digit d = digit e \<longleftrightarrow> d = e"
  using digit_value_digit by metis

lemma digit_nonzero: "d < 10 \<Longrightarrow> CHAR_0 < digit d \<longleftrightarrow> d \<noteq> 0" "d < 10 \<Longrightarrow> digit d \<le> CHAR_9"
  "d < 10 \<Longrightarrow> digit d \<noteq> CHAR_minus"
  by (auto simp: char_defs word_less_nat_alt word_le_nat_alt unat_digit word_unat_eq_iff)

section \<open>Length of the decimal representation\<close>

lemma dec_digits_small [simp]: "n < 10 \<Longrightarrow> dec_digits n = [digit n]"
  by (simp add: dec_digits.simps)

lemma dec_digits_step: "10 \<le> n \<Longrightarrow> dec_digits n = dec_digits (n div 10) @ [digit (n mod 10)]"
  using dec_digits.simps [of n] by simp

lemma length_dec_digits_step: "10 \<le> n \<Longrightarrow> length (dec_digits n) = Suc (length (dec_digits (n div 10)))"
  by (simp add: dec_digits_step)

lemma length_dec_digits_pos [simp]: "0 < length (dec_digits n)" "dec_digits n \<noteq> []"
  using dec_digits.simps [of n] by simp_all

lemma length_dec_digits_div:
  "10 ^ k \<le> n \<Longrightarrow> length (dec_digits n) = k + length (dec_digits (n div 10 ^ k))"
proof (induction k arbitrary: n)
  case (Suc k)
  have "10 * 10 ^ k \<le> n" "(1 :: nat) \<le> 10 ^ k" using Suc.prems by simp_all
  then have "10 \<le> n" by linarith
  moreover have "10 ^ k \<le> n div 10"
    using \<open>10 * 10 ^ k \<le> n\<close> by (simp add: less_eq_div_iff_mult_less_eq mult.commute)
  ultimately show ?case
    using Suc.IH [of "n div 10"] by (simp add: length_dec_digits_step div_mult2_eq)
qed simp

lemma length_dec_digits_eq:
  "length (dec_digits n) = Suc k \<longleftrightarrow> (k = 0 \<or> 10 ^ k \<le> n) \<and> n < 10 ^ Suc k"
proof (induction k arbitrary: n)
  case 0
  show ?case
  proof (cases "n < 10")
    case False
    then show ?thesis by (simp add: length_dec_digits_step)
  qed simp
next
  case (Suc k)
  show ?case
  proof (cases "n < 10")
    case True
    moreover have "(1 :: nat) \<le> 10 ^ k" by simp
    ultimately have "\<not> 10 * 10 ^ k \<le> n" by linarith
    with True show ?thesis by simp
  next
    case False
    then have "length (dec_digits n) = Suc (Suc k) \<longleftrightarrow> (k = 0 \<or> 10 ^ k \<le> n div 10) \<and> n div 10 < 10 ^ Suc k"
      using Suc.IH [of "n div 10"] by (simp add: length_dec_digits_step)
    also have "\<dots> \<longleftrightarrow> 10 ^ Suc k \<le> n \<and> n < 10 ^ Suc (Suc k)"
      using False by (auto simp: less_eq_div_iff_mult_less_eq div_less_iff_less_mult mult.commute)
    finally show ?thesis by simp
  qed
qed

lemma digits10_dec_digits: "digits10 n = length (dec_digits n)"
proof (induction n rule: digits10.induct)
  case (1 n)
  have len: "length (dec_digits n) = k" if "0 < k" "k = 1 \<or> 10 ^ (k - 1) \<le> n" "n < 10 ^ k" for k
    using length_dec_digits_eq [of n "k - 1"] that by auto
  show ?case
  proof (cases "n < 1000000000000")
    case True
    show ?thesis
      using True unfolding digits10.simps [of n] by (auto intro!: len)
  next
    case False
    then have "digits10 (n div 1000000000000) = length (dec_digits (n div 1000000000000))"
      by (intro "1.IH") auto
    moreover have "length (dec_digits n) = 12 + length (dec_digits (n div 10 ^ 12))"
      using False by (intro length_dec_digits_div) simp
    ultimately show ?thesis using False unfolding digits10.simps [of n] by simp
  qed
qed


section \<open>Numbers to strings\<close>

lemma pair_digits_concat:
  "pair_digits = concat (map (\<lambda>i. [digit (i div 10), digit (i mod 10)]) [0..<100])"
  unfolding pair_digits_def digit_def upt_conv_Cons_Cons
  by (simp add: upt_conv_Cons del: upt_Suc)

lemma concat_pairs_nth:
  "i < n \<Longrightarrow> concat (map (\<lambda>i. [f i, g i]) [0..<n]) ! (i * 2) = f i \<and>
    concat (map (\<lambda>i. [f i, g i]) [0..<n]) ! Suc (i * 2) = g i"
proof (induction n)
  case (Suc n)
  have len: "length (concat (map (\<lambda>i. [f i, g i]) [0..<n])) = n * 2" by (induction n) simp_all
  show ?case
  proof (cases "i = n")
    case True
    then show ?thesis by (simp add: nth_append len)
  next
    case False
    then have "i < n" using Suc.prems by simp
    with Suc.IH show ?thesis by (simp add: nth_append len)
  qed
qed simp

lemma pair_digits_nth:
  assumes "i < 100"
  shows "pair_digits ! (i * 2) = digit (i div 10)" "pair_digits ! (i * 2 + 1) = digit (i mod 10)"
    "pair_digits ! Suc (i * 2) = digit (i mod 10)"
  using concat_pairs_nth [OF assms, of "\<lambda>i. digit (i div 10)" "\<lambda>i. digit (i mod 10)"]
  by (simp_all add: pair_digits_concat)

text \<open>The loop and the two assignments after it.\<close>

definition ull_write :: "nat \<Rightarrow> nat \<Rightarrow> bytes \<Rightarrow> bytes" where
  "ull_write v next dst =
     (let (v, next, dst) = ull_loop v next dst in
      if v < 10 then dst[next := word_of_nat (48 + v)]
      else dst[next := pair_digits ! (v * 2 + 1), next - 1 := pair_digits ! (v * 2)])"

lemma list_update_two:
  assumes "0 < n" "n < length xs"
  shows "take (Suc n) (xs[n := b, n - 1 := a]) = take (n - 1) xs @ [a, b]"
    "drop (n - 1) (xs[n := b, n - 1 := a]) = a # b # drop (Suc n) xs"
proof -
  obtain m where n: "n = Suc m" using assms(1) by (cases n) auto
  have "xs = take m xs @ xs ! m # xs ! Suc m # drop (Suc (Suc m)) xs"
    using assms(2) n by (metis Cons_nth_drop_Suc Suc_lessD append_take_drop_id)
  then obtain ys x y zs where xs: "xs = ys @ x # y # zs" "length ys = m"
    using assms n by (metis length_take less_imp_le min.absorb2 Suc_lessD)
  show "take (Suc n) (xs[n := b, n - 1 := a]) = take (n - 1) xs @ [a, b]"
    "drop (n - 1) (xs[n := b, n - 1 := a]) = a # b # drop (Suc n) xs"
    by (simp_all add: n xs list_update_append)
qed

lemma ull_write_decimal:
  "length (dec_digits v) = Suc next \<Longrightarrow> next < length dst \<Longrightarrow>
   ull_write v next dst = dec_digits v @ drop (Suc next) dst"
proof (induction v "next" dst rule: ull_loop.induct)
  case (1 v "next" dst)
  show ?case
  proof (cases "100 \<le> v")
    case True
    then have len: "length (dec_digits v) = 2 + length (dec_digits (v div 100))"
      using length_dec_digits_div [of 2 v] by simp
    with 1 have n: "2 \<le> next" using length_dec_digits_pos(1) [of "v div 100"] by linarith
    define dst' where "dst' = dst[next := pair_digits ! (v mod 100 * 2 + 1), next - 1 := pair_digits ! (v mod 100 * 2)]"
    have "ull_write v next dst = ull_write (v div 100) (next - 2) dst'"
      using True by (simp add: ull_write_def ull_loop.simps [of v "next" dst] Let_def dst'_def)
    also have "\<dots> = dec_digits (v div 100) @ drop (Suc (next - 2)) dst'"
      unfolding dst'_def using True len n "1.prems" by (intro "1.IH") simp_all
    also have "Suc (next - 2) = next - 1" using n by simp
    also have "drop (next - 1) dst' = [digit (v mod 100 div 10), digit (v mod 100 mod 10)] @ drop (Suc next) dst"
      unfolding dst'_def using n "1.prems" list_update_two(2) [of "next" dst] by (simp add: pair_digits_nth)
    also have "dec_digits (v div 100) @ [digit (v mod 100 div 10), digit (v mod 100 mod 10)] @ drop (Suc next) dst
        = dec_digits v @ drop (Suc next) dst"
    proof -
      have "v mod 100 div 10 = v div 10 mod 10" "v mod 100 mod 10 = v mod 10"
        using mod_mult2_eq [of v 10 10] by simp_all
      moreover have "dec_digits v = dec_digits (v div 10 div 10) @ [digit (v div 10 mod 10), digit (v mod 10)]"
        using True dec_digits_step [of v] dec_digits_step [of "v div 10"] by simp
      ultimately show ?thesis by (simp add: div_mult2_eq [symmetric])
    qed
    finally show ?thesis .
  next
    case False
    then have loop: "ull_loop v next dst = (v, next, dst)" by (simp add: ull_loop.simps)
    show ?thesis
    proof (cases "v < 10")
      case True
      then have n: "next = 0" using "1.prems" by simp
      with "1.prems" obtain x xs where "dst = x # xs" by (cases dst) auto
      with n True show ?thesis using loop by (simp add: ull_write_def digit_def)
    next
      case False
      have v: "v div 10 < 10" "v < 100" using \<open>\<not> 100 \<le> v\<close> by simp_all
      then have dec: "dec_digits v = [digit (v div 10), digit (v mod 10)]"
        using False by (simp add: dec_digits_step)
      with "1.prems" have n: "next = 1" by simp
      from v(2) False show ?thesis
        using list_update_two(2) [of 1 dst] "1.prems" n loop
        by (simp add: ull_write_def pair_digits_nth dec)
    qed
  qed
qed

lemma ull2string_decimal:
  assumes "dstlen \<le> length dst"
  shows "ull2string dst dstlen v =
    (if length (dec_digits v) < dstlen
     then (length (dec_digits v), dec_digits v @ 0 # drop (Suc (length (dec_digits v))) dst)
     else (0, if 0 < dstlen then dst[0 := 0] else dst))"
proof (cases "length (dec_digits v) < dstlen")
  case True
  let ?n = "length (dec_digits v)" and ?dst = "dst[length (dec_digits v) := 0]"
  have len: "length (dec_digits v) = Suc (?n - 1)" using length_dec_digits_pos(1) [of v] by simp
  have "ull2string dst dstlen v = (?n, ull_write v (?n - 1) ?dst)"
    using True len
    by (simp add: ull2string_def digits10_dec_digits ull_write_def Let_def split_def not_le)
  also have "ull_write v (?n - 1) ?dst = dec_digits v @ drop ?n ?dst"
    using True assms len ull_write_decimal [of v "?n - 1" ?dst] by simp
  also have "drop ?n ?dst = 0 # drop (Suc ?n) dst"
    using True assms by (simp add: drop_update_cancel upd_conv_take_nth_drop)
  finally show ?thesis using True by simp
next
  case False
  then show ?thesis by (simp add: ull2string_def digits10_dec_digits)
qed


lemma length_dec_digits_bound: "n < 10 ^ k \<Longrightarrow> 0 < k \<Longrightarrow> length (dec_digits n) \<le> k"
proof -
  assume a: "n < 10 ^ k" "0 < k"
  obtain j where j: "length (dec_digits n) = Suc j" using length_dec_digits_pos(1) gr0_conv_Suc by blast
  then have "j = 0 \<or> 10 ^ j \<le> n" by (simp only: length_dec_digits_eq)
  then have "j < k"
  proof
    assume "10 ^ j \<le> n"
    from this a(1) have "(10 :: nat) ^ j < 10 ^ k" by (rule le_less_trans)
    then show ?thesis by (rule power_less_imp_less_exp [rotated]) simp
  qed (use a(2) in simp)
  with j show ?thesis by simp
qed

lemma abs_in_range:
  assumes "fits_signed 64 v"
  shows "(if v < 0 then if v \<noteq> LLONG_MIN then c_unsigned 64 (- v) else c_unsigned 64 LLONG_MAX + 1
    else c_unsigned 64 v) = nat \<bar>v\<bar>"
proof -
  have "c_unsigned 64 (- v) = nat (- v)" if "v < 0" "v \<noteq> LLONG_MIN"
    using that assms by (intro c_unsigned_id) (simp_all add: fits_signed_def llong_defs)
  moreover have "c_unsigned 64 v = nat v" if "\<not> v < 0"
    using that assms by (intro c_unsigned_id) (simp_all add: fits_signed_def)
  moreover have "c_unsigned 64 LLONG_MAX = nat LLONG_MAX"
    by (intro c_unsigned_id) (simp_all add: llong_defs)
  ultimately show ?thesis by (auto simp: llong_defs)
qed

lemma sdigits10_decimal: "fits_signed 64 v \<Longrightarrow> sdigits10 v = length (decimal v)"
  using abs_in_range [of v]
  by (auto simp: sdigits10_def decimal_def digits10_dec_digits Let_def split: if_splits)

lemma length_decimal_bound:
  assumes "fits_signed 64 v"
  shows "length (decimal v) < LONG_STR_SIZE"
proof -
  have "\<bar>v\<bar> < 10 ^ 19" using assms by (simp add: fits_signed_def abs_if)
  then have "nat \<bar>v\<bar> < 10 ^ 19" by (simp add: nat_less_iff)
  then have "length (dec_digits (nat \<bar>v\<bar>)) \<le> 19" by (rule length_dec_digits_bound) simp
  then show ?thesis by (auto simp: decimal_def LONG_STR_SIZE_def abs_if split: if_splits)
qed

lemma ll2string_decimal:
  assumes v: "fits_signed 64 v" and len: "dstlen \<le> length dst"
  shows "ll2string dst dstlen v =
    (if length (decimal v) < dstlen
     then (length (decimal v), decimal v @ 0 # drop (Suc (length (decimal v))) dst)
     else (0, snd (ll2string dst dstlen v)))"
proof (cases "v < 0")
  case True
  let ?n = "nat (- v)"
  have abs: "(if v \<noteq> LLONG_MIN then c_unsigned 64 (- v) else c_unsigned 64 LLONG_MAX + 1) = ?n"
    using abs_in_range [OF v] True by simp
  show ?thesis
  proof (cases "dstlen < 2")
    case short: True
    then show ?thesis using True by (simp add: ll2string_def abs decimal_def)
  next
    case False
    with len obtain x xs where dst: "dst = x # xs" by (cases dst) auto
    have "dstlen - 1 \<le> length xs" using len dst by simp
    then show ?thesis using True False
      by (auto simp: ll2string_def abs decimal_def dst ull2string_decimal Let_def)
  qed
next
  case False
  have "c_unsigned 64 v = nat v" using abs_in_range [OF v] False by simp
  then show ?thesis using False len
    by (auto simp: ll2string_def decimal_def ull2string_decimal Let_def)
qed

section \<open>Strings to numbers\<close>

definition add_digit :: "nat \<Rightarrow> byte \<Rightarrow> nat" where
  "add_digit v c = v * 10 + digit_value c"

lemma foldl_add_digit_ge: "v \<le> foldl add_digit v p"
proof (induction p arbitrary: v)
  case (Cons c p)
  have "v \<le> add_digit v c" by (simp add: add_digit_def)
  also have "\<dots> \<le> foldl add_digit (add_digit v c) p" by (rule Cons.IH)
  finally show ?case by simp
qed simp

lemma dec_digits_foldl:
  "0 < v \<Longrightarrow> list_all is_digit p \<Longrightarrow> dec_digits (foldl add_digit v p) = dec_digits v @ p"
proof (induction p arbitrary: v)
  case (Cons c p)
  have d: "digit_value c < 10" using Cons.prems by (simp add: digit_value_less)
  have "dec_digits (add_digit v c) = dec_digits v @ [c]"
    using Cons.prems d dec_digits_step [of "v * 10 + digit_value c"] by (simp add: add_digit_def)
  then show ?case using Cons by (simp add: add_digit_def)
qed simp

lemma dec_digits_digits: "list_all is_digit (dec_digits n)"
  by (induction n rule: dec_digits.induct) (auto simp: dec_digits.simps)

lemma dec_digits_head:
  assumes "0 < n"
  obtains d p where "dec_digits n = digit d # p" "0 < d" "d < 10" "list_all is_digit p"
    "foldl add_digit d p = n"
proof -
  have "\<exists>d p. dec_digits n = digit d # p \<and> 0 < d \<and> d < 10 \<and> list_all is_digit p \<and> foldl add_digit d p = n"
    using assms
  proof (induction n rule: dec_digits.induct)
    case (1 n)
    show ?case
    proof (cases "n < 10")
      case True
      with "1.prems" show ?thesis by simp
    next
      case False
      then obtain d p where
        dp: "dec_digits (n div 10) = digit d # p" "0 < d" "d < 10" "list_all is_digit p" "foldl add_digit d p = n div 10"
        using "1.IH" [OF False] by (metis False div_greater_zero_iff not_less zero_less_numeral)
      then have "dec_digits n = digit d # (p @ [digit (n mod 10)])"
        "list_all is_digit (p @ [digit (n mod 10)])" "foldl add_digit d (p @ [digit (n mod 10)]) = n"
        using False by (simp_all add: dec_digits_step add_digit_def)
      with dp(2,3) show ?thesis by blast
    qed
  qed
  with that show ?thesis by blast
qed

lemma parse_digits_iff:
  "v \<le> ULLONG_MAX \<Longrightarrow> parse_digits p v = Some (w, []) \<longleftrightarrow>
   list_all is_digit p \<and> w = foldl add_digit v p \<and> w \<le> ULLONG_MAX"
proof (induction p arbitrary: v)
  case (Cons c p)
  have big: "ULLONG_MAX < v * 10 + digit_value c"
    if "ULLONG_MAX div 10 < v \<or> ULLONG_MAX - digit_value c < v * 10"
    using that by (auto simp: ULLONG_MAX_def)
  show ?case
  proof (cases "is_digit c \<and> (ULLONG_MAX div 10 < v \<or> ULLONG_MAX - digit_value c < v * 10)")
    case True
    then have "ULLONG_MAX < add_digit v c" using big by (simp add: add_digit_def)
    also have "\<dots> \<le> foldl add_digit (add_digit v c) p" by (rule foldl_add_digit_ge)
    finally show ?thesis using True by auto
  next
    case False
    show ?thesis
    proof (cases "is_digit c")
      case True
      with False have "v * 10 + digit_value c \<le> ULLONG_MAX" 
        using digit_value_less [OF True] by (auto simp: ULLONG_MAX_def)
      with False True show ?thesis using Cons.IH [of "v * 10 + digit_value c"] by (simp add: add_digit_def)
    qed simp
  qed
qed auto


lemma CHAR_0_digit: "CHAR_0 = digit 0"
  by (simp add: CHAR_0_def digit_def)

lemma leading_digit: "CHAR_0 < c \<and> c \<le> CHAR_9 \<longleftrightarrow> (\<exists>d. 0 < d \<and> d < 10 \<and> c = digit d)"
proof
  assume a: "CHAR_0 < c \<and> c \<le> CHAR_9"
  then have "is_digit c" by (auto simp: is_digit_def)
  then have "c = digit (digit_value c)" "digit_value c < 10" by (simp_all add: digit_value_less)
  moreover have "digit_value c \<noteq> 0"
  proof
    assume "digit_value c = 0"
    with calculation(1) have "c = CHAR_0" by (simp add: CHAR_0_digit)
    with a show False by simp
  qed
  ultimately show "\<exists>d. 0 < d \<and> d < 10 \<and> c = digit d" by auto
qed (auto simp: digit_nonzero)

lemma c_unsigned_LLONG: "c_unsigned 64 (- (LLONG_MIN + 1)) = 2 ^ 63 - 1"
  "c_unsigned 64 (- LLONG_MIN - 1) = 2 ^ 63 - 1"
  by (simp_all add: c_unsigned_def llong_defs)

lemma string2ll_decimal:
  assumes v: "fits_signed 64 v"
  shows "string2ll (decimal v) = Some v"
proof (cases "v = 0")
  case True
  then show ?thesis by (simp add: string2ll_def decimal_def CHAR_0_digit LONG_STR_SIZE_def)
next
  case False
  define n where "n = nat \<bar>v\<bar>"
  have n: "0 < n" "n \<le> ULLONG_MAX" "n \<le> 2 ^ 63"
    using v False by (auto simp: n_def fits_signed_def ULLONG_MAX_def abs_if split: if_splits)
  obtain d p where dp: "dec_digits n = digit d # p" "0 < d" "d < 10" "list_all is_digit p"
    "foldl add_digit d p = n"
    using n(1) by (rule dec_digits_head)
  have "d \<le> n" using foldl_add_digit_ge [of d p] dp(5) by simp
  then have parse: "parse_digits p d = Some (n, [])"
    using dp n by (simp add: parse_digits_iff)
  have len: "length (decimal v) < LONG_STR_SIZE" using v by (rule length_decimal_bound)
  have digit: "digit d \<noteq> CHAR_minus" "digit d \<noteq> CHAR_0" "CHAR_0 < digit d" "digit d \<le> CHAR_9"
    using dp(2,3) digit_eq_iff [of d 0] by (simp_all add: digit_nonzero) (simp add: CHAR_0_digit)
  show ?thesis
  proof (cases "v < 0")
    case True
    then have s: "decimal v = CHAR_minus # digit d # p" using dp(1) by (simp add: decimal_def n_def)
    have "c_signed 64 (- int n) = v" using v True by (simp add: n_def c_signed_id)
    with len n(3) show ?thesis
      by (simp add: s string2ll_def digit dp(3) parse c_unsigned_LLONG)
  next
    case nonneg: False
    then have s: "decimal v = digit d # p" using dp(1) by (simp add: decimal_def n_def)
    have "c_signed 64 (int n) = v" "int n \<le> LLONG_MAX"
      using v nonneg by (simp_all add: n_def c_signed_id fits_signed_def llong_defs)
    with len show ?thesis by (simp add: s string2ll_def digit dp(3) parse)
  qed
qed

lemma decimal_of_string2ll:
  assumes "string2ll s = Some v"
  shows "fits_signed 64 v \<and> s = decimal v"
proof (cases "length s = 1 \<and> s ! 0 = CHAR_0")
  case True
  then have "s = [CHAR_0]" by (cases s) auto
  with assms have "v = 0" by (simp add: string2ll_def LONG_STR_SIZE_def)
  with \<open>s = _\<close> show ?thesis by (simp add: fits_signed_def decimal_def CHAR_0_digit)
next
  case False
  define neg where "neg = (s ! 0 = CHAR_minus)"
  define p where "p = (if neg then tl s else s)"
  from assms False have s: "s \<noteq> []" "p \<noteq> []" and c: "CHAR_0 < p ! 0 \<and> p ! 0 \<le> CHAR_9"
    by (auto simp: string2ll_def neg_def p_def Let_def split: if_splits)
  then obtain d where d: "0 < d" "d < 10" "p ! 0 = digit d" using leading_digit by auto
  from assms False s c obtain n where parse: "parse_digits (tl p) d = Some (n, [])"
    and n: "if neg then n \<le> 2 ^ 63 \<and> v = c_signed 64 (- int n) else int n \<le> LLONG_MAX \<and> v = c_signed 64 (int n)"
    using d
    by (auto simp: string2ll_def neg_def [symmetric] p_def [symmetric] Let_def c_unsigned_LLONG
        split: if_splits option.splits)
  have dle: "d \<le> ULLONG_MAX" using d(2) by (simp add: ULLONG_MAX_def)
  have n': "n = foldl add_digit d (tl p)" "list_all is_digit (tl p)"
    using parse by (simp_all add: parse_digits_iff [OF dle])
  have digits: "dec_digits n = p"
    using dec_digits_foldl [OF d(1) n'(2)] n'(1) d(2,3) s(2) by (cases p) auto
  have n0: "0 < n" using foldl_add_digit_ge [of d "tl p"] d(1) n'(1) by linarith
  show ?thesis
  proof (cases neg)
    case True
    with n have "fits_signed 64 (- int n)" by (auto simp: fits_signed_def)
    with True n have v: "v = - int n" "fits_signed 64 v" by (simp_all add: c_signed_id)
    have "s = CHAR_minus # p" using True s by (cases s) (auto simp: neg_def p_def)
    with v n0 digits show ?thesis by (simp add: decimal_def)
  next
    case False
    with n have "fits_signed 64 (int n)" by (auto simp: fits_signed_def llong_defs)
    with False n have v: "v = int n" "fits_signed 64 v" by (simp_all add: c_signed_id)
    with False digits show ?thesis by (simp add: decimal_def p_def)
  qed
qed


section \<open>Hexadecimal numbers and byte sets\<close>

definition hex_digit :: "byte \<Rightarrow> bool" where
  "hex_digit c \<longleftrightarrow> base_16_char_type c \<noteq> - 1"

definition hex_digit_value :: "byte \<Rightarrow> nat" where
  "hex_digit_value c =
     (if unat c \<le> 57 then unat c - 48 else if unat c \<le> 70 then unat c - 55 else unat c - 87)"

definition hex_value :: "nat \<Rightarrow> bytes \<Rightarrow> nat" where
  "hex_value v s = foldl (\<lambda>v c. v * 16 + hex_digit_value c) v s"

lemma hex_digit_value:
  assumes "hex_digit c"
  shows "nat (int (unat c) - ascii_to_dec ! nat (base_16_char_type c)) = hex_digit_value c"
    "hex_digit_value c < 16"
proof -
  have r: "(48 \<le> unat c \<and> unat c \<le> 57) \<or> (97 \<le> unat c \<and> unat c \<le> 102) \<or> (65 \<le> unat c \<and> unat c \<le> 70)"
    using assms
    by (auto simp: hex_digit_def base_16_char_type_def safe_is_c_in_range_def word_le_nat_alt split: if_splits)
  then show "hex_digit_value c < 16" by (auto simp: hex_digit_value_def)
  show "nat (int (unat c) - ascii_to_dec ! nat (base_16_char_type c)) = hex_digit_value c"
    using r
    by (elim disjE)
      (simp_all add: hex_digit_value_def base_16_char_type_def safe_is_c_in_range_def word_le_nat_alt
        ascii_to_dec_def nat_diff_distrib del: unat_eq_nat_uint, simp_all add: nat_minus_as_int)
qed

lemma hex_value_ge: "v \<le> hex_value v s"
proof (induction s arbitrary: v)
  case (Cons c s)
  have "v \<le> v * 16 + hex_digit_value c" by simp
  also have "\<dots> \<le> hex_value (v * 16 + hex_digit_value c) s" by (rule Cons.IH)
  finally show ?case by (simp add: hex_value_def)
qed (simp add: hex_value_def)

lemma base16_loop_value:
  assumes "slen \<le> length src" "idx \<le> slen" "v \<le> ULLONG_MAX"
  shows "base16_loop src slen idx v =
    (let w = hex_value v (takeWhile hex_digit (drop idx (take slen src)))
     in if w \<le> ULLONG_MAX then Some w else None)"
  using assms
proof (induction src slen idx v rule: base16_loop.induct)
  case (1 src slen idx v)
  show ?case
  proof (cases "idx < slen \<and> hex_digit (src ! idx)")
    case True
    let ?d = "hex_digit_value (src ! idx)"
    have d: "nat (int (unat (src ! idx)) - ascii_to_dec ! nat (base_16_char_type (src ! idx))) = ?d" "?d < 16"
      using hex_digit_value True by blast+
    have drop: "drop idx (take slen src) = src ! idx # drop (Suc idx) (take slen src)"
      using True "1.prems" by (simp add: Cons_nth_drop_Suc [symmetric])
    have step: "base16_loop src slen idx v =
      (if ULLONG_MAX div 16 < v \<or> (ULLONG_MAX - ?d) div 16 < v then None
       else base16_loop src slen (idx + 1) (v * 16 + ?d))"
      unfolding base16_loop.simps [of src slen idx v] d(1) Let_def using True by (simp add: hex_digit_def)
    have w: "hex_value v (takeWhile hex_digit (drop idx (take slen src))) =
        hex_value (v * 16 + ?d) (takeWhile hex_digit (drop (Suc idx) (take slen src)))"
      using True by (simp add: drop hex_value_def)
    show ?thesis
    proof (cases "ULLONG_MAX div 16 < v \<or> (ULLONG_MAX - ?d) div 16 < v")
      case over: True
      then have "ULLONG_MAX < v * 16 + ?d" using d(2) by (auto simp: ULLONG_MAX_def)
      also have "\<dots> \<le> hex_value (v * 16 + ?d) (takeWhile hex_digit (drop (Suc idx) (take slen src)))"
        by (rule hex_value_ge)
      finally show ?thesis using over unfolding step w by (simp add: Let_def)
    next
      case False
      then have le: "v * 16 + ?d \<le> ULLONG_MAX" using d(2) by (auto simp: ULLONG_MAX_def)
      have "base16_loop src slen (idx + 1) (v * 16 + ?d) =
        (let w = hex_value (v * 16 + ?d) (takeWhile hex_digit (drop (idx + 1) (take slen src)))
         in if w \<le> ULLONG_MAX then Some w else None)"
        using True False "1.prems"(1) le
        by (intro "1.IH" [OF _ d(1) [symmetric]]) (auto simp: hex_digit_def)
      then show ?thesis using False unfolding step w by simp
    qed
  next
    case False
    have nil: "takeWhile hex_digit (drop idx (take slen src)) = []"
    proof (cases "idx < slen")
      case True
      then have "drop idx (take slen src) = src ! idx # drop (Suc idx) (take slen src)"
        using "1.prems" by (simp add: Cons_nth_drop_Suc [symmetric])
      with False True show ?thesis by simp
    qed simp
    have "base16_loop src slen idx v = Some v"
      using False by (auto simp: base16_loop.simps [of src slen idx v] hex_digit_def)
    with "1.prems" show ?thesis unfolding nil by (simp add: hex_value_def)
  qed
qed

lemma mempbrk_loop_first:
  "mempbrk_loop s len chars charslen j =
   (if \<exists>i. j \<le> i \<and> i < len \<and> (\<exists>n < charslen. s ! i = chars ! n)
    then Some (LEAST i. j \<le> i \<and> (\<exists>n < charslen. s ! i = chars ! n)) else None)"
proof (induction s len chars charslen j rule: mempbrk_loop.induct)
  case (1 s len chars charslen j)
  let ?P = "\<lambda>i. \<exists>n < charslen. s ! i = chars ! n"
  show ?case
  proof (cases "j < len \<and> \<not> ?P j")
    case True
    then have eq: "(j \<le> i \<and> ?P i) = (j + 1 \<le> i \<and> ?P i)" for i using le_less_Suc_eq by fastforce
    then have eq2: "(j \<le> i \<and> i < len \<and> ?P i) = (j + 1 \<le> i \<and> i < len \<and> ?P i)" for i by blast
    have "mempbrk_loop s len chars charslen j = mempbrk_loop s len chars charslen (j + 1)"
      using True by (auto simp: mempbrk_loop.simps [of s len chars charslen j])
    also note "1.IH" [OF conjunct1 [OF True] conjunct2 [OF True]]
    finally show ?thesis by (simp only: eq eq2)
  next
    case False
    have "(LEAST i. j \<le> i \<and> ?P i) = j" if "?P j" using that by (intro Least_equality) auto
    with False show ?thesis unfolding mempbrk_loop.simps [of s len chars charslen j] by auto
  qed
qed


lemma memmapchars_loop_nth:
  "len \<le> length s \<Longrightarrow> i < length s \<Longrightarrow>
   memmapchars_loop s len src_set dst_set setlen j ! i =
     (if j \<le> i \<and> i < len then map_byte_loop (s ! i) src_set dst_set setlen 0 else s ! i)"
proof (induction s len src_set dst_set setlen j rule: memmapchars_loop.induct)
  case (1 s len src_set dst_set setlen j)
  show ?case
  proof (cases "j < len")
    case True
    show ?thesis
      using "1.IH" [OF True] "1.prems" True
      unfolding memmapchars_loop.simps [of s len src_set dst_set setlen j] by (auto simp: nth_list_update)
  next
    case False
    then show ?thesis unfolding memmapchars_loop.simps [of s len src_set dst_set setlen j] by auto
  qed
qed

section \<open>Amounts of memory\<close>

lemma dec_value_dec_digits: "dec_value (dec_digits n) = n"
proof (cases "n = 0")
  case True
  then show ?thesis by (simp add: dec_value_def)
next
  case False
  then obtain d p where dp: "dec_digits n = digit d # p" "d < 10" "foldl add_digit d p = n"
    using dec_digits_head [of n] by blast
  have "(\<lambda>v c. v * 10 + digit_value c) = add_digit" by (intro ext) (simp add: add_digit_def)
  moreover from dp(2) have "add_digit 0 (digit d) = d" by (simp add: add_digit_def)
  ultimately show ?thesis using dp by (simp add: dec_value_def)
qed

lemma not_is_digit [simp]: "\<not> is_digit CHAR_minus" "\<not> is_digit 43" "is_space c \<Longrightarrow> \<not> is_digit c"
  by (auto simp: is_digit_def char_defs is_space_def word_le_nat_alt)

lemma strtoull10_digits:
  assumes "list_all is_digit ds" "ds \<noteq> []" "dec_value ds \<le> ULLONG_MAX"
  shows "strtoull10 ds = (dec_value ds, [], False)"
proof -
  obtain c cs where ds: "ds = c # cs" using assms(2) by (cases ds) auto
  have c: "is_digit c" using assms(1) ds by simp
  have "dropWhile is_space ds = ds" using c not_is_digit(3) ds by auto
  moreover have "c \<noteq> CHAR_minus" "c \<noteq> 43" using c not_is_digit(1,2) by blast+
  moreover have "takeWhile is_digit ds = ds" "dropWhile is_digit ds = []"
    using assms(1) by (simp_all add: list_all_iff)
  ultimately show ?thesis using assms(2,3) ds by (simp add: strtoull10_def)
qed

lemma memtoull_digits:
  assumes digits: "list_all is_digit ds" "ds \<noteq> []" "length ds < 128" "dec_value ds \<le> ULLONG_MAX"
    and u: "unit_multiplier u = Some mul" "u = [] \<or> \<not> is_digit (hd u)"
  shows "memtoull e (ds @ u) = Some (c_unsigned 64 (int (dec_value ds) * int mul))"
proof -
  have "hd ds \<noteq> CHAR_minus" using digits(1,2) not_is_digit(1) by (cases ds) auto
  moreover have "dropWhile is_digit (ds @ u) = u"
    using digits(1) u(2) by (cases u) (auto simp: list_all_iff dropWhile_append2)
  ultimately show ?thesis
    using digits u(1) by (simp add: memtoull_def strtoull10_digits)
qed

section \<open>Properties\<close>

text \<open>
  Property C14: \<open>string2ll\<close> accepts a string exactly when it is the canonical decimal representation
  of a 64-bit signed integer (no spaces, no leading zeros, no \<open>+\<close>, no \<open>-0\<close>), and returns that
  integer.
\<close>

theorem string2ll_iff: "string2ll s = Some v \<longleftrightarrow> fits_signed 64 v \<and> s = decimal v"
  using string2ll_decimal decimal_of_string2ll by blast

text \<open>
  Property C15: \<open>ll2string\<close> writes the decimal representation and a terminator when they fit and
  nothing else, and otherwise returns 0 without touching a byte outside \<open>dstlen\<close>; \<open>string2ll\<close>
  reads the number back.
\<close>

theorem ll2string_string2ll:
  assumes "fits_signed 64 v" "LONG_STR_SIZE \<le> length dst"
  shows "ll2string dst LONG_STR_SIZE v =
      (length (decimal v), decimal v @ 0 # drop (Suc (length (decimal v))) dst)
    \<and> string2ll (take (fst (ll2string dst LONG_STR_SIZE v)) (snd (ll2string dst LONG_STR_SIZE v))) = Some v"
  using ll2string_decimal [OF assms] length_decimal_bound [OF assms(1)] string2ll_decimal [OF assms(1)]
  by simp

theorem ll2string_string2ll_witness:
  "string2ll (take (fst (ll2string (replicate 21 7) LONG_STR_SIZE (- 12345)))
     (snd (ll2string (replicate 21 7) LONG_STR_SIZE (- 12345)))) = Some (- 12345)"
proof -
  have "fits_signed 64 (- 12345)" "LONG_STR_SIZE \<le> length (replicate 21 (7 :: byte))"
    by (simp_all add: fits_signed_def LONG_STR_SIZE_def)
  from conjunct2 [OF ll2string_string2ll [OF this]] show ?thesis .
qed

text \<open>
  the branchy digit counts of \<open>digits10\<close> and \<open>sdigits10\<close> are the lengths of the decimal
  representations, for every 64-bit value.
\<close>

theorem sdigits10_length:
  "fits_signed 64 v \<Longrightarrow> sdigits10 v = length (decimal v) \<and> digits10 n = length (dec_digits n)"
  by (simp add: sdigits10_decimal digits10_dec_digits)

theorem sdigits10_length_witness: "sdigits10 (- 1000) = length (decimal (- 1000))"
  using sdigits10_length [of "- 1000" 0] by (simp add: fits_signed_def)

text \<open>
  \<open>string2ul_base16_async_signal_safe\<close> reads the longest prefix of hexadecimal digits
  and fails exactly when its value does not fit in 64 bits.
\<close>

theorem string2ul_base16_value:
  assumes "slen \<le> length src"
  shows "string2ul_base16_async_signal_safe src slen =
    (let w = hex_value 0 (takeWhile hex_digit (take slen src)) in if w \<le> ULLONG_MAX then Some w else None)"
  using base16_loop_value [of slen src 0 0] assms by (simp add: string2ul_base16_async_signal_safe_def)

theorem string2ul_base16_value_witness:
  "string2ul_base16_async_signal_safe [102, 70, 103] 3 = Some 255"
  using string2ul_base16_value [of 3 "[102, 70, 103]"]
  by (simp add: hex_digit_def base_16_char_type_def safe_is_c_in_range_def hex_value_def
      hex_digit_value_def ULLONG_MAX_def)

text \<open>
  \<open>memtoull\<close> does not detect overflow: an amount of digits that fits in 64 bits is
  multiplied by its unit modulo \<open>2 ^ 64\<close>, so \<open>17179869184gb\<close> is read as 0 without an error.
\<close>

theorem memtoull_wraps:
  assumes "n \<le> ULLONG_MAX" "unit_multiplier u = Some mul" "u = [] \<or> \<not> is_digit (hd u)"
  shows "memtoull e (dec_digits n @ u) = Some (n * mul mod 2 ^ 64)"
proof -
  have "length (dec_digits n) \<le> 20"
    using assms(1) by (intro length_dec_digits_bound) (simp_all add: ULLONG_MAX_def)
  then have "memtoull e (dec_digits n @ u) = Some (c_unsigned 64 (int n * int mul))"
    using assms by (subst memtoull_digits) (simp_all add: dec_digits_digits dec_value_dec_digits)
  then show ?thesis by (simp add: c_unsigned_def nat_mod_distrib nat_mult_distrib)
qed

theorem memtoull_wraps_witness: "memtoull False (dec_digits 17179869184 @ [103, 98]) = Some 0"
  using memtoull_wraps [of 17179869184 "[103, 98]" "1024 * 1024 * 1024" False]
  by (simp add: ULLONG_MAX_def unit_multiplier_def strcaseeq_def to_lower_def is_digit_def char_defs)

text \<open>
  \<open>string2ull\<close> rejects a canonical negative number but accepts one with a leading
  zero, and returns its wrapped value: \<open>-05\<close> is read as \<open>2 ^ 64 - 5\<close>.
\<close>

theorem string2ull_negative:
  assumes "0 < d" "d < 10"
  shows "string2ull [CHAR_minus, digit d] = None \<and>
    string2ull [CHAR_minus, CHAR_0, digit d] = Some (2 ^ 64 - d)"
proof -
  have "decimal (- int d) = [CHAR_minus, digit d]" using assms by (simp add: decimal_def)
  moreover have "fits_signed 64 (- int d)" using assms by (simp add: fits_signed_def)
  ultimately have "string2ll [CHAR_minus, digit d] = Some (- int d)"
    using string2ll_decimal by metis
  then have a: "string2ull [CHAR_minus, digit d] = None" using assms by (simp add: string2ull_def)
  have "string2ll [CHAR_minus, CHAR_0, digit d] = None"
    by (simp add: string2ll_def LONG_STR_SIZE_def)
  moreover have "strtoull10 [CHAR_minus, CHAR_0, digit d] = (c_unsigned 64 (- int d), [], False)"
    using assms
    by (simp add: strtoull10_def is_space_def char_defs(3) word_le_nat_alt CHAR_0_digit dec_value_def ULLONG_MAX_def)
  moreover have "c_unsigned 64 (- int d) = 2 ^ 64 - d"
  proof -
    have "(- int d) mod 2 ^ 64 = (2 ^ 64 - int d) mod 2 ^ 64" by simp
    also have "\<dots> = 2 ^ 64 - int d" using assms by (intro mod_pos_pos_trivial) simp_all
    finally show ?thesis using assms by (simp add: c_unsigned_def nat_diff_distrib)
  qed
  ultimately show ?thesis using a by (simp add: string2ull_def)
qed

theorem string2ull_negative_witness: "string2ull [45, 48, 53] = Some (2 ^ 64 - 5)"
  using string2ull_negative [of 5] by (simp add: char_defs digit_def)

end
