(* ===== verification/Lp_Codec.thy ===== *)
theory Lp_Codec
  imports Numbers
begin

text \<open>
  \<open>listpack.c\<close>, first part: the header, the encodings of one entry and the length at its end that
  lets a listpack be walked backwards. A pointer \<open>p\<close> that the code only reads forward is the list
  of the bytes from \<open>p\<close> on; where the code reads before \<open>p\<close>, it is an offset into the block.
\<close>

section \<open>Constants and header fields\<close>

definition LP_HDR_SIZE :: nat where "LP_HDR_SIZE = 6"
definition LP_HDR_NUMELE_UNKNOWN :: nat where "LP_HDR_NUMELE_UNKNOWN = 65535"
definition LP_EOF :: byte where "LP_EOF = 0xFF"
definition UINT32_MAX :: nat where "UINT32_MAX = 2 ^ 32 - 1"
definition LP_INTBUF_SIZE :: nat where "LP_INTBUF_SIZE = 21"
definition LISTPACK_MAX_SAFETY_SIZE :: nat where "LISTPACK_MAX_SAFETY_SIZE = 2 ^ 30"

lemmas lp_consts = LP_HDR_SIZE_def LP_HDR_NUMELE_UNKNOWN_def LP_EOF_def UINT32_MAX_def

datatype lp_enctype = LP_ENCODING_INT | LP_ENCODING_STRING

definition IS_7BIT_UINT :: "byte \<Rightarrow> bool" where "IS_7BIT_UINT b \<longleftrightarrow> b AND 0x80 = 0"
definition IS_6BIT_STR :: "byte \<Rightarrow> bool" where "IS_6BIT_STR b \<longleftrightarrow> b AND 0xC0 = 0x80"
definition IS_13BIT_INT :: "byte \<Rightarrow> bool" where "IS_13BIT_INT b \<longleftrightarrow> b AND 0xE0 = 0xC0"
definition IS_12BIT_STR :: "byte \<Rightarrow> bool" where "IS_12BIT_STR b \<longleftrightarrow> b AND 0xF0 = 0xE0"
definition IS_16BIT_INT :: "byte \<Rightarrow> bool" where "IS_16BIT_INT b \<longleftrightarrow> b AND 0xFF = 0xF1"
definition IS_24BIT_INT :: "byte \<Rightarrow> bool" where "IS_24BIT_INT b \<longleftrightarrow> b AND 0xFF = 0xF2"
definition IS_32BIT_INT :: "byte \<Rightarrow> bool" where "IS_32BIT_INT b \<longleftrightarrow> b AND 0xFF = 0xF3"
definition IS_64BIT_INT :: "byte \<Rightarrow> bool" where "IS_64BIT_INT b \<longleftrightarrow> b AND 0xFF = 0xF4"
definition IS_32BIT_STR :: "byte \<Rightarrow> bool" where "IS_32BIT_STR b \<longleftrightarrow> b AND 0xFF = 0xF0"

lemmas lp_is_defs = IS_7BIT_UINT_def IS_6BIT_STR_def IS_13BIT_INT_def IS_12BIT_STR_def
  IS_16BIT_INT_def IS_24BIT_INT_def IS_32BIT_INT_def IS_64BIT_INT_def IS_32BIT_STR_def

definition LP_6BIT_STR_LEN :: "bytes \<Rightarrow> nat" where
  "LP_6BIT_STR_LEN p = unat (p ! 0) AND 0x3F"

definition LP_12BIT_STR_LEN :: "bytes \<Rightarrow> nat" where
  "LP_12BIT_STR_LEN p = push_bit 8 (unat (p ! 0) AND 0xF) OR unat (p ! 1)"

definition LP_32BIT_STR_LEN :: "bytes \<Rightarrow> nat" where
  "LP_32BIT_STR_LEN p = unat (p ! 1) OR push_bit 8 (unat (p ! 2)) OR push_bit 16 (unat (p ! 3)) OR
     push_bit 24 (unat (p ! 4))"

definition lpGetTotalBytes :: "bytes \<Rightarrow> nat" where
  "lpGetTotalBytes p = unat (p ! 0) OR push_bit 8 (unat (p ! 1)) OR push_bit 16 (unat (p ! 2)) OR
     push_bit 24 (unat (p ! 3))"

definition lpGetNumElements :: "bytes \<Rightarrow> nat" where
  "lpGetNumElements p = unat (p ! 4) OR push_bit 8 (unat (p ! 5))"

definition lpSetTotalBytes :: "bytes \<Rightarrow> nat \<Rightarrow> bytes" where
  "lpSetTotalBytes p v =
     p[0 := word_of_nat (v AND 0xff),
       1 := word_of_nat (drop_bit 8 v AND 0xff),
       2 := word_of_nat (drop_bit 16 v AND 0xff),
       3 := word_of_nat (drop_bit 24 v AND 0xff)]"

definition lpSetNumElements :: "bytes \<Rightarrow> nat \<Rightarrow> bytes" where
  "lpSetNumElements p v =
     p[4 := word_of_nat (v AND 0xff), 5 := word_of_nat (drop_bit 8 v AND 0xff)]"

definition lpBytes :: "bytes \<Rightarrow> nat" where "lpBytes lp = lpGetTotalBytes lp"

definition lpSafeToAdd :: "bytes option \<Rightarrow> nat \<Rightarrow> bool" where
  "lpSafeToAdd lp add =
     (let len = (case lp of None \<Rightarrow> 0 | Some lp \<Rightarrow> lpGetTotalBytes lp)
      in \<not> len + add > LISTPACK_MAX_SAFETY_SIZE)"

section \<open>Integers inside strings\<close>

definition lpStringToInt64 :: "bytes \<Rightarrow> int option" where
  "lpStringToInt64 s =
     (let slen = length s in
      if slen = 0 \<or> slen \<ge> LONG_STR_SIZE then None
      else if slen = 1 \<and> s ! 0 = CHAR_0 then Some 0
      else
        let negative = (s ! 0 = CHAR_minus);
            p = (if negative then tl s else s)
        in if negative \<and> p = [] then None
           else if CHAR_0 < p ! 0 \<and> p ! 0 \<le> CHAR_9 then
             case parse_digits (tl p) (digit_value (p ! 0)) of
               None \<Rightarrow> None
             | Some (v, rest) \<Rightarrow>
                 if rest \<noteq> [] then None
                 else if negative then
                   if v > c_unsigned 64 (- (LLONG_MIN + 1)) + 1 then None
                   else Some (c_signed 64 (- int v))
                 else if int v > LLONG_MAX then None
                 else Some (c_signed 64 (int v))
           else None)"

section \<open>Encoding\<close>

text \<open>The contents of \<open>intenc\<close>; its length is \<open>*enclen\<close>.\<close>

definition lpEncodeIntegerGetType :: "int \<Rightarrow> bytes" where
  "lpEncodeIntegerGetType v =
     (if v \<ge> 0 \<and> v \<le> 127 then [word_of_int v]
      else if v \<ge> - 4096 \<and> v \<le> 4095 then
        let u = nat (if v < 0 then 2 ^ 13 + v else v)
        in [word_of_nat (drop_bit 8 u OR 0xC0), word_of_nat (u AND 0xff)]
      else if v \<ge> - 32768 \<and> v \<le> 32767 then
        let u = nat (if v < 0 then 2 ^ 16 + v else v)
        in [0xF1, word_of_nat (u AND 0xff), word_of_nat (drop_bit 8 u)]
      else if v \<ge> - 8388608 \<and> v \<le> 8388607 then
        let u = nat (if v < 0 then 2 ^ 24 + v else v)
        in [0xF2, word_of_nat (u AND 0xff), word_of_nat (drop_bit 8 u AND 0xff), word_of_nat (drop_bit 16 u)]
      else if v \<ge> - 2147483648 \<and> v \<le> 2147483647 then
        let u = nat (if v < 0 then 2 ^ 32 + v else v)
        in [0xF3, word_of_nat (u AND 0xff), word_of_nat (drop_bit 8 u AND 0xff),
            word_of_nat (drop_bit 16 u AND 0xff), word_of_nat (drop_bit 24 u)]
      else
        let uv = c_unsigned 64 v
        in [0xF4, word_of_nat (uv AND 0xff), word_of_nat (drop_bit 8 uv AND 0xff),
            word_of_nat (drop_bit 16 uv AND 0xff), word_of_nat (drop_bit 24 uv AND 0xff),
            word_of_nat (drop_bit 32 uv AND 0xff), word_of_nat (drop_bit 40 uv AND 0xff),
            word_of_nat (drop_bit 48 uv AND 0xff), word_of_nat (drop_bit 56 uv)])"

text \<open>The encoding chosen, \<open>intenc\<close> (when it is an integer) and \<open>*enclen\<close>.\<close>

definition lpEncodeGetType :: "bytes \<Rightarrow> lp_enctype \<times> bytes \<times> nat" where
  "lpEncodeGetType ele =
     (case lpStringToInt64 ele of
        Some v \<Rightarrow> (LP_ENCODING_INT, lpEncodeIntegerGetType v, length (lpEncodeIntegerGetType v))
      | None \<Rightarrow>
          let size = length ele
          in (LP_ENCODING_STRING, [], if size < 64 then 1 + size else if size < 4096 then 2 + size
              else 5 + size))"

definition lpEncodeBacklen :: "nat \<Rightarrow> bytes" where
  "lpEncodeBacklen l =
     (if l \<le> 127 then [word_of_nat l]
      else if l < 16383 then
        [word_of_nat (drop_bit 7 l), word_of_nat ((l AND 127) OR 128)]
      else if l < 2097151 then
        [word_of_nat (drop_bit 14 l), word_of_nat ((drop_bit 7 l AND 127) OR 128),
         word_of_nat ((l AND 127) OR 128)]
      else if l < 268435455 then
        [word_of_nat (drop_bit 21 l), word_of_nat ((drop_bit 14 l AND 127) OR 128),
         word_of_nat ((drop_bit 7 l AND 127) OR 128), word_of_nat ((l AND 127) OR 128)]
      else
        [word_of_nat (drop_bit 28 l), word_of_nat ((drop_bit 21 l AND 127) OR 128),
         word_of_nat ((drop_bit 14 l AND 127) OR 128), word_of_nat ((drop_bit 7 l AND 127) OR 128),
         word_of_nat ((l AND 127) OR 128)])"

definition lpEncodeBacklenBytes :: "nat \<Rightarrow> nat" where
  "lpEncodeBacklenBytes l =
     (if l \<le> 127 then 1 else if l < 16383 then 2 else if l < 2097151 then 3
      else if l < 268435455 then 4 else 5)"

definition lpEncodeString :: "bytes \<Rightarrow> bytes" where
  "lpEncodeString s =
     (let len = length s in
      if len < 64 then word_of_nat (len OR 0x80) # s
      else if len < 4096 then
        word_of_nat (drop_bit 8 len OR 0xE0) # word_of_nat (len AND 0xff) # s
      else
        0xF0 # word_of_nat (len AND 0xff) # word_of_nat (drop_bit 8 len AND 0xff) #
          word_of_nat (drop_bit 16 len AND 0xff) # word_of_nat (drop_bit 24 len AND 0xff) # s)"

definition lpEntrySizeInteger :: "int \<Rightarrow> nat" where
  "lpEntrySizeInteger lval =
     (let enclen = length (lpEncodeIntegerGetType lval); backlen = lpEncodeBacklenBytes enclen
      in enclen + backlen)"

definition lpEstimateBytesRepeatedInteger :: "int \<Rightarrow> nat \<Rightarrow> nat" where
  "lpEstimateBytesRepeatedInteger lval rep = LP_HDR_SIZE + lpEntrySizeInteger lval * rep + 1"

section \<open>Decoding\<close>

text \<open>Reads backwards from offset \<open>p\<close>; \<open>UINT64_MAX\<close> is the error value.\<close>

definition lpDecodeBacklen :: "bytes \<Rightarrow> nat \<Rightarrow> nat" where
  "lpDecodeBacklen lp p =
     (let b = (\<lambda>k. unat (lp ! (p - k))) in
      if b 0 AND 128 = 0 then b 0 AND 127
      else let v = b 0 AND 127 in
      if b 1 AND 128 = 0 then v OR push_bit 7 (b 1 AND 127)
      else let v = v OR push_bit 7 (b 1 AND 127) in
      if b 2 AND 128 = 0 then v OR push_bit 14 (b 2 AND 127)
      else let v = v OR push_bit 14 (b 2 AND 127) in
      if b 3 AND 128 = 0 then v OR push_bit 21 (b 3 AND 127)
      else let v = v OR push_bit 21 (b 3 AND 127) in
      if b 4 AND 128 = 0 then v OR push_bit 28 (b 4 AND 127)
      else ULLONG_MAX)"

text \<open>\<open>uint32_t\<close>: the length of a 32-bit string entry wraps.\<close>

definition lpCurrentEncodedSizeUnsafe :: "bytes \<Rightarrow> nat" where
  "lpCurrentEncodedSizeUnsafe p =
     (if IS_7BIT_UINT (p ! 0) then 1
      else if IS_6BIT_STR (p ! 0) then 1 + LP_6BIT_STR_LEN p
      else if IS_13BIT_INT (p ! 0) then 2
      else if IS_16BIT_INT (p ! 0) then 3
      else if IS_24BIT_INT (p ! 0) then 4
      else if IS_32BIT_INT (p ! 0) then 5
      else if IS_64BIT_INT (p ! 0) then 9
      else if IS_12BIT_STR (p ! 0) then 2 + LP_12BIT_STR_LEN p
      else if IS_32BIT_STR (p ! 0) then (5 + LP_32BIT_STR_LEN p) mod 2 ^ 32
      else if p ! 0 = LP_EOF then 1
      else 0)"

definition lpCurrentEncodedSizeBytes :: "byte \<Rightarrow> nat" where
  "lpCurrentEncodedSizeBytes encoding =
     (if IS_7BIT_UINT encoding then 1
      else if IS_6BIT_STR encoding then 1
      else if IS_13BIT_INT encoding then 1
      else if IS_16BIT_INT encoding then 1
      else if IS_24BIT_INT encoding then 1
      else if IS_32BIT_INT encoding then 1
      else if IS_64BIT_INT encoding then 1
      else if IS_12BIT_STR encoding then 2
      else if IS_32BIT_STR encoding then 5
      else if encoding = LP_EOF then 1
      else 0)"

text \<open>The number of bytes of a value of \<open>n\<close> bytes after the encoding byte.\<close>

definition le_uval :: "bytes \<Rightarrow> nat \<Rightarrow> nat" where
  "le_uval p n = fold (\<lambda>k v. v OR push_bit (8 * k) (unat (p ! (k + 1)))) [0..<n] 0"

text \<open>The unsigned value with the bounds \<open>negstart\<close> and \<open>negmax\<close> of its width, and the
  conversion to a signed value.\<close>

definition lp_int_fields :: "bytes \<Rightarrow> nat \<times> nat \<times> nat" where
  "lp_int_fields p =
     (if IS_7BIT_UINT (p ! 0) then (unat (p ! 0) AND 0x7f, ULLONG_MAX, 0)
      else if IS_13BIT_INT (p ! 0) then
        (push_bit 8 (unat (p ! 0) AND 0x1f) OR unat (p ! 1), 2 ^ 12, 8191)
      else if IS_16BIT_INT (p ! 0) then (le_uval p 2, 2 ^ 15, 2 ^ 16 - 1)
      else if IS_24BIT_INT (p ! 0) then (le_uval p 3, 2 ^ 23, UINT32_MAX div 2 ^ 8)
      else if IS_32BIT_INT (p ! 0) then (le_uval p 4, 2 ^ 31, UINT32_MAX)
      else if IS_64BIT_INT (p ! 0) then (le_uval p 8, 2 ^ 63, ULLONG_MAX)
      else (12345678900000000 + unat (p ! 0), ULLONG_MAX, 0))"

definition lp_int_value :: "nat \<times> nat \<times> nat \<Rightarrow> int" where
  "lp_int_value f =
     (case f of (uval, negstart, negmax) \<Rightarrow>
        if uval \<ge> negstart then
          let uval = c_unsigned 64 (int negmax - int uval) in - c_signed 64 (int uval) - 1
        else c_signed 64 (int uval))"

text \<open>
  \<open>lpGetWithBuf\<close> without a buffer: \<open>(Some k, count)\<close> is the return of the pointer \<open>p + k\<close> and of the
  string length, \<open>(None, count)\<close> the return of \<open>NULL\<close> and of the integer.
\<close>

definition lpGetWithBuf :: "bytes \<Rightarrow> nat option \<times> int" where
  "lpGetWithBuf p =
     (if IS_6BIT_STR (p ! 0) then (Some 1, int (LP_6BIT_STR_LEN p))
      else if IS_12BIT_STR (p ! 0) then (Some 2, int (LP_12BIT_STR_LEN p))
      else if IS_32BIT_STR (p ! 0) then (Some 5, int (LP_32BIT_STR_LEN p))
      else (None, lp_int_value (lp_int_fields p)))"

definition lpGet :: "bytes \<Rightarrow> nat option \<times> int" where
  "lpGet p = lpGetWithBuf p"

text \<open>\<open>lpGetWithSize\<close> also sets \<open>*entry_size\<close>, except for an unknown encoding.\<close>

definition lpGetWithSize :: "bytes \<Rightarrow> nat \<Rightarrow> (nat option \<times> int) \<times> nat" where
  "lpGetWithSize p entry_size =
     (if IS_7BIT_UINT (p ! 0) then ((None, lp_int_value (lp_int_fields p)), 2)
      else if IS_6BIT_STR (p ! 0) then
        let count = LP_6BIT_STR_LEN p in ((Some 1, int count), 1 + count + lpEncodeBacklenBytes (count + 1))
      else if IS_13BIT_INT (p ! 0) then ((None, lp_int_value (lp_int_fields p)), 3)
      else if IS_16BIT_INT (p ! 0) then ((None, lp_int_value (lp_int_fields p)), 4)
      else if IS_24BIT_INT (p ! 0) then ((None, lp_int_value (lp_int_fields p)), 5)
      else if IS_32BIT_INT (p ! 0) then ((None, lp_int_value (lp_int_fields p)), 6)
      else if IS_64BIT_INT (p ! 0) then ((None, lp_int_value (lp_int_fields p)), 10)
      else if IS_12BIT_STR (p ! 0) then
        let count = LP_12BIT_STR_LEN p in ((Some 2, int count), 2 + count + lpEncodeBacklenBytes (count + 2))
      else if IS_32BIT_STR (p ! 0) then
        let count = LP_32BIT_STR_LEN p in ((Some 5, int count), 5 + count + lpEncodeBacklenBytes (count + 5))
      else ((None, lp_int_value (lp_int_fields p)), entry_size))"

text \<open>With a buffer the integer is returned as a string in it: the bytes of the element.\<close>

definition lpGetString :: "bytes \<Rightarrow> bytes \<Rightarrow> bytes" where
  "lpGetString p intbuf =
     (case lpGet p of
        (Some k, count) \<Rightarrow> chunk p k (nat count)
      | (None, val) \<Rightarrow> let (n, buf) = ll2string intbuf LP_INTBUF_SIZE val in take n buf)"

datatype lp_value = Lp_String bytes | Lp_Integer int

definition lpGetValue :: "bytes \<Rightarrow> lp_value" where
  "lpGetValue p =
     (case lpGet p of
        (Some k, count) \<Rightarrow> Lp_String (chunk p k (c_unsigned 32 count))
      | (None, val) \<Rightarrow> Lp_Integer val)"

definition lpGetIntegerValue :: "bytes \<Rightarrow> int option" where
  "lpGetIntegerValue p = (case lpGet p of (None, val) \<Rightarrow> Some val | (Some k, count) \<Rightarrow> None)"

text \<open>\<open>cached\<close> is the pair \<open>*cached_longval\<close>, \<open>*cached_valid\<close> when the caller passes a cache.\<close>

definition lpCompare :: "bytes \<Rightarrow> bytes \<Rightarrow> (int \<times> int) option \<Rightarrow> bool \<times> (int \<times> int) option" where
  "lpCompare p s cached =
     (if p ! 0 = LP_EOF then (False, cached)
      else case lpGet p of
        (Some k, sz) \<Rightarrow> (int (length s) = sz \<and> chunk p k (nat sz) = s, cached)
      | (None, sz) \<Rightarrow>
          (case cached of
             Some (longval, valid) \<Rightarrow>
               let (longval, valid) =
                 (if valid = 0 then
                    case lpStringToInt64 s of Some v \<Rightarrow> (v, 1) | None \<Rightarrow> (longval, - 1)
                  else (longval, valid))
               in (valid = 1 \<and> sz = longval, Some (longval, valid))
           | None \<Rightarrow>
               (case lpStringToInt64 s of Some sval \<Rightarrow> (sz = sval, None) | None \<Rightarrow> (False, None))))"


section \<open>Tests of the encoding byte\<close>

lemma lp_is_range:
  "IS_7BIT_UINT b \<longleftrightarrow> unat b < 128"
  "IS_6BIT_STR b \<longleftrightarrow> 128 \<le> unat b \<and> unat b < 192"
  "IS_13BIT_INT b \<longleftrightarrow> 192 \<le> unat b \<and> unat b < 224"
  "IS_12BIT_STR b \<longleftrightarrow> 224 \<le> unat b \<and> unat b < 240"
  "IS_32BIT_STR b \<longleftrightarrow> unat b = 240"
  "IS_16BIT_INT b \<longleftrightarrow> unat b = 241"
  "IS_24BIT_INT b \<longleftrightarrow> unat b = 242"
  "IS_32BIT_INT b \<longleftrightarrow> unat b = 243"
  "IS_64BIT_INT b \<longleftrightarrow> unat b = 244"
  "b = LP_EOF \<longleftrightarrow> unat b = 255"
  by (simp_all add: lp_is_defs LP_EOF_def word_unat_eq_iff unat_and_byte high_mask_range del: unat_eq_nat_uint)

section \<open>The header\<close>

lemma byte_of_masked [simp]: "(word_of_nat (v AND 255) :: byte) = word_of_nat v"
  by (simp add: word_unat_eq_iff and_mask_mod)

lemma le_bytes_map: "le_bytes n v = map (\<lambda>i. word_of_nat (v div 2 ^ (8 * i))) [0..<n]"
proof (induction n arbitrary: v)
  case (Suc n)
  have "le_bytes (Suc n) v = word_of_nat v # map (\<lambda>i. word_of_nat (v div 2 ^ (8 * Suc i))) [0..<n]"
    by (simp add: Suc.IH div_mult2_eq [symmetric] power_add)
  also have "\<dots> = map (\<lambda>i. word_of_nat (v div 2 ^ (8 * i))) [0..<Suc n]"
    by (simp add: upt_conv_Cons map_Suc_upt [symmetric] del: upt_Suc)
  finally show ?case .
qed simp

lemma le_bytes_unfold:
  "le_bytes 2 v = [word_of_nat v, word_of_nat (v div 2 ^ 8)]"
  "le_bytes 3 v = [word_of_nat v, word_of_nat (v div 2 ^ 8), word_of_nat (v div 2 ^ 16)]"
  "le_bytes 4 v = [word_of_nat v, word_of_nat (v div 2 ^ 8), word_of_nat (v div 2 ^ 16), word_of_nat (v div 2 ^ 24)]"
  "le_bytes 8 v = [word_of_nat v, word_of_nat (v div 2 ^ 8), word_of_nat (v div 2 ^ 16), word_of_nat (v div 2 ^ 24),
     word_of_nat (v div 2 ^ 32), word_of_nat (v div 2 ^ 40), word_of_nat (v div 2 ^ 48), word_of_nat (v div 2 ^ 56)]"
  by (simp_all add: le_bytes_map upt_conv_Cons)

lemma le_nat_OR:
  "unat (a :: byte) OR push_bit 8 (unat (b :: byte)) = le_nat [a, b]"
  "unat a OR push_bit 8 (unat b) OR push_bit 16 (unat (c :: byte)) = le_nat [a, b, c]"
  "unat a OR push_bit 8 (unat b) OR push_bit 16 (unat c) OR push_bit 24 (unat (d :: byte)) = le_nat [a, b, c, d]"
proof -
  show two: "unat a OR push_bit 8 (unat b) = le_nat [a, b]"
    by (simp add: or_push_bit_add)
  have "le_nat [a, b] < 2 ^ 16" using le_nat_less [of "[a, b]"] by simp
  then have "le_nat [a, b] OR push_bit 16 (unat c) = le_nat [a, b, c]"
    by (subst or_push_bit_add) simp_all
  then show three: "unat a OR push_bit 8 (unat b) OR push_bit 16 (unat c) = le_nat [a, b, c]"
    by (simp only: or.assoc [symmetric] two)
  have "le_nat [a, b, c] < 2 ^ 24" using le_nat_less [of "[a, b, c]"] by simp
  then have "le_nat [a, b, c] OR push_bit 24 (unat d) = le_nat [a, b, c, d]"
    by (subst or_push_bit_add) simp_all
  then show "unat a OR push_bit 8 (unat b) OR push_bit 16 (unat c) OR push_bit 24 (unat d) = le_nat [a, b, c, d]"
    by (simp only: three [symmetric] or.assoc)
qed

lemma length_2E:
  assumes "length x = 2"
  obtains a b where "x = [a, b]"
  using assms by (cases x rule: list.exhaust; cases "tl x" rule: list.exhaust) auto

lemma length_4E:
  assumes "length x = 4"
  obtains a b c d where "x = [a, b, c, d]"
proof -
  have "\<exists>a b c d. x = [a, b, c, d]" using assms by (auto simp: length_Suc_conv eval_nat_numeral)
  with that show ?thesis by blast
qed

lemma header_fields:
  assumes "length h = 4" "length n = 2"
  shows "lpGetTotalBytes (h @ x) = le_nat h" "lpGetNumElements (h @ n @ x) = le_nat n"
    "lpSetTotalBytes (h @ x) v = le_bytes 4 v @ x" "lpSetNumElements (h @ n @ x) v = h @ le_bytes 2 v @ x"
proof -
  obtain a b c d where h: "h = [a, b, c, d]" using assms(1) by (rule length_4E)
  obtain e f where n: "n = [e, f]" using assms(2) by (rule length_2E)
  show "lpGetTotalBytes (h @ x) = le_nat h" "lpGetNumElements (h @ n @ x) = le_nat n"
    unfolding lpGetTotalBytes_def lpGetNumElements_def h n le_nat_OR [symmetric] by simp_all
  show "lpSetTotalBytes (h @ x) v = le_bytes 4 v @ x" "lpSetNumElements (h @ n @ x) v = h @ le_bytes 2 v @ x"
    unfolding h n by (simp_all add: lpSetTotalBytes_def lpSetNumElements_def le_bytes_unfold drop_bit_eq_div)
qed

section \<open>Integers\<close>

lemma lpStringToInt64_string2ll: "lpStringToInt64 s = string2ll s"
proof (cases "s = []")
  case False
  then show ?thesis
    by (cases "s ! 0 = CHAR_minus") (simp_all add: lpStringToInt64_def string2ll_def)
qed (simp add: lpStringToInt64_def string2ll_def)

lemma le_uval_le_nat: "n < length p \<Longrightarrow> le_uval p n = le_nat (take n (tl p))"
proof (induction n)
  case (Suc n)
  then have n: "n < length (tl p)" by simp
  have len: "length (take n (tl p)) = n" using n by simp
  have "le_nat (take n (tl p)) < 2 ^ (8 * n)"
    using le_nat_less [of "take n (tl p)"] unfolding len by (simp add: power_mult)
  then have "le_uval p (Suc n) = le_nat (take n (tl p)) + unat (p ! Suc n) * 2 ^ (8 * n)"
    using Suc by (simp add: le_uval_def or_push_bit_add)
  also have "p ! Suc n = tl p ! n" using n by (simp add: nth_tl)
  also have "le_nat (take n (tl p)) + unat (tl p ! n) * 2 ^ (8 * n) = le_nat (take (Suc n) (tl p))"
    using n by (simp add: take_Suc_conv_app_nth le_nat_append power_mult)
  finally show ?case .
qed (simp add: le_uval_def)

lemma c_signed_small: "0 \<le> i \<Longrightarrow> i < 2 ^ 63 \<Longrightarrow> c_signed 64 i = i"
  by (intro c_signed_id) (simp add: fits_signed_def)

lemma lp_int_value_signed:
  assumes "u < 2 ^ w" "0 < w" "w \<le> 64"
  shows "lp_int_value (u, 2 ^ (w - 1), 2 ^ w - 1) = c_signed w (int u)"
proof -
  have w: "(2 :: nat) ^ w = 2 * 2 ^ (w - 1)" using assms(2) by (cases w) auto
  have "(2 :: nat) ^ (w - 1) \<le> 2 ^ 63" using assms by (intro power_increasing) auto
  then have le: "(2 :: int) ^ (w - 1) \<le> 2 ^ 63" by (metis of_nat_le_iff of_nat_numeral of_nat_power)
  have wi: "(2 :: int) ^ w = 2 * 2 ^ (w - 1)" using assms(2) by (cases w) auto
  have ui: "int u < 2 ^ w" by (metis assms(1) of_nat_less_iff of_nat_numeral of_nat_power)
  then have mod: "int u mod 2 ^ w = int u" by (intro mod_pos_pos_trivial) simp_all
  have "(2 * int u < 2 ^ w) = (int u < 2 ^ (w - 1))" unfolding wi by simp
  then have cs: "c_signed w (int u) = (if int u < 2 ^ (w - 1) then int u else int u - 2 ^ w)"
    unfolding c_signed_def Let_def mod by simp
  show ?thesis
  proof (cases "u < 2 ^ (w - 1)")
    case True
    then have lt: "int u < 2 ^ (w - 1)" by (metis of_nat_less_iff of_nat_numeral of_nat_power)
    then have "int u < 2 ^ 63" using le by linarith
    then show ?thesis using True lt unfolding cs by (simp add: lp_int_value_def c_signed_small)
  next
    case False
    then have ge: "2 ^ (w - 1) \<le> int u" by (metis not_less of_nat_le_iff of_nat_numeral of_nat_power)
    have max: "int (2 ^ w - 1) = 2 ^ w - 1" by (simp add: of_nat_diff)
    have "(2 :: int) ^ 64 = 2 * 2 ^ 63" by simp
    note wi = wi this
    have "c_unsigned 64 (int (2 ^ w - 1) - int u) = nat (2 ^ w - 1 - int u)"
      unfolding max using ui ge le wi by (intro c_unsigned_id) linarith+
    moreover have "c_signed 64 (2 ^ w - 1 - int u) = 2 ^ w - 1 - int u"
      using ui ge le wi by (intro c_signed_small) linarith+
    ultimately show ?thesis
      using False ge ui unfolding cs by (simp add: lp_int_value_def Let_def)
  qed
qed


lemma c_unsigned_fits: "fits_signed w v \<Longrightarrow> c_unsigned w v = nat (if v < 0 then 2 ^ w + v else v)"
proof (cases "v < 0")
  case True
  moreover assume "fits_signed w v"
  ultimately have "(2 ^ w + v) mod 2 ^ w = 2 ^ w + v"
    by (intro mod_pos_pos_trivial) (auto simp: fits_signed_def)
  then show ?thesis using True by (simp add: c_unsigned_def)
next
  case False
  moreover assume "fits_signed w v"
  ultimately show ?thesis by (simp add: c_unsigned_id fits_signed_def)
qed

lemma lpEncodeIntegerGetType_cases:
  "0 \<le> v \<Longrightarrow> v \<le> 127 \<Longrightarrow> lpEncodeIntegerGetType v = [word_of_int v]"
  "\<not> (0 \<le> v \<and> v \<le> 127) \<Longrightarrow> fits_signed 13 v \<Longrightarrow> lpEncodeIntegerGetType v =
     [word_of_nat (192 + c_unsigned 13 v div 256), word_of_nat (c_unsigned 13 v)]"
  "\<not> fits_signed 13 v \<Longrightarrow> fits_signed 16 v \<Longrightarrow>
     lpEncodeIntegerGetType v = 0xF1 # le_bytes 2 (c_unsigned 16 v)"
  "\<not> fits_signed 16 v \<Longrightarrow> fits_signed 24 v \<Longrightarrow>
     lpEncodeIntegerGetType v = 0xF2 # le_bytes 3 (c_unsigned 24 v)"
  "\<not> fits_signed 24 v \<Longrightarrow> fits_signed 32 v \<Longrightarrow>
     lpEncodeIntegerGetType v = 0xF3 # le_bytes 4 (c_unsigned 32 v)"
  "\<not> fits_signed 32 v \<Longrightarrow> lpEncodeIntegerGetType v = 0xF4 # le_bytes 8 (c_unsigned 64 v)"
proof -
  note fs = fits_signed_def
  note defs = lpEncodeIntegerGetType_def Let_def
  show "0 \<le> v \<Longrightarrow> v \<le> 127 \<Longrightarrow> lpEncodeIntegerGetType v = [word_of_int v]"
    by (simp add: defs)
  {
    assume a: "\<not> (0 \<le> v \<and> v \<le> 127)" "fits_signed 13 v"
    define u where "u = nat (if v < 0 then 2 ^ 13 + v else v)"
    have "u < 2 ^ 13" using a(2) by (auto simp: u_def fs)
    then have "u div 256 < 32" by (simp add: div_less_iff_less_mult)
    then have "drop_bit 8 u OR 0xC0 = 192 + u div 256"
      using or_shifted_add [of "u div 256" 5 6] by (simp add: drop_bit_eq_div)
    then show "lpEncodeIntegerGetType v =
        [word_of_nat (192 + c_unsigned 13 v div 256), word_of_nat (c_unsigned 13 v)]"
      using a by (simp add: defs c_unsigned_fits u_def [symmetric]) (simp add: fs u_def)
  }
  show "\<not> fits_signed 13 v \<Longrightarrow> fits_signed 16 v \<Longrightarrow>
     lpEncodeIntegerGetType v = 0xF1 # le_bytes 2 (c_unsigned 16 v)"
    by (simp add: c_unsigned_fits defs le_bytes_unfold drop_bit_eq_div) (auto simp: fs)
  show "\<not> fits_signed 16 v \<Longrightarrow> fits_signed 24 v \<Longrightarrow>
     lpEncodeIntegerGetType v = 0xF2 # le_bytes 3 (c_unsigned 24 v)"
    by (simp add: c_unsigned_fits defs le_bytes_unfold drop_bit_eq_div) (auto simp: fs)
  show "\<not> fits_signed 24 v \<Longrightarrow> fits_signed 32 v \<Longrightarrow>
     lpEncodeIntegerGetType v = 0xF3 # le_bytes 4 (c_unsigned 32 v)"
    by (simp add: c_unsigned_fits defs le_bytes_unfold drop_bit_eq_div) (auto simp: fs)
  show "\<not> fits_signed 32 v \<Longrightarrow> lpEncodeIntegerGetType v = 0xF4 # le_bytes 8 (c_unsigned 64 v)"
    by (simp add: defs le_bytes_unfold drop_bit_eq_div) (auto simp: fs)
qed


text \<open>The unsigned value of each width, read back from its encoding.\<close>

lemma le_uval_le_bytes:
  "u < 2 ^ (8 * n) \<Longrightarrow> le_uval (b # le_bytes n u @ r) n = u"
  by (simp add: le_uval_le_nat power_mult)

lemma lp_int_value_width:
  assumes "fits_signed w v" "0 < w" "w \<le> 64"
  shows "lp_int_value (c_unsigned w v, 2 ^ (w - 1), 2 ^ w - 1) = v"
proof -
  have "lp_int_value (c_unsigned w v, 2 ^ (w - 1), 2 ^ w - 1) = c_signed w (int (c_unsigned w v))"
    using assms by (intro lp_int_value_signed) simp_all
  then show ?thesis using assms(1) by (simp add: c_signed_id)
qed

definition lp_int_entry :: "bytes \<Rightarrow> bool" where
  "lp_int_entry e \<longleftrightarrow>
     (\<forall>r. lpCurrentEncodedSizeUnsafe (e @ r) = length e \<and> fst (lpGetWithBuf (e @ r)) = None)
     \<and> e \<noteq> [] \<and> lpCurrentEncodedSizeBytes (hd e) = 1 \<and> hd e \<noteq> LP_EOF"

lemma lp_encode_int_13:
  assumes "fits_signed 13 v" "e = [word_of_nat (192 + c_unsigned 13 v div 256), word_of_nat (c_unsigned 13 v)]"
  shows "lp_int_value (lp_int_fields (e @ r)) = v" "lp_int_entry e"
proof -
  let ?u = "c_unsigned 13 v"
  have u: "?u < 8192" using c_unsigned_less [of 13 v] by simp
  then have "?u div 256 < 32" by (simp add: div_less_iff_less_mult)
  moreover have "unat (e ! 0) = (192 + ?u div 256) mod 256"
    unfolding assms(2) nth_Cons_0 by (rule unat_of_nat_byte)
  ultimately have hd: "unat (e ! 0) = 192 + ?u div 256" "192 + ?u div 256 < 224" by simp_all
  then have m: "(192 + ?u div 256) mod 32 = ?u div 256"
    using mod_add_left_eq [of 192 32 "?u div 256"] by simp
  have e: "length e = 2" "unat (e ! 1) = ?u mod 256" using assms(2) by (simp_all del: unat_of_nat add: unat_of_nat_byte)
  have nth: "(e @ r) ! 0 = e ! 0" "(e @ r) ! 1 = e ! 1" using e by (simp_all add: nth_append)
  have "push_bit 8 (unat (e ! 0) AND 0x1f) OR unat (e ! 1) = ?u"
    unfolding hd(1) e(2) and_mask_mod m by (subst or_push_bit_add) (simp_all add: mod_div_decomp)
  then have "lp_int_fields (e @ r) = (?u, 2 ^ (13 - 1), 2 ^ 13 - 1)"
    unfolding lp_int_fields_def nth lp_is_range hd(1) using hd(2) by simp
  then show "lp_int_value (lp_int_fields (e @ r)) = v"
    using lp_int_value_width [OF assms(1)] by simp
  have "hd e = e ! 0" "e \<noteq> []" using e by (cases e; simp)+
  then show "lp_int_entry e"
    unfolding lp_int_entry_def lpCurrentEncodedSizeUnsafe_def lpGetWithBuf_def lpCurrentEncodedSizeBytes_def lp_is_range
    using hd e by (simp add: nth_append)
qed

lemma lp_encode_int_wide:
  assumes "fits_signed (8 * n) v" "e = b # le_bytes n (c_unsigned (8 * n) v)"
    "(b, n) \<in> {(0xF1, 2), (0xF2, 3), (0xF3, 4), (0xF4, 8)}"
  shows "lp_int_value (lp_int_fields (e @ r)) = v" "lp_int_entry e"
proof -
  have "le_uval (e @ r) n = c_unsigned (8 * n) v"
    using assms(2) le_uval_le_bytes [of "c_unsigned (8 * n) v" n b r] by simp
  then have "lp_int_fields (e @ r) = (c_unsigned (8 * n) v, 2 ^ (8 * n - 1), 2 ^ (8 * n) - 1)"
    using assms(2,3) by (auto simp: lp_int_fields_def lp_is_range UINT32_MAX_def ULLONG_MAX_def)
  moreover have "0 < 8 * n" "8 * n \<le> 64" using assms(3) by auto
  ultimately show "lp_int_value (lp_int_fields (e @ r)) = v"
    using lp_int_value_width [OF assms(1)] by simp
  show "lp_int_entry e"
    using assms(2,3)
    by (auto simp: lp_int_entry_def lpCurrentEncodedSizeUnsafe_def lpGetWithBuf_def lp_is_range
        lpCurrentEncodedSizeBytes_def LP_EOF_def)
qed

lemma lp_encode_int:
  assumes v: "fits_signed 64 v"
  shows "lpGetWithBuf (lpEncodeIntegerGetType v @ r) = (None, v)" "lp_int_entry (lpEncodeIntegerGetType v)"
proof -
  let ?e = "lpEncodeIntegerGetType v"
  have "lp_int_value (lp_int_fields (?e @ r)) = v \<and> lp_int_entry ?e"
  proof (cases "0 \<le> v \<and> v \<le> 127")
    case True
    then have e: "?e = [word_of_int v]" by (simp add: lpEncodeIntegerGetType_cases)
    have u: "unat (word_of_int v :: byte) = nat v" 
      using True by (simp add: unat_eq_nat_uint uint_word_of_int)
    have "nat v < 128" using True by linarith
    then have "lp_int_value (lp_int_fields (?e @ r)) = v"
      using True by (simp add: e lp_int_fields_def lp_is_range u lp_int_value_def ULLONG_MAX_def
          and_mask_mod c_signed_small del: unat_eq_nat_uint)
    then show ?thesis
      using \<open>nat v < 128\<close>
      by (simp add: e lp_int_entry_def lpCurrentEncodedSizeUnsafe_def lpGetWithBuf_def
          lpCurrentEncodedSizeBytes_def lp_is_range u del: unat_eq_nat_uint)
  next
    case small: False
    show ?thesis
    proof (cases "fits_signed 13 v")
      case True
      then show ?thesis using small lp_encode_int_13 [OF True] by (simp add: lpEncodeIntegerGetType_cases)
    next
      case n13: False
      consider "fits_signed 16 v" | "\<not> fits_signed 16 v" "fits_signed 24 v"
        | "\<not> fits_signed 24 v" "fits_signed 32 v" | "\<not> fits_signed 32 v" by blast
      then show ?thesis
      proof cases
        case 1
        then show ?thesis using lp_encode_int_wide [where n = 2 and v = v and e = ?e and b = "0xF1"] n13 by (simp add: lpEncodeIntegerGetType_cases)
      next
        case 2
        then show ?thesis using lp_encode_int_wide [where n = 3 and v = v and e = ?e and b = "0xF2"] by (simp add: lpEncodeIntegerGetType_cases)
      next
        case 3
        then show ?thesis using lp_encode_int_wide [where n = 4 and v = v and e = ?e and b = "0xF3"] by (simp add: lpEncodeIntegerGetType_cases)
      next
        case 4
        then show ?thesis using lp_encode_int_wide [where n = 8 and v = v and e = ?e and b = "0xF4"] v by (simp add: lpEncodeIntegerGetType_cases)
      qed
    qed
  qed
  then have val: "lp_int_value (lp_int_fields (?e @ r)) = v" and ent: "lp_int_entry ?e" by blast+
  from ent have "fst (lpGetWithBuf (?e @ r)) = None" by (simp add: lp_int_entry_def)
  with val show "lpGetWithBuf (?e @ r) = (None, v)" by (simp add: lpGetWithBuf_def split: if_splits)
  from ent show "lp_int_entry ?e" .
qed

end
