(* ===== verification/Lp_Entry.thy ===== *)
theory Lp_Entry
  imports Lp_Codec
begin

text \<open>
  Entries of a listpack: an encoded value followed by the length of the encoding, written so that
  it can be read backwards. An entry is described without its position (\<open>lp_entry\<close>): its bytes alone
  decide its value, its size and the step over it in both directions.
\<close>

section \<open>The length at the end of an entry\<close>

text \<open>The bytes before a position, nearest first, read as a length: seven bits each, the high bit
  saying that another byte follows; at most \<open>f\<close> of them.\<close>

fun dec_back :: "nat \<Rightarrow> bytes \<Rightarrow> nat option" where
  "dec_back 0 bs = None"
| "dec_back (Suc f) [] = None"
| "dec_back (Suc f) (b # bs) =
     (if unat b < 128 then Some (unat b)
      else map_option (\<lambda>v. unat b - 128 + 128 * v) (dec_back f bs))"

lemma dec_back_append: "dec_back f xs = Some v \<Longrightarrow> dec_back f (xs @ ys) = Some v"
proof (induction f xs arbitrary: v rule: dec_back.induct)
  case (3 f b bs)
  show ?case
  proof (cases "unat b < 128")
    case False
    then obtain w where "dec_back f bs = Some w" "v = unat b - 128 + 128 * w" using "3.prems" by auto
    with "3.IH" [OF False, of w] False show ?thesis by simp
  qed (use "3.prems" in simp)
qed simp_all

lemma dec_back_less: "dec_back f xs = Some v \<Longrightarrow> v < 128 ^ f"
proof (induction f xs arbitrary: v rule: dec_back.induct)
  case (3 f b bs)
  show ?case
  proof (cases "unat b < 128")
    case True
    moreover have "(1 :: nat) \<le> 128 ^ f" by simp
    ultimately have "unat b < 128 * 128 ^ f" by linarith
    with True "3.prems" show ?thesis by simp
  next
    case False
    then obtain w where w: "dec_back f bs = Some w" "v = unat b - 128 + 128 * w" using "3.prems" by auto
    with "3.IH" [OF False, of w] have "w < 128 ^ f" by simp
    moreover have "unat b - 128 < 128" using unat_byte_less [of b] by linarith
    ultimately have "v < 128 * (w + 1)" "w + 1 \<le> 128 ^ f" using w(2) by auto
    then show ?thesis by (metis mult_le_mono2 order_less_le_trans power_Suc)
  qed
qed simp_all

lemma byte_low7: "(unat (b :: byte) AND 127) = (if unat b < 128 then unat b else unat b - 128)"
proof (cases "unat b < 128")
  case False
  then have "unat b mod 128 = (unat b - 128) mod 128" by (simp add: le_mod_geq)
  also have "\<dots> = unat b - 128" using unat_byte_less [of b] by (intro mod_less) linarith
  finally show ?thesis using False by (simp add: and_mask_mod)
qed (simp add: and_mask_mod)

lemma byte_high: "(unat (b :: byte) AND 128 = 0) = (unat b < 128)"
  by (rule high_mask_range(1)) simp

lemma dec_back_Cons:
  "dec_back (Suc f) (b # bs) =
     (if unat b < 128 then Some (unat b AND 127)
      else map_option (\<lambda>v. (unat b AND 127) + 128 * v) (dec_back f bs))"
  by (simp add: byte_low7)

text \<open>The unrolled decoder is the recursive one on the bytes up to \<open>p\<close>.\<close>

lemma five_Suc: "(5 :: nat) = Suc (Suc (Suc (Suc (Suc 0))))"
  by simp

lemma low7_less: "unat (b :: byte) AND 127 < 128"
  by (simp add: and_mask_mod)

lemma lpDecodeBacklen_dec_back:
  assumes "k < length lp" "dec_back 5 (rev (take (Suc k) lp)) = r" "4 \<le> k"
  shows "lpDecodeBacklen lp k = (case r of Some v \<Rightarrow> v | None \<Rightarrow> ULLONG_MAX)"
proof -
  let ?b = "\<lambda>i. lp ! (k - i)"
  have rev: "rev (take (Suc k) lp) = ?b 0 # ?b 1 # ?b 2 # ?b 3 # ?b 4 # rev (take (k - 4) lp)"
  proof -
    have take: "rev (take (Suc j) lp) = lp ! j # rev (take j lp)" if "j \<le> k" for j
      using that assms(1) by (simp add: take_Suc_conv_app_nth)
    have "k = Suc (k - 1)" "k - 1 = Suc (k - 2)" "k - 2 = Suc (k - 3)" "k - 3 = Suc (k - 4)"
      using assms(3) by linarith+
    then show ?thesis using take [of k] take [of "k - 1"] take [of "k - 2"] take [of "k - 3"] take [of "k - 4"]
      by (metis diff_le_self diff_zero)
  qed
  note or = or_push_bit_add(1)
  have l: "unat (?b i) AND 127 < 2 ^ 7" for i using low7_less [of "?b i"] by simp
  define x where "x i = unat (?b i) AND 127" for i
  have x: "x i < 128" for i using low7_less by (simp add: x_def)
  have o1: "x 0 OR push_bit 7 (x 1) = x 0 + x 1 * 2 ^ 7"
    by (rule or) (use x [of 0] in simp)
  have o2: "x 0 OR push_bit 7 (x 1) OR push_bit 14 (x 2) = x 0 + x 1 * 2 ^ 7 + x 2 * 2 ^ 14"
    unfolding or.assoc [symmetric] o1 by (rule or) (use x [of 0] x [of 1] in simp)
  have o3: "x 0 OR push_bit 7 (x 1) OR push_bit 14 (x 2) OR push_bit 21 (x 3) =
      x 0 + x 1 * 2 ^ 7 + x 2 * 2 ^ 14 + x 3 * 2 ^ 21"
    unfolding or.assoc [symmetric] o2 [unfolded or.assoc [symmetric]]
    by (rule or) (use x [of 0] x [of 1] x [of 2] in simp)
  have o4: "x 0 OR push_bit 7 (x 1) OR push_bit 14 (x 2) OR push_bit 21 (x 3) OR push_bit 28 (x 4) =
      x 0 + x 1 * 2 ^ 7 + x 2 * 2 ^ 14 + x 3 * 2 ^ 21 + x 4 * 2 ^ 28"
    unfolding or.assoc [symmetric] o3 [unfolded or.assoc [symmetric]]
    by (rule or) (use x [of 0] x [of 1] x [of 2] x [of 3] in simp)
  have dec: "lpDecodeBacklen lp k =
    (if unat (?b 0) < 128 then x 0
     else if unat (?b 1) < 128 then x 0 + x 1 * 2 ^ 7
     else if unat (?b 2) < 128 then x 0 + x 1 * 2 ^ 7 + x 2 * 2 ^ 14
     else if unat (?b 3) < 128 then x 0 + x 1 * 2 ^ 7 + x 2 * 2 ^ 14 + x 3 * 2 ^ 21
     else if unat (?b 4) < 128 then x 0 + x 1 * 2 ^ 7 + x 2 * 2 ^ 14 + x 3 * 2 ^ 21 + x 4 * 2 ^ 28
     else ULLONG_MAX)"
    unfolding lpDecodeBacklen_def Let_def byte_high x_def [symmetric] or.assoc o1 o2 o3 o4 ..
  show ?thesis
    unfolding dec assms(2) [symmetric] rev five_Suc dec_back_Cons x_def [symmetric]
    by (simp add: algebra_simps)
qed


lemma length_lpEncodeBacklen: "length (lpEncodeBacklen l) = lpEncodeBacklenBytes l"
  by (simp add: lpEncodeBacklen_def lpEncodeBacklenBytes_def)

lemma lpEncodeBacklenBytes_bounds [simp]:
  "0 < lpEncodeBacklenBytes l" "lpEncodeBacklenBytes l \<le> 5" "lpEncodeBacklenBytes l \<noteq> 0"
  by (simp_all add: lpEncodeBacklenBytes_def)

lemma dec_back_more:
  "dec_back (Suc f) (word_of_nat ((x AND 127) OR 128) # bs) =
   map_option (\<lambda>v. x mod 128 + 128 * v) (dec_back f bs)"
proof -
  have or: "(x AND 127) OR 128 = x mod 128 + 128"
    using or_shifted_add [of "x mod 128" 7 1] by (simp add: and_mask_mod)
  have "unat (word_of_nat ((x AND 127) OR 128) :: byte) = (x mod 128 + 128) mod 256"
    unfolding or by (rule unat_of_nat_byte)
  moreover have "x mod 128 + 128 < 256" by simp
  ultimately have u: "unat (word_of_nat ((x AND 127) OR 128) :: byte) = x mod 128 + 128"
    by (simp only: mod_less)
  show ?thesis unfolding dec_back.simps(3) u by simp
qed

lemma dec_back_last: "y < 128 \<Longrightarrow> dec_back (Suc f) [word_of_nat y] = Some y"
  unfolding dec_back.simps(3) unat_of_nat_byte by simp

lemma dec_back_encode:
  assumes "l < 2 ^ 35"
  shows "dec_back 5 (rev (lpEncodeBacklen l)) = Some l"
proof -
  have drop: "drop_bit 7 l = l div 128" "drop_bit 14 l = l div 128 div 128"
    "drop_bit 21 l = l div 128 div 128 div 128" "drop_bit 28 l = l div 128 div 128 div 128 div 128"
    by (simp_all add: drop_bit_eq_div div_mult2_eq [symmetric])
  have decomp: "x mod 128 + 128 * (x div 128) = x" for x :: nat by simp
  note defs = lpEncodeBacklen_def five_Suc rev.simps append.simps if_True if_False
  note steps = dec_back_more dec_back_last option.map drop decomp
  show ?thesis
  proof (cases "l < 16383")
    case True
    have a: "\<not> l \<le> 127 \<Longrightarrow> l div 128 < 128" using True by (simp add: div_less_iff_less_mult)
    show ?thesis
    proof (cases "l \<le> 127")
      case False
      with True a [OF False] show ?thesis unfolding defs by (simp only: if_False if_True steps rev.simps append.simps)
    qed (simp add: lpEncodeBacklen_def five_Suc)
  next
    case n2: False
    then have n1: "\<not> l \<le> 127" by simp
    show ?thesis
    proof (cases "l < 2097151")
      case True
      then have "l div 128 div 128 < 128" by (simp add: div_less_iff_less_mult)
      with True n1 n2 show ?thesis unfolding defs by (simp only: if_False if_True steps rev.simps append.simps)
    next
      case n3: False
      show ?thesis
      proof (cases "l < 268435455")
        case True
        then have "l div 128 div 128 div 128 < 128" by (simp add: div_less_iff_less_mult)
        with True n1 n2 n3 show ?thesis unfolding defs by (simp only: if_False if_True steps rev.simps append.simps)
      next
        case False
        have "l div 128 div 128 div 128 div 128 < 128" using assms by (simp add: div_less_iff_less_mult)
        with False n1 n2 n3 show ?thesis unfolding defs by (simp only: if_False if_True steps rev.simps append.simps)
      qed
    qed
  qed
qed

section \<open>Entries\<close>

definition lp_entry :: "bytes \<Rightarrow> bool" where
  "lp_entry e \<longleftrightarrow>
     (let n = lpCurrentEncodedSizeUnsafe e; lenbytes = lpCurrentEncodedSizeBytes (e ! 0) in
      e \<noteq> [] \<and> e ! 0 \<noteq> LP_EOF \<and> 0 < lenbytes \<and> lenbytes \<le> n
      \<and> length e = n + lpEncodeBacklenBytes n \<and> dec_back 5 (rev e) = Some n)"

text \<open>The contents of an entry as a string; an integer stands for its decimal representation.\<close>

definition lp_content :: "bytes \<Rightarrow> bytes" where
  "lp_content e =
     (case lpGet e of (Some k, count) \<Rightarrow> chunk e k (nat count) | (None, val) \<Rightarrow> decimal val)"

lemma lp_size_append:
  assumes "e \<noteq> []" "lpCurrentEncodedSizeBytes (e ! 0) \<le> length e"
  shows "lpCurrentEncodedSizeUnsafe (e @ r) = lpCurrentEncodedSizeUnsafe e"
proof -
  have nth: "(e @ r) ! i = e ! i" if "i < length e" for i using that by (simp add: nth_append)
  have z: "(e @ r) ! 0 = e ! 0" using assms(1) by (simp add: nth)
  consider "IS_12BIT_STR (e ! 0)" | "IS_32BIT_STR (e ! 0)" | "\<not> IS_12BIT_STR (e ! 0)" "\<not> IS_32BIT_STR (e ! 0)"
    by blast
  then show ?thesis
  proof cases
    case 1
    then have "2 \<le> length e" using assms(2) by (simp add: lpCurrentEncodedSizeBytes_def lp_is_range)
    with 1 show ?thesis
      by (simp add: lpCurrentEncodedSizeUnsafe_def z LP_12BIT_STR_LEN_def LP_6BIT_STR_LEN_def nth lp_is_range)
  next
    case 2
    then have "5 \<le> length e" using assms(2) by (simp add: lpCurrentEncodedSizeBytes_def lp_is_range)
    with 2 show ?thesis
      by (simp add: lpCurrentEncodedSizeUnsafe_def z LP_32BIT_STR_LEN_def LP_6BIT_STR_LEN_def nth lp_is_range)
  next
    case 3
    then show ?thesis by (simp add: lpCurrentEncodedSizeUnsafe_def z LP_6BIT_STR_LEN_def)
  qed
qed

lemma lp_entry_size:
  assumes "lp_entry e"
  shows "lpCurrentEncodedSizeUnsafe (e @ r) = lpCurrentEncodedSizeUnsafe e"
    "length e = lpCurrentEncodedSizeUnsafe e + lpEncodeBacklenBytes (lpCurrentEncodedSizeUnsafe e)"
    "dec_back 5 (rev e) = Some (lpCurrentEncodedSizeUnsafe e)" "e \<noteq> []" "e ! 0 \<noteq> LP_EOF"
    "2 \<le> length e"
proof -
  from assms show "length e = lpCurrentEncodedSizeUnsafe e + lpEncodeBacklenBytes (lpCurrentEncodedSizeUnsafe e)"
    "dec_back 5 (rev e) = Some (lpCurrentEncodedSizeUnsafe e)" "e \<noteq> []" "e ! 0 \<noteq> LP_EOF"
    by (simp_all add: lp_entry_def Let_def)
  from assms show "lpCurrentEncodedSizeUnsafe (e @ r) = lpCurrentEncodedSizeUnsafe e"
    by (intro lp_size_append) (simp_all add: lp_entry_def Let_def)
  have "0 < lpCurrentEncodedSizeUnsafe e" using assms by (auto simp: lp_entry_def Let_def)
  moreover have "0 < lpEncodeBacklenBytes (lpCurrentEncodedSizeUnsafe e)" by simp
  moreover note \<open>length e = _\<close>
  ultimately show "2 \<le> length e" by linarith
qed

lemma lp_entry_get:
  assumes "lp_entry e"
  shows "lpGetWithBuf (e @ r) = lpGetWithBuf e"
    "lpGetWithBuf e = (Some k, c) \<Longrightarrow> k + nat c = lpCurrentEncodedSizeUnsafe e \<and> 0 \<le> c \<and> c < 2 ^ 32"
proof -
  let ?n = "lpCurrentEncodedSizeUnsafe e"
  have n: "?n < length e" using lp_entry_size(2) [OF assms] by simp
  have nth: "(e @ r) ! i = e ! i" if "i \<le> ?n" for i using that n by (simp add: nth_append)
  have uval: "le_uval (e @ r) k = le_uval e k" if "k \<le> ?n" for k
    using that by (auto simp: le_uval_def nth intro!: fold_cong)
  have lenb: "lpCurrentEncodedSizeBytes (e ! 0) \<le> ?n" "0 < lpCurrentEncodedSizeBytes (e ! 0)"
    using assms by (simp_all add: lp_entry_def Let_def)
  consider "IS_6BIT_STR (e ! 0)" | "IS_12BIT_STR (e ! 0)" | "IS_32BIT_STR (e ! 0)"
    | "\<not> IS_6BIT_STR (e ! 0)" "\<not> IS_12BIT_STR (e ! 0)" "\<not> IS_32BIT_STR (e ! 0)" by blast
  then have "lpGetWithBuf (e @ r) = lpGetWithBuf e \<and>
    (\<forall>k c. lpGetWithBuf e = (Some k, c) \<longrightarrow> k + nat c = ?n \<and> 0 \<le> c \<and> c < 2 ^ 32)"
  proof cases
    case 1
    have "LP_6BIT_STR_LEN e < 2 ^ 32" by (simp add: LP_6BIT_STR_LEN_def and_mask_mod)
    with 1 show ?thesis
      by (auto simp: lpGetWithBuf_def nth LP_6BIT_STR_LEN_def lpCurrentEncodedSizeUnsafe_def lp_is_range)
  next
    case 2
    then have l: "2 \<le> ?n" using lenb by (simp add: lpCurrentEncodedSizeBytes_def lp_is_range)
    have "LP_12BIT_STR_LEN e = unat (e ! 1) + (unat (e ! 0) mod 16) * 2 ^ 8"
      unfolding LP_12BIT_STR_LEN_def and_mask_mod by (rule or_push_bit_add) simp
    also have "\<dots> < 2 ^ 32"
    proof -
      have "unat (e ! 0) mod 16 < 16" by simp
      with unat_byte_less [of "e ! 1"] have "unat (e ! 1) + unat (e ! 0) mod 16 * 256 < 4294967296" by linarith
      then show ?thesis by simp
    qed
    finally show ?thesis using 2 l
      by (auto simp: lpGetWithBuf_def nth LP_12BIT_STR_LEN_def LP_6BIT_STR_LEN_def lpCurrentEncodedSizeUnsafe_def
          lp_is_range)
  next
    case 3
    then have l: "5 \<le> ?n" using lenb by (simp add: lpCurrentEncodedSizeBytes_def lp_is_range)
    have len: "LP_32BIT_STR_LEN e = le_nat [e ! 1, e ! 2, e ! 3, e ! 4]"
      unfolding LP_32BIT_STR_LEN_def le_nat_OR ..
    have lt: "LP_32BIT_STR_LEN e < 2 ^ 32" unfolding len using le_nat_less [of "[e ! 1, e ! 2, e ! 3, e ! 4]"] by simp
    have n': "?n = (5 + LP_32BIT_STR_LEN e) mod 2 ^ 32"
      using 3 by (simp add: lpCurrentEncodedSizeUnsafe_def lp_is_range)
    have "5 + LP_32BIT_STR_LEN e < 2 ^ 32"
    proof (rule ccontr)
      assume a: "\<not> 5 + LP_32BIT_STR_LEN e < 2 ^ 32"
      then have "?n = 5 + LP_32BIT_STR_LEN e - 2 ^ 32"
        unfolding n' using lt by (simp add: le_mod_geq)
      with a lt l show False by linarith
    qed
    then have "?n = 5 + LP_32BIT_STR_LEN e" unfolding n' by simp
    with 3 l lt show ?thesis
      by (auto simp: lpGetWithBuf_def nth LP_32BIT_STR_LEN_def LP_6BIT_STR_LEN_def LP_12BIT_STR_LEN_def lp_is_range)
  next
    case 4
    then have "lp_int_fields (e @ r) = lp_int_fields e"
      using lenb
      by (auto simp: lp_int_fields_def nth uval lpCurrentEncodedSizeUnsafe_def lp_is_range
          lpCurrentEncodedSizeBytes_def)
    with 4 show ?thesis by (auto simp: lpGetWithBuf_def nth)
  qed
  then show "lpGetWithBuf (e @ r) = lpGetWithBuf e"
    "lpGetWithBuf e = (Some k, c) \<Longrightarrow> k + nat c = lpCurrentEncodedSizeUnsafe e \<and> 0 \<le> c \<and> c < 2 ^ 32"
    by blast+
qed


lemma lp_content_append:
  assumes "lp_entry e"
  shows "lpGet (e @ r) = lpGet e"
    "(case lpGet (e @ r) of (Some k, count) \<Rightarrow> chunk (e @ r) k (nat count) | (None, val) \<Rightarrow> decimal val) = lp_content e"
proof -
  show get: "lpGet (e @ r) = lpGet e" by (simp add: lpGet_def lp_entry_get [OF assms])
  have "chunk (e @ r) k (nat c) = chunk e k (nat c)" if "lpGet e = (Some k, c)" for k c
  proof -
    have "k + nat c \<le> length e"
      using lp_entry_get(2) [OF assms, of k c] lp_entry_size(2) [OF assms] that by (simp add: lpGet_def)
    then show ?thesis by (rule chunk_append_left)
  qed
  then show "(case lpGet (e @ r) of (Some k, count) \<Rightarrow> chunk (e @ r) k (nat count) | (None, val) \<Rightarrow> decimal val) = lp_content e"
    unfolding get by (auto simp: lp_content_def split: prod.splits option.splits)
qed

lemma lp_int_value_fits: "fits_signed 64 (lp_int_value f)"
proof -
  have "fits_signed 64 (- c_signed 64 i - 1)" for i
    using c_signed_fits [of 64 i] by (auto simp: fits_signed_def)
  then show ?thesis by (auto simp: lp_int_value_def c_signed_fits Let_def split: prod.splits)
qed

lemma lpGet_fits: "lpGet p = (None, v) \<Longrightarrow> fits_signed 64 v"
  by (auto simp: lpGet_def lpGetWithBuf_def lp_int_value_fits split: if_splits)

text \<open>What \<open>lpGet\<close> returns into a caller's buffer is the content.\<close>

lemma lpGetString_content:
  assumes "lp_entry e" "LP_INTBUF_SIZE \<le> length buf"
  shows "lpGetString (e @ r) buf = lp_content e"
proof (cases "lpGet e")
  case (Pair q v)
  show ?thesis
  proof (cases q)
    case None
    then have v: "lpGet e = (None, v)" using Pair by simp
    have "fst (ll2string buf LP_INTBUF_SIZE v) = length (decimal v) \<and>
      take (length (decimal v)) (snd (ll2string buf LP_INTBUF_SIZE v)) = decimal v"
      using ll2string_decimal [OF lpGet_fits [OF v] assms(2)] length_decimal_bound [OF lpGet_fits [OF v]]
      by (simp add: LP_INTBUF_SIZE_def LONG_STR_SIZE_def)
    then show ?thesis using v by (simp add: lpGetString_def lp_content_append [OF assms(1)] lp_content_def split_def)
  next
    case (Some k)
    then show ?thesis using Pair lp_content_append(2) [OF assms(1), of r]
      by (simp add: lpGetString_def lp_content_append(1) [OF assms(1)])
  qed
qed

section \<open>Entries the code builds\<close>

definition lp_encode :: "bytes \<Rightarrow> bytes" where
  "lp_encode s =
     (case lpStringToInt64 s of Some v \<Rightarrow> lpEncodeIntegerGetType v | None \<Rightarrow> lpEncodeString s)"

definition lp_make :: "bytes \<Rightarrow> bytes" where
  "lp_make enc = enc @ lpEncodeBacklen (length enc)"

text \<open>Strings the code can store: their encoded length fits in 32 bits.\<close>

definition lp_storable :: "bytes \<Rightarrow> bool" where
  "lp_storable s \<longleftrightarrow> length s + 5 < 2 ^ 32"

lemma lp_make_entry:
  assumes "enc \<noteq> []" "enc ! 0 \<noteq> LP_EOF" "lpCurrentEncodedSizeUnsafe (enc @ lpEncodeBacklen (length enc)) = length enc"
    "0 < lpCurrentEncodedSizeBytes (enc ! 0)" "lpCurrentEncodedSizeBytes (enc ! 0) \<le> length enc"
    "length enc < 2 ^ 35"
  shows "lp_entry (lp_make enc)"
proof -
  have "dec_back 5 (rev (lp_make enc)) = Some (length enc)"
    unfolding lp_make_def rev_append by (rule dec_back_append, rule dec_back_encode [OF assms(6)])
  then show ?thesis
    using assms by (simp add: lp_entry_def lp_make_def Let_def nth_append length_lpEncodeBacklen)
qed

lemma lp_make_int:
  assumes "fits_signed 64 v"
  shows "lp_entry (lp_make (lpEncodeIntegerGetType v))" "lp_content (lp_make (lpEncodeIntegerGetType v)) = decimal v"
    "lpGet (lp_make (lpEncodeIntegerGetType v)) = (None, v)"
proof -
  let ?e = "lpEncodeIntegerGetType v"
  have e: "lp_int_entry ?e" using lp_encode_int(2) [OF assms] .
  then have len: "length ?e \<noteq> 0" "?e ! 0 = hd ?e"
    by (simp_all add: lp_int_entry_def hd_conv_nth)
  have "length ?e \<le> 9" by (simp add: lpEncodeIntegerGetType_def Let_def)
  with e len show "lp_entry (lp_make ?e)" by (intro lp_make_entry) (auto simp: lp_int_entry_def Suc_le_eq)
  show "lpGet (lp_make ?e) = (None, v)" by (simp add: lp_make_def lpGet_def lp_encode_int(1) [OF assms])
  then show "lp_content (lp_make ?e) = decimal v" by (simp add: lp_content_def)
qed

lemma lpEncodeString_get:
  assumes s: "lp_storable s"
  shows "\<exists>k. lpGetWithBuf (lpEncodeString s @ r) = (Some k, int (length s)) \<and>
      chunk (lpEncodeString s @ r) k (length s) = s \<and> lpCurrentEncodedSizeBytes (lpEncodeString s ! 0) = k \<and>
      0 < k \<and> length (lpEncodeString s) = k + length s"
    "lpCurrentEncodedSizeUnsafe (lpEncodeString s @ r) = length (lpEncodeString s)"
    "lpEncodeString s ! 0 \<noteq> LP_EOF"
proof -
  let ?len = "length s" and ?e = "lpEncodeString s"
  have "(\<exists>k. lpGetWithBuf (?e @ r) = (Some k, int ?len) \<and> chunk (?e @ r) k ?len = s \<and>
      lpCurrentEncodedSizeBytes (?e ! 0) = k \<and> 0 < k \<and> length ?e = k + ?len) \<and>
      lpCurrentEncodedSizeUnsafe (?e @ r) = length ?e \<and> ?e ! 0 \<noteq> LP_EOF"
  proof (cases "?len < 64")
    case True
    have or: "?len OR 0x80 = 128 + ?len" using or_shifted_add [of ?len 7 1] True by simp
    have "unat (word_of_nat (128 + ?len) :: byte) = (128 + ?len) mod 256" by (rule unat_of_nat_byte)
    also have "\<dots> = 128 + ?len" using True by simp
    finally have hd: "unat (word_of_nat (128 + ?len) :: byte) = 128 + ?len" .
    have e: "?e = word_of_nat (128 + ?len) # s" using True or by (simp add: lpEncodeString_def)
    have m: "(128 + ?len) mod 64 = ?len" using True mod_add_left_eq [of 128 64 ?len] by simp
    have len: "LP_6BIT_STR_LEN (word_of_nat (128 + ?len) # s @ r) = ?len"
      unfolding LP_6BIT_STR_LEN_def nth_Cons_0 hd and_mask_mod m ..
    have tests: "IS_6BIT_STR (word_of_nat (128 + ?len))" "\<not> IS_7BIT_UINT (word_of_nat (128 + ?len))"
      "word_of_nat (128 + ?len) \<noteq> LP_EOF"
      unfolding lp_is_range hd using True by simp_all
    show ?thesis unfolding e append_Cons
      using tests len by (simp add: lpGetWithBuf_def lpCurrentEncodedSizeBytes_def lpCurrentEncodedSizeUnsafe_def chunk_def)
  next
    case n64: False
    show ?thesis
    proof (cases "?len < 4096")
      case True
      define h where "h = ?len div 256"
      have h: "h < 16" using True by (simp add: h_def div_less_iff_less_mult)
      have or: "drop_bit 8 ?len OR 0xE0 = 224 + h"
        using or_shifted_add [of h 5 7] h by (simp add: h_def drop_bit_eq_div)
      have "unat (word_of_nat (224 + h) :: byte) = (224 + h) mod 256" by (rule unat_of_nat_byte)
      also have "\<dots> = 224 + h" using h by simp
      finally have hd: "unat (word_of_nat (224 + h) :: byte) = 224 + h" .
      have e: "?e = word_of_nat (224 + h) # word_of_nat ?len # s" using True n64 or by (simp add: lpEncodeString_def)
      have m: "(224 + h) mod 16 = h" using h mod_add_left_eq [of 224 16 h] by simp
      have len: "LP_12BIT_STR_LEN (word_of_nat (224 + h) # word_of_nat ?len # s @ r) = ?len"
        unfolding LP_12BIT_STR_LEN_def nth_Cons_0 hd and_mask_mod m
        by (subst or_push_bit_add) (simp_all add: h_def)
      have tests: "IS_12BIT_STR (word_of_nat (224 + h))" "\<not> IS_7BIT_UINT (word_of_nat (224 + h))"
        "\<not> IS_6BIT_STR (word_of_nat (224 + h))" "\<not> IS_13BIT_INT (word_of_nat (224 + h))"
        "\<not> IS_16BIT_INT (word_of_nat (224 + h))" "\<not> IS_24BIT_INT (word_of_nat (224 + h))"
        "\<not> IS_32BIT_INT (word_of_nat (224 + h))" "\<not> IS_64BIT_INT (word_of_nat (224 + h))"
        "word_of_nat (224 + h) \<noteq> LP_EOF"
        unfolding lp_is_range hd using h by simp_all
      show ?thesis unfolding e append_Cons
        using tests len by (simp add: lpGetWithBuf_def lpCurrentEncodedSizeBytes_def lpCurrentEncodedSizeUnsafe_def chunk_def)
    next
      case False
      have e: "?e = 0xF0 # le_bytes 4 ?len @ s" using False
        by (simp add: lpEncodeString_def le_bytes_unfold drop_bit_eq_div Let_def)
      have lt: "?len + 5 < 2 ^ 32" using s by (simp add: lp_storable_def)
      have "LP_32BIT_STR_LEN (0xF0 # le_bytes 4 ?len @ s @ r) = le_nat (le_bytes 4 ?len)"
        unfolding LP_32BIT_STR_LEN_def le_nat_OR by (simp add: le_bytes_unfold)
      then have len: "LP_32BIT_STR_LEN (0xF0 # le_bytes 4 ?len @ s @ r) = ?len" using lt by simp
      have tests: "IS_32BIT_STR 0xF0" "\<not> IS_7BIT_UINT 0xF0" "\<not> IS_12BIT_STR 0xF0"
        "\<not> IS_6BIT_STR 0xF0" "\<not> IS_13BIT_INT 0xF0" "\<not> IS_16BIT_INT 0xF0" "\<not> IS_24BIT_INT 0xF0"
        "\<not> IS_32BIT_INT 0xF0" "\<not> IS_64BIT_INT 0xF0" "0xF0 \<noteq> LP_EOF"
        unfolding lp_is_range by simp_all
      show ?thesis unfolding e append_Cons
        using tests len lt by (simp add: lpGetWithBuf_def lpCurrentEncodedSizeBytes_def lpCurrentEncodedSizeUnsafe_def chunk_def)
    qed
  qed
  then show "\<exists>k. lpGetWithBuf (lpEncodeString s @ r) = (Some k, int (length s)) \<and>
      chunk (lpEncodeString s @ r) k (length s) = s \<and> lpCurrentEncodedSizeBytes (lpEncodeString s ! 0) = k \<and>
      0 < k \<and> length (lpEncodeString s) = k + length s"
    "lpCurrentEncodedSizeUnsafe (lpEncodeString s @ r) = length (lpEncodeString s)"
    "lpEncodeString s ! 0 \<noteq> LP_EOF" by blast+
qed

lemma lp_make_string:
  assumes "lp_storable s"
  shows "lp_entry (lp_make (lpEncodeString s))" "lp_content (lp_make (lpEncodeString s)) = s"
proof -
  let ?e = "lpEncodeString s"
  obtain k where k: "lpGetWithBuf (lp_make ?e) = (Some k, int (length s))" "chunk (lp_make ?e) k (length s) = s"
    "lpCurrentEncodedSizeBytes (?e ! 0) = k" "0 < k" "length ?e = k + length s"
    using lpEncodeString_get(1) [OF assms, of "lpEncodeBacklen (length ?e)"] by (auto simp: lp_make_def)
  then have "k \<le> 5" by (simp add: lpCurrentEncodedSizeBytes_def split: if_splits)
  with k(5) assms have "length ?e < 2 ^ 35" by (simp add: lp_storable_def)
  with k lpEncodeString_get(2,3) [OF assms] show "lp_entry (lp_make ?e)"
    by (intro lp_make_entry) auto
  show "lp_content (lp_make ?e) = s" using k by (simp add: lp_content_def lpGet_def)
qed

lemma lp_make_encode:
  assumes "lp_storable s"
  shows "lp_entry (lp_make (lp_encode s))" "lp_content (lp_make (lp_encode s)) = s"
proof -
  have "lp_entry (lp_make (lp_encode s)) \<and> lp_content (lp_make (lp_encode s)) = s"
  proof (cases "lpStringToInt64 s")
    case None
    then show ?thesis using lp_make_string [OF assms] by (simp add: lp_encode_def)
  next
    case (Some v)
    then have "fits_signed 64 v" "s = decimal v"
      using decimal_of_string2ll by (simp_all add: lpStringToInt64_string2ll)
    with Some lp_make_int show ?thesis by (simp add: lp_encode_def)
  qed
  then show "lp_entry (lp_make (lp_encode s))" "lp_content (lp_make (lp_encode s)) = s" by blast+
qed

section \<open>Comparison of an entry with a string\<close>

lemma lpCompare_content:
  assumes "lp_entry e"
  shows "fst (lpCompare (e @ r) s None) \<longleftrightarrow> lp_content e = s"
proof -
  have z: "(e @ r) ! 0 \<noteq> LP_EOF" using lp_entry_size(4,5) [OF assms] by (simp add: nth_append)
  obtain q v where get: "lpGet e = (q, v)" by fastforce
  show ?thesis
  proof (cases q)
    case None
    then have "fits_signed 64 v" using get lpGet_fits by simp
    then have "string2ll s = Some v \<longleftrightarrow> s = decimal v" using string2ll_decimal decimal_of_string2ll by blast
    then show ?thesis using None get z
      by (auto simp: lpCompare_def lp_content_append(1) [OF assms] lp_content_def lpStringToInt64_string2ll
          split: option.splits)
  next
    case (Some k)
    then have "k + nat v = lpCurrentEncodedSizeUnsafe e" "0 \<le> v"
      using lp_entry_get(2) [OF assms, of k v] get by (simp_all add: lpGet_def)
    then have "length (chunk (e @ r) k (nat v)) = nat v" using lp_entry_size(2) [OF assms] by simp
    moreover have "chunk (e @ r) k (nat v) = lp_content e"
      using Some get lp_content_append [OF assms, of r] by simp
    ultimately have "length (lp_content e) = nat v" "chunk (e @ r) k (nat v) = lp_content e" by simp_all
    then show ?thesis using Some get z lp_content_append(1) [OF assms, of r] \<open>0 \<le> v\<close>
      by (auto simp: lpCompare_def)
  qed
qed

end
