(* ===== verification/Lp_List.thy ===== *)
theory Lp_List
  imports Lp_Entry
begin

text \<open>
  \<open>listpack.c\<close>, second part: walking a listpack in both directions, counting, seeking and the
  validation of a block that comes from outside. The block is the list of its allocated bytes, an
  element pointer an offset into it; \<open>Abort\<close> is a failed assertion. The abstraction of a block is
  the list of its entries (\<open>lp_repr\<close>), and their contents are the abstract list.
\<close>

section \<open>Steps\<close>

definition lpSkip :: "bytes \<Rightarrow> nat \<Rightarrow> nat" where
  "lpSkip lp p =
     (let entrylen = lpCurrentEncodedSizeUnsafe (drop p lp);
          entrylen = entrylen + lpEncodeBacklenBytes entrylen
      in p + entrylen)"

text \<open>\<open>None\<close> is the return of 0; \<open>Some q\<close> the return of 1 with \<open>*pp\<close> set to \<open>q\<close>.\<close>

definition lpValidateNext :: "bytes \<Rightarrow> nat option \<Rightarrow> nat \<Rightarrow> nat option option" where
  "lpValidateNext lp pp lpbytes =
     (let out_of_range = (\<lambda>p. p < LP_HDR_SIZE \<or> p > lpbytes - 1) in
      case pp of
        None \<Rightarrow> None
      | Some p \<Rightarrow>
          if out_of_range p then None
          else if lp ! p = LP_EOF then Some None
          else
            let lenbytes = lpCurrentEncodedSizeBytes (lp ! p) in
            if lenbytes = 0 then None
            else if out_of_range (p + lenbytes) then None
            else
              let entrylen = lpCurrentEncodedSizeUnsafe (drop p lp);
                  encodedBacklen = lpEncodeBacklenBytes entrylen;
                  entrylen = entrylen + encodedBacklen
              in if out_of_range (p + entrylen) then None
                 else
                   let p = p + entrylen;
                       prevlen = lpDecodeBacklen lp (p - 1)
                   in if (prevlen + encodedBacklen) mod 2 ^ 64 \<noteq> entrylen then None
                      else Some (Some p))"

definition lpAssertValidEntry :: "bytes \<Rightarrow> nat \<Rightarrow> nat \<Rightarrow> bool" where
  "lpAssertValidEntry lp lpbytes p \<longleftrightarrow> lpValidateNext lp (Some p) lpbytes \<noteq> None"

definition lpNextWithBytes :: "bytes \<Rightarrow> nat \<Rightarrow> nat \<Rightarrow> nat option outcome" where
  "lpNextWithBytes lp p lpbytes =
     (let p = lpSkip lp p in
      if lp ! p = LP_EOF then Ok None
      else c_assert (lpAssertValidEntry lp lpbytes p) (Ok (Some p)))"

definition lpNext :: "bytes \<Rightarrow> nat \<Rightarrow> nat option outcome" where
  "lpNext lp p =
     (let p = lpSkip lp p in
      if lp ! p = LP_EOF then Ok None
      else c_assert (lpAssertValidEntry lp (lpBytes lp) p) (Ok (Some p)))"

text \<open>The pointer may move before the block when the length is corrupt; the assertion rejects it.\<close>

definition lpPrev :: "bytes \<Rightarrow> nat \<Rightarrow> nat option outcome" where
  "lpPrev lp p =
     (if p = LP_HDR_SIZE then Ok None
      else
        let p = p - 1;
            prevlen = lpDecodeBacklen lp p;
            prevlen = (prevlen + lpEncodeBacklenBytes prevlen) mod 2 ^ 64;
            q = int p - (int prevlen - 1)
        in c_assert (q \<ge> 0 \<and> lpAssertValidEntry lp (lpBytes lp) (nat q)) (Ok (Some (nat q))))"

definition lpFirst :: "bytes \<Rightarrow> nat option outcome" where
  "lpFirst lp =
     (let p = LP_HDR_SIZE in
      if lp ! p = LP_EOF then Ok None
      else c_assert (lpAssertValidEntry lp (lpBytes lp) p) (Ok (Some p)))"

definition lpLast :: "bytes \<Rightarrow> nat option outcome" where
  "lpLast lp = lpPrev lp (lpGetTotalBytes lp - 1)"

definition lpValidateFirst :: "bytes \<Rightarrow> nat option" where
  "lpValidateFirst lp = (let p = LP_HDR_SIZE in if lp ! p = LP_EOF then None else Some p)"

lemma lpEncodeBacklenBytes_gt: "p < p + (n + lpEncodeBacklenBytes n)"
  by simp

lemma lpValidateNext_progress:
  assumes "lpValidateNext lp (Some p) b = Some (Some q)"
  shows "p < q" "q < b" "q \<noteq> 0"
proof -
  from assms have "p < q \<and> q \<le> b - 1 \<and> \<not> q < LP_HDR_SIZE"
    by (auto simp: lpValidateNext_def Let_def split: if_splits)
  then show "p < q" "q < b" "q \<noteq> 0" by auto
qed

lemma lpAssertValidEntry_less: "lpAssertValidEntry lp b p \<Longrightarrow> 6 \<le> p \<and> p < b"
  by (auto simp: lpAssertValidEntry_def lpValidateNext_def LP_HDR_SIZE_def split: if_splits)

lemma lpNext_progress:
  assumes "lpNext lp p = Ok (Some q)"
  shows "p < q" "q < lpBytes lp"
proof -
  from assms have "q = lpSkip lp p \<and> lpAssertValidEntry lp (lpBytes lp) q"
    by (auto simp: lpNext_def Let_def split: if_splits)
  then show "p < q" "q < lpBytes lp"
    using lpAssertValidEntry_less by (auto simp: lpSkip_def Let_def)
qed

section \<open>Counting and seeking\<close>

function length_loop :: "bytes \<Rightarrow> nat option \<Rightarrow> nat \<Rightarrow> nat outcome" where
  "length_loop lp p count =
     (case p of
        None \<Rightarrow> Ok count
      | Some q \<Rightarrow>
          let count = (count + 1) mod 2 ^ 32 in
          case lpNext lp q of Abort \<Rightarrow> Abort | Ok p \<Rightarrow> length_loop lp p count)"
  by pat_completeness auto

termination length_loop
proof (relation "measure (\<lambda>(lp, p, count). case p of None \<Rightarrow> 0 | Some q \<Rightarrow> Suc (lpBytes lp - q))")
  show "((lp, x2, c), lp, p, count) \<in> measure (\<lambda>(lp, p, count). case p of None \<Rightarrow> 0 | Some q \<Rightarrow> Suc (lpBytes lp - q))"
    if "p = Some q" "c = (count + 1) mod 2 ^ 32" "lpNext lp q = Ok x2"
    for lp p count q c x2
    using that lpNext_progress [of lp q] by (cases x2) (auto intro: diff_less_mono2)
qed simp

declare length_loop.simps [simp del]

text \<open>The count, and the block, whose header may have been updated.\<close>

definition lpLength :: "bytes \<Rightarrow> (nat \<times> bytes) outcome" where
  "lpLength lp =
     (let numele = lpGetNumElements lp in
      if numele \<noteq> LP_HDR_NUMELE_UNKNOWN then Ok (numele, lp)
      else
        bind_outcome (lpFirst lp) (\<lambda>p.
        bind_outcome (length_loop lp p 0) (\<lambda>count.
        Ok (count, if count < LP_HDR_NUMELE_UNKNOWN then lpSetNumElements lp count else lp))))"

fun seek_forward :: "bytes \<Rightarrow> nat option \<Rightarrow> nat \<Rightarrow> nat option outcome" where
  "seek_forward lp ele 0 = Ok ele"
| "seek_forward lp None (Suc n) = Ok None"
| "seek_forward lp (Some p) (Suc n) = bind_outcome (lpNext lp p) (\<lambda>ele. seek_forward lp ele n)"

fun seek_backward :: "bytes \<Rightarrow> nat option \<Rightarrow> nat \<Rightarrow> nat option outcome" where
  "seek_backward lp ele 0 = Ok ele"
| "seek_backward lp None (Suc n) = Ok None"
| "seek_backward lp (Some p) (Suc n) = bind_outcome (lpPrev lp p) (\<lambda>ele. seek_backward lp ele n)"

definition lp_seek_scan :: "bytes \<Rightarrow> bool \<Rightarrow> int \<Rightarrow> nat option outcome" where
  "lp_seek_scan lp forward index =
     (if forward then bind_outcome (lpFirst lp) (\<lambda>ele. seek_forward lp ele (nat index))
      else bind_outcome (lpLast lp) (\<lambda>ele. seek_backward lp ele (nat (- 1 - index))))"

definition lpSeek :: "bytes \<Rightarrow> int \<Rightarrow> nat option outcome" where
  "lpSeek lp index =
     (let numele = lpGetNumElements lp in
      if numele \<noteq> LP_HDR_NUMELE_UNKNOWN then
        let index = (if index < 0 then int numele + index else index) in
        if index < 0 then Ok None
        else if index \<ge> int numele then Ok None
        else if index > int numele div 2 then lp_seek_scan lp False (index - int numele)
        else lp_seek_scan lp True index
      else lp_seek_scan lp (\<not> index < 0) index)"

section \<open>Validation\<close>

text \<open>\<open>entry_cb\<close> is the caller's test of an entry, with its state; \<open>None\<close> is the return of 0.\<close>

function validate_entries ::
  "bytes \<Rightarrow> nat \<Rightarrow> nat \<Rightarrow> (nat \<Rightarrow> nat \<Rightarrow> 'u \<Rightarrow> bool \<times> 'u) option \<Rightarrow> 'u \<Rightarrow> nat option \<Rightarrow> nat \<Rightarrow>
   (nat option \<times> nat) option" where
  "validate_entries lp bytes numele entry_cb u p count =
     (case p of
        None \<Rightarrow> Some (p, count)
      | Some prev \<Rightarrow>
          if lp ! prev = LP_EOF then Some (p, count)
          else
            case lpValidateNext lp p bytes of
              None \<Rightarrow> None
            | Some p \<Rightarrow>
                let (ok, u) = (case entry_cb of None \<Rightarrow> (True, u) | Some cb \<Rightarrow> cb prev numele u)
                in if \<not> ok then None
                   else validate_entries lp bytes numele entry_cb u p ((count + 1) mod 2 ^ 32))"
  by pat_completeness auto

termination validate_entries
proof (relation "measure (\<lambda>(lp, bytes, numele, entry_cb, u, p, count). case p of None \<Rightarrow> 0 | Some q \<Rightarrow> Suc (bytes - q))")
  fix lp bytes numele u count prev q and p :: "nat option" and u' xa y
    and entry_cb :: "(nat \<Rightarrow> nat \<Rightarrow> 'u \<Rightarrow> bool \<times> 'u) option"
  assume "p = Some prev" "lpValidateNext lp p bytes = Some q"
  then have "lpValidateNext lp (Some prev) bytes = Some q" by simp
  then show "((lp, bytes, numele, entry_cb, y, q, (count + 1) mod 2 ^ 32), lp, bytes, numele, entry_cb, u, p, count)
      \<in> measure (\<lambda>(lp, bytes, numele, entry_cb, u, p, count). case p of None \<Rightarrow> 0 | Some q \<Rightarrow> Suc (bytes - q))"
    using lpValidateNext_progress [of lp prev bytes] \<open>p = Some prev\<close>
    by (cases q) (auto intro: diff_less_mono2)
qed simp

declare validate_entries.simps [simp del]

definition lpValidateIntegrity ::
  "bytes \<Rightarrow> nat \<Rightarrow> bool \<Rightarrow> (nat \<Rightarrow> nat \<Rightarrow> 'u \<Rightarrow> bool \<times> 'u) option \<Rightarrow> 'u \<Rightarrow> bool" where
  "lpValidateIntegrity lp sz deep entry_cb cb_userdata =
     (if sz < LP_HDR_SIZE + 1 then False
      else
        let bytes = lpGetTotalBytes lp in
        if bytes \<noteq> sz then False
        else if lp ! (sz - 1) \<noteq> LP_EOF then False
        else if \<not> deep then True
        else
          let numele = lpGetNumElements lp in
          case validate_entries lp bytes numele entry_cb cb_userdata (Some LP_HDR_SIZE) 0 of
            None \<Rightarrow> False
          | Some (p, count) \<Rightarrow>
              if p \<noteq> Some (sz - 1) then False
              else if numele \<noteq> LP_HDR_NUMELE_UNKNOWN \<and> numele \<noteq> count then False
              else True)"


section \<open>Representation\<close>

definition lp_block :: "nat \<Rightarrow> bytes list \<Rightarrow> bytes \<Rightarrow> bytes" where
  "lp_block n es rest =
     le_bytes 4 (7 + length (concat es)) @ le_bytes 2 n @ concat es @ LP_EOF # rest"

text \<open>The entries are well formed, the sizes fit their fields, and the count in the header is the
  number of entries or the mark for an unknown count. Bytes after the end are free.\<close>

definition lp_fits :: "nat \<Rightarrow> bytes list \<Rightarrow> bool" where
  "lp_fits n es \<longleftrightarrow>
     list_all lp_entry es \<and> 7 + length (concat es) < 2 ^ 32 \<and> n < 2 ^ 16
     \<and> (n = LP_HDR_NUMELE_UNKNOWN \<or> n = length es)"

definition lp_repr :: "bytes \<Rightarrow> bytes list \<Rightarrow> bool" where
  "lp_repr lp es \<longleftrightarrow> (\<exists>n rest. lp = lp_block n es rest \<and> lp_fits n es)"

definition lp_pos :: "bytes list \<Rightarrow> nat \<Rightarrow> nat" where
  "lp_pos es i = LP_HDR_SIZE + length (concat (take i es))"

lemma lp_block_header [simp]:
  "lpGetTotalBytes (lp_block n es rest) = (7 + length (concat es)) mod 2 ^ 32"
  "lpGetNumElements (lp_block n es rest) = n mod 2 ^ 16"
  "length (lp_block n es rest) = 7 + length (concat es) + length rest"
proof -
  show "lpGetTotalBytes (lp_block n es rest) = (7 + length (concat es)) mod 2 ^ 32"
    unfolding lp_block_def header_fields(1) [OF length_le_bytes length_le_bytes] le_nat_le_bytes by simp
  show "lpGetNumElements (lp_block n es rest) = n mod 2 ^ 16"
    unfolding lp_block_def header_fields(2) [OF length_le_bytes length_le_bytes] le_nat_le_bytes by simp
qed (simp add: lp_block_def)

lemma lp_block_set [simp]:
  "lpSetNumElements (lp_block n es rest) m = lp_block m es rest"
  unfolding lp_block_def header_fields(4) [OF length_le_bytes length_le_bytes] ..

lemma lp_pos_0 [simp]: "lp_pos es 0 = 6"
  by (simp add: lp_pos_def LP_HDR_SIZE_def)

lemma lp_pos_Suc: "i < length es \<Longrightarrow> lp_pos es (Suc i) = lp_pos es i + length (es ! i)"
  by (simp add: lp_pos_def take_Suc_conv_app_nth)

lemma lp_pos_end: "lp_pos es (length es) = 6 + length (concat es)"
  by (simp add: lp_pos_def LP_HDR_SIZE_def)

lemma lp_pos_mono: "i \<le> j \<Longrightarrow> lp_pos es i \<le> lp_pos es j"
proof -
  assume "i \<le> j"
  then have "take j es = take i es @ take (j - i) (drop i es)"
    by (metis le_add_diff_inverse take_add)
  then show ?thesis by (simp add: lp_pos_def)
qed

lemma lp_pos_ge [simp]: "6 \<le> lp_pos es i"
  by (simp add: lp_pos_def LP_HDR_SIZE_def)

lemma lp_block_split:
  assumes "i \<le> length es"
  shows "lp_block n es rest =
      (le_bytes 4 (7 + length (concat es)) @ le_bytes 2 n @ concat (take i es)) @ concat (drop i es) @ LP_EOF # rest"
    "length (le_bytes 4 (7 + length (concat es)) @ le_bytes 2 n @ concat (take i es)) = lp_pos es i"
proof -
  have "concat es = concat (take i es) @ concat (drop i es)" by (metis append_take_drop_id concat_append)
  then show "lp_block n es rest =
      (le_bytes 4 (7 + length (concat es)) @ le_bytes 2 n @ concat (take i es)) @ concat (drop i es) @ LP_EOF # rest"
    unfolding lp_block_def by (metis append.assoc)
  show "length (le_bytes 4 (7 + length (concat es)) @ le_bytes 2 n @ concat (take i es)) = lp_pos es i"
    by (simp add: lp_pos_def LP_HDR_SIZE_def)
qed

lemma drop_lp_pos:
  assumes "i \<le> length es"
  shows "drop (lp_pos es i) (lp_block n es rest) = concat (drop i es) @ LP_EOF # rest"
  using lp_block_split(1) [OF assms, of n rest] lp_block_split(2) [OF assms, of n] by simp

lemma take_lp_pos:
  assumes "i \<le> length es"
  shows "take (lp_pos es i) (lp_block n es rest) =
    le_bytes 4 (7 + length (concat es)) @ le_bytes 2 n @ concat (take i es)"
  using lp_block_split(1) [OF assms, of n rest] lp_block_split(2) [OF assms, of n] by simp

lemma drop_lp_pos_entry:
  "i < length es \<Longrightarrow>
   drop (lp_pos es i) (lp_block n es rest) = es ! i @ concat (drop (Suc i) es) @ LP_EOF # rest"
  by (simp add: drop_lp_pos Cons_nth_drop_Suc [symmetric])

lemma nth_drop_0: "k < length xs \<Longrightarrow> drop k xs ! 0 = xs ! k"
  by simp

lemma lp_pos_less_length: "i \<le> length es \<Longrightarrow> lp_pos es i < length (lp_block n es rest)"
  using lp_pos_mono [of i "length es" es] by (simp add: lp_pos_end)

lemma lp_block_nth:
  "i < length es \<Longrightarrow> es ! i \<noteq> [] \<Longrightarrow> lp_block n es rest ! lp_pos es i = es ! i ! 0"
  "lp_block n es rest ! lp_pos es (length es) = LP_EOF"
proof -
  assume i: "i < length es" "es ! i \<noteq> []"
  then show "lp_block n es rest ! lp_pos es i = es ! i ! 0"
    using i nth_drop_0 [OF lp_pos_less_length [of i es n rest]]
    by (simp add: drop_lp_pos_entry nth_append)
next
  show "lp_block n es rest ! lp_pos es (length es) = LP_EOF"
    using nth_drop_0 [OF lp_pos_less_length [of "length es" es n rest]] by (simp add: drop_lp_pos)
qed

lemma lp_nth_entry: "list_all lp_entry es \<Longrightarrow> i < length es \<Longrightarrow> lp_entry (es ! i)"
  by (simp add: list_all_length)

lemma lp_block_nth_eof:
  "i \<le> length es \<Longrightarrow> list_all lp_entry es \<Longrightarrow>
   lp_block n es rest ! lp_pos es i = LP_EOF \<longleftrightarrow> i = length es"
  using lp_block_nth(1) [of i es n rest] lp_block_nth(2) [of n es rest] lp_entry_size(4,5) [OF lp_nth_entry [of es i]]
  by (cases "i = length es") auto

section \<open>Steps on a represented list\<close>

lemma lpSkip_pos:
  assumes "i < length es" "lp_entry (es ! i)"
  shows "lpSkip (lp_block n es rest) (lp_pos es i) = lp_pos es (Suc i)"
  using lp_entry_size(1,2) [OF assms(2)] assms(1) by (simp add: lpSkip_def drop_lp_pos_entry Let_def lp_pos_Suc)

text \<open>The length before position \<open>Suc i\<close> is that of entry \<open>i\<close>.\<close>

lemma lpDecodeBacklen_pos:
  assumes "i < length es" "lp_entry (es ! i)"
  shows "lpDecodeBacklen (lp_block n es rest) (lp_pos es (Suc i) - 1) = lpCurrentEncodedSizeUnsafe (es ! i)"
proof -
  let ?lp = "lp_block n es rest" and ?k = "lp_pos es (Suc i) - 1"
  note e = assms(2)
  have len: "lp_pos es (Suc i) = lp_pos es i + length (es ! i)" "2 \<le> length (es ! i)"
    using assms(1) lp_entry_size(6) [OF e] by (simp_all add: lp_pos_Suc)
  have suc: "Suc ?k = lp_pos es (Suc i)" using lp_pos_ge [of es "Suc i"] by linarith
  have lt: "?k < length ?lp" using lp_pos_less_length [of "Suc i" es n rest] assms(1) by simp
  have "take (Suc ?k) ?lp =
      (le_bytes 4 (7 + length (concat es)) @ le_bytes 2 n @ concat (take i es)) @ es ! i"
    unfolding suc using assms(1) by (simp add: take_lp_pos take_Suc_conv_app_nth)
  then have "rev (take (Suc ?k) ?lp) =
      rev (es ! i) @ rev (le_bytes 4 (7 + length (concat es)) @ le_bytes 2 n @ concat (take i es))"
    by simp
  then have "dec_back 5 (rev (take (Suc ?k) ?lp)) = Some (lpCurrentEncodedSizeUnsafe (es ! i))"
    using lp_entry_size(3) [OF e] by (simp only: dec_back_append)
  moreover have "4 \<le> ?k" using len lp_pos_ge [of es i] by linarith
  ultimately show ?thesis using lpDecodeBacklen_dec_back [OF lt] by simp
qed

lemma lp_entry_size_bound:
  assumes "lp_entry e"
  shows "lpCurrentEncodedSizeUnsafe e + lpEncodeBacklenBytes (lpCurrentEncodedSizeUnsafe e) < 2 ^ 64"
proof -
  have "lpCurrentEncodedSizeUnsafe e < 34359738368"
    using dec_back_less [OF lp_entry_size(3) [OF assms]] by simp
  moreover have "lpEncodeBacklenBytes (lpCurrentEncodedSizeUnsafe e) \<le> 5" by simp
  ultimately have "lpCurrentEncodedSizeUnsafe e + lpEncodeBacklenBytes (lpCurrentEncodedSizeUnsafe e) < 34359738368 + 6"
    by linarith
  then show ?thesis by simp
qed

lemma lpValidateNext_pos:
  assumes "i \<le> length es" "i < length es \<Longrightarrow> lp_entry (es ! i)"
  shows "lpValidateNext (lp_block n es rest) (Some (lp_pos es i)) (7 + length (concat es)) =
    Some (if i < length es then Some (lp_pos es (Suc i)) else None)"
proof (cases "i < length es")
  case False
  then have "i = length es" using assms(1) by simp
  then show ?thesis
    using lp_block_nth(2) [of n es rest] by (simp add: lpValidateNext_def lp_pos_end LP_HDR_SIZE_def)
next
  case True
  note e = assms(2) [OF True]
  let ?n = "lpCurrentEncodedSizeUnsafe (es ! i)" and ?b = "lpCurrentEncodedSizeBytes (es ! i ! 0)"
  have b: "0 < ?b" "?b \<le> ?n" using e by (simp_all add: lp_entry_def Let_def)
  have step: "lp_pos es (Suc i) = lp_pos es i + (?n + lpEncodeBacklenBytes ?n)"
    using True lp_entry_size(2) [OF e] by (simp add: lp_pos_Suc)
  have le: "lp_pos es (Suc i) \<le> 6 + length (concat es)"
    using lp_pos_mono [of "Suc i" "length es" es] True by (simp add: lp_pos_end)
  have size: "lpCurrentEncodedSizeUnsafe (drop (lp_pos es i) (lp_block n es rest)) = ?n"
    using lp_entry_size(1) [OF e] True by (simp add: drop_lp_pos_entry)
  have "?n + lpEncodeBacklenBytes ?n < 2 ^ 64"
    by (rule lp_entry_size_bound [OF e])
  then have mod: "(?n + lpEncodeBacklenBytes ?n) mod 2 ^ 64 = ?n + lpEncodeBacklenBytes ?n" by simp
  have dec: "lpDecodeBacklen (lp_block n es rest) (lp_pos es i + (?n + lpEncodeBacklenBytes ?n) - 1) = ?n"
    using lpDecodeBacklen_pos [OF True e, of n rest] step by simp
  have nth: "lp_block n es rest ! lp_pos es i = es ! i ! 0" using lp_block_nth(1) [OF True lp_entry_size(4) [OF e]] .
  have "es ! i ! 0 \<noteq> LP_EOF" using lp_entry_size(5) [OF e] .
  moreover have "\<not> lp_pos es i > 6 + length (concat es)" "\<not> lp_pos es i + ?b > 6 + length (concat es)"
    "\<not> lp_pos es i + (?n + lpEncodeBacklenBytes ?n) > 6 + length (concat es)"
    using step le b by linarith+
  moreover have "\<not> lp_pos es i < 6" "\<not> lp_pos es i + ?b < 6" "\<not> lp_pos es i + (?n + lpEncodeBacklenBytes ?n) < 6"
    using lp_pos_ge [of es i] by linarith+
  ultimately show ?thesis
    using b(1) True step
    unfolding lpValidateNext_def Let_def option.case nth size dec mod LP_HDR_SIZE_def by simp
qed


lemma lpBytes_block: "lp_fits n es \<Longrightarrow> lpBytes (lp_block n es rest) = 7 + length (concat es)"
  by (simp add: lpBytes_def lp_fits_def)

lemma lpAssertValidEntry_pos:
  "i \<le> length es \<Longrightarrow> lp_fits n es \<Longrightarrow>
   lpAssertValidEntry (lp_block n es rest) (7 + length (concat es)) (lp_pos es i)"
  by (simp add: lpAssertValidEntry_def lp_fits_def lpValidateNext_pos lp_nth_entry)

lemma lpNext_pos:
  assumes "i < length es" "lp_fits n es"
  shows "lpNext (lp_block n es rest) (lp_pos es i) =
    Ok (if Suc i < length es then Some (lp_pos es (Suc i)) else None)"
proof -
  have l: "list_all lp_entry es" using assms(2) by (simp add: lp_fits_def)
  have "lp_block n es rest ! lp_pos es (Suc i) = LP_EOF \<longleftrightarrow> Suc i = length es"
    using assms(1) l by (intro lp_block_nth_eof) simp_all
  moreover have "lpAssertValidEntry (lp_block n es rest) (lpBytes (lp_block n es rest)) (lp_pos es (Suc i))"
    using assms by (simp add: lpBytes_block lpAssertValidEntry_pos)
  ultimately show ?thesis using assms(1) lpSkip_pos [OF assms(1) lp_nth_entry [OF l assms(1)], of n rest] by (auto simp: lpNext_def Let_def)
qed

lemma lpPrev_pos:
  assumes "i \<le> length es" "lp_fits n es"
  shows "lpPrev (lp_block n es rest) (lp_pos es i) = Ok (if i = 0 then None else Some (lp_pos es (i - 1)))"
proof (cases i)
  case 0
  then show ?thesis by (simp add: lpPrev_def LP_HDR_SIZE_def)
next
  case (Suc j)
  have j: "j < length es" using assms(1) Suc by simp
  have l: "list_all lp_entry es" using assms(2) by (simp add: lp_fits_def)
  have e: "lp_entry (es ! j)" using j l lp_nth_entry by blast
  let ?n = "lpCurrentEncodedSizeUnsafe (es ! j)"
  have pos: "lp_pos es (Suc j) = lp_pos es j + (?n + lpEncodeBacklenBytes ?n)"
    using j lp_entry_size(2) [OF e] by (simp add: lp_pos_Suc)
  have dec: "lpDecodeBacklen (lp_block n es rest) (lp_pos es (Suc j) - 1) = ?n"
    by (rule lpDecodeBacklen_pos [OF j e])
  have "?n + lpEncodeBacklenBytes ?n < 2 ^ 64"
    by (rule lp_entry_size_bound [OF e])
  then have mod: "(?n + lpEncodeBacklenBytes ?n) mod 2 ^ 64 = ?n + lpEncodeBacklenBytes ?n" by simp
  have "0 < lpEncodeBacklenBytes ?n" by simp
  then have "6 < lp_pos es (Suc j)" using pos lp_pos_ge [of es j] by linarith
  then have pos1: "lp_pos es (Suc j) \<noteq> LP_HDR_SIZE" "1 \<le> lp_pos es (Suc j)"
    by (simp_all add: LP_HDR_SIZE_def)
  have "int (lp_pos es (Suc j) - 1) - (int (?n + lpEncodeBacklenBytes ?n) - 1) = int (lp_pos es j)"
    using pos pos1(2) by (simp add: of_nat_diff)
  moreover have "lpAssertValidEntry (lp_block n es rest) (lpBytes (lp_block n es rest)) (lp_pos es j)"
    using j assms by (simp add: lpBytes_block lpAssertValidEntry_pos)
  ultimately show ?thesis
    unfolding Suc lpPrev_def Let_def dec mod using pos1(1) by simp
qed

lemma lpFirst_pos:
  assumes "lp_fits n es"
  shows "lpFirst (lp_block n es rest) = Ok (if es = [] then None else Some (lp_pos es 0))"
proof -
  have "lp_block n es rest ! lp_pos es 0 = LP_EOF \<longleftrightarrow> 0 = length es"
    using assms by (intro lp_block_nth_eof) (simp_all add: lp_fits_def)
  moreover have "lpAssertValidEntry (lp_block n es rest) (lpBytes (lp_block n es rest)) (lp_pos es 0)"
    using assms by (simp only: lpBytes_block lpAssertValidEntry_pos le0)
  ultimately show ?thesis by (auto simp: lpFirst_def LP_HDR_SIZE_def)
qed

lemma lpLast_pos:
  assumes "lp_fits n es"
  shows "lpLast (lp_block n es rest) = Ok (if es = [] then None else Some (lp_pos es (length es - 1)))"
proof -
  have "lpGetTotalBytes (lp_block n es rest) - 1 = lp_pos es (length es)"
    using assms by (simp add: lp_fits_def lp_pos_end)
  then show ?thesis using assms by (simp add: lpLast_def lpPrev_pos)
qed

section \<open>Counting and seeking\<close>

lemma length_loop_pos:
  assumes "lp_fits n es" "i \<le> length es" "length es < 2 ^ 32" "c = i"
  shows "length_loop (lp_block n es rest) (if i < length es then Some (lp_pos es i) else None) c = Ok (length es)"
  using assms(2,4)
proof (induction "length es - i" arbitrary: i c)
  case 0
  then show ?case by (simp add: length_loop.simps)
next
  case (Suc k)
  then have i: "i < length es" by simp
  have "(i + 1) mod 2 ^ 32 = Suc i" using i assms(3) by simp
  moreover have "length_loop (lp_block n es rest) (if Suc i < length es then Some (lp_pos es (Suc i)) else None) (Suc i) =
      Ok (length es)"
    using Suc i by (intro Suc.hyps(1)) simp_all
  ultimately show ?case
    using i Suc.prems assms(1)
    by (subst length_loop.simps) (simp add: lpNext_pos [OF i assms(1)] Let_def split del: if_split cong: if_cong)
qed

lemma length_le_concat: "list_all lp_entry es \<Longrightarrow> 2 * length es \<le> length (concat es)"
proof (induction es)
  case (Cons e es)
  then show ?case using lp_entry_size(6) [of e] by simp
qed simp

lemma lp_fits_length: "lp_fits n es \<Longrightarrow> length es < 2 ^ 31"
  using length_le_concat [of es] by (simp add: lp_fits_def)

lemma lpLength_block:
  assumes "lp_fits n es"
  shows "\<exists>m. lpLength (lp_block n es rest) = Ok (length es, lp_block m es rest) \<and> lp_fits m es"
proof (cases "n = LP_HDR_NUMELE_UNKNOWN")
  case False
  then have n: "n = length es" "n < 2 ^ 16" using assms by (simp_all add: lp_fits_def)
  then show ?thesis using False assms by (auto simp: lpLength_def Let_def)
next
  case True
  have n: "n mod 2 ^ 16 = LP_HDR_NUMELE_UNKNOWN" using True by (simp add: LP_HDR_NUMELE_UNKNOWN_def)
  have "length_loop (lp_block n es rest) (if 0 < length es then Some (lp_pos es 0) else None) 0 = Ok (length es)"
    using assms lp_fits_length [OF assms] by (intro length_loop_pos) simp_all
  then have "lpLength (lp_block n es rest) =
      Ok (length es, if length es < LP_HDR_NUMELE_UNKNOWN then lp_block (length es) es rest else lp_block n es rest)"
    using n by (simp add: lpLength_def lpFirst_pos [OF assms] Let_def split: if_splits)
  moreover have "lp_fits (length es) es" if "length es < LP_HDR_NUMELE_UNKNOWN"
    using that assms by (simp add: lp_fits_def LP_HDR_NUMELE_UNKNOWN_def)
  ultimately show ?thesis using assms by (cases "length es < LP_HDR_NUMELE_UNKNOWN") auto
qed

lemma seek_forward_pos:
  assumes "lp_fits n es" "i \<le> length es"
  shows "seek_forward (lp_block n es rest) (if i < length es then Some (lp_pos es i) else None) k =
    Ok (if i + k < length es then Some (lp_pos es (i + k)) else None)"
  using assms(2)
proof (induction k arbitrary: i)
  case (Suc k)
  show ?case
  proof (cases "i < length es")
    case True
    then show ?thesis using Suc.IH [of "Suc i"] by (simp add: lpNext_pos [OF True assms(1)])
  qed simp
qed simp

lemma seek_backward_pos:
  assumes "lp_fits n es" "i < length es"
  shows "seek_backward (lp_block n es rest) (Some (lp_pos es i)) k =
    Ok (if k \<le> i then Some (lp_pos es (i - k)) else None)"
  using assms(2)
proof (induction k arbitrary: i)
  case (Suc k)
  show ?case
  proof (cases i)
    case 0
    have "seek_backward lp None k = Ok None" for lp by (cases k) simp_all
    then show ?thesis using lpPrev_pos [OF _ assms(1), of i rest] Suc.prems 0 by simp
  next
    case (Suc j)
    then show ?thesis
      using lpPrev_pos [OF _ assms(1), of i rest] Suc.prems Suc.IH [of j] by simp
  qed
qed simp

text \<open>The element an index names: from the head when it is not negative, else from the tail.\<close>

definition seek_target :: "'a list \<Rightarrow> int \<Rightarrow> nat option" where
  "seek_target es index =
     (if 0 \<le> index \<and> index < int (length es) then Some (nat index)
      else if index < 0 \<and> - int (length es) \<le> index then Some (nat (int (length es) + index))
      else None)"

lemma seek_scan_forward:
  "lp_fits n es \<Longrightarrow> 0 \<le> index \<Longrightarrow>
   lp_seek_scan (lp_block n es rest) True index = Ok (map_option (lp_pos es) (seek_target es index))"
  using seek_forward_pos [of n es 0 rest "nat index"]
  by (auto simp: lp_seek_scan_def lpFirst_pos seek_target_def split: if_splits)

lemma seek_scan_backward:
  assumes "lp_fits n es" "index < 0"
  shows "lp_seek_scan (lp_block n es rest) False index = Ok (map_option (lp_pos es) (seek_target es index))"
proof (cases "es = []")
  case True
  have "seek_backward lp None k = Ok None" for lp k by (cases k) simp_all
  then show ?thesis using True assms by (simp add: lp_seek_scan_def lpLast_pos seek_target_def)
next
  case False
  then have "length es - 1 < length es" by simp
  from seek_backward_pos [OF assms(1) this, of rest "nat (- 1 - index)"]
  have "lp_seek_scan (lp_block n es rest) False index =
      Ok (if nat (- 1 - index) \<le> length es - 1 then Some (lp_pos es (length es - 1 - nat (- 1 - index))) else None)"
    using False by (simp add: lp_seek_scan_def lpLast_pos [OF assms(1)])
  moreover have "nat (- 1 - index) \<le> length es - 1 \<longleftrightarrow> - int (length es) \<le> index"
    using False assms(2) by (cases es) auto
  moreover have "length es - 1 - nat (- 1 - index) = nat (int (length es) + index)"
    if "- int (length es) \<le> index" using that assms(2) by linarith
  ultimately show ?thesis using assms(2) by (auto simp: seek_target_def)
qed

lemma lpSeek_pos:
  assumes "lp_fits n es"
  shows "lpSeek (lp_block n es rest) index = Ok (map_option (lp_pos es) (seek_target es index))"
proof (cases "n = LP_HDR_NUMELE_UNKNOWN")
  case True
  then have "n mod 2 ^ 16 = LP_HDR_NUMELE_UNKNOWN" by (simp add: LP_HDR_NUMELE_UNKNOWN_def)
  then show ?thesis
    using seek_scan_forward [OF assms, of index rest] seek_scan_backward [OF assms, of index rest]
    by (cases "index < 0") (simp_all add: lpSeek_def Let_def)
next
  case False
  then have n: "n = length es" "n mod 2 ^ 16 = length es" using assms by (simp_all add: lp_fits_def)
  define i where "i = (if index < 0 then int (length es) + index else index)"
  have target: "seek_target es index = (if 0 \<le> i \<and> i < int (length es) then Some (nat i) else None)"
    by (auto simp: seek_target_def i_def)
  have seek: "lpSeek (lp_block n es rest) index =
    (if i < 0 then Ok None else if i \<ge> int (length es) then Ok None
     else if i > int (length es) div 2 then lp_seek_scan (lp_block n es rest) False (i - int (length es))
     else lp_seek_scan (lp_block n es rest) True i)"
    using False n by (simp add: lpSeek_def Let_def i_def)
  show ?thesis
  proof (cases "0 \<le> i \<and> i < int (length es)")
    case True
    then have "seek_target es (i - int (length es)) = Some (nat i)" "seek_target es i = Some (nat i)"
      by (auto simp: seek_target_def)
    then show ?thesis
      using True seek_scan_forward [OF assms, of i rest] seek_scan_backward [OF assms, of "i - int (length es)" rest]
      unfolding seek target by simp
  next
    case False
    then show ?thesis unfolding seek target by auto
  qed
qed

end
