(* ===== verification/Lp_Validate.thy ===== *)
theory Lp_Validate
  imports Lp_List
begin

text \<open>
  What \<open>lpValidateIntegrity\<close> of \<open>listpack.c\<close> accepts. A block in the representation always passes;
  a block that passes is in the representation, but for one shape of its first entry: an empty
  string whose length byte borrows the count field of the header (\<open>lp_borrowed\<close>).
\<close>

section \<open>Reading a length backwards across an entry\<close>

definition low_digits :: "bytes \<Rightarrow> nat" where
  "low_digits xs = foldr (\<lambda>b v. unat b - 128 + 128 * v) xs 0"

lemma dec_back_split:
  "dec_back f (xs @ ys) = Some v \<Longrightarrow>
   dec_back f xs = Some v \<or>
   (list_all (\<lambda>b. 128 \<le> unat b) xs \<and> length xs < f \<and>
    (\<exists>w. dec_back (f - length xs) ys = Some w \<and> v = low_digits xs + 128 ^ length xs * w))"
proof (induction xs arbitrary: f v)
  case Nil
  then show ?case by (cases f) (simp_all add: low_digits_def)
next
  case (Cons b xs)
  obtain g where f: "f = Suc g" using Cons.prems by (cases f) simp_all
  show ?case
  proof (cases "unat b < 128")
    case True
    then show ?thesis using Cons.prems by (simp add: f)
  next
    case False
    then obtain w where w: "dec_back g (xs @ ys) = Some w" "v = unat b - 128 + 128 * w"
      using Cons.prems by (auto simp: f)
    from Cons.IH [OF w(1)] False w(2) show ?thesis
      by (auto simp: f low_digits_def algebra_simps)
  qed
qed

lemma dec_back_mono: "dec_back f xs = Some v \<Longrightarrow> f \<le> g \<Longrightarrow> dec_back g xs = Some v"
proof (induction f xs arbitrary: g v rule: dec_back.induct)
  case (3 f b bs)
  obtain h where g: "g = Suc h" using "3.prems"(2) by (cases g) simp_all
  show ?case
  proof (cases "unat b < 128")
    case True
    then show ?thesis using "3.prems" by (simp add: g)
  next
    case False
    then obtain w where w: "dec_back f bs = Some w" "v = unat b - 128 + 128 * w" using "3.prems" by auto
    have "dec_back h bs = Some w" using "3.prems"(2) g by (intro "3.IH" [OF False w(1)]) simp
    with False w(2) show ?thesis by (simp add: g)
  qed
qed simp_all

lemma dec_back_mod: "dec_back f (b # bs) = Some v \<Longrightarrow> v mod 128 = unat b mod 128"
proof (cases f)
  case (Suc g)
  assume a: "dec_back f (b # bs) = Some v"
  show ?thesis
  proof (cases "unat b < 128")
    case False
    with a Suc obtain w where "v = unat b - 128 + 128 * w" by auto
    then have "v mod 128 = (unat b - 128) mod 128" by simp
    also have "\<dots> = unat b mod 128" using False by (simp add: le_mod_geq)
    finally show ?thesis .
  qed (use a Suc in simp)
qed simp

section \<open>An accepted entry\<close>

definition lp_borrowed :: bytes where "lp_borrowed = [0x80, 0x81]"

text \<open>The first byte decides the size of everything but the longer strings.\<close>

lemma lpValidateNext_facts:
  assumes "lpValidateNext lp (Some p) b = Some (Some q)" "b \<le> length lp"
  obtains n where "6 \<le> p" "p < b" "lp ! p \<noteq> LP_EOF" "n = lpCurrentEncodedSizeUnsafe (drop p lp)"
    "0 < lpCurrentEncodedSizeBytes (lp ! p)" "p + lpCurrentEncodedSizeBytes (lp ! p) < b"
    "q = p + (n + lpEncodeBacklenBytes n)" "q < b" "dec_back 5 (rev (take q lp)) = Some n"
proof -
  define n where "n = lpCurrentEncodedSizeUnsafe (drop p lp)"
  define k where "k = lpEncodeBacklenBytes n"
  have k: "0 < k" "k \<le> 5" by (simp_all add: k_def)
  from assms(1) have a: "6 \<le> p" "p \<le> b - 1" "lp ! p \<noteq> LP_EOF" "0 < lpCurrentEncodedSizeBytes (lp ! p)"
    "p + lpCurrentEncodedSizeBytes (lp ! p) \<le> b - 1" "q = p + (n + k)" "q \<le> b - 1"
    "(lpDecodeBacklen lp (q - 1) + k) mod 2 ^ 64 = n + k"
    by (auto simp: lpValidateNext_def Let_def LP_HDR_SIZE_def n_def k_def split: if_splits)
  have q: "Suc (q - 1) = q" "4 \<le> q - 1" "q - 1 < length lp"
    using a k assms(2) by linarith+
  obtain r where r: "dec_back 5 (rev (take (Suc (q - 1)) lp)) = r" by simp
  from lpDecodeBacklen_dec_back [OF q(3) this q(2)] 
  have d: "lpDecodeBacklen lp (q - 1) = (case r of Some v \<Rightarrow> v | None \<Rightarrow> ULLONG_MAX)" .
  have "r = Some n"
  proof (cases r)
    case None
    have "(ULLONG_MAX + k) mod 2 ^ 64 = (2 ^ 64 + (k - 1)) mod 2 ^ 64"
      using k by (simp add: ULLONG_MAX_def)
    also have "\<dots> = (k - 1) mod 2 ^ 64" by (rule mod_add_self1)
    also have "\<dots> = k - 1" using k by (intro mod_less) simp
    finally show ?thesis using a(8) d None k by simp
  next
    case (Some v)
    then have "v < 34359738368" using dec_back_less [OF r [unfolded Some]] by simp
    then have "v + k < 34359738368 + 6" using k by linarith
    then have "(v + k) mod 2 ^ 64 = v + k" by simp
    then show ?thesis using a(8) d Some by simp
  qed
  then have "dec_back 5 (rev (take q lp)) = Some n" using r q(1) by simp
  with a k show ?thesis using that n_def k_def by simp
qed

lemma wrapped_string:
  assumes "IS_32BIT_STR (p ! 0)" "lpCurrentEncodedSizeUnsafe p < 5"
  shows "unat (p ! 1) = 251 + lpCurrentEncodedSizeUnsafe p"
    "unat (p ! 2) = 255" "unat (p ! 3) = 255" "unat (p ! 4) = 255"
proof -
  let ?n = "lpCurrentEncodedSizeUnsafe p"
  have len: "LP_32BIT_STR_LEN p = le_nat [p ! 1, p ! 2, p ! 3, p ! 4]"
    unfolding LP_32BIT_STR_LEN_def le_nat_OR ..
  have lt: "LP_32BIT_STR_LEN p < 2 ^ 32"
    unfolding len using le_nat_less [of "[p ! 1, p ! 2, p ! 3, p ! 4]"] by simp
  have n: "?n = (5 + LP_32BIT_STR_LEN p) mod 2 ^ 32"
    using assms(1) by (simp add: lpCurrentEncodedSizeUnsafe_def lp_is_range)
  have "\<not> 5 + LP_32BIT_STR_LEN p < 2 ^ 32"
    using n assms(2) by auto
  then have "?n = 5 + LP_32BIT_STR_LEN p - 2 ^ 32" using n lt by (simp add: le_mod_geq)
  then have "unat (p ! 1) + 256 * (unat (p ! 2) + 256 * (unat (p ! 3) + 256 * unat (p ! 4))) = 2 ^ 32 - 5 + ?n"
    using \<open>\<not> 5 + LP_32BIT_STR_LEN p < 2 ^ 32\<close> len by simp
  then have eq: "unat (p ! 1) + 256 * unat (p ! 2) + 65536 * unat (p ! 3) + 16777216 * unat (p ! 4) = 4294967291 + ?n"
    by simp
  have "unat (p ! 1) \<le> 255" "unat (p ! 2) \<le> 255" "unat (p ! 3) \<le> 255" "unat (p ! 4) \<le> 255"
    using unat_byte_less [of "p ! 1"] unat_byte_less [of "p ! 2"] unat_byte_less [of "p ! 3"]
      unat_byte_less [of "p ! 4"] by linarith+
  note bounds = this eq assms(2)
  show four: "unat (p ! 4) = 255" using bounds by linarith
  show three: "unat (p ! 3) = 255" using bounds four by linarith
  show two: "unat (p ! 2) = 255" using bounds four three by linarith
  show "unat (p ! 1) = 251 + ?n" using bounds four three two by linarith
qed


lemma lp_size_positive:
  "p \<noteq> [] \<Longrightarrow> 0 < lpCurrentEncodedSizeBytes (p ! 0) \<Longrightarrow> \<not> IS_32BIT_STR (p ! 0) \<Longrightarrow>
   lpCurrentEncodedSizeBytes (p ! 0) \<le> lpCurrentEncodedSizeUnsafe p"
  by (auto simp: lpCurrentEncodedSizeUnsafe_def lpCurrentEncodedSizeBytes_def lp_is_range)

text \<open>The size of a 32-bit string never wraps in an accepted entry: the bytes of its length would
  then be read as the length at its end.\<close>

lemma accepted_not_wrapped:
  assumes "dec_back 5 (rev (take (p + (n + k)) lp)) = Some n" "n = lpCurrentEncodedSizeUnsafe (drop p lp)"
    "p + (n + k) \<le> length lp" "k = lpEncodeBacklenBytes n" "p < length lp"
    "p + 5 < length lp"
  shows "\<not> (IS_32BIT_STR (lp ! p) \<and> n < 5)"
proof
  assume a: "IS_32BIT_STR (lp ! p) \<and> n < 5"
  then have k: "k = 1" using assms(4) by (simp add: lpEncodeBacklenBytes_def)
  have nth: "drop p lp ! i = lp ! (p + i)" if "p + i < length lp" for i using that by simp
  have "IS_32BIT_STR (drop p lp ! 0)" "lpCurrentEncodedSizeUnsafe (drop p lp) < 5"
    using a assms(2,5) by simp_all
  from wrapped_string [OF this] have bytes: "unat (lp ! (p + 1)) = 251 + n"
    "unat (lp ! (p + 2)) = 255" "unat (lp ! (p + 3)) = 255" "unat (lp ! (p + 4)) = 255"
    using assms(2,6) by simp_all
  have "take (p + (n + k)) lp = take (p + n) lp @ [lp ! (p + n)]"
    using assms(3) k by (simp add: take_Suc_conv_app_nth)
  then have "dec_back 5 (lp ! (p + n) # rev (take (p + n) lp)) = Some n" using assms(1) by simp
  then have "n mod 128 = unat (lp ! (p + n)) mod 128" by (rule dec_back_mod)
  then have eq: "n = unat (lp ! (p + n)) mod 128" using a by simp
  consider "n = 0" | "n = 1" | "n = 2" | "n = 3" | "n = 4" using a by linarith
  then show False
  proof cases
    case 1
    then have "unat (lp ! (p + n)) mod 128 = 112" using a by (simp add: lp_is_range)
    then show False using eq 1 by linarith
  next
    case 2
    then have "unat (lp ! (p + n)) = 252" using bytes(1) by simp
    then have "unat (lp ! (p + n)) mod 128 = 124" by simp
    then show False using eq 2 by linarith
  next
    case 3
    then have "unat (lp ! (p + n)) mod 128 = 127" using bytes(2) by simp
    then show False using eq 3 by linarith
  next
    case 4
    then have "unat (lp ! (p + n)) mod 128 = 127" using bytes(3) by simp
    then show False using eq 4 by linarith
  next
    case 5
    then have "unat (lp ! (p + n)) mod 128 = 127" using bytes(4) by simp
    then show False using eq 5 by linarith
  qed
qed

lemma chunk_split:
  assumes "p \<le> q" "q \<le> length lp"
  shows "drop p lp = chunk lp p (q - p) @ drop q lp" "take q lp = take p lp @ chunk lp p (q - p)"
proof -
  have pq: "p + (q - p) = q" using assms(1) by simp
  have "drop (q - p) (drop p lp) = drop (p + (q - p)) lp" by (simp add: add.commute)
  then show "drop p lp = chunk lp p (q - p) @ drop q lp"
    unfolding pq chunk_def using append_take_drop_id [of "q - p" "drop p lp"] by simp
  show "take q lp = take p lp @ chunk lp p (q - p)"
    unfolding chunk_def using take_add [of p "q - p" lp] unfolding pq .
qed

lemma low_digits_snoc: "low_digits (xs @ [c]) = low_digits xs + 128 ^ length xs * (unat c - 128)"
  by (induction xs) (simp_all add: low_digits_def algebra_simps)

lemma borrowed_entry:
  assumes e: "length e = n + lpEncodeBacklenBytes n" "0 < n" "length e < 5"
    and size: "lpCurrentEncodedSizeUnsafe e = n"
    and high: "list_all (\<lambda>b. 128 \<le> unat b) e"
    and sum: "n = low_digits (rev e) + 128 ^ length e * w"
  shows "e = lp_borrowed" "w = 0"
proof -
  have "lpEncodeBacklenBytes n = 1" using e by (simp add: lpEncodeBacklenBytes_def)
  then have len: "length e = n + 1" using e(1) by simp
  then have e0: "e \<noteq> []" by auto
  have reve: "rev e = rev (tl e) @ [e ! 0]" using e0 by (cases e) simp_all
  have ltl: "length (rev (tl e)) = n" using len by simp
  have sum': "n = low_digits (rev (tl e)) + 128 ^ n * (unat (e ! 0) - 128) + 128 ^ length e * w"
    using sum unfolding reve low_digits_snoc ltl .
  have "n < 2 ^ n" by (rule less_exp)
  also have "(2 :: nat) ^ n \<le> 128 ^ n" by (intro power_mono) simp_all
  finally have big: "n < 128 ^ n" .
  have c: "unat (e ! 0) - 128 = 0"
  proof (rule ccontr)
    assume "unat (e ! 0) - 128 \<noteq> 0"
    then have "128 ^ n * 1 \<le> 128 ^ n * (unat (e ! 0) - 128)" by (intro mult_le_mono2) linarith
    with sum' big show False by linarith
  qed
  moreover have "128 \<le> unat (e ! 0)" using high e0 by (cases e) simp_all
  ultimately have h: "unat (e ! 0) = 128" by linarith
  then have "lpCurrentEncodedSizeUnsafe e = 1"
    by (simp add: lpCurrentEncodedSizeUnsafe_def lp_is_range LP_6BIT_STR_LEN_def and_mask_mod)
  then have n1: "n = 1" using size by simp
  then have "length e = 2" using len by simp
  then obtain x y where xy: "e = [x, y]" by (rule length_2E)
  have "low_digits (rev e) = unat y - 128" using h xy by (simp add: low_digits_def)
  then have one: "1 = unat y - 128 + 16384 * w" using sum n1 \<open>length e = 2\<close> by simp
  then have "w = 0" by (cases w) simp_all
  then have "unat y - 128 = 1" using one by simp
  then have yw: "unat y = 129" "w = 0" using \<open>w = 0\<close> by linarith+
  have "y = 129" "x = 128" using yw h xy by (simp_all add: word_unat_eq_iff)
  then show "e = lp_borrowed" "w = 0" using xy yw by (simp_all add: lp_borrowed_def)
qed

lemma lpValidateNext_entry:
  assumes v: "lpValidateNext lp (Some p) b = Some (Some q)" "b \<le> length lp"
  shows "\<exists>m > 0. dec_back 5 (rev (take q lp)) = Some m"
    "lp_entry (chunk lp p (q - p)) \<or>
     (chunk lp p (q - p) = lp_borrowed \<and> dec_back 3 (rev (take p lp)) = Some 0)"
proof -
  obtain n where n: "6 \<le> p" "p < b" "lp ! p \<noteq> LP_EOF" "n = lpCurrentEncodedSizeUnsafe (drop p lp)"
    "0 < lpCurrentEncodedSizeBytes (lp ! p)" "p + lpCurrentEncodedSizeBytes (lp ! p) < b"
    "q = p + (n + lpEncodeBacklenBytes n)" "q < b" "dec_back 5 (rev (take q lp)) = Some n"
    using lpValidateNext_facts [OF v] .
  let ?l = "lpCurrentEncodedSizeBytes (lp ! p)" and ?k = "lpEncodeBacklenBytes n"
  define e where "e = chunk lp p (q - p)"
  have z: "drop p lp ! 0 = lp ! p" "drop p lp \<noteq> []" using n(2) v(2) by simp_all
  have l: "?l \<le> n"
  proof (cases "IS_32BIT_STR (lp ! p)")
    case True
    then have l5: "?l = 5" by (simp add: lpCurrentEncodedSizeBytes_def lp_is_range)
    have "dec_back 5 (rev (take (p + (n + ?k)) lp)) = Some n" using n(9) unfolding n(7) .
    moreover have "p + (n + ?k) \<le> length lp" "p + 5 < length lp" "p < length lp"
      using n(6,7,8) v(2) l5 by linarith+
    ultimately have "\<not> (IS_32BIT_STR (lp ! p) \<and> n < 5)"
      using accepted_not_wrapped [of p n ?k lp] n(4) by blast
    with True l5 show ?thesis by simp
  next
    case False
    then show ?thesis using lp_size_positive [OF z(2)] n(4,5) z(1) by simp
  qed
  have n0: "0 < n" using l n(5) by linarith
  show "\<exists>m > 0. dec_back 5 (rev (take q lp)) = Some m" using n(9) n0 by blast
  have pq: "p \<le> q" "q \<le> length lp" using n(7,8) v(2) by linarith+
  have qp: "q - p = n + ?k" using n(7) by linarith
  have len: "length e = n + ?k" unfolding e_def using pq qp by simp
  have dr: "drop p lp = e @ drop q lp" and ta: "take q lp = take p lp @ e"
    unfolding e_def using chunk_split [OF pq] by blast+
  have e0: "e \<noteq> []" using len n0 by auto
  then have z0: "e ! 0 = lp ! p" using z(1) unfolding dr by (simp add: nth_append)
  have "lpCurrentEncodedSizeUnsafe (e @ drop q lp) = lpCurrentEncodedSizeUnsafe e"
    using l len z0 e0 by (intro lp_size_append) simp_all
  then have size: "lpCurrentEncodedSizeUnsafe e = n" using n(4) unfolding dr by simp
  have "dec_back 5 (rev e @ rev (take p lp)) = Some n" using n(9) unfolding ta by simp
  from dec_back_split [OF this] have "lp_entry e \<or> (e = lp_borrowed \<and> dec_back 3 (rev (take p lp)) = Some 0)"
  proof
    assume "dec_back 5 (rev e) = Some n"
    then show ?thesis unfolding lp_entry_def Let_def size using len e0 z0 l n(3,5) by simp
  next
    assume "list_all (\<lambda>b. 128 \<le> unat b) (rev e) \<and> length (rev e) < 5 \<and>
      (\<exists>w. dec_back (5 - length (rev e)) (rev (take p lp)) = Some w \<and> n = low_digits (rev e) + 128 ^ length (rev e) * w)"
    then obtain w where h: "list_all (\<lambda>b. 128 \<le> unat b) e" "length e < 5"
      and w: "dec_back (5 - length e) (rev (take p lp)) = Some w" "n = low_digits (rev e) + 128 ^ length e * w"
      unfolding length_rev list_all_rev by blast
    have be: "e = lp_borrowed" "w = 0" using borrowed_entry [OF len n0 h(2) size h(1) w(2)] by blast+
    then have "5 - length e = 3" by (simp add: lp_borrowed_def)
    with be w(1) show ?thesis by simp
  qed
  then show "lp_entry (chunk lp p (q - p)) \<or>
     (chunk lp p (q - p) = lp_borrowed \<and> dec_back 3 (rev (take p lp)) = Some 0)"
    unfolding e_def .
qed


section \<open>The loop\<close>

text \<open>The first entry of a block that passes may be \<open>lp_borrowed\<close>; all others are well formed.\<close>

definition lp_entries_weak :: "bytes list \<Rightarrow> bool" where
  "lp_entries_weak es \<longleftrightarrow>
     list_all lp_entry (tl es) \<and> (es \<noteq> [] \<longrightarrow> lp_entry (hd es) \<or> hd es = lp_borrowed)"

lemma validate_entries_step:
  assumes "validate_entries lp b n cb u (Some p) c = Some (r, c')" "lp ! p \<noteq> LP_EOF"
  obtains q u' where "lpValidateNext lp (Some p) b = Some (Some q)"
    "validate_entries lp b n cb u' (Some q) ((c + 1) mod 2 ^ 32) = Some (r, c')"
proof -
  obtain w where w: "lpValidateNext lp (Some p) b = Some w"
    using assms by (cases "lpValidateNext lp (Some p) b") (simp_all add: validate_entries.simps [of lp b n cb u "Some p" c])
  with assms(2) obtain q where q: "w = Some q"
    by (auto simp: lpValidateNext_def Let_def split: if_splits)
  obtain ok u' where u: "(case cb of None \<Rightarrow> (True, u) | Some cb \<Rightarrow> cb p n u) = (ok, u')" by fastforce
  have "validate_entries lp b n cb u' (Some q) ((c + 1) mod 2 ^ 32) = Some (r, c')"
    using assms w q u by (simp add: validate_entries.simps [of lp b n cb u "Some p" c] split: if_splits)
  with w q that show ?thesis by blast
qed

lemma validate_entries_sound:
  assumes "validate_entries lp b n cb u (Some p) c = Some (r, c')" "b \<le> length lp" "p < b" "c < 2 ^ 32"
  shows "\<exists>q es. r = Some q \<and> p \<le> q \<and> q < b \<and> chunk lp p (q - p) = concat es \<and> c' = (c + length es) mod 2 ^ 32
    \<and> lp_entries_weak es \<and> ((\<exists>m > 0. dec_back 5 (rev (take p lp)) = Some m) \<longrightarrow> list_all lp_entry es)"
  using assms(1,3,4)
proof (induction "b - p" arbitrary: p c u rule: less_induct)
  case less
  show ?case
  proof (cases "lp ! p = LP_EOF")
    case True
    then have "r = Some p" "c' = c"
      using less.prems(1) by (simp_all add: validate_entries.simps [of lp b n cb u "Some p" c])
    then have "r = Some p \<and> p \<le> p \<and> p < b \<and> chunk lp p (p - p) = concat [] \<and> c' = (c + length []) mod 2 ^ 32
      \<and> lp_entries_weak [] \<and> ((\<exists>m > 0. dec_back 5 (rev (take p lp)) = Some m) \<longrightarrow> list_all lp_entry [])"
      using less.prems(2,3) by (simp add: chunk_def lp_entries_weak_def)
    then show ?thesis by blast
  next
    case False
    obtain q u' where q: "lpValidateNext lp (Some p) b = Some (Some q)"
      and rec: "validate_entries lp b n cb u' (Some q) ((c + 1) mod 2 ^ 32) = Some (r, c')"
      using validate_entries_step [OF less.prems(1) False] .
    have pq: "p < q" "q < b" using lpValidateNext_progress [OF q] by simp_all
    define e where "e = chunk lp p (q - p)"
    note ent = lpValidateNext_entry [OF q assms(2)]
    obtain t es where t: "r = Some t" "q \<le> t" "t < b" "chunk lp q (t - q) = concat es"
      "c' = ((c + 1) mod 2 ^ 32 + length es) mod 2 ^ 32" "list_all lp_entry es"
    proof -
      have lt: "b - q < b - p" using pq by linarith
      have "(c + 1) mod 2 ^ 32 < 2 ^ 32" by simp
      from less.hyps [OF lt rec pq(2) this] ent(1) that show ?thesis by blast
    qed
    have "chunk lp p (t - p) = e @ chunk lp q (t - q)"
    proof -
      have split: "t - p = (q - p) + (t - q)" and pq': "(q - p) + p = q" using pq t by linarith+
      show ?thesis unfolding e_def chunk_def split take_add drop_drop pq' ..
    qed
    moreover have "c' = (c + length (e # es)) mod 2 ^ 32"
      unfolding t(5) by (simp only: mod_add_left_eq length_Cons) simp
    moreover have ee: "lp_entry e \<or> (e = lp_borrowed \<and> dec_back 3 (rev (take p lp)) = Some 0)"
      using ent(2) unfolding e_def .
    then have "lp_entries_weak (e # es)" using t(6) by (auto simp: lp_entries_weak_def)
    moreover have "list_all lp_entry (e # es)" if m: "\<exists>m > 0. dec_back 5 (rev (take p lp)) = Some m"
    proof -
      have "dec_back 3 (rev (take p lp)) \<noteq> Some 0" using m dec_back_mono [of 3 "rev (take p lp)" 0 5] by auto
      with ee t(6) show ?thesis by simp
    qed
    ultimately have "r = Some t \<and> p \<le> t \<and> t < b \<and> chunk lp p (t - p) = concat (e # es) \<and> c' = (c + length (e # es)) mod 2 ^ 32
      \<and> lp_entries_weak (e # es) \<and> ((\<exists>m > 0. dec_back 5 (rev (take p lp)) = Some m) \<longrightarrow> list_all lp_entry (e # es))"
      using t pq by simp
    then show ?thesis by blast
  qed
qed

lemma validate_entries_complete:
  assumes "i \<le> length es" "list_all lp_entry (drop i es)" "c + (length es - i) < 2 ^ 32"
  shows "validate_entries (lp_block n es rest) (7 + length (concat es)) m None u (Some (lp_pos es i)) c =
    Some (Some (lp_pos es (length es)), c + (length es - i))"
  using assms
proof (induction "length es - i" arbitrary: i c)
  case 0
  then have "i = length es" by simp
  then show ?case using lp_block_nth(2) [of n es rest] by (simp add: validate_entries.simps)
next
  case (Suc k)
  then have i: "i < length es" by simp
  then have d: "drop i es = es ! i # drop (Suc i) es" by (simp add: Cons_nth_drop_Suc)
  then have e: "lp_entry (es ! i)" using Suc.prems(2) by simp
  have "lp_block n es rest ! lp_pos es i \<noteq> LP_EOF"
    using lp_block_nth(1) [OF i lp_entry_size(4) [OF e]] lp_entry_size(5) [OF e] by simp
  moreover have "lpValidateNext (lp_block n es rest) (Some (lp_pos es i)) (7 + length (concat es)) =
      Some (Some (lp_pos es (Suc i)))"
    using i e by (simp add: lpValidateNext_pos)
  moreover have "validate_entries (lp_block n es rest) (7 + length (concat es)) m None u (Some (lp_pos es (Suc i))) (c + 1) =
      Some (Some (lp_pos es (length es)), c + 1 + (length es - Suc i))"
    using Suc i d by (intro Suc.hyps(1)) simp_all
  moreover have "(c + 1) mod 2 ^ 32 = c + 1" using Suc.prems i by simp
  ultimately show ?case
    using i by (subst validate_entries.simps) (simp add: Let_def)
qed

text \<open>A block is its header, its middle and its last byte.\<close>

lemma block_of_valid:
  assumes "7 \<le> length lp" "lpGetTotalBytes lp = length lp" "lp ! (length lp - 1) = LP_EOF"
    "chunk lp 6 (length lp - 7) = concat es"
  shows "lp = lp_block (lpGetNumElements lp) es []"
proof -
  define h n x where "h = take 4 lp" and "n = take 2 (drop 4 lp)" and "x = drop 6 lp"
  have lp: "lp = h @ n @ x"
  proof -
    have "drop 6 lp = drop 2 (drop 4 lp)" by simp
    then show ?thesis unfolding h_def n_def x_def by (simp only: append_take_drop_id)
  qed
  have len: "length h = 4" "length n = 2" using assms(1) by (simp_all add: h_def n_def)
  have x: "x = concat es @ [LP_EOF]"
  proof -
    have "length x = Suc (length lp - 7)" using assms(1) by (simp add: x_def)
    then have "x = take (length lp - 7) x @ [x ! (length lp - 7)]"
      using take_Suc_conv_app_nth [of "length lp - 7" x] by simp
    moreover have "take (length lp - 7) x = concat es" using assms(4) by (simp add: chunk_def x_def)
    moreover have "x ! (length lp - 7) = LP_EOF" using assms(1,3) by (simp add: x_def)
    ultimately show ?thesis by simp
  qed
  have "lpGetTotalBytes lp = le_nat h" "lpGetNumElements lp = le_nat n"
    unfolding lp using len header_fields by blast+
  moreover have "length lp = 7 + length (concat es)" using lp x len by simp
  ultimately have "h = le_bytes 4 (7 + length (concat es))" "n = le_bytes 2 (lpGetNumElements lp)"
    using assms(2) le_bytes_le_nat [of 4 h] le_bytes_le_nat [of 2 n] len by simp_all
  then show ?thesis using lp x unfolding lp_block_def by simp
qed

lemma lpValidateIntegrity_sound:
  assumes "lpValidateIntegrity lp (length lp) True cb u"
  obtains es where "lp = lp_block (lpGetNumElements lp) es []" "lp_entries_weak es"
    "7 + length (concat es) < 2 ^ 32"
    "lpGetNumElements lp = LP_HDR_NUMELE_UNKNOWN \<or> lpGetNumElements lp = length es"
proof -
  let ?b = "length lp"
  from assms obtain r c where v: "7 \<le> ?b" "lpGetTotalBytes lp = ?b" "lp ! (?b - 1) = LP_EOF"
    "validate_entries lp ?b (lpGetNumElements lp) cb u (Some 6) 0 = Some (r, c)" "r = Some (?b - 1)"
    "lpGetNumElements lp = LP_HDR_NUMELE_UNKNOWN \<or> lpGetNumElements lp = c"
    by (auto simp: lpValidateIntegrity_def LP_HDR_SIZE_def Let_def split: if_splits option.splits)
  from validate_entries_sound [OF v(4)] v(1,5) obtain es where
    es: "chunk lp 6 (?b - 1 - 6) = concat es" "c = length es mod 2 ^ 32" "lp_entries_weak es"
    by auto
  have "?b - 1 - 6 = ?b - 7" by simp
  then have blk: "lp = lp_block (lpGetNumElements lp) es []"
    using block_of_valid [OF v(1-3)] es(1) by simp
  have lt: "lpGetTotalBytes lp < 2 ^ 32" by (subst blk) simp
  then have "7 + length (concat es) < 2 ^ 32" using blk v(2) by (metis add.right_neutral list.size(3) lp_block_header(3))
  moreover have "c = length es"
  proof -
    have "2 * length e \<le> length (concat e)" if "list_all (\<lambda>e. 2 \<le> length e) e" for e :: "bytes list"
      using that by (induction e) auto
    moreover have "list_all (\<lambda>e. 2 \<le> length e) es"
      using es(3) lp_entry_size(6) by (cases es) (auto simp: lp_entries_weak_def lp_borrowed_def list_all_iff)
    ultimately have "2 * length es \<le> length (concat es)" by blast
    with \<open>7 + length (concat es) < 2 ^ 32\<close> show ?thesis using es(2) by simp
  qed
  ultimately show ?thesis using that blk es(3) v(6) by blast
qed

lemma lpValidateIntegrity_complete:
  assumes "lp_fits n es"
  shows "lpValidateIntegrity (lp_block n es []) (length (lp_block n es [])) True None u"
proof -
  let ?lp = "lp_block n es []"
  have len: "length ?lp = 7 + length (concat es)" by simp
  have T: "lpGetTotalBytes ?lp = length ?lp" using assms by (simp add: lp_fits_def)
  have eof: "?lp ! (length ?lp - 1) = LP_EOF" using lp_block_nth(2) [of n es "[]"] by (simp add: lp_pos_end)
  have n: "lpGetNumElements ?lp = n" using assms by (simp add: lp_fits_def)
  have "validate_entries ?lp (7 + length (concat es)) n None u (Some (lp_pos es 0)) 0 =
      Some (Some (lp_pos es (length es)), 0 + (length es - 0))"
    using assms lp_fits_length [OF assms] by (intro validate_entries_complete) (simp_all add: lp_fits_def)
  then have "validate_entries ?lp (length ?lp) n None u (Some LP_HDR_SIZE) 0 = Some (Some (length ?lp - 1), length es)"
    by (simp add: lp_pos_end LP_HDR_SIZE_def)
  then show ?thesis
    using T eof n assms unfolding lpValidateIntegrity_def by (simp add: Let_def LP_HDR_SIZE_def lp_fits_def)
qed


section \<open>No read past the end\<close>

lemma lp_size_prefix:
  assumes "p < length lp" "p + lpCurrentEncodedSizeBytes (lp ! p) \<le> length lp"
  shows "lpCurrentEncodedSizeUnsafe (drop p (lp @ x)) = lpCurrentEncodedSizeUnsafe (drop p lp)"
proof -
  have "drop p (lp @ x) = drop p lp @ x" using assms(1) by simp
  moreover have "lpCurrentEncodedSizeUnsafe (drop p lp @ x) = lpCurrentEncodedSizeUnsafe (drop p lp)"
    using assms by (intro lp_size_append) (simp_all add: le_diff_conv2)
  ultimately show ?thesis by simp
qed

lemma lpDecodeBacklen_prefix: "p < length lp \<Longrightarrow> lpDecodeBacklen (lp @ x) p = lpDecodeBacklen lp p"
  by (simp add: lpDecodeBacklen_def nth_append Let_def less_imp_diff_less)

lemma lpValidateNext_prefix:
  assumes "b \<le> length lp"
  shows "lpValidateNext (lp @ x) pp b = lpValidateNext lp pp b"
proof (cases pp)
  case (Some p)
  show ?thesis
  proof (cases "p < LP_HDR_SIZE \<or> p > b - 1")
    case True
    then show ?thesis using Some by (simp add: lpValidateNext_def)
  next
    case in_range: False
    then have p: "p < length lp" "b - 1 < length lp" using assms by (auto simp: LP_HDR_SIZE_def)
    then have nth: "(lp @ x) ! p = lp ! p" by (simp add: nth_append)
    show ?thesis
    proof (cases "p + lpCurrentEncodedSizeBytes (lp ! p) > b - 1")
      case True
      then show ?thesis using Some nth by (simp add: lpValidateNext_def Let_def)
    next
      case False
      then have size: "lpCurrentEncodedSizeUnsafe (drop p (lp @ x)) = lpCurrentEncodedSizeUnsafe (drop p lp)"
        using p by (intro lp_size_prefix) linarith+
      define q where "q = p + (lpCurrentEncodedSizeUnsafe (drop p lp) +
        lpEncodeBacklenBytes (lpCurrentEncodedSizeUnsafe (drop p lp)))"
      have "lpDecodeBacklen (lp @ x) (q - 1) = lpDecodeBacklen lp (q - 1)" if "\<not> q > b - 1"
        using that p(2) by (intro lpDecodeBacklen_prefix) linarith
      then show ?thesis
        unfolding Some lpValidateNext_def Let_def option.case nth size q_def [symmetric]
        by (cases "b - 1 < q") simp_all
    qed
  qed
qed (simp add: lpValidateNext_def)

lemma validate_entries_prefix:
  assumes "b \<le> length lp" "case p of None \<Rightarrow> True | Some q \<Rightarrow> q < b"
  shows "validate_entries (lp @ x) b n cb u p c = validate_entries lp b n cb u p c"
  using assms
proof (induction lp b n cb u p c rule: validate_entries.induct)
  case (1 lp b n cb u p c)
  show ?case
  proof (cases p)
    case None
    then show ?thesis by (simp add: validate_entries.simps)
  next
    case (Some prev)
    then have nth: "(lp @ x) ! prev = lp ! prev" using "1.prems" by (simp add: nth_append)
    show ?thesis
    proof (cases "lp ! prev = LP_EOF")
      case True
      then show ?thesis using Some nth by (simp add: validate_entries.simps)
    next
      case eof: False
      show ?thesis
      proof (cases "lpValidateNext lp p b")
        case None
        then show ?thesis using Some nth eof lpValidateNext_prefix [OF "1.prems"(1)] by (simp add: validate_entries.simps)
      next
        case (Some q)
        obtain ok u' where u: "(case cb of None \<Rightarrow> (True, u) | Some cb \<Rightarrow> cb prev n u) = (ok, u')" by fastforce
        have "case q of None \<Rightarrow> True | Some r \<Rightarrow> r < b"
          using lpValidateNext_progress Some \<open>p = Some prev\<close> by (auto split: option.splits)
        then have "\<not> \<not> ok \<Longrightarrow> validate_entries (lp @ x) b n cb u' q ((c + 1) mod 2 ^ 32) =
            validate_entries lp b n cb u' q ((c + 1) mod 2 ^ 32)"
          using "1.IH" [OF \<open>p = Some prev\<close> eof Some u [symmetric]] "1.prems"(1) by simp
        then show ?thesis
          using \<open>p = Some prev\<close> nth eof Some u lpValidateNext_prefix [OF "1.prems"(1), of x p]
          by (subst (1 2) validate_entries.simps) simp
      qed
    qed
  qed
qed

section \<open>Properties\<close>

text \<open>
  Property C12: a block that the deep validation accepts, with or without a caller's test of its
  entries, is a header with the right sizes followed by complete entries and the end mark; every
  entry is well formed, but the first may be \<open>lp_borrowed\<close>.
\<close>

theorem lpValidateIntegrity_accepts:
  assumes "lpValidateIntegrity lp (length lp) True cb u"
  shows "\<exists>es. lp = lp_block (lpGetNumElements lp) es [] \<and> lp_entries_weak es
    \<and> (lpGetNumElements lp = LP_HDR_NUMELE_UNKNOWN \<or> lpGetNumElements lp = length es)
    \<and> (es = [] \<or> hd es \<noteq> lp_borrowed \<longrightarrow> lp_repr lp es)"
proof -
  obtain es where es: "lp = lp_block (lpGetNumElements lp) es []" "lp_entries_weak es"
    "7 + length (concat es) < 2 ^ 32"
    "lpGetNumElements lp = LP_HDR_NUMELE_UNKNOWN \<or> lpGetNumElements lp = length es"
    using lpValidateIntegrity_sound [OF assms] by blast
  have "lpGetNumElements lp < 2 ^ 16" by (subst es(1)) simp
  then have "lp_fits (lpGetNumElements lp) es" if "list_all lp_entry es"
    using es that by (simp add: lp_fits_def)
  moreover have "list_all lp_entry es" if "es = [] \<or> hd es \<noteq> lp_borrowed"
    using es(2) that by (cases es) (auto simp: lp_entries_weak_def)
  ultimately have "lp_repr lp es" if "es = [] \<or> hd es \<noteq> lp_borrowed"
    using es(1) that unfolding lp_repr_def by blast
  with es show ?thesis by blast
qed

theorem lpValidateIntegrity_accepts_witness:
  "\<exists>es. lp_block 1 [lp_make [5]] [] = lp_block (lpGetNumElements (lp_block 1 [lp_make [5]] [])) es [] \<and> lp_entries_weak es"
proof -
  have "lp_entry (lp_make (lpEncodeIntegerGetType 5))" by (rule lp_make_int) (simp add: fits_signed_def)
  then have "lp_entry (lp_make [5])" by (simp add: lpEncodeIntegerGetType_def)
  moreover have "length (lp_make [5]) = 2" by (simp add: lp_make_def length_lpEncodeBacklen lpEncodeBacklenBytes_def)
  ultimately have "lp_fits 1 [lp_make [5]]" by (simp add: lp_fits_def)
  from lpValidateIntegrity_accepts [OF lpValidateIntegrity_complete [OF this]] show ?thesis by blast
qed

text \<open>
  the validation never reads outside the block it is given: bytes after the end have
  no effect on the result.
\<close>

theorem lpValidateIntegrity_local:
  "lpValidateIntegrity (lp @ x) (length lp) deep cb u = lpValidateIntegrity lp (length lp) deep cb u"
proof (cases "length lp < LP_HDR_SIZE + 1")
  case False
  then have len: "7 \<le> length lp" by (simp add: LP_HDR_SIZE_def)
  then have nth: "(lp @ x) ! i = lp ! i" if "i < 7 \<or> i = length lp - 1" for i
    using that by (auto simp: nth_append)
  then have hdr: "lpGetTotalBytes (lp @ x) = lpGetTotalBytes lp" "lpGetNumElements (lp @ x) = lpGetNumElements lp"
    by (simp_all add: lpGetTotalBytes_def lpGetNumElements_def)
  have "validate_entries (lp @ x) (length lp) n cb u (Some LP_HDR_SIZE) 0 =
      validate_entries lp (length lp) n cb u (Some LP_HDR_SIZE) 0" for n
    using len by (intro validate_entries_prefix) (simp_all add: LP_HDR_SIZE_def)
  then show ?thesis unfolding lpValidateIntegrity_def hdr using nth [of "length lp - 1"] by (simp add: Let_def)
qed (simp add: lpValidateIntegrity_def)

end
