(* ===== verification/Lp_Update.thy ===== *)
theory Lp_Update
  imports Lp_Validate
begin

text \<open>
  \<open>listpack.c\<close>, third part: the operations that change a listpack. The block is the list of its
  allocated bytes, so \<open>lp_malloc_size\<close> is its length and \<open>lp_realloc\<close> is \<open>zrealloc\<close>, which in the
  server ends the process rather than fail. Each operation is shown to be the expected operation
  on the list of entries.
\<close>

section \<open>Creation and size\<close>

definition lpNew :: "nat \<Rightarrow> bytes" where
  "lpNew capacity =
     (let lp = replicate (if capacity > LP_HDR_SIZE + 1 then capacity else LP_HDR_SIZE + 1) 0;
          lp = lpSetTotalBytes lp (LP_HDR_SIZE + 1);
          lp = lpSetNumElements lp 0
      in lp[LP_HDR_SIZE := LP_EOF])"

definition lpShrinkToFit :: "bytes \<Rightarrow> bytes" where
  "lpShrinkToFit lp =
     (let sz = lpGetTotalBytes lp in if sz < length lp then zrealloc lp sz else lp)"

definition lpDup :: "bytes \<Rightarrow> bytes" where
  "lpDup lp = (let lpbytes = lpBytes lp in blit (replicate lpbytes 0) 0 (take lpbytes lp))"

section \<open>Insertion, replacement, deletion of one element\<close>

datatype lp_where = LP_BEFORE | LP_AFTER | LP_REPLACE

definition ASSERT_INTEGRITY :: "bytes \<Rightarrow> nat \<Rightarrow> bool" where
  "ASSERT_INTEGRITY lp p \<longleftrightarrow> p \<ge> LP_HDR_SIZE \<and> p < lpGetTotalBytes lp"

definition ASSERT_INTEGRITY_LEN :: "bytes \<Rightarrow> nat \<Rightarrow> nat \<Rightarrow> bool" where
  "ASSERT_INTEGRITY_LEN lp p len \<longleftrightarrow> p \<ge> LP_HDR_SIZE \<and> p + len < lpGetTotalBytes lp"

text \<open>The bytes to store and \<open>enclen\<close>, for a string, an encoded integer, or neither.\<close>

definition lp_encoded_arg :: "bytes option \<Rightarrow> bytes option \<Rightarrow> bytes \<times> nat" where
  "lp_encoded_arg elestr eleint =
     (case elestr of
        Some s \<Rightarrow>
          (case lpEncodeGetType s of
             (LP_ENCODING_INT, intenc, enclen) \<Rightarrow> (intenc, enclen)
           | (LP_ENCODING_STRING, intenc, enclen) \<Rightarrow> (lpEncodeString s, enclen))
      | None \<Rightarrow> (case eleint of Some i \<Rightarrow> (i, length i) | None \<Rightarrow> ([], 0)))"

text \<open>The part of \<open>lpInsert\<close> that makes the exact room: it reallocates before the move when the block
  grows, and after it when the block shrinks.\<close>

definition lp_relocate :: "bytes \<Rightarrow> lp_where \<Rightarrow> nat \<Rightarrow> nat \<Rightarrow> nat \<Rightarrow> nat \<Rightarrow> nat \<Rightarrow> bytes" where
  "lp_relocate lp whr poff added replaced_len old_bytes new_bytes =
     (let lp = (if new_bytes > old_bytes \<and> new_bytes > length lp then zrealloc lp new_bytes else lp);
          lp = (if whr = LP_BEFORE then memmove lp (poff + added) poff (old_bytes - poff)
                else memmove lp (poff + added) (poff + replaced_len) (old_bytes - poff - replaced_len))
      in if new_bytes < old_bytes then zrealloc lp new_bytes else lp)"

text \<open>Its last part, the update of the header.\<close>

definition lp_update_header :: "bytes \<Rightarrow> lp_where \<Rightarrow> bool \<Rightarrow> nat \<Rightarrow> bytes" where
  "lp_update_header lp whr del new_bytes =
     (let num_elements = lpGetNumElements lp;
          lp = (if (whr \<noteq> LP_REPLACE \<or> del) \<and> num_elements \<noteq> LP_HDR_NUMELE_UNKNOWN then
                  if \<not> del then lpSetNumElements lp (num_elements + 1)
                  else lpSetNumElements lp ((num_elements + (2 ^ 32 - 1)) mod 2 ^ 32)
                else lp)
      in lpSetTotalBytes lp new_bytes)"

text \<open>\<open>Ok None\<close> is the return of \<open>NULL\<close>; otherwise the block and \<open>*newp\<close>.\<close>

definition lpInsert ::
  "bytes \<Rightarrow> bytes option \<Rightarrow> bytes option \<Rightarrow> nat \<Rightarrow> lp_where \<Rightarrow> (bytes \<times> nat option) option outcome" where
  "lpInsert lp elestr eleint p whr =
     (let del = (elestr = None \<and> eleint = None);
          whr = (if del then LP_REPLACE else whr);
          after = (whr = LP_AFTER);
          p = (if after then lpSkip lp p else p);
          whr = (if after then LP_BEFORE else whr)
      in c_assert (\<not> after \<or> ASSERT_INTEGRITY lp p)
        (let poff = p;
             (enc, enclen) = lp_encoded_arg elestr eleint;
             backlen = (if \<not> del then lpEncodeBacklen enclen else []);
             old_bytes = lpGetTotalBytes lp;
             replaced_len =
               (if whr = LP_REPLACE then
                  let r = lpCurrentEncodedSizeUnsafe (drop p lp) in (r + lpEncodeBacklenBytes r) mod 2 ^ 32
                else 0)
         in c_assert (whr \<noteq> LP_REPLACE \<or> ASSERT_INTEGRITY_LEN lp p replaced_len)
           (let new_bytes = old_bytes + enclen + length backlen - replaced_len
            in if new_bytes > UINT32_MAX then Ok None
               else
                 let lp = lp_relocate lp whr poff (enclen + length backlen) replaced_len old_bytes new_bytes;
                     newp = (if del \<and> lp ! poff = LP_EOF then None else Some poff);
                     lp = (if \<not> del then blit (blit lp poff enc) (poff + enclen) backlen else lp)
                 in Ok (Some (lp_update_header lp whr del new_bytes, newp)))))"

definition lpInsertString :: "bytes \<Rightarrow> bytes \<Rightarrow> nat \<Rightarrow> lp_where \<Rightarrow> (bytes \<times> nat option) option outcome" where
  "lpInsertString lp s p whr = lpInsert lp (Some s) None p whr"

definition lpInsertInteger :: "bytes \<Rightarrow> int \<Rightarrow> nat \<Rightarrow> lp_where \<Rightarrow> (bytes \<times> nat option) option outcome" where
  "lpInsertInteger lp lval p whr = lpInsert lp None (Some (lpEncodeIntegerGetType lval)) p whr"

definition lpAppend :: "bytes \<Rightarrow> bytes \<Rightarrow> (bytes \<times> nat option) option outcome" where
  "lpAppend lp ele =
     (let listpack_bytes = lpGetTotalBytes lp; eofptr = listpack_bytes - 1
      in lpInsert lp (Some ele) None eofptr LP_BEFORE)"

definition lpAppendInteger :: "bytes \<Rightarrow> int \<Rightarrow> (bytes \<times> nat option) option outcome" where
  "lpAppendInteger lp lval =
     (let listpack_bytes = lpGetTotalBytes lp; eofptr = listpack_bytes - 1
      in lpInsertInteger lp lval eofptr LP_BEFORE)"

definition lpPrepend :: "bytes \<Rightarrow> bytes \<Rightarrow> (bytes \<times> nat option) option outcome" where
  "lpPrepend lp s =
     bind_outcome (lpFirst lp) (\<lambda>p.
       case p of None \<Rightarrow> lpAppend lp s | Some p \<Rightarrow> lpInsert lp (Some s) None p LP_BEFORE)"

definition lpPrependInteger :: "bytes \<Rightarrow> int \<Rightarrow> (bytes \<times> nat option) option outcome" where
  "lpPrependInteger lp lval =
     bind_outcome (lpFirst lp) (\<lambda>p.
       case p of None \<Rightarrow> lpAppendInteger lp lval | Some p \<Rightarrow> lpInsertInteger lp lval p LP_BEFORE)"

definition lpReplace :: "bytes \<Rightarrow> nat \<Rightarrow> bytes \<Rightarrow> (bytes \<times> nat option) option outcome" where
  "lpReplace lp p s = lpInsert lp (Some s) None p LP_REPLACE"

definition lpReplaceInteger :: "bytes \<Rightarrow> nat \<Rightarrow> int \<Rightarrow> (bytes \<times> nat option) option outcome" where
  "lpReplaceInteger lp p lval = lpInsertInteger lp lval p LP_REPLACE"

definition lpDelete :: "bytes \<Rightarrow> nat \<Rightarrow> (bytes \<times> nat option) option outcome" where
  "lpDelete lp p = lpInsert lp None None p LP_REPLACE"

section \<open>Insertion of several elements\<close>

text \<open>One encoded entry of the array \<open>enc\<close>: the bytes, \<open>enclen\<close> and the length field.\<close>

definition lp_batch_encode :: "lp_value \<Rightarrow> bytes \<times> nat \<times> bytes" where
  "lp_batch_encode e =
     (let (enc, enclen) =
        (case e of
           Lp_String s \<Rightarrow> lp_encoded_arg (Some s) None
         | Lp_Integer v \<Rightarrow> (lpEncodeIntegerGetType v, length (lpEncodeIntegerGetType v)))
      in (enc, enclen, lpEncodeBacklen enclen))"

fun batch_added :: "(bytes \<times> nat \<times> bytes) list \<Rightarrow> nat \<Rightarrow> nat" where
  "batch_added [] addedlen = addedlen"
| "batch_added ((enc, enclen, backlen) # es) addedlen = batch_added es (addedlen + enclen + length backlen)"

text \<open>The loop that stores the entries from \<open>dst\<close> on; \<open>newp\<close> is the last one stored.\<close>

fun batch_store :: "bytes \<Rightarrow> nat \<Rightarrow> (bytes \<times> nat \<times> bytes) list \<Rightarrow> nat option \<Rightarrow> bytes \<times> nat option" where
  "batch_store lp dst [] newp = (lp, newp)"
| "batch_store lp dst ((enc, enclen, backlen) # es) newp =
     (let lp = blit lp dst enc;
          lp = blit lp (dst + enclen) backlen
      in batch_store lp (dst + enclen + length backlen) es (Some dst))"

definition lpBatchInsert ::
  "bytes \<Rightarrow> nat \<Rightarrow> lp_where \<Rightarrow> lp_value list \<Rightarrow> (bytes \<times> nat option) option outcome" where
  "lpBatchInsert lp p whr entries =
     c_assert (whr = LP_BEFORE \<or> whr = LP_AFTER) (c_assert (length entries > 0)
       (let after = (whr = LP_AFTER);
            p = (if after then lpSkip lp p else p)
        in c_assert (\<not> after \<or> ASSERT_INTEGRITY lp p)
          (let enc = map lp_batch_encode entries;
               addedlen = batch_added enc 0;
               old_bytes = lpGetTotalBytes lp;
               new_bytes = old_bytes + addedlen
           in if new_bytes > UINT32_MAX then Ok None
              else
                let poff = p;
                    lp = (if new_bytes > old_bytes \<and> new_bytes > length lp then zrealloc lp new_bytes else lp);
                    lp = memmove lp (poff + addedlen) poff (old_bytes - poff);
                    (lp, newp) = batch_store lp poff enc None;
                    num_elements = lpGetNumElements lp;
                    lp = (if num_elements \<noteq> LP_HDR_NUMELE_UNKNOWN then
                            if int (length entries) > int LP_HDR_NUMELE_UNKNOWN - int num_elements
                            then lpSetNumElements lp LP_HDR_NUMELE_UNKNOWN
                            else lpSetNumElements lp (num_elements + length entries)
                          else lp);
                    lp = lpSetTotalBytes lp new_bytes
                in Ok (Some (lp, newp)))))"

definition lpBatchAppend :: "bytes \<Rightarrow> lp_value list \<Rightarrow> (bytes \<times> nat option) option outcome" where
  "lpBatchAppend lp entries =
     (let listpack_bytes = lpGetTotalBytes lp; eofptr = listpack_bytes - 1
      in lpBatchInsert lp eofptr LP_BEFORE entries)"

section \<open>Deletion of ranges\<close>

text \<open>The loop over the entries to delete: the pointer after them, and how many they are.\<close>

fun delete_skip :: "bytes \<Rightarrow> nat \<Rightarrow> nat \<Rightarrow> nat \<Rightarrow> nat \<Rightarrow> (nat \<times> nat) outcome" where
  "delete_skip lp bytes tail 0 deleted = Ok (tail, deleted)"
| "delete_skip lp bytes tail (Suc num) deleted =
     (let deleted = deleted + 1;
          tail = lpSkip lp tail
      in if lp ! tail = LP_EOF then Ok (tail, deleted)
         else c_assert (lpAssertValidEntry lp bytes tail) (delete_skip lp bytes tail num deleted))"

text \<open>The block and \<open>*p\<close>.\<close>

definition lpDeleteRangeWithEntry :: "bytes \<Rightarrow> nat \<Rightarrow> nat \<Rightarrow> (bytes \<times> nat option) outcome" where
  "lpDeleteRangeWithEntry lp p num =
     (let bytes = lpBytes lp; eofptr = bytes - 1; first = p in
      if num = 0 then Ok (lp, Some p)
      else
        bind_outcome (delete_skip lp bytes first num 0) (\<lambda>(tail, deleted).
          let poff = first;
              lp = memmove lp first tail (eofptr - tail + 1);
              lp = lpSetTotalBytes lp (bytes - (tail - first));
              numele = lpGetNumElements lp;
              lp = (if numele \<noteq> LP_HDR_NUMELE_UNKNOWN
                    then lpSetNumElements lp (c_unsigned 32 (int numele - int deleted)) else lp);
              lp = lpShrinkToFit lp
          in Ok (lp, if lp ! poff = LP_EOF then None else Some poff)))"

definition lpDeleteRange :: "bytes \<Rightarrow> int \<Rightarrow> nat \<Rightarrow> bytes outcome" where
  "lpDeleteRange lp index num =
     (let numele = lpGetNumElements lp in
      if num = 0 then Ok lp
      else bind_outcome (lpSeek lp index) (\<lambda>p.
        case p of
          None \<Rightarrow> Ok lp
        | Some p \<Rightarrow>
            let index = (if numele \<noteq> LP_HDR_NUMELE_UNKNOWN \<and> index < 0 then int numele + index else index)
            in if numele \<noteq> LP_HDR_NUMELE_UNKNOWN \<and> c_unsigned 64 (int numele - index) \<le> num then
                 let lp = lp[p := LP_EOF];
                     lp = lpSetTotalBytes lp (p + 1);
                     lp = lpSetNumElements lp (nat index)
                 in Ok (lpShrinkToFit lp)
               else bind_outcome (lpDeleteRangeWithEntry lp p num) (\<lambda>(lp, p). Ok lp)))"

text \<open>\<open>lpBatchDelete\<close>: the loop over the pointers, with the end of what has been kept.\<close>

fun batch_delete_loop :: "bytes \<Rightarrow> nat list \<Rightarrow> nat \<Rightarrow> nat \<Rightarrow> (bytes \<times> nat) outcome" where
  "batch_delete_loop lp [] lp_end dst = Ok (lp, dst)"
| "batch_delete_loop lp (skp # ps) lp_end dst =
     c_assert (lp ! skp \<noteq> LP_EOF)
       (let keep_start = lpSkip lp skp in
        if ps \<noteq> [] \<and> keep_start = hd ps then batch_delete_loop lp ps lp_end dst
        else
          let keep_end = (if ps \<noteq> [] then hd ps else lp_end)
          in c_assert (keep_end > keep_start)
            (let bytes_to_keep = keep_end - keep_start;
                 lp = memmove lp dst keep_start bytes_to_keep
             in batch_delete_loop lp ps lp_end (dst + bytes_to_keep)))"

definition lpBatchDelete :: "bytes \<Rightarrow> nat list \<Rightarrow> bytes outcome" where
  "lpBatchDelete lp ps =
     (if ps = [] then Ok lp
      else
        let total_bytes = lpGetTotalBytes lp; lp_end = total_bytes in
        c_assert (lp ! (lp_end - 1) = LP_EOF)
          (bind_outcome (batch_delete_loop lp ps lp_end (hd ps)) (\<lambda>(lp, dst).
             let deleted_bytes = lp_end - dst;
                 total_bytes = total_bytes - deleted_bytes
             in c_assert (lp ! (total_bytes - 1) = LP_EOF)
               (let lp = lpSetTotalBytes lp total_bytes;
                    numele = lpGetNumElements lp;
                    lp = (if numele \<noteq> LP_HDR_NUMELE_UNKNOWN
                          then lpSetNumElements lp (c_unsigned 32 (int numele - int (length ps))) else lp)
                in Ok (lpShrinkToFit lp)))))"

section \<open>Merge\<close>

text \<open>
  The two arguments are the blocks \<open>*first\<close> and \<open>*second\<close>; \<open>same\<close> says that the pointers are equal.
  The result is the merged block with \<open>*first\<close> and \<open>*second\<close> after the call.
\<close>

definition lpMerge ::
  "bool \<Rightarrow> bytes option \<Rightarrow> bytes option \<Rightarrow> (bytes \<times> bytes option \<times> bytes option) option outcome" where
  "lpMerge same first second =
     (case (first, second) of
        (Some f, Some s) \<Rightarrow>
          if same then Ok None
          else
            let first_bytes = lpBytes f in
            bind_outcome (lpLength f) (\<lambda>(first_len, f).
            let second_bytes = lpBytes s in
            bind_outcome (lpLength s) (\<lambda>(second_len, s).
            let append = (first_bytes \<ge> second_bytes);
                target = (if append then f else s);
                source = (if append then s else f);
                target_bytes = (if append then first_bytes else second_bytes);
                source_bytes = (if append then second_bytes else first_bytes);
                lpbytes = first_bytes + second_bytes - LP_HDR_SIZE - 1
            in c_assert (lpbytes < UINT32_MAX)
              (let lplength = first_len + second_len;
                   lplength = (if lplength < 2 ^ 16 - 1 then lplength else 2 ^ 16 - 1);
                   target = zrealloc target lpbytes;
                   target =
                     (if append then
                        blit target (target_bytes - 1) (chunk source LP_HDR_SIZE (source_bytes - LP_HDR_SIZE))
                      else
                        blit (memmove target (source_bytes - 1) LP_HDR_SIZE (target_bytes - LP_HDR_SIZE)) 0
                          (chunk source 0 (source_bytes - 1)));
                   target = lpSetNumElements target lplength;
                   target = lpSetTotalBytes target lpbytes
               in Ok (Some (if append then (target, Some target, None) else (target, None, Some target))))))
      | _ \<Rightarrow> Ok None)"


section \<open>Moving the tail of a block\<close>

lemma UINT32_MAX_less: "x > UINT32_MAX \<longleftrightarrow> \<not> x < 2 ^ 32"
  unfolding UINT32_MAX_def by auto

lemma blit_at: "length y = length x \<Longrightarrow> p = length a \<Longrightarrow> blit (a @ y @ c) p x = a @ x @ c"
  by (simp add: blit_def)

lemma zrealloc_grow: "length m \<le> n \<Longrightarrow> zrealloc m n = m @ replicate (n - length m) 0"
  by (simp add: zrealloc_def)

lemma zrealloc_shrink: "n \<le> length m \<Longrightarrow> zrealloc m n = take n m"
  by (simp add: zrealloc_def)

text \<open>The room for \<open>k\<close> bytes in place of \<open>mid\<close>: growing before the move, shrinking after it.\<close>

lemma splice_room:
  fixes a mid b rest :: bytes and k :: nat
  defines "old \<equiv> length (a @ mid @ b)" and "nw \<equiv> length a + k + length b" and "lp \<equiv> a @ mid @ b @ rest"
  defines "m1 \<equiv> if nw > old \<and> nw > length lp then zrealloc lp nw else lp"
  defines "m2 \<equiv> memmove m1 (length a + k) (length a + length mid) (length b)"
  defines "m3 \<equiv> if nw < old then zrealloc m2 nw else m2"
  shows "\<exists>y rest'. m3 = a @ y @ b @ rest' \<and> length y = k"
proof -
  obtain rest1 where m1: "m1 = a @ mid @ b @ rest1" and len: "nw \<le> length m1"
  proof (cases "nw > old \<and> nw > length lp")
    case True
    then have "m1 = a @ mid @ b @ (rest @ replicate (nw - length lp) 0)"
      by (simp add: m1_def zrealloc_grow lp_def)
    moreover have "nw \<le> length m1" using True by (simp add: m1_def)
    ultimately show ?thesis using that by blast
  next
    case False
    then have "m1 = a @ mid @ b @ rest" by (simp only: m1_def lp_def if_False)
    moreover have "nw \<le> length m1" using False by (auto simp: m1_def lp_def old_def)
    ultimately show ?thesis using that by blast
  qed
  have src: "chunk m1 (length a + length mid) (length b) = b"
    unfolding m1 by (simp add: chunk_def)
  define y where "y = take k (mid @ b @ rest1)"
  have y: "length y = k" using len by (simp add: y_def m1 nw_def)
  have "take (length a + k) m1 = a @ y" by (simp add: m1 y_def)
  then have m2: "m2 = a @ y @ b @ drop (length a + k + length b) m1"
    by (simp add: m2_def memmove_def src blit_def)
  show ?thesis
  proof (cases "nw < old")
    case True
    have "nw \<le> length m2" using y by (simp add: m2 nw_def)
    then have "m3 = take nw m2" using True by (simp add: m3_def zrealloc_shrink)
    also have "\<dots> = a @ y @ b @ []" using y by (simp add: m2 nw_def)
    finally show ?thesis using y by blast
  next
    case False
    then have "m3 = m2" by (simp add: m3_def)
    with m2 y show ?thesis by blast
  qed
qed

lemma splice_store:
  assumes "m = a @ y @ b" "length y = length x1 + length x2" "p = length a"
  shows "blit (blit m p x1) (p + length x1) x2 = a @ x1 @ x2 @ b"
proof -
  define y1 y2 where "y1 = take (length x1) y" and "y2 = drop (length x1) y"
  have y: "y = y1 @ y2" "length y1 = length x1" "length y2 = length x2"
    using assms(2) by (simp_all add: y1_def y2_def)
  have "blit m p x1 = a @ x1 @ y2 @ b"
    unfolding assms(1) y(1) using blit_at [of y1 x1 p a "y2 @ b"] y assms(3) by simp
  then show ?thesis
    using blit_at [of y2 x2 "p + length x1" "a @ x1" b] y assms(3) by simp
qed

text \<open>Writing the header turns the bytes around new entries into a block again.\<close>

lemma set_header:
  fixes n t :: nat and es :: "bytes list" and rest :: bytes
  defines "m \<equiv> le_bytes 4 t @ le_bytes 2 n @ concat es @ LP_EOF # rest"
  shows "lpSetTotalBytes m (7 + length (concat es)) = lp_block n es rest"
    "lpSetTotalBytes (lpSetNumElements m k) (7 + length (concat es)) = lp_block k es rest"
    "lpGetNumElements m = n mod 2 ^ 16"
proof -
  show "lpSetTotalBytes m (7 + length (concat es)) = lp_block n es rest"
    unfolding m_def header_fields(3) [OF length_le_bytes length_le_bytes [of 2 0]] lp_block_def ..
  show "lpSetTotalBytes (lpSetNumElements m k) (7 + length (concat es)) = lp_block k es rest"
    unfolding m_def header_fields(4) [OF length_le_bytes length_le_bytes]
      header_fields(3) [OF length_le_bytes length_le_bytes [of 2 0]] lp_block_def ..
  show "lpGetNumElements m = n mod 2 ^ 16"
    unfolding m_def header_fields(2) [OF length_le_bytes length_le_bytes] le_nat_le_bytes by simp
qed

lemma header_nth: "length h = 4 \<Longrightarrow> length n = 2 \<Longrightarrow> (h @ n @ x) ! (6 + k) = x ! k"
  by (simp add: nth_append)

section \<open>The encoded argument\<close>

text \<open>The element an insertion stores: the bytes of \<open>enc\<close> and their length.\<close>

lemma lpEncodeGetType_length:
  "lpEncodeGetType s = (LP_ENCODING_STRING, i, n) \<Longrightarrow> n = length (lpEncodeString s)"
  "lpEncodeGetType s = (LP_ENCODING_INT, i, n) \<Longrightarrow> n = length i"
  by (auto simp: lpEncodeGetType_def lpEncodeString_def Let_def split: option.splits if_splits)

lemma lp_encoded_arg_string: "lp_encoded_arg (Some s) None = (lp_encode s, length (lp_encode s))"
  by (auto simp: lp_encoded_arg_def lp_encode_def lpEncodeGetType_def lpEncodeString_def Let_def
      split: option.splits)

definition lp_arg :: "bytes option \<Rightarrow> bytes option \<Rightarrow> bytes" where
  "lp_arg elestr eleint = fst (lp_encoded_arg elestr eleint)"

lemma lp_encoded_arg: "lp_encoded_arg elestr eleint = (lp_arg elestr eleint, length (lp_arg elestr eleint))"
  using lp_encoded_arg_string
  by (cases elestr; cases eleint) (simp_all add: lp_arg_def lp_encoded_arg_def split: prod.splits lp_enctype.splits)

section \<open>One element\<close>

definition next_count :: "nat \<Rightarrow> nat \<Rightarrow> nat" where
  "next_count n k =
     (if n = LP_HDR_NUMELE_UNKNOWN then n
      else if n + k \<ge> LP_HDR_NUMELE_UNKNOWN then LP_HDR_NUMELE_UNKNOWN else n + k)"

definition insert_at :: "nat \<Rightarrow> 'a list \<Rightarrow> 'a list \<Rightarrow> 'a list" where
  "insert_at i xs ys = take i ys @ xs @ drop i ys"

lemma lp_update_header_set:
  assumes "n < 2 ^ 16" "lpGetNumElements m = n"
  shows "lp_update_header m LP_BEFORE False t =
      lpSetTotalBytes (if n = LP_HDR_NUMELE_UNKNOWN then m else lpSetNumElements m (next_count n 1)) t"
    "lp_update_header m LP_REPLACE False t = lpSetTotalBytes m t"
    "0 < n \<Longrightarrow> lp_update_header m LP_REPLACE True t =
      lpSetTotalBytes (if n = LP_HDR_NUMELE_UNKNOWN then m else lpSetNumElements m (n - 1)) t"
proof -
  have count: "n \<noteq> LP_HDR_NUMELE_UNKNOWN \<Longrightarrow> next_count n 1 = n + 1"
    using assms(1) by (simp add: next_count_def LP_HDR_NUMELE_UNKNOWN_def)
  show "lp_update_header m LP_BEFORE False t =
      lpSetTotalBytes (if n = LP_HDR_NUMELE_UNKNOWN then m else lpSetNumElements m (next_count n 1)) t"
    using count by (simp add: lp_update_header_def assms(2) Let_def)
  show "lp_update_header m LP_REPLACE False t = lpSetTotalBytes m t"
    by (simp add: lp_update_header_def)
  assume "0 < n"
  then have "n + (2 ^ 32 - 1) = n - 1 + 2 ^ 32" by simp
  then have "(n + (2 ^ 32 - 1)) mod 2 ^ 32 = (n - 1 + 2 ^ 32) mod 2 ^ 32" by (rule arg_cong)
  also have "\<dots> = n - 1" using assms(1) by simp
  finally show "lp_update_header m LP_REPLACE True t =
      lpSetTotalBytes (if n = LP_HDR_NUMELE_UNKNOWN then m else lpSetNumElements m (n - 1)) t"
    by (simp add: lp_update_header_def assms(2) Let_def)
qed

text \<open>The effect of the relocation on a block: the entries from \<open>i\<close> to \<open>j\<close> make room for \<open>k\<close> bytes.\<close>

lemma lp_relocate_block:
  assumes "i \<le> j" "j \<le> length es" "whr = LP_BEFORE \<and> j = i \<or> whr = LP_REPLACE"
  defines "old \<equiv> 7 + length (concat es)" and "r \<equiv> length (concat (take (j - i) (drop i es)))"
  shows "\<exists>y rest'. lp_relocate (lp_block n es rest) whr (lp_pos es i) k r old (old + k - r) =
      le_bytes 4 old @ le_bytes 2 n @ concat (take i es) @ y @ concat (drop j es) @ LP_EOF # rest' \<and> length y = k"
proof -
  define a mid b where "a = le_bytes 4 old @ le_bytes 2 n @ concat (take i es)"
    and "mid = concat (take (j - i) (drop i es))" and "b = concat (drop j es) @ [LP_EOF]"
  have i: "i \<le> length es" using assms by simp
  have "drop i es = take (j - i) (drop i es) @ drop j es"
    using assms(1) append_take_drop_id [of "j - i" "drop i es"] by simp
  then have "concat (drop i es) = mid @ concat (drop j es)"
    unfolding mid_def by (metis concat_append)
  then have lp: "lp_block n es rest = a @ mid @ b @ rest" and a: "lp_pos es i = length a"
    using lp_block_split(1) [OF i, of n rest] lp_block_split(2) [OF i, of n]
    by (simp_all add: a_def b_def old_def)
  have "length (lp_block n es rest) = old + length rest" by (simp add: old_def)
  then have len: "old = length (a @ mid @ b)" unfolding lp by simp
  have r: "r = length mid" by (simp add: r_def mid_def)
  have nw: "old + k - r = length a + k + length b" using len r by simp
  have tail: "old - length a - length mid = length b" using len by simp
  have "lp_relocate (lp_block n es rest) whr (lp_pos es i) k r old (old + k - r) =
    (let lp = (if length a + k + length b > old \<and> length a + k + length b > length (a @ mid @ b @ rest)
               then zrealloc (a @ mid @ b @ rest) (length a + k + length b) else (a @ mid @ b @ rest));
         lp = memmove lp (length a + k) (length a + length mid) (length b)
     in if length a + k + length b < old then zrealloc lp (length a + k + length b) else lp)"
  proof (cases "whr = LP_BEFORE")
    case True
    then have "j = i" using assms(3) by auto
    then have "mid = []" by (simp add: mid_def)
    then show ?thesis unfolding lp_relocate_def nw unfolding lp a r using True tail by simp
  next
    case False
    then show ?thesis unfolding lp_relocate_def nw unfolding lp a r tail by simp
  qed
  then obtain y rest' where "lp_relocate (lp_block n es rest) whr (lp_pos es i) k r old (old + k - r) =
      a @ y @ b @ rest'" "length y = k"
    using splice_room [where a = a and mid = mid and b = b and k = k and rest = rest, folded len]
    unfolding Let_def by (elim exE conjE) simp
  then show ?thesis by (auto simp: a_def b_def)
qed

text \<open>Storing an entry in the room.\<close>

lemma lp_store_block:
  assumes "m = le_bytes 4 t @ le_bytes 2 n @ concat xs @ y @ rest" "length y = length (lp_make enc)"
    "p = 6 + length (concat xs)"
  shows "blit (blit m p enc) (p + length enc) (lpEncodeBacklen (length enc)) =
    le_bytes 4 t @ le_bytes 2 n @ concat xs @ lp_make enc @ rest"
  using splice_store [of m "le_bytes 4 t @ le_bytes 2 n @ concat xs" y rest enc "lpEncodeBacklen (length enc)" p] assms
  by (simp add: lp_make_def)

lemma length_insert_at_concat:
  "length (concat (insert_at i [e] es)) = length (concat es) + length e"
proof -
  have "length (concat es) = length (concat (take i es)) + length (concat (drop i es))"
    by (metis append_take_drop_id concat_append length_append)
  then show ?thesis by (simp add: insert_at_def)
qed

lemma lpInsert_before_block:
  assumes arg: "\<not> (elestr = None \<and> eleint = None)" and i: "i \<le> length es"
    and T: "7 + length (concat es) < 2 ^ 32" and n: "n < 2 ^ 16"
  defines "e \<equiv> lp_make (lp_arg elestr eleint)"
  shows "\<exists>rest'. lpInsert (lp_block n es rest) elestr eleint (lp_pos es i) LP_BEFORE =
    Ok (if 7 + length (concat es) + length e < 2 ^ 32
        then Some (lp_block (next_count n 1) (insert_at i [e] es) rest', Some (lp_pos es i)) else None)"
proof -
  let ?enc = "lp_arg elestr eleint" and ?lp = "lp_block n es rest" and ?p = "lp_pos es i"
  define old where "old = 7 + length (concat es)"
  have elen: "length e = length ?enc + length (lpEncodeBacklen (length ?enc))" by (simp add: e_def lp_make_def)
  have del: "(elestr = None \<and> eleint = None) = False" using arg by simp
  have total: "lpGetTotalBytes ?lp = old" using T by (simp add: old_def)
  obtain y rest' where m: "lp_relocate ?lp LP_BEFORE ?p (length e) 0 old (old + length e) =
      le_bytes 4 old @ le_bytes 2 n @ concat (take i es) @ y @ concat (drop i es) @ LP_EOF # rest'" "length y = length e"
    using lp_relocate_block [of i i es LP_BEFORE n rest "length e"] i by (auto simp: old_def)
  define m' where "m' = blit (blit (lp_relocate ?lp LP_BEFORE ?p (length e) 0 old (old + length e)) ?p ?enc)
    (?p + length ?enc) (lpEncodeBacklen (length ?enc))"
  have "m' = le_bytes 4 old @ le_bytes 2 n @ concat (take i es) @ lp_make ?enc @ concat (drop i es) @ LP_EOF # rest'"
    unfolding m'_def
    using lp_store_block [OF m(1), where enc = ?enc and p = ?p] m(2) by (simp add: e_def lp_pos_def LP_HDR_SIZE_def)
  then have m': "m' = le_bytes 4 old @ le_bytes 2 n @ concat (insert_at i [e] es) @ LP_EOF # rest'"
    by (simp add: insert_at_def e_def)
  have nw: "old + length e = 7 + length (concat (insert_at i [e] es))"
    by (simp add: length_insert_at_concat old_def)
  have num: "lpGetNumElements m' = n" using set_header(3) [of old n "insert_at i [e] es" rest'] n m' by simp
  have upd: "lp_update_header m' LP_BEFORE False (old + length e) = lp_block (next_count n 1) (insert_at i [e] es) rest'"
    using set_header(1,2) [of old n "insert_at i [e] es" rest'] m' nw
    unfolding lp_update_header_set(1) [OF n num] by (auto simp: next_count_def)
  have ins: "lpInsert ?lp elestr eleint ?p LP_BEFORE =
    (if old + length e > UINT32_MAX then Ok None
     else Ok (Some (lp_update_header m' LP_BEFORE False (old + length e), Some ?p)))"
    unfolding lpInsert_def Let_def lp_encoded_arg total m'_def elen add.assoc split_conv del by simp
  have big: "old + length e > UINT32_MAX \<longleftrightarrow> \<not> 7 + length (concat es) + length e < 2 ^ 32"
    unfolding old_def by (rule UINT32_MAX_less)
  show ?thesis unfolding ins big upd by (intro exI [of _ rest']) simp
qed


lemma lpInsert_after_block:
  assumes "\<not> (elestr = None \<and> eleint = None)" "i < length es" "lp_fits n es"
  shows "lpInsert (lp_block n es rest) elestr eleint (lp_pos es i) LP_AFTER =
    lpInsert (lp_block n es rest) elestr eleint (lp_pos es (Suc i)) LP_BEFORE"
proof -
  have "list_all lp_entry es" using assms(3) by (simp add: lp_fits_def)
  then have skip: "lpSkip (lp_block n es rest) (lp_pos es i) = lp_pos es (Suc i)"
    using assms(2) by (simp add: lpSkip_pos lp_nth_entry)
  have "lp_pos es (Suc i) \<le> 6 + length (concat es)"
    using lp_pos_mono [of "Suc i" "length es" es] assms(2) by (simp add: lp_pos_end)
  then have int: "ASSERT_INTEGRITY (lp_block n es rest) (lp_pos es (Suc i)) = True"
    using assms(3) lpBytes_block [OF assms(3), of rest] by (simp add: ASSERT_INTEGRITY_def LP_HDR_SIZE_def lpBytes_def)
  have del: "(elestr = None \<and> eleint = None) = False" using assms(1) by simp
  show ?thesis unfolding lpInsert_def Let_def del lp_encoded_arg split_conv by (simp add: skip int)
qed

text \<open>The bytes of entry \<open>i\<close> that a replacement or a deletion gives up.\<close>

lemma replaced_len_pos:
  fixes rest :: bytes and n i :: nat
  assumes "i < length es" "lp_fits n es"
  defines "r \<equiv> lpCurrentEncodedSizeUnsafe (drop (lp_pos es i) (lp_block n es rest))"
  shows "(r + lpEncodeBacklenBytes r) mod 2 ^ 32 = length (es ! i)"
    "ASSERT_INTEGRITY_LEN (lp_block n es rest) (lp_pos es i) (length (es ! i))"
    "concat (take (Suc i - i) (drop i es)) = es ! i" "length (es ! i) \<le> length (concat es)"
proof -
  have e: "lp_entry (es ! i)" using assms(1,2) by (simp add: lp_fits_def lp_nth_entry)
  have r: "r = lpCurrentEncodedSizeUnsafe (es ! i)"
    unfolding r_def using assms(1) lp_entry_size(1) [OF e] by (simp add: drop_lp_pos_entry)
  have end': "lp_pos es i + length (es ! i) \<le> 6 + length (concat es)"
    using lp_pos_mono [of "Suc i" "length es" es] assms(1) by (simp add: lp_pos_end lp_pos_Suc)
  show le: "length (es ! i) \<le> length (concat es)" using end' lp_pos_ge [of es i] by linarith
  then have "length (es ! i) < 2 ^ 32" using assms(2) by (simp add: lp_fits_def)
  then show "(r + lpEncodeBacklenBytes r) mod 2 ^ 32 = length (es ! i)"
    using lp_entry_size(2) [OF e] r by simp
  show "ASSERT_INTEGRITY_LEN (lp_block n es rest) (lp_pos es i) (length (es ! i))"
    using end' lpBytes_block [OF assms(2), of rest] by (simp add: ASSERT_INTEGRITY_LEN_def LP_HDR_SIZE_def lpBytes_def)
  show "concat (take (Suc i - i) (drop i es)) = es ! i"
    using assms(1) by (simp add: take_Suc_conv_app_nth Cons_nth_drop_Suc [symmetric])
qed

lemma length_concat_update:
  assumes "i < length es"
  shows "length (concat (take i es)) + length (concat (drop (Suc i) es)) + length (es ! i) = length (concat es)"
proof -
  have "concat es = concat (take i es) @ es ! i @ concat (drop (Suc i) es)"
    using assms by (metis concat.simps(2) concat_append id_take_nth_drop)
  then show ?thesis by simp
qed

lemma lpInsert_replace_block:
  assumes arg: "\<not> (elestr = None \<and> eleint = None)" and i: "i < length es" and fits: "lp_fits n es"
  defines "e \<equiv> lp_make (lp_arg elestr eleint)"
  shows "\<exists>rest'. lpInsert (lp_block n es rest) elestr eleint (lp_pos es i) LP_REPLACE =
    Ok (if 7 + length (concat es) + length e - length (es ! i) < 2 ^ 32
        then Some (lp_block n (es[i := e]) rest', Some (lp_pos es i)) else None)"
proof -
  let ?enc = "lp_arg elestr eleint" and ?lp = "lp_block n es rest" and ?p = "lp_pos es i"
  let ?r = "length (es ! i)"
  define old where "old = 7 + length (concat es)"
  note rep = replaced_len_pos [OF i fits]
  have n: "n < 2 ^ 16" using fits by (simp add: lp_fits_def)
  have elen: "length e = length ?enc + length (lpEncodeBacklen (length ?enc))" by (simp add: e_def lp_make_def)
  have del: "(elestr = None \<and> eleint = None) = False" using arg by simp
  have total: "lpGetTotalBytes ?lp = old" using lpBytes_block [OF fits] by (simp add: old_def lpBytes_def)
  have "\<exists>y rest'. lp_relocate ?lp LP_REPLACE ?p (length e) (length (concat (take (Suc i - i) (drop i es)))) old
      (old + length e - length (concat (take (Suc i - i) (drop i es)))) =
      le_bytes 4 old @ le_bytes 2 n @ concat (take i es) @ y @ concat (drop (Suc i) es) @ LP_EOF # rest' \<and> length y = length e"
    unfolding old_def using i by (intro lp_relocate_block) simp_all
  then obtain y rest' where m: "lp_relocate ?lp LP_REPLACE ?p (length e) ?r old (old + length e - ?r) =
      le_bytes 4 old @ le_bytes 2 n @ concat (take i es) @ y @ concat (drop (Suc i) es) @ LP_EOF # rest'"
    "length y = length e"
    unfolding rep(3) by blast
  define m' where "m' = blit (blit (lp_relocate ?lp LP_REPLACE ?p (length e) ?r old (old + length e - ?r)) ?p ?enc)
    (?p + length ?enc) (lpEncodeBacklen (length ?enc))"
  have "m' = le_bytes 4 old @ le_bytes 2 n @ concat (take i es) @ lp_make ?enc @ concat (drop (Suc i) es) @ LP_EOF # rest'"
    unfolding m'_def
    using lp_store_block [OF m(1), where enc = ?enc and p = ?p] m(2) by (simp add: e_def lp_pos_def LP_HDR_SIZE_def)
  then have m': "m' = le_bytes 4 old @ le_bytes 2 n @ concat (es[i := e]) @ LP_EOF # rest'"
    using i by (simp add: upd_conv_take_nth_drop e_def)
  have nw: "old + length e - ?r = 7 + length (concat (es[i := e]))"
    using length_concat_update [OF i] i by (simp add: old_def upd_conv_take_nth_drop)
  have num: "lpGetNumElements m' = n" using set_header(3) [of old n "es[i := e]" rest'] n m' by simp
  have upd: "lp_update_header m' LP_REPLACE False (old + length e - ?r) = lp_block n (es[i := e]) rest'"
    unfolding lp_update_header_set(2) [OF n num] unfolding nw m' set_header(1) ..
  have ins: "lpInsert ?lp elestr eleint ?p LP_REPLACE =
    (if old + length e - ?r > UINT32_MAX then Ok None
     else Ok (Some (lp_update_header m' LP_REPLACE False (old + length e - ?r), Some ?p)))"
    unfolding lpInsert_def Let_def lp_encoded_arg total m'_def elen add.assoc split_conv del
    using rep(1,2) by simp
  have big: "old + length e - ?r > UINT32_MAX \<longleftrightarrow> \<not> 7 + length (concat es) + length e - ?r < 2 ^ 32"
    unfolding old_def by (rule UINT32_MAX_less)
  show ?thesis unfolding ins big upd by (intro exI [of _ rest']) simp
qed

lemma lpDelete_block:
  assumes i: "i < length es" and fits: "lp_fits n es"
  defines "es' \<equiv> take i es @ drop (Suc i) es"
    and "n' \<equiv> if n = LP_HDR_NUMELE_UNKNOWN then n else n - 1"
  shows "\<exists>rest'. lpDelete (lp_block n es rest) (lp_pos es i) =
    Ok (Some (lp_block n' es' rest', if Suc i = length es then None else Some (lp_pos es i)))"
proof -
  let ?lp = "lp_block n es rest" and ?p = "lp_pos es i" and ?r = "length (es ! i)"
  define old where "old = 7 + length (concat es)"
  note rep = replaced_len_pos [OF i fits]
  have n: "n < 2 ^ 16" "n = LP_HDR_NUMELE_UNKNOWN \<or> n = length es" using fits by (auto simp: lp_fits_def)
  then have n0: "0 < n" using i by (auto simp: LP_HDR_NUMELE_UNKNOWN_def)
  have total: "lpGetTotalBytes ?lp = old" using lpBytes_block [OF fits] by (simp add: old_def lpBytes_def)
  have "\<exists>y rest'. lp_relocate ?lp LP_REPLACE ?p 0 (length (concat (take (Suc i - i) (drop i es)))) old
      (old + 0 - length (concat (take (Suc i - i) (drop i es)))) =
      le_bytes 4 old @ le_bytes 2 n @ concat (take i es) @ y @ concat (drop (Suc i) es) @ LP_EOF # rest' \<and> length y = 0"
    unfolding old_def using i by (intro lp_relocate_block) simp_all
  then obtain rest' where m: "lp_relocate ?lp LP_REPLACE ?p 0 ?r old (old - ?r) =
      le_bytes 4 old @ le_bytes 2 n @ concat es' @ LP_EOF # rest'"
    unfolding rep(3) by (auto simp: es'_def)
  define m' where "m' = lp_relocate ?lp LP_REPLACE ?p 0 ?r old (old - ?r)"
  have m'_eq: "m' = le_bytes 4 old @ le_bytes 2 n @ concat es' @ LP_EOF # rest'" unfolding m'_def by (rule m)
  have nw: "old - ?r = 7 + length (concat es')"
    using length_concat_update [OF i] by (simp add: old_def es'_def)
  have num: "lpGetNumElements m' = n" unfolding m'_def m using set_header(3) n by simp
  have upd: "lp_update_header m' LP_REPLACE True (old - ?r) = lp_block n' es' rest'"
    unfolding lp_update_header_set(3) [OF n(1) num n0] unfolding nw m'_eq n'_def by (simp add: set_header)
  have l: "list_all lp_entry es" using fits by (simp add: lp_fits_def)
  have pos': "lp_pos es' i = ?p" using i by (simp add: lp_pos_def es'_def)
  have l': "list_all lp_entry es'"
    using l by (auto simp: es'_def list_all_iff dest: in_set_takeD in_set_dropD)
  have eof: "m' ! ?p = LP_EOF \<longleftrightarrow> Suc i = length es"
  proof -
    have "lp_block n' es' rest' ! ?p = m' ! ?p"
    proof -
      obtain k where k: "?p = 6 + k" using le_Suc_ex [OF lp_pos_ge [of es i]] by blast
      show ?thesis unfolding m'_eq lp_block_def k by (simp only: header_nth length_le_bytes)
    qed
    moreover have "lp_block n' es' rest' ! ?p = LP_EOF \<longleftrightarrow> i = length es'"
      using lp_block_nth_eof [of i es' n' rest'] l' i unfolding pos' by (simp add: es'_def)
    ultimately show ?thesis using i by (auto simp: es'_def)
  qed
  have "lpDelete ?lp ?p =
    (if old - ?r > UINT32_MAX then Ok None
     else Ok (Some (lp_update_header m' LP_REPLACE True (old - ?r), if m' ! ?p = LP_EOF then None else Some ?p)))"
    unfolding lpDelete_def lpInsert_def Let_def total m'_def lp_encoded_arg_def
    using rep(1,2) by simp
  moreover have "\<not> old - ?r > UINT32_MAX"
    using fits unfolding old_def UINT32_MAX_less lp_fits_def by linarith
  ultimately show ?thesis unfolding upd eof by (intro exI [of _ rest']) simp
qed


section \<open>Several elements\<close>

definition lp_batch_bytes :: "lp_value \<Rightarrow> bytes" where
  "lp_batch_bytes e = (case e of Lp_String s \<Rightarrow> lp_encode s | Lp_Integer v \<Rightarrow> lpEncodeIntegerGetType v)"

lemma lp_batch_encode_bytes:
  "lp_batch_encode e = (lp_batch_bytes e, length (lp_batch_bytes e), lpEncodeBacklen (length (lp_batch_bytes e)))"
  by (cases e) (simp_all add: lp_batch_encode_def lp_batch_bytes_def lp_encoded_arg_string)

definition lp_batch_make :: "lp_value list \<Rightarrow> bytes list" where
  "lp_batch_make entries = map (\<lambda>e. lp_make (lp_batch_bytes e)) entries"

lemma batch_added_length:
  "batch_added (map lp_batch_encode entries) k = k + length (concat (lp_batch_make entries))"
  by (induction entries arbitrary: k) (simp_all add: lp_batch_make_def lp_batch_encode_bytes lp_make_def)

lemma batch_store_concat:
  "length y = length (concat (lp_batch_make entries)) \<Longrightarrow> p = length a \<Longrightarrow>
   batch_store (a @ y @ b) p (map lp_batch_encode entries) q =
     (a @ concat (lp_batch_make entries) @ b,
      if entries = [] then q else Some (p + length (concat (lp_batch_make (butlast entries)))))"
proof (induction entries arbitrary: a y p q)
  case (Cons e es)
  let ?x = "lp_batch_bytes e"
  define y1 y2 where "y1 = take (length (lp_make ?x)) y" and "y2 = drop (length (lp_make ?x)) y"
  have y: "y = y1 @ y2" "length y1 = length ?x + length (lpEncodeBacklen (length ?x))"
    "length y2 = length (concat (lp_batch_make es))"
    using Cons.prems(1) by (simp_all add: y1_def y2_def lp_batch_make_def lp_make_def)
  have "blit (blit (a @ y @ b) p ?x) (p + length ?x) (lpEncodeBacklen (length ?x)) = (a @ lp_make ?x) @ y2 @ b"
    using splice_store [of "a @ y @ b" a y1 "y2 @ b" ?x "lpEncodeBacklen (length ?x)" p] y Cons.prems(2)
    by (simp add: lp_make_def)
  moreover have "batch_store ((a @ lp_make ?x) @ y2 @ b) (p + length ?x + length (lpEncodeBacklen (length ?x)))
      (map lp_batch_encode es) (Some p) =
      ((a @ lp_make ?x) @ concat (lp_batch_make es) @ b,
       if es = [] then Some p
       else Some (p + length ?x + length (lpEncodeBacklen (length ?x)) + length (concat (lp_batch_make (butlast es)))))"
    using y(3) Cons.prems(2) by (intro Cons.IH) (simp_all add: lp_make_def)
  moreover have "batch_store (a @ y @ b) p (map lp_batch_encode (e # es)) q =
      batch_store (blit (blit (a @ y @ b) p ?x) (p + length ?x) (lpEncodeBacklen (length ?x)))
        (p + length ?x + length (lpEncodeBacklen (length ?x))) (map lp_batch_encode es) (Some p)"
    by (simp only: list.map lp_batch_encode_bytes [of e] batch_store.simps Let_def)
  ultimately have "batch_store (a @ y @ b) p (map lp_batch_encode (e # es)) q =
      ((a @ lp_make ?x) @ concat (lp_batch_make es) @ b,
       if es = [] then Some p
       else Some (p + length ?x + length (lpEncodeBacklen (length ?x)) + length (concat (lp_batch_make (butlast es)))))"
    by (simp only:)
  then show ?case by (simp add: lp_batch_make_def lp_make_def add.assoc)
qed (simp add: lp_batch_make_def)

lemma lpBatchInsert_before_block:
  assumes ne: "entries \<noteq> []" and i: "i \<le> length es"
    and T: "7 + length (concat es) < 2 ^ 32" and n: "n < 2 ^ 16"
  defines "new \<equiv> lp_batch_make entries"
  shows "\<exists>rest'. lpBatchInsert (lp_block n es rest) (lp_pos es i) LP_BEFORE entries =
    Ok (if 7 + length (concat es) + length (concat new) < 2 ^ 32
        then Some (lp_block (next_count n (length entries)) (insert_at i new es) rest',
          Some (lp_pos (insert_at i new es) (i + length entries - 1))) else None)"
proof -
  let ?lp = "lp_block n es rest" and ?p = "lp_pos es i" and ?k = "length (concat new)"
  define old where "old = 7 + length (concat es)"
  have total: "lpGetTotalBytes ?lp = old" using T by (simp add: old_def)
  obtain y rest' where m: "lp_relocate ?lp LP_BEFORE ?p ?k 0 old (old + ?k) =
      le_bytes 4 old @ le_bytes 2 n @ concat (take i es) @ y @ concat (drop i es) @ LP_EOF # rest'" "length y = ?k"
    using lp_relocate_block [of i i es LP_BEFORE n rest ?k] i by (auto simp: old_def)
  define m' where "m' = fst (batch_store (lp_relocate ?lp LP_BEFORE ?p ?k 0 old (old + ?k)) ?p (map lp_batch_encode entries) None)"
  have p: "?p = length (le_bytes 4 old @ le_bytes 2 n @ concat (take i es))"
    by (simp add: lp_pos_def LP_HDR_SIZE_def)
  have store: "batch_store (lp_relocate ?lp LP_BEFORE ?p ?k 0 old (old + ?k)) ?p (map lp_batch_encode entries) None =
    ((le_bytes 4 old @ le_bytes 2 n @ concat (take i es)) @ concat new @ concat (drop i es) @ LP_EOF # rest',
      Some (?p + length (concat (lp_batch_make (butlast entries)))))"
    using batch_store_concat [of y entries ?p "le_bytes 4 old @ le_bytes 2 n @ concat (take i es)"
        "concat (drop i es) @ LP_EOF # rest'" None] m ne p by (simp add: new_def)
  have newp: "?p + length (concat (lp_batch_make (butlast entries))) = lp_pos (insert_at i new es) (i + length entries - 1)"
  proof -
    have "take (i + length entries - 1) (insert_at i new es) = take i es @ lp_batch_make (butlast entries)"
      using i ne by (cases entries rule: rev_cases) (simp_all add: insert_at_def new_def lp_batch_make_def)
    then show ?thesis by (simp add: lp_pos_def)
  qed
  have m': "m' = le_bytes 4 old @ le_bytes 2 n @ concat (insert_at i new es) @ LP_EOF # rest'"
    unfolding m'_def store by (simp add: insert_at_def)
  have nw: "old + ?k = 7 + length (concat (insert_at i new es))"
  proof -
    have "length (concat es) = length (concat (take i es)) + length (concat (drop i es))"
      by (metis append_take_drop_id concat_append length_append)
    then show ?thesis by (simp add: insert_at_def old_def)
  qed
  have num: "lpGetNumElements m' = n" using set_header(3) [of old n "insert_at i new es" rest'] n m' by simp
  define m2 where "m2 = (if n \<noteq> LP_HDR_NUMELE_UNKNOWN then
      if int (length entries) > int LP_HDR_NUMELE_UNKNOWN - int n then lpSetNumElements m' LP_HDR_NUMELE_UNKNOWN
      else lpSetNumElements m' (n + length entries) else m')"
  have "m2 = (if n = LP_HDR_NUMELE_UNKNOWN then m' else lpSetNumElements m' (next_count n (length entries)))"
  proof (cases "n + length entries = LP_HDR_NUMELE_UNKNOWN")
    case True
    then show ?thesis by (auto simp: m2_def next_count_def)
  next
    case False
    then have "int (length entries) > int LP_HDR_NUMELE_UNKNOWN - int n \<longleftrightarrow> n + length entries \<ge> LP_HDR_NUMELE_UNKNOWN"
      by linarith
    then show ?thesis by (simp add: m2_def next_count_def)
  qed
  then have upd: "lpSetTotalBytes m2 (old + ?k) = lp_block (next_count n (length entries)) (insert_at i new es) rest'"
    unfolding nw m' using set_header(1,2) [of old n "insert_at i new es" rest']
    by (cases "n = LP_HDR_NUMELE_UNKNOWN") (simp_all add: next_count_def)
  have reloc: "lp_relocate ?lp LP_BEFORE ?p ?k 0 old (old + ?k) =
    memmove (if old + ?k > old \<and> old + ?k > length ?lp then zrealloc ?lp (old + ?k) else ?lp) (?p + ?k) ?p (old - ?p)"
    by (simp add: lp_relocate_def)
  have before: "(LP_BEFORE = LP_AFTER) = False" by simp
  have "lpBatchInsert ?lp ?p LP_BEFORE entries =
    (if old + ?k > UINT32_MAX then Ok None
     else Ok (Some (lpSetTotalBytes m2 (old + ?k), Some (lp_pos (insert_at i new es) (i + length entries - 1)))))"
    unfolding lpBatchInsert_def Let_def total batch_added_length new_def [symmetric] add_0 before if_False
      reloc [symmetric] store split_conv
    using ne num newp m' by (simp add: m2_def insert_at_def)
  moreover have "old + ?k > UINT32_MAX \<longleftrightarrow> \<not> 7 + length (concat es) + ?k < 2 ^ 32"
    unfolding old_def by (rule UINT32_MAX_less)
  ultimately show ?thesis unfolding upd by (intro exI [of _ rest']) simp
qed

section \<open>Ranges\<close>

lemma lpShrinkToFit_block:
  assumes "7 + length (concat es) < 2 ^ 32"
  shows "lpShrinkToFit (lp_block n es rest) = lp_block n es []"
proof (cases "rest = []")
  case False
  have "take (7 + length (concat es)) (lp_block n es rest) = lp_block n es []"
    by (simp add: lp_block_def)
  with False assms show ?thesis by (simp add: lpShrinkToFit_def zrealloc_shrink)
qed (use assms in \<open>simp add: lpShrinkToFit_def\<close>)

lemma delete_skip_pos:
  assumes "lp_fits n es" "i < length es \<or> num = 0"
  shows "delete_skip (lp_block n es rest) (7 + length (concat es)) (lp_pos es i) num d =
    Ok (lp_pos es (if num = 0 then i else min (i + num) (length es)), d + (if num = 0 then 0 else min (i + num) (length es) - i))"
  using assms(2)
proof (induction num arbitrary: i d)
  case (Suc num)
  then have i: "i < length es" by simp
  have l: "list_all lp_entry es" using assms(1) by (simp add: lp_fits_def)
  have skip: "lpSkip (lp_block n es rest) (lp_pos es i) = lp_pos es (Suc i)"
    using i l by (simp add: lpSkip_pos lp_nth_entry)
  have eof: "lp_block n es rest ! lp_pos es (Suc i) = LP_EOF \<longleftrightarrow> Suc i = length es"
    using i l by (intro lp_block_nth_eof) simp_all
  show ?case
  proof (cases "Suc i = length es")
    case True
    then show ?thesis using skip eof by simp
  next
    case False
    then have "Suc i < length es" using i by simp
    moreover have "lpAssertValidEntry (lp_block n es rest) (7 + length (concat es)) (lp_pos es (Suc i))"
      using i assms(1) by (simp add: lpAssertValidEntry_pos)
    ultimately show ?thesis using Suc.IH [of "Suc i" "d + 1"] skip eof False by (auto simp: min_def)
  qed
qed simp

lemma length_concat_drop:
  "i \<le> length es \<Longrightarrow> lp_pos es i + length (concat (drop i es)) = 6 + length (concat es)"
proof -
  have "length (concat es) = length (concat (take i es)) + length (concat (drop i es))"
    by (metis append_take_drop_id concat_append length_append)
  then show ?thesis by (simp add: lp_pos_def LP_HDR_SIZE_def)
qed

text \<open>Moving the entries from \<open>j\<close> on, with the end mark, to the place of entry \<open>i\<close>.\<close>

lemma move_tail_block:
  assumes "i \<le> j" "j \<le> length es"
  shows "\<exists>rest'. memmove (lp_block n es rest) (lp_pos es i) (lp_pos es j) (7 + length (concat es) - 1 - lp_pos es j + 1) =
    le_bytes 4 (7 + length (concat es)) @ le_bytes 2 n @ concat (take i es @ drop j es) @ LP_EOF # rest'"
proof -
  let ?lp = "lp_block n es rest"
  have len: "7 + length (concat es) - 1 - lp_pos es j + 1 = length (concat (drop j es) @ [LP_EOF])"
    using length_concat_drop [OF assms(2)] by simp
  have "chunk ?lp (lp_pos es j) (length (concat (drop j es) @ [LP_EOF])) = concat (drop j es) @ [LP_EOF]"
    using assms by (simp add: chunk_def drop_lp_pos)
  moreover have "take (lp_pos es i) ?lp = le_bytes 4 (7 + length (concat es)) @ le_bytes 2 n @ concat (take i es)"
    using assms by (simp add: take_lp_pos)
  ultimately show ?thesis unfolding memmove_def blit_def len by simp
qed

definition minus_count :: "nat \<Rightarrow> nat \<Rightarrow> nat" where
  "minus_count n k = (if n = LP_HDR_NUMELE_UNKNOWN then n else n - k)"

lemma set_header_minus:
  assumes "m = le_bytes 4 t @ le_bytes 2 n @ concat es @ LP_EOF # rest" "n < 2 ^ 16"
    "n = LP_HDR_NUMELE_UNKNOWN \<or> k \<le> n"
  defines "m1 \<equiv> lpSetTotalBytes m (7 + length (concat es))"
  shows "(if lpGetNumElements m1 \<noteq> LP_HDR_NUMELE_UNKNOWN
      then lpSetNumElements m1 (c_unsigned 32 (int (lpGetNumElements m1) - int k)) else m1) =
    lp_block (minus_count n k) es rest"
proof -
  have m1: "m1 = lp_block n es rest" unfolding m1_def assms(1) by (rule set_header(1))
  have num: "lpGetNumElements m1 = n" using assms(2) by (simp add: m1)
  show ?thesis
  proof (cases "n = LP_HDR_NUMELE_UNKNOWN")
    case True
    then show ?thesis using num by (simp add: m1 minus_count_def)
  next
    case False
    then have "k \<le> n" using assms(3) by simp
    then have "c_unsigned 32 (int n - int k) = n - k"
      using assms(2) by (subst c_unsigned_id) (simp_all add: nat_diff_distrib)
    then show ?thesis unfolding num using False by (simp add: m1 minus_count_def)
  qed
qed

lemma lpDeleteRangeWithEntry_block:
  assumes fits: "lp_fits n es" and i: "i < length es" and num: "0 < num"
  shows "lpDeleteRangeWithEntry (lp_block n es rest) (lp_pos es i) num =
    Ok (lp_block (minus_count n (min (i + num) (length es) - i)) (take i es @ drop (i + num) es) [],
      if i + num < length es then Some (lp_pos es i) else None)"
proof -
  let ?lp = "lp_block n es rest" and ?es = "take i es @ drop (i + num) es"
  define j where "j = min (i + num) (length es)"
  have j: "i < j" "j \<le> length es" using i num by (simp_all add: j_def)
  have dj: "drop j es = drop (i + num) es" by (simp add: j_def min_def)
  have n: "n < 2 ^ 16" "n = LP_HDR_NUMELE_UNKNOWN \<or> j - i \<le> n" using fits j by (auto simp: lp_fits_def)
  have bytes: "lpBytes ?lp = 7 + length (concat es)" by (rule lpBytes_block [OF fits])
  have skip: "delete_skip ?lp (7 + length (concat es)) (lp_pos es i) num 0 = Ok (lp_pos es j, j - i)"
    using delete_skip_pos [OF fits, of i num rest 0] i num by (simp add: j_def)
  obtain rest' where mv: "memmove ?lp (lp_pos es i) (lp_pos es j) (7 + length (concat es) - 1 - lp_pos es j + 1) =
    le_bytes 4 (7 + length (concat es)) @ le_bytes 2 n @ concat ?es @ LP_EOF # rest'"
    using move_tail_block [of i j es n rest] j dj by auto
  have total: "7 + length (concat es) - (lp_pos es j - lp_pos es i) = 7 + length (concat ?es)"
  proof -
    have "lp_pos es i \<le> lp_pos es j" using j by (intro lp_pos_mono) simp
    then show ?thesis
      using length_concat_drop [OF j(2)] unfolding dj by (simp add: lp_pos_def LP_HDR_SIZE_def)
  qed
  have T: "7 + length (concat ?es) < 2 ^ 32" using fits total unfolding lp_fits_def by linarith
  let ?n' = "minus_count n (j - i)"
  have "lp_pos ?es i = lp_pos es i" using i by (simp add: lp_pos_def)
  moreover have l: "list_all lp_entry ?es"
    using fits by (auto simp: lp_fits_def list_all_iff dest: in_set_takeD in_set_dropD)
  ultimately have eof: "lp_block ?n' ?es [] ! lp_pos es i = LP_EOF \<longleftrightarrow> \<not> i + num < length es"
    using lp_block_nth_eof [of i ?es ?n' "[]"] i by auto
  have "lpDeleteRangeWithEntry ?lp (lp_pos es i) num =
    Ok (lp_block ?n' ?es [], if lp_block ?n' ?es [] ! lp_pos es i = LP_EOF then None else Some (lp_pos es i))"
    using num
    unfolding lpDeleteRangeWithEntry_def Let_def bytes skip bind_outcome.simps split_conv mv total
      set_header_minus [OF refl n] lpShrinkToFit_block [OF T] by simp
  from this [unfolded eof] show ?thesis unfolding j_def [symmetric] by simp
qed

lemma lpDeleteRange_block:
  assumes fits: "lp_fits n es"
  shows "\<exists>n' rest'. lpDeleteRange (lp_block n es rest) index num =
    Ok (lp_block n' (case seek_target es index of None \<Rightarrow> es | Some i \<Rightarrow> take i es @ drop (i + num) es) rest')
    \<and> lp_fits n' (case seek_target es index of None \<Rightarrow> es | Some i \<Rightarrow> take i es @ drop (i + num) es)"
proof (cases "num = 0 \<or> seek_target es index = None")
  case True
  moreover have "take i es @ drop i es = es" for i by simp
  ultimately have "lpDeleteRange (lp_block n es rest) index num = Ok (lp_block n es rest)
      \<and> (case seek_target es index of None \<Rightarrow> es | Some i \<Rightarrow> take i es @ drop (i + num) es) = es"
    by (auto simp: lpDeleteRange_def lpSeek_pos [OF fits] Let_def split: option.splits)
  then show ?thesis using fits by auto
next
  case False
  then obtain i where i: "seek_target es index = Some i" and num: "0 < num" by auto
  then have il: "i < length es" by (auto simp: seek_target_def split: if_splits)
  let ?lp = "lp_block n es rest" and ?es = "take i es @ drop (i + num) es"
  have n: "n < 2 ^ 16" "n = LP_HDR_NUMELE_UNKNOWN \<or> n = length es" using fits by (auto simp: lp_fits_def)
  have l: "list_all lp_entry ?es"
    using fits by (auto simp: lp_fits_def list_all_iff dest: in_set_takeD in_set_dropD)
  have T: "7 + length (concat ?es) < 2 ^ 32"
  proof -
    have "length (concat (drop (i + num) es)) \<le> length (concat (drop i es))"
      by (metis drop_drop append_take_drop_id concat_append length_append le_add2 add.commute)
    moreover have "length (concat es) = length (concat (take i es)) + length (concat (drop i es))"
      by (metis append_take_drop_id concat_append length_append)
    ultimately have "length (concat ?es) \<le> length (concat es)" by simp
    then show ?thesis using fits unfolding lp_fits_def by linarith
  qed
  show ?thesis
  proof (cases "n \<noteq> LP_HDR_NUMELE_UNKNOWN \<and> length es - i \<le> num")
    case True
    then have nl: "n = length es" using n by simp
    have idx: "(if n \<noteq> LP_HDR_NUMELE_UNKNOWN \<and> index < 0 then int n + index else index) = int i"
      using i nl True by (auto simp: seek_target_def split: if_splits)
    have seek: "lpSeek ?lp index = Ok (Some (lp_pos es i))" using i by (simp add: lpSeek_pos [OF fits])
    have num': "lpGetNumElements ?lp = n" using n(1) by simp
    have "length es \<le> i + num" using True by linarith
    then have es': "?es = take i es" by simp
    have "c_unsigned 64 (int n - int i) = length es - i"
      using n(1) nl il by (subst c_unsigned_id) (simp_all add: nat_diff_distrib)
    then have cut: "c_unsigned 64 (int n - int i) \<le> num" using True by simp
    have upd: "?lp[lp_pos es i := LP_EOF] =
      le_bytes 4 (7 + length (concat es)) @ le_bytes 2 n @ concat (take i es) @ LP_EOF # drop (Suc (lp_pos es i)) ?lp"
      using il lp_pos_less_length [of i es n rest] take_lp_pos [of i es n rest]
      by (simp add: upd_conv_take_nth_drop)
    have pos: "lp_pos es i + 1 = 7 + length (concat (take i es))" by (simp add: lp_pos_def LP_HDR_SIZE_def)
    have hdr: "lpSetNumElements (lpSetTotalBytes (?lp[lp_pos es i := LP_EOF]) (lp_pos es i + 1)) i =
        lp_block i (take i es) (drop (Suc (lp_pos es i)) ?lp)"
      unfolding upd pos set_header(1) by simp
    have "lpDeleteRange ?lp index num = Ok (lp_block i (take i es) [])"
      unfolding lpDeleteRange_def Let_def seek num' bind_outcome.simps option.case idx
      using num True cut hdr T es' by (simp add: lpShrinkToFit_block)
    moreover have "lp_fits i (take i es)"
      using l T es' nl n il by (simp add: lp_fits_def)
    ultimately show ?thesis using i es' by auto
  next
    case False
    have "lpDeleteRange ?lp index num = Ok (lp_block (minus_count n (min (i + num) (length es) - i)) ?es [])"
    proof -
      have "\<not> (n \<noteq> LP_HDR_NUMELE_UNKNOWN \<and> c_unsigned 64 (int n - (if n \<noteq> LP_HDR_NUMELE_UNKNOWN \<and> index < 0 then int n + index else index)) \<le> num)"
      proof
        assume a: "n \<noteq> LP_HDR_NUMELE_UNKNOWN \<and> c_unsigned 64 (int n - (if n \<noteq> LP_HDR_NUMELE_UNKNOWN \<and> index < 0 then int n + index else index)) \<le> num"
        then have nl: "n = length es" using n by simp
        have idx: "(if n \<noteq> LP_HDR_NUMELE_UNKNOWN \<and> index < 0 then int n + index else index) = int i"
          using i nl a by (auto simp: seek_target_def split: if_splits)
        have "c_unsigned 64 (int n - int i) = length es - i"
          using n(1) nl il by (subst c_unsigned_id) (simp_all add: nat_diff_distrib)
        then show False using a [unfolded idx] False by simp
      qed
      moreover have "lpGetNumElements ?lp = n" using n(1) by simp
      ultimately show ?thesis
        using num i lpDeleteRangeWithEntry_block [OF fits il num, of rest]
        unfolding lpDeleteRange_def Let_def lpSeek_pos [OF fits] by auto
    qed
    moreover have "lp_fits (minus_count n (min (i + num) (length es) - i)) ?es"
      using l T n il by (auto simp: lp_fits_def minus_count_def)
    ultimately show ?thesis using i by auto
  qed
qed

end
