(* ===== verification/Lp_Refine.thy ===== *)
theory Lp_Refine
  imports Lp_Update
begin

text \<open>
  \<open>listpack.c\<close>, fourth part: the operations of \<open>Lp_Update\<close> refine operations on lists of strings.
  The abstraction of a block in the representation is the list of the contents of its entries.
\<close>

section \<open>Creation, copy, shrinking\<close>

lemma lpNew_block: "\<exists>rest. lpNew capacity = lp_block 0 [] rest"
proof -
  define c where "c = (if capacity > LP_HDR_SIZE + 1 then capacity else LP_HDR_SIZE + 1)"
  have "7 \<le> c" by (simp add: c_def LP_HDR_SIZE_def)
  then obtain k where c: "c = 4 + (2 + (1 + k))" using le_Suc_ex [of 7 c] by (auto simp: add.assoc)
  have "replicate c (0 :: byte) = replicate 4 0 @ replicate 2 0 @ [0] @ replicate k 0"
    unfolding c by (simp add: replicate_add numeral_eq_Suc)
  then have "lpNew capacity = (lpSetNumElements (lpSetTotalBytes (replicate 4 0 @ replicate 2 0 @ [0] @ replicate k 0)
      (LP_HDR_SIZE + 1)) 0)[LP_HDR_SIZE := LP_EOF]"
    by (simp only: lpNew_def c_def [symmetric] Let_def)
  also have "\<dots> = (le_bytes 4 7 @ le_bytes 2 0 @ [0] @ replicate k 0)[6 := LP_EOF]"
    using header_fields(3) [of "replicate 4 0" "replicate 2 0" "replicate 2 0 @ [0] @ replicate k 0" 7]
      header_fields(4) [of "le_bytes 4 7" "replicate 2 0" "[0] @ replicate k 0" 0]
    by (simp add: LP_HDR_SIZE_def)
  also have "\<dots> = lp_block 0 [] (replicate k 0)"
    by (simp add: lp_block_def list_update_append)
  finally show ?thesis by blast
qed

lemma lpDup_block: "lp_fits n es \<Longrightarrow> lpDup (lp_block n es rest) = lp_block n es []"
proof -
  assume fits: "lp_fits n es"
  have "take (7 + length (concat es)) (lp_block n es rest) = lp_block n es []"
    by (simp add: lp_block_def)
  then show ?thesis using lpBytes_block [OF fits, of rest] by (simp add: lpDup_def blit_def)
qed

section \<open>Deleting a batch of elements\<close>

text \<open>The entries from \<open>k\<close> on whose index is not in \<open>ds\<close>.\<close>

definition keep_from :: "nat set \<Rightarrow> nat \<Rightarrow> 'a list \<Rightarrow> 'a list" where
  "keep_from ds k xs = map (\<lambda>j. xs ! j) (filter (\<lambda>j. j \<notin> ds) [k..<length xs])"

lemma keep_from_step:
  "i < length xs \<Longrightarrow> keep_from ds i xs = (if i \<in> ds then [] else [xs ! i]) @ keep_from ds (Suc i) xs"
  by (simp add: keep_from_def upt_conv_Cons)

lemma keep_from_run:
  "i \<le> j \<Longrightarrow> j \<le> length xs \<Longrightarrow> \<forall>k. i \<le> k \<and> k < j \<longrightarrow> k \<notin> ds \<Longrightarrow>
   keep_from ds i xs = take (j - i) (drop i xs) @ keep_from ds j xs"
proof (induction "j - i" arbitrary: i)
  case (Suc k)
  then have i: "i < j" "i < length xs" by simp_all
  have "keep_from ds (Suc i) xs = take (j - Suc i) (drop (Suc i) xs) @ keep_from ds j xs"
    using Suc i by (intro Suc.hyps(1)) auto
  moreover have "take (j - i) (drop i xs) = xs ! i # take (j - Suc i) (drop (Suc i) xs)"
    using i by (simp add: Suc_diff_Suc [symmetric] Cons_nth_drop_Suc [symmetric])
  ultimately show ?case using Suc.prems i by (simp add: keep_from_step)
qed simp

lemma keep_from_end: "length xs \<le> k \<Longrightarrow> keep_from ds k xs = []"
  by (simp add: keep_from_def)

lemma keep_from_none: "\<forall>k \<in> ds. k < i \<Longrightarrow> keep_from ds i xs = drop i xs"
proof (cases "i \<le> length xs")
  case True
  assume "\<forall>k \<in> ds. k < i"
  then have "keep_from ds i xs = take (length xs - i) (drop i xs) @ keep_from ds (length xs) xs"
    using True by (intro keep_from_run) auto
  then show ?thesis by (simp add: keep_from_end)
qed (simp add: keep_from_end)

lemma keep_from_cong: "(\<And>k. i \<le> k \<Longrightarrow> k \<in> A \<longleftrightarrow> k \<in> B) \<Longrightarrow> keep_from A i xs = keep_from B i xs"
proof -
  assume "\<And>k. i \<le> k \<Longrightarrow> k \<in> A \<longleftrightarrow> k \<in> B"
  then have "filter (\<lambda>j. j \<notin> A) [i..<length xs] = filter (\<lambda>j. j \<notin> B) [i..<length xs]"
    by (intro filter_cong) auto
  then show ?thesis by (simp add: keep_from_def)
qed

lemma chunk_lp_pos:
  assumes "i \<le> j" "j \<le> length es"
  shows "chunk (lp_block n es rest) (lp_pos es i) (lp_pos es j - lp_pos es i) = concat (take (j - i) (drop i es))"
proof -
  have d: "drop i es = take (j - i) (drop i es) @ drop j es"
    using assms append_take_drop_id [of "j - i" "drop i es"] by simp
  have "lp_pos es j = lp_pos es i + length (concat (take (j - i) (drop i es)))"
  proof -
    have "take j es = take i es @ take (j - i) (drop i es)"
      using assms by (metis le_add_diff_inverse take_add)
    then show ?thesis by (simp add: lp_pos_def)
  qed
  moreover have "drop (lp_pos es i) (lp_block n es rest) =
      concat (take (j - i) (drop i es)) @ concat (drop j es) @ LP_EOF # rest"
    using assms d by (simp add: drop_lp_pos) (metis append_assoc concat_append)
  ultimately show ?thesis by (simp add: chunk_def)
qed

text \<open>Before each step the block holds the kept bytes up to \<open>dst\<close>, and the original from the next
  entry to delete on.\<close>

lemma batch_delete_loop_block:
  assumes blk: "blk = lp_block n es rest" and l: "list_all lp_entry es"
  shows "sorted_wrt (<) (i # is) \<Longrightarrow> \<forall>j \<in> set (i # is). j < length es \<Longrightarrow>
    length lp = length blk \<Longrightarrow> take dst lp = kept \<Longrightarrow> dst \<le> lp_pos es i \<Longrightarrow>
    drop (lp_pos es i) lp = drop (lp_pos es i) blk \<Longrightarrow>
    \<exists>lp'. batch_delete_loop lp (map (lp_pos es) (i # is)) (7 + length (concat es)) dst =
        Ok (lp', dst + length (concat (keep_from (set (i # is)) i es)) + 1)
      \<and> take (dst + length (concat (keep_from (set (i # is)) i es)) + 1) lp' =
        kept @ concat (keep_from (set (i # is)) i es) @ [LP_EOF]
      \<and> length lp' = length blk"
proof (induction "is" arbitrary: i lp dst kept)
  case Nil
  then have i: "i < length es" by simp
  have e: "lp_entry (es ! i)" using l i by (rule lp_nth_entry)
  have pos_lt: "lp_pos es i < length lp" using i Nil.prems(3) lp_pos_less_length [of i es n rest] by (simp add: blk)
  have nth: "lp ! lp_pos es i = blk ! lp_pos es i"
    using Nil.prems(3,6) pos_lt nth_drop_0 by metis
  have ne: "lp ! lp_pos es i \<noteq> LP_EOF" unfolding nth blk using i l lp_block_nth_eof [of i es n rest] by simp
  have skip: "lpSkip lp (lp_pos es i) = lp_pos es (Suc i)"
    using lpSkip_pos [OF i e, of n rest] Nil.prems(6) by (simp add: lpSkip_def blk)
  let ?tail = "concat (drop (Suc i) es) @ [LP_EOF]"
  have len: "7 + length (concat es) - lp_pos es (Suc i) = length ?tail"
    using length_concat_drop [of "Suc i" es] i by simp
  have dropS: "drop (lp_pos es (Suc i)) lp = drop (lp_pos es (Suc i)) blk"
  proof -
    have "lp_pos es (Suc i) = (lp_pos es (Suc i) - lp_pos es i) + lp_pos es i"
      using lp_pos_mono [of i "Suc i" es] by simp
    then show ?thesis using Nil.prems(6) by (metis drop_drop)
  qed
  have src: "chunk lp (lp_pos es (Suc i)) (length ?tail) = ?tail"
    unfolding chunk_def dropS using i by (simp add: blk drop_lp_pos)
  have keep: "keep_from (set [i]) i es = drop (Suc i) es"
    using i keep_from_none [of "{i}" "Suc i" es] by (simp add: keep_from_step)
  define lp' where "lp' = memmove lp dst (lp_pos es (Suc i)) (length ?tail)"
  have fit: "dst + length ?tail \<le> length lp"
    using Nil.prems(3,5) lp_pos_mono [of i "Suc i" es] length_concat_drop [of "Suc i" es] i by (simp add: blk)
  have "dst \<le> length lp" using fit by simp
  then have "length kept = dst" using Nil.prems(4) by auto
  have "lp' = kept @ ?tail @ drop (dst + length ?tail) lp"
    unfolding lp'_def memmove_def blit_def src using Nil.prems(4) by simp
  then have "take (dst + length ?tail) lp' = kept @ ?tail" using \<open>length kept = dst\<close> by simp
  moreover have "length lp' = length blk" using fit Nil.prems(3) unfolding lp'_def memmove_def src by simp
  moreover have "batch_delete_loop lp (map (lp_pos es) [i]) (7 + length (concat es)) dst = Ok (lp', dst + length ?tail)"
  proof -
    have "7 + length (concat es) > lp_pos es (Suc i)" using length_concat_drop [of "Suc i" es] i by simp
    then show ?thesis using ne skip len by (simp add: Let_def lp'_def)
  qed
  ultimately show ?case unfolding keep by (intro exI [of _ lp']) simp
next
  case (Cons i' "is")
  then have i: "i < length es" "i' < length es" "i < i'" by simp_all
  have e: "lp_entry (es ! i)" using l i(1) by (rule lp_nth_entry)
  have pos_lt: "lp_pos es i < length lp" using i Cons.prems(3) lp_pos_less_length [of i es n rest] by (simp add: blk)
  have nth: "lp ! lp_pos es i = blk ! lp_pos es i"
    using Cons.prems(3,6) pos_lt nth_drop_0 by metis
  have ne: "lp ! lp_pos es i \<noteq> LP_EOF" unfolding nth blk using i l lp_block_nth_eof [of i es n rest] by simp
  have skip: "lpSkip lp (lp_pos es i) = lp_pos es (Suc i)"
    using lpSkip_pos [OF i(1) e, of n rest] Cons.prems(6) by (simp add: lpSkip_def blk)
  have drop_at: "drop (lp_pos es j) lp = drop (lp_pos es j) blk" if "i \<le> j" for j
  proof -
    have "lp_pos es j = (lp_pos es j - lp_pos es i) + lp_pos es i"
      using lp_pos_mono [OF that, of es] by simp
    then show ?thesis using Cons.prems(6) by (metis drop_drop)
  qed
  have not_deleted: "\<forall>k. Suc i \<le> k \<and> k < i' \<longrightarrow> k \<notin> set (i # i' # is)"
    using Cons.prems(1) by auto
  have keep: "keep_from (set (i # i' # is)) i es =
      take (i' - Suc i) (drop (Suc i) es) @ keep_from (set (i' # is)) i' es"
  proof -
    have "keep_from (set (i # i' # is)) i es = keep_from (set (i # i' # is)) (Suc i) es"
      using i(1) by (simp add: keep_from_step)
    also have "\<dots> = take (i' - Suc i) (drop (Suc i) es) @ keep_from (set (i # i' # is)) i' es"
      using i not_deleted by (intro keep_from_run) auto
    also have "keep_from (set (i # i' # is)) i' es = keep_from (set (i' # is)) i' es"
      using i(3) by (intro keep_from_cong) auto
    finally show ?thesis .
  qed
  have prems': "sorted_wrt (<) (i' # is)" "\<forall>j \<in> set (i' # is). j < length es" using Cons.prems(1,2) by simp_all
  show ?case
  proof (cases "i' = Suc i")
    case True
    have "dst \<le> lp_pos es i'" using Cons.prems(5) lp_pos_mono [of i i' es] i by simp
    from Cons.IH [OF prems' Cons.prems(3,4) this drop_at] i(3) True keep ne skip
    show ?thesis by simp
  next
    case False
    let ?mid = "take (i' - Suc i) (drop (Suc i) es)"
    have gt: "lp_pos es i' > lp_pos es (Suc i)"
    proof -
      have "Suc i < i'" using False i(3) by simp
      then have "lp_pos es (Suc (Suc i)) \<le> lp_pos es i'" by (intro lp_pos_mono) simp
      moreover have "lp_entry (es ! Suc i)" using l \<open>Suc i < i'\<close> i(2) by (intro lp_nth_entry) simp_all
      then have "lp_pos es (Suc i) < lp_pos es (Suc (Suc i))"
        using lp_entry_size(4) [of "es ! Suc i"] \<open>Suc i < i'\<close> i(2) by (simp add: lp_pos_Suc)
      ultimately show ?thesis by simp
    qed
    have len: "lp_pos es i' - lp_pos es (Suc i) = length (concat ?mid)"
    proof -
      have "take i' es = take (Suc i) es @ ?mid" using i(3) by (metis Suc_leI le_add_diff_inverse take_add)
      then show ?thesis by (simp add: lp_pos_def)
    qed
    have src: "chunk lp (lp_pos es (Suc i)) (length (concat ?mid)) = concat ?mid"
    proof -
      have "chunk lp (lp_pos es (Suc i)) (length (concat ?mid)) = chunk blk (lp_pos es (Suc i)) (lp_pos es i' - lp_pos es (Suc i))"
        unfolding chunk_def len using drop_at [of "Suc i"] by simp
      also have "\<dots> = concat ?mid" unfolding blk using i by (intro chunk_lp_pos) simp_all
      finally show ?thesis .
    qed
    define lp1 where "lp1 = memmove lp dst (lp_pos es (Suc i)) (length (concat ?mid))"
    have dst': "dst + length (concat ?mid) \<le> lp_pos es i'"
      using Cons.prems(5) lp_pos_mono [of i "Suc i" es] len gt by simp
    have pos': "lp_pos es i' < length lp" using i Cons.prems(3) lp_pos_less_length [of i' es n rest] by (simp add: blk)
    have lp1: "lp1 = take dst lp @ concat ?mid @ drop (dst + length (concat ?mid)) lp"
      by (simp add: lp1_def memmove_def src blit_def)
    have lk: "length kept = dst" using Cons.prems(4,5) pos_lt by auto
    have "length lp1 = length blk" using dst' pos' Cons.prems(3) by (simp add: lp1)
    moreover have "take (dst + length (concat ?mid)) lp1 = kept @ concat ?mid"
      using lk Cons.prems(4) by (simp add: lp1)
    moreover have "drop (lp_pos es i') lp1 = drop (lp_pos es i') blk"
    proof -
      have "drop (lp_pos es i') lp1 = drop (lp_pos es i') lp"
        using dst' pos' by (simp add: lp1)
      then show ?thesis using drop_at i(3) by simp
    qed
    ultimately obtain lp' where lp':
      "batch_delete_loop lp1 (map (lp_pos es) (i' # is)) (7 + length (concat es)) (dst + length (concat ?mid)) =
        Ok (lp', dst + length (concat ?mid) + length (concat (keep_from (set (i' # is)) i' es)) + 1)"
      "take (dst + length (concat ?mid) + length (concat (keep_from (set (i' # is)) i' es)) + 1) lp' =
        (kept @ concat ?mid) @ concat (keep_from (set (i' # is)) i' es) @ [LP_EOF]" "length lp' = length blk"
      using Cons.IH [OF prems', of lp1 "dst + length (concat ?mid)" "kept @ concat ?mid"] dst' by blast
    moreover have "batch_delete_loop lp (map (lp_pos es) (i # i' # is)) (7 + length (concat es)) dst =
        batch_delete_loop lp1 (map (lp_pos es) (i' # is)) (7 + length (concat es)) (dst + length (concat ?mid))"
      using ne skip gt len by (simp add: Let_def lp1_def)
    ultimately show ?thesis unfolding keep by (intro exI [of _ lp']) (simp add: add.assoc)
  qed
qed


lemma keep_from_entry: "list_all P xs \<Longrightarrow> list_all P (keep_from ds k xs)"
  by (auto simp: keep_from_def list_all_iff)

lemma length_keep_from_0:
  assumes "distinct is" "\<forall>j \<in> set is. j < length xs"
  shows "length (keep_from (set is) 0 xs) = length xs - length is"
proof -
  have "length (filter (\<lambda>j. j \<notin> set is) [0..<length xs]) = card ({..<length xs} - set is)"
    by (subst distinct_card [symmetric]) (auto intro!: arg_cong [of _ _ card])
  also have "\<dots> = length xs - length is"
    using assms by (subst card_Diff_subset) (auto simp: distinct_card)
  finally show ?thesis by (simp add: keep_from_def)
qed

lemma keep_from_0_prefix:
  assumes "i \<le> length xs" "\<forall>k \<in> ds. i \<le> k"
  shows "keep_from ds 0 xs = take i xs @ keep_from ds i xs"
  using keep_from_run [of 0 i xs ds] assms by force

lemma lpBatchDelete_block:
  assumes fits: "lp_fits n es" and "is": "sorted_wrt (<) is" "\<forall>j \<in> set is. j < length es" "is \<noteq> []"
  shows "lpBatchDelete (lp_block n es rest) (map (lp_pos es) is) =
    Ok (lp_block (minus_count n (length is)) (keep_from (set is) 0 es) [])"
proof -
  obtain i js where ij: "is = i # js" using "is"(3) by (cases "is") auto
  let ?lp = "lp_block n es rest" and ?T = "7 + length (concat es)" and ?keep = "keep_from (set is) i es"
  have l: "list_all lp_entry es" and n: "n < 2 ^ 16" "n = LP_HDR_NUMELE_UNKNOWN \<or> n = length es"
    using fits by (auto simp: lp_fits_def)
  have il: "i < length es" using "is"(2) ij by simp
  have total: "lpGetTotalBytes ?lp = ?T" using lpBytes_block [OF fits] by (simp add: lpBytes_def)
  have eof: "?lp ! (?T - 1) = LP_EOF" using lp_block_nth(2) [of n es rest] by (simp add: lp_pos_end)
  have lt: "lp_pos es i \<le> length ?lp" using lp_pos_less_length [of i es n rest] il by simp
  obtain lp' where loop: "batch_delete_loop ?lp (map (lp_pos es) is) ?T (lp_pos es i) =
      Ok (lp', lp_pos es i + length (concat ?keep) + 1)"
    and tk: "take (lp_pos es i + length (concat ?keep) + 1) lp' =
      take (lp_pos es i) ?lp @ concat ?keep @ [LP_EOF]" and len: "length lp' = length ?lp"
    using batch_delete_loop_block [OF refl l, of i js ?lp n rest "lp_pos es i" "take (lp_pos es i) ?lp"] "is" ij by auto
  define d where "d = lp_pos es i + length (concat ?keep) + 1"
  have "sorted_wrt (<) is \<Longrightarrow> \<forall>k \<in> set is. i \<le> k" unfolding ij by auto
  then have keep0: "keep_from (set is) 0 es = take i es @ ?keep"
    using il "is"(1) by (intro keep_from_0_prefix) simp_all
  have d: "d = 7 + length (concat (keep_from (set is) 0 es))"
    unfolding keep0 by (simp add: d_def lp_pos_def LP_HDR_SIZE_def)
  have keeplen: "length (concat (keep_from (set is) 0 es)) \<le> length (concat es)"
  proof -
    have "length (take d lp') = d" using tk d_def lt by simp
    then have "d \<le> length lp'" by (metis length_take min.cobounded1)
    have "length (concat (map (\<lambda>j. es ! j) (filter (\<lambda>j. j \<notin> set is) js'))) \<le> length (concat (map (\<lambda>j. es ! j) js'))" for js'
      by (induction js') simp_all
    from this [of "[0..<length es]"] show ?thesis by (simp add: keep_from_def map_nth)
  qed
  have "take d lp' = le_bytes 4 ?T @ le_bytes 2 n @ concat (keep_from (set is) 0 es) @ [LP_EOF]"
    using tk il unfolding d_def keep0 by (simp add: take_lp_pos)
  then have lp': "lp' = le_bytes 4 ?T @ le_bytes 2 n @ concat (keep_from (set is) 0 es) @ LP_EOF # drop d lp'"
    using append_take_drop_id [of d lp'] by (metis append.assoc append_Cons append_Nil)
  have T': "?T - (?T - d) = d" using keeplen d by linarith
  have eof': "lp' ! (d - 1) = LP_EOF"
  proof -
    have "d - 1 = 6 + length (concat (keep_from (set is) 0 es))" using d by simp
    then show ?thesis by (subst lp') (simp only: header_nth length_le_bytes nth_append_length)
  qed
  have cnt: "n = LP_HDR_NUMELE_UNKNOWN \<or> length is \<le> n"
  proof -
    have "distinct is" using "is"(1) by (simp add: strict_sorted_iff)
    then have "length is = card (set is)" by (simp add: distinct_card)
    also have "\<dots> \<le> card {..<length es}" using "is"(2) by (intro card_mono) auto
    finally show ?thesis using n(2) by auto
  qed
  have fit': "7 + length (concat (keep_from (set is) 0 es)) < 2 ^ 32"
    using keeplen fits unfolding lp_fits_def by linarith
  have hd: "hd (map (lp_pos es) is) = lp_pos es i" by (simp add: ij)
  have ne: "(map (lp_pos es) is = []) = False" by (simp add: ij)
  have asserts: "(?lp ! (?T - 1) = LP_EOF) = True" "(lp' ! (d - 1) = LP_EOF) = True" using eof eof' by simp_all
  show ?thesis
    unfolding lpBatchDelete_def Let_def total hd ne if_False asserts(1) c_assert_simps loop
      bind_outcome.simps split_conv d_def [symmetric] T' asserts(2) length_map
    unfolding d set_header_minus [OF lp' n(1) cnt] lpShrinkToFit_block [OF fit'] ..
qed

section \<open>Merging\<close>

definition merged_count :: "nat \<Rightarrow> nat" where
  "merged_count k = (if k < 2 ^ 16 - 1 then k else 2 ^ 16 - 1)"

lemma lpMerge_block:
  assumes f: "lp_fits n1 es1" and s: "lp_fits n2 es2"
    and fit: "7 + length (concat (es1 @ es2)) < UINT32_MAX"
  defines "m \<equiv> lp_block (merged_count (length (es1 @ es2))) (es1 @ es2) []"
  shows "lpMerge False (Some (lp_block n1 es1 rest1)) (Some (lp_block n2 es2 rest2)) =
    Ok (Some (if length (concat es2) \<le> length (concat es1) then (m, Some m, None) else (m, None, Some m)))"
proof -
  obtain k1 where k1: "lpLength (lp_block n1 es1 rest1) = Ok (length es1, lp_block k1 es1 rest1)" "lp_fits k1 es1"
    using lpLength_block [OF f] by blast
  obtain k2 where k2: "lpLength (lp_block n2 es2 rest2) = Ok (length es2, lp_block k2 es2 rest2)" "lp_fits k2 es2"
    using lpLength_block [OF s] by blast
  let ?t1 = "7 + length (concat es1)" and ?t2 = "7 + length (concat es2)"
  let ?es = "es1 @ es2"
  let ?t = "7 + length (concat ?es)"
  have t: "?t1 + ?t2 - LP_HDR_SIZE - 1 = ?t" by (simp add: LP_HDR_SIZE_def)
  have bytes: "lpBytes (lp_block n1 es1 rest1) = ?t1" "lpBytes (lp_block n2 es2 rest2) = ?t2"
    using f s by (simp_all add: lpBytes_block)
  have hdr: "lpSetTotalBytes (lpSetNumElements (le_bytes 4 x @ le_bytes 2 y @ concat ?es @ LP_EOF # r)
      (merged_count (length ?es))) ?t = lp_block (merged_count (length ?es)) ?es r" for x y r
    by (rule set_header(2))
  have app: "lpSetTotalBytes (lpSetNumElements (blit (zrealloc (lp_block k1 es1 rest1) ?t) (?t1 - 1)
      (chunk (lp_block k2 es2 rest2) LP_HDR_SIZE (?t2 - LP_HDR_SIZE))) (merged_count (length ?es))) ?t = m"
  proof -
    have src: "chunk (lp_block k2 es2 rest2) LP_HDR_SIZE (?t2 - LP_HDR_SIZE) = concat es2 @ [LP_EOF]"
      by (simp add: chunk_def lp_block_def LP_HDR_SIZE_def)
    have tk: "take (?t1 - 1) (zrealloc (lp_block k1 es1 rest1) ?t) = le_bytes 4 ?t1 @ le_bytes 2 k1 @ concat es1"
      by (simp add: zrealloc_def lp_block_def)
    have dr: "drop (?t1 - 1 + length (concat es2 @ [LP_EOF])) (zrealloc (lp_block k1 es1 rest1) ?t) = []"
      by simp
    show ?thesis unfolding m_def hdr [of ?t1 k1 "[]", symmetric] blit_def src tk dr by simp
  qed
  have prep: "lpSetTotalBytes (lpSetNumElements
      (blit (memmove (zrealloc (lp_block k2 es2 rest2) ?t) (?t1 - 1) LP_HDR_SIZE (?t2 - LP_HDR_SIZE)) 0
        (chunk (lp_block k1 es1 rest1) 0 (?t1 - 1))) (merged_count (length ?es))) ?t = m"
  proof -
    let ?z = "zrealloc (lp_block k2 es2 rest2) ?t"
    have src: "chunk (lp_block k1 es1 rest1) 0 (?t1 - 1) = le_bytes 4 ?t1 @ le_bytes 2 k1 @ concat es1"
      by (simp add: chunk_def lp_block_def)
    have "take (?t2) ?z = le_bytes 4 ?t2 @ le_bytes 2 k2 @ concat es2 @ [LP_EOF]"
      by (simp add: zrealloc_def lp_block_def)
    then have "chunk ?z LP_HDR_SIZE (?t2 - LP_HDR_SIZE) = concat es2 @ [LP_EOF]"
      by (simp add: chunk_def LP_HDR_SIZE_def take_drop)
    then have mv: "memmove ?z (?t1 - 1) LP_HDR_SIZE (?t2 - LP_HDR_SIZE) = take (?t1 - 1) ?z @ concat es2 @ [LP_EOF]"
      by (simp add: memmove_def blit_def)
    have "blit (memmove ?z (?t1 - 1) LP_HDR_SIZE (?t2 - LP_HDR_SIZE)) 0
        (le_bytes 4 ?t1 @ le_bytes 2 k1 @ concat es1) = le_bytes 4 ?t1 @ le_bytes 2 k1 @ concat ?es @ LP_EOF # []"
      unfolding mv by (simp add: blit_def)
    then show ?thesis unfolding m_def src hdr [of ?t1 k1 "[]", symmetric] by simp
  qed
  have cnt: "(if length es1 + length es2 < 2 ^ 16 - 1 then length es1 + length es2 else 2 ^ 16 - 1) =
      merged_count (length ?es)" by (simp add: merged_count_def)
  have fit': "(?t < UINT32_MAX) = True" using fit by simp
  show ?thesis
  proof (cases "?t2 \<le> ?t1")
    case True
    then have le: "(?t2 \<le> ?t1) = True" by simp
    show ?thesis
      unfolding lpMerge_def prod.case option.case if_False bytes k1(1) k2(1) bind_outcome.simps Let_def split_conv
        le if_True t cnt fit' c_assert_simps app
      using True by simp
  next
    case False
    then have le: "(?t2 \<le> ?t1) = False" by simp
    show ?thesis
      unfolding lpMerge_def prod.case option.case if_False bytes k1(1) k2(1) bind_outcome.simps Let_def split_conv
        le t cnt fit' c_assert_simps prep
      using False by simp
  qed
qed

end
