(* ===== verification/Seq_Interface.thy ===== *)
theory Seq_Interface
  imports Prelude
begin

text \<open>
  The contract of a stored sequence: what code that keeps a list in some encoding relies on
  (insertion, replacement and removal by position). A step may fail for lack of room
  (\<open>Ok None\<close>) or stop the process (\<open>Abort\<close>); the contract says that it does neither while the
  sizes stay under the provider's limit, and that it then does what the list operation does.
\<close>

datatype 'a seq_op = Insert_at nat 'a | Replace_at nat 'a | Remove_at nat

primrec seq_spec :: "'a seq_op \<Rightarrow> 'a list \<Rightarrow> 'a list" where
  "seq_spec (Insert_at i x) xs = take i xs @ x # drop i xs"
| "seq_spec (Replace_at i x) xs = xs[i := x]"
| "seq_spec (Remove_at i) xs = take i xs @ drop (Suc i) xs"

primrec seq_op_ok :: "('a \<Rightarrow> bool) \<Rightarrow> 'a seq_op \<Rightarrow> bool" where
  "seq_op_ok ok (Insert_at i x) = ok x"
| "seq_op_ok ok (Replace_at i x) = ok x"
| "seq_op_ok ok (Remove_at i) = True"

primrec seq_op_cost :: "('a \<Rightarrow> nat) \<Rightarrow> 'a seq_op \<Rightarrow> nat" where
  "seq_op_cost cost (Insert_at i x) = cost x"
| "seq_op_cost cost (Replace_at i x) = cost x"
| "seq_op_cost cost (Remove_at i) = 0"

fun seq_run :: "('s \<Rightarrow> 'a seq_op \<Rightarrow> 's option outcome) \<Rightarrow> 's \<Rightarrow> 'a seq_op list \<Rightarrow> 's option outcome" where
  "seq_run step s [] = Ok (Some s)"
| "seq_run step s (c # cs) =
     (case step s c of
        Abort \<Rightarrow> Abort
      | Ok None \<Rightarrow> Ok None
      | Ok (Some s') \<Rightarrow> seq_run step s' cs)"

locale stored_sequence =
  fixes start :: "'s \<Rightarrow> bool"
    and step :: "'s \<Rightarrow> 'a seq_op \<Rightarrow> 's option outcome"
    and inv :: "'s \<Rightarrow> 'a list \<Rightarrow> bool"
    and ok :: "'a \<Rightarrow> bool"
    and cost :: "'a \<Rightarrow> nat"
    and used :: "'s \<Rightarrow> nat"
    and limit :: nat
  assumes start_inv: "start s \<Longrightarrow> inv s []"
    and step_spec: "inv s xs \<Longrightarrow> seq_op_ok ok c \<Longrightarrow> used s + seq_op_cost cost c < limit \<Longrightarrow>
          \<exists>s'. step s c = Ok (Some s') \<and> inv s' (seq_spec c xs) \<and> used s' \<le> used s + seq_op_cost cost c"
begin

lemma run_spec:
  assumes "inv s xs" "\<forall>c \<in> set cs. seq_op_ok ok c" "used s + sum_list (map (seq_op_cost cost) cs) < limit"
  shows "\<exists>s'. seq_run step s cs = Ok (Some s') \<and> inv s' (fold seq_spec cs xs)"
  using assms
proof (induction cs arbitrary: s xs)
  case (Cons c cs)
  obtain t where t: "step s c = Ok (Some t)" "inv t (seq_spec c xs)" "used t \<le> used s + seq_op_cost cost c"
    using step_spec [OF Cons.prems(1), of c] Cons.prems(2,3) by auto
  have "used t + sum_list (map (seq_op_cost cost) cs) < limit" using t(3) Cons.prems(3) by simp
  from Cons.IH [OF t(2) _ this] Cons.prems(2) t(1) show ?case by simp
qed simp

lemma run_start:
  assumes "start s" "\<forall>c \<in> set cs. seq_op_ok ok c" "used s + sum_list (map (seq_op_cost cost) cs) < limit"
  shows "\<exists>s'. seq_run step s cs = Ok (Some s') \<and> inv s' (fold seq_spec cs [])"
  using run_spec [OF start_inv [OF assms(1)] assms(2,3)] .

end

end
