(* ===== verification/Lp_Sequence.thy ===== *)
theory Lp_Sequence
  imports Lp_Refine Seq_Interface
begin

text \<open>
  A listpack as a stored sequence of strings, and what the other operations of \<open>listpack.c\<close> do to
  the list it stands for.
\<close>

section \<open>Contents\<close>

definition lp_contents :: "bytes \<Rightarrow> bytes list \<Rightarrow> bool" where
  "lp_contents lp xs \<longleftrightarrow> (\<exists>es. lp_repr lp es \<and> xs = map lp_content es)"

lemma lp_contentsI: "lp_fits n es \<Longrightarrow> xs = map lp_content es \<Longrightarrow> lp_contents (lp_block n es rest) xs"
  unfolding lp_contents_def lp_repr_def by blast

lemma lp_contentsE:
  assumes "lp_contents lp xs"
  obtains n es rest where "lp = lp_block n es rest" "lp_fits n es" "xs = map lp_content es"
  using assms unfolding lp_contents_def lp_repr_def by blast

definition lp_used :: "bytes \<Rightarrow> nat" where "lp_used lp = lpGetTotalBytes lp"

definition lp_cost :: "bytes \<Rightarrow> nat" where "lp_cost s = length s + 10"

lemma lp_used_block: "lp_fits n es \<Longrightarrow> lp_used (lp_block n es rest) = 7 + length (concat es)"
  by (simp add: lp_used_def lp_fits_def)

lemma lp_make_cost: "length (lp_make (lp_encode s)) \<le> lp_cost s"
proof (cases "lpStringToInt64 s")
  case None
  have "length (lpEncodeString s) \<le> length s + 5" by (simp add: lpEncodeString_def Let_def)
  moreover have "lpEncodeBacklenBytes (length (lpEncodeString s)) \<le> 5" by simp
  ultimately have "length (lpEncodeString s) + lpEncodeBacklenBytes (length (lpEncodeString s)) \<le> length s + 10"
    by linarith
  then show ?thesis using None by (simp add: lp_make_def lp_encode_def length_lpEncodeBacklen lp_cost_def)
next
  case (Some v)
  have "length (lpEncodeIntegerGetType v) \<le> 9" by (simp add: lpEncodeIntegerGetType_def Let_def)
  moreover from this have "lpEncodeBacklenBytes (length (lpEncodeIntegerGetType v)) = 1"
    by (simp add: lpEncodeBacklenBytes_def)
  ultimately show ?thesis using Some by (simp add: lp_make_def lp_encode_def length_lpEncodeBacklen lp_cost_def)
qed

lemma lp_storable_cost: "lp_cost s < 2 ^ 32 \<Longrightarrow> lp_storable s"
  by (simp add: lp_storable_def lp_cost_def)

lemma map_insert_at: "map f (insert_at i xs ys) = insert_at i (map f xs) (map f ys)"
  by (simp add: insert_at_def take_map drop_map)

lemma list_all_insert_at: "list_all P xs \<Longrightarrow> list_all P ys \<Longrightarrow> list_all P (insert_at i xs ys)"
  by (auto simp: insert_at_def list_all_iff dest: in_set_takeD in_set_dropD)

lemma lp_fits_insert:
  assumes "lp_fits n es" "list_all lp_entry new" "i \<le> length es"
    "7 + length (concat es) + length (concat new) < 2 ^ 32"
  shows "lp_fits (next_count n (length new)) (insert_at i new es)"
proof -
  have "length (concat es) = length (concat (take i es)) + length (concat (drop i es))"
    by (metis append_take_drop_id concat_append length_append)
  then have "7 + length (concat (insert_at i new es)) < 2 ^ 32"
    using assms(4) by (simp add: insert_at_def)
  moreover have "list_all lp_entry (insert_at i new es)"
    using assms by (simp add: lp_fits_def list_all_insert_at)
  moreover have "length (insert_at i new es) = length es + length new"
    using assms(3) by (simp add: insert_at_def)
  ultimately show ?thesis
    using assms(1) by (auto simp: lp_fits_def next_count_def LP_HDR_NUMELE_UNKNOWN_def)
qed

section \<open>Insertion of a string\<close>

lemma lp_arg_string: "lp_arg (Some s) None = lp_encode s"
  by (simp add: lp_arg_def lp_encoded_arg_string)

lemma lp_insert_string_block:
  assumes fits: "lp_fits n es" and s: "lp_storable s" and i: "i \<le> length es"
    and T: "7 + length (concat es) + length (lp_make (lp_encode s)) < 2 ^ 32"
  shows "\<exists>n' rest'. lpInsertString (lp_block n es rest) s (lp_pos es i) LP_BEFORE =
      Ok (Some (lp_block n' (insert_at i [lp_make (lp_encode s)] es) rest', Some (lp_pos es i)))
    \<and> lp_fits n' (insert_at i [lp_make (lp_encode s)] es)"
proof -
  obtain rest' where "lpInsertString (lp_block n es rest) s (lp_pos es i) LP_BEFORE =
      Ok (Some (lp_block (next_count n 1) (insert_at i [lp_make (lp_encode s)] es) rest', Some (lp_pos es i)))"
    using lpInsert_before_block [of "Some s" None i es n rest] fits T i
    by (auto simp: lpInsertString_def lp_arg_string lp_fits_def)
  moreover have "lp_fits (next_count n 1) (insert_at i [lp_make (lp_encode s)] es)"
    using lp_fits_insert [OF fits, of "[lp_make (lp_encode s)]" i] lp_make_encode [OF s] T i by simp
  ultimately show ?thesis by blast
qed

text \<open>The way clients address elements: by index, with \<open>lpSeek\<close>; past the end they append.\<close>

primrec lp_step :: "bytes \<Rightarrow> bytes seq_op \<Rightarrow> bytes option outcome" where
  "lp_step lp (Insert_at i s) =
     bind_outcome (lpSeek lp (int i)) (\<lambda>p.
     bind_outcome (case p of None \<Rightarrow> lpAppend lp s | Some p \<Rightarrow> lpInsertString lp s p LP_BEFORE) (\<lambda>r.
     Ok (map_option fst r)))"
| "lp_step lp (Replace_at i s) =
     bind_outcome (lpSeek lp (int i)) (\<lambda>p.
     case p of
       None \<Rightarrow> Ok (Some lp)
     | Some p \<Rightarrow> bind_outcome (lpReplace lp p s) (\<lambda>r. Ok (map_option fst r)))"
| "lp_step lp (Remove_at i) =
     bind_outcome (lpSeek lp (int i)) (\<lambda>p.
     case p of
       None \<Rightarrow> Ok (Some lp)
     | Some p \<Rightarrow> bind_outcome (lpDelete lp p) (\<lambda>r. Ok (map_option fst r)))"

lemma lpAppend_insert:
  "lp_fits n es \<Longrightarrow> lpAppend (lp_block n es rest) s = lpInsertString (lp_block n es rest) s (lp_pos es (length es)) LP_BEFORE"
  by (simp add: lpAppend_def lpInsertString_def lp_fits_def lp_pos_end)

lemma seek_nat: "seek_target es (int i) = (if i < length es then Some i else None)"
  by (simp add: seek_target_def)

lemma lp_step_spec:
  assumes "lp_contents lp xs" "seq_op_ok lp_storable c" "lp_used lp + seq_op_cost lp_cost c < 2 ^ 32"
  shows "\<exists>lp'. lp_step lp c = Ok (Some lp') \<and> lp_contents lp' (seq_spec c xs)
    \<and> lp_used lp' \<le> lp_used lp + seq_op_cost lp_cost c"
proof -
  obtain n es rest where lp: "lp = lp_block n es rest" and fits: "lp_fits n es" and xs: "xs = map lp_content es"
    using assms(1) by (rule lp_contentsE)
  have used: "lp_used lp = 7 + length (concat es)" using fits by (simp add: lp lp_used_block)
  show ?thesis
  proof (cases c)
    case (Insert_at i s)
    let ?e = "lp_make (lp_encode s)" and ?j = "min i (length es)"
    have s: "lp_storable s" using assms(2) Insert_at by simp
    have T: "7 + length (concat es) + length ?e < 2 ^ 32"
      using assms(3) lp_make_cost [of s] used Insert_at by simp
    obtain n' rest' where ins: "lpInsertString lp s (lp_pos es ?j) LP_BEFORE =
        Ok (Some (lp_block n' (insert_at ?j [?e] es) rest', Some (lp_pos es ?j)))" "lp_fits n' (insert_at ?j [?e] es)"
      using lp_insert_string_block [OF fits s _ T, of ?j rest] lp by auto
    have step: "lp_step lp c = Ok (Some (lp_block n' (insert_at ?j [?e] es) rest'))"
      using ins(1) by (cases "i < length es")
        (simp_all add: Insert_at lp lpSeek_pos [OF fits] seek_nat lpAppend_insert [OF fits] min_def split: if_splits)
    have "map lp_content (insert_at ?j [?e] es) = seq_spec c xs"
      using lp_make_encode(2) [OF s] by (auto simp: insert_at_def take_map drop_map xs Insert_at min_def)
    then have "lp_contents (lp_block n' (insert_at ?j [?e] es) rest') (seq_spec c xs)"
      using ins(2) by (intro lp_contentsI) simp_all
    moreover have "lp_used (lp_block n' (insert_at ?j [?e] es) rest') \<le> lp_used lp + seq_op_cost lp_cost c"
      using lp_used_block [OF ins(2)] used lp_make_cost [of s] Insert_at by (simp add: length_insert_at_concat)
    ultimately show ?thesis using step by blast
  next
    case (Replace_at i s)
    let ?e = "lp_make (lp_encode s)"
    have s: "lp_storable s" using assms(2) Replace_at by simp
    show ?thesis
    proof (cases "i < length es")
      case False
      then have "lp_step lp c = Ok (Some lp)" "seq_spec c xs = xs"
        by (simp_all add: Replace_at lp lpSeek_pos [OF fits] seek_nat xs list_update_beyond)
      then show ?thesis using assms(1) by auto
    next
      case True
      have upd: "length (concat (es[i := ?e])) + length (es ! i) = length (concat es) + length ?e"
        using length_concat_update [OF True] True by (simp add: upd_conv_take_nth_drop)
      then have T: "7 + length (concat (es[i := ?e])) < 2 ^ 32"
        "7 + length (concat es) + length ?e - length (es ! i) < 2 ^ 32"
        using assms(3) lp_make_cost [of s] used Replace_at by simp_all
      obtain rest' where rep: "lpReplace lp (lp_pos es i) s = Ok (Some (lp_block n (es[i := ?e]) rest', Some (lp_pos es i)))"
        using lpInsert_replace_block [of "Some s" None, OF _ True fits, of rest] T(2)
        by (auto simp: lpReplace_def lp lp_arg_string)
      have fits': "lp_fits n (es[i := ?e])"
        using fits T(1) lp_make_encode(1) [OF s] True by (auto simp: lp_fits_def list_all_length nth_list_update)
      have "lp_contents (lp_block n (es[i := ?e]) rest') (seq_spec c xs)"
        using fits' lp_make_encode(2) [OF s] by (intro lp_contentsI) (simp_all add: Replace_at xs map_update)
      moreover have "lp_used (lp_block n (es[i := ?e]) rest') \<le> lp_used lp + seq_op_cost lp_cost c"
        using lp_used_block [OF fits'] used upd lp_make_cost [of s] Replace_at by simp
      moreover have "lp_step lp c = Ok (Some (lp_block n (es[i := ?e]) rest'))"
        using rep True by (simp add: Replace_at lp lpSeek_pos [OF fits] seek_nat)
      ultimately show ?thesis by blast
    qed
  next
    case (Remove_at i)
    show ?thesis
    proof (cases "i < length es")
      case False
      then have "lp_step lp c = Ok (Some lp)" "seq_spec c xs = xs"
        by (simp_all add: Remove_at lp lpSeek_pos [OF fits] seek_nat xs)
      then show ?thesis using assms(1) by auto
    next
      case True
      let ?es = "take i es @ drop (Suc i) es" and ?n = "if n = LP_HDR_NUMELE_UNKNOWN then n else n - 1"
      obtain rest' q where del: "lpDelete lp (lp_pos es i) = Ok (Some (lp_block ?n ?es rest', q))"
        using lpDelete_block [OF True fits, of rest] by (auto simp: lp)
      have len: "length (concat ?es) \<le> length (concat es)" using length_concat_update [OF True] by simp
      have "list_all lp_entry ?es"
        using fits by (auto simp: lp_fits_def list_all_iff dest: in_set_takeD in_set_dropD)
      then have fits': "lp_fits ?n ?es" using fits True len by (auto simp: lp_fits_def)
      have "lp_contents (lp_block ?n ?es rest') (seq_spec c xs)"
        using fits' by (intro lp_contentsI) (simp_all add: Remove_at xs take_map drop_map)
      moreover have "lp_used (lp_block ?n ?es rest') \<le> lp_used lp + seq_op_cost lp_cost c"
        using lp_used_block [OF fits'] used len by simp
      moreover have "lp_step lp c = Ok (Some (lp_block ?n ?es rest'))"
        using del True by (simp add: Remove_at lp lpSeek_pos [OF fits] seek_nat)
      ultimately show ?thesis by blast
    qed
  qed
qed

lemma lpNew_contents: "lp_contents (lpNew capacity) []"
proof -
  obtain rest where "lpNew capacity = lp_block 0 [] rest" using lpNew_block by blast
  then show ?thesis using lp_contentsI [of 0 "[]" "[]" rest] by (simp add: lp_fits_def)
qed

interpretation lpseq: stored_sequence "\<lambda>lp. \<exists>capacity. lp = lpNew capacity" lp_step lp_contents lp_storable lp_cost
  lp_used "2 ^ 32"
  by unfold_locales (use lpNew_contents lp_step_spec in blast)+

end
