(* ===== verification/Lp_Theorems.thy ===== *)
theory Lp_Theorems
  imports Lp_Sequence
begin

text \<open>
  What the operations of \<open>listpack.c\<close> do to the list of strings a listpack stands for
  (\<open>lp_contents\<close>), over the block lemmas of the earlier parts.
\<close>

section \<open>Walks\<close>

text \<open>The strings read from \<open>p\<close> on by a walk with \<open>lpNext\<close> or \<open>lpPrev\<close>, at most \<open>fuel\<close> of them.\<close>

fun lp_walk :: "(bytes \<Rightarrow> nat \<Rightarrow> nat option outcome) \<Rightarrow> bytes \<Rightarrow> bytes \<Rightarrow> nat \<Rightarrow> nat option \<Rightarrow> bytes list outcome" where
  "lp_walk step lp buf fuel None = Ok []"
| "lp_walk step lp buf 0 (Some p) = Ok []"
| "lp_walk step lp buf (Suc fuel) (Some p) =
     bind_outcome (step lp p) (\<lambda>q.
     bind_outcome (lp_walk step lp buf fuel q) (\<lambda>xs.
     Ok (lpGetString (drop p lp) buf # xs)))"

lemma drop_block_entry: "i < length es \<Longrightarrow> \<exists>r. drop (lp_pos es i) (lp_block n es rest) = es ! i @ r"
proof -
  assume i: "i < length es"
  have "lp_block n es rest = (le_bytes 4 (7 + length (concat es)) @ le_bytes 2 n @ concat (take i es)) @
      es ! i @ concat (drop (Suc i) es) @ LP_EOF # rest"
    using id_take_nth_drop [OF i] unfolding lp_block_def
    by (metis append.assoc concat.simps(2) concat_append)
  moreover have "length (le_bytes 4 (7 + length (concat es)) @ le_bytes 2 n @ concat (take i es)) = lp_pos es i"
    by (simp add: lp_pos_def LP_HDR_SIZE_def)
  ultimately show ?thesis by (metis append_eq_conv_conj)
qed

lemma lpGetString_pos:
  assumes "i < length es" "lp_fits n es" "LP_INTBUF_SIZE \<le> length buf"
  shows "lpGetString (drop (lp_pos es i) (lp_block n es rest)) buf = lp_content (es ! i)"
proof -
  obtain r where "drop (lp_pos es i) (lp_block n es rest) = es ! i @ r" using drop_block_entry [OF assms(1)] by blast
  moreover have "lp_entry (es ! i)" using assms(1,2) by (simp add: lp_fits_def list_all_length)
  ultimately show ?thesis using lpGetString_content [OF _ assms(3)] by simp
qed

lemma lp_walk_next:
  assumes "lp_fits n es" "LP_INTBUF_SIZE \<le> length buf"
  shows "length es - i \<le> fuel \<Longrightarrow> i \<le> length es \<Longrightarrow>
    lp_walk lpNext (lp_block n es rest) buf fuel (if i < length es then Some (lp_pos es i) else None) =
    Ok (map lp_content (drop i es))"
proof (induction "length es - i" arbitrary: i fuel)
  case (Suc k)
  then obtain g where g: "fuel = Suc g" by (cases fuel) auto
  have i: "i < length es" using Suc.hyps(2) by simp
  have "lp_walk lpNext (lp_block n es rest) buf g (if Suc i < length es then Some (lp_pos es (Suc i)) else None) =
      Ok (map lp_content (drop (Suc i) es))"
    using Suc g i by simp
  then show ?case using i g
    by (simp add: lpNext_pos [OF i assms(1)] lpGetString_pos [OF i assms] Cons_nth_drop_Suc [symmetric])
qed simp

lemma lp_walk_prev:
  assumes "lp_fits n es" "LP_INTBUF_SIZE \<le> length buf"
  shows "i \<le> fuel \<Longrightarrow> i \<le> length es \<Longrightarrow>
    lp_walk lpPrev (lp_block n es rest) buf fuel (if i = 0 then None else Some (lp_pos es (i - 1))) =
    Ok (map lp_content (rev (take i es)))"
proof (induction i arbitrary: fuel)
  case (Suc i)
  then obtain g where g: "fuel = Suc g" by (cases fuel) auto
  have i: "i < length es" using Suc.prems by simp
  have "lp_walk lpPrev (lp_block n es rest) buf g (if i = 0 then None else Some (lp_pos es (i - 1))) =
      Ok (map lp_content (rev (take i es)))"
    using Suc g by simp
  then show ?case using i g
    by (simp add: lpPrev_pos [OF _ assms(1)] lpGetString_pos [OF i assms] take_Suc_conv_app_nth)
qed simp

section \<open>Properties\<close>

text \<open>
  Property C3: a new listpack, after any sequence of insertions, replacements and deletions by
  position whose strings take less than 2 to the 32 bytes in all, holds exactly the strings of the
  list after the same operations; no operation fails, and none hits an assertion.
\<close>

theorem lp_run_refines_lists:
  assumes "\<forall>c \<in> set cs. seq_op_ok lp_storable c"
    and "7 + sum_list (map (seq_op_cost lp_cost) cs) < 2 ^ 32"
  shows "\<exists>lp. seq_run lp_step (lpNew capacity) cs = Ok (Some lp) \<and> lp_contents lp (fold seq_spec cs [])"
proof -
  obtain rest where "lpNew capacity = lp_block 0 [] rest" using lpNew_block by blast
  then have "lp_used (lpNew capacity) = 7" using lp_used_block [of 0 "[]" rest] by (simp add: lp_fits_def)
  then show ?thesis using lpseq.run_start [of "lpNew capacity" cs] assms by auto
qed

theorem lp_run_refines_lists_witness:
  "\<exists>lp. seq_run lp_step (lpNew 100) [Insert_at 0 [0x31], Insert_at 0 [0x61, 0x62], Replace_at 1 [0x2d, 0x37], Insert_at 5 [], Remove_at 0]
      = Ok (Some lp) \<and> lp_contents lp [[0x2d, 0x37], []]"
  using lp_run_refines_lists [of "[Insert_at 0 [0x31], Insert_at 0 [0x61, 0x62], Replace_at 1 [0x2d, 0x37], Insert_at 5 [], Remove_at 0]" 100]
  by (simp add: lp_storable_def lp_cost_def)

text \<open>
  Property C13: counting gives the length of the list; the walk with \<open>lpFirst\<close> and \<open>lpNext\<close> reads
  the strings in order, the walk with \<open>lpLast\<close> and \<open>lpPrev\<close> in reverse order.
\<close>

theorem lp_walks_read_contents:
  assumes "lp_contents lp xs" and "LP_INTBUF_SIZE \<le> length buf"
  shows "(\<exists>lp'. lpLength lp = Ok (length xs, lp') \<and> lp_contents lp' xs)
    \<and> bind_outcome (lpFirst lp) (lp_walk lpNext lp buf (length lp)) = Ok xs
    \<and> bind_outcome (lpLast lp) (lp_walk lpPrev lp buf (length lp)) = Ok (rev xs)"
proof -
  obtain n es rest where lp: "lp = lp_block n es rest" and fits: "lp_fits n es" and xs: "xs = map lp_content es"
    using assms(1) by (rule lp_contentsE)
  have len: "length es \<le> length lp"
  proof -
    have "list_all (\<lambda>e. e \<noteq> []) es" using fits by (auto simp: lp_fits_def lp_entry_def list_all_iff Let_def)
    then have "length es \<le> length (concat es)" by (induction es) (auto simp: Suc_le_eq neq_Nil_conv)
    then show ?thesis by (simp add: lp)
  qed
  have "\<exists>lp'. lpLength lp = Ok (length xs, lp') \<and> lp_contents lp' xs"
    using lpLength_block [OF fits, of rest] lp_contentsI xs by (auto simp: lp)
  moreover have "bind_outcome (lpFirst lp) (lp_walk lpNext lp buf (length lp)) = Ok xs"
    using lp_walk_next [OF fits assms(2), of 0 "length lp" rest] len
    by (auto simp: lp lpFirst_pos [OF fits] xs)
  moreover have "bind_outcome (lpLast lp) (lp_walk lpPrev lp buf (length lp)) = Ok (rev xs)"
    using lp_walk_prev [OF fits assms(2), of "length es" "length lp" rest] len
    by (auto simp: lp lpLast_pos [OF fits] xs rev_map)
  ultimately show ?thesis by blast
qed

text \<open>A listpack with two strings, for the witnesses.\<close>

definition lp_sample :: "bytes \<Rightarrow> bytes \<Rightarrow> bytes" where
  "lp_sample s t = lp_block 2 [lp_make (lp_encode s), lp_make (lp_encode t)] []"

lemma lp_sample_fits:
  assumes "length s < 1000" "length t < 1000"
  shows "lp_fits 2 [lp_make (lp_encode s), lp_make (lp_encode t)]"
proof -
  have "lp_storable s" "lp_storable t" using assms by (simp_all add: lp_storable_def)
  moreover have "length (lp_make (lp_encode s)) < 2000" "length (lp_make (lp_encode t)) < 2000"
    using lp_make_cost [of s] lp_make_cost [of t] assms by (simp_all add: lp_cost_def)
  ultimately show ?thesis using lp_make_encode(1) by (simp add: lp_fits_def)
qed

lemma lp_sample_contents:
  assumes "length s < 1000" "length t < 1000"
  shows "lp_contents (lp_sample s t) [s, t]"
proof -
  have "lp_storable s" "lp_storable t" using assms by (simp_all add: lp_storable_def)
  then have "[s, t] = map lp_content [lp_make (lp_encode s), lp_make (lp_encode t)]" using lp_make_encode(2) by simp
  then show ?thesis unfolding lp_sample_def by (rule lp_contentsI [OF lp_sample_fits [OF assms]])
qed

theorem lp_walks_read_contents_witness:
  "bind_outcome (lpLast (lp_sample [0x31] [0x61, 0x62]))
     (lp_walk lpPrev (lp_sample [0x31] [0x61, 0x62]) (replicate 21 0) (length (lp_sample [0x31] [0x61, 0x62])))
   = Ok [[0x61, 0x62], [0x31]]"
  using lp_walks_read_contents [OF lp_sample_contents [of "[0x31]" "[0x61, 0x62]"], of "replicate 21 0"]
  by (simp add: LP_INTBUF_SIZE_def)

text \<open>
  Property C16: \<open>lpSeek\<close> takes an index from either end; it returns a null pointer when there is no
  such element and otherwise a pointer at which the string of that element is read, compared, and
  followed by the rest of the walk.
\<close>

theorem lpSeek_reads_nth:
  assumes "lp_contents lp xs" and "LP_INTBUF_SIZE \<le> length buf"
  shows "case seek_target xs index of
      None \<Rightarrow> lpSeek lp index = Ok None
    | Some i \<Rightarrow> \<exists>p. lpSeek lp index = Ok (Some p) \<and> lpGetString (drop p lp) buf = xs ! i
        \<and> (\<forall>s. fst (lpCompare (drop p lp) s None) = (xs ! i = s))
        \<and> bind_outcome (lpNext lp p) Ok = lpSeek lp (int (Suc i))
        \<and> (0 < i \<longrightarrow> bind_outcome (lpPrev lp p) Ok = lpSeek lp (int i - 1))"
proof -
  obtain n es rest where lp: "lp = lp_block n es rest" and fits: "lp_fits n es" and xs: "xs = map lp_content es"
    using assms(1) by (rule lp_contentsE)
  have target: "seek_target xs index = seek_target es index" by (simp add: seek_target_def xs)
  show ?thesis
  proof (cases "seek_target es index")
    case None
    then show ?thesis by (simp add: target lp lpSeek_pos [OF fits])
  next
    case (Some i)
    then have i: "i < length es" by (auto simp: seek_target_def split: if_splits)
    let ?p = "lp_pos es i"
    obtain r where r: "drop ?p lp = es ! i @ r" using drop_block_entry [OF i] lp by blast
    have e: "lp_entry (es ! i)" using i fits by (simp add: lp_fits_def list_all_length)
    have "lpGetString (drop ?p lp) buf = xs ! i" using lpGetString_pos [OF i fits assms(2)] i by (simp add: lp xs)
    moreover have "fst (lpCompare (drop ?p lp) s None) = (xs ! i = s)" for s
      using lpCompare_content [OF e] i by (simp add: r xs)
    moreover have "bind_outcome (lpNext lp ?p) Ok = lpSeek lp (int (Suc i))"
      unfolding lp lpSeek_pos [OF fits] lpNext_pos [OF i fits] by (simp add: seek_target_def nat_add_distrib)
    moreover have "bind_outcome (lpPrev lp ?p) Ok = lpSeek lp (int i - 1)" if "0 < i"
      unfolding lp lpSeek_pos [OF fits] using lpPrev_pos [of i es n rest] fits i that
      by (simp add: seek_target_def nat_diff_distrib)
    moreover have "lpSeek lp index = Ok (Some ?p)" by (simp add: lp lpSeek_pos [OF fits] Some)
    ultimately show ?thesis by (auto simp: target Some)
  qed
qed

theorem lpSeek_reads_nth_witness:
  "\<exists>p. lpSeek (lp_sample [0x31] [0x61, 0x62]) (- 1) = Ok (Some p)
     \<and> lpGetString (drop p (lp_sample [0x31] [0x61, 0x62])) (replicate 21 0) = [0x61, 0x62]"
  using lpSeek_reads_nth [OF lp_sample_contents [of "[0x31]" "[0x61, 0x62]"], of "replicate 21 0" "- 1"]
  by (auto simp: LP_INTBUF_SIZE_def seek_target_def)

text \<open>
  \<open>lpDeleteRange\<close> removes the elements from the index on, at most \<open>num\<close> of them and
  never more than there are; a range that starts outside the list removes nothing.
\<close>

theorem lpDeleteRange_contents:
  assumes "lp_contents lp xs"
  shows "\<exists>lp'. lpDeleteRange lp index num = Ok lp' \<and>
    lp_contents lp' (case seek_target xs index of None \<Rightarrow> xs | Some i \<Rightarrow> take i xs @ drop (i + num) xs)"
proof -
  obtain n es rest where lp: "lp = lp_block n es rest" and fits: "lp_fits n es" and xs: "xs = map lp_content es"
    using assms by (rule lp_contentsE)
  define es' where "es' = (case seek_target es index of None \<Rightarrow> es | Some i \<Rightarrow> take i es @ drop (i + num) es)"
  obtain n' rest' where "lpDeleteRange lp index num = Ok (lp_block n' es' rest')" "lp_fits n' es'"
    using lpDeleteRange_block [OF fits, of rest index num] unfolding lp es'_def by blast
  moreover have "(case seek_target xs index of None \<Rightarrow> xs | Some i \<Rightarrow> take i xs @ drop (i + num) xs) = map lp_content es'"
    by (simp add: es'_def xs seek_target_def take_map drop_map)
  ultimately show ?thesis using lp_contentsI [of n' es' _ rest'] by simp
qed

theorem lpDeleteRange_contents_witness:
  "\<exists>lp'. lpDeleteRange (lp_sample [0x31] [0x61, 0x62]) (- 2) 1 = Ok lp' \<and> lp_contents lp' [[0x61, 0x62]]"
  using lpDeleteRange_contents [OF lp_sample_contents [of "[0x31]" "[0x61, 0x62]"], of "- 2" 1]
  by (simp add: seek_target_def)

text \<open>The string a batch entry stands for, and the entries the code can store.\<close>

definition lp_value_string :: "lp_value \<Rightarrow> bytes" where
  "lp_value_string e = (case e of Lp_String s \<Rightarrow> s | Lp_Integer v \<Rightarrow> decimal v)"

definition lp_value_ok :: "lp_value \<Rightarrow> bool" where
  "lp_value_ok e \<longleftrightarrow> (case e of Lp_String s \<Rightarrow> lp_storable s | Lp_Integer v \<Rightarrow> fits_signed 64 v)"

lemma lp_batch_make_ok:
  assumes "list_all lp_value_ok entries"
  shows "list_all lp_entry (lp_batch_make entries)"
    "map lp_content (lp_batch_make entries) = map lp_value_string entries"
  using assms lp_make_encode lp_make_int
  by (auto simp: lp_batch_make_def lp_batch_bytes_def lp_value_ok_def lp_value_string_def list_all_iff
      split: lp_value.splits)

text \<open>
  Property C18: \<open>lpBatchInsert\<close> puts the strings and integers of the batch, in order, in front of the
  element at a position (at the end for the end mark); it fails without a change only when the
  listpack would not fit in 32 bits.
\<close>

theorem lpBatchInsert_contents:
  assumes "lp_fits n es" and "i \<le> length es" and "entries \<noteq> []" and "list_all lp_value_ok entries"
  shows "\<exists>lp' q. lpBatchInsert (lp_block n es rest) (lp_pos es i) LP_BEFORE entries =
      (if 7 + length (concat es) + length (concat (lp_batch_make entries)) < 2 ^ 32 then Ok (Some (lp', q)) else Ok None)
    \<and> (7 + length (concat es) + length (concat (lp_batch_make entries)) < 2 ^ 32 \<longrightarrow>
       lp_contents lp' (take i (map lp_content es) @ map lp_value_string entries @ drop i (map lp_content es)))"
proof -
  let ?new = "lp_batch_make entries" and ?n = "next_count n (length entries)"
  obtain rest' where ins: "lpBatchInsert (lp_block n es rest) (lp_pos es i) LP_BEFORE entries =
      Ok (if 7 + length (concat es) + length (concat ?new) < 2 ^ 32
          then Some (lp_block ?n (insert_at i ?new es) rest', Some (lp_pos (insert_at i ?new es) (i + length entries - 1)))
          else None)"
    using lpBatchInsert_before_block [OF assms(3,2), of n rest] assms(1) by (auto simp: lp_fits_def)
  have "lp_fits ?n (insert_at i ?new es)" if "7 + length (concat es) + length (concat ?new) < 2 ^ 32"
    using lp_fits_insert [OF assms(1) lp_batch_make_ok(1) [OF assms(4)] assms(2) that] by (simp add: lp_batch_make_def)
  moreover have "map lp_content (insert_at i ?new es) =
      take i (map lp_content es) @ map lp_value_string entries @ drop i (map lp_content es)"
    by (simp add: insert_at_def take_map drop_map lp_batch_make_ok(2) [OF assms(4)])
  ultimately have "7 + length (concat es) + length (concat ?new) < 2 ^ 32 \<longrightarrow>
      lp_contents (lp_block ?n (insert_at i ?new es) rest')
        (take i (map lp_content es) @ map lp_value_string entries @ drop i (map lp_content es))"
    using lp_contentsI [of ?n "insert_at i ?new es" _ rest'] by simp
  with ins show ?thesis
    by (intro exI [of _ "lp_block ?n (insert_at i ?new es) rest'"]
        exI [of _ "Some (lp_pos (insert_at i ?new es) (i + length entries - 1))"]) simp
qed

theorem lpBatchInsert_contents_witness:
  "\<exists>lp' q. lpBatchInsert (lp_block 0 [] []) (lp_pos [] 0) LP_BEFORE [Lp_Integer 7, Lp_String [0x61]] = Ok (Some (lp', q))
     \<and> lp_contents lp' [decimal 7, [0x61]]"
proof -
  have make: "length (concat (lp_batch_make [Lp_Integer 7, Lp_String [0x61]])) < 100"
    using lp_make_cost [of "[0x61]"]
    by (simp add: lp_batch_make_def lp_batch_bytes_def lp_cost_def lp_make_def length_lpEncodeBacklen
        lpEncodeIntegerGetType_def lpEncodeBacklenBytes_def split: if_splits)
  show ?thesis
    using lpBatchInsert_contents [of 0 "[]" 0 "[Lp_Integer 7, Lp_String [0x61]]" "[]"] make
    by (auto simp: lp_fits_def lp_value_ok_def lp_storable_def fits_signed_def lp_value_string_def)
qed

lemma keep_from_snoc: "keep_from ds 0 (xs @ [x]) = keep_from ds 0 xs @ (if length xs \<in> ds then [] else [x])"
proof -
  have "map (\<lambda>j. (xs @ [x]) ! j) (filter (\<lambda>j. j \<notin> ds) [0..<length xs]) = map (\<lambda>j. xs ! j) (filter (\<lambda>j. j \<notin> ds) [0..<length xs])"
    by (intro map_cong) (auto simp: nth_append)
  then show ?thesis by (simp add: keep_from_def)
qed

lemma keep_from_Nil: "keep_from ds 0 [] = []"
  by (simp add: keep_from_def)

lemma keep_from_nths: "map f (keep_from ds 0 xs) = nths (map f xs) (- ds)"
  by (induction xs rule: rev_induct) (simp_all add: keep_from_Nil keep_from_snoc nths_append)

lemma length_concat_keep_from: "length (concat (keep_from ds 0 xs)) \<le> length (concat xs)"
  by (induction xs rule: rev_induct) (simp_all add: keep_from_Nil keep_from_snoc)

text \<open>
  Property C17: \<open>lpBatchDelete\<close>, given pointers to elements in increasing order, removes exactly
  those elements.
\<close>

theorem lpBatchDelete_contents:
  assumes "lp_fits n es" and "sorted_wrt (<) ks" and "\<forall>j \<in> set ks. j < length es" and "ks \<noteq> []"
  shows "\<exists>lp'. lpBatchDelete (lp_block n es rest) (map (lp_pos es) ks) = Ok lp'
    \<and> lp_contents lp' (nths (map lp_content es) (- set ks))"
proof -
  have "length ks \<le> length es"
  proof -
    have "distinct ks" using assms(2) by (simp add: strict_sorted_iff)
    then have "length ks = card (set ks)" by (simp add: distinct_card)
    also have "\<dots> \<le> card {..<length es}" using assms(3) by (intro card_mono) auto
    finally show ?thesis by simp
  qed
  moreover have "length (keep_from (set ks) 0 es) = length es - length ks"
    using assms(2,3) by (intro length_keep_from_0) (auto simp: strict_sorted_iff)
  ultimately have "lp_fits (minus_count n (length ks)) (keep_from (set ks) 0 es)"
    using assms(1) length_concat_keep_from [of "set ks" es] keep_from_entry [of lp_entry es] by (auto simp: lp_fits_def minus_count_def)
  then have "lp_contents (lp_block (minus_count n (length ks)) (keep_from (set ks) 0 es) []) (nths (map lp_content es) (- set ks))"
    by (rule lp_contentsI) (simp only: keep_from_nths)
  then show ?thesis using lpBatchDelete_block [OF assms] by blast
qed

theorem lpBatchDelete_contents_witness:
  "\<exists>lp'. lpBatchDelete (lp_sample [0x31] [0x61, 0x62]) (map (lp_pos [lp_make (lp_encode [0x31]), lp_make (lp_encode [0x61, 0x62])]) [0])
     = Ok lp' \<and> lp_contents lp' [[0x61, 0x62]]"
proof -
  have st: "lp_storable [0x31]" "lp_storable [0x61, 0x62]" by (simp_all add: lp_storable_def)
  show ?thesis
    using lpBatchDelete_contents [OF lp_sample_fits [of "[0x31]" "[0x61, 0x62]"], of "[0]" "[]"] lp_make_encode(2) [OF st(1)]
      lp_make_encode(2) [OF st(2)]
    by (simp add: lp_sample_def nths_Cons)
qed

text \<open>
  \<open>lpMerge\<close> of two different listpacks keeps the elements of the first followed by
  those of the second, and sets the caller's pointer of the one that was consumed to null.
\<close>

theorem lpMerge_contents:
  assumes "lp_contents f xs" and "lp_contents s ys" and "lp_used f + lp_used s < 2 ^ 32"
  shows "\<exists>m. lp_contents m (xs @ ys) \<and>
    lpMerge False (Some f) (Some s) =
      Ok (Some (if lp_used s \<le> lp_used f then (m, Some m, None) else (m, None, Some m)))"
proof -
  obtain n1 es1 rest1 where f: "f = lp_block n1 es1 rest1" and fits1: "lp_fits n1 es1" and xs: "xs = map lp_content es1"
    using assms(1) by (rule lp_contentsE)
  obtain n2 es2 rest2 where s: "s = lp_block n2 es2 rest2" and fits2: "lp_fits n2 es2" and ys: "ys = map lp_content es2"
    using assms(2) by (rule lp_contentsE)
  have used: "lp_used f = 7 + length (concat es1)" "lp_used s = 7 + length (concat es2)"
    using fits1 fits2 by (simp_all add: f s lp_used_block)
  then have fit: "7 + length (concat (es1 @ es2)) < UINT32_MAX" using assms(3) by (simp add: UINT32_MAX_def)
  then have "lp_fits (merged_count (length (es1 @ es2))) (es1 @ es2)"
    using fits1 fits2 by (auto simp: lp_fits_def merged_count_def UINT32_MAX_def LP_HDR_NUMELE_UNKNOWN_def)
  then have "lp_contents (lp_block (merged_count (length (es1 @ es2))) (es1 @ es2) []) (xs @ ys)"
    by (rule lp_contentsI) (simp add: xs ys)
  then show ?thesis using lpMerge_block [OF fits1 fits2 fit, of rest1 rest2] used by (auto simp: f s)
qed

theorem lpMerge_contents_witness:
  "\<exists>m. lp_contents m ([[0x31], []] @ [[0x61], [0x62]]) \<and>
     (\<exists>r. lpMerge False (Some (lp_sample [0x31] [])) (Some (lp_sample [0x61] [0x62])) = Ok (Some r) \<and> fst r = m)"
proof -
  have used: "lp_used (lp_sample s t) < 2000" if "length s \<le> 1" "length t \<le> 1" for s t
    using lp_used_block [OF lp_sample_fits [of s t], of "[]"] lp_make_cost [of s] lp_make_cost [of t] that
    by (simp add: lp_sample_def lp_cost_def)
  show ?thesis
    using lpMerge_contents [OF lp_sample_contents [of "[0x31]" "[]"] lp_sample_contents [of "[0x61]" "[0x62]"]]
      used [of "[0x31]" "[]"] used [of "[0x61]" "[0x62]"]
    by (auto split: if_splits)
qed

end
