(* ===== verification/Lp_Borrowed.thy ===== *)
theory Lp_Borrowed
  imports Lp_Theorems
begin

text \<open>
  A block that passes the deep validation of \<open>listpack.c\<close> and is not a listpack: its first entry
  borrows a byte of the header as the last byte of its length.
\<close>

lemma borrowed_nth:
  "lp_block n (lp_borrowed # es) rest ! 7 = 0x81" "lp_block n (lp_borrowed # es) rest ! 6 = 0x80"
  "lp_block n (lp_borrowed # es) rest ! 5 = word_of_nat (n div 256)"
  by (simp_all add: lp_block_def lp_borrowed_def nth_append nth_Cons' numeral_2_eq_2)

lemma borrowed_backlen:
  "lpDecodeBacklen (lp_block 255 (lp_borrowed # es) rest) 7 = 1"
  "lpDecodeBacklen (lp_block 256 (lp_borrowed # es) rest) 7 = 16385"
  by (simp_all add: lpDecodeBacklen_def borrowed_nth push_bit_eq_mult Let_def)

lemma borrowed_next:
  "lpValidateNext (lp_block 255 (lp_borrowed # es) rest) (Some 6) (9 + length (concat es)) = Some (Some 8)"
proof -
  have d: "drop 6 (lp_block 255 (lp_borrowed # es) rest) = lp_borrowed @ concat es @ LP_EOF # rest"
    by (simp add: lp_block_def)
  have "lpCurrentEncodedSizeUnsafe (lp_borrowed @ concat es @ LP_EOF # rest) = 1"
    by (simp add: lp_borrowed_def lpCurrentEncodedSizeUnsafe_def lp_is_range LP_6BIT_STR_LEN_def)
  moreover have "lpCurrentEncodedSizeBytes 0x80 = 1"
    by (simp add: lpCurrentEncodedSizeBytes_def lp_is_range)
  ultimately show ?thesis
    using borrowed_backlen(1) [of es rest]
    by (simp add: lpValidateNext_def d borrowed_nth LP_HDR_SIZE_def LP_EOF_def Let_def lpEncodeBacklenBytes_def)
qed

lemma borrowed_validates:
  assumes "list_all lp_entry es" "length es = 254" "9 + length (concat es) < 2 ^ 32"
  shows "lpValidateIntegrity (lp_block 255 (lp_borrowed # es) []) (9 + length (concat es)) True None u"
proof -
  let ?es = "lp_borrowed # es"
  let ?lp = "lp_block 255 ?es []"
  have pos: "lp_pos ?es 1 = 8" "lp_pos ?es (length ?es) = 8 + length (concat es)"
    by (simp_all add: lp_pos_def LP_HDR_SIZE_def lp_borrowed_def)
  have sz: "7 + length (concat ?es) = 9 + length (concat es)" by (simp add: lp_borrowed_def)
  have "validate_entries ?lp (7 + length (concat ?es)) 255 None u (Some (lp_pos ?es 1)) 1 =
      Some (Some (lp_pos ?es (length ?es)), 1 + (length ?es - 1))"
    using assms(1,2) by (intro validate_entries_complete) simp_all
  then have rest: "validate_entries ?lp (9 + length (concat es)) 255 None u (Some 8) 1 = Some (Some (8 + length (concat es)), 255)"
    unfolding pos sz using assms(2) by simp
  have "?lp ! 6 \<noteq> LP_EOF" by (simp add: borrowed_nth LP_EOF_def)
  then have all: "validate_entries ?lp (9 + length (concat es)) 255 None u (Some 6) 0 = Some (Some (8 + length (concat es)), 255)"
    by (subst validate_entries.simps) (simp add: borrowed_next rest [unfolded One_nat_def])
  have eof: "?lp ! (8 + length (concat es)) = LP_EOF"
    using lp_block_nth(2) [of 255 ?es "[]"] pos(2) by simp
  have hdr: "lpGetTotalBytes ?lp = 9 + length (concat es)" "lpGetNumElements ?lp = 255"
    using assms(3) by (simp_all add: lp_borrowed_def)
  show ?thesis
    unfolding lpValidateIntegrity_def hdr Let_def using eof all
    by (simp add: LP_HDR_SIZE_def LP_HDR_NUMELE_UNKNOWN_def)
qed

lemma borrowed_prev:
  assumes "list_all lp_entry es" "9 + length (concat es) < 2 ^ 32"
  shows "lpPrev (lp_block 255 (lp_borrowed # es) rest) 8 = Ok (Some 6)"
    "lpPrev (lp_block 256 (lp_borrowed # es) rest) 8 = Abort"
proof -
  have "lpBytes (lp_block 255 (lp_borrowed # es) rest) = 9 + length (concat es)"
    using assms(2) by (simp add: lpBytes_def lp_borrowed_def)
  then show "lpPrev (lp_block 255 (lp_borrowed # es) rest) 8 = Ok (Some 6)"
    by (simp add: lpPrev_def borrowed_backlen LP_HDR_SIZE_def lpEncodeBacklenBytes_def lpAssertValidEntry_def
        borrowed_next)
  show "lpPrev (lp_block 256 (lp_borrowed # es) rest) 8 = Abort"
    by (simp add: lpPrev_def borrowed_backlen LP_HDR_SIZE_def lpEncodeBacklenBytes_def)
qed

text \<open>
  Property C32: the deep validation accepts a listpack whose first entry is the two bytes 80 81 (an
  empty string whose length byte has the continuation bit set, so that it ends in the count field of
  the header). With 255 entries the step back to that entry works; after one append, which the
  functions perform without an error, the same step fails an assertion and stops the process.
\<close>

theorem lp_borrowed_entry_aborts:
  assumes "list_all lp_entry es" and "length es = 254" and "9 + length (concat es) + lp_cost s < 2 ^ 32"
  shows "lpValidateIntegrity (lp_block 255 (lp_borrowed # es) []) (9 + length (concat es)) True None u
    \<and> lpPrev (lp_block 255 (lp_borrowed # es) []) 8 = Ok (Some 6)
    \<and> (\<exists>lp' q. lpAppend (lp_block 255 (lp_borrowed # es) []) s = Ok (Some (lp', q)) \<and> lpPrev lp' 8 = Abort)"
proof -
  let ?es = "lp_borrowed # es" and ?e = "lp_make (lp_encode s)"
  have s: "lp_storable s" using assms(3) by (intro lp_storable_cost) simp
  have lt: "9 + length (concat es) < 2 ^ 32" using assms(3) by simp
  have T: "9 + length (concat (es @ [?e])) < 2 ^ 32" using assms(3) lp_make_cost [of s] by simp
  have app: "lpAppend (lp_block 255 ?es []) s = lpInsert (lp_block 255 ?es []) (Some s) None (lp_pos ?es (length ?es)) LP_BEFORE"
    using lt by (simp add: lpAppend_def lp_pos_def LP_HDR_SIZE_def lp_borrowed_def)
  have ins: "insert_at (length ?es) [?e] ?es = lp_borrowed # es @ [?e]" by (simp add: insert_at_def)
  obtain rest' where "lpAppend (lp_block 255 ?es []) s =
      Ok (Some (lp_block 256 (lp_borrowed # es @ [?e]) rest', Some (lp_pos ?es (length ?es))))"
    using lpInsert_before_block [of "Some s" None "length ?es" ?es 255 "[]"] lt T
    unfolding app lp_arg_string ins
    by (auto simp: next_count_def LP_HDR_NUMELE_UNKNOWN_def lp_borrowed_def)
  moreover have "list_all lp_entry (es @ [?e])" using assms(1) lp_make_encode(1) [OF s] by simp
  ultimately show ?thesis
    using borrowed_validates [OF assms(1,2) lt] borrowed_prev(1) [OF assms(1) lt] borrowed_prev(2) [of "es @ [?e]" rest'] T
    by auto
qed

theorem lp_borrowed_entry_aborts_witness:
  "\<exists>lp' q. lpAppend (lp_block 255 (lp_borrowed # replicate 254 (lp_make [5])) []) [0x36] = Ok (Some (lp', q)) \<and> lpPrev lp' 8 = Abort"
proof -
  have "lp_entry (lp_make (lpEncodeIntegerGetType 5))" by (rule lp_make_int) (simp add: fits_signed_def)
  then have e: "lp_entry (lp_make [5])" by (simp add: lpEncodeIntegerGetType_def)
  have len: "length (lp_make [5]) = 2" by (simp add: lp_make_def length_lpEncodeBacklen lpEncodeBacklenBytes_def)
  have "length (concat (replicate 254 (lp_make [5]))) = 508"
    using len by (simp only: length_concat map_replicate sum_list_replicate) simp
  then have n: "9 + length (concat (replicate 254 (lp_make [5]))) + lp_cost [0x36] < 2 ^ 32" by (simp add: lp_cost_def)
  have l: "list_all lp_entry (replicate 254 (lp_make [5]))" using e by (simp add: list_all_iff)
  from lp_borrowed_entry_aborts [OF l length_replicate n, of "()", THEN conjunct2, THEN conjunct2] show ?thesis .
qed

end
