(* ===== verification/Dict.thy ===== *)
theory Dict
  imports Prelude
begin

text \<open>
  The hash tables of \<open>dict.c\<close>: two tables of chains, the second one used while the elements move
  from the first one bucket by bucket. A chain is the list of its entries, a table that is not
  allocated the empty list, a pointer to an entry its place (table, index, position in the chain).
  Keys are compared by their contents. \<open>Abort\<close> is a failed assertion or an access outside a table.
\<close>

section \<open>State\<close>

record ('k, 'v) dictht =
  ht_table :: "('k \<times> 'v) list list"
  ht_used :: nat
  ht_size_exp :: int

record ('k, 'v) dict =
  ht0 :: "('k, 'v) dictht"
  ht1 :: "('k, 'v) dictht"
  rehashidx :: int
  pauserehash :: "32 word"
  pauseAutoResize :: int

text \<open>The callbacks and flags the code consults; \<open>resizeAllowed\<close> gets the memory and the ratio of
  used entries to buckets as a fraction.\<close>

record 'k dictType =
  hashFunction :: "'k \<Rightarrow> 64 word"
  resizeAllowed :: "(nat \<Rightarrow> nat \<times> nat \<Rightarrow> bool) option"
  force_full_rehash :: bool

datatype dictResizeEnable = DICT_RESIZE_ENABLE | DICT_RESIZE_AVOID | DICT_RESIZE_FORBID

definition dict_force_resize_ratio :: nat where "dict_force_resize_ratio = 4"
definition HASHTABLE_MIN_FILL :: nat where "HASHTABLE_MIN_FILL = 8"
definition DICT_HT_INITIAL_EXP :: int where "DICT_HT_INITIAL_EXP = 2"
definition DICT_HT_INITIAL_SIZE :: nat where "DICT_HT_INITIAL_SIZE = 4"

definition DICTHT_SIZE :: "int \<Rightarrow> nat" where
  "DICTHT_SIZE e = (if e = - 1 then 0 else 2 ^ nat e)"

definition DICTHT_SIZE_MASK :: "int \<Rightarrow> 64 word" where
  "DICTHT_SIZE_MASK e = (if e = - 1 then 0 else word_of_nat (DICTHT_SIZE e) - 1)"

definition dictBuckets :: "('k, 'v) dict \<Rightarrow> nat" where
  "dictBuckets d = DICTHT_SIZE (ht_size_exp (ht0 d)) + DICTHT_SIZE (ht_size_exp (ht1 d))"

definition dictSize :: "('k, 'v) dict \<Rightarrow> nat" where
  "dictSize d = ht_used (ht0 d) + ht_used (ht1 d)"

definition dictIsRehashing :: "('k, 'v) dict \<Rightarrow> bool" where
  "dictIsRehashing d \<longleftrightarrow> rehashidx d \<noteq> - 1"

definition dictPauseRehashing :: "('k, 'v) dict \<Rightarrow> ('k, 'v) dict" where
  "dictPauseRehashing d = d\<lparr>pauserehash := pauserehash d + 1\<rparr>"

definition dictResumeRehashing :: "('k, 'v) dict \<Rightarrow> ('k, 'v) dict" where
  "dictResumeRehashing d = d\<lparr>pauserehash := pauserehash d - 1\<rparr>"

definition dictPauseAutoResize :: "('k, 'v) dict \<Rightarrow> ('k, 'v) dict" where
  "dictPauseAutoResize d = d\<lparr>pauseAutoResize := pauseAutoResize d + 1\<rparr>"

definition dictResumeAutoResize :: "('k, 'v) dict \<Rightarrow> ('k, 'v) dict" where
  "dictResumeAutoResize d = d\<lparr>pauseAutoResize := pauseAutoResize d - 1\<rparr>"

text \<open>The index \<open>hash & mask\<close> into a table.\<close>

definition dict_idx :: "64 word \<Rightarrow> int \<Rightarrow> nat" where
  "dict_idx h e = unat (h AND DICTHT_SIZE_MASK e)"

definition get_bucket :: "'a list list \<Rightarrow> nat \<Rightarrow> 'a list outcome" where
  "get_bucket t i = c_assert (i < length t) (Ok (t ! i))"

section \<open>Creation\<close>

definition dictReset :: "('k, 'v) dictht" where
  "dictReset = \<lparr>ht_table = [], ht_used = 0, ht_size_exp = - 1\<rparr>"

definition dictInit :: "('k, 'v) dict" where
  "dictInit = \<lparr>ht0 = dictReset, ht1 = dictReset, rehashidx = - 1, pauserehash = 0, pauseAutoResize = 0\<rparr>"

definition dictCreate :: "('k, 'v) dict" where "dictCreate = dictInit"

text \<open>\<open>8 * sizeof(long) - __builtin_clzl(n)\<close>: the number of bits of \<open>n\<close>.\<close>

fun bit_length :: "nat \<Rightarrow> nat" where
  "bit_length n = (if n = 0 then 0 else Suc (bit_length (n div 2)))"

declare bit_length.simps [simp del]

definition dictNextExp :: "nat \<Rightarrow> int" where
  "dictNextExp sz =
     (if sz \<le> DICT_HT_INITIAL_SIZE then DICT_HT_INITIAL_EXP
      else if sz \<ge> 2 ^ 63 - 1 then 63
      else int (bit_length (sz - 1)))"

section \<open>Rehashing\<close>

text \<open>The loop of \<open>rehashEntriesInBucketAtIndex\<close> over the entries of the chain.\<close>

fun move_entries ::
  "('k \<Rightarrow> 64 word) \<Rightarrow> ('k, 'v) dict \<Rightarrow> nat \<Rightarrow> ('k \<times> 'v) list \<Rightarrow> ('k, 'v) dict outcome" where
  "move_entries hash d idx [] = Ok d"
| "move_entries hash d idx (de # es) =
     (let h = (if ht_size_exp (ht1 d) > ht_size_exp (ht0 d) then dict_idx (hash (fst de)) (ht_size_exp (ht1 d))
               else dict_idx (word_of_nat idx) (ht_size_exp (ht1 d)))
      in bind_outcome (get_bucket (ht_table (ht1 d)) h) (\<lambda>chain.
         move_entries hash
           (d\<lparr>ht1 := (ht1 d)\<lparr>ht_table := (ht_table (ht1 d))[h := de # chain], ht_used := ht_used (ht1 d) + 1\<rparr>,
              ht0 := (ht0 d)\<lparr>ht_used := ht_used (ht0 d) - 1\<rparr>\<rparr>) idx es))"

definition rehashEntriesInBucketAtIndex ::
  "('k \<Rightarrow> 64 word) \<Rightarrow> ('k, 'v) dict \<Rightarrow> nat \<Rightarrow> ('k, 'v) dict outcome" where
  "rehashEntriesInBucketAtIndex hash d idx =
     bind_outcome (get_bucket (ht_table (ht0 d)) idx) (\<lambda>de.
     bind_outcome (move_entries hash d idx de) (\<lambda>d.
     Ok (d\<lparr>ht0 := (ht0 d)\<lparr>ht_table := (ht_table (ht0 d))[idx := []]\<rparr>\<rparr>)))"

definition dictCheckRehashingCompleted :: "('k, 'v) dict \<Rightarrow> ('k, 'v) dict \<times> bool" where
  "dictCheckRehashingCompleted d =
     (if ht_used (ht0 d) \<noteq> 0 then (d, False)
      else (d\<lparr>ht0 := ht1 d, ht1 := dictReset, rehashidx := - 1\<rparr>, True))"

text \<open>The inner loop of \<open>dictRehash\<close> over empty buckets, with \<open>empty_visits\<close> still allowed (at least
  one when it starts); \<open>None\<close> is the return of 1 when they are used up.\<close>

fun skip_empty :: "'a list list \<Rightarrow> nat \<Rightarrow> nat \<Rightarrow> (nat \<times> nat option) outcome" where
  "skip_empty t idx 0 = Ok (idx, None)"
| "skip_empty t idx (Suc visits) =
     bind_outcome (get_bucket t idx) (\<lambda>chain.
     if chain = [] then skip_empty t (idx + 1) visits else Ok (idx, Some (Suc visits)))"

text \<open>The outer loop, \<open>n\<close> more buckets; the flag is set by the early return.\<close>

fun rehash_loop ::
  "('k \<Rightarrow> 64 word) \<Rightarrow> ('k, 'v) dict \<Rightarrow> nat \<Rightarrow> nat \<Rightarrow> (('k, 'v) dict \<times> bool) outcome" where
  "rehash_loop hash d 0 visits = Ok (d, False)"
| "rehash_loop hash d (Suc n) visits =
     (if ht_used (ht0 d) = 0 then Ok (d, False)
      else c_assert (int (DICTHT_SIZE (ht_size_exp (ht0 d))) > rehashidx d)
        (bind_outcome (skip_empty (ht_table (ht0 d)) (nat (rehashidx d)) visits) (\<lambda>(idx, again).
         case again of
           None \<Rightarrow> Ok (d\<lparr>rehashidx := int idx\<rparr>, True)
         | Some visits \<Rightarrow>
             bind_outcome (rehashEntriesInBucketAtIndex hash (d\<lparr>rehashidx := int idx\<rparr>) idx) (\<lambda>d.
             rehash_loop hash (d\<lparr>rehashidx := rehashidx d + 1\<rparr>) n visits))))"

text \<open>The test on \<open>dict_can_resize\<close> (\<open>rz\<close>) that opens \<open>dictRehash\<close> and \<open>_dictBucketRehash\<close>.\<close>

definition rehash_refused :: "dictResizeEnable \<Rightarrow> ('k, 'v) dict \<Rightarrow> bool" where
  "rehash_refused rz d \<longleftrightarrow>
     (let s0 = DICTHT_SIZE (ht_size_exp (ht0 d)); s1 = DICTHT_SIZE (ht_size_exp (ht1 d)) in
      rz = DICT_RESIZE_FORBID \<or> \<not> dictIsRehashing d
      \<or> (rz = DICT_RESIZE_AVOID
          \<and> ((s1 > s0 \<and> s1 < dict_force_resize_ratio * s0)
              \<or> (s1 < s0 \<and> s0 < HASHTABLE_MIN_FILL * dict_force_resize_ratio * s1))))"

definition dictRehash ::
  "dictResizeEnable \<Rightarrow> ('k \<Rightarrow> 64 word) \<Rightarrow> ('k, 'v) dict \<Rightarrow> nat \<Rightarrow> (('k, 'v) dict \<times> bool) outcome" where
  "dictRehash rz hash d n =
     (if rehash_refused rz d then Ok (d, False)
      else
        bind_outcome (rehash_loop hash d n (n * 10)) (\<lambda>(d, early).
        if early then Ok (d, True)
        else let (d, completed) = dictCheckRehashingCompleted d in Ok (d, \<not> completed)))"

definition dictRehashStep :: "dictResizeEnable \<Rightarrow> ('k \<Rightarrow> 64 word) \<Rightarrow> ('k, 'v) dict \<Rightarrow> ('k, 'v) dict outcome" where
  "dictRehashStep rz hash d =
     (if pauserehash d = 0 then bind_outcome (dictRehash rz hash d 1) (\<lambda>(d, again). Ok d) else Ok d)"

definition dictBucketRehash ::
  "dictResizeEnable \<Rightarrow> ('k \<Rightarrow> 64 word) \<Rightarrow> ('k, 'v) dict \<Rightarrow> nat \<Rightarrow> (('k, 'v) dict \<times> bool) outcome" where
  "dictBucketRehash rz hash d idx =
     (if pauserehash d \<noteq> 0 then Ok (d, False)
      else if rehash_refused rz d then Ok (d, False)
      else
        bind_outcome (rehashEntriesInBucketAtIndex hash d idx) (\<lambda>d.
        let (d, completed) = dictCheckRehashingCompleted d in Ok (d, True)))"

definition dictRehashStepIfNeeded ::
  "dictResizeEnable \<Rightarrow> ('k \<Rightarrow> 64 word) \<Rightarrow> ('k, 'v) dict \<Rightarrow> nat \<Rightarrow> ('k, 'v) dict outcome" where
  "dictRehashStepIfNeeded rz hash d visitedIdx =
     (if \<not> dictIsRehashing d \<or> pauserehash d \<noteq> 0 then Ok d
      else
        bind_outcome (if int visitedIdx \<ge> rehashidx d
                      then bind_outcome (get_bucket (ht_table (ht0 d)) visitedIdx) (\<lambda>chain. Ok (chain \<noteq> []))
                      else Ok False) (\<lambda>here.
        if here then bind_outcome (dictBucketRehash rz hash d visitedIdx) (\<lambda>(d, moved). Ok d)
        else bind_outcome (dictRehash rz hash d 1) (\<lambda>(d, again). Ok d)))"

section \<open>Resizing\<close>

text \<open>The loop that \<open>force_full_rehash\<close> asks for: \<open>dictRehash(d, 1000)\<close> until it returns 0. The test of \<open>rehashidx\<close>
  only serves the termination proof: while rehashing is under way the index is never negative.\<close>

lemma move_entries_ht0:
  "move_entries hash d idx es = Ok d' \<Longrightarrow> ht_table (ht0 d') = ht_table (ht0 d) \<and> rehashidx d' = rehashidx d"
  by (induction es arbitrary: d) (auto simp: Let_def bind_outcome_Ok)

lemma rehashEntries_ht0:
  "rehashEntriesInBucketAtIndex hash d idx = Ok d' \<Longrightarrow>
   length (ht_table (ht0 d')) = length (ht_table (ht0 d)) \<and> rehashidx d' = rehashidx d"
  by (auto simp: rehashEntriesInBucketAtIndex_def bind_outcome_Ok dest: move_entries_ht0)

lemma skip_empty_bounds:
  "skip_empty t idx visits = Ok (j, r) \<Longrightarrow> idx \<le> j \<and> (0 < visits \<longrightarrow> idx < length t) \<and> (r = None \<longrightarrow> j = idx + visits)"
  by (induction t idx visits rule: skip_empty.induct) (auto simp: bind_outcome_Ok get_bucket_def split: if_splits)

lemma rehash_loop_progress:
  "rehash_loop hash d n visits = Ok (d', early) \<Longrightarrow>
   length (ht_table (ht0 d')) = length (ht_table (ht0 d)) \<and> nat (rehashidx d) \<le> nat (rehashidx d')
   \<and> (0 < n \<and> 0 < visits \<and> 0 \<le> rehashidx d \<and> (early \<or> ht_used (ht0 d') \<noteq> 0) \<longrightarrow>
        nat (rehashidx d) < nat (rehashidx d') \<and> nat (rehashidx d) < length (ht_table (ht0 d)))"
proof (induction n arbitrary: d visits)
  case (Suc n)
  show ?case
  proof (cases "ht_used (ht0 d) = 0")
    case False
    then obtain idx again where skip: "skip_empty (ht_table (ht0 d)) (nat (rehashidx d)) visits = Ok (idx, again)"
      using Suc.prems by (auto simp: bind_outcome_Ok)
    note b = skip_empty_bounds [OF skip]
    show ?thesis
    proof (cases again)
      case None
      then have "d' = d\<lparr>rehashidx := int idx\<rparr>" using Suc.prems False skip by simp
      then show ?thesis using b None by auto
    next
      case (Some visits')
      let ?d = "d\<lparr>rehashidx := int idx\<rparr>"
      obtain e where e: "rehashEntriesInBucketAtIndex hash ?d idx = Ok e"
        "rehash_loop hash (e\<lparr>rehashidx := rehashidx e + 1\<rparr>) n visits' = Ok (d', early)"
        using Suc.prems False skip Some by (auto simp: bind_outcome_Ok)
      have "length (ht_table (ht0 e)) = length (ht_table (ht0 d))" "rehashidx e = int idx"
        using rehashEntries_ht0 [OF e(1)] by auto
      moreover from this have "nat (int idx + 1) \<le> nat (rehashidx d')"
          "length (ht_table (ht0 d')) = length (ht_table (ht0 d))"
        using Suc.IH [OF e(2)] by simp_all
      then have "idx < nat (rehashidx d')" by linarith
      ultimately show ?thesis using b \<open>length (ht_table (ht0 d')) = length (ht_table (ht0 d))\<close>
        by (metis le_less_trans less_imp_le_nat)
    qed
  qed (use Suc.prems in auto)
qed simp

lemma dictRehash_progress:
  assumes "dictRehash rz hash d n = Ok (d', True)" "0 < n" "0 \<le> rehashidx d"
  shows "length (ht_table (ht0 d')) = length (ht_table (ht0 d)) \<and> nat (rehashidx d) < nat (rehashidx d')
    \<and> nat (rehashidx d) < length (ht_table (ht0 d))"
proof -
  obtain e early where e: "rehash_loop hash d n (n * 10) = Ok (e, early)"
    "early \<and> d' = e \<or> \<not> early \<and> ht_used (ht0 e) \<noteq> 0 \<and> d' = e"
    using assms(1) by (auto simp: dictRehash_def bind_outcome_Ok dictCheckRehashingCompleted_def Let_def split: if_splits)
  then show ?thesis using rehash_loop_progress [OF e(1)] assms(2,3) by auto
qed

function full_rehash ::
  "dictResizeEnable \<Rightarrow> ('k \<Rightarrow> 64 word) \<Rightarrow> ('k, 'v) dict \<Rightarrow> ('k, 'v) dict outcome" where
  "full_rehash rz hash d =
     (case dictRehash rz hash d 1000 of
        Abort \<Rightarrow> Abort
      | Ok (d', again) \<Rightarrow> if again \<and> 0 \<le> rehashidx d then full_rehash rz hash d' else Ok d')"
  by pat_completeness auto

termination full_rehash
  by (relation "measure (\<lambda>(rz, hash, d). length (ht_table (ht0 d)) - nat (rehashidx d))")
    (auto dest!: dictRehash_progress)

declare full_rehash.simps [simp del]

text \<open>The flag is \<open>DICT_OK\<close> (\<open>True\<close>) or \<open>DICT_ERR\<close>. Allocation is taken to succeed.\<close>

definition dictResize ::
  "'k dictType \<Rightarrow> dictResizeEnable \<Rightarrow> ('k, 'v) dict \<Rightarrow> nat \<Rightarrow> (('k, 'v) dict \<times> bool) outcome" where
  "dictResize ty rz d sz =
     c_assert (\<not> dictIsRehashing d)
       (let new_ht_size_exp = dictNextExp sz;
            newsize = DICTHT_SIZE new_ht_size_exp in
        if newsize < sz \<or> newsize * 8 mod 2 ^ 64 < newsize then Ok (d, False)
        else if new_ht_size_exp = ht_size_exp (ht0 d) then Ok (d, False)
        else
          let new_ht = \<lparr>ht_table = replicate newsize [], ht_used = 0, ht_size_exp = new_ht_size_exp\<rparr>;
              d = d\<lparr>ht1 := new_ht, rehashidx := 0\<rparr>
          in if ht_table (ht0 d) = [] \<or> ht_used (ht0 d) = 0 then
               Ok (d\<lparr>ht0 := new_ht, ht1 := dictReset, rehashidx := - 1\<rparr>, True)
             else if force_full_rehash ty then
               bind_outcome (full_rehash rz (hashFunction ty) d) (\<lambda>d. Ok (d, True))
             else Ok (d, True))"

definition dictExpand ::
  "'k dictType \<Rightarrow> dictResizeEnable \<Rightarrow> ('k, 'v) dict \<Rightarrow> nat \<Rightarrow> (('k, 'v) dict \<times> bool) outcome" where
  "dictExpand ty rz d sz =
     (if dictIsRehashing d \<or> ht_used (ht0 d) > sz \<or> DICTHT_SIZE (ht_size_exp (ht0 d)) \<ge> sz then Ok (d, False)
      else dictResize ty rz d sz)"

definition dictShrink ::
  "'k dictType \<Rightarrow> dictResizeEnable \<Rightarrow> ('k, 'v) dict \<Rightarrow> nat \<Rightarrow> (('k, 'v) dict \<times> bool) outcome" where
  "dictShrink ty rz d sz =
     (if dictIsRehashing d \<or> ht_used (ht0 d) > sz \<or> DICTHT_SIZE (ht_size_exp (ht0 d)) \<le> sz then Ok (d, False)
      else dictResize ty rz d sz)"

definition dictTypeResizeAllowed :: "'k dictType \<Rightarrow> ('k, 'v) dict \<Rightarrow> nat \<Rightarrow> bool" where
  "dictTypeResizeAllowed ty d sz =
     (case resizeAllowed ty of
        None \<Rightarrow> True
      | Some allowed \<Rightarrow>
          allowed (DICTHT_SIZE (dictNextExp sz) * 8) (ht_used (ht0 d), DICTHT_SIZE (ht_size_exp (ht0 d))))"

definition dictExpandIfNeeded ::
  "'k dictType \<Rightarrow> dictResizeEnable \<Rightarrow> ('k, 'v) dict \<Rightarrow> (('k, 'v) dict \<times> bool) outcome" where
  "dictExpandIfNeeded ty rz d =
     (let sz0 = DICTHT_SIZE (ht_size_exp (ht0 d)); used0 = ht_used (ht0 d) in
      if dictIsRehashing d then Ok (d, True)
      else if sz0 = 0 then bind_outcome (dictExpand ty rz d DICT_HT_INITIAL_SIZE) (\<lambda>(d, r). Ok (d, True))
      else if (rz = DICT_RESIZE_ENABLE \<and> used0 \<ge> sz0)
          \<or> (rz \<noteq> DICT_RESIZE_FORBID \<and> used0 \<ge> dict_force_resize_ratio * sz0) then
        if dictTypeResizeAllowed ty d (used0 + 1)
        then bind_outcome (dictExpand ty rz d (used0 + 1)) (\<lambda>(d, r). Ok (d, True))
        else Ok (d, True)
      else Ok (d, False))"

definition dictExpandIfNeeded_auto ::
  "'k dictType \<Rightarrow> dictResizeEnable \<Rightarrow> ('k, 'v) dict \<Rightarrow> (('k, 'v) dict \<times> bool) outcome" where
  "dictExpandIfNeeded_auto ty rz d =
     (if pauseAutoResize d > 0 then Ok (d, False) else dictExpandIfNeeded ty rz d)"

definition dictShrinkIfNeeded ::
  "'k dictType \<Rightarrow> dictResizeEnable \<Rightarrow> ('k, 'v) dict \<Rightarrow> (('k, 'v) dict \<times> bool) outcome" where
  "dictShrinkIfNeeded ty rz d =
     (let sz0 = DICTHT_SIZE (ht_size_exp (ht0 d)); used0 = ht_used (ht0 d) in
      if dictIsRehashing d then Ok (d, True)
      else if sz0 \<le> DICT_HT_INITIAL_SIZE then Ok (d, True)
      else if (rz = DICT_RESIZE_ENABLE \<and> used0 * HASHTABLE_MIN_FILL \<le> sz0)
          \<or> (rz \<noteq> DICT_RESIZE_FORBID \<and> used0 * HASHTABLE_MIN_FILL * dict_force_resize_ratio \<le> sz0) then
        if dictTypeResizeAllowed ty d used0
        then bind_outcome (dictShrink ty rz d used0) (\<lambda>(d, r). Ok (d, True))
        else Ok (d, True)
      else Ok (d, False))"

definition dictShrinkIfNeeded_auto ::
  "'k dictType \<Rightarrow> dictResizeEnable \<Rightarrow> ('k, 'v) dict \<Rightarrow> ('k, 'v) dict outcome" where
  "dictShrinkIfNeeded_auto ty rz d =
     (if pauseAutoResize d > 0 then Ok d else bind_outcome (dictShrinkIfNeeded ty rz d) (\<lambda>(d, r). Ok d))"

section \<open>Lookup\<close>

type_synonym dict_place = "nat \<times> nat \<times> nat"

definition dict_ht :: "('k, 'v) dict \<Rightarrow> nat \<Rightarrow> ('k, 'v) dictht" where
  "dict_ht d table = (if table = 0 then ht0 d else ht1 d)"

definition dict_ht_update ::
  "nat \<Rightarrow> (('k, 'v) dictht \<Rightarrow> ('k, 'v) dictht) \<Rightarrow> ('k, 'v) dict \<Rightarrow> ('k, 'v) dict" where
  "dict_ht_update table f d = (if table = 0 then d\<lparr>ht0 := f (ht0 d)\<rparr> else d\<lparr>ht1 := f (ht1 d)\<rparr>)"

text \<open>The walk along a chain: the position of the first entry with the key.\<close>

fun chain_find :: "'k \<Rightarrow> ('k \<times> 'v) list \<Rightarrow> nat option" where
  "chain_find key [] = None"
| "chain_find key (de # es) = (if key = fst de then Some 0 else map_option Suc (chain_find key es))"

text \<open>
  The loop over the two tables that the lookups share, from the index \<open>idx\<close> computed with the first
  table's mask before the rehashing step: the first table is skipped for an index already moved, the
  second one is only visited while rehashing.
\<close>

definition table_find ::
  "('k, 'v) dict \<Rightarrow> 64 word \<Rightarrow> 'k \<Rightarrow> nat \<Rightarrow> dict_place option outcome" where
  "table_find d hash key table =
     (let idx = dict_idx hash (ht_size_exp (dict_ht d table)) in
      bind_outcome (get_bucket (ht_table (dict_ht d table)) idx) (\<lambda>chain.
      Ok (map_option (\<lambda>pos. (table, idx, pos)) (chain_find key chain))))"

definition tables_find ::
  "('k, 'v) dict \<Rightarrow> 64 word \<Rightarrow> 'k \<Rightarrow> nat \<Rightarrow> dict_place option outcome" where
  "tables_find d hash key idx =
     bind_outcome (if int idx < rehashidx d then Ok None else table_find d hash key 0) (\<lambda>r.
     if r \<noteq> None then Ok r
     else if \<not> dictIsRehashing d then Ok None
     else table_find d hash key 1)"

text \<open>\<open>dictFindLinkInternal\<close>: with \<open>bucket\<close> the search goes on in an empty dict, and the last bucket
  visited is returned. A table that is not allocated has no buckets.\<close>

definition dictFindLinkInternal ::
  "'k dictType \<Rightarrow> dictResizeEnable \<Rightarrow> ('k, 'v) dict \<Rightarrow> 'k \<Rightarrow> bool \<Rightarrow>
   (('k, 'v) dict \<times> dict_place option \<times> (nat \<times> nat) option) outcome" where
  "dictFindLinkInternal ty rz d key bucket =
     (if \<not> bucket \<and> dictSize d = 0 then Ok (d, None, None)
      else
        let hash = hashFunction ty key; idx = dict_idx hash (ht_size_exp (ht0 d)) in
        bind_outcome (dictRehashStepIfNeeded rz (hashFunction ty) d idx) (\<lambda>d.
        if ht_table (ht0 d) = [] then Ok (d, None, None)
        else
          bind_outcome (tables_find d hash key idx) (\<lambda>link.
          let table = (case link of Some (t, i, pos) \<Rightarrow> t | None \<Rightarrow> if dictIsRehashing d then 1 else 0)
          in Ok (d, link, if bucket then Some (table, dict_idx hash (ht_size_exp (dict_ht d table))) else None))))"

definition dictFindLink ::
  "'k dictType \<Rightarrow> dictResizeEnable \<Rightarrow> ('k, 'v) dict \<Rightarrow> 'k \<Rightarrow> bool \<Rightarrow>
   (('k, 'v) dict \<times> dict_place option \<times> (nat \<times> nat) option) outcome" where
  "dictFindLink ty rz d key bucket =
     (if dictSize d = 0 then Ok (d, None, None) else dictFindLinkInternal ty rz d key bucket)"

definition dict_entry :: "('k, 'v) dict \<Rightarrow> dict_place \<Rightarrow> 'k \<times> 'v" where
  "dict_entry d pl = (case pl of (table, idx, pos) \<Rightarrow> ht_table (dict_ht d table) ! idx ! pos)"

definition dictFind ::
  "'k dictType \<Rightarrow> dictResizeEnable \<Rightarrow> ('k, 'v) dict \<Rightarrow> 'k \<Rightarrow> (('k, 'v) dict \<times> ('k \<times> 'v) option) outcome" where
  "dictFind ty rz d key =
     bind_outcome (dictFindLink ty rz d key False) (\<lambda>(d, link, bucket). Ok (d, map_option (dict_entry d) link))"

definition dictFetchValue ::
  "'k dictType \<Rightarrow> dictResizeEnable \<Rightarrow> ('k, 'v) dict \<Rightarrow> 'k \<Rightarrow> (('k, 'v) dict \<times> 'v option) outcome" where
  "dictFetchValue ty rz d key =
     bind_outcome (dictFind ty rz d key) (\<lambda>(d, he). Ok (d, map_option snd he))"

section \<open>Insertion\<close>

text \<open>The bucket to insert into, or the place of the existing entry.\<close>

definition dictFindLinkForInsert ::
  "'k dictType \<Rightarrow> dictResizeEnable \<Rightarrow> ('k, 'v) dict \<Rightarrow> 'k \<Rightarrow>
   (('k, 'v) dict \<times> ((nat \<times> nat) + dict_place)) outcome" where
  "dictFindLinkForInsert ty rz d key =
     (let hash = hashFunction ty key; idx = dict_idx hash (ht_size_exp (ht0 d)) in
      bind_outcome (dictRehashStepIfNeeded rz (hashFunction ty) d idx) (\<lambda>d.
      bind_outcome (dictExpandIfNeeded_auto ty rz d) (\<lambda>(d, r).
      bind_outcome (tables_find d hash key idx) (\<lambda>existing.
      case existing of
        Some pl \<Rightarrow> Ok (d, Inr pl)
      | None \<Rightarrow>
          let table = (if dictIsRehashing d then 1 else 0)
          in Ok (d, Inl (table, dict_idx hash (ht_size_exp (dict_ht d table))))))))"

text \<open>The new entry becomes the head of the chain; its value field is not initialised (\<open>v0\<close>).\<close>

definition dictInsertKeyAtLink ::
  "('k, 'v) dict \<Rightarrow> 'k \<Rightarrow> 'v \<Rightarrow> nat \<times> nat \<Rightarrow> (('k, 'v) dict \<times> dict_place) outcome" where
  "dictInsertKeyAtLink d key v0 bucket =
     (let (table, idx) = bucket; htidx = (if dictIsRehashing d then 1 else 0) in
      c_assert (table = htidx \<and> idx \<le> unat (DICTHT_SIZE_MASK (ht_size_exp (dict_ht d htidx))))
        (bind_outcome (get_bucket (ht_table (dict_ht d htidx)) idx) (\<lambda>chain.
         Ok (dict_ht_update htidx
               (\<lambda>t. t\<lparr>ht_table := (ht_table t)[idx := (key, v0) # chain], ht_used := ht_used t + 1\<rparr>) d,
             (htidx, idx, 0)))))"

definition dictAddRaw ::
  "'k dictType \<Rightarrow> dictResizeEnable \<Rightarrow> ('k, 'v) dict \<Rightarrow> 'k \<Rightarrow> 'v \<Rightarrow>
   (('k, 'v) dict \<times> (dict_place + dict_place)) outcome" where
  "dictAddRaw ty rz d key v0 =
     bind_outcome (dictFindLinkForInsert ty rz d key) (\<lambda>(d, r).
     case r of
       Inr existing \<Rightarrow> Ok (d, Inr existing)
     | Inl position \<Rightarrow> bind_outcome (dictInsertKeyAtLink d key v0 position) (\<lambda>(d, entry). Ok (d, Inl entry)))"

definition dictSetVal :: "('k, 'v) dict \<Rightarrow> dict_place \<Rightarrow> 'v \<Rightarrow> ('k, 'v) dict" where
  "dictSetVal d pl v =
     (case pl of (table, idx, pos) \<Rightarrow>
        dict_ht_update table
          (\<lambda>t. t\<lparr>ht_table := (ht_table t)[idx := (ht_table t ! idx)[pos := (fst (ht_table t ! idx ! pos), v)]]\<rparr>) d)"

definition dictAdd ::
  "'k dictType \<Rightarrow> dictResizeEnable \<Rightarrow> ('k, 'v) dict \<Rightarrow> 'k \<Rightarrow> 'v \<Rightarrow> 'v \<Rightarrow> (('k, 'v) dict \<times> bool) outcome" where
  "dictAdd ty rz d key val v0 =
     bind_outcome (dictAddRaw ty rz d key v0) (\<lambda>(d, r).
     case r of Inr existing \<Rightarrow> Ok (d, False) | Inl entry \<Rightarrow> Ok (dictSetVal d entry val, True))"

text \<open>\<open>dictReplace\<close> also returns the old value it gives to the destructor.\<close>

definition dictReplace ::
  "'k dictType \<Rightarrow> dictResizeEnable \<Rightarrow> ('k, 'v) dict \<Rightarrow> 'k \<Rightarrow> 'v \<Rightarrow> 'v \<Rightarrow>
   (('k, 'v) dict \<times> bool \<times> 'v option) outcome" where
  "dictReplace ty rz d key val v0 =
     bind_outcome (dictAddRaw ty rz d key v0) (\<lambda>(d, r).
     case r of
       Inl entry \<Rightarrow> Ok (dictSetVal d entry val, True, None)
     | Inr existing \<Rightarrow>
         let oldval = snd (dict_entry d existing) in Ok (dictSetVal d existing val, False, Some oldval))"

definition dictAddOrFind ::
  "'k dictType \<Rightarrow> dictResizeEnable \<Rightarrow> ('k, 'v) dict \<Rightarrow> 'k \<Rightarrow> 'v \<Rightarrow> (('k, 'v) dict \<times> dict_place) outcome" where
  "dictAddOrFind ty rz d key v0 =
     bind_outcome (dictAddRaw ty rz d key v0) (\<lambda>(d, r). Ok (d, case r of Inl entry \<Rightarrow> entry | Inr existing \<Rightarrow> existing))"

section \<open>Removal\<close>

definition unlink_at :: "('k, 'v) dict \<Rightarrow> dict_place \<Rightarrow> ('k, 'v) dict" where
  "unlink_at d pl =
     (case pl of (table, idx, pos) \<Rightarrow>
        dict_ht_update table
          (\<lambda>t. t\<lparr>ht_table := (ht_table t)[idx := take pos (ht_table t ! idx) @ drop (Suc pos) (ht_table t ! idx)],
                 ht_used := ht_used t - 1\<rparr>) d)"

definition dictGenericDelete ::
  "'k dictType \<Rightarrow> dictResizeEnable \<Rightarrow> ('k, 'v) dict \<Rightarrow> 'k \<Rightarrow> (('k, 'v) dict \<times> ('k \<times> 'v) option) outcome" where
  "dictGenericDelete ty rz d key =
     (if dictSize d = 0 then Ok (d, None)
      else
        let h = hashFunction ty key; idx = dict_idx h (ht_size_exp (ht0 d)) in
        bind_outcome (dictRehashStepIfNeeded rz (hashFunction ty) d idx) (\<lambda>d.
        bind_outcome (tables_find d h key idx) (\<lambda>r.
        case r of
          None \<Rightarrow> Ok (d, None)
        | Some he \<Rightarrow>
            bind_outcome (dictShrinkIfNeeded_auto ty rz (unlink_at d he)) (\<lambda>d'. Ok (d', Some (dict_entry d he))))))"

definition dictDelete ::
  "'k dictType \<Rightarrow> dictResizeEnable \<Rightarrow> ('k, 'v) dict \<Rightarrow> 'k \<Rightarrow> (('k, 'v) dict \<times> bool) outcome" where
  "dictDelete ty rz d key =
     bind_outcome (dictGenericDelete ty rz d key) (\<lambda>(d, he). Ok (d, he \<noteq> None))"

definition dictUnlink ::
  "'k dictType \<Rightarrow> dictResizeEnable \<Rightarrow> ('k, 'v) dict \<Rightarrow> 'k \<Rightarrow> (('k, 'v) dict \<times> ('k \<times> 'v) option) outcome" where
  "dictUnlink ty rz d key = dictGenericDelete ty rz d key"

text \<open>The lookup of the two-phase removal computes the index again for each table, after the step.\<close>

definition dictTwoPhaseUnlinkFind ::
  "'k dictType \<Rightarrow> dictResizeEnable \<Rightarrow> ('k, 'v) dict \<Rightarrow> 'k \<Rightarrow> (('k, 'v) dict \<times> dict_place option) outcome" where
  "dictTwoPhaseUnlinkFind ty rz d key =
     (if dictSize d = 0 then Ok (d, None)
      else
        bind_outcome (if dictIsRehashing d then dictRehashStep rz (hashFunction ty) d else Ok d) (\<lambda>d.
        let h = hashFunction ty key in
        bind_outcome (tables_find d h key (dict_idx h (ht_size_exp (ht0 d)))) (\<lambda>r.
        case r of
          None \<Rightarrow> Ok (d, None)
        | Some plink \<Rightarrow> Ok (dictPauseRehashing d, Some plink))))"

definition dictTwoPhaseUnlinkFree ::
  "'k dictType \<Rightarrow> dictResizeEnable \<Rightarrow> ('k, 'v) dict \<Rightarrow> dict_place option \<Rightarrow> ('k, 'v) dict outcome" where
  "dictTwoPhaseUnlinkFree ty rz d plink =
     (case plink of
        None \<Rightarrow> Ok d
      | Some pl \<Rightarrow>
          bind_outcome (dictShrinkIfNeeded_auto ty rz (unlink_at d pl)) (\<lambda>d. Ok (dictResumeRehashing d)))"

text \<open>\<open>_dictClear\<close>: the entries it frees, in order; the loop stops when the count of used entries is 0.\<close>

fun clear_loop :: "('k \<times> 'v) list list \<Rightarrow> nat \<Rightarrow> ('k \<times> 'v) list" where
  "clear_loop [] used = []"
| "clear_loop (chain # t) used = (if used > 0 then chain @ clear_loop t (used - length chain) else [])"

definition dictClear :: "('k, 'v) dict \<Rightarrow> nat \<Rightarrow> ('k, 'v) dict \<times> ('k \<times> 'v) list" where
  "dictClear d htidx =
     (dict_ht_update htidx (\<lambda>t. dictReset) d,
      clear_loop (ht_table (dict_ht d htidx)) (ht_used (dict_ht d htidx)))"

definition dictEmpty :: "('k, 'v) dict \<Rightarrow> ('k, 'v) dict \<times> ('k \<times> 'v) list" where
  "dictEmpty d =
     (let (d, freed0) = dictClear d 0; (d, freed1) = dictClear d 1
      in (d\<lparr>rehashidx := - 1, pauserehash := 0, pauseAutoResize := 0\<rparr>, freed0 @ freed1))"

end
