(* ===== verification/Dict_Inv.thy ===== *)
theory Dict_Inv
  imports Dict "HOL-Library.Multiset"
begin

text \<open>
  The invariant of the hash tables of \<open>dict.c\<close>, the map a dict stands for, and the rehashing and
  resizing functions: none of them leaves the tables, fails an assertion or changes the map.
\<close>

section \<open>Indices\<close>

lemma DICTHT_SIZE_nat: "0 \<le> e \<Longrightarrow> DICTHT_SIZE e = 2 ^ nat e"
  by (simp add: DICTHT_SIZE_def)

lemma dict_idx_mod: "0 \<le> e \<Longrightarrow> e \<le> 63 \<Longrightarrow> dict_idx h e = unat h mod 2 ^ nat e"
proof -
  assume e: "0 \<le> e" "e \<le> 63"
  have "word_of_nat (2 ^ nat e) - 1 = (mask (nat e) :: 64 word)" by (simp add: mask_eq_exp_minus_1)
  then have "dict_idx h e = unat (take_bit (nat e) h)"
    using e by (simp add: dict_idx_def DICTHT_SIZE_MASK_def DICTHT_SIZE_def take_bit_eq_mask)
  also have "\<dots> = take_bit (nat e) (unat h)" by (rule unsigned_take_bit_eq)
  finally show ?thesis by (simp add: take_bit_eq_mod)
qed

lemma dict_idx_less: "0 \<le> e \<Longrightarrow> e \<le> 63 \<Longrightarrow> dict_idx h e < DICTHT_SIZE e"
  by (simp add: dict_idx_mod DICTHT_SIZE_nat)

lemma dict_idx_shrink:
  assumes "0 \<le> e1" "e1 \<le> e0" "e0 \<le> 63"
  shows "dict_idx (word_of_nat (dict_idx h e0)) e1 = dict_idx h e1"
proof -
  have "unat h mod 2 ^ nat e0 < 2 ^ 64"
  proof -
    have "unat h < 2 ^ LENGTH(64)" by (rule unsigned_less)
    then have "unat h < 2 ^ 64" by simp
    then show ?thesis using mod_less_eq_dividend [of "unat h" "2 ^ nat e0"] by linarith
  qed
  then have "unat (word_of_nat (dict_idx h e0) :: 64 word) = unat h mod 2 ^ nat e0"
    using assms by (simp add: dict_idx_mod unat_of_nat)
  moreover have "(2 :: nat) ^ nat e1 dvd 2 ^ nat e0" using assms by (simp add: le_imp_power_dvd)
  ultimately show ?thesis using assms by (simp add: dict_idx_mod mod_mod_cancel)
qed

lemma unat_DICTHT_SIZE_MASK: "0 \<le> e \<Longrightarrow> e \<le> 63 \<Longrightarrow> unat (DICTHT_SIZE_MASK e) = DICTHT_SIZE e - 1"
proof -
  assume e: "0 \<le> e" "e \<le> 63"
  have "DICTHT_SIZE_MASK e = mask (nat e)"
    using e by (simp add: DICTHT_SIZE_MASK_def DICTHT_SIZE_def mask_eq_exp_minus_1)
  moreover have "unat (mask (nat e) :: 64 word) = mask (nat e)"
  proof -
    have "(mask (nat e) :: nat) < 2 ^ nat e" by (simp add: mask_eq_exp_minus_1)
    also have "(2 :: nat) ^ nat e \<le> 2 ^ 64" using e by (intro power_increasing) auto
    finally have "unat (word_of_nat (mask (nat e)) :: 64 word) = mask (nat e)"
      unfolding unat_of_nat by simp
    then show ?thesis by (simp only: of_nat_mask_eq)
  qed
  ultimately show ?thesis using e by (simp add: DICTHT_SIZE_def mask_eq_exp_minus_1)
qed

section \<open>The invariant\<close>

definition ht_ok :: "('k \<Rightarrow> 64 word) \<Rightarrow> ('k, 'v) dictht \<Rightarrow> bool" where
  "ht_ok hash t \<longleftrightarrow>
     2 \<le> ht_size_exp t \<and> ht_size_exp t \<le> 62 \<and> length (ht_table t) = 2 ^ nat (ht_size_exp t)
     \<and> ht_used t = length (concat (ht_table t))
     \<and> (\<forall>i < length (ht_table t). \<forall>e \<in> set (ht_table t ! i). dict_idx (hash (fst e)) (ht_size_exp t) = i)"

definition dict_entries :: "('k, 'v) dict \<Rightarrow> ('k \<times> 'v) list" where
  "dict_entries d = concat (ht_table (ht0 d)) @ concat (ht_table (ht1 d))"

definition dict_map :: "('k, 'v) dict \<Rightarrow> 'k \<rightharpoonup> 'v" where
  "dict_map d = map_of (dict_entries d)"

definition dict_ok :: "('k \<Rightarrow> 64 word) \<Rightarrow> ('k, 'v) dict \<Rightarrow> bool" where
  "dict_ok hash d \<longleftrightarrow>
     distinct (map fst (dict_entries d))
     \<and> (if rehashidx d = - 1 then (ht0 d = dictReset \<or> ht_ok hash (ht0 d)) \<and> ht1 d = dictReset
        else ht_ok hash (ht0 d) \<and> ht_ok hash (ht1 d) \<and> ht_size_exp (ht0 d) \<noteq> ht_size_exp (ht1 d)
          \<and> 0 \<le> rehashidx d \<and> rehashidx d \<le> int (length (ht_table (ht0 d)))
          \<and> (\<forall>i < nat (rehashidx d). ht_table (ht0 d) ! i = []))"

lemma dictReset_simps [simp]:
  "ht_table dictReset = []" "ht_used dictReset = 0" "ht_size_exp dictReset = - 1"
  by (simp_all add: dictReset_def)

lemma dictCreate_ok: "dict_ok hash dictCreate" "dict_map dictCreate = Map.empty"
  by (simp_all add: dict_ok_def dictCreate_def dictInit_def dict_map_def dict_entries_def)

lemma map_of_mset:
  assumes "mset xs = mset ys" "distinct (map fst xs)"
  shows "map_of xs = map_of ys"
proof
  have "mset (map fst xs) = mset (map fst ys)" using assms(1) by simp
  then have d: "distinct (map fst ys)" using assms(2) by (metis mset_eq_imp_distinct_iff)
  have "set xs = set ys" using assms(1) by (rule mset_eq_setD)
  then have eq: "map_of xs k = Some v \<longleftrightarrow> map_of ys k = Some v" for k v
    by (simp add: map_of_eq_Some_iff [OF assms(2)] map_of_eq_Some_iff [OF d])
  show "map_of xs k = map_of ys k" for k
    using eq [of k] by (cases "map_of ys k"; cases "map_of xs k") auto
qed

lemma mset_concat_update:
  "i < length t \<Longrightarrow> mset (concat (t[i := c])) + mset (t ! i) = mset (concat t) + mset c"
proof -
  assume i: "i < length t"
  have "concat t = concat (take i t) @ t ! i @ concat (drop (Suc i) t)"
    by (metis i id_take_nth_drop concat_append concat.simps(2))
  then show ?thesis using i by (simp add: upd_conv_take_nth_drop)
qed

lemma length_concat_mset: "length (concat t) = size (mset (concat t))"
  by simp

lemma get_bucket_Ok [simp]: "i < length t \<Longrightarrow> get_bucket t i = Ok (t ! i)"
  by (simp add: get_bucket_def)

lemma ht_ok_length: "ht_ok hash t \<Longrightarrow> length (ht_table t) = DICTHT_SIZE (ht_size_exp t)"
  by (simp add: ht_ok_def DICTHT_SIZE_def)

lemma ht_ok_idx_less: "ht_ok hash t \<Longrightarrow> dict_idx h (ht_size_exp t) < length (ht_table t)"
proof -
  assume ok: "ht_ok hash t"
  then have "0 \<le> ht_size_exp t" "ht_size_exp t \<le> 63" by (simp_all add: ht_ok_def)
  then show ?thesis unfolding ht_ok_length [OF ok] by (rule dict_idx_less)
qed

section \<open>Moving a bucket\<close>

definition ht_insert :: "nat \<Rightarrow> 'k \<times> 'v \<Rightarrow> ('k, 'v) dictht \<Rightarrow> ('k, 'v) dictht" where
  "ht_insert h de t = t\<lparr>ht_table := (ht_table t)[h := de # ht_table t ! h], ht_used := ht_used t + 1\<rparr>"

lemma ht_insert_simps [simp]:
  "ht_size_exp (ht_insert h de t) = ht_size_exp t" "length (ht_table (ht_insert h de t)) = length (ht_table t)"
  by (simp_all add: ht_insert_def)

lemma ht_insert_mset:
  "h < length (ht_table t) \<Longrightarrow> mset (concat (ht_table (ht_insert h de t))) = add_mset de (mset (concat (ht_table t)))"
  using mset_concat_update [of h "ht_table t" "de # ht_table t ! h"] by (simp add: ht_insert_def)

lemma ht_insert_ok:
  assumes "ht_ok hash t" "h = dict_idx (hash (fst de)) (ht_size_exp t)"
  shows "ht_ok hash (ht_insert h de t)"
proof -
  have h: "h < length (ht_table t)" using ht_ok_idx_less [OF assms(1)] assms(2) by simp
  have "length (concat (ht_table (ht_insert h de t))) = Suc (length (concat (ht_table t)))"
    using ht_insert_mset [OF h, of de] by (metis size_add_mset size_mset)
  then show ?thesis using assms h by (auto simp: ht_ok_def ht_insert_def nth_list_update split: if_splits)
qed

lemma move_entries_spec:
  assumes "ht_ok hash (ht1 d)" "2 \<le> ht_size_exp (ht0 d)" "ht_size_exp (ht0 d) \<le> 62"
    "\<forall>e \<in> set es. dict_idx (hash (fst e)) (ht_size_exp (ht0 d)) = idx"
  shows "\<exists>t. move_entries hash d idx es =
      Ok (d\<lparr>ht1 := t, ht0 := (ht0 d)\<lparr>ht_used := ht_used (ht0 d) - length es\<rparr>\<rparr>)
    \<and> ht_ok hash t \<and> ht_size_exp t = ht_size_exp (ht1 d) \<and> mset (concat (ht_table t)) = mset es + mset (concat (ht_table (ht1 d)))"
  using assms
proof (induction es arbitrary: d)
  case (Cons de es)
  let ?e0 = "ht_size_exp (ht0 d)" and ?e1 = "ht_size_exp (ht1 d)"
  define h where "h = dict_idx (hash (fst de)) ?e1"
  have e1: "2 \<le> ?e1" "?e1 \<le> 62" using Cons.prems(1) by (simp_all add: ht_ok_def)
  have idx: "dict_idx (hash (fst de)) ?e0 = idx" using Cons.prems(4) by simp
  have h_eq: "(if ?e1 > ?e0 then dict_idx (hash (fst de)) ?e1 else dict_idx (word_of_nat idx) ?e1) = h"
    using dict_idx_shrink [of ?e1 ?e0 "hash (fst de)"] e1 Cons.prems(3) unfolding idx by (simp add: h_def)
  have h: "h < length (ht_table (ht1 d))" using ht_ok_idx_less [OF Cons.prems(1)] by (simp add: h_def)
  define d' where "d' = d\<lparr>ht1 := ht_insert h de (ht1 d), ht0 := (ht0 d)\<lparr>ht_used := ht_used (ht0 d) - 1\<rparr>\<rparr>"
  have step: "move_entries hash d idx (de # es) = move_entries hash d' idx es"
    unfolding move_entries.simps Let_def h_eq using h by (simp add: d'_def ht_insert_def)
  have ok: "ht_ok hash (ht1 d')" using ht_insert_ok [OF Cons.prems(1) h_def] by (simp add: d'_def)
  obtain t where t: "move_entries hash d' idx es =
      Ok (d'\<lparr>ht1 := t, ht0 := (ht0 d')\<lparr>ht_used := ht_used (ht0 d') - length es\<rparr>\<rparr>)" "ht_ok hash t"
    "ht_size_exp t = ht_size_exp (ht1 d')" "mset (concat (ht_table t)) = mset es + mset (concat (ht_table (ht1 d')))"
    using Cons.IH [of d'] ok Cons.prems by (auto simp: d'_def)
  have "mset (concat (ht_table t)) = mset (de # es) + mset (concat (ht_table (ht1 d)))"
    using t(4) ht_insert_mset [OF h] by (simp add: d'_def)
  then show ?case using t(1-3) step by (auto simp: d'_def)
next
  case Nil
  then show ?case by (intro exI [of _ "ht1 d"]) simp
qed

lemma rehashEntries_spec:
  assumes "ht_ok hash (ht0 d)" "ht_ok hash (ht1 d)" "idx < length (ht_table (ht0 d))"
  shows "\<exists>t0 t1. rehashEntriesInBucketAtIndex hash d idx = Ok (d\<lparr>ht0 := t0, ht1 := t1\<rparr>)
    \<and> ht_ok hash t0 \<and> ht_ok hash t1 \<and> ht_size_exp t0 = ht_size_exp (ht0 d) \<and> ht_size_exp t1 = ht_size_exp (ht1 d)
    \<and> ht_table t0 = (ht_table (ht0 d))[idx := []]
    \<and> mset (concat (ht_table t0)) + mset (concat (ht_table t1)) = mset (dict_entries d)"
proof -
  let ?c = "ht_table (ht0 d) ! idx"
  have "\<forall>e \<in> set ?c. dict_idx (hash (fst e)) (ht_size_exp (ht0 d)) = idx"
    using assms(1,3) by (simp add: ht_ok_def)
  then obtain t1 where t1: "move_entries hash d idx ?c =
      Ok (d\<lparr>ht1 := t1, ht0 := (ht0 d)\<lparr>ht_used := ht_used (ht0 d) - length ?c\<rparr>\<rparr>)"
    "ht_ok hash t1" "ht_size_exp t1 = ht_size_exp (ht1 d)"
    "mset (concat (ht_table t1)) = mset ?c + mset (concat (ht_table (ht1 d)))"
    using move_entries_spec [OF assms(2), of ?c idx] assms(1) by (auto simp: ht_ok_def)
  define t0 where "t0 = (ht0 d)\<lparr>ht_used := ht_used (ht0 d) - length ?c, ht_table := (ht_table (ht0 d))[idx := []]\<rparr>"
  have m: "mset (concat (ht_table t0)) + mset ?c = mset (concat (ht_table (ht0 d)))"
    using mset_concat_update [OF assms(3), of "[]"] by (simp add: t0_def)
  then have "length (concat (ht_table t0)) + length ?c = length (concat (ht_table (ht0 d)))"
    by (metis size_mset size_union)
  then have "ht_ok hash t0" using assms(1,3) by (auto simp: ht_ok_def t0_def nth_list_update split: if_splits)
  moreover have "rehashEntriesInBucketAtIndex hash d idx = Ok (d\<lparr>ht0 := t0, ht1 := t1\<rparr>)"
    using assms(3) t1(1) by (simp add: rehashEntriesInBucketAtIndex_def t0_def)
  moreover have "mset (concat (ht_table t0)) + mset (concat (ht_table t1)) = mset (dict_entries d)"
    unfolding t1(4) dict_entries_def mset_append m [symmetric] by simp
  ultimately show ?thesis using t1(2,3) by (intro exI [of _ t0] exI [of _ t1]) (simp add: t0_def)
qed

section \<open>Rehashing keeps the contents\<close>

text \<open>The same entries in another arrangement.\<close>

definition dict_same :: "('k, 'v) dict \<Rightarrow> ('k, 'v) dict \<Rightarrow> bool" where
  "dict_same d d' \<longleftrightarrow> mset (dict_entries d') = mset (dict_entries d)
     \<and> pauserehash d' = pauserehash d \<and> pauseAutoResize d' = pauseAutoResize d"

lemma dict_same_refl [simp]: "dict_same d d"
  by (simp add: dict_same_def)

lemma dict_same_trans: "dict_same d e \<Longrightarrow> dict_same e f \<Longrightarrow> dict_same d f"
  by (simp add: dict_same_def)

lemma distinct_fst_mset: "mset xs = mset ys \<Longrightarrow> distinct (map fst xs) \<longleftrightarrow> distinct (map fst ys)"
  by (metis mset_map mset_eq_imp_distinct_iff)

lemma dict_ok_distinct: "dict_ok hash d \<Longrightarrow> distinct (map fst (dict_entries d))"
  by (simp add: dict_ok_def)

lemma dict_same_map: "dict_ok hash d \<Longrightarrow> dict_same d d' \<Longrightarrow> dict_map d' = dict_map d"
  unfolding dict_map_def dict_same_def by (metis dict_ok_distinct map_of_mset)

lemma not_ht_ok_reset [simp]: "\<not> ht_ok hash dictReset"
  by (simp add: ht_ok_def)

lemma dict_ok_rehashing:
  "dict_ok hash d \<Longrightarrow> dictIsRehashing d \<longleftrightarrow>
   ht_ok hash (ht0 d) \<and> ht_ok hash (ht1 d) \<and> ht_size_exp (ht0 d) \<noteq> ht_size_exp (ht1 d)
     \<and> 0 \<le> rehashidx d \<and> rehashidx d \<le> int (length (ht_table (ht0 d)))
     \<and> (\<forall>i < nat (rehashidx d). ht_table (ht0 d) ! i = [])"
  by (auto simp: dict_ok_def dictIsRehashing_def)

definition dict_allocated :: "('k, 'v) dict \<Rightarrow> bool" where
  "dict_allocated d \<longleftrightarrow> ht_table (ht0 d) \<noteq> []"

lemma dict_allocated_rehashing: "dict_ok hash d \<Longrightarrow> dictIsRehashing d \<Longrightarrow> dict_allocated d"
  by (auto simp: dict_ok_def dictIsRehashing_def dict_allocated_def ht_ok_def)

lemma dict_okI_rehashing:
  assumes "distinct (map fst (dict_entries d))" "ht_ok hash (ht0 d)" "ht_ok hash (ht1 d)"
    "ht_size_exp (ht0 d) \<noteq> ht_size_exp (ht1 d)" "0 \<le> rehashidx d" "rehashidx d \<le> int (length (ht_table (ht0 d)))"
    "\<And>i. i < nat (rehashidx d) \<Longrightarrow> ht_table (ht0 d) ! i = []"
  shows "dict_ok hash d" "dictIsRehashing d"
  using assms by (auto simp: dict_ok_def dictIsRehashing_def)

lemma rehashEntries_ok:
  assumes ok: "dict_ok hash d" and re: "dictIsRehashing d" and idx: "idx < length (ht_table (ht0 d))"
  shows "\<exists>d'. rehashEntriesInBucketAtIndex hash d idx = Ok d' \<and> dict_ok hash d' \<and> dictIsRehashing d' \<and> dict_same d d'
    \<and> rehashidx d' = rehashidx d \<and> ht_table (ht0 d') = (ht_table (ht0 d))[idx := []]"
proof -
  note r = dict_ok_rehashing [OF ok, THEN iffD1, OF re]
  obtain t0 t1 where t: "rehashEntriesInBucketAtIndex hash d idx = Ok (d\<lparr>ht0 := t0, ht1 := t1\<rparr>)"
    "ht_ok hash t0" "ht_ok hash t1" "ht_size_exp t0 = ht_size_exp (ht0 d)" "ht_size_exp t1 = ht_size_exp (ht1 d)"
    "ht_table t0 = (ht_table (ht0 d))[idx := []]"
    "mset (concat (ht_table t0)) + mset (concat (ht_table t1)) = mset (dict_entries d)"
    using rehashEntries_spec [of hash d idx] r idx by blast
  let ?d = "d\<lparr>ht0 := t0, ht1 := t1\<rparr>"
  have m: "mset (dict_entries ?d) = mset (dict_entries d)" using t(7) by (simp add: dict_entries_def)
  have "distinct (map fst (dict_entries ?d))" using dict_ok_distinct [OF ok] distinct_fst_mset [OF m] by simp
  moreover have "ht_table t0 ! i = []" if "i < nat (rehashidx d)" for i
    using r that idx by (cases "i = idx") (auto simp: t(6))
  ultimately have "dict_ok hash ?d" "dictIsRehashing ?d"
    using r t by (auto intro!: dict_okI_rehashing)
  then show ?thesis using t(1,6) m by (intro exI [of _ ?d]) (simp add: dict_same_def)
qed

lemma skip_empty_spec:
  "idx \<le> j \<Longrightarrow> j < length t \<Longrightarrow> t ! j \<noteq> [] \<Longrightarrow>
   \<exists>i r. skip_empty t idx visits = Ok (i, r) \<and> idx \<le> i \<and> i \<le> j \<and> (\<forall>k. idx \<le> k \<and> k < i \<longrightarrow> t ! k = [])
     \<and> (case r of None \<Rightarrow> True | Some v \<Rightarrow> 0 < v \<and> t ! i \<noteq> [])"
proof (induction visits arbitrary: idx)
  case (Suc visits)
  show ?case
  proof (cases "t ! idx = []")
    case True
    then have "idx \<noteq> j" using Suc.prems(3) by auto
    then have "idx + 1 \<le> j" using Suc.prems(1) by simp
    from Suc.IH [OF this Suc.prems(2,3)] obtain i r where i: "skip_empty t (idx + 1) visits = Ok (i, r)" "idx + 1 \<le> i"
      "i \<le> j" "\<forall>k. idx + 1 \<le> k \<and> k < i \<longrightarrow> t ! k = []" "case r of None \<Rightarrow> True | Some v \<Rightarrow> 0 < v \<and> t ! i \<noteq> []"
      by blast
    have "t ! k = []" if "idx \<le> k" "k < i" for k
      using i(4) True that by (cases "k = idx") auto
    then show ?thesis using i True Suc.prems by auto
  qed (use Suc.prems in auto)
qed auto

lemma concat_nonempty: "concat t \<noteq> [] \<Longrightarrow> \<exists>j < length t. t ! j \<noteq> []"
  by (metis concat_eq_Nil_conv in_set_conv_nth)

lemma rehash_set_idx:
  assumes "dict_ok hash d" "dictIsRehashing d" "nat (rehashidx d) \<le> i" "i \<le> length (ht_table (ht0 d))"
    "\<And>k. nat (rehashidx d) \<le> k \<Longrightarrow> k < i \<Longrightarrow> ht_table (ht0 d) ! k = []"
  shows "dict_ok hash (d\<lparr>rehashidx := int i\<rparr>)" "dictIsRehashing (d\<lparr>rehashidx := int i\<rparr>)"
    "dict_same d (d\<lparr>rehashidx := int i\<rparr>)"
proof -
  note r = dict_ok_rehashing [OF assms(1), THEN iffD1, OF assms(2)]
  have e: "dict_entries (d\<lparr>rehashidx := int i\<rparr>) = dict_entries d" by (simp add: dict_entries_def)
  have "ht_table (ht0 d) ! k = []" if "k < i" for k
    using r assms(5) that by (cases "k < nat (rehashidx d)") auto
  then show "dict_ok hash (d\<lparr>rehashidx := int i\<rparr>)" "dictIsRehashing (d\<lparr>rehashidx := int i\<rparr>)"
    using r assms(4) dict_ok_distinct [OF assms(1)] by (auto intro!: dict_okI_rehashing simp: e)
  show "dict_same d (d\<lparr>rehashidx := int i\<rparr>)" by (simp add: dict_same_def e)
qed

lemma rehash_loop_spec:
  "dict_ok hash d \<Longrightarrow> dictIsRehashing d \<Longrightarrow> n = 0 \<or> 0 < visits \<Longrightarrow>
   \<exists>d' early. rehash_loop hash d n visits = Ok (d', early) \<and> dict_ok hash d' \<and> dictIsRehashing d' \<and> dict_same d d'"
proof (induction n arbitrary: d visits)
  case (Suc n)
  note r = dict_ok_rehashing [OF Suc.prems(1), THEN iffD1, OF Suc.prems(2)]
  let ?t = "ht_table (ht0 d)"
  show ?case
  proof (cases "ht_used (ht0 d) = 0")
    case False
    then have "concat ?t \<noteq> []" using r by (simp add: ht_ok_def)
    then obtain j where j: "j < length ?t" "?t ! j \<noteq> []" using concat_nonempty by blast
    then have le: "nat (rehashidx d) \<le> j" using r by (meson not_le)
    then have assert: "int (DICTHT_SIZE (ht_size_exp (ht0 d))) > rehashidx d"
      using j(1) ht_ok_length [of hash "ht0 d"] r by linarith
    obtain i res where i: "skip_empty ?t (nat (rehashidx d)) visits = Ok (i, res)" "nat (rehashidx d) \<le> i" "i \<le> j"
      "\<forall>k. nat (rehashidx d) \<le> k \<and> k < i \<longrightarrow> ?t ! k = []" "case res of None \<Rightarrow> True | Some v \<Rightarrow> 0 < v \<and> ?t ! i \<noteq> []"
      using skip_empty_spec [OF le j] by blast
    have il: "i < length ?t" using i(3) j(1) by simp
    note s = rehash_set_idx [OF Suc.prems(1,2) i(2) less_imp_le [OF il]]
    have s: "dict_ok hash (d\<lparr>rehashidx := int i\<rparr>)" "dictIsRehashing (d\<lparr>rehashidx := int i\<rparr>)"
      "dict_same d (d\<lparr>rehashidx := int i\<rparr>)" using s i(4) by blast+
    show ?thesis
    proof (cases res)
      case None
      then show ?thesis using False assert i(1) s by auto
    next
      case (Some v)
      obtain e where e: "rehashEntriesInBucketAtIndex hash (d\<lparr>rehashidx := int i\<rparr>) i = Ok e" "dict_ok hash e"
        "dictIsRehashing e" "dict_same (d\<lparr>rehashidx := int i\<rparr>) e" "rehashidx e = int i" "ht_table (ht0 e) = ?t[i := []]"
        using rehashEntries_ok [OF s(1,2), of i] il by auto
      have n: "nat (rehashidx e) \<le> i + 1" "i + 1 \<le> length (ht_table (ht0 e))"
        "\<And>k. nat (rehashidx e) \<le> k \<Longrightarrow> k < i + 1 \<Longrightarrow> ht_table (ht0 e) ! k = []"
        using e(5,6) il by (auto dest!: le_less_Suc_eq [THEN iffD1, rotated])
      note f = rehash_set_idx [OF e(2,3) n]
      have v: "n = 0 \<or> 0 < v" using i(5) Some by simp
      obtain d' early where "rehash_loop hash (e\<lparr>rehashidx := int (i + 1)\<rparr>) n v = Ok (d', early)" "dict_ok hash d'"
        "dictIsRehashing d'" "dict_same (e\<lparr>rehashidx := int (i + 1)\<rparr>) d'"
        using Suc.IH [OF f(1,2) v] by blast
      moreover have "rehash_loop hash d (Suc n) visits = rehash_loop hash (e\<lparr>rehashidx := int (i + 1)\<rparr>) n v"
        using False assert i(1) Some e(1,5) by (simp add: add.commute)
      ultimately show ?thesis using dict_same_trans [OF dict_same_trans [OF dict_same_trans [OF s(3) e(4)] f(3)]] by auto
    qed
  qed (use Suc.prems in auto)
qed auto

lemma ht_ok_empty: "ht_ok hash t \<Longrightarrow> ht_used t = 0 \<Longrightarrow> concat (ht_table t) = []"
  by (simp add: ht_ok_def)

lemma dictCheckRehashingCompleted_ok:
  assumes "dict_ok hash d" "dictIsRehashing d" "dictCheckRehashingCompleted d = (d', c)"
  shows "dict_ok hash d'" "dict_same d d'" "dictIsRehashing d' \<longleftrightarrow> \<not> c" "dict_allocated d'"
proof -
  note r = dict_ok_rehashing [OF assms(1), THEN iffD1, OF assms(2)]
  have "dict_ok hash d' \<and> dict_same d d' \<and> (dictIsRehashing d' \<longleftrightarrow> \<not> c) \<and> dict_allocated d'"
  proof (cases "ht_used (ht0 d) = 0")
    case True
    then have d': "d' = d\<lparr>ht0 := ht1 d, ht1 := dictReset, rehashidx := - 1\<rparr>" "c"
      using assms(3) by (auto simp: dictCheckRehashingCompleted_def)
    have "concat (ht_table (ht0 d)) = []" using True r ht_ok_empty by blast
    then have e: "dict_entries d' = dict_entries d" by (simp add: dict_entries_def d')
    then have "dict_ok hash d'" using dict_ok_distinct [OF assms(1)] r by (simp add: dict_ok_def d')
    then show ?thesis using d' r by (auto simp: dict_same_def e [unfolded d'] dictIsRehashing_def dict_allocated_def ht_ok_def)
  qed (use assms dict_allocated_rehashing [OF assms(1,2)] in \<open>auto simp: dictCheckRehashingCompleted_def\<close>)
  then show "dict_ok hash d'" "dict_same d d'" "dictIsRehashing d' \<longleftrightarrow> \<not> c" "dict_allocated d'" by blast+
qed

lemma dictRehash_ok:
  assumes "dict_ok hash d"
  shows "\<exists>d' again. dictRehash rz hash d n = Ok (d', again) \<and> dict_ok hash d' \<and> dict_same d d' \<and> (again \<longrightarrow> dictIsRehashing d')
    \<and> (\<not> rehash_refused rz d \<longrightarrow> again = dictIsRehashing d') \<and> (dict_allocated d \<longrightarrow> dict_allocated d')"
proof (cases "rehash_refused rz d")
  case False
  then have re: "dictIsRehashing d" by (auto simp: rehash_refused_def Let_def)
  obtain e early where e: "rehash_loop hash d n (n * 10) = Ok (e, early)" "dict_ok hash e" "dictIsRehashing e" "dict_same d e"
    using rehash_loop_spec [OF assms re, of n "n * 10"] by auto
  obtain f c where f: "dictCheckRehashingCompleted e = (f, c)" by fastforce
  show ?thesis
    using e f dictCheckRehashingCompleted_ok [OF e(2,3) f] False dict_same_trans [OF e(4)] dict_allocated_rehashing [OF e(2,3)]
    by (cases early) (auto simp: dictRehash_def)
qed (use assms in \<open>auto simp: dictRehash_def\<close>)

lemma dictBucketRehash_ok:
  assumes "dict_ok hash d" "idx < length (ht_table (ht0 d))"
  shows "\<exists>d' r. dictBucketRehash rz hash d idx = Ok (d', r) \<and> dict_ok hash d' \<and> dict_same d d' \<and> (dict_allocated d \<longrightarrow> dict_allocated d')"
proof (cases "pauserehash d = 0 \<and> \<not> rehash_refused rz d")
  case True
  then have re: "dictIsRehashing d" by (auto simp: rehash_refused_def Let_def)
  obtain e where e: "rehashEntriesInBucketAtIndex hash d idx = Ok e" "dict_ok hash e" "dictIsRehashing e" "dict_same d e"
    using rehashEntries_ok [OF assms(1) re assms(2)] by blast
  obtain f c where f: "dictCheckRehashingCompleted e = (f, c)" by fastforce
  show ?thesis
    using e f dictCheckRehashingCompleted_ok [OF e(2,3) f] True dict_same_trans [OF e(4)]
    by (auto simp: dictBucketRehash_def)
qed (use assms in \<open>auto simp: dictBucketRehash_def\<close>)

lemma dictRehashStep_ok:
  assumes "dict_ok hash d"
  shows "\<exists>d'. dictRehashStep rz hash d = Ok d' \<and> dict_ok hash d' \<and> dict_same d d' \<and> (dict_allocated d \<longrightarrow> dict_allocated d')"
  using dictRehash_ok [OF assms, of rz 1] assms by (auto simp: dictRehashStep_def)

lemma dictRehashStepIfNeeded_ok:
  assumes "dict_ok hash d" "dictIsRehashing d \<Longrightarrow> idx < length (ht_table (ht0 d))"
  shows "\<exists>d'. dictRehashStepIfNeeded rz hash d idx = Ok d' \<and> dict_ok hash d' \<and> dict_same d d' \<and> (dict_allocated d \<longrightarrow> dict_allocated d')"
proof (cases "dictIsRehashing d \<and> pauserehash d = 0")
  case True
  then have "idx < length (ht_table (ht0 d))" using assms(2) by blast
  then show ?thesis
    using dictBucketRehash_ok [OF assms(1), of idx rz] dictRehash_ok [OF assms(1), of rz 1] True
    by (auto simp: dictRehashStepIfNeeded_def)
qed (use assms(1) in \<open>auto simp: dictRehashStepIfNeeded_def\<close>)

lemma full_rehash_ok:
  "dict_ok hash d \<Longrightarrow> dictIsRehashing d \<Longrightarrow>
   \<exists>d'. full_rehash rz hash d = Ok d' \<and> dict_ok hash d' \<and> dict_same d d' \<and> (rz = DICT_RESIZE_ENABLE \<longrightarrow> \<not> dictIsRehashing d')"
proof (induction rz hash d rule: full_rehash.induct)
  case (1 rz hash d)
  obtain e again where e: "dictRehash rz hash d 1000 = Ok (e, again)" "dict_ok hash e" "dict_same d e"
    "again \<longrightarrow> dictIsRehashing e" "\<not> rehash_refused rz d \<longrightarrow> again = dictIsRehashing e"
    using dictRehash_ok [OF 1(2), of rz 1000] by blast
  have refused: "rz = DICT_RESIZE_ENABLE \<Longrightarrow> \<not> rehash_refused rz d" using 1(3) by (simp add: rehash_refused_def)
  have pos: "0 \<le> rehashidx d" using dict_ok_rehashing [OF 1(2)] 1(3) by blast
  show ?case
  proof (cases again)
    case True
    then obtain d' where "full_rehash rz hash e = Ok d'" "dict_ok hash d'" "dict_same e d'"
      "rz = DICT_RESIZE_ENABLE \<longrightarrow> \<not> dictIsRehashing d'"
      using 1(1) [OF e(1) refl _ e(2)] e(4) pos by auto
    then show ?thesis
      using True e(1) pos dict_same_trans [OF e(3)] by (subst full_rehash.simps) auto
  next
    case False
    then show ?thesis using e refused by (subst full_rehash.simps) auto
  qed
qed

section \<open>The sizes while rehashing goes on\<close>

text \<open>Rehashing that has not completed leaves the sizes of both tables alone.\<close>

definition same_exps :: "('k, 'v) dict \<Rightarrow> ('k, 'v) dict \<Rightarrow> bool" where
  "same_exps d d' \<longleftrightarrow> ht_size_exp (ht0 d') = ht_size_exp (ht0 d) \<and> ht_size_exp (ht1 d') = ht_size_exp (ht1 d)"

lemma move_entries_exps: "move_entries hash d idx es = Ok d' \<Longrightarrow> same_exps d d'"
  by (induction es arbitrary: d) (auto simp: Let_def bind_outcome_Ok same_exps_def)

lemma rehashEntries_exps: "rehashEntriesInBucketAtIndex hash d idx = Ok d' \<Longrightarrow> same_exps d d'"
  by (auto simp: rehashEntriesInBucketAtIndex_def bind_outcome_Ok same_exps_def dest!: move_entries_exps)

lemma rehash_loop_exps: "rehash_loop hash d n visits = Ok (d', early) \<Longrightarrow> same_exps d d'"
proof (induction n arbitrary: d visits)
  case (Suc n)
  show ?case
  proof (cases "ht_used (ht0 d) = 0")
    case False
    then obtain idx r where skip: "skip_empty (ht_table (ht0 d)) (nat (rehashidx d)) visits = Ok (idx, r)"
      using Suc.prems by (auto simp: bind_outcome_Ok)
    show ?thesis
    proof (cases r)
      case None
      then show ?thesis using Suc.prems False skip by (auto simp: same_exps_def)
    next
      case (Some v)
      obtain e where e: "rehashEntriesInBucketAtIndex hash (d\<lparr>rehashidx := int idx\<rparr>) idx = Ok e"
        "rehash_loop hash (e\<lparr>rehashidx := rehashidx e + 1\<rparr>) n v = Ok (d', early)"
        using Suc.prems False skip Some by (auto simp: bind_outcome_Ok)
      show ?thesis using Suc.IH [OF e(2)] rehashEntries_exps [OF e(1)] by (simp add: same_exps_def)
    qed
  qed (use Suc.prems in \<open>auto simp: same_exps_def\<close>)
qed (auto simp: same_exps_def)

lemma check_completed_exps:
  "dictCheckRehashingCompleted d = (d', c) \<Longrightarrow> dictIsRehashing d' \<Longrightarrow> same_exps d d'"
  by (auto simp: dictCheckRehashingCompleted_def dictIsRehashing_def same_exps_def split: if_splits)

lemma dictRehash_exps: "dictRehash rz hash d n = Ok (d', again) \<Longrightarrow> dictIsRehashing d' \<Longrightarrow> same_exps d d'"
  by (auto simp: dictRehash_def bind_outcome_Ok Let_def same_exps_def
      dest!: rehash_loop_exps check_completed_exps split: if_splits prod.splits)

lemma dictBucketRehash_exps: "dictBucketRehash rz hash d idx = Ok (d', r) \<Longrightarrow> dictIsRehashing d' \<Longrightarrow> same_exps d d'"
proof -
  assume a: "dictBucketRehash rz hash d idx = Ok (d', r)" "dictIsRehashing d'"
  show ?thesis
  proof (cases "pauserehash d \<noteq> 0 \<or> rehash_refused rz d")
    case False
    then obtain e where e: "rehashEntriesInBucketAtIndex hash d idx = Ok e" "fst (dictCheckRehashingCompleted e) = d'"
      using a(1) by (auto simp: dictBucketRehash_def bind_outcome_Ok Let_def case_prod_beta)
    then have "same_exps e d'" using check_completed_exps [of e d'] a(2) by (metis prod.collapse)
    then show ?thesis using rehashEntries_exps [OF e(1)] by (simp add: same_exps_def)
  next
    case True
    then have "d' = d" using a(1) by (auto simp: dictBucketRehash_def split: if_splits)
    then show ?thesis by (simp add: same_exps_def)
  qed
qed

lemma dictRehashStepIfNeeded_exps:
  "dictRehashStepIfNeeded rz hash d idx = Ok d' \<Longrightarrow> dictIsRehashing d' \<Longrightarrow> dictIsRehashing d \<and> same_exps d d'"
  by (auto simp: dictRehashStepIfNeeded_def bind_outcome_Ok same_exps_def
      dest!: dictRehash_exps dictBucketRehash_exps split: if_splits)

lemma rehash_refused_exps:
  "same_exps d d' \<Longrightarrow> dictIsRehashing d \<Longrightarrow> dictIsRehashing d' \<Longrightarrow> rehash_refused rz d' = rehash_refused rz d"
  by (simp add: rehash_refused_def same_exps_def)

text \<open>A full rehash completes, unless the policy refuses it from the start.\<close>

lemma full_rehash_completes:
  "dict_ok hash d \<Longrightarrow> \<not> rehash_refused rz d \<Longrightarrow> full_rehash rz hash d = Ok d' \<Longrightarrow> \<not> dictIsRehashing d'"
proof (induction rz hash d rule: full_rehash.induct)
  case (1 rz hash d)
  have re: "dictIsRehashing d" using 1(3) by (auto simp: rehash_refused_def Let_def)
  obtain e again where e: "dictRehash rz hash d 1000 = Ok (e, again)" "dict_ok hash e" "again = dictIsRehashing e"
    using dictRehash_ok [OF 1(2), of rz 1000] 1(3) by blast
  have pos: "0 \<le> rehashidx d" using dict_ok_rehashing [OF 1(2)] re by blast
  have eq: "full_rehash rz hash d = (if again then full_rehash rz hash e else Ok e)"
    using e(1) pos by (subst full_rehash.simps) simp
  show ?case
  proof (cases again)
    case True
    then have "dictIsRehashing e" using e(3) by blast
    then have "\<not> rehash_refused rz e"
      using rehash_refused_exps [OF dictRehash_exps [OF e(1)] re] 1(3) by blast
    then show ?thesis using 1(1) [OF e(1) refl _ e(2)] True pos 1(4) eq by simp
  next
    case False
    then show ?thesis using e(3) 1(4) eq by simp
  qed
qed

lemma full_rehash_refused: "rehash_refused rz d \<Longrightarrow> full_rehash rz hash d = Ok d"
  by (subst full_rehash.simps) (simp add: dictRehash_def)

section \<open>Resizing keeps the contents\<close>

lemma dictNextExp_ge: "2 \<le> dictNextExp sz"
proof -
  have "2 \<le> bit_length n" if "4 \<le> n" for n
    using that bit_length.simps [of n] bit_length.simps [of "n div 2"] by auto
  then show ?thesis by (auto simp: dictNextExp_def DICT_HT_INITIAL_EXP_def DICT_HT_INITIAL_SIZE_def)
qed

lemma size_overflow:
  assumes "2 \<le> e" "\<not> DICTHT_SIZE e * 8 mod 2 ^ 64 < DICTHT_SIZE e"
  shows "e \<le> 60"
proof (rule ccontr)
  assume "\<not> e \<le> 60"
  then have "64 \<le> nat e + 3" by linarith
  then have "(2 :: nat) ^ 64 dvd 2 ^ (nat e + 3)" by (rule le_imp_power_dvd)
  moreover have "DICTHT_SIZE e * 8 = 2 ^ (nat e + 3)" using assms(1) by (simp add: DICTHT_SIZE_def power_add)
  ultimately have "DICTHT_SIZE e * 8 mod 2 ^ 64 = 0" by (simp only: dvd_imp_mod_0)
  then show False using assms by (simp add: DICTHT_SIZE_def)
qed

lemma new_ht_ok:
  "2 \<le> e \<Longrightarrow> e \<le> 62 \<Longrightarrow> ht_ok hash \<lparr>ht_table = replicate (DICTHT_SIZE e) [], ht_used = 0, ht_size_exp = e\<rparr>"
  by (simp add: ht_ok_def DICTHT_SIZE_def)

lemma concat_replicate_Nil [simp]: "concat (replicate n []) = []"
  by (induction n) simp_all

lemma dict_ok_idle:
  "dict_ok hash d \<Longrightarrow> \<not> dictIsRehashing d \<Longrightarrow> (ht0 d = dictReset \<or> ht_ok hash (ht0 d)) \<and> ht1 d = dictReset"
  by (simp add: dict_ok_def dictIsRehashing_def)

lemma dictResize_ok:
  assumes ok: "dict_ok (hashFunction ty) d" and idle: "\<not> dictIsRehashing d"
  shows "\<exists>d' r. dictResize ty rz d sz = Ok (d', r) \<and> dict_ok (hashFunction ty) d' \<and> dict_same d d'
    \<and> (dict_allocated d \<or> r \<longrightarrow> dict_allocated d') \<and> (\<not> r \<longrightarrow> d' = d)
    \<and> rehashidx d' \<le> 0
    \<and> (r \<and> force_full_rehash ty \<and> rz = DICT_RESIZE_ENABLE \<longrightarrow> \<not> dictIsRehashing d')"
proof -
  define e where "e = dictNextExp sz"
  let ?n = "DICTHT_SIZE e"
  note i = dict_ok_idle [OF ok idle]
  show ?thesis
  proof (cases "?n < sz \<or> ?n * 8 mod 2 ^ 64 < ?n \<or> e = ht_size_exp (ht0 d)")
    case True
    then have "dictResize ty rz d sz = Ok (d, False)"
      using idle unfolding dictResize_def e_def [symmetric] Let_def by auto
    then show ?thesis using ok idle by (auto simp: dictIsRehashing_def)
  next
    case False
    define nt where "nt = (\<lparr>ht_table = replicate ?n [], ht_used = 0, ht_size_exp = e\<rparr> :: ('a, 'b) dictht)"
    have e2: "2 \<le> e" using dictNextExp_ge by (simp add: e_def)
    have "e \<le> 60" using size_overflow [OF e2] False by blast
    then have nt: "ht_ok (hashFunction ty) nt" "concat (ht_table nt) = []" "ht_size_exp nt = e" "ht_table nt \<noteq> []"
      using e2 new_ht_ok [of e] by (simp_all add: nt_def DICTHT_SIZE_def)
    let ?d1 = "d\<lparr>ht1 := nt, rehashidx := 0\<rparr>"
    have resize: "dictResize ty rz d sz =
        (if ht_table (ht0 d) = [] \<or> ht_used (ht0 d) = 0 then Ok (d\<lparr>ht0 := nt, ht1 := dictReset, rehashidx := - 1\<rparr>, True)
         else if force_full_rehash ty then bind_outcome (full_rehash rz (hashFunction ty) ?d1) (\<lambda>d. Ok (d, True))
         else Ok (?d1, True))"
      using False idle by (simp add: dictResize_def e_def [symmetric] nt_def)
    have c1: "concat (ht_table (ht1 d)) = []" using i by simp
    show ?thesis
    proof (cases "ht_table (ht0 d) = [] \<or> ht_used (ht0 d) = 0")
      case True
      then have "concat (ht_table (ht0 d)) = []" using i ht_ok_empty by fastforce
      then have "dict_entries d = []" using c1 by (simp add: dict_entries_def)
      moreover have "dict_entries (d\<lparr>ht0 := nt, ht1 := dictReset, rehashidx := - 1\<rparr>) = []"
        using nt(2) by (simp add: dict_entries_def)
      ultimately show ?thesis unfolding resize using True nt
        by (auto simp: dict_ok_def dict_same_def dict_allocated_def dictIsRehashing_def)
    next
      case alloc: False
      have ent: "dict_entries ?d1 = dict_entries d" 
      proof -
        have "dict_entries ?d1 = concat (ht_table (ht0 d)) @ concat (ht_table nt)"
          "dict_entries d = concat (ht_table (ht0 d)) @ concat (ht_table (ht1 d))"
          by (simp_all add: dict_entries_def)
        then show ?thesis by (simp only: nt(2) c1)
      qed
      have d1: "dict_ok (hashFunction ty) ?d1" "dictIsRehashing ?d1" "dict_same d ?d1" "dict_allocated ?d1"
        using alloc nt i False dict_ok_distinct [OF ok]
        by (auto simp: dict_ok_def ent dict_same_def dict_allocated_def dictIsRehashing_def)
      show ?thesis
      proof (cases "force_full_rehash ty")
        case True
        obtain d' where d': "full_rehash rz (hashFunction ty) ?d1 = Ok d'" "dict_ok (hashFunction ty) d'" "dict_same ?d1 d'"
          "rz = DICT_RESIZE_ENABLE \<longrightarrow> \<not> dictIsRehashing d'"
          using full_rehash_ok [OF d1(1,2)] by blast
        have "dict_entries d \<noteq> []" using alloc i by (auto simp: dict_entries_def ht_ok_def)
        then have "dict_entries d' \<noteq> []" using d'(3) by (auto simp: dict_same_def ent)
        then have "dict_allocated d'"
          using d'(2) dict_ok_idle [OF d'(2)] dict_allocated_rehashing [OF d'(2)]
          by (cases "dictIsRehashing d'") (auto simp: dict_entries_def dict_allocated_def)
        moreover have "rehashidx d' \<le> 0"
          using full_rehash_completes [OF d1(1) _ d'(1)] full_rehash_refused [of rz ?d1 "hashFunction ty"] d'(1)
          by (cases "rehash_refused rz ?d1") (auto simp: dictIsRehashing_def)
        ultimately show ?thesis unfolding resize using alloc True d' dict_same_trans [OF d1(3) d'(3)] by auto
      qed (use resize alloc d1 in auto)
    qed
  qed
qed

lemma dictExpand_ok:
  assumes "dict_ok (hashFunction ty) d"
  shows "\<exists>d' r. dictExpand ty rz d sz = Ok (d', r) \<and> dict_ok (hashFunction ty) d' \<and> dict_same d d'
    \<and> (dict_allocated d \<or> r \<longrightarrow> dict_allocated d') \<and> (d' = d \<or> rehashidx d' \<le> 0)"
  using dictResize_ok [OF assms, of rz sz] assms unfolding dictExpand_def by auto

lemma dictShrink_ok:
  assumes "dict_ok (hashFunction ty) d"
  shows "\<exists>d' r. dictShrink ty rz d sz = Ok (d', r) \<and> dict_ok (hashFunction ty) d' \<and> dict_same d d'
    \<and> (dict_allocated d \<longrightarrow> dict_allocated d')"
  using dictResize_ok [OF assms, of rz sz] assms unfolding dictShrink_def by auto

lemma dictExpand_first:
  assumes "dict_ok (hashFunction ty) d" "\<not> dictIsRehashing d" "DICTHT_SIZE (ht_size_exp (ht0 d)) = 0"
  shows "\<exists>d'. dictExpand ty rz d DICT_HT_INITIAL_SIZE = Ok (d', True)"
proof -
  have "ht0 d = dictReset" using dict_ok_idle [OF assms(1,2)] assms(3) by (auto simp: ht_ok_def DICTHT_SIZE_def)
  then show ?thesis using assms(2)
    by (simp add: dictExpand_def dictResize_def DICT_HT_INITIAL_SIZE_def dictNextExp_def DICT_HT_INITIAL_EXP_def DICTHT_SIZE_def)
qed

lemma dictExpandIfNeeded_ok:
  assumes ok: "dict_ok (hashFunction ty) d"
  shows "\<exists>d' r. dictExpandIfNeeded ty rz d = Ok (d', r) \<and> dict_ok (hashFunction ty) d' \<and> dict_same d d' \<and> dict_allocated d'
    \<and> (d' = d \<or> rehashidx d' \<le> 0)"
proof (cases "dictIsRehashing d")
  case True
  then show ?thesis using ok dict_allocated_rehashing [OF ok True] by (auto simp: dictExpandIfNeeded_def)
next
  case False
  show ?thesis
  proof (cases "DICTHT_SIZE (ht_size_exp (ht0 d)) = 0")
    case True
    obtain d' where "dictExpand ty rz d DICT_HT_INITIAL_SIZE = Ok (d', True)"
      using dictExpand_first [OF ok False True] by blast
    then show ?thesis using False True dictExpand_ok [OF ok, of rz DICT_HT_INITIAL_SIZE] by (auto simp: dictExpandIfNeeded_def)
  next
    case sz: False
    then have "dict_allocated d" using dict_ok_idle [OF ok False]
      by (auto simp: dict_allocated_def ht_ok_def DICTHT_SIZE_def)
    then show ?thesis using False sz ok dictExpand_ok [OF ok, of rz "ht_used (ht0 d) + 1"]
      by (auto simp: dictExpandIfNeeded_def Let_def)
  qed
qed

lemma dictExpandIfNeeded_auto_ok:
  assumes "dict_ok (hashFunction ty) d"
  shows "\<exists>d' r. dictExpandIfNeeded_auto ty rz d = Ok (d', r) \<and> dict_ok (hashFunction ty) d' \<and> dict_same d d'
    \<and> (dict_allocated d \<or> pauseAutoResize d \<le> 0 \<longrightarrow> dict_allocated d') \<and> (d' = d \<or> rehashidx d' \<le> 0)"
  using dictExpandIfNeeded_ok [OF assms, of rz] assms unfolding dictExpandIfNeeded_auto_def by auto

lemma dictShrinkIfNeeded_auto_ok:
  assumes "dict_ok (hashFunction ty) d"
  shows "\<exists>d'. dictShrinkIfNeeded_auto ty rz d = Ok d' \<and> dict_ok (hashFunction ty) d' \<and> dict_same d d'"
  using dictShrink_ok [OF assms, of rz "ht_used (ht0 d)"] assms
  unfolding dictShrinkIfNeeded_auto_def dictShrinkIfNeeded_def by (auto simp: Let_def)

end
