(* ===== verification/Map_Interface.thy ===== *)
theory Map_Interface
  imports Prelude
begin

text \<open>
  The contract of a stored map: what code that keeps a finite map in some mutable structure relies
  on. Every operation succeeds, answers as the map does and keeps the structure and the map in step;
  a run of operations then answers as the same run on the map.
\<close>

datatype ('k, 'v) map_op =
    Map_add 'k 'v
  | Map_replace 'k 'v
  | Map_delete 'k
  | Map_find 'k

text \<open>The answer: whether the map changed its domain, or the value found.\<close>

datatype 'v map_answer = Changed bool | Found "'v option"

primrec map_spec :: "('k, 'v) map_op \<Rightarrow> ('k \<rightharpoonup> 'v) \<Rightarrow> ('k \<rightharpoonup> 'v) \<times> 'v map_answer" where
  "map_spec (Map_add k v) m = (if m k = None then (m(k \<mapsto> v), Changed True) else (m, Changed False))"
| "map_spec (Map_replace k v) m = (m(k \<mapsto> v), Changed (m k = None))"
| "map_spec (Map_delete k) m = (m(k := None), Changed (m k \<noteq> None))"
| "map_spec (Map_find k) m = (m, Found (m k))"

fun map_spec_run :: "('k, 'v) map_op list \<Rightarrow> ('k \<rightharpoonup> 'v) \<Rightarrow> ('k \<rightharpoonup> 'v) \<times> 'v map_answer list" where
  "map_spec_run [] m = (m, [])"
| "map_spec_run (c # cs) m =
     (let (m, r) = map_spec c m; (m, rs) = map_spec_run cs m in (m, r # rs))"

text \<open>A run on the structure; \<open>'p\<close> is what else the step depends on, and may differ at every step.\<close>

fun map_run ::
  "('p \<Rightarrow> 's \<Rightarrow> ('k, 'v) map_op \<Rightarrow> ('s \<times> 'v map_answer) outcome) \<Rightarrow> 's \<Rightarrow> ('p \<times> ('k, 'v) map_op) list \<Rightarrow>
   ('s \<times> 'v map_answer list) outcome" where
  "map_run step s [] = Ok (s, [])"
| "map_run step s ((p, c) # cs) =
     bind_outcome (step p s c) (\<lambda>(s, r).
     bind_outcome (map_run step s cs) (\<lambda>(s, rs). Ok (s, r # rs)))"

locale stored_map =
  fixes start :: 's
    and step :: "'p \<Rightarrow> 's \<Rightarrow> ('k, 'v) map_op \<Rightarrow> ('s \<times> 'v map_answer) outcome"
    and inv :: "nat \<Rightarrow> 's \<Rightarrow> bool"
    and abs :: "'s \<Rightarrow> 'k \<rightharpoonup> 'v"
  assumes abs_start: "abs start = Map.empty"
    and step_spec: "inv (Suc n) s \<Longrightarrow>
          \<exists>s' r. step p s c = Ok (s', r) \<and> inv n s' \<and> map_spec c (abs s) = (abs s', r)"
begin

lemma run_spec:
  "inv (length cs + n) s \<Longrightarrow>
   \<exists>s' rs. map_run step s cs = Ok (s', rs) \<and> inv n s' \<and> map_spec_run (map snd cs) (abs s) = (abs s', rs)"
proof (induction cs arbitrary: s)
  case (Cons pc cs)
  obtain p c where pc: "pc = (p, c)" by fastforce
  have "inv (Suc (length cs + n)) s" using Cons.prems by simp
  then obtain t r where t: "step p s c = Ok (t, r)" "inv (length cs + n) t" "map_spec c (abs s) = (abs t, r)"
    using step_spec by blast
  obtain s' rs where "map_run step t cs = Ok (s', rs)" "inv n s'" "map_spec_run (map snd cs) (abs t) = (abs s', rs)"
    using Cons.IH [OF t(2)] by blast
  then show ?case using t by (simp add: pc)
qed simp

lemma run_start:
  "inv (length cs + n) start \<Longrightarrow>
   \<exists>s' rs. map_run step start cs = Ok (s', rs) \<and> inv n s' \<and> map_spec_run (map snd cs) Map.empty = (abs s', rs)"
  using run_spec [of cs n start] unfolding abs_start .

end

end
