(* ===== verification/Dict_Ops.thy ===== *)
theory Dict_Ops
  imports Dict_Inv Map_Interface
begin

text \<open>
  The lookups, insertions and removals of \<open>dict.c\<close> against the map a dict stands for, whatever state
  of rehashing it is in and whatever the resize policy is at each call.
\<close>

section \<open>Finding a key\<close>

lemma chain_find_Some: "chain_find key c = Some pos \<Longrightarrow> pos < length c \<and> fst (c ! pos) = key"
  by (induction c arbitrary: pos) (auto split: if_splits)

lemma chain_find_None: "chain_find key c = None \<Longrightarrow> key \<notin> fst ` set c"
  by (induction c) (auto split: if_splits)

text \<open>A place that holds an entry.\<close>

definition place_ok :: "('k, 'v) dict \<Rightarrow> dict_place \<Rightarrow> bool" where
  "place_ok d pl \<longleftrightarrow>
     (case pl of (table, idx, pos) \<Rightarrow>
        table \<le> 1 \<and> idx < length (ht_table (dict_ht d table)) \<and> pos < length (ht_table (dict_ht d table) ! idx))"

lemma place_entry: "place_ok d pl \<Longrightarrow> dict_entry d pl \<in> set (dict_entries d)"
proof -
  assume ok: "place_ok d pl"
  obtain table idx pos where pl: "pl = (table, idx, pos)" by (cases pl)
  let ?t = "ht_table (dict_ht d table)"
  have "?t ! idx \<in> set ?t" "?t ! idx ! pos \<in> set (?t ! idx)" using ok by (simp_all add: place_ok_def pl)
  then have "dict_entry d pl \<in> set (concat ?t)" by (auto simp: dict_entry_def pl)
  then show ?thesis by (auto simp: dict_entries_def dict_ht_def split: if_splits)
qed

lemma table_find_spec:
  assumes "ht_ok hash (dict_ht d table)" "table \<le> 1"
  shows "\<exists>r. table_find d (hash key) key table = Ok r
    \<and> (case r of None \<Rightarrow> key \<notin> fst ` set (concat (ht_table (dict_ht d table)))
        | Some pl \<Rightarrow> place_ok d pl \<and> fst (dict_entry d pl) = key
            \<and> fst pl = table \<and> fst (snd pl) = dict_idx (hash key) (ht_size_exp (dict_ht d table)))"
proof -
  let ?t = "dict_ht d table" and ?i = "dict_idx (hash key) (ht_size_exp (dict_ht d table))"
  have i: "?i < length (ht_table ?t)" using ht_ok_idx_less [OF assms(1)] .
  have find: "table_find d (hash key) key table = Ok (map_option (\<lambda>pos. (table, ?i, pos)) (chain_find key (ht_table ?t ! ?i)))"
    using i by (simp add: table_find_def Let_def)
  show ?thesis
  proof (cases "chain_find key (ht_table ?t ! ?i)")
    case None
    have "key \<notin> fst ` set (concat (ht_table ?t))"
    proof
      assume "key \<in> fst ` set (concat (ht_table ?t))"
      then obtain e j where "j < length (ht_table ?t)" "e \<in> set (ht_table ?t ! j)" "fst e = key"
        by (auto simp: in_set_conv_nth [of _ "ht_table ?t"])
      moreover from this have "j = ?i" using assms(1) by (auto simp: ht_ok_def)
      ultimately show False using chain_find_None [OF None] by auto
    qed
    then show ?thesis using find None by simp
  next
    case (Some pos)
    then show ?thesis using find i assms(2) chain_find_Some [OF Some] by (auto simp: place_ok_def dict_entry_def)
  qed
qed

lemma tables_find_spec:
  assumes ok: "dict_ok hash d" and alloc: "dict_allocated d"
    and idx: "int idx < rehashidx d \<Longrightarrow> idx = dict_idx (hash key) (ht_size_exp (ht0 d))"
  shows "\<exists>r. tables_find d (hash key) key idx = Ok r
    \<and> (case r of None \<Rightarrow> dict_map d key = None
        | Some pl \<Rightarrow> place_ok d pl \<and> fst (dict_entry d pl) = key \<and> dict_map d key = Some (snd (dict_entry d pl))
            \<and> (fst pl = 1 \<longrightarrow> dictIsRehashing d)
            \<and> fst (snd pl) = dict_idx (hash key) (ht_size_exp (dict_ht d (fst pl))))"
proof -
  have none: "dict_map d key = None"
    if "key \<notin> fst ` set (concat (ht_table (ht0 d)))" "key \<notin> fst ` set (concat (ht_table (ht1 d)))"
    using that by (auto simp: dict_map_def dict_entries_def map_of_eq_None_iff)
  have some: "dict_map d key = Some (snd (dict_entry d pl))" if "place_ok d pl" "fst (dict_entry d pl) = key" for pl
    using place_entry [OF that(1)] that(2) dict_ok_distinct [OF ok]
    by (metis dict_map_def map_of_eq_Some_iff prod.collapse)
  show ?thesis
  proof (cases "dictIsRehashing d")
    case False
    then have "rehashidx d = - 1" by (simp add: dictIsRehashing_def)
    have ht0: "ht_ok hash (dict_ht d 0)" and ht1: "ht1 d = dictReset"
      using dict_ok_idle [OF ok False] alloc by (auto simp: dict_allocated_def dict_ht_def)
    obtain r where r: "table_find d (hash key) key 0 = Ok r"
      "case r of None \<Rightarrow> key \<notin> fst ` set (concat (ht_table (dict_ht d 0)))
        | Some pl \<Rightarrow> place_ok d pl \<and> fst (dict_entry d pl) = key \<and> fst pl = 0
            \<and> fst (snd pl) = dict_idx (hash key) (ht_size_exp (dict_ht d 0))"
      using table_find_spec [OF ht0, of key] by auto
    have "tables_find d (hash key) key idx = Ok r"
      using r(1) \<open>rehashidx d = - 1\<close> False by (cases r) (auto simp: tables_find_def)
    then show ?thesis using r(2) none some ht1 by (auto simp: dict_ht_def split: option.splits)
  next
    case True
    note re = dict_ok_rehashing [OF ok, THEN iffD1, OF True]
    have ht0: "ht_ok hash (dict_ht d 0)" and ht1: "ht_ok hash (dict_ht d 1)" using re by (simp_all add: dict_ht_def)
    obtain r1 where r1: "table_find d (hash key) key 1 = Ok r1"
      "case r1 of None \<Rightarrow> key \<notin> fst ` set (concat (ht_table (dict_ht d 1)))
        | Some pl \<Rightarrow> place_ok d pl \<and> fst (dict_entry d pl) = key \<and> fst pl = 1
            \<and> fst (snd pl) = dict_idx (hash key) (ht_size_exp (dict_ht d 1))"
      using table_find_spec [OF ht1, of key] by auto
    obtain r0 where r0: "(if int idx < rehashidx d then Ok None else table_find d (hash key) key 0) = Ok r0"
      "case r0 of None \<Rightarrow> key \<notin> fst ` set (concat (ht_table (dict_ht d 0)))
        | Some pl \<Rightarrow> place_ok d pl \<and> fst (dict_entry d pl) = key \<and> fst pl = 0
            \<and> fst (snd pl) = dict_idx (hash key) (ht_size_exp (dict_ht d 0))"
    proof (cases "int idx < rehashidx d")
      case lt: True
      have "key \<notin> fst ` set (concat (ht_table (ht0 d)))"
      proof
        assume "key \<in> fst ` set (concat (ht_table (ht0 d)))"
        then obtain e j where j: "j < length (ht_table (ht0 d))" "e \<in> set (ht_table (ht0 d) ! j)" "fst e = key"
          by (auto simp: in_set_conv_nth [of _ "ht_table (ht0 d)"])
        then have "j = idx" using re idx [OF lt] by (auto simp: ht_ok_def)
        then have "ht_table (ht0 d) ! j = []" using re lt by auto
        then show False using j(2) by simp
      qed
      then show ?thesis using that [of None] lt by (simp add: dict_ht_def)
    next
      case False
      then show ?thesis using table_find_spec [OF ht0, of key] that by auto
    qed
    have "tables_find d (hash key) key idx = Ok (if r0 \<noteq> None then r0 else r1)"
      using r0(1) r1(1) True by (simp add: tables_find_def)
    then show ?thesis using r0(2) r1(2) none some True by (cases r0) (auto simp: dict_ht_def split: option.splits)
  qed
qed

text \<open>The index computed before a rehashing step is still right where the lookup uses it.\<close>

lemma step_then_idx:
  assumes ok: "dict_ok hash d" and idx: "idx = dict_idx (hash key) (ht_size_exp (ht0 d))"
  shows "\<exists>d'. dictRehashStepIfNeeded rz hash d idx = Ok d' \<and> dict_ok hash d' \<and> dict_same d d' \<and> (dict_allocated d \<longrightarrow> dict_allocated d')
    \<and> (int idx < rehashidx d' \<longrightarrow> idx = dict_idx (hash key) (ht_size_exp (ht0 d')))"
proof -
  have "idx < length (ht_table (ht0 d))" if "dictIsRehashing d"
    using dict_ok_rehashing [OF ok] that ht_ok_idx_less [of hash "ht0 d"] by (simp add: idx)
  then obtain d' where d': "dictRehashStepIfNeeded rz hash d idx = Ok d'" "dict_ok hash d'" "dict_same d d'"
    "dict_allocated d \<longrightarrow> dict_allocated d'"
    using dictRehashStepIfNeeded_ok [OF ok] by blast
  have "idx = dict_idx (hash key) (ht_size_exp (ht0 d'))" if "int idx < rehashidx d'"
    using dictRehashStepIfNeeded_exps [OF d'(1)] that idx by (auto simp: dictIsRehashing_def same_exps_def)
  then show ?thesis using d' by blast
qed

lemma dictSize_entries: "dict_ok hash d \<Longrightarrow> dictSize d = length (dict_entries d)"
  by (cases "dictIsRehashing d") (auto simp: dict_ok_def dictIsRehashing_def dictSize_def dict_entries_def ht_ok_def)

lemma dict_same_size: "dict_ok hash d \<Longrightarrow> dict_ok hash d' \<Longrightarrow> dict_same d d' \<Longrightarrow> dictSize d' = dictSize d"
  unfolding dict_same_def by (metis dictSize_entries mset_eq_length)

lemma dict_nonempty_allocated: "dict_ok hash d \<Longrightarrow> dict_entries d \<noteq> [] \<Longrightarrow> dict_allocated d"
  using dict_ok_idle [of hash d] dict_allocated_rehashing [of hash d]
  by (cases "dictIsRehashing d") (auto simp: dict_entries_def dict_allocated_def)

lemma dict_same_entries: "dict_same d d' \<Longrightarrow> dict_entries d' = [] \<longleftrightarrow> dict_entries d = []"
  by (auto simp: dict_same_def)

lemma dictFind_ok:
  assumes "dict_ok (hashFunction ty) d"
  shows "\<exists>d' he. dictFind ty rz d key = Ok (d', he) \<and> dict_ok (hashFunction ty) d' \<and> dict_same d d'
    \<and> map_option snd he = dict_map d key \<and> (\<forall>e. he = Some e \<longrightarrow> fst e = key)"
proof (cases "dictSize d = 0")
  case True
  then show ?thesis using assms dictSize_entries [OF assms]
    by (auto simp: dictFind_def dictFindLink_def dict_map_def)
next
  case False
  let ?h = "hashFunction ty" and ?idx = "dict_idx (hashFunction ty key) (ht_size_exp (ht0 d))"
  obtain d' where d': "dictRehashStepIfNeeded rz ?h d ?idx = Ok d'" "dict_ok ?h d'" "dict_same d d'"
    "int ?idx < rehashidx d' \<longrightarrow> ?idx = dict_idx (?h key) (ht_size_exp (ht0 d'))"
    using step_then_idx [OF assms refl] by blast
  have "dict_entries d \<noteq> []" using False dictSize_entries [OF assms] by auto
  then have alloc: "dict_allocated d'" using dict_nonempty_allocated [OF d'(2)] dict_same_entries [OF d'(3)] by blast
  obtain r where r: "tables_find d' (?h key) key ?idx = Ok r"
    "case r of None \<Rightarrow> dict_map d' key = None
        | Some pl \<Rightarrow> place_ok d' pl \<and> fst (dict_entry d' pl) = key \<and> dict_map d' key = Some (snd (dict_entry d' pl))
            \<and> (fst pl = 1 \<longrightarrow> dictIsRehashing d')
            \<and> fst (snd pl) = dict_idx (?h key) (ht_size_exp (dict_ht d' (fst pl)))"
    using tables_find_spec [OF d'(2) alloc] d'(4) by blast
  have "dictFind ty rz d key = Ok (d', map_option (dict_entry d') r)"
    using False d'(1) r(1) alloc by (simp add: dictFind_def dictFindLink_def dictFindLinkInternal_def Let_def dict_allocated_def)
  then show ?thesis using d' r(2) dict_same_map [OF assms d'(3)] by (auto split: option.splits)
qed

section \<open>Changing a chain\<close>

definition set_chain :: "nat \<Rightarrow> nat \<Rightarrow> ('k \<times> 'v) list \<Rightarrow> nat \<Rightarrow> ('k, 'v) dict \<Rightarrow> ('k, 'v) dict" where
  "set_chain table idx c u d = dict_ht_update table (\<lambda>t. t\<lparr>ht_table := (ht_table t)[idx := c], ht_used := u\<rparr>) d"

lemma set_chain_simps [simp]:
  "rehashidx (set_chain table idx c u d) = rehashidx d"
  "pauserehash (set_chain table idx c u d) = pauserehash d"
  "pauseAutoResize (set_chain table idx c u d) = pauseAutoResize d"
  "dictIsRehashing (set_chain table idx c u d) = dictIsRehashing d"
  by (simp_all add: set_chain_def dict_ht_update_def dictIsRehashing_def)

lemma set_chain_mset:
  assumes "idx < length (ht_table (dict_ht d table))"
  shows "mset (dict_entries (set_chain table idx c u d)) + mset (ht_table (dict_ht d table) ! idx) = mset (dict_entries d) + mset c"
  using mset_concat_update [OF assms, of c]
  by (auto simp: set_chain_def dict_ht_update_def dict_entries_def dict_ht_def add.assoc add.left_commute split: if_splits)

lemma ht_chain_ok:
  assumes "ht_ok hash t" "idx < length (ht_table t)" "\<forall>e \<in> set c. dict_idx (hash (fst e)) (ht_size_exp t) = idx"
    "u + length (ht_table t ! idx) = ht_used t + length c"
  shows "ht_ok hash (t\<lparr>ht_table := (ht_table t)[idx := c], ht_used := u\<rparr>)"
proof -
  have "size (mset (concat ((ht_table t)[idx := c]))) + length (ht_table t ! idx) = length (concat (ht_table t)) + length c"
    using mset_concat_update [OF assms(2), of c] by (metis size_mset size_union)
  then show ?thesis using assms by (auto simp: ht_ok_def nth_list_update split: if_splits)
qed

lemma set_chain_ok:
  assumes ok: "dict_ok hash d" and alloc: "dict_allocated d" and table: "table \<le> 1" "table = 1 \<longrightarrow> dictIsRehashing d"
    and idx: "idx < length (ht_table (dict_ht d table))"
    and c: "\<forall>e \<in> set c. dict_idx (hash (fst e)) (ht_size_exp (dict_ht d table)) = idx"
    and u: "u + length (ht_table (dict_ht d table) ! idx) = ht_used (dict_ht d table) + length c"
    and moved: "table = 0 \<and> dictIsRehashing d \<and> ht_table (ht0 d) ! idx = [] \<longrightarrow> c = []"
    and dist: "distinct (map fst (dict_entries (set_chain table idx c u d)))"
  shows "dict_ok hash (set_chain table idx c u d)"
proof (cases "dictIsRehashing d")
  case False
  then have t0: "table = 0" using table by auto
  have "ht_ok hash (ht0 d)" "ht1 d = dictReset"
    using dict_ok_idle [OF ok False] alloc by (auto simp: dict_allocated_def)
  then show ?thesis
    using ht_chain_ok [of hash "ht0 d" idx c u] idx c u dist False
    by (simp add: t0 dict_ok_def dict_ht_def set_chain_def dict_ht_update_def dictIsRehashing_def)
next
  case True
  note r = dict_ok_rehashing [OF ok, THEN iffD1, OF True]
  have ht: "ht_ok hash (dict_ht d table)" using r by (simp add: dict_ht_def)
  have new: "ht_ok hash ((dict_ht d table)\<lparr>ht_table := (ht_table (dict_ht d table))[idx := c], ht_used := u\<rparr>)"
    by (rule ht_chain_ok [OF ht idx c u])
  show ?thesis
  proof (rule dict_okI_rehashing(1) [OF dist])
    fix i assume i: "i < nat (rehashidx (set_chain table idx c u d))"
    then have "ht_table (ht0 d) ! i = []" using r by simp
    then show "ht_table (ht0 (set_chain table idx c u d)) ! i = []"
      using moved True idx by (cases "table = 0 \<and> i = idx") (auto simp: set_chain_def dict_ht_update_def dict_ht_def)
  qed (use r new in \<open>auto simp: set_chain_def dict_ht_update_def dict_ht_def split: if_splits\<close>)
qed

lemma map_of_add:
  assumes "mset ys = add_mset (k, v) (mset xs)" "distinct (map fst ys)"
  shows "map_of ys = (map_of xs)(k \<mapsto> v)" "map_of xs = (map_of ys)(k := None)" "distinct (map fst xs)"
proof -
  have m: "mset ys = mset ((k, v) # xs)" using assms(1) by simp
  have "distinct (map fst ((k, v) # xs))" using distinct_fst_mset [OF m] assms(2) by simp
  then have k: "k \<notin> fst ` set xs" and x: "distinct (map fst xs)" by simp_all
  have y: "map_of ys = map_of ((k, v) # xs)" by (rule map_of_mset [OF m assms(2)])
  then show "map_of ys = (map_of xs)(k \<mapsto> v)" by simp
  have "map_of xs k = None" using k by (simp add: map_of_eq_None_iff)
  then show "map_of xs = (map_of ys)(k := None)" unfolding y by (auto simp: fun_eq_iff)
  show "distinct (map fst xs)" by (rule x)
qed

section \<open>Insertion\<close>

lemma dictFindLinkForInsert_ok:
  assumes ok: "dict_ok (hashFunction ty) d" and alloc: "dict_allocated d \<or> pauseAutoResize d \<le> 0"
  shows "\<exists>d' r. dictFindLinkForInsert ty rz d key = Ok (d', r) \<and> dict_ok (hashFunction ty) d' \<and> dict_same d d' \<and> dict_allocated d'
    \<and> (case r of
          Inr pl \<Rightarrow> place_ok d' pl \<and> fst (dict_entry d' pl) = key \<and> dict_map d key = Some (snd (dict_entry d' pl))
            \<and> (fst pl = 1 \<longrightarrow> dictIsRehashing d')
            \<and> fst (snd pl) = dict_idx (hashFunction ty key) (ht_size_exp (dict_ht d' (fst pl)))
        | Inl (table, idx) \<Rightarrow> dict_map d key = None \<and> table = (if dictIsRehashing d' then 1 else 0)
            \<and> idx = dict_idx (hashFunction ty key) (ht_size_exp (dict_ht d' table)))"
proof -
  let ?h = "hashFunction ty" and ?idx = "dict_idx (hashFunction ty key) (ht_size_exp (ht0 d))"
  obtain d1 where d1: "dictRehashStepIfNeeded rz ?h d ?idx = Ok d1" "dict_ok ?h d1" "dict_same d d1"
    "dict_allocated d \<longrightarrow> dict_allocated d1" "int ?idx < rehashidx d1 \<longrightarrow> ?idx = dict_idx (?h key) (ht_size_exp (ht0 d1))"
    using step_then_idx [OF ok refl] by blast
  have alloc1: "dict_allocated d1 \<or> pauseAutoResize d1 \<le> 0"
    using alloc d1(3,4) by (auto simp: dict_same_def)
  obtain d2 r2 where d2: "dictExpandIfNeeded_auto ty rz d1 = Ok (d2, r2)" "dict_ok ?h d2" "dict_same d1 d2"
    "dict_allocated d1 \<or> pauseAutoResize d1 \<le> 0 \<longrightarrow> dict_allocated d2" "d2 = d1 \<or> rehashidx d2 \<le> 0"
    using dictExpandIfNeeded_auto_ok [OF d1(2)] by blast
  have idx: "?idx = dict_idx (?h key) (ht_size_exp (ht0 d2))" if "int ?idx < rehashidx d2"
    using d1(5) d2(5) that by auto
  have al: "dict_allocated d2" using d2(4) alloc1 by blast
  obtain r where r: "tables_find d2 (?h key) key ?idx = Ok r"
    "case r of None \<Rightarrow> dict_map d2 key = None
        | Some pl \<Rightarrow> place_ok d2 pl \<and> fst (dict_entry d2 pl) = key \<and> dict_map d2 key = Some (snd (dict_entry d2 pl))
            \<and> (fst pl = 1 \<longrightarrow> dictIsRehashing d2)
            \<and> fst (snd pl) = dict_idx (?h key) (ht_size_exp (dict_ht d2 (fst pl)))"
    using tables_find_spec [OF d2(2) al idx] by blast
  have same: "dict_same d d2" by (rule dict_same_trans [OF d1(3) d2(3)])
  have "dictFindLinkForInsert ty rz d key = Ok (d2, case r of Some pl \<Rightarrow> Inr pl
      | None \<Rightarrow> let table = (if dictIsRehashing d2 then 1 else 0)
               in Inl (table, dict_idx (?h key) (ht_size_exp (dict_ht d2 table))))"
    using d1(1) d2(1) r(1) by (simp add: dictFindLinkForInsert_def Let_def split: option.splits)
  then have eq: "dictFindLinkForInsert ty rz d key = Ok (d2, case r of Some pl \<Rightarrow> Inr pl
      | None \<Rightarrow> Inl (if dictIsRehashing d2 then 1 else 0,
          dict_idx (?h key) (ht_size_exp (dict_ht d2 (if dictIsRehashing d2 then 1 else 0)))))"
    by (simp only: Let_def)
  have m: "dict_map d2 = dict_map d" by (rule dict_same_map [OF ok same])
  show ?thesis
  proof (cases r)
    case None
    show ?thesis
      by (intro exI conjI, rule eq, rule d2(2), rule same, rule al) (use r(2) m in \<open>simp add: None\<close>)
  next
    case (Some pl)
    show ?thesis
      by (intro exI conjI, rule eq, rule d2(2), rule same, rule al) (use r(2) m in \<open>simp add: Some\<close>)
  qed
qed

lemma dict_ht_ok:
  assumes "dict_ok hash d" "dict_allocated d" "table = (if dictIsRehashing d then 1 else 0) \<or> table = 0"
  shows "ht_ok hash (dict_ht d table)"
proof (cases "dictIsRehashing d")
  case True
  note dict_ok_rehashing [OF assms(1), THEN iffD1, OF True]
  then show ?thesis by (simp add: dict_ht_def)
next
  case False
  have "ht_ok hash (ht0 d)" using dict_ok_idle [OF assms(1) False] assms(2) by (auto simp: dict_allocated_def)
  then show ?thesis using assms(3) False by (simp add: dict_ht_def)
qed

lemma dict_ht_set_chain:
  "dict_ht (set_chain table idx c u d) table = (dict_ht d table)\<lparr>ht_table := (ht_table (dict_ht d table))[idx := c], ht_used := u\<rparr>"
  by (simp add: dict_ht_def set_chain_def dict_ht_update_def)

lemma set_chain_twice:
  "table \<le> 1 \<Longrightarrow> set_chain table idx c u (set_chain table idx c' u' d) = set_chain table idx c u d"
  by (simp add: set_chain_def dict_ht_update_def)

lemma dictInsertKeyAtLink_eq:
  assumes "dict_ok hash d" "dict_allocated d" "table = (if dictIsRehashing d then 1 else 0)"
    "idx = dict_idx (hash key) (ht_size_exp (dict_ht d table))"
  shows "dictInsertKeyAtLink d key v0 (table, idx) =
    Ok (set_chain table idx ((key, v0) # ht_table (dict_ht d table) ! idx) (ht_used (dict_ht d table) + 1) d, (table, idx, 0))"
proof -
  have ht: "ht_ok hash (dict_ht d table)" using dict_ht_ok [OF assms(1,2)] assms(3) by blast
  have idx: "idx < length (ht_table (dict_ht d table))" using ht_ok_idx_less [OF ht] assms(4) by simp
  moreover have "idx \<le> unat (DICTHT_SIZE_MASK (ht_size_exp (dict_ht d table)))"
  proof -
    have "0 \<le> ht_size_exp (dict_ht d table)" "ht_size_exp (dict_ht d table) \<le> 63" using ht by (simp_all add: ht_ok_def)
    then show ?thesis using unat_DICTHT_SIZE_MASK idx ht_ok_length [OF ht] by simp
  qed
  ultimately show ?thesis unfolding assms(3)
    by (simp add: dictInsertKeyAtLink_def set_chain_def dict_ht_update_def dict_ht_def)
qed

lemma dictSetVal_eq:
  "place_ok d (table, idx, pos) \<Longrightarrow>
   dictSetVal d (table, idx, pos) v =
     set_chain table idx ((ht_table (dict_ht d table) ! idx)[pos := (fst (dict_entry d (table, idx, pos)), v)]) (ht_used (dict_ht d table)) d"
  by (simp add: dictSetVal_def set_chain_def dict_ht_update_def dict_entry_def dict_ht_def)

text \<open>A new entry.\<close>

lemma set_chain_new:
  fixes d :: "('k, 'v) dict" and v :: 'v
  assumes ok: "dict_ok hash d" and alloc: "dict_allocated d" and new: "dict_map d key = None"
    and table: "table = (if dictIsRehashing d then 1 else 0)"
    and idx: "idx = dict_idx (hash key) (ht_size_exp (dict_ht d table))"
  defines "d' \<equiv> set_chain table idx ((key, v) # ht_table (dict_ht d table) ! idx) (ht_used (dict_ht d table) + 1) d"
  shows "dict_ok hash d'" "dict_map d' = (dict_map d)(key \<mapsto> v)" "dict_allocated d'"
proof -
  have ht: "ht_ok hash (dict_ht d table)" using dict_ht_ok [OF ok alloc] table by blast
  have il: "idx < length (ht_table (dict_ht d table))" using ht_ok_idx_less [OF ht] idx by simp
  have m: "mset (dict_entries d') = add_mset (key, v) (mset (dict_entries d))"
    using set_chain_mset [OF il, of "(key, v) # ht_table (dict_ht d table) ! idx" "ht_used (dict_ht d table) + 1"]
    by (simp add: d'_def)
  then have "mset (map fst (dict_entries d')) = mset (key # map fst (dict_entries d))" by simp
  moreover have "distinct (key # map fst (dict_entries d))"
    using new dict_ok_distinct [OF ok] by (simp add: dict_map_def map_of_eq_None_iff)
  ultimately have dist: "distinct (map fst (dict_entries d'))" using mset_eq_imp_distinct_iff by blast
  show "dict_ok hash d'" unfolding d'_def
  proof (rule set_chain_ok [OF ok alloc _ _ il])
    show "\<forall>e \<in> set ((key, v) # ht_table (dict_ht d table) ! idx). dict_idx (hash (fst e)) (ht_size_exp (dict_ht d table)) = idx"
      using ht il idx by (auto simp: ht_ok_def)
  qed (use table dist d'_def in auto)
  show "dict_map d' = (dict_map d)(key \<mapsto> v)" unfolding dict_map_def by (rule map_of_add(1) [OF m dist])
  show "dict_allocated d'" using alloc by (simp add: dict_allocated_def d'_def set_chain_def dict_ht_update_def)
qed

text \<open>An entry replaced by one with the same key, and an entry taken out.\<close>

lemma place_parts:
  assumes "dict_ok hash d" "place_ok d pl" "fst pl = 1 \<longrightarrow> dictIsRehashing d"
  obtains table idx pos where "pl = (table, idx, pos)" "table \<le> 1" "table = 1 \<longrightarrow> dictIsRehashing d"
    "idx < length (ht_table (dict_ht d table))" "pos < length (ht_table (dict_ht d table) ! idx)"
    "dict_allocated d" "ht_ok hash (dict_ht d table)"
proof -
  obtain table idx pos where pl: "pl = (table, idx, pos)" by (cases pl)
  have al: "dict_allocated d"
    using place_entry [OF assms(2)] dict_nonempty_allocated [OF assms(1)] by (metis empty_iff empty_set)
  have "table = (if dictIsRehashing d then 1 else 0) \<or> table = 0" using assms(2,3) by (auto simp: place_ok_def pl)
  then have "ht_ok hash (dict_ht d table)" by (rule dict_ht_ok [OF assms(1) al])
  then show ?thesis using that [OF pl] assms(2,3) al by (simp add: place_ok_def pl)
qed

lemma set_chain_value:
  assumes ok: "dict_ok hash d" and pl: "place_ok d pl" "fst pl = 1 \<longrightarrow> dictIsRehashing d"
  shows "dict_ok hash (dictSetVal d pl v)" "dict_map (dictSetVal d pl v) = (dict_map d)(fst (dict_entry d pl) \<mapsto> v)"
    "dict_allocated (dictSetVal d pl v)"
proof -
  obtain table idx pos where p: "pl = (table, idx, pos)" "table \<le> 1" "table = 1 \<longrightarrow> dictIsRehashing d"
    "idx < length (ht_table (dict_ht d table))" "pos < length (ht_table (dict_ht d table) ! idx)"
    "dict_allocated d" "ht_ok hash (dict_ht d table)"
    using place_parts [OF ok pl] .
  define k where "k = fst (dict_entry d pl)"
  define c where "c = ht_table (dict_ht d table) ! idx"
  define d' where "d' = set_chain table idx (c[pos := (k, v)]) (ht_used (dict_ht d table)) d"
  have eq: "dictSetVal d pl v = d'"
    using dictSetVal_eq [of d table idx pos v] pl(1) by (simp add: p(1) d'_def c_def k_def)
  have e: "dict_entry d pl = c ! pos" by (simp add: dict_entry_def p(1) c_def)
  have pos: "pos < length c" using p(5) by (simp add: c_def)
  have cm: "add_mset (c ! pos) (mset (c[pos := (k, v)])) = add_mset (k, v) (mset c)"
    using pos by (simp add: mset_update)
  have "mset (dict_entries d') + mset c = mset (dict_entries d) + mset (c[pos := (k, v)])"
    using set_chain_mset [OF p(4), of "c[pos := (k, v)]" "ht_used (dict_ht d table)"] by (simp add: d'_def c_def)
  then have "add_mset (c ! pos) (mset (dict_entries d')) + mset c = add_mset (k, v) (mset (dict_entries d)) + mset c"
    using cm by (metis add_mset_add_single union_assoc union_commute)
  then have m2: "add_mset (c ! pos) (mset (dict_entries d')) = add_mset (k, v) (mset (dict_entries d))" by simp
  obtain w where w: "c ! pos = (k, w)" using e by (cases "c ! pos") (simp add: k_def)
  obtain M where M: "mset (dict_entries d) = add_mset (k, w) M"
    using place_entry [OF pl(1)] e w by (metis in_multiset_in_set insert_DiffM)
  then have M': "mset (dict_entries d') = add_mset (k, v) M" using m2 w by simp
  obtain xs where xs: "mset xs = M" using ex_mset by blast
  note old = map_of_add [OF _ dict_ok_distinct [OF ok], of k w xs]
  have old: "dict_map d = (map_of xs)(k \<mapsto> w)" "map_of xs = (dict_map d)(k := None)" "distinct (map fst xs)"
    using old M xs by (simp_all add: dict_map_def)
  have "k \<notin> fst ` set xs" using old(2) by (metis fun_upd_same map_of_eq_None_iff)
  then have "distinct (map fst ((k, v) # xs))" using old(3) by simp
  moreover have "mset (dict_entries d') = mset ((k, v) # xs)" using M' xs by simp
  ultimately have dist: "distinct (map fst (dict_entries d'))" using distinct_fst_mset by blast
  show "dict_ok hash (dictSetVal d pl v)" unfolding eq d'_def
  proof (rule set_chain_ok [OF ok p(6,2,3,4)])
    have "dict_idx (hash (fst x)) (ht_size_exp (dict_ht d table)) = idx" if "x \<in> set c" for x
      using p(4,7) that by (simp add: ht_ok_def c_def)
    moreover from this [OF nth_mem [OF pos]] have "dict_idx (hash k) (ht_size_exp (dict_ht d table)) = idx" by (simp only: w fst_conv)
    ultimately show "\<forall>x \<in> set (c[pos := (k, v)]). dict_idx (hash (fst x)) (ht_size_exp (dict_ht d table)) = idx"
      by (auto dest!: set_update_subset_insert [THEN subsetD])
  qed (use dist p(5) in \<open>auto simp: d'_def c_def dict_ht_def\<close>)
  have "dict_map d' = (map_of xs)(k \<mapsto> v)"
    unfolding dict_map_def by (rule map_of_add(1) [OF _ dist]) (simp add: M' xs)
  then show "dict_map (dictSetVal d pl v) = (dict_map d)(fst (dict_entry d pl) \<mapsto> v)"
    unfolding eq old(1) by (simp add: k_def)
  show "dict_allocated (dictSetVal d pl v)"
    using p(6) by (simp add: eq dict_allocated_def d'_def set_chain_def dict_ht_update_def)
qed

lemma unlink_at_ok:
  assumes ok: "dict_ok hash d" and pl: "place_ok d pl" "fst pl = 1 \<longrightarrow> dictIsRehashing d"
  shows "dict_ok hash (unlink_at d pl)" "dict_map (unlink_at d pl) = (dict_map d)(fst (dict_entry d pl) := None)"
    "dict_allocated (unlink_at d pl)"
proof -
  obtain table idx pos where p: "pl = (table, idx, pos)" "table \<le> 1" "table = 1 \<longrightarrow> dictIsRehashing d"
    "idx < length (ht_table (dict_ht d table))" "pos < length (ht_table (dict_ht d table) ! idx)"
    "dict_allocated d" "ht_ok hash (dict_ht d table)"
    using place_parts [OF ok pl] .
  define c where "c = ht_table (dict_ht d table) ! idx"
  define c' where "c' = take pos c @ drop (Suc pos) c"
  define d' where "d' = set_chain table idx c' (ht_used (dict_ht d table) - 1) d"
  have eq: "unlink_at d pl = d'"
    by (simp add: unlink_at_def p(1) d'_def c'_def c_def set_chain_def dict_ht_update_def dict_ht_def)
  have pos: "pos < length c" using p(5) by (simp add: c_def)
  have e: "dict_entry d pl = c ! pos" by (simp add: dict_entry_def p(1) c_def)
  have c: "mset c = add_mset (c ! pos) (mset c')"
    by (subst id_take_nth_drop [OF pos]) (simp add: c'_def)
  have "mset (dict_entries d') + mset c = mset (dict_entries d) + mset c'"
    using set_chain_mset [OF p(4), of c' "ht_used (dict_ht d table) - 1"] by (simp add: d'_def c_def)
  then have m: "mset (dict_entries d) = add_mset (fst (dict_entry d pl), snd (dict_entry d pl)) (mset (dict_entries d'))"
    unfolding c e by simp
  note del = map_of_add [OF m dict_ok_distinct [OF ok]]
  have "set c' \<subseteq> set c" using c by (metis mset_subset_eqD mset_subset_eq_add_right add_mset_add_single set_mset_mset subsetI union_commute)
  moreover have "dict_idx (hash (fst x)) (ht_size_exp (dict_ht d table)) = idx" if "x \<in> set c" for x
    using p(4,7) that by (simp add: ht_ok_def c_def)
  moreover have "0 < ht_used (dict_ht d table)"
  proof -
    have "c \<in> set (ht_table (dict_ht d table))" using p(4) by (simp add: c_def)
    then have "c ! pos \<in> set (concat (ht_table (dict_ht d table)))" using nth_mem [OF pos] by auto
    then have "concat (ht_table (dict_ht d table)) \<noteq> []" by (metis empty_iff empty_set)
    then show ?thesis using p(7) unfolding ht_ok_def by (metis length_greater_0_conv)
  qed
  ultimately show "dict_ok hash (unlink_at d pl)" unfolding eq d'_def
    using del(3) pos by (intro set_chain_ok [OF ok p(6,2,3,4)]) (auto simp: d'_def c'_def c_def dict_ht_def)
  show "dict_map (unlink_at d pl) = (dict_map d)(fst (dict_entry d pl) := None)"
    using del(2) by (simp add: dict_map_def eq)
  show "dict_allocated (unlink_at d pl)"
    using p(6) by (simp add: eq dict_allocated_def d'_def set_chain_def dict_ht_update_def)
qed

end
