(* ===== verification/Dict_Map.thy ===== *)
theory Dict_Map
  imports Dict_Ops
begin

text \<open>
  The dict as a map: every public operation of \<open>dict.c\<close> refines the update of a finite map,
  interleaved in any way with incremental rehashing and resizing.
\<close>

section \<open>The operations\<close>

definition dict_ready :: "('k, 'v) dict \<Rightarrow> bool" where
  "dict_ready d \<longleftrightarrow> dict_allocated d \<or> pauseAutoResize d \<le> 0"

definition same_pauses :: "('k, 'v) dict \<Rightarrow> ('k, 'v) dict \<Rightarrow> bool" where
  "same_pauses d d' \<longleftrightarrow> pauserehash d' = pauserehash d \<and> pauseAutoResize d' = pauseAutoResize d"

lemma same_pauses_trans: "same_pauses d e \<Longrightarrow> same_pauses e f \<Longrightarrow> same_pauses d f"
  by (simp add: same_pauses_def)

lemma dict_same_pauses: "dict_same d d' \<Longrightarrow> same_pauses d d'"
  by (simp add: dict_same_def same_pauses_def)

lemma set_chain_pauses: "same_pauses d (set_chain table idx c u d)"
  by (simp add: same_pauses_def)

lemma dictSetVal_pauses: "same_pauses d (dictSetVal d pl v)"
  by (cases pl) (simp add: same_pauses_def dictSetVal_def dict_ht_update_def)

lemma unlink_at_pauses: "same_pauses d (unlink_at d pl)"
  by (cases pl) (simp add: same_pauses_def unlink_at_def dict_ht_update_def)

lemma dictAddRaw_ok:
  fixes ty :: "'k dictType" and d :: "('k, 'v) dict"
  assumes ok: "dict_ok (hashFunction ty) d" and ready: "dict_ready d"
  shows "\<exists>d' r. dictAddRaw ty rz d key v0 = Ok (d', r) \<and> dict_ok (hashFunction ty) d' \<and> same_pauses d d'
    \<and> (case r of
          Inl pl \<Rightarrow> dict_map d key = None \<and> dict_map d' = (dict_map d)(key \<mapsto> v0) \<and> place_ok d' pl
            \<and> fst (dict_entry d' pl) = key \<and> (fst pl = 1 \<longrightarrow> dictIsRehashing d')
        | Inr pl \<Rightarrow> dict_map d' = dict_map d \<and> place_ok d' pl \<and> fst (dict_entry d' pl) = key
            \<and> dict_map d key = Some (snd (dict_entry d' pl)) \<and> (fst pl = 1 \<longrightarrow> dictIsRehashing d'))"
proof -
  let ?h = "hashFunction ty"
  obtain e r where e: "dictFindLinkForInsert ty rz d key = Ok (e, r)" "dict_ok ?h e" "dict_same d e" "dict_allocated e"
    and r: "case r of
          Inr pl \<Rightarrow> place_ok e pl \<and> fst (dict_entry e pl) = key \<and> dict_map d key = Some (snd (dict_entry e pl))
            \<and> (fst pl = 1 \<longrightarrow> dictIsRehashing e)
            \<and> fst (snd pl) = dict_idx (?h key) (ht_size_exp (dict_ht e (fst pl)))
        | Inl (table, idx) \<Rightarrow> dict_map d key = None \<and> table = (if dictIsRehashing e then 1 else 0)
            \<and> idx = dict_idx (?h key) (ht_size_exp (dict_ht e table))"
    using dictFindLinkForInsert_ok [OF ok ready [unfolded dict_ready_def], of rz key] by blast
  have map: "dict_map e = dict_map d" by (rule dict_same_map [OF ok e(3)])
  show ?thesis
  proof (cases r)
    case (Inr pl)
    then show ?thesis using e r map dict_same_pauses [OF e(3)]
      by (simp add: dictAddRaw_def)
  next
    case (Inl pos)
    obtain table idx where pos: "pos = (table, idx)" by (cases pos)
    have p: "dict_map d key = None" "table = (if dictIsRehashing e then 1 else 0)"
      "idx = dict_idx (?h key) (ht_size_exp (dict_ht e table))"
      using r by (simp_all add: Inl pos)
    define f where "f = set_chain table idx ((key, v0) # ht_table (dict_ht e table) ! idx) (ht_used (dict_ht e table) + 1) e"
    have ins: "dictInsertKeyAtLink e key v0 (table, idx) = Ok (f, (table, idx, 0))"
      unfolding f_def by (rule dictInsertKeyAtLink_eq [OF e(2,4) p(2,3)])
    have new: "dict_map e key = None" using p(1) map by simp
    note n = set_chain_new [OF e(2,4) new p(2,3), of v0, folded f_def]
    have il: "idx < length (ht_table (dict_ht e table))"
      using dict_ht_ok [OF e(2,4), of table] p(2,3) ht_ok_idx_less by blast
    have ht: "ht_table (dict_ht f table) = (ht_table (dict_ht e table))[idx := (key, v0) # ht_table (dict_ht e table) ! idx]"
      by (simp add: f_def dict_ht_set_chain)
    have "place_ok f (table, idx, 0)" "fst (dict_entry f (table, idx, 0)) = key"
      using il p(2) ht by (auto simp: place_ok_def dict_entry_def)
    moreover have "dictIsRehashing f = dictIsRehashing e" by (simp add: f_def dictIsRehashing_def)
    moreover have "same_pauses d f"
      unfolding f_def by (rule same_pauses_trans [OF dict_same_pauses [OF e(3)] set_chain_pauses])
    moreover have "dictAddRaw ty rz d key v0 = Ok (f, Inl (table, idx, 0))"
      using e(1) ins by (simp add: dictAddRaw_def Inl pos)
    ultimately show ?thesis using n p map by simp
  qed
qed

lemma dictAdd_ok:
  assumes "dict_ok (hashFunction ty) d" "dict_ready d"
  shows "\<exists>d'. dictAdd ty rz d key val v0 = Ok (d', dict_map d key = None) \<and> dict_ok (hashFunction ty) d' \<and> same_pauses d d'
    \<and> dict_map d' = (if dict_map d key = None then (dict_map d)(key \<mapsto> val) else dict_map d)"
proof -
  obtain e r where e: "dictAddRaw ty rz d key v0 = Ok (e, r)" "dict_ok (hashFunction ty) e" "same_pauses d e"
    and r: "case r of
          Inl pl \<Rightarrow> dict_map d key = None \<and> dict_map e = (dict_map d)(key \<mapsto> v0) \<and> place_ok e pl
            \<and> fst (dict_entry e pl) = key \<and> (fst pl = 1 \<longrightarrow> dictIsRehashing e)
        | Inr pl \<Rightarrow> dict_map e = dict_map d \<and> place_ok e pl \<and> fst (dict_entry e pl) = key
            \<and> dict_map d key = Some (snd (dict_entry e pl)) \<and> (fst pl = 1 \<longrightarrow> dictIsRehashing e)"
    using dictAddRaw_ok [OF assms, of rz key v0] by blast
  show ?thesis
  proof (cases r)
    case (Inl pl)
    then have p: "place_ok e pl" "fst pl = 1 \<longrightarrow> dictIsRehashing e" using r by simp_all
    have "same_pauses d (dictSetVal e pl val)" by (rule same_pauses_trans [OF e(3) dictSetVal_pauses])
    then show ?thesis using e r set_chain_value [OF e(2) p] by (simp add: dictAdd_def Inl)
  qed (use e r in \<open>simp add: dictAdd_def\<close>)
qed

lemma dictReplace_ok:
  assumes "dict_ok (hashFunction ty) d" "dict_ready d"
  shows "\<exists>d'. dictReplace ty rz d key val v0 = Ok (d', dict_map d key = None, dict_map d key)
    \<and> dict_ok (hashFunction ty) d' \<and> same_pauses d d' \<and> dict_map d' = (dict_map d)(key \<mapsto> val)"
proof -
  obtain e r where e: "dictAddRaw ty rz d key v0 = Ok (e, r)" "dict_ok (hashFunction ty) e" "same_pauses d e"
    and r: "case r of
          Inl pl \<Rightarrow> dict_map d key = None \<and> dict_map e = (dict_map d)(key \<mapsto> v0) \<and> place_ok e pl
            \<and> fst (dict_entry e pl) = key \<and> (fst pl = 1 \<longrightarrow> dictIsRehashing e)
        | Inr pl \<Rightarrow> dict_map e = dict_map d \<and> place_ok e pl \<and> fst (dict_entry e pl) = key
            \<and> dict_map d key = Some (snd (dict_entry e pl)) \<and> (fst pl = 1 \<longrightarrow> dictIsRehashing e)"
    using dictAddRaw_ok [OF assms, of rz key v0] by blast
  define pl where "pl = (case r of Inl pl \<Rightarrow> pl | Inr pl \<Rightarrow> pl)"
  have p: "place_ok e pl" "fst pl = 1 \<longrightarrow> dictIsRehashing e" using r by (cases r; simp add: pl_def)+
  have "same_pauses d (dictSetVal e pl val)" by (rule same_pauses_trans [OF e(3) dictSetVal_pauses])
  then show ?thesis using e r set_chain_value [OF e(2) p, of val]
    by (cases r) (simp_all add: dictReplace_def pl_def Let_def)
qed

lemma dictFetchValue_ok:
  assumes "dict_ok (hashFunction ty) d"
  shows "\<exists>d'. dictFetchValue ty rz d key = Ok (d', dict_map d key) \<and> dict_ok (hashFunction ty) d' \<and> dict_same d d'"
  using dictFind_ok [OF assms, of rz key] by (auto simp: dictFetchValue_def)

text \<open>Deletion.\<close>

lemma dictGenericDelete_ok:
  assumes ok: "dict_ok (hashFunction ty) d"
  shows "\<exists>d'. dictGenericDelete ty rz d key = Ok (d', map_option (Pair key) (dict_map d key))
    \<and> dict_ok (hashFunction ty) d' \<and> same_pauses d d' \<and> dict_map d' = (dict_map d)(key := None)"
proof (cases "dictSize d = 0")
  case True
  then show ?thesis using ok dictSize_entries [OF ok] by (simp add: dictGenericDelete_def dict_map_def same_pauses_def)
next
  case False
  let ?h = "hashFunction ty" and ?idx = "dict_idx (hashFunction ty key) (ht_size_exp (ht0 d))"
  have alloc: "dict_allocated d" using False dictSize_entries [OF ok] dict_nonempty_allocated [OF ok] by auto
  obtain e where e: "dictRehashStepIfNeeded rz ?h d ?idx = Ok e" "dict_ok ?h e" "dict_same d e" "dict_allocated e"
    "int ?idx < rehashidx e \<longrightarrow> ?idx = dict_idx (?h key) (ht_size_exp (ht0 e))"
    using step_then_idx [OF ok refl, of rz key] alloc by blast
  have map: "dict_map e = dict_map d" by (rule dict_same_map [OF ok e(3)])
  have idx: "?idx = dict_idx (?h key) (ht_size_exp (ht0 e))" if "int ?idx < rehashidx e" using e(5) that by blast
  obtain r where r: "tables_find e (?h key) key ?idx = Ok r"
    "case r of None \<Rightarrow> dict_map e key = None
        | Some pl \<Rightarrow> place_ok e pl \<and> fst (dict_entry e pl) = key \<and> dict_map e key = Some (snd (dict_entry e pl))
            \<and> (fst pl = 1 \<longrightarrow> dictIsRehashing e)
            \<and> fst (snd pl) = dict_idx (?h key) (ht_size_exp (dict_ht e (fst pl)))"
    using tables_find_spec [OF e(2,4) idx] by blast
  have eq: "dictGenericDelete ty rz d key = (case r of
          None \<Rightarrow> Ok (e, None)
        | Some he \<Rightarrow> bind_outcome (dictShrinkIfNeeded_auto ty rz (unlink_at e he)) (\<lambda>d'. Ok (d', Some (dict_entry e he))))"
    using False e(1) r(1) by (simp add: dictGenericDelete_def Let_def)
  show ?thesis
  proof (cases r)
    case None
    then have "dict_map d key = None" using r(2) map by simp
    moreover from this have "dict_map e = (dict_map d)(key := None)" using map by auto
    ultimately show ?thesis using eq None e(2) dict_same_pauses [OF e(3)] by simp
  next
    case (Some pl)
    then have p: "place_ok e pl" "fst pl = 1 \<longrightarrow> dictIsRehashing e" "fst (dict_entry e pl) = key"
      "dict_map d key = Some (snd (dict_entry e pl))" using r(2) map by simp_all
    note u = unlink_at_ok [OF e(2) p(1,2)]
    obtain f where f: "dictShrinkIfNeeded_auto ty rz (unlink_at e pl) = Ok f" "dict_ok ?h f" "dict_same (unlink_at e pl) f"
      using dictShrinkIfNeeded_auto_ok [OF u(1), of rz] by blast
    have "dict_map f = (dict_map d)(key := None)"
      using dict_same_map [OF u(1) f(3)] u(2) p(3) map by simp
    moreover have "same_pauses d f"
      using dict_same_pauses [OF e(3)] unlink_at_pauses [of e pl] dict_same_pauses [OF f(3)]
      by (blast intro: same_pauses_trans)
    moreover have "map_option (Pair key) (dict_map d key) = Some (dict_entry e pl)" using p(3,4) by auto
    ultimately show ?thesis using eq f Some by (simp del: map_option_eq_Some)
  qed
qed

text \<open>Two-phase removal: the entry is found first (rehashing is paused), taken out later.\<close>

lemma dictTwoPhaseUnlink_ok:
  assumes ok: "dict_ok (hashFunction ty) d"
  shows "\<exists>d1 pl d2. dictTwoPhaseUnlinkFind ty rz d key = Ok (d1, pl) \<and> dict_ok (hashFunction ty) d1
    \<and> map_option (dict_entry d1) pl = map_option (Pair key) (dict_map d key) \<and> dict_map d1 = dict_map d
    \<and> dictTwoPhaseUnlinkFree ty rz d1 pl = Ok d2 \<and> dict_ok (hashFunction ty) d2 \<and> same_pauses d d2
    \<and> dict_map d2 = (dict_map d)(key := None)"
proof (cases "dictSize d = 0")
  case True
  then show ?thesis using ok dictSize_entries [OF ok]
    by (simp add: dictTwoPhaseUnlinkFind_def dictTwoPhaseUnlinkFree_def dict_map_def same_pauses_def)
next
  case False
  let ?h = "hashFunction ty"
  have alloc: "dict_allocated d" using False dictSize_entries [OF ok] dict_nonempty_allocated [OF ok] by auto
  obtain e where e: "(if dictIsRehashing d then dictRehashStep rz ?h d else Ok d) = Ok e" "dict_ok ?h e" "dict_same d e"
    "dict_allocated e"
    using dictRehashStep_ok [OF ok, of rz] ok alloc by (cases "dictIsRehashing d") auto
  have map: "dict_map e = dict_map d" by (rule dict_same_map [OF ok e(3)])
  obtain r where r: "tables_find e (?h key) key (dict_idx (?h key) (ht_size_exp (ht0 e))) = Ok r"
    "case r of None \<Rightarrow> dict_map e key = None
        | Some pl \<Rightarrow> place_ok e pl \<and> fst (dict_entry e pl) = key \<and> dict_map e key = Some (snd (dict_entry e pl))
            \<and> (fst pl = 1 \<longrightarrow> dictIsRehashing e)
            \<and> fst (snd pl) = dict_idx (?h key) (ht_size_exp (dict_ht e (fst pl)))"
    using tables_find_spec [OF e(2,4), of _ key] by blast
  have eq: "dictTwoPhaseUnlinkFind ty rz d key =
      (case r of None \<Rightarrow> Ok (e, None) | Some plink \<Rightarrow> Ok (dictPauseRehashing e, Some plink))"
    using False e(1) r(1) by (simp add: dictTwoPhaseUnlinkFind_def Let_def)
  show ?thesis
  proof (cases r)
    case None
    then have n: "dict_map d key = None" using r(2) map by simp
    then have "(dict_map d)(key := None) = dict_map d" by auto
    then show ?thesis using n eq None e(2) dict_same_pauses [OF e(3)] map
      by (simp add: dictTwoPhaseUnlinkFree_def)
  next
    case (Some pl)
    let ?p = "dictPauseRehashing e"
    have paused: "dict_ok ?h ?p" "dict_map ?p = dict_map e" "dict_entry ?p = dict_entry e" "place_ok ?p = place_ok e"
      "dictIsRehashing ?p = dictIsRehashing e"
      using e(2) by (simp_all add: dictPauseRehashing_def dict_ok_def dict_entries_def dict_map_def dict_entry_def
          place_ok_def dict_ht_def dictIsRehashing_def fun_eq_iff)
    have p: "place_ok ?p pl" "fst pl = 1 \<longrightarrow> dictIsRehashing ?p" "fst (dict_entry e pl) = key"
      "dict_map d key = Some (snd (dict_entry e pl))" using r(2) map Some by (simp_all add: paused)
    note u = unlink_at_ok [OF paused(1) p(1,2)]
    obtain f where f: "dictShrinkIfNeeded_auto ty rz (unlink_at ?p pl) = Ok f" "dict_ok ?h f" "dict_same (unlink_at ?p pl) f"
      using dictShrinkIfNeeded_auto_ok [OF u(1), of rz] by blast
    have "dict_map f = (dict_map d)(key := None)"
      using dict_same_map [OF u(1) f(3)] u(2) p(3) map paused by simp
    moreover have "same_pauses d (dictResumeRehashing f)"
      using dict_same_pauses [OF e(3)] unlink_at_pauses [of ?p pl] dict_same_pauses [OF f(3)]
      by (simp add: same_pauses_def dictResumeRehashing_def dictPauseRehashing_def)
    moreover have "dict_ok ?h (dictResumeRehashing f)" "dict_map (dictResumeRehashing f) = dict_map f"
      using f(2) by (simp_all add: dictResumeRehashing_def dict_ok_def dict_entries_def dict_map_def)
    moreover have "dict_entry ?p pl = (key, snd (dict_entry e pl))" using p(3) paused(3) by auto
    ultimately show ?thesis using eq f(1) Some p(4) paused map
      by (simp add: dictTwoPhaseUnlinkFree_def del: map_option_eq_Some)
  qed
qed

text \<open>\<open>dictEmpty\<close> frees each entry once and leaves a fresh dict.\<close>

lemma clear_loop_all: "clear_loop t (length (concat t)) = concat t"
proof (induction t)
  case (Cons c t)
  then show ?case by (cases "concat (c # t) = []") auto
qed simp

lemma dictEmpty_ok:
  assumes "dict_ok hash d"
  shows "dictEmpty d = (dictCreate, dict_entries d)"
proof -
  have "ht_used (ht0 d) = length (concat (ht_table (ht0 d)))" "ht_used (ht1 d) = length (concat (ht_table (ht1 d)))"
    using assms by (auto simp: dict_ok_def ht_ok_def split: if_splits)
  then show ?thesis
    by (simp only: dictEmpty_def dictClear_def Let_def prod.case dict_ht_def dict_ht_update_def)
      (simp add: dictCreate_def dictInit_def dict_entries_def clear_loop_all)
qed

section \<open>Runs\<close>

text \<open>
  What may happen between two operations: incremental rehashing (the event loop calls
  \<open>dictRehash\<close>), or a resize. The environment of a step is these actions, the value of
  \<open>dict_can_resize\<close> and the uninitialised value field of a new entry.
\<close>

datatype dict_action = Tick_rehash nat | Tick_rehash_step | Tick_expand nat | Tick_shrink nat | Tick_shrink_if_needed

record 'v dict_env =
  env_ticks :: "dict_action list"
  env_can_resize :: dictResizeEnable
  env_uninit :: 'v

primrec dict_tick ::
  "'k dictType \<Rightarrow> dictResizeEnable \<Rightarrow> dict_action \<Rightarrow> ('k, 'v) dict \<Rightarrow> ('k, 'v) dict outcome" where
  "dict_tick ty rz (Tick_rehash n) d = bind_outcome (dictRehash rz (hashFunction ty) d n) (\<lambda>(d, again). Ok d)"
| "dict_tick ty rz Tick_rehash_step d = dictRehashStep rz (hashFunction ty) d"
| "dict_tick ty rz (Tick_expand n) d = bind_outcome (dictExpand ty rz d n) (\<lambda>(d, r). Ok d)"
| "dict_tick ty rz (Tick_shrink n) d = bind_outcome (dictShrink ty rz d n) (\<lambda>(d, r). Ok d)"
| "dict_tick ty rz Tick_shrink_if_needed d = dictShrinkIfNeeded_auto ty rz d"

primrec dict_ticks ::
  "'k dictType \<Rightarrow> dictResizeEnable \<Rightarrow> dict_action list \<Rightarrow> ('k, 'v) dict \<Rightarrow> ('k, 'v) dict outcome" where
  "dict_ticks ty rz [] d = Ok d"
| "dict_ticks ty rz (t # ts) d = bind_outcome (dict_tick ty rz t d) (dict_ticks ty rz ts)"

primrec dict_call ::
  "'k dictType \<Rightarrow> dictResizeEnable \<Rightarrow> 'v \<Rightarrow> ('k, 'v) map_op \<Rightarrow> ('k, 'v) dict \<Rightarrow> (('k, 'v) dict \<times> 'v map_answer) outcome" where
  "dict_call ty rz v0 (Map_add k v) d = bind_outcome (dictAdd ty rz d k v v0) (\<lambda>(d, r). Ok (d, Changed r))"
| "dict_call ty rz v0 (Map_replace k v) d = bind_outcome (dictReplace ty rz d k v v0) (\<lambda>(d, r, old). Ok (d, Changed r))"
| "dict_call ty rz v0 (Map_delete k) d = bind_outcome (dictDelete ty rz d k) (\<lambda>(d, r). Ok (d, Changed r))"
| "dict_call ty rz v0 (Map_find k) d = bind_outcome (dictFetchValue ty rz d k) (\<lambda>(d, r). Ok (d, Found r))"

definition dict_step ::
  "'k dictType \<Rightarrow> 'v dict_env \<Rightarrow> ('k, 'v) dict \<Rightarrow> ('k, 'v) map_op \<Rightarrow> (('k, 'v) dict \<times> 'v map_answer) outcome" where
  "dict_step ty env d c =
     bind_outcome (dict_ticks ty (env_can_resize env) (env_ticks env) d)
       (dict_call ty (env_can_resize env) (env_uninit env) c)"

definition dict_inv :: "'k dictType \<Rightarrow> ('k, 'v) dict \<Rightarrow> bool" where
  "dict_inv ty d \<longleftrightarrow> dict_ok (hashFunction ty) d \<and> pauseAutoResize d \<le> 0"

lemma dict_tick_ok:
  assumes "dict_ok (hashFunction ty) d"
  shows "\<exists>d'. dict_tick ty rz t d = Ok d' \<and> dict_ok (hashFunction ty) d' \<and> dict_same d d'"
proof (cases t)
  case (Tick_rehash n)
  then show ?thesis using dictRehash_ok [OF assms, of rz n] by auto
next
  case Tick_rehash_step
  then show ?thesis using dictRehashStep_ok [OF assms, of rz] by auto
next
  case (Tick_expand n)
  then show ?thesis using dictExpand_ok [OF assms, of rz n] by auto
next
  case (Tick_shrink n)
  then show ?thesis using dictShrink_ok [OF assms, of rz n] by auto
next
  case Tick_shrink_if_needed
  then show ?thesis using dictShrinkIfNeeded_auto_ok [OF assms, of rz] by simp
qed

lemma dict_ticks_ok:
  "dict_ok (hashFunction ty) d \<Longrightarrow>
   \<exists>d'. dict_ticks ty rz ts d = Ok d' \<and> dict_ok (hashFunction ty) d' \<and> dict_same d d'"
proof (induction ts arbitrary: d)
  case (Cons t ts)
  obtain e where e: "dict_tick ty rz t d = Ok e" "dict_ok (hashFunction ty) e" "dict_same d e"
    using dict_tick_ok [OF Cons.prems] by blast
  obtain f where "dict_ticks ty rz ts e = Ok f" "dict_ok (hashFunction ty) f" "dict_same e f"
    using Cons.IH [OF e(2)] by blast
  then show ?case using e dict_same_trans [OF e(3)] by auto
qed simp

lemma dict_call_ok:
  assumes ok: "dict_ok (hashFunction ty) d" "dict_ready d"
  shows "\<exists>d' r. dict_call ty rz v0 c d = Ok (d', r) \<and> dict_ok (hashFunction ty) d' \<and> same_pauses d d'
    \<and> map_spec c (dict_map d) = (dict_map d', r)"
proof (cases c)
  case (Map_add k v)
  then show ?thesis using dictAdd_ok [OF ok, of rz k v v0] by auto
next
  case (Map_replace k v)
  then show ?thesis using dictReplace_ok [OF ok, of rz k v v0] by auto
next
  case (Map_delete k)
  then show ?thesis using dictGenericDelete_ok [OF ok(1), of rz k] by (auto simp: dictDelete_def)
next
  case (Map_find k)
  obtain e where e: "dictFetchValue ty rz d k = Ok (e, dict_map d k)" "dict_ok (hashFunction ty) e" "dict_same d e"
    using dictFetchValue_ok [OF ok(1)] by blast
  then show ?thesis using dict_same_map [OF ok(1) e(3)] dict_same_pauses [OF e(3)] by (simp add: Map_find)
qed

lemma dict_inv_start: "dict_inv ty dictCreate"
  by (simp add: dict_inv_def dictCreate_ok) (simp add: dictCreate_def dictInit_def)

interpretation dictm: stored_map dictCreate "dict_step ty" "\<lambda>n. dict_inv ty" dict_map for ty
proof unfold_locales
  show "dict_map dictCreate = Map.empty" by (rule dictCreate_ok)
  fix env :: "'b dict_env" and c :: "('a, 'b) map_op" and d :: "('a, 'b) dict"
  assume inv: "dict_inv ty d"
  then obtain e where e: "dict_ticks ty (env_can_resize env) (env_ticks env) d = Ok e"
    "dict_ok (hashFunction ty) e" "dict_same d e"
    using dict_ticks_ok unfolding dict_inv_def by blast
  have "dict_ready e" using inv e(3) by (simp add: dict_ready_def dict_inv_def dict_same_def)
  from dict_call_ok [OF e(2) this, of "env_can_resize env" "env_uninit env" c]
  show "\<exists>d' r. dict_step ty env d c = Ok (d', r) \<and> dict_inv ty d' \<and> map_spec c (dict_map d) = (dict_map d', r)"
    using e inv dict_same_map [OF _ e(3), of "hashFunction ty"]
    by (auto simp: dict_step_def dict_inv_def same_pauses_def dict_same_def simp del: split_paired_Ex)
qed

end
