(* ===== verification/Dict_Scan.thy ===== *)
theory Dict_Scan
  imports Dict_Map
begin

text \<open>
  The cursor of \<open>dictScan\<close>: it counts with its bits reversed, so that the keys a call covers are the
  ones whose reversed hash lies between the reversed cursor and the reversed next cursor, whatever
  the sizes of the tables are. A callback that does not change the dict is the list of the entries it
  gets.
\<close>

section \<open>Definitions\<close>

text \<open>The loop of \<open>rev\<close>: \<open>while ((s >>= 1) > 0)\<close>.\<close>

function rev_loop :: "nat \<Rightarrow> 64 word \<Rightarrow> 64 word \<Rightarrow> 64 word" where
  "rev_loop s msk v =
     (let s = s div 2 in
      if s > 0 then
        let msk = msk XOR push_bit s msk
        in rev_loop s msk ((drop_bit s v AND msk) OR (push_bit s v AND NOT msk))
      else v)"
  by pat_completeness auto

termination rev_loop
  by (relation "measure (\<lambda>(s, msk, v). s)") auto

declare rev_loop.simps [simp del]

definition rev_bits :: "64 word \<Rightarrow> 64 word" where
  "rev_bits v = rev_loop 64 (NOT 0) v"

text \<open>Setting the unmasked bits and incrementing the reversed cursor.\<close>

definition scan_next :: "64 word \<Rightarrow> 64 word \<Rightarrow> 64 word" where
  "scan_next m v = rev_bits (rev_bits (v OR NOT m) + 1)"

definition dictScanDefragBucket :: "('k, 'v) dict \<Rightarrow> nat \<Rightarrow> nat \<Rightarrow> ('k \<times> 'v) list outcome" where
  "dictScanDefragBucket d table idx = get_bucket (ht_table (dict_ht d table)) idx"

text \<open>The \<open>do ... while\<close> over the expansions of the cursor in the larger table, with fuel.\<close>

fun scan_expansions ::
  "('k, 'v) dict \<Rightarrow> nat \<Rightarrow> 64 word \<Rightarrow> 64 word \<Rightarrow> nat \<Rightarrow> 64 word \<Rightarrow> (('k \<times> 'v) list \<times> 64 word) outcome" where
  "scan_expansions d table m0 m1 0 v = Abort"
| "scan_expansions d table m0 m1 (Suc fuel) v =
     bind_outcome (dictScanDefragBucket d table (unat (v AND m1))) (\<lambda>es.
     let v = scan_next m1 v in
     if v AND (m0 XOR m1) \<noteq> 0
     then bind_outcome (scan_expansions d table m0 m1 fuel v) (\<lambda>(es', v). Ok (es @ es', v))
     else Ok (es, v))"

definition dictScanDefrag :: "('k, 'v) dict \<Rightarrow> 64 word \<Rightarrow> (('k, 'v) dict \<times> ('k \<times> 'v) list \<times> 64 word) outcome" where
  "dictScanDefrag d v =
     (if dictSize d = 0 then Ok (d, [], 0)
      else
        let d = dictPauseRehashing d in
        if \<not> dictIsRehashing d then
          let m0 = DICTHT_SIZE_MASK (ht_size_exp (ht0 d)) in
          bind_outcome (dictScanDefragBucket d 0 (unat (v AND m0))) (\<lambda>es.
          Ok (dictResumeRehashing d, es, scan_next m0 v))
        else
          let (htidx0, htidx1) =
                (if DICTHT_SIZE (ht_size_exp (ht0 d)) > DICTHT_SIZE (ht_size_exp (ht1 d)) then (1, 0) else (0, 1));
              m0 = DICTHT_SIZE_MASK (ht_size_exp (dict_ht d htidx0));
              m1 = DICTHT_SIZE_MASK (ht_size_exp (dict_ht d htidx1)) in
          bind_outcome (dictScanDefragBucket d htidx0 (unat (v AND m0))) (\<lambda>es.
          bind_outcome (scan_expansions d htidx1 m0 m1 (DICTHT_SIZE (ht_size_exp (dict_ht d htidx1))) v) (\<lambda>(es', v).
          Ok (dictResumeRehashing d, es @ es', v))))"

definition dictScan :: "('k, 'v) dict \<Rightarrow> 64 word \<Rightarrow> (('k, 'v) dict \<times> ('k \<times> 'v) list \<times> 64 word) outcome" where
  "dictScan d v = dictScanDefrag d v"

section \<open>The reversal of the bits\<close>

definition rev_swap :: "nat \<Rightarrow> 64 word \<Rightarrow> 64 word \<Rightarrow> 64 word" where
  "rev_swap s m v = (drop_bit s v AND m) OR (push_bit s v AND NOT m)"

lemma rev_loop_step:
  "s div 2 = t \<Longrightarrow> 0 < t \<Longrightarrow> m XOR push_bit t m = m' \<Longrightarrow> rev_loop s m v = rev_loop t m' (rev_swap t m' v)"
  by (subst rev_loop.simps) (simp only: Let_def rev_swap_def if_True)

lemma rev_loop_end: "s div 2 = 0 \<Longrightarrow> rev_loop s m v = v"
  by (subst rev_loop.simps) simp

lemma rev_masks:
  "NOT 0 XOR push_bit 32 (NOT 0) = (0x00000000FFFFFFFF :: 64 word)"
  "0x00000000FFFFFFFF XOR push_bit 16 0x00000000FFFFFFFF = (0x0000FFFF0000FFFF :: 64 word)"
  "0x0000FFFF0000FFFF XOR push_bit 8 0x0000FFFF0000FFFF = (0x00FF00FF00FF00FF :: 64 word)"
  "0x00FF00FF00FF00FF XOR push_bit 4 0x00FF00FF00FF00FF = (0x0F0F0F0F0F0F0F0F :: 64 word)"
  "0x0F0F0F0F0F0F0F0F XOR push_bit 2 0x0F0F0F0F0F0F0F0F = (0x3333333333333333 :: 64 word)"
  "0x3333333333333333 XOR push_bit 1 0x3333333333333333 = (0x5555555555555555 :: 64 word)"
  by code_simp+

lemma rev_bits_unfold:
  "rev_bits v = rev_swap 1 0x5555555555555555 (rev_swap 2 0x3333333333333333 (rev_swap 4 0x0F0F0F0F0F0F0F0F
     (rev_swap 8 0x00FF00FF00FF00FF (rev_swap 16 0x0000FFFF0000FFFF (rev_swap 32 0x00000000FFFFFFFF v)))))"
proof -
  have s: "(64 :: nat) div 2 = 32" "(32 :: nat) div 2 = 16" "(16 :: nat) div 2 = 8" "(8 :: nat) div 2 = 4"
    "(4 :: nat) div 2 = 2" "(2 :: nat) div 2 = 1" "(1 :: nat) div 2 = 0"
    "(0 :: nat) < 32" "(0 :: nat) < 16" "(0 :: nat) < 8" "(0 :: nat) < 4" "(0 :: nat) < 2" "(0 :: nat) < 1" by simp_all
  show ?thesis unfolding rev_bits_def
    by (simp only: rev_loop_step [OF s(1,8) rev_masks(1)] rev_loop_step [OF s(2,9) rev_masks(2)]
        rev_loop_step [OF s(3,10) rev_masks(3)] rev_loop_step [OF s(4,11) rev_masks(4)]
        rev_loop_step [OF s(5,12) rev_masks(5)] rev_loop_step [OF s(6,13) rev_masks(6)] rev_loop_end [OF s(7)])
qed

definition swap_at :: "nat \<Rightarrow> nat \<Rightarrow> nat" where
  "swap_at s i = (if even (i div s) then i + s else i - s)"

lemma swap_at_xor: "swap_at (2 ^ k) i = i XOR 2 ^ k"
proof (cases "bit i k")
  case True
  have "i = (i XOR 2 ^ k) OR 2 ^ k"
    by (rule bit_eqI) (use True in \<open>auto simp: bit_simps\<close>)
  also have "\<dots> = (i XOR 2 ^ k) + 2 ^ k"
    by (rule disjunctive_add [symmetric]) (use True in \<open>auto simp: bit_simps\<close>)
  finally show ?thesis using True by (simp add: swap_at_def bit_iff_odd)
next
  case False
  have "i XOR 2 ^ k = i OR 2 ^ k" by (rule bit_eqI) (use False in \<open>auto simp: bit_simps\<close>)
  also have "\<dots> = i + 2 ^ k" by (rule disjunctive_add [symmetric]) (use False in \<open>auto simp: bit_simps\<close>)
  finally show ?thesis using False by (simp add: swap_at_def bit_iff_odd)
qed

lemma xor_small: "i < 64 \<Longrightarrow> j < 64 \<Longrightarrow> i XOR j < (64 :: nat)"
proof -
  assume k: "i < 64" "j < 64"
  then have "take_bit 6 i = i" "take_bit 6 j = j" by (simp_all add: take_bit_nat_eq_self_iff)
  then have "i XOR j = take_bit 6 (i XOR j)" by (simp add: take_bit_xor)
  also have "\<dots> < 64" using take_bit_nat_less_exp [of 6 "i XOR j"] by simp
  finally show ?thesis .
qed

lemma xor_63: assumes "i < 64" shows "i XOR 63 = 63 - (i :: nat)"
proof -
  have m: "(63 :: nat) = mask 6" by (simp add: mask_eq_exp_minus_1)
  have b: "n < 6" if "bit i n" for n
  proof (rule ccontr)
    assume "\<not> n < 6"
    then have "i < 2 ^ n" using assms power_increasing [of 6 n "2 :: nat"] by simp
    then show False using that by (simp add: bit_iff_odd)
  qed
  have "i + (i XOR 63) = i OR (i XOR 63)"
    by (rule disjunctive_add) (auto simp: m bit_simps dest: b)
  also have "\<dots> = 63" unfolding m by (rule bit_eqI) (auto simp: bit_simps dest: b)
  finally show ?thesis by simp
qed

lemma swap_at_all:
  assumes "i < 64"
  shows "swap_at 32 (swap_at 16 (swap_at 8 (swap_at 4 (swap_at 2 (swap_at 1 i))))) = 63 - i
     \<and> swap_at 1 i < 64 \<and> swap_at 2 (swap_at 1 i) < 64 \<and> swap_at 4 (swap_at 2 (swap_at 1 i)) < 64
     \<and> swap_at 8 (swap_at 4 (swap_at 2 (swap_at 1 i))) < 64
     \<and> swap_at 16 (swap_at 8 (swap_at 4 (swap_at 2 (swap_at 1 i)))) < 64"
proof -
  have sw: "swap_at 1 = (\<lambda>i. i XOR 1)" "swap_at 2 = (\<lambda>i. i XOR 2)" "swap_at 4 = (\<lambda>i. i XOR 4)" "swap_at 8 = (\<lambda>i. i XOR 8)"
    "swap_at 16 = (\<lambda>i. i XOR 16)" "swap_at 32 = (\<lambda>i. i XOR 32)"
    using swap_at_xor [of 0] swap_at_xor [of 1] swap_at_xor [of 2] swap_at_xor [of 3] swap_at_xor [of 4] swap_at_xor [of 5]
    by (simp_all add: fun_eq_iff)
  have "(1 XOR 2 XOR 4 XOR 8 XOR 16 XOR 32 :: nat) = 63" by simp
  then show ?thesis unfolding sw using xor_63 [OF assms] assms by (simp only: xor.assoc) (simp add: xor_small)
qed

lemma all_below: "(\<forall>i < n. P i) \<longleftrightarrow> list_all P [0..<n]"
  by (auto simp: list_all_iff)

lemma bit_rev_swap:
  assumes m: "list_all (\<lambda>i. bit m i \<longleftrightarrow> even (i div s)) [0..<64]" and i: "i < 64"
  shows "bit (rev_swap s m v) i = bit v (swap_at s i)"
proof -
  have "bit m i \<longleftrightarrow> even (i div s)" using m i by (simp add: all_below [symmetric])
  moreover have "s \<le> i" if "odd (i div s)" using that by (metis div_less dvd_0_right not_less)
  ultimately show ?thesis using i
    by (simp add: rev_swap_def swap_at_def bit_or_iff bit_and_iff bit_not_iff bit_drop_bit_eq bit_push_bit_iff add.commute)
qed

lemma swap_masks:
  "list_all (\<lambda>i. bit (0x5555555555555555 :: 64 word) i \<longleftrightarrow> even (i div 1)) [0..<64]"
  "list_all (\<lambda>i. bit (0x3333333333333333 :: 64 word) i \<longleftrightarrow> even (i div 2)) [0..<64]"
  "list_all (\<lambda>i. bit (0x0F0F0F0F0F0F0F0F :: 64 word) i \<longleftrightarrow> even (i div 4)) [0..<64]"
  "list_all (\<lambda>i. bit (0x00FF00FF00FF00FF :: 64 word) i \<longleftrightarrow> even (i div 8)) [0..<64]"
  "list_all (\<lambda>i. bit (0x0000FFFF0000FFFF :: 64 word) i \<longleftrightarrow> even (i div 16)) [0..<64]"
  "list_all (\<lambda>i. bit (0x00000000FFFFFFFF :: 64 word) i \<longleftrightarrow> even (i div 32)) [0..<64]"
  by code_simp+

lemma bit_rev_bits: "i < 64 \<Longrightarrow> bit (rev_bits v) i = bit v (63 - i)"
  using swap_at_all [of i] unfolding rev_bits_unfold
  by (simp only: bit_rev_swap [OF swap_masks(1)] bit_rev_swap [OF swap_masks(2)] bit_rev_swap [OF swap_masks(3)]
      bit_rev_swap [OF swap_masks(4)] bit_rev_swap [OF swap_masks(5)] bit_rev_swap [OF swap_masks(6)])

lemma rev_bits_rev: "rev_bits (rev_bits v) = v"
proof (rule bit_word_eqI)
  fix n assume "n < LENGTH(64)"
  then have n: "n < 64" by simp
  moreover from n have "63 - n < 64" by simp
  ultimately show "bit (rev_bits (rev_bits v)) n = bit v n" by (simp only: bit_rev_bits) simp
qed

section \<open>Positions of hashes and cursors\<close>

definition scan_pos :: "64 word \<Rightarrow> nat" where
  "scan_pos v = unat (rev_bits v)"

lemma bit_scan_pos: "bit (scan_pos v) i \<longleftrightarrow> i < 64 \<and> bit v (63 - i)"
  unfolding scan_pos_def bit_unsigned_iff by (cases "i < 64") (auto simp: bit_rev_bits dest: bit_imp_le_length)

lemma scan_pos_less: "scan_pos v < 2 ^ 64"
  using unsigned_less [of "rev_bits v"] by (simp add: scan_pos_def)

lemma same_bucket_pos:
  assumes "0 \<le> e" "e \<le> 63"
  shows "dict_idx h e = dict_idx v e \<longleftrightarrow> scan_pos h div 2 ^ (64 - nat e) = scan_pos v div 2 ^ (64 - nat e)"
proof -
  have e: "nat e \<le> 63" using assms by simp
  have "dict_idx h e = dict_idx v e \<longleftrightarrow> take_bit (nat e) (unat h) = take_bit (nat e) (unat v)"
    using assms by (simp add: dict_idx_mod take_bit_eq_mod)
  also have "\<dots> \<longleftrightarrow> (\<forall>n < nat e. bit h n = bit v n)"
    using e by (auto simp: bit_eq_iff bit_take_bit_iff bit_unsigned_iff dest: bit_imp_le_length)
  also have "\<dots> \<longleftrightarrow> drop_bit (64 - nat e) (scan_pos h) = drop_bit (64 - nat e) (scan_pos v)"
  proof
    assume l: "\<forall>n < nat e. bit h n = bit v n"
    show "drop_bit (64 - nat e) (scan_pos h) = drop_bit (64 - nat e) (scan_pos v)"
      by (rule bit_eqI) (use l e in \<open>auto simp: bit_drop_bit_eq bit_scan_pos\<close>)
  next
    assume r: "drop_bit (64 - nat e) (scan_pos h) = drop_bit (64 - nat e) (scan_pos v)"
    show "\<forall>n < nat e. bit h n = bit v n"
    proof (intro allI impI)
      fix n assume n: "n < nat e"
      have "bit (drop_bit (64 - nat e) (scan_pos h)) (nat e - 1 - n) = bit (drop_bit (64 - nat e) (scan_pos v)) (nat e - 1 - n)"
        by (simp only: r)
      moreover have "63 - (64 - nat e + (nat e - 1 - n)) = n" "64 - nat e + (nat e - 1 - n) < 64" using n e by auto
      ultimately show "bit h n = bit v n" by (simp add: bit_drop_bit_eq bit_scan_pos)
    qed
  qed
  finally show ?thesis by (simp add: drop_bit_eq_div)
qed

lemma or_mask_nat: "x OR mask k = (x div 2 ^ k + 1) * 2 ^ k - (1 :: nat)"
proof -
  have "x OR mask k = push_bit k (drop_bit k x) OR mask k"
    by (rule bit_eqI) (auto simp: bit_simps)
  also have "\<dots> = push_bit k (drop_bit k x) + mask k"
    by (rule disjunctive_add [symmetric]) (auto simp: bit_simps)
  finally show ?thesis by (simp add: push_bit_eq_mult drop_bit_eq_div mask_eq_exp_minus_1)
qed

lemma scan_pos_next:
  assumes "0 \<le> e" "e \<le> 63"
  shows "scan_pos (scan_next (DICTHT_SIZE_MASK e) v) = (scan_pos v div 2 ^ (64 - nat e) + 1) * 2 ^ (64 - nat e) mod 2 ^ 64"
proof -
  let ?k = "64 - nat e"
  have e: "nat e \<le> 63" using assms by simp
  have m: "DICTHT_SIZE_MASK e = mask (nat e)"
    using assms by (simp add: DICTHT_SIZE_MASK_def DICTHT_SIZE_def mask_eq_exp_minus_1)
  have "unat (rev_bits (v OR NOT (mask (nat e)))) = scan_pos v OR mask ?k"
  proof (rule bit_eqI)
    fix i
    show "bit (unat (rev_bits (v OR NOT (mask (nat e))))) i = bit (scan_pos v OR mask ?k) i"
      using e by (cases "i < 64") (auto simp: bit_unsigned_iff bit_rev_bits bit_scan_pos bit_simps dest: bit_imp_le_length)
  qed
  also have "\<dots> = (scan_pos v div 2 ^ ?k + 1) * 2 ^ ?k - 1" by (rule or_mask_nat)
  finally have u: "unat (rev_bits (v OR NOT (mask (nat e)))) + 1 = (scan_pos v div 2 ^ ?k + 1) * 2 ^ ?k" by simp
  have "scan_pos (scan_next (mask (nat e)) v) = unat (rev_bits (v OR NOT (mask (nat e))) + 1)"
    by (simp add: scan_pos_def scan_next_def rev_bits_rev)
  also have "\<dots> = (unat (rev_bits (v OR NOT (mask (nat e)))) + 1) mod 2 ^ 64" by (simp add: unat_word_ariths)
  finally show ?thesis unfolding u m .
qed

section \<open>One call\<close>

text \<open>The entries of a table whose hashes have their positions in an interval.\<close>

definition entries_between :: "('k \<Rightarrow> 64 word) \<Rightarrow> ('k, 'v) dictht \<Rightarrow> nat \<Rightarrow> nat \<Rightarrow> ('k \<times> 'v) multiset" where
  "entries_between hash t lo hi =
     filter_mset (\<lambda>e. lo \<le> scan_pos (hash (fst e)) \<and> scan_pos (hash (fst e)) < hi) (mset (concat (ht_table t)))"

lemma entries_between_split:
  "lo \<le> mid \<Longrightarrow> mid \<le> hi \<Longrightarrow>
   entries_between hash t lo hi = entries_between hash t lo mid + entries_between hash t mid hi"
  unfolding entries_between_def by (simp add: filter_union_mset [symmetric] multiset_eq_iff)
     (meson leD le_trans less_le_trans not_le)

lemma entries_between_all: "entries_between hash t 0 (2 ^ 64) = mset (concat (ht_table t))"
  unfolding entries_between_def using scan_pos_less by (simp add: filter_mset_eq_conv)

lemma bucket_filter:
  "i < length t \<Longrightarrow> \<forall>j < length t. \<forall>e \<in> set (t ! j). f e = j \<Longrightarrow>
   mset (t ! i) = filter_mset (\<lambda>e. f e = i) (mset (concat t))"
proof -
  assume i: "i < length t" and f: "\<forall>j < length t. \<forall>e \<in> set (t ! j). f e = j"
  have t: "concat t = concat (take i t) @ t ! i @ concat (drop (Suc i) t)"
    by (metis i id_take_nth_drop concat_append concat.simps(2))
  have "f e \<noteq> i" if e: "e \<in> set (concat (take i t))" for e
  proof -
    obtain c where c: "c \<in> set (take i t)" "e \<in> set c" using e by auto
    then obtain j where "j < i" "c = t ! j" by (auto simp: in_set_conv_nth)
    moreover from this have "j < length t" using i by simp
    ultimately have "f e = j" "j < i" using f c(2) by auto
    then show ?thesis by simp
  qed
  moreover have "f e \<noteq> i" if e: "e \<in> set (concat (drop (Suc i) t))" for e
  proof -
    obtain c where c: "c \<in> set (drop (Suc i) t)" "e \<in> set c" using e by auto
    then obtain j where j: "j < length (drop (Suc i) t)" "c = drop (Suc i) t ! j" by (metis in_set_conv_nth)
    then have "f e = Suc i + j" using f c(2) by simp
    then show ?thesis by simp
  qed
  moreover have "f e = i" if "e \<in> set (t ! i)" for e using that f i by simp
  ultimately have "filter (\<lambda>e. f e = i) (concat (take i t)) = []" "filter (\<lambda>e. f e = i) (concat (drop (Suc i) t)) = []"
    "filter (\<lambda>e. f e = i) (t ! i) = t ! i"
    by (simp_all only: filter_empty_conv filter_id_conv) blast+
  then show ?thesis unfolding t by (simp only: mset_filter [symmetric] filter_append) simp
qed

lemma div_eq_interval: "0 < (K :: nat) \<Longrightarrow> x div K = y div K \<longleftrightarrow> y div K * K \<le> x \<and> x < (y div K + 1) * K"
  by (metis add.commute div_nat_eqI div_times_less_eq_dividend dividend_less_div_times mult.commute mult_Suc plus_1_eq_Suc)

lemma bucket_between:
  assumes "ht_ok hash t"
  defines "K \<equiv> 2 ^ (64 - nat (ht_size_exp t))"
  shows "mset (ht_table t ! dict_idx v (ht_size_exp t)) =
    entries_between hash t (scan_pos v div K * K) ((scan_pos v div K + 1) * K)"
proof -
  have e: "0 \<le> ht_size_exp t" "ht_size_exp t \<le> 63" using assms(1) by (simp_all add: ht_ok_def)
  have "mset (ht_table t ! dict_idx v (ht_size_exp t)) =
      filter_mset (\<lambda>x. dict_idx (hash (fst x)) (ht_size_exp t) = dict_idx v (ht_size_exp t)) (mset (concat (ht_table t)))"
    by (rule bucket_filter [OF ht_ok_idx_less [OF assms(1)]]) (use assms(1) in \<open>auto simp: ht_ok_def\<close>)
  also have "\<dots> = entries_between hash t (scan_pos v div K * K) ((scan_pos v div K + 1) * K)"
    unfolding entries_between_def same_bucket_pos [OF e] K_def by (subst div_eq_interval) simp_all
  finally show ?thesis .
qed

lemma nonzero_bit: "(x :: nat) \<noteq> 0 \<Longrightarrow> \<exists>n. bit x n"
  unfolding bit_eq_iff [of x 0] by auto

lemma scan_more:
  assumes "0 \<le> e0" "e0 \<le> e1" "e1 \<le> 63"
  shows "v AND (DICTHT_SIZE_MASK e0 XOR DICTHT_SIZE_MASK e1) \<noteq> 0 \<longleftrightarrow>
    scan_pos v mod 2 ^ (64 - nat e0) div 2 ^ (64 - nat e1) \<noteq> 0"
proof -
  have e: "nat e0 \<le> nat e1" "nat e1 \<le> 63" using assms by auto
  have m: "DICTHT_SIZE_MASK e0 = mask (nat e0)" "DICTHT_SIZE_MASK e1 = mask (nat e1)"
    using assms by (simp_all add: DICTHT_SIZE_MASK_def DICTHT_SIZE_def mask_eq_exp_minus_1)
  have "v AND (DICTHT_SIZE_MASK e0 XOR DICTHT_SIZE_MASK e1) \<noteq> 0 \<longleftrightarrow> (\<exists>i. nat e0 \<le> i \<and> i < nat e1 \<and> bit v i)"
  proof -
    have "bit (v AND (mask (nat e0) XOR mask (nat e1))) i \<longleftrightarrow> nat e0 \<le> i \<and> i < nat e1 \<and> bit v i" for i
      using e by (cases "i < 64") (auto simp: bit_and_iff bit_xor_iff bit_mask_iff dest: bit_imp_le_length)
    moreover have "i < 64" if "i < nat e1" for i using that e by simp
    ultimately show ?thesis unfolding m bit_eq_iff [of _ "0 :: 64 word"] by (simp, blast)
  qed
  also have "\<dots> \<longleftrightarrow> drop_bit (64 - nat e1) (take_bit (64 - nat e0) (scan_pos v)) \<noteq> 0"
  proof
    assume "\<exists>i. nat e0 \<le> i \<and> i < nat e1 \<and> bit v i"
    then obtain i where i: "nat e0 \<le> i" "i < nat e1" "bit v i" by blast
    have "bit (drop_bit (64 - nat e1) (take_bit (64 - nat e0) (scan_pos v))) (nat e1 - 1 - i)"
    proof -
      have "64 - nat e1 + (nat e1 - 1 - i) = 63 - i" "63 - (63 - i) = i" "63 - i < 64 - nat e0" "63 - i < 64"
        using i e by linarith+
      then show ?thesis using i(3) by (simp add: bit_drop_bit_eq bit_take_bit_iff bit_scan_pos)
    qed
    then show "drop_bit (64 - nat e1) (take_bit (64 - nat e0) (scan_pos v)) \<noteq> 0"
      by (rule contrapos_pn) (simp only: bit_0_eq bot_apply, simp)
  next
    assume "drop_bit (64 - nat e1) (take_bit (64 - nat e0) (scan_pos v)) \<noteq> 0"
    then obtain n where "bit (drop_bit (64 - nat e1) (take_bit (64 - nat e0) (scan_pos v))) n"
      using nonzero_bit by blast
    then have "64 - nat e1 + n < 64 - nat e0" "bit v (63 - (64 - nat e1 + n))"
      by (auto simp: bit_simps bit_scan_pos)
    then show "\<exists>i. nat e0 \<le> i \<and> i < nat e1 \<and> bit v i"
      using e by (intro exI [of _ "63 - (64 - nat e1 + n)"] conjI; linarith)
  qed
  finally show ?thesis by (simp add: drop_bit_eq_div take_bit_eq_mod)
qed

lemma next_multiple:
  fixes p :: nat
  assumes "K1 dvd K0" "0 < (K1 :: nat)" "0 < K0"
  defines "q \<equiv> (p div K1 + 1) * K1" and "hi \<equiv> (p div K0 + 1) * K0"
  shows "q \<le> hi" "p < q" "q mod K1 = 0" "q < hi \<Longrightarrow> q div K0 = p div K0" "q < hi \<Longrightarrow> q mod K0 \<noteq> 0"
proof -
  obtain c where c: "K0 = c * K1" using assms(1) by (metis dvd_div_mult_self)
  have q: "p div K1 * K1 \<le> p" "p < q" using assms(2) by (simp_all add: q_def dividend_less_div_times)
  have hi: "p div K0 * K0 \<le> p" "p < hi" using assms(3) by (simp_all add: hi_def dividend_less_div_times)
  show "p < q" by (rule q(2))
  show "q mod K1 = 0" by (simp add: q_def)
  have "p div K1 < (p div K0 + 1) * c"
  proof -
    have "p < (p div K0 + 1) * c * K1" using hi(2) by (simp add: hi_def c algebra_simps)
    then show ?thesis by (metis assms(2) div_less_iff_less_mult)
  qed
  then have "(p div K1 + 1) * K1 \<le> (p div K0 + 1) * c * K1" by (intro mult_le_mono1) simp
  then show "q \<le> hi" by (simp only: q_def hi_def c mult.assoc)
  assume less: "q < hi"
  have lo: "p div K0 * K0 < q" by (rule le_less_trans [OF hi(1) q(2)])
  show d: "q div K0 = p div K0"
    using less lo by (intro div_nat_eqI) (simp_all add: hi_def mult.commute)
  have "q = q div K0 * K0 + q mod K0" by simp
  then show "q mod K0 \<noteq> 0" using lo d by simp
qed

lemma scan_expansions_spec:
  fixes hash :: "'k \<Rightarrow> 64 word" and d :: "('k, 'v) dict"
  assumes t: "t = dict_ht d table" "ht_ok hash t" and e0: "0 \<le> e0" "e0 \<le> ht_size_exp t"
  defines "K0 \<equiv> 2 ^ (64 - nat e0)" and "K1 \<equiv> 2 ^ (64 - nat (ht_size_exp t))"
  shows "(scan_pos v div K0 + 1) * K0 \<le> (scan_pos v div K1 + fuel) * K1 \<Longrightarrow> 0 < fuel \<Longrightarrow>
    \<exists>es v'. scan_expansions d table (DICTHT_SIZE_MASK e0) (DICTHT_SIZE_MASK (ht_size_exp t)) fuel v = Ok (es, v')
      \<and> mset es = entries_between hash t (scan_pos v div K1 * K1) ((scan_pos v div K0 + 1) * K0)
      \<and> scan_pos v' = (scan_pos v div K0 + 1) * K0 mod 2 ^ 64"
proof (induction fuel arbitrary: v)
  case (Suc fuel)
  let ?e = "ht_size_exp t" and ?p = "scan_pos v"
  define q where "q = (?p div K1 + 1) * K1"
  define hi where "hi = (?p div K0 + 1) * K0"
  define v1 where "v1 = scan_next (DICTHT_SIZE_MASK ?e) v"
  have e: "0 \<le> ?e" "?e \<le> 63" using t(2) by (simp_all add: ht_ok_def)
  have "K1 dvd K0" using e0 by (simp add: K0_def K1_def le_imp_power_dvd)
  note nm = next_multiple [OF this, of ?p, folded q_def hi_def]
  have K: "0 < K1" "0 < K0" by (simp_all add: K0_def K1_def)
  note nm = nm [OF K]
  have hi64: "hi \<le> 2 ^ 64"
  proof -
    have "K0 dvd 2 ^ 64" unfolding K0_def by (rule le_imp_power_dvd) simp
    then obtain c where c: "2 ^ 64 = c * K0" by (metis dvd_div_mult_self)
    have "?p div K0 < c" using scan_pos_less [of v] c by (metis K(2) div_less_iff_less_mult)
    then show ?thesis unfolding c hi_def by (intro mult_le_mono1) simp
  qed
  have idx: "unat (v AND DICTHT_SIZE_MASK ?e) = dict_idx v ?e" by (simp add: dict_idx_def)
  have bucket: "dictScanDefragBucket d table (unat (v AND DICTHT_SIZE_MASK ?e)) = Ok (ht_table t ! dict_idx v ?e)"
    using ht_ok_idx_less [OF t(2)] by (simp add: dictScanDefragBucket_def idx t(1) [symmetric])
  have ms: "mset (ht_table t ! dict_idx v ?e) = entries_between hash t (?p div K1 * K1) q"
    unfolding q_def K1_def by (rule bucket_between [OF t(2)])
  have p1: "scan_pos v1 = q mod 2 ^ 64" unfolding v1_def q_def K1_def by (rule scan_pos_next [OF e])
  have more: "v1 AND (DICTHT_SIZE_MASK e0 XOR DICTHT_SIZE_MASK ?e) \<noteq> 0 \<longleftrightarrow> scan_pos v1 mod K0 div K1 \<noteq> 0"
    unfolding K0_def K1_def by (rule scan_more [OF e0 e(2)])
  show ?case
  proof (cases "q = hi")
    case True
    have "K0 dvd q" by (simp add: True hi_def)
    moreover have "K0 dvd 2 ^ 64" unfolding K0_def by (rule le_imp_power_dvd) simp
    ultimately have "scan_pos v1 mod K0 = 0" unfolding p1 by (simp add: dvd_mod_iff)
    then have "v1 AND (DICTHT_SIZE_MASK e0 XOR DICTHT_SIZE_MASK ?e) = 0" using more by simp
    then show ?thesis unfolding hi_def [symmetric] using bucket ms p1
      by (simp add: Let_def v1_def [symmetric] True)
  next
    case False
    then have less: "q < hi" using nm(1) by simp
    then have p1: "scan_pos v1 = q" using p1 hi64 by simp
    have "K1 dvd q mod K0" using \<open>K1 dvd K0\<close> nm(3) by (simp add: dvd_mod mod_0_imp_dvd)
    then have "q mod K0 div K1 \<noteq> 0" using nm(5) [OF less] by (metis dvd_div_mult_self mult_zero_left)
    then have more1: "v1 AND (DICTHT_SIZE_MASK e0 XOR DICTHT_SIZE_MASK ?e) \<noteq> 0" using more p1 by simp
    have d: "(scan_pos v1 div K0 + 1) * K0 = hi" "scan_pos v1 div K1 * K1 = q" "scan_pos v1 div K1 = ?p div K1 + 1"
      using nm(4) [OF less] K(1) unfolding p1 by (simp_all add: hi_def q_def)
    have "(?p div K0 + 1) * K0 \<le> (?p div K1 + Suc fuel) * K1" by (rule Suc.prems(1))
    then have f: "hi \<le> (scan_pos v1 div K1 + fuel) * K1" unfolding d(3) by (simp add: hi_def)
    have "0 < fuel" using f less d(3) by (cases fuel) (simp_all add: q_def)
    then obtain es v' where r: "scan_expansions d table (DICTHT_SIZE_MASK e0) (DICTHT_SIZE_MASK ?e) fuel v1 = Ok (es, v')"
      "mset es = entries_between hash t q hi" "scan_pos v' = hi mod 2 ^ 64"
      using Suc.IH [of v1, unfolded d(1,2), OF f] by blast
    have "mset (ht_table t ! dict_idx v ?e @ es) = entries_between hash t (?p div K1 * K1) hi"
    proof -
      have "?p div K1 * K1 \<le> q" "q \<le> hi" using less by (simp_all add: q_def)
      then show ?thesis using entries_between_split [of "?p div K1 * K1" q hi hash t] ms r(2) by simp
    qed
    then show ?thesis unfolding hi_def [symmetric] using bucket more1 r
      by (simp add: Let_def v1_def [symmetric])
  qed
qed simp

text \<open>The smaller and the larger of the tables in use.\<close>

definition scan_small :: "('k, 'v) dict \<Rightarrow> ('k, 'v) dictht" where
  "scan_small d = (if dictIsRehashing d \<and> ht_size_exp (ht0 d) > ht_size_exp (ht1 d) then ht1 d else ht0 d)"

definition scan_large :: "('k, 'v) dict \<Rightarrow> ('k, 'v) dictht" where
  "scan_large d = (if dictIsRehashing d \<and> ht_size_exp (ht0 d) > ht_size_exp (ht1 d) then ht0 d else ht1 d)"

text \<open>How far one call moves the reversed cursor.\<close>

definition scan_width :: "('k, 'v) dict \<Rightarrow> nat" where
  "scan_width d = 2 ^ (64 - nat (ht_size_exp (scan_small d)))"

definition scan_end :: "('k, 'v) dict \<Rightarrow> 64 word \<Rightarrow> nat" where
  "scan_end d v = (scan_pos v div scan_width d + 1) * scan_width d"

lemma scan_entries:
  "mset (dict_entries d) = mset (concat (ht_table (scan_small d))) + mset (concat (ht_table (scan_large d)))"
  by (simp add: scan_small_def scan_large_def dict_entries_def)

lemma dictPause_Resume: "dictResumeRehashing (dictPauseRehashing d) = d"
  by (simp add: dictPauseRehashing_def dictResumeRehashing_def)

lemma dictScan_idle:
  assumes ok: "dict_ok hash d" "dictSize d \<noteq> 0" "\<not> dictIsRehashing d"
  shows "\<exists>es v'. dictScan d v = Ok (d, es, v')
    \<and> mset es = entries_between hash (scan_small d) (scan_pos v div scan_width d * scan_width d) (scan_end d v)
    \<and> scan_pos v' = scan_end d v mod 2 ^ 64"
proof -
  have alloc: "dict_allocated d" using ok dictSize_entries [OF ok(1)] dict_nonempty_allocated [OF ok(1)] by auto
  have t: "ht_ok hash (ht0 d)" using dict_ht_ok [OF ok(1) alloc, of 0] by (simp add: dict_ht_def)
  have e: "0 \<le> ht_size_exp (ht0 d)" "ht_size_exp (ht0 d) \<le> 63" using t by (simp_all add: ht_ok_def)
  have small: "scan_small d = ht0 d" using ok(3) by (simp add: scan_small_def)
  have "dictScan d v = Ok (d, ht_table (ht0 d) ! dict_idx v (ht_size_exp (ht0 d)), scan_next (DICTHT_SIZE_MASK (ht_size_exp (ht0 d))) v)"
    using ok(2,3) ht_ok_idx_less [OF t, of v]
    by (simp add: dictScan_def dictScanDefrag_def Let_def dictScanDefragBucket_def dict_ht_def dictPause_Resume dict_idx_def [symmetric]
        dictIsRehashing_def)
      (simp add: dictPauseRehashing_def dictResumeRehashing_def dict_idx_def)
  then show ?thesis using bucket_between [OF t, of v] scan_pos_next [OF e, of v]
    by (simp add: small scan_width_def scan_end_def)
qed

lemma dictScan_rehashing:
  assumes ok: "dict_ok hash d" "dictSize d \<noteq> 0" "dictIsRehashing d"
  shows "\<exists>es v' K. dictScan d v = Ok (d, es, v') \<and> 0 < K \<and> K dvd scan_width d
    \<and> mset es = entries_between hash (scan_small d) (scan_pos v div scan_width d * scan_width d) (scan_end d v)
        + entries_between hash (scan_large d) (scan_pos v div K * K) (scan_end d v)
    \<and> scan_pos v' = scan_end d v mod 2 ^ 64"
proof -
  note r = dict_ok_rehashing [OF ok(1), THEN iffD1, OF ok(3)]
  define a where "a = (if ht_size_exp (ht0 d) > ht_size_exp (ht1 d) then 1 else 0 :: nat)"
  define b where "b = (if ht_size_exp (ht0 d) > ht_size_exp (ht1 d) then 0 else 1 :: nat)"
  let ?p = "dictPauseRehashing d"
  have ht: "dict_ht ?p a = scan_small d" "dict_ht ?p b = scan_large d" "dictIsRehashing ?p"
    using ok(3) by (simp_all add: dictPauseRehashing_def dict_ht_def a_def b_def scan_small_def scan_large_def dictIsRehashing_def)
  have oks: "ht_ok hash (scan_small d)" "ht_ok hash (scan_large d)" "ht_size_exp (scan_small d) \<le> ht_size_exp (scan_large d)"
    using r ok(3) by (simp_all add: scan_small_def scan_large_def)
  let ?e0 = "ht_size_exp (scan_small d)" and ?e1 = "ht_size_exp (scan_large d)"
  have e: "0 \<le> ?e0" "?e0 \<le> 63" "0 \<le> ?e1" "?e1 \<le> 63" using oks by (simp_all add: ht_ok_def)
  have sizes: "DICTHT_SIZE (ht_size_exp (ht0 d)) > DICTHT_SIZE (ht_size_exp (ht1 d)) \<longleftrightarrow> ht_size_exp (ht0 d) > ht_size_exp (ht1 d)"
    using r by (simp add: ht_ok_def DICTHT_SIZE_def)
  have eq: "dictScan d v =
      bind_outcome (dictScanDefragBucket ?p a (unat (v AND DICTHT_SIZE_MASK ?e0))) (\<lambda>es.
      bind_outcome (scan_expansions ?p b (DICTHT_SIZE_MASK ?e0) (DICTHT_SIZE_MASK ?e1) (DICTHT_SIZE ?e1) v) (\<lambda>(es', v).
      Ok (dictResumeRehashing ?p, es @ es', v)))"
  proof -
    have "ht0 ?p = ht0 d" "ht1 ?p = ht1 d" by (simp_all add: dictPauseRehashing_def)
    then show ?thesis unfolding dictScan_def dictScanDefrag_def Let_def
      using ok(2) ht by (cases "ht_size_exp (ht0 d) > ht_size_exp (ht1 d)") (simp_all add: sizes a_def b_def)
  qed
  have idx: "unat (v AND DICTHT_SIZE_MASK ?e0) = dict_idx v ?e0" by (simp add: dict_idx_def)
  have small: "dictScanDefragBucket ?p a (unat (v AND DICTHT_SIZE_MASK ?e0)) = Ok (ht_table (scan_small d) ! dict_idx v ?e0)"
    using ht_ok_idx_less [OF oks(1)] by (simp add: dictScanDefragBucket_def idx ht)
  let ?K1 = "2 ^ (64 - nat ?e1) :: nat"
  have fuel: "scan_end d v \<le> (scan_pos v div ?K1 + DICTHT_SIZE ?e1) * ?K1"
  proof -
    have "scan_end d v \<le> scan_pos v + scan_width d" by (simp add: scan_end_def)
    moreover have "scan_width d * 4 \<le> 2 ^ 64"
    proof -
      have "2 \<le> ?e0" using oks(1) by (simp add: ht_ok_def)
      then have "2 \<le> nat ?e0" by linarith
      then have "(2 :: nat) ^ (64 - nat ?e0) \<le> 2 ^ 62" by (intro power_increasing) auto
      then show ?thesis by (simp add: scan_width_def)
    qed
    moreover have "DICTHT_SIZE ?e1 * ?K1 = 2 ^ 64"
      using e by (simp add: DICTHT_SIZE_def power_add [symmetric])
    moreover have "scan_pos v < (scan_pos v div ?K1 + 1) * ?K1" by (simp add: dividend_less_div_times)
    moreover have "?K1 * 4 \<le> 2 ^ 64"
    proof -
      have "2 \<le> ?e1" using oks(2) by (simp add: ht_ok_def)
      then have "2 \<le> nat ?e1" by linarith
      then have "?K1 \<le> 2 ^ 62" by (intro power_increasing) auto
      then show ?thesis by simp
    qed
    ultimately show ?thesis unfolding add_mult_distrib by linarith
  qed
  have "0 < DICTHT_SIZE ?e1" using e by (simp add: DICTHT_SIZE_def)
  then obtain es v' where s: "scan_expansions ?p b (DICTHT_SIZE_MASK ?e0) (DICTHT_SIZE_MASK ?e1) (DICTHT_SIZE ?e1) v = Ok (es, v')"
    "mset es = entries_between hash (scan_large d) (scan_pos v div ?K1 * ?K1) (scan_end d v)"
    "scan_pos v' = scan_end d v mod 2 ^ 64"
    using scan_expansions_spec [OF ht(2) [symmetric] oks(2) e(1) oks(3), of v "DICTHT_SIZE ?e1"] fuel
    unfolding scan_end_def scan_width_def by blast
  have "?K1 dvd scan_width d" using oks(3) by (simp add: scan_width_def le_imp_power_dvd)
  moreover have "0 < ?K1" by simp
  moreover have "mset (ht_table (scan_small d) ! dict_idx v ?e0) =
      entries_between hash (scan_small d) (scan_pos v div scan_width d * scan_width d) (scan_end d v)"
    unfolding scan_width_def scan_end_def by (rule bucket_between [OF oks(1)])
  ultimately show ?thesis using eq small s
    by (intro exI [of _ "ht_table (scan_small d) ! dict_idx v ?e0 @ es"] exI [of _ v'] exI [of _ ?K1])
      (simp add: dictPause_Resume)
qed

section \<open>A whole scan\<close>

text \<open>Calls of \<open>dictScan\<close> on the states the dict is in at each call: all that they emit, and the last
  cursor.\<close>

fun scan_run :: "('k, 'v) dict list \<Rightarrow> 64 word \<Rightarrow> (('k \<times> 'v) list \<times> 64 word) outcome" where
  "scan_run [] v = Ok ([], v)"
| "scan_run (d # ds) v =
     bind_outcome (dictScan d v) (\<lambda>(d', es, v).
     bind_outcome (scan_run ds v) (\<lambda>(es', v). Ok (es @ es', v)))"

text \<open>The caller's loop on a dict that does not change: until the cursor is 0 again, with fuel.\<close>

fun scan_all :: "('k, 'v) dict \<Rightarrow> nat \<Rightarrow> 64 word \<Rightarrow> ('k \<times> 'v) list outcome" where
  "scan_all d 0 v = Abort"
| "scan_all d (Suc fuel) v =
     bind_outcome (dictScan d v) (\<lambda>(d, es, v).
     if v = 0 then Ok es else bind_outcome (scan_all d fuel v) (\<lambda>es'. Ok (es @ es')))"

lemma entries_between_subset: "set_mset (entries_between hash t lo hi) \<subseteq> set (concat (ht_table t))"
  unfolding entries_between_def by auto

lemma rev_bits_0: "rev_bits 0 = 0"
  by (rule bit_word_eqI) (simp add: bit_rev_bits)

lemma scan_pos_0: "scan_pos 0 = 0"
  by (simp add: scan_pos_def rev_bits_0)

lemma scan_pos_eq_0: "scan_pos v = 0 \<longleftrightarrow> v = 0"
proof
  assume "scan_pos v = 0"
  then have "rev_bits v = 0" by (simp add: scan_pos_def unat_eq_0)
  then show "v = 0" by (metis rev_bits_0 rev_bits_rev)
qed (simp add: scan_pos_0)

lemma dictScan_spec:
  assumes ok: "dict_ok hash d" "dictSize d \<noteq> 0"
  shows "\<exists>es v' K. dictScan d v = Ok (d, es, v') \<and> 0 < K \<and> K dvd scan_width d
    \<and> mset es = entries_between hash (scan_small d) (scan_pos v div scan_width d * scan_width d) (scan_end d v)
        + entries_between hash (scan_large d) (scan_pos v div K * K) (scan_end d v)
    \<and> scan_pos v' = scan_end d v mod 2 ^ 64"
proof (cases "dictIsRehashing d")
  case True
  then show ?thesis by (rule dictScan_rehashing [OF ok])
next
  case False
  have "scan_large d = dictReset" using dict_ok_idle [OF ok(1) False] False by (simp add: scan_large_def)
  then have "entries_between hash (scan_large d) lo hi = {#}" for lo hi by (simp add: entries_between_def)
  then show ?thesis using dictScan_idle [OF ok False, of v]
    by (metis add.right_neutral dvd_refl scan_width_def zero_less_power zero_less_numeral)
qed

lemma dictScan_progress:
  assumes ok: "dict_ok hash d"
  shows "\<exists>es v'. dictScan d v = Ok (d, es, v') \<and> set es \<subseteq> set (dict_entries d)
    \<and> (\<forall>k. dict_map d k \<noteq> None \<and> scan_pos v \<le> scan_pos (hash k) \<longrightarrow>
          k \<in> fst ` set es \<or> v' \<noteq> 0 \<and> scan_pos v' \<le> scan_pos (hash k))"
proof (cases "dictSize d = 0")
  case True
  then have "dict_entries d = []" using dictSize_entries [OF ok] by simp
  then show ?thesis using True by (simp add: dictScan_def dictScanDefrag_def dict_map_def)
next
  case False
  obtain es v' K where s: "dictScan d v = Ok (d, es, v')" "0 < K"
    "mset es = entries_between hash (scan_small d) (scan_pos v div scan_width d * scan_width d) (scan_end d v)
        + entries_between hash (scan_large d) (scan_pos v div K * K) (scan_end d v)"
    "scan_pos v' = scan_end d v mod 2 ^ 64"
    using dictScan_spec [OF ok False] by blast
  have all: "set (dict_entries d) = set (concat (ht_table (scan_small d))) \<union> set (concat (ht_table (scan_large d)))"
    using arg_cong [OF scan_entries [of d], of set_mset] by simp
  have es: "set es = set_mset (entries_between hash (scan_small d) (scan_pos v div scan_width d * scan_width d) (scan_end d v))
      \<union> set_mset (entries_between hash (scan_large d) (scan_pos v div K * K) (scan_end d v))"
    using arg_cong [OF s(3), of set_mset] by simp
  have "set es \<subseteq> set (dict_entries d)" unfolding es all using entries_between_subset by blast
  moreover have "k \<in> fst ` set es \<or> v' \<noteq> 0 \<and> scan_pos v' \<le> scan_pos (hash k)"
    if k: "dict_map d k \<noteq> None" "scan_pos v \<le> scan_pos (hash k)" for k
  proof (cases "scan_pos (hash k) < scan_end d v")
    case True
    obtain w where "(k, w) \<in> set (dict_entries d)" using k(1) by (auto simp: dict_map_def dest: map_of_SomeD)
    moreover have "scan_pos v div scan_width d * scan_width d \<le> scan_pos (hash k)" "scan_pos v div K * K \<le> scan_pos (hash k)"
      using k(2) div_times_less_eq_dividend le_trans by blast+
    ultimately have "(k, w) \<in> set es" unfolding es all entries_between_def using True by auto
    then show ?thesis by force
  next
    case False
    have "scan_end d v < 2 ^ 64" using False scan_pos_less [of "hash k"] by simp
    then have "scan_pos v' = scan_end d v" using s(4) by simp
    moreover have "0 < scan_end d v" by (simp add: scan_end_def scan_width_def)
    ultimately show ?thesis using False scan_pos_0 by (metis less_numeral_extra(3) not_less)
  qed
  ultimately show ?thesis using s(1) by blast
qed

lemma scan_run_progress:
  "\<forall>d \<in> set ds. dict_ok hash d \<Longrightarrow>
   \<exists>es v'. scan_run ds v = Ok (es, v') \<and> set es \<subseteq> (\<Union>d \<in> set ds. set (dict_entries d))
    \<and> (\<forall>k. ds \<noteq> [] \<and> (\<forall>d \<in> set ds. dict_map d k \<noteq> None) \<and> scan_pos v \<le> scan_pos (hash k) \<longrightarrow>
          k \<in> fst ` set es \<or> v' \<noteq> 0 \<and> scan_pos v' \<le> scan_pos (hash k))"
proof (induction ds arbitrary: v)
  case (Cons d ds)
  obtain es v1 where s: "dictScan d v = Ok (d, es, v1)" "set es \<subseteq> set (dict_entries d)"
    "\<forall>k. dict_map d k \<noteq> None \<and> scan_pos v \<le> scan_pos (hash k) \<longrightarrow>
          k \<in> fst ` set es \<or> v1 \<noteq> 0 \<and> scan_pos v1 \<le> scan_pos (hash k)"
    using dictScan_progress [of hash d v] Cons.prems by auto
  obtain es' v2 where t: "scan_run ds v1 = Ok (es', v2)" "set es' \<subseteq> (\<Union>d \<in> set ds. set (dict_entries d))"
    "\<forall>k. ds \<noteq> [] \<and> (\<forall>d \<in> set ds. dict_map d k \<noteq> None) \<and> scan_pos v1 \<le> scan_pos (hash k) \<longrightarrow>
          k \<in> fst ` set es' \<or> v2 \<noteq> 0 \<and> scan_pos v2 \<le> scan_pos (hash k)"
    using Cons.IH [of v1] Cons.prems by auto
  have "k \<in> fst ` set (es @ es') \<or> v2 \<noteq> 0 \<and> scan_pos v2 \<le> scan_pos (hash k)"
    if "\<forall>d \<in> set (d # ds). dict_map d k \<noteq> None" "scan_pos v \<le> scan_pos (hash k)" for k
  proof (cases ds)
    case Nil
    then have "v2 = v1" "es' = []" using t(1) by auto
    then show ?thesis using s(3) that by auto
  next
    case (Cons x xs)
    then show ?thesis using s(3) t(3) that by auto
  qed
  then show ?case using s(1,2) t(1,2) by auto
qed simp

lemma scan_all_spec:
  assumes ok: "dict_ok hash d" "dictSize d \<noteq> 0"
  defines "n \<equiv> DICTHT_SIZE (ht_size_exp (scan_small d))"
  shows "j < n \<Longrightarrow> n \<le> j + fuel \<Longrightarrow> scan_pos v = j * scan_width d \<Longrightarrow>
    \<exists>es. scan_all d fuel v = Ok es
      \<and> mset es = entries_between hash (scan_small d) (j * scan_width d) (2 ^ 64) + entries_between hash (scan_large d) (j * scan_width d) (2 ^ 64)"
proof (induction fuel arbitrary: j v)
  case (Suc fuel)
  let ?W = "scan_width d"
  have W: "0 < ?W" by (simp add: scan_width_def)
  have alloc: "dict_allocated d" using ok dictSize_entries [OF ok(1)] dict_nonempty_allocated [OF ok(1)] by auto
  have "ht_ok hash (scan_small d)"
  proof (cases "dictIsRehashing d")
    case True
    then show ?thesis using dict_ok_rehashing [OF ok(1)] by (simp add: scan_small_def)
  next
    case False
    then show ?thesis using dict_ht_ok [OF ok(1) alloc, of 0] by (simp add: scan_small_def dict_ht_def)
  qed
  then have "0 \<le> ht_size_exp (scan_small d)" "ht_size_exp (scan_small d) \<le> 62" by (simp_all add: ht_ok_def)
  then have nW: "n * ?W = 2 ^ 64" by (simp add: n_def scan_width_def DICTHT_SIZE_def power_add [symmetric])
  obtain es v' K where s: "dictScan d v = Ok (d, es, v')" "0 < K" "K dvd ?W"
    "mset es = entries_between hash (scan_small d) (scan_pos v div ?W * ?W) (scan_end d v)
        + entries_between hash (scan_large d) (scan_pos v div K * K) (scan_end d v)"
    "scan_pos v' = scan_end d v mod 2 ^ 64"
    using dictScan_spec [OF ok] by blast
  have lo: "scan_pos v div ?W * ?W = j * ?W" "scan_pos v div K * K = j * ?W" and hi: "scan_end d v = Suc j * ?W"
    using W s(2,3) Suc.prems(3) by (simp_all add: scan_end_def dvd_div_mult_self)
  show ?case
  proof (cases "Suc j = n")
    case True
    then have "scan_pos v' = 0" using s(5) nW hi by simp
    then have "v' = 0" by (simp add: scan_pos_eq_0)
    then show ?thesis using s(1,4) lo hi True nW by simp
  next
    case False
    then have j: "Suc j < n" using Suc.prems(1) by simp
    then have "Suc j * ?W < 2 ^ 64" using W nW by (metis mult_less_cancel2)
    then have p: "scan_pos v' = Suc j * ?W" using s(5) hi by simp
    moreover have "0 < Suc j * ?W" using W by simp
    ultimately have "v' \<noteq> 0" using scan_pos_0 by (metis less_numeral_extra(3))
    moreover obtain es' where r: "scan_all d fuel v' = Ok es'"
      "mset es' = entries_between hash (scan_small d) (Suc j * ?W) (2 ^ 64) + entries_between hash (scan_large d) (Suc j * ?W) (2 ^ 64)"
      using Suc.IH [OF j _ p] Suc.prems(2) by auto
    moreover have "mset (es @ es') = entries_between hash (scan_small d) (j * ?W) (2 ^ 64) + entries_between hash (scan_large d) (j * ?W) (2 ^ 64)"
    proof -
      have split: "entries_between hash t (j * ?W) (2 ^ 64) = entries_between hash t (j * ?W) (Suc j * ?W) + entries_between hash t (Suc j * ?W) (2 ^ 64)" for t
        using \<open>Suc j * ?W < 2 ^ 64\<close> by (intro entries_between_split) simp_all
      show ?thesis unfolding mset_append s(4) r(2) lo hi split [of "scan_small d"] split [of "scan_large d"] by (simp only: add_ac)
    qed
    ultimately show ?thesis using s(1) by simp
  qed
qed simp

end
