(* ===== verification/Dict_Theorems.thy ===== *)
theory Dict_Theorems
  imports Dict_Scan
begin

text \<open>
  What \<open>dict.c\<close> promises: a dict is a finite map whatever rehashing and resizing goes on, incremental
  rehashing ends, a scan misses no key that stays in the dict, and clearing frees every entry once.
\<close>

text \<open>A dict in the middle of rehashing from 4 to 8 buckets, with keys that hash to themselves.\<close>

definition rehashing_example :: "(64 word, nat) dict" where
  "rehashing_example =
     \<lparr>ht0 = \<lparr>ht_table = [[], [], [(6, 60), (2, 20)], [(7, 70)]], ht_used = 3, ht_size_exp = 2\<rparr>,
      ht1 = \<lparr>ht_table = [[], [(9, 90)], [], [], [], [(5, 50)], [], []], ht_used = 2, ht_size_exp = 3\<rparr>,
      rehashidx = 2, pauserehash = 0, pauseAutoResize = 0\<rparr>"

lemma all_less_numeral: "(\<forall>i < numeral n. P i) \<longleftrightarrow> (\<forall>i < pred_numeral n. P i) \<and> P (pred_numeral n)"
  unfolding numeral_eq_Suc by (auto simp: less_Suc_eq)

lemma rehashing_example_ok: "dict_ok (\<lambda>k. k) rehashing_example" "dictIsRehashing rehashing_example"
  by (simp_all add: dict_ok_def rehashing_example_def ht_ok_def dict_entries_def dict_idx_mod all_less_numeral
      less_Suc_eq dictIsRehashing_def)

lemma not_refused_example: "\<not> rehash_refused DICT_RESIZE_ENABLE rehashing_example"
  using rehashing_example_ok(2) by (simp add: rehash_refused_def)

lemma refused_forbid: "rehash_refused DICT_RESIZE_FORBID d"
  by (simp add: rehash_refused_def)

lemma dict_ok_paused: "dict_ok hash (dictPauseAutoResize d) = dict_ok hash d"
  by (simp add: dict_ok_def dictPauseAutoResize_def dict_entries_def)

text \<open>Property C6: A dict behaves as a finite map. Starting from \<open>dictCreate\<close>, for every sequence of
  \<open>dictAdd\<close>, \<open>dictReplace\<close>, \<open>dictDelete\<close> and \<open>dictFetchValue\<close> calls, with any incremental rehashing,
  expansion or shrinking between them and any value of \<open>dict_can_resize\<close> at each step, no call fails an
  assertion or leaves a table, the tables stay well formed, and the answers and the final contents are
  those of the map.\<close>

theorem dict_run_refines_map:
  "\<exists>d rs. map_run (dict_step ty) dictCreate cs = Ok (d, rs) \<and> dict_ok (hashFunction ty) d
     \<and> map_spec_run (map snd cs) Map.empty = (dict_map d, rs)"
  using dictm.run_start [OF dict_inv_start, of ty cs] unfolding dict_inv_def by blast

text \<open>Property C28: A call of \<open>dictRehash\<close> keeps the well-formedness and the contents of the dict, whatever the resize
  policy. It is refused when no rehashing is under way, when \<open>dict_can_resize\<close> forbids it, or when it is to be
  avoided and the sizes of the tables are too close; then it returns 0 and changes nothing, also while
  buckets remain to be moved. Otherwise it returns 1 exactly when buckets remain, and a call for at least
  one bucket that returns 1 has moved the index forward.\<close>

theorem dictRehash_keeps_contents:
  assumes "dict_ok hash d"
  shows "\<exists>d' again. dictRehash rz hash d n = Ok (d', again) \<and> dict_ok hash d' \<and> dict_map d' = dict_map d
    \<and> (if rehash_refused rz d then \<not> again \<and> d' = d else again = dictIsRehashing d')
    \<and> (again \<and> 0 < n \<longrightarrow> rehashidx d < rehashidx d')"
proof -
  obtain d' again where d': "dictRehash rz hash d n = Ok (d', again)" "dict_ok hash d'" "dict_same d d'"
    "\<not> rehash_refused rz d \<longrightarrow> again = dictIsRehashing d'"
    using dictRehash_ok [OF assms, of rz n] by blast
  have "\<not> again \<and> d' = d" if "rehash_refused rz d" using d'(1) that by (simp add: dictRehash_def)
  moreover have "rehashidx d < rehashidx d'" if "again" "0 < n"
  proof -
    have "dictIsRehashing d" using that(1) calculation by (auto simp: rehash_refused_def Let_def)
    then have "0 \<le> rehashidx d" using dict_ok_rehashing [OF assms] by blast
    then show ?thesis using dictRehash_progress [of rz hash d n d'] d'(1) that by simp
  qed
  ultimately show ?thesis using d' dict_same_map [OF assms d'(3)] by auto
qed

theorem dictRehash_keeps_contents_witness:
  "(\<exists>d' again. dictRehash DICT_RESIZE_ENABLE (\<lambda>k. k) rehashing_example 1 = Ok (d', again) \<and> dict_ok (\<lambda>k. k) d'
      \<and> dict_map d' = dict_map rehashing_example \<and> again = dictIsRehashing d')
    \<and> dictRehash DICT_RESIZE_FORBID (\<lambda>k. k) rehashing_example 1 = Ok (rehashing_example, False)"
proof
  show "\<exists>d' again. dictRehash DICT_RESIZE_ENABLE (\<lambda>k. k) rehashing_example 1 = Ok (d', again) \<and> dict_ok (\<lambda>k. k) d'
      \<and> dict_map d' = dict_map rehashing_example \<and> again = dictIsRehashing d'"
    using dictRehash_keeps_contents [OF rehashing_example_ok(1), of DICT_RESIZE_ENABLE 1, unfolded if_not_P [OF not_refused_example]] by blast
  show "dictRehash DICT_RESIZE_FORBID (\<lambda>k. k) rehashing_example 1 = Ok (rehashing_example, False)"
    using dictRehash_keeps_contents [OF rehashing_example_ok(1), of DICT_RESIZE_FORBID 1, unfolded if_P [OF refused_forbid]] by (elim exE conjE) simp
qed

text \<open>Property C29: The loop that \<open>_dictResize\<close> runs for a type with \<open>force_full_rehash\<close> returns on every well-formed dict
  and keeps the contents. The rehashing is finished afterwards, unless the policy refuses it: then the loop
  stops at once, the dict is as it was, and the rehashing stays under way.\<close>

theorem full_rehash_ends:
  assumes "dict_ok hash d"
  shows "\<exists>d'. full_rehash rz hash d = Ok d' \<and> dict_ok hash d' \<and> dict_map d' = dict_map d
    \<and> (if rehash_refused rz d then d' = d else \<not> dictIsRehashing d')"
proof (cases "rehash_refused rz d")
  case True
  then show ?thesis using assms full_rehash_refused [OF True] by auto
next
  case False
  then have "dictIsRehashing d" by (auto simp: rehash_refused_def Let_def)
  then obtain d' where d': "full_rehash rz hash d = Ok d'" "dict_ok hash d'" "dict_same d d'"
    using full_rehash_ok [OF assms] by blast
  show ?thesis unfolding if_not_P [OF False]
    using d' full_rehash_completes [OF assms False d'(1)] dict_same_map [OF assms d'(3)] by blast
qed

theorem full_rehash_ends_witness:
  "(\<exists>d'. full_rehash DICT_RESIZE_ENABLE (\<lambda>k. k) rehashing_example = Ok d' \<and> dict_ok (\<lambda>k. k) d'
      \<and> dict_map d' = dict_map rehashing_example \<and> \<not> dictIsRehashing d')
    \<and> full_rehash DICT_RESIZE_FORBID (\<lambda>k. k) rehashing_example = Ok rehashing_example"
proof
  show "\<exists>d'. full_rehash DICT_RESIZE_ENABLE (\<lambda>k. k) rehashing_example = Ok d' \<and> dict_ok (\<lambda>k. k) d'
      \<and> dict_map d' = dict_map rehashing_example \<and> \<not> dictIsRehashing d'"
    using full_rehash_ends [OF rehashing_example_ok(1), of DICT_RESIZE_ENABLE, unfolded if_not_P [OF not_refused_example]] by blast
  show "full_rehash DICT_RESIZE_FORBID (\<lambda>k. k) rehashing_example = Ok rehashing_example"
    using full_rehash_ends [OF rehashing_example_ok(1), of DICT_RESIZE_FORBID, unfolded if_P [OF refused_forbid]] by (elim exE conjE) simp
qed

text \<open>Property C10: A scan misses nothing. Whatever happens to the dict between the calls (it may be
  expanded, shrunk, rehashed, emptied and filled), a scan that starts at cursor 0 and ends with cursor 0
  emits every key that is in the dict at each of the calls, and only entries the dict holds.\<close>

theorem dictScan_complete:
  assumes "\<forall>d \<in> set ds. dict_ok hash d" "ds \<noteq> []"
  shows "\<exists>es v. scan_run ds 0 = Ok (es, v) \<and> set es \<subseteq> (\<Union>d \<in> set ds. set (dict_entries d))
    \<and> (v = 0 \<longrightarrow> (\<forall>k. (\<forall>d \<in> set ds. dict_map d k \<noteq> None) \<longrightarrow> k \<in> fst ` set es))"
  using scan_run_progress [OF assms(1), of 0] assms(2) by (auto simp: scan_pos_0)

theorem dictScan_complete_witness:
  "\<exists>es v. scan_run [dictCreate, rehashing_example] 0 = Ok (es, v)
    \<and> set es \<subseteq> (\<Union>d \<in> set [dictCreate, rehashing_example]. set (dict_entries d))
    \<and> (v = 0 \<longrightarrow> (\<forall>k. (\<forall>d \<in> set [dictCreate, rehashing_example]. dict_map d k \<noteq> None) \<longrightarrow> k \<in> fst ` set es))"
  by (rule dictScan_complete [of _ "\<lambda>k. k"]) (simp_all add: dictCreate_ok rehashing_example_ok)

text \<open>Property C11: A scan of a dict that does not change ends after at most as many calls as the smaller
  table has buckets, and emits each entry exactly once, also in the middle of rehashing.\<close>

theorem dictScan_once:
  assumes "dict_ok hash d" "dictSize d \<noteq> 0" "DICTHT_SIZE (ht_size_exp (scan_small d)) \<le> fuel"
  shows "\<exists>es. scan_all d fuel 0 = Ok es \<and> mset es = mset (dict_entries d)"
proof -
  have "0 < DICTHT_SIZE (ht_size_exp (scan_small d))"
  proof -
    have "dict_allocated d"
      using dictSize_entries [OF assms(1)] dict_nonempty_allocated [OF assms(1)] assms(2) by auto
    then have "ht_size_exp (scan_small d) \<noteq> - 1"
      using assms(1) by (auto simp: scan_small_def dict_ok_def ht_ok_def dict_allocated_def dictIsRehashing_def split: if_splits)
    then show ?thesis by (simp add: DICTHT_SIZE_def)
  qed
  then obtain es where "scan_all d fuel 0 = Ok es"
    "mset es = entries_between hash (scan_small d) (0 * scan_width d) (2 ^ 64)
      + entries_between hash (scan_large d) (0 * scan_width d) (2 ^ 64)"
    using scan_all_spec [OF assms(1,2), of 0 fuel 0] assms(3) scan_pos_0 by auto
  then show ?thesis by (simp only: mult_0 entries_between_all scan_entries) blast
qed

theorem dictScan_once_witness:
  "\<exists>es. scan_all rehashing_example 4 0 = Ok es \<and> mset es = mset (dict_entries rehashing_example)"
  by (rule dictScan_once [OF rehashing_example_ok(1)])
    (simp_all add: rehashing_example_def dictSize_def scan_small_def DICTHT_SIZE_def)

text \<open>\<open>dictEmpty\<close> frees every entry of both tables exactly once and leaves the dict as
  \<open>dictCreate\<close> makes it.\<close>

theorem dictEmpty_frees_all:
  assumes "dict_ok hash d"
  shows "dictEmpty d = (dictCreate, dict_entries d)"
  by (rule dictEmpty_ok [OF assms])

theorem dictEmpty_frees_all_witness:
  "dictEmpty rehashing_example = (dictCreate, dict_entries rehashing_example)"
  by (rule dictEmpty_frees_all [OF rehashing_example_ok(1)])

text \<open>The two-phase removal finds the entry of the key without changing the contents, and
  its second phase takes out exactly that key; rehashing is paused only in between.\<close>

theorem dictTwoPhaseUnlink_removes:
  assumes "dict_ok (hashFunction ty) d"
  shows "\<exists>d1 pl d2. dictTwoPhaseUnlinkFind ty rz d key = Ok (d1, pl) \<and> dict_ok (hashFunction ty) d1
    \<and> map_option (dict_entry d1) pl = map_option (Pair key) (dict_map d key) \<and> dict_map d1 = dict_map d
    \<and> dictTwoPhaseUnlinkFree ty rz d1 pl = Ok d2 \<and> dict_ok (hashFunction ty) d2 \<and> pauserehash d2 = pauserehash d
    \<and> dict_map d2 = (dict_map d)(key := None)"
  using dictTwoPhaseUnlink_ok [OF assms, of rz key] unfolding same_pauses_def by blast

theorem dictTwoPhaseUnlink_removes_witness:
  "\<exists>d1 pl d2. dictTwoPhaseUnlinkFind \<lparr>hashFunction = (\<lambda>k. k), resizeAllowed = None, force_full_rehash = False\<rparr>
       DICT_RESIZE_ENABLE rehashing_example 2 = Ok (d1, pl) \<and> dict_ok (\<lambda>k. k) d1
    \<and> map_option (dict_entry d1) pl = map_option (Pair 2) (dict_map rehashing_example 2) \<and> dict_map d1 = dict_map rehashing_example
    \<and> dictTwoPhaseUnlinkFree \<lparr>hashFunction = (\<lambda>k. k), resizeAllowed = None, force_full_rehash = False\<rparr>
       DICT_RESIZE_ENABLE d1 pl = Ok d2 \<and> dict_ok (\<lambda>k. k) d2 \<and> pauserehash d2 = pauserehash rehashing_example
    \<and> dict_map d2 = (dict_map rehashing_example)(2 := None)"
  using dictTwoPhaseUnlink_removes [of "\<lparr>hashFunction = (\<lambda>k. k), resizeAllowed = None, force_full_rehash = False\<rparr>"
      rehashing_example DICT_RESIZE_ENABLE 2] rehashing_example_ok(1) by simp

text \<open>A dict whose first table is not allocated has no entries and is not rehashing, and the lookup for an
  insertion fails in it when the expansion that would allocate the table is paused.\<close>

lemma dictAdd_unallocated:
  assumes ok: "dict_ok (hashFunction ty) d" and none: "\<not> dict_allocated d" and paused: "0 < pauseAutoResize d"
  shows "dictAdd ty rz d key val v0 = Abort"
proof -
  have idle: "\<not> dictIsRehashing d" using dict_allocated_rehashing [OF ok] none by blast
  have "table_find d h key 0 = Abort" for h
    using none by (simp add: table_find_def dict_ht_def dict_allocated_def get_bucket_def)
  moreover have "\<not> int i < rehashidx d" for i using idle by (simp add: dictIsRehashing_def)
  ultimately have "tables_find d h key i = Abort" for h i by (simp add: tables_find_def)
  then show ?thesis using idle paused
    by (simp add: dictAdd_def dictAddRaw_def dictFindLinkForInsert_def dictRehashStepIfNeeded_def dictExpandIfNeeded_auto_def Let_def)
qed

text \<open>Property C33: \<open>dictAdd\<close> on every well-formed dict, in the middle of rehashing or not, with automatic resizing
  paused or not, under every resize policy: it adds a new key with its value and leaves a present one as it
  is, with one exception. On a dict whose first table was never allocated, while automatic resizing is
  paused, it runs into the missing table: \<open>dictFindLinkForInsert\<close> skips the expansion that would allocate
  the table, and reads a bucket of a null table.\<close>

theorem dictAdd_complete:
  assumes "dict_ok (hashFunction ty) d"
  shows "if ht_table (ht0 d) = [] \<and> 0 < pauseAutoResize d then dictAdd ty rz d key val v0 = Abort
    else \<exists>d'. dictAdd ty rz d key val v0 = Ok (d', dict_map d key = None) \<and> dict_ok (hashFunction ty) d'
      \<and> dict_map d' = (if dict_map d key = None then (dict_map d)(key \<mapsto> val) else dict_map d)"
proof (cases "ht_table (ht0 d) = [] \<and> 0 < pauseAutoResize d")
  case True
  then show ?thesis using dictAdd_unallocated [OF assms] by (simp add: dict_allocated_def)
next
  case False
  then have "dict_ready d" by (auto simp: dict_ready_def dict_allocated_def)
  then show ?thesis using dictAdd_ok [OF assms, of rz key val v0] False by (simp only: if_False) blast
qed

theorem dictAdd_complete_witness:
  "(\<exists>d'. dictAdd \<lparr>hashFunction = (\<lambda>k. k), resizeAllowed = None, force_full_rehash = False\<rparr> DICT_RESIZE_ENABLE
       (dictPauseAutoResize rehashing_example) 2 99 0 = Ok (d', False)
      \<and> dict_map d' = dict_map (dictPauseAutoResize rehashing_example))
    \<and> dictAdd \<lparr>hashFunction = (\<lambda>k. k), resizeAllowed = None, force_full_rehash = False\<rparr> DICT_RESIZE_ENABLE
       (dictPauseAutoResize dictCreate) (2 :: 64 word) (99 :: nat) 0 = Abort"
proof -
  let ?ty = "\<lparr>hashFunction = (\<lambda>k :: 64 word. k), resizeAllowed = None, force_full_rehash = False\<rparr>"
  have ok: "dict_ok (hashFunction ?ty) (dictPauseAutoResize rehashing_example)"
    "dict_ok (hashFunction ?ty) (dictPauseAutoResize (dictCreate :: (64 word, nat) dict))"
    unfolding dict_ok_paused using rehashing_example_ok(1) dictCreate_ok(1) by simp_all
  have in2: "dict_map (dictPauseAutoResize rehashing_example) 2 = Some 20"
    by (simp add: dict_map_def dict_entries_def dictPauseAutoResize_def rehashing_example_def)
  have t: "ht_table (ht0 (dictPauseAutoResize rehashing_example)) \<noteq> []"
    "ht_table (ht0 (dictPauseAutoResize (dictCreate :: (64 word, nat) dict))) = []"
    "0 < pauseAutoResize (dictPauseAutoResize (dictCreate :: (64 word, nat) dict))"
    by (simp_all add: dictPauseAutoResize_def rehashing_example_def dictCreate_def dictInit_def dictReset_def)
  have "\<exists>d'. dictAdd ?ty DICT_RESIZE_ENABLE (dictPauseAutoResize rehashing_example) 2 99 0 = Ok (d', False)
      \<and> dict_map d' = dict_map (dictPauseAutoResize rehashing_example)"
    using dictAdd_complete [OF ok(1), of DICT_RESIZE_ENABLE 2 99 0] in2 t(1) by auto
  moreover have "dictAdd ?ty DICT_RESIZE_ENABLE (dictPauseAutoResize dictCreate) 2 (99 :: nat) 0 = Abort"
    using dictAdd_complete [OF ok(2), of DICT_RESIZE_ENABLE 2 99 0] t(2,3) by simp
  ultimately show ?thesis by blast
qed

end
