(* ===== verification/Glob.thy ===== *)
theory Glob
  imports Prelude
begin

text \<open>
  Glob-style patterns: \<open>stringmatchlen_impl\<close>, \<open>stringmatchlen\<close> and \<open>prefixmatch\<close> of \<open>util.c\<close>. A pattern and
  a string are lists of bytes, read as signed characters; a position is the rest of the list. The byte
  after a pattern is the terminating 0 of the strings the callers pass, so it is never a star.
\<close>

section \<open>The code\<close>

text \<open>\<open>tolower\<close> in the C locale, on the value of a signed \<open>char\<close>.\<close>

definition c_tolower :: "int \<Rightarrow> int" where
  "c_tolower c = (if 65 \<le> c \<and> c \<le> 90 then c + 32 else c)"

definition chars_equal :: "bool \<Rightarrow> byte \<Rightarrow> byte \<Rightarrow> bool" where
  "chars_equal nocase a b = (if \<not> nocase then a = b else c_tolower (sint a) = c_tolower (sint b))"

definition range_matches :: "bool \<Rightarrow> byte \<Rightarrow> byte \<Rightarrow> byte \<Rightarrow> bool" where
  "range_matches nocase a b x =
     (let start = sint a; stop = sint b; c = sint x;
          (start, stop) = (if start > stop then (stop, start) else (start, stop));
          (start, stop, c) = (if nocase then (c_tolower start, c_tolower stop, c_tolower c) else (start, stop, c))
      in c \<ge> start \<and> c \<le> stop)"

text \<open>The loop over the members of a class, from the position after \<open>[\<close> or \<open>[^\<close>: whether the
  character is one of them, and the position after the class.\<close>

function class_loop :: "bool \<Rightarrow> byte \<Rightarrow> bytes \<Rightarrow> bool \<Rightarrow> bool \<times> bytes" where
  "class_loop nocase x p matched =
     (if length p \<ge> 2 \<and> p ! 0 = 92 then class_loop nocase x (drop 2 p) (matched \<or> p ! 1 = x)
      else if length p = 0 then (matched, [])
      else if p ! 0 = 93 then (matched, drop 1 p)
      else if length p \<ge> 3 \<and> p ! 1 = 45
      then class_loop nocase x (drop 3 p) (matched \<or> range_matches nocase (p ! 0) (p ! 2) x)
      else class_loop nocase x (drop 1 p) (matched \<or> chars_equal nocase (p ! 0) x))"
  by pat_completeness auto

termination class_loop
  by (relation "measure (\<lambda>(nocase, x, p, m). length p)") auto

declare class_loop.simps [simp del]

definition class_matches :: "bool \<Rightarrow> byte \<Rightarrow> bytes \<Rightarrow> bool \<times> bytes" where
  "class_matches nocase x p =
     (let neg = (p \<noteq> [] \<and> p ! 0 = 94);
          (matched, rest) = class_loop nocase x (if neg then drop 1 p else p) False
      in (if neg then \<not> matched else matched, rest))"

text \<open>The loop over consecutive stars, at a star.\<close>

fun skip_stars :: "bytes \<Rightarrow> bytes" where
  "skip_stars (c # d # p) = (if d = 42 then skip_stars (d # p) else c # d # p)"
| "skip_stars p = p"

lemma class_loop_length: "length (snd (class_loop nocase x p matched)) \<le> length p"
proof (induction nocase x p matched rule: class_loop.induct)
  case (1 nocase x p matched)
  then show ?case by (subst class_loop.simps) (auto split: if_splits)
qed

lemma class_matches_length: "class_matches nocase x p = (m, rest) \<Longrightarrow> length rest \<le> length p"
  using class_loop_length [of nocase x "if p \<noteq> [] \<and> p ! 0 = 94 then drop 1 p else p" False]
  by (auto simp: class_matches_def Let_def split: if_splits prod.splits)

lemma skip_stars_length: "length (skip_stars p) \<le> length p"
  by (induction p rule: skip_stars.induct) auto

text \<open>
  \<open>stringmatchlen_impl\<close>: the result and the flag \<open>*skipLongerMatches\<close>. \<open>glob_loop\<close> is its \<open>while\<close> loop,
  \<open>glob_next\<close> the end of a round, with the pattern after its last element, and \<open>star_loop\<close> the loop over
  the suffixes of the string for the pattern after a star.
\<close>

function glob_impl :: "bool \<Rightarrow> bytes \<Rightarrow> bytes \<Rightarrow> bool \<Rightarrow> nat \<Rightarrow> bool \<times> bool"
  and glob_loop :: "bool \<Rightarrow> bytes \<Rightarrow> bytes \<Rightarrow> bool \<Rightarrow> nat \<Rightarrow> bool \<times> bool"
  and glob_next :: "bool \<Rightarrow> bytes \<Rightarrow> bytes \<Rightarrow> bool \<Rightarrow> nat \<Rightarrow> bool \<times> bool"
  and star_loop :: "bool \<Rightarrow> bytes \<Rightarrow> bytes \<Rightarrow> bool \<Rightarrow> nat \<Rightarrow> bool \<times> bool" where
  "glob_impl nocase p s skip nesting =
     (if nesting > 1000 then (False, skip) else glob_loop nocase p s skip nesting)"
| "glob_loop nocase p s skip nesting =
     (if p = [] \<or> s = [] then (p = [] \<and> s = [], skip)
      else if hd p = 42 then
        let p = skip_stars p in
        if length p = 1 then (True, skip) else star_loop nocase (drop 1 p) s skip nesting
      else if hd p = 63 then glob_next nocase (drop 1 p) (drop 1 s) skip nesting
      else if hd p = 91 then
        (case class_matches nocase (hd s) (drop 1 p) of
           (matched, rest) \<Rightarrow> if \<not> matched then (False, skip) else glob_next nocase rest (drop 1 s) skip nesting)
      else
        let p = (if hd p = 92 \<and> length p \<ge> 2 then drop 1 p else p) in
        if \<not> chars_equal nocase (hd p) (hd s) then (False, skip)
        else glob_next nocase (drop 1 p) (drop 1 s) skip nesting)"
| "glob_next nocase p s skip nesting =
     (if s = [] then (dropWhile (\<lambda>c. c = 42) p = [], skip) else glob_loop nocase p s skip nesting)"
| "star_loop nocase p s skip nesting =
     (if s = [] then (False, True)
      else
        case glob_impl nocase p s skip (nesting + 1) of
          (matched, skip) \<Rightarrow>
            if matched then (True, skip)
            else if skip then (False, skip)
            else star_loop nocase p (drop 1 s) skip nesting)"
  by pat_completeness auto

termination
proof (relation "inv_image (less_than <*lex*> less_than <*lex*> less_than)
    (\<lambda>x. case x of
       Inl (Inl (nocase, p, s, skip, nesting)) \<Rightarrow> (length p, length s, 2)
     | Inl (Inr (nocase, p, s, skip, nesting)) \<Rightarrow> (length p, length s, 0 :: nat)
     | Inr (Inl (nocase, p, s, skip, nesting)) \<Rightarrow> (length p, length s, 1)
     | Inr (Inr (nocase, p, s, skip, nesting)) \<Rightarrow> (length p, length s, 3))", goal_cases)
  case 1
  show ?case by (simp add: wf_inv_image wf_lex_prod)
next
  case (3 nocase p s skip nesting q)
  then show ?case using skip_stars_length [of p] by (cases p) auto
next
  case (5 nocase p s skip nesting matched rest)
  then show ?case using class_matches_length [of nocase "hd s" "drop 1 p" matched rest] by (cases p) auto
qed (auto simp: le_eq_less_or_eq)

declare glob_impl.simps [simp del] glob_loop.simps [simp del] glob_next.simps [simp del] star_loop.simps [simp del]

definition stringmatchlen :: "bytes \<Rightarrow> bytes \<Rightarrow> bool \<Rightarrow> bool" where
  "stringmatchlen p s nocase = fst (glob_impl nocase p s False 0)"

text \<open>\<open>prefixmatch\<close>: the pattern matches the prefix and ends in a star with an even number of
  backslashes before it.\<close>

definition prefixmatch :: "bytes \<Rightarrow> bytes \<Rightarrow> bool \<Rightarrow> bool" where
  "prefixmatch p s nocase =
     (if \<not> fst (glob_impl nocase p s False 0) then False
      else if p = [] \<or> last p \<noteq> 42 then False
      else even (length (takeWhile (\<lambda>c. c = 92) (rev (butlast p)))))"

end
