(* ===== verification/Glob_Match.thy ===== *)
theory Glob_Match
  imports Glob
begin

text \<open>
  What a pattern means, as a list of tokens each of which is a star or one character, and the matcher
  against it: the early exit through \<open>skipLongerMatches\<close> and the merging of stars change no answer.
\<close>

section \<open>Patterns as tokens\<close>

datatype class_item = Escaped byte | Range byte byte | Single byte

primrec item_matches :: "bool \<Rightarrow> class_item \<Rightarrow> byte \<Rightarrow> bool" where
  "item_matches nocase (Escaped a) x \<longleftrightarrow> a = x"
| "item_matches nocase (Range a b) x \<longleftrightarrow> range_matches nocase a b x"
| "item_matches nocase (Single a) x \<longleftrightarrow> chars_equal nocase a x"

function class_items :: "bytes \<Rightarrow> class_item list \<times> bytes" where
  "class_items p =
     (if length p \<ge> 2 \<and> p ! 0 = 92 then case class_items (drop 2 p) of (members, rest) \<Rightarrow> (Escaped (p ! 1) # members, rest)
      else if length p = 0 then ([], [])
      else if p ! 0 = 93 then ([], drop 1 p)
      else if length p \<ge> 3 \<and> p ! 1 = 45
      then case class_items (drop 3 p) of (members, rest) \<Rightarrow> (Range (p ! 0) (p ! 2) # members, rest)
      else case class_items (drop 1 p) of (members, rest) \<Rightarrow> (Single (p ! 0) # members, rest))"
  by pat_completeness auto

termination class_items
  by (relation "measure length") auto

declare class_items.simps [simp del]

lemma class_loop_items:
  "class_loop nocase x p matched =
     (matched \<or> (\<exists>i \<in> set (fst (class_items p)). item_matches nocase i x), snd (class_items p))"
proof (induction nocase x p matched rule: class_loop.induct)
  case (1 nocase x p matched)
  then show ?case
    by (subst class_loop.simps, subst (1 2) class_items.simps) (auto split: prod.split)
qed

datatype glob_token = Star | One "byte \<Rightarrow> bool"

text \<open>The class whose text starts after \<open>[\<close>, and the rest of the pattern.\<close>

definition glob_class :: "bool \<Rightarrow> bytes \<Rightarrow> glob_token \<times> bytes" where
  "glob_class nocase p =
     (let neg = (p \<noteq> [] \<and> p ! 0 = 94);
          (members, rest) = class_items (if neg then drop 1 p else p)
      in (One (\<lambda>x. (\<exists>i \<in> set members. item_matches nocase i x) \<noteq> neg), rest))"

lemma class_matches_token:
  "class_matches nocase x p = (m, rest) \<Longrightarrow> \<exists>f. glob_class nocase p = (One f, rest) \<and> f x = m"
  by (auto simp: class_matches_def glob_class_def class_loop_items Let_def split: prod.splits if_splits)

lemma glob_class_length: "length (snd (glob_class nocase p)) \<le> length p"
  using class_loop_length [of nocase x "if p \<noteq> [] \<and> p ! 0 = 94 then drop 1 p else p" False for x]
  by (auto simp: class_loop_items glob_class_def Let_def split: prod.split if_splits)

function glob_tokens :: "bool \<Rightarrow> bytes \<Rightarrow> glob_token list" where
  "glob_tokens nocase p =
     (if p = [] then []
      else if hd p = 42 then Star # glob_tokens nocase (drop 1 p)
      else if hd p = 63 then One (\<lambda>x. True) # glob_tokens nocase (drop 1 p)
      else if hd p = 91 then case glob_class nocase (drop 1 p) of (t, rest) \<Rightarrow> t # glob_tokens nocase rest
      else
        let p = (if hd p = 92 \<and> length p \<ge> 2 then drop 1 p else p)
        in One (chars_equal nocase (hd p)) # glob_tokens nocase (drop 1 p))"
  by pat_completeness auto

termination glob_tokens
proof (relation "measure (\<lambda>(nocase, p). length p)", goal_cases)
  case (4 nocase p t rest)
  then show ?case using glob_class_length [of nocase "drop 1 p"] by (cases p) (auto dest: arg_cong [of _ _ snd])
qed (auto simp: Suc_le_eq)

declare glob_tokens.simps [simp del]

text \<open>The strings a list of tokens describes.\<close>

fun glob_match :: "glob_token list \<Rightarrow> bytes \<Rightarrow> bool" where
  "glob_match [] s \<longleftrightarrow> s = []"
| "glob_match (One f # ts) [] \<longleftrightarrow> False"
| "glob_match (One f # ts) (x # s) \<longleftrightarrow> f x \<and> glob_match ts s"
| "glob_match (Star # ts) [] \<longleftrightarrow> glob_match ts []"
| "glob_match (Star # ts) (x # s) \<longleftrightarrow> glob_match ts (x # s) \<or> glob_match (Star # ts) s"

lemma glob_match_Star: "glob_match (Star # ts) s \<longleftrightarrow> (\<exists>k. glob_match ts (drop k s))"
proof (induction s)
  case (Cons x s)
  have "(\<exists>k. glob_match ts (drop k (x # s))) \<longleftrightarrow> glob_match ts (x # s) \<or> (\<exists>k. glob_match ts (drop k s))"
    by (metis drop0 drop_Suc_Cons not0_implies_Suc)
  then show ?case using Cons by simp
qed simp

lemma glob_match_One: "glob_match (One f # ts) s \<longleftrightarrow> s \<noteq> [] \<and> f (hd s) \<and> glob_match ts (drop 1 s)"
  by (cases s) auto

definition stars :: "glob_token list \<Rightarrow> nat" where
  "stars ts = length (filter (\<lambda>t. t = Star) ts)"

lemma stars_simps [simp]: "stars [] = 0" "stars (Star # ts) = Suc (stars ts)" "stars (One f # ts) = stars ts"
  by (simp_all add: stars_def)

section \<open>The matcher\<close>

lemma skip_stars_spec:
  "p \<noteq> [] \<Longrightarrow> hd p = 42 \<Longrightarrow>
   \<exists>q. skip_stars p = 42 # q \<and> (q = [] \<or> hd q \<noteq> 42) \<and> Suc (stars (glob_tokens nocase q)) \<le> stars (glob_tokens nocase p)
     \<and> (\<forall>s. glob_match (glob_tokens nocase p) s = glob_match (Star # glob_tokens nocase q) s)"
proof (induction p rule: skip_stars.induct)
  case (1 c d p)
  then have c: "c = 42" by simp
  have t: "glob_tokens nocase (42 # d # p) = Star # glob_tokens nocase (d # p)" by (subst glob_tokens.simps) simp
  show ?case
  proof (cases "d = 42")
    case True
    obtain q where q: "skip_stars (42 # p) = 42 # q" "q = [] \<or> hd q \<noteq> 42"
      "Suc (stars (glob_tokens nocase q)) \<le> stars (glob_tokens nocase (42 # p))"
      "\<forall>s. glob_match (glob_tokens nocase (42 # p)) s = glob_match (Star # glob_tokens nocase q) s"
      using 1 True by auto
    have "glob_match (Star # glob_tokens nocase (42 # p)) s = glob_match (Star # glob_tokens nocase q) s" for s
      unfolding glob_match_Star [of "glob_tokens nocase (42 # p)"] q(4) [rule_format]
      by (simp add: glob_match_Star) (metis add.commute drop0 add_0)
    then show ?thesis using q True c t by auto
  next
    case False
    then show ?thesis using c t by auto
  qed
next
  case "2_2"
  have "glob_tokens nocase [42] = [Star]" by (subst glob_tokens.simps) (simp add: glob_tokens.simps)
  moreover have "glob_tokens nocase [] = []" by (subst glob_tokens.simps) simp
  ultimately show ?case using "2_2" by auto
qed simp

lemma glob_match_empty: "glob_match (glob_tokens nocase p) [] \<longleftrightarrow> dropWhile (\<lambda>c. c = 42) p = []"
proof (induction nocase p rule: glob_tokens.induct)
  case (1 nocase p)
  then show ?case
    by (subst glob_tokens.simps, cases p) (auto simp: glob_class_def Let_def split: prod.split)
qed

definition glob_result :: "glob_token list \<Rightarrow> bytes \<Rightarrow> bool \<times> bool \<Rightarrow> bool" where
  "glob_result ts s r \<longleftrightarrow> fst r = glob_match ts s \<and> (snd r \<longrightarrow> (\<forall>k. \<not> glob_match ts (drop k s)))"

lemma glob_result_One:
  "s \<noteq> [] \<Longrightarrow> f (hd s) \<Longrightarrow> glob_result ts (drop 1 s) r \<Longrightarrow> glob_result (One f # ts) s r"
  by (auto simp: glob_result_def glob_match_One drop_Suc add.commute)

lemma glob_result_One_no: "\<not> f (hd s) \<Longrightarrow> glob_result (One f # ts) s (False, False)"
  by (auto simp: glob_result_def glob_match_One)

lemma glob_tokens_first:
  "p \<noteq> [] \<Longrightarrow> hd p \<noteq> 42 \<Longrightarrow> \<exists>f ts. glob_tokens nocase p = One f # ts"
  by (subst glob_tokens.simps) (auto simp: glob_class_def Let_def split: prod.split)

lemma matcher_correct:
  "s \<noteq> [] \<Longrightarrow> \<not> skip \<Longrightarrow> nesting + stars (glob_tokens nocase p) \<le> 1000 \<Longrightarrow>
     glob_result (glob_tokens nocase p) s (glob_impl nocase p s skip nesting)"
  "s \<noteq> [] \<Longrightarrow> \<not> skip \<Longrightarrow> nesting + stars (glob_tokens nocase p) \<le> 1000 \<Longrightarrow>
     glob_result (glob_tokens nocase p) s (glob_loop nocase p s skip nesting)"
  "\<not> skip \<Longrightarrow> nesting + stars (glob_tokens nocase p) \<le> 1000 \<Longrightarrow>
     glob_result (glob_tokens nocase p) s (glob_next nocase p s skip nesting)"
  "p \<noteq> [] \<Longrightarrow> hd p \<noteq> 42 \<Longrightarrow> \<not> skip \<Longrightarrow> nesting + 1 + stars (glob_tokens nocase p) \<le> 1000 \<Longrightarrow>
     glob_result (Star # glob_tokens nocase p) s (star_loop nocase p s skip nesting)"
proof (induction nocase p s skip nesting and nocase p s skip nesting and nocase p s skip nesting and nocase p s skip nesting
    rule: glob_impl_glob_loop_glob_next_star_loop.induct)
  case (1 nocase p s skip nesting)
  then show ?case by (subst glob_impl.simps) simp
next
  case (3 nocase p s skip nesting)
  show ?case
  proof (cases "s = []")
    case True
    then show ?thesis using 3(2) by (subst glob_next.simps) (simp add: glob_result_def glob_match_empty)
  next
    case False
    then show ?thesis using 3 by (subst glob_next.simps) simp
  qed
next
  case (4 nocase p s skip nesting)
  obtain f ts where ts: "glob_tokens nocase p = One f # ts" using glob_tokens_first [OF 4(3,4)] by blast
  show ?case
  proof (cases "s = []")
    case True
    then show ?thesis by (subst star_loop.simps) (simp add: glob_result_def ts)
  next
    case False
    obtain m k where r: "glob_impl nocase p s skip (nesting + 1) = (m, k)" by fastforce
    have i: "glob_result (glob_tokens nocase p) s (m, k)" using 4(1) 4(5,6) False r by simp
    consider "m" | "\<not> m" "k" | "\<not> m" "\<not> k" by blast
    then show ?thesis
    proof cases
      case 1
      then show ?thesis using i False r 4(5)
        by (subst star_loop.simps) (auto simp: glob_result_def glob_match_Star intro: exI [of _ 0])
    next
      case 2
      then show ?thesis using i False r
        by (subst star_loop.simps) (auto simp: glob_result_def glob_match_Star)
    next
      case 3
      have rest: "glob_result (Star # glob_tokens nocase p) (drop 1 s) (star_loop nocase p (drop 1 s) k nesting)"
        using 4(2) [OF False r [symmetric]] 3 4(3-6) by simp
      obtain x t where s: "s = x # t" using False by (cases s) auto
      have "\<not> glob_match (glob_tokens nocase p) s" using i 3 by (simp add: glob_result_def)
      then have "glob_match (Star # glob_tokens nocase p) s = glob_match (Star # glob_tokens nocase p) t"
        unfolding s by simp
      moreover have "\<not> glob_match (Star # glob_tokens nocase p) (drop j s)"
        if "\<forall>k. \<not> glob_match (Star # glob_tokens nocase p) (drop k t)" for j
      proof (cases j)
        case 0
        then show ?thesis using that [rule_format, of 0] calculation by (simp add: s)
      next
        case (Suc i)
        then show ?thesis using that by (simp add: s)
      qed
      ultimately show ?thesis using rest False r 3
        by (subst star_loop.simps) (auto simp: glob_result_def s)
    qed
  qed
next
  case (2 nocase p s skip nesting)
  note IH = 2(1-4) and pre = 2(5-7)
  have t0: "glob_tokens nocase [] = []" by (subst glob_tokens.simps) simp
  show ?case
  proof (cases "p = []")
    case True
    then show ?thesis using 2(5,6) by (subst glob_loop.simps) (auto simp: t0 glob_result_def)
  next
    case False
    note ne = False
    consider "hd p = 42" | "hd p = 63" | "hd p = 91" | "hd p \<noteq> 42" "hd p \<noteq> 63" "hd p \<noteq> 91" by blast
    then show ?thesis
    proof cases
      case 1
      obtain q where q: "skip_stars p = 42 # q" "q = [] \<or> hd q \<noteq> 42"
        "Suc (stars (glob_tokens nocase q)) \<le> stars (glob_tokens nocase p)"
        "\<forall>s. glob_match (glob_tokens nocase p) s = glob_match (Star # glob_tokens nocase q) s"
        using skip_stars_spec [OF ne 1] by blast
      have res: "glob_result (glob_tokens nocase p) s r = glob_result (Star # glob_tokens nocase q) s r" for r
        by (simp only: glob_result_def q(4) [rule_format])
      show ?thesis
      proof (cases "q = []")
        case True
        have "glob_match [] (drop (length s) s)" by simp
        then have "glob_match [Star] s" unfolding glob_match_Star by blast
        then show ?thesis using ne 1 2(5,6) q(1) True unfolding res
          by (subst glob_loop.simps) (simp add: glob_result_def t0)
      next
        case False
        have "glob_result (Star # glob_tokens nocase q) s (star_loop nocase q s skip nesting)"
          using 2(1) [of "42 # q"] ne 2(5-7) 1 q False by simp
        then show ?thesis using ne 1 2(5,6) q(1) False unfolding res
          by (subst glob_loop.simps) simp
      qed
    next
      case 2
      have t: "glob_tokens nocase p = One (\<lambda>x. True) # glob_tokens nocase (drop 1 p)"
        using ne 2 by (subst glob_tokens.simps) simp
      have "glob_result (glob_tokens nocase (drop 1 p)) (drop 1 s) (glob_next nocase (drop 1 p) (drop 1 s) skip nesting)"
        using IH(2) ne 2 pre t by simp
      then show ?thesis using ne 2 pre unfolding t
        by (subst glob_loop.simps) (simp add: glob_result_One)
    next
      case 3
      obtain m rest where m: "class_matches nocase (hd s) (drop 1 p) = (m, rest)" by fastforce
      obtain f where f: "glob_class nocase (drop 1 p) = (One f, rest)" "f (hd s) = m"
        using class_matches_token [OF m] by blast
      have t: "glob_tokens nocase p = One f # glob_tokens nocase rest"
        using ne 3 f by (subst glob_tokens.simps) simp
      show ?thesis
      proof (cases m)
        case True
        have "glob_result (glob_tokens nocase rest) (drop 1 s) (glob_next nocase rest (drop 1 s) skip nesting)"
          using IH(3) [of m rest] ne 3 pre t m True by simp
        then show ?thesis using ne 3 pre m f True unfolding t
          by (subst glob_loop.simps) (simp add: glob_result_One)
      next
        case False
        then show ?thesis using ne 3 pre m f unfolding t
          by (subst glob_loop.simps) (simp add: glob_result_One_no)
      qed
    next
      case 4
      define q where "q = (if hd p = 92 \<and> length p \<ge> 2 then drop 1 p else p)"
      have t: "glob_tokens nocase p = One (chars_equal nocase (hd q)) # glob_tokens nocase (drop 1 q)"
        unfolding q_def using ne 4 by (subst glob_tokens.simps) (simp add: Let_def)
      have eq: "glob_loop nocase p s skip nesting =
          (if \<not> chars_equal nocase (hd q) (hd s) then (False, skip) else glob_next nocase (drop 1 q) (drop 1 s) skip nesting)"
        unfolding q_def using ne 4 pre by (subst glob_loop.simps) (simp add: Let_def)
      show ?thesis
      proof (cases "chars_equal nocase (hd q) (hd s)")
        case True
        have "glob_result (glob_tokens nocase (drop 1 q)) (drop 1 s) (glob_next nocase (drop 1 q) (drop 1 s) skip nesting)"
          using IH(4) [OF _ _ _ _ q_def] ne 4 pre t True by simp
        then show ?thesis using True pre unfolding t eq by (simp add: glob_result_One)
      next
        case False
        then show ?thesis using pre unfolding t eq by (simp add: glob_result_One_no)
      qed
    qed
  qed
qed

section \<open>Properties\<close>

lemma glob_tokens_Nil: "glob_tokens nocase p = [] \<longleftrightarrow> p = []"
  by (subst glob_tokens.simps) (auto simp: Let_def split: prod.split)

text \<open>Property C37: With at most 1000 stars, \<open>stringmatchlen\<close> decides the language of the pattern for every
  non-empty string: the early exit through \<open>skipLongerMatches\<close> and the merging of stars lose no match.
  The empty string is matched by the empty pattern only, not by a pattern of stars.\<close>

theorem stringmatchlen_iff:
  assumes "stars (glob_tokens nocase p) \<le> 1000"
  shows "stringmatchlen p s nocase \<longleftrightarrow> (if s = [] then p = [] else glob_match (glob_tokens nocase p) s)"
proof (cases "s = []")
  case True
  then show ?thesis by (simp add: stringmatchlen_def glob_impl.simps glob_loop.simps [of _ _ "[]"])
next
  case False
  then show ?thesis using matcher_correct(1) [of s False 0 nocase p] assms
    by (simp add: stringmatchlen_def glob_result_def)
qed

theorem stringmatchlen_iff_witness:
  "stringmatchlen [42, 97, 42, 98] [97, 97, 98] False \<longleftrightarrow>
     (if ([97, 97, 98] :: bytes) = [] then ([42, 97, 42, 98] :: bytes) = []
      else glob_match (glob_tokens False [42, 97, 42, 98]) [97, 97, 98])"
  by (rule stringmatchlen_iff) (simp add: glob_tokens.simps)

lemma glob_match_extend:
  "ts \<noteq> [] \<Longrightarrow> last ts = Star \<Longrightarrow> glob_match ts s \<Longrightarrow> glob_match ts (s @ t)"
proof (induction ts s rule: glob_match.induct)
  case (4 ts)
  have "glob_match (Star # ts) t"
  proof (cases "ts = []")
    case True
    have "glob_match [] (drop (length t) t)" by simp
    then show ?thesis unfolding True glob_match_Star by blast
  next
    case False
    then have "glob_match ts t" using 4 by simp
    then show ?thesis unfolding glob_match_Star by (metis drop0)
  qed
  then show ?case by simp
next
  case (5 ts x s)
  show ?case
  proof (cases "ts = []")
    case True
    have "glob_match [] (drop (length (x # s @ t)) (x # s @ t))" by simp
    then show ?thesis unfolding True glob_match_Star by (metis append_Cons)
  next
    case False
    then show ?thesis using 5 by auto
  qed
qed (auto split: if_splits)

text \<open>A pattern that ends in a star, read as a pattern, and that \<open>prefixmatch\<close> accepts for a
  prefix matches every extension of the prefix.\<close>

theorem prefixmatch_extends:
  assumes "prefixmatch p s nocase" "stars (glob_tokens nocase p) \<le> 1000" "last (glob_tokens nocase p) = Star"
  shows "stringmatchlen p (s @ t) nocase"
proof -
  have m: "stringmatchlen p s nocase" "p \<noteq> []"
    using assms(1) by (auto simp: prefixmatch_def stringmatchlen_def split: if_splits)
  then have "s \<noteq> []" "glob_match (glob_tokens nocase p) s" using stringmatchlen_iff [OF assms(2)] by (auto split: if_splits)
  then show ?thesis
    using glob_match_extend [OF _ assms(3)] m(2) glob_tokens_Nil stringmatchlen_iff [OF assms(2)] by auto
qed

theorem prefixmatch_extends_witness:
  "stringmatchlen [97, 42] ([97] @ [98]) False"
  by (rule prefixmatch_extends) code_simp+

text \<open>\<open>prefixmatch\<close> looks for an unescaped star at the end of the pattern's text only, so it
  also accepts a star that belongs to a class that is never closed: \<open>[a*\<close> is accepted for the prefix \<open>a\<close>
  although it does not match \<open>ab\<close>.\<close>

theorem prefixmatch_open_class:
  "prefixmatch [91, 97, 42] [97] False \<and> \<not> stringmatchlen [91, 97, 42] ([97] @ [98]) False"
  by code_simp

end
