(* ===== verification/Lzf.thy ===== *)
theory Lzf
  imports Prelude
begin

text \<open>
  The LZF compressor of \<open>lzf_c.c\<close> and the decompressor of \<open>lzf_d.c\<close>, as Redis configures them
  (\<open>VERY_FAST\<close>, \<open>HLOG\<close> 16, the hash table not initialised, \<open>CHECK_INPUT\<close>). Positions are offsets in the
  input and the output. A slot of the hash table holds a pointer, as its offset from the start of the
  input; before it is written it may hold anything. \<open>Abort\<close> is an access outside a buffer, \<open>None\<close> the
  return of 0.
\<close>

section \<open>Compression\<close>

definition MAX_LIT :: nat where "MAX_LIT = 32"
definition MAX_OFF :: int where "MAX_OFF = 8192"
definition MAX_REF :: nat where "MAX_REF = 264"

record lzf_state =
  lz_ip :: nat
  lz_op :: nat
  lz_lit :: nat
  lz_hval :: "32 word"
  lz_out :: bytes
  lz_htab :: "nat \<Rightarrow> int"

definition load :: "bytes \<Rightarrow> nat \<Rightarrow> byte outcome" where
  "load d i = c_assert (i < length d) (Ok (d ! i))"

definition store :: "bytes \<Rightarrow> nat \<Rightarrow> byte \<Rightarrow> bytes outcome" where
  "store d i b = c_assert (i < length d) (Ok (d[i := b]))"

definition FRST :: "bytes \<Rightarrow> nat \<Rightarrow> 32 word outcome" where
  "FRST d p = bind_outcome (load d p) (\<lambda>a. bind_outcome (load d (p + 1)) (\<lambda>b. Ok (push_bit 8 (ucast a) OR ucast b)))"

definition NEXT :: "32 word \<Rightarrow> bytes \<Rightarrow> nat \<Rightarrow> 32 word outcome" where
  "NEXT v d p = bind_outcome (load d (p + 2)) (\<lambda>c. Ok (push_bit 8 v OR ucast c))"

definition IDX :: "32 word \<Rightarrow> nat" where
  "IDX h = unat ((drop_bit 8 h - h * 5) AND 65535)"

text \<open>The end of a run of literals, \<open>op [- lit - 1] = lit - 1\<close>.\<close>

definition stop_run :: "bytes \<Rightarrow> nat \<Rightarrow> nat \<Rightarrow> bytes outcome" where
  "stop_run out op lit = c_assert (lit + 1 \<le> op) (store out (op - lit - 1) (word_of_int (int lit - 1)))"

text \<open>The length of a match: \<open>n\<close> more of the 16 comparisons that are unrolled (the flag is their
  \<open>break\<close>), then the \<open>do ... while\<close>.\<close>

fun match_unrolled :: "bytes \<Rightarrow> nat \<Rightarrow> nat \<Rightarrow> nat \<Rightarrow> nat \<Rightarrow> (nat \<times> bool) outcome" where
  "match_unrolled d ref ip len 0 = Ok (len, False)"
| "match_unrolled d ref ip len (Suc n) =
     (let len = len + 1 in
      bind_outcome (load d (ref + len)) (\<lambda>a. bind_outcome (load d (ip + len)) (\<lambda>b.
      if a \<noteq> b then Ok (len, True) else match_unrolled d ref ip len n)))"

function match_rest :: "bytes \<Rightarrow> nat \<Rightarrow> nat \<Rightarrow> nat \<Rightarrow> nat \<Rightarrow> nat outcome" where
  "match_rest d ref ip maxlen len =
     (let len = len + 1 in
      if len < maxlen then
        bind_outcome (load d (ref + len)) (\<lambda>a. bind_outcome (load d (ip + len)) (\<lambda>b.
        if a = b then match_rest d ref ip maxlen len else Ok len))
      else Ok len)"
  by pat_completeness auto

termination match_rest
  by (relation "measure (\<lambda>(d, ref, ip, maxlen, len). maxlen - len)") auto

declare match_rest.simps [simp del]

definition match_length :: "bytes \<Rightarrow> nat \<Rightarrow> nat \<Rightarrow> nat \<Rightarrow> nat outcome" where
  "match_length d ref ip maxlen =
     bind_outcome (if maxlen > 16 then match_unrolled d ref ip 2 16 else Ok (2, False)) (\<lambda>(len, broke).
     if broke then Ok len else match_rest d ref ip maxlen len)"

text \<open>The test for a match at the pointer \<open>ref\<close>, with \<open>off\<close> computed in \<open>size_t\<close>.\<close>

definition is_match :: "bytes \<Rightarrow> nat \<Rightarrow> int \<Rightarrow> bool outcome" where
  "is_match d ip ref =
     (if (int ip - ref - 1) mod 2 ^ 64 < MAX_OFF \<and> ref > 0 then
        let r = nat ref in
        bind_outcome (load d (r + 2)) (\<lambda>a2. bind_outcome (load d (ip + 2)) (\<lambda>b2.
        bind_outcome (load d r) (\<lambda>a0. bind_outcome (load d ip) (\<lambda>b0.
        bind_outcome (load d (r + 1)) (\<lambda>a1. bind_outcome (load d (ip + 1)) (\<lambda>b1.
        Ok (a2 = b2 \<and> a0 = b0 \<and> a1 = b1)))))))
      else Ok False)"

text \<open>The bytes of a back reference.\<close>

definition backref :: "nat \<Rightarrow> nat \<Rightarrow> bytes" where
  "backref off len =
     (if len < 7 then [word_of_nat (off div 256 + len * 32)]
      else [word_of_nat (off div 256 + 7 * 32), word_of_nat (len - 7)]) @ [word_of_nat off]"

fun store_all :: "bytes \<Rightarrow> nat \<Rightarrow> bytes \<Rightarrow> bytes outcome" where
  "store_all out op [] = Ok out"
| "store_all out op (b # bs) = bind_outcome (store out op b) (\<lambda>out. store_all out (op + 1) bs)"

text \<open>The branch of a match; the hash table is updated at the last two positions of the match when
  more input follows.\<close>

definition lzf_emit_match :: "bytes \<Rightarrow> nat \<Rightarrow> lzf_state \<Rightarrow> nat \<Rightarrow> lzf_state option outcome" where
  "lzf_emit_match d out_len s ref =
     (let ip = lz_ip s; op = lz_op s; lit = lz_lit s; off = ip - ref - 1;
          maxlen = length d - ip - 2;
          maxlen = (if maxlen > MAX_REF then MAX_REF else maxlen);
          undo = (if lit = 0 then 1 else 0) in
      if op + 3 + 1 \<ge> out_len \<and> op - undo + 3 + 1 \<ge> out_len then Ok None
      else
        bind_outcome (stop_run (lz_out s) op lit) (\<lambda>out.
        let op = op - undo in
        bind_outcome (match_length d ref ip maxlen) (\<lambda>len.
        let len = len - 2; ip = ip + 1 in
        bind_outcome (store_all out op (backref off len)) (\<lambda>out.
        let op = op + length (backref off len) + 1;
            ip = ip + len + 1;
            s = s\<lparr>lz_ip := ip, lz_op := op, lz_lit := 0, lz_out := out\<rparr> in
        if ip + 2 \<ge> length d then Ok (Some s)
        else
          bind_outcome (FRST d (ip - 2)) (\<lambda>hval.
          bind_outcome (NEXT hval d (ip - 2)) (\<lambda>hval1.
          bind_outcome (NEXT hval1 d (ip - 1)) (\<lambda>hval2.
          Ok (Some (s\<lparr>lz_hval := hval2,
                      lz_htab := (lz_htab s)(IDX hval1 := int (ip - 2), IDX hval2 := int (ip - 1))\<rparr>))))))))) "

text \<open>One more literal byte.\<close>

definition copy_literal :: "bytes \<Rightarrow> lzf_state \<Rightarrow> lzf_state outcome" where
  "copy_literal d s =
     (let lit = lz_lit s + 1 in
      bind_outcome (load d (lz_ip s)) (\<lambda>b.
      bind_outcome (store (lz_out s) (lz_op s) b) (\<lambda>out.
      let s = s\<lparr>lz_ip := lz_ip s + 1, lz_op := lz_op s + 1, lz_lit := lit, lz_out := out\<rparr> in
      if lit = MAX_LIT then
        bind_outcome (stop_run out (lz_op s) lit) (\<lambda>out.
        Ok (s\<lparr>lz_op := lz_op s + 1, lz_lit := 0, lz_out := out\<rparr>))
      else Ok s)))"

definition lzf_emit_literal :: "bytes \<Rightarrow> nat \<Rightarrow> lzf_state \<Rightarrow> lzf_state option outcome" where
  "lzf_emit_literal d out_len s =
     (if lz_op s \<ge> out_len then Ok None else bind_outcome (copy_literal d s) (\<lambda>s. Ok (Some s)))"

definition lzf_step :: "bytes \<Rightarrow> nat \<Rightarrow> lzf_state \<Rightarrow> lzf_state option outcome" where
  "lzf_step d out_len s =
     bind_outcome (NEXT (lz_hval s) d (lz_ip s)) (\<lambda>hval.
     let slot = IDX hval; ref = lz_htab s slot;
         s = s\<lparr>lz_hval := hval, lz_htab := (lz_htab s)(slot := int (lz_ip s))\<rparr> in
     bind_outcome (is_match d (lz_ip s) ref) (\<lambda>m.
     if m then lzf_emit_match d out_len s (nat ref) else lzf_emit_literal d out_len s))"

lemma copy_literal_ip: "copy_literal d s = Ok s' \<Longrightarrow> lz_ip s' = lz_ip s + 1"
  by (auto simp: copy_literal_def Let_def bind_outcome_Ok split: if_splits)

lemma lzf_step_ip: "lzf_step d out_len s = Ok (Some s') \<Longrightarrow> lz_ip s < lz_ip s'"
  by (auto simp: lzf_step_def lzf_emit_match_def lzf_emit_literal_def Let_def bind_outcome_Ok dest!: copy_literal_ip split: if_splits)

text \<open>The main loop, the loop over the last bytes, and the function.\<close>

function lzf_loop :: "bytes \<Rightarrow> nat \<Rightarrow> lzf_state \<Rightarrow> lzf_state option outcome" where
  "lzf_loop d out_len s =
     (if lz_ip s + 2 < length d then
        case lzf_step d out_len s of
          Abort \<Rightarrow> Abort
        | Ok None \<Rightarrow> Ok None
        | Ok (Some s) \<Rightarrow> lzf_loop d out_len s
      else Ok (Some s))"
  by pat_completeness auto

termination lzf_loop
  by (relation "measure (\<lambda>(d, out_len, s). length d - lz_ip s)") (auto dest: lzf_step_ip)

declare lzf_loop.simps [simp del]

function lzf_tail :: "bytes \<Rightarrow> lzf_state \<Rightarrow> lzf_state outcome" where
  "lzf_tail d s =
     (if lz_ip s < length d then
        case copy_literal d s of Abort \<Rightarrow> Abort | Ok s \<Rightarrow> lzf_tail d s
      else Ok s)"
  by pat_completeness auto

termination lzf_tail
  by (relation "measure (\<lambda>(d, s). length d - lz_ip s)") (auto dest: copy_literal_ip)

declare lzf_tail.simps [simp del]

text \<open>The compressed bytes, or \<open>None\<close>; \<open>out\<close> is the output buffer, \<open>htab\<close> the uninitialised hash table.\<close>

definition lzf_compress :: "(nat \<Rightarrow> int) \<Rightarrow> bytes \<Rightarrow> bytes \<Rightarrow> bytes option outcome" where
  "lzf_compress htab d out =
     (if d = [] \<or> out = [] then Ok None
      else
        bind_outcome (FRST d 0) (\<lambda>hval.
        bind_outcome (lzf_loop d (length out)
            \<lparr>lz_ip = 0, lz_op = 1, lz_lit = 0, lz_hval = hval, lz_out = out, lz_htab = htab\<rparr>) (\<lambda>r.
        case r of
          None \<Rightarrow> Ok None
        | Some s \<Rightarrow>
            if lz_op s + 3 > length out then Ok None
            else
              bind_outcome (lzf_tail d s) (\<lambda>s.
              bind_outcome (stop_run (lz_out s) (lz_op s) (lz_lit s)) (\<lambda>out.
              Ok (Some (take (lz_op s - (if lz_lit s = 0 then 1 else 0)) out)))))))"

section \<open>Decompression\<close>

datatype lzf_error = E2BIG | EINVAL

text \<open>The output is the list of the bytes written; a write past the \<open>out_len\<close> bytes of the buffer, a read past the
  input and a read outside the bytes written are \<open>Abort\<close>.\<close>

definition emit :: "nat \<Rightarrow> bytes \<Rightarrow> byte \<Rightarrow> bytes outcome" where
  "emit out_len out b = c_assert (length out < out_len) (Ok (out @ [b]))"

text \<open>\<open>*op++ = *ip++\<close>, \<open>n\<close> times; the input is the rest from \<open>ip\<close>.\<close>

fun copy_literals :: "nat \<Rightarrow> nat \<Rightarrow> bytes \<Rightarrow> bytes \<Rightarrow> (bytes \<times> bytes) outcome" where
  "copy_literals out_len 0 ip out = Ok (ip, out)"
| "copy_literals out_len (Suc n) ip out =
     bind_outcome (load ip 0) (\<lambda>b. bind_outcome (emit out_len out b) (\<lambda>out. copy_literals out_len n (tl ip) out))"

text \<open>The copy of a back reference: byte by byte, \<open>*op++ = *ref++\<close>, or \<open>memcpy\<close> when the areas are disjoint. \<open>ref\<close> is
  an offset into the output, negative for a pointer before it.\<close>

fun copy_bytes :: "nat \<Rightarrow> bytes \<Rightarrow> int \<Rightarrow> nat \<Rightarrow> bytes outcome" where
  "copy_bytes out_len out ref 0 = Ok out"
| "copy_bytes out_len out ref (Suc n) =
     c_assert (0 \<le> ref)
       (bind_outcome (load out (nat ref)) (\<lambda>b. bind_outcome (emit out_len out b) (\<lambda>out. copy_bytes out_len out (ref + 1) n)))"

definition copy_ref :: "nat \<Rightarrow> bytes \<Rightarrow> int \<Rightarrow> nat \<Rightarrow> bytes outcome" where
  "copy_ref out_len out ref len =
     (if len \<ge> 10 \<and> int (length out) \<ge> ref + int (len + 2) then
        c_assert (0 \<le> ref \<and> length out + (len + 2) \<le> out_len) (Ok (out @ take (len + 2) (drop (nat ref) out)))
      else copy_bytes out_len out ref (len + 2))"

text \<open>One round: the input is the rest from \<open>ip\<close>, the result the rest after the round.\<close>

definition lzf_literals :: "nat \<Rightarrow> nat \<Rightarrow> bytes \<Rightarrow> bytes \<Rightarrow> (lzf_error + bytes \<times> bytes) outcome" where
  "lzf_literals out_len n ip out =
     (if length out + n > out_len then Ok (Inl E2BIG)
      else if n > length ip then Ok (Inl EINVAL)
      else bind_outcome (copy_literals out_len n ip out) (\<lambda>(ip, out). Ok (Inr (ip, out))))"

definition lzf_backref :: "nat \<Rightarrow> byte \<Rightarrow> bytes \<Rightarrow> bytes \<Rightarrow> (lzf_error + bytes \<times> bytes) outcome" where
  "lzf_backref out_len ctrl ip out =
     (let len = unat (drop_bit 5 ctrl); ref = int (length out) - int (unat (ctrl AND 31)) * 256 - 1 in
      if ip = [] then Ok (Inl EINVAL)
      else
        bind_outcome (if len = 7 then bind_outcome (load ip 0) (\<lambda>b. Ok (len + unat b, tl ip)) else Ok (len, ip)) (\<lambda>(len, ip).
        if ip = [] then Ok (Inl EINVAL)
        else
          bind_outcome (load ip 0) (\<lambda>b.
          let ref = ref - int (unat b); ip = tl ip in
          if length out + len + 2 > out_len then Ok (Inl E2BIG)
          else if ref < 0 then Ok (Inl EINVAL)
          else bind_outcome (copy_ref out_len out ref len) (\<lambda>out. Ok (Inr (ip, out))))))"

definition lzf_round :: "nat \<Rightarrow> byte \<Rightarrow> bytes \<Rightarrow> bytes \<Rightarrow> (lzf_error + bytes \<times> bytes) outcome" where
  "lzf_round out_len ctrl ip out =
     (if unat ctrl < 32 then lzf_literals out_len (unat ctrl + 1) ip out else lzf_backref out_len ctrl ip out)"

lemma copy_literals_rest: "copy_literals out_len n ip out = Ok (ip', out') \<Longrightarrow> length ip' \<le> length ip"
proof (induction n arbitrary: ip out)
  case (Suc n)
  then obtain x where "copy_literals out_len n (tl ip) x = Ok (ip', out')" by (auto simp: bind_outcome_Ok)
  then show ?case using Suc.IH by (metis diff_le_self le_trans length_tl)
qed simp

lemma lzf_round_rest: "lzf_round out_len ctrl ip out = Ok (Inr (ip', out')) \<Longrightarrow> length ip' \<le> length ip"
  by (auto simp: lzf_round_def lzf_literals_def lzf_backref_def Let_def bind_outcome_Ok dest: copy_literals_rest split: if_splits)

function lzf_rounds :: "nat \<Rightarrow> bytes \<Rightarrow> bytes \<Rightarrow> (lzf_error + bytes) outcome" where
  "lzf_rounds out_len ip out =
     (case ip of
        [] \<Rightarrow> Ok (Inr out)
      | ctrl # ip \<Rightarrow>
          (case lzf_round out_len ctrl ip out of
             Abort \<Rightarrow> Abort
           | Ok (Inl e) \<Rightarrow> Ok (Inl e)
           | Ok (Inr (ip, out)) \<Rightarrow> lzf_rounds out_len ip out))"
  by pat_completeness auto

termination lzf_rounds
  by (relation "measure (\<lambda>(out_len, ip, out). length ip)") (auto dest: lzf_round_rest simp: le_imp_less_Suc)

declare lzf_rounds.simps [simp del]

definition lzf_decompress :: "bytes \<Rightarrow> nat \<Rightarrow> (lzf_error + bytes) outcome" where
  "lzf_decompress d out_len = lzf_rounds out_len d []"

end
