(* ===== verification/Lzf_Roundtrip.thy ===== *)
theory Lzf_Roundtrip
  imports Lzf
begin

text \<open>
  The compressor never leaves its buffers, whatever the hash table holds at the start, and what it
  writes decompresses to its input; the decompressor is safe on every input.
\<close>

section \<open>The decompressor\<close>

lemma load_Ok [simp]: "i < length d \<Longrightarrow> load d i = Ok (d ! i)"
  by (simp add: load_def)

lemma store_Ok [simp]: "i < length d \<Longrightarrow> store d i b = Ok (d[i := b])"
  by (simp add: store_def)

lemma emit_Ok [simp]: "length out < out_len \<Longrightarrow> emit out_len out b = Ok (out @ [b])"
  by (simp add: emit_def)

lemma copy_literals_Ok:
  "n \<le> length ip \<Longrightarrow> length out + n \<le> out_len \<Longrightarrow> copy_literals out_len n ip out = Ok (drop n ip, out @ take n ip)"
proof (induction n arbitrary: ip out)
  case (Suc n)
  then obtain b bs where "ip = b # bs" by (cases ip) auto
  then show ?case using Suc by simp
qed simp

lemma lzf_literals_eq:
  "lzf_literals out_len n ip out =
     (if length out + n > out_len then Ok (Inl E2BIG)
      else if n > length ip then Ok (Inl EINVAL)
      else Ok (Inr (drop n ip, out @ take n ip)))"
  by (simp add: lzf_literals_def copy_literals_Ok)

lemma copy_bytes_safe:
  "0 \<le> ref \<Longrightarrow> ref < int (length out) \<Longrightarrow> length out + n \<le> out_len \<Longrightarrow>
   \<exists>out'. copy_bytes out_len out ref n = Ok out' \<and> length out' = length out + n"
proof (induction n arbitrary: out ref)
  case (Suc n)
  obtain out' where "copy_bytes out_len (out @ [out ! nat ref]) (ref + 1) n = Ok out'"
    "length out' = length (out @ [out ! nat ref]) + n"
    using Suc.IH [of "ref + 1" "out @ [out ! nat ref]"] Suc.prems by auto
  then show ?case using Suc.prems by (auto simp: nat_less_iff)
qed simp

lemma copy_ref_safe:
  "0 \<le> ref \<Longrightarrow> ref < int (length out) \<Longrightarrow> length out + (len + 2) \<le> out_len \<Longrightarrow>
   \<exists>out'. copy_ref out_len out ref len = Ok out' \<and> length out' = length out + (len + 2)"
  using copy_bytes_safe [of ref out "len + 2" out_len] by (auto simp: copy_ref_def min_def)

lemma lzf_backref_eq:
  fixes ctrl :: byte and ip out :: bytes
  assumes "ip \<noteq> []"
  defines "len \<equiv> unat (drop_bit 5 ctrl)"
  defines "len' \<equiv> (if len = 7 then len + unat (hd ip) else len)" and "ip' \<equiv> (if len = 7 then tl ip else ip)"
  defines "ref \<equiv> int (length out) - int (unat (ctrl AND 31)) * 256 - 1 - int (unat (hd ip'))"
  shows "lzf_backref out_len ctrl ip out =
      (if ip' = [] then Ok (Inl EINVAL)
       else if length out + len' + 2 > out_len then Ok (Inl E2BIG)
       else if ref < 0 then Ok (Inl EINVAL)
       else bind_outcome (copy_ref out_len out ref len') (\<lambda>out. Ok (Inr (tl ip', out))))"
proof -
  have "(if len = 7 then bind_outcome (load ip 0) (\<lambda>b. Ok (len + unat b, tl ip)) else Ok (len, ip)) = Ok (len', ip')"
    using assms(1) by (simp add: len'_def ip'_def hd_conv_nth)
  moreover have "ip' \<noteq> [] \<Longrightarrow> load ip' 0 = Ok (hd ip')" by (simp add: hd_conv_nth)
  ultimately show ?thesis using assms(1) unfolding lzf_backref_def Let_def len_def [symmetric] ref_def
    by (simp del: load_Ok)
qed

lemma copy_ref_round:
  assumes "ref < int (length out)"
  shows "\<exists>r. (if length out + len + 2 > out_len then Ok (Inl E2BIG) else if ref < 0 then Ok (Inl EINVAL)
      else bind_outcome (copy_ref out_len out ref len) (\<lambda>out. Ok (Inr (ip, out)))) = Ok r
    \<and> (\<forall>ip' out'. r = Inr (ip', out') \<longrightarrow> length out' \<le> out_len)"
proof (cases "length out + len + 2 > out_len \<or> ref < 0")
  case False
  then obtain out' where "copy_ref out_len out ref len = Ok out'" "length out' = length out + (len + 2)"
    using copy_ref_safe [of ref out len out_len] assms by auto
  then show ?thesis using False by simp
qed auto

lemma lzf_round_safe:
  assumes "length out \<le> out_len"
  shows "\<exists>r. lzf_round out_len ctrl ip out = Ok r \<and> (\<forall>ip' out'. r = Inr (ip', out') \<longrightarrow> length out' \<le> out_len)"
proof (cases "unat ctrl < 32")
  case True
  then show ?thesis using assms by (auto simp: lzf_round_def lzf_literals_eq)
next
  case False
  show ?thesis
  proof (cases "ip = []")
    case True
    then show ?thesis using False by (simp add: lzf_round_def lzf_backref_def)
  next
    case ne: False
    define x where "x = (if unat (drop_bit 5 ctrl) = 7 then tl ip else ip)"
    define ref where "ref = int (length out) - int (unat (ctrl AND 31)) * 256 - 1 - int (unat (hd x))"
    have "ref < int (length out)" unfolding ref_def by linarith
    note eq = lzf_backref_eq [OF ne, where ctrl = ctrl and out = out and out_len = out_len, folded x_def, folded ref_def]
    have "lzf_round out_len ctrl ip out = lzf_backref out_len ctrl ip out" using False by (simp add: lzf_round_def)
    then show ?thesis unfolding eq using copy_ref_round [OF \<open>ref < int (length out)\<close>] by (cases "x = []") (simp only: if_True if_False, fastforce)+
  qed
qed

lemma lzf_rounds_safe:
  "length out \<le> out_len \<Longrightarrow> \<exists>r. lzf_rounds out_len ip out = Ok r \<and> (\<forall>out'. r = Inr out' \<longrightarrow> length out' \<le> out_len)"
proof (induction out_len ip out rule: lzf_rounds.induct)
  case (1 out_len ip out)
  show ?case
  proof (cases ip)
    case Nil
    then show ?thesis using 1(2) by (subst lzf_rounds.simps) simp
  next
    case (Cons ctrl cs)
    obtain r where r: "lzf_round out_len ctrl cs out = Ok r" "\<forall>ip' out'. r = Inr (ip', out') \<longrightarrow> length out' \<le> out_len"
      using lzf_round_safe [OF 1(2)] by blast
    show ?thesis
    proof (cases r)
      case (Inl e)
      then show ?thesis using r Cons by (subst lzf_rounds.simps) simp
    next
      case (Inr x)
      obtain ip' out' where x: "x = (ip', out')" by (cases x)
      have step: "lzf_rounds out_len ip out = lzf_rounds out_len ip' out'"
        using r(1) Cons Inr x by (subst lzf_rounds.simps) simp
      have "length out' \<le> out_len" using r(2) Inr x by simp
      then show ?thesis unfolding step using 1(1) [OF Cons r(1) Inr x [symmetric]] by blast
    qed
  qed
qed

text \<open>Bytes that decode an extension of the output.\<close>

definition decodes :: "bytes \<Rightarrow> bytes \<Rightarrow> nat \<Rightarrow> nat \<Rightarrow> bool" where
  "decodes d c i j \<longleftrightarrow>
     (\<forall>out_len rest. length d \<le> out_len \<longrightarrow> lzf_rounds out_len (c @ rest) (take i d) = lzf_rounds out_len rest (take j d))"

lemma decodes_Nil: "decodes d [] i i"
  by (simp add: decodes_def)

lemma decodes_append: "decodes d c1 i j \<Longrightarrow> decodes d c2 j k \<Longrightarrow> decodes d (c1 @ c2) i k"
  by (simp add: decodes_def)

lemma decodes_literals:
  assumes "0 < n" "n \<le> 32" "i + n \<le> length d"
  shows "decodes d (word_of_int (int n - 1) # take n (drop i d)) i (i + n)"
  unfolding decodes_def
proof (intro allI impI)
  fix out_len rest assume "length d \<le> out_len"
  define c where "c = (word_of_int (int n - 1) :: byte)"
  have w: "(word_of_int (int n - 1) :: byte) = word_of_nat (n - 1)" using assms(1)
    by (metis One_nat_def Suc_leI of_int_of_nat_eq of_nat_1 of_nat_diff)
  have u: "unat c = n - 1" unfolding c_def w using assms(2) by simp
  have "take i d @ take n (drop i d) = take (i + n) d" by (simp add: take_add)
  then have "lzf_round out_len c (take n (drop i d) @ rest) (take i d) = Ok (Inr (rest, take (i + n) d))"
    using assms \<open>length d \<le> out_len\<close> u by (auto simp: lzf_round_def lzf_literals_eq)
  then show "lzf_rounds out_len ((word_of_int (int n - 1) # take n (drop i d)) @ rest) (take i d) = lzf_rounds out_len rest (take (i + n) d)"
    unfolding c_def [symmetric] by (subst lzf_rounds.simps) simp
qed

lemma copy_bytes_match:
  "r < i \<Longrightarrow> i + n \<le> length d \<Longrightarrow> length d \<le> out_len \<Longrightarrow> \<forall>k < n. d ! (r + k) = d ! (i + k) \<Longrightarrow>
   copy_bytes out_len (take i d) (int r) n = Ok (take (i + n) d)"
proof (induction n arbitrary: i r)
  case (Suc n)
  have "take i d @ [d ! r] = take (i + 1) d" using Suc.prems(2) Suc.prems(4) [rule_format, of 0]
    by (simp add: take_Suc_conv_app_nth)
  moreover have "\<forall>k < n. d ! (r + 1 + k) = d ! (i + 1 + k)" 
  proof (intro allI impI)
    fix k assume "k < n"
    then show "d ! (r + 1 + k) = d ! (i + 1 + k)" using Suc.prems(4) [rule_format, of "Suc k"] by simp
  qed
  ultimately show ?case using Suc.IH [of "r + 1" "i + 1"] Suc.prems by (simp add: add.commute)
qed simp

lemma copy_ref_match:
  assumes "r < i" "i + (len + 2) \<le> length d" "length d \<le> out_len" "\<forall>k < len + 2. d ! (r + k) = d ! (i + k)"
  shows "copy_ref out_len (take i d) (int r) len = Ok (take (i + (len + 2)) d)"
proof (cases "len \<ge> 10 \<and> i \<ge> r + (len + 2)")
  case True
  have "take (len + 2) (drop r (take i d)) = take (len + 2) (drop i d)"
    by (rule nth_equalityI) (use True assms in auto)
  then show ?thesis using True assms(2,3) by (simp only: copy_ref_def take_add length_take) simp
next
  case False
  then show ?thesis using copy_bytes_match [OF assms] assms(2) by (auto simp: copy_ref_def min_def)
qed

lemma unat_ctrl: "unat (drop_bit 5 c) = unat c div 32" "unat (c AND 31) = unat c mod 32" for c :: byte
proof -
  show "unat (drop_bit 5 c) = unat c div 32" by (simp add: drop_bit_eq_div unat_div)
  show "unat (c AND 31) = unat c mod 32" using and_mask_mod(5) [of "unat c"] by (simp add: unat_and_byte)
qed

lemma ctrl_long: "x < 32 \<Longrightarrow> (x + 7 * 32) div 32 = 7 \<and> (x + 7 * 32) mod 32 = x \<and> \<not> x + 7 * 32 < 32" for x :: nat
  by (simp only: div_mult_self1 mod_mult_self1) simp

lemma decodes_backref:
  assumes r: "r < i" and off: "i - r - 1 < 8192" and len: "0 < len" "len \<le> 262" and bound: "i + (len + 2) \<le> length d"
    and match: "\<forall>k < len + 2. d ! (r + k) = d ! (i + k)"
  shows "decodes d (backref (i - r - 1) len) i (i + (len + 2))"
  unfolding decodes_def
proof (intro allI impI)
  fix out_len rest assume out: "length d \<le> out_len"
  let ?off = "i - r - 1"
  have hi: "?off div 256 < 32" using off by simp
  have bk: "int i - int (?off div 256) * 256 - 1 - int (?off mod 256) = int r" "\<not> int i - int (?off div 256) * 256 - 1 - int (?off mod 256) < 0"
  proof -
    have "int (?off div 256) * 256 + int (?off mod 256) = int ?off"
      by (metis div_mult_mod_eq of_nat_add of_nat_mult of_nat_numeral)
    moreover have "int ?off = int i - int r - 1" using r by simp
    ultimately show "int i - int (?off div 256) * 256 - 1 - int (?off mod 256) = int r" "\<not> int i - int (?off div 256) * 256 - 1 - int (?off mod 256) < 0"
      by linarith+
  qed
  have len_i: "length (take i d) = i" using bound by simp
  have uo: "uint (word_of_nat ?off :: byte) = int (?off mod 256)"
    using unat_of_nat_byte [of ?off] by (metis uint_nat)
  note cp = copy_ref_match [OF r bound out match]
  show "lzf_rounds out_len (backref ?off len @ rest) (take i d) = lzf_rounds out_len rest (take (i + (len + 2)) d)"
  proof (cases "len < 7")
    case True
    define c where "c = (word_of_nat (?off div 256 + len * 32) :: byte)"
    have u: "unat c = ?off div 256 + len * 32" unfolding c_def using True hi by (subst unat_of_nat_byte) simp
    have "unat (drop_bit 5 c) = len" "unat (c AND 31) = ?off div 256" "\<not> unat c < 32"
      using hi len(1) by (simp_all add: unat_ctrl u)
    then have "lzf_round out_len c (word_of_nat ?off # rest) (take i d) = Ok (Inr (rest, take (i + (len + 2)) d))"
      using True bk uo cp bound out by (simp add: lzf_round_def lzf_backref_def Let_def len_i)
    then show ?thesis using True by (subst lzf_rounds.simps) (simp add: backref_def c_def)
  next
    case False
    define c where "c = (word_of_nat (?off div 256 + 7 * 32) :: byte)"
    have u: "unat c = ?off div 256 + 7 * 32" unfolding c_def using hi by (subst unat_of_nat_byte) simp
    have "unat (drop_bit 5 c) = 7" "unat (c AND 31) = ?off div 256" "\<not> unat c < 32"
      unfolding unat_ctrl u using ctrl_long [OF hi] by blast+
    moreover define b where "b = (word_of_nat (len - 7) :: byte)"
    have "7 + unat b = len" unfolding b_def using False len by (subst unat_of_nat_byte) simp
    ultimately have "lzf_round out_len c (b # word_of_nat ?off # rest) (take i d) = Ok (Inr (rest, take (i + (len + 2)) d))"
      using bk uo cp bound out by (simp add: lzf_round_def lzf_backref_def Let_def len_i)
    moreover have "backref ?off len = [c, b, word_of_nat ?off]"
      using False by (simp only: backref_def c_def b_def if_False append.simps)
    ultimately show ?thesis by (subst lzf_rounds.simps) simp
  qed
qed

section \<open>The length of a match\<close>

lemma match_unrolled_spec:
  "r < ip \<Longrightarrow> ip + len + n < length d \<Longrightarrow> \<forall>k \<le> len. d ! (r + k) = d ! (ip + k) \<Longrightarrow>
   \<exists>len' broke. match_unrolled d r ip len n = Ok (len', broke) \<and> (broke \<longrightarrow> len < len') \<and> len' \<le> len + n
     \<and> (\<not> broke \<longrightarrow> len' = len + n) \<and> (\<forall>k < len'. d ! (r + k) = d ! (ip + k))
     \<and> (\<not> broke \<longrightarrow> d ! (r + len') = d ! (ip + len'))"
proof (induction n arbitrary: len)
  case (Suc n)
  show ?case
  proof (cases "d ! (r + (len + 1)) = d ! (ip + (len + 1))")
    case False
    then show ?thesis using Suc.prems by (auto simp: Let_def)
  next
    case True
    have "\<forall>k \<le> len + 1. d ! (r + k) = d ! (ip + k)" using True Suc.prems(3) by (metis Suc_eq_plus1 le_SucE)
    from Suc.IH [OF Suc.prems(1) _ this] True Suc.prems(1,2) show ?thesis by (auto simp: Let_def)
  qed
qed auto

lemma match_rest_spec:
  "r < ip \<Longrightarrow> ip + maxlen \<le> length d \<Longrightarrow> \<forall>k \<le> len. d ! (r + k) = d ! (ip + k) \<Longrightarrow>
   \<exists>len'. match_rest d r ip maxlen len = Ok len' \<and> len < len' \<and> len' \<le> max (len + 1) maxlen
     \<and> (\<forall>k < len'. d ! (r + k) = d ! (ip + k))"
proof (induction d r ip maxlen len rule: match_rest.induct)
  case (1 d r ip maxlen len)
  show ?case
  proof (cases "len + 1 < maxlen \<and> d ! (r + (len + 1)) = d ! (ip + (len + 1))")
    case True
    have m: "\<forall>k \<le> len + 1. d ! (r + k) = d ! (ip + k)" using True 1(4) by (metis Suc_eq_plus1 le_SucE)
    have "\<exists>len'. match_rest d r ip maxlen (len + 1) = Ok len' \<and> len + 1 < len' \<and> len' \<le> max (len + 1 + 1) maxlen
       \<and> (\<forall>k < len'. d ! (r + k) = d ! (ip + k))"
      by (rule 1(1)) (use True 1(2,3) m in auto)
    moreover have "match_rest d r ip maxlen len = match_rest d r ip maxlen (len + 1)"
      using True 1(2,3) by (subst match_rest.simps) (simp add: Let_def)
    ultimately show ?thesis using True by auto
  next
    case False
    then have "match_rest d r ip maxlen len = Ok (len + 1)"
      using 1(2,3) by (subst match_rest.simps) (auto simp: Let_def)
    then show ?thesis using 1(4) by (auto simp: less_Suc_eq_le)
  qed
qed

lemma match_length_spec:
  assumes "r < ip" "ip + 2 < length d" "\<forall>k \<le> 2. d ! (r + k) = d ! (ip + k)"
    and m: "maxlen = min (length d - ip - 2) 264"
  shows "\<exists>len. match_length d r ip maxlen = Ok len \<and> 3 \<le> len \<and> len \<le> 264 \<and> ip + len \<le> length d
    \<and> (\<forall>k < len. d ! (r + k) = d ! (ip + k))"
proof -
  have bound: "ip + maxlen \<le> length d" unfolding m using assms(2) by linarith
  have rest: "\<exists>len'. match_rest d r ip maxlen len = Ok len' \<and> 3 \<le> len' \<and> len' \<le> 264 \<and> ip + len' \<le> length d
      \<and> (\<forall>k < len'. d ! (r + k) = d ! (ip + k))"
    if l: "2 \<le> len" "len \<le> 18" "ip + len + 1 \<le> length d" "\<forall>k \<le> len. d ! (r + k) = d ! (ip + k)" for len
  proof -
    obtain len' where "match_rest d r ip maxlen len = Ok len'" "len < len'" "len' \<le> max (len + 1) maxlen"
      "\<forall>k < len'. d ! (r + k) = d ! (ip + k)"
      using match_rest_spec [OF assms(1) bound l(4)] by blast
    moreover from this have "len' \<le> 264" "ip + len' \<le> length d" using l m by auto
    ultimately show ?thesis using l(1) by auto
  qed
  show ?thesis
  proof (cases "maxlen > 16")
    case True
    then have "ip + 2 + 16 < length d" using m by auto
    then obtain len broke where u: "match_unrolled d r ip 2 16 = Ok (len, broke)" "broke \<longrightarrow> 2 < len" "len \<le> 18"
      "\<not> broke \<longrightarrow> len = 18" "\<forall>k < len. d ! (r + k) = d ! (ip + k)" "\<not> broke \<longrightarrow> d ! (r + len) = d ! (ip + len)"
      using match_unrolled_spec [OF assms(1) _ assms(3), of 16] by auto
    show ?thesis
    proof (cases broke)
      case True
      then show ?thesis using u \<open>16 < maxlen\<close> \<open>ip + 2 + 16 < length d\<close> by (auto simp: match_length_def)
    next
      case False
      have "\<forall>k \<le> len. d ! (r + k) = d ! (ip + k)" using u(5,6) False by (metis le_neq_implies_less)
      then show ?thesis using rest [of len] u False \<open>16 < maxlen\<close> \<open>ip + 2 + 16 < length d\<close>
        by (auto simp: match_length_def)
    qed
  next
    case False
    then show ?thesis using rest [of 2] assms(2,3) by (auto simp: match_length_def)
  qed
qed

section \<open>The compressor\<close>

text \<open>The output up to the pending run decodes to the input up to its literals, and the run holds them.\<close>

definition run_ok :: "bytes \<Rightarrow> bytes \<Rightarrow> nat \<Rightarrow> nat \<Rightarrow> nat \<Rightarrow> bool" where
  "run_ok d out op lit ip \<longleftrightarrow>
     lit + 1 \<le> op \<and> (0 < lit \<longrightarrow> op \<le> length out) \<and> lit \<le> 32 \<and> lit \<le> ip \<and> ip \<le> length d
     \<and> decodes d (take (op - lit - 1) out) 0 (ip - lit)
     \<and> take lit (drop (op - lit) out) = take lit (drop (ip - lit) d)"

definition lz_inv :: "bytes \<Rightarrow> nat \<Rightarrow> lzf_state \<Rightarrow> bool" where
  "lz_inv d n s \<longleftrightarrow>
     length (lz_out s) = n \<and> lz_op s \<le> n + 1 \<and> lz_lit s < 32
     \<and> run_ok d (lz_out s) (lz_op s) (lz_lit s) (lz_ip s) \<and> (\<forall>i. \<bar>lz_htab s i\<bar> < 2 ^ 63)"

lemma stop_run_spec:
  assumes run: "run_ok d out op lit ip" and op: "op \<le> length out"
  shows "\<exists>out'. stop_run out op lit = Ok out' \<and> length out' = length out
    \<and> decodes d (take (op - (if lit = 0 then 1 else 0)) out') 0 ip"
proof -
  let ?p = "op - lit - 1" and ?b = "word_of_int (int lit - 1) :: byte"
  have p: "?p < length out" "lit + 1 \<le> op" using run op by (auto simp: run_ok_def)
  have stop: "stop_run out op lit = Ok (out[?p := ?b])" using p by (simp add: stop_run_def)
  show ?thesis
  proof (cases "lit = 0")
    case True
    then show ?thesis using stop run by (simp add: run_ok_def)
  next
    case False
    have "take op (out[?p := ?b]) = take ?p out @ ?b # take lit (drop (op - lit) out)"
    proof -
      have "op = ?p + (1 + lit)" using p by simp
      then have "take op (out[?p := ?b]) = take ?p (out[?p := ?b]) @ take (1 + lit) (drop ?p (out[?p := ?b]))"
        by (metis take_add)
      also have "drop ?p (out[?p := ?b]) = ?b # drop (?p + 1) out" using p(1) by (simp add: Cons_nth_drop_Suc [symmetric])
      finally show ?thesis using p by (simp add: Suc_diff_Suc)
    qed
    moreover have "decodes d (?b # take lit (drop (ip - lit) d)) (ip - lit) (ip - lit + lit)"
      by (rule decodes_literals) (use run False in \<open>auto simp: run_ok_def\<close>)
    moreover have "decodes d (take ?p out) 0 (ip - lit)" "ip - lit + lit = ip"
      "take lit (drop (op - lit) out) = take lit (drop (ip - lit) d)"
      using run by (simp_all add: run_ok_def)
    ultimately have "decodes d (take op (out[?p := ?b])) 0 ip"
      using decodes_append [of d "take ?p out" 0 "ip - lit" "?b # take lit (drop (ip - lit) d)" ip] by simp
    then show ?thesis using stop False by simp
  qed
qed

lemma run_ok_literal:
  assumes run: "run_ok d out op lit ip" and b: "op < length out" "ip < length d" "lit < 32"
  shows "run_ok d (out[op := d ! ip]) (op + 1) (lit + 1) (ip + 1)"
proof -
  have "take (lit + 1) (drop (op - lit) (out[op := d ! ip])) = take lit (drop (op - lit) out) @ [d ! ip]"
    using run b by (simp add: run_ok_def drop_update_swap take_Suc_conv_app_nth)
  moreover have "take (lit + 1) (drop (ip - lit) d) = take lit (drop (ip - lit) d) @ [d ! ip]"
    using run b by (simp add: run_ok_def take_Suc_conv_app_nth)
  ultimately show ?thesis using run b by (simp add: run_ok_def)
qed

lemma copy_literal_spec:
  assumes inv: "lz_inv d n s" and b: "lz_op s < n" "lz_ip s < length d"
  shows "\<exists>s'. copy_literal d s = Ok s' \<and> lz_inv d n s' \<and> lz_ip s' = lz_ip s + 1
    \<and> (lz_op s' = lz_op s + 1 \<or> lz_op s' = lz_op s + 2 \<and> lz_lit s' = 0)"
proof -
  let ?out = "(lz_out s)[lz_op s := d ! lz_ip s]"
  have n: "length (lz_out s) = n" and lit: "lz_lit s < 32" using inv by (simp_all add: lz_inv_def)
  have run: "run_ok d ?out (lz_op s + 1) (lz_lit s + 1) (lz_ip s + 1)"
    by (rule run_ok_literal) (use inv b in \<open>auto simp: lz_inv_def\<close>)
  show ?thesis
  proof (cases "lz_lit s + 1 = MAX_LIT")
    case True
    obtain out' where o: "stop_run ?out (lz_op s + 1) (lz_lit s + 1) = Ok out'" "length out' = n"
      "decodes d (take (lz_op s + 1) out') 0 (lz_ip s + 1)"
      using stop_run_spec [OF run] b(1) n by auto
    have "run_ok d out' (lz_op s + 2) 0 (lz_ip s + 1)" using o(3) b(2) by (simp add: run_ok_def)
    then show ?thesis using True inv b n o
      by (auto simp: copy_literal_def Let_def lz_inv_def)
  next
    case False
    then show ?thesis using inv run b n lit by (auto simp: copy_literal_def Let_def lz_inv_def MAX_LIT_def)
  qed
qed

lemma store_all_spec:
  "op + length bs \<le> length out \<Longrightarrow>
   \<exists>out'. store_all out op bs = Ok out' \<and> length out' = length out \<and> take (op + length bs) out' = take op out @ bs"
proof (induction bs arbitrary: out op)
  case (Cons b bs)
  obtain out' where o: "store_all (out[op := b]) (op + 1) bs = Ok out'" "length out' = length out"
    "take (op + 1 + length bs) out' = take (op + 1) (out[op := b]) @ bs"
    using Cons.IH [of "op + 1" "out[op := b]"] Cons.prems by auto
  have "take (op + 1) (out[op := b]) = take op out @ [b]" using Cons.prems by (simp add: take_Suc_conv_app_nth)
  then show ?case using o Cons.prems by auto
qed simp

lemma backref_length: "length (backref off len) \<le> 3"
  by (simp add: backref_def)

lemma NEXT_Ok: "p + 2 < length d \<Longrightarrow> \<exists>h. NEXT v d p = Ok h"
  by (simp add: NEXT_def)

lemma FRST_Ok: "p + 1 < length d \<Longrightarrow> \<exists>h. FRST d p = Ok h"
  by (simp add: FRST_def)

lemma is_match_spec:
  assumes "\<bar>ref\<bar> < 2 ^ 63" "ip + 2 < length d" "length d < 2 ^ 62"
  shows "\<exists>m. is_match d ip ref = Ok m \<and> (m \<longrightarrow> nat ref < ip \<and> ip - nat ref - 1 < 8192 \<and> (\<forall>k \<le> 2. d ! (nat ref + k) = d ! (ip + k)))"
proof (cases "(int ip - ref - 1) mod 2 ^ 64 < MAX_OFF \<and> ref > 0")
  case True
  have lo: "0 \<le> int ip - ref - 1"
  proof (rule ccontr)
    assume "\<not> 0 \<le> int ip - ref - 1"
    then have neg: "int ip - ref - 1 < 0" "- (2 ^ 63) - 1 \<le> int ip - ref - 1" using assms(1) by linarith+
    have "(int ip - ref - 1 + 2 ^ 64) mod 2 ^ 64 = int ip - ref - 1 + 2 ^ 64"
      by (rule mod_pos_pos_trivial) (use neg in simp_all)
    then have "(int ip - ref - 1) mod 2 ^ 64 = int ip - ref - 1 + 2 ^ 64" by (simp only: mod_add_self2)
    then show False using True neg by (simp add: MAX_OFF_def)
  qed
  have "int ip - ref - 1 < 2 ^ 64" using assms(2,3) True by simp
  then have "(int ip - ref - 1) mod 2 ^ 64 = int ip - ref - 1" using lo by (intro mod_pos_pos_trivial)
  then have r: "nat ref < ip" "ip - nat ref - 1 < 8192" using True lo by (simp_all add: MAX_OFF_def) linarith+
  have k: "k = 0 \<or> k = 1 \<or> k = 2" if "k \<le> 2" for k :: nat using that by auto
  show ?thesis using True r assms(2) by (auto simp: is_match_def Let_def dest!: k)
next
  case False
  then show ?thesis by (auto simp: is_match_def)
qed

lemma backref_step:
  assumes r: "r < lz_ip s" "lz_ip s - r - 1 < 8192" "\<forall>k < len + 2. d ! (r + k) = d ! (lz_ip s + k)"
    and len: "0 < len" "len \<le> 262" "lz_ip s + (len + 2) \<le> length d"
    and out: "decodes d (take op out) 0 (lz_ip s)" "op + 4 < length out"
  defines "bs \<equiv> backref (lz_ip s - r - 1) len"
  shows "\<exists>out'. store_all out op bs = Ok out' \<and> length out' = length out
    \<and> run_ok d out' (op + length bs + 1) 0 (lz_ip s + (len + 2)) \<and> op + length bs + 1 \<le> length out"
proof -
  have bs: "length bs \<le> 3" unfolding bs_def by (rule backref_length)
  obtain out' where o: "store_all out op bs = Ok out'" "length out' = length out" "take (op + length bs) out' = take op out @ bs"
    using store_all_spec [of op bs out] bs out(2) by auto
  have "decodes d bs (lz_ip s) (lz_ip s + (len + 2))"
    unfolding bs_def by (rule decodes_backref [OF r(1,2) len r(3)])
  then have "decodes d (take (op + length bs) out') 0 (lz_ip s + (len + 2))"
    unfolding o(3) by (rule decodes_append [OF out(1)])
  then show ?thesis using o bs out(2) len(3) by (simp add: run_ok_def)
qed

lemma lzf_emit_match_spec:
  assumes inv: "lz_inv d n s" and ip: "lz_ip s + 2 < length d" and r: "r < lz_ip s" "lz_ip s - r - 1 < 8192"
    and m: "\<forall>k \<le> 2. d ! (r + k) = d ! (lz_ip s + k)" and d: "length d < 2 ^ 62"
  shows "\<exists>x. lzf_emit_match d n s r = Ok x \<and> (\<forall>s'. x = Some s' \<longrightarrow> lz_inv d n s')"
proof -
  define undo where "undo = (if lz_lit s = 0 then 1 else 0 :: nat)"
  have n: "length (lz_out s) = n" and run: "run_ok d (lz_out s) (lz_op s) (lz_lit s) (lz_ip s)"
    and h: "\<forall>i. \<bar>lz_htab s i\<bar> < 2 ^ 63" using inv by (simp_all add: lz_inv_def)
  show ?thesis
  proof (cases "lz_op s + 3 + 1 \<ge> n \<and> lz_op s - undo + 3 + 1 \<ge> n")
    case True
    then show ?thesis by (simp add: lzf_emit_match_def Let_def undo_def)
  next
    case False
    have op: "lz_op s \<le> n" "lz_op s - undo + 4 < n" using False by (auto simp: undo_def split: if_splits)
    obtain out where out: "stop_run (lz_out s) (lz_op s) (lz_lit s) = Ok out" "length out = n"
      "decodes d (take (lz_op s - undo) out) 0 (lz_ip s)"
      using stop_run_spec [OF run] op(1) n unfolding undo_def by auto
    define maxlen where "maxlen = min (length d - lz_ip s - 2) 264"
    obtain len where len: "match_length d r (lz_ip s) maxlen = Ok len" "3 \<le> len" "len \<le> 264" "lz_ip s + len \<le> length d"
      "\<forall>k < len. d ! (r + k) = d ! (lz_ip s + k)"
      using match_length_spec [OF r(1) ip m maxlen_def] by blast
    define l where "l = len - 2"
    have l: "len = l + 2" "0 < l" "l \<le> 262" "lz_ip s + (l + 2) \<le> length d" using len by (simp_all add: l_def)
    define bs where "bs = backref (lz_ip s - r - 1) l"
    obtain out' where o: "store_all out (lz_op s - undo) bs = Ok out'" "length out' = n"
      "run_ok d out' (lz_op s - undo + length bs + 1) 0 (lz_ip s + (l + 2))" "lz_op s - undo + length bs + 1 \<le> n"
      using backref_step [OF r(1,2) _ l(2,3,4) out(3)] len(5) op(2) out(2) unfolding bs_def l(1) by blast
    define s1 where "s1 = s\<lparr>lz_ip := lz_ip s + 1 + l + 1, lz_op := lz_op s - undo + length bs + 1, lz_lit := 0, lz_out := out'\<rparr>"
    have inv1: "lz_inv d n s1" using o h by (simp add: lz_inv_def s1_def)
    have mx: "maxlen = (if length d - lz_ip s - 2 > MAX_REF then MAX_REF else length d - lz_ip s - 2)"
      by (simp add: maxlen_def MAX_REF_def min_def)
    have s1_ip: "lz_ip s1 = lz_ip s + 1 + l + 1" by (simp add: s1_def)
    have eq: "lzf_emit_match d n s r =
        (if lz_ip s1 + 2 \<ge> length d then Ok (Some s1)
         else
          bind_outcome (FRST d (lz_ip s1 - 2)) (\<lambda>hval.
          bind_outcome (NEXT hval d (lz_ip s1 - 2)) (\<lambda>hval1.
          bind_outcome (NEXT hval1 d (lz_ip s1 - 1)) (\<lambda>hval2.
          Ok (Some (s1\<lparr>lz_hval := hval2,
                      lz_htab := (lz_htab s1)(IDX hval1 := int (lz_ip s1 - 2), IDX hval2 := int (lz_ip s1 - 1))\<rparr>))))))"
      unfolding s1_ip unfolding s1_def lzf_emit_match_def Let_def undo_def [symmetric] mx [symmetric]
      by (simp only: False if_False out(1) bind_outcome.simps len(1) l_def [symmetric] bs_def [symmetric] o(1))
    show ?thesis
    proof (cases "lz_ip s1 + 2 \<ge> length d")
      case True
      then show ?thesis using eq inv1 by simp
    next
      case False
      have ip1: "2 \<le> lz_ip s1" by (simp add: s1_def)
      have p: "lz_ip s1 - 2 + 1 < length d" "lz_ip s1 - 2 + 2 < length d" "lz_ip s1 - 1 + 2 < length d"
        using False ip1 by linarith+
      obtain h0 where h0: "FRST d (lz_ip s1 - 2) = Ok h0" using FRST_Ok [OF p(1)] by blast
      obtain h1 where h1: "NEXT h0 d (lz_ip s1 - 2) = Ok h1" using NEXT_Ok [OF p(2)] by blast
      obtain h2 where h2: "NEXT h1 d (lz_ip s1 - 1) = Ok h2" using NEXT_Ok [OF p(3)] by blast
      have b: "int (lz_ip s1 - 2) < 2 ^ 63" "int (lz_ip s1 - 1) < 2 ^ 63" using False d by auto
      have "lz_inv d n (s1\<lparr>lz_hval := h2,
          lz_htab := (lz_htab s1)(IDX h1 := int (lz_ip s1 - 2), IDX h2 := int (lz_ip s1 - 1))\<rparr>)"
        using inv1 b by (simp add: lz_inv_def)
      then show ?thesis unfolding eq using False h0 h1 h2 by simp
    qed
  qed
qed

lemma lzf_step_spec:
  assumes inv: "lz_inv d n s" and ip: "lz_ip s + 2 < length d" and d: "length d < 2 ^ 62"
  shows "\<exists>x. lzf_step d n s = Ok x \<and> (\<forall>s'. x = Some s' \<longrightarrow> lz_inv d n s')"
proof -
  obtain h where h: "NEXT (lz_hval s) d (lz_ip s) = Ok h" using NEXT_Ok [OF ip] by blast
  define r where "r = lz_htab s (IDX h)"
  define s1 where "s1 = s\<lparr>lz_hval := h, lz_htab := (lz_htab s)(IDX h := int (lz_ip s))\<rparr>"
  have "int (lz_ip s) < 2 ^ 63" using ip d by simp
  then have inv1: "lz_inv d n s1" using inv by (simp add: lz_inv_def s1_def)
  have ip1: "lz_ip s1 = lz_ip s" by (simp add: s1_def)
  have "\<bar>r\<bar> < 2 ^ 63" using inv by (simp add: lz_inv_def r_def)
  then obtain m where m: "is_match d (lz_ip s) r = Ok m"
    "m \<longrightarrow> nat r < lz_ip s \<and> lz_ip s - nat r - 1 < 8192 \<and> (\<forall>k \<le> 2. d ! (nat r + k) = d ! (lz_ip s + k))"
    using is_match_spec [OF _ ip d] by blast
  have eq: "lzf_step d n s = (if m then lzf_emit_match d n s1 (nat r) else lzf_emit_literal d n s1)"
    using h m(1) by (simp add: lzf_step_def Let_def r_def [symmetric] s1_def)
  show ?thesis
  proof (cases m)
    case True
    then show ?thesis using lzf_emit_match_spec [OF inv1 _ _ _ _ d, of "nat r"] m(2) ip eq ip1 by simp
  next
    case False
    then show ?thesis using copy_literal_spec [OF inv1] ip eq ip1 by (cases "lz_op s1 < n") (auto simp: lzf_emit_literal_def)
  qed
qed

lemma lzf_loop_spec:
  "lz_inv d n s \<Longrightarrow> length d < 2 ^ 62 \<Longrightarrow>
   \<exists>x. lzf_loop d n s = Ok x \<and> (\<forall>s'. x = Some s' \<longrightarrow> lz_inv d n s' \<and> length d \<le> lz_ip s' + 2)"
proof (induction d n s rule: lzf_loop.induct)
  case (1 d n s)
  show ?case
  proof (cases "lz_ip s + 2 < length d")
    case True
    obtain x where x: "lzf_step d n s = Ok x" "\<forall>s'. x = Some s' \<longrightarrow> lz_inv d n s'"
      using lzf_step_spec [OF 1(2) True 1(3)] by blast
    show ?thesis
    proof (cases x)
      case None
      then show ?thesis using x True by (subst lzf_loop.simps) simp
    next
      case (Some s1)
      have "lzf_loop d n s = lzf_loop d n s1" using x(1) Some True by (subst lzf_loop.simps) simp
      then show ?thesis using 1(1) [OF True x(1) Some] x(2) Some 1(3) by simp
    qed
  next
    case False
    then show ?thesis using 1(2) by (subst lzf_loop.simps) simp
  qed
qed

lemma lzf_tail_spec:
  assumes inv: "lz_inv d n s" and "length d \<le> lz_ip s + 2" "lz_op s + 3 \<le> n"
  shows "\<exists>s'. lzf_tail d s = Ok s' \<and> lz_inv d n s' \<and> lz_ip s' = length d \<and> lz_op s' \<le> n"
proof -
  have ip: "lz_ip s \<le> length d" using inv by (simp add: lz_inv_def run_ok_def)
  have stop: "lzf_tail d t = Ok t" if "lz_ip t = length d" for t using that by (subst lzf_tail.simps) simp
  have go: "lzf_tail d t = lzf_tail d t'" if "lz_ip t < length d" "copy_literal d t = Ok t'" for t t'
    using that by (subst lzf_tail.simps) simp
  consider "lz_ip s = length d" | "lz_ip s + 1 = length d" | "lz_ip s + 2 = length d" using ip assms(2) by linarith
  then show ?thesis
  proof cases
    case 1
    then show ?thesis using stop inv assms(3) by auto
  next
    case 2
    obtain t where t: "copy_literal d s = Ok t" "lz_inv d n t" "lz_ip t = lz_ip s + 1"
      "lz_op t = lz_op s + 1 \<or> lz_op t = lz_op s + 2 \<and> lz_lit t = 0"
      using copy_literal_spec [OF inv] 2 assms(3) by auto
    have "lzf_tail d s = lzf_tail d t" using go t(1) 2 by simp
    then show ?thesis using t 2 stop [of t] assms(3) by auto
  next
    case 3
    obtain t where t: "copy_literal d s = Ok t" "lz_inv d n t" "lz_ip t = lz_ip s + 1"
      "lz_op t = lz_op s + 1 \<or> lz_op t = lz_op s + 2 \<and> lz_lit t = 0"
      using copy_literal_spec [OF inv] 3 assms(3) by auto
    obtain t' where t': "copy_literal d t = Ok t'" "lz_inv d n t'" "lz_ip t' = lz_ip t + 1"
      "lz_op t' = lz_op t + 1 \<or> lz_op t' = lz_op t + 2 \<and> lz_lit t' = 0"
      using copy_literal_spec [OF t(2)] t(3,4) 3 assms(3) by auto
    have lit: "lz_op t' = lz_op t + 1" if "lz_lit t = 0"
      using t'(1) that by (auto simp: copy_literal_def Let_def bind_outcome_Ok MAX_LIT_def split: if_splits)
    have "lzf_tail d s = lzf_tail d t'" using go [OF _ t(1)] go [OF _ t'(1)] t(3) 3 by simp
    moreover have "lz_op t' \<le> n" using t(4) t'(4) lit assms(3) by auto
    ultimately show ?thesis using t' t(3) 3 stop [of t'] by auto
  qed
qed

section \<open>Properties\<close>

lemma lzf_compress_spec:
  assumes htab: "\<forall>i. \<bar>htab i\<bar> < 2 ^ 63" and d: "length d \<noteq> 1" "length d < 2 ^ 62"
  shows "\<exists>x. lzf_compress htab d out = Ok x
    \<and> (\<forall>c. x = Some c \<longrightarrow> length c \<le> length out \<and> decodes d c 0 (length d))"
proof (cases "d = [] \<or> out = []")
  case True
  then show ?thesis by (auto simp: lzf_compress_def)
next
  case False
  then have "0 < length d" by simp
  then have "0 + 1 < length d" using d(1) by linarith
  then obtain h where h: "FRST d 0 = Ok h" using FRST_Ok [of 0 d] by blast
  define s where "s = \<lparr>lz_ip = 0, lz_op = 1, lz_lit = 0, lz_hval = h, lz_out = out, lz_htab = htab\<rparr>"
  have inv: "lz_inv d (length out) s" using htab by (simp add: lz_inv_def run_ok_def s_def decodes_Nil)
  obtain x where x: "lzf_loop d (length out) s = Ok x"
    "\<forall>s'. x = Some s' \<longrightarrow> lz_inv d (length out) s' \<and> length d \<le> lz_ip s' + 2"
    using lzf_loop_spec [OF inv d(2)] by blast
  show ?thesis
  proof (cases "x = None \<or> lz_op (the x) + 3 > length out")
    case True
    then show ?thesis using False h x(1) by (auto simp: lzf_compress_def s_def split: option.split)
  next
    case go: False
    then obtain s1 where s1: "x = Some s1" "lz_op s1 + 3 \<le> length out" by auto
    then obtain t where t: "lzf_tail d s1 = Ok t" "lz_inv d (length out) t" "lz_ip t = length d" "lz_op t \<le> length out"
      using lzf_tail_spec x(2) by blast
    then obtain out' where o: "stop_run (lz_out t) (lz_op t) (lz_lit t) = Ok out'" "length out' = length out"
      "decodes d (take (lz_op t - (if lz_lit t = 0 then 1 else 0)) out') 0 (length d)"
      using stop_run_spec [of d "lz_out t" "lz_op t" "lz_lit t" "lz_ip t"] unfolding lz_inv_def by auto
    have "lzf_compress htab d out = Ok (Some (take (lz_op t - (if lz_lit t = 0 then 1 else 0)) out'))"
      using False h x(1) s1 t(1) o(1) by (simp add: lzf_compress_def s_def)
    then show ?thesis using o by auto
  qed
qed

text \<open>Six equal bytes: two literals, a match, and a literal.\<close>

lemma lzf_compress_example:
  "lzf_compress (\<lambda>i. 0) [7, 7, 7, 7, 7, 7] [0, 0, 0, 0, 0, 0, 0, 0, 0, 0, 0, 0] = Ok (Some [1, 7, 7, 32, 0, 0, 7])"
  by (simp add: lzf_compress_def FRST_def NEXT_def IDX_def lzf_loop.simps lzf_step_def is_match_def MAX_OFF_def
      lzf_emit_literal_def copy_literal_def lzf_emit_match_def Let_def MAX_LIT_def MAX_REF_def stop_run_def
      match_length_def match_rest.simps backref_def lzf_tail.simps)

text \<open>Property C38: Decompressing what \<open>lzf_compress\<close> wrote gives the input back, for every initial content of the
  hash table and every size of the output buffer.\<close>

theorem lzf_roundtrip:
  assumes "\<forall>i. \<bar>htab i\<bar> < 2 ^ 63" "length d \<noteq> 1" "length d < 2 ^ 62" "length d \<le> out_len"
    and "lzf_compress htab d out = Ok (Some c)"
  shows "lzf_decompress c out_len = Ok (Inr d)"
proof -
  have "decodes d c 0 (length d)" using lzf_compress_spec [OF assms(1-3), of out] assms(5) by simp
  then have "lzf_rounds out_len (c @ []) (take 0 d) = lzf_rounds out_len [] (take (length d) d)"
    using assms(4) unfolding decodes_def by blast
  also have "\<dots> = Ok (Inr d)" by (subst lzf_rounds.simps) simp
  finally show ?thesis by (simp add: lzf_decompress_def)
qed

theorem lzf_roundtrip_witness:
  "lzf_decompress [1, 7, 7, 32, 0, 0, 7] 6 = Ok (Inr [7, 7, 7, 7, 7, 7])"
  by (rule lzf_roundtrip [OF _ _ _ _ lzf_compress_example]) simp_all

text \<open>Property C39: The compressor does not leave its buffers, and writes at most the space it is given, whatever
  the uninitialised hash table holds.\<close>

theorem lzf_compress_safe:
  assumes "\<forall>i. \<bar>htab i\<bar> < 2 ^ 63" "length d \<noteq> 1" "length d < 2 ^ 62"
  shows "\<exists>x. lzf_compress htab d out = Ok x \<and> (\<forall>c. x = Some c \<longrightarrow> length c \<le> length out)"
  using lzf_compress_spec [OF assms, of out] by blast

theorem lzf_compress_safe_witness:
  "\<exists>x. lzf_compress (\<lambda>i. 0) [7, 7, 7] [0, 0] = Ok x \<and> (\<forall>c. x = Some c \<longrightarrow> length c \<le> length ([0, 0] :: bytes))"
  by (rule lzf_compress_safe) simp_all

text \<open>Property C40: The decompressor is safe on every input: it returns, reads only its input and the output it
  has written, and never writes more than the output's size.\<close>

theorem lzf_decompress_safe:
  "\<exists>r. lzf_decompress c out_len = Ok r \<and> (case r of Inl e \<Rightarrow> True | Inr d \<Rightarrow> length d \<le> out_len)"
  using lzf_rounds_safe [of "[]" out_len c] by (auto simp: lzf_decompress_def split: sum.split)

text \<open>On an input of one byte the compressor reads the byte after it.\<close>

lemma lzf_compress_one_byte:
  assumes "out \<noteq> []"
  shows "lzf_compress htab [b] out = Abort"
  using assms by (simp add: lzf_compress_def FRST_def load_def)

end
