(* ===== verification/Slot_Interface.thy ===== *)
theory Slot_Interface
  imports Prelude
begin

text \<open>
  The contract of a counter of slots: an array of natural numbers behind operations that add to one
  number, find the slot of the n-th unit and step to the next slot that is not empty. A walk from the
  first slot by steps visits exactly the non-empty slots.
\<close>

definition nonzero_from :: "nat \<Rightarrow> nat list \<Rightarrow> nat list" where
  "nonzero_from i a = filter (\<lambda>j. 0 < a ! j) [i..<length a]"

lemma nonzero_from_end: "\<forall>j. i \<le> j \<and> j < length a \<longrightarrow> a ! j = 0 \<Longrightarrow> nonzero_from i a = []"
  by (simp add: nonzero_from_def filter_empty_conv)

lemma nonzero_from_step:
  assumes "i \<le> k" "k < length a" "0 < a ! k" "\<forall>j. i \<le> j \<and> j < k \<longrightarrow> a ! j = 0"
  shows "nonzero_from i a = k # nonzero_from (Suc k) a"
proof -
  have "[i..<length a] = [i..<k] @ k # [Suc k..<length a]"
    using assms(1,2) by (metis le_add_diff_inverse less_imp_le_nat upt_add_eq_append upt_conv_Cons)
  then show ?thesis using assms(3,4) by (simp add: nonzero_from_def)
qed

text \<open>The slots met from \<open>first\<close> on by \<open>next_slot\<close>, at most \<open>fuel\<close> of them; -1 stands for no slot.\<close>

fun slot_walk :: "(int \<Rightarrow> int outcome) \<Rightarrow> nat \<Rightarrow> int \<Rightarrow> nat list outcome" where
  "slot_walk next_slot 0 i = (if i = - 1 then Ok [] else Abort)"
| "slot_walk next_slot (Suc fuel) i =
     (if i = - 1 then Ok []
      else bind_outcome (next_slot i) (\<lambda>j. bind_outcome (slot_walk next_slot fuel j) (\<lambda>js. Ok (nat i # js))))"

locale slot_counter =
  fixes inv :: "'s \<Rightarrow> nat list \<Rightarrow> bool"
    and add :: "'s \<Rightarrow> int \<Rightarrow> int \<Rightarrow> 's outcome"
    and find :: "'s \<Rightarrow> nat \<Rightarrow> nat outcome"
    and next_slot :: "'s \<Rightarrow> int \<Rightarrow> int outcome"
    and reset :: "'s \<Rightarrow> 's"
  assumes add_spec: "inv s a \<Longrightarrow> i < length a \<Longrightarrow> fits_signed 64 delta \<Longrightarrow> 0 \<le> int (a ! i) + delta \<Longrightarrow>
        int (sum_list a) + delta < 2 ^ 64 \<Longrightarrow>
        \<exists>t. add s (int i) delta = Ok t \<and> inv t (a[i := nat (int (a ! i) + delta)])"
    and find_spec: "inv s a \<Longrightarrow> 0 < target \<Longrightarrow> target \<le> sum_list a \<Longrightarrow>
        \<exists>i. find s target = Ok i \<and> i < length a \<and> sum_list (take i a) < target \<and> target \<le> sum_list (take (i + 1) a)"
    and next_spec: "inv s a \<Longrightarrow> i < length a \<Longrightarrow> sum_list a + 1 < 2 ^ 64 \<Longrightarrow>
        \<exists>r. next_slot s (int i) = Ok r
          \<and> (if \<forall>j. i < j \<and> j < length a \<longrightarrow> a ! j = 0 then r = - 1
             else \<exists>k. r = int k \<and> i < k \<and> k < length a \<and> 0 < a ! k \<and> (\<forall>j. i < j \<and> j < k \<longrightarrow> a ! j = 0))"
    and reset_spec: "inv s a \<Longrightarrow> inv (reset s) (replicate (length a) 0)"
begin

text \<open>A unit added to and one taken from a slot.\<close>

lemma add_one:
  assumes "inv s a" "i < length a" "sum_list a + 1 < 2 ^ 64"
  shows "\<exists>t. add s (int i) 1 = Ok t \<and> inv t (a[i := Suc (a ! i)])"
proof -
  have "int (sum_list a) + 1 < 2 ^ 64" using assms(3) by simp
  then have "\<exists>t. add s (int i) 1 = Ok t \<and> inv t (a[i := nat (int (a ! i) + 1)])"
    using assms by (intro add_spec) (simp_all add: fits_signed_def)
  then show ?thesis by (simp add: nat_add_distrib)
qed

lemma take_one:
  assumes "inv s a" "i < length a" "sum_list a < 2 ^ 64" "0 < a ! i"
  shows "\<exists>t. add s (int i) (- 1) = Ok t \<and> inv t (a[i := a ! i - 1])"
proof -
  have "int (sum_list a) - 1 < 2 ^ 64" using assms(3) by simp
  then have "\<exists>t. add s (int i) (- 1) = Ok t \<and> inv t (a[i := nat (int (a ! i) + - 1)])"
    using assms by (intro add_spec) (simp_all add: fits_signed_def)
  then show ?thesis using assms(4) by (simp add: nat_diff_distrib)
qed

text \<open>The first unit lies in the first slot that is not empty.\<close>

lemma find_first:
  assumes "inv s a" "0 < sum_list a"
  shows "\<exists>k. find s 1 = Ok k \<and> k < length a \<and> nonzero_from 0 a = k # nonzero_from (Suc k) a"
proof -
  obtain k where k: "find s 1 = Ok k" "k < length a" "sum_list (take k a) < 1" "1 \<le> sum_list (take (k + 1) a)"
    using find_spec [OF assms(1), of 1] assms(2) by auto
  have "a ! j = 0" if "j < k" for j
    using k(2,3) that nth_mem [of j "take k a"] by simp
  moreover have "sum_list (take (k + 1) a) = sum_list (take k a) + a ! k" using k(2) by (simp add: take_Suc_conv_app_nth)
  then have "0 < a ! k" using k(3,4) by linarith
  ultimately show ?thesis using k(1,2) nonzero_from_step [of 0 k a] by auto
qed

lemma walk_from:
  assumes "inv s a" "sum_list a + 1 < 2 ^ 64"
  shows "k < length a \<Longrightarrow> length a - k \<le> fuel \<Longrightarrow>
    slot_walk (next_slot s) fuel (int k) = Ok (k # nonzero_from (Suc k) a)"
proof (induction fuel arbitrary: k)
  case (Suc fuel)
  obtain r where r: "next_slot s (int k) = Ok r"
    "if \<forall>j. k < j \<and> j < length a \<longrightarrow> a ! j = 0 then r = - 1
     else \<exists>i. r = int i \<and> k < i \<and> i < length a \<and> 0 < a ! i \<and> (\<forall>j. k < j \<and> j < i \<longrightarrow> a ! j = 0)"
    using next_spec [OF assms(1) Suc.prems(1) assms(2)] by blast
  show ?case
  proof (cases "\<forall>j. k < j \<and> j < length a \<longrightarrow> a ! j = 0")
    case True
    then have "r = - 1" "nonzero_from (Suc k) a = []" using r(2) nonzero_from_end [of "Suc k" a] by auto
    then show ?thesis using r(1) by (cases fuel) simp_all
  next
    case False
    then obtain i where i: "r = int i" "k < i" "i < length a" "0 < a ! i" "\<forall>j. k < j \<and> j < i \<longrightarrow> a ! j = 0"
      using r(2) by (auto split: if_splits)
    then have "nonzero_from (Suc k) a = i # nonzero_from (Suc i) a" by (intro nonzero_from_step) auto
    then show ?thesis using r(1) i(1) Suc.IH [OF i(3)] i(2) Suc.prems by simp
  qed
qed simp

end

end
