(* ===== verification/Fwtree.thy ===== *)
theory Fwtree
  imports Slot_Interface
begin

text \<open>
  The Fenwick tree of \<open>fwtree.c\<close>: an array of partial sums with one cell per index (1-based), over
  which prefix sums, updates and the search for a cumulative sum take logarithmic time. Cells and sums
  are 64-bit unsigned numbers, a delta is a signed one.
\<close>

section \<open>Definitions\<close>

record fenwickTree =
  ft_tree :: "nat list"
  ft_size_bits :: nat
  ft_size :: nat
  ft_total :: nat

definition fwTreeCreate :: "nat \<Rightarrow> fenwickTree" where
  "fwTreeCreate sizeBits =
     \<lparr>ft_tree = replicate (2 ^ sizeBits + 1) 0, ft_size_bits = sizeBits, ft_size = 2 ^ sizeBits, ft_total = 0\<rparr>"

text \<open>\<open>idx & -idx\<close> on an \<open>int\<close>.\<close>

definition lowbit :: "nat \<Rightarrow> nat" where
  "lowbit idx = nat (int idx AND - int idx)"

lemma lowbit_double: "lowbit (2 * k) = 2 * lowbit k"
proof -
  have "int (2 * k) AND - int (2 * k) = push_bit 1 (int k) AND push_bit 1 (- int k)"
    by (simp add: push_bit_eq_mult mult.commute)
  also have "\<dots> = push_bit 1 (int k AND - int k)" by (simp only: push_bit_and)
  finally have "int (2 * k) AND - int (2 * k) = push_bit 1 (int k AND - int k)" .
  then show ?thesis by (simp add: lowbit_def push_bit_eq_mult nat_mult_distrib)
qed

lemma lowbit_odd: "lowbit (2 * k + 1) = 1"
proof -
  have "int (2 * k + 1) AND - int (2 * k + 1) = 1"
  proof (rule bit_eqI)
    fix n
    have "- int (2 * k + 1) = NOT (2 * int k)" by (simp add: not_int_def)
    then have "bit (int (2 * k + 1) AND - int (2 * k + 1)) n = (bit (2 * int k + 1) n \<and> \<not> bit (2 * int k) n)"
      by (simp only: bit_and_iff bit_not_int_iff of_nat_add of_nat_mult of_nat_numeral of_nat_1)
    also have "\<dots> = bit (1 :: int) n" by (cases n) (simp_all add: bit_0 bit_Suc)
    finally show "bit (int (2 * k + 1) AND - int (2 * k + 1)) n = bit (1 :: int) n" .
  qed
  then show ?thesis by (simp add: lowbit_def)
qed

lemma lowbit_pos: "0 < k \<Longrightarrow> 0 < lowbit k \<and> lowbit k \<le> k"
proof (induction k rule: less_induct)
  case (less k)
  show ?case
  proof (cases "even k")
    case True
    then obtain m where m: "k = 2 * m" by (rule evenE)
    then show ?thesis using less.IH [of m] less.prems by (simp add: lowbit_double)
  next
    case False
    then obtain m where "k = 2 * m + 1" by (rule oddE)
    then show ?thesis using lowbit_odd [of m] by simp
  qed
qed

lemma lowbit_0: "lowbit 0 = 0"
  by (simp add: lowbit_def)

text \<open>The loops of \<open>fwTreePrefixSum\<close> and \<open>fwTreeUpdate\<close>, on the 1-based index.\<close>

function prefix_loop :: "nat list \<Rightarrow> nat \<Rightarrow> nat \<Rightarrow> nat outcome" where
  "prefix_loop tree idx acc =
     (if idx > 0 then
        c_assert (idx < length tree) (prefix_loop tree (idx - lowbit idx) ((acc + tree ! idx) mod 2 ^ 64))
      else Ok acc)"
  by pat_completeness auto

termination prefix_loop
  by (relation "measure (\<lambda>(tree, idx, acc). idx)") (auto dest: lowbit_pos)

declare prefix_loop.simps [simp del]

definition fwTreePrefixSum :: "fenwickTree \<Rightarrow> int \<Rightarrow> nat outcome" where
  "fwTreePrefixSum ft idx =
     (if idx < 0 then Ok 0
      else
        let idx = (if idx \<ge> int (ft_size ft) then int (ft_size ft) - 1 else idx)
        in prefix_loop (ft_tree ft) (nat (idx + 1)) 0)"

function update_loop :: "nat list \<Rightarrow> nat \<Rightarrow> nat \<Rightarrow> int \<Rightarrow> nat list outcome" where
  "update_loop tree sz idx delta =
     (if idx \<le> sz \<and> idx \<noteq> 0 then
        c_assert (idx < length tree \<and> (delta < 0 \<longrightarrow> tree ! idx \<ge> c_unsigned 64 (- delta)))
          (update_loop (tree[idx := c_unsigned 64 (int (tree ! idx) + delta)]) sz (idx + lowbit idx) delta)
      else Ok tree)"
  by pat_completeness auto

termination update_loop
  by (relation "measure (\<lambda>(tree, n, idx, delta). Suc n - idx)") (auto dest: lowbit_pos)

declare update_loop.simps [simp del]

definition fwTreeUpdate :: "fenwickTree \<Rightarrow> int \<Rightarrow> int \<Rightarrow> fenwickTree outcome" where
  "fwTreeUpdate ft idx delta =
     (if idx < 0 \<or> idx \<ge> int (ft_size ft) then Ok ft
      else
        bind_outcome (update_loop (ft_tree ft) (ft_size ft) (nat (idx + 1)) delta) (\<lambda>tree.
        Ok (ft\<lparr>ft_tree := tree, ft_total := c_unsigned 64 (int (ft_total ft) + delta)\<rparr>)))"

text \<open>The loop of \<open>fwTreeFindIndex\<close> over the powers of two, given by their exponents plus one.\<close>

fun find_loop :: "nat list \<Rightarrow> nat \<Rightarrow> nat \<Rightarrow> nat \<Rightarrow> nat outcome" where
  "find_loop tree 0 result target = Ok result"
| "find_loop tree (Suc k) result target =
     (let current = result + 2 ^ k in
      c_assert (current < length tree)
        (if target > tree ! current then find_loop tree k current (target - tree ! current)
         else find_loop tree k result target))"

definition fwTreeFindIndex :: "fenwickTree \<Rightarrow> nat \<Rightarrow> nat outcome" where
  "fwTreeFindIndex ft target =
     (if target = 0 then Ok 0 else find_loop (ft_tree ft) (ft_size_bits ft + 1) 0 target)"

definition fwTreeFindFirstNonEmpty :: "fenwickTree \<Rightarrow> nat outcome" where
  "fwTreeFindFirstNonEmpty ft = fwTreeFindIndex ft 1"

definition fwTreeFindNextNonEmpty :: "fenwickTree \<Rightarrow> int \<Rightarrow> int outcome" where
  "fwTreeFindNextNonEmpty ft idx =
     (if idx < 0 \<or> idx \<ge> int (ft_size ft) then Ok (- 1)
      else
        bind_outcome (fwTreePrefixSum ft idx) (\<lambda>s.
        let nxtsum = (s + 1) mod 2 ^ 64 in
        if nxtsum \<le> ft_total ft then bind_outcome (fwTreeFindIndex ft nxtsum) (\<lambda>i. Ok (int i)) else Ok (- 1)))"

definition fwTreeClear :: "fenwickTree \<Rightarrow> fenwickTree" where
  "fwTreeClear ft = ft\<lparr>ft_tree := replicate (ft_size ft + 1) 0, ft_total := 0\<rparr>"

section \<open>What a cell sums\<close>

text \<open>Cell \<open>k\<close> is the sum of the values at the 1-based indices it covers.\<close>

definition covers :: "nat \<Rightarrow> nat \<Rightarrow> bool" where
  "covers k p \<longleftrightarrow> k - lowbit k < p \<and> p \<le> k"

lemma covers_self: "0 < p \<Longrightarrow> covers p p"
  using lowbit_pos [of p] by (simp add: covers_def)

text \<open>The lowest bit divides the number an odd number of times.\<close>

lemma lowbit_form: "0 < k \<Longrightarrow> \<exists>v a. lowbit k = 2 ^ v \<and> k = (2 * a + 1) * 2 ^ v"
proof (induction k rule: less_induct)
  case (less k)
  show ?case
  proof (cases "even k")
    case True
    then obtain m where m: "k = 2 * m" by (rule evenE)
    then obtain v a where "lowbit m = 2 ^ v" "m = (2 * a + 1) * 2 ^ v" using less.IH [of m] less.prems by auto
    moreover have "lowbit k = 2 * lowbit m" by (simp only: m lowbit_double)
    ultimately have "lowbit k = 2 ^ Suc v" "k = (2 * a + 1) * 2 ^ Suc v" using m by simp_all
    then show ?thesis by blast
  next
    case False
    then obtain m where "k = 2 * m + 1" by (rule oddE)
    then have "lowbit k = 2 ^ 0" "k = (2 * m + 1) * 2 ^ 0" using lowbit_odd [of m] by simp_all
    then show ?thesis by blast
  qed
qed

lemma multiples_apart: "x dvd a \<Longrightarrow> x dvd b \<Longrightarrow> a < b \<Longrightarrow> a + x \<le> (b :: nat)"
  by (metis dvd_diff_nat dvd_imp_le le_add_diff_inverse less_imp_le nat_add_left_cancel_le zero_less_diff)

lemma covers_next:
  assumes "0 < p" "k \<noteq> p"
  shows "covers k p \<longleftrightarrow> covers k (p + lowbit p)"
proof (cases "k = 0")
  case False
  obtain v a where p: "lowbit p = 2 ^ v" "p = (2 * a + 1) * 2 ^ v" using lowbit_form [OF assms(1)] by blast
  obtain w c where k: "lowbit k = 2 ^ w" "k = (2 * c + 1) * 2 ^ w" using lowbit_form [of k] False by blast
  have lo: "k - lowbit k = 2 * c * 2 ^ w" using k by simp
  have lo': "k = k - lowbit k + 2 ^ w" using k lo by simp
  have p_next: "p + lowbit p = (a + 1) * 2 ^ Suc v" using p by simp
  show ?thesis
  proof (cases "w \<le> v")
    case True
    then have d: "(2 :: nat) ^ w dvd 2 ^ v" by (simp add: le_imp_power_dvd)
    have "\<not> covers k p"
    proof
      assume c: "covers k p"
      have "2 ^ w dvd p" using d p(2) by simp
      moreover have "2 ^ w dvd k - lowbit k" using lo by simp
      ultimately have "k - lowbit k + 2 ^ w \<le> p" using c multiples_apart unfolding covers_def by blast
      then show False using c lo' assms(2) unfolding covers_def by linarith
    qed
    moreover have "\<not> covers k (p + lowbit p)"
    proof
      assume c: "covers k (p + lowbit p)"
      have "2 ^ w dvd p + lowbit p" using d p by simp
      moreover have "2 ^ w dvd k - lowbit k" using lo by simp
      ultimately have "k - lowbit k + 2 ^ w \<le> p + lowbit p" using c multiples_apart unfolding covers_def by blast
      then have eq: "k = p + lowbit p" using c lo' unfolding covers_def by linarith
      then have "(2 * c + 1) * 2 ^ w = (a + 1) * 2 ^ (Suc v - w) * 2 ^ w"
      proof -
        have "(2 :: nat) ^ Suc v = 2 ^ (Suc v - w) * 2 ^ w" using True by (simp add: power_add [symmetric] del: power_Suc)
        then show ?thesis using k(2) p_next eq by (simp only: mult.assoc)
      qed
      then have "2 * c + 1 = (a + 1) * 2 ^ (Suc v - w)" by (metis mult_right_cancel power_not_zero zero_neq_numeral)
      moreover have "even ((a + 1) * 2 ^ (Suc v - w))" using True by simp
      ultimately show False by (metis even_plus_one_iff dvd_triv_left)
    qed
    ultimately show ?thesis by simp
  next
    case False
    then have d: "(2 :: nat) ^ Suc v dvd 2 ^ w" by (intro le_imp_power_dvd) simp
    have dk: "2 ^ Suc v dvd k" "2 ^ Suc v dvd k - lowbit k" "2 ^ Suc v dvd p + lowbit p"
      using d k(2) lo p_next by (auto intro: dvd_mult)
    show ?thesis
    proof
      assume c: "covers k p"
      have "p < k" using c assms(2) unfolding covers_def by simp
      have "2 * a * 2 ^ v + 2 ^ Suc v \<le> k"
        by (rule multiples_apart) (use dk(1) \<open>p < k\<close> p(2) in auto)
      then have "p + lowbit p \<le> k" using p by simp
      then show "covers k (p + lowbit p)" using c unfolding covers_def by simp
    next
      assume c: "covers k (p + lowbit p)"
      then have "k - lowbit k + 2 ^ Suc v \<le> p + lowbit p" using multiples_apart dk(2,3) unfolding covers_def by blast
      moreover have "(0 :: nat) < 2 ^ v" by simp
      ultimately have "k - lowbit k < p" using p(1) unfolding power_Suc by linarith
      then show "covers k p" using c unfolding covers_def by simp
    qed
  qed
qed (use assms lowbit_pos [of p] in \<open>simp add: covers_def\<close>)

section \<open>The operations\<close>

text \<open>The tree represents a list of counts.\<close>

definition fw_ok :: "fenwickTree \<Rightarrow> nat list \<Rightarrow> bool" where
  "fw_ok ft a \<longleftrightarrow>
     length a = 2 ^ ft_size_bits ft \<and> ft_size ft = length a \<and> length (ft_tree ft) = length a + 1
     \<and> ft_total ft = sum_list a \<and> sum_list a < 2 ^ 64
     \<and> (\<forall>k. 0 < k \<and> k \<le> length a \<longrightarrow> ft_tree ft ! k = (\<Sum>j = k - lowbit k..<k. a ! j))"

lemma sum_list_split: "r \<le> length a \<Longrightarrow> sum_list a = (\<Sum>j = 0..<r. a ! j) + (\<Sum>j = r..<length a. a ! j)" for a :: "nat list"
  by (simp add: sum_list_sum_nth sum.atLeastLessThan_concat)

lemma fwTreeCreate_ok: "fw_ok (fwTreeCreate b) (replicate (2 ^ b) 0)"
proof -
  have "(\<Sum>j = k - lowbit k..<k. replicate (2 ^ b) 0 ! j) = (0 :: nat)" if "k \<le> 2 ^ b" for k
    using that by (intro sum.neutral) auto
  moreover have "k - Suc 0 < 2 ^ b" if "0 < k" "k \<le> 2 ^ b" for k :: nat using that by linarith
  ultimately show ?thesis by (simp add: fw_ok_def fwTreeCreate_def sum_list_replicate)
qed

lemma prefix_loop_spec:
  assumes "fw_ok ft a"
  shows "idx \<le> length a \<Longrightarrow> acc + (\<Sum>j = 0..<idx. a ! j) < 2 ^ 64 \<Longrightarrow>
    prefix_loop (ft_tree ft) idx acc = Ok (acc + (\<Sum>j = 0..<idx. a ! j))"
proof (induction idx arbitrary: acc rule: less_induct)
  case (less idx)
  show ?case
  proof (cases "idx = 0")
    case True
    then show ?thesis by (subst prefix_loop.simps) simp
  next
    case False
    then have lb: "0 < lowbit idx" "lowbit idx \<le> idx" using lowbit_pos [of idx] by simp_all
    let ?lo = "idx - lowbit idx"
    have split: "(\<Sum>j = 0..<idx. a ! j) = (\<Sum>j = 0..<?lo. a ! j) + (\<Sum>j = ?lo..<idx. a ! j)"
      by (simp add: sum.atLeastLessThan_concat)
    have cell: "ft_tree ft ! idx = (\<Sum>j = ?lo..<idx. a ! j)" using assms False less.prems(1) by (simp add: fw_ok_def)
    have "prefix_loop (ft_tree ft) idx acc = prefix_loop (ft_tree ft) ?lo (acc + (\<Sum>j = ?lo..<idx. a ! j))"
      using False assms less.prems cell split by (subst prefix_loop.simps) (simp add: fw_ok_def)
    also have "\<dots> = Ok (acc + (\<Sum>j = ?lo..<idx. a ! j) + (\<Sum>j = 0..<?lo. a ! j))"
      by (rule less.IH) (use lb less.prems split in auto)
    finally show ?thesis using split by simp
  qed
qed

lemma fwTreePrefixSum_spec:
  assumes "fw_ok ft a"
  shows "fwTreePrefixSum ft idx = Ok (sum_list (take (nat (idx + 1)) a))"
proof (cases "idx < 0")
  case True
  then show ?thesis by (simp add: fwTreePrefixSum_def)
next
  case False
  define r where "r = min (nat (idx + 1)) (length a)"
  have r: "r \<le> length a" by (simp add: r_def)
  have n: "0 < length a" "int (ft_size ft) = int (length a)" using assms by (simp_all add: fw_ok_def)
  have "nat ((if idx \<ge> int (ft_size ft) then int (ft_size ft) - 1 else idx) + 1) = r"
    using False n by (auto simp: r_def min_def)
  moreover have "sum_list a < 2 ^ 64" using assms by (simp add: fw_ok_def)
  moreover have "sum_list (take (nat (idx + 1)) a) = (\<Sum>j = 0..<r. a ! j)"
    by (simp add: sum_list_sum_nth r_def min.commute)
  ultimately show ?thesis using False prefix_loop_spec [OF assms r, of 0] sum_list_split [OF r]
    by (simp add: fwTreePrefixSum_def Let_def)
qed

lemma update_loop_spec:
  "0 < p \<Longrightarrow> length tree = n + 1 \<Longrightarrow>
   \<forall>k. 0 < k \<and> k \<le> n \<and> covers k p \<and> delta < 0 \<longrightarrow> c_unsigned 64 (- delta) \<le> tree ! k \<Longrightarrow>
   \<exists>tree'. update_loop tree n p delta = Ok tree' \<and> length tree' = n + 1
     \<and> (\<forall>k. 0 < k \<and> k \<le> n \<longrightarrow>
          tree' ! k = (if covers k p then c_unsigned 64 (int (tree ! k) + delta) else tree ! k))"
proof (induction tree n p delta rule: update_loop.induct)
  case (1 tree n p delta)
  show ?case
  proof (cases "p \<le> n")
    case False
    then have "\<not> covers k p" if "k \<le> n" for k using that by (simp add: covers_def)
    then show ?thesis using False 1(3) by (subst update_loop.simps) auto
  next
    case True
    let ?t = "tree[p := c_unsigned 64 (int (tree ! p) + delta)]"
    have c: "p < length tree \<and> (delta < 0 \<longrightarrow> tree ! p \<ge> c_unsigned 64 (- delta))"
      using True 1(2-4) covers_self [OF 1(2)] by auto
    have nc: "\<not> covers p (p + lowbit p)" using lowbit_pos [OF 1(2)] by (simp add: covers_def)
    have nxt: "covers k (p + lowbit p) = covers k p" if "k \<noteq> p" for k using covers_next [OF 1(2) that] by simp
    have pre: "\<forall>k. 0 < k \<and> k \<le> n \<and> covers k (p + lowbit p) \<and> delta < 0 \<longrightarrow> c_unsigned 64 (- delta) \<le> ?t ! k"
      using 1(4) nxt nc by (metis nth_list_update_neq)
    obtain tree' where t: "update_loop ?t n (p + lowbit p) delta = Ok tree'" "length tree' = n + 1"
      "\<forall>k. 0 < k \<and> k \<le> n \<longrightarrow> tree' ! k = (if covers k (p + lowbit p) then c_unsigned 64 (int (?t ! k) + delta) else ?t ! k)"
      using 1(1) [OF _ _ _ pre] True 1(2,3) by auto
    have "update_loop tree n p delta = Ok tree'" using True c 1(2) t(1) by (subst update_loop.simps) simp
    moreover have "tree' ! k = (if covers k p then c_unsigned 64 (int (tree ! k) + delta) else tree ! k)"
      if "0 < k" "k \<le> n" for k
    proof (cases "k = p")
      case True
      then show ?thesis using t(3) that nc covers_self [OF 1(2)] c by simp
    next
      case False
      then show ?thesis using t(3) that nxt [OF False] by simp
    qed
    ultimately show ?thesis using t(2) by blast
  qed
qed

lemma sum_update:
  fixes a :: "nat list"
  assumes "i < length a" "hi \<le> length a"
  shows "int (\<Sum>j = lo..<hi. a[i := v] ! j) =
    int (\<Sum>j = lo..<hi. a ! j) + (if lo \<le> i \<and> i < hi then int v - int (a ! i) else 0)"
proof (cases "lo \<le> i \<and> i < hi")
  case True
  have s: "(\<Sum>j = lo..<hi. f j) = f i + (\<Sum>j \<in> {lo..<hi} - {i}. f j)" for f :: "nat \<Rightarrow> nat"
    using True by (intro sum.remove) auto
  have "(\<Sum>j \<in> {lo..<hi} - {i}. a[i := v] ! j) = (\<Sum>j \<in> {lo..<hi} - {i}. a ! j)"
    by (rule sum.cong) auto
  then show ?thesis using True assms unfolding s [of "\<lambda>j. a[i := v] ! j"] s [of "\<lambda>j. a ! j"] by simp
next
  case False
  have "(\<Sum>j = lo..<hi. a[i := v] ! j) = (\<Sum>j = lo..<hi. a ! j)"
    by (rule sum.cong) (use False in auto)
  then show ?thesis using False by auto
qed

lemma sum_sub_le: "hi \<le> length a \<Longrightarrow> (\<Sum>j = lo..<hi. a ! j) \<le> sum_list a" for a :: "nat list"
  unfolding sum_list_sum_nth by (rule sum_mono2) auto

lemma covers_range: "covers k (Suc i) \<longleftrightarrow> k - lowbit k \<le> i \<and> i < k"
  by (auto simp: covers_def)

text \<open>An update adds the delta to one count, as long as the count does not become negative and the total
  stays below \<open>2 ^ 64\<close>.\<close>

lemma fwTreeUpdate_spec:
  assumes ok: "fw_ok ft a" and i: "i < length a" and delta: "fits_signed 64 delta"
    and v: "0 \<le> int (a ! i) + delta" "int (sum_list a) + delta < 2 ^ 64"
  shows "\<exists>ft'. fwTreeUpdate ft (int i) delta = Ok ft' \<and> fw_ok ft' (a[i := nat (int (a ! i) + delta)])
    \<and> ft_size_bits ft' = ft_size_bits ft"
proof -
  let ?v = "nat (int (a ! i) + delta)" and ?n = "length a"
  have len: "length a = 2 ^ ft_size_bits ft" "ft_size ft = ?n" "length (ft_tree ft) = ?n + 1" "ft_total ft = sum_list a"
    "sum_list a < 2 ^ 64" and cell: "\<And>k. 0 < k \<Longrightarrow> k \<le> ?n \<Longrightarrow> ft_tree ft ! k = (\<Sum>j = k - lowbit k..<k. a ! j)"
    using ok by (simp_all add: fw_ok_def)
  have pre: "\<forall>k. 0 < k \<and> k \<le> ?n \<and> covers k (i + 1) \<and> delta < 0 \<longrightarrow> c_unsigned 64 (- delta) \<le> ft_tree ft ! k"
  proof (intro allI impI, elim conjE)
    fix k assume k: "0 < k" "k \<le> ?n" "covers k (i + 1)" "delta < 0"
    have "a ! i \<le> (\<Sum>j = k - lowbit k..<k. a ! j)"
      using k(3) by (intro member_le_sum) (simp_all add: covers_range)
    moreover have "- delta < 2 ^ 64" using delta by (simp add: fits_signed_def)
    ultimately show "c_unsigned 64 (- delta) \<le> ft_tree ft ! k"
      using k v(1) cell [OF k(1,2)] by (simp add: c_unsigned_id)
  qed
  obtain tree' where t: "update_loop (ft_tree ft) ?n (i + 1) delta = Ok tree'" "length tree' = ?n + 1"
    "\<forall>k. 0 < k \<and> k \<le> ?n \<longrightarrow>
      tree' ! k = (if covers k (i + 1) then c_unsigned 64 (int (ft_tree ft ! k) + delta) else ft_tree ft ! k)"
    using update_loop_spec [of "i + 1" "ft_tree ft" ?n delta] len(3) pre by auto
  let ?a = "a[i := ?v]"
  have total: "int (sum_list ?a) = int (sum_list a) + delta"
    using sum_update [OF i, of ?n ?v 0] i v(1) by (simp add: sum_list_sum_nth)
  have "tree' ! k = (\<Sum>j = k - lowbit k..<k. ?a ! j)" if k: "0 < k" "k \<le> ?n" for k
  proof -
    define S where "S = (\<Sum>j = k - lowbit k..<k. ?a ! j)"
    have s: "int S = int (ft_tree ft ! k) + (if covers k (i + 1) then delta else 0)"
      unfolding S_def using sum_update [OF i k(2), of ?v "k - lowbit k"] cell [OF k] v(1) by (simp add: covers_range)
    have "S \<le> sum_list ?a" using sum_sub_le [of k ?a] k by (simp add: S_def)
    then have "int S < 2 ^ 64" using total v(2) by linarith
    then have "c_unsigned 64 (int S) = S" by (simp add: c_unsigned_id)
    then have "tree' ! k = S" using t(3) k s by (cases "covers k (i + 1)") auto
    then show ?thesis by (simp only: S_def)
  qed
  moreover have "c_unsigned 64 (int (sum_list a) + delta) = sum_list ?a" "sum_list ?a < 2 ^ 64"
  proof -
    have "int (sum_list ?a) < int (2 ^ 64)" using total v(2) by (simp only: of_nat_power of_nat_numeral)
    then show "sum_list ?a < 2 ^ 64" by (simp only: of_nat_less_iff)
    have "0 \<le> int (sum_list a) + delta" using total by linarith
    then show "c_unsigned 64 (int (sum_list a) + delta) = sum_list ?a"
      using c_unsigned_id v(2) total by (metis nat_int)
  qed
  moreover have "fwTreeUpdate ft (int i) delta =
      Ok (ft\<lparr>ft_tree := tree', ft_total := c_unsigned 64 (int (ft_total ft) + delta)\<rparr>)"
    using t(1) i len(2) by (simp add: fwTreeUpdate_def nat_add_distrib)
  ultimately show ?thesis using t(2) len by (simp add: fw_ok_def)
qed

section \<open>Searching\<close>

lemma lowbit_add: "2 ^ Suc k dvd r \<Longrightarrow> lowbit (r + 2 ^ k) = 2 ^ k"
proof (induction k arbitrary: r)
  case 0
  then show ?case using lowbit_odd by auto
next
  case (Suc k)
  from Suc.prems obtain m where m: "r = 2 ^ Suc (Suc k) * m" by (rule dvdE)
  have "r + 2 ^ Suc k = 2 * (2 ^ Suc k * m + 2 ^ k)" using m by simp
  moreover have "lowbit (2 ^ Suc k * m + 2 ^ k) = 2 ^ k" by (rule Suc.IH) simp
  ultimately show ?case by (simp only: lowbit_double power_Suc)
qed

lemma find_loop_spec:
  assumes ok: "fw_ok ft a"
  shows "2 ^ k dvd r \<Longrightarrow> r + 2 ^ k \<le> length a \<Longrightarrow> 0 < target \<Longrightarrow> target \<le> (\<Sum>j = r..<r + 2 ^ k. a ! j) \<Longrightarrow>
    \<exists>i. find_loop (ft_tree ft) k r target = Ok i \<and> r \<le> i \<and> i < length a
      \<and> (\<Sum>j = r..<i. a ! j) < target \<and> target \<le> (\<Sum>j = r..<i + 1. a ! j)"
proof (induction k arbitrary: r target)
  case 0
  then show ?case by auto
next
  case (Suc k)
  let ?c = "r + 2 ^ k"
  have c: "?c \<le> length a" using Suc.prems(2) by simp
  have lb: "lowbit ?c = 2 ^ k" by (rule lowbit_add) (use Suc.prems(1) in simp)
  have cell: "ft_tree ft ! ?c = (\<Sum>j = r..<?c. a ! j)" using ok c lb by (simp add: fw_ok_def)
  have len: "?c < length (ft_tree ft)" using ok c by (simp add: fw_ok_def)
  have dv: "2 ^ k dvd r" using Suc.prems(1) by (rule power_le_dvd) simp
  have split: "(\<Sum>j = r..<r + 2 ^ Suc k. a ! j) = (\<Sum>j = r..<?c. a ! j) + (\<Sum>j = ?c..<?c + 2 ^ k. a ! j)"
  proof -
    have "r + 2 ^ Suc k = ?c + 2 ^ k" by simp
    then show ?thesis by (metis sum.atLeastLessThan_concat le_add1)
  qed
  show ?case
  proof (cases "target > ft_tree ft ! ?c")
    case True
    have "2 ^ k dvd ?c" using dv by simp
    moreover have "?c + 2 ^ k \<le> length a" using Suc.prems(2) by simp
    moreover have "0 < target - ft_tree ft ! ?c" using True by simp
    moreover have "target - ft_tree ft ! ?c \<le> (\<Sum>j = ?c..<?c + 2 ^ k. a ! j)" using Suc.prems(4) split cell by linarith
    ultimately obtain i where i: "find_loop (ft_tree ft) k ?c (target - ft_tree ft ! ?c) = Ok i" "?c \<le> i" "i < length a"
      "(\<Sum>j = ?c..<i. a ! j) < target - ft_tree ft ! ?c" "target - ft_tree ft ! ?c \<le> (\<Sum>j = ?c..<i + 1. a ! j)"
      using Suc.IH by blast
    have "(\<Sum>j = r..<i. a ! j) = ft_tree ft ! ?c + (\<Sum>j = ?c..<i. a ! j)"
      "(\<Sum>j = r..<i + 1. a ! j) = ft_tree ft ! ?c + (\<Sum>j = ?c..<i + 1. a ! j)"
      using i(2) unfolding cell by (subst sum.atLeastLessThan_concat; simp)+
    then have "(\<Sum>j = r..<i. a ! j) < target" "target \<le> (\<Sum>j = r..<i + 1. a ! j)" using i(4,5) by linarith+
    then show ?thesis using i(1-3) True len by (simp add: Let_def)
  next
    case False
    have "target \<le> (\<Sum>j = r..<?c. a ! j)" using False cell by simp
    then obtain i where "find_loop (ft_tree ft) k r target = Ok i" "r \<le> i" "i < length a"
      "(\<Sum>j = r..<i. a ! j) < target" "target \<le> (\<Sum>j = r..<i + 1. a ! j)"
      using Suc.IH [OF dv c Suc.prems(3)] by blast
    then show ?thesis using False len by (simp add: Let_def)
  qed
qed

text \<open>\<open>fwTreeFindIndex\<close> finds the index at which the cumulative sum reaches the target.\<close>

lemma fwTreeFindIndex_spec:
  assumes ok: "fw_ok ft a" and t: "0 < target" "target \<le> sum_list a"
  shows "\<exists>i. fwTreeFindIndex ft target = Ok i \<and> i < length a
    \<and> sum_list (take i a) < target \<and> target \<le> sum_list (take (i + 1) a)"
proof -
  let ?b = "ft_size_bits ft"
  have len: "length a = 2 ^ ?b" "length (ft_tree ft) = length a + 1" using ok by (simp_all add: fw_ok_def)
  have "lowbit (0 + 2 ^ ?b) = 2 ^ ?b" by (rule lowbit_add) simp
  moreover have "ft_tree ft ! length a = (\<Sum>j = length a - lowbit (length a)..<length a. a ! j)"
    using ok by (simp add: fw_ok_def)
  ultimately have cell: "ft_tree ft ! (2 ^ ?b) = sum_list a" using len(1) by (simp add: sum_list_sum_nth)
  have "target \<le> (\<Sum>j = 0..<0 + 2 ^ ?b. a ! j)" using t(2) len(1) by (simp add: sum_list_sum_nth)
  then obtain i where i: "find_loop (ft_tree ft) ?b 0 target = Ok i" "i < length a"
    "(\<Sum>j = 0..<i. a ! j) < target" "target \<le> (\<Sum>j = 0..<i + 1. a ! j)"
    using find_loop_spec [OF ok, of ?b 0 target] t(1) len(1) by auto
  have "fwTreeFindIndex ft target = Ok i"
    using t i(1) cell len by (simp add: fwTreeFindIndex_def Let_def)
  moreover have "sum_list (take i a) = (\<Sum>j = 0..<i. a ! j)" "sum_list (take (i + 1) a) = (\<Sum>j = 0..<i + 1. a ! j)"
    using i(2) by (simp_all add: sum_list_sum_nth min_absorb2)
  ultimately show ?thesis using i by auto
qed

lemma sum_list_take_mono: "i \<le> j \<Longrightarrow> sum_list (take i a) \<le> sum_list (take j a)" for a :: "nat list"
proof -
  assume "i \<le> j"
  then have "take j a = take i a @ take (j - i) (drop i a)" by (metis le_add_diff_inverse take_add)
  then show ?thesis by simp
qed

text \<open>\<open>fwTreeFindNextNonEmpty\<close> finds the next index with a count, or -1 when there is none.\<close>

lemma fwTreeFindNextNonEmpty_spec:
  assumes ok: "fw_ok ft a" and idx: "idx < length a" and small: "sum_list a + 1 < 2 ^ 64"
  shows "\<exists>r. fwTreeFindNextNonEmpty ft (int idx) = Ok r
    \<and> (if \<forall>j. idx < j \<and> j < length a \<longrightarrow> a ! j = 0 then r = - 1
       else \<exists>i. r = int i \<and> idx < i \<and> i < length a \<and> 0 < a ! i \<and> (\<forall>j. idx < j \<and> j < i \<longrightarrow> a ! j = 0))"
proof -
  let ?s = "sum_list (take (idx + 1) a)"
  have total: "ft_total ft = sum_list a" "sum_list a < 2 ^ 64" "int (ft_size ft) = int (length a)"
    using ok by (simp_all add: fw_ok_def)
  have p: "fwTreePrefixSum ft (int idx) = Ok ?s" using fwTreePrefixSum_spec [OF ok, of "int idx"] by (simp add: nat_add_distrib)
  have le: "?s \<le> sum_list a" using sum_list_take_mono [of "idx + 1" "length a" a] idx by simp
  have rest: "sum_list a = ?s + sum_list (drop (idx + 1) a)" by (metis append_take_drop_id sum_list_append)
  have none: "(\<forall>j. idx < j \<and> j < length a \<longrightarrow> a ! j = 0) \<longleftrightarrow> sum_list (drop (idx + 1) a) = 0"
  proof -
    have "sum_list (drop (idx + 1) a) = 0 \<longleftrightarrow> (\<forall>x \<in> set (drop (idx + 1) a). x = 0)" by simp
    also have "\<dots> \<longleftrightarrow> (\<forall>i < length a - (idx + 1). a ! (idx + 1 + i) = 0)" by (auto simp: all_set_conv_all_nth)
    also have "\<dots> \<longleftrightarrow> (\<forall>j. idx < j \<and> j < length a \<longrightarrow> a ! j = 0)"
    proof
      assume z: "\<forall>i < length a - (idx + 1). a ! (idx + 1 + i) = 0"
      show "\<forall>j. idx < j \<and> j < length a \<longrightarrow> a ! j = 0"
      proof (intro allI impI)
        fix j assume j: "idx < j \<and> j < length a"
        then have "j - (idx + 1) < length a - (idx + 1)" by linarith
        then show "a ! j = 0" using z [rule_format, of "j - (idx + 1)"] j by simp
      qed
    qed auto
    finally show ?thesis by simp
  qed
  show ?thesis
  proof (cases "?s = sum_list a")
    case True
    then have z: "\<forall>j. idx < j \<and> j < length a \<longrightarrow> a ! j = 0" using none rest by simp
    moreover have "fwTreeFindNextNonEmpty ft (int idx) = Ok (- 1)"
      using p True total small idx by (simp add: fwTreeFindNextNonEmpty_def Let_def)
    ultimately show ?thesis by simp
  next
    case False
    then have less: "?s + 1 \<le> sum_list a" using le by simp
    then obtain i where i: "fwTreeFindIndex ft (?s + 1) = Ok i" "i < length a" "sum_list (take i a) < ?s + 1"
      "?s + 1 \<le> sum_list (take (i + 1) a)"
      using fwTreeFindIndex_spec [OF ok, of "?s + 1"] by auto
    have "idx < i"
    proof (rule ccontr)
      assume "\<not> idx < i"
      then have "sum_list (take (i + 1) a) \<le> ?s" by (intro sum_list_take_mono) simp
      then show False using i(4) by simp
    qed
    have s_i: "sum_list (take (i + 1) a) = sum_list (take i a) + a ! i" using i(2) by (simp add: take_Suc_conv_app_nth)
    have "a ! j = 0" if "idx < j" "j < i" for j
    proof -
      have "sum_list (take (j + 1) a) = sum_list (take j a) + a ! j" using that i(2) by (simp add: take_Suc_conv_app_nth)
      moreover have "?s \<le> sum_list (take j a)" "sum_list (take (j + 1) a) \<le> sum_list (take i a)"
        using that by (auto intro!: sum_list_take_mono)
      ultimately show ?thesis using i(3) by linarith
    qed
    moreover have "0 < a ! i" using i(3,4) s_i by linarith
    moreover have "fwTreeFindNextNonEmpty ft (int idx) = Ok (int i)"
      using p less total small idx i(1) by (simp add: fwTreeFindNextNonEmpty_def Let_def)
    ultimately show ?thesis using \<open>idx < i\<close> i(2) by (metis less_numeral_extra(3))
  qed
qed

lemma fwTreeClear_ok: "fw_ok ft a \<Longrightarrow> fw_ok (fwTreeClear ft) (replicate (length a) 0)"
proof -
  assume ok: "fw_ok ft a"
  have "(\<Sum>j = k - lowbit k..<k. replicate (length a) 0 ! j) = (0 :: nat)" if "k \<le> length a" for k
    using that by (intro sum.neutral) auto
  then show ?thesis using ok by (auto simp: fw_ok_def fwTreeClear_def sum_list_replicate)
qed

text \<open>The tree keeps the counts of its slots.\<close>

interpretation fw: slot_counter fw_ok fwTreeUpdate fwTreeFindIndex fwTreeFindNextNonEmpty fwTreeClear
proof unfold_locales
  fix ft a i and delta :: int
  assume "fw_ok ft a" "i < length a" "fits_signed 64 delta" "0 \<le> int (a ! i) + delta" "int (sum_list a) + delta < 2 ^ 64"
  then show "\<exists>t. fwTreeUpdate ft (int i) delta = Ok t \<and> fw_ok t (a[i := nat (int (a ! i) + delta)])"
    using fwTreeUpdate_spec by blast
qed (use fwTreeFindIndex_spec fwTreeFindNextNonEmpty_spec fwTreeClear_ok in blast)+

end
