(* ===== verification/Kvstore.thy ===== *)
theory Kvstore
  imports Dict_Theorems Fwtree
begin

text \<open>
  The keyspace of \<open>kvstore.c\<close>: an array of dicts (one per cluster slot), with the number of keys, of
  allocated and of non-empty dicts, and a Fenwick tree of the sizes of the dicts. The bookkeeping of the
  dict callbacks (list of rehashing dicts, bucket count, overhead) and the metadata are left out.
\<close>

section \<open>State\<close>

record ('k, 'v) kvstore =
  kv_on_demand :: bool
  kv_free_empty :: bool
  kv_canFreeDict :: "(nat \<Rightarrow> bool) option"
  kv_dicts :: "('k, 'v) dict option list"
  kv_num_dicts_bits :: nat
  kv_resize_cursor :: nat
  kv_allocated_dicts :: int
  kv_non_empty_dicts :: int
  kv_key_count :: nat
  kv_dict_sizes :: "fenwickTree option"

definition kv_num_dicts :: "('k, 'v) kvstore \<Rightarrow> nat" where
  "kv_num_dicts kvs = 2 ^ kv_num_dicts_bits kvs"

definition kvstoreGetDict :: "('k, 'v) kvstore \<Rightarrow> nat \<Rightarrow> ('k, 'v) dict option outcome" where
  "kvstoreGetDict kvs didx = c_assert (didx < length (kv_dicts kvs)) (Ok (kv_dicts kvs ! didx))"

definition kvstoreSetDict :: "('k, 'v) kvstore \<Rightarrow> nat \<Rightarrow> ('k, 'v) dict option \<Rightarrow> ('k, 'v) kvstore" where
  "kvstoreSetDict kvs didx d = kvs\<lparr>kv_dicts := (kv_dicts kvs)[didx := d]\<rparr>"

definition kvstoreDictSize :: "('k, 'v) kvstore \<Rightarrow> nat \<Rightarrow> nat outcome" where
  "kvstoreDictSize kvs didx =
     bind_outcome (kvstoreGetDict kvs didx) (\<lambda>d. Ok (case d of None \<Rightarrow> 0 | Some d \<Rightarrow> dictSize d))"

definition kvstoreDictIsRehashingPaused :: "('k, 'v) kvstore \<Rightarrow> nat \<Rightarrow> bool outcome" where
  "kvstoreDictIsRehashingPaused kvs didx =
     bind_outcome (kvstoreGetDict kvs didx) (\<lambda>d. Ok (case d of None \<Rightarrow> False | Some d \<Rightarrow> pauserehash d > 0))"

section \<open>The cursor\<close>

text \<open>\<open>didx\<close> is -1 when there are no more dicts.\<close>

definition addDictIndexToCursor :: "('k, 'v) kvstore \<Rightarrow> int \<Rightarrow> 64 word \<Rightarrow> 64 word" where
  "addDictIndexToCursor kvs didx cursor =
     (if kv_num_dicts kvs = 1 then cursor
      else if didx < 0 then cursor
      else push_bit (kv_num_dicts_bits kvs) cursor OR word_of_int didx)"

definition getAndClearDictIndexFromCursor :: "('k, 'v) kvstore \<Rightarrow> 64 word \<Rightarrow> nat \<times> 64 word" where
  "getAndClearDictIndexFromCursor kvs cursor =
     (if kv_num_dicts kvs = 1 then (0, cursor)
      else (unat (cursor AND (word_of_nat (kv_num_dicts kvs) - 1)), drop_bit (kv_num_dicts_bits kvs) cursor))"

section \<open>Counts and dicts\<close>

definition cumulativeKeyCountAdd :: "('k, 'v) kvstore \<Rightarrow> nat \<Rightarrow> int \<Rightarrow> ('k, 'v) kvstore outcome" where
  "cumulativeKeyCountAdd kvs didx delta =
     (let kvs = kvs\<lparr>kv_key_count := c_unsigned 64 (int (kv_key_count kvs) + delta)\<rparr> in
      bind_outcome (kvstoreGetDict kvs didx) (\<lambda>d.
      case d of
        None \<Rightarrow> Abort
      | Some d \<Rightarrow>
          let dsize = dictSize d;
              non_empty_dicts_delta = (if dsize = 1 \<and> delta > 0 then 1 else if dsize = 0 then - 1 else 0);
              kvs = kvs\<lparr>kv_non_empty_dicts := kv_non_empty_dicts kvs + non_empty_dicts_delta\<rparr> in
          if kv_num_dicts kvs = 1 then Ok kvs
          else
            case kv_dict_sizes kvs of
              None \<Rightarrow> Abort
            | Some ft \<Rightarrow> bind_outcome (fwTreeUpdate ft (int didx) delta) (\<lambda>ft. Ok (kvs\<lparr>kv_dict_sizes := Some ft\<rparr>))))"

definition createDictIfNeeded :: "('k, 'v) kvstore \<Rightarrow> nat \<Rightarrow> (('k, 'v) kvstore \<times> ('k, 'v) dict) outcome" where
  "createDictIfNeeded kvs didx =
     bind_outcome (kvstoreGetDict kvs didx) (\<lambda>d.
     case d of
       Some d \<Rightarrow> Ok (kvs, d)
     | None \<Rightarrow>
         Ok ((kvstoreSetDict kvs didx (Some dictCreate))\<lparr>kv_allocated_dicts := kv_allocated_dicts kvs + 1\<rparr>, dictCreate))"

definition freeDictIfNeeded :: "('k, 'v) kvstore \<Rightarrow> nat \<Rightarrow> ('k, 'v) kvstore outcome" where
  "freeDictIfNeeded kvs didx =
     (if \<not> kv_free_empty kvs then Ok kvs
      else
        bind_outcome (kvstoreGetDict kvs didx) (\<lambda>d.
        bind_outcome (kvstoreDictSize kvs didx) (\<lambda>sz.
        bind_outcome (kvstoreDictIsRehashingPaused kvs didx) (\<lambda>paused.
        if d = None \<or> sz \<noteq> 0 \<or> paused then Ok kvs
        else if (case kv_canFreeDict kvs of None \<Rightarrow> False | Some can \<Rightarrow> \<not> can didx) then Ok kvs
        else Ok ((kvstoreSetDict kvs didx None)\<lparr>kv_allocated_dicts := kv_allocated_dicts kvs - 1\<rparr>)))))"

definition kvstoreCreate :: "nat \<Rightarrow> bool \<Rightarrow> bool \<Rightarrow> (nat \<Rightarrow> bool) option \<Rightarrow> ('k, 'v) kvstore outcome" where
  "kvstoreCreate num_dicts_bits on_demand free_empty canFreeDict =
     c_assert (num_dicts_bits \<le> 16)
       (let num_dicts = 2 ^ num_dicts_bits in
        Ok \<lparr>kv_on_demand = on_demand, kv_free_empty = free_empty, kv_canFreeDict = canFreeDict,
            kv_dicts = replicate num_dicts (if on_demand then None else Some dictCreate),
            kv_num_dicts_bits = num_dicts_bits, kv_resize_cursor = 0,
            kv_allocated_dicts = (if on_demand then 0 else int num_dicts), kv_non_empty_dicts = 0, kv_key_count = 0,
            kv_dict_sizes = (if num_dicts > 1 then Some (fwTreeCreate num_dicts_bits) else None)\<rparr>)"

definition kvstoreSize :: "('k, 'v) kvstore \<Rightarrow> nat" where
  "kvstoreSize kvs = kv_key_count kvs"

definition kvstoreNumNonEmptyDicts :: "('k, 'v) kvstore \<Rightarrow> int" where
  "kvstoreNumNonEmptyDicts kvs = kv_non_empty_dicts kvs"

definition kvstoreNumAllocatedDicts :: "('k, 'v) kvstore \<Rightarrow> int" where
  "kvstoreNumAllocatedDicts kvs = kv_allocated_dicts kvs"

text \<open>The loop of \<open>kvstoreEmpty\<close> over the last \<open>n\<close> dicts.\<close>

fun empty_loop :: "nat \<Rightarrow> ('k, 'v) kvstore \<Rightarrow> ('k, 'v) kvstore outcome" where
  "empty_loop 0 kvs = Ok kvs"
| "empty_loop (Suc n) kvs =
     (let didx = kv_num_dicts kvs - Suc n in
      bind_outcome (kvstoreGetDict kvs didx) (\<lambda>d.
      case d of
        None \<Rightarrow> empty_loop n kvs
      | Some d \<Rightarrow>
          bind_outcome (freeDictIfNeeded (kvstoreSetDict kvs didx (Some (fst (dictEmpty d)))) didx) (empty_loop n)))"

definition kvstoreEmpty :: "('k, 'v) kvstore \<Rightarrow> ('k, 'v) kvstore outcome" where
  "kvstoreEmpty kvs =
     bind_outcome (empty_loop (kv_num_dicts kvs) kvs) (\<lambda>kvs.
     Ok (kvs\<lparr>kv_key_count := 0, kv_non_empty_dicts := 0, kv_resize_cursor := 0,
             kv_dict_sizes := map_option fwTreeClear (kv_dict_sizes kvs)\<rparr>))"

section \<open>Finding dicts\<close>

definition kvstoreFindDictIndexByKeyIndex :: "('k, 'v) kvstore \<Rightarrow> nat \<Rightarrow> nat outcome" where
  "kvstoreFindDictIndexByKeyIndex kvs target =
     (if kv_num_dicts kvs = 1 \<or> kvstoreSize kvs = 0 then Ok 0
      else c_assert (target \<le> kvstoreSize kvs)
        (case kv_dict_sizes kvs of None \<Rightarrow> Abort | Some ft \<Rightarrow> fwTreeFindIndex ft target))"

definition kvstoreGetFirstNonEmptyDictIndex :: "('k, 'v) kvstore \<Rightarrow> int outcome" where
  "kvstoreGetFirstNonEmptyDictIndex kvs =
     (if kvstoreSize kvs = 0 then Ok (- 1)
      else if kv_num_dicts kvs = 1 then Ok 0
      else case kv_dict_sizes kvs of
             None \<Rightarrow> Abort
           | Some ft \<Rightarrow> bind_outcome (fwTreeFindFirstNonEmpty ft) (\<lambda>i. Ok (int i)))"

definition kvstoreGetNextNonEmptyDictIndex :: "('k, 'v) kvstore \<Rightarrow> int \<Rightarrow> int outcome" where
  "kvstoreGetNextNonEmptyDictIndex kvs didx =
     (if kv_num_dicts kvs = 1 then c_assert (didx = 0) (Ok (- 1))
      else case kv_dict_sizes kvs of None \<Rightarrow> Abort | Some ft \<Rightarrow> fwTreeFindNextNonEmpty ft didx)"

text \<open>A random dict, each with a probability proportional to its size. \<open>targets\<close> are the random numbers of
  the fair attempts, \<open>start\<close> the one of the fallback.\<close>

fun fair_attempts_loop ::
  "('k, 'v) kvstore \<Rightarrow> (nat \<Rightarrow> bool) option \<Rightarrow> nat list \<Rightarrow> nat option outcome" where
  "fair_attempts_loop kvs skip_cb [] = Ok None"
| "fair_attempts_loop kvs skip_cb (r # rs) =
     bind_outcome (kvstoreFindDictIndexByKeyIndex kvs (r mod kvstoreSize kvs + 1)) (\<lambda>didx.
     if (case skip_cb of None \<Rightarrow> True | Some skip \<Rightarrow> \<not> skip didx) then Ok (Some didx)
     else fair_attempts_loop kvs skip_cb rs)"

fun fallback_loop ::
  "('k, 'v) kvstore \<Rightarrow> (nat \<Rightarrow> bool) option \<Rightarrow> nat \<Rightarrow> nat \<Rightarrow> nat option outcome" where
  "fallback_loop kvs skip_cb start 0 = Ok None"
| "fallback_loop kvs skip_cb start (Suc n) =
     (let didx = (start + (kv_num_dicts kvs - Suc n)) mod kv_num_dicts kvs in
      bind_outcome (kvstoreGetDict kvs didx) (\<lambda>d.
      if d \<noteq> None \<and> (case skip_cb of None \<Rightarrow> True | Some skip \<Rightarrow> \<not> skip didx) then Ok (Some didx)
      else fallback_loop kvs skip_cb start n))"

definition kvstoreGetFairRandomDictIndex ::
  "('k, 'v) kvstore \<Rightarrow> (nat \<Rightarrow> bool) option \<Rightarrow> nat list \<Rightarrow> nat option \<Rightarrow> int outcome" where
  "kvstoreGetFairRandomDictIndex kvs skip_cb targets slow_fallback =
     (if kv_num_dicts kvs = 1 \<or> kvstoreSize kvs = 0 then Ok 0
      else
        bind_outcome (fair_attempts_loop kvs skip_cb targets) (\<lambda>r.
        case r of
          Some didx \<Rightarrow> Ok (int didx)
        | None \<Rightarrow>
            (case slow_fallback of
               None \<Rightarrow> Ok (- 1)
             | Some start \<Rightarrow>
                 bind_outcome (fallback_loop kvs skip_cb (start mod kv_num_dicts kvs) (kv_num_dicts kvs)) (\<lambda>r.
                 Ok (case r of None \<Rightarrow> - 1 | Some didx \<Rightarrow> int didx)))))"

section \<open>Access to the keys\<close>

definition kvstoreDictFetchValue ::
  "'k dictType \<Rightarrow> dictResizeEnable \<Rightarrow> ('k, 'v) kvstore \<Rightarrow> nat \<Rightarrow> 'k \<Rightarrow> (('k, 'v) kvstore \<times> 'v option) outcome" where
  "kvstoreDictFetchValue ty rz kvs didx key =
     bind_outcome (kvstoreGetDict kvs didx) (\<lambda>d.
     case d of
       None \<Rightarrow> Ok (kvs, None)
     | Some d \<Rightarrow> bind_outcome (dictFetchValue ty rz d key) (\<lambda>(d, v). Ok (kvstoreSetDict kvs didx (Some d), v)))"

text \<open>The new entry (its value not yet set), or the existing one.\<close>

definition kvstoreDictAddRaw ::
  "'k dictType \<Rightarrow> dictResizeEnable \<Rightarrow> ('k, 'v) kvstore \<Rightarrow> nat \<Rightarrow> 'k \<Rightarrow> 'v \<Rightarrow>
   (('k, 'v) kvstore \<times> (dict_place + dict_place)) outcome" where
  "kvstoreDictAddRaw ty rz kvs didx key v0 =
     bind_outcome (createDictIfNeeded kvs didx) (\<lambda>(kvs, d).
     bind_outcome (dictAddRaw ty rz d key v0) (\<lambda>(d, r).
     let kvs = kvstoreSetDict kvs didx (Some d) in
     case r of
       Inr existing \<Rightarrow> Ok (kvs, Inr existing)
     | Inl entry \<Rightarrow> bind_outcome (cumulativeKeyCountAdd kvs didx 1) (\<lambda>kvs. Ok (kvs, Inl entry))))"

definition kvstoreDictSetVal :: "('k, 'v) kvstore \<Rightarrow> nat \<Rightarrow> dict_place \<Rightarrow> 'v \<Rightarrow> ('k, 'v) kvstore outcome" where
  "kvstoreDictSetVal kvs didx de val =
     bind_outcome (kvstoreGetDict kvs didx) (\<lambda>d.
     case d of None \<Rightarrow> Abort | Some d \<Rightarrow> Ok (kvstoreSetDict kvs didx (Some (dictSetVal d de val))))"

definition kvstoreDictDelete ::
  "'k dictType \<Rightarrow> dictResizeEnable \<Rightarrow> ('k, 'v) kvstore \<Rightarrow> nat \<Rightarrow> 'k \<Rightarrow> (('k, 'v) kvstore \<times> bool) outcome" where
  "kvstoreDictDelete ty rz kvs didx key =
     bind_outcome (kvstoreGetDict kvs didx) (\<lambda>d.
     case d of
       None \<Rightarrow> Ok (kvs, False)
     | Some d \<Rightarrow>
         bind_outcome (dictDelete ty rz d key) (\<lambda>(d, ret).
         let kvs = kvstoreSetDict kvs didx (Some d) in
         if ret then
           bind_outcome (cumulativeKeyCountAdd kvs didx (- 1)) (\<lambda>kvs.
           bind_outcome (freeDictIfNeeded kvs didx) (\<lambda>kvs. Ok (kvs, True)))
         else Ok (kvs, False)))"

text \<open>Removal in two phases.\<close>

definition kvstoreDictTwoPhaseUnlinkFind ::
  "'k dictType \<Rightarrow> dictResizeEnable \<Rightarrow> ('k, 'v) kvstore \<Rightarrow> nat \<Rightarrow> 'k \<Rightarrow>
   (('k, 'v) kvstore \<times> dict_place option) outcome" where
  "kvstoreDictTwoPhaseUnlinkFind ty rz kvs didx key =
     bind_outcome (kvstoreGetDict kvs didx) (\<lambda>d.
     case d of
       None \<Rightarrow> Ok (kvs, None)
     | Some d \<Rightarrow>
         bind_outcome (dictTwoPhaseUnlinkFind ty rz d key) (\<lambda>(d, pl). Ok (kvstoreSetDict kvs didx (Some d), pl)))"

definition kvstoreDictTwoPhaseUnlinkFree ::
  "'k dictType \<Rightarrow> dictResizeEnable \<Rightarrow> ('k, 'v) kvstore \<Rightarrow> nat \<Rightarrow> dict_place option \<Rightarrow> ('k, 'v) kvstore outcome" where
  "kvstoreDictTwoPhaseUnlinkFree ty rz kvs didx link =
     bind_outcome (kvstoreGetDict kvs didx) (\<lambda>d.
     case d of
       None \<Rightarrow> Abort
     | Some d \<Rightarrow>
         bind_outcome (dictTwoPhaseUnlinkFree ty rz d link) (\<lambda>d.
         bind_outcome (cumulativeKeyCountAdd (kvstoreSetDict kvs didx (Some d)) didx (- 1)) (\<lambda>kvs.
         freeDictIfNeeded kvs didx)))"

definition kvstoreDictExpand ::
  "'k dictType \<Rightarrow> dictResizeEnable \<Rightarrow> ('k, 'v) kvstore \<Rightarrow> nat \<Rightarrow> nat \<Rightarrow> (('k, 'v) kvstore \<times> bool) outcome" where
  "kvstoreDictExpand ty rz kvs didx sz =
     bind_outcome (createDictIfNeeded kvs didx) (\<lambda>(kvs, d).
     bind_outcome (dictExpand ty rz d sz) (\<lambda>(d, r). Ok (kvstoreSetDict kvs didx (Some d), r)))"

text \<open>The loop of \<open>kvstoreExpand\<close> over the last \<open>n\<close> dicts. An allocation never fails here, so the two
  variants of the expansion do the same and the function returns 1.\<close>

fun expand_loop ::
  "'k dictType \<Rightarrow> dictResizeEnable \<Rightarrow> nat \<Rightarrow> (nat \<Rightarrow> bool) option \<Rightarrow> nat \<Rightarrow> ('k, 'v) kvstore \<Rightarrow>
   ('k, 'v) kvstore outcome" where
  "expand_loop ty rz newsize skip_cb 0 kvs = Ok kvs"
| "expand_loop ty rz newsize skip_cb (Suc n) kvs =
     (let i = kv_num_dicts kvs - Suc n in
      if (case skip_cb of None \<Rightarrow> False | Some skip \<Rightarrow> skip i) then expand_loop ty rz newsize skip_cb n kvs
      else bind_outcome (kvstoreDictExpand ty rz kvs i newsize) (\<lambda>(kvs, r). expand_loop ty rz newsize skip_cb n kvs))"

definition kvstoreExpand ::
  "'k dictType \<Rightarrow> dictResizeEnable \<Rightarrow> ('k, 'v) kvstore \<Rightarrow> nat \<Rightarrow> (nat \<Rightarrow> bool) option \<Rightarrow> ('k, 'v) kvstore outcome" where
  "kvstoreExpand ty rz kvs newsize skip_cb = expand_loop ty rz newsize skip_cb (kv_num_dicts kvs) kvs"

text \<open>The rounds of \<open>kvstoreTryResizeDicts\<close>.\<close>

fun resize_rounds ::
  "'k dictType \<Rightarrow> dictResizeEnable \<Rightarrow> nat \<Rightarrow> ('k, 'v) kvstore \<Rightarrow> ('k, 'v) kvstore outcome" where
  "resize_rounds ty rz 0 kvs = Ok kvs"
| "resize_rounds ty rz (Suc n) kvs =
     (let didx = kv_resize_cursor kvs in
      bind_outcome (kvstoreGetDict kvs didx) (\<lambda>d.
      bind_outcome
        (case d of
           None \<Rightarrow> Ok kvs
         | Some d \<Rightarrow>
             bind_outcome (dictShrinkIfNeeded ty rz d) (\<lambda>(d, r).
             if r then Ok (kvstoreSetDict kvs didx (Some d))
             else bind_outcome (dictExpandIfNeeded ty rz d) (\<lambda>(d, r). Ok (kvstoreSetDict kvs didx (Some d))))) (\<lambda>kvs.
      resize_rounds ty rz n (kvs\<lparr>kv_resize_cursor := (didx + 1) mod kv_num_dicts kvs\<rparr>))))"

definition kvstoreTryResizeDicts ::
  "'k dictType \<Rightarrow> dictResizeEnable \<Rightarrow> ('k, 'v) kvstore \<Rightarrow> nat \<Rightarrow> ('k, 'v) kvstore outcome" where
  "kvstoreTryResizeDicts ty rz kvs limit =
     resize_rounds ty rz (if limit > kv_num_dicts kvs then kv_num_dicts kvs else limit) kvs"

section \<open>Moving and scanning\<close>

definition kvstoreMoveDict ::
  "('k, 'v) kvstore \<Rightarrow> ('k, 'v) kvstore \<Rightarrow> nat \<Rightarrow> (('k, 'v) kvstore \<times> ('k, 'v) kvstore) outcome" where
  "kvstoreMoveDict kvs dst didx =
     c_assert (kv_num_dicts kvs > didx \<and> kv_num_dicts kvs = kv_num_dicts dst)
       (bind_outcome (kvstoreGetDict dst didx) (\<lambda>d'.
        c_assert (d' = None)
          (bind_outcome (kvstoreGetDict kvs didx) (\<lambda>d.
           case d of
             None \<Rightarrow> Ok (kvs, dst)
           | Some d \<Rightarrow>
               bind_outcome (cumulativeKeyCountAdd (kvs\<lparr>kv_allocated_dicts := kv_allocated_dicts kvs - 1\<rparr>) didx
                   (- int (dictSize d))) (\<lambda>kvs.
               let kvs = kvstoreSetDict kvs didx None in
               bind_outcome (if \<not> (kv_on_demand kvs \<or> kv_free_empty kvs)
                             then bind_outcome (createDictIfNeeded kvs didx) (\<lambda>(kvs, d). Ok kvs) else Ok kvs) (\<lambda>kvs.
               let dst = (kvstoreSetDict dst didx (Some d))\<lparr>kv_allocated_dicts := kv_allocated_dicts dst + 1\<rparr> in
               bind_outcome (cumulativeKeyCountAdd dst didx (int (dictSize d))) (\<lambda>dst. Ok (kvs, dst))))))))"

text \<open>\<open>kvstoreScan\<close>, with the callbacks as parameters: what is skipped, and no change by \<open>scan_cb\<close>.\<close>

definition kvstoreScan ::
  "(('k, 'v) dict \<Rightarrow> nat \<Rightarrow> bool) option \<Rightarrow> ('k, 'v) kvstore \<Rightarrow> 64 word \<Rightarrow> int \<Rightarrow>
   (('k, 'v) kvstore \<times> ('k \<times> 'v) list \<times> 64 word) outcome" where
  "kvstoreScan skip_cb kvs cursor onlydidx =
     (let (didx, cursor) = getAndClearDictIndexFromCursor kvs cursor in
      if onlydidx \<ge> 0 \<and> int didx > onlydidx then Ok (kvs, [], 0)
      else
        let ff = (onlydidx \<ge> 0 \<and> int didx < onlydidx) in
        c_assert (ff \<longrightarrow> onlydidx < int (kv_num_dicts kvs))
          (let didx = (if ff then nat onlydidx else didx); cursor = (if ff then 0 else cursor) in
           bind_outcome (kvstoreGetDict kvs didx) (\<lambda>d.
           let skip = (case d of None \<Rightarrow> True | Some d \<Rightarrow> (case skip_cb of None \<Rightarrow> False | Some cb \<Rightarrow> cb d didx)) in
           bind_outcome
             (if skip then Ok (kvs, [], 0)
              else
                bind_outcome (dictScan (the d) cursor) (\<lambda>(d, es, c).
                bind_outcome (freeDictIfNeeded (kvstoreSetDict kvs didx (Some d)) didx) (\<lambda>kvs. Ok (kvs, es, c)))) (\<lambda>(kvs, es, c).
           if c = 0 \<or> skip then
             if onlydidx \<ge> 0 then Ok (kvs, es, 0)
             else
               bind_outcome (kvstoreGetNextNonEmptyDictIndex kvs (int didx)) (\<lambda>didx.
               if didx = - 1 then Ok (kvs, es, 0)
               else Ok (kvs, es, addDictIndexToCursor kvs didx c))
           else Ok (kvs, es, addDictIndexToCursor kvs (int didx) c)))))"

end
