(* ===== verification/Kvstore_Inv.thy ===== *)
theory Kvstore_Inv
  imports Kvstore
begin

text \<open>
  The invariant of a keyspace: every allocated dict is well formed, and the counts and the Fenwick tree
  agree with the sizes of the dicts. Every operation keeps it and changes the contents of one dict only.
\<close>

section \<open>The invariant\<close>

definition kv_sizes :: "('k, 'v) kvstore \<Rightarrow> nat list" where
  "kv_sizes kvs = map (\<lambda>d. case d of None \<Rightarrow> 0 | Some d \<Rightarrow> dictSize d) (kv_dicts kvs)"

definition kv_shape :: "('k \<Rightarrow> 64 word) \<Rightarrow> ('k, 'v) kvstore \<Rightarrow> bool" where
  "kv_shape hash kvs \<longleftrightarrow>
     kv_num_dicts_bits kvs \<le> 16 \<and> length (kv_dicts kvs) = kv_num_dicts kvs \<and> kv_resize_cursor kvs < kv_num_dicts kvs
     \<and> (\<forall>d. Some d \<in> set (kv_dicts kvs) \<longrightarrow> dict_ok hash d \<and> pauseAutoResize d \<le> 0)
     \<and> kv_allocated_dicts kvs = int (length (filter (\<lambda>d. d \<noteq> None) (kv_dicts kvs)))"

text \<open>The counts describe the sizes \<open>a\<close>.\<close>

definition kv_counts :: "('k, 'v) kvstore \<Rightarrow> nat list \<Rightarrow> bool" where
  "kv_counts kvs a \<longleftrightarrow>
     length a = kv_num_dicts kvs \<and> kv_key_count kvs = sum_list a \<and> sum_list a + 1 < 2 ^ 64
     \<and> kv_non_empty_dicts kvs = int (length (filter (\<lambda>n. 0 < n) a))
     \<and> (if kv_num_dicts kvs = 1 then kv_dict_sizes kvs = None else \<exists>ft. kv_dict_sizes kvs = Some ft \<and> fw_ok ft a)"

definition kv_ok :: "('k \<Rightarrow> 64 word) \<Rightarrow> ('k, 'v) kvstore \<Rightarrow> bool" where
  "kv_ok hash kvs \<longleftrightarrow> kv_shape hash kvs \<and> kv_counts kvs (kv_sizes kvs)"

text \<open>The contents of the dict with an index.\<close>

definition kv_dict_map :: "('k, 'v) kvstore \<Rightarrow> nat \<Rightarrow> 'k \<rightharpoonup> 'v" where
  "kv_dict_map kvs didx = (case kv_dicts kvs ! didx of None \<Rightarrow> Map.empty | Some d \<Rightarrow> dict_map d)"

section \<open>Counts\<close>

lemma int_filter_update:
  assumes "i < length xs"
  shows "int (length (filter P (xs[i := x]))) = int (length (filter P xs)) - of_bool (P (xs ! i)) + of_bool (P x)"
proof -
  have "xs = take i xs @ xs ! i # drop (Suc i) xs" using assms by (simp add: id_take_nth_drop)
  then have "filter P xs = filter P (take i xs) @ filter P (xs ! i # drop (Suc i) xs)" by (metis filter_append)
  moreover have "filter P (xs[i := x]) = filter P (take i xs) @ filter P (x # drop (Suc i) xs)"
    using assms by (simp add: upd_conv_take_nth_drop)
  ultimately show ?thesis by simp
qed

lemma int_sum_list_update: "i < length a \<Longrightarrow> int (sum_list (a[i := n])) = int (sum_list a) - int (a ! i) + int n"
  for a :: "nat list"
  using sum_list_update [of i a n] elem_le_sum_list [of i a] by (simp add: of_nat_diff)

lemma kv_sizes_nth:
  "i < length (kv_dicts kvs) \<Longrightarrow> kv_sizes kvs ! i = (case kv_dicts kvs ! i of None \<Rightarrow> 0 | Some d \<Rightarrow> dictSize d)"
  by (simp add: kv_sizes_def)

lemma length_kv_sizes [simp]: "length (kv_sizes kvs) = length (kv_dicts kvs)"
  by (simp add: kv_sizes_def)

lemma kv_sizes_update:
  "kv_sizes (kvs\<lparr>kv_dicts := (kv_dicts kvs)[i := d]\<rparr>) =
   (kv_sizes kvs)[i := (case d of None \<Rightarrow> 0 | Some d \<Rightarrow> dictSize d)]"
  by (simp add: kv_sizes_def map_update)

lemma kvstoreSetDict_simps [simp]:
  "kv_dicts (kvstoreSetDict kvs i d) = (kv_dicts kvs)[i := d]"
  "kv_num_dicts (kvstoreSetDict kvs i d) = kv_num_dicts kvs"
  "kv_num_dicts_bits (kvstoreSetDict kvs i d) = kv_num_dicts_bits kvs"
  "kv_key_count (kvstoreSetDict kvs i d) = kv_key_count kvs"
  "kv_sizes (kvstoreSetDict kvs i d) = (kv_sizes kvs)[i := (case d of None \<Rightarrow> 0 | Some d \<Rightarrow> dictSize d)]"
  "kv_counts (kvstoreSetDict kvs i d) = kv_counts kvs"
  by (simp_all add: kvstoreSetDict_def kv_num_dicts_def kv_sizes_update kv_counts_def fun_eq_iff)

lemma kv_allocated_simps [simp]:
  "kv_counts (kvs\<lparr>kv_allocated_dicts := n\<rparr>) = kv_counts kvs"
  "kv_sizes (kvs\<lparr>kv_allocated_dicts := n\<rparr>) = kv_sizes kvs"
  "kv_num_dicts (kvs\<lparr>kv_allocated_dicts := n\<rparr>) = kv_num_dicts kvs"
  by (simp_all add: kv_counts_def kv_num_dicts_def kv_sizes_def fun_eq_iff)

lemma kvstoreGetDict_Ok [simp]: "i < length (kv_dicts kvs) \<Longrightarrow> kvstoreGetDict kvs i = Ok (kv_dicts kvs ! i)"
  by (simp add: kvstoreGetDict_def)

lemma kv_shape_length: "kv_shape hash kvs \<Longrightarrow> length (kv_dicts kvs) = kv_num_dicts kvs"
  by (simp add: kv_shape_def)

lemma kv_shape_dict: "kv_shape hash kvs \<Longrightarrow> i < kv_num_dicts kvs \<Longrightarrow> kv_dicts kvs ! i = Some d \<Longrightarrow>
  dict_ok hash d \<and> pauseAutoResize d \<le> 0"
  unfolding kv_shape_def by (metis nth_mem)

text \<open>Replacing a dict.\<close>

lemma set_update_Some: "Some d \<in> set (xs[i := y]) \<Longrightarrow> Some d \<in> set xs \<or> y = Some d"
  using set_update_subset_insert by fastforce

lemma kv_shape_SetDict:
  assumes "kv_shape hash kvs" "i < kv_num_dicts kvs"
    and "\<forall>d'. d = Some d' \<longrightarrow> dict_ok hash d' \<and> pauseAutoResize d' \<le> 0"
  shows "kv_shape hash ((kvstoreSetDict kvs i d)\<lparr>kv_allocated_dicts := kv_allocated_dicts kvs
    - of_bool (kv_dicts kvs ! i \<noteq> None) + of_bool (d \<noteq> None)\<rparr>)"
proof -
  have "i < length (kv_dicts kvs)" using assms(1,2) by (simp add: kv_shape_def)
  then show ?thesis
    using assms int_filter_update [of i "kv_dicts kvs" "\<lambda>d. d \<noteq> None" d]
    by (auto simp: kv_shape_def kvstoreSetDict_def kv_num_dicts_def dest!: set_update_Some)
qed

lemma kv_shape_SetDict_Some:
  assumes "kv_shape hash kvs" "i < kv_num_dicts kvs" "kv_dicts kvs ! i = Some d" "dict_ok hash d'" "pauseAutoResize d' \<le> 0"
  shows "kv_shape hash (kvstoreSetDict kvs i (Some d'))"
proof -
  have "kvs\<lparr>kv_dicts := x, kv_allocated_dicts := kv_allocated_dicts kvs\<rparr> = kvs\<lparr>kv_dicts := x\<rparr>" for x by simp
  then show ?thesis using kv_shape_SetDict [OF assms(1,2), of "Some d'"] assms(3-5) by (simp add: kvstoreSetDict_def)
qed

lemma kv_dict_map_SetDict:
  "i < length (kv_dicts kvs) \<Longrightarrow> kv_dict_map (kvstoreSetDict kvs i d) =
   (kv_dict_map kvs)(i := (case d of None \<Rightarrow> Map.empty | Some d \<Rightarrow> dict_map d))"
  by (auto simp: kv_dict_map_def fun_eq_iff)

lemma kv_dict_map_cong: "kv_dicts kvs = kv_dicts kvs' \<Longrightarrow> kv_dict_map kvs = kv_dict_map kvs'"
  by (simp add: kv_dict_map_def fun_eq_iff)

lemma kv_num_dicts_bits: "kv_num_dicts_bits kvs = kv_num_dicts_bits kvs' \<Longrightarrow> kv_num_dicts kvs = kv_num_dicts kvs'"
  by (simp add: kv_num_dicts_def)

text \<open>What an operation on the dict \<open>didx\<close> may do: only the contents of that dict change, to \<open>m\<close>.\<close>

definition kv_effect :: "('k, 'v) kvstore \<Rightarrow> ('k, 'v) kvstore \<Rightarrow> nat \<Rightarrow> ('k \<rightharpoonup> 'v) \<Rightarrow> bool" where
  "kv_effect kvs kvs' didx m \<longleftrightarrow>
     kv_num_dicts_bits kvs' = kv_num_dicts_bits kvs \<and> kv_dict_map kvs' = (kv_dict_map kvs)(didx := m)"

lemma kv_effect_trans: "kv_effect kvs kvs1 i m1 \<Longrightarrow> kv_effect kvs1 kvs2 i m2 \<Longrightarrow> kv_effect kvs kvs2 i m2"
  by (simp add: kv_effect_def)

lemma kv_effect_refl: "kv_effect kvs kvs i (kv_dict_map kvs i)"
  by (simp add: kv_effect_def)

text \<open>A dict that changes without changing its size.\<close>

lemma kv_SetDict_same_size:
  assumes ok: "kv_ok hash kvs" and i: "i < kv_num_dicts kvs" "kv_dicts kvs ! i = Some d"
    and d': "dict_ok hash d'" "pauseAutoResize d' \<le> 0" "dictSize d' = dictSize d"
  shows "kv_ok hash (kvstoreSetDict kvs i (Some d')) \<and> kv_effect kvs (kvstoreSetDict kvs i (Some d')) i (dict_map d')"
proof -
  have shape: "kv_shape hash kvs" and l: "i < length (kv_dicts kvs)" using ok i by (simp_all add: kv_ok_def kv_shape_def)
  have "(kv_sizes kvs)[i := dictSize d'] = kv_sizes kvs" using l i(2) d'(3) by (simp add: list_update_same_conv kv_sizes_nth)
  then have "kv_ok hash (kvstoreSetDict kvs i (Some d'))"
    using ok kv_shape_SetDict_Some [OF shape i d'(1,2)] by (simp add: kv_ok_def)
  then show ?thesis using l by (simp add: kv_effect_def kv_dict_map_SetDict)
qed

lemma kv_SetDict_same:
  assumes "kv_ok hash kvs" "i < kv_num_dicts kvs" "kv_dicts kvs ! i = Some d" "dict_ok hash d'" "dict_same d d'"
  shows "kv_ok hash (kvstoreSetDict kvs i (Some d')) \<and> kv_effect kvs (kvstoreSetDict kvs i (Some d')) i (kv_dict_map kvs i)"
proof -
  have d: "dict_ok hash d" "pauseAutoResize d \<le> 0" using assms(1-3) kv_shape_dict unfolding kv_ok_def by blast+
  then have "pauseAutoResize d' \<le> 0" using assms(5) by (simp add: dict_same_def)
  moreover have "dict_map d' = kv_dict_map kvs i" using dict_same_map [OF d(1) assms(5)] assms(3) by (simp add: kv_dict_map_def)
  ultimately show ?thesis
    using kv_SetDict_same_size [OF assms(1-4)] dict_same_size [OF d(1) assms(4,5)] by simp
qed

text \<open>\<open>cumulativeKeyCountAdd\<close> after one key came or went. It changes the counts only.\<close>

definition kv_same_dicts :: "('k, 'v) kvstore \<Rightarrow> ('k, 'v) kvstore \<Rightarrow> bool" where
  "kv_same_dicts kvs kvs' \<longleftrightarrow> (\<exists>n k f. kvs' = kvs\<lparr>kv_non_empty_dicts := n, kv_key_count := k, kv_dict_sizes := f\<rparr>)"

lemma kv_same_dictsD:
  "kv_same_dicts kvs kvs' \<Longrightarrow> kv_shape hash kvs' = kv_shape hash kvs \<and> kv_sizes kvs' = kv_sizes kvs
     \<and> kv_dict_map kvs' = kv_dict_map kvs \<and> kv_num_dicts_bits kvs' = kv_num_dicts_bits kvs \<and> kv_dicts kvs' = kv_dicts kvs"
  by (auto simp: kv_same_dicts_def kv_shape_def kv_sizes_def kv_num_dicts_def kv_dict_map_def fun_eq_iff)

lemma kv_counts_add:
  assumes c: "kv_counts kvs a" and i: "i < kv_num_dicts kvs" "kv_dicts kvs ! i = Some d" "i < length (kv_dicts kvs)"
    and delta: "delta = 1 \<and> sum_list a + 2 < 2 ^ 64 \<or> delta = - 1 \<and> 0 < a ! i" and sz: "int (dictSize d) = int (a ! i) + delta"
  shows "\<exists>kvs'. cumulativeKeyCountAdd kvs i delta = Ok kvs' \<and> kv_counts kvs' (a[i := dictSize d]) \<and> kv_same_dicts kvs kvs'"
proof -
  let ?a = "a[i := dictSize d]"
  have la: "length a = kv_num_dicts kvs" "i < length a" using c i(1) by (simp_all add: kv_counts_def)
  have sum: "int (sum_list ?a) = int (sum_list a) + delta"
    using int_sum_list_update [OF la(2)] sz by simp
  have old: "kv_key_count kvs = sum_list a" "sum_list a + 1 < 2 ^ 64" using c by (simp_all add: kv_counts_def)
  have small: "sum_list ?a + 1 < 2 ^ 64" using sum delta old by auto
  have count: "c_unsigned 64 (int (kv_key_count kvs) + delta) = sum_list ?a"
  proof -
    have "int (kv_key_count kvs) + delta = int (sum_list ?a)" using sum old(1) by simp
    moreover have "int (sum_list ?a) < 2 ^ 64" using small by simp
    ultimately show ?thesis by (simp add: c_unsigned_id)
  qed
  define ne where "ne = kv_non_empty_dicts kvs + (if dictSize d = 1 \<and> delta > 0 then 1 else if dictSize d = 0 then - 1 else 0)"
  have ne: "ne = int (length (filter (\<lambda>n. 0 < n) ?a))"
  proof -
    have "kv_non_empty_dicts kvs = int (length (filter (\<lambda>n. 0 < n) a))" using c by (simp add: kv_counts_def)
    then show ?thesis unfolding int_filter_update [OF la(2)] ne_def using delta sz by auto
  qed
  have ft: "\<exists>ft'. fwTreeUpdate ft (int i) delta = Ok ft' \<and> fw_ok ft' ?a" if ft: "fw_ok ft a" for ft
  proof (cases "delta = 1")
    case True
    then have "dictSize d = Suc (a ! i)" using sz by simp
    then show ?thesis using fw.add_one [OF ft la(2) old(2)] True by simp
  next
    case False
    then have "delta = - 1" "0 < a ! i" "dictSize d = a ! i - 1" using delta sz by auto
    then show ?thesis using fw.take_one [OF ft la(2)] old(2) by simp
  qed
  let ?k = "kvs\<lparr>kv_key_count := sum_list ?a, kv_non_empty_dicts := ne\<rparr>"
  have eq: "cumulativeKeyCountAdd kvs i delta =
      (if kv_num_dicts kvs = 1 then Ok ?k
       else case kv_dict_sizes kvs of None \<Rightarrow> Abort
         | Some ft \<Rightarrow> bind_outcome (fwTreeUpdate ft (int i) delta) (\<lambda>ft. Ok (?k\<lparr>kv_dict_sizes := Some ft\<rparr>)))"
    using i by (simp add: cumulativeKeyCountAdd_def Let_def kvstoreGetDict_def kv_num_dicts_def count ne_def split: option.split)
  show ?thesis
  proof (cases "kv_num_dicts kvs = 1")
    case True
    then have "cumulativeKeyCountAdd kvs i delta = Ok ?k" using eq by simp
    moreover have "kv_counts ?k ?a" using c la(1) small ne True by (simp add: kv_counts_def kv_num_dicts_def)
    moreover have "kv_same_dicts kvs ?k"
      unfolding kv_same_dicts_def by (rule exI [of _ ne], rule exI [of _ "sum_list ?a"], rule exI [of _ "kv_dict_sizes kvs"]) simp
    ultimately show ?thesis by blast
  next
    case False
    then obtain ft0 where f0: "kv_dict_sizes kvs = Some ft0" "fw_ok ft0 a" using c by (auto simp: kv_counts_def)
    obtain ft' where f: "fwTreeUpdate ft0 (int i) delta = Ok ft'" "fw_ok ft' ?a" using ft [OF f0(2)] by blast
    let ?k' = "?k\<lparr>kv_dict_sizes := Some ft'\<rparr>"
    have "cumulativeKeyCountAdd kvs i delta = Ok ?k'" using eq False f0(1) f(1) by simp
    moreover have "kv_counts ?k' ?a" using c la(1) small ne f(2) False by (simp add: kv_counts_def kv_num_dicts_def)
    moreover have "kv_same_dicts kvs ?k'"
      unfolding kv_same_dicts_def by (rule exI [of _ ne], rule exI [of _ "sum_list ?a"], rule exI [of _ "Some ft'"]) simp
    ultimately show ?thesis by blast
  qed
qed

lemma kv_ok_same_dicts:
  "kv_shape hash kvs \<Longrightarrow> kv_counts kvs' (kv_sizes kvs) \<Longrightarrow> kv_same_dicts kvs kvs' \<Longrightarrow> kv_ok hash kvs'"
  using kv_same_dictsD [of kvs kvs' hash] by (simp add: kv_ok_def)

section \<open>Creating and freeing dicts\<close>

lemma createDictIfNeeded_ok:
  assumes ok: "kv_ok hash kvs" and i: "i < kv_num_dicts kvs"
  shows "\<exists>kvs' d. createDictIfNeeded kvs i = Ok (kvs', d) \<and> kv_ok hash kvs' \<and> kv_dicts kvs' ! i = Some d
    \<and> kv_effect kvs kvs' i (kv_dict_map kvs i) \<and> kv_sizes kvs' = kv_sizes kvs"
proof (cases "kv_dicts kvs ! i")
  case (Some d)
  then show ?thesis using ok i kv_effect_refl [of kvs i]
    by (simp add: createDictIfNeeded_def kv_ok_def kv_shape_def)
next
  case None
  have shape: "kv_shape hash kvs" and l: "i < length (kv_dicts kvs)" using ok i by (simp_all add: kv_ok_def kv_shape_def)
  let ?k = "(kvstoreSetDict kvs i (Some dictCreate))\<lparr>kv_allocated_dicts := kv_allocated_dicts kvs + 1\<rparr>"
  have new: "dict_ok hash dictCreate \<and> pauseAutoResize (dictCreate :: ('a, 'b) dict) \<le> 0" "dictSize (dictCreate :: ('a, 'b) dict) = 0"
    using dictCreate_ok(1) by (simp_all add: dictCreate_def dictInit_def dictSize_def)
  have sizes: "kv_sizes ?k = kv_sizes kvs" using l None new(2) by (simp add: list_update_same_conv kv_sizes_nth)
  have "kv_shape hash ?k" using kv_shape_SetDict [OF shape i, of "Some dictCreate"] None new(1) by simp
  then have "kv_ok hash ?k" using ok sizes by (simp only: kv_ok_def) simp
  moreover have "kv_effect kvs ?k i (kv_dict_map kvs i)"
    using kv_dict_map_SetDict [OF l, of "Some dictCreate"] None dictCreate_ok(2)
    by (simp add: kv_effect_def kv_dict_map_def fun_eq_iff)
  ultimately show ?thesis using None l sizes by (simp add: createDictIfNeeded_def)
qed

lemma dict_map_empty: "dict_ok hash d \<Longrightarrow> dictSize d = 0 \<Longrightarrow> dict_map d = Map.empty"
  using dictSize_entries [of hash d] by (simp add: dict_map_def)

lemma freeDictIfNeeded_ok:
  assumes ok: "kv_ok hash kvs" and i: "i < kv_num_dicts kvs"
  shows "\<exists>kvs'. freeDictIfNeeded kvs i = Ok kvs' \<and> kv_ok hash kvs' \<and> kv_effect kvs kvs' i (kv_dict_map kvs i)
    \<and> kv_sizes kvs' = kv_sizes kvs \<and> kv_key_count kvs' = kv_key_count kvs \<and> kv_dict_sizes kvs' = kv_dict_sizes kvs"
proof (cases "freeDictIfNeeded kvs i = Ok kvs")
  case True
  then show ?thesis using ok kv_effect_refl [of kvs i] by auto
next
  case False
  have shape: "kv_shape hash kvs" and l: "i < length (kv_dicts kvs)" using ok i by (simp_all add: kv_ok_def kv_shape_def)
  let ?k = "(kvstoreSetDict kvs i None)\<lparr>kv_allocated_dicts := kv_allocated_dicts kvs - 1\<rparr>"
  obtain d where d: "kv_dicts kvs ! i = Some d" "dictSize d = 0" "freeDictIfNeeded kvs i = Ok ?k"
    using False l by (auto simp: freeDictIfNeeded_def kvstoreDictSize_def kvstoreDictIsRehashingPaused_def split: if_splits)
  have sizes: "kv_sizes ?k = kv_sizes kvs" using l d by (simp add: list_update_same_conv kv_sizes_nth)
  have "kv_shape hash ?k" using kv_shape_SetDict [OF shape i, of None] d by simp
  then have "kv_ok hash ?k" using ok sizes by (simp only: kv_ok_def) simp
  moreover have "dict_map d = Map.empty" using kv_shape_dict [OF shape i d(1)] d(2) dict_map_empty by blast
  then have "kv_effect kvs ?k i (kv_dict_map kvs i)"
    using kv_dict_map_SetDict [OF l, of None] d
    by (simp add: kv_effect_def kv_dict_map_def fun_eq_iff)
  moreover have "kv_key_count ?k = kv_key_count kvs" "kv_dict_sizes ?k = kv_dict_sizes kvs"
    by (simp_all add: kvstoreSetDict_def)
  ultimately show ?thesis using d sizes by blast
qed

end
