(* ===== verification/Kvstore_Ops.thy ===== *)
theory Kvstore_Ops
  imports Kvstore_Inv
begin

text \<open>
  Every operation on the keys of one dict of the keyspace succeeds, keeps the invariant and has its
  effect on the contents of that dict only.
\<close>

section \<open>Sizes\<close>

lemma dictSize_card: "dict_ok hash d \<Longrightarrow> dictSize d = card (dom (dict_map d))"
  using dictSize_entries [of hash d] dict_ok_distinct [of hash d]
  by (simp add: dict_map_def dom_map_of_conv_image_fst distinct_card flip: length_map set_map)

lemma kv_sizes_card:
  assumes "kv_ok hash kvs" "i < kv_num_dicts kvs"
  shows "kv_sizes kvs ! i = card (dom (kv_dict_map kvs i))"
proof -
  have s: "kv_shape hash kvs" and l: "i < length (kv_dicts kvs)" using assms by (simp_all add: kv_ok_def kv_shape_def)
  show ?thesis
  proof (cases "kv_dicts kvs ! i")
    case None
    then show ?thesis using l by (simp add: kv_sizes_nth kv_dict_map_def)
  next
    case (Some d)
    then have "dictSize d = card (dom (dict_map d))" using kv_shape_dict [OF s assms(2)] dictSize_card by blast
    then show ?thesis using l Some by (simp add: kv_sizes_nth kv_dict_map_def)
  qed
qed

lemma kv_key_count_sizes: "kv_ok hash kvs \<Longrightarrow> kv_key_count kvs = sum_list (kv_sizes kvs)"
  by (simp add: kv_ok_def kv_counts_def)

lemma kv_effect_count:
  assumes "kv_ok hash kvs" "kv_ok hash kvs'" "kv_effect kvs kvs' i m" "i < kv_num_dicts kvs"
  shows "int (kv_key_count kvs') = int (kv_key_count kvs) - int (card (dom (kv_dict_map kvs i))) + int (card (dom m))"
proof -
  have num: "kv_num_dicts kvs' = kv_num_dicts kvs" using assms(3) by (simp add: kv_effect_def kv_num_dicts_def)
  have l: "length (kv_sizes kvs') = length (kv_sizes kvs)" "i < length (kv_sizes kvs)"
    using assms(1,2,4) num by (simp_all add: kv_ok_def kv_shape_def)
  have "kv_sizes kvs' = (kv_sizes kvs)[i := card (dom m)]"
  proof (rule nth_equalityI)
    fix j assume "j < length (kv_sizes kvs')"
    then have "j < kv_num_dicts kvs" using assms(1) l by (simp add: kv_ok_def kv_shape_def)
    then have "kv_sizes kvs' ! j = card (dom (((kv_dict_map kvs)(i := m)) j))" "kv_sizes kvs ! j = card (dom (kv_dict_map kvs j))"
      using kv_sizes_card [OF assms(2), of j] kv_sizes_card [OF assms(1), of j] assms(3) num by (simp_all add: kv_effect_def)
    then show "kv_sizes kvs' ! j = (kv_sizes kvs)[i := card (dom m)] ! j"
      using l by (cases "j = i") simp_all
  qed (use l in simp)
  then show ?thesis using kv_key_count_sizes [OF assms(1)] kv_key_count_sizes [OF assms(2)]
      int_sum_list_update [OF l(2)] kv_sizes_card [OF assms(1,4)] by simp
qed

lemma dict_map_finite: "finite (dom (dict_map d))"
  by (simp add: dict_map_def finite_dom_map_of)

lemma kv_dict_map_finite: "finite (dom (kv_dict_map kvs i))"
  by (simp add: kv_dict_map_def dict_map_finite split: option.split)

section \<open>Access to the keys\<close>

lemma kvstoreDictFetchValue_ok:
  assumes ok: "kv_ok (hashFunction ty) kvs" and i: "i < kv_num_dicts kvs"
  shows "\<exists>kvs'. kvstoreDictFetchValue ty rz kvs i key = Ok (kvs', kv_dict_map kvs i key) \<and> kv_ok (hashFunction ty) kvs'
    \<and> kv_effect kvs kvs' i (kv_dict_map kvs i)"
proof -
  have shape: "kv_shape (hashFunction ty) kvs" and l: "i < length (kv_dicts kvs)" using ok i by (simp_all add: kv_ok_def kv_shape_def)
  show ?thesis
  proof (cases "kv_dicts kvs ! i")
    case None
    then show ?thesis using ok l kv_effect_refl [of kvs i] by (simp add: kvstoreDictFetchValue_def kv_dict_map_def)
  next
    case (Some d)
    then have d: "dict_ok (hashFunction ty) d" using kv_shape_dict [OF shape i] by blast
    obtain d' where d': "dictFetchValue ty rz d key = Ok (d', dict_map d key)" "dict_ok (hashFunction ty) d'" "dict_same d d'"
      using dictFetchValue_ok [OF d] by blast
    have "kvstoreDictFetchValue ty rz kvs i key = Ok (kvstoreSetDict kvs i (Some d'), kv_dict_map kvs i key)"
      using l Some d'(1) by (simp add: kvstoreDictFetchValue_def kv_dict_map_def)
    then show ?thesis using kv_SetDict_same [OF ok i Some d'(2,3)] by blast
  qed
qed

text \<open>Where a new or existing entry is.\<close>

definition kv_place :: "('k, 'v) kvstore \<Rightarrow> nat \<Rightarrow> dict_place \<Rightarrow> 'k \<Rightarrow> bool" where
  "kv_place kvs didx pl key \<longleftrightarrow>
     (\<exists>d. kv_dicts kvs ! didx = Some d \<and> place_ok d pl \<and> (fst pl = 1 \<longrightarrow> dictIsRehashing d) \<and> fst (dict_entry d pl) = key)"

lemma kvstoreDictAddRaw_ok:
  assumes ok: "kv_ok (hashFunction ty) kvs" and i: "i < kv_num_dicts kvs" and room: "kv_key_count kvs + 2 < 2 ^ 64"
  shows "\<exists>kvs' r. kvstoreDictAddRaw ty rz kvs i key v0 = Ok (kvs', r) \<and> kv_ok (hashFunction ty) kvs'
    \<and> (case r of
          Inl pl \<Rightarrow> kv_dict_map kvs i key = None \<and> kv_effect kvs kvs' i ((kv_dict_map kvs i)(key \<mapsto> v0)) \<and> kv_place kvs' i pl key
        | Inr pl \<Rightarrow> kv_dict_map kvs i key \<noteq> None \<and> kv_effect kvs kvs' i (kv_dict_map kvs i) \<and> kv_place kvs' i pl key)"
proof -
  let ?h = "hashFunction ty"
  obtain k1 d where k1: "createDictIfNeeded kvs i = Ok (k1, d)" "kv_ok ?h k1" "kv_dicts k1 ! i = Some d"
    "kv_effect kvs k1 i (kv_dict_map kvs i)" "kv_sizes k1 = kv_sizes kvs"
    using createDictIfNeeded_ok [OF ok i] by blast
  have i1: "i < kv_num_dicts k1" using i k1(4) by (simp add: kv_effect_def kv_num_dicts_def)
  have s1: "kv_shape ?h k1" and l: "i < length (kv_dicts k1)" using k1(2) i1 by (simp_all add: kv_ok_def kv_shape_def)
  have d: "dict_ok ?h d" "pauseAutoResize d \<le> 0" using kv_shape_dict [OF s1 i1 k1(3)] by simp_all
  have map: "dict_map d = kv_dict_map kvs i" using k1(3,4) by (simp add: kv_effect_def kv_dict_map_def fun_eq_iff split: if_splits)
  obtain d' r where d': "dictAddRaw ty rz d key v0 = Ok (d', r)" "dict_ok ?h d'" "same_pauses d d'"
    and r: "case r of
          Inl pl \<Rightarrow> dict_map d key = None \<and> dict_map d' = (dict_map d)(key \<mapsto> v0) \<and> place_ok d' pl
            \<and> fst (dict_entry d' pl) = key \<and> (fst pl = 1 \<longrightarrow> dictIsRehashing d')
        | Inr pl \<Rightarrow> dict_map d' = dict_map d \<and> place_ok d' pl \<and> fst (dict_entry d' pl) = key
            \<and> dict_map d key = Some (snd (dict_entry d' pl)) \<and> (fst pl = 1 \<longrightarrow> dictIsRehashing d')"
    using dictAddRaw_ok [OF d(1), of rz key v0] d(2) by (auto simp: dict_ready_def)
  have p': "pauseAutoResize d' \<le> 0" using d'(3) d(2) by (simp add: same_pauses_def)
  let ?k2 = "kvstoreSetDict k1 i (Some d')"
  show ?thesis
  proof (cases r)
    case (Inr pl)
    then have "dictSize d' = dictSize d" using r d(1) d'(2) by (simp add: dictSize_card)
    then have "kv_ok ?h ?k2 \<and> kv_effect k1 ?k2 i (dict_map d')" by (rule kv_SetDict_same_size [OF k1(2) i1 k1(3) d'(2) p'])
    moreover have "kv_place ?k2 i pl key" using Inr r l by (simp add: kv_place_def)
    moreover have "kvstoreDictAddRaw ty rz kvs i key v0 = Ok (?k2, Inr pl)"
      using k1(1) d'(1) Inr by (simp add: kvstoreDictAddRaw_def)
    ultimately show ?thesis using r Inr map kv_effect_trans [OF k1(4)] by auto
  next
    case (Inl pl)
    then have m: "dict_map d key = None" "dict_map d' = (dict_map d)(key \<mapsto> v0)" using r by simp_all
    then have sz: "dictSize d' = dictSize d + 1"
      using d(1) d'(2) dict_map_finite [of d] by (simp add: dictSize_card card_insert_if domIff)
    have "sum_list (kv_sizes k1) + 2 < 2 ^ 64" using room kv_key_count_sizes [OF ok] k1(5) by simp
    moreover have "int (dictSize d') = int (kv_sizes k1 ! i) + 1" using sz l k1(3) by (simp add: kv_sizes_nth)
    moreover have "kv_counts ?k2 (kv_sizes k1)" using k1(2) by (simp add: kv_ok_def)
    ultimately obtain k3 where k3: "cumulativeKeyCountAdd ?k2 i 1 = Ok k3"
      "kv_counts k3 ((kv_sizes k1)[i := dictSize d'])" "kv_same_dicts ?k2 k3"
      using kv_counts_add [of ?k2 "kv_sizes k1" i d' 1] i1 l by auto
    have "kv_ok ?h k3"
      by (rule kv_ok_same_dicts [OF _ _ k3(3)]) (use k3(2) kv_shape_SetDict_Some [OF s1 i1 k1(3) d'(2) p'] in simp_all)
    moreover have "kv_effect kvs k3 i ((kv_dict_map kvs i)(key \<mapsto> v0))"
      using kv_same_dictsD [OF k3(3)] kv_dict_map_SetDict [OF l, of "Some d'"] m map k1(4) by (simp add: kv_effect_def)
    moreover have "kv_place k3 i pl key" using Inl r l kv_same_dictsD [OF k3(3)] by (simp add: kv_place_def)
    moreover have "kvstoreDictAddRaw ty rz kvs i key v0 = Ok (k3, Inl pl)"
      using k1(1) d'(1) k3(1) Inl by (simp add: kvstoreDictAddRaw_def Let_def)
    ultimately show ?thesis using m map by auto
  qed
qed

lemma kvstoreDictSetVal_ok:
  assumes ok: "kv_ok hash kvs" and i: "i < kv_num_dicts kvs" and pl: "kv_place kvs i pl key"
    and old: "kv_dict_map kvs i key \<noteq> None"
  shows "\<exists>kvs'. kvstoreDictSetVal kvs i pl v = Ok kvs' \<and> kv_ok hash kvs'
    \<and> kv_effect kvs kvs' i ((kv_dict_map kvs i)(key \<mapsto> v))"
proof -
  obtain d where d: "kv_dicts kvs ! i = Some d" "place_ok d pl" "fst pl = 1 \<longrightarrow> dictIsRehashing d" "fst (dict_entry d pl) = key"
    using pl by (auto simp: kv_place_def)
  have shape: "kv_shape hash kvs" and l: "i < length (kv_dicts kvs)" using ok i by (simp_all add: kv_ok_def kv_shape_def)
  have dok: "dict_ok hash d" "pauseAutoResize d \<le> 0" using kv_shape_dict [OF shape i d(1)] by simp_all
  let ?d = "dictSetVal d pl v"
  have d': "dict_ok hash ?d" "dict_map ?d = (kv_dict_map kvs i)(key \<mapsto> v)" "pauseAutoResize ?d \<le> 0"
    using set_chain_value [OF dok(1) d(2,3), of v] d(1,4) dictSetVal_pauses [of d pl v] dok(2)
    by (simp_all add: kv_dict_map_def same_pauses_def)
  have "dictSize ?d = dictSize d"
    using d'(2) d(1) old dictSize_card [OF dok(1)] dictSize_card [OF d'(1)]
    by (simp add: kv_dict_map_def domIff insert_absorb)
  then show ?thesis using kv_SetDict_same_size [OF ok i d(1) d'(1,3)] d(1) l d'(2) by (simp add: kvstoreDictSetVal_def)
qed

lemma kvstoreDictDelete_ok:
  assumes ok: "kv_ok (hashFunction ty) kvs" and i: "i < kv_num_dicts kvs"
  shows "\<exists>kvs'. kvstoreDictDelete ty rz kvs i key = Ok (kvs', kv_dict_map kvs i key \<noteq> None)
    \<and> kv_ok (hashFunction ty) kvs' \<and> kv_effect kvs kvs' i ((kv_dict_map kvs i)(key := None))"
proof -
  let ?h = "hashFunction ty"
  have shape: "kv_shape ?h kvs" and l: "i < length (kv_dicts kvs)" using ok i by (simp_all add: kv_ok_def kv_shape_def)
  show ?thesis
  proof (cases "kv_dicts kvs ! i")
    case None
    then have "kv_dict_map kvs i = Map.empty" by (simp add: kv_dict_map_def)
    then show ?thesis using None ok l kv_effect_refl [of kvs i] by (simp add: kvstoreDictDelete_def)
  next
    case (Some d)
    then have d: "dict_ok ?h d" "pauseAutoResize d \<le> 0" "kv_dict_map kvs i = dict_map d"
      using kv_shape_dict [OF shape i] by (auto simp: kv_dict_map_def)
    obtain d' where d': "dictGenericDelete ty rz d key = Ok (d', map_option (Pair key) (dict_map d key))"
      "dict_ok ?h d'" "same_pauses d d'" "dict_map d' = (dict_map d)(key := None)"
      using dictGenericDelete_ok [OF d(1)] by blast
    have del: "dictDelete ty rz d key = Ok (d', dict_map d key \<noteq> None)" using d'(1) by (simp add: dictDelete_def)
    have p': "pauseAutoResize d' \<le> 0" using d'(3) d(2) by (simp add: same_pauses_def)
    let ?k = "kvstoreSetDict kvs i (Some d')"
    show ?thesis
    proof (cases "dict_map d key")
      case None
      then have "dictSize d' = dictSize d" using d'(4) d(1) d'(2) by (simp add: dictSize_card fun_upd_idem)
      then have "kv_ok ?h ?k \<and> kv_effect kvs ?k i (dict_map d')" by (rule kv_SetDict_same_size [OF ok i Some d'(2) p'])
      then show ?thesis using Some l del None d'(4) d(3) by (simp add: kvstoreDictDelete_def Let_def)
    next
      case (Some v)
      have "dictSize d = card (insert key (dom (dict_map d'))) " "key \<notin> dom (dict_map d')"
        using dictSize_card [OF d(1)] d'(4) Some by (auto simp: insert_absorb domIff)
      then have sz: "dictSize d = dictSize d' + 1" using dictSize_card [OF d'(2)] dict_map_finite [of d'] by simp
      note di = \<open>kv_dicts kvs ! i = Some d\<close>
      have "kv_counts ?k (kv_sizes kvs)" using ok by (simp add: kv_ok_def)
      moreover have "0 < kv_sizes kvs ! i" "int (dictSize d') = int (kv_sizes kvs ! i) + - 1"
        using sz l di by (simp_all add: kv_sizes_nth)
      ultimately obtain k3 where k3: "cumulativeKeyCountAdd ?k i (- 1) = Ok k3"
        "kv_counts k3 ((kv_sizes kvs)[i := dictSize d'])" "kv_same_dicts ?k k3"
        using kv_counts_add [of ?k "kv_sizes kvs" i d' "- 1"] i l by auto
      have ok3: "kv_ok ?h k3"
        by (rule kv_ok_same_dicts [OF _ _ k3(3)]) (use k3(2) kv_shape_SetDict_Some [OF shape i di d'(2) p'] in simp_all)
      have e3: "kv_effect kvs k3 i ((kv_dict_map kvs i)(key := None))"
        using kv_same_dictsD [OF k3(3)] kv_dict_map_SetDict [OF l, of "Some d'"] d'(4) d(3) by (simp add: kv_effect_def)
      then have "i < kv_num_dicts k3" using i by (simp add: kv_effect_def kv_num_dicts_def)
      then obtain k4 where k4: "freeDictIfNeeded k3 i = Ok k4" "kv_ok ?h k4" "kv_effect k3 k4 i (kv_dict_map k3 i)"
        using freeDictIfNeeded_ok [OF ok3] by blast
      have "kv_effect kvs k4 i ((kv_dict_map kvs i)(key := None))"
        using k4(3) e3 by (simp add: kv_effect_def)
      moreover have "kvstoreDictDelete ty rz kvs i key = Ok (k4, True)"
        using di l del Some k3(1) k4(1) by (simp add: kvstoreDictDelete_def Let_def)
      ultimately show ?thesis using k4(2) Some d(3) by simp
    qed
  qed
qed

text \<open>Resizing and rehashing a dict leaves the contents as they are.\<close>

lemma kvstoreDictExpand_ok:
  assumes ok: "kv_ok (hashFunction ty) kvs" and i: "i < kv_num_dicts kvs"
  shows "\<exists>kvs' r. kvstoreDictExpand ty rz kvs i n = Ok (kvs', r) \<and> kv_ok (hashFunction ty) kvs'
    \<and> kv_effect kvs kvs' i (kv_dict_map kvs i)"
proof -
  let ?h = "hashFunction ty"
  obtain k1 d where k1: "createDictIfNeeded kvs i = Ok (k1, d)" "kv_ok ?h k1" "kv_dicts k1 ! i = Some d"
    "kv_effect kvs k1 i (kv_dict_map kvs i)"
    using createDictIfNeeded_ok [OF ok i] by blast
  have i1: "i < kv_num_dicts k1" using i k1(4) by (simp add: kv_effect_def kv_num_dicts_def)
  have d: "dict_ok ?h d" using kv_shape_dict [OF _ i1 k1(3)] k1(2) by (simp add: kv_ok_def)
  obtain d' r where d': "dictExpand ty rz d n = Ok (d', r)" "dict_ok ?h d'" "dict_same d d'"
    using dictExpand_ok [OF d, of rz n] by blast
  have "kv_effect kvs k1 i (kv_dict_map k1 i)" using k1(4) by (simp add: kv_effect_def)
  then show ?thesis using kv_SetDict_same [OF k1(2) i1 k1(3) d'(2,3)] k1(1,4) d'(1)
    by (auto simp: kvstoreDictExpand_def kv_effect_def)
qed

definition kv_same :: "('k, 'v) kvstore \<Rightarrow> ('k, 'v) kvstore \<Rightarrow> bool" where
  "kv_same kvs kvs' \<longleftrightarrow> kv_num_dicts_bits kvs' = kv_num_dicts_bits kvs \<and> kv_dict_map kvs' = kv_dict_map kvs"

lemma kv_same_effect: "kv_effect kvs kvs' i (kv_dict_map kvs i) \<longleftrightarrow> kv_same kvs kvs'"
  by (simp add: kv_effect_def kv_same_def)

lemma kv_same_refl [simp]: "kv_same kvs kvs"
  by (simp add: kv_same_def)

lemma kv_same_trans: "kv_same kvs k1 \<Longrightarrow> kv_same k1 k2 \<Longrightarrow> kv_same kvs k2"
  by (simp add: kv_same_def)

lemma kv_same_num: "kv_same kvs k1 \<Longrightarrow> kv_num_dicts k1 = kv_num_dicts kvs"
  by (simp add: kv_same_def kv_num_dicts_def)

lemma kv_ok_cursor: "kv_ok hash kvs \<Longrightarrow> c < kv_num_dicts kvs \<Longrightarrow>
  kv_ok hash (kvs\<lparr>kv_resize_cursor := c\<rparr>) \<and> kv_same kvs (kvs\<lparr>kv_resize_cursor := c\<rparr>)"
  by (simp add: kv_ok_def kv_shape_def kv_counts_def kv_sizes_def kv_num_dicts_def kv_same_def kv_dict_map_def fun_eq_iff)

lemma dictShrinkIfNeeded_ok:
  assumes "dict_ok (hashFunction ty) d"
  shows "\<exists>d' r. dictShrinkIfNeeded ty rz d = Ok (d', r) \<and> dict_ok (hashFunction ty) d' \<and> dict_same d d'"
proof -
  obtain d' r where s: "dictShrink ty rz d (ht_used (ht0 d)) = Ok (d', r)" "dict_ok (hashFunction ty) d'" "dict_same d d'"
    using dictShrink_ok [OF assms] by blast
  have "dictShrinkIfNeeded ty rz d \<in> {Ok (d, True), Ok (d, False), Ok (d', True)}"
    unfolding dictShrinkIfNeeded_def Let_def s(1) by simp
  then show ?thesis using assms s(2,3) dict_same_refl by blast
qed

lemma resize_round_ok:
  assumes ok: "kv_ok (hashFunction ty) kvs" and i: "i < kv_num_dicts kvs"
  shows "\<exists>kvs'. (case kv_dicts kvs ! i of
           None \<Rightarrow> Ok kvs
         | Some d \<Rightarrow>
             bind_outcome (dictShrinkIfNeeded ty rz d) (\<lambda>(d, r).
             if r then Ok (kvstoreSetDict kvs i (Some d))
             else bind_outcome (dictExpandIfNeeded ty rz d) (\<lambda>(d, r). Ok (kvstoreSetDict kvs i (Some d))))) = Ok kvs'
    \<and> kv_ok (hashFunction ty) kvs' \<and> kv_same kvs kvs'"
proof (cases "kv_dicts kvs ! i")
  case None
  then show ?thesis using ok by simp
next
  case (Some d)
  let ?h = "hashFunction ty"
  have d: "dict_ok ?h d" using kv_shape_dict [OF _ i Some] ok by (simp add: kv_ok_def)
  obtain d1 r where d1: "dictShrinkIfNeeded ty rz d = Ok (d1, r)" "dict_ok ?h d1" "dict_same d d1"
    using dictShrinkIfNeeded_ok [OF d] by blast
  obtain d2 r2 where d2: "dictExpandIfNeeded ty rz d1 = Ok (d2, r2)" "dict_ok ?h d2" "dict_same d1 d2"
    using dictExpandIfNeeded_ok [OF d1(2)] by blast
  show ?thesis
    using Some d1(1) d2(1) kv_SetDict_same [OF ok i Some d1(2,3)] kv_SetDict_same [OF ok i Some d2(2) dict_same_trans [OF d1(3) d2(3)]]
    by (cases r) (simp_all add: kv_same_effect)
qed

lemma resize_rounds_ok:
  "kv_ok (hashFunction ty) kvs \<Longrightarrow>
   \<exists>kvs'. resize_rounds ty rz n kvs = Ok kvs' \<and> kv_ok (hashFunction ty) kvs' \<and> kv_same kvs kvs'"
proof (induction n arbitrary: kvs)
  case (Suc n)
  define i where "i = kv_resize_cursor kvs"
  have i: "i < kv_num_dicts kvs" "i < length (kv_dicts kvs)" using Suc.prems by (simp_all add: i_def kv_ok_def kv_shape_def)
  obtain k1 where k1: "(case kv_dicts kvs ! i of
           None \<Rightarrow> Ok kvs
         | Some d \<Rightarrow>
             bind_outcome (dictShrinkIfNeeded ty rz d) (\<lambda>(d, r).
             if r then Ok (kvstoreSetDict kvs i (Some d))
             else bind_outcome (dictExpandIfNeeded ty rz d) (\<lambda>(d, r). Ok (kvstoreSetDict kvs i (Some d))))) = Ok k1"
    "kv_ok (hashFunction ty) k1" "kv_same kvs k1"
    using resize_round_ok [OF Suc.prems i(1), of rz] by blast
  let ?k = "k1\<lparr>kv_resize_cursor := (i + 1) mod kv_num_dicts k1\<rparr>"
  have "0 < kv_num_dicts k1" by (simp add: kv_num_dicts_def)
  then have k: "kv_ok (hashFunction ty) ?k \<and> kv_same k1 ?k" using kv_ok_cursor [OF k1(2)] by simp
  then obtain k2 where k2: "resize_rounds ty rz n ?k = Ok k2" "kv_ok (hashFunction ty) k2" "kv_same ?k k2"
    using Suc.IH by blast
  have "resize_rounds ty rz (Suc n) kvs = Ok k2"
    unfolding resize_rounds.simps Let_def i_def [symmetric] kvstoreGetDict_Ok [OF i(2)] bind_outcome.simps k1(1) using k2(1) by simp
  then show ?case using k2 k k1(3) kv_same_trans by blast
qed simp

lemma kvstoreTryResizeDicts_ok:
  "kv_ok (hashFunction ty) kvs \<Longrightarrow>
   \<exists>kvs'. kvstoreTryResizeDicts ty rz kvs n = Ok kvs' \<and> kv_ok (hashFunction ty) kvs' \<and> kv_same kvs kvs'"
  unfolding kvstoreTryResizeDicts_def by (rule resize_rounds_ok)

end
