(* ===== verification/Kvstore_Map.thy ===== *)
theory Kvstore_Map
  imports Kvstore_Ops
begin

text \<open>
  The keyspace as a finite map: the keys are spread over the dicts by a slot function, and every
  sequence of operations, with resizing and rehashing in between, answers as the map does.
\<close>

section \<open>Creation and emptying\<close>

definition kvstore_fresh :: "nat \<Rightarrow> bool \<Rightarrow> bool \<Rightarrow> (nat \<Rightarrow> bool) option \<Rightarrow> ('k, 'v) kvstore" where
  "kvstore_fresh b on_demand free_empty canFreeDict =
     \<lparr>kv_on_demand = on_demand, kv_free_empty = free_empty, kv_canFreeDict = canFreeDict,
      kv_dicts = replicate (2 ^ b) (if on_demand then None else Some dictCreate),
      kv_num_dicts_bits = b, kv_resize_cursor = 0,
      kv_allocated_dicts = (if on_demand then 0 else int (2 ^ b)), kv_non_empty_dicts = 0, kv_key_count = 0,
      kv_dict_sizes = (if (2 :: nat) ^ b > 1 then Some (fwTreeCreate b) else None)\<rparr>"

lemma kvstoreCreate_fresh: "b \<le> 16 \<Longrightarrow> kvstoreCreate b od fe can = Ok (kvstore_fresh b od fe can)"
  by (simp add: kvstoreCreate_def kvstore_fresh_def Let_def)

lemma kvstore_fresh_map: "i < 2 ^ b \<Longrightarrow> kv_dict_map (kvstore_fresh b od fe can) i = Map.empty"
  by (simp add: kv_dict_map_def kvstore_fresh_def dictCreate_ok)

lemma kvstore_fresh_ok:
  assumes "b \<le> 16"
  shows "kv_ok hash (kvstore_fresh b od fe can)"
proof -
  let ?k = "kvstore_fresh b od fe can :: ('a, 'b) kvstore"
  have new: "dict_ok hash (dictCreate :: ('a, 'b) dict) \<and> pauseAutoResize (dictCreate :: ('a, 'b) dict) \<le> 0" "dictSize (dictCreate :: ('a, 'b) dict) = 0"
    using dictCreate_ok(1) by (simp_all add: dictCreate_def dictInit_def dictSize_def)
  have sizes: "kv_sizes ?k = replicate (2 ^ b) 0"
    using new(2) by (simp add: kv_sizes_def kvstore_fresh_def)
  have "kv_shape hash ?k" using assms new(1) by (simp add: kv_shape_def kvstore_fresh_def kv_num_dicts_def)
  moreover have "kv_counts ?k (replicate (2 ^ b) 0)"
    using fwTreeCreate_ok [of b] one_less_power [of "2 :: nat" b]
    by (cases "b = 0") (simp_all add: kv_counts_def kvstore_fresh_def kv_num_dicts_def sum_list_replicate)
  ultimately show ?thesis by (simp only: kv_ok_def sizes)
qed

text \<open>\<open>kvstoreEmpty\<close>: the dicts are emptied one by one and the counts reset at the end.\<close>

definition kv_emptied :: "('k, 'v) kvstore \<Rightarrow> nat \<Rightarrow> bool" where
  "kv_emptied kvs n \<longleftrightarrow> (\<forall>i < n. case kv_dicts kvs ! i of None \<Rightarrow> True | Some d \<Rightarrow> d = dictCreate)"

lemma freeDictIfNeeded_shape:
  assumes s: "kv_shape hash kvs" and i: "i < kv_num_dicts kvs"
  shows "\<exists>kvs'. freeDictIfNeeded kvs i = Ok kvs' \<and> kv_shape hash kvs'
    \<and> (\<exists>n d. kvs' = kvs\<lparr>kv_allocated_dicts := n, kv_dicts := (kv_dicts kvs)[i := d]\<rparr> \<and> (d = None \<or> d = kv_dicts kvs ! i))"
proof (cases "freeDictIfNeeded kvs i = Ok kvs")
  case True
  have "kvs = kvs\<lparr>kv_allocated_dicts := kv_allocated_dicts kvs, kv_dicts := (kv_dicts kvs)[i := kv_dicts kvs ! i]\<rparr>" by simp
  then show ?thesis using True s by blast
next
  case False
  have l: "i < length (kv_dicts kvs)" using s i by (simp add: kv_shape_def)
  let ?k = "(kvstoreSetDict kvs i None)\<lparr>kv_allocated_dicts := kv_allocated_dicts kvs - 1\<rparr>"
  obtain d where d: "kv_dicts kvs ! i = Some d" "freeDictIfNeeded kvs i = Ok ?k"
    using False l by (auto simp: freeDictIfNeeded_def kvstoreDictSize_def kvstoreDictIsRehashingPaused_def split: if_splits)
  have "kv_shape hash ?k" using kv_shape_SetDict [OF s i, of None] d by simp
  moreover have "?k = kvs\<lparr>kv_allocated_dicts := kv_allocated_dicts kvs - 1, kv_dicts := (kv_dicts kvs)[i := None]\<rparr>"
    by (simp add: kvstoreSetDict_def)
  ultimately show ?thesis using d(2) by blast
qed

lemma empty_loop_ok:
  "kv_shape hash kvs \<Longrightarrow> n \<le> kv_num_dicts kvs \<Longrightarrow> kv_emptied kvs (kv_num_dicts kvs - n) \<Longrightarrow>
   \<exists>kvs'. empty_loop n kvs = Ok kvs' \<and> kv_shape hash kvs' \<and> kv_emptied kvs' (kv_num_dicts kvs)
     \<and> (\<exists>a ds. kvs' = kvs\<lparr>kv_allocated_dicts := a, kv_dicts := ds\<rparr>)"
proof (induction n arbitrary: kvs)
  case 0
  have "\<exists>a ds. kvs = kvs\<lparr>kv_allocated_dicts := a, kv_dicts := ds\<rparr>"
    by (rule exI [of _ "kv_allocated_dicts kvs"], rule exI [of _ "kv_dicts kvs"]) simp
  then show ?case using 0 by simp
next
  case (Suc n)
  define i where "i = kv_num_dicts kvs - Suc n"
  have i: "i < kv_num_dicts kvs" "i < length (kv_dicts kvs)" "kv_num_dicts kvs - n = Suc i"
    using Suc.prems by (simp_all add: i_def kv_shape_def)
  have em: "kv_emptied kvs i" using Suc.prems(3) by (simp add: i_def)
  show ?case
  proof (cases "kv_dicts kvs ! i")
    case None
    then have "kv_emptied kvs (kv_num_dicts kvs - n)" using em i(3) by (simp add: kv_emptied_def less_Suc_eq)
    moreover have "empty_loop (Suc n) kvs = empty_loop n kvs" using None i(2) by (simp add: Let_def flip: i_def)
    ultimately show ?thesis using Suc.IH [of kvs] Suc.prems by simp
  next
    case (Some d)
    have d: "dict_ok hash d" using kv_shape_dict [OF Suc.prems(1) i(1) Some] by simp
    have new: "dict_ok hash dictCreate" "pauseAutoResize (dictCreate :: ('a, 'b) dict) \<le> 0"
      using dictCreate_ok(1) by (simp_all add: dictCreate_def dictInit_def)
    let ?k = "kvstoreSetDict kvs i (Some dictCreate)"
    have k: "kv_shape hash ?k" by (rule kv_shape_SetDict_Some [OF Suc.prems(1) i(1) Some new])
    obtain k2 m e where k2: "freeDictIfNeeded ?k i = Ok k2" "kv_shape hash k2"
      "k2 = ?k\<lparr>kv_allocated_dicts := m, kv_dicts := (kv_dicts ?k)[i := e]\<rparr>" "e = None \<or> e = kv_dicts ?k ! i"
      using freeDictIfNeeded_shape [OF k, of i] i(1) by auto
    have eq: "k2 = kvs\<lparr>kv_allocated_dicts := m, kv_dicts := (kv_dicts kvs)[i := e]\<rparr>" using k2(3) by (simp add: kvstoreSetDict_def)
    have num: "kv_num_dicts k2 = kv_num_dicts kvs" unfolding eq by (simp add: kv_num_dicts_def)
    have "e = None \<or> e = Some dictCreate" using k2(4) i(2) by simp
    then have "kv_emptied k2 (kv_num_dicts kvs - n)"
      using em i unfolding eq by (auto simp: kv_emptied_def less_Suc_eq)
    then obtain k3 a ds where k3: "empty_loop n k2 = Ok k3" "kv_shape hash k3" "kv_emptied k3 (kv_num_dicts kvs)"
      "k3 = k2\<lparr>kv_allocated_dicts := a, kv_dicts := ds\<rparr>"
      using Suc.IH [OF k2(2)] Suc.prems(2) num by auto
    have "empty_loop (Suc n) kvs = Ok k3"
      using Some i(2) dictEmpty_ok [OF d] k2(1) k3(1) by (simp add: Let_def flip: i_def)
    moreover have "k3 = kvs\<lparr>kv_allocated_dicts := a, kv_dicts := ds\<rparr>" using k3(4) eq by simp
    ultimately show ?thesis using k3(2,3) by blast
  qed
qed

lemma kvstoreEmpty_ok:
  assumes ok: "kv_ok hash kvs"
  shows "\<exists>kvs'. kvstoreEmpty kvs = Ok kvs' \<and> kv_ok hash kvs' \<and> kvstoreSize kvs' = 0
    \<and> kv_num_dicts_bits kvs' = kv_num_dicts_bits kvs \<and> (\<forall>i < kv_num_dicts kvs. kv_dict_map kvs' i = Map.empty)"
proof -
  have s: "kv_shape hash kvs" and c: "kv_counts kvs (kv_sizes kvs)" using ok by (simp_all add: kv_ok_def)
  have "kv_emptied kvs (kv_num_dicts kvs - kv_num_dicts kvs)" by (simp add: kv_emptied_def)
  then obtain k a ds where k: "empty_loop (kv_num_dicts kvs) kvs = Ok k" "kv_shape hash k" "kv_emptied k (kv_num_dicts kvs)"
    "k = kvs\<lparr>kv_allocated_dicts := a, kv_dicts := ds\<rparr>"
    using empty_loop_ok [OF s order_refl] by blast
  let ?k = "k\<lparr>kv_key_count := 0, kv_non_empty_dicts := 0, kv_resize_cursor := 0,
             kv_dict_sizes := map_option fwTreeClear (kv_dict_sizes k)\<rparr>"
  let ?n = "kv_num_dicts kvs"
  have num: "kv_num_dicts k = ?n" "0 < ?n" by (simp_all add: k(4) kv_num_dicts_def)
  have lk: "length (kv_dicts k) = ?n" using k(2) num by (simp add: kv_shape_def)
  have each: "kv_dicts k ! i = None \<or> kv_dicts k ! i = Some dictCreate" if "i < ?n" for i
    using k(3) that by (cases "kv_dicts k ! i") (auto simp: kv_emptied_def split: option.splits)
  have zero: "kv_sizes ?k = replicate ?n 0"
  proof (rule nth_equalityI)
    fix i assume "i < length (kv_sizes ?k)"
    then have "i < ?n" using lk by simp
    then show "kv_sizes ?k ! i = replicate ?n 0 ! i"
      using each [of i] lk by (auto simp: kv_sizes_nth dictSize_def dictCreate_def dictInit_def)
  qed (use lk in simp)
  have "kv_shape hash ?k" using k(2) num by (simp add: kv_shape_def kv_num_dicts_def)
  moreover have "kv_counts ?k (replicate ?n 0)"
  proof -
    have "\<exists>ft. kv_dict_sizes ?k = Some ft \<and> fw_ok ft (replicate ?n 0)" if ne: "?n \<noteq> 1"
    proof -
      obtain ft where "kv_dict_sizes kvs = Some ft" "fw_ok ft (kv_sizes kvs)" using c ne by (auto simp: kv_counts_def)
      then show ?thesis using fw.reset_spec [of ft "kv_sizes kvs"] s by (simp add: k(4) kv_shape_def)
    qed
    moreover have "kv_dict_sizes ?k = None" if "?n = 1" using c that by (simp add: k(4) kv_counts_def)
    ultimately show ?thesis using num by (simp add: kv_counts_def kv_num_dicts_def sum_list_replicate)
  qed
  ultimately have "kv_ok hash ?k" by (simp only: kv_ok_def zero)
  moreover have "kv_dict_map ?k i = Map.empty" if "i < ?n" for i
    using each [OF that] dictCreate_ok(2) by (auto simp: kv_dict_map_def)
  moreover have "kvstoreEmpty kvs = Ok ?k" using k(1) by (simp add: kvstoreEmpty_def)
  ultimately show ?thesis using num by (auto simp: kvstoreSize_def k(4))
qed

section \<open>What goes on between the calls\<close>

text \<open>Resizing by the cron job or a client, an incremental rehash or a resize of one dict, the release of an
  empty dict, and the emptying of no dict. Indices beyond the keyspace are reduced.\<close>

datatype kv_action =
    Kv_try_resize nat
  | Kv_expand nat nat
  | Kv_expand_all nat
  | Kv_dict nat dict_action
  | Kv_free nat

definition kv_dict_tick ::
  "'k dictType \<Rightarrow> dictResizeEnable \<Rightarrow> dict_action \<Rightarrow> ('k, 'v) kvstore \<Rightarrow> nat \<Rightarrow> ('k, 'v) kvstore outcome" where
  "kv_dict_tick ty rz t kvs didx =
     bind_outcome (kvstoreGetDict kvs didx) (\<lambda>d.
     case d of
       None \<Rightarrow> Ok kvs
     | Some d \<Rightarrow> bind_outcome (dict_tick ty rz t d) (\<lambda>d. Ok (kvstoreSetDict kvs didx (Some d))))"

definition kv_act ::
  "'k dictType \<Rightarrow> dictResizeEnable \<Rightarrow> kv_action \<Rightarrow> ('k, 'v) kvstore \<Rightarrow> ('k, 'v) kvstore outcome" where
  "kv_act ty rz a kvs =
     (case a of
        Kv_try_resize n \<Rightarrow> kvstoreTryResizeDicts ty rz kvs n
      | Kv_expand i n \<Rightarrow> bind_outcome (kvstoreDictExpand ty rz kvs (i mod kv_num_dicts kvs) n) (\<lambda>(kvs, r). Ok kvs)
      | Kv_expand_all n \<Rightarrow> kvstoreExpand ty rz kvs n None
      | Kv_dict i t \<Rightarrow> kv_dict_tick ty rz t kvs (i mod kv_num_dicts kvs)
      | Kv_free i \<Rightarrow> freeDictIfNeeded kvs (i mod kv_num_dicts kvs))"

lemma kv_dict_tick_ok:
  assumes ok: "kv_ok (hashFunction ty) kvs" and i: "i < kv_num_dicts kvs"
  shows "\<exists>kvs'. kv_dict_tick ty rz t kvs i = Ok kvs' \<and> kv_ok (hashFunction ty) kvs' \<and> kv_same kvs kvs'"
proof -
  have s: "kv_shape (hashFunction ty) kvs" and l: "i < length (kv_dicts kvs)" using ok i by (simp_all add: kv_ok_def kv_shape_def)
  show ?thesis
  proof (cases "kv_dicts kvs ! i")
    case None
    then show ?thesis using ok l by (simp add: kv_dict_tick_def)
  next
    case (Some d)
    obtain d' where d': "dict_tick ty rz t d = Ok d'" "dict_ok (hashFunction ty) d'" "dict_same d d'"
      using dict_tick_ok kv_shape_dict [OF s i Some] by blast
    then show ?thesis using kv_SetDict_same [OF ok i Some d'(2,3)] Some l by (simp add: kv_dict_tick_def kv_same_effect)
  qed
qed

lemma expand_loop_ok:
  "kv_ok (hashFunction ty) kvs \<Longrightarrow>
   \<exists>kvs'. expand_loop ty rz sz skip n kvs = Ok kvs' \<and> kv_ok (hashFunction ty) kvs' \<and> kv_same kvs kvs'"
proof (induction n arbitrary: kvs)
  case (Suc n)
  have "0 < kv_num_dicts kvs" by (simp add: kv_num_dicts_def)
  then have i: "kv_num_dicts kvs - Suc n < kv_num_dicts kvs" by simp
  obtain k1 r where k1: "kvstoreDictExpand ty rz kvs (kv_num_dicts kvs - Suc n) sz = Ok (k1, r)"
    "kv_ok (hashFunction ty) k1" "kv_same kvs k1"
    using kvstoreDictExpand_ok [OF Suc.prems i, unfolded kv_same_effect] by blast
  obtain k2 where "expand_loop ty rz sz skip n k1 = Ok k2" "kv_ok (hashFunction ty) k2" "kv_same k1 k2"
    using Suc.IH [OF k1(2)] by blast
  then have "expand_loop ty rz sz skip n k1 = Ok k2 \<and> kv_ok (hashFunction ty) k2 \<and> kv_same kvs k2"
    using kv_same_trans [OF k1(3)] by blast
  then show ?case using k1(1) Suc.IH [OF Suc.prems] by (auto simp: Let_def split: option.split)
qed simp

lemma kv_act_ok:
  assumes ok: "kv_ok (hashFunction ty) kvs"
  shows "\<exists>kvs'. kv_act ty rz a kvs = Ok kvs' \<and> kv_ok (hashFunction ty) kvs' \<and> kv_same kvs kvs'"
proof -
  have i: "i mod kv_num_dicts kvs < kv_num_dicts kvs" for i by (simp add: kv_num_dicts_def)
  show ?thesis
  proof (cases a)
    case (Kv_try_resize n)
    then show ?thesis using kvstoreTryResizeDicts_ok [OF ok] by (simp add: kv_act_def)
  next
    case (Kv_expand j n)
    then show ?thesis using kvstoreDictExpand_ok [OF ok i, of rz j n] by (auto simp: kv_act_def kv_same_effect)
  next
    case (Kv_expand_all n)
    then show ?thesis using expand_loop_ok [OF ok] by (simp add: kv_act_def kvstoreExpand_def)
  next
    case (Kv_dict j t)
    then show ?thesis using kv_dict_tick_ok [OF ok i] by (simp add: kv_act_def)
  next
    case (Kv_free j)
    then show ?thesis using freeDictIfNeeded_ok [OF ok i, of j] by (auto simp: kv_act_def kv_same_effect)
  qed
qed

primrec kv_acts ::
  "'k dictType \<Rightarrow> dictResizeEnable \<Rightarrow> kv_action list \<Rightarrow> ('k, 'v) kvstore \<Rightarrow> ('k, 'v) kvstore outcome" where
  "kv_acts ty rz [] kvs = Ok kvs"
| "kv_acts ty rz (a # as) kvs = bind_outcome (kv_act ty rz a kvs) (kv_acts ty rz as)"

lemma kv_acts_ok:
  "kv_ok (hashFunction ty) kvs \<Longrightarrow>
   \<exists>kvs'. kv_acts ty rz as kvs = Ok kvs' \<and> kv_ok (hashFunction ty) kvs' \<and> kv_same kvs kvs'"
proof (induction as arbitrary: kvs)
  case (Cons a as)
  obtain k1 where k1: "kv_act ty rz a kvs = Ok k1" "kv_ok (hashFunction ty) k1" "kv_same kvs k1"
    using kv_act_ok [OF Cons.prems] by blast
  obtain k2 where "kv_acts ty rz as k1 = Ok k2" "kv_ok (hashFunction ty) k2" "kv_same k1 k2"
    using Cons.IH [OF k1(2)] by blast
  then show ?case using k1 kv_same_trans [OF k1(3)] by auto
qed simp

section \<open>Runs\<close>

text \<open>The calls on a key: a new key gets its value after its entry, and so does a replaced one.\<close>

primrec kv_call ::
  "'k dictType \<Rightarrow> dictResizeEnable \<Rightarrow> 'v \<Rightarrow> nat \<Rightarrow> ('k, 'v) map_op \<Rightarrow> ('k, 'v) kvstore \<Rightarrow>
   (('k, 'v) kvstore \<times> 'v map_answer) outcome" where
  "kv_call ty rz v0 i (Map_add k v) kvs =
     bind_outcome (kvstoreDictAddRaw ty rz kvs i k v0) (\<lambda>(kvs, r).
     case r of
       Inl de \<Rightarrow> bind_outcome (kvstoreDictSetVal kvs i de v) (\<lambda>kvs. Ok (kvs, Changed True))
     | Inr de \<Rightarrow> Ok (kvs, Changed False))"
| "kv_call ty rz v0 i (Map_replace k v) kvs =
     bind_outcome (kvstoreDictAddRaw ty rz kvs i k v0) (\<lambda>(kvs, r).
     bind_outcome (kvstoreDictSetVal kvs i (case r of Inl de \<Rightarrow> de | Inr de \<Rightarrow> de) v) (\<lambda>kvs. Ok (kvs, Changed (isl r))))"
| "kv_call ty rz v0 i (Map_delete k) kvs = bind_outcome (kvstoreDictDelete ty rz kvs i k) (\<lambda>(kvs, r). Ok (kvs, Changed r))"
| "kv_call ty rz v0 i (Map_find k) kvs = bind_outcome (kvstoreDictFetchValue ty rz kvs i k) (\<lambda>(kvs, r). Ok (kvs, Found r))"

record 'v kv_env =
  kenv_acts :: "kv_action list"
  kenv_can_resize :: dictResizeEnable
  kenv_uninit :: 'v

primrec map_op_key :: "('k, 'v) map_op \<Rightarrow> 'k" where
  "map_op_key (Map_add k v) = k"
| "map_op_key (Map_replace k v) = k"
| "map_op_key (Map_delete k) = k"
| "map_op_key (Map_find k) = k"

text \<open>The dict of a key, as \<open>keyHashSlot\<close> gives it: a hash of the key reduced to the number of dicts.\<close>

definition kv_slot :: "('k \<Rightarrow> nat) \<Rightarrow> ('k, 'v) kvstore \<Rightarrow> 'k \<Rightarrow> nat" where
  "kv_slot slot kvs k = slot k mod kv_num_dicts kvs"

definition kv_step ::
  "'k dictType \<Rightarrow> ('k \<Rightarrow> nat) \<Rightarrow> 'v kv_env \<Rightarrow> ('k, 'v) kvstore \<Rightarrow> ('k, 'v) map_op \<Rightarrow>
   (('k, 'v) kvstore \<times> 'v map_answer) outcome" where
  "kv_step ty slot env kvs c =
     bind_outcome (kv_acts ty (kenv_can_resize env) (kenv_acts env) kvs) (\<lambda>kvs.
     kv_call ty (kenv_can_resize env) (kenv_uninit env) (kv_slot slot kvs (map_op_key c)) c kvs)"

definition kv_map :: "('k \<Rightarrow> nat) \<Rightarrow> ('k, 'v) kvstore \<Rightarrow> 'k \<rightharpoonup> 'v" where
  "kv_map slot kvs k = kv_dict_map kvs (kv_slot slot kvs k) k"

definition kv_inv :: "'k dictType \<Rightarrow> nat \<Rightarrow> ('k, 'v) kvstore \<Rightarrow> bool" where
  "kv_inv ty n kvs \<longleftrightarrow> kv_ok (hashFunction ty) kvs \<and> kv_key_count kvs + n + 1 < 2 ^ 64"

text \<open>A call on the dict with index \<open>i\<close> acts on the contents of that dict.\<close>

lemma kv_call_ok:
  assumes ok: "kv_ok (hashFunction ty) kvs" "kv_key_count kvs + 2 < 2 ^ 64" and i: "i < kv_num_dicts kvs"
  shows "\<exists>kvs' r m. kv_call ty rz v0 i c kvs = Ok (kvs', r) \<and> kv_ok (hashFunction ty) kvs' \<and> kv_effect kvs kvs' i m
    \<and> map_spec c (kv_dict_map kvs i) = (m, r)"
proof (cases c)
  case (Map_find k)
  then show ?thesis using kvstoreDictFetchValue_ok [OF ok(1) i, of rz k] by auto
next
  case (Map_delete k)
  then show ?thesis using kvstoreDictDelete_ok [OF ok(1) i, of rz k] by auto
next
  case (Map_add k v)
  obtain k1 r where k1: "kvstoreDictAddRaw ty rz kvs i k v0 = Ok (k1, r)" "kv_ok (hashFunction ty) k1"
    and r: "case r of
          Inl pl \<Rightarrow> kv_dict_map kvs i k = None \<and> kv_effect kvs k1 i ((kv_dict_map kvs i)(k \<mapsto> v0)) \<and> kv_place k1 i pl k
        | Inr pl \<Rightarrow> kv_dict_map kvs i k \<noteq> None \<and> kv_effect kvs k1 i (kv_dict_map kvs i) \<and> kv_place k1 i pl k"
    using kvstoreDictAddRaw_ok [OF ok(1) i ok(2)] by blast
  show ?thesis
  proof (cases r)
    case (Inr pl)
    then have "kv_dict_map kvs i k \<noteq> None" "kv_effect kvs k1 i (kv_dict_map kvs i)" using r by simp_all
    then show ?thesis using Map_add Inr k1 by simp
  next
    case (Inl pl)
    then have p: "kv_dict_map kvs i k = None" "kv_effect kvs k1 i ((kv_dict_map kvs i)(k \<mapsto> v0))" "kv_place k1 i pl k"
      using r by simp_all
    then have i1: "i < kv_num_dicts k1" "kv_dict_map k1 i = (kv_dict_map kvs i)(k \<mapsto> v0)"
      using i by (simp_all add: kv_effect_def kv_num_dicts_def)
    obtain k2 where k2: "kvstoreDictSetVal k1 i pl v = Ok k2" "kv_ok (hashFunction ty) k2"
      "kv_effect k1 k2 i ((kv_dict_map kvs i)(k \<mapsto> v))"
      using kvstoreDictSetVal_ok [OF k1(2) i1(1) p(3), of v] i1(2) by auto
    then show ?thesis using Map_add Inl k1(1) p(1) kv_effect_trans [OF p(2) k2(3)] by simp
  qed
next
  case (Map_replace k v)
  obtain k1 r where k1: "kvstoreDictAddRaw ty rz kvs i k v0 = Ok (k1, r)" "kv_ok (hashFunction ty) k1"
    and r: "case r of
          Inl pl \<Rightarrow> kv_dict_map kvs i k = None \<and> kv_effect kvs k1 i ((kv_dict_map kvs i)(k \<mapsto> v0)) \<and> kv_place k1 i pl k
        | Inr pl \<Rightarrow> kv_dict_map kvs i k \<noteq> None \<and> kv_effect kvs k1 i (kv_dict_map kvs i) \<and> kv_place k1 i pl k"
    using kvstoreDictAddRaw_ok [OF ok(1) i ok(2)] by blast
  define pl m1 where "pl = (case r of Inl de \<Rightarrow> de | Inr de \<Rightarrow> de)" and "m1 = kv_dict_map k1 i"
  have p: "kv_place k1 i pl k" "kv_effect kvs k1 i m1" "m1 k \<noteq> None" "isl r = (kv_dict_map kvs i k = None)"
    "m1(k \<mapsto> v) = (kv_dict_map kvs i)(k \<mapsto> v)"
    using r by (cases r; simp add: pl_def m1_def kv_effect_def)+
  have "i < kv_num_dicts k1" using i p(2) by (simp add: kv_effect_def kv_num_dicts_def)
  then obtain k2 where k2: "kvstoreDictSetVal k1 i pl v = Ok k2" "kv_ok (hashFunction ty) k2" "kv_effect k1 k2 i (m1(k \<mapsto> v))"
    using kvstoreDictSetVal_ok [OF k1(2) _ p(1), of v] p(3) by (auto simp: m1_def)
  then show ?thesis using Map_replace k1(1) p(4,5) kv_effect_trans [OF p(2) k2(3)] by (simp add: pl_def)
qed

lemma kv_step_ok:
  assumes inv: "kv_inv ty (Suc n) kvs"
  shows "\<exists>kvs' r. kv_step ty slot env kvs c = Ok (kvs', r) \<and> kv_inv ty n kvs' \<and> map_spec c (kv_map slot kvs) = (kv_map slot kvs', r)"
proof -
  let ?h = "hashFunction ty"
  obtain k1 where k1: "kv_acts ty (kenv_can_resize env) (kenv_acts env) kvs = Ok k1" "kv_ok ?h k1" "kv_same kvs k1"
    using kv_acts_ok inv unfolding kv_inv_def by blast
  define i where "i = kv_slot slot k1 (map_op_key c)"
  have i: "i < kv_num_dicts k1" by (simp add: i_def kv_slot_def kv_num_dicts_def)
  have "int (kv_key_count k1) = int (kv_key_count kvs)"
  proof -
    have "kv_effect kvs k1 i (kv_dict_map kvs i)" "i < kv_num_dicts kvs" using k1(3) i kv_same_num [OF k1(3)] by (simp_all add: kv_same_effect)
    then show ?thesis using kv_effect_count [of ?h kvs k1 i] k1(2) inv by (simp add: kv_inv_def)
  qed
  then have cnt: "kv_key_count k1 + n + 2 < 2 ^ 64" using inv by (simp add: kv_inv_def)
  obtain k2 r m where k2: "kv_call ty (kenv_can_resize env) (kenv_uninit env) i c k1 = Ok (k2, r)" "kv_ok ?h k2"
    "kv_effect k1 k2 i m" "map_spec c (kv_dict_map k1 i) = (m, r)"
    using kv_call_ok [OF k1(2) _ i] cnt by fastforce
  have fin: "finite (dom (kv_dict_map k1 i))" by (rule kv_dict_map_finite)
  have "card (dom m) \<le> card (dom (kv_dict_map k1 i)) + 1"
    using k2(4) fin by (cases c) (auto simp: card_insert_if card_Diff_singleton_if split: if_splits)
  then have inv2: "kv_inv ty n k2" using kv_effect_count [OF k1(2) k2(2,3) i] k2(2) cnt by (simp add: kv_inv_def)
  have abs1: "kv_map slot k1 = kv_map slot kvs"
    using k1(3) kv_same_num [OF k1(3)] by (simp add: kv_map_def kv_slot_def kv_same_def fun_eq_iff)
  have slot2: "kv_slot slot k2 = kv_slot slot k1"
    using k2(3) by (simp add: kv_slot_def kv_effect_def kv_num_dicts_def fun_eq_iff)
  have at: "kv_dict_map k1 i (map_op_key c) = kv_map slot k1 (map_op_key c)" by (simp add: kv_map_def i_def)
  have other: "m k = kv_dict_map k1 i k" if "k \<noteq> map_op_key c" for k
    using k2(4) that by (cases c) (auto split: if_splits)
  have "kv_map slot k2 = (kv_map slot k1)(map_op_key c := m (map_op_key c))"
    using k2(3) other by (auto simp: kv_map_def slot2 kv_effect_def fun_eq_iff i_def)
  moreover have "map_spec c (kv_map slot k1) = ((kv_map slot k1)(map_op_key c := m (map_op_key c)), r)"
    using k2(4) at by (cases c) (auto simp: fun_eq_iff split: if_splits)
  ultimately show ?thesis using k1(1) k2(1) inv2 abs1 by (simp add: kv_step_def flip: i_def)
qed

interpretation kvm: stored_map "kvstore_fresh b od fe can" "kv_step ty slot" "kv_inv ty" "kv_map slot"
  for ty slot b od fe can
proof unfold_locales
  show "kv_map slot (kvstore_fresh b od fe can) = Map.empty"
    by (simp add: kv_map_def kvstore_fresh_map kv_slot_def fun_eq_iff) (simp add: kv_num_dicts_def kvstore_fresh_def kv_dict_map_def dictCreate_ok)
qed (rule kv_step_ok)

end
