(* ===== verification/Kvstore_Scan.thy ===== *)
theory Kvstore_Scan
  imports Kvstore_Map
begin

text \<open>
  The scan over all dicts: the cursor holds the index of a dict in its low bits and the cursor of
  \<open>dictScan\<close> in the others, and moves through the dicts that are not empty. No key that stays in the keyspace
  is missed.
\<close>

section \<open>The walk over the dicts\<close>

lemma kv_fenwick:
  assumes "kv_ok hash kvs" "kv_num_dicts kvs \<noteq> 1"
  obtains ft where "kv_dict_sizes kvs = Some ft" "fw_ok ft (kv_sizes kvs)" "sum_list (kv_sizes kvs) + 1 < 2 ^ 64"
    "length (kv_sizes kvs) = kv_num_dicts kvs"
  using assms by (auto simp: kv_ok_def kv_counts_def)

definition kv_none_between :: "('k, 'v) kvstore \<Rightarrow> nat \<Rightarrow> nat \<Rightarrow> bool" where
  "kv_none_between kvs i j \<longleftrightarrow> (\<forall>l. i < l \<and> l < j \<longrightarrow> kv_dict_map kvs l = Map.empty)"

lemma kv_sizes_zero:
  assumes "kv_ok hash kvs" "i < kv_num_dicts kvs"
  shows "kv_sizes kvs ! i = 0 \<longleftrightarrow> kv_dict_map kvs i = Map.empty"
  using kv_sizes_card [OF assms] kv_dict_map_finite [of kvs i] by simp

lemma kvstoreGetNextNonEmptyDictIndex_ok:
  assumes ok: "kv_ok hash kvs" and i: "i < kv_num_dicts kvs"
  shows "\<exists>r. kvstoreGetNextNonEmptyDictIndex kvs (int i) = Ok r
    \<and> (r = - 1 \<and> kv_none_between kvs i (kv_num_dicts kvs)
       \<or> (\<exists>j. r = int j \<and> i < j \<and> j < kv_num_dicts kvs \<and> kv_dict_map kvs j \<noteq> Map.empty \<and> kv_none_between kvs i j))"
proof (cases "kv_num_dicts kvs = 1")
  case True
  then show ?thesis using i by (simp add: kvstoreGetNextNonEmptyDictIndex_def kv_none_between_def)
next
  case False
  obtain ft where ft: "kv_dict_sizes kvs = Some ft" "fw_ok ft (kv_sizes kvs)" "sum_list (kv_sizes kvs) + 1 < 2 ^ 64"
    "length (kv_sizes kvs) = kv_num_dicts kvs"
    using kv_fenwick [OF ok False] by blast
  obtain r where r: "fwTreeFindNextNonEmpty ft (int i) = Ok r"
    "if \<forall>j. i < j \<and> j < kv_num_dicts kvs \<longrightarrow> kv_sizes kvs ! j = 0 then r = - 1
     else \<exists>k. r = int k \<and> i < k \<and> k < kv_num_dicts kvs \<and> 0 < kv_sizes kvs ! k \<and> (\<forall>j. i < j \<and> j < k \<longrightarrow> kv_sizes kvs ! j = 0)"
    using fw.next_spec [OF ft(2) _ ft(3), of i] i unfolding ft(4) by blast
  have eq: "kvstoreGetNextNonEmptyDictIndex kvs (int i) = Ok r"
    using False ft(1) r(1) by (simp add: kvstoreGetNextNonEmptyDictIndex_def)
  note zero = kv_sizes_zero [OF ok]
  show ?thesis
  proof (cases "\<forall>j. i < j \<and> j < kv_num_dicts kvs \<longrightarrow> kv_sizes kvs ! j = 0")
    case True
    then have "r = - 1" "kv_none_between kvs i (kv_num_dicts kvs)" using r(2) zero by (auto simp: kv_none_between_def)
    then show ?thesis using eq by blast
  next
    case ne: False
    then obtain k where k: "r = int k" "i < k" "k < kv_num_dicts kvs" "0 < kv_sizes kvs ! k"
      "\<forall>j. i < j \<and> j < k \<longrightarrow> kv_sizes kvs ! j = 0"
      using r(2) by (auto split: if_splits)
    have "kv_sizes kvs ! k \<noteq> 0" using k(4) by simp
    then have "kv_dict_map kvs k \<noteq> Map.empty" unfolding zero [OF k(3)] .
    moreover have "kv_none_between kvs i k" using k zero by (auto simp: kv_none_between_def)
    ultimately show ?thesis using eq k(1-3) by blast
  qed
qed

section \<open>The cursor\<close>

definition kv_cursor :: "('k, 'v) kvstore \<Rightarrow> 64 word \<Rightarrow> nat \<times> 64 word" where
  "kv_cursor kvs c = getAndClearDictIndexFromCursor kvs c"

lemma word_mask_num: "word_of_nat (2 ^ b) - 1 = (mask b :: 64 word)"
  by (simp add: mask_eq_decr_exp)

lemma kv_cursor_index:
  assumes "kv_num_dicts_bits kvs \<le> 16"
  shows "fst (kv_cursor kvs c) < kv_num_dicts kvs"
proof (cases "kv_num_dicts kvs = 1")
  case False
  have "unat (c AND mask (kv_num_dicts_bits kvs)) < 2 ^ kv_num_dicts_bits kvs"
    by (simp add: take_bit_eq_mask [symmetric] unsigned_take_bit_eq)
  then show ?thesis using False
    by (simp add: kv_cursor_def getAndClearDictIndexFromCursor_def kv_num_dicts_def word_mask_num del: of_nat_power)
qed (simp add: kv_cursor_def getAndClearDictIndexFromCursor_def)

lemma kv_cursor_0 [simp]: "kv_cursor kvs 0 = (0, 0)"
  by (simp add: kv_cursor_def getAndClearDictIndexFromCursor_def)

lemma kv_cursor_add:
  assumes b: "kv_num_dicts_bits kvs \<le> 16" and i: "i < kv_num_dicts kvs" and v: "unat v < 2 ^ (64 - kv_num_dicts_bits kvs)"
  shows "kv_cursor kvs (addDictIndexToCursor kvs (int i) v) = (i, v)"
proof (cases "kv_num_dicts kvs = 1")
  case True
  then show ?thesis using i by (simp add: kv_cursor_def getAndClearDictIndexFromCursor_def addDictIndexToCursor_def)
next
  case False
  let ?b = "kv_num_dicts_bits kvs"
  have ib: "i < 2 ^ ?b" using i by (simp add: kv_num_dicts_def)
  have bi: "\<not> bit i n" if "?b \<le> n" for n
    using ib that by (metis bit_take_bit_iff linorder_not_less take_bit_nat_eq_self_iff)
  have "unat (take_bit (64 - ?b) v) = unat v" using v by (simp add: unsigned_take_bit_eq take_bit_nat_eq_self)
  then have "take_bit (64 - ?b) v = v" by (simp only: word_unat_eq_iff)
  then have bv: "\<not> bit v n" if "64 - ?b \<le> n" for n
    using that by (metis bit_take_bit_iff linorder_not_less)
  have bv2: "?b + n < 64" if "bit v n" for n
    using bv [of n] that by (cases "64 - ?b \<le> n") auto
  have low: "(push_bit ?b v OR word_of_nat i) AND mask ?b = (word_of_nat i :: 64 word)"
    by (rule bit_word_eqI) (use bi not_le in \<open>auto simp: bit_simps\<close>)
  have high: "drop_bit ?b (push_bit ?b v OR word_of_nat i) = v"
    by (rule bit_word_eqI) (use bv2 in \<open>auto simp: bit_simps bi\<close>)
  have "(2 :: nat) ^ ?b \<le> 2 ^ 16" using b by (intro power_increasing) auto
  then have "i < 2 ^ 64" using ib by simp
  then have "unat (word_of_nat i :: 64 word) = i" by (simp add: unat_of_nat)
  then show ?thesis using False low high
    by (simp add: kv_cursor_def getAndClearDictIndexFromCursor_def addDictIndexToCursor_def kv_num_dicts_def word_mask_num
        del: of_nat_power)
qed

text \<open>The cursor of \<open>dictScan\<close> has as many bits as the index of the smaller table.\<close>

definition kv_small :: "('k, 'v) kvstore \<Rightarrow> bool" where
  "kv_small kvs \<longleftrightarrow> (\<forall>d. Some d \<in> set (kv_dicts kvs) \<longrightarrow> ht_size_exp (ht0 d) \<le> 48 \<and> ht_size_exp (ht1 d) \<le> 48)"

lemma dictScan_cursor_bits:
  assumes ok: "dict_ok hash d" and s: "dictScan d v = Ok (d', es, v')"
    and e: "ht_size_exp (ht0 d) \<le> 48" "ht_size_exp (ht1 d) \<le> 48"
  shows "unat v' < 2 ^ 48"
proof (cases "dictSize d = 0")
  case True
  then have "v' = 0" using s by (simp add: dictScan_def dictScanDefrag_def)
  then show ?thesis by simp
next
  case False
  have p: "scan_pos v' = scan_end d v mod 2 ^ 64" using dictScan_spec [OF ok False, of v] s by auto
  have "nat (ht_size_exp (scan_small d)) \<le> 48" using e by (simp add: scan_small_def nat_le_iff)
  then have "2 ^ 16 dvd scan_width d" unfolding scan_width_def by (intro le_imp_power_dvd) simp
  then have "2 ^ 16 dvd scan_end d v" by (simp add: scan_end_def)
  moreover have "(2 :: nat) ^ 16 dvd 2 ^ 64" by (rule le_imp_power_dvd) simp
  ultimately have "2 ^ 16 dvd scan_pos v'" unfolding p by (rule dvd_mod)
  then have "\<not> bit (scan_pos v') i" if "i < 16" for i
    using that by (metis bit_push_bit_iff dvdE linorder_not_less mult.commute push_bit_eq_mult)
  then have "\<not> bit v' n" if "48 \<le> n" "n < 64" for n
    using bit_scan_pos [of v' "63 - n"] that by fastforce
  then have "v' = take_bit 48 v'" by (intro bit_word_eqI) (use not_le in \<open>auto simp: bit_simps\<close>)
  then have "unat v' = take_bit 48 (unat v')" by (metis unsigned_take_bit_eq)
  then show ?thesis by (metis take_bit_nat_less_exp)
qed

section \<open>No key is missed\<close>

text \<open>The cursor has not passed position \<open>p\<close> of the dict \<open>i\<close> yet.\<close>

definition kv_ahead :: "('k, 'v) kvstore \<Rightarrow> 64 word \<Rightarrow> nat \<Rightarrow> nat \<Rightarrow> bool" where
  "kv_ahead kvs c i p \<longleftrightarrow> fst (kv_cursor kvs c) < i \<or> fst (kv_cursor kvs c) = i \<and> scan_pos (snd (kv_cursor kvs c)) \<le> p"

lemma kv_ahead_cong: "kv_num_dicts_bits kvs = kv_num_dicts_bits kvs' \<Longrightarrow> kv_ahead kvs = kv_ahead kvs'"
  by (simp add: kv_ahead_def kv_cursor_def getAndClearDictIndexFromCursor_def kv_num_dicts_def fun_eq_iff)

definition kv_entries :: "('k, 'v) kvstore \<Rightarrow> ('k \<times> 'v) set" where
  "kv_entries kvs = {(k, v). \<exists>i < kv_num_dicts kvs. kv_dict_map kvs i k = Some v}"

lemma kv_entries_dict:
  assumes "kv_shape hash kvs" "i < kv_num_dicts kvs" "kv_dicts kvs ! i = Some d" "(k, v) \<in> set (dict_entries d)"
  shows "(k, v) \<in> kv_entries kvs"
proof -
  have "dict_map d k = Some v"
    using assms(4) dict_ok_distinct kv_shape_dict [OF assms(1-3)] unfolding dict_map_def by (metis map_of_eq_Some_iff)
  then show ?thesis using assms(2,3) by (auto simp: kv_entries_def kv_dict_map_def)
qed

text \<open>The end of a call: the next dict, or the same one with its next cursor.\<close>

definition kv_scan_end :: "('k, 'v) kvstore \<Rightarrow> nat \<Rightarrow> ('k \<times> 'v) list \<Rightarrow> 64 word \<Rightarrow> bool \<Rightarrow>
    (('k, 'v) kvstore \<times> ('k \<times> 'v) list \<times> 64 word) outcome" where
  "kv_scan_end kvs i es v skip =
     (if v = 0 \<or> skip then
        bind_outcome (kvstoreGetNextNonEmptyDictIndex kvs (int i)) (\<lambda>j.
        if j = - 1 then Ok (kvs, es, 0) else Ok (kvs, es, addDictIndexToCursor kvs j v))
      else Ok (kvs, es, addDictIndexToCursor kvs (int i) v))"

lemma kv_scan_end_ok:
  assumes ok: "kv_ok hash kvs" and i: "i < kv_num_dicts kvs" and v: "unat v < 2 ^ 48" "skip \<Longrightarrow> v = 0"
  shows "\<exists>c. kv_scan_end kvs i es v skip = Ok (kvs, es, c)
    \<and> (\<forall>j p. j < kv_num_dicts kvs \<and> kv_dict_map kvs j \<noteq> Map.empty \<and> (i < j \<or> i = j \<and> v \<noteq> 0 \<and> scan_pos v \<le> p) \<longrightarrow>
          c \<noteq> 0 \<and> kv_ahead kvs c j p)"
proof -
  have b: "kv_num_dicts_bits kvs \<le> 16" using ok by (simp add: kv_ok_def kv_shape_def)
  then have "(2 :: nat) ^ 48 \<le> 2 ^ (64 - kv_num_dicts_bits kvs)" by (intro power_increasing) auto
  then have cur: "kv_cursor kvs (addDictIndexToCursor kvs (int j) w) = (j, w)" if "j < kv_num_dicts kvs" "unat w < 2 ^ 48" for j w
    by (intro kv_cursor_add [OF b that(1)]) (use that(2) in linarith)
  have nz: "addDictIndexToCursor kvs (int j) w \<noteq> 0" if "j < kv_num_dicts kvs" "unat w < 2 ^ 48" "j \<noteq> 0 \<or> w \<noteq> 0" for j w
    using cur [OF that(1,2)] that(3) by (metis fst_conv kv_cursor_0 snd_conv)
  show ?thesis
  proof (cases "v = 0 \<or> skip")
    case False
    then have "kv_scan_end kvs i es v skip = Ok (kvs, es, addDictIndexToCursor kvs (int i) v)" by (simp add: kv_scan_end_def)
    then show ?thesis using cur [OF i v(1)] nz [OF i v(1)] False by (auto simp: kv_ahead_def)
  next
    case True
    then have v0: "v = 0" using v(2) by blast
    obtain r where r: "kvstoreGetNextNonEmptyDictIndex kvs (int i) = Ok r"
      "r = - 1 \<and> kv_none_between kvs i (kv_num_dicts kvs)
       \<or> (\<exists>j. r = int j \<and> i < j \<and> j < kv_num_dicts kvs \<and> kv_dict_map kvs j \<noteq> Map.empty \<and> kv_none_between kvs i j)"
      using kvstoreGetNextNonEmptyDictIndex_ok [OF ok i] by blast
    show ?thesis
    proof (cases "r = - 1")
      case True
      then have "kv_none_between kvs i (kv_num_dicts kvs)" using r(2) by auto
      then show ?thesis using True r(1) v0 by (auto simp: kv_scan_end_def kv_none_between_def)
    next
      case False
      then obtain j where j: "r = int j" "i < j" "j < kv_num_dicts kvs" "kv_none_between kvs i j" using r(2) by blast
      have "kv_scan_end kvs i es v skip = Ok (kvs, es, addDictIndexToCursor kvs (int j) 0)"
        using r(1) j(1) v0 by (simp add: kv_scan_end_def)
      moreover have "addDictIndexToCursor kvs (int j) 0 \<noteq> 0" using nz [OF j(3), of 0] j(2) by simp
      moreover have "kv_ahead kvs (addDictIndexToCursor kvs (int j) 0) l p"
        if "kv_dict_map kvs l \<noteq> Map.empty" "i < l" for l p
      proof -
        have "j \<le> l" using that j(4) by (meson kv_none_between_def not_le)
        then show ?thesis using cur [OF j(3), of 0] by (auto simp: kv_ahead_def scan_pos_0)
      qed
      ultimately show ?thesis using v0 by blast
    qed
  qed
qed

lemma kvstoreScan_progress:
  assumes ok: "kv_ok hash kvs" and small: "kv_small kvs"
  shows "\<exists>kvs' es c'. kvstoreScan None kvs c (- 1) = Ok (kvs', es, c') \<and> kv_ok hash kvs' \<and> kv_same kvs kvs'
    \<and> set es \<subseteq> kv_entries kvs
    \<and> (\<forall>i k. i < kv_num_dicts kvs \<and> kv_dict_map kvs i k \<noteq> None \<and> kv_ahead kvs c i (scan_pos (hash k)) \<longrightarrow>
          k \<in> fst ` set es \<or> c' \<noteq> 0 \<and> kv_ahead kvs c' i (scan_pos (hash k)))"
proof -
  obtain i v where c: "kv_cursor kvs c = (i, v)" by fastforce
  have s: "kv_shape hash kvs" using ok by (simp add: kv_ok_def)
  then have i: "i < kv_num_dicts kvs" "i < length (kv_dicts kvs)" using kv_cursor_index [of kvs c] c by (simp_all add: kv_shape_def)
  have g: "getAndClearDictIndexFromCursor kvs c = (i, v)" using c by (simp add: kv_cursor_def)
  show ?thesis
  proof (cases "kv_dicts kvs ! i")
    case None
    then have "kvstoreScan None kvs c (- 1) = kv_scan_end kvs i [] 0 True"
      using g i by (simp add: kvstoreScan_def kv_scan_end_def)
    moreover obtain c' where c': "kv_scan_end kvs i [] 0 True = Ok (kvs, [], c')"
      "\<forall>j p. j < kv_num_dicts kvs \<and> kv_dict_map kvs j \<noteq> Map.empty \<and> i < j \<longrightarrow> c' \<noteq> 0 \<and> kv_ahead kvs c' j p"
      using kv_scan_end_ok [OF ok i(1), of 0 True "[]"] by auto
    moreover have "kv_dict_map kvs i = Map.empty" using None by (simp add: kv_dict_map_def)
    then have "c' \<noteq> 0 \<and> kv_ahead kvs c' j (scan_pos (hash k))"
      if "j < kv_num_dicts kvs" "kv_dict_map kvs j k \<noteq> None" "kv_ahead kvs c j (scan_pos (hash k))" for j k
      using c'(2) that c by (auto simp: kv_ahead_def)
    ultimately show ?thesis using ok by auto
  next
    case (Some d)
    have d: "dict_ok hash d" using kv_shape_dict [OF s i(1) Some] by simp
    obtain es v' where sc: "dictScan d v = Ok (d, es, v')" "set es \<subseteq> set (dict_entries d)"
      "\<forall>k. dict_map d k \<noteq> None \<and> scan_pos v \<le> scan_pos (hash k) \<longrightarrow>
          k \<in> fst ` set es \<or> v' \<noteq> 0 \<and> scan_pos v' \<le> scan_pos (hash k)"
      using dictScan_progress [OF d] by blast
    have "Some d \<in> set (kv_dicts kvs)" using Some i(2) by (metis nth_mem)
    then have v': "unat v' < 2 ^ 48" using dictScan_cursor_bits [OF d sc(1)] small by (auto simp: kv_small_def)
    have self: "kvstoreSetDict kvs i (Some d) = kvs" using Some i(2) by (simp add: kvstoreSetDict_def list_update_same_conv)
    obtain k1 where k1: "freeDictIfNeeded kvs i = Ok k1" "kv_ok hash k1" "kv_same kvs k1"
      using freeDictIfNeeded_ok [OF ok i(1)] by (auto simp: kv_same_effect)
    have i1: "i < kv_num_dicts k1" using i(1) kv_same_num [OF k1(3)] by simp
    have bits: "kv_ahead k1 = kv_ahead kvs" using k1(3) by (intro kv_ahead_cong) (simp add: kv_same_def)
    have "kvstoreScan None kvs c (- 1) = kv_scan_end k1 i es v' False"
      using g i Some sc(1) k1(1) self by (simp add: kvstoreScan_def kv_scan_end_def)
    moreover obtain c' where c': "kv_scan_end k1 i es v' False = Ok (k1, es, c')"
      "\<forall>j p. j < kv_num_dicts kvs \<and> kv_dict_map kvs j \<noteq> Map.empty \<and> (i < j \<or> i = j \<and> v' \<noteq> 0 \<and> scan_pos v' \<le> p) \<longrightarrow>
          c' \<noteq> 0 \<and> kv_ahead kvs c' j p"
      using kv_scan_end_ok [OF k1(2) i1 v', of False es] kv_same_num [OF k1(3)] k1(3) unfolding bits kv_same_def by auto
    moreover have "k \<in> fst ` set es \<or> c' \<noteq> 0 \<and> kv_ahead kvs c' j (scan_pos (hash k))"
      if j: "j < kv_num_dicts kvs" "kv_dict_map kvs j k \<noteq> None" "kv_ahead kvs c j (scan_pos (hash k))" for j k
    proof (cases "i < j")
      case True
      have "kv_dict_map kvs j \<noteq> Map.empty" using j(2) by force
      then show ?thesis using True c'(2) j(1) by blast
    next
      case False
      then have ij: "i = j" "scan_pos v \<le> scan_pos (hash k)" using j(3) c by (auto simp: kv_ahead_def)
      then have "dict_map d k \<noteq> None" using j(2) Some by (simp add: kv_dict_map_def)
      then have "k \<in> fst ` set es \<or> v' \<noteq> 0 \<and> scan_pos v' \<le> scan_pos (hash k)" using sc(3) ij(2) by blast
      moreover have "kv_dict_map kvs j \<noteq> Map.empty" using j(2) by force
      ultimately show ?thesis using c'(2) j(1) ij(1) by blast
    qed
    moreover have "set es \<subseteq> kv_entries kvs" using sc(2) kv_entries_dict [OF s i(1) Some] by auto
    ultimately show ?thesis using k1(2,3) by auto
  qed
qed

text \<open>A scan is a sequence of calls; each one gets the keyspace as it is then, and the cursor the call
  before returned.\<close>

fun kv_scan_run :: "('k, 'v) kvstore list \<Rightarrow> 64 word \<Rightarrow> (('k \<times> 'v) list \<times> 64 word) outcome" where
  "kv_scan_run [] c = Ok ([], c)"
| "kv_scan_run (kvs # ks) c =
     bind_outcome (kvstoreScan None kvs c (- 1)) (\<lambda>(kvs', es, c).
     bind_outcome (kv_scan_run ks c) (\<lambda>(es', c). Ok (es @ es', c)))"

lemma kv_scan_run_progress:
  "\<forall>kvs \<in> set ks. kv_ok hash kvs \<and> kv_small kvs \<and> kv_num_dicts_bits kvs = b \<Longrightarrow>
   \<exists>es c'. kv_scan_run ks c = Ok (es, c') \<and> set es \<subseteq> (\<Union>kvs \<in> set ks. kv_entries kvs)
    \<and> (\<forall>i k. ks \<noteq> [] \<and> i < 2 ^ b \<and> (\<forall>kvs \<in> set ks. kv_dict_map kvs i k \<noteq> None \<and> kv_ahead kvs c i (scan_pos (hash k))) \<longrightarrow>
          k \<in> fst ` set es \<or> c' \<noteq> 0)"
proof (induction ks arbitrary: c)
  case (Cons kvs ks)
  have kvs: "kv_ok hash kvs" "kv_small kvs" "kv_num_dicts_bits kvs = b" using Cons.prems by simp_all
  obtain k1 es c1 where s: "kvstoreScan None kvs c (- 1) = Ok (k1, es, c1)" "set es \<subseteq> kv_entries kvs"
    "\<forall>i k. i < kv_num_dicts kvs \<and> kv_dict_map kvs i k \<noteq> None \<and> kv_ahead kvs c i (scan_pos (hash k)) \<longrightarrow>
          k \<in> fst ` set es \<or> c1 \<noteq> 0 \<and> kv_ahead kvs c1 i (scan_pos (hash k))"
    using kvstoreScan_progress [OF kvs(1,2), of c] by blast
  obtain es' c2 where t: "kv_scan_run ks c1 = Ok (es', c2)" "set es' \<subseteq> (\<Union>kvs \<in> set ks. kv_entries kvs)"
    "\<forall>i k. ks \<noteq> [] \<and> i < 2 ^ b \<and> (\<forall>kvs \<in> set ks. kv_dict_map kvs i k \<noteq> None \<and> kv_ahead kvs c1 i (scan_pos (hash k))) \<longrightarrow>
          k \<in> fst ` set es' \<or> c2 \<noteq> 0"
    using Cons.IH [of c1] Cons.prems by auto
  have ahead: "kv_ahead k = kv_ahead kvs" if "k \<in> set ks" for k
    using Cons.prems that by (intro kv_ahead_cong) simp
  have "k \<in> fst ` set (es @ es') \<or> c2 \<noteq> 0"
    if i: "i < 2 ^ b" and all: "\<forall>kvs \<in> set (kvs # ks). kv_dict_map kvs i k \<noteq> None \<and> kv_ahead kvs c i (scan_pos (hash k))" for i k
  proof -
    have step: "k \<in> fst ` set es \<or> c1 \<noteq> 0 \<and> kv_ahead kvs c1 i (scan_pos (hash k))"
      using s(3) i all kvs(3) by (simp add: kv_num_dicts_def)
    show ?thesis
    proof (cases "ks = []")
      case True
      then show ?thesis using step t(1) by auto
    next
      case False
      have "\<forall>x \<in> set ks. kv_dict_map x i k \<noteq> None \<and> kv_ahead x c1 i (scan_pos (hash k))" if "kv_ahead kvs c1 i (scan_pos (hash k))"
        using all ahead that by simp
      then show ?thesis using step t(3) i False by (metis UnI1 UnI2 image_Un set_append)
    qed
  qed
  then show ?case using s(1,2) t(1,2) by auto
qed simp

end
