(* ===== verification/Kvstore_Move.thy ===== *)
theory Kvstore_Move
  imports Kvstore_Scan
begin

text \<open>
  Moving a dict from one keyspace to another. \<open>kvstoreMoveDict\<close> keeps every part of the invariant on both
  sides but the number of non-empty dicts, which is left off by one. No operation reads that number, so
  every operation commutes with a shift of it: the states after a move are shifted states of the invariant.
\<close>

section \<open>A shifted number of non-empty dicts\<close>

definition kv_drift :: "int \<Rightarrow> ('k, 'v) kvstore \<Rightarrow> ('k, 'v) kvstore" where
  "kv_drift n kvs = kvs\<lparr>kv_non_empty_dicts := kv_non_empty_dicts kvs + n\<rparr>"

named_theorems drift "operations on a keyspace with a shifted number of non-empty dicts"

lemma map_bind_outcome: "map_outcome f (bind_outcome r g) = bind_outcome r (\<lambda>x. map_outcome f (g x))"
  by (cases r) simp_all

lemma bind_map_outcome: "bind_outcome (map_outcome f r) g = bind_outcome r (\<lambda>x. g (f x))"
  by (cases r) simp_all

lemma bind_outcome_assoc: "bind_outcome (bind_outcome r f) g = bind_outcome r (\<lambda>x. bind_outcome (f x) g)"
  by (cases r) simp_all

lemmas outcome_maps = map_bind_outcome bind_map_outcome

lemma map_outcome_Ok: "map_outcome f r = Ok y \<longleftrightarrow> (\<exists>x. r = Ok x \<and> y = f x)"
  by (cases r) auto

lemma bind_outcome_eqI: "(\<And>x. r = Ok x \<Longrightarrow> f x = g x) \<Longrightarrow> bind_outcome r f = bind_outcome r g"
  by (cases r) simp_all

lemma c_assert_eqI: "(b \<Longrightarrow> r = s) \<Longrightarrow> c_assert b r = c_assert b s"
  by (cases b) simp_all

lemmas outcome_eqIs = bind_outcome_eqI c_assert_eqI

lemma kv_drift_simps [simp]:
  "kv_dicts (kv_drift n kvs) = kv_dicts kvs" "kv_num_dicts_bits (kv_drift n kvs) = kv_num_dicts_bits kvs"
  "kv_key_count (kv_drift n kvs) = kv_key_count kvs" "kv_dict_sizes (kv_drift n kvs) = kv_dict_sizes kvs"
  "kv_allocated_dicts (kv_drift n kvs) = kv_allocated_dicts kvs" "kv_resize_cursor (kv_drift n kvs) = kv_resize_cursor kvs"
  "kv_on_demand (kv_drift n kvs) = kv_on_demand kvs" "kv_free_empty (kv_drift n kvs) = kv_free_empty kvs"
  "kv_canFreeDict (kv_drift n kvs) = kv_canFreeDict kvs" "kv_num_dicts (kv_drift n kvs) = kv_num_dicts kvs"
  "kv_non_empty_dicts (kv_drift n kvs) = kv_non_empty_dicts kvs + n"
  "kv_dict_map (kv_drift n kvs) = kv_dict_map kvs" "kvstoreSize (kv_drift n kvs) = kvstoreSize kvs"
  by (simp_all add: kv_drift_def kv_num_dicts_def kv_dict_map_def fun_eq_iff kvstoreSize_def)

lemma kv_drift_drift [simp]: "kv_drift m (kv_drift n kvs) = kv_drift (n + m) kvs"
  by (simp add: kv_drift_def add.assoc)

lemma kv_drift_0 [simp]: "kv_drift 0 kvs = kvs"
  by (simp add: kv_drift_def)

lemma kv_drift_updates [drift]:
  "(kv_drift n kvs)\<lparr>kv_dicts := ds\<rparr> = kv_drift n (kvs\<lparr>kv_dicts := ds\<rparr>)"
  "(kv_drift n kvs)\<lparr>kv_allocated_dicts := a\<rparr> = kv_drift n (kvs\<lparr>kv_allocated_dicts := a\<rparr>)"
  "(kv_drift n kvs)\<lparr>kv_key_count := k\<rparr> = kv_drift n (kvs\<lparr>kv_key_count := k\<rparr>)"
  "(kv_drift n kvs)\<lparr>kv_resize_cursor := k\<rparr> = kv_drift n (kvs\<lparr>kv_resize_cursor := k\<rparr>)"
  "(kv_drift n kvs)\<lparr>kv_dict_sizes := ft\<rparr> = kv_drift n (kvs\<lparr>kv_dict_sizes := ft\<rparr>)"
  "(kv_drift n kvs)\<lparr>kv_non_empty_dicts := kv_non_empty_dicts kvs + n + m\<rparr> = kv_drift n (kvs\<lparr>kv_non_empty_dicts := kv_non_empty_dicts kvs + m\<rparr>)"
  by (simp_all add: kv_drift_def)

lemma kvstoreGetDict_drift [drift]: "kvstoreGetDict (kv_drift n kvs) i = kvstoreGetDict kvs i"
  by (simp add: kvstoreGetDict_def)

lemma kvstoreSetDict_drift [drift]: "kvstoreSetDict (kv_drift n kvs) i d = kv_drift n (kvstoreSetDict kvs i d)"
  by (simp add: kvstoreSetDict_def drift)

lemma kvstoreDictSize_drift [drift]: "kvstoreDictSize (kv_drift n kvs) i = kvstoreDictSize kvs i"
  by (simp add: kvstoreDictSize_def drift)

lemma kvstoreDictIsRehashingPaused_drift [drift]:
  "kvstoreDictIsRehashingPaused (kv_drift n kvs) i = kvstoreDictIsRehashingPaused kvs i"
  by (simp add: kvstoreDictIsRehashingPaused_def drift)

lemma cumulativeKeyCountAdd_drift [drift]:
  "cumulativeKeyCountAdd (kv_drift n kvs) i delta = map_outcome (kv_drift n) (cumulativeKeyCountAdd kvs i delta)"
proof (cases "kvstoreGetDict (kvs\<lparr>kv_key_count := c_unsigned 64 (int (kv_key_count kvs) + delta)\<rparr>) i")
  case Abort
  then show ?thesis by (simp add: cumulativeKeyCountAdd_def drift)
next
  case (Ok od)
  show ?thesis
  proof (cases od)
    case None
    then show ?thesis using Ok by (simp add: cumulativeKeyCountAdd_def drift)
  next
    case (Some d)
    define e where "e = (if dictSize d = 1 \<and> delta > 0 then 1 else if dictSize d = 0 then - 1 else 0 :: int)"
    have "cumulativeKeyCountAdd k i delta =
        (if kv_num_dicts k = 1 then Ok (k\<lparr>kv_key_count := c_unsigned 64 (int (kv_key_count k) + delta), kv_non_empty_dicts := kv_non_empty_dicts k + e\<rparr>)
         else case kv_dict_sizes k of None \<Rightarrow> Abort
           | Some ft \<Rightarrow> bind_outcome (fwTreeUpdate ft (int i) delta) (\<lambda>ft. Ok
               (k\<lparr>kv_key_count := c_unsigned 64 (int (kv_key_count k) + delta), kv_non_empty_dicts := kv_non_empty_dicts k + e,
                  kv_dict_sizes := Some ft\<rparr>)))"
      if "kvstoreGetDict (k\<lparr>kv_key_count := c_unsigned 64 (int (kv_key_count k) + delta)\<rparr>) i = Ok (Some d)" for k :: "('a, 'b) kvstore"
      using that by (simp add: cumulativeKeyCountAdd_def Let_def e_def kv_num_dicts_def split: option.split)
    note eq = this
    have g: "kvstoreGetDict (kvs\<lparr>kv_key_count := c_unsigned 64 (int (kv_key_count kvs) + delta)\<rparr>) i = Ok (Some d)"
      using Ok Some by simp
    have g': "kvstoreGetDict ((kv_drift n kvs)\<lparr>kv_key_count := c_unsigned 64 (int (kv_key_count (kv_drift n kvs)) + delta)\<rparr>) i = Ok (Some d)"
      using g by (simp add: drift)
    show ?thesis unfolding eq [OF g] eq [OF g']
      by (auto simp: outcome_maps split: option.split intro!: bind_outcome_eqI)
  qed
qed

lemma createDictIfNeeded_drift [drift]:
  "createDictIfNeeded (kv_drift n kvs) i = map_outcome (map_prod (kv_drift n) id) (createDictIfNeeded kvs i)"
  by (auto simp: createDictIfNeeded_def drift outcome_maps split: option.split intro!: bind_outcome_eqI)

lemma freeDictIfNeeded_drift [drift]:
  "freeDictIfNeeded (kv_drift n kvs) i = map_outcome (kv_drift n) (freeDictIfNeeded kvs i)"
  by (auto simp: freeDictIfNeeded_def drift outcome_maps intro!: bind_outcome_eqI split: option.split)


section \<open>Every operation commutes with the shift\<close>

lemma kvstoreDictFetchValue_drift [drift]:
  "kvstoreDictFetchValue ty rz (kv_drift n kvs) i k = map_outcome (map_prod (kv_drift n) id) (kvstoreDictFetchValue ty rz kvs i k)"
  by (auto simp: kvstoreDictFetchValue_def drift outcome_maps intro!: bind_outcome_eqI split: option.split)

lemma kvstoreDictAddRaw_drift [drift]:
  "kvstoreDictAddRaw ty rz (kv_drift n kvs) i k v0 = map_outcome (map_prod (kv_drift n) id) (kvstoreDictAddRaw ty rz kvs i k v0)"
  by (auto simp: kvstoreDictAddRaw_def Let_def drift outcome_maps intro!: bind_outcome_eqI split: sum.split)

lemma kvstoreDictSetVal_drift [drift]:
  "kvstoreDictSetVal (kv_drift n kvs) i de v = map_outcome (kv_drift n) (kvstoreDictSetVal kvs i de v)"
  by (auto simp: kvstoreDictSetVal_def drift outcome_maps intro!: bind_outcome_eqI split: option.split)

lemma kvstoreDictDelete_drift [drift]:
  "kvstoreDictDelete ty rz (kv_drift n kvs) i k = map_outcome (map_prod (kv_drift n) id) (kvstoreDictDelete ty rz kvs i k)"
  by (auto simp: kvstoreDictDelete_def Let_def drift outcome_maps intro!: bind_outcome_eqI split: option.split)

lemma kvstoreDictTwoPhaseUnlinkFind_drift [drift]:
  "kvstoreDictTwoPhaseUnlinkFind ty rz (kv_drift n kvs) i k
     = map_outcome (map_prod (kv_drift n) id) (kvstoreDictTwoPhaseUnlinkFind ty rz kvs i k)"
  by (auto simp: kvstoreDictTwoPhaseUnlinkFind_def drift outcome_maps intro!: bind_outcome_eqI split: option.split)

lemma kvstoreDictTwoPhaseUnlinkFree_drift [drift]:
  "kvstoreDictTwoPhaseUnlinkFree ty rz (kv_drift n kvs) i l = map_outcome (kv_drift n) (kvstoreDictTwoPhaseUnlinkFree ty rz kvs i l)"
  by (auto simp: kvstoreDictTwoPhaseUnlinkFree_def drift outcome_maps intro!: bind_outcome_eqI split: option.split)

lemma kvstoreDictExpand_drift [drift]:
  "kvstoreDictExpand ty rz (kv_drift n kvs) i sz = map_outcome (map_prod (kv_drift n) id) (kvstoreDictExpand ty rz kvs i sz)"
  by (auto simp: kvstoreDictExpand_def drift outcome_maps intro!: bind_outcome_eqI)

lemma expand_loop_drift [drift]:
  "expand_loop ty rz sz skip m (kv_drift n kvs) = map_outcome (kv_drift n) (expand_loop ty rz sz skip m kvs)"
  by (induction m arbitrary: kvs)
    (auto simp: Let_def drift outcome_maps intro!: bind_outcome_eqI split: option.split)

lemma resize_rounds_drift [drift]:
  "resize_rounds ty rz m (kv_drift n kvs) = map_outcome (kv_drift n) (resize_rounds ty rz m kvs)"
proof (induction m arbitrary: kvs)
  case (Suc m)
  have round: "(case od of
           None \<Rightarrow> Ok (kv_drift n kvs)
         | Some d \<Rightarrow>
             bind_outcome (dictShrinkIfNeeded ty rz d) (\<lambda>(d, r).
             if r then Ok (kvstoreSetDict (kv_drift n kvs) i (Some d))
             else bind_outcome (dictExpandIfNeeded ty rz d) (\<lambda>(d, r). Ok (kvstoreSetDict (kv_drift n kvs) i (Some d)))))
    = map_outcome (kv_drift n) (case od of
           None \<Rightarrow> Ok kvs
         | Some d \<Rightarrow>
             bind_outcome (dictShrinkIfNeeded ty rz d) (\<lambda>(d, r).
             if r then Ok (kvstoreSetDict kvs i (Some d))
             else bind_outcome (dictExpandIfNeeded ty rz d) (\<lambda>(d, r). Ok (kvstoreSetDict kvs i (Some d)))))" for od i
    by (auto simp: drift outcome_maps intro!: bind_outcome_eqI split: option.split)
  show ?case unfolding resize_rounds.simps Let_def kv_drift_simps kvstoreGetDict_drift round
    by (simp only: outcome_maps kv_drift_simps drift Suc.IH)
qed simp

lemma kv_dict_tick_drift [drift]:
  "kv_dict_tick ty rz t (kv_drift n kvs) i = map_outcome (kv_drift n) (kv_dict_tick ty rz t kvs i)"
  by (auto simp: kv_dict_tick_def drift outcome_maps intro!: bind_outcome_eqI split: option.split)

lemma kv_act_drift [drift]:
  "kv_act ty rz a (kv_drift n kvs) = map_outcome (kv_drift n) (kv_act ty rz a kvs)"
  by (cases a)
    (auto simp: kv_act_def kvstoreTryResizeDicts_def kvstoreExpand_def drift outcome_maps intro!: bind_outcome_eqI)

lemma kv_call_drift [drift]:
  "kv_call ty rz v0 i c (kv_drift n kvs) = map_outcome (map_prod (kv_drift n) id) (kv_call ty rz v0 i c kvs)"
  by (cases c) (auto simp: drift outcome_maps intro!: bind_outcome_eqI split: sum.split)

lemma kvstoreGetNextNonEmptyDictIndex_drift [drift]:
  "kvstoreGetNextNonEmptyDictIndex (kv_drift n kvs) i = kvstoreGetNextNonEmptyDictIndex kvs i"
  by (simp add: kvstoreGetNextNonEmptyDictIndex_def)

lemma kv_cursor_drift [drift]:
  "getAndClearDictIndexFromCursor (kv_drift n kvs) c = getAndClearDictIndexFromCursor kvs c"
  "addDictIndexToCursor (kv_drift n kvs) j c = addDictIndexToCursor kvs j c"
  by (simp_all add: getAndClearDictIndexFromCursor_def addDictIndexToCursor_def)

lemma map_c_assert: "map_outcome f (c_assert b r) = c_assert b (map_outcome f r)"
  by (cases b) simp_all

lemma scan_call_drift:
  "bind_outcome
     (if skip then Ok (kv_drift n kvs, [], 0)
      else bind_outcome (dictScan d v) (\<lambda>(d, es, c).
        bind_outcome (freeDictIfNeeded (kvstoreSetDict (kv_drift n kvs) j (Some d)) j) (\<lambda>kvs. Ok (kvs, es, c)))) (\<lambda>(kvs, es, c).
   if c = 0 \<or> skip then
     if only \<ge> 0 then Ok (kvs, es, 0)
     else bind_outcome (kvstoreGetNextNonEmptyDictIndex kvs (int j)) (\<lambda>didx.
       if didx = - 1 then Ok (kvs, es, 0) else Ok (kvs, es, addDictIndexToCursor kvs didx c))
   else Ok (kvs, es, addDictIndexToCursor kvs (int j) c))
 = map_outcome (map_prod (kv_drift n) id) (bind_outcome
     (if skip then Ok (kvs, [], 0)
      else bind_outcome (dictScan d v) (\<lambda>(d, es, c).
        bind_outcome (freeDictIfNeeded (kvstoreSetDict kvs j (Some d)) j) (\<lambda>kvs. Ok (kvs, es, c)))) (\<lambda>(kvs, es, c).
   if c = 0 \<or> skip then
     if only \<ge> 0 then Ok (kvs, es, 0)
     else bind_outcome (kvstoreGetNextNonEmptyDictIndex kvs (int j)) (\<lambda>didx.
       if didx = - 1 then Ok (kvs, es, 0) else Ok (kvs, es, addDictIndexToCursor kvs didx c))
   else Ok (kvs, es, addDictIndexToCursor kvs (int j) c)))"
  by (cases skip) (auto simp: drift outcome_maps bind_outcome_assoc intro!: bind_outcome_eqI split: prod.split)

lemma kvstoreScan_drift [drift]:
  "kvstoreScan skip_cb (kv_drift n kvs) c only = map_outcome (map_prod (kv_drift n) id) (kvstoreScan skip_cb kvs c only)"
proof -
  obtain i v where g: "getAndClearDictIndexFromCursor kvs c = (i, v)" by fastforce
  show ?thesis
    unfolding kvstoreScan_def Let_def kv_cursor_drift g prod.case kv_drift_simps kvstoreGetDict_drift scan_call_drift
    by (simp add: map_bind_outcome map_c_assert)
qed

lemma empty_loop_drift [drift]:
  "empty_loop m (kv_drift n kvs) = map_outcome (kv_drift n) (empty_loop m kvs)"
  by (induction m arbitrary: kvs) (auto simp: Let_def drift outcome_maps intro!: bind_outcome_eqI split: option.split)

lemma kvstoreEmpty_drift [drift]: "kvstoreEmpty (kv_drift n kvs) = kvstoreEmpty kvs"
  by (simp add: kvstoreEmpty_def drift outcome_maps) (simp add: kv_drift_def)

lemma kvstoreMoveDict_drift [drift]:
  "kvstoreMoveDict (kv_drift m kvs) (kv_drift n dst) i = map_outcome (map_prod (kv_drift m) (kv_drift n)) (kvstoreMoveDict kvs dst i)"
  by (auto simp: kvstoreMoveDict_def Let_def drift outcome_maps bind_outcome_assoc map_c_assert intro!: outcome_eqIs split: option.split)

section \<open>Moving a dict\<close>

text \<open>The counts after \<open>cumulativeKeyCountAdd\<close> with the size of a whole dict, up or down.\<close>

definition whole_dict_delta :: "nat \<Rightarrow> int \<Rightarrow> int" where
  "whole_dict_delta dsize delta = (if dsize = 1 \<and> delta > 0 then 1 else if dsize = 0 then - 1 else 0)"

lemma kv_counts_drift:
  "kv_counts (kv_drift n kvs) a \<longleftrightarrow>
     length a = kv_num_dicts kvs \<and> kv_key_count kvs = sum_list a \<and> sum_list a + 1 < 2 ^ 64
     \<and> kv_non_empty_dicts kvs + n = int (length (filter (\<lambda>n. 0 < n) a))
     \<and> (if kv_num_dicts kvs = 1 then kv_dict_sizes kvs = None else \<exists>ft. kv_dict_sizes kvs = Some ft \<and> fw_ok ft a)"
  by (simp add: kv_counts_def)

lemma add_whole_dict:
  assumes c: "kv_counts kvs a" and d: "kv_dicts kvs ! i = Some d" "i < length (kv_dicts kvs)" "i < kv_num_dicts kvs"
    and delta: "\<bar>delta\<bar> = int (dictSize d)" "dictSize d < 2 ^ 63" "int (a ! i) + delta = int m" "int (sum_list a) + delta + 1 < 2 ^ 64"
  shows "\<exists>kvs'. cumulativeKeyCountAdd kvs i delta = Ok kvs' \<and> kv_same_dicts kvs kvs'
    \<and> kv_non_empty_dicts kvs' = kv_non_empty_dicts kvs + whole_dict_delta (dictSize d) delta
    \<and> kv_counts (kv_drift (of_bool (0 < m) - of_bool (0 < a ! i) - whole_dict_delta (dictSize d) delta) kvs') (a[i := m])"
proof -
  let ?e = "whole_dict_delta (dictSize d) delta"
  have a: "length a = kv_num_dicts kvs" "kv_key_count kvs = sum_list a" using c by (simp_all add: kv_counts_def)
  then have l: "i < length a" using d(3) by simp
  have sum: "int (sum_list (a[i := m])) = int (sum_list a) + delta" using int_sum_list_update [OF l, of m] delta(3) by simp
  then have "int (sum_list (a[i := m])) < 2 ^ 64" using delta(4) by linarith
  then have n: "c_unsigned 64 (int (kv_key_count kvs) + delta) = sum_list (a[i := m])"
    unfolding a(2) sum [symmetric] by (simp add: c_unsigned_id)
  let ?k = "kvs\<lparr>kv_key_count := sum_list (a[i := m]), kv_non_empty_dicts := kv_non_empty_dicts kvs + ?e\<rparr>"
  have ne: "kv_non_empty_dicts kvs = int (length (filter (\<lambda>n. 0 < n) a))" using c by (simp add: kv_counts_def)
  have cnt: "int (length (filter (\<lambda>n. 0 < n) (a[i := m]))) = kv_non_empty_dicts kvs - of_bool (0 < a ! i) + of_bool (0 < m)"
    unfolding int_filter_update [OF l] ne ..
  have "int (sum_list (a[i := m]) + 1) < int (2 ^ 64)" using sum delta(4) by simp
  then have small: "sum_list (a[i := m]) + 1 < 2 ^ 64" by (simp only: of_nat_less_iff)
  have eq: "cumulativeKeyCountAdd kvs i delta =
      (if kv_num_dicts kvs = 1 then Ok ?k
       else case kv_dict_sizes kvs of None \<Rightarrow> Abort
         | Some ft \<Rightarrow> bind_outcome (fwTreeUpdate ft (int i) delta) (\<lambda>ft. Ok (?k\<lparr>kv_dict_sizes := Some ft\<rparr>)))"
    using d by (simp add: cumulativeKeyCountAdd_def Let_def kvstoreGetDict_def kv_num_dicts_def n whole_dict_delta_def split: option.split)
  show ?thesis
  proof (cases "kv_num_dicts kvs = 1")
    case True
    then have "cumulativeKeyCountAdd kvs i delta = Ok ?k" using eq by simp
    moreover have "kv_same_dicts kvs ?k"
      unfolding kv_same_dicts_def
      by (rule exI [of _ "kv_non_empty_dicts kvs + ?e"], rule exI [of _ "sum_list (a[i := m])"], rule exI [of _ "kv_dict_sizes kvs"]) simp
    moreover have "kv_counts (kv_drift (of_bool (0 < m) - of_bool (0 < a ! i) - ?e) ?k) (a[i := m])"
      unfolding kv_counts_drift using c a(1) small True cnt by (simp add: kv_counts_def kv_num_dicts_def)
    ultimately show ?thesis by (intro exI [of _ ?k]) simp
  next
    case False
    then obtain ft where ft: "kv_dict_sizes kvs = Some ft" "fw_ok ft a" using c by (auto simp: kv_counts_def)
    have "fits_signed 64 delta" using delta(1,2) by (auto simp: fits_signed_def)
    then obtain ft' where f: "fwTreeUpdate ft (int i) delta = Ok ft'" "fw_ok ft' (a[i := m])"
      using fw.add_spec [OF ft(2) l, of delta] delta(3,4) by auto
    let ?k' = "?k\<lparr>kv_dict_sizes := Some ft'\<rparr>"
    have "cumulativeKeyCountAdd kvs i delta = Ok ?k'" using eq False ft(1) f by simp
    moreover have "kv_same_dicts kvs ?k'"
      unfolding kv_same_dicts_def
      by (rule exI [of _ "kv_non_empty_dicts kvs + ?e"], rule exI [of _ "sum_list (a[i := m])"], rule exI [of _ "Some ft'"]) simp
    moreover have "kv_counts (kv_drift (of_bool (0 < m) - of_bool (0 < a ! i) - ?e) ?k') (a[i := m])"
      unfolding kv_counts_drift using f(2) a(1) small False cnt by (simp add: kv_num_dicts_def)
    ultimately show ?thesis by (intro exI [of _ ?k']) simp
  qed
qed

lemma kv_ok_drift: "kv_ok hash (kv_drift n kvs) \<longleftrightarrow> kv_shape hash kvs \<and> kv_counts (kv_drift n kvs) (kv_sizes kvs)"
proof -
  have "kv_sizes (kv_drift n kvs) = kv_sizes kvs" by (simp add: kv_sizes_def)
  then show ?thesis by (simp add: kv_ok_def kv_shape_def)
qed

lemma kv_SetDict_cong:
  assumes "kv_same_dicts (kvs\<lparr>kv_allocated_dicts := a\<rparr>) k1"
  shows "kv_same_dicts ((kvstoreSetDict kvs i d)\<lparr>kv_allocated_dicts := a\<rparr>) (kvstoreSetDict k1 i d)"
proof -
  obtain n k f where "k1 = kvs\<lparr>kv_allocated_dicts := a, kv_non_empty_dicts := n, kv_key_count := k, kv_dict_sizes := f\<rparr>"
    using assms by (auto simp: kv_same_dicts_def)
  then have "kvstoreSetDict k1 i d = (kvstoreSetDict kvs i d)\<lparr>kv_allocated_dicts := a, kv_non_empty_dicts := n, kv_key_count := k, kv_dict_sizes := f\<rparr>"
    by (cases kvs) (simp add: kvstoreSetDict_def)
  then show ?thesis unfolding kv_same_dicts_def by blast
qed

text \<open>What a move of the dict with size \<open>n\<close> adds to the number of non-empty dicts in excess: on the side the dict
  leaves, and on the side it comes to.\<close>

definition move_out_drift :: "nat \<Rightarrow> int" where
  "move_out_drift n = (if n = 0 then - 1 else 1)"

definition move_in_drift :: "nat \<Rightarrow> int" where
  "move_in_drift n = (if n = 1 then 0 else - 1)"

lemma kvstoreMoveDict_ok:
  assumes ok: "kv_ok hash kvs" "kv_ok hash dst" and bits: "kv_num_dicts_bits kvs = kv_num_dicts_bits dst"
    and i: "i < kv_num_dicts kvs" "kv_dicts kvs ! i = Some d" "kv_dicts dst ! i = None"
    and sz: "kvstoreSize kvs < 2 ^ 63" "kvstoreSize dst + dictSize d < 2 ^ 63"
  shows "\<exists>kvs' dst'. kvstoreMoveDict kvs dst i = Ok (kvs', dst')
    \<and> kv_ok hash (kv_drift (- move_out_drift (dictSize d)) kvs') \<and> kv_ok hash (kv_drift (- move_in_drift (dictSize d)) dst')
    \<and> kv_effect kvs kvs' i Map.empty \<and> kv_effect dst dst' i (dict_map d)
    \<and> kv_non_empty_dicts kvs' = kv_non_empty_dicts kvs + (if dictSize d = 0 then - 1 else 0)
    \<and> kv_non_empty_dicts dst' = kv_non_empty_dicts dst + (if dictSize d = 1 then 1 else if dictSize d = 0 then - 1 else 0)"
proof -
  let ?n = "int (dictSize d)"
  have num: "kv_num_dicts dst = kv_num_dicts kvs" using bits by (simp add: kv_num_dicts_def)
  have shape: "kv_shape hash kvs" "kv_shape hash dst" using ok by (simp_all add: kv_ok_def)
  have l: "i < length (kv_dicts kvs)" "i < length (kv_dicts dst)" using shape i(1) num by (simp_all add: kv_shape_def)
  have c: "kv_counts kvs (kv_sizes kvs)" "kv_counts dst (kv_sizes dst)" using ok by (simp_all add: kv_ok_def)
  have at: "kv_sizes kvs ! i = dictSize d" "kv_sizes dst ! i = 0" using l i(2,3) by (simp_all add: kv_sizes_nth)
  have sums: "kvstoreSize kvs = sum_list (kv_sizes kvs)" "kvstoreSize dst = sum_list (kv_sizes dst)"
    using ok by (simp_all add: kvstoreSize_def kv_key_count_sizes)
  have le: "dictSize d \<le> sum_list (kv_sizes kvs)" using elem_le_sum_list [of i "kv_sizes kvs"] l(1) at(1) by simp
  let ?s = "kvs\<lparr>kv_allocated_dicts := kv_allocated_dicts kvs - 1\<rparr>"
  have small: "dictSize d < 2 ^ 63" using sz(1) le unfolding sums by simp
  have s: "kv_counts ?s (kv_sizes kvs)" "kv_dicts ?s ! i = Some d" "i < length (kv_dicts ?s)" "i < kv_num_dicts ?s"
    using c(1) i l(1) by simp_all
  have "int (sum_list (kv_sizes kvs)) + - ?n + 1 < 2 ^ 64" using sz(1) unfolding sums by simp
  then obtain k1 where k1: "cumulativeKeyCountAdd ?s i (- ?n) = Ok k1" "kv_same_dicts ?s k1"
    "kv_non_empty_dicts k1 = kv_non_empty_dicts kvs + whole_dict_delta (dictSize d) (- ?n)"
    "kv_counts (kv_drift (- move_out_drift (dictSize d)) k1) ((kv_sizes kvs)[i := 0])"
    using add_whole_dict [OF s, of "- ?n" 0] small at(1) by (auto simp: move_out_drift_def whole_dict_delta_def split: if_splits)
  define k2 where "k2 = kvstoreSetDict k1 i None"
  have same2: "kv_same_dicts ((kvstoreSetDict kvs i None)\<lparr>kv_allocated_dicts := kv_allocated_dicts kvs - 1\<rparr>) k2"
    unfolding k2_def by (rule kv_SetDict_cong [OF k1(2)])
  have "kv_shape hash ((kvstoreSetDict kvs i None)\<lparr>kv_allocated_dicts := kv_allocated_dicts kvs - 1\<rparr>)"
    using kv_shape_SetDict [OF shape(1) i(1), of None] i(2) by simp
  then have "kv_shape hash k2" "kv_sizes k2 = (kv_sizes kvs)[i := 0]" "kv_dict_map k2 = (kv_dict_map kvs)(i := Map.empty)"
    "kv_num_dicts_bits k2 = kv_num_dicts_bits kvs"
    using kv_same_dictsD [OF same2] kv_dict_map_SetDict [OF l(1), of None]
      kv_dict_map_cong [of "(kvstoreSetDict kvs i None)\<lparr>kv_allocated_dicts := kv_allocated_dicts kvs - 1\<rparr>" "kvstoreSetDict kvs i None"]
    by simp_all
  moreover have "kv_counts (kv_drift (- move_out_drift (dictSize d)) k2) = kv_counts (kv_drift (- move_out_drift (dictSize d)) k1)"
    by (simp add: k2_def flip: kvstoreSetDict_drift)
  ultimately have k2: "kv_ok hash (kv_drift (- move_out_drift (dictSize d)) k2)" "kv_effect kvs k2 i Map.empty" "i < kv_num_dicts k2"
    using k1(4) i(1) by (simp_all add: kv_ok_drift kv_effect_def kv_num_dicts_def)
  obtain k3 where k3: "(if \<not> (kv_on_demand k2 \<or> kv_free_empty k2)
      then bind_outcome (createDictIfNeeded k2 i) (\<lambda>(kvs, d). Ok kvs) else Ok k2) = Ok k3"
    "kv_ok hash (kv_drift (- move_out_drift (dictSize d)) k3)" "kv_effect kvs k3 i Map.empty" "kv_non_empty_dicts k3 = kv_non_empty_dicts k2"
  proof (cases "kv_on_demand k2 \<or> kv_free_empty k2")
    case True
    then show ?thesis using that k2 by simp
  next
    case False
    have i2: "i < kv_num_dicts (kv_drift (- move_out_drift (dictSize d)) k2)" using k2(3) by simp
    obtain k d' where k: "createDictIfNeeded k2 i = Ok (k, d')" "kv_ok hash (kv_drift (- move_out_drift (dictSize d)) k)"
      "kv_effect k2 k i (kv_dict_map k2 i)"
      using createDictIfNeeded_ok [OF k2(1) i2] by (auto simp: drift map_outcome_Ok kv_effect_def)
    moreover have "kv_non_empty_dicts k = kv_non_empty_dicts k2"
      using k(1) by (auto simp: createDictIfNeeded_def bind_outcome_Ok kvstoreSetDict_def split: option.splits)
    moreover have "kv_effect kvs k i Map.empty" using k2(2) k(3) by (simp add: kv_effect_def)
    ultimately show ?thesis using False that [of k] by simp
  qed
  let ?t = "(kvstoreSetDict dst i (Some d))\<lparr>kv_allocated_dicts := kv_allocated_dicts dst + 1\<rparr>"
  have dok: "dict_ok hash d \<and> pauseAutoResize d \<le> 0" using kv_shape_dict [OF shape(1) i(1,2)] .
  have i': "i < kv_num_dicts dst" using i(1) num by simp
  have shape_t: "kv_shape hash ?t" using kv_shape_SetDict [OF shape(2) i', of "Some d"] i(3) dok by simp
  have t: "kv_counts ?t (kv_sizes dst)" "kv_dicts ?t ! i = Some d" "i < length (kv_dicts ?t)" "i < kv_num_dicts ?t"
    using c(2) l(2) i' by simp_all
  have "int (sum_list (kv_sizes dst)) + ?n + 1 < 2 ^ 64" using sz(2) unfolding sums by simp
  then obtain t1 where t1: "cumulativeKeyCountAdd ?t i ?n = Ok t1" "kv_same_dicts ?t t1"
    "kv_non_empty_dicts t1 = kv_non_empty_dicts ?t + whole_dict_delta (dictSize d) ?n"
    "kv_counts (kv_drift (- move_in_drift (dictSize d)) t1) ((kv_sizes dst)[i := dictSize d])"
    using add_whole_dict [OF t, of ?n "dictSize d"] small at(2) by (auto simp: move_in_drift_def whole_dict_delta_def split: if_splits)
  have "kvstoreMoveDict kvs dst i = Ok (k3, t1)"
    using i num l k1(1) k3(1) t1(1) unfolding kvstoreMoveDict_def k2_def by (simp add: Let_def)
  moreover have "kv_ok hash (kv_drift (- move_in_drift (dictSize d)) t1)"
    using kv_same_dictsD [OF t1(2), of hash] shape_t t1(4) by (simp add: kv_ok_drift)
  moreover have "kv_effect dst t1 i (dict_map d)"
    using kv_same_dictsD [OF t1(2)] kv_dict_map_SetDict [OF l(2), of "Some d"] kv_dict_map_cong [of ?t "kvstoreSetDict dst i (Some d)"]
    by (simp add: kv_effect_def)
  moreover have "kv_non_empty_dicts k2 = kv_non_empty_dicts k1" by (simp add: k2_def kvstoreSetDict_def)
  ultimately show ?thesis using k3(2-4) k1(3) t1(3)
    by (intro exI [of _ k3] exI [of _ t1]) (simp add: whole_dict_delta_def kvstoreSetDict_def)
qed

end
