(* ===== verification/Kvstore_Theorems.thy ===== *)
theory Kvstore_Theorems
  imports Kvstore_Move
begin

text \<open>
  What \<open>kvstore.c\<close> promises: the keyspace is a finite map over all its dicts, its counts are right in every
  reachable state, a random key index selects a dict in proportion to its size, iteration visits the
  non-empty dicts in order, and a scan misses no key.
\<close>

section \<open>Reachable keyspaces\<close>

lemma kvstoreDictTwoPhaseUnlink_ok:
  assumes ok: "kv_ok (hashFunction ty) kvs" and i: "i < kv_num_dicts kvs"
  shows "\<exists>k1 pl. kvstoreDictTwoPhaseUnlinkFind ty rz kvs i key = Ok (k1, pl) \<and> (pl = None \<longleftrightarrow> kv_dict_map kvs i key = None)
    \<and> (pl = None \<longrightarrow> kv_ok (hashFunction ty) k1 \<and> kv_effect kvs k1 i (kv_dict_map kvs i))
    \<and> (pl \<noteq> None \<longrightarrow> (\<exists>k2. kvstoreDictTwoPhaseUnlinkFree ty rz k1 i pl = Ok k2 \<and> kv_ok (hashFunction ty) k2
          \<and> kv_effect kvs k2 i ((kv_dict_map kvs i)(key := None))))"
proof -
  let ?h = "hashFunction ty"
  have shape: "kv_shape ?h kvs" and l: "i < length (kv_dicts kvs)" using ok i by (simp_all add: kv_ok_def kv_shape_def)
  show ?thesis
  proof (cases "kv_dicts kvs ! i")
    case None
    then show ?thesis using ok l kv_effect_refl [of kvs i]
      by (simp add: kvstoreDictTwoPhaseUnlinkFind_def kv_dict_map_def)
  next
    case (Some d)
    then have d: "dict_ok ?h d" "pauseAutoResize d \<le> 0" "kv_dict_map kvs i = dict_map d"
      using kv_shape_dict [OF shape i] by (auto simp: kv_dict_map_def)
    obtain d1 pl d2 where u: "dictTwoPhaseUnlinkFind ty rz d key = Ok (d1, pl)" "dict_ok ?h d1"
      "map_option (dict_entry d1) pl = map_option (Pair key) (dict_map d key)" "dict_map d1 = dict_map d"
      "dictTwoPhaseUnlinkFree ty rz d1 pl = Ok d2" "dict_ok ?h d2" "same_pauses d d2" "dict_map d2 = (dict_map d)(key := None)"
      using dictTwoPhaseUnlink_ok [OF d(1), of rz key] by blast
    have p2: "pauseAutoResize d2 \<le> 0" using u(7) d(2) by (simp add: same_pauses_def)
    let ?k1 = "kvstoreSetDict kvs i (Some d1)"
    have f: "kvstoreDictTwoPhaseUnlinkFind ty rz kvs i key = Ok (?k1, pl)"
      using Some l u(1) by (simp add: kvstoreDictTwoPhaseUnlinkFind_def)
    show ?thesis
    proof (cases pl)
      case None
      then have n: "dict_map d key = None" using u(3) by (cases "dict_map d key") auto
      have "d2 = d1" using None u(5) by (simp add: dictTwoPhaseUnlinkFree_def)
      then have "dictSize d1 = dictSize d" "pauseAutoResize d1 \<le> 0"
        using u(4) d(1) u(2) p2 by (simp_all add: dictSize_card)
      then have "kv_ok ?h ?k1 \<and> kv_effect kvs ?k1 i (dict_map d1)" by (intro kv_SetDict_same_size [OF ok i Some u(2)])
      then show ?thesis using f None n d(3) u(4) by simp
    next
      case (Some p)
      then obtain v where v: "dict_map d key = Some v" using u(3) by (cases "dict_map d key") auto
      let ?k2 = "kvstoreSetDict kvs i (Some d2)"
      have two: "kvstoreSetDict ?k1 i (Some d2) = ?k2" by (simp add: kvstoreSetDict_def)
      note di = \<open>kv_dicts kvs ! i = Some d\<close>
      have "dictSize d = card (insert key (dom (dict_map d2)))" "key \<notin> dom (dict_map d2)"
        using dictSize_card [OF d(1)] u(8) v by (auto simp: insert_absorb domIff)
      then have sz: "dictSize d = dictSize d2 + 1" using dictSize_card [OF u(6)] dict_map_finite [of d2] by simp
      have "kv_counts ?k2 (kv_sizes kvs)" using ok by (simp add: kv_ok_def)
      moreover have "0 < kv_sizes kvs ! i" "int (dictSize d2) = int (kv_sizes kvs ! i) + - 1"
        using sz l di by (simp_all add: kv_sizes_nth)
      ultimately obtain k3 where k3: "cumulativeKeyCountAdd ?k2 i (- 1) = Ok k3"
        "kv_counts k3 ((kv_sizes kvs)[i := dictSize d2])" "kv_same_dicts ?k2 k3"
        using kv_counts_add [of ?k2 "kv_sizes kvs" i d2 "- 1"] i l by auto
      have ok3: "kv_ok ?h k3"
        by (rule kv_ok_same_dicts [OF _ _ k3(3)]) (use k3(2) kv_shape_SetDict_Some [OF shape i di u(6) p2] in simp_all)
      have e3: "kv_effect kvs k3 i ((kv_dict_map kvs i)(key := None))"
        using kv_same_dictsD [OF k3(3)] kv_dict_map_SetDict [OF l, of "Some d2"] u(8) d(3) by (simp add: kv_effect_def)
      then have "i < kv_num_dicts k3" using i by (simp add: kv_effect_def kv_num_dicts_def)
      then obtain k4 where k4: "freeDictIfNeeded k3 i = Ok k4" "kv_ok ?h k4" "kv_effect k3 k4 i (kv_dict_map k3 i)"
        using freeDictIfNeeded_ok [OF ok3] by blast
      have "kv_effect kvs k4 i ((kv_dict_map kvs i)(key := None))" using k4(3) e3 by (simp add: kv_effect_def)
      moreover have "kvstoreDictTwoPhaseUnlinkFree ty rz ?k1 i pl = Ok k4"
        using l u(5) two k3(1) k4(1) by (simp add: kvstoreDictTwoPhaseUnlinkFree_def)
      ultimately show ?thesis using f Some v d(3) k4(2) by (simp del: split_paired_Ex)
    qed
  qed
qed

text \<open>The states a keyspace of \<open>2 ^ b\<close> dicts can get into by the calls of its interface: it is created; keys
  are added, replaced, deleted, looked up (\<open>kv_call\<close>), entered without a value yet or unlinked in two phases;
  dicts are resized, expanded, rehashed and freed (\<open>kv_act\<close>), scanned, and emptied; and a dict moves out of
  it to another reachable keyspace or comes in from one. The numbers of keys are bounded by what the counter
  of keys and a signed difference of it can hold. \<open>e\<close> is what the moves since the creation or the last
  emptying have left on the number of non-empty dicts, as \<open>kvstoreMoveDict\<close> does not update it right.\<close>

inductive kv_reachable :: "'k dictType \<Rightarrow> nat \<Rightarrow> int \<Rightarrow> ('k, 'v) kvstore \<Rightarrow> bool" for ty b where
  created: "kvstoreCreate b od fe can = Ok kvs \<Longrightarrow> kv_reachable ty b 0 kvs"
| called: "kv_reachable ty b e kvs \<Longrightarrow> i < 2 ^ b \<Longrightarrow> kvstoreSize kvs + 2 < 2 ^ 64 \<Longrightarrow>
    kv_call ty rz v0 i c kvs = Ok (kvs', r) \<Longrightarrow> kv_reachable ty b e kvs'"
| entered: "kv_reachable ty b e kvs \<Longrightarrow> i < 2 ^ b \<Longrightarrow> kvstoreSize kvs + 2 < 2 ^ 64 \<Longrightarrow>
    kvstoreDictAddRaw ty rz kvs i key v0 = Ok (kvs', r) \<Longrightarrow> kv_reachable ty b e kvs'"
| unlinked: "kv_reachable ty b e kvs \<Longrightarrow> i < 2 ^ b \<Longrightarrow> kvstoreDictTwoPhaseUnlinkFind ty rz kvs i key = Ok (k1, pl) \<Longrightarrow>
    (if pl = None then Ok k1 else kvstoreDictTwoPhaseUnlinkFree ty rz k1 i pl) = Ok kvs' \<Longrightarrow> kv_reachable ty b e kvs'"
| acted: "kv_reachable ty b e kvs \<Longrightarrow> kv_act ty rz a kvs = Ok kvs' \<Longrightarrow> kv_reachable ty b e kvs'"
| scanned: "kv_reachable ty b e kvs \<Longrightarrow> kv_small kvs \<Longrightarrow> kvstoreScan None kvs c (- 1) = Ok (kvs', es, c') \<Longrightarrow>
    kv_reachable ty b e kvs'"
| emptied: "kv_reachable ty b e kvs \<Longrightarrow> kvstoreEmpty kvs = Ok kvs' \<Longrightarrow> kv_reachable ty b 0 kvs'"
| moved_out: "kv_reachable ty b e kvs \<Longrightarrow> kv_reachable ty b f dst \<Longrightarrow> kvstoreDictSize kvs i = Ok n \<Longrightarrow>
    kvstoreSize kvs < 2 ^ 63 \<Longrightarrow> kvstoreSize dst + n < 2 ^ 63 \<Longrightarrow> kvstoreMoveDict kvs dst i = Ok (kvs', dst') \<Longrightarrow>
    kv_reachable ty b (e + (if kv_dicts kvs ! i = None then 0 else move_out_drift n)) kvs'"
| moved_in: "kv_reachable ty b e kvs \<Longrightarrow> kv_reachable ty b f dst \<Longrightarrow> kvstoreDictSize kvs i = Ok n \<Longrightarrow>
    kvstoreSize kvs < 2 ^ 63 \<Longrightarrow> kvstoreSize dst + n < 2 ^ 63 \<Longrightarrow> kvstoreMoveDict kvs dst i = Ok (kvs', dst') \<Longrightarrow>
    kv_reachable ty b (f + (if kv_dicts kvs ! i = None then 0 else move_in_drift n)) dst'"

lemma kvstore_fresh_count: "kv_key_count (kvstore_fresh b od fe can) = 0"
  by (simp add: kvstore_fresh_def)

text \<open>The invariant of a reachable keyspace: up to the shift of the one count.\<close>

definition kv_ok_upto :: "('k \<Rightarrow> 64 word) \<Rightarrow> nat \<Rightarrow> int \<Rightarrow> ('k, 'v) kvstore \<Rightarrow> bool" where
  "kv_ok_upto hash b e kvs \<longleftrightarrow> kv_ok hash (kv_drift (- e) kvs) \<and> kv_num_dicts_bits kvs = b"

lemma kv_move_upto:
  assumes ok: "kv_ok_upto hash b e kvs" "kv_ok_upto hash b f dst" and sz: "kvstoreDictSize kvs i = Ok n"
    "kvstoreSize kvs < 2 ^ 63" "kvstoreSize dst + n < 2 ^ 63" and m: "kvstoreMoveDict kvs dst i = Ok (kvs', dst')"
  shows "kv_ok_upto hash b (e + (if kv_dicts kvs ! i = None then 0 else move_out_drift n)) kvs'
    \<and> kv_ok_upto hash b (f + (if kv_dicts kvs ! i = None then 0 else move_in_drift n)) dst'"
proof -
  let ?k = "kv_drift (- e) kvs" and ?d = "kv_drift (- f) dst"
  have k: "kv_ok hash ?k" "kv_ok hash ?d" "kv_num_dicts_bits ?k = kv_num_dicts_bits ?d" using ok by (simp_all add: kv_ok_upto_def)
  have m': "kvstoreMoveDict ?k ?d i = Ok (kv_drift (- e) kvs', kv_drift (- f) dst')" using m by (simp add: drift)
  have i: "i < kv_num_dicts ?k" "kvstoreGetDict dst i = Ok None" "kv_dicts ?d ! i = None"
    using m by (auto simp: kvstoreMoveDict_def bind_outcome_Ok kvstoreGetDict_def)
  show ?thesis
  proof (cases "kv_dicts kvs ! i")
    case None
    then have "kvs' = kvs" "dst' = dst" using m by (auto simp: kvstoreMoveDict_def bind_outcome_Ok kvstoreGetDict_def)
    then show ?thesis using ok None by simp
  next
    case (Some d)
    then have n: "n = dictSize d" using sz(1) by (auto simp: kvstoreDictSize_def bind_outcome_Ok kvstoreGetDict_def)
    have "kv_dicts ?k ! i = Some d" "kvstoreSize ?k < 2 ^ 63" "kvstoreSize ?d + dictSize d < 2 ^ 63" using Some sz(2,3) n by simp_all
    then show ?thesis using kvstoreMoveDict_ok [OF k i(1) _ i(3), of d] m' ok Some
      by (auto simp: kv_ok_upto_def n kv_effect_def)
  qed
qed

lemma kv_reachable_ok:
  "kv_reachable ty b e kvs \<Longrightarrow> kv_ok_upto (hashFunction ty) b e kvs"
proof (induction rule: kv_reachable.induct)
  case (created od fe can kvs)
  then have b: "b \<le> 16" by (simp add: kvstoreCreate_def)
  then have eq: "kvs = kvstore_fresh b od fe can" using created by (simp add: kvstoreCreate_fresh)
  then show ?case unfolding kv_ok_upto_def by (simp add: kvstore_fresh_ok [OF b]) (simp add: kvstore_fresh_def)
next
  case (called e kvs i rz v0 c kvs' r)
  let ?k = "kv_drift (- e) kvs"
  have k: "kv_ok (hashFunction ty) ?k" "kv_key_count ?k + 2 < 2 ^ 64" "i < kv_num_dicts ?k"
    using called by (simp_all add: kv_ok_upto_def kvstoreSize_def kv_num_dicts_def)
  have "kv_call ty rz v0 i c ?k = Ok (kv_drift (- e) kvs', r)" using called.hyps by (simp add: drift)
  then show ?case using kv_call_ok [OF k, of rz v0 c] called.IH by (auto simp: kv_effect_def kv_ok_upto_def)
next
  case (entered e kvs i rz key v0 kvs' r)
  let ?k = "kv_drift (- e) kvs"
  have k: "kv_ok (hashFunction ty) ?k" "i < kv_num_dicts ?k" "kv_key_count ?k + 2 < 2 ^ 64"
    using entered by (simp_all add: kv_ok_upto_def kvstoreSize_def kv_num_dicts_def)
  have "kvstoreDictAddRaw ty rz ?k i key v0 = Ok (kv_drift (- e) kvs', r)" using entered.hyps by (simp add: drift)
  then show ?case using kvstoreDictAddRaw_ok [OF k, of rz key v0] entered.IH
    by (auto simp: kv_effect_def kv_ok_upto_def split: sum.splits)
next
  case (unlinked e kvs i rz key k1 pl kvs')
  let ?k = "kv_drift (- e) kvs"
  have k: "kv_ok (hashFunction ty) ?k" "i < kv_num_dicts ?k" using unlinked by (simp_all add: kv_ok_upto_def kv_num_dicts_def)
  have f: "kvstoreDictTwoPhaseUnlinkFind ty rz ?k i key = Ok (kv_drift (- e) k1, pl)" using unlinked.hyps by (simp add: drift)
  show ?case
  proof (cases pl)
    case None
    then show ?thesis using kvstoreDictTwoPhaseUnlink_ok [OF k, of rz key] f unlinked.hyps unlinked.IH
      by (auto simp: kv_effect_def kv_ok_upto_def)
  next
    case (Some p)
    then have "kvstoreDictTwoPhaseUnlinkFree ty rz (kv_drift (- e) k1) i (Some p) = Ok (kv_drift (- e) kvs')"
      using unlinked.hyps by (simp add: drift)
    then show ?thesis using kvstoreDictTwoPhaseUnlink_ok [OF k, of rz key] f Some unlinked.IH
      by (auto simp: kv_effect_def kv_ok_upto_def simp del: split_paired_All split_paired_Ex)
  qed
next
  case (acted e kvs rz a kvs')
  have "kv_act ty rz a (kv_drift (- e) kvs) = Ok (kv_drift (- e) kvs')" using acted.hyps by (simp add: drift)
  then show ?case using kv_act_ok [of ty "kv_drift (- e) kvs" rz a] acted.IH by (auto simp: kv_same_def kv_ok_upto_def)
next
  case (scanned e kvs c kvs' es c')
  let ?k = "kv_drift (- e) kvs"
  have k: "kv_ok (hashFunction ty) ?k" "kv_small ?k" using scanned by (simp_all add: kv_ok_upto_def kv_small_def)
  have "kvstoreScan None ?k c (- 1) = Ok (kv_drift (- e) kvs', es, c')" using scanned.hyps by (simp add: drift)
  then show ?case using kvstoreScan_progress [OF k, of c] scanned.IH by (auto simp: kv_same_def kv_ok_upto_def)
next
  case (emptied e kvs kvs')
  have "kvstoreEmpty (kv_drift (- e) kvs) = Ok kvs'" using emptied.hyps by (simp add: drift)
  then show ?case using kvstoreEmpty_ok [of "hashFunction ty" "kv_drift (- e) kvs"] emptied.IH by (auto simp: kv_ok_upto_def)
next
  case (moved_out e kvs f dst i n kvs' dst')
  then show ?case using kv_move_upto by blast
next
  case (moved_in e kvs f dst i n kvs' dst')
  then show ?case using kv_move_upto by blast
qed

lemma length_filter_card: "length (filter P xs) = card {i. i < length xs \<and> P (xs ! i)}"
  by (simp add: length_filter_conv_card)

lemma kv_counts_right:
  assumes ok: "kv_ok hash kvs"
  shows "kvstoreSize kvs = (\<Sum>i < kv_num_dicts kvs. card (dom (kv_dict_map kvs i)))"
    "kvstoreNumNonEmptyDicts kvs = int (card {i. i < kv_num_dicts kvs \<and> kv_dict_map kvs i \<noteq> Map.empty})"
    "kvstoreNumAllocatedDicts kvs = int (card {i. i < kv_num_dicts kvs \<and> kv_dicts kvs ! i \<noteq> None})"
proof -
  have l: "length (kv_sizes kvs) = kv_num_dicts kvs" using ok by (simp add: kv_ok_def kv_shape_def)
  have "sum_list (kv_sizes kvs) = (\<Sum>i < kv_num_dicts kvs. kv_sizes kvs ! i)"
    unfolding sum_list_sum_nth l atLeast0LessThan ..
  also have "\<dots> = (\<Sum>i < kv_num_dicts kvs. card (dom (kv_dict_map kvs i)))"
    by (rule sum.cong) (simp_all add: kv_sizes_card [OF ok])
  finally show "kvstoreSize kvs = (\<Sum>i < kv_num_dicts kvs. card (dom (kv_dict_map kvs i)))"
    by (simp add: kvstoreSize_def kv_key_count_sizes [OF ok])
  have "0 < kv_sizes kvs ! i \<longleftrightarrow> kv_dict_map kvs i \<noteq> Map.empty" if "i < kv_num_dicts kvs" for i
    unfolding kv_sizes_zero [OF ok that, symmetric] by simp
  then have "{i. i < kv_num_dicts kvs \<and> 0 < kv_sizes kvs ! i} = {i. i < kv_num_dicts kvs \<and> kv_dict_map kvs i \<noteq> Map.empty}"
    by blast
  then show "kvstoreNumNonEmptyDicts kvs = int (card {i. i < kv_num_dicts kvs \<and> kv_dict_map kvs i \<noteq> Map.empty})"
    using ok by (simp add: kv_ok_def kv_counts_def kvstoreNumNonEmptyDicts_def length_filter_card l)
  show "kvstoreNumAllocatedDicts kvs = int (card {i. i < kv_num_dicts kvs \<and> kv_dicts kvs ! i \<noteq> None})"
    using ok by (simp add: kv_ok_def kv_shape_def kvstoreNumAllocatedDicts_def length_filter_card)
qed

section \<open>Examples\<close>

text \<open>A keyspace of two dicts of which the second is in the middle of rehashing, and the type of its dicts.\<close>

definition kv_example_type :: "64 word dictType" where
  "kv_example_type = \<lparr>hashFunction = (\<lambda>k. k), resizeAllowed = None, force_full_rehash = False\<rparr>"

definition kv_example :: "(64 word, nat) kvstore" where
  "kv_example =
     \<lparr>kv_on_demand = True, kv_free_empty = True, kv_canFreeDict = None, kv_dicts = [None, Some rehashing_example],
      kv_num_dicts_bits = 1, kv_resize_cursor = 0, kv_allocated_dicts = 1, kv_non_empty_dicts = 1, kv_key_count = 5,
      kv_dict_sizes = Some \<lparr>ft_tree = [0, 0, 5], ft_size_bits = 1, ft_size = 2, ft_total = 5\<rparr>\<rparr>"

lemma kv_example_ok: "kv_ok (\<lambda>k. k) kv_example" "kv_small kv_example" "kv_num_dicts kv_example = 2"
proof -
  have sizes: "kv_sizes kv_example = [0, 5]"
    by (simp add: kv_sizes_def kv_example_def dictSize_def rehashing_example_def)
  have low: "lowbit 1 = 1" "lowbit 2 = 2" using lowbit_odd [of 0] lowbit_double [of 1] by simp_all
  have "[0, 0, 5] ! k = (\<Sum>j = k - lowbit k..<k. [0, 5 :: nat] ! j)" if "0 < k" "k \<le> 2" for k
  proof -
    have "k = 1 \<or> k = 2" using that by auto
    then show ?thesis using low by (elim disjE) (simp_all add: numeral_2_eq_2)
  qed
  then have "fw_ok \<lparr>ft_tree = [0, 0, 5], ft_size_bits = 1, ft_size = 2, ft_total = 5\<rparr> [0, 5]"
    by (simp add: fw_ok_def)
  then have "kv_counts kv_example [0, 5]" by (simp add: kv_counts_def kv_example_def kv_num_dicts_def)
  moreover have "kv_shape (\<lambda>k. k) kv_example"
    using rehashing_example_ok(1) by (simp add: kv_shape_def kv_example_def kv_num_dicts_def) (simp add: rehashing_example_def)
  ultimately show "kv_ok (\<lambda>k. k) kv_example" by (simp add: kv_ok_def sizes)
  show "kv_small kv_example" by (simp add: kv_small_def kv_example_def rehashing_example_def)
  show "kv_num_dicts kv_example = 2" by (simp add: kv_num_dicts_def kv_example_def)
qed

section \<open>Properties\<close>

text \<open>Property C7: A keyspace behaves as a finite map. Starting from \<open>kvstoreCreate\<close> with any flags, for every
  sequence of insertions, replacements, deletions and lookups, each on the dict its key hashes to, with
  any resizing, rehashing and freeing of dicts in between, no call fails an assertion, the invariant holds,
  and the answers and the final contents over all dicts are those of the map.\<close>

theorem kvstore_run_refines_map:
  assumes "b \<le> 16" "length cs + 1 < 2 ^ 64"
  shows "\<exists>kvs0 kvs rs. kvstoreCreate b od fe can = Ok kvs0 \<and> map_run (kv_step ty slot) kvs0 cs = Ok (kvs, rs)
    \<and> kv_ok (hashFunction ty) kvs \<and> map_spec_run (map snd cs) Map.empty = (kv_map slot kvs, rs)"
proof -
  have "kv_inv ty (length cs + 0) (kvstore_fresh b od fe can)"
    using kvstore_fresh_ok [OF assms(1), of "hashFunction ty" od fe can] assms(2) by (simp add: kv_inv_def kvstore_fresh_count)
  from kvm.run_start [OF this] show ?thesis
    using kvstoreCreate_fresh [OF assms(1)] unfolding kv_inv_def by blast
qed

theorem kvstore_run_refines_map_witness:
  "\<exists>kvs0 kvs rs. kvstoreCreate 1 True True None = Ok kvs0
    \<and> map_run (kv_step kv_example_type unat) kvs0
        [(\<lparr>kenv_acts = [], kenv_can_resize = DICT_RESIZE_ENABLE, kenv_uninit = 0 :: nat\<rparr>, Map_add 3 (30 :: nat)),
         (\<lparr>kenv_acts = [Kv_try_resize 4, Kv_dict 1 (Tick_rehash 1)], kenv_can_resize = DICT_RESIZE_AVOID, kenv_uninit = 0 :: nat\<rparr>, Map_delete 3)]
      = Ok (kvs, rs)
    \<and> kv_ok (hashFunction kv_example_type) kvs
    \<and> map_spec_run (map snd
        [(\<lparr>kenv_acts = [], kenv_can_resize = DICT_RESIZE_ENABLE, kenv_uninit = 0 :: nat\<rparr>, Map_add 3 (30 :: nat)),
         (\<lparr>kenv_acts = [Kv_try_resize 4, Kv_dict 1 (Tick_rehash 1)], kenv_can_resize = DICT_RESIZE_AVOID, kenv_uninit = 0 :: nat\<rparr>, Map_delete 3)])
        Map.empty = (kv_map unat kvs, rs)"
  by (rule kvstore_run_refines_map) simp_all

text \<open>Property C8: A scan over the keyspace misses no key: whatever happens to the keyspace between its calls,
  once the cursor is back at 0 every key that was there at each of the calls has been emitted, and only keys
  the keyspace held were. The tables have at most \<open>2 ^ 48\<close> buckets, the bits the cursor has for them.\<close>

theorem kvstoreScan_complete:
  assumes "\<forall>kvs \<in> set ks. kv_ok hash kvs \<and> kv_small kvs \<and> kv_num_dicts_bits kvs = b" "ks \<noteq> []"
  shows "\<exists>es c. kv_scan_run ks 0 = Ok (es, c) \<and> set es \<subseteq> (\<Union>kvs \<in> set ks. kv_entries kvs)
    \<and> (c = 0 \<longrightarrow> (\<forall>k. (\<forall>kvs \<in> set ks. kv_map slot kvs k \<noteq> None) \<longrightarrow> k \<in> fst ` set es))"
proof -
  obtain es c where s: "kv_scan_run ks 0 = Ok (es, c)" "set es \<subseteq> (\<Union>kvs \<in> set ks. kv_entries kvs)"
    "\<forall>i k. ks \<noteq> [] \<and> i < 2 ^ b \<and> (\<forall>kvs \<in> set ks. kv_dict_map kvs i k \<noteq> None \<and> kv_ahead kvs 0 i (scan_pos (hash k))) \<longrightarrow>
          k \<in> fst ` set es \<or> c \<noteq> 0"
    using kv_scan_run_progress [OF assms(1), of 0] by blast
  have "k \<in> fst ` set es" if "c = 0" and k: "\<forall>kvs \<in> set ks. kv_map slot kvs k \<noteq> None" for k
  proof -
    have "\<forall>kvs \<in> set ks. kv_dict_map kvs (slot k mod 2 ^ b) k \<noteq> None"
      using k assms(1) by (simp add: kv_map_def kv_slot_def kv_num_dicts_def)
    moreover have "kv_ahead kvs 0 i p" for kvs i p by (cases "i = 0") (simp_all add: kv_ahead_def scan_pos_0)
    ultimately show ?thesis using s(3) assms(2) that(1) by (metis mod_less_divisor zero_less_numeral zero_less_power)
  qed
  then show ?thesis using s(1,2) by blast
qed

theorem kvstoreScan_complete_witness:
  "\<exists>es c. kv_scan_run [kv_example, kv_example] 0 = Ok (es, c) \<and> set es \<subseteq> (\<Union>kvs \<in> set [kv_example, kv_example]. kv_entries kvs)
    \<and> (c = 0 \<longrightarrow> (\<forall>k. (\<forall>kvs \<in> set [kv_example, kv_example]. kv_map (\<lambda>k. 1) kvs k \<noteq> None) \<longrightarrow> k \<in> fst ` set es))"
  by (rule kvstoreScan_complete [of _ "\<lambda>k. k" 1]) (simp_all add: kv_example_ok, simp add: kv_example_def)

text \<open>Property C9: In every reachable keyspace, also one that dicts have moved out of or into, \<open>kvstoreSize\<close> is the
  number of keys in all dicts and \<open>kvstoreNumAllocatedDicts\<close> the number of dicts that exist;
  \<open>kvstoreNumNonEmptyDicts\<close> is the number of dicts with keys as long as no dict has moved since the keyspace was
  created or last emptied (\<open>e\<close> is 0 then), and every move of a dict shifts it by a fixed amount: the side a
  dict leaves counts one too many (one too few for a dict without keys), the side it comes to one too few
  (none for a dict of one key).\<close>

theorem kv_reachable_counts:
  assumes "kv_reachable ty b e kvs"
  shows "kvstoreSize kvs = (\<Sum>i < 2 ^ b. card (dom (kv_dict_map kvs i)))
    \<and> kvstoreNumNonEmptyDicts kvs = int (card {i. i < 2 ^ b \<and> kv_dict_map kvs i \<noteq> Map.empty}) + e
    \<and> kvstoreNumAllocatedDicts kvs = int (card {i. i < 2 ^ b \<and> kv_dicts kvs ! i \<noteq> None})"
  using kv_reachable_ok [OF assms] kv_counts_right [of "hashFunction ty" "kv_drift (- e) kvs"]
  by (simp add: kv_ok_upto_def kv_num_dicts_def kvstoreNumNonEmptyDicts_def kvstoreNumAllocatedDicts_def)

text \<open>A keyspace with one key, and what is left of it when its only non-empty dict has moved away.\<close>

lemma kv_reachable_fresh: "kv_reachable ty 1 0 (kvstore_fresh 1 True True None)"
  by (rule kv_reachable.created [OF kvstoreCreate_fresh]) simp

lemma kv_reachable_example:
  "\<exists>kvs. kv_reachable kv_example_type 1 0 kvs \<and> kv_dict_map kvs 1 = [3 \<mapsto> 30 :: nat] \<and> kvstoreSize kvs = 1"
proof -
  define f :: "(64 word, nat) kvstore" where "f = kvstore_fresh 1 True True None"
  have ok: "kv_ok (hashFunction kv_example_type) f" unfolding f_def by (rule kvstore_fresh_ok) simp
  have num: "kv_num_dicts f = 2" "kv_key_count f = 0" by (simp_all add: kv_num_dicts_def kvstore_fresh_def f_def)
  have none: "kv_dict_map f 1 = Map.empty" unfolding f_def by (rule kvstore_fresh_map) simp
  obtain kvs r m where c: "kv_call kv_example_type DICT_RESIZE_ENABLE 0 1 (Map_add 3 30) f = Ok (kvs, r)"
    "kv_ok (hashFunction kv_example_type) kvs" "kv_effect f kvs 1 m" "map_spec (Map_add 3 30) (kv_dict_map f 1) = (m, r)"
    using kv_call_ok [OF ok, of 1] num by fastforce
  have "kv_reachable kv_example_type 1 0 f" unfolding f_def by (rule kv_reachable_fresh)
  then have "kv_reachable kv_example_type 1 0 kvs"
    by (rule kv_reachable.called [OF _ _ _ c(1)]) (simp_all add: kvstoreSize_def num)
  moreover have m: "kv_dict_map kvs 1 = [3 \<mapsto> 30]" "m = [3 \<mapsto> 30]" using c(3,4) none by (simp_all add: kv_effect_def)
  moreover have "kv_key_count kvs = 1" using kv_effect_count [OF ok c(2,3)] num none m by simp
  ultimately show ?thesis by (auto simp: kvstoreSize_def)
qed

lemma kv_reachable_moved_example: "\<exists>kvs :: (64 word, nat) kvstore. kv_reachable kv_example_type 1 1 kvs \<and> kv_dict_map kvs 1 = Map.empty"
proof -
  define f :: "(64 word, nat) kvstore" where "f = kvstore_fresh 1 True True None"
  have f: "kv_reachable kv_example_type 1 0 f" unfolding f_def by (rule kv_reachable_fresh)
  have fd: "kv_dicts f ! 1 = None" "kvstoreSize f = 0" by (simp_all add: f_def kvstore_fresh_def kvstoreSize_def)
  obtain kvs :: "(64 word, nat) kvstore" where kvs: "kv_reachable kv_example_type 1 0 kvs" "kv_dict_map kvs 1 = [3 \<mapsto> 30]" "kvstoreSize kvs = 1"
    using kv_reachable_example by blast
  have ok: "kv_ok (hashFunction kv_example_type) kvs" "kv_ok (hashFunction kv_example_type) f"
    "kv_num_dicts_bits kvs = kv_num_dicts_bits f" "kv_num_dicts kvs = 2"
    using kv_reachable_ok [OF kvs(1)] kv_reachable_ok [OF f] by (simp_all add: kv_ok_upto_def kv_num_dicts_def)
  have "kv_dict_map kvs 1 3 = Some 30" using kvs(2) by simp
  then obtain d where d1: "kv_dicts kvs ! 1 = Some d" by (auto simp: kv_dict_map_def split: option.splits)
  then have d: "kv_dicts kvs ! 1 = Some d" "dict_map d = [3 \<mapsto> 30]" using kvs(2) by (simp_all add: kv_dict_map_def)
  have shape: "kv_shape (hashFunction kv_example_type) kvs" using ok(1) by (simp add: kv_ok_def)
  have n: "dictSize d = 1" using dictSize_card kv_shape_dict [OF shape _ d(1)] ok(4) d(2) by fastforce
  have "kvstoreDictSize kvs 1 = Ok 1"
    using d(1) n shape ok(4) by (simp add: kvstoreDictSize_def kv_shape_def)
  moreover obtain kvs' dst' where m: "kvstoreMoveDict kvs f 1 = Ok (kvs', dst')" "kv_effect kvs kvs' 1 Map.empty"
    using kvstoreMoveDict_ok [OF ok(1-3) _ d(1) fd(1)] ok(4) n kvs(3) fd(2) by auto
  ultimately have "kv_reachable kv_example_type 1 (0 + (if kv_dicts kvs ! 1 = None then 0 else move_out_drift 1)) kvs'"
    using kvs(3) fd(2) by (intro kv_reachable.moved_out [OF kvs(1) f _ _ _ m(1)]) simp_all
  then show ?thesis using d(1) m(2) by (auto simp: move_out_drift_def kv_effect_def)
qed

theorem kv_reachable_counts_witness:
  "(\<exists>kvs. kv_reachable kv_example_type 1 0 kvs \<and> kv_dict_map kvs 1 = [3 \<mapsto> 30 :: nat]
      \<and> kvstoreSize kvs = (\<Sum>i < 2 ^ 1. card (dom (kv_dict_map kvs i)))
      \<and> kvstoreNumNonEmptyDicts kvs = int (card {i. i < 2 ^ 1 \<and> kv_dict_map kvs i \<noteq> Map.empty}) + 0
      \<and> kvstoreNumAllocatedDicts kvs = int (card {i. i < 2 ^ 1 \<and> kv_dicts kvs ! i \<noteq> None}))
   \<and> (\<exists>kvs :: (64 word, nat) kvstore. kv_reachable kv_example_type 1 1 kvs \<and> kv_dict_map kvs 1 = Map.empty
      \<and> kvstoreNumNonEmptyDicts kvs = int (card {i. i < 2 ^ 1 \<and> kv_dict_map kvs i \<noteq> Map.empty}) + 1)"
  using kv_reachable_example kv_reachable_moved_example kv_reachable_counts by blast

text \<open>Property C19: \<open>kvstoreFindDictIndexByKeyIndex\<close> selects each dict for as many key indexes as it has keys.\<close>

theorem kvstoreFindDictIndex_fair:
  assumes ok: "kv_ok hash kvs" and i: "i < kv_num_dicts kvs" and many: "kv_num_dicts kvs \<noteq> 1"
  shows "card {t. 1 \<le> t \<and> t \<le> kvstoreSize kvs \<and> kvstoreFindDictIndexByKeyIndex kvs t = Ok i} = card (dom (kv_dict_map kvs i))"
proof -
  obtain ft where ft: "kv_dict_sizes kvs = Some ft" "fw_ok ft (kv_sizes kvs)" "length (kv_sizes kvs) = kv_num_dicts kvs"
    using kv_fenwick [OF ok many] by blast
  let ?a = "kv_sizes kvs"
  have sz: "kvstoreSize kvs = sum_list ?a" by (simp add: kvstoreSize_def kv_key_count_sizes [OF ok])
  have pick: "kvstoreFindDictIndexByKeyIndex kvs t = Ok i \<longleftrightarrow> sum_list (take i ?a) < t \<and> t \<le> sum_list (take (i + 1) ?a)"
    if t: "1 \<le> t" "t \<le> sum_list ?a" for t
  proof -
    obtain j where j: "fwTreeFindIndex ft t = Ok j" "sum_list (take j ?a) < t" "t \<le> sum_list (take (j + 1) ?a)"
      using fw.find_spec [OF ft(2), of t] t by auto
    have "kvstoreSize kvs \<noteq> 0" "t \<le> kvstoreSize kvs" using t unfolding sz by linarith+
    then have "kvstoreFindDictIndexByKeyIndex kvs t = Ok j"
      using many ft(1) j(1) by (simp add: kvstoreFindDictIndexByKeyIndex_def)
    moreover have "j = i" if "sum_list (take i ?a) < t" "t \<le> sum_list (take (i + 1) ?a)"
      using that j(2,3) sum_list_take_mono [of "i + 1" j ?a] sum_list_take_mono [of "j + 1" i ?a] by (cases i j rule: linorder_cases) auto
    ultimately show ?thesis using j(2,3) by auto
  qed
  have "sum_list (take (i + 1) ?a) \<le> sum_list ?a" using sum_list_take_mono [of "i + 1" "max (i + 1) (length ?a)" ?a] by simp
  then have "{t. 1 \<le> t \<and> t \<le> kvstoreSize kvs \<and> kvstoreFindDictIndexByKeyIndex kvs t = Ok i}
      = {sum_list (take i ?a)<..sum_list (take (i + 1) ?a)}"
    using pick sz by auto
  moreover have "sum_list (take (i + 1) ?a) = sum_list (take i ?a) + ?a ! i"
    using i ft(3) by (simp add: take_Suc_conv_app_nth)
  ultimately show ?thesis by (simp add: kv_sizes_card [OF ok i])
qed

theorem kvstoreFindDictIndex_fair_witness:
  "card {t. 1 \<le> t \<and> t \<le> kvstoreSize kv_example \<and> kvstoreFindDictIndexByKeyIndex kv_example t = Ok 1} = card (dom (kv_dict_map kv_example 1))"
  by (rule kvstoreFindDictIndex_fair [OF kv_example_ok(1)]) (simp_all add: kv_example_ok)

text \<open>Starting at \<open>kvstoreGetFirstNonEmptyDictIndex\<close> and stepping with
  \<open>kvstoreGetNextNonEmptyDictIndex\<close> visits exactly the dicts that have keys, in order, and ends with -1.\<close>

theorem kvstore_visits_nonempty:
  assumes ok: "kv_ok hash kvs" and many: "kv_num_dicts kvs \<noteq> 1"
  shows "\<exists>first. kvstoreGetFirstNonEmptyDictIndex kvs = Ok first
    \<and> slot_walk (kvstoreGetNextNonEmptyDictIndex kvs) (kv_num_dicts kvs) first
      = Ok (filter (\<lambda>i. kv_dict_map kvs i \<noteq> Map.empty) [0..<kv_num_dicts kvs])"
proof -
  obtain ft where ft: "kv_dict_sizes kvs = Some ft" "fw_ok ft (kv_sizes kvs)" "sum_list (kv_sizes kvs) + 1 < 2 ^ 64"
    "length (kv_sizes kvs) = kv_num_dicts kvs"
    using kv_fenwick [OF ok many] by blast
  have nz: "nonzero_from 0 (kv_sizes kvs) = filter (\<lambda>i. kv_dict_map kvs i \<noteq> Map.empty) [0..<kv_num_dicts kvs]"
    unfolding nonzero_from_def ft(4)
    by (rule filter_cong) (use kv_sizes_zero [OF ok] in \<open>auto simp only: atLeastLessThan_iff set_upt neq0_conv [symmetric]\<close>)
  have sz: "kvstoreSize kvs = sum_list (kv_sizes kvs)" by (simp add: kvstoreSize_def kv_key_count_sizes [OF ok])
  have step: "kvstoreGetNextNonEmptyDictIndex kvs = fwTreeFindNextNonEmpty ft"
    using many ft(1) by (simp add: kvstoreGetNextNonEmptyDictIndex_def fun_eq_iff)
  show ?thesis
  proof (cases "sum_list (kv_sizes kvs) = 0")
    case True
    then have "\<forall>j < length (kv_sizes kvs). kv_sizes kvs ! j = 0" by simp
    then have "nonzero_from 0 (kv_sizes kvs) = []" using nonzero_from_end [of 0 "kv_sizes kvs"] by blast
    then show ?thesis using True sz nz by (cases "kv_num_dicts kvs") (simp_all add: kvstoreGetFirstNonEmptyDictIndex_def)
  next
    case False
    then obtain k where k: "fwTreeFindIndex ft 1 = Ok k" "k < length (kv_sizes kvs)"
      "nonzero_from 0 (kv_sizes kvs) = k # nonzero_from (Suc k) (kv_sizes kvs)"
      using fw.find_first [OF ft(2)] neq0_conv by blast
    have "kvstoreGetFirstNonEmptyDictIndex kvs = Ok (int k)"
      using False sz many ft(1) k(1) by (simp add: kvstoreGetFirstNonEmptyDictIndex_def fwTreeFindFirstNonEmpty_def)
    moreover have "slot_walk (fwTreeFindNextNonEmpty ft) (kv_num_dicts kvs) (int k) = Ok (nonzero_from 0 (kv_sizes kvs))"
      using fw.walk_from [OF ft(2,3) k(2), of "kv_num_dicts kvs"] ft(4) k(3) by simp
    ultimately show ?thesis unfolding step nz by blast
  qed
qed

theorem kvstore_visits_nonempty_witness:
  "\<exists>first. kvstoreGetFirstNonEmptyDictIndex kv_example = Ok first
    \<and> slot_walk (kvstoreGetNextNonEmptyDictIndex kv_example) (kv_num_dicts kv_example) first
      = Ok (filter (\<lambda>i. kv_dict_map kv_example i \<noteq> Map.empty) [0..<kv_num_dicts kv_example])"
  by (rule kvstore_visits_nonempty [OF kv_example_ok(1)]) (simp add: kv_example_ok(3))

section \<open>Moving a dict\<close>

text \<open>Property C20: \<open>kvstoreMoveDict\<close> moves the keys and the number of keys from one keyspace to the other, but not
  the number of non-empty dicts: it adds the size of the dict while the dict still is in place, so for a dict
  of two or more keys \<open>kvstoreNumNonEmptyDicts\<close> stays what it was on both sides and is wrong afterwards.\<close>

theorem kvstoreMoveDict_counts:
  assumes ok: "kv_ok hash kvs" "kv_ok hash dst" and bits: "kv_num_dicts_bits kvs = kv_num_dicts_bits dst"
    and i: "i < kv_num_dicts kvs" "kv_dicts kvs ! i = Some d" "kv_dicts dst ! i = None"
    and sz: "2 \<le> dictSize d" "kvstoreSize kvs < 2 ^ 63" "kvstoreSize dst + dictSize d < 2 ^ 63"
  shows "\<exists>kvs' dst'. kvstoreMoveDict kvs dst i = Ok (kvs', dst')
    \<and> kv_dict_map kvs' = (kv_dict_map kvs)(i := Map.empty) \<and> kv_dict_map dst' = (kv_dict_map dst)(i := dict_map d)
    \<and> kvstoreSize kvs' = kvstoreSize kvs - dictSize d \<and> kvstoreSize dst' = kvstoreSize dst + dictSize d
    \<and> kvstoreNumNonEmptyDicts kvs' = kvstoreNumNonEmptyDicts kvs \<and> kvstoreNumNonEmptyDicts dst' = kvstoreNumNonEmptyDicts dst"
proof -
  obtain kvs' dst' where m: "kvstoreMoveDict kvs dst i = Ok (kvs', dst')"
    "kv_ok hash (kv_drift (- move_out_drift (dictSize d)) kvs')" "kv_ok hash (kv_drift (- move_in_drift (dictSize d)) dst')"
    "kv_effect kvs kvs' i Map.empty" "kv_effect dst dst' i (dict_map d)"
    "kv_non_empty_dicts kvs' = kv_non_empty_dicts kvs" "kv_non_empty_dicts dst' = kv_non_empty_dicts dst"
    using kvstoreMoveDict_ok [OF ok bits i sz(2,3)] sz(1) by auto
  have i': "i < kv_num_dicts dst" using i(1) bits by (simp add: kv_num_dicts_def)
  have d: "kv_dict_map kvs i = dict_map d" "card (dom (dict_map d)) = dictSize d" "kv_dict_map dst i = Map.empty"
    using i(2,3) dictSize_card kv_shape_dict [OF _ i(1,2)] ok(1) by (fastforce simp: kv_dict_map_def kv_ok_def)+
  have "int (kv_key_count kvs') = int (kv_key_count kvs) - int (dictSize d)" "int (kv_key_count dst') = int (kv_key_count dst) + int (dictSize d)"
    using kv_effect_count [OF ok(1) m(2) _ i(1), of Map.empty] kv_effect_count [OF ok(2) m(3) _ i', of "dict_map d"] m(4,5) d
    by (simp_all add: kv_effect_def)
  then show ?thesis using m by (simp add: kvstoreSize_def kvstoreNumNonEmptyDicts_def kv_effect_def)
qed

theorem kvstoreMoveDict_counts_witness:
  "\<exists>kvs' dst'. kvstoreMoveDict kv_example (kvstore_fresh 1 True True None) 1 = Ok (kvs', dst')
    \<and> kv_dict_map kvs' = (kv_dict_map kv_example)(1 := Map.empty)
    \<and> kv_dict_map dst' = (kv_dict_map (kvstore_fresh 1 True True None))(1 := dict_map rehashing_example)
    \<and> kvstoreSize kvs' = kvstoreSize kv_example - dictSize rehashing_example
    \<and> kvstoreSize dst' = kvstoreSize (kvstore_fresh 1 True True None :: (64 word, nat) kvstore) + dictSize rehashing_example
    \<and> kvstoreNumNonEmptyDicts kvs' = kvstoreNumNonEmptyDicts kv_example
    \<and> kvstoreNumNonEmptyDicts dst' = kvstoreNumNonEmptyDicts (kvstore_fresh 1 True True None :: (64 word, nat) kvstore)"
proof (rule kvstoreMoveDict_counts [OF kv_example_ok(1) kvstore_fresh_ok])
  show "kv_dicts kv_example ! 1 = Some rehashing_example" by (simp add: kv_example_def)
qed (simp_all add: kv_example_ok kvstoreSize_def kvstore_fresh_count, simp_all add: kv_example_def kvstore_fresh_def
    rehashing_example_def dictSize_def)

end
