(* ===== verification/Sds_Args.thy ===== *)
theory Sds_Args
  imports Prelude
begin

text \<open>
  Quoted arguments, \<open>sds.c\<close>: \<open>sdscatrepr\<close> writes a string between quotes with escapes for what is not
  printable, \<open>sdssplitargs\<close> splits a line into arguments and undoes the escapes. A C string is a list of
  bytes; the byte after its end is 0, and a 0 inside ends it.
\<close>

section \<open>The code\<close>

text \<open>\<open>isspace\<close> and \<open>isprint\<close> in the C locale, and the byte at an offset from a position.\<close>

definition c_isspace :: "byte \<Rightarrow> bool" where
  "c_isspace c \<longleftrightarrow> c = 32 \<or> 9 \<le> c \<and> c \<le> 13"

definition c_isprint :: "byte \<Rightarrow> bool" where
  "c_isprint c \<longleftrightarrow> 32 \<le> c \<and> c \<le> 126"

definition peek :: "bytes \<Rightarrow> nat \<Rightarrow> byte" where
  "peek p i = (if i < length p then p ! i else 0)"

definition is_hex_digit :: "byte \<Rightarrow> bool" where
  "is_hex_digit c \<longleftrightarrow> 48 \<le> c \<and> c \<le> 57 \<or> 97 \<le> c \<and> c \<le> 102 \<or> 65 \<le> c \<and> c \<le> 70"

definition hex_digit_to_int :: "byte \<Rightarrow> nat" where
  "hex_digit_to_int c =
     (if 48 \<le> c \<and> c \<le> 57 then unat c - 48
      else if 97 \<le> c \<and> c \<le> 102 then unat c - 87
      else if 65 \<le> c \<and> c \<le> 70 then unat c - 55
      else 0)"

text \<open>\<open>"%02x"\<close> of a byte.\<close>

definition hex_char :: "nat \<Rightarrow> byte" where
  "hex_char n = word_of_nat (if n < 10 then 48 + n else 87 + n)"

definition repr_char :: "byte \<Rightarrow> bytes" where
  "repr_char c =
     (if c = 92 \<or> c = 34 then [92, c]
      else if c = 10 then [92, 110]
      else if c = 13 then [92, 114]
      else if c = 9 then [92, 116]
      else if c = 7 then [92, 97]
      else if c = 8 then [92, 98]
      else if c_isprint c then [c]
      else [92, 120, hex_char (unat c div 16), hex_char (unat c mod 16)])"

fun repr_loop :: "bytes \<Rightarrow> bytes \<Rightarrow> bytes" where
  "repr_loop s [] = s"
| "repr_loop s (c # p) = repr_loop (s @ repr_char c) p"

definition sdscatrepr :: "bytes \<Rightarrow> bytes \<Rightarrow> bytes" where
  "sdscatrepr s p = repr_loop (s @ [34]) p @ [34]"

text \<open>What an escaped character stands for.\<close>

definition unescape :: "byte \<Rightarrow> byte" where
  "unescape c = (if c = 110 then 10 else if c = 114 then 13 else if c = 116 then 9 else if c = 98 then 8
     else if c = 97 then 7 else c)"

text \<open>The loop over a token: the flags \<open>inq\<close> and \<open>insq\<close> are a value of \<open>quoting\<close>. The result is the position
  after the token and the token; \<open>None\<close> is the jump to \<open>err\<close>.\<close>

datatype quoting = Unquoted | Inq | Insq

function split_token :: "quoting \<Rightarrow> bytes \<Rightarrow> bytes \<Rightarrow> (bytes \<times> bytes) option" where
  "split_token q p current =
     (let c = peek p 0; nxt = (if c \<noteq> 0 then drop 1 p else p) in
      case q of
        Inq \<Rightarrow>
          if c = 92 \<and> peek p 1 = 120 \<and> is_hex_digit (peek p 2) \<and> is_hex_digit (peek p 3) then
            split_token Inq (drop 4 p) (current @ [word_of_nat (hex_digit_to_int (peek p 2) * 16 + hex_digit_to_int (peek p 3))])
          else if c = 92 \<and> peek p 1 \<noteq> 0 then split_token Inq (drop 2 p) (current @ [unescape (peek p 1)])
          else if c = 34 then
            if peek p 1 \<noteq> 0 \<and> \<not> c_isspace (peek p 1) then None else Some (nxt, current)
          else if c = 0 then None
          else split_token Inq (drop 1 p) (current @ [c])
      | Insq \<Rightarrow>
          if c = 92 \<and> peek p 1 = 39 then split_token Insq (drop 2 p) (current @ [39])
          else if c = 39 then
            if peek p 1 \<noteq> 0 \<and> \<not> c_isspace (peek p 1) then None else Some (nxt, current)
          else if c = 0 then None
          else split_token Insq (drop 1 p) (current @ [c])
      | Unquoted \<Rightarrow>
          if c = 32 \<or> c = 10 \<or> c = 13 \<or> c = 9 \<or> c = 0 then Some (nxt, current)
          else if c = 34 then split_token Inq (drop 1 p) current
          else if c = 39 then split_token Insq (drop 1 p) current
          else split_token Unquoted (drop 1 p) (current @ [c]))"
  by pat_completeness auto

lemma peek_0_drop: "peek p 0 \<noteq> 0 \<Longrightarrow> 0 < n \<Longrightarrow> length (drop n p) < length p"
  by (cases p) (auto simp: peek_def)

termination split_token
  by (relation "measure (\<lambda>(q, p, current). length p)") (auto simp: peek_def split: if_splits)

declare split_token.simps [simp del]

definition skip_blanks :: "bytes \<Rightarrow> bytes" where
  "skip_blanks p = dropWhile (\<lambda>c. c \<noteq> 0 \<and> c_isspace c) p"

lemma split_token_length: "split_token q p current = Some (rest, t) \<Longrightarrow> length rest \<le> length p"
proof (induction q p current rule: split_token.induct)
  case (1 q p current)
  note pre = "1.prems" [unfolded split_token.simps [of q p current] Let_def]
  show ?case
  proof (cases q)
    case Unquoted
    then show ?thesis using pre "1.IH"(1-3) [OF refl refl Unquoted] by (auto split: if_splits)
  next
    case Inq
    then show ?thesis using pre "1.IH"(4-6) [OF refl refl Inq] by (auto split: if_splits)
  next
    case Insq
    then show ?thesis using pre "1.IH"(7-8) [OF refl refl Insq] by (auto split: if_splits)
  qed
qed

lemma split_token_progress:
  assumes "split_token Unquoted p current = Some (rest, t)" "peek p 0 \<noteq> 0" "\<not> c_isspace (peek p 0)"
  shows "length rest < length p"
proof -
  have "peek p 0 \<notin> {32, 10, 13, 9, 0}" using assms(2,3) by (auto simp: c_isspace_def)
  then obtain q c where "split_token q (drop 1 p) c = Some (rest, t)"
    using assms(1) by (subst (asm) split_token.simps) (auto simp: Let_def split: if_splits)
  then have "length rest \<le> length (drop 1 p)" by (rule split_token_length)
  then show ?thesis using assms(2) by (cases p) (auto simp: peek_def)
qed

lemma skip_blanks_head: "peek (skip_blanks p) 0 \<noteq> 0 \<Longrightarrow> \<not> c_isspace (peek (skip_blanks p) 0)"
proof -
  assume h: "peek (skip_blanks p) 0 \<noteq> 0"
  then have ne: "skip_blanks p \<noteq> []" by (auto simp: peek_def)
  then have "peek (skip_blanks p) 0 = hd (skip_blanks p)" by (simp add: peek_def hd_conv_nth)
  moreover have "\<not> (hd (skip_blanks p) \<noteq> 0 \<and> c_isspace (hd (skip_blanks p)))"
    using ne hd_dropWhile unfolding skip_blanks_def by blast
  ultimately show ?thesis using h by simp
qed

function split_args :: "bytes \<Rightarrow> bytes list \<Rightarrow> bytes list option" where
  "split_args p vector =
     (if peek (skip_blanks p) 0 \<noteq> 0 then
        case split_token Unquoted (skip_blanks p) [] of
          None \<Rightarrow> None
        | Some (rest, current) \<Rightarrow> split_args rest (vector @ [current])
      else Some vector)"
  by pat_completeness auto

termination split_args
proof (relation "measure (\<lambda>(p, vector). length p)")
  fix p vector x rest current
  assume "peek (skip_blanks p) 0 \<noteq> 0" "split_token Unquoted (skip_blanks p) [] = Some x" "(rest, current) = x"
  then have "length rest < length (skip_blanks p)" using split_token_progress skip_blanks_head by blast
  also have "\<dots> \<le> length p" by (simp add: skip_blanks_def length_dropWhile_le)
  finally show "((rest, vector @ [current]), p, vector) \<in> measure (\<lambda>(p, vector). length p)" by simp
qed simp

declare split_args.simps [simp del]

definition sdssplitargs :: "bytes \<Rightarrow> bytes list option" where
  "sdssplitargs line = split_args line []"

section \<open>Splitting undoes quoting\<close>

lemma byte_nibbles: "unat (c :: byte) div 16 < 16" "unat c mod 16 < 16"
  using unat_byte_less [of c] by (simp_all add: less_mult_imp_div_less)

lemma hex_char_digit: "n < 16 \<Longrightarrow> is_hex_digit (hex_char n) \<and> hex_digit_to_int (hex_char n) = n"
  by (auto simp: hex_char_def is_hex_digit_def hex_digit_to_int_def word_le_nat_alt unat_of_nat)

lemma split_repr_char: "split_token Inq (repr_char c @ p) current = split_token Inq p (current @ [c])"
proof (cases "c \<in> {92, 34, 10, 13, 9, 7, 8} \<or> c_isprint c")
  case True
  then show ?thesis
    by (subst split_token.simps) (auto simp: repr_char_def Let_def peek_def unescape_def c_isprint_def)
next
  case False
  let ?h = "hex_char (unat c div 16)" and ?l = "hex_char (unat c mod 16)"
  have r: "repr_char c = [92, 120, ?h, ?l]" using False by (simp add: repr_char_def)
  have d: "is_hex_digit ?h" "hex_digit_to_int ?h = unat c div 16" "is_hex_digit ?l" "hex_digit_to_int ?l = unat c mod 16"
    using hex_char_digit [OF byte_nibbles(1)] hex_char_digit [OF byte_nibbles(2)] by simp_all
  have "word_of_nat (unat c div 16 * 16 + unat c mod 16) = c" by (simp only: div_mult_mod_eq) simp
  then show ?thesis using d unfolding r by (subst split_token.simps) (simp add: Let_def peek_def)
qed

lemma split_repr:
  "rest = [] \<or> c_isspace (hd rest) \<Longrightarrow>
   split_token Inq (concat (map repr_char s) @ 34 # rest) current = Some (rest, current @ s)"
proof (induction s arbitrary: current)
  case Nil
  then show ?case by (subst split_token.simps) (auto simp: Let_def peek_def hd_conv_nth)
qed (simp add: split_repr_char)

lemma sdscatrepr_eq: "sdscatrepr s p = s @ 34 # concat (map repr_char p) @ [34]"
proof -
  have "repr_loop s p = s @ concat (map repr_char p)" for s by (induction p arbitrary: s) simp_all
  then show ?thesis by (simp add: sdscatrepr_def)
qed

lemma split_quoted:
  assumes "rest = [] \<or> c_isspace (hd rest)"
  shows "split_token Unquoted (sdscatrepr [] s @ rest) [] = Some (rest, s)"
  using split_repr [OF assms, of s "[]"]
  by (subst split_token.simps) (simp add: sdscatrepr_eq Let_def peek_def)

text \<open>A line of quoted arguments.\<close>

fun quoted_line :: "bytes list \<Rightarrow> bytes" where
  "quoted_line [] = []"
| "quoted_line [a] = sdscatrepr [] a"
| "quoted_line (a # as) = sdscatrepr [] a @ 32 # quoted_line as"

lemma skip_quoted: "skip_blanks (sdscatrepr [] a @ p) = sdscatrepr [] a @ p"
  by (simp add: skip_blanks_def sdscatrepr_eq c_isspace_def)

lemma split_args_quoted:
  "p = quoted_line as \<or> p = 32 # quoted_line as \<Longrightarrow> split_args p vector = Some (vector @ as)"
proof (induction as arbitrary: p vector rule: quoted_line.induct)
  case 1
  then show ?case by (subst split_args.simps) (auto simp: skip_blanks_def peek_def c_isspace_def)
next
  case (2 a)
  have "skip_blanks p = sdscatrepr [] a @ []" using 2 skip_quoted [of a "[]"] by (auto simp: skip_blanks_def c_isspace_def)
  moreover have "split_args [] v = Some v" for v by (subst split_args.simps) (simp add: skip_blanks_def peek_def)
  moreover have "peek (sdscatrepr [] a @ []) 0 \<noteq> 0" by (simp add: sdscatrepr_eq peek_def)
  ultimately show ?case using split_quoted [of "[]" a] by (subst split_args.simps) simp
next
  case (3 a b as)
  let ?r = "32 # quoted_line (b # as)"
  have "skip_blanks p = sdscatrepr [] a @ ?r" using 3(2) skip_quoted [of a ?r] by (auto simp: skip_blanks_def c_isspace_def)
  moreover have "peek (sdscatrepr [] a @ ?r) 0 \<noteq> 0" by (simp add: sdscatrepr_eq peek_def)
  moreover have "split_token Unquoted (sdscatrepr [] a @ ?r) [] = Some (?r, a)" by (rule split_quoted) (simp add: c_isspace_def)
  ultimately show ?case using 3(1) [of ?r "vector @ [a]"] by (subst split_args.simps) simp
qed

lemma repr_char_clean: "x \<in> set (repr_char c) \<Longrightarrow> x \<noteq> 0 \<and> x \<noteq> 10 \<and> x \<noteq> 13"
proof -
  have "hex_char n \<notin> {0, 10, 13}" if "n < 16" for n
    using hex_char_digit [OF that] by (auto simp: is_hex_digit_def)
  then have "hex_char (unat c div 16) \<notin> {0, 10, 13}" "hex_char (unat c mod 16) \<notin> {0, 10, 13}"
    using byte_nibbles by blast+
  then show "x \<in> set (repr_char c) \<Longrightarrow> x \<noteq> 0 \<and> x \<noteq> 10 \<and> x \<noteq> 13"
    by (auto simp: repr_char_def c_isprint_def split: if_splits)
qed

lemma quoted_line_clean: "x \<in> set (quoted_line as) \<Longrightarrow> x \<noteq> 0 \<and> x \<noteq> 10 \<and> x \<noteq> 13"
  by (induction as rule: quoted_line.induct) (auto simp: sdscatrepr_eq dest: repr_char_clean)

text \<open>Property C35: Quoting and splitting are inverse: a line of arguments written by \<open>sdscatrepr\<close> and separated by
  blanks is split by \<open>sdssplitargs\<close> into exactly these arguments, whatever bytes they hold.\<close>

theorem sdssplitargs_sdscatrepr: "sdssplitargs (quoted_line as) = Some as"
  using split_args_quoted [of "quoted_line as" as "[]"] by (simp add: sdssplitargs_def)

end
