(* ===== verification/Resp.thy ===== *)
theory Resp
  imports Sds_Args Numbers
begin

text \<open>
  The request parser of \<open>networking.c\<close>: \<open>readQueryFromClient\<close> appends what the socket delivered to the query
  buffer, \<open>processInputBuffer\<close> turns the buffer into commands, in the multibulk format of RESP or as inline
  lines, over any number of reads. Executing a command is outside the model: the commands executed are
  recorded in order. Left out are the state of blocked clients, the replication stream of a master,
  I/O threads and the reuse of buffers.
\<close>

section \<open>State\<close>

datatype read_error =
    CLIENT_READ_TOO_BIG_INLINE_REQUEST
  | CLIENT_READ_TOO_BIG_MBULK_COUNT_STRING
  | CLIENT_READ_TOO_BIG_BUCK_COUNT_STRING
  | CLIENT_READ_EXPECTED_DOLLAR
  | CLIENT_READ_INVALID_BUCK_LENGTH
  | CLIENT_READ_UNAUTH_BUCK_LENGTH
  | CLIENT_READ_UNAUTH_MBUCK_COUNT
  | CLIENT_READ_INVALID_MULTIBUCK_LENGTH
  | CLIENT_READ_UNBALANCED_QUOTES
  | CLIENT_READ_MASTER_USING_INLINE_PROTOCAL
  | CLIENT_READ_REACHED_MAX_QUERYBUF

datatype reqtype = PROTO_REQ_INLINE | PROTO_REQ_MULTIBULK

text \<open>\<open>argc\<close> is the length of \<open>pc_argv\<close>; \<open>pc_argv_len\<close> is the allocated size of the array.\<close>

record pendingCommand =
  pc_argv :: "bytes list"
  pc_argv_len :: nat
  pc_argv_len_sum :: nat
  pc_input_bytes :: nat
  pc_read_error :: "read_error option"
  pc_incomplete :: bool

record client =
  cl_querybuf :: bytes
  cl_qb_pos :: nat
  cl_reqtype :: "reqtype option"
  cl_multibulklen :: nat
  cl_bulklen :: int
  cl_pending :: "pendingCommand list"
  cl_all_argv_len_sum :: nat
  cl_read_error :: "read_error option"
  cl_closing :: bool
  cl_executed :: "bytes list list"

text \<open>What the parser reads of the server and of the client's flags; \<open>cf_pooled\<close> is the size of the array of
  a recycled command.\<close>

record conf =
  cf_master :: bool
  cf_auth_required :: bool
  cf_proto_max_bulk_len :: int
  cf_lookahead :: nat
  cf_client_max_querybuf_len :: nat
  cf_pooled :: nat

definition PROTO_INLINE_MAX_SIZE :: nat where "PROTO_INLINE_MAX_SIZE = 65536"
definition PROTO_MBULK_BIG_ARG :: int where "PROTO_MBULK_BIG_ARG = 32768"
definition INT_MAX :: nat where "INT_MAX = 2147483647"

definition acquirePendingCommand :: "conf \<Rightarrow> pendingCommand" where
  "acquirePendingCommand cf =
     \<lparr>pc_argv = [], pc_argv_len = cf_pooled cf, pc_argv_len_sum = 0, pc_input_bytes = 0, pc_read_error = None,
      pc_incomplete = False\<rparr>"

definition createClient :: client where
  "createClient =
     \<lparr>cl_querybuf = [], cl_qb_pos = 0, cl_reqtype = None, cl_multibulklen = 0, cl_bulklen = - 1, cl_pending = [],
      cl_all_argv_len_sum = 0, cl_read_error = None, cl_closing = False, cl_executed = []\<rparr>"

definition ready_len :: "client \<Rightarrow> nat" where
  "ready_len c = length (filter (\<lambda>p. \<not> pc_incomplete p) (cl_pending c))"

text \<open>\<open>strchr\<close> from a position of the buffer stops at a 0 byte, \<open>memchr\<close> does not.\<close>

definition strchr :: "bytes \<Rightarrow> nat \<Rightarrow> byte \<Rightarrow> nat option" where
  "strchr s pos b =
     (let i = pos + length (takeWhile (\<lambda>c. c \<noteq> b \<and> c \<noteq> 0) (drop pos s)) in
      if i < length s \<and> s ! i = b then Some i else None)"

definition memchr :: "bytes \<Rightarrow> nat \<Rightarrow> byte \<Rightarrow> nat option" where
  "memchr s pos b =
     (let i = pos + length (takeWhile (\<lambda>c. c \<noteq> b) (drop pos s)) in if i < length s then Some i else None)"

definition pc_fail :: "read_error \<Rightarrow> pendingCommand \<Rightarrow> pendingCommand" where
  "pc_fail e pcmd = pcmd\<lparr>pc_read_error := Some e\<rparr>"

section \<open>Inline requests\<close>

text \<open>The result is the client, the command and whether \<open>C_OK\<close> is returned.\<close>

definition processInlineBuffer :: "conf \<Rightarrow> client \<Rightarrow> pendingCommand \<Rightarrow> client \<times> pendingCommand \<times> bool" where
  "processInlineBuffer cf c pcmd =
     (let q = cl_querybuf c; pos = cl_qb_pos c in
      case strchr q pos 10 of
        None \<Rightarrow>
          (c, if length q - pos > PROTO_INLINE_MAX_SIZE then pc_fail CLIENT_READ_TOO_BIG_INLINE_REQUEST pcmd else pcmd, False)
      | Some newline \<Rightarrow>
          let crlf = (newline \<noteq> pos \<and> q ! (newline - 1) = 13);
              newline = (if crlf then newline - 1 else newline);
              linefeed_chars = (if crlf then 2 else 1);
              querylen = newline - pos in
          case sdssplitargs (take querylen (drop pos q)) of
            None \<Rightarrow> (c, pc_fail CLIENT_READ_UNBALANCED_QUOTES pcmd, False)
          | Some argv \<Rightarrow>
              if querylen \<noteq> 0 \<and> cf_master cf then (c, pc_fail CLIENT_READ_MASTER_USING_INLINE_PROTOCAL pcmd, False)
              else
                let grow = (argv \<noteq> [] \<and> length argv > pc_argv_len pcmd);
                    bytes = sum_list (map length argv);
                    total = (if grow then 0 else pc_argv_len_sum pcmd) + bytes in
                (c\<lparr>cl_qb_pos := pos + querylen + linefeed_chars, cl_all_argv_len_sum := cl_all_argv_len_sum c + bytes\<rparr>,
                 pcmd\<lparr>pc_argv := argv, pc_argv_len := (if grow then length argv else pc_argv_len pcmd),
                      pc_argv_len_sum := total, pc_input_bytes := total + length argv + 1\<rparr>,
                 True))"

section \<open>Multibulk requests\<close>

text \<open>The count of arguments. The last component is what the function returns, or \<open>None\<close> to go on with the
  arguments.\<close>

definition multibulk_count ::
  "conf \<Rightarrow> client \<Rightarrow> pendingCommand \<Rightarrow> (client \<times> pendingCommand \<times> bool option) outcome" where
  "multibulk_count cf c pcmd =
     (let q = cl_querybuf c; pos = cl_qb_pos c in
      c_assert (pc_argv pcmd = [])
        (case strchr q pos 13 of
           None \<Rightarrow>
             Ok (c, if length q - pos > PROTO_INLINE_MAX_SIZE then pc_fail CLIENT_READ_TOO_BIG_MBULK_COUNT_STRING pcmd else pcmd,
                 Some False)
         | Some newline \<Rightarrow>
             if int newline - int pos > int (length q) - int pos - 2 then Ok (c, pcmd, Some False)
             else
               c_assert (q ! pos = 42)
                 (let multibulklen_slen = newline - (pos + 1) in
                  case string2ll (take multibulklen_slen (drop (pos + 1) q)) of
                    None \<Rightarrow> Ok (c, pc_fail CLIENT_READ_INVALID_MULTIBUCK_LENGTH pcmd, Some False)
                  | Some ll \<Rightarrow>
                      if ll > int INT_MAX then Ok (c, pc_fail CLIENT_READ_INVALID_MULTIBUCK_LENGTH pcmd, Some False)
                      else if ll > 10 \<and> cf_auth_required cf then
                        Ok (c, pc_fail CLIENT_READ_UNAUTH_MBUCK_COUNT pcmd, Some False)
                      else
                        let c = c\<lparr>cl_qb_pos := newline + 2\<rparr> in
                        if ll \<le> 0 then Ok (c, pcmd, Some True)
                        else
                          let n = nat ll;
                              pcmd = (if n > pc_argv_len pcmd then pcmd\<lparr>pc_argv_len := min n 1024, pc_argv_len_sum := 0\<rparr> else pcmd) in
                          Ok (c\<lparr>cl_multibulklen := n, cl_bulklen := - 1\<rparr>,
                              pcmd\<lparr>pc_input_bytes := pc_input_bytes pcmd + multibulklen_slen + 3\<rparr>, None))))"

text \<open>The length of the next argument, unless it is known already.\<close>

datatype bulk_next = Bulk_go | Bulk_break | Bulk_error

definition bulk_length ::
  "conf \<Rightarrow> client \<Rightarrow> pendingCommand \<Rightarrow> (client \<times> pendingCommand \<times> bulk_next) outcome" where
  "bulk_length cf c pcmd =
     (if cl_bulklen c \<noteq> - 1 then c_assert (pc_incomplete pcmd) (Ok (c, pcmd, Bulk_go))
      else
        let q = cl_querybuf c; pos = cl_qb_pos c in
        case memchr q pos 13 of
          None \<Rightarrow>
            if length q - pos > PROTO_INLINE_MAX_SIZE then Ok (c, pc_fail CLIENT_READ_TOO_BIG_BUCK_COUNT_STRING pcmd, Bulk_error)
            else Ok (c, pcmd, Bulk_break)
        | Some newline \<Rightarrow>
            if int newline - int pos > int (length q) - int pos - 2 then Ok (c, pcmd, Bulk_break)
            else if q ! pos \<noteq> 36 then Ok (c, pc_fail CLIENT_READ_EXPECTED_DOLLAR pcmd, Bulk_error)
            else
              let bulklen_slen = newline - (pos + 1) in
              case string2ll (take bulklen_slen (drop (pos + 1) q)) of
                None \<Rightarrow> Ok (c, pc_fail CLIENT_READ_INVALID_BUCK_LENGTH pcmd, Bulk_error)
              | Some ll \<Rightarrow>
                  if ll < 0 \<or> \<not> cf_master cf \<and> ll > cf_proto_max_bulk_len cf then
                    Ok (c, pc_fail CLIENT_READ_INVALID_BUCK_LENGTH pcmd, Bulk_error)
                  else if ll > 16384 \<and> cf_auth_required cf then
                    Ok (c, pc_fail CLIENT_READ_UNAUTH_BUCK_LENGTH pcmd, Bulk_error)
                  else
                    let pos = newline + 2;
                        trim = (\<not> cf_master cf \<and> ll \<ge> PROTO_MBULK_BIG_ARG \<and> int (length q - pos) \<le> ll + 2);
                        c = (if trim then c\<lparr>cl_querybuf := drop pos q, cl_qb_pos := 0\<rparr> else c\<lparr>cl_qb_pos := pos\<rparr>) in
                    Ok (c\<lparr>cl_bulklen := ll\<rparr>, pcmd\<lparr>pc_input_bytes := pc_input_bytes pcmd + bulklen_slen + 3\<rparr>, Bulk_go))"

text \<open>The argument itself, taken over with the whole buffer when the buffer holds nothing else; false when it
  is not there yet. The comparison with \<open>(size_t)(c->bulklen+2)\<close> is one of integers because the length is not
  negative, which is asserted here.\<close>

definition bulk_argument ::
  "conf \<Rightarrow> client \<Rightarrow> pendingCommand \<Rightarrow> (client \<times> pendingCommand \<times> bool) outcome" where
  "bulk_argument cf c pcmd =
     (let q = cl_querybuf c; pos = cl_qb_pos c; len = nat (cl_bulklen c) in
      c_assert (0 \<le> cl_bulklen c)
      (if length q - pos < len + 2 then Ok (c, pcmd, False)
       else
         (let argc = length (pc_argv pcmd);
               pcmd =
                 (if argc \<ge> pc_argv_len pcmd then
                    pcmd\<lparr>pc_argv_len := min (if pc_argv_len pcmd < INT_MAX div 2 then pc_argv_len pcmd * 2 else INT_MAX)
                                         (argc + cl_multibulklen c)\<rparr>
                  else pcmd) in
           c_assert (argc < pc_argv_len pcmd)
             (let whole = (\<not> cf_master cf \<and> pos = 0 \<and> cl_bulklen c \<ge> PROTO_MBULK_BIG_ARG \<and> length q = len + 2);
                  arg = (if whole then take (length q - 2) q else take len (drop pos q));
                  c = (if whole then c\<lparr>cl_querybuf := []\<rparr> else c\<lparr>cl_qb_pos := pos + len + 2\<rparr>) in
              Ok (c\<lparr>cl_all_argv_len_sum := cl_all_argv_len_sum c + len, cl_bulklen := - 1,
                    cl_multibulklen := cl_multibulklen c - 1\<rparr>,
                  pcmd\<lparr>pc_argv := pc_argv pcmd @ [arg], pc_argv_len_sum := pc_argv_len_sum pcmd + len\<rparr>, True)))))"

text \<open>The loop over the remaining arguments; a \<open>break\<close> leaves the command incomplete.\<close>

fun multibulk_loop ::
  "conf \<Rightarrow> nat \<Rightarrow> client \<Rightarrow> pendingCommand \<Rightarrow> (client \<times> pendingCommand \<times> bool) outcome" where
  "multibulk_loop cf 0 c pcmd =
     Ok (c, pcmd\<lparr>pc_input_bytes := pc_input_bytes pcmd + pc_argv_len_sum pcmd + length (pc_argv pcmd) * 2, pc_incomplete := False\<rparr>,
         True)"
| "multibulk_loop cf (Suc n) c pcmd =
     bind_outcome (bulk_length cf c pcmd) (\<lambda>(c, pcmd, r).
     case r of
       Bulk_error \<Rightarrow> Ok (c, pcmd, False)
     | Bulk_break \<Rightarrow> Ok (c, pcmd\<lparr>pc_incomplete := True\<rparr>, True)
     | Bulk_go \<Rightarrow>
         bind_outcome (bulk_argument cf c pcmd) (\<lambda>(c, pcmd, taken).
         if taken then multibulk_loop cf n c pcmd else Ok (c, pcmd\<lparr>pc_incomplete := True\<rparr>, True)))"

definition processMultibulkBuffer ::
  "conf \<Rightarrow> client \<Rightarrow> pendingCommand \<Rightarrow> (client \<times> pendingCommand \<times> bool) outcome" where
  "processMultibulkBuffer cf c pcmd =
     bind_outcome (if cl_multibulklen c = 0 then multibulk_count cf c pcmd else Ok (c, pcmd, None)) (\<lambda>(c, pcmd, r).
     case r of
       Some ok \<Rightarrow> Ok (c, pcmd, ok)
     | None \<Rightarrow> c_assert (0 < cl_multibulklen c) (multibulk_loop cf (cl_multibulklen c) c pcmd))"

section \<open>The input buffer\<close>

definition resetClientQbufState :: "client \<Rightarrow> client" where
  "resetClientQbufState c = c\<lparr>cl_reqtype := None, cl_multibulklen := 0, cl_bulklen := - 1\<rparr>"

definition addPendingCommand :: "client \<Rightarrow> pendingCommand \<Rightarrow> client" where
  "addPendingCommand c pcmd = c\<lparr>cl_pending := cl_pending c @ [pcmd]\<rparr>"

definition freePendingCommand :: "client \<Rightarrow> pendingCommand \<Rightarrow> client outcome" where
  "freePendingCommand c pcmd =
     c_assert (cl_all_argv_len_sum c \<ge> pc_argv_len_sum pcmd)
       (Ok (c\<lparr>cl_all_argv_len_sum := cl_all_argv_len_sum c - pc_argv_len_sum pcmd\<rparr>))"

text \<open>One round of the parsing loop; false when it breaks.\<close>

definition parse_command :: "conf \<Rightarrow> client \<Rightarrow> (client \<times> bool) outcome" where
  "parse_command cf c =
     (let c = (case cl_reqtype c of
                 None \<Rightarrow>
                   c\<lparr>cl_reqtype := Some (if cl_querybuf c ! cl_qb_pos c = 42 then PROTO_REQ_MULTIBULK else PROTO_REQ_INLINE)\<rparr>
               | Some t \<Rightarrow> c) in
      bind_outcome
        (if cl_reqtype c = Some PROTO_REQ_INLINE then Ok (processInlineBuffer cf c (acquirePendingCommand cf))
         else if length (cl_pending c) \<noteq> ready_len c then
           processMultibulkBuffer cf (c\<lparr>cl_pending := butlast (cl_pending c)\<rparr>) (last (cl_pending c))
         else processMultibulkBuffer cf c (acquirePendingCommand cf)) (\<lambda>(c, pcmd, ok).
      if \<not> ok \<and> pc_read_error pcmd = None then bind_outcome (freePendingCommand c pcmd) (\<lambda>c. Ok (c, False))
      else
        let c = addPendingCommand c pcmd in
        if pc_read_error pcmd \<noteq> None \<or> pc_incomplete pcmd then Ok (c, False)
        else Ok (resetClientQbufState c, True)))"

text \<open>The parsing loop for at most \<open>n\<close> commands.\<close>

fun parse_commands :: "conf \<Rightarrow> nat \<Rightarrow> client \<Rightarrow> client outcome" where
  "parse_commands cf 0 c = Ok c"
| "parse_commands cf (Suc n) c =
     (if cl_qb_pos c < length (cl_querybuf c) then
        bind_outcome (parse_command cf c) (\<lambda>(c, more). if more then parse_commands cf n c else Ok c)
      else Ok c)"

text \<open>The command at the head of the list is executed (a command without arguments is not) and freed.\<close>

definition execute_head :: "client \<Rightarrow> pendingCommand \<Rightarrow> pendingCommand list \<Rightarrow> client outcome" where
  "execute_head c cur rest =
     bind_outcome (freePendingCommand (c\<lparr>cl_pending := rest\<rparr>) cur) (\<lambda>c.
     c_assert (rest = [] \<longrightarrow> cl_all_argv_len_sum c = 0)
       (Ok (if pc_argv cur = [] then c else c\<lparr>cl_executed := cl_executed c @ [pc_argv cur]\<rparr>)))"

text \<open>The bytes not parsed yet.\<close>

definition unread :: "client \<Rightarrow> nat" where
  "unread c = length (cl_querybuf c) - cl_qb_pos c"

section \<open>Parsing consumes the buffer\<close>

lemma strchr_Some: "strchr s pos b = Some i \<Longrightarrow> pos \<le> i \<and> i < length s \<and> s ! i = b"
  by (auto simp: strchr_def Let_def split: if_splits)

lemma memchr_Some: "memchr s pos b = Some i \<Longrightarrow> pos \<le> i \<and> i < length s"
  by (auto simp: memchr_def Let_def split: if_splits)

lemma processInlineBuffer_frame:
  assumes "processInlineBuffer cf c pcmd = (c', pcmd', ok)"
  shows "cl_pending c' = cl_pending c \<and> unread c' \<le> unread c \<and> (ok \<longrightarrow> cl_qb_pos c < length (cl_querybuf c) \<longrightarrow> unread c' < unread c)"
  using assms unfolding processInlineBuffer_def Let_def
  by (auto simp: unread_def split: option.splits if_splits dest!: strchr_Some)

lemma multibulk_count_frame:
  assumes "multibulk_count cf c pcmd = Ok (c', pcmd', r)" "cl_qb_pos c < length (cl_querybuf c)"
  shows "cl_pending c' = cl_pending c \<and> unread c' \<le> unread c \<and> (r \<noteq> Some False \<longrightarrow> unread c' < unread c)"
  using assms unfolding multibulk_count_def Let_def
  by (auto simp: unread_def split: option.splits if_splits dest!: strchr_Some)

lemma bulk_length_frame:
  assumes "bulk_length cf c pcmd = Ok (c', pcmd', r)"
  shows "cl_pending c' = cl_pending c \<and> unread c' \<le> unread c"
  using assms unfolding bulk_length_def Let_def
  by (auto simp: unread_def split: option.splits if_splits dest!: memchr_Some)

lemma bulk_argument_frame:
  assumes "bulk_argument cf c pcmd = Ok (c', pcmd', taken)"
  shows "cl_pending c' = cl_pending c \<and> unread c' \<le> unread c \<and> (taken \<longrightarrow> unread c' < unread c)"
  using assms unfolding bulk_argument_def Let_def
  by (auto simp: unread_def split: option.splits if_splits)

lemma multibulk_loop_frame:
  "multibulk_loop cf n c pcmd = Ok (c', pcmd', ok) \<Longrightarrow>
   cl_pending c' = cl_pending c \<and> unread c' \<le> unread c \<and> (ok \<longrightarrow> pc_incomplete pcmd' \<or> n = 0 \<or> unread c' < unread c)"
proof (induction cf n c pcmd arbitrary: c' pcmd' ok rule: multibulk_loop.induct)
  case (2 cf n c pcmd)
  from "2.prems" obtain c1 p1 r where h: "bulk_length cf c pcmd = Ok (c1, p1, r)"
    by (auto simp: bind_outcome_Ok)
  note f = bulk_length_frame [OF h]
  show ?case
  proof (cases r)
    case Bulk_go
    from "2.prems" h Bulk_go obtain c2 p2 t where a: "bulk_argument cf c1 p1 = Ok (c2, p2, t)"
      by (auto simp: bind_outcome_Ok)
    note g = bulk_argument_frame [OF a]
    show ?thesis
    proof (cases t)
      case True
      then have "multibulk_loop cf n c2 p2 = Ok (c', pcmd', ok)" using "2.prems" h a Bulk_go by simp
      from "2.IH" [OF True this] f g True show ?thesis by auto
    next
      case False
      then show ?thesis using "2.prems" h a Bulk_go f g by auto
    qed
  qed (use "2.prems" h f in auto)
qed auto

lemma processMultibulkBuffer_frame:
  assumes "processMultibulkBuffer cf c pcmd = Ok (c', pcmd', ok)" "cl_qb_pos c < length (cl_querybuf c)"
  shows "cl_pending c' = cl_pending c \<and> unread c' \<le> unread c \<and> (ok \<longrightarrow> pc_incomplete pcmd' \<or> unread c' < unread c)"
proof -
  obtain c1 p1 r where
    h: "(if cl_multibulklen c = 0 then multibulk_count cf c pcmd else Ok (c, pcmd, None)) = Ok (c1, p1, r)"
    using assms(1) unfolding processMultibulkBuffer_def bind_outcome_Ok by auto
  have f: "cl_pending c1 = cl_pending c \<and> unread c1 \<le> unread c \<and> (r \<noteq> Some False \<longrightarrow> unread c1 < unread c \<or> c1 = c)"
    using multibulk_count_frame [OF _ assms(2)] h by (auto split: if_splits)
  show ?thesis
  proof (cases r)
    case None
    then have l: "multibulk_loop cf (cl_multibulklen c1) c1 p1 = Ok (c', pcmd', ok)" and n: "0 < cl_multibulklen c1"
      using assms(1) h unfolding processMultibulkBuffer_def by (simp_all add: bind_outcome_Ok)
    from multibulk_loop_frame [OF l] f n show ?thesis by auto
  next
    case (Some b)
    then have "c' = c1" "pcmd' = p1" "ok = b" using assms(1) h unfolding processMultibulkBuffer_def by simp_all
    moreover have "b \<longrightarrow> unread c1 < unread c" using Some h multibulk_count_frame [OF _ assms(2)] by (auto split: if_splits)
    ultimately show ?thesis using f by simp
  qed
qed

text \<open>What a round of the parsing loop does to the list of pending commands.\<close>

definition pushed :: "pendingCommand list \<Rightarrow> pendingCommand list \<Rightarrow> (pendingCommand \<Rightarrow> bool) \<Rightarrow> bool" where
  "pushed ps ps' P \<longleftrightarrow> (\<exists>p. (ps' = ps @ [p] \<or> ps' = butlast ps @ [p]) \<and> P p)"

lemma freePendingCommand_Ok:
  "freePendingCommand c p = Ok c' \<Longrightarrow>
   c' = c\<lparr>cl_all_argv_len_sum := cl_all_argv_len_sum c - pc_argv_len_sum p\<rparr>"
  by (simp add: freePendingCommand_def)

lemma parse_command_frame:
  assumes "parse_command cf c = Ok (c', m)" "cl_qb_pos c < length (cl_querybuf c)"
  shows "unread c' \<le> unread c \<and>
     (if m then unread c' < unread c \<and> pushed (cl_pending c) (cl_pending c') (\<lambda>p. \<not> pc_incomplete p \<and> pc_read_error p = None)
      else cl_pending c' = cl_pending c \<or> cl_pending c' = butlast (cl_pending c) \<or>
        pushed (cl_pending c) (cl_pending c') (\<lambda>p. pc_incomplete p \<or> pc_read_error p \<noteq> None))"
proof -
  define t where "t = (case cl_reqtype c of
       None \<Rightarrow> Some (if cl_querybuf c ! cl_qb_pos c = 42 then PROTO_REQ_MULTIBULK else PROTO_REQ_INLINE)
     | Some t \<Rightarrow> Some t)"
  have t: "(case cl_reqtype c of
       None \<Rightarrow> c\<lparr>cl_reqtype := Some (if cl_querybuf c ! cl_qb_pos c = 42 then PROTO_REQ_MULTIBULK else PROTO_REQ_INLINE)\<rparr>
     | Some t \<Rightarrow> c) = c\<lparr>cl_reqtype := t\<rparr>"
    by (cases "cl_reqtype c") (simp_all add: t_def)
  let ?c0 = "c\<lparr>cl_reqtype := t\<rparr>"
  have pos: "cl_qb_pos ?c0 < length (cl_querybuf ?c0)" "unread ?c0 = unread c" "cl_pending ?c0 = cl_pending c"
    using assms(2) by (simp_all add: unread_def)
  obtain c1 p ok where
    step: "(if cl_reqtype ?c0 = Some PROTO_REQ_INLINE then Ok (processInlineBuffer cf ?c0 (acquirePendingCommand cf))
         else if length (cl_pending ?c0) \<noteq> ready_len ?c0 then
           processMultibulkBuffer cf (?c0\<lparr>cl_pending := butlast (cl_pending ?c0)\<rparr>) (last (cl_pending ?c0))
         else processMultibulkBuffer cf ?c0 (acquirePendingCommand cf)) = Ok (c1, p, ok)" and
    rest: "(if \<not> ok \<and> pc_read_error p = None then bind_outcome (freePendingCommand c1 p) (\<lambda>c. Ok (c, False))
      else if pc_read_error p \<noteq> None \<or> pc_incomplete p then Ok (addPendingCommand c1 p, False)
      else Ok (resetClientQbufState (addPendingCommand c1 p), True)) = Ok (c', m)"
    using assms(1) unfolding parse_command_def Let_def t bind_outcome_Ok by auto
  have f: "unread c1 \<le> unread c \<and> (cl_pending c1 = cl_pending c \<or> cl_pending c1 = butlast (cl_pending c)) \<and>
      (ok \<longrightarrow> pc_incomplete p \<or> unread c1 < unread c)"
  proof (cases "t = Some PROTO_REQ_INLINE")
    case True
    then have "processInlineBuffer cf ?c0 (acquirePendingCommand cf) = (c1, p, ok)" using step by simp
    from processInlineBuffer_frame [OF this] pos show ?thesis by auto
  next
    case False
    show ?thesis
    proof (cases "length (cl_pending c) \<noteq> ready_len ?c0")
      case True
      then have "processMultibulkBuffer cf (?c0\<lparr>cl_pending := butlast (cl_pending c)\<rparr>) (last (cl_pending c)) = Ok (c1, p, ok)"
        using step False by simp
      from processMultibulkBuffer_frame [OF this] pos show ?thesis by (simp add: unread_def)
    next
      case ready: False
      then have "processMultibulkBuffer cf ?c0 (acquirePendingCommand cf) = Ok (c1, p, ok)" using step False by simp
      from processMultibulkBuffer_frame [OF this] pos show ?thesis by (simp add: unread_def)
    qed
  qed
  show ?thesis
  proof (cases "\<not> ok \<and> pc_read_error p = None")
    case True
    then have "c' = c1\<lparr>cl_all_argv_len_sum := cl_all_argv_len_sum c1 - pc_argv_len_sum p\<rparr> \<and> \<not> m"
      using rest by (auto simp: bind_outcome_Ok dest: freePendingCommand_Ok)
    then show ?thesis using f by (auto simp: unread_def)
  next
    case False
    then show ?thesis
      using rest f
      by (auto simp: unread_def addPendingCommand_def resetClientQbufState_def pushed_def split: if_splits)
  qed
qed

lemma parse_commands_frame:
  "parse_commands cf n c = Ok c' \<Longrightarrow>
   unread c' \<le> unread c \<and> length (cl_pending c') + unread c' \<le> length (cl_pending c) + unread c + 1 \<and>
   (unread c' = unread c \<longrightarrow>
      cl_pending c' = cl_pending c \<or> cl_pending c' = butlast (cl_pending c) \<or>
      pushed (cl_pending c) (cl_pending c') (\<lambda>p. pc_incomplete p \<or> pc_read_error p \<noteq> None))"
proof (induction n arbitrary: c)
  case (Suc n)
  show ?case
  proof (cases "cl_qb_pos c < length (cl_querybuf c)")
    case True
    then obtain c1 m where p: "parse_command cf c = Ok (c1, m)" and
      r: "(if m then parse_commands cf n c1 else Ok c1) = Ok c'"
      using Suc.prems by (auto simp: bind_outcome_Ok)
    note f = parse_command_frame [OF p True]
    show ?thesis
    proof (cases m)
      case m: True
      then have "length (cl_pending c1) \<le> length (cl_pending c) + 1" using f by (auto simp: pushed_def)
      with Suc.IH [of c1] r m f show ?thesis by auto
    next
      case m: False
      then have "length (cl_pending c1) \<le> length (cl_pending c) + 1" using f by (auto simp: pushed_def)
      with r m f show ?thesis by auto
    qed
  qed (use Suc.prems in simp)
qed simp

section \<open>Processing the input buffer\<close>

definition lookahead :: "conf \<Rightarrow> nat" where
  "lookahead cf = (if cf_auth_required cf then 1 else cf_lookahead cf)"

text \<open>A round of the loop of \<open>processInputBuffer\<close>; false when it breaks. A read error of the command at the
  head is fatal: the errors that are not come from looking the command up, which is not modelled.\<close>

definition input_round :: "conf \<Rightarrow> client \<Rightarrow> (client \<times> bool) outcome" where
  "input_round cf c =
     bind_outcome (if ready_len c = 0 then parse_commands cf (lookahead cf) c else Ok c) (\<lambda>c.
     if ready_len c = 0 then Ok (c, False)
     else
       case cl_pending c of
         [] \<Rightarrow> Abort
       | curcmd # rest \<Rightarrow>
           let c = c\<lparr>cl_read_error := pc_read_error curcmd\<rparr> in
           if cl_read_error c \<noteq> None then Ok (c, False)
           else bind_outcome (execute_head c curcmd rest) (\<lambda>c. Ok (c, True)))"

function input_loop :: "conf \<Rightarrow> client \<Rightarrow> client outcome" where
  "input_loop cf c =
     (if \<not> (cl_qb_pos c < length (cl_querybuf c) \<or> ready_len c > 0) \<or> cl_closing c then Ok c
      else
        case input_round cf c of
          Abort \<Rightarrow> Abort
        | Ok (c, again) \<Rightarrow> if again then input_loop cf c else Ok c)"
  by pat_completeness auto

lemma execute_head_Ok:
  assumes "execute_head c cur rest = Ok c'"
  shows "pc_argv_len_sum cur \<le> cl_all_argv_len_sum c \<and>
     c' = c\<lparr>cl_pending := rest, cl_all_argv_len_sum := cl_all_argv_len_sum c - pc_argv_len_sum cur,
            cl_executed := cl_executed c @ (if pc_argv cur = [] then [] else [pc_argv cur])\<rparr>"
  using assms by (simp add: execute_head_def freePendingCommand_def bind_outcome_Ok split: if_splits)

lemma execute_head_frame: "execute_head c cur rest = Ok c' \<Longrightarrow> cl_pending c' = rest \<and> unread c' = unread c"
  by (drule execute_head_Ok) (simp add: unread_def)

lemma ready_len_pos: "0 < ready_len c \<longleftrightarrow> (\<exists>p\<in>set (cl_pending c). \<not> pc_incomplete p)"
  by (auto simp: ready_len_def filter_empty_conv)

definition input_measure :: "client \<Rightarrow> nat" where
  "input_measure c = 4 * unread c + 2 * length (cl_pending c) + (if ready_len c = 0 then 1 else 0)"

lemma input_round_decreases:
  assumes p: "(if ready_len c = 0 then parse_commands cf n c else Ok c) = Ok c1"
    and r: "ready_len c1 \<noteq> 0" and h: "cl_pending c1 = cur # rest" and ne: "pc_read_error cur = None"
    and c2: "cl_pending c2 = rest" "unread c2 = unread c1"
  shows "input_measure c2 < input_measure c"
proof (cases "ready_len c = 0")
  case False
  then have "c1 = c" using p by simp
  then show ?thesis using False h c2 by (simp add: input_measure_def)
next
  case z: True
  with p have "parse_commands cf n c = Ok c1" by simp
  note f = parse_commands_frame [OF this]
  show ?thesis
  proof (cases "unread c1 = unread c")
    case False
    with f c2 h z show ?thesis by (simp add: input_measure_def)
  next
    case True
    have inc: "\<forall>p\<in>set (cl_pending c). pc_incomplete p" using z ready_len_pos [of c] by auto
    obtain q where q: "q \<in> set (cl_pending c1)" "\<not> pc_incomplete q" using r ready_len_pos [of c1] by auto
    have "cl_pending c1 \<noteq> cl_pending c" "cl_pending c1 \<noteq> butlast (cl_pending c)" using inc q in_set_butlastD by metis+
    with f True obtain x where
      x: "cl_pending c1 = cl_pending c @ [x] \<or> cl_pending c1 = butlast (cl_pending c) @ [x]" "pc_incomplete x \<or> pc_read_error x \<noteq> None"
      by (auto simp: pushed_def dest: in_set_butlastD)
    from x(1) q inc in_set_butlastD [of q "cl_pending c"] have "q = x" by auto
    with x(2) q have e: "pc_read_error x \<noteq> None" by simp
    have "x \<in> set rest" using x(1) h e ne by (cases rest rule: rev_cases) auto
    then have "ready_len c2 > 0" using c2 q \<open>q = x\<close> by (auto simp: ready_len_pos)
    moreover have "length rest \<le> length (cl_pending c)"
      using x(1) h by (auto dest!: arg_cong [where f = length])
    ultimately show ?thesis using c2 True z by (simp add: input_measure_def)
  qed
qed

lemma input_round_more:
  assumes "input_round cf c = Ok (c2, True)"
  shows "input_measure c2 < input_measure c"
proof -
  obtain c1 where p: "(if ready_len c = 0 then parse_commands cf (lookahead cf) c else Ok c) = Ok c1" and
    rest: "(if ready_len c1 = 0 then Ok (c1, False)
     else
       case cl_pending c1 of
         [] \<Rightarrow> Abort
       | curcmd # rest \<Rightarrow>
           let c = c1\<lparr>cl_read_error := pc_read_error curcmd\<rparr> in
           if cl_read_error c \<noteq> None then Ok (c, False)
           else bind_outcome (execute_head c curcmd rest) (\<lambda>c. Ok (c, True))) = Ok (c2, True)"
    using assms unfolding input_round_def bind_outcome_Ok by blast
  from rest have r: "ready_len c1 \<noteq> 0" by (auto split: if_splits)
  with rest obtain cur qs where h: "cl_pending c1 = cur # qs" and e: "pc_read_error cur = None" and
    x: "execute_head (c1\<lparr>cl_read_error := None\<rparr>) cur qs = Ok c2"
    by (auto simp: bind_outcome_Ok Let_def split: list.splits if_splits)
  show ?thesis
    by (rule input_round_decreases [OF p r h e]) (use execute_head_frame [OF x] in \<open>simp_all add: unread_def\<close>)
qed

termination input_loop
  by (relation "measure (\<lambda>(cf, c). input_measure c)") (simp_all add: input_round_more)

declare input_loop.simps [simp del]

definition processInputBuffer :: "conf \<Rightarrow> client \<Rightarrow> client outcome" where
  "processInputBuffer cf c =
     bind_outcome (input_loop cf c) (\<lambda>c.
     Ok (if cf_master cf then c else if cl_qb_pos c \<noteq> 0 then c\<lparr>cl_querybuf := drop (cl_qb_pos c) (cl_querybuf c), cl_qb_pos := 0\<rparr>
         else c))"

text \<open>One read from the socket that delivers \<open>data\<close>; an error closes the client. The size of the commands
  queued by \<open>MULTI\<close> does not count here.\<close>

definition readQueryFromClient :: "conf \<Rightarrow> client \<Rightarrow> bytes \<Rightarrow> client outcome" where
  "readQueryFromClient cf c data =
     (let c = c\<lparr>cl_read_error := None, cl_querybuf := cl_querybuf c @ data\<rparr>;
          qblen = length (cl_querybuf c) in
      if \<not> cf_master cf \<and> (qblen > cf_client_max_querybuf_len cf \<or> qblen > 1024 * 1024 \<and> cf_auth_required cf) then
        Ok (c\<lparr>cl_read_error := Some CLIENT_READ_REACHED_MAX_QUERYBUF, cl_closing := True\<rparr>)
      else
        bind_outcome (processInputBuffer cf c) (\<lambda>c.
        Ok (if cl_read_error c \<noteq> None then c\<lparr>cl_closing := True\<rparr> else c)))"

text \<open>A sequence of reads.\<close>

fun reads :: "conf \<Rightarrow> client \<Rightarrow> bytes list \<Rightarrow> client outcome" where
  "reads cf c [] = Ok c"
| "reads cf c (d # ds) = bind_outcome (readQueryFromClient cf c d) (\<lambda>c. reads cf c ds)"

end
