(* ===== verification/Resp_Inv.thy ===== *)
theory Resp_Inv
  imports Resp
begin

text \<open>
  The invariant of the request parser: the position stays inside the buffer, the running total of argument
  bytes is that of the pending commands, only the last pending command may be incomplete, and then the
  client holds what the next read needs to go on with it. Every operation preserves it and no assertion
  of the parser fails.
\<close>

section \<open>The invariant\<close>

definition pc_ok :: "pendingCommand \<Rightarrow> bool" where
  "pc_ok p \<longleftrightarrow> pc_argv_len_sum p = sum_list (map length (pc_argv p))"

text \<open>A command whose arguments are being read.\<close>

definition building :: "client \<Rightarrow> pendingCommand \<Rightarrow> bool" where
  "building c p \<longleftrightarrow> 0 < cl_multibulklen c \<and> length (pc_argv p) + cl_multibulklen c \<le> INT_MAX \<and>
     length (pc_argv p) \<le> pc_argv_len p \<and> 0 < pc_argv_len p \<and> - 1 \<le> cl_bulklen c"

text \<open>A client whose current command is outside the list.\<close>

definition mid :: "client \<Rightarrow> pendingCommand \<Rightarrow> bool" where
  "mid c p \<longleftrightarrow> cl_qb_pos c \<le> length (cl_querybuf c) \<and> pc_ok p \<and>
     cl_all_argv_len_sum c = sum_list (map pc_argv_len_sum (cl_pending c)) + pc_argv_len_sum p"

text \<open>The last command is a finished one with an error: it ends the connection.\<close>

definition stopped :: "client \<Rightarrow> bool" where
  "stopped c \<longleftrightarrow> cl_pending c \<noteq> [] \<and> \<not> pc_incomplete (last (cl_pending c)) \<and> pc_read_error (last (cl_pending c)) \<noteq> None"

definition between :: "client \<Rightarrow> bool" where
  "between c \<longleftrightarrow> cl_multibulklen c = 0 \<and>
     (cl_reqtype c = Some PROTO_REQ_MULTIBULK \<longrightarrow>
        cl_qb_pos c < length (cl_querybuf c) \<and> cl_querybuf c ! cl_qb_pos c = 42)"

definition inside :: "client \<Rightarrow> bool" where
  "inside c \<longleftrightarrow> cl_pending c \<noteq> [] \<and> pc_incomplete (last (cl_pending c))"

definition client_wf :: "client \<Rightarrow> bool" where
  "client_wf c \<longleftrightarrow>
     cl_qb_pos c \<le> length (cl_querybuf c) \<and>
     cl_all_argv_len_sum c = sum_list (map pc_argv_len_sum (cl_pending c)) \<and>
     (\<forall>p\<in>set (cl_pending c). pc_ok p) \<and>
     (\<forall>p\<in>set (butlast (cl_pending c)). \<not> pc_incomplete p) \<and>
     (inside c \<longrightarrow> cl_reqtype c = Some PROTO_REQ_MULTIBULK \<and> building c (last (cl_pending c))) \<and>
     (\<not> inside c \<longrightarrow> stopped c \<or> between c)"

section \<open>The parser\<close>

lemma bulk_length_safe:
  assumes "building c p" "mid c p" "cl_bulklen c \<noteq> - 1 \<Longrightarrow> pc_incomplete p"
  shows "\<exists>c' p' r. bulk_length cf c p = Ok (c', p', r) \<and> building c' p' \<and> mid c' p' \<and>
     cl_reqtype c' = cl_reqtype c \<and> cl_multibulklen c' = cl_multibulklen c \<and>
     pc_incomplete p' = pc_incomplete p \<and> (r = Bulk_go \<longrightarrow> 0 \<le> cl_bulklen c') \<and> (r = Bulk_error \<longrightarrow> pc_read_error p' \<noteq> None)"
proof (cases "cl_bulklen c = - 1")
  case False
  then show ?thesis using assms unfolding bulk_length_def by (auto simp: building_def)
next
  case True
  then show ?thesis
    using assms unfolding bulk_length_def Let_def
    by (auto simp: building_def mid_def pc_ok_def pc_fail_def split: option.split dest!: memchr_Some)
qed

lemma bulk_argument_safe:
  assumes "building c p" "mid c p" "0 \<le> cl_bulklen c"
  shows "\<exists>c' p' t. bulk_argument cf c p = Ok (c', p', t) \<and> mid c' p' \<and> cl_reqtype c' = cl_reqtype c \<and>
     pc_incomplete p' = pc_incomplete p \<and>
     (if t then cl_bulklen c' = - 1 \<and> cl_multibulklen c = Suc (cl_multibulklen c') \<and>
        (0 < cl_multibulklen c' \<longrightarrow> building c' p')
      else c' = c \<and> p' = p)"
proof (cases "length (cl_querybuf c) - cl_qb_pos c < nat (cl_bulklen c) + 2")
  case True
  then have "bulk_argument cf c p = Ok (c, p, False)" using assms unfolding bulk_argument_def Let_def by simp
  then show ?thesis using assms(2) by auto
next
  case False
  define cap where "cap = (if length (pc_argv p) \<ge> pc_argv_len p then
      min (if pc_argv_len p < INT_MAX div 2 then pc_argv_len p * 2 else INT_MAX) (length (pc_argv p) + cl_multibulklen c)
    else pc_argv_len p)"
  have cap: "length (pc_argv p) < cap" using assms(1) by (auto simp: cap_def building_def)
  define whole where "whole \<longleftrightarrow> \<not> cf_master cf \<and> cl_qb_pos c = 0 \<and> cl_bulklen c \<ge> PROTO_MBULK_BIG_ARG \<and>
      length (cl_querybuf c) = nat (cl_bulklen c) + 2"
  define arg where "arg = (if whole then take (length (cl_querybuf c) - 2) (cl_querybuf c)
      else take (nat (cl_bulklen c)) (drop (cl_qb_pos c) (cl_querybuf c)))"
  have arg: "length arg = nat (cl_bulklen c)" using False assms(2) by (auto simp: arg_def whole_def mid_def)
  define c' where "c' = (if whole then c\<lparr>cl_querybuf := []\<rparr> else c\<lparr>cl_qb_pos := cl_qb_pos c + nat (cl_bulklen c) + 2\<rparr>)
      \<lparr>cl_all_argv_len_sum := cl_all_argv_len_sum c + nat (cl_bulklen c), cl_bulklen := - 1,
       cl_multibulklen := cl_multibulklen c - 1\<rparr>"
  define p' where
    "p' = p\<lparr>pc_argv_len := cap, pc_argv := pc_argv p @ [arg], pc_argv_len_sum := pc_argv_len_sum p + nat (cl_bulklen c)\<rparr>"
  have "(if length (pc_argv p) \<ge> pc_argv_len p then
           p\<lparr>pc_argv_len := min (if pc_argv_len p < INT_MAX div 2 then pc_argv_len p * 2 else INT_MAX)
                                (length (pc_argv p) + cl_multibulklen c)\<rparr>
         else p) = p\<lparr>pc_argv_len := cap\<rparr>" by (simp add: cap_def)
  then have "bulk_argument cf c p = Ok (c', p', True)"
    using False cap assms(3) unfolding bulk_argument_def Let_def c'_def p'_def by (simp add: whole_def arg_def)
  moreover have "mid c' p'" using assms(2) False arg by (auto simp: mid_def pc_ok_def whole_def c'_def p'_def)
  moreover have "building c' p'" if "0 < cl_multibulklen c'"
    using assms(1) cap that by (auto simp: building_def c'_def p'_def)
  moreover have "cl_multibulklen c = Suc (cl_multibulklen c')" using assms(1) by (simp add: building_def c'_def)
  moreover have "cl_reqtype c' = cl_reqtype c" "pc_incomplete p' = pc_incomplete p" "cl_bulklen c' = - 1"
    by (simp_all add: c'_def p'_def)
  ultimately show ?thesis by auto
qed

lemma multibulk_loop_safe:
  assumes "n = cl_multibulklen c" "0 < n \<Longrightarrow> building c p" "mid c p" "cl_bulklen c \<noteq> - 1 \<Longrightarrow> pc_incomplete p"
  shows "\<exists>c' p' ok. multibulk_loop cf n c p = Ok (c', p', ok) \<and> mid c' p' \<and> cl_reqtype c' = cl_reqtype c \<and>
     (if ok then if pc_incomplete p' then building c' p' else True
      else pc_read_error p' \<noteq> None \<and> building c' p')"
  using assms
proof (induction n arbitrary: c p)
  case 0
  then show ?case by (auto simp: mid_def pc_ok_def)
next
  case (Suc n)
  then obtain c1 p1 r where b: "bulk_length cf c p = Ok (c1, p1, r)" "building c1 p1" "mid c1 p1"
    "cl_reqtype c1 = cl_reqtype c" "cl_multibulklen c1 = Suc n" "pc_incomplete p1 = pc_incomplete p"
    "r = Bulk_go \<longrightarrow> 0 \<le> cl_bulklen c1" "r = Bulk_error \<longrightarrow> pc_read_error p1 \<noteq> None"
    using bulk_length_safe [of c p cf] by auto
  have inc: "mid c' (q\<lparr>pc_incomplete := True\<rparr>) = mid c' q" "building c' (q\<lparr>pc_incomplete := True\<rparr>) = building c' q" for c' q
    by (simp_all add: mid_def building_def pc_ok_def)
  show ?case
  proof (cases r)
    case Bulk_go
    then obtain c2 p2 t where a: "bulk_argument cf c1 p1 = Ok (c2, p2, t)" "mid c2 p2" "cl_reqtype c2 = cl_reqtype c1"
      "pc_incomplete p2 = pc_incomplete p1"
      "if t then cl_bulklen c2 = - 1 \<and> cl_multibulklen c1 = Suc (cl_multibulklen c2) \<and>
         (0 < cl_multibulklen c2 \<longrightarrow> building c2 p2) else c2 = c1 \<and> p2 = p1"
      using bulk_argument_safe [of c1 p1 cf] b by auto
    show ?thesis
    proof (cases t)
      case True
      with a(5) b(5) have "n = cl_multibulklen c2" "0 < n \<Longrightarrow> building c2 p2" "cl_bulklen c2 = - 1" by simp_all
      from Suc.IH [OF this(1,2) a(2)] this(3) show ?thesis using a True Bulk_go b(1,4) by simp
    next
      case False
      then show ?thesis using a Bulk_go b(1,2,3,4) inc by auto
    qed
  next
    case Bulk_break
    then show ?thesis using b inc by auto
  next
    case Bulk_error
    then show ?thesis using b by auto
  qed
qed

lemma multibulk_count_wf:
  assumes "multibulk_count cf c p = Ok (c', p', r)" "mid c p" "pc_argv p = []"
    "cl_qb_pos c < length (cl_querybuf c)"
  shows "mid c' p' \<and> cl_reqtype c' = cl_reqtype c \<and> pc_incomplete p' = pc_incomplete p \<and>
     (case r of None \<Rightarrow> building c' p' \<and> cl_bulklen c' = - 1 | Some ok \<Rightarrow> if ok then True else c' = c)"
proof -
  have "pc_argv_len_sum p = 0" using assms(2,3) by (simp add: mid_def pc_ok_def)
  then show ?thesis
    using assms unfolding multibulk_count_def Let_def
    by (auto simp: building_def mid_def pc_ok_def pc_fail_def split: option.splits if_splits dest!: strchr_Some)
qed

lemma multibulk_count_safe:
  assumes "mid c p" "pc_argv p = []" "cl_qb_pos c < length (cl_querybuf c)" "cl_querybuf c ! cl_qb_pos c = 42"
  shows "\<exists>c' p' r. multibulk_count cf c p = Ok (c', p', r) \<and> mid c' p' \<and> cl_reqtype c' = cl_reqtype c \<and>
     pc_incomplete p' = pc_incomplete p \<and>
     (case r of None \<Rightarrow> building c' p' \<and> cl_bulklen c' = - 1 | Some ok \<Rightarrow> if ok then True else c' = c)"
proof -
  have "\<exists>x. multibulk_count cf c p = Ok x"
    using assms(2,4) unfolding multibulk_count_def Let_def by (simp split: option.split)
  then obtain c' p' r where r: "multibulk_count cf c p = Ok (c', p', r)" by (metis prod_cases3)
  with multibulk_count_wf [OF r assms(1-3)] show ?thesis by blast
qed

lemma processMultibulkBuffer_safe:
  assumes m: "mid c p" and pos: "cl_qb_pos c < length (cl_querybuf c)"
    and cur: "pc_incomplete p \<and> building c p \<or>
      \<not> pc_incomplete p \<and> pc_argv p = [] \<and> cl_multibulklen c = 0 \<and> cl_querybuf c ! cl_qb_pos c = 42"
  shows "\<exists>c' p' ok. processMultibulkBuffer cf c p = Ok (c', p', ok) \<and> mid c' p' \<and> cl_reqtype c' = cl_reqtype c \<and>
     (pc_incomplete p' \<longrightarrow> building c' p') \<and>
     (ok \<or> pc_read_error p' \<noteq> None \<or> c' = c \<and> \<not> pc_incomplete p \<and> \<not> pc_incomplete p')"
proof (cases "cl_multibulklen c = 0")
  case True
  with cur have new: "\<not> pc_incomplete p" "pc_argv p = []" "cl_querybuf c ! cl_qb_pos c = 42"
    by (auto simp: building_def)
  obtain c1 p1 r where a: "multibulk_count cf c p = Ok (c1, p1, r)" "mid c1 p1" "cl_reqtype c1 = cl_reqtype c"
    "pc_incomplete p1 = pc_incomplete p"
    "case r of None \<Rightarrow> building c1 p1 \<and> cl_bulklen c1 = - 1 | Some ok \<Rightarrow> if ok then True else c1 = c"
    using multibulk_count_safe [OF m new(2) pos new(3), of cf] by auto
  show ?thesis
  proof (cases r)
    case None
    with a have b: "building c1 p1" "cl_bulklen c1 = - 1" by simp_all
    obtain c' p' ok where l: "multibulk_loop cf (cl_multibulklen c1) c1 p1 = Ok (c', p', ok)" "mid c' p'"
       "cl_reqtype c' = cl_reqtype c1" "if ok then if pc_incomplete p' then building c' p' else True
         else pc_read_error p' \<noteq> None \<and> building c' p'"
      using multibulk_loop_safe [OF refl b(1) a(2), of cf] b(2) by auto
    have "processMultibulkBuffer cf c p = Ok (c', p', ok)"
      using True None a(1) b(1) l(1) by (simp add: processMultibulkBuffer_def building_def)
    then show ?thesis using l a(3) by (cases ok) auto
  next
    case (Some ok)
    have "processMultibulkBuffer cf c p = Ok (c1, p1, ok)"
      using True Some a(1) by (simp add: processMultibulkBuffer_def)
    then show ?thesis using Some a new(1) by (cases ok) auto
  qed
next
  case False
  with cur have b: "building c p" "pc_incomplete p" by auto
  obtain c' p' ok where l: "multibulk_loop cf (cl_multibulklen c) c p = Ok (c', p', ok)" "mid c' p'"
     "cl_reqtype c' = cl_reqtype c" "if ok then if pc_incomplete p' then building c' p' else True
       else pc_read_error p' \<noteq> None \<and> building c' p'"
    using multibulk_loop_safe [OF refl b(1) m b(2), of cf] by auto
  have "processMultibulkBuffer cf c p = Ok (c', p', ok)"
    using False l(1) by (simp add: processMultibulkBuffer_def)
  then show ?thesis using l by (cases ok) auto
qed

lemma processInlineBuffer_wf:
  assumes "processInlineBuffer cf c p = (c', p', ok)" "mid c p" "pc_argv_len_sum p = 0"
  shows "mid c' p' \<and> cl_reqtype c' = cl_reqtype c \<and> pc_incomplete p' = pc_incomplete p \<and> (ok \<or> c' = c)"
  using assms unfolding processInlineBuffer_def Let_def
  by (auto simp: mid_def pc_ok_def pc_fail_def split: option.splits if_splits dest!: strchr_Some)

lemma complete_ready_len:
  assumes "\<forall>p\<in>set (butlast (cl_pending c)). \<not> pc_incomplete p"
  shows "length (cl_pending c) \<noteq> ready_len c \<longleftrightarrow> inside c"
proof (cases "cl_pending c" rule: rev_cases)
  case Nil
  then show ?thesis by (simp add: ready_len_def inside_def)
next
  case (snoc ps p)
  with assms have "filter (\<lambda>p. \<not> pc_incomplete p) ps = ps" by (simp add: filter_id_conv)
  with snoc show ?thesis by (simp add: ready_len_def inside_def)
qed

text \<open>What is left of a round once the command is parsed as far as it goes.\<close>

definition finish_command :: "client \<Rightarrow> pendingCommand \<Rightarrow> bool \<Rightarrow> (client \<times> bool) outcome" where
  "finish_command c p ok =
     (if \<not> ok \<and> pc_read_error p = None then bind_outcome (freePendingCommand c p) (\<lambda>c. Ok (c, False))
      else if pc_read_error p \<noteq> None \<or> pc_incomplete p then Ok (addPendingCommand c p, False)
      else Ok (resetClientQbufState (addPendingCommand c p), True))"

definition req_type :: "client \<Rightarrow> reqtype" where
  "req_type c = (case cl_reqtype c of
       None \<Rightarrow> if cl_querybuf c ! cl_qb_pos c = 42 then PROTO_REQ_MULTIBULK else PROTO_REQ_INLINE
     | Some t \<Rightarrow> t)"

lemma parse_command_eq:
  "parse_command cf c =
     (let t = req_type c; c = c\<lparr>cl_reqtype := Some t\<rparr> in
      case t of
        PROTO_REQ_INLINE \<Rightarrow> (case processInlineBuffer cf c (acquirePendingCommand cf) of (c, p, ok) \<Rightarrow> finish_command c p ok)
      | PROTO_REQ_MULTIBULK \<Rightarrow>
          bind_outcome
            (if length (cl_pending c) \<noteq> ready_len c then
               processMultibulkBuffer cf (c\<lparr>cl_pending := butlast (cl_pending c)\<rparr>) (last (cl_pending c))
             else processMultibulkBuffer cf c (acquirePendingCommand cf)) (\<lambda>(c, p, ok). finish_command c p ok))"
proof -
  have "(case cl_reqtype c of
       None \<Rightarrow> c\<lparr>cl_reqtype := Some (if cl_querybuf c ! cl_qb_pos c = 42 then PROTO_REQ_MULTIBULK else PROTO_REQ_INLINE)\<rparr>
     | Some t \<Rightarrow> c) = c\<lparr>cl_reqtype := Some (req_type c)\<rparr>"
    by (cases "cl_reqtype c") (simp_all add: req_type_def)
  then show ?thesis
    unfolding parse_command_def Let_def finish_command_def
    by (cases "req_type c") (simp_all split: prod.split)
qed

lemma finish_command_wf:
  assumes m: "mid c p" and ps: "\<forall>q\<in>set (cl_pending c). pc_ok q \<and> \<not> pc_incomplete q"
    and inc: "pc_incomplete p \<Longrightarrow> building c p \<and> cl_reqtype c = Some PROTO_REQ_MULTIBULK"
    and free: "\<not> ok \<Longrightarrow> pc_read_error p = None \<Longrightarrow> between c"
  shows "\<exists>c' m. finish_command c p ok = Ok (c', m) \<and> client_wf c' \<and> (m \<longrightarrow> \<not> stopped c' \<and> \<not> inside c')"
proof (cases "\<not> ok \<and> pc_read_error p = None")
  case True
  then have f: "finish_command c p ok = Ok (c\<lparr>cl_all_argv_len_sum := cl_all_argv_len_sum c - pc_argv_len_sum p\<rparr>, False)"
    using m by (simp add: finish_command_def freePendingCommand_def mid_def)
  have "client_wf (c\<lparr>cl_all_argv_len_sum := cl_all_argv_len_sum c - pc_argv_len_sum p\<rparr>)"
    using m ps free True by (auto simp: client_wf_def mid_def inside_def between_def dest: in_set_butlastD)
  with f show ?thesis by auto
next
  case a: False
  show ?thesis
  proof (cases "pc_read_error p \<noteq> None \<or> pc_incomplete p")
    case True
    then have f: "finish_command c p ok = Ok (addPendingCommand c p, False)" using a by (auto simp: finish_command_def)
    have "client_wf (addPendingCommand c p)"
      using m ps inc True by (auto simp: client_wf_def mid_def inside_def stopped_def addPendingCommand_def building_def)
    with f show ?thesis by auto
  next
    case False
    then have f: "finish_command c p ok = Ok (resetClientQbufState (addPendingCommand c p), True)"
      using a by (simp add: finish_command_def)
    have "client_wf (resetClientQbufState (addPendingCommand c p))"
      "\<not> stopped (resetClientQbufState (addPendingCommand c p))" "\<not> inside (resetClientQbufState (addPendingCommand c p))"
      using m ps False
      by (auto simp: client_wf_def mid_def inside_def stopped_def between_def addPendingCommand_def resetClientQbufState_def)
    with f show ?thesis by auto
  qed
qed

lemma not_inside:
  assumes "client_wf c" "\<not> inside c"
  shows "\<forall>q\<in>set (cl_pending c). pc_ok q \<and> \<not> pc_incomplete q"
  using assms by (cases "cl_pending c" rule: rev_cases) (auto simp: client_wf_def inside_def)

lemma inside_sum:
  "inside c \<Longrightarrow> sum_list (map pc_argv_len_sum (cl_pending c)) =
     sum_list (map pc_argv_len_sum (butlast (cl_pending c))) + pc_argv_len_sum (last (cl_pending c))"
  by (cases "cl_pending c" rule: rev_cases) (simp_all add: inside_def)

lemma inside_ok: "client_wf c \<Longrightarrow> inside c \<Longrightarrow> pc_ok (last (cl_pending c))"
  by (simp add: client_wf_def inside_def)

lemma parse_command_wf:
  assumes wf: "client_wf c" and ns: "\<not> stopped c" and pos: "cl_qb_pos c < length (cl_querybuf c)"
  shows "\<exists>c' m. parse_command cf c = Ok (c', m) \<and> client_wf c' \<and> (m \<longrightarrow> \<not> stopped c' \<and> \<not> inside c')"
proof -
  let ?c0 = "c\<lparr>cl_reqtype := Some (req_type c)\<rparr>"
  let ?new = "acquirePendingCommand cf"
  have new: "pc_argv ?new = []" "\<not> pc_incomplete ?new" "pc_argv_len_sum ?new = 0" "pc_ok ?new"
    by (simp_all add: acquirePendingCommand_def pc_ok_def)
  have ri: "length (cl_pending ?c0) \<noteq> ready_len ?c0 \<longleftrightarrow> inside c"
    using complete_ready_len [of c] wf by (simp add: client_wf_def ready_len_def)
  have out: "\<not> inside c \<Longrightarrow> between c \<and> (\<forall>q\<in>set (cl_pending c). pc_ok q \<and> \<not> pc_incomplete q)"
    using not_inside [OF wf] wf ns by (simp add: client_wf_def)
  have mid0: "mid ?c0 ?new" using wf new by (simp add: client_wf_def mid_def)
  show ?thesis
  proof (cases "req_type c")
    case PROTO_REQ_INLINE
    have ni: "\<not> inside c" using wf PROTO_REQ_INLINE by (auto simp: client_wf_def req_type_def)
    obtain c1 p ok where i: "processInlineBuffer cf ?c0 ?new = (c1, p, ok)" by (cases "processInlineBuffer cf ?c0 ?new") auto
    note w = processInlineBuffer_wf [OF i mid0 new(3)] processInlineBuffer_frame [OF i]
    have "\<exists>c' m. finish_command c1 p ok = Ok (c', m) \<and> client_wf c' \<and> (m \<longrightarrow> \<not> stopped c' \<and> \<not> inside c')"
      by (rule finish_command_wf) (use w out [OF ni] new PROTO_REQ_INLINE in \<open>auto simp: between_def\<close>)
    then show ?thesis using i PROTO_REQ_INLINE by (simp add: parse_command_eq Let_def)
  next
    case PROTO_REQ_MULTIBULK
    show ?thesis
    proof (cases "inside c")
      case True
      let ?c1 = "?c0\<lparr>cl_pending := butlast (cl_pending c)\<rparr>" and ?p = "last (cl_pending c)"
      have m: "mid ?c1 ?p" using wf inside_sum [OF True] inside_ok [OF wf True] by (simp add: client_wf_def mid_def)
      have b: "pc_incomplete ?p \<and> building ?c1 ?p" using wf True by (simp add: client_wf_def inside_def building_def)
      obtain c2 p ok where r: "processMultibulkBuffer cf ?c1 ?p = Ok (c2, p, ok)" "mid c2 p" "cl_reqtype c2 = Some PROTO_REQ_MULTIBULK"
        "pc_incomplete p \<longrightarrow> building c2 p" "ok \<or> pc_read_error p \<noteq> None"
        using processMultibulkBuffer_safe [OF m _ disjI1 [OF b], of cf] pos b PROTO_REQ_MULTIBULK by auto
      have "cl_pending c2 = butlast (cl_pending c)" using processMultibulkBuffer_frame [OF r(1)] pos by simp
      then have "\<exists>c' m. finish_command c2 p ok = Ok (c', m) \<and> client_wf c' \<and> (m \<longrightarrow> \<not> stopped c' \<and> \<not> inside c')"
        using r wf by (intro finish_command_wf) (auto simp: client_wf_def dest: in_set_butlastD)
      then show ?thesis using r(1) PROTO_REQ_MULTIBULK ri True by (simp add: parse_command_eq Let_def)
    next
      case False
      note o = out [OF False]
      have "cl_querybuf c ! cl_qb_pos c = 42"
        using o PROTO_REQ_MULTIBULK by (auto simp: between_def req_type_def split: option.splits if_splits)
      then have b: "\<not> pc_incomplete ?new \<and> pc_argv ?new = [] \<and> cl_multibulklen ?c0 = 0 \<and> cl_querybuf ?c0 ! cl_qb_pos ?c0 = 42"
        using new o by (simp add: between_def)
      obtain c2 p ok where r: "processMultibulkBuffer cf ?c0 ?new = Ok (c2, p, ok)" "mid c2 p" "cl_reqtype c2 = Some PROTO_REQ_MULTIBULK"
        "pc_incomplete p \<longrightarrow> building c2 p" "ok \<or> pc_read_error p \<noteq> None \<or> c2 = ?c0"
        using processMultibulkBuffer_safe [OF mid0 _ disjI2 [OF b], of cf] pos PROTO_REQ_MULTIBULK by auto
      have q: "cl_pending c2 = cl_pending c" using processMultibulkBuffer_frame [OF r(1)] pos by simp
      have "between ?c0" using o b pos by (simp add: between_def)
      then have "\<exists>c' m. finish_command c2 p ok = Ok (c', m) \<and> client_wf c' \<and> (m \<longrightarrow> \<not> stopped c' \<and> \<not> inside c')"
        using r o q by (intro finish_command_wf) auto
      then show ?thesis using r(1) PROTO_REQ_MULTIBULK ri False by (simp add: parse_command_eq Let_def)
    qed
  qed
qed

section \<open>The input buffer\<close>

lemma parse_commands_wf:
  "client_wf c \<Longrightarrow> \<not> stopped c \<Longrightarrow> \<exists>c'. parse_commands cf n c = Ok c' \<and> client_wf c'"
proof (induction n arbitrary: c)
  case (Suc n)
  show ?case
  proof (cases "cl_qb_pos c < length (cl_querybuf c)")
    case True
    then obtain c1 m where "parse_command cf c = Ok (c1, m)" "client_wf c1" "m \<longrightarrow> \<not> stopped c1"
      using parse_command_wf [OF Suc.prems] by blast
    with Suc.IH [of c1] True show ?thesis by (cases m) auto
  qed (use Suc.prems in simp)
qed simp

lemma stopped_ready: "stopped c \<Longrightarrow> ready_len c \<noteq> 0"
  using ready_len_pos [of c] by (auto simp: stopped_def dest: last_in_set)

lemma client_wf_read_error: "client_wf (c\<lparr>cl_read_error := e\<rparr>) = client_wf c"
  by (simp add: client_wf_def inside_def stopped_def between_def building_def)

lemma execute_head_wf:
  assumes "client_wf c" "cl_pending c = cur # rest" "ready_len c \<noteq> 0" "pc_read_error cur = None"
  shows "\<exists>c'. execute_head c cur rest = Ok c' \<and> client_wf c'"
proof -
  have s: "cl_all_argv_len_sum c = pc_argv_len_sum cur + sum_list (map pc_argv_len_sum rest)"
    using assms(1,2) by (simp add: client_wf_def)
  define c' where "c' = c\<lparr>cl_pending := rest, cl_all_argv_len_sum := cl_all_argv_len_sum c - pc_argv_len_sum cur,
            cl_executed := cl_executed c @ (if pc_argv cur = [] then [] else [pc_argv cur])\<rparr>"
  have e: "execute_head c cur rest = Ok c'"
    using s by (auto simp: execute_head_def freePendingCommand_def c'_def)
  have "client_wf c'"
  proof (cases "rest = []")
    case True
    with assms(2,3) have "\<not> pc_incomplete cur" by (auto simp: ready_len_def split: if_splits)
    then have "between c" using assms(1,2,4) True by (simp add: client_wf_def inside_def stopped_def)
    then show ?thesis using assms(1) s True by (simp add: client_wf_def c'_def inside_def stopped_def between_def)
  next
    case False
    then show ?thesis using assms(1,2) s
      by (simp add: client_wf_def c'_def inside_def stopped_def between_def building_def)
  qed
  with e show ?thesis by blast
qed

lemma input_round_wf:
  assumes "client_wf c"
  shows "\<exists>c' m. input_round cf c = Ok (c', m) \<and> client_wf c'"
proof -
  obtain c1 where p: "(if ready_len c = 0 then parse_commands cf (lookahead cf) c else Ok c) = Ok c1" and w: "client_wf c1"
    using parse_commands_wf [OF assms, of cf "lookahead cf"] stopped_ready [of c] assms by (cases "ready_len c = 0") auto
  show ?thesis
  proof (cases "ready_len c1 = 0")
    case True
    then have "input_round cf c = Ok (c1, False)" using p by (simp add: input_round_def)
    then show ?thesis using w by blast
  next
    case r: False
    then obtain cur rest where h: "cl_pending c1 = cur # rest" by (cases "cl_pending c1") (auto simp: ready_len_def)
    show ?thesis
    proof (cases "pc_read_error cur")
      case None
      let ?c = "c1\<lparr>cl_read_error := None\<rparr>"
      have "client_wf ?c" "cl_pending ?c = cur # rest" "ready_len ?c \<noteq> 0"
        using w h r client_wf_read_error [where c = c1 and e = None] by (simp_all add: ready_len_def)
      from execute_head_wf [OF this None] obtain c2 where "execute_head ?c cur rest = Ok c2" "client_wf c2" by blast
      moreover from this(1) have "input_round cf c = Ok (c2, True)" using p r h None by (simp add: input_round_def Let_def)
      ultimately show ?thesis by blast
    next
      case (Some e)
      then have "input_round cf c = Ok (c1\<lparr>cl_read_error := Some e\<rparr>, False)"
        using p r h by (simp add: input_round_def Let_def)
      then show ?thesis using w client_wf_read_error [where c = c1 and e = "Some e"] by blast
    qed
  qed
qed

lemma input_loop_wf: "client_wf c \<Longrightarrow> \<exists>c'. input_loop cf c = Ok c' \<and> client_wf c'"
proof (induction cf c rule: input_loop.induct)
  case (1 cf c)
  show ?case
  proof (cases "\<not> (cl_qb_pos c < length (cl_querybuf c) \<or> ready_len c > 0) \<or> cl_closing c")
    case True
    then show ?thesis using "1.prems" by (subst input_loop.simps) simp
  next
    case g: False
    obtain c1 m where r: "input_round cf c = Ok (c1, m)" and w: "client_wf c1" using input_round_wf [OF "1.prems"] by blast
    show ?thesis
    proof (cases m)
      case True
      have "input_loop cf c = input_loop cf c1" using g r True by (subst input_loop.simps) simp
      then show ?thesis using "1.IH" [OF g r refl True w] by simp
    next
      case False
      have "input_loop cf c = Ok c1" using g r False by (subst input_loop.simps) simp
      then show ?thesis using w by simp
    qed
  qed
qed

lemma client_wf_trim:
  "client_wf c \<Longrightarrow> client_wf (c\<lparr>cl_querybuf := drop (cl_qb_pos c) (cl_querybuf c), cl_qb_pos := 0\<rparr>)"
  by (auto simp: client_wf_def inside_def stopped_def between_def building_def)

lemma client_wf_append: "client_wf c \<Longrightarrow> client_wf (c\<lparr>cl_read_error := e, cl_querybuf := cl_querybuf c @ d\<rparr>)"
  by (auto simp: client_wf_def inside_def stopped_def between_def building_def nth_append)

lemma client_wf_closing: "client_wf (c\<lparr>cl_closing := b\<rparr>) = client_wf c"
  by (simp add: client_wf_def inside_def stopped_def between_def building_def)

lemma processInputBuffer_wf:
  assumes "client_wf c"
  shows "\<exists>c'. processInputBuffer cf c = Ok c' \<and> client_wf c'"
proof -
  obtain c1 where "input_loop cf c = Ok c1" "client_wf c1" using input_loop_wf [OF assms] by blast
  then show ?thesis using client_wf_trim [of c1] by (simp add: processInputBuffer_def)
qed

lemma readQueryFromClient_wf:
  assumes "client_wf c"
  shows "\<exists>c'. readQueryFromClient cf c d = Ok c' \<and> client_wf c'"
proof -
  let ?c = "c\<lparr>cl_read_error := None, cl_querybuf := cl_querybuf c @ d\<rparr>"
  have w: "client_wf ?c" using client_wf_append [OF assms] .
  have w2: "client_wf (c\<lparr>cl_querybuf := cl_querybuf c @ d\<rparr>)"
    using client_wf_append [OF assms, where e = "cl_read_error c" and d = d] by simp
  obtain c1 where p: "processInputBuffer cf ?c = Ok c1" "client_wf c1" using processInputBuffer_wf [OF w] by blast
  show ?thesis
    using p w2 unfolding readQueryFromClient_def Let_def
    by (simp add: client_wf_closing client_wf_read_error)
qed

lemma reads_wf: "client_wf c \<Longrightarrow> \<exists>c'. reads cf c ds = Ok c' \<and> client_wf c'"
proof (induction ds arbitrary: c)
  case (Cons d ds)
  from readQueryFromClient_wf [OF Cons.prems] obtain c1 where "readQueryFromClient cf c d = Ok c1" "client_wf c1" by blast
  with Cons.IH show ?case by simp
qed simp

lemma createClient_wf: "client_wf createClient"
  by (simp add: client_wf_def createClient_def inside_def between_def)

lemma reads_total: "\<exists>c. reads cf createClient ds = Ok c \<and> client_wf c"
  by (rule reads_wf [OF createClient_wf])

end
