(* ===== verification/Resp_Roundtrip.thy ===== *)
theory Resp_Roundtrip
  imports Resp_Inv
begin

text \<open>
  Requests and their encodings, and the proof that the parser, fed with a sequence of encoded requests cut
  anywhere into reads, executes exactly these requests.
\<close>

section \<open>Requests\<close>

datatype request = Multibulk "bytes list" | Inline "bytes list"

primrec req_args :: "request \<Rightarrow> bytes list" where
  "req_args (Multibulk args) = args"
| "req_args (Inline args) = args"

primrec rtype :: "request \<Rightarrow> reqtype" where
  "rtype (Multibulk args) = PROTO_REQ_MULTIBULK"
| "rtype (Inline args) = PROTO_REQ_INLINE"

definition header :: "byte \<Rightarrow> nat \<Rightarrow> bytes" where
  "header b n = b # decimal (int n) @ [13, 10]"

definition bulk_string :: "bytes \<Rightarrow> bytes" where
  "bulk_string a = header 36 (length a) @ a @ [13, 10]"

primrec encode :: "request \<Rightarrow> bytes" where
  "encode (Multibulk args) = header 42 (length args) @ concat (map bulk_string args)"
| "encode (Inline args) = quoted_line args @ [13, 10]"

text \<open>The limits the code puts on a request.\<close>

primrec fits :: "conf \<Rightarrow> request \<Rightarrow> bool" where
  "fits cf (Multibulk args) \<longleftrightarrow> length args \<le> INT_MAX \<and> (cf_auth_required cf \<longrightarrow> length args \<le> 10) \<and>
     (\<forall>a\<in>set args. int (length a) \<le> cf_proto_max_bulk_len cf \<and> (cf_auth_required cf \<longrightarrow> length a \<le> 16384))"
| "fits cf (Inline args) \<longleftrightarrow> length (quoted_line args) < PROTO_INLINE_MAX_SIZE"

section \<open>Searching the buffer\<close>

lemma memchr_None: "b \<notin> set (drop pos s) \<Longrightarrow> memchr s pos b = None"
proof -
  assume "b \<notin> set (drop pos s)"
  then have "takeWhile (\<lambda>c. c \<noteq> b) (drop pos s) = drop pos s" by (intro takeWhile_eq_all_conv [THEN iffD2]) auto
  then have "length (takeWhile (\<lambda>c. c \<noteq> b) (drop pos s)) = length s - pos" by (simp only: length_drop)
  then show ?thesis by (simp add: memchr_def Let_def)
qed

lemma takeWhile_stop: "\<forall>x\<in>set pre. P x \<Longrightarrow> \<not> P b \<Longrightarrow> takeWhile P (pre @ b # post) = pre"
  by (induction pre) auto

lemma drop_split:
  assumes "drop pos s = pre @ b # post"
  shows "pos + length pre < length s \<and> s ! (pos + length pre) = b \<and> length s = pos + length pre + 1 + length post"
proof -
  have l: "length (drop pos s) = length pre + 1 + length post" by (simp add: assms)
  then have "pos \<le> length s" by (cases "pos \<le> length s") auto
  with l have "length s = pos + length pre + 1 + length post" by simp
  moreover from this have "s ! (pos + length pre) = drop pos s ! length pre" by simp
  ultimately show ?thesis using assms by (simp add: nth_append)
qed

lemma memchr_at:
  assumes "drop pos s = pre @ b # post" "b \<notin> set pre"
  shows "memchr s pos b = Some (pos + length pre)"
proof -
  have "takeWhile (\<lambda>c. c \<noteq> b) (drop pos s) = pre" unfolding assms(1) using assms(2) by (intro takeWhile_stop) auto
  then show ?thesis using drop_split [OF assms(1)] by (simp add: memchr_def Let_def)
qed

lemma strchr_at:
  assumes "drop pos s = pre @ b # post" "b \<notin> set pre" "0 \<notin> set pre"
  shows "strchr s pos b = Some (pos + length pre)"
proof -
  have "takeWhile (\<lambda>c. c \<noteq> b \<and> c \<noteq> 0) (drop pos s) = pre" unfolding assms(1) using assms(2,3) by (intro takeWhile_stop) auto
  then show ?thesis using drop_split [OF assms(1)] by (simp add: strchr_def Let_def)
qed

lemma strchr_None:
  assumes "b \<notin> set (drop pos s)"
  shows "strchr s pos b = None"
proof (cases "strchr s pos b")
  case (Some i)
  then have "pos \<le> i" "i < length s" "s ! i = b" using strchr_Some by auto
  then have "b \<in> set (drop pos s)" by (auto simp: in_set_conv_nth intro!: exI [of _ "i - pos"])
  with assms show ?thesis by simp
qed simp

text \<open>A buffer that holds a beginning of a line: it ends inside the line, just before the last byte, or after.\<close>

lemma partial_line:
  fixes b :: bytes
  assumes "b @ fut = line @ [13, 10] @ rest"
  obtains (part) k where "b = take k line" "k \<le> length line" "fut \<noteq> []"
  | (almost) "b = line @ [13]" "fut \<noteq> []"
  | (whole) b' where "b = line @ 13 # 10 # b'" "b' @ fut = rest"
proof -
  consider "length b \<le> length line" | "length b = length line + 1" | "length b \<ge> length line + 2" by linarith
  then show ?thesis
  proof cases
    case 1
    have "b = take (length b) (b @ fut)" by simp
    also have "\<dots> = take (length b) line" using 1 unfolding assms by simp
    finally have "b = take (length b) line" .
    moreover have "fut \<noteq> []" using assms 1 by (auto dest!: arg_cong [where f = length])
    ultimately show ?thesis using 1 part by blast
  next
    case 2
    have "b = take (length b) (b @ fut)" by simp
    also have "\<dots> = line @ [13]" using 2 unfolding assms by simp
    finally have "b = line @ [13]" .
    moreover have "fut \<noteq> []" using assms 2 by (auto dest!: arg_cong [where f = length])
    ultimately show ?thesis using almost by blast
  next
    case 3
    then obtain k where k: "length b = length line + 2 + k" using le_Suc_ex by blast
    have "b = take (length b) (b @ fut)" by simp
    also have "\<dots> = line @ 13 # 10 # take k rest" unfolding assms k by simp
    finally have b: "b = line @ 13 # 10 # take k rest" .
    moreover have "take k rest @ fut = rest" using assms by (subst (asm) b) simp
    ultimately show ?thesis using whole by blast
  qed
qed

lemma header_chars: "x \<in> set (decimal (int n)) \<Longrightarrow> x \<noteq> 13 \<and> x \<noteq> 10 \<and> x \<noteq> 0"
  using dec_digits_digits [of n]
  by (auto simp: decimal_def list_all_iff is_digit_def char_defs)

lemma header_length: "fits_signed 64 (int n) \<Longrightarrow> length (decimal (int n)) < 21"
  using length_decimal_bound by (simp add: LONG_STR_SIZE_def)

section \<open>Tokens\<close>

text \<open>\<open>rest_of c\<close> is what the buffer still holds.\<close>

definition rest_of :: "client \<Rightarrow> bytes" where
  "rest_of c = drop (cl_qb_pos c) (cl_querybuf c)"

lemma length_rest_of: "length (rest_of c) = length (cl_querybuf c) - cl_qb_pos c"
  by (simp add: rest_of_def)

lemma bulk_length_token:
  assumes b: "bulk_length cf c p = Ok (c', p', r)" and l: "cl_bulklen c = - 1"
    and s: "rest_of c @ fut = header 36 n @ post" and m: "\<not> cf_master cf"
    and f: "int n \<le> cf_proto_max_bulk_len cf" "fits_signed 64 (cf_proto_max_bulk_len cf)"
      "cf_auth_required cf \<longrightarrow> n \<le> 16384"
  shows "(r = Bulk_break \<and> c' = c \<and> p' = p \<and> fut \<noteq> []) \<or>
     (r = Bulk_go \<and> cl_bulklen c' = int n \<and> rest_of c' @ fut = post \<and> (\<exists>k. p' = p\<lparr>pc_input_bytes := k\<rparr>))"
proof -
  let ?q = "cl_querybuf c" and ?pos = "cl_qb_pos c" and ?d = "36 # decimal (int n)"
  have n: "fits_signed 64 (int n)" using f(1,2) by (simp add: fits_signed_def)
  have clean: "13 \<notin> set ?d" using header_chars by auto
  have "rest_of c @ fut = ?d @ [13, 10] @ post" using s by (simp add: header_def)
  then show ?thesis
  proof (cases rule: partial_line)
    case (part k)
    have "13 \<notin> set (rest_of c)" using part(1) clean by (metis in_set_takeD)
    then have "memchr ?q ?pos 13 = None" by (simp add: memchr_None rest_of_def)
    moreover have "length ?q - ?pos \<le> 65536" using part header_length [OF n] length_rest_of [of c] by simp
    ultimately show ?thesis using b l part by (auto simp: bulk_length_def Let_def PROTO_INLINE_MAX_SIZE_def)
  next
    case almost
    have "drop ?pos ?q = ?d @ 13 # []" using almost by (simp add: rest_of_def)
    note a = memchr_at [OF this clean] and d = drop_split [OF this]
    show ?thesis using b l almost a d by (auto simp: bulk_length_def Let_def)
  next
    case (whole b')
    have e: "drop ?pos ?q = ?d @ 13 # 10 # b'" using whole by (simp add: rest_of_def)
    note a = memchr_at [OF this clean] and d = drop_split [OF this]
    have q0: "?q ! ?pos = 36" using e d by (metis append_Cons nth_via_drop)
    have dec: "take (length (decimal (int n))) (drop (Suc ?pos) ?q) = decimal (int n)"
      using e by (metis (no_types, lifting) append_Cons append_eq_conv_conj drop_Suc list.sel(3) tl_drop)
    have b': "drop (?pos + length (decimal (int n)) + 3) ?q = b'"
    proof -
      have "drop (?pos + length (decimal (int n)) + 3) ?q = drop (length (decimal (int n)) + 3) (drop ?pos ?q)"
        by (simp add: ac_simps)
      also have "\<dots> = b'" unfolding e by (simp add: numeral_3_eq_3)
      finally show ?thesis .
    qed
    have lim: "\<not> (int n < 0 \<or> \<not> cf_master cf \<and> int n > cf_proto_max_bulk_len cf)" "\<not> (int n > 16384 \<and> cf_auth_required cf)"
      using f by auto
    have a': "memchr ?q ?pos 13 = Some (Suc (?pos + length (decimal (int n))))" using a by simp
    let ?p3 = "Suc (Suc (Suc (?pos + length (decimal (int n)))))"
    have b3: "drop ?p3 ?q = b'" using b' by (simp add: numeral_3_eq_3)
    define trim where "trim \<longleftrightarrow> \<not> cf_master cf \<and> int n \<ge> PROTO_MBULK_BIG_ARG \<and> int (length ?q - ?p3) \<le> int n + 2"
    have "r = Bulk_go \<and> (\<exists>k. p' = p\<lparr>pc_input_bytes := k\<rparr>) \<and>
      c' = (if trim then c\<lparr>cl_querybuf := drop ?p3 ?q, cl_qb_pos := 0\<rparr> else c\<lparr>cl_qb_pos := ?p3\<rparr>)\<lparr>cl_bulklen := int n\<rparr>"
      using b l d q0 dec lim unfolding bulk_length_def Let_def trim_def
      by (simp add: a' string2ll_decimal [OF n] del: length_drop) auto
    then show ?thesis using b3 whole(2) by (auto simp: rest_of_def)
  qed
qed

lemma bulk_argument_token:
  assumes b: "bulk_argument cf c p = Ok (c', p', t)" and l: "cl_bulklen c = int (length a)"
    and s: "rest_of c @ fut = a @ [13, 10] @ post"
  shows "if t then rest_of c' @ fut = post \<and> cl_bulklen c' = - 1 \<and> cl_multibulklen c' = cl_multibulklen c - 1 \<and>
       pc_argv p' = pc_argv p @ [a] \<and> pc_read_error p' = pc_read_error p \<and> pc_incomplete p' = pc_incomplete p
     else c' = c \<and> p' = p \<and> fut \<noteq> []"
proof (cases "length (cl_querybuf c) - cl_qb_pos c < length a + 2")
  case True
  then have "t = False" "c' = c" "p' = p" using b l by (auto simp: bulk_argument_def Let_def)
  moreover have "fut \<noteq> []" using s True length_rest_of [of c] by (auto dest!: arg_cong [where f = length])
  ultimately show ?thesis by simp
next
  case False
  from s have "rest_of c @ fut = a @ [13, 10] @ post" by simp
  then obtain b' where w: "rest_of c = a @ 13 # 10 # b'" "b' @ fut = post"
    using False length_rest_of [of c] by (cases rule: partial_line) auto
  have e: "drop (cl_qb_pos c) (cl_querybuf c) = a @ 13 # 10 # b'" using w by (simp add: rest_of_def)
  have a: "take (length a) (drop (cl_qb_pos c) (cl_querybuf c)) = a" unfolding e by simp
  have b': "drop (cl_qb_pos c + length a + 2) (cl_querybuf c) = b'"
  proof -
    have "drop (cl_qb_pos c + length a + 2) (cl_querybuf c) = drop (length a + 2) (drop (cl_qb_pos c) (cl_querybuf c))"
      by (simp add: add.commute)
    also have "\<dots> = b'" unfolding e by simp
    finally show ?thesis .
  qed
  have whole: "take (length (cl_querybuf c) - 2) (cl_querybuf c) = a \<and> b' = []"
    if "cl_qb_pos c = 0" "length (cl_querybuf c) = length a + 2"
    using e that by (auto dest!: arg_cong [where f = length])
  have t: "t" using b l False by (auto simp: bulk_argument_def Let_def)
  show ?thesis
  proof (cases "\<not> cf_master cf \<and> cl_qb_pos c = 0 \<and> cl_bulklen c \<ge> PROTO_MBULK_BIG_ARG \<and> length (cl_querybuf c) = length a + 2")
    case True
    then show ?thesis using b l False t whole w(2) unfolding bulk_argument_def Let_def
      by (simp add: rest_of_def split: if_splits) auto
  next
    case nw: False
    then show ?thesis using b l False t a b' w(2) unfolding bulk_argument_def Let_def
      by (simp add: rest_of_def split: if_splits) auto
  qed
qed

text \<open>The arguments still to come, and where the parser is in them.\<close>

definition args_at :: "client \<Rightarrow> bytes \<Rightarrow> bytes list \<Rightarrow> bytes \<Rightarrow> bool" where
  "args_at c fut todo post \<longleftrightarrow> cl_multibulklen c = length todo \<and>
     (cl_bulklen c = - 1 \<and> rest_of c @ fut = concat (map bulk_string todo) @ post \<or>
      todo \<noteq> [] \<and> cl_bulklen c = int (length (hd todo)) \<and>
      rest_of c @ fut = hd todo @ [13, 10] @ concat (map bulk_string (tl todo)) @ post)"

definition arg_fits :: "conf \<Rightarrow> bytes \<Rightarrow> bool" where
  "arg_fits cf a \<longleftrightarrow> int (length a) \<le> cf_proto_max_bulk_len cf \<and> (cf_auth_required cf \<longrightarrow> length a \<le> 16384)"

lemma multibulk_loop_token:
  assumes "multibulk_loop cf n c p = Ok (c', p', ok)" "args_at c fut todo post" "n = length todo"
    "\<not> cf_master cf" "fits_signed 64 (cf_proto_max_bulk_len cf)" "\<forall>a\<in>set todo. arg_fits cf a"
  shows "ok \<and> pc_read_error p' = pc_read_error p \<and>
     (if pc_incomplete p' then fut \<noteq> [] \<and>
        (\<exists>done' todo'. todo = done' @ todo' \<and> todo' \<noteq> [] \<and> pc_argv p' = pc_argv p @ done' \<and> args_at c' fut todo' post)
      else pc_argv p' = pc_argv p @ todo \<and> rest_of c' @ fut = post)"
  using assms
proof (induction n arbitrary: c p todo)
  case 0
  then show ?case by (auto simp: args_at_def)
next
  case (Suc n)
  then obtain a as where todo: "todo = a # as" by (cases todo) auto
  from Suc.prems(1) obtain c1 p1 r where b: "bulk_length cf c p = Ok (c1, p1, r)"
    by (auto simp: bind_outcome_Ok)
  have fa: "arg_fits cf a" using Suc.prems(6) todo by simp
  have 1: "(r = Bulk_break \<and> c1 = c \<and> p1 = p \<and> fut \<noteq> []) \<or>
     (r = Bulk_go \<and> cl_bulklen c1 = int (length a) \<and> rest_of c1 @ fut = a @ [13, 10] @ concat (map bulk_string as) @ post \<and>
      (\<exists>k. p1 = p\<lparr>pc_input_bytes := k\<rparr>) \<and> cl_multibulklen c1 = length todo)"
  proof (cases "cl_bulklen c = - 1")
    case True
    have "rest_of c @ fut = header 36 (length a) @ a @ [13, 10] @ concat (map bulk_string as) @ post"
      using Suc.prems(2) True todo by (auto simp: args_at_def bulk_string_def)
    note t = bulk_length_token [OF b True this Suc.prems(4) _ Suc.prems(5)]
    have "r = Bulk_go \<longrightarrow> cl_multibulklen c1 = cl_multibulklen c"
      using b by (auto simp: bulk_length_def Let_def split: option.splits if_splits)
    then show ?thesis using t fa Suc.prems(2) by (auto simp: arg_fits_def args_at_def)
  next
    case False
    then have "c1 = c" "p1 = p" "r = Bulk_go" using b by (auto simp: bulk_length_def)
    then show ?thesis using Suc.prems(2) False todo by (auto simp: args_at_def intro: exI [of _ "pc_input_bytes p"])
  qed
  show ?case
  proof (cases "r = Bulk_break")
    case True
    with 1 Suc.prems(1) b have "c' = c" "p' = p\<lparr>pc_incomplete := True\<rparr>" "ok" "fut \<noteq> []" by auto
    moreover have "\<exists>done' todo'. todo = done' @ todo' \<and> todo' \<noteq> [] \<and> pc_argv p = pc_argv p @ done' \<and> args_at c fut todo' post"
      using Suc.prems(2) todo by (intro exI [of _ "[]"] exI [of _ todo]) simp
    ultimately show ?thesis by simp
  next
    case False
    with 1 have go: "r = Bulk_go" "cl_bulklen c1 = int (length a)"
      "rest_of c1 @ fut = a @ [13, 10] @ concat (map bulk_string as) @ post" "cl_multibulklen c1 = length todo"
      "pc_argv p1 = pc_argv p" "pc_read_error p1 = pc_read_error p" by auto
    from Suc.prems(1) b go(1) obtain c2 p2 t where t: "bulk_argument cf c1 p1 = Ok (c2, p2, t)"
      by (auto simp: bind_outcome_Ok)
    note 2 = bulk_argument_token [OF t go(2,3)]
    show ?thesis
    proof (cases t)
      case True
      have l: "multibulk_loop cf n c2 p2 = Ok (c', p', ok)" using Suc.prems(1) b go(1) t True by simp
      have "args_at c2 fut as post" using 2 True go(4) todo by (simp add: args_at_def)
      from Suc.IH [OF l this _ Suc.prems(4,5)] Suc.prems(3,6) todo
      have ih: "ok \<and> pc_read_error p' = pc_read_error p2 \<and>
        (if pc_incomplete p' then fut \<noteq> [] \<and>
           (\<exists>done' todo'. as = done' @ todo' \<and> todo' \<noteq> [] \<and> pc_argv p' = pc_argv p2 @ done' \<and> args_at c' fut todo' post)
         else pc_argv p' = pc_argv p2 @ as \<and> rest_of c' @ fut = post)" by simp
      have p2: "pc_argv p2 = pc_argv p @ [a]" "pc_read_error p2 = pc_read_error p" using 2 True go(5,6) by simp_all
      show ?thesis
      proof (cases "pc_incomplete p'")
        case True
        with ih obtain d' t' where "as = d' @ t'" "t' \<noteq> []" "pc_argv p' = pc_argv p2 @ d'" "args_at c' fut t' post" by auto
        then have "\<exists>done' todo'. todo = done' @ todo' \<and> todo' \<noteq> [] \<and> pc_argv p' = pc_argv p @ done' \<and> args_at c' fut todo' post"
          using p2 todo by (intro exI [of _ "a # d'"] exI [of _ t']) simp
        with ih True p2 show ?thesis by simp
      next
        case False
        with ih p2 todo show ?thesis by simp
      qed
    next
      case False
      with 2 have s: "c2 = c1" "p2 = p1" "fut \<noteq> []" by simp_all
      then have r: "c' = c1" "p' = p1\<lparr>pc_incomplete := True\<rparr>" "ok" using Suc.prems(1) b go(1) t False by auto
      have "args_at c1 fut todo post" using go todo by (simp add: args_at_def)
      then have "\<exists>done' todo'. todo = done' @ todo' \<and> todo' \<noteq> [] \<and> pc_argv p' = pc_argv p @ done' \<and> args_at c' fut todo' post"
        using r go(5) todo by (intro exI [of _ "[]"] exI [of _ todo]) simp
      with r s go(6) show ?thesis by simp
    qed
  qed
qed

lemma multibulk_count_token:
  assumes b: "multibulk_count cf c p = Ok (c', p', r)"
    and s: "rest_of c @ fut = header 42 n @ post"
    and f: "n \<le> INT_MAX" "cf_auth_required cf \<longrightarrow> n \<le> 10"
  shows "(r = Some False \<and> c' = c \<and> p' = p \<and> fut \<noteq> []) \<or>
     (pc_read_error p' = pc_read_error p \<and> pc_argv p' = pc_argv p \<and> pc_incomplete p' = pc_incomplete p \<and> rest_of c' @ fut = post \<and>
      (if n = 0 then r = Some True else r = None \<and> cl_multibulklen c' = n \<and> cl_bulklen c' = - 1))"
proof -
  let ?q = "cl_querybuf c" and ?pos = "cl_qb_pos c" and ?d = "42 # decimal (int n)"
  have n: "fits_signed 64 (int n)" using f(1) by (simp add: fits_signed_def INT_MAX_def)
  have clean: "13 \<notin> set ?d" "0 \<notin> set ?d" using header_chars by auto
  have "rest_of c @ fut = ?d @ [13, 10] @ post" using s by (simp add: header_def)
  then show ?thesis
  proof (cases rule: partial_line)
    case (part k)
    have "13 \<notin> set (rest_of c)" using part(1) clean by (metis in_set_takeD)
    then have "strchr ?q ?pos 13 = None" by (simp add: strchr_None rest_of_def)
    moreover have "length ?q - ?pos \<le> 65536" using part header_length [OF n] length_rest_of [of c] by simp
    ultimately show ?thesis using b part by (auto simp: multibulk_count_def Let_def PROTO_INLINE_MAX_SIZE_def)
  next
    case almost
    have "drop ?pos ?q = ?d @ 13 # []" using almost by (simp add: rest_of_def)
    note a = strchr_at [OF this clean] and d = drop_split [OF this]
    show ?thesis using b almost a d by (auto simp: multibulk_count_def Let_def)
  next
    case (whole b')
    have e: "drop ?pos ?q = ?d @ 13 # 10 # b'" using whole by (simp add: rest_of_def)
    note a = strchr_at [OF this clean] and d = drop_split [OF this]
    have q0: "?q ! ?pos = 42" using e d by (metis append_Cons nth_via_drop)
    have dec: "take (length (decimal (int n))) (drop (Suc ?pos) ?q) = decimal (int n)"
      using e by (metis (no_types, lifting) append_Cons append_eq_conv_conj drop_Suc list.sel(3) tl_drop)
    have b': "drop (?pos + length (decimal (int n)) + 3) ?q = b'"
    proof -
      have "drop (?pos + length (decimal (int n)) + 3) ?q = drop (length (decimal (int n)) + 3) (drop ?pos ?q)"
        by (simp add: ac_simps)
      also have "\<dots> = b'" unfolding e by (simp add: numeral_3_eq_3)
      finally show ?thesis .
    qed
    have lim: "\<not> int n > int INT_MAX" "\<not> (int n > 10 \<and> cf_auth_required cf)" using f by auto
    have a': "strchr ?q ?pos 13 = Some (Suc (?pos + length (decimal (int n))))" using a by simp
    let ?p3 = "Suc (Suc (Suc (?pos + length (decimal (int n)))))"
    have b3: "drop ?p3 ?q = b'" using b' by (simp add: numeral_3_eq_3)
    show ?thesis
    proof (cases "n = 0")
      case True
      have "r = Some True \<and> p' = p \<and> c' = c\<lparr>cl_qb_pos := ?p3\<rparr>"
        using b d q0 dec lim True string2ll_decimal [OF n] unfolding multibulk_count_def Let_def by (simp add: a')
      then show ?thesis using b3 whole(2) True by (auto simp: rest_of_def)
    next
      case False
      have "r = None \<and> pc_read_error p' = pc_read_error p \<and> pc_argv p' = pc_argv p \<and> pc_incomplete p' = pc_incomplete p \<and>
        c' = c\<lparr>cl_qb_pos := ?p3, cl_multibulklen := n, cl_bulklen := - 1\<rparr>"
        using b d q0 dec lim False string2ll_decimal [OF n] unfolding multibulk_count_def Let_def
        by (simp add: a') (auto split: if_splits)
      then show ?thesis using b3 whole(2) False by (auto simp: rest_of_def)
    qed
  qed
qed

lemma inline_token:
  assumes b: "processInlineBuffer cf c p = (c', p', ok)"
    and s: "rest_of c @ fut = encode (Inline args) @ post"
    and f: "length (quoted_line args) < PROTO_INLINE_MAX_SIZE" and m: "\<not> cf_master cf"
  shows "pc_read_error p' = pc_read_error p \<and> pc_incomplete p' = pc_incomplete p \<and>
     (if ok then pc_argv p' = args \<and> rest_of c' @ fut = post else c' = c \<and> fut \<noteq> [])"
proof -
  let ?q = "cl_querybuf c" and ?pos = "cl_qb_pos c" and ?l = "quoted_line args"
  have clean: "10 \<notin> set ?l" "0 \<notin> set ?l" "13 \<notin> set ?l" using quoted_line_clean by blast+
  have "rest_of c @ fut = ?l @ [13, 10] @ post" using s by simp
  then show ?thesis
  proof (cases rule: partial_line)
    case (part k)
    have "10 \<notin> set (rest_of c)" using part(1) clean by (metis in_set_takeD)
    then have "strchr ?q ?pos 10 = None" by (simp add: strchr_None rest_of_def)
    moreover have "\<not> length ?q - ?pos > PROTO_INLINE_MAX_SIZE" using part f length_rest_of [of c] by simp
    ultimately show ?thesis using b part(3) by (auto simp: processInlineBuffer_def Let_def)
  next
    case almost
    have "10 \<notin> set (rest_of c)" using almost(1) clean by auto
    then have "strchr ?q ?pos 10 = None" by (simp add: strchr_None rest_of_def)
    moreover have "\<not> length ?q - ?pos > PROTO_INLINE_MAX_SIZE" using almost f length_rest_of [of c] by simp
    ultimately show ?thesis using b almost(2) by (auto simp: processInlineBuffer_def Let_def)
  next
    case (whole b')
    have e: "drop ?pos ?q = (?l @ [13]) @ 10 # b'" using whole by (simp add: rest_of_def)
    have cl: "10 \<notin> set (?l @ [13])" "0 \<notin> set (?l @ [13])" using clean by simp_all
    note a = strchr_at [OF e cl]
    have "drop ?pos ?q = ?l @ 13 # 10 # b'" using e by simp
    note d = drop_split [OF this]
    have l: "take (length ?l) (drop ?pos ?q) = ?l" unfolding e by simp
    have b': "drop (?pos + length ?l + 2) ?q = b'"
    proof -
      have "drop (?pos + length ?l + 2) ?q = drop (length ?l + 2) (drop ?pos ?q)"
        by (simp add: ac_simps)
      also have "\<dots> = b'" unfolding e by (simp add: numeral_3_eq_3)
      finally show ?thesis .
    qed
    have sp: "sdssplitargs ?l = Some args" using split_args_quoted [of ?l args "[]"] by (simp add: sdssplitargs_def)
    have a': "strchr ?q ?pos 10 = Some (Suc (?pos + length ?l))" using a by simp
    have "processInlineBuffer cf c p = (c', p', ok)" by (rule b)
    then have "c' = c\<lparr>cl_qb_pos := ?pos + length ?l + 2, cl_all_argv_len_sum := cl_all_argv_len_sum c + sum_list (map length args)\<rparr> \<and>
      pc_argv p' = args \<and> pc_read_error p' = pc_read_error p \<and> pc_incomplete p' = pc_incomplete p \<and> ok"
      unfolding processInlineBuffer_def Let_def by (simp add: a' d l m sp) auto
    then show ?thesis using b' whole(2) by (simp add: rest_of_def)
  qed
qed

end
