(* ===== verification/Resp_Theorems.thy ===== *)
theory Resp_Theorems
  imports Resp_Roundtrip
begin

text \<open>
  The parser in step with a stream of encoded requests, over any sequence of reads, and the properties of
  the request parser.
\<close>

section \<open>In step with the stream\<close>

abbreviation cmds :: "bytes list list \<Rightarrow> bytes list list" where
  "cmds \<equiv> filter (\<lambda>args. args \<noteq> [])"

definition stream :: "request list \<Rightarrow> bytes" where
  "stream rs = concat (map encode rs)"

text \<open>\<open>fut\<close> are the bytes that are not in the buffer yet, \<open>rs\<close> the requests not parsed completely.\<close>

definition parsing :: "client \<Rightarrow> bytes \<Rightarrow> request list \<Rightarrow> bool" where
  "parsing c fut rs \<longleftrightarrow>
     (if inside c then
        \<exists>todo rs'. todo \<noteq> [] \<and> rs = Multibulk (pc_argv (last (cl_pending c)) @ todo) # rs' \<and> args_at c fut todo (stream rs')
      else rest_of c @ fut = stream rs \<and> cl_bulklen c = - 1 \<and>
        (cl_reqtype c \<noteq> None \<longrightarrow> rs \<noteq> [] \<and> cl_reqtype c = Some (rtype (hd rs))))"

definition complete :: "client \<Rightarrow> pendingCommand list" where
  "complete c = filter (\<lambda>p. \<not> pc_incomplete p) (cl_pending c)"

definition sync :: "client \<Rightarrow> bytes \<Rightarrow> request list \<Rightarrow> bool" where
  "sync c fut rs \<longleftrightarrow> client_wf c \<and> (\<forall>p\<in>set (cl_pending c). pc_read_error p = None) \<and> parsing c fut rs"

definition outcome_of :: "client \<Rightarrow> request list \<Rightarrow> bytes list list" where
  "outcome_of c rs = cl_executed c @ cmds (map pc_argv (complete c)) @ cmds (map req_args rs)"

lemma encode_head:
  "rtype r = PROTO_REQ_MULTIBULK \<Longrightarrow> \<exists>xs. encode r = 42 # xs"
  "rtype r = PROTO_REQ_INLINE \<Longrightarrow> \<exists>x xs. encode r = x # xs \<and> x \<noteq> 42"
proof -
  show "rtype r = PROTO_REQ_MULTIBULK \<Longrightarrow> \<exists>xs. encode r = 42 # xs" by (cases r) (auto simp: header_def)
  have q: "\<exists>x xs. quoted_line args @ [13, 10] = x # xs \<and> x \<noteq> 42" for args
    by (cases args rule: quoted_line.cases) (simp_all add: sdscatrepr_eq)
  show "rtype r = PROTO_REQ_INLINE \<Longrightarrow> \<exists>x xs. encode r = x # xs \<and> x \<noteq> 42" using q by (cases r) auto
qed

lemma encode_ne: "encode r \<noteq> []"
  using encode_head [of r] by (cases "rtype r") auto

lemma sync_not_stopped: "sync c fut rs \<Longrightarrow> \<not> stopped c"
  by (auto simp: sync_def stopped_def)

lemma finish_command_token:
  assumes f: "finish_command c p ok = Ok (c', m)"
    and e: "pc_read_error p = None"
  shows "if \<not> ok then \<not> m \<and> c' = c\<lparr>cl_all_argv_len_sum := cl_all_argv_len_sum c - pc_argv_len_sum p\<rparr>
     else if pc_incomplete p then \<not> m \<and> c' = addPendingCommand c p
     else m \<and> c' = resetClientQbufState (addPendingCommand c p)"
  using assms by (auto simp: finish_command_def bind_outcome_Ok freePendingCommand_def split: if_splits)

text \<open>What parsing does not touch.\<close>

definition kept :: "client \<Rightarrow> client \<Rightarrow> bool" where
  "kept c c' \<longleftrightarrow> cl_executed c' = cl_executed c \<and> cl_closing c' = cl_closing c \<and> cl_read_error c' = cl_read_error c"

lemma kept_trans: "kept a b \<Longrightarrow> kept b c \<Longrightarrow> kept a c"
  by (simp add: kept_def)

lemma bulk_length_kept: "bulk_length cf c p = Ok (c', p', r) \<Longrightarrow> kept c c'"
  unfolding bulk_length_def Let_def by (auto simp: kept_def split: option.splits if_splits)

lemma bulk_argument_kept: "bulk_argument cf c p = Ok (c', p', t) \<Longrightarrow> kept c c'"
  unfolding bulk_argument_def Let_def by (auto simp: kept_def split: if_splits)

lemma multibulk_count_kept: "multibulk_count cf c p = Ok (c', p', r) \<Longrightarrow> kept c c'"
  unfolding multibulk_count_def Let_def by (auto simp: kept_def split: option.splits if_splits)

lemma processInlineBuffer_kept: "processInlineBuffer cf c p = (c', p', ok) \<Longrightarrow> kept c c'"
  unfolding processInlineBuffer_def Let_def by (auto simp: kept_def split: option.splits if_splits)

lemma multibulk_loop_kept: "multibulk_loop cf n c p = Ok (c', p', ok) \<Longrightarrow> kept c c'"
proof (induction cf n c p arbitrary: c' p' ok rule: multibulk_loop.induct)
  case (2 cf n c p)
  from "2.prems" obtain c1 p1 r where h: "bulk_length cf c p = Ok (c1, p1, r)" by (auto simp: bind_outcome_Ok)
  note f = bulk_length_kept [OF h]
  show ?case
  proof (cases r)
    case Bulk_go
    from "2.prems" h Bulk_go obtain c2 p2 t where a: "bulk_argument cf c1 p1 = Ok (c2, p2, t)" by (auto simp: bind_outcome_Ok)
    note g = kept_trans [OF f bulk_argument_kept [OF a]]
    show ?thesis
    proof (cases t)
      case True
      then have "multibulk_loop cf n c2 p2 = Ok (c', p', ok)" using "2.prems" h a Bulk_go by simp
      from "2.IH" [OF True this] g show ?thesis using kept_trans by blast
    qed (use "2.prems" h a Bulk_go g in auto)
  qed (use "2.prems" h f in auto)
qed (simp add: kept_def)

lemma processMultibulkBuffer_kept:
  assumes "processMultibulkBuffer cf c p = Ok (c', p', ok)"
  shows "kept c c'"
proof -
  obtain c1 p1 r where
    h: "(if cl_multibulklen c = 0 then multibulk_count cf c p else Ok (c, p, None)) = Ok (c1, p1, r)"
    using assms unfolding processMultibulkBuffer_def bind_outcome_Ok by auto
  then have k: "kept c c1" by (cases "cl_multibulklen c = 0") (auto dest: multibulk_count_kept simp: kept_def)
  show ?thesis
  proof (cases r)
    case None
    then have "multibulk_loop cf (cl_multibulklen c1) c1 p1 = Ok (c', p', ok)"
      using assms h unfolding processMultibulkBuffer_def by (simp add: bind_outcome_Ok)
    from multibulk_loop_kept [OF this] k show ?thesis using kept_trans by blast
  next
    case (Some b)
    then show ?thesis using assms h k unfolding processMultibulkBuffer_def by simp
  qed
qed

lemma finish_command_kept: "finish_command c p ok = Ok (c', m) \<Longrightarrow> kept c c'"
  by (auto simp: finish_command_def bind_outcome_Ok freePendingCommand_def kept_def addPendingCommand_def
      resetClientQbufState_def split: if_splits)

section \<open>A round of the parsing loop\<close>

text \<open>What is said of the client and the rest of the stream after a command has been parsed as far as it goes.\<close>

definition parsed :: "client \<Rightarrow> bytes \<Rightarrow> bool \<Rightarrow> pendingCommand list \<Rightarrow> request list \<Rightarrow> bool" where
  "parsed c' fut m ps rs \<longleftrightarrow>
     (\<exists>rs' new. parsing c' fut rs' \<and> (\<forall>p\<in>set (cl_pending c'). pc_read_error p = None) \<and>
        complete c' = ps @ new \<and> (if m then new \<noteq> [] else fut \<noteq> []) \<and>
        cmds (map pc_argv new) @ cmds (map req_args rs') = cmds (map req_args rs) \<and> set rs' \<subseteq> set rs)"

lemma loop_parsed:
  assumes l: "multibulk_loop cf (length todo) c p = Ok (c2, p2, ok)" "args_at c fut todo (stream rs)"
    and f: "finish_command c2 p2 ok = Ok (c', m)"
    and p: "pc_read_error p = None"
    and ps: "\<forall>q\<in>set (cl_pending c). \<not> pc_incomplete q \<and> pc_read_error q = None"
    and cf: "\<not> cf_master cf" "fits_signed 64 (cf_proto_max_bulk_len cf)" "\<forall>a\<in>set todo. arg_fits cf a"
  shows "parsed c' fut m (cl_pending c) (Multibulk (pc_argv p @ todo) # rs)"
proof -
  note t = multibulk_loop_token [OF l refl cf]
  have pend: "cl_pending c2 = cl_pending c" using multibulk_loop_frame [OF l(1)] by simp
  have fl: "filter (\<lambda>p. \<not> pc_incomplete p) (cl_pending c) = cl_pending c" using ps by (simp add: filter_id_conv)
  have e: "pc_read_error p2 = None" "ok" using t p by simp_all
  show ?thesis
  proof (cases "pc_incomplete p2")
    case True
    then obtain d r where r: "todo = d @ r" "r \<noteq> []" "pc_argv p2 = pc_argv p @ d" "args_at c2 fut r (stream rs)" "fut \<noteq> []"
      using t by auto
    have c': "c' = addPendingCommand c2 p2" using finish_command_token [OF f e(1)] e(2) True by simp
    have "parsing c' fut (Multibulk (pc_argv p @ todo) # rs)"
      using r True by (auto simp: parsing_def c' inside_def addPendingCommand_def args_at_def rest_of_def intro!: exI [of _ r])
    then show ?thesis using r(5) ps e True pend fl finish_command_token [OF f e(1)] unfolding parsed_def
      by (intro exI [of _ "Multibulk (pc_argv p @ todo) # rs"] exI [of _ "[]"]) (auto simp: c' addPendingCommand_def complete_def)
  next
    case False
    then have r: "pc_argv p2 = pc_argv p @ todo" "rest_of c2 @ fut = stream rs" using t by simp_all
    have c': "m" "c' = resetClientQbufState (addPendingCommand c2 p2)" using finish_command_token [OF f e(1)] e(2) False by simp_all
    have "parsing c' fut rs"
      using r False by (auto simp: parsing_def c'(2) inside_def addPendingCommand_def resetClientQbufState_def rest_of_def)
    then show ?thesis using ps e False pend fl c'(1) r(1) unfolding parsed_def
      by (intro exI [of _ rs] exI [of _ "[p2]"]) (auto simp: c'(2) addPendingCommand_def resetClientQbufState_def complete_def)
  qed
qed

lemma waiting_parsed:
  assumes f: "finish_command c p False = Ok (c', m)" and p: "pc_read_error p = None"
    and ps: "\<forall>q\<in>set (cl_pending c). \<not> pc_incomplete q \<and> pc_read_error q = None"
    and s: "parsing c fut rs" "fut \<noteq> []"
  shows "parsed c' fut m (cl_pending c) rs"
proof -
  have c': "\<not> m" "c' = c\<lparr>cl_all_argv_len_sum := cl_all_argv_len_sum c - pc_argv_len_sum p\<rparr>"
    using finish_command_token [OF f p] by simp_all
  have "filter (\<lambda>p. \<not> pc_incomplete p) (cl_pending c) = cl_pending c" using ps by (simp add: filter_id_conv)
  then show ?thesis using s ps unfolding parsed_def
    by (intro exI [of _ rs] exI [of _ "[]"]) (auto simp: c' parsing_def inside_def args_at_def rest_of_def complete_def)
qed

lemma done_parsed:
  assumes f: "finish_command c p True = Ok (c', m)" and p: "pc_read_error p = None" "\<not> pc_incomplete p"
    and ps: "\<forall>q\<in>set (cl_pending c). \<not> pc_incomplete q \<and> pc_read_error q = None"
    and s: "rest_of c @ fut = stream rs" "req_args r = pc_argv p"
  shows "parsed c' fut m (cl_pending c) (r # rs)"
proof -
  have c': "m" "c' = resetClientQbufState (addPendingCommand c p)" using finish_command_token [OF f p(1)] p(2) by simp_all
  have fl: "filter (\<lambda>p. \<not> pc_incomplete p) (cl_pending c) = cl_pending c" using ps by (simp add: filter_id_conv)
  have "parsing c' fut rs"
    using s p by (auto simp: parsing_def c'(2) inside_def addPendingCommand_def resetClientQbufState_def rest_of_def)
  then show ?thesis using ps p fl s(2) c'(1) unfolding parsed_def
    by (intro exI [of _ rs] exI [of _ "[p]"]) (auto simp: c'(2) addPendingCommand_def resetClientQbufState_def complete_def)
qed

lemma outside_parsed:
  assumes sy: "sync c fut (r # rs)" and ni: "\<not> inside c" and rt: "req_type c = rtype r"
    and fit: "fits cf r" and m: "\<not> cf_master cf" "fits_signed 64 (cf_proto_max_bulk_len cf)"
    and p: "parse_command cf c = Ok (c', m)"
  shows "parsed c' fut m (cl_pending c) (r # rs)"
proof -
  let ?c0 = "c\<lparr>cl_reqtype := Some (rtype r)\<rparr>" and ?new = "acquirePendingCommand cf"
  have ps: "\<forall>q\<in>set (cl_pending c). \<not> pc_incomplete q \<and> pc_read_error q = None"
    using sy not_inside [OF _ ni] by (auto simp: sync_def)
  have new: "pc_argv ?new = []" "\<not> pc_incomplete ?new" "pc_read_error ?new = None" by (simp_all add: acquirePendingCommand_def)
  have st: "rest_of ?c0 @ fut = encode r @ stream rs" using sy ni by (simp add: sync_def parsing_def rest_of_def stream_def)
  have "\<not> inside ?c0" using ni by (simp add: inside_def)
  then have par: "parsing ?c0 fut (r # rs)" using sy ni by (simp add: sync_def parsing_def rest_of_def)
  have mbl: "cl_multibulklen ?c0 = 0" using sy ni sync_not_stopped [OF sy] by (simp add: sync_def client_wf_def between_def)
  have rdy: "\<not> (length (cl_pending ?c0) \<noteq> ready_len ?c0)"
    using complete_ready_len [of c] sy ni by (simp add: sync_def client_wf_def ready_len_def)
  show ?thesis
  proof (cases r)
    case (Inline args)
    obtain c1 q ok where i: "processInlineBuffer cf ?c0 ?new = (c1, q, ok)" by (cases "processInlineBuffer cf ?c0 ?new") auto
    have f: "finish_command c1 q ok = Ok (c', m)" using p i rt Inline by (simp add: parse_command_eq Let_def)
    have t: "pc_read_error q = None \<and> \<not> pc_incomplete q \<and>
        (if ok then pc_argv q = args \<and> rest_of c1 @ fut = stream rs else c1 = ?c0 \<and> fut \<noteq> [])"
      using inline_token [OF i _ _ m(1)] st fit new Inline by simp
    have pe: "cl_pending c1 = cl_pending c" using processInlineBuffer_frame [OF i] by simp
    show ?thesis
    proof (cases ok)
      case True
      show ?thesis using done_parsed [of c1 q c' m fut rs r] f True t ps pe Inline by simp
    next
      case False
      then have "c1 = ?c0" "fut \<noteq> []" using t by simp_all
      then show ?thesis using waiting_parsed [of c1 q c' m fut "r # rs"] f False t ps par by simp
    qed
  next
    case (Multibulk args)
    from p rt Multibulk rdy obtain c1 q ok where
      pm: "processMultibulkBuffer cf ?c0 ?new = Ok (c1, q, ok)" and f: "finish_command c1 q ok = Ok (c', m)"
      by (auto simp: parse_command_eq Let_def bind_outcome_Ok)
    from pm mbl obtain c2 q2 x where mc: "multibulk_count cf ?c0 ?new = Ok (c2, q2, x)"
      by (auto simp: processMultibulkBuffer_def bind_outcome_Ok)
    have st2: "rest_of ?c0 @ fut = header 42 (length args) @ concat (map bulk_string args) @ stream rs"
      using st Multibulk by simp
    have lim: "length args \<le> INT_MAX" "cf_auth_required cf \<longrightarrow> length args \<le> 10" "\<forall>a\<in>set args. arg_fits cf a"
      using fit Multibulk by (simp_all add: arg_fits_def)
    note t = multibulk_count_token [OF mc st2 lim(1,2)]
    have pe: "cl_pending c2 = cl_pending c"
      using mc unfolding multibulk_count_def Let_def by (auto split: option.splits if_splits)
    consider "x = Some False" "c2 = ?c0" "q2 = ?new" "fut \<noteq> []"
      | "args = []" "x = Some True" "pc_read_error q2 = None" "\<not> pc_incomplete q2" "pc_argv q2 = []" "rest_of c2 @ fut = stream rs"
      | "args \<noteq> []" "x = None" "pc_read_error q2 = None" "pc_argv q2 = []"
        "rest_of c2 @ fut = concat (map bulk_string args) @ stream rs" "cl_multibulklen c2 = length args" "cl_bulklen c2 = - 1"
      using t new by (cases "args = []") auto
    then show ?thesis
    proof cases
      case 1
      then have "c1 = ?c0" "q = ?new" "\<not> ok" using pm mc mbl by (auto simp: processMultibulkBuffer_def)
      then show ?thesis using waiting_parsed [of c1 q c' m fut "r # rs"] f 1(4) ps par new by simp
    next
      case 2
      then have "c1 = c2" "q = q2" "ok" using pm mc mbl by (auto simp: processMultibulkBuffer_def)
      then show ?thesis using done_parsed [of c1 q c' m fut rs r] f 2 ps pe Multibulk by simp
    next
      case 3
      have l: "multibulk_loop cf (length args) c2 q2 = Ok (c1, q, ok)"
        using pm mc mbl 3 by (simp add: processMultibulkBuffer_def)
      have "args_at c2 fut args (stream rs)" using 3 by (simp add: args_at_def)
      from loop_parsed [OF l this f 3(3) _ m lim(3)] ps pe 3(4) Multibulk show ?thesis by simp
    qed
  qed
qed

lemma inside_parsed:
  assumes sy: "sync c fut rs" and i: "inside c" and fit: "\<forall>r\<in>set rs. fits cf r"
    and m: "\<not> cf_master cf" "fits_signed 64 (cf_proto_max_bulk_len cf)" and p: "parse_command cf c = Ok (c', m)"
  shows "parsed c' fut m (butlast (cl_pending c)) rs"
proof -
  let ?c0 = "c\<lparr>cl_reqtype := Some PROTO_REQ_MULTIBULK, cl_pending := butlast (cl_pending c)\<rparr>" and ?p = "last (cl_pending c)"
  obtain todo rs' where r: "todo \<noteq> []" "rs = Multibulk (pc_argv ?p @ todo) # rs'" "args_at c fut todo (stream rs')"
    using sy i by (auto simp: sync_def parsing_def)
  have rt: "req_type c = PROTO_REQ_MULTIBULK" using sy i by (simp add: sync_def client_wf_def req_type_def)
  have rdy: "length (cl_pending c) \<noteq> ready_len (c\<lparr>cl_reqtype := Some PROTO_REQ_MULTIBULK\<rparr>)"
    using complete_ready_len [of c] sy i by (simp add: sync_def client_wf_def ready_len_def)
  from p rt rdy obtain c1 q ok where
    pm: "processMultibulkBuffer cf ?c0 ?p = Ok (c1, q, ok)" and f: "finish_command c1 q ok = Ok (c', m)"
    by (auto simp: parse_command_eq Let_def bind_outcome_Ok)
  have mbl: "cl_multibulklen ?c0 = length todo" "length todo \<noteq> 0" using r by (simp_all add: args_at_def)
  have l: "multibulk_loop cf (length todo) ?c0 ?p = Ok (c1, q, ok)"
    using pm mbl r(1) by (simp add: processMultibulkBuffer_def)
  have a: "args_at ?c0 fut todo (stream rs')" using r(3) by (simp add: args_at_def rest_of_def)
  have e: "pc_read_error ?p = None" using sy i by (auto simp: sync_def inside_def)
  have ps: "\<forall>q\<in>set (cl_pending ?c0). \<not> pc_incomplete q \<and> pc_read_error q = None"
    using sy by (auto simp: sync_def client_wf_def dest: in_set_butlastD)
  have "\<forall>a\<in>set todo. arg_fits cf a" using fit r(2) by (simp add: arg_fits_def)
  from loop_parsed [OF l a f e ps m this] r(2) show ?thesis by simp
qed

lemma parse_command_sync:
  assumes sy: "sync c fut rs" and fit: "\<forall>r\<in>set rs. fits cf r"
    and m: "\<not> cf_master cf" "fits_signed 64 (cf_proto_max_bulk_len cf)"
    and pos: "cl_qb_pos c < length (cl_querybuf c)" and p: "parse_command cf c = Ok (c', m)"
  shows "\<exists>rs'. sync c' fut rs' \<and> outcome_of c' rs' = outcome_of c rs \<and> set rs' \<subseteq> set rs \<and> (m \<or> fut \<noteq> []) \<and>
     length (complete c) + (if m then 1 else 0) \<le> length (complete c') \<and> kept c c'"
proof -
  have k: "kept c c'"
  proof -
    let ?c = "c\<lparr>cl_reqtype := Some (req_type c)\<rparr>"
    have 0: "kept c ?c" "kept c (?c\<lparr>cl_pending := butlast (cl_pending c)\<rparr>)" by (simp_all add: kept_def)
    have "\<exists>c1 q ok. kept c c1 \<and> finish_command c1 q ok = Ok (c', m)"
    proof (cases "req_type c")
      case PROTO_REQ_INLINE
      obtain c1 q ok where i: "processInlineBuffer cf ?c (acquirePendingCommand cf) = (c1, q, ok)"
        by (cases "processInlineBuffer cf ?c (acquirePendingCommand cf)") auto
      then have "finish_command c1 q ok = Ok (c', m)" using PROTO_REQ_INLINE p by (simp add: parse_command_eq Let_def)
      with kept_trans [OF 0(1) processInlineBuffer_kept [OF i]] show ?thesis by blast
    next
      case PROTO_REQ_MULTIBULK
      then show ?thesis using p kept_trans [OF 0(1) processMultibulkBuffer_kept] kept_trans [OF 0(2) processMultibulkBuffer_kept]
        by (auto simp: parse_command_eq Let_def bind_outcome_Ok split: if_splits; blast)
    qed
    then show ?thesis using kept_trans finish_command_kept by blast
  qed
  have wf: "client_wf c'" using parse_command_wf [of c cf] sy sync_not_stopped [OF sy] pos p by (auto simp: sync_def)
  have "parsed c' fut m (complete c) rs"
  proof (cases "inside c")
    case True
    have "complete c = butlast (cl_pending c)"
    proof -
      have "cl_pending c = butlast (cl_pending c) @ [last (cl_pending c)]" using True by (simp add: inside_def)
      then have "complete c = filter (\<lambda>p. \<not> pc_incomplete p) (butlast (cl_pending c))"
        using True unfolding complete_def inside_def by (metis (no_types, lifting) append_Nil2 filter.simps filter_append)
      also have "\<dots> = butlast (cl_pending c)" using sy by (auto simp: sync_def client_wf_def filter_id_conv)
      finally show ?thesis .
    qed
    then show ?thesis using inside_parsed [OF sy True fit m p] by simp
  next
    case False
    have "rest_of c @ fut = stream rs" "rest_of c \<noteq> []" using sy False pos by (simp_all add: sync_def parsing_def rest_of_def)
    then obtain r rs0 where rs: "rs = r # rs0" by (cases rs) (auto simp: stream_def)
    have rt: "req_type c = rtype r"
    proof (cases "cl_reqtype c")
      case None
      have "cl_querybuf c ! cl_qb_pos c = rest_of c ! 0" using pos by (simp add: rest_of_def)
      also have "\<dots> = (rest_of c @ fut) ! 0" using \<open>rest_of c \<noteq> []\<close> by (simp add: nth_append)
      also have "\<dots> = encode r ! 0" using \<open>rest_of c @ fut = stream rs\<close> encode_ne [of r] rs by (simp add: stream_def nth_append)
      finally have "cl_querybuf c ! cl_qb_pos c = encode r ! 0" .
      then show ?thesis using None encode_head [of r] by (cases "rtype r") (auto simp: req_type_def)
    next
      case (Some t)
      then show ?thesis using sy False rs by (simp add: sync_def parsing_def req_type_def)
    qed
    have "complete c = cl_pending c" using not_inside [OF _ False] sy by (auto simp: sync_def complete_def filter_id_conv)
    then show ?thesis using outside_parsed [OF sy [unfolded rs] False rt _ m p] fit rs by simp
  qed
  then obtain rs' new where
    q: "parsing c' fut rs'" "\<forall>p\<in>set (cl_pending c'). pc_read_error p = None" "set rs' \<subseteq> set rs"
      "if m then new \<noteq> [] else fut \<noteq> []" "complete c' = complete c @ new"
      "cmds (map pc_argv new) @ cmds (map req_args rs') = cmds (map req_args rs)"
    by (auto simp: parsed_def)
  then have "length (complete c') \<ge> length (complete c) + (if m then 1 else 0)" by (cases new) auto
  with q wf k show ?thesis by (intro exI [of _ rs']) (simp add: sync_def outcome_of_def kept_def split: if_splits)
qed

section \<open>The input buffer\<close>

definition conf_ok :: "conf \<Rightarrow> bool" where
  "conf_ok cf \<longleftrightarrow> \<not> cf_master cf \<and> fits_signed 64 (cf_proto_max_bulk_len cf) \<and> (cf_auth_required cf \<or> 0 < cf_lookahead cf)"

lemma parse_commands_sync:
  assumes "sync c fut rs" "\<forall>r\<in>set rs. fits cf r" "conf_ok cf" "parse_commands cf n c = Ok c'"
  shows "\<exists>rs'. sync c' fut rs' \<and> outcome_of c' rs' = outcome_of c rs \<and> set rs' \<subseteq> set rs \<and> kept c c' \<and>
     length (complete c) \<le> length (complete c') \<and>
     (0 < n \<and> cl_qb_pos c < length (cl_querybuf c) \<longrightarrow> complete c' \<noteq> [] \<or> fut \<noteq> [])"
  using assms
proof (induction n arbitrary: c rs)
  case 0
  then show ?case by (auto simp: kept_def)
next
  case (Suc n)
  show ?case
  proof (cases "cl_qb_pos c < length (cl_querybuf c)")
    case True
    then obtain c1 m where p: "parse_command cf c = Ok (c1, m)" and
      r: "(if m then parse_commands cf n c1 else Ok c1) = Ok c'"
      using Suc.prems(4) by (auto simp: bind_outcome_Ok)
    from parse_command_sync [OF Suc.prems(1,2) _ _ True p] Suc.prems(3) obtain rs1 where
      1: "sync c1 fut rs1" "outcome_of c1 rs1 = outcome_of c rs" "set rs1 \<subseteq> set rs" "m \<or> fut \<noteq> []"
        "length (complete c) + (if m then 1 else 0) \<le> length (complete c1)" "kept c c1"
      by (auto simp: conf_ok_def)
    show ?thesis
    proof (cases m)
      case True
      with r have "parse_commands cf n c1 = Ok c'" by simp
      moreover have "\<forall>r\<in>set rs1. fits cf r" using 1(3) Suc.prems(2) by blast
      ultimately obtain rs' where 2: "sync c' fut rs'" "outcome_of c' rs' = outcome_of c1 rs1" "set rs' \<subseteq> set rs1" "kept c1 c'"
        "length (complete c1) \<le> length (complete c')"
        using Suc.IH [OF 1(1) _ Suc.prems(3)] by blast
      have "complete c' \<noteq> []" using 2(5) 1(5) True by auto
      with 1 2 True kept_trans [OF 1(6) 2(4)] show ?thesis by (intro exI [of _ rs']) auto
    next
      case False
      then have "c' = c1" using r by simp
      with 1 False show ?thesis by (intro exI [of _ rs1]) auto
    qed
  next
    case False
    then show ?thesis using Suc.prems by (auto simp: kept_def)
  qed
qed

lemma complete_ready: "ready_len c = length (complete c)"
  by (simp add: ready_len_def complete_def)

lemma execute_sync:
  assumes sy: "sync c fut rs" and h: "cl_pending c = cur # rest" and r: "ready_len c \<noteq> 0"
    and e: "execute_head (c\<lparr>cl_read_error := None\<rparr>) cur rest = Ok c'"
  shows "sync c' fut rs \<and> outcome_of c' rs = outcome_of c rs"
proof -
  note x = execute_head_Ok [OF e]
  have wf: "client_wf (c\<lparr>cl_read_error := None\<rparr>)" using sy client_wf_read_error [where c = c and e = None] by (simp add: sync_def)
  have er: "pc_read_error cur = None" using sy h by (simp add: sync_def)
  have "client_wf c'"
    using execute_head_wf [OF wf, of cur rest] h r er e by (simp add: ready_len_def)
  moreover have inc: "\<not> pc_incomplete cur"
    using sy h r by (cases "rest = []") (auto simp: sync_def client_wf_def ready_len_def)
  moreover have i: "inside c' \<longleftrightarrow> inside c" "inside c \<Longrightarrow> last (cl_pending c') = last (cl_pending c)"
    using x h inc by (auto simp: inside_def)
  have "parsing c' fut rs"
  proof (cases "inside c")
    case True
    then show ?thesis using sy i x by (simp add: sync_def parsing_def args_at_def rest_of_def)
  next
    case False
    then show ?thesis using sy i x by (simp add: sync_def parsing_def rest_of_def)
  qed
  ultimately have "sync c' fut rs" using sy h x by (simp add: sync_def)
  moreover have "outcome_of c' rs = outcome_of c rs" using x h inc by (simp add: outcome_of_def complete_def)
  ultimately show ?thesis by simp
qed

lemma input_round_sync:
  assumes sy: "sync c fut rs" and fit: "\<forall>r\<in>set rs. fits cf r" and cf: "conf_ok cf"
    and cl: "\<not> cl_closing c" "cl_read_error c = None"
    and g: "cl_qb_pos c < length (cl_querybuf c) \<or> ready_len c > 0" and r: "input_round cf c = Ok (c', m)"
  shows "\<exists>rs'. sync c' fut rs' \<and> outcome_of c' rs' = outcome_of c rs \<and> set rs' \<subseteq> set rs \<and>
     \<not> cl_closing c' \<and> cl_read_error c' = None \<and> (m \<or> fut \<noteq> [])"
proof -
  obtain c1 where p: "(if ready_len c = 0 then parse_commands cf (lookahead cf) c else Ok c) = Ok c1" and
    q: "(if ready_len c1 = 0 then Ok (c1, False)
     else
       case cl_pending c1 of
         [] \<Rightarrow> Abort
       | curcmd # rest \<Rightarrow>
           let c = c1\<lparr>cl_read_error := pc_read_error curcmd\<rparr> in
           if cl_read_error c \<noteq> None then Ok (c, False)
           else bind_outcome (execute_head c curcmd rest) (\<lambda>c. Ok (c, True))) = Ok (c', m)"
    using r unfolding input_round_def bind_outcome_Ok by blast
  have la: "0 < lookahead cf" using cf by (auto simp: conf_ok_def lookahead_def)
  obtain rs' where 1: "sync c1 fut rs'" "outcome_of c1 rs' = outcome_of c rs" "set rs' \<subseteq> set rs" "kept c c1"
    "ready_len c1 = 0 \<longrightarrow> fut \<noteq> []"
  proof (cases "ready_len c = 0")
    case True
    with p have pc: "parse_commands cf (lookahead cf) c = Ok c1" by simp
    from parse_commands_sync [OF sy fit cf pc] True g la that show ?thesis by (auto simp: complete_ready)
  next
    case False
    with p have "c1 = c" by simp
    with that [of rs] sy False show ?thesis by (simp add: kept_def)
  qed
  show ?thesis
  proof (cases "ready_len c1 = 0")
    case True
    then have "c' = c1" using q by simp
    with 1 True cl show ?thesis by (intro exI [of _ rs']) (simp add: kept_def)
  next
    case False
    then obtain cur rest where h: "cl_pending c1 = cur # rest" by (cases "cl_pending c1") (auto simp: ready_len_def)
    have er: "pc_read_error cur = None" using 1(1) h by (simp add: sync_def)
    have e: "execute_head (c1\<lparr>cl_read_error := None\<rparr>) cur rest = Ok c'" and m: m
      using q False h er by (auto simp: Let_def bind_outcome_Ok)
    from execute_sync [OF 1(1) h False e] 1 m cl execute_head_Ok [OF e] show ?thesis
      by (intro exI [of _ rs']) (simp add: kept_def)
  qed
qed

lemma input_loop_sync:
  assumes "sync c fut rs" "\<forall>r\<in>set rs. fits cf r" "conf_ok cf" "\<not> cl_closing c" "cl_read_error c = None"
    "input_loop cf c = Ok c'"
  shows "\<exists>rs'. sync c' fut rs' \<and> outcome_of c' rs' = outcome_of c rs \<and> set rs' \<subseteq> set rs \<and>
     \<not> cl_closing c' \<and> cl_read_error c' = None \<and> (fut = [] \<longrightarrow> complete c' = [] \<and> rest_of c' = [])"
  using assms
proof (induction cf c arbitrary: rs rule: input_loop.induct)
  case (1 cf c)
  show ?case
  proof (cases "\<not> (cl_qb_pos c < length (cl_querybuf c) \<or> ready_len c > 0) \<or> cl_closing c")
    case True
    then have "c' = c" using "1.prems"(6) by (subst (asm) input_loop.simps) simp
    with True "1.prems" show ?thesis by (intro exI [of _ rs]) (simp add: complete_ready rest_of_def)
  next
    case g: False
    obtain c1 m where r: "input_round cf c = Ok (c1, m)"
      using input_round_wf [of c cf] "1.prems"(1) by (auto simp: sync_def)
    from input_round_sync [OF "1.prems"(1-5) _ r] g obtain rs1 where
      s: "sync c1 fut rs1" "outcome_of c1 rs1 = outcome_of c rs" "set rs1 \<subseteq> set rs"
        "\<not> cl_closing c1" "cl_read_error c1 = None" "m \<or> fut \<noteq> []" by auto
    show ?thesis
    proof (cases m)
      case True
      have "input_loop cf c = input_loop cf c1" using g r True by (subst input_loop.simps) simp
      then have l: "input_loop cf c1 = Ok c'" using "1.prems"(6) by simp
      have "\<forall>r\<in>set rs1. fits cf r" using s(3) "1.prems"(2) by blast
      from "1.IH" [OF g r refl True s(1) this "1.prems"(3) s(4,5) l] obtain rs' where
        "sync c' fut rs'" "outcome_of c' rs' = outcome_of c1 rs1" "set rs' \<subseteq> set rs1"
        "\<not> cl_closing c'" "cl_read_error c' = None" "fut = [] \<longrightarrow> complete c' = [] \<and> rest_of c' = []" by blast
      then show ?thesis using s(2,3) by (intro exI [of _ rs']) auto
    next
      case False
      have "input_loop cf c = Ok c1" using g r False by (subst input_loop.simps) simp
      then have "c' = c1" using "1.prems"(6) by simp
      with s False show ?thesis by (intro exI [of _ rs1]) auto
    qed
  qed
qed

lemma input_loop_unread: "input_loop cf c = Ok c' \<Longrightarrow> unread c' \<le> unread c"
proof (induction cf c rule: input_loop.induct)
  case (1 cf c)
  show ?case
  proof (cases "\<not> (cl_qb_pos c < length (cl_querybuf c) \<or> ready_len c > 0) \<or> cl_closing c")
    case True
    then show ?thesis using "1.prems" by (subst (asm) input_loop.simps) simp
  next
    case g: False
    then obtain c1 m where r: "input_round cf c = Ok (c1, m)" and k: "(if m then input_loop cf c1 else Ok c1) = Ok c'"
      using "1.prems" by (subst (asm) input_loop.simps) (auto split: outcome.splits)
    have "unread c1 \<le> unread c"
    proof -
      obtain c0 where p: "(if ready_len c = 0 then parse_commands cf (lookahead cf) c else Ok c) = Ok c0" and
        q: "(if ready_len c0 = 0 then Ok (c0, False)
         else
           case cl_pending c0 of
             [] \<Rightarrow> Abort
           | curcmd # rest \<Rightarrow>
               let c = c0\<lparr>cl_read_error := pc_read_error curcmd\<rparr> in
               if cl_read_error c \<noteq> None then Ok (c, False)
               else bind_outcome (execute_head c curcmd rest) (\<lambda>c. Ok (c, True))) = Ok (c1, m)"
        using r unfolding input_round_def bind_outcome_Ok by blast
      have "unread c0 \<le> unread c" using p parse_commands_frame by (cases "ready_len c = 0") auto
      moreover have "unread c1 = unread c0"
        using q by (auto simp: Let_def bind_outcome_Ok unread_def split: if_splits list.splits dest!: execute_head_Ok)
      ultimately show ?thesis by simp
    qed
    then show ?thesis using "1.IH" [OF g r refl] k by (cases m) auto
  qed
qed

section \<open>Reads\<close>

definition at_read :: "conf \<Rightarrow> client \<Rightarrow> bytes \<Rightarrow> request list \<Rightarrow> bool" where
  "at_read cf c fut rs \<longleftrightarrow> sync c fut rs \<and> (\<forall>r\<in>set rs. fits cf r) \<and> cl_qb_pos c = 0 \<and> \<not> cl_closing c \<and> cl_read_error c = None \<and>
     length (cl_querybuf c) + length fut \<le> cf_client_max_querybuf_len cf \<and>
     (cf_auth_required cf \<longrightarrow> length (cl_querybuf c) + length fut \<le> 1024 * 1024) \<and>
     (fut = [] \<longrightarrow> complete c = [] \<and> cl_querybuf c = [])"

lemma rest_of_append: "cl_qb_pos c \<le> length (cl_querybuf c) \<Longrightarrow> rest_of (c\<lparr>cl_read_error := e, cl_querybuf := cl_querybuf c @ d\<rparr>) = rest_of c @ d"
  by (simp add: rest_of_def)

lemma parsing_cong:
  "rest_of c' @ fut' = rest_of c @ fut \<Longrightarrow> cl_pending c' = cl_pending c \<Longrightarrow> cl_reqtype c' = cl_reqtype c \<Longrightarrow>
   cl_multibulklen c' = cl_multibulklen c \<Longrightarrow> cl_bulklen c' = cl_bulklen c \<Longrightarrow> parsing c' fut' rs = parsing c fut rs"
  by (simp add: parsing_def args_at_def inside_def)

lemma readQueryFromClient_sync:
  assumes a: "at_read cf c (d @ fut) rs" and cf: "conf_ok cf"
  shows "\<exists>c' rs'. readQueryFromClient cf c d = Ok c' \<and> at_read cf c' fut rs' \<and> outcome_of c' rs' = outcome_of c rs"
proof -
  let ?c = "c\<lparr>cl_read_error := None, cl_querybuf := cl_querybuf c @ d\<rparr>"
  have pos: "cl_qb_pos c = 0" using a by (simp add: at_read_def)
  have "client_wf ?c" using a client_wf_append by (simp add: at_read_def sync_def)
  moreover have "parsing ?c fut rs"
    using a parsing_cong [of ?c fut c "d @ fut" rs] pos by (simp add: at_read_def sync_def rest_of_def)
  ultimately have sy: "sync ?c fut rs" using a by (simp add: at_read_def sync_def)
  obtain c1 where l: "input_loop cf ?c = Ok c1" using input_loop_wf [OF \<open>client_wf ?c\<close>] by blast
  obtain rs' where s: "sync c1 fut rs'" "outcome_of c1 rs' = outcome_of ?c rs" "set rs' \<subseteq> set rs" "\<not> cl_closing c1"
      "cl_read_error c1 = None" "fut = [] \<longrightarrow> complete c1 = [] \<and> rest_of c1 = []"
    using input_loop_sync [OF sy _ cf _ _ l] a by (auto simp: at_read_def)
  define c2 where "c2 = c1\<lparr>cl_querybuf := rest_of c1, cl_qb_pos := 0\<rparr>"
  have p: "processInputBuffer cf ?c = Ok c2"
    using l cf unfolding processInputBuffer_def by (simp add: c2_def rest_of_def conf_ok_def)
  have lim: "\<not> (\<not> cf_master cf \<and> (length (cl_querybuf ?c) > cf_client_max_querybuf_len cf \<or>
      length (cl_querybuf ?c) > 1024 * 1024 \<and> cf_auth_required cf))"
    using a by (auto simp: at_read_def)
  have r: "readQueryFromClient cf c d = Ok c2"
    using p lim s(5) unfolding readQueryFromClient_def Let_def by (auto simp: c2_def)
  have len: "length (cl_querybuf c2) \<le> length (cl_querybuf c) + length d"
    using input_loop_unread [OF l] pos by (simp add: c2_def rest_of_def unread_def)
  have "client_wf c2" using s(1) client_wf_trim [of c1] by (simp add: sync_def c2_def rest_of_def)
  moreover have "parsing c2 fut rs'"
    using s(1) parsing_cong [of c2 fut c1 fut rs'] by (simp add: sync_def c2_def rest_of_def)
  ultimately have "sync c2 fut rs'" using s(1) by (simp add: sync_def c2_def)
  moreover have "outcome_of c2 rs' = outcome_of c rs" using s(2) by (simp add: outcome_of_def complete_def c2_def)
  moreover have "at_read cf c2 fut rs'"
    using \<open>sync c2 fut rs'\<close> s a len by (auto simp: at_read_def c2_def complete_def)
  ultimately show ?thesis using r by blast
qed

lemma reads_sync:
  assumes "at_read cf c (concat ds @ fut) rs" "conf_ok cf"
  shows "\<exists>c' rs'. reads cf c ds = Ok c' \<and> at_read cf c' fut rs' \<and> outcome_of c' rs' = outcome_of c rs"
  using assms(1)
proof (induction ds arbitrary: c rs)
  case (Cons d ds)
  from readQueryFromClient_sync [OF _ assms(2), of c d "concat ds @ fut" rs] Cons.prems obtain c1 rs1 where
    "readQueryFromClient cf c d = Ok c1" "at_read cf c1 (concat ds @ fut) rs1" "outcome_of c1 rs1 = outcome_of c rs" by auto
  with Cons.IH [of c1 rs1] show ?case by auto
qed auto

lemma at_read_end:
  assumes "at_read cf c [] rs"
  shows "rs = [] \<and> cl_pending c = []"
proof -
  have sy: "sync c [] rs" "rest_of c = []" "complete c = []" using assms by (auto simp: at_read_def rest_of_def)
  have ni: "\<not> inside c"
  proof
    assume "inside c"
    then obtain todo rs' where "todo \<noteq> []" "args_at c [] todo (stream rs')" using sy(1) by (auto simp: sync_def parsing_def)
    then show False using sy(2) by (cases todo) (auto simp: args_at_def bulk_string_def header_def)
  qed
  then have "stream rs = []" using sy by (simp add: sync_def parsing_def)
  then have "rs = []" using encode_ne by (cases rs) (auto simp: stream_def)
  moreover have "complete c = cl_pending c" using not_inside [OF _ ni] sy by (auto simp: sync_def complete_def filter_id_conv)
  ultimately show ?thesis using sy(3) by simp
qed

lemma createClient_sync:
  assumes "\<forall>r\<in>set rs. fits cf r" "length (stream rs) \<le> cf_client_max_querybuf_len cf"
    "cf_auth_required cf \<longrightarrow> length (stream rs) \<le> 1024 * 1024"
  shows "at_read cf createClient (stream rs) rs \<and> outcome_of createClient rs = cmds (map req_args rs)"
  using assms createClient_wf
  by (simp add: at_read_def sync_def parsing_def createClient_def inside_def rest_of_def outcome_of_def complete_def)

section \<open>Properties\<close>

text \<open>Property C1: The request parser loses and invents nothing: a stream of requests, each encoded as a RESP array of
  bulk strings or as an inline line of quoted arguments and within the configured limits, is executed in
  order, argument lists exactly as encoded, however the stream is cut into reads. After a part of the
  stream what has been executed is a beginning of the requests; after all of it, all of them, with the
  buffer and the list of pending commands empty and the connection open.\<close>

theorem reads_execute_requests:
  assumes "concat ds @ fut = stream rs" "\<forall>r\<in>set rs. fits cf r" "conf_ok cf"
    "length (stream rs) \<le> cf_client_max_querybuf_len cf" "cf_auth_required cf \<longrightarrow> length (stream rs) \<le> 1024 * 1024"
  shows "\<exists>c later. reads cf createClient ds = Ok c \<and> cl_executed c @ later = cmds (map req_args rs) \<and>
     \<not> cl_closing c \<and> cl_read_error c = None \<and>
     (fut = [] \<longrightarrow> cl_executed c = cmds (map req_args rs) \<and> cl_querybuf c = [] \<and> cl_pending c = [])"
proof -
  have 0: "at_read cf createClient (concat ds @ fut) rs" "outcome_of createClient rs = cmds (map req_args rs)"
    using createClient_sync [OF assms(2,4,5)] by (simp_all add: assms(1))
  from reads_sync [OF 0(1) assms(3)] obtain c rs' where
    c: "reads cf createClient ds = Ok c" "at_read cf c fut rs'" "outcome_of c rs' = cmds (map req_args rs)"
    unfolding 0(2) by blast
  have e: "cl_executed c = cmds (map req_args rs) \<and> cl_querybuf c = [] \<and> cl_pending c = []" if "fut = []"
  proof -
    have a: "at_read cf c [] rs'" using c(2) that by simp
    from at_read_end [OF a] a c(3) show ?thesis by (simp add: at_read_def outcome_of_def complete_def)
  qed
  have o: "cl_executed c @ (cmds (map pc_argv (complete c)) @ cmds (map req_args rs')) = cmds (map req_args rs)"
    using c(3) by (simp add: outcome_of_def)
  show ?thesis
    by (intro exI [of _ c] exI [of _ "cmds (map pc_argv (complete c)) @ cmds (map req_args rs')"] conjI impI)
      (use c e o in \<open>simp_all add: at_read_def\<close>)
qed

text \<open>\<open>*2\r\n$3\r\nGET\r\n$1\r\nk\r\n\<close>, the empty array and a line with \<open>PING\<close>, cut inside the first argument.\<close>

definition sample_conf :: conf where
  "sample_conf = \<lparr>cf_master = False, cf_auth_required = False, cf_proto_max_bulk_len = 512, cf_lookahead = 16,
     cf_client_max_querybuf_len = 1024, cf_pooled = 0\<rparr>"

definition sample_requests :: "request list" where
  "sample_requests = [Multibulk [[71, 69, 84], [107]], Multibulk [], Inline [[80, 73, 78, 71]]]"

lemma sample_stream:
  "stream sample_requests =
   [42, 50, 13, 10, 36, 51, 13, 10, 71, 69, 84, 13, 10, 36, 49, 13, 10, 107, 13, 10, 42, 48, 13, 10, 34, 80, 73, 78, 71, 34, 13, 10]"
  by (simp add: stream_def sample_requests_def bulk_string_def header_def decimal_def digit_def sdscatrepr_eq repr_char_def
      c_isprint_def)

theorem reads_execute_requests_witness:
  "\<exists>c. reads sample_conf createClient [take 9 (stream sample_requests), drop 9 (stream sample_requests)] = Ok c \<and>
     cl_executed c = [[[71, 69, 84], [107]], [[80, 73, 78, 71]]] \<and> cl_querybuf c = []"
proof -
  let ?ds = "[take 9 (stream sample_requests), drop 9 (stream sample_requests)]"
  have ds: "concat ?ds @ [] = stream sample_requests" by simp
  have fit: "\<forall>r\<in>set sample_requests. fits sample_conf r"
    by (simp add: sample_requests_def sample_conf_def INT_MAX_def PROTO_INLINE_MAX_SIZE_def sdscatrepr_eq repr_char_def c_isprint_def)
  have cf: "conf_ok sample_conf" by (simp add: conf_ok_def sample_conf_def fits_signed_def)
  have len: "length (stream sample_requests) \<le> cf_client_max_querybuf_len sample_conf"
    "cf_auth_required sample_conf \<longrightarrow> length (stream sample_requests) \<le> 1024 * 1024"
    unfolding sample_stream by (simp_all add: sample_conf_def)
  from reads_execute_requests [OF ds fit cf len] show ?thesis by (auto simp: sample_requests_def)
qed

text \<open>Property C2: No input crashes the request parser: whatever bytes arrive in whatever reads, every assertion of
  \<open>networking.c\<close> in it holds, no access leaves the argument array, the client stays well formed, and the
  running total of argument bytes is that of the arguments of the commands still pending.\<close>

theorem reads_never_abort:
  "\<exists>c. reads cf createClient ds = Ok c \<and> client_wf c \<and>
     cl_all_argv_len_sum c = sum_list (map (\<lambda>p. sum_list (map length (pc_argv p))) (cl_pending c))"
proof -
  obtain c where c: "reads cf createClient ds = Ok c" "client_wf c" using reads_total by blast
  then have "cl_all_argv_len_sum c = sum_list (map pc_argv_len_sum (cl_pending c))" by (simp add: client_wf_def)
  also have "\<dots> = sum_list (map (\<lambda>p. sum_list (map length (pc_argv p))) (cl_pending c))"
    using c(2) by (intro arg_cong [where f = sum_list] map_cong refl) (simp add: client_wf_def pc_ok_def)
  finally show ?thesis using c by blast
qed

section \<open>An argument header that is not one\<close>

text \<open>The error the code has for a line in the place of the header of an argument, or none.\<close>

definition header_error :: "conf \<Rightarrow> bytes \<Rightarrow> read_error option" where
  "header_error cf l =
     (if l = [] \<or> hd l \<noteq> 36 then Some CLIENT_READ_EXPECTED_DOLLAR
      else
        case string2ll (tl l) of
          None \<Rightarrow> Some CLIENT_READ_INVALID_BUCK_LENGTH
        | Some ll \<Rightarrow>
            if ll < 0 \<or> \<not> cf_master cf \<and> ll > cf_proto_max_bulk_len cf then Some CLIENT_READ_INVALID_BUCK_LENGTH
            else if ll > 16384 \<and> cf_auth_required cf then Some CLIENT_READ_UNAUTH_BUCK_LENGTH
            else None)"

definition bad_line :: "conf \<Rightarrow> bytes \<Rightarrow> read_error \<Rightarrow> bool" where
  "bad_line cf l e \<longleftrightarrow> 13 \<notin> set l \<and> length l \<le> PROTO_INLINE_MAX_SIZE \<and> header_error cf l = Some e"

lemma bulk_length_bad:
  assumes b: "bulk_length cf c p = Ok (c', p', r)" and l: "cl_bulklen c = - 1" and bad: "bad_line cf l e"
    and s: "rest_of c @ fut = l @ [13, 10] @ post"
  shows "c' = c \<and> (if length fut \<le> length post then r = Bulk_error \<and> p' = pc_fail e p else r = Bulk_break \<and> p' = p)"
proof -
  let ?q = "cl_querybuf c" and ?pos = "cl_qb_pos c"
  have clean: "13 \<notin> set l" and len: "length l \<le> PROTO_INLINE_MAX_SIZE" and he: "header_error cf l = Some e"
    using bad by (simp_all add: bad_line_def)
  have total: "length (rest_of c) + length fut = length l + 2 + length post" using arg_cong [OF s, of length] by simp
  from s show ?thesis
  proof (cases rule: partial_line)
    case (part k)
    have "13 \<notin> set (rest_of c)" using part(1) clean by (metis in_set_takeD)
    then have "memchr ?q ?pos 13 = None" by (simp add: memchr_None rest_of_def)
    moreover have "length (rest_of c) \<le> length l" using part(1,2) by simp
    moreover from this have "length ?q - ?pos \<le> PROTO_INLINE_MAX_SIZE" "length post < length fut"
      using len length_rest_of [of c] total by simp_all
    ultimately show ?thesis using b l by (auto simp: bulk_length_def Let_def)
  next
    case almost
    have "drop ?pos ?q = l @ 13 # []" using almost by (simp add: rest_of_def)
    note a = memchr_at [OF this clean] and d = drop_split [OF this]
    have "length post < length fut" using total almost(1) by simp
    then show ?thesis using b l a d by (auto simp: bulk_length_def Let_def)
  next
    case (whole b')
    have e: "drop ?pos ?q = l @ 13 # 10 # b'" using whole by (simp add: rest_of_def)
    note a = memchr_at [OF e clean] and d = drop_split [OF e]
    have fut: "length fut \<le> length post" using total whole(1) by simp
    have q0: "?q ! ?pos = (if l = [] then 13 else hd l)"
    proof -
      have "?q ! ?pos = drop ?pos ?q ! 0" using d by simp
      then show ?thesis unfolding e by (cases l) simp_all
    qed
    have t: "take (length l - 1) (drop (Suc ?pos) ?q) = tl l" if "l \<noteq> []"
    proof -
      have "drop (Suc ?pos) ?q = tl (drop ?pos ?q)" by (simp add: drop_Suc tl_drop)
      then show ?thesis unfolding e using that by simp
    qed
    show ?thesis
    proof (cases "l = [] \<or> hd l \<noteq> 36")
      case True
      then have "e = CLIENT_READ_EXPECTED_DOLLAR" "?q ! ?pos \<noteq> 36" using he q0 by (auto simp: header_error_def)
      then show ?thesis using b l a d fut by (simp add: bulk_length_def Let_def)
    next
      case False
      then have "take (?pos + length l - (?pos + 1)) (drop (?pos + 1) ?q) = tl l" "?q ! ?pos = 36" using t q0 by simp_all
      then show ?thesis using b l a d fut he False unfolding bulk_length_def Let_def header_error_def
        by (auto split: option.splits if_splits)
    qed
  qed
qed

text \<open>The arguments still to come before the bad line. The command expects post arguments than these.\<close>

definition bad_ahead :: "client \<Rightarrow> bytes \<Rightarrow> bytes list \<Rightarrow> bytes \<Rightarrow> bool" where
  "bad_ahead c fut todo post \<longleftrightarrow> length todo < cl_multibulklen c \<and> args_at (c\<lparr>cl_multibulklen := length todo\<rparr>) fut todo post"

lemma bad_ahead_cong:
  "rest_of c' @ fut' = rest_of c @ fut \<Longrightarrow> cl_multibulklen c' = cl_multibulklen c \<Longrightarrow> cl_bulklen c' = cl_bulklen c \<Longrightarrow>
   bad_ahead c' fut' todo post = bad_ahead c fut todo post"
  by (simp add: bad_ahead_def args_at_def rest_of_def)

lemma multibulk_loop_bad:
  assumes "multibulk_loop cf n c p = Ok (c', p', ok)" "n = cl_multibulklen c" "bad_ahead c fut todo (l @ [13, 10] @ post)"
    "bad_line cf l e" "\<not> cf_master cf" "fits_signed 64 (cf_proto_max_bulk_len cf)" "\<forall>a\<in>set todo. arg_fits cf a"
  shows "if length fut \<le> length post
     then \<not> ok \<and> pc_read_error p' = Some e \<and> pc_incomplete p' = pc_incomplete p \<and> bad_ahead c' fut [] (l @ [13, 10] @ post)
     else ok \<and> pc_incomplete p' \<and> (\<exists>todo'. set todo' \<subseteq> set todo \<and> bad_ahead c' fut todo' (l @ [13, 10] @ post))"
  using assms
proof (induction n arbitrary: c p todo)
  case 0
  then show ?case by (simp add: bad_ahead_def)
next
  case (Suc n)
  from Suc.prems(1) obtain c1 p1 r where b: "bulk_length cf c p = Ok (c1, p1, r)" by (auto simp: bind_outcome_Ok)
  show ?case
  proof (cases todo)
    case Nil
    then have at: "cl_bulklen c = - 1" "rest_of c @ fut = l @ [13, 10] @ post"
      using Suc.prems(3) by (simp_all add: bad_ahead_def args_at_def rest_of_def)
    note t = bulk_length_bad [OF b at(1) Suc.prems(4) at(2)]
    show ?thesis
    proof (cases "length fut \<le> length post")
      case True
      then have "c' = c" "p' = pc_fail e p" "\<not> ok" using t b Suc.prems(1) by auto
      then show ?thesis using True Suc.prems(3) Nil by (simp add: pc_fail_def)
    next
      case False
      then have "c' = c" "p' = p\<lparr>pc_incomplete := True\<rparr>" "ok" using t b Suc.prems(1) by auto
      then show ?thesis using False Suc.prems(3) Nil by auto
    qed
  next
    case todo: (Cons a as)
    have fa: "arg_fits cf a" using Suc.prems(7) todo by simp
    have 1: "(r = Bulk_break \<and> c1 = c \<and> p1 = p \<and> length post < length fut) \<or>
       (r = Bulk_go \<and> cl_bulklen c1 = int (length a) \<and> cl_multibulklen c1 = cl_multibulklen c \<and>
        rest_of c1 @ fut = a @ [13, 10] @ concat (map bulk_string as) @ l @ [13, 10] @ post \<and> (\<exists>k. p1 = p\<lparr>pc_input_bytes := k\<rparr>))"
    proof (cases "cl_bulklen c = - 1")
      case True
      have s: "rest_of c @ fut = header 36 (length a) @ a @ [13, 10] @ concat (map bulk_string as) @ l @ [13, 10] @ post"
        using Suc.prems(3) True todo by (auto simp: bad_ahead_def args_at_def bulk_string_def rest_of_def)
      note t = bulk_length_token [OF b True s Suc.prems(5) _ Suc.prems(6)]
      have keep: "r = Bulk_go \<longrightarrow> cl_multibulklen c1 = cl_multibulklen c"
        using b by (auto simp: bulk_length_def Let_def split: option.splits if_splits)
      show ?thesis
      proof (cases "length fut \<le> length post")
        case False
        then show ?thesis using t keep fa by (auto simp: arg_fits_def)
      next
        case fl: True
        define buf where "buf = a @ [13, 10] @ concat (map bulk_string as) @ l @ [13, 10] @ take (length post - length fut) post"
        have "rest_of c @ fut = (header 36 (length a) @ buf) @ drop (length post - length fut) post" unfolding s buf_def by simp
        moreover have "length fut = length (drop (length post - length fut) post)" using fl by simp
        ultimately have "rest_of c @ [] = header 36 (length a) @ buf" using append_eq_append_conv by (metis append_Nil2)
        from bulk_length_token [OF b True this Suc.prems(5) _ Suc.prems(6)] fa have "r = Bulk_go" by (auto simp: arg_fits_def)
        then show ?thesis using t keep fa by (auto simp: arg_fits_def)
      qed
    next
      case False
      then have "c1 = c" "p1 = p" "r = Bulk_go" using b by (auto simp: bulk_length_def)
      then show ?thesis using Suc.prems(3) False todo
        by (auto simp: bad_ahead_def args_at_def rest_of_def intro: exI [of _ "pc_input_bytes p"])
    qed
    show ?thesis
    proof (cases "r = Bulk_break")
      case True
      with 1 Suc.prems(1) b have "c' = c" "p' = p\<lparr>pc_incomplete := True\<rparr>" "ok" "length post < length fut" by auto
      then show ?thesis using Suc.prems(3) by auto
    next
      case False
      with 1 have go: "r = Bulk_go" "cl_bulklen c1 = int (length a)" "cl_multibulklen c1 = cl_multibulklen c"
        "rest_of c1 @ fut = a @ [13, 10] @ concat (map bulk_string as) @ l @ [13, 10] @ post" "pc_incomplete p1 = pc_incomplete p" by auto
      from Suc.prems(1) b go(1) obtain c2 p2 t where t: "bulk_argument cf c1 p1 = Ok (c2, p2, t)" by (auto simp: bind_outcome_Ok)
      note 2 = bulk_argument_token [OF t go(2,4)]
      show ?thesis
      proof (cases t)
        case True
        have lp: "multibulk_loop cf n c2 p2 = Ok (c', p', ok)" using Suc.prems(1) b go(1) t True by simp
        have n: "n = cl_multibulklen c2" using 2 True go(3) Suc.prems(2) by simp
        have "bad_ahead c2 fut as (l @ [13, 10] @ post)"
          using 2 True go(3) todo Suc.prems(2,3) n by (auto simp: bad_ahead_def args_at_def rest_of_def)
        from Suc.IH [OF lp n this Suc.prems(4-6)] Suc.prems(7) todo 2 True go(5) show ?thesis by (auto split: if_splits)
      next
        case False
        with 2 have s: "c2 = c1" "p2 = p1" by simp_all
        then have r: "c' = c1" "p' = p1\<lparr>pc_incomplete := True\<rparr>" "ok" using Suc.prems(1) b go(1) t False by auto
        have "length post < length fut"
        proof -
          have "length (cl_querybuf c1) - cl_qb_pos c1 < length a + 2"
            using t False go(2) by (auto simp: bulk_argument_def Let_def split: if_splits)
          moreover have "length (rest_of c1) + length fut \<ge> length a + 2 + length post + 2" using arg_cong [OF go(4), of length] by simp
          ultimately show ?thesis by (simp add: length_rest_of)
        qed
        moreover have "bad_ahead c1 fut todo (l @ [13, 10] @ post)"
          using go todo Suc.prems(3) by (simp add: bad_ahead_def args_at_def rest_of_def)
        ultimately show ?thesis using r by auto
      qed
    qed
  qed
qed

section \<open>A command that is never finished\<close>

text \<open>The bad line lies ahead of a command that a read has left incomplete.\<close>

definition doomed :: "conf \<Rightarrow> bytes \<Rightarrow> client \<Rightarrow> bytes \<Rightarrow> bool" where
  "doomed cf post c fut \<longleftrightarrow> client_wf c \<and> \<not> cl_closing c \<and> cl_read_error c = None \<and>
     (\<exists>p todo. cl_pending c = [p] \<and> pc_incomplete p \<and> (\<forall>a\<in>set todo. arg_fits cf a) \<and> bad_ahead c fut todo post)"

lemma doomed_cong:
  "rest_of c' @ fut' = rest_of c @ fut \<Longrightarrow> cl_pending c' = cl_pending c \<Longrightarrow> cl_multibulklen c' = cl_multibulklen c \<Longrightarrow>
   cl_bulklen c' = cl_bulklen c \<Longrightarrow> cl_closing c' = cl_closing c \<Longrightarrow> cl_read_error c' = None \<Longrightarrow> client_wf c' \<Longrightarrow>
   doomed cf post c fut \<Longrightarrow> doomed cf post c' fut'"
  using bad_ahead_cong [of c' fut' c fut] by (simp add: doomed_def)

lemma finish_command_stop:
  assumes "finish_command c p ok = Ok (c', m)" "ok \<or> pc_read_error p \<noteq> None" "pc_incomplete p \<or> pc_read_error p \<noteq> None"
  shows "\<not> m \<and> c' = addPendingCommand c p"
  using assms by (auto simp: finish_command_def)

lemma loop_doomed:
  assumes l: "multibulk_loop cf (cl_multibulklen c) c p = Ok (c1, q, ok)" and f: "finish_command c1 q ok = Ok (c', m)"
    and c: "cl_pending c = []" "bad_ahead c fut todo (l @ [13, 10] @ post)" "\<forall>a\<in>set todo. arg_fits cf a"
    and bad: "bad_line cf l e" and cf: "\<not> cf_master cf" "fits_signed 64 (cf_proto_max_bulk_len cf)"
    and wf: "client_wf c'" "\<not> cl_closing c" "cl_read_error c = None"
  shows "\<not> m \<and> kept c c' \<and>
    (if pc_incomplete p \<or> length post < length fut then doomed cf (l @ [13, 10] @ post) c' fut
     else \<exists>q. cl_pending c' = [q] \<and> \<not> pc_incomplete q \<and> pc_read_error q = Some e)"
proof -
  note t = multibulk_loop_bad [OF l refl c(2) bad cf c(3)]
  have s: "\<not> m" "c' = addPendingCommand c1 q" using finish_command_stop [OF f] t by (auto split: if_splits)
  have pend: "cl_pending c' = [q]" using multibulk_loop_frame [OF l] c(1) s(2) by (simp add: addPendingCommand_def)
  have k: "kept c c'" using kept_trans multibulk_loop_kept [OF l] finish_command_kept [OF f] by blast
  have same: "bad_ahead c' fut td x = bad_ahead c1 fut td x" for td x
    by (rule bad_ahead_cong) (simp_all add: s(2) addPendingCommand_def rest_of_def)
  have "doomed cf (l @ [13, 10] @ post) c' fut" if "pc_incomplete q"
  proof -
    have "\<exists>todo'. (\<forall>a\<in>set todo'. arg_fits cf a) \<and> bad_ahead c1 fut todo' (l @ [13, 10] @ post)"
      using t c(3) by (cases "length fut \<le> length post") (auto intro: exI [of _ "[]"])
    then show ?thesis using that wf k pend by (auto simp: doomed_def kept_def same)
  qed
  then show ?thesis using t s(1) pend k by (auto split: if_splits)
qed

lemma doomed_command:
  assumes d: "doomed cf (l @ [13, 10] @ post) c fut" and bad: "bad_line cf l e" and cf: "conf_ok cf"
    and pos: "cl_qb_pos c < length (cl_querybuf c)" and p: "parse_command cf c = Ok (c', m)"
  shows "\<not> m \<and> kept c c' \<and> doomed cf (l @ [13, 10] @ post) c' fut"
proof -
  obtain q todo where q: "cl_pending c = [q]" "pc_incomplete q" "\<forall>a\<in>set todo. arg_fits cf a" "bad_ahead c fut todo (l @ [13, 10] @ post)"
    and wf: "client_wf c" "\<not> cl_closing c" "cl_read_error c = None"
    using d by (auto simp: doomed_def)
  let ?c0 = "c\<lparr>cl_reqtype := Some PROTO_REQ_MULTIBULK, cl_pending := []\<rparr>"
  have i: "inside c" "\<not> stopped c" using q(1,2) by (simp_all add: inside_def stopped_def)
  have rt: "req_type c = PROTO_REQ_MULTIBULK" using wf(1) i(1) by (simp add: client_wf_def req_type_def)
  have rdy: "length (cl_pending c) \<noteq> ready_len (c\<lparr>cl_reqtype := Some PROTO_REQ_MULTIBULK\<rparr>)" using q by (simp add: ready_len_def)
  from p rt rdy obtain c1 r ok where pm: "processMultibulkBuffer cf ?c0 q = Ok (c1, r, ok)" and f: "finish_command c1 r ok = Ok (c', m)"
    using q(1) by (auto simp: parse_command_eq Let_def bind_outcome_Ok)
  have n: "cl_multibulklen ?c0 \<noteq> 0" using q(4) by (auto simp: bad_ahead_def)
  then have l: "multibulk_loop cf (cl_multibulklen ?c0) ?c0 q = Ok (c1, r, ok)" using pm by (simp add: processMultibulkBuffer_def)
  have a: "bad_ahead ?c0 fut todo (l @ [13, 10] @ post)" using q(4) bad_ahead_cong [of ?c0 fut c fut] by (simp add: rest_of_def)
  have w: "client_wf c'" using parse_command_wf [OF wf(1) i(2) pos, of cf] p by auto
  from loop_doomed [OF l f _ a q(3) bad _ _ w] q(2) wf cf show ?thesis by (simp add: conf_ok_def kept_def)
qed

lemma doomed_loop:
  assumes d: "doomed cf (l @ [13, 10] @ post) c fut" and bad: "bad_line cf l e" and cf: "conf_ok cf"
  shows "\<exists>c'. input_loop cf c = Ok c' \<and> doomed cf (l @ [13, 10] @ post) c' fut \<and> cl_executed c' = cl_executed c"
proof (cases "cl_qb_pos c < length (cl_querybuf c)")
  case False
  moreover have "ready_len c = 0" using d by (auto simp: doomed_def ready_len_def)
  ultimately show ?thesis using d by (subst input_loop.simps) simp
next
  case pos: True
  have wf: "client_wf c" "\<not> stopped c" "ready_len c = 0" using d by (auto simp: doomed_def stopped_def ready_len_def)
  obtain c' m where p: "parse_command cf c = Ok (c', m)" using parse_command_wf [OF wf(1,2) pos, of cf] by blast
  note s = doomed_command [OF d bad cf pos p]
  have "0 < lookahead cf" using cf by (auto simp: conf_ok_def lookahead_def)
  then obtain n where "lookahead cf = Suc n" using gr0_conv_Suc by blast
  then have "parse_commands cf (lookahead cf) c = Ok c'" using pos p s by simp
  moreover have "ready_len c' = 0" using s by (auto simp: doomed_def ready_len_def)
  ultimately have "input_round cf c = Ok (c', False)" using wf(3) by (simp add: input_round_def)
  moreover have "\<not> cl_closing c" using d by (simp add: doomed_def)
  ultimately have "input_loop cf c = Ok c'" using pos by (subst input_loop.simps) simp
  then show ?thesis using s by (simp add: kept_def)
qed

section \<open>Reads\<close>

text \<open>A read within the limits of the buffer.\<close>

definition trimmed :: "client \<Rightarrow> client" where
  "trimmed c = c\<lparr>cl_querybuf := rest_of c, cl_qb_pos := 0\<rparr>"

lemma trimmed_simps [simp]:
  "rest_of (trimmed c) = rest_of c" "cl_querybuf (trimmed c) = rest_of c" "cl_qb_pos (trimmed c) = 0"
  "cl_pending (trimmed c) = cl_pending c" "cl_multibulklen (trimmed c) = cl_multibulklen c" "cl_bulklen (trimmed c) = cl_bulklen c"
  "cl_reqtype (trimmed c) = cl_reqtype c" "cl_closing (trimmed c) = cl_closing c" "cl_read_error (trimmed c) = cl_read_error c"
  "cl_executed (trimmed c) = cl_executed c"
  by (simp_all add: trimmed_def rest_of_def)

lemma trimmed_wf: "client_wf c \<Longrightarrow> client_wf (trimmed c)"
  using client_wf_trim by (simp add: trimmed_def rest_of_def)

definition room :: "conf \<Rightarrow> nat \<Rightarrow> bool" where
  "room cf n \<longleftrightarrow> n \<le> cf_client_max_querybuf_len cf \<and> (cf_auth_required cf \<longrightarrow> n \<le> 1024 * 1024)"

lemma room_mono: "m \<le> n \<Longrightarrow> room cf n \<Longrightarrow> room cf m"
  by (auto simp: room_def)

lemma read_trimmed:
  assumes l: "input_loop cf (c\<lparr>cl_read_error := None, cl_querybuf := cl_querybuf c @ d\<rparr>) = Ok c1"
    and pos: "cl_qb_pos c = 0" and cf: "conf_ok cf" and lim: "room cf (length (cl_querybuf c) + length d)"
  shows "readQueryFromClient cf c d = Ok (if cl_read_error c1 \<noteq> None then (trimmed c1)\<lparr>cl_closing := True\<rparr> else trimmed c1)
    \<and> length (rest_of c1) \<le> length (cl_querybuf c) + length d"
proof -
  let ?c = "c\<lparr>cl_read_error := None, cl_querybuf := cl_querybuf c @ d\<rparr>"
  have "processInputBuffer cf ?c = Ok (trimmed c1)"
    using l cf by (simp add: processInputBuffer_def trimmed_def rest_of_def conf_ok_def)
  moreover have "\<not> (\<not> cf_master cf \<and> (length (cl_querybuf ?c) > cf_client_max_querybuf_len cf \<or>
      length (cl_querybuf ?c) > 1024 * 1024 \<and> cf_auth_required cf))"
    using lim by (auto simp: room_def)
  ultimately have "readQueryFromClient cf c d = Ok (if cl_read_error c1 \<noteq> None then (trimmed c1)\<lparr>cl_closing := True\<rparr> else trimmed c1)"
    unfolding readQueryFromClient_def Let_def by (auto simp del: length_append)
  moreover have "length (rest_of c1) \<le> length (cl_querybuf c) + length d"
    using input_loop_unread [OF l] pos by (simp add: unread_def rest_of_def)
  ultimately show ?thesis by simp
qed

lemma appended_rest: "cl_qb_pos c = 0 \<Longrightarrow> rest_of (c\<lparr>cl_read_error := e, cl_querybuf := cl_querybuf c @ d\<rparr>) = rest_of c @ d"
  by (simp add: rest_of_def)

lemma doomed_reads:
  assumes "doomed cf (l @ [13, 10] @ post) c (concat ds)" "bad_line cf l e" "conf_ok cf" "cl_qb_pos c = 0"
    "room cf (length (cl_querybuf c) + length (concat ds))"
  shows "\<exists>c'. reads cf c ds = Ok c' \<and> doomed cf (l @ [13, 10] @ post) c' [] \<and> cl_executed c' = cl_executed c"
  using assms
proof (induction ds arbitrary: c)
  case (Cons d ds)
  let ?c = "c\<lparr>cl_read_error := None, cl_querybuf := cl_querybuf c @ d\<rparr>"
  have wf: "client_wf ?c" using Cons.prems(1) client_wf_append by (simp add: doomed_def)
  have "doomed cf (l @ [13, 10] @ post) ?c (concat ds)"
    by (rule doomed_cong [OF _ _ _ _ _ _ wf Cons.prems(1)]) (simp_all add: appended_rest Cons.prems(4))
  from doomed_loop [OF this Cons.prems(2,3)] obtain c1 where
    c1: "input_loop cf ?c = Ok c1" "doomed cf (l @ [13, 10] @ post) c1 (concat ds)" "cl_executed c1 = cl_executed c" by auto
  have "room cf (length (cl_querybuf c) + length d)" by (rule room_mono [OF _ Cons.prems(5)]) simp
  note r = read_trimmed [OF c1(1) Cons.prems(4,3) this]
  have ok: "cl_read_error c1 = None" "client_wf c1" using c1(2) by (simp_all add: doomed_def)
  have "doomed cf (l @ [13, 10] @ post) (trimmed c1) (concat ds)"
    by (rule doomed_cong [OF _ _ _ _ _ _ trimmed_wf c1(2)]) (simp_all add: ok)
  moreover have "room cf (length (cl_querybuf (trimmed c1)) + length (concat ds))"
    by (rule room_mono [OF _ Cons.prems(5)]) (use r in simp)
  ultimately obtain c' where "reads cf (trimmed c1) ds = Ok c'" "doomed cf (l @ [13, 10] @ post) c' []" "cl_executed c' = cl_executed (trimmed c1)"
    using Cons.IH [OF _ Cons.prems(2,3)] by (metis trimmed_simps(3))
  then show ?case using r ok(1) c1(3) by simp
qed simp

section \<open>The count of arguments\<close>

text \<open>The header of the command is not complete yet; \<open>s\<close> is the rest of the stream from it on.\<close>

definition counting :: "bytes \<Rightarrow> client \<Rightarrow> bytes \<Rightarrow> bool" where
  "counting s c fut \<longleftrightarrow> client_wf c \<and> \<not> cl_closing c \<and> cl_read_error c = None \<and> cl_pending c = [] \<and> cl_multibulklen c = 0
     \<and> (cl_reqtype c = None \<or> cl_reqtype c = Some PROTO_REQ_MULTIBULK) \<and> rest_of c @ fut = s"

lemma append_front:
  "xs @ ys = h @ t \<Longrightarrow> length h \<le> length xs \<Longrightarrow> xs = h @ drop (length h) xs \<and> drop (length h) xs @ ys = t"
  by (auto simp: append_eq_append_conv2)

lemma counting_command:
  assumes c: "counting (header 42 n @ concat (map bulk_string args) @ l @ [13, 10] @ post) c fut"
    and n: "length args < n" "n \<le> INT_MAX" "cf_auth_required cf \<longrightarrow> n \<le> 10" and fit: "\<forall>a\<in>set args. arg_fits cf a"
    and bad: "bad_line cf l e" and cf: "conf_ok cf"
    and pos: "cl_qb_pos c < length (cl_querybuf c)" and p: "parse_command cf c = Ok (c', m)"
  shows "\<not> m \<and> kept c c' \<and>
    (if length (rest_of c) < length (header 42 n) then counting (header 42 n @ concat (map bulk_string args) @ l @ [13, 10] @ post) c' fut
     else if length post < length fut then doomed cf (l @ [13, 10] @ post) c' fut
     else \<exists>q. cl_pending c' = [q] \<and> \<not> pc_incomplete q \<and> pc_read_error q = Some e)"
proof -
  let ?c0 = "c\<lparr>cl_reqtype := Some PROTO_REQ_MULTIBULK\<rparr>" and ?new = "acquirePendingCommand cf"
  have new: "pc_argv ?new = []" "\<not> pc_incomplete ?new" "pc_read_error ?new = None" by (simp_all add: acquirePendingCommand_def)
  have pend: "cl_pending c = []" "cl_multibulklen c = 0" and wf: "client_wf c" and cl: "\<not> cl_closing c" "cl_read_error c = None"
    using c by (simp_all add: counting_def)
  have st: "rest_of ?c0 @ fut = header 42 n @ concat (map bulk_string args) @ l @ [13, 10] @ post"
    using c by (simp add: counting_def rest_of_def)
  have "\<not> stopped c" using pend by (simp add: stopped_def)
  then have wf': "client_wf c'" using parse_command_wf [OF wf _ pos, of cf] p by auto
  have rt: "req_type c = PROTO_REQ_MULTIBULK"
  proof -
    have "rest_of c \<noteq> []" using pos by (simp add: rest_of_def)
    have "cl_querybuf c ! cl_qb_pos c = rest_of c ! 0" using pos by (simp add: rest_of_def)
    also have "\<dots> = (rest_of c @ fut) ! 0" using \<open>rest_of c \<noteq> []\<close> by (simp add: nth_append)
    also have "\<dots> = 42" using c by (simp add: counting_def header_def)
    finally show ?thesis using c by (auto simp: req_type_def counting_def)
  qed
  have rdy: "\<not> (length (cl_pending ?c0) \<noteq> ready_len ?c0)" using pend by (simp add: ready_len_def)
  from p rt rdy obtain c1 q ok where pm: "processMultibulkBuffer cf ?c0 ?new = Ok (c1, q, ok)" and f: "finish_command c1 q ok = Ok (c', m)"
    by (auto simp: parse_command_eq Let_def bind_outcome_Ok)
  from pm pend(2) obtain c2 q2 x where mc: "multibulk_count cf ?c0 ?new = Ok (c2, q2, x)"
    by (auto simp: processMultibulkBuffer_def bind_outcome_Ok)
  show ?thesis
  proof (cases "length (rest_of c) < length (header 42 n)")
    case True
    have "length (concat (map bulk_string args) @ l @ [13, 10] @ post) < length fut"
      using True arg_cong [OF st, of length] by (simp add: rest_of_def)
    then have "rest_of c2 @ fut \<noteq> concat (map bulk_string args) @ l @ [13, 10] @ post"
      by (auto dest!: arg_cong [where f = length])
    then have "x = Some False" "c2 = ?c0" "q2 = ?new" using multibulk_count_token [OF mc st n(2,3)] by auto
    then have "c1 = ?c0" "q = ?new" "\<not> ok" using pm mc pend(2) by (auto simp: processMultibulkBuffer_def)
    then have "\<not> m" "c' = ?c0\<lparr>cl_all_argv_len_sum := cl_all_argv_len_sum c - pc_argv_len_sum ?new\<rparr>"
      using finish_command_token [OF f] new by simp_all
    then show ?thesis using True c wf' by (simp add: counting_def rest_of_def kept_def)
  next
    case False
    define buf where "buf = drop (length (header 42 n)) (rest_of c)"
    have split: "rest_of c = header 42 n @ buf" "buf @ fut = concat (map bulk_string args) @ l @ [13, 10] @ post"
      using append_front [OF st] False by (simp_all add: buf_def rest_of_def)
    have "rest_of ?c0 @ [] = header 42 n @ buf" using split(1) by (simp add: rest_of_def)
    from multibulk_count_token [OF mc this n(2,3)] n(1) new
    have t: "x = None" "rest_of c2 = buf" "cl_multibulklen c2 = n" "cl_bulklen c2 = - 1" "\<not> pc_incomplete q2" by auto
    have l: "multibulk_loop cf (cl_multibulklen c2) c2 q2 = Ok (c1, q, ok)"
      using pm mc pend(2) t(1) n(1) by (simp add: processMultibulkBuffer_def t(3))
    have p2: "cl_pending c2 = []" "kept c c2"
      using mc pend(1) multibulk_count_kept [OF mc] unfolding multibulk_count_def Let_def
      by (auto simp: kept_def split: option.splits if_splits)
    have a: "bad_ahead c2 fut args (l @ [13, 10] @ post)"
      using t(2-4) n(1) split(2) by (simp add: bad_ahead_def args_at_def rest_of_def)
    have cf': "\<not> cf_master cf" "fits_signed 64 (cf_proto_max_bulk_len cf)" using cf by (simp_all add: conf_ok_def)
    have cl2: "\<not> cl_closing c2" "cl_read_error c2 = None" using p2(2) cl by (simp_all add: kept_def)
    from loop_doomed [OF l f p2(1) a fit bad cf' wf' cl2] t(5) kept_trans [OF p2(2)] False show ?thesis by auto
  qed
qed

lemma counting_loop:
  assumes c: "counting (header 42 n @ concat (map bulk_string args) @ l @ [13, 10] @ post) c fut"
    and n: "length args < n" "n \<le> INT_MAX" "cf_auth_required cf \<longrightarrow> n \<le> 10" and fit: "\<forall>a\<in>set args. arg_fits cf a"
    and bad: "bad_line cf l e" and cf: "conf_ok cf"
  shows "\<exists>c'. input_loop cf c = Ok c' \<and> cl_executed c' = cl_executed c \<and>
    (if length (rest_of c) < length (header 42 n) then counting (header 42 n @ concat (map bulk_string args) @ l @ [13, 10] @ post) c' fut
     else if length post < length fut then doomed cf (l @ [13, 10] @ post) c' fut
     else cl_read_error c' = Some e)"
proof (cases "cl_qb_pos c < length (cl_querybuf c)")
  case False
  then have "rest_of c = []" "ready_len c = 0" using c by (simp_all add: rest_of_def ready_len_def counting_def)
  moreover have "input_loop cf c = Ok c" using False \<open>ready_len c = 0\<close> by (subst input_loop.simps) simp
  ultimately show ?thesis using c by (simp add: header_def)
next
  case pos: True
  have wf: "client_wf c" "\<not> stopped c" "ready_len c = 0" "\<not> cl_closing c"
    using c by (simp_all add: counting_def stopped_def ready_len_def)
  obtain c' m where p: "parse_command cf c = Ok (c', m)" using parse_command_wf [OF wf(1,2) pos, of cf] by blast
  note s = counting_command [OF c n fit bad cf pos p]
  have "0 < lookahead cf" using cf by (auto simp: conf_ok_def lookahead_def)
  then obtain k where "lookahead cf = Suc k" using gr0_conv_Suc by blast
  then have pc: "parse_commands cf (lookahead cf) c = Ok c'" using pos p s by simp
  show ?thesis
  proof (cases "length (rest_of c) < length (header 42 n) \<or> length post < length fut")
    case True
    then have "ready_len c' = 0" using s by (auto simp: doomed_def counting_def ready_len_def split: if_splits)
    then have "input_round cf c = Ok (c', False)" using wf(3) pc by (simp add: input_round_def)
    then have "input_loop cf c = Ok c'" using pos wf(4) by (subst input_loop.simps) simp
    then show ?thesis using s True by (auto simp: kept_def)
  next
    case False
    then obtain q where q: "cl_pending c' = [q]" "\<not> pc_incomplete q" "pc_read_error q = Some e" using s by auto
    then have "ready_len c' = 1" by (simp add: ready_len_def)
    then have "input_round cf c = Ok (c'\<lparr>cl_read_error := Some e\<rparr>, False)" using wf(3) pc q by (simp add: input_round_def)
    then have "input_loop cf c = Ok (c'\<lparr>cl_read_error := Some e\<rparr>)" using pos wf(4) by (subst input_loop.simps) simp
    then show ?thesis using s False by (simp add: kept_def)
  qed
qed

lemma counting_read:
  assumes c: "counting s c (d @ fut)" "cl_qb_pos c = 0" and s: "s = header 42 n @ concat (map bulk_string args) @ l @ [13, 10] @ post"
    and n: "length args < n" "n \<le> INT_MAX" "cf_auth_required cf \<longrightarrow> n \<le> 10" and fit: "\<forall>a\<in>set args. arg_fits cf a"
    and bad: "bad_line cf l e" and cf: "conf_ok cf" and lim: "room cf (length s)"
  shows "\<exists>c'. readQueryFromClient cf c d = Ok c' \<and> cl_executed c' = cl_executed c \<and> cl_qb_pos c' = 0 \<and>
    length (cl_querybuf c') \<le> length (cl_querybuf c) + length d \<and>
    (if length s < length (header 42 n) + length fut then counting s c' fut
     else if length post < length fut then doomed cf (l @ [13, 10] @ post) c' fut
     else cl_read_error c' = Some e \<and> cl_closing c')"
proof -
  let ?c = "c\<lparr>cl_read_error := None, cl_querybuf := cl_querybuf c @ d\<rparr>"
  have "client_wf ?c" using c(1) client_wf_append by (simp add: counting_def)
  then have c0: "counting s ?c fut" using c by (simp add: counting_def appended_rest)
  have len: "length (rest_of ?c) + length fut = length s" using c0 by (auto simp: counting_def dest!: arg_cong [where f = length])
  have "length (rest_of ?c) < length (header 42 n) \<longleftrightarrow> length s < length (header 42 n) + length fut" using len by linarith
  then obtain c1 where l: "input_loop cf ?c = Ok c1" "cl_executed c1 = cl_executed c"
    "if length s < length (header 42 n) + length fut then counting s c1 fut
     else if length post < length fut then doomed cf (l @ [13, 10] @ post) c1 fut
     else cl_read_error c1 = Some e"
    using counting_loop [OF c0 [unfolded s] n fit bad cf, folded s] by auto
  have "room cf (length (cl_querybuf c) + length d)"
    by (rule room_mono [OF _ lim]) (use len c(2) in \<open>simp add: rest_of_def\<close>)
  note r = read_trimmed [OF l(1) c(2) cf this]
  have keep: "counting s (trimmed c1) fut" if "counting s c1 fut" using that trimmed_wf by (simp add: counting_def)
  have doom: "doomed cf x (trimmed c1) fut" if "doomed cf x c1 fut" for x
    by (rule doomed_cong [OF _ _ _ _ _ _ _ that]) (use that trimmed_wf in \<open>simp_all add: doomed_def\<close>)
  show ?thesis
  proof (cases "length s < length (header 42 n) + length fut \<or> length post < length fut")
    case True
    then have "cl_read_error c1 = None" using l(3) by (auto simp: counting_def doomed_def split: if_splits)
    then show ?thesis using r l(2,3) True keep doom by (auto split: if_splits)
  next
    case False
    then show ?thesis using r l(2,3) by simp
  qed
qed

lemma counting_reads:
  assumes "counting s c (concat ds @ fut)" "cl_qb_pos c = 0" "s = header 42 n @ concat (map bulk_string args) @ l @ [13, 10] @ post"
    and "length args < n" "n \<le> INT_MAX" "cf_auth_required cf \<longrightarrow> n \<le> 10" "\<forall>a\<in>set args. arg_fits cf a"
    and "bad_line cf l e" "conf_ok cf" "room cf (length s)" "length s < length (header 42 n) + length fut"
  shows "\<exists>c'. reads cf c ds = Ok c' \<and> cl_executed c' = cl_executed c \<and> cl_qb_pos c' = 0 \<and> counting s c' fut"
  using assms
proof (induction ds arbitrary: c)
  case (Cons d ds)
  have c: "counting s c (d @ (concat ds @ fut))" using Cons.prems(1) by simp
  have "length s < length (header 42 n) + length (concat ds @ fut)" using Cons.prems(11) by simp
  then obtain c1 where c1: "readQueryFromClient cf c d = Ok c1" "cl_executed c1 = cl_executed c" "cl_qb_pos c1 = 0" "counting s c1 (concat ds @ fut)"
    using counting_read [OF c Cons.prems(2-10)] by auto
  from Cons.IH [OF c1(4,3) Cons.prems(3-11)] c1(1,2) show ?case by auto
qed simp

text \<open>A client between two commands, with nothing in its buffer: one just created, or one that has executed a
  whole stream of requests.\<close>

definition idle :: "client \<Rightarrow> bool" where
  "idle c \<longleftrightarrow> cl_querybuf c = [] \<and> cl_qb_pos c = 0 \<and> cl_reqtype c = None \<and> cl_multibulklen c = 0 \<and> cl_pending c = []
     \<and> cl_all_argv_len_sum c = 0 \<and> \<not> cl_closing c \<and> cl_read_error c = None"

lemma idle_counting: "idle c \<Longrightarrow> counting s c s"
  by (simp add: idle_def counting_def client_wf_def inside_def between_def rest_of_def)

lemma createClient_idle: "idle createClient"
  by (simp add: idle_def createClient_def)

lemma at_read_idle:
  assumes "at_read cf c [] rs"
  shows "idle c"
proof -
  have e: "rs = []" "cl_pending c = []" using at_read_end [OF assms] by simp_all
  then have "\<not> inside c" "\<not> stopped c" by (simp_all add: inside_def stopped_def)
  then show ?thesis using assms e by (simp add: idle_def at_read_def sync_def parsing_def client_wf_def between_def)
qed

lemma stream_idle:
  assumes "concat ds = stream rs" "\<forall>r\<in>set rs. fits cf r" "conf_ok cf"
    "length (stream rs) \<le> cf_client_max_querybuf_len cf" "cf_auth_required cf \<longrightarrow> length (stream rs) \<le> 1024 * 1024"
  shows "\<exists>c. reads cf createClient ds = Ok c \<and> idle c"
  using reads_sync [of cf createClient ds "[]" rs] createClient_sync [OF assms(2,4,5)] assms(1,3)
  by (auto dest: at_read_idle)

text \<open>Property C34: A line in the place of the header of an argument that is not one (no dollar, no number, a length
  out of range, or one too long before authentication) is reported as a protocol error only when it has
  arrived by the read that completes the header of its command. Take a client with nothing buffered, the
  header of a command of \<open>n\<close> arguments, fewer than \<open>n\<close> good arguments, the bad line and any bytes after it,
  cut in any way into reads within the limits of the buffer. If the read \<open>d\<close> that completes the header of the
  command completes the bad line too, that read reports the error and closes the client. Otherwise the
  command was queued as incomplete by that read, keeps that flag when it gets its error and never is
  ready: all these reads report no error, execute nothing and leave the connection open.\<close>

theorem split_error_not_reported:
  assumes c: "idle c" and cf: "conf_ok cf"
    and n: "length args < n" "n \<le> INT_MAX" "cf_auth_required cf \<longrightarrow> n \<le> 10" and fit: "\<forall>a\<in>set args. arg_fits cf a"
    and bad: "bad_line cf l e"
    and cut: "concat (before @ d # later) = header 42 n @ concat (map bulk_string args) @ l @ [13, 10] @ post"
    and d: "length (concat before) < length (header 42 n)" "length (header 42 n) \<le> length (concat before) + length d"
    and lim: "length (concat (before @ d # later)) \<le> cf_client_max_querybuf_len cf"
      "cf_auth_required cf \<longrightarrow> length (concat (before @ d # later)) \<le> 1024 * 1024"
  shows "if length (header 42 n @ concat (map bulk_string args) @ l @ [13, 10]) \<le> length (concat before) + length d
    then \<exists>c'. reads cf c (before @ [d]) = Ok c' \<and> cl_read_error c' = Some e \<and> cl_closing c' \<and> cl_executed c' = cl_executed c
    else \<exists>c'. reads cf c (before @ d # later) = Ok c' \<and> cl_read_error c' = None \<and> \<not> cl_closing c' \<and> cl_executed c' = cl_executed c"
proof -
  define s where "s = header 42 n @ concat (map bulk_string args) @ l @ [13, 10] @ post"
  have s: "concat before @ d @ concat later = s" using cut by (simp add: s_def)
  have len: "length (concat before) + length d + length (concat later) = length s" using arg_cong [OF s, of length] by simp
  have "length (concat (before @ d # later)) = length s" using len by simp
  then have room: "room cf (length s)" using lim by (simp only: room_def)
  have k: "counting s c (concat before @ (d @ concat later))" "cl_qb_pos c = 0"
    using c idle_counting [OF c, of s] by (simp_all add: s idle_def)
  have "length s < length (header 42 n) + length (d @ concat later)" using d(1) len by simp
  from counting_reads [OF k s_def n fit bad cf room this] obtain c1 where
    c1: "reads cf c before = Ok c1" "cl_executed c1 = cl_executed c" "cl_qb_pos c1 = 0" "counting s c1 (d @ concat later)" by blast
  obtain c2 where c2: "readQueryFromClient cf c1 d = Ok c2" "cl_executed c2 = cl_executed c1" "cl_qb_pos c2 = 0"
    "length (cl_querybuf c2) \<le> length (cl_querybuf c1) + length d"
    "if length post < length (concat later) then doomed cf (l @ [13, 10] @ post) c2 (concat later)
     else cl_read_error c2 = Some e \<and> cl_closing c2"
    using counting_read [OF c1(4,3) s_def n fit bad cf room] d(2) len by auto
  have app: "reads cf c (before @ ds) = reads cf c1 ds" for ds
    using c1(1) by (induction before arbitrary: c) (auto simp: bind_outcome_Ok)
  have whole: "length (header 42 n @ concat (map bulk_string args) @ l @ [13, 10]) \<le> length (concat before) + length d
      \<longleftrightarrow> \<not> length post < length (concat later)"
    using len by (auto simp: s_def)
  show ?thesis
  proof (cases "length post < length (concat later)")
    case False
    then show ?thesis using whole c1(2) c2 by (simp add: app)
  next
    case True
    have "length (cl_querybuf c1) + (length d + length (concat later)) = length s"
      using c1(3,4) by (auto simp: counting_def rest_of_def dest!: arg_cong [where f = length])
    then have "room cf (length (cl_querybuf c2) + length (concat later))" using c2(4) by (intro room_mono [OF _ room]) linarith
    then obtain c' where "reads cf c2 later = Ok c'" "doomed cf (l @ [13, 10] @ post) c' []" "cl_executed c' = cl_executed c2"
      using doomed_reads [OF _ bad cf c2(3)] c2(5) True by auto
    then show ?thesis using True whole c1(2) c2(1,2) by (auto simp: app doomed_def)
  qed
qed

text \<open>\<open>*2\r\n$1\r\na\r\n$-1\r\n\<close> in one read, and cut three times with \<open>$1\r\nb\r\n\<close> after it.\<close>

lemma minus_one_bad: "bad_line sample_conf [36, 45, 49] CLIENT_READ_INVALID_BUCK_LENGTH"
proof -
  have "string2ll [45, 49] = Some (- 1)"
    using string2ll_decimal [of "- 1"] by (simp add: decimal_def digit_def fits_signed_def char_defs)
  then show ?thesis by (simp add: bad_line_def header_error_def PROTO_INLINE_MAX_SIZE_def)
qed

theorem split_error_not_reported_witness:
  "(\<exists>c. reads sample_conf createClient ([] @ [[42, 50, 13, 10, 36, 49, 13, 10, 97, 13, 10, 36, 45, 49, 13, 10]]) = Ok c
      \<and> cl_read_error c = Some CLIENT_READ_INVALID_BUCK_LENGTH \<and> cl_closing c \<and> cl_executed c = cl_executed createClient)
   \<and> (\<exists>c. reads sample_conf createClient
        ([[42, 50]] @ [13, 10, 36, 49] # [[13, 10, 97, 13, 10, 36, 45], [49, 13, 10], [36, 49, 13, 10, 98, 13, 10]]) = Ok c
      \<and> cl_read_error c = None \<and> \<not> cl_closing c \<and> cl_executed c = cl_executed createClient)"
proof -
  have cf: "conf_ok sample_conf" by (simp add: conf_ok_def sample_conf_def fits_signed_def)
  have fit: "\<forall>a\<in>set [[97]]. arg_fits sample_conf a" by (simp add: arg_fits_def sample_conf_def)
  have h: "header 42 2 = [42, 50, 13, 10]" "bulk_string [97] = [36, 49, 13, 10, 97, 13, 10]"
    by (simp_all add: header_def bulk_string_def decimal_def digit_def)
  have n: "length [[97 :: byte]] < 2" "2 \<le> INT_MAX" "cf_auth_required sample_conf \<longrightarrow> (2 :: nat) \<le> 10" by (simp_all add: INT_MAX_def)
  note split = split_error_not_reported [OF createClient_idle cf n fit minus_one_bad, unfolded h]
  show ?thesis
  proof
    show "\<exists>c. reads sample_conf createClient ([] @ [[42, 50, 13, 10, 36, 49, 13, 10, 97, 13, 10, 36, 45, 49, 13, 10]]) = Ok c
      \<and> cl_read_error c = Some CLIENT_READ_INVALID_BUCK_LENGTH \<and> cl_closing c \<and> cl_executed c = cl_executed createClient"
      using split [of "[]" "[42, 50, 13, 10, 36, 49, 13, 10, 97, 13, 10, 36, 45, 49, 13, 10]" "[]" "[]"]
      by (simp add: h sample_conf_def del: reads.simps)
    show "\<exists>c. reads sample_conf createClient
        ([[42, 50]] @ [13, 10, 36, 49] # [[13, 10, 97, 13, 10, 36, 45], [49, 13, 10], [36, 49, 13, 10, 98, 13, 10]]) = Ok c
      \<and> cl_read_error c = None \<and> \<not> cl_closing c \<and> cl_executed c = cl_executed createClient"
      using split [of "[[42, 50]]" "[13, 10, 36, 49]" "[[13, 10, 97, 13, 10, 36, 45], [49, 13, 10], [36, 49, 13, 10, 98, 13, 10]]"
          "[36, 49, 13, 10, 98, 13, 10]"]
      by (simp add: h sample_conf_def del: reads.simps)
  qed
qed

end
