(* ===== verification/Zsl.thy ===== *)
theory Zsl
  imports Prelude "HOL-Library.List_Lexorder" "HOL-Library.Product_Lexorder" "HOL-Library.Monad_Syntax"
begin

text \<open>
  The skip list of sorted sets, \<open>t_zset.c\<close>. Nodes live on a heap and are named by their addresses; a node has
  as many forward pointers, each with the span it skips, as its random level says. Scores are the values
  of an ordered type: a double that is not a NaN, which the code asserts. Spans, ranks and lengths are
  64-bit words. What \<open>malloc\<close> and \<open>random\<close> return are arguments. The loops that follow pointers are partial
  functions: \<open>None\<close> is a loop that does not end. The space a node takes and the offset of its embedded
  string are not modelled; the element is a field.
\<close>

section \<open>Elements\<close>

fun c_memcmp :: "bytes \<Rightarrow> bytes \<Rightarrow> nat \<Rightarrow> int" where
  "c_memcmp (x # a) (y # b) (Suc n) = (if x = y then c_memcmp a b n else int (unat x) - int (unat y))"
| "c_memcmp a b n = 0"

definition sdscmp :: "bytes \<Rightarrow> bytes \<Rightarrow> int" where
  "sdscmp s1 s2 =
     (let l1 = length s1; l2 = length s2; minlen = (if l1 < l2 then l1 else l2); cmp = c_memcmp s1 s2 minlen in
      if cmp = 0 then if l1 > l2 then 1 else if l1 < l2 then - 1 else 0 else cmp)"

section \<open>Nodes\<close>

type_synonym addr = nat

definition ZSKIPLIST_MAXLEVEL :: nat where "ZSKIPLIST_MAXLEVEL = 32"
definition ZSKIPLIST_MAX_SEARCH :: int where "ZSKIPLIST_MAX_SEARCH = 10"

record zskiplistLevel =
  lv_forward :: "addr option"
  lv_span :: "64 word"

text \<open>\<open>zn_levels\<close> is the number of levels kept in the place of the span of level 0; the header has no element.\<close>

record 's zskiplistNode =
  zn_score :: 's
  zn_ele :: bytes
  zn_backward :: "addr option"
  zn_levels :: nat
  zn_level :: "zskiplistLevel list"

record 's zskiplist =
  zsl_heap :: "addr \<Rightarrow> 's zskiplistNode option"
  zsl_header :: addr
  zsl_tail :: "addr option"
  zsl_length :: "64 word"
  zsl_level :: nat

definition node :: "'s zskiplist \<Rightarrow> addr \<Rightarrow> 's zskiplistNode" where
  "node z x = the (zsl_heap z x)"

definition set_node :: "'s zskiplist \<Rightarrow> addr \<Rightarrow> ('s zskiplistNode \<Rightarrow> 's zskiplistNode) \<Rightarrow> 's zskiplist" where
  "set_node z x f = z\<lparr>zsl_heap := (zsl_heap z)(x \<mapsto> f (node z x))\<rparr>"

definition forward :: "'s zskiplist \<Rightarrow> addr \<Rightarrow> nat \<Rightarrow> addr option" where
  "forward z x i = lv_forward (zn_level (node z x) ! i)"

definition set_forward :: "'s zskiplist \<Rightarrow> addr \<Rightarrow> nat \<Rightarrow> addr option \<Rightarrow> 's zskiplist" where
  "set_forward z x i y = set_node z x (\<lambda>n. n\<lparr>zn_level := (zn_level n)[i := (zn_level n ! i)\<lparr>lv_forward := y\<rparr>]\<rparr>)"

definition set_span :: "'s zskiplist \<Rightarrow> addr \<Rightarrow> nat \<Rightarrow> 64 word \<Rightarrow> 's zskiplist" where
  "set_span z x i s = set_node z x (\<lambda>n. n\<lparr>zn_level := (zn_level n)[i := (zn_level n ! i)\<lparr>lv_span := s\<rparr>]\<rparr>)"

definition zslGetNodeSpanAtLevel :: "'s zskiplist \<Rightarrow> addr \<Rightarrow> nat \<Rightarrow> 64 word" where
  "zslGetNodeSpanAtLevel z x i =
     (if i > 0 then lv_span (zn_level (node z x) ! i) else if forward z x 0 \<noteq> None then 1 else 0)"

definition zslSetNodeSpanAtLevel :: "'s zskiplist \<Rightarrow> addr \<Rightarrow> nat \<Rightarrow> 64 word \<Rightarrow> 's zskiplist" where
  "zslSetNodeSpanAtLevel z x i s = (if i > 0 then set_span z x i s else z)"

definition zslIncrNodeSpanAtLevel :: "'s zskiplist \<Rightarrow> addr \<Rightarrow> nat \<Rightarrow> 64 word \<Rightarrow> 's zskiplist" where
  "zslIncrNodeSpanAtLevel z x i incr =
     (if i > 0 then set_span z x i (lv_span (zn_level (node z x) ! i) + incr) else z)"

definition zslDecrNodeSpanAtLevel :: "'s zskiplist \<Rightarrow> addr \<Rightarrow> nat \<Rightarrow> 64 word \<Rightarrow> 's zskiplist" where
  "zslDecrNodeSpanAtLevel z x i decr =
     (if i > 0 then set_span z x i (lv_span (zn_level (node z x) ! i) - decr) else z)"

definition zslGetNodeElement :: "'s zskiplist \<Rightarrow> addr \<Rightarrow> bytes" where
  "zslGetNodeElement z x = zn_ele (node z x)"

definition zslCompareWithNode :: "'s::linorder zskiplist \<Rightarrow> 's \<Rightarrow> bytes \<Rightarrow> addr option \<Rightarrow> int" where
  "zslCompareWithNode z score ele n =
     (case n of
        None \<Rightarrow> - 1
      | Some y \<Rightarrow>
          if score < zn_score (node z y) then - 1
          else if score > zn_score (node z y) then 1
          else sdscmp ele (zslGetNodeElement z y))"

text \<open>Creation. The address of a new node or header is that of a free block.\<close>

definition null_level :: zskiplistLevel where
  "null_level = \<lparr>lv_forward = None, lv_span = 0\<rparr>"

definition zslCreateHeaderNode :: "'s::zero zskiplistNode" where
  "zslCreateHeaderNode =
     \<lparr>zn_score = 0, zn_ele = [], zn_backward = None, zn_levels = ZSKIPLIST_MAXLEVEL,
      zn_level = replicate ZSKIPLIST_MAXLEVEL null_level\<rparr>"

definition zslCreate :: "addr \<Rightarrow> 's::zero zskiplist" where
  "zslCreate h =
     \<lparr>zsl_heap = (\<lambda>x. None)(h \<mapsto> zslCreateHeaderNode), zsl_header = h, zsl_tail = None, zsl_length = 0, zsl_level = 1\<rparr>"

text \<open>The forward pointers of a new node are set when it is linked.\<close>

definition zslCreateNode :: "'s zskiplist \<Rightarrow> addr \<Rightarrow> nat \<Rightarrow> 's \<Rightarrow> bytes \<Rightarrow> 's zskiplist" where
  "zslCreateNode z p level score ele =
     z\<lparr>zsl_heap := (zsl_heap z)(p \<mapsto> \<lparr>zn_score = score, zn_ele = ele, zn_backward = None, zn_levels = level,
                                       zn_level = replicate level null_level\<rparr>)\<rparr>"

definition zslFreeNode :: "'s zskiplist \<Rightarrow> addr \<Rightarrow> 's zskiplist" where
  "zslFreeNode z x = z\<lparr>zsl_heap := (zsl_heap z)(x := None)\<rparr>"

text \<open>The number of values of \<open>random\<close> below the threshold in a row decides the level.\<close>

fun level_loop :: "nat \<Rightarrow> nat list \<Rightarrow> nat \<Rightarrow> nat" where
  "level_loop threshold [] level = level"
| "level_loop threshold (r # rs) level = (if r < threshold then level_loop threshold rs (level + 1) else level)"

definition zslRandomLevel :: "nat \<Rightarrow> nat list \<Rightarrow> nat" where
  "zslRandomLevel threshold rs =
     (let level = level_loop threshold rs 1 in if level < ZSKIPLIST_MAXLEVEL then level else ZSKIPLIST_MAXLEVEL)"

section \<open>Searching\<close>

text \<open>The loop over one level: go on while there is a next node and the condition holds of it and of the rank
  reached with it.\<close>

partial_function (option) walk ::
  "'s zskiplist \<Rightarrow> (addr \<Rightarrow> 64 word \<Rightarrow> bool) \<Rightarrow> nat \<Rightarrow> addr \<Rightarrow> 64 word \<Rightarrow> (addr \<times> 64 word) option" where
  "walk z go i x rank =
     (case forward z x i of
        None \<Rightarrow> Some (x, rank)
      | Some y \<Rightarrow>
          let r = rank + zslGetNodeSpanAtLevel z x i in
          if go y r then walk z go i y r else Some (x, rank))"

text \<open>The loop over the levels below \<open>n\<close>, from the top: what is \<open>update[i]\<close> and \<open>rank[i]\<close> in the code.\<close>

primrec search ::
  "'s zskiplist \<Rightarrow> (addr \<Rightarrow> 64 word \<Rightarrow> bool) \<Rightarrow> nat \<Rightarrow> addr \<Rightarrow> 64 word \<Rightarrow> (addr \<times> 64 word) list option" where
  "search z go 0 x rank = Some []"
| "search z go (Suc i) x rank =
     do { (x, rank) \<leftarrow> walk z go i x rank;
          us \<leftarrow> search z go i x rank;
          Some (us @ [(x, rank)]) }"

section \<open>Insertion\<close>

definition link_level :: "addr \<Rightarrow> (addr \<times> 64 word) list \<Rightarrow> nat \<Rightarrow> 's zskiplist \<Rightarrow> 's zskiplist" where
  "link_level n us i z =
     (let update = fst (us ! i); rank_i = snd (us ! i); rank_0 = snd (us ! 0);
          z = set_forward z n i (forward z update i);
          z = set_forward z update i (Some n);
          z = zslSetNodeSpanAtLevel z n i (zslGetNodeSpanAtLevel z update i - (rank_0 - rank_i)) in
      zslSetNodeSpanAtLevel z update i ((rank_0 - rank_i) + 1))"

definition zslInsertNode :: "'s::linorder zskiplist \<Rightarrow> addr \<Rightarrow> 's zskiplist option" where
  "zslInsertNode z n =
     (let score = zn_score (node z n); ele = zslGetNodeElement z n; level = zn_levels (node z n) in
      do { us \<leftarrow> search z (\<lambda>y r. zslCompareWithNode z score ele (Some y) > 0) (zsl_level z) (zsl_header z) 0;
           let (us, z) =
             (if level > zsl_level z then
                let grown = [zsl_level z..<level];
                    us = us @ map (\<lambda>i. (zsl_header z, 0)) grown;
                    z = fold (\<lambda>i z. zslSetNodeSpanAtLevel z (zsl_header z) i (zsl_length z)) grown z;
                    z = z\<lparr>zsl_level := level\<rparr> in
                (us, set_node z (zsl_header z) (\<lambda>h. h\<lparr>zn_levels := level\<rparr>))
              else (us, z));
           let z = fold (link_level n us) [0..<level] z;
           let z = fold (\<lambda>i z. zslIncrNodeSpanAtLevel z (fst (us ! i)) i 1) [level..<zsl_level z] z;
           let update_0 = fst (us ! 0);
           let z = set_node z n (\<lambda>m. m\<lparr>zn_backward := if update_0 = zsl_header z then None else Some update_0\<rparr>);
           let z = (case forward z n 0 of
                      Some y \<Rightarrow> set_node z y (\<lambda>m. m\<lparr>zn_backward := Some n\<rparr>)
                    | None \<Rightarrow> z\<lparr>zsl_tail := Some n\<rparr>);
           Some (z\<lparr>zsl_length := zsl_length z + 1\<rparr>) })"

definition zslInsert :: "'s::linorder zskiplist \<Rightarrow> addr \<Rightarrow> nat \<Rightarrow> 's \<Rightarrow> bytes \<Rightarrow> 's zskiplist option" where
  "zslInsert z p level score ele = zslInsertNode (zslCreateNode z p level score ele) p"

section \<open>Deletion\<close>

definition unlink_level :: "addr \<Rightarrow> addr list \<Rightarrow> nat \<Rightarrow> 's zskiplist \<Rightarrow> 's zskiplist" where
  "unlink_level x update i z =
     (if forward z (update ! i) i = Some x then
        let z = zslIncrNodeSpanAtLevel z (update ! i) i (zslGetNodeSpanAtLevel z x i - 1) in
        set_forward z (update ! i) i (forward z x i)
      else zslDecrNodeSpanAtLevel z (update ! i) i 1)"

text \<open>The loop that drops empty levels.\<close>

function shrink_levels :: "'s zskiplist \<Rightarrow> 's zskiplist" where
  "shrink_levels z =
     (if zsl_level z > 1 \<and> forward z (zsl_header z) (zsl_level z - 1) = None then
        let z = set_span z (zsl_header z) (zsl_level z - 1) 0 in
        shrink_levels (z\<lparr>zsl_level := zsl_level z - 1\<rparr>)
      else z)"
  by pat_completeness auto

termination shrink_levels
  by (relation "measure zsl_level") (auto simp: set_span_def set_node_def)

declare shrink_levels.simps [simp del]

definition zslUnlinkNode :: "'s zskiplist \<Rightarrow> addr \<Rightarrow> addr list \<Rightarrow> 's zskiplist" where
  "zslUnlinkNode z x update =
     (let z = fold (unlink_level x update) [0..<zsl_level z] z;
          z = (case forward z x 0 of
                 Some y \<Rightarrow> set_node z y (\<lambda>m. m\<lparr>zn_backward := zn_backward (node z x)\<rparr>)
               | None \<Rightarrow> z\<lparr>zsl_tail := zn_backward (node z x)\<rparr>);
          z = shrink_levels z in
      z\<lparr>zsl_length := zsl_length z - 1\<rparr>)"

text \<open>The search for a node by its score and element, with the assertion that it is found.\<close>

definition find_update :: "'s::linorder zskiplist \<Rightarrow> addr \<Rightarrow> addr list option" where
  "find_update z n =
     (let score = zn_score (node z n); ele = zslGetNodeElement z n in
      do { us \<leftarrow> search z (\<lambda>y r. zslCompareWithNode z score ele (Some y) > 0) (zsl_level z) (zsl_header z) 0;
           if forward z (fst (us ! 0)) 0 = Some n then Some (map fst us) else None })"

definition zslDelete :: "'s::linorder zskiplist \<Rightarrow> addr \<Rightarrow> 's zskiplist option" where
  "zslDelete z n =
     do { update \<leftarrow> find_update z n;
          Some (zslFreeNode (zslUnlinkNode z n update) n) }"

definition zslUpdateScore :: "'s::linorder zskiplist \<Rightarrow> addr \<Rightarrow> 's \<Rightarrow> 's zskiplist option" where
  "zslUpdateScore z n newscore =
     (if (case zn_backward (node z n) of None \<Rightarrow> True | Some b \<Rightarrow> zn_score (node z b) < newscore) \<and>
         (case forward z n 0 of None \<Rightarrow> True | Some f \<Rightarrow> zn_score (node z f) > newscore) then
        Some (set_node z n (\<lambda>m. m\<lparr>zn_score := newscore\<rparr>))
      else
        do { update \<leftarrow> find_update z n;
             let z = zslUnlinkNode z n update;
             zslInsertNode (set_node z n (\<lambda>m. m\<lparr>zn_score := newscore\<rparr>)) n })"

text \<open>Freeing the whole list, from the header on.\<close>

partial_function (option) free_loop :: "'s zskiplist \<Rightarrow> addr option \<Rightarrow> 's zskiplist option" where
  "free_loop z x =
     (case x of
        None \<Rightarrow> Some z
      | Some y \<Rightarrow> let f = forward z y 0 in free_loop (zslFreeNode z y) f)"

definition zslFree :: "'s zskiplist \<Rightarrow> 's zskiplist option" where
  "zslFree z = (let x = forward z (zsl_header z) 0 in free_loop (zslFreeNode z (zsl_header z)) x)"

section \<open>Ranks\<close>

primrec get_rank_loop ::
  "'s::linorder zskiplist \<Rightarrow> 's \<Rightarrow> bytes \<Rightarrow> nat \<Rightarrow> addr \<Rightarrow> 64 word \<Rightarrow> 64 word option" where
  "get_rank_loop z score ele 0 x rank = Some 0"
| "get_rank_loop z score ele (Suc i) x rank =
     do { (x, rank) \<leftarrow> walk z (\<lambda>y r. zslCompareWithNode z score ele (Some y) \<ge> 0) i x rank;
          if x \<noteq> zsl_header z \<and> zslCompareWithNode z score ele (Some x) = 0 then Some rank
          else get_rank_loop z score ele i x rank }"

definition zslGetRank :: "'s::linorder zskiplist \<Rightarrow> 's \<Rightarrow> bytes \<Rightarrow> 64 word option" where
  "zslGetRank z score ele = get_rank_loop z score ele (zsl_level z) (zsl_header z) 0"

partial_function (option) distance_loop :: "'s zskiplist \<Rightarrow> addr option \<Rightarrow> 64 word \<Rightarrow> 64 word option" where
  "distance_loop z x distance_to_end =
     (case x of
        None \<Rightarrow> Some distance_to_end
      | Some y \<Rightarrow>
          let level = zn_levels (node z y) - 1 in
          distance_loop z (forward z y level) (distance_to_end + zslGetNodeSpanAtLevel z y level))"

definition zslGetRankByNode :: "'s zskiplist \<Rightarrow> addr \<Rightarrow> 64 word option" where
  "zslGetRankByNode z x = do { d \<leftarrow> distance_loop z (Some x) 0; Some (zsl_length z - d) }"

text \<open>The node of a rank, \<open>None\<close> for \<open>NULL\<close>.\<close>

primrec by_rank_loop :: "'s zskiplist \<Rightarrow> 64 word \<Rightarrow> nat \<Rightarrow> addr \<Rightarrow> 64 word \<Rightarrow> addr option option" where
  "by_rank_loop z rank 0 x traversed = Some None"
| "by_rank_loop z rank (Suc i) x traversed =
     do { (x, traversed) \<leftarrow> walk z (\<lambda>y r. r \<le> rank) i x traversed;
          if traversed = rank then Some (Some x) else by_rank_loop z rank i x traversed }"

definition zslGetElementByRankFromNode :: "'s zskiplist \<Rightarrow> addr \<Rightarrow> nat \<Rightarrow> 64 word \<Rightarrow> addr option option" where
  "zslGetElementByRankFromNode z start_node start_level rank = by_rank_loop z rank (start_level + 1) start_node 0"

definition zslGetElementByRank :: "'s zskiplist \<Rightarrow> 64 word \<Rightarrow> addr option option" where
  "zslGetElementByRank z rank = zslGetElementByRankFromNode z (zsl_header z) (zsl_level z - 1) rank"

section \<open>Ranges\<close>

record 's zrangespec =
  zr_min :: 's
  zr_max :: 's
  zr_minex :: bool
  zr_maxex :: bool

definition zslValueGteMin :: "'s::linorder \<Rightarrow> 's zrangespec \<Rightarrow> bool" where
  "zslValueGteMin v spec = (if zr_minex spec then v > zr_min spec else v \<ge> zr_min spec)"

definition zslValueLteMax :: "'s::linorder \<Rightarrow> 's zrangespec \<Rightarrow> bool" where
  "zslValueLteMax v spec = (if zr_maxex spec then v < zr_max spec else v \<le> zr_max spec)"

text \<open>Lexicographic ranges, between strings or the two special bounds.\<close>

datatype lex_bound = Minstring | Maxstring | Lex bytes

record zlexrangespec =
  zlr_min :: lex_bound
  zlr_max :: lex_bound
  zlr_minex :: bool
  zlr_maxex :: bool

fun sdscmplex :: "lex_bound \<Rightarrow> lex_bound \<Rightarrow> int" where
  "sdscmplex a b =
     (if a = b then 0
      else if a = Minstring \<or> b = Maxstring then - 1
      else if a = Maxstring \<or> b = Minstring then 1
      else case (a, b) of (Lex s, Lex t) \<Rightarrow> sdscmp s t)"

declare sdscmplex.simps [simp del]

definition zslLexValueGteMin :: "bytes \<Rightarrow> zlexrangespec \<Rightarrow> bool" where
  "zslLexValueGteMin v spec =
     (if zlr_minex spec then sdscmplex (Lex v) (zlr_min spec) > 0 else sdscmplex (Lex v) (zlr_min spec) \<ge> 0)"

definition zslLexValueLteMax :: "bytes \<Rightarrow> zlexrangespec \<Rightarrow> bool" where
  "zslLexValueLteMax v spec =
     (if zlr_maxex spec then sdscmplex (Lex v) (zlr_max spec) < 0 else sdscmplex (Lex v) (zlr_max spec) \<le> 0)"

definition zslIsInRange :: "'s::linorder zskiplist \<Rightarrow> 's zrangespec \<Rightarrow> bool" where
  "zslIsInRange z spec =
     (if zr_min spec > zr_max spec \<or> zr_min spec = zr_max spec \<and> (zr_minex spec \<or> zr_maxex spec) then False
      else
        case zsl_tail z of
          None \<Rightarrow> False
        | Some x \<Rightarrow>
            zslValueGteMin (zn_score (node z x)) spec \<and>
            (case forward z (zsl_header z) 0 of None \<Rightarrow> False | Some x \<Rightarrow> zslValueLteMax (zn_score (node z x)) spec))"

definition zslIsInLexRange :: "'s zskiplist \<Rightarrow> zlexrangespec \<Rightarrow> bool" where
  "zslIsInLexRange z spec =
     (let cmp = sdscmplex (zlr_min spec) (zlr_max spec) in
      if cmp > 0 \<or> cmp = 0 \<and> (zlr_minex spec \<or> zlr_maxex spec) then False
      else
        case zsl_tail z of
          None \<Rightarrow> False
        | Some x \<Rightarrow>
            zslLexValueGteMin (zslGetNodeElement z x) spec \<and>
            (case forward z (zsl_header z) 0 of None \<Rightarrow> False | Some x \<Rightarrow> zslLexValueLteMax (zslGetNodeElement z x) spec))"

text \<open>The n-th node in a spec and its rank. The two functions of the code differ only in the tests of a node
  against the bounds. A \<open>long\<close> is its two's complement pattern.\<close>

definition nth_in_range ::
  "'s zskiplist \<Rightarrow> (addr \<Rightarrow> bool) \<Rightarrow> (addr \<Rightarrow> bool) \<Rightarrow> int \<Rightarrow> (addr \<times> 64 word) option option" where
  "nth_in_range z gteMin lteMax n =
     do { (last_highest_level_node, last_highest_level_rank) \<leftarrow>
            walk z (\<lambda>y r. \<not> gteMin y) (zsl_level z - 1) (zsl_header z) 0;
          if n \<ge> 0 then
            do { us \<leftarrow> search z (\<lambda>y r. \<not> gteMin y) (zsl_level z - 1) last_highest_level_node last_highest_level_rank;
                 let (x, edge_rank) = (if us = [] then (last_highest_level_node, last_highest_level_rank) else us ! 0);
                 if edge_rank + word_of_int n \<ge> zsl_length z then Some None
                 else
                   do { x \<leftarrow> (if n < ZSKIPLIST_MAX_SEARCH then
                                Some (((\<lambda>x. forward z (the x) 0) ^^ nat (n + 1)) (Some x))
                              else
                                zslGetElementByRankFromNode z last_highest_level_node (zsl_level z - 1)
                                  (edge_rank + 1 + word_of_int n - last_highest_level_rank));
                        Some (case x of
                                None \<Rightarrow> None
                              | Some y \<Rightarrow> if lteMax y then Some (y, edge_rank + word_of_int n + 1) else None) } }
          else
            do { us \<leftarrow> search z (\<lambda>y r. lteMax y) (zsl_level z) last_highest_level_node last_highest_level_rank;
                 let (x, edge_rank) = us ! 0;
                 if word_sless edge_rank (- word_of_int n) then Some None
                 else
                   do { x \<leftarrow> (if n + 1 > - ZSKIPLIST_MAX_SEARCH then
                                Some (((\<lambda>x. zn_backward (node z (the x))) ^^ nat (- n - 1)) (Some x))
                              else
                                zslGetElementByRankFromNode z last_highest_level_node (zsl_level z - 1)
                                  (edge_rank + 1 + word_of_int n - last_highest_level_rank));
                        Some (case x of
                                None \<Rightarrow> None
                              | Some y \<Rightarrow> if gteMin y then Some (y, edge_rank + word_of_int n + 1) else None) } } }"

definition zslNthInRange :: "'s::linorder zskiplist \<Rightarrow> 's zrangespec \<Rightarrow> int \<Rightarrow> (addr \<times> 64 word) option option" where
  "zslNthInRange z spec n =
     (if \<not> zslIsInRange z spec then Some None
      else
        nth_in_range z (\<lambda>y. zslValueGteMin (zn_score (node z y)) spec) (\<lambda>y. zslValueLteMax (zn_score (node z y)) spec) n)"

definition zslNthInLexRange :: "'s zskiplist \<Rightarrow> zlexrangespec \<Rightarrow> int \<Rightarrow> (addr \<times> 64 word) option option" where
  "zslNthInLexRange z spec n =
     (if \<not> zslIsInLexRange z spec then Some None
      else
        nth_in_range z (\<lambda>y. zslLexValueGteMin (zslGetNodeElement z y) spec)
          (\<lambda>y. zslLexValueLteMax (zslGetNodeElement z y) spec) n)"

section \<open>Deletion of ranges\<close>

text \<open>The loop that unlinks and frees nodes while the condition holds of the node and its rank. The elements go
  to \<open>dictDelete\<close> in the order of the last component of the result; their number is returned.\<close>

partial_function (option) delete_loop ::
  "'s zskiplist \<Rightarrow> addr list \<Rightarrow> ('s zskiplist \<Rightarrow> addr \<Rightarrow> 64 word \<Rightarrow> bool) \<Rightarrow> addr option \<Rightarrow> 64 word \<Rightarrow> bytes list \<Rightarrow>
   ('s zskiplist \<times> bytes list) option" where
  "delete_loop z update go x traversed deleted =
     (case x of
        None \<Rightarrow> Some (z, deleted)
      | Some y \<Rightarrow>
          if go z y traversed then
            let f = forward z y 0;
                z = zslUnlinkNode z y update;
                deleted = deleted @ [zslGetNodeElement z y];
                z = zslFreeNode z y in
            delete_loop z update go f (traversed + 1) deleted
          else Some (z, deleted))"

definition zslDeleteRangeByScore :: "'s::linorder zskiplist \<Rightarrow> 's zrangespec \<Rightarrow> ('s zskiplist \<times> bytes list) option" where
  "zslDeleteRangeByScore z spec =
     do { us \<leftarrow> search z (\<lambda>y r. \<not> zslValueGteMin (zn_score (node z y)) spec) (zsl_level z) (zsl_header z) 0;
          delete_loop z (map fst us) (\<lambda>z y t. zslValueLteMax (zn_score (node z y)) spec) (forward z (fst (us ! 0)) 0) 0 [] }"

definition zslDeleteRangeByLex :: "'s zskiplist \<Rightarrow> zlexrangespec \<Rightarrow> ('s zskiplist \<times> bytes list) option" where
  "zslDeleteRangeByLex z spec =
     do { us \<leftarrow> search z (\<lambda>y r. \<not> zslLexValueGteMin (zslGetNodeElement z y) spec) (zsl_level z) (zsl_header z) 0;
          delete_loop z (map fst us) (\<lambda>z y t. zslLexValueLteMax (zslGetNodeElement z y) spec) (forward z (fst (us ! 0)) 0) 0 [] }"

text \<open>\<open>start\<close> and \<open>end\<close> are 32-bit and 1-based.\<close>

definition zslDeleteRangeByRank :: "'s zskiplist \<Rightarrow> 32 word \<Rightarrow> 32 word \<Rightarrow> ('s zskiplist \<times> bytes list) option" where
  "zslDeleteRangeByRank z start en =
     do { us \<leftarrow> search z (\<lambda>y r. r < ucast start) (zsl_level z) (zsl_header z) 0;
          delete_loop z (map fst us) (\<lambda>z y t. t \<le> ucast en) (forward z (fst (us ! 0)) 0) (snd (us ! 0) + 1) [] }"

end
