(* ===== verification/Zsl_Inv.thy ===== *)
theory Zsl_Inv
  imports Zsl
begin

text \<open>
  The invariant of a skip list: the heap holds the header and the nodes of a strictly sorted list, each forward
  pointer leads to the next node that is as high, each span is the distance to it, or to the end when there
  is none. The search through the levels ends, at each level, at the last such node of a prefix of the list.
\<close>

section \<open>Order of the elements\<close>

lemma Nil_less_bytes [simp]: "([] :: bytes) < b \<longleftrightarrow> b \<noteq> []"
  by (cases b) simp_all

lemma c_memcmp_lex:
  "n = min (length a) (length b) \<Longrightarrow>
   (c_memcmp a b n < 0 \<or> c_memcmp a b n = 0 \<and> length a < length b) = (a < b) \<and>
   (c_memcmp a b n = 0 \<and> length a = length b) = (a = b)"
proof (induction a b n rule: c_memcmp.induct)
  case (1 x a y b n)
  then have ih: "(c_memcmp a b n < 0 \<or> c_memcmp a b n = 0 \<and> length a < length b) = (a < b)"
    "(c_memcmp a b n = 0 \<and> length a = length b) = (a = b)" if "x = y" using that by auto
  show ?case
  proof (cases "x = y")
    case True
    then show ?thesis using ih by simp
  next
    case False
    then show ?thesis by (auto simp: word_less_def word_uint_eq_iff)
  qed
qed (auto simp: min_def split: if_splits)

lemma sdscmp_less: "sdscmp a b < 0 \<longleftrightarrow> a < b"
  using c_memcmp_lex [of _ a b, OF refl] by (auto simp: sdscmp_def Let_def min_def split: if_splits)

lemma sdscmp_eq: "sdscmp a b = 0 \<longleftrightarrow> a = b"
  using c_memcmp_lex [of _ a b, OF refl] by (auto simp: sdscmp_def Let_def min_def split: if_splits)

lemma sdscmp_greater: "sdscmp a b > 0 \<longleftrightarrow> b < a"
  using sdscmp_less [of a b] sdscmp_eq [of a b] by (auto simp: not_less order_le_less)

definition zn_key :: "'s zskiplist \<Rightarrow> addr \<Rightarrow> 's \<times> bytes" where
  "zn_key z p = (zn_score (node z p), zn_ele (node z p))"

lemma zslCompareWithNode_key:
  "zslCompareWithNode z score ele (Some y) > 0 \<longleftrightarrow> zn_key z y < (score, ele)"
  "zslCompareWithNode z score ele (Some y) \<ge> 0 \<longleftrightarrow> zn_key z y \<le> (score, ele)"
  "zslCompareWithNode z score ele (Some y) = 0 \<longleftrightarrow> zn_key z y = (score, ele)"
proof -
  let ?e = "zn_ele (node z y)"
  have s: "sdscmp ele ?e \<ge> 0 \<longleftrightarrow> ?e \<le> ele" using sdscmp_less [of ele ?e] by (simp add: not_less [symmetric])
  show "zslCompareWithNode z score ele (Some y) > 0 \<longleftrightarrow> zn_key z y < (score, ele)"
    by (auto simp: zslCompareWithNode_def zn_key_def zslGetNodeElement_def sdscmp_greater)
  show "zslCompareWithNode z score ele (Some y) \<ge> 0 \<longleftrightarrow> zn_key z y \<le> (score, ele)"
    by (auto simp: zslCompareWithNode_def zn_key_def zslGetNodeElement_def s)
  show "zslCompareWithNode z score ele (Some y) = 0 \<longleftrightarrow> zn_key z y = (score, ele)"
    by (auto simp: zslCompareWithNode_def zn_key_def zslGetNodeElement_def sdscmp_eq)
qed

section \<open>The invariant\<close>

definition lev :: "'s zskiplist \<Rightarrow> addr \<Rightarrow> nat" where
  "lev z p = (if p = zsl_header z then 0 else zn_levels (node z p))"

definition span :: "'s zskiplist \<Rightarrow> addr \<Rightarrow> nat \<Rightarrow> 64 word" where
  "span z p i = lv_span (zn_level (node z p) ! i)"

text \<open>The next node of a level in the rest of the list, and the distance to it.\<close>

definition next_at :: "(addr \<Rightarrow> nat) \<Rightarrow> nat \<Rightarrow> addr list \<Rightarrow> addr option" where
  "next_at l i ps = find (\<lambda>p. i < l p) ps"

definition dist :: "(addr \<Rightarrow> nat) \<Rightarrow> nat \<Rightarrow> addr list \<Rightarrow> nat" where
  "dist l i ps = length (takeWhile (\<lambda>p. \<not> i < l p) ps) + (if \<exists>p\<in>set ps. i < l p then 1 else 0)"

definition height :: "'s zskiplist \<Rightarrow> addr \<Rightarrow> nat" where
  "height z p = (if p = zsl_header z then zsl_level z else lev z p)"

definition linked_at :: "'s zskiplist \<Rightarrow> addr \<Rightarrow> addr list \<Rightarrow> bool" where
  "linked_at z p rest \<longleftrightarrow>
     (\<forall>i<height z p. forward z p i = next_at (lev z) i rest \<and> (0 < i \<longrightarrow> span z p i = of_nat (dist (lev z) i rest)))"

text \<open>The blocks of the header and the nodes.\<close>

definition blocks_ok :: "'s zskiplist \<Rightarrow> addr list \<Rightarrow> bool" where
  "blocks_ok z ns \<longleftrightarrow> distinct (zsl_header z # ns) \<and> set (zsl_header z # ns) \<subseteq> dom (zsl_heap z) \<and>
     (\<forall>p\<in>set ns. 1 \<le> lev z p \<and> lev z p \<le> ZSKIPLIST_MAXLEVEL \<and> length (zn_level (node z p)) = lev z p) \<and>
     length (zn_level (node z (zsl_header z))) = ZSKIPLIST_MAXLEVEL"

definition levels_ok :: "'s zskiplist \<Rightarrow> addr list \<Rightarrow> bool" where
  "levels_ok z ns \<longleftrightarrow> 1 \<le> zsl_level z \<and> zsl_level z \<le> ZSKIPLIST_MAXLEVEL \<and> (\<forall>p\<in>set ns. lev z p \<le> zsl_level z) \<and>
     (1 < zsl_level z \<longrightarrow> (\<exists>p\<in>set ns. lev z p = zsl_level z)) \<and>
     (\<forall>i. zsl_level z \<le> i \<and> i < ZSKIPLIST_MAXLEVEL \<longrightarrow> forward z (zsl_header z) i = None)"

definition links_ok :: "'s zskiplist \<Rightarrow> addr list \<Rightarrow> bool" where
  "links_ok z ns \<longleftrightarrow> (\<forall>xs p ys. zsl_header z # ns = xs @ p # ys \<longrightarrow> linked_at z p ys)"

definition last_opt :: "'a list \<Rightarrow> 'a option" where
  "last_opt xs = (if xs = [] then None else Some (last xs))"

definition backs_ok :: "'s zskiplist \<Rightarrow> addr list \<Rightarrow> bool" where
  "backs_ok z ns \<longleftrightarrow> (\<forall>xs p ys. ns = xs @ p # ys \<longrightarrow> zn_backward (node z p) = last_opt xs) \<and> zsl_tail z = last_opt ns"

definition sorted_ok :: "'s::linorder zskiplist \<Rightarrow> addr list \<Rightarrow> bool" where
  "sorted_ok z ns \<longleftrightarrow> sorted_wrt (\<lambda>p q. zn_key z p < zn_key z q) ns"

definition zsl_core :: "'s::linorder zskiplist \<Rightarrow> addr list \<Rightarrow> bool" where
  "zsl_core z ns \<longleftrightarrow> blocks_ok z ns \<and> levels_ok z ns \<and> links_ok z ns \<and> backs_ok z ns \<and> sorted_ok z ns \<and>
     zsl_length z = of_nat (length ns)"

text \<open>Nothing else is on the heap.\<close>

definition zsl_inv :: "'s::linorder zskiplist \<Rightarrow> addr list \<Rightarrow> bool" where
  "zsl_inv z ns \<longleftrightarrow> zsl_core z ns \<and> dom (zsl_heap z) = set (zsl_header z # ns)"

section \<open>Next nodes and distances\<close>

lemma next_at_append:
  "next_at l i (xs @ ys) = (if \<exists>p\<in>set xs. i < l p then next_at l i xs else next_at l i ys)"
  by (induction xs) (auto simp: next_at_def)

lemma next_at_Cons: "next_at l i (p # ps) = (if i < l p then Some p else next_at l i ps)"
  by (simp add: next_at_def)

lemma next_at_None: "next_at l i ps = None \<longleftrightarrow> (\<forall>p\<in>set ps. \<not> i < l p)"
  by (auto simp: next_at_def find_None_iff)

lemma dist_append:
  "dist l i (xs @ ys) = (if \<exists>p\<in>set xs. i < l p then dist l i xs else length xs + dist l i ys)"
proof (cases "\<exists>p\<in>set xs. i < l p")
  case True
  then have "takeWhile (\<lambda>p. \<not> i < l p) (xs @ ys) = takeWhile (\<lambda>p. \<not> i < l p) xs" by (metis takeWhile_append1)
  then show ?thesis using True by (auto simp: dist_def)
next
  case False
  then have "takeWhile (\<lambda>p. \<not> i < l p) (xs @ ys) = xs @ takeWhile (\<lambda>p. \<not> i < l p) ys" by (intro takeWhile_append2) auto
  then show ?thesis using False by (auto simp: dist_def)
qed

lemma dist_Cons: "dist l i (p # ps) = (if i < l p then 1 else 1 + dist l i ps)"
  by (auto simp: dist_def)

lemma dist_Nil [simp]: "dist l i [] = 0"
  by (simp add: dist_def)

lemma next_at_cong: "(\<And>p. p \<in> set ps \<Longrightarrow> l p = l' p) \<Longrightarrow> next_at l i ps = next_at l' i ps"
  by (induction ps) (auto simp: next_at_def)

lemma dist_cong: "(\<And>p. p \<in> set ps \<Longrightarrow> l p = l' p) \<Longrightarrow> dist l i ps = dist l' i ps"
  by (induction ps) (auto simp: dist_Cons)

text \<open>The last node of a level in a prefix, and its position.\<close>

definition upd :: "addr \<Rightarrow> (addr \<Rightarrow> nat) \<Rightarrow> nat \<Rightarrow> addr list \<Rightarrow> addr" where
  "upd h l i ps = last (h # filter (\<lambda>p. i < l p) ps)"

definition pos :: "(addr \<Rightarrow> nat) \<Rightarrow> nat \<Rightarrow> addr list \<Rightarrow> nat" where
  "pos l i ps = length ps - length (takeWhile (\<lambda>p. \<not> i < l p) (rev ps))"

lemma upd_pos:
  assumes "ps = xs @ ys" "xs = [] \<or> i < l (last xs)" "\<forall>p\<in>set ys. \<not> i < l p"
  shows "upd h l i ps = last (h # xs) \<and> pos l i ps = length xs"
proof -
  have f: "filter (\<lambda>p. i < l p) ys = []" using assms(3) by (simp add: filter_empty_conv)
  have t: "takeWhile (\<lambda>p. \<not> i < l p) (rev ys @ rev xs) = rev ys @ takeWhile (\<lambda>p. \<not> i < l p) (rev xs)"
    using assms(3) by (intro takeWhile_append2) simp
  show ?thesis
  proof (cases xs rule: rev_cases)
    case Nil
    have "takeWhile (\<lambda>p. \<not> i < l p) (rev ys) = rev ys" using t Nil by simp
    then have "length (takeWhile (\<lambda>p. \<not> i < l p) (rev ys)) = length ys" by (simp only: length_rev)
    then show ?thesis using Nil assms(1) f by (simp add: upd_def pos_def)
  next
    case (snoc us x)
    then show ?thesis using assms t f by (simp add: upd_def pos_def)
  qed
qed

lemma upd_split:
  obtains xs ys where "ps = xs @ ys" "xs = [] \<or> i < l (last xs)" "\<forall>p\<in>set ys. \<not> i < l p"
    "upd h l i ps = last (h # xs)" "pos l i ps = length xs"
proof -
  let ?ys = "rev (takeWhile (\<lambda>p. \<not> i < l p) (rev ps))" and ?xs = "rev (dropWhile (\<lambda>p. \<not> i < l p) (rev ps))"
  have 1: "ps = ?xs @ ?ys" by (metis rev_append rev_rev_ident takeWhile_dropWhile_id)
  have 2: "?xs = [] \<or> i < l (last ?xs)"
    using hd_dropWhile [of "\<lambda>p. \<not> i < l p" "rev ps"] by (auto simp: last_rev)
  have 3: "\<forall>p\<in>set ?ys. \<not> i < l p" by (auto dest: set_takeWhileD)
  show ?thesis using that [OF 1 2 3] upd_pos [OF 1 2 3] by blast
qed

section \<open>The search\<close>

lemma zsl_core_linked:
  assumes "zsl_core z ns" "ns = xs @ ys"
  shows "linked_at z (last (zsl_header z # xs)) ys"
proof -
  have "zsl_header z # ns = butlast (zsl_header z # xs) @ last (zsl_header z # xs) # ys"
    using assms(2) append_butlast_last_id [of "zsl_header z # xs"]
    by (metis append.assoc append_Cons append_Nil list.distinct(1))
  then show ?thesis using assms(1) by (auto simp: zsl_core_def links_ok_def)
qed

lemma height_last:
  assumes "zsl_core z ns" "ns = xs @ ys" "i < zsl_level z" "xs = [] \<or> i < lev z (last xs)"
  shows "i < height z (last (zsl_header z # xs))"
proof (cases "xs = []")
  case False
  then have "last xs \<in> set ns" using assms(2) by simp
  then have "last xs \<noteq> zsl_header z" using assms(1) by (auto simp: zsl_core_def blocks_ok_def)
  then show ?thesis using assms(4) False by (simp add: height_def)
qed (use assms(3) in \<open>simp add: height_def\<close>)

lemma zslGetNodeSpanAtLevel_dist:
  assumes inv: "zsl_core z ns" and "linked_at z p ys" "i < height z p" "set ys \<subseteq> set ns"
  shows "zslGetNodeSpanAtLevel z p i = of_nat (dist (lev z) i ys)"
proof (cases "i = 0")
  case True
  have "forward z p 0 = next_at (lev z) 0 ys" using assms(2,3) True by (simp add: linked_at_def)
  moreover have "lev z q > 0" if "q \<in> set ys" for q using inv that assms(4) by (force simp: zsl_core_def blocks_ok_def)
  ultimately show ?thesis using True
    by (cases ys) (auto simp: zslGetNodeSpanAtLevel_def next_at_Cons next_at_def dist_Cons)
next
  case False
  then show ?thesis using assms(2,3) by (simp add: zslGetNodeSpanAtLevel_def linked_at_def span_def)
qed

text \<open>The condition of a search holds exactly of the nodes of a prefix, by node or by rank, which counts
  from the node after \<open>k\<close> others.\<close>

definition cuts :: "nat \<Rightarrow> (addr \<Rightarrow> 64 word \<Rightarrow> bool) \<Rightarrow> addr list \<Rightarrow> addr list \<Rightarrow> bool" where
  "cuts k go as bs \<longleftrightarrow>
     (\<forall>xs y ys. as @ bs = xs @ y # ys \<and> k \<le> length xs \<longrightarrow> go y (of_nat (length xs + 1 - k)) = (length xs < length as))"

lemma cutsI:
  assumes "\<And>y r. y \<in> set as \<Longrightarrow> go y r" "\<And>y r. y \<in> set bs \<Longrightarrow> \<not> go y r"
  shows "cuts k go as bs"
  unfolding cuts_def
proof (intro allI impI)
  fix xs y ys
  assume "as @ bs = xs @ y # ys \<and> k \<le> length xs"
  then have e: "as @ bs = xs @ y # ys" by simp
  show "go y (of_nat (length xs + 1 - k)) = (length xs < length as)"
  proof (cases "length xs < length as")
    case True
    then have "y = as ! length xs" using e by (metis nth_append nth_append_length)
    then show ?thesis using assms(1) True by simp
  next
    case False
    then obtain us where "xs = as @ us" using e by (metis append_eq_append_conv_if append_take_drop_id linorder_not_less take_all)
    then have "bs = us @ y # ys" using e by simp
    then show ?thesis using assms(2) False by simp
  qed
qed

lemma cutsD: "cuts k go as bs \<Longrightarrow> as @ bs = xs @ y # ys \<Longrightarrow> k \<le> length xs \<Longrightarrow>
   go y (of_nat (length xs + 1 - k)) = (length xs < length as)"
  by (simp add: cuts_def)

lemma walk_ok:
  assumes inv: "zsl_core z (as @ bs)" and go: "cuts k go as bs" and i: "i < zsl_level z"
  shows "as = xs @ ys \<Longrightarrow> xs = [] \<or> i < lev z (last xs) \<Longrightarrow> k \<le> length xs \<Longrightarrow>
    walk z go i (last (zsl_header z # xs)) (of_nat (length xs - k)) =
      Some (upd (zsl_header z) (lev z) i as, of_nat (pos (lev z) i as - k))"
proof (induction "length ys" arbitrary: xs ys rule: less_induct)
  case less
  let ?x = "last (zsl_header z # xs)"
  have sp: "as @ bs = xs @ (ys @ bs)" using less.prems(1) by simp
  note l = zsl_core_linked [OF inv sp] and h = height_last [OF inv sp i less.prems(2)]
  have f: "forward z ?x i = next_at (lev z) i (ys @ bs)" using l h by (simp add: linked_at_def)
  have s: "zslGetNodeSpanAtLevel z ?x i = of_nat (dist (lev z) i (ys @ bs))"
    by (rule zslGetNodeSpanAtLevel_dist [OF inv l h]) (use less.prems(1) in auto)
  show ?case
  proof (cases "\<exists>p\<in>set ys. i < lev z p")
    case True
    then obtain us y vs where y: "ys = us @ y # vs" "i < lev z y" "\<forall>p\<in>set us. \<not> i < lev z p"
      using split_list_first_prop [OF True] by blast
    have n: "next_at (lev z) i (ys @ bs) = Some y" "dist (lev z) i (ys @ bs) = length us + 1"
      using y by (auto simp: next_at_append next_at_Cons dist_append dist_Cons)
    have "go y (of_nat (length (xs @ us) + 1 - k)) = (length (xs @ us) < length as)"
      by (rule cutsD [OF go, of _ _ "vs @ bs"]) (use less.prems y(1) in simp_all)
    moreover have "length (xs @ us) < length as" using less.prems(1) y(1) by simp
    moreover have "length (xs @ us) + 1 - k = (length xs - k) + (length us + 1)" using less.prems(3) by simp
    ultimately have "go y (of_nat (length xs - k) + of_nat (length us + 1))" by (simp only: of_nat_add)
    then have "walk z go i ?x (of_nat (length xs - k)) = walk z go i y (of_nat (length xs - k) + of_nat (length us + 1))"
      using f s n by (subst walk.simps) (simp add: Let_def)
    also have "\<dots> = walk z go i (last (zsl_header z # (xs @ us @ [y]))) (of_nat (length (xs @ us @ [y]) - k))"
    proof -
      have "length (xs @ us @ [y]) - k = (length xs - k) + (length us + 1)" using less.prems(3) by simp
      then show ?thesis by (simp only: of_nat_add) simp
    qed
    also have "\<dots> = Some (upd (zsl_header z) (lev z) i as, of_nat (pos (lev z) i as - k))"
      by (rule less.hyps [of vs]) (use less.prems(1,3) y in auto)
    finally show ?thesis .
  next
    case False
    have u: "upd (zsl_header z) (lev z) i as = ?x \<and> pos (lev z) i as = length xs"
      by (rule upd_pos [where l = "lev z" and i = i, OF less.prems(1,2)]) (use False in blast)
    have stop: "walk z go i ?x (of_nat (length xs - k)) = Some (?x, of_nat (length xs - k))"
    proof (cases "next_at (lev z) i (ys @ bs)")
      case None
      then show ?thesis using f by (subst walk.simps) simp
    next
      case (Some y)
      then have "next_at (lev z) i bs = Some y" using False by (simp add: next_at_append)
      then have ex: "\<exists>p\<in>set bs. i < lev z p" using next_at_None [of "lev z" i bs] by auto
      then obtain us w vs where w: "bs = us @ w # vs" "i < lev z w" "\<forall>p\<in>set us. \<not> i < lev z p" using split_list_first_prop [OF ex] by blast
      have n: "y = w" "dist (lev z) i (ys @ bs) = length ys + (length us + 1)"
        using w False \<open>next_at (lev z) i bs = Some y\<close> by (auto simp: next_at_append next_at_Cons dist_append dist_Cons)
      have "go y (of_nat (length (as @ us) + 1 - k)) = (length (as @ us) < length as)"
        by (rule cutsD [OF go, of _ _ vs]) (use less.prems w(1) n(1) in simp_all)
      moreover have "length (as @ us) + 1 - k = (length xs - k) + (length ys + (length us + 1))" using less.prems(1,3) by simp
      moreover have "\<not> length (as @ us) < length as" by simp
      ultimately have "\<not> go y (of_nat (length xs - k) + of_nat (length ys + (length us + 1)))"
        by (simp only: of_nat_add) simp
      then show ?thesis using f s n Some by (subst walk.simps) (simp add: Let_def)
    qed
    show ?thesis using stop u False by auto
  qed
qed

lemma search_ok:
  assumes inv: "zsl_core z (as @ bs)" and go: "cuts 0 go as bs"
  shows "as = xs @ ys \<Longrightarrow> xs = [] \<or> n \<le> lev z (last xs) \<Longrightarrow> n \<le> zsl_level z \<Longrightarrow>
    search z go n (last (zsl_header z # xs)) (of_nat (length xs)) =
      Some (map (\<lambda>i. (upd (zsl_header z) (lev z) i as, of_nat (pos (lev z) i as))) [0..<n])"
proof (induction n arbitrary: xs ys)
  case (Suc n)
  have w: "walk z go n (last (zsl_header z # xs)) (of_nat (length xs)) =
      Some (upd (zsl_header z) (lev z) n as, of_nat (pos (lev z) n as))"
    using walk_ok [where k = 0, OF inv go _ Suc.prems(1)] Suc.prems(2,3) by auto
  obtain us vs where u: "as = us @ vs" "us = [] \<or> n < lev z (last us)"
    "upd (zsl_header z) (lev z) n as = last (zsl_header z # us)" "pos (lev z) n as = length us"
    using upd_split [of as n "lev z" "zsl_header z"] by blast
  have "search z go n (last (zsl_header z # us)) (of_nat (length us)) =
      Some (map (\<lambda>i. (upd (zsl_header z) (lev z) i as, of_nat (pos (lev z) i as))) [0..<n])"
    by (rule Suc.IH [OF u(1)]) (use u(2) Suc.prems(3) in auto)
  then show ?case using w u(3,4) by simp
qed simp

lemma search_from_header:
  assumes "zsl_core z (as @ bs)" "cuts 0 go as bs"
  shows "search z go (zsl_level z) (zsl_header z) 0 =
      Some (map (\<lambda>i. (upd (zsl_header z) (lev z) i as, of_nat (pos (lev z) i as))) [0..<zsl_level z])"
  using search_ok [OF assms, of "[]" as "zsl_level z"] by simp

end
