(* ===== verification/Zsl_Insert.thy ===== *)
theory Zsl_Insert
  imports Zsl_Inv
begin

text \<open>
  Reads after writes of links, the loops over the levels, and insertion: it keeps the invariant of a skip list and
  puts the node at its place.
\<close>

section \<open>Reads after writes\<close>

text \<open>Two lists that differ in forward pointers and spans only.\<close>

definition same_but_links :: "'s zskiplist \<Rightarrow> 's zskiplist \<Rightarrow> bool" where
  "same_but_links z z' \<longleftrightarrow> zsl_header z' = zsl_header z \<and> zsl_tail z' = zsl_tail z \<and> zsl_length z' = zsl_length z \<and>
     zsl_level z' = zsl_level z \<and> dom (zsl_heap z') = dom (zsl_heap z) \<and>
     (\<forall>p. zn_score (node z' p) = zn_score (node z p) \<and> zn_ele (node z' p) = zn_ele (node z p) \<and>
        zn_backward (node z' p) = zn_backward (node z p) \<and> zn_levels (node z' p) = zn_levels (node z p) \<and>
        length (zn_level (node z' p)) = length (zn_level (node z p)))"

lemma same_but_links_refl [simp]: "same_but_links z z"
  by (simp add: same_but_links_def)

lemma same_but_links_trans: "same_but_links x y \<Longrightarrow> same_but_links y z \<Longrightarrow> same_but_links x z"
  by (auto simp: same_but_links_def)

lemma same_but_links_keeps:
  assumes "same_but_links z z'"
  shows "lev z' = lev z" "zn_key z' = zn_key z" "height z' = height z"
  using assms by (auto simp: same_but_links_def lev_def zn_key_def height_def)

lemma node_set_node [simp]: "node (set_node z x f) y = (if y = x then f (node z x) else node z y)"
  by (simp add: node_def set_node_def)

lemma set_node_fields [simp]:
  "zsl_header (set_node z x f) = zsl_header z" "zsl_tail (set_node z x f) = zsl_tail z"
  "zsl_length (set_node z x f) = zsl_length z" "zsl_level (set_node z x f) = zsl_level z"
  "dom (zsl_heap (set_node z x f)) = insert x (dom (zsl_heap z))"
  by (simp_all add: set_node_def)

lemma forward_set_forward:
  "i < length (zn_level (node z x)) \<Longrightarrow>
   forward (set_forward z x i v) y j = (if y = x \<and> j = i then v else forward z y j)"
  by (simp add: forward_def set_forward_def nth_list_update)

lemma span_set_forward: "span (set_forward z x i v) y j = span z y j"
  by (cases "i < length (zn_level (node z x))") (auto simp: span_def set_forward_def nth_list_update list_update_beyond)

lemma forward_set_span: "forward (set_span z x i s) y j = forward z y j"
  by (cases "i < length (zn_level (node z x))") (auto simp: forward_def set_span_def nth_list_update list_update_beyond)

lemma span_set_span:
  "i < length (zn_level (node z x)) \<Longrightarrow> span (set_span z x i s) y j = (if y = x \<and> j = i then s else span z y j)"
  by (simp add: span_def set_span_def nth_list_update)

lemma set_links_same:
  assumes "x \<in> dom (zsl_heap z)"
  shows "same_but_links z (set_forward z x i v)" "same_but_links z (set_span z x i s)"
  using assms by (auto simp: same_but_links_def set_forward_def set_span_def insert_absorb)

lemmas link_reads = forward_set_forward span_set_forward forward_set_span span_set_span

section \<open>The loops over the levels\<close>

lemma link_level_effect:
  assumes u: "fst (us ! i) = u" and ne: "u \<noteq> n" and dom: "u \<in> dom (zsl_heap z)" "n \<in> dom (zsl_heap z)"
    and len: "i < length (zn_level (node z u))" "i < length (zn_level (node z n))"
  shows "same_but_links z (link_level n us i z) \<and>
    (\<forall>p j. forward (link_level n us i z) p j =
       (if j = i then if p = n then forward z u i else if p = u then Some n else forward z p j else forward z p j)) \<and>
    (\<forall>p j. 0 < j \<longrightarrow> span (link_level n us i z) p j =
       (if j = i then if p = n then span z u i - (snd (us ! 0) - snd (us ! i))
          else if p = u then snd (us ! 0) - snd (us ! i) + 1 else span z p j else span z p j))"
proof -
  let ?z1 = "set_forward z n i (forward z u i)"
  let ?z2 = "set_forward ?z1 u i (Some n)"
  have d1: "u \<in> dom (zsl_heap ?z1)" "n \<in> dom (zsl_heap ?z1)" "u \<in> dom (zsl_heap ?z2)" "n \<in> dom (zsl_heap ?z2)"
    using dom by (simp_all add: set_forward_def)
  have s2: "same_but_links z ?z2"
    using same_but_links_trans [OF set_links_same(1) [OF dom(2)] set_links_same(1) [OF d1(1)]] .
  then have len2: "i < length (zn_level (node ?z2 u))" "i < length (zn_level (node ?z2 n))" "i < length (zn_level (node ?z1 u))"
    using len set_links_same(1) [OF dom(2), of i "forward z u i"] by (simp_all add: same_but_links_def)
  have f2: "forward ?z2 p j =
       (if j = i then if p = n then forward z u i else if p = u then Some n else forward z p j else forward z p j)" for p j
    using ne len len2 by (simp add: forward_set_forward)
  have p2: "span ?z2 p j = span z p j" for p j by (simp add: span_set_forward)
  show ?thesis
  proof (cases "i = 0")
    case True
    then have "link_level n us i z = ?z2" by (simp add: link_level_def u [unfolded True] Let_def zslSetNodeSpanAtLevel_def)
    then show ?thesis using s2 f2 p2 True by simp
  next
    case False
    let ?s = "span z u i - (snd (us ! 0) - snd (us ! i))"
    let ?z3 = "set_span ?z2 n i ?s"
    let ?z4 = "set_span ?z3 u i (snd (us ! 0) - snd (us ! i) + 1)"
    have l: "link_level n us i z = ?z4"
      using False p2 [of u i] by (simp add: link_level_def u Let_def zslSetNodeSpanAtLevel_def zslGetNodeSpanAtLevel_def span_def)
    have d3: "u \<in> dom (zsl_heap ?z3)" using d1 by (simp add: set_span_def)
    have s3: "same_but_links z ?z3" by (rule same_but_links_trans [OF s2 set_links_same(2) [OF d1(4)]])
    then have len3: "i < length (zn_level (node ?z3 u))" using len by (simp add: same_but_links_def)
    have s4: "same_but_links z ?z4" by (rule same_but_links_trans [OF s3 set_links_same(2) [OF d3]])
    have "forward ?z4 p j = forward ?z2 p j" for p j by (simp add: forward_set_span)
    moreover have "span ?z4 p j = (if j = i then if p = n then ?s
          else if p = u then snd (us ! 0) - snd (us ! i) + 1 else span z p j else span z p j)" for p j
      using ne len2 len3 by (simp add: span_set_span p2)
    ultimately show ?thesis using s4 f2 unfolding l by simp
  qed
qed

lemma fold_link_levels:
  assumes ne: "\<And>i. i < k \<Longrightarrow> fst (us ! i) \<noteq> n \<and> fst (us ! i) \<in> dom (zsl_heap z) \<and> i < length (zn_level (node z (fst (us ! i))))"
    and n: "n \<in> dom (zsl_heap z)" "k \<le> length (zn_level (node z n))"
  shows "same_but_links z (fold (link_level n us) [0..<k] z) \<and>
    (\<forall>p j. forward (fold (link_level n us) [0..<k] z) p j =
       (if j < k then if p = n then forward z (fst (us ! j)) j else if p = fst (us ! j) then Some n else forward z p j
        else forward z p j)) \<and>
    (\<forall>p j. 0 < j \<longrightarrow> span (fold (link_level n us) [0..<k] z) p j =
       (if j < k then if p = n then span z (fst (us ! j)) j - (snd (us ! 0) - snd (us ! j))
          else if p = fst (us ! j) then snd (us ! 0) - snd (us ! j) + 1 else span z p j else span z p j))"
  using assms
proof (induction k)
  case (Suc k)
  let ?z = "fold (link_level n us) [0..<k] z"
  have ih: "same_but_links z ?z"
    "\<And>p j. forward ?z p j =
       (if j < k then if p = n then forward z (fst (us ! j)) j else if p = fst (us ! j) then Some n else forward z p j
        else forward z p j)"
    "\<And>p j. 0 < j \<Longrightarrow> span ?z p j =
       (if j < k then if p = n then span z (fst (us ! j)) j - (snd (us ! 0) - snd (us ! j))
          else if p = fst (us ! j) then snd (us ! 0) - snd (us ! j) + 1 else span z p j else span z p j)"
    using Suc.IH Suc.prems by simp_all
  have e: "same_but_links ?z (link_level n us k ?z) \<and>
    (\<forall>p j. forward (link_level n us k ?z) p j =
       (if j = k then if p = n then forward ?z (fst (us ! k)) k else if p = fst (us ! k) then Some n else forward ?z p j
        else forward ?z p j)) \<and>
    (\<forall>p j. 0 < j \<longrightarrow> span (link_level n us k ?z) p j =
       (if j = k then if p = n then span ?z (fst (us ! k)) k - (snd (us ! 0) - snd (us ! k))
          else if p = fst (us ! k) then snd (us ! 0) - snd (us ! k) + 1 else span ?z p j else span ?z p j))"
    using Suc.prems(1) [of k] Suc.prems(2,3) ih(1)
    by (intro link_level_effect) (auto simp: same_but_links_def)
  have f: "fold (link_level n us) [0..<Suc k] z = link_level n us k ?z" by simp
  show ?case
    unfolding f using e same_but_links_trans [OF ih(1)] ih(2,3) by (auto simp: less_Suc_eq)
qed simp

text \<open>A loop that changes one span per level.\<close>

lemma fold_spans:
  assumes step: "\<And>i z'. a \<le> i \<Longrightarrow> i < b \<Longrightarrow> same_but_links z z' \<Longrightarrow> f i z' = (if 0 < i then set_span z' (u i) i (g i (span z' (u i) i)) else z')"
    and dom: "\<And>i. a \<le> i \<Longrightarrow> i < b \<Longrightarrow> 0 < i \<Longrightarrow> u i \<in> dom (zsl_heap z) \<and> i < length (zn_level (node z (u i)))"
  shows "same_but_links z (fold f [a..<b] z) \<and> (\<forall>p j. forward (fold f [a..<b] z) p j = forward z p j) \<and>
    (\<forall>p j. 0 < j \<longrightarrow> span (fold f [a..<b] z) p j = (if a \<le> j \<and> j < b \<and> p = u j then g j (span z p j) else span z p j))"
  using assms
proof (induction b)
  case (Suc b)
  show ?case
  proof (cases "a \<le> b")
    case True
    let ?z = "fold f [a..<b] z"
    have ih: "same_but_links z ?z" "\<And>p j. forward ?z p j = forward z p j"
      "\<And>p j. 0 < j \<Longrightarrow> span ?z p j = (if a \<le> j \<and> j < b \<and> p = u j then g j (span z p j) else span z p j)"
      using Suc.IH Suc.prems by simp_all
    have f: "fold f [a..<Suc b] z = f b ?z" using True by simp
    show ?thesis
    proof (cases "b = 0")
      case z: True
      then have "f b ?z = ?z" using Suc.prems(1) [of b ?z] True ih(1) by simp
      then show ?thesis unfolding f using ih z by simp
    next
      case False
      then have fb: "f b ?z = set_span ?z (u b) b (g b (span ?z (u b) b))" using Suc.prems(1) [of b ?z] True ih(1) by simp
      have d: "u b \<in> dom (zsl_heap ?z)" "b < length (zn_level (node ?z (u b)))"
        using Suc.prems(2) [of b] True False ih(1) by (simp_all add: same_but_links_def)
      have "same_but_links z (f b ?z)" unfolding fb by (rule same_but_links_trans [OF ih(1) set_links_same(2) [OF d(1)]])
      moreover have "forward (f b ?z) p j = forward z p j" for p j unfolding fb by (simp add: forward_set_span ih(2))
      moreover have "span (f b ?z) p j = (if a \<le> j \<and> j < Suc b \<and> p = u j then g j (span z p j) else span z p j)" if "0 < j" for p j
        unfolding fb using ih(3) that d(2) True False by (auto simp: span_set_span less_Suc_eq)
      ultimately show ?thesis unfolding f by blast
    qed
  next
    case False
    then show ?thesis by auto
  qed
qed simp

section \<open>Insertion\<close>

text \<open>What an insertion changes: the pointers to and from the new node, the spans across it, and the backward
  pointers around it.\<close>

definition inserted :: "'s zskiplist \<Rightarrow> addr \<Rightarrow> addr list \<Rightarrow> addr list \<Rightarrow> 's zskiplist \<Rightarrow> bool" where
  "inserted z n as bs z' \<longleftrightarrow>
     zsl_header z' = zsl_header z \<and> zsl_level z' = max (zsl_level z) (lev z n) \<and> zsl_length z' = zsl_length z + 1 \<and>
     dom (zsl_heap z') = dom (zsl_heap z) \<and> zn_key z' = zn_key z \<and> lev z' = lev z \<and>
     (\<forall>p. length (zn_level (node z' p)) = length (zn_level (node z p))) \<and>
     (\<forall>p i. forward z' p i =
        (if i < lev z n then if p = n then next_at (lev z) i bs
           else if p = upd (zsl_header z) (lev z) i as then Some n else forward z p i
         else forward z p i)) \<and>
     (\<forall>p i. 0 < i \<longrightarrow> span z' p i =
        (if i < lev z n then if p = n then of_nat (dist (lev z) i bs)
           else if p = upd (zsl_header z) (lev z) i as then of_nat (length as - pos (lev z) i as + 1) else span z p i
         else if i < zsl_level z \<and> p = upd (zsl_header z) (lev z) i as then span z p i + 1 else span z p i)) \<and>
     (\<forall>p. zn_backward (node z' p) =
        (if p = n then last_opt as else if last_opt (rev bs) = Some p then Some n else zn_backward (node z p))) \<and>
     zsl_tail z' = (if bs = [] then Some n else zsl_tail z)"

lemma core_prefix:
  assumes "zsl_core z (as @ bs)"
  shows "upd (zsl_header z) (lev z) i as \<in> set (zsl_header z # as)"
    "i < ZSKIPLIST_MAXLEVEL \<Longrightarrow> i < length (zn_level (node z (upd (zsl_header z) (lev z) i as)))"
proof -
  have i: "upd (zsl_header z) (lev z) i as = zsl_header z \<or>
      upd (zsl_header z) (lev z) i as \<in> set as \<and> i < lev z (upd (zsl_header z) (lev z) i as)"
  proof (cases "filter (\<lambda>p. i < lev z p) as" rule: rev_cases)
    case (snoc xs x)
    have "x \<in> {x \<in> set as. i < lev z x}" unfolding set_filter [symmetric] snoc by simp
    then show ?thesis using snoc by (simp add: upd_def)
  qed (simp add: upd_def)
  then show "upd (zsl_header z) (lev z) i as \<in> set (zsl_header z # as)" by auto
  show "i < ZSKIPLIST_MAXLEVEL \<Longrightarrow> i < length (zn_level (node z (upd (zsl_header z) (lev z) i as)))"
    using i assms by (auto simp: zsl_core_def blocks_ok_def)
qed

lemma upd_high:
  "\<forall>p\<in>set as. l p \<le> i \<Longrightarrow> upd h l i as = h \<and> pos l i as = 0"
  using upd_pos [of as "[]" as i l h] by (auto simp: not_less)

lemma pos_zero:
  assumes "zsl_core z (as @ bs)"
  shows "pos (lev z) 0 as = length as" "upd (zsl_header z) (lev z) 0 as = last (zsl_header z # as)"
proof -
  have "as = [] \<or> 0 < lev z (last as)"
    using assms last_in_set [of as] by (cases as rule: rev_cases) (force simp: zsl_core_def blocks_ok_def)+
  from upd_pos [where l = "lev z" and i = 0, OF _ this, of as "[]" "zsl_header z"]
  show "pos (lev z) 0 as = length as" "upd (zsl_header z) (lev z) 0 as = last (zsl_header z # as)" by simp_all
qed

lemma pos_le: "pos l i as \<le> length as"
  by (simp add: pos_def)

lemma zslInsertNode_inserted:
  assumes core: "zsl_core z (as @ bs)" and n: "n \<notin> set (zsl_header z # as @ bs)" "n \<in> dom (zsl_heap z)"
    and k: "1 \<le> lev z n" "lev z n \<le> ZSKIPLIST_MAXLEVEL" "length (zn_level (node z n)) = lev z n"
    and key: "\<forall>p\<in>set as. zn_key z p < zn_key z n" "\<forall>p\<in>set bs. \<not> zn_key z p < zn_key z n"
  shows "\<exists>z'. zslInsertNode z n = Some z' \<and> inserted z n as bs z'"
proof -
  let ?h = "zsl_header z" and ?L = "zsl_level z" and ?k = "lev z n"
  define u where "u i = upd ?h (lev z) i as" for i
  define r where "r i = (of_nat (pos (lev z) i as) :: 64 word)" for i
  have nk: "zn_levels (node z n) = ?k" using n(1) by (auto simp: lev_def)
  have L: "1 \<le> ?L" "?L \<le> ZSKIPLIST_MAXLEVEL" "\<forall>p\<in>set as. lev z p \<le> ?L"
    using core by (simp_all add: zsl_core_def levels_ok_def)
  have high: "u i = ?h \<and> r i = 0" if "?L \<le> i" for i
  proof -
    have "\<forall>p\<in>set as. lev z p \<le> i" using L(3) that order_trans by blast
    from upd_high [OF this, of ?h] show ?thesis by (simp add: u_def r_def)
  qed
  have mem: "u i \<in> set (?h # as)" for i using core_prefix(1) [OF core] by (simp add: u_def)
  then have un: "u i \<noteq> n" for i using n(1) by (metis Un_iff list.set_intros(1) set_ConsD set_append list.set_intros(2) set_append)
  have ud: "u i \<in> dom (zsl_heap z)" for i using mem [of i] core by (auto simp: zsl_core_def blocks_ok_def)
  have ul: "i < length (zn_level (node z (u i)))" if "i < ZSKIPLIST_MAXLEVEL" for i
    using core_prefix(2) [OF core that] by (simp add: u_def)
  let ?go = "\<lambda>y r. zslCompareWithNode z (zn_score (node z n)) (zslGetNodeElement z n) (Some y) > 0"
  have go: "cuts 0 ?go as bs"
    by (rule cutsI) (use key in \<open>auto simp: zslCompareWithNode_key zslGetNodeElement_def zn_key_def [of z n]\<close>)
  have se: "search z ?go ?L ?h 0 = Some (map (\<lambda>i. (u i, r i)) [0..<?L])"
    using search_from_header [OF core go] by (simp add: u_def r_def)
  define M where "M = max ?L ?k"
  define us where "us = map (\<lambda>i. (u i, r i)) [0..<M]"
  have us: "fst (us ! i) = u i" "snd (us ! i) = r i" if "i < M" for i using that by (simp_all add: us_def)
  have M: "0 < M" "M \<le> ZSKIPLIST_MAXLEVEL" "?k \<le> M" "?L \<le> M" using L k by (simp_all add: M_def)
  define z1 where "z1 = (if ?k > ?L then
      set_node ((fold (\<lambda>i z. zslSetNodeSpanAtLevel z (zsl_header z) i (zsl_length z)) [?L..<?k] z)\<lparr>zsl_level := ?k\<rparr>) ?h
        (\<lambda>h. h\<lparr>zn_levels := ?k\<rparr>) else z)"
  have us1: "(if ?k > ?L then map (\<lambda>i. (u i, r i)) [0..<?L] @ map (\<lambda>i. (?h, 0)) [?L..<?k] else map (\<lambda>i. (u i, r i)) [0..<?L]) = us"
  proof (cases "?k > ?L")
    case True
    have "map (\<lambda>i. (?h, 0)) [?L..<?k] = map (\<lambda>i. (u i, r i)) [?L..<?k]" using high by simp
    moreover have "[0..<?k] = [0..<?L] @ [?L..<?k]" using True by (metis less_imp_le_nat upt_add_eq_append zero_le le_add_diff_inverse)
    ultimately show ?thesis using True by (simp add: us_def M_def)
  qed (simp add: us_def M_def)
  have hd: "?h \<in> dom (zsl_heap z)" "length (zn_level (node z ?h)) = ZSKIPLIST_MAXLEVEL"
    using core by (simp_all add: zsl_core_def blocks_ok_def)
  let ?grow = "fold (\<lambda>i z. zslSetNodeSpanAtLevel z (zsl_header z) i (zsl_length z)) [?L..<?k] z"
  have grow: "same_but_links z ?grow \<and> (\<forall>p j. forward ?grow p j = forward z p j) \<and>
    (\<forall>p j. 0 < j \<longrightarrow> span ?grow p j = (if ?L \<le> j \<and> j < ?k \<and> p = ?h then zsl_length z else span z p j))"
    by (rule fold_spans [where u = "\<lambda>i. ?h" and g = "\<lambda>i s. zsl_length z"])
      (use hd k in \<open>auto simp: same_but_links_def zslSetNodeSpanAtLevel_def\<close>)
  have z1: "zsl_header z1 = ?h" "zsl_tail z1 = zsl_tail z" "zsl_length z1 = zsl_length z" "zsl_level z1 = M"
    "dom (zsl_heap z1) = dom (zsl_heap z)" "zn_key z1 = zn_key z" "lev z1 = lev z"
    "\<And>p. length (zn_level (node z1 p)) = length (zn_level (node z p))"
    "\<And>p. zn_backward (node z1 p) = zn_backward (node z p)"
    "\<And>p j. forward z1 p j = forward z p j"
    "\<And>p j. 0 < j \<Longrightarrow> span z1 p j = (if ?L \<le> j \<and> j < ?k \<and> p = ?h then zsl_length z else span z p j)"
  proof -
    have nd: "node (x\<lparr>zsl_level := l\<rparr>) = node x" for x :: "'a zskiplist" and l by (auto simp: node_def)
    have fs: "forward (x\<lparr>zsl_level := l\<rparr>) = forward x" "span (x\<lparr>zsl_level := l\<rparr>) = span x"
      "forward (set_node x y (\<lambda>h. h\<lparr>zn_levels := l\<rparr>)) = forward x" "span (set_node x y (\<lambda>h. h\<lparr>zn_levels := l\<rparr>)) = span x"
      for x :: "'a zskiplist" and l y by (auto simp: forward_def span_def nd fun_eq_iff)
    show "zsl_header z1 = ?h" "zsl_tail z1 = zsl_tail z" "zsl_length z1 = zsl_length z" "zsl_level z1 = M"
      "dom (zsl_heap z1) = dom (zsl_heap z)"
      using grow hd(1) by (auto simp: z1_def same_but_links_def M_def)
    show "zn_key z1 = zn_key z" "lev z1 = lev z"
      "\<And>p. length (zn_level (node z1 p)) = length (zn_level (node z p))"
      "\<And>p. zn_backward (node z1 p) = zn_backward (node z p)"
      using grow by (auto simp: z1_def same_but_links_def zn_key_def lev_def nd fun_eq_iff)
    show "\<And>p j. forward z1 p j = forward z p j" using grow by (simp add: z1_def fs)
    show "\<And>p j. 0 < j \<Longrightarrow> span z1 p j = (if ?L \<le> j \<and> j < ?k \<and> p = ?h then zsl_length z else span z p j)"
      using grow by (auto simp: z1_def fs)
  qed
  define z2 where "z2 = fold (link_level n us) [0..<?k] z1"
  have z2: "same_but_links z1 z2 \<and>
    (\<forall>p j. forward z2 p j =
       (if j < ?k then if p = n then forward z1 (fst (us ! j)) j else if p = fst (us ! j) then Some n else forward z1 p j
        else forward z1 p j)) \<and>
    (\<forall>p j. 0 < j \<longrightarrow> span z2 p j =
       (if j < ?k then if p = n then span z1 (fst (us ! j)) j - (snd (us ! 0) - snd (us ! j))
          else if p = fst (us ! j) then snd (us ! 0) - snd (us ! j) + 1 else span z1 p j else span z1 p j))"
    unfolding z2_def by (rule fold_link_levels) (use us un ud ul M k z1(5,8) n(2) in auto)
  define z3 where "z3 = fold (\<lambda>i z. zslIncrNodeSpanAtLevel z (fst (us ! i)) i 1) [?k..<zsl_level z2] z2"
  have z3: "same_but_links z2 z3 \<and> (\<forall>p j. forward z3 p j = forward z2 p j) \<and>
    (\<forall>p j. 0 < j \<longrightarrow> span z3 p j = (if ?k \<le> j \<and> j < zsl_level z2 \<and> p = fst (us ! j) then span z2 p j + 1 else span z2 p j))"
    unfolding z3_def
    by (rule fold_spans [where u = "\<lambda>i. fst (us ! i)" and g = "\<lambda>i s. s + 1"])
      (use us ud ul M z1 z2 in \<open>auto simp: same_but_links_def zslIncrNodeSpanAtLevel_def span_def\<close>)
  have at: "forward z (u i) i = next_at (lev z) i bs \<and>
      (0 < i \<longrightarrow> (if ?L \<le> i then zsl_length z else span z (u i) i) - (r 0 - r i) = of_nat (dist (lev z) i bs))"
    if "i < ?k" for i
  proof (cases "?L \<le> i")
    case True
    have nb: "\<forall>p\<in>set bs. \<not> i < lev z p" using core True by (force simp: zsl_core_def levels_ok_def)
    then have "next_at (lev z) i bs = None" "dist (lev z) i bs = length bs"
      by (simp_all add: next_at_None dist_def takeWhile_eq_all_conv [THEN iffD2])
    moreover have "forward z ?h i = None" using core True that k by (auto simp: zsl_core_def levels_ok_def)
    moreover have "zsl_length z = of_nat (length as) + of_nat (length bs)" using core by (simp add: zsl_core_def)
    ultimately show ?thesis using True high pos_zero(1) [OF core] by (simp add: r_def [of 0])
  next
    case False
    obtain xs ys where sp: "as = xs @ ys" "xs = [] \<or> i < lev z (last xs)" "\<forall>p\<in>set ys. \<not> i < lev z p"
      "u i = last (?h # xs)" "pos (lev z) i as = length xs"
      using upd_split [of as i "lev z" ?h] unfolding u_def by blast
    have e: "as @ bs = xs @ (ys @ bs)" using sp by simp
    have lk: "linked_at z (u i) (ys @ bs)" using zsl_core_linked [OF core e] sp(4) by simp
    have ih: "i < height z (u i)" using height_last [OF core e _ sp(2)] False sp(4) by simp
    have "next_at (lev z) i (ys @ bs) = next_at (lev z) i bs" "dist (lev z) i (ys @ bs) = length ys + dist (lev z) i bs"
      using sp(3) by (auto simp: next_at_append dist_append)
    moreover have "r 0 - r i = of_nat (length ys)" using pos_zero(1) [OF core] sp(1,5) by (simp add: r_def)
    ultimately show ?thesis using lk ih False by (simp add: linked_at_def)
  qed
  have M0: "fst (us ! 0) = u 0" using us(1) M(1) by simp
  define z4 where "z4 = set_node z3 n (\<lambda>m. m\<lparr>zn_backward := if u 0 = ?h then None else Some (u 0)\<rparr>)"
  define z5 where "z5 = (case forward z4 n 0 of
      Some y \<Rightarrow> set_node z4 y (\<lambda>m. m\<lparr>zn_backward := Some n\<rparr>) | None \<Rightarrow> z4\<lparr>zsl_tail := Some n\<rparr>)"
  have h3: "zsl_header z3 = ?h" "zsl_header z2 = ?h" using z1 z2 z3 by (simp_all add: same_but_links_def)
  have ins: "zslInsertNode z n = Some (z5\<lparr>zsl_length := zsl_length z5 + 1\<rparr>)"
  proof (cases "?k > ?L")
    case True
    have a: "map (\<lambda>i. (u i, r i)) [0..<?L] @ map (\<lambda>i. (?h, 0)) [?L..<?k] = us" using us1 True by simp
    have b: "set_node (?grow\<lparr>zsl_level := ?k\<rparr>) ?h (\<lambda>h. h\<lparr>zn_levels := ?k\<rparr>) = z1" using True by (simp add: z1_def)
    have c: "zsl_header (?grow\<lparr>zsl_level := ?k\<rparr>) = ?h" using grow by (simp add: same_but_links_def)
    show ?thesis unfolding zslInsertNode_def Let_def nk se z5_def z4_def z3_def z2_def
      using True h3 by (simp add: a b c M0 z5_def z4_def z3_def z2_def cong: option.case_cong)
  next
    case False
    then have "us = map (\<lambda>i. (u i, r i)) [0..<?L]" "z1 = z" using us1 by (simp_all add: z1_def)
    then show ?thesis unfolding zslInsertNode_def Let_def nk se
      using False h3 M0 by (simp add: z5_def z4_def z3_def z2_def cong: option.case_cong)
  qed
  let ?z = "z5\<lparr>zsl_length := zsl_length z5 + 1\<rparr>"
  have sm: "same_but_links z1 z3" using z2 z3 same_but_links_trans by blast
  have f3: "forward z3 p i = (if i < ?k then if p = n then next_at (lev z) i bs else if p = u i then Some n else forward z p i
      else forward z p i)" for p i
    using z2 z3 z1(10) us M(3) at by auto
  have s3: "span z3 p i = (if i < ?k then if p = n then of_nat (dist (lev z) i bs)
        else if p = u i then of_nat (length as - pos (lev z) i as + 1) else span z p i
      else if i < ?L \<and> p = u i then span z p i + 1 else span z p i)" if i: "0 < i" for p i
  proof (cases "i < ?k")
    case True
    then have iM: "i < M" using M(3) by simp
    have z3z2: "span z3 p i = span z2 p i" using z3 i True by simp
    have z2s: "span z2 p i = (if p = n then span z1 (u i) i - (r 0 - r i) else if p = u i then r 0 - r i + 1 else span z1 p i)"
      using z2 i True us [OF iM] us(2) [OF M(1)] by simp
    have "span z1 (u i) i - (r 0 - r i) = of_nat (dist (lev z) i bs)"
      using at [OF True] i high [of i] True z1(11) [OF i, of "u i"] by (cases "?L \<le> i") auto
    moreover have "r 0 - r i + 1 = of_nat (length as - pos (lev z) i as + 1)"
      using pos_zero(1) [OF core] pos_le [of "lev z" i as] by (simp add: r_def of_nat_diff)
    moreover have "span z1 p i = span z p i" if "p \<noteq> u i" using z1(11) [OF i] high [of i] that by auto
    ultimately show ?thesis using z3z2 z2s True by simp
  next
    case False
    have l2: "zsl_level z2 = M" using z2 z1(4) by (simp add: same_but_links_def)
    have "span z2 p i = span z p i" using z2 z1(11) i False by auto
    moreover have "i < M \<longleftrightarrow> i < ?L" using False by (auto simp: M_def)
    moreover have "i < M \<Longrightarrow> fst (us ! i) = u i" using us by simp
    ultimately show ?thesis using z3 i False l2 by auto
  qed
  have nx: "next_at (lev z) 0 bs = last_opt (rev bs)"
    using core by (cases bs) (force simp: next_at_def last_opt_def zsl_core_def blocks_ok_def)+
  have u0: "u 0 = last (?h # as)" using pos_zero(2) [OF core] by (simp add: u_def)
  have b4: "(if u 0 = ?h then None else Some (u 0)) = last_opt as"
  proof (cases "as = []")
    case False
    then have "last as \<noteq> ?h" using core last_in_set [OF False] unfolding zsl_core_def blocks_ok_def by (metis Un_iff distinct.simps(2) set_append)
    then show ?thesis using False u0 by (simp add: last_opt_def)
  qed (simp add: u0 last_opt_def)
  have fz4: "forward z4 p i = forward z3 p i" "span z4 p i = span z3 p i" for p i
    by (simp_all add: z4_def forward_def span_def)
  have f40: "forward z4 n 0 = last_opt (rev bs)" using fz4 f3 k(1) nx by simp
  have nd: "node (x\<lparr>zsl_length := l\<rparr>) = node x" "node (x\<lparr>zsl_tail := t\<rparr>) = node x" for x :: "'a zskiplist" and l t
    by (auto simp: node_def)
  have z5: "node z5 p = (if last_opt (rev bs) = Some p then (node z4 p)\<lparr>zn_backward := Some n\<rparr> else node z4 p)" for p
    using f40 by (auto simp: z5_def nd split: option.splits)
  have z5f: "zsl_header z5 = ?h" "zsl_length z5 = zsl_length z" "zsl_level z5 = M" "dom (zsl_heap z5) = dom (zsl_heap z)"
    "zsl_tail z5 = (if bs = [] then Some n else zsl_tail z)"
  proof -
    have "last bs' \<in> dom (zsl_heap z)" if "bs' = rev bs" "bs \<noteq> []" for bs'
      using core that last_in_set [of "rev bs"] by (auto simp: zsl_core_def blocks_ok_def)
    then show "zsl_header z5 = ?h" "zsl_length z5 = zsl_length z" "zsl_level z5 = M" "dom (zsl_heap z5) = dom (zsl_heap z)"
      "zsl_tail z5 = (if bs = [] then Some n else zsl_tail z)"
      using f40 sm z1 n(2)
      by (auto simp: z5_def z4_def same_but_links_def last_opt_def insert_absorb split: option.splits if_splits)
  qed
  have fs: "forward ?z p i = forward z3 p i" "span ?z p i = span z3 p i" for p i
    using fz4 [of p i] z5 [of p] by (auto simp: forward_def span_def nd)
  have lv: "p \<noteq> ?h \<Longrightarrow> zn_levels (node z1 p) = zn_levels (node z p)" for p
    using fun_cong [OF z1(7), of p] z1(1) by (simp add: lev_def)
  have ks: "zn_score (node z1 p) = zn_score (node z p)" "zn_ele (node z1 p) = zn_ele (node z p)" for p
    using fun_cong [OF z1(6), of p] by (simp_all add: zn_key_def)
  have n4: "zn_score (node z4 p) = zn_score (node z p)" "zn_ele (node z4 p) = zn_ele (node z p)"
    "p \<noteq> ?h \<Longrightarrow> zn_levels (node z4 p) = zn_levels (node z p)"
    "length (zn_level (node z4 p)) = length (zn_level (node z p))"
    "zn_backward (node z4 p) = (if p = n then last_opt as else zn_backward (node z p))" for p
    using sm z1(8,9) lv ks b4 by (auto simp: z4_def same_but_links_def)
  have nb: "last_opt (rev bs) \<noteq> Some n" using n(1) last_in_set [of "rev bs"] by (auto simp: last_opt_def)
  have "inserted z n as bs ?z"
    unfolding inserted_def
  proof (intro conjI allI impI)
    show "zsl_header ?z = ?h" "zsl_level ?z = max ?L ?k" "zsl_length ?z = zsl_length z + 1" "dom (zsl_heap ?z) = dom (zsl_heap z)"
      "zsl_tail ?z = (if bs = [] then Some n else zsl_tail z)" using z5f by (simp_all add: M_def)
    show "zn_key ?z = zn_key z" "lev ?z = lev z" using z5 n4 z5f(1) by (auto simp: fun_eq_iff zn_key_def lev_def nd)
    show "length (zn_level (node ?z p)) = length (zn_level (node z p))" for p using z5 n4 by (simp add: nd)
    show "forward ?z p i = (if i < ?k then if p = n then next_at (lev z) i bs
           else if p = upd ?h (lev z) i as then Some n else forward z p i else forward z p i)" for p i
      unfolding fs f3 u_def by (rule refl)
    show "span ?z p i = (if i < ?k then if p = n then of_nat (dist (lev z) i bs)
           else if p = upd ?h (lev z) i as then of_nat (length as - pos (lev z) i as + 1) else span z p i
         else if i < ?L \<and> p = upd ?h (lev z) i as then span z p i + 1 else span z p i)" if "0 < i" for p i
      unfolding fs s3 [OF that] u_def by (rule refl)
    show "zn_backward (node ?z p) =
        (if p = n then last_opt as else if last_opt (rev bs) = Some p then Some n else zn_backward (node z p))" for p
      using z5 n4 nb by (auto simp: nd)
  qed
  with ins show ?thesis by blast
qed

lemma split_mid:
  assumes "as @ n # bs = xs @ p # ys"
  obtains vs where "as = xs @ p # vs" "ys = vs @ n # bs" | "xs = as" "p = n" "ys = bs"
    | us where "xs = as @ n # us" "bs = us @ p # ys"
  using assms by (auto simp: append_eq_append_conv2 Cons_eq_append_conv append_eq_Cons_conv)

lemma split_two:
  assumes "as @ bs = xs @ p # ys"
  obtains vs where "as = xs @ p # vs" "ys = vs @ bs" | us where "xs = as @ us" "bs = us @ p # ys"
  using assms by (auto simp: append_eq_append_conv2 Cons_eq_append_conv append_eq_Cons_conv)

lemma upd_at:
  assumes d: "distinct (h # as)" and e: "h # as = xs @ p # vs" and p: "p \<noteq> h \<Longrightarrow> i < l p"
  shows "p = upd h l i as \<longleftrightarrow> (\<forall>q\<in>set vs. \<not> i < l q)"
    "\<forall>q\<in>set vs. \<not> i < l q \<Longrightarrow> pos l i as = length as - length vs"
proof -
  obtain us where u: "as = us @ vs" "last (h # us) = p" "us = [] \<or> i < l (last us)"
  proof (cases xs)
    case Nil
    then show ?thesis using e that [of "[]"] by simp
  next
    case (Cons x xs')
    then have "as = (xs' @ [p]) @ vs" "p \<noteq> h" using e d by auto
    then show ?thesis using that [of "xs' @ [p]"] p by simp
  qed
  have none: "upd h l i as = p \<and> pos l i as = length us" if "\<forall>q\<in>set vs. \<not> i < l q"
    using upd_pos [OF u(1,3) that, of h] u(2) by simp
  have some: "upd h l i as \<noteq> p" if "\<exists>q\<in>set vs. i < l q"
  proof -
    have ne: "filter (\<lambda>p. i < l p) vs \<noteq> []" using that by (auto simp: filter_empty_conv)
    then have "upd h l i as = last (filter (\<lambda>p. i < l p) vs)" by (simp add: upd_def u(1))
    then have "upd h l i as \<in> set vs" using last_in_set [OF ne] by auto
    moreover have "p \<notin> set vs" using d e by (metis Un_iff distinct.simps(2) distinct_append set_append)
    ultimately show ?thesis by blast
  qed
  show "p = upd h l i as \<longleftrightarrow> (\<forall>q\<in>set vs. \<not> i < l q)" using none some by blast
  show "\<forall>q\<in>set vs. \<not> i < l q \<Longrightarrow> pos l i as = length as - length vs" using none u(1) by simp
qed

lemma sorted_ok_insert:
  assumes "sorted_ok z (as @ bs)" "\<forall>p\<in>set as. zn_key z p < zn_key z n" "\<forall>p\<in>set bs. zn_key z n < zn_key z p"
  shows "sorted_ok z (as @ n # bs)"
  using assms by (auto simp: sorted_ok_def sorted_wrt_append)

lemma last_opt_simps [simp]: "last_opt [] = None" "last_opt (x # xs) = Some (last (x # xs))" "last_opt (xs @ [x]) = Some x" "last_opt xs = None \<longleftrightarrow> xs = []"
  "last_opt (xs @ y # ys) = Some (last (y # ys))"
  by (simp_all add: last_opt_def)

lemma inserted_core:
  assumes core: "zsl_core z (as @ bs)" and n: "n \<notin> set (zsl_header z # as @ bs)" "n \<in> dom (zsl_heap z)"
    and k: "1 \<le> lev z n" "lev z n \<le> ZSKIPLIST_MAXLEVEL" "length (zn_level (node z n)) = lev z n"
    and key: "\<forall>p\<in>set as. zn_key z p < zn_key z n" "\<forall>p\<in>set bs. zn_key z n < zn_key z p"
    and ins: "inserted z n as bs z'"
  shows "zsl_core z' (as @ n # bs)"
proof -
  let ?h = "zsl_header z"
  note i = ins [unfolded inserted_def]
  have h: "zsl_header z' = ?h" and lv: "lev z' = lev z" and ky: "zn_key z' = zn_key z" using i by simp_all
  have b: "blocks_ok z (as @ bs)" "levels_ok z (as @ bs)" "backs_ok z (as @ bs)" "sorted_ok z (as @ bs)"
    using core by (simp_all add: zsl_core_def)
  have d: "distinct (?h # as)" using b(1) by (auto simp: blocks_ok_def)
  have 1: "blocks_ok z' (as @ n # bs)" using b(1) n k i by (auto simp: blocks_ok_def)
  have 2: "levels_ok z' (as @ n # bs)"
  proof -
    have "forward z' ?h j = None" if "max (zsl_level z) (lev z n) \<le> j" "j < ZSKIPLIST_MAXLEVEL" for j
      using i that b(2) by (simp add: levels_ok_def)
    moreover have "\<forall>p\<in>set (as @ n # bs). lev z p \<le> max (zsl_level z) (lev z n)" using b(2) by (auto simp: levels_ok_def le_max_iff_disj)
    moreover have "\<exists>p\<in>set (as @ n # bs). lev z p = max (zsl_level z) (lev z n)" if "1 < max (zsl_level z) (lev z n)"
      using b(2) that by (cases "zsl_level z \<le> lev z n") (auto simp: levels_ok_def max_def)
    ultimately show ?thesis using b(2) k i by (simp add: levels_ok_def le_max_iff_disj)
  qed
  have 3: "linked_at z' p ys" if e: "?h # as @ n # bs = xs @ p # ys" for xs p ys
  proof -
    have e': "(?h # as) @ n # bs = xs @ p # ys" using e by simp
    from e' show ?thesis
    proof (cases rule: split_mid)
      case (1 vs)
      have lk: "linked_at z p (vs @ bs)" using core 1 by (auto simp: zsl_core_def links_ok_def append_eq_Cons_conv Cons_eq_append_conv)
      have pn: "p \<noteq> n" using n 1(1) by (metis Un_iff in_set_conv_decomp list.set_intros(2) set_ConsD set_append list.set_intros(1))
      have vl: "i < zsl_level z" if "q \<in> set vs" "i < lev z q" for q i
        using b(2) that 1(1) by (cases xs) (force simp: levels_ok_def)+
      show ?thesis
        unfolding linked_at_def
      proof (intro allI impI)
        fix i assume ih: "i < height z' p"
        have hp: "p \<noteq> ?h \<Longrightarrow> i < lev z p" using ih h lv by (simp add: height_def)
        note u = upd_at [where l = "lev z" and i = i, OF d 1(1) hp]
        show "forward z' p i = next_at (lev z') i ys \<and> (0 < i \<longrightarrow> span z' p i = of_nat (dist (lev z') i ys))"
        proof (cases "\<exists>q\<in>set vs. i < lev z q")
          case True
          then have "i < zsl_level z" using vl by blast
          then have "i < height z p" using hp by (simp add: height_def)
          moreover have "p \<noteq> upd ?h (lev z) i as" using u(1) True by blast
          ultimately show ?thesis using lk i pn True lv 1(2) by (auto simp: linked_at_def next_at_append dist_append)
        next
          case False
          then have up: "p = upd ?h (lev z) i as" and po: "pos (lev z) i as = length as - length vs" using u by blast+
          have len: "length vs \<le> length as" using 1(1) by (auto dest!: arg_cong [where f = length])
          show ?thesis
          proof (cases "i < lev z n")
            case True
            then show ?thesis using i pn up po len False lv 1(2)
              by (auto simp: next_at_append dist_append next_at_Cons dist_Cons)
          next
            case nk: False
            then have iL: "i < zsl_level z" using ih hp h lv i b(2) 1(1)
              by (cases "p = ?h") (auto simp: height_def levels_ok_def Cons_eq_append_conv split: if_splits)
            then have "i < height z p" using hp by (simp add: height_def)
            then show ?thesis using lk nk iL i pn up False lv 1(2)
              by (auto simp: linked_at_def next_at_append dist_append next_at_Cons dist_Cons)
          qed
        qed
      qed
    next
      case 2
      then show ?thesis using i n lv by (auto simp: linked_at_def height_def)
    next
      case (3 us)
      have lk: "linked_at z p ys" using core 3(2) by (auto simp: zsl_core_def links_ok_def)
      have p: "p \<in> set bs" "p \<noteq> n" "p \<noteq> ?h" using 3(2) n b(1) by (auto simp: blocks_ok_def)
      have "p \<noteq> upd ?h (lev z) i as" for i using core_prefix(1) [OF core, of i] p b(1) by (auto simp: blocks_ok_def)
      then show ?thesis using lk p i lv h by (auto simp: linked_at_def height_def)
    qed
  qed
  have 4: "zn_backward (node z' p) = last_opt xs" if e: "as @ n # bs = xs @ p # ys" for xs p ys
    using e
  proof (cases rule: split_mid)
    case (1 vs)
    then have "zn_backward (node z p) = last_opt xs" using b(3) by (auto simp: backs_ok_def)
    moreover have "p \<notin> set bs" "p \<noteq> n" using 1(1) n b(1) by (auto simp: blocks_ok_def)
    moreover have "last_opt (rev bs) = Some q \<Longrightarrow> q \<in> set bs" for q
      by (cases bs) (auto simp: last_opt_def split: if_splits)
    ultimately show ?thesis using i by auto
  next
    case 2
    then show ?thesis using i by simp
  next
    case (3 us)
    have bk: "zn_backward (node z p) = last_opt (as @ us)" using b(3) 3(2) by (auto simp: backs_ok_def)
    have pn: "p \<noteq> n" using 3(2) n by auto
    show ?thesis
    proof (cases us)
      case Nil
      then show ?thesis using i pn 3 by simp
    next
      case (Cons q us')
      then have "last_opt (rev bs) = Some q" "q \<noteq> p" using 3(2) b(1) by (auto simp: blocks_ok_def)
      then show ?thesis using i pn 3 bk Cons by simp
    qed
  qed
  have 5: "zsl_tail z' = last_opt (as @ n # bs)" using i b(3) by (auto simp: backs_ok_def last_opt_def)
  have 6: "sorted_ok z' (as @ n # bs)" using sorted_ok_insert [OF b(4) key] ky by (simp add: sorted_ok_def)
  have 7: "zsl_length z' = of_nat (length (as @ n # bs))" using i core by (simp add: zsl_core_def)
  show ?thesis using 1 2 3 4 5 6 7 h by (simp add: zsl_core_def links_ok_def backs_ok_def)
qed

end
