(* ===== verification/Zsl_Delete.thy ===== *)
theory Zsl_Delete
  imports Zsl_Insert
begin

text \<open>
  Creation, insertion of a new element, unlinking, deletion and the update of a score keep the invariant of a skip
  list and have their effect on its list of nodes.
\<close>

section \<open>Blocks off the list\<close>

lemma zsl_core_cong:
  assumes core: "zsl_core z ns" and same: "zsl_header z' = zsl_header z" "zsl_tail z' = zsl_tail z"
      "zsl_length z' = zsl_length z" "zsl_level z' = zsl_level z"
    and heap: "\<And>p. p \<in> set (zsl_header z # ns) \<Longrightarrow> zsl_heap z' p = zsl_heap z p"
  shows "zsl_core z' ns"
proof -
  have nd: "node z' p = node z p" if "p \<in> set (zsl_header z # ns)" for p using heap [OF that] by (simp add: node_def)
  have lv: "lev z' p = lev z p" and ky: "zn_key z' p = zn_key z p" and fw: "forward z' p i = forward z p i"
    and sp: "span z' p i = span z p i" and ht: "height z' p = height z p" if "p \<in> set (zsl_header z # ns)" for p i
    using nd [OF that] same by (simp_all add: lev_def zn_key_def forward_def span_def height_def)
  have b: "blocks_ok z' ns"
    using core nd lv heap same by (auto simp: zsl_core_def blocks_ok_def)
  have l: "levels_ok z' ns" using core lv same fw by (auto simp: zsl_core_def levels_ok_def)
  have k: "links_ok z' ns"
    unfolding links_ok_def
  proof (intro allI impI)
    fix xs p ys assume e: "zsl_header z' # ns = xs @ p # ys"
    then have m: "set (p # ys) \<subseteq> set (zsl_header z # ns)" using same by (metis Un_upper2 set_append)
    then have "next_at (lev z') i ys = next_at (lev z) i ys" "dist (lev z') i ys = dist (lev z) i ys" for i
      using lv by (auto intro: next_at_cong dist_cong)
    moreover have "linked_at z p ys" using core e same by (auto simp: zsl_core_def links_ok_def)
    ultimately show "linked_at z' p ys" using m fw sp ht by (auto simp: linked_at_def)
  qed
  have "backs_ok z' ns" using core nd same by (auto simp: zsl_core_def backs_ok_def)
  moreover have "sorted_ok z' ns"
  proof -
    have "sorted_wrt (\<lambda>p q. zn_key z p < zn_key z q) ns" using core by (simp add: zsl_core_def sorted_ok_def)
    then show ?thesis unfolding sorted_ok_def by (rule sorted_wrt_mono_rel [rotated]) (use ky in auto)
  qed
  ultimately show ?thesis using b l k core same by (simp add: zsl_core_def)
qed

lemma zslCreate_inv: "zsl_inv (zslCreate h :: 's::{linorder,zero} zskiplist) []"
proof -
  have "forward (zslCreate h :: 's zskiplist) h i = None" "span (zslCreate h :: 's zskiplist) h i = 0"
    if "i < ZSKIPLIST_MAXLEVEL" for i
    using that by (simp_all add: forward_def span_def node_def zslCreate_def zslCreateHeaderNode_def null_level_def)
  moreover have "zsl_header (zslCreate h :: 's zskiplist) = h" "zsl_level (zslCreate h :: 's zskiplist) = 1"
    "zsl_tail (zslCreate h :: 's zskiplist) = None" "zsl_length (zslCreate h :: 's zskiplist) = 0"
    "dom (zsl_heap (zslCreate h :: 's zskiplist)) = {h}"
    "length (zn_level (node (zslCreate h :: 's zskiplist) h)) = ZSKIPLIST_MAXLEVEL"
    by (simp_all add: zslCreate_def zslCreateHeaderNode_def node_def)
  moreover have "(1::nat) \<le> ZSKIPLIST_MAXLEVEL" by (simp add: ZSKIPLIST_MAXLEVEL_def)
  ultimately show ?thesis
    by (auto simp: zsl_inv_def zsl_core_def blocks_ok_def levels_ok_def links_ok_def backs_ok_def sorted_ok_def
        linked_at_def height_def next_at_def Cons_eq_append_conv)
qed

section \<open>Insertion of a new element\<close>

lemma zslInsert_ok:
  assumes inv: "zsl_inv z (as @ bs)" and p: "p \<notin> dom (zsl_heap z)" and l: "1 \<le> level" "level \<le> ZSKIPLIST_MAXLEVEL"
    and key: "\<forall>q\<in>set as. zn_key z q < (score, ele)" "\<forall>q\<in>set bs. (score, ele) < zn_key z q"
  shows "\<exists>z'. zslInsert z p level score ele = Some z' \<and> zsl_inv z' (as @ p # bs) \<and> zsl_header z' = zsl_header z \<and>
    zn_key z' = (zn_key z)(p := (score, ele))"
proof -
  let ?z = "zslCreateNode z p level score ele"
  have pn: "p \<notin> set (zsl_header z # as @ bs)" using inv p by (simp add: zsl_inv_def)
  have f: "zsl_header ?z = zsl_header z" "zsl_tail ?z = zsl_tail z" "zsl_length ?z = zsl_length z"
    "zsl_level ?z = zsl_level z" "dom (zsl_heap ?z) = insert p (dom (zsl_heap z))"
    by (simp_all add: zslCreateNode_def)
  have h: "zsl_heap ?z q = zsl_heap z q" if "q \<in> set (zsl_header z # as @ bs)" for q
    using that pn by (auto simp: zslCreateNode_def)
  have core: "zsl_core ?z (as @ bs)"
    by (rule zsl_core_cong [OF _ f(1-4) h]) (use inv in \<open>simp_all add: zsl_inv_def\<close>)
  have ky: "zn_key ?z = (zn_key z)(p := (score, ele))" by (auto simp: zn_key_def node_def zslCreateNode_def fun_eq_iff)
  have lv: "lev ?z p = level" "length (zn_level (node ?z p)) = level"
    using pn by (simp_all add: lev_def node_def zslCreateNode_def)
  have kp: "\<forall>q\<in>set as. zn_key ?z q < zn_key ?z p" "\<forall>q\<in>set bs. zn_key ?z p < zn_key ?z q"
    using key pn by (auto simp: ky)
  then have "\<forall>q\<in>set bs. \<not> zn_key ?z q < zn_key ?z p" by (auto dest: less_asym)
  then obtain z' where z': "zslInsertNode ?z p = Some z'" "inserted ?z p as bs z'"
    using zslInsertNode_inserted [OF core _ _ _ _ _ kp(1)] pn l lv f by auto
  have "zsl_core z' (as @ p # bs)"
    by (rule inserted_core [OF core _ _ _ _ _ kp z'(2)]) (use pn l lv f in auto)
  moreover have "dom (zsl_heap z') = set (zsl_header z # as @ p # bs)" "zsl_header z' = zsl_header z"
    "zn_key z' = (zn_key z)(p := (score, ele))"
    using z'(2) inv f ky by (auto simp: inserted_def zsl_inv_def)
  ultimately show ?thesis using z'(1) by (simp add: zslInsert_def zsl_inv_def)
qed

section \<open>Unlinking\<close>

lemma unlink_level_effect:
  assumes u: "update ! i = u" and dom: "u \<in> dom (zsl_heap z)" and len: "i < length (zn_level (node z u))" and ne: "u \<noteq> x"
  shows "same_but_links z (unlink_level x update i z) \<and>
    (\<forall>p j. forward (unlink_level x update i z) p j =
       (if j = i \<and> p = u \<and> forward z u i = Some x then forward z x i else forward z p j)) \<and>
    (\<forall>p j. 0 < j \<longrightarrow> span (unlink_level x update i z) p j =
       (if j = i \<and> p = u then if forward z u i = Some x then span z u i + (span z x i - 1) else span z u i - 1
        else span z p j))"
proof (cases "forward z u i = Some x")
  case True
  let ?z1 = "zslIncrNodeSpanAtLevel z u i (zslGetNodeSpanAtLevel z x i - 1)"
  have u1: "unlink_level x update i z = set_forward ?z1 u i (forward ?z1 x i)"
    using True by (simp add: unlink_level_def u Let_def)
  have z1: "same_but_links z ?z1" "\<And>p j. forward ?z1 p j = forward z p j"
    "\<And>p j. 0 < j \<Longrightarrow> span ?z1 p j = (if j = i \<and> p = u then span z u i + (span z x i - 1) else span z p j)"
    using set_links_same(2) [OF dom] len
    by (auto simp: zslIncrNodeSpanAtLevel_def forward_set_span span_set_span zslGetNodeSpanAtLevel_def span_def [symmetric])
  have d: "u \<in> dom (zsl_heap ?z1)" "i < length (zn_level (node ?z1 u))" using z1(1) dom len by (simp_all add: same_but_links_def)
  show ?thesis
    unfolding u1 using same_but_links_trans [OF z1(1) set_links_same(1) [OF d(1)]] z1(2,3) d(2) True
    by (auto simp: forward_set_forward span_set_forward)
next
  case False
  then have u1: "unlink_level x update i z = zslDecrNodeSpanAtLevel z u i 1" by (simp add: unlink_level_def u)
  show ?thesis
    unfolding u1 using set_links_same(2) [OF dom] len False
    by (auto simp: zslDecrNodeSpanAtLevel_def forward_set_span span_set_span span_def [symmetric])
qed

lemma fold_unlink_levels:
  assumes "\<And>i. i < k \<Longrightarrow> update ! i \<noteq> x \<and> update ! i \<in> dom (zsl_heap z) \<and> i < length (zn_level (node z (update ! i)))"
  shows "same_but_links z (fold (unlink_level x update) [0..<k] z) \<and>
    (\<forall>p j. forward (fold (unlink_level x update) [0..<k] z) p j =
       (if j < k \<and> p = update ! j \<and> forward z p j = Some x then forward z x j else forward z p j)) \<and>
    (\<forall>p j. 0 < j \<longrightarrow> span (fold (unlink_level x update) [0..<k] z) p j =
       (if j < k \<and> p = update ! j then if forward z p j = Some x then span z p j + (span z x j - 1) else span z p j - 1
        else span z p j))"
  using assms
proof (induction k)
  case (Suc k)
  let ?z = "fold (unlink_level x update) [0..<k] z"
  have ih: "same_but_links z ?z"
    "\<And>p j. forward ?z p j = (if j < k \<and> p = update ! j \<and> forward z p j = Some x then forward z x j else forward z p j)"
    "\<And>p j. 0 < j \<Longrightarrow> span ?z p j =
       (if j < k \<and> p = update ! j then if forward z p j = Some x then span z p j + (span z x j - 1) else span z p j - 1
        else span z p j)"
    using Suc.IH Suc.prems by simp_all
  have e: "same_but_links ?z (unlink_level x update k ?z) \<and>
    (\<forall>p j. forward (unlink_level x update k ?z) p j =
       (if j = k \<and> p = update ! k \<and> forward ?z (update ! k) k = Some x then forward ?z x k else forward ?z p j)) \<and>
    (\<forall>p j. 0 < j \<longrightarrow> span (unlink_level x update k ?z) p j =
       (if j = k \<and> p = update ! k
        then if forward ?z (update ! k) k = Some x then span ?z (update ! k) k + (span ?z x k - 1) else span ?z (update ! k) k - 1
        else span ?z p j))"
    using Suc.prems [of k] ih(1) by (intro unlink_level_effect) (auto simp: same_but_links_def)
  have f: "fold (unlink_level x update) [0..<Suc k] z = unlink_level x update k ?z" by simp
  show ?case
    unfolding f using e same_but_links_trans [OF ih(1)] ih(2,3) by (auto simp: less_Suc_eq)
qed simp

lemma node_update_fields [simp]:
  "node (z\<lparr>zsl_level := l\<rparr>) = node z" "node (z\<lparr>zsl_length := n\<rparr>) = node z" "node (z\<lparr>zsl_tail := t\<rparr>) = node z"
  by (auto simp: node_def)

lemma links_update_fields [simp]:
  "forward (z\<lparr>zsl_level := l\<rparr>) = forward z" "forward (z\<lparr>zsl_length := n\<rparr>) = forward z" "forward (z\<lparr>zsl_tail := t\<rparr>) = forward z"
  "span (z\<lparr>zsl_level := l\<rparr>) = span z" "span (z\<lparr>zsl_length := n\<rparr>) = span z" "span (z\<lparr>zsl_tail := t\<rparr>) = span z"
  by (auto simp: forward_def span_def fun_eq_iff)

lemma links_set_backward [simp]:
  "forward (set_node z x (\<lambda>m. m\<lparr>zn_backward := b\<rparr>)) = forward z" "span (set_node z x (\<lambda>m. m\<lparr>zn_backward := b\<rparr>)) = span z"
  by (auto simp: forward_def span_def fun_eq_iff)

lemma set_span_level [simp]: "zsl_level (set_span z x i s) = zsl_level z"
  by (simp add: set_span_def)

text \<open>Empty levels are dropped from the top; only the spans of the header at those levels change.\<close>

lemma shrink_levels_effect:
  assumes "1 \<le> zsl_level z" "zsl_level z \<le> length (zn_level (node z (zsl_header z)))" "zsl_header z \<in> dom (zsl_heap z)"
  shows "same_but_links z ((shrink_levels z)\<lparr>zsl_level := zsl_level z\<rparr>) \<and>
    1 \<le> zsl_level (shrink_levels z) \<and> zsl_level (shrink_levels z) \<le> zsl_level z \<and>
    (zsl_level (shrink_levels z) = 1 \<or> forward z (zsl_header z) (zsl_level (shrink_levels z) - 1) \<noteq> None) \<and>
    (\<forall>i. zsl_level (shrink_levels z) \<le> i \<and> i < zsl_level z \<longrightarrow> forward z (zsl_header z) i = None) \<and>
    (\<forall>p i. forward (shrink_levels z) p i = forward z p i) \<and>
    (\<forall>p i. p \<noteq> zsl_header z \<or> i < zsl_level (shrink_levels z) \<longrightarrow> span (shrink_levels z) p i = span z p i)"
  using assms
proof (induction z rule: shrink_levels.induct)
  case (1 z)
  show ?case
  proof (cases "zsl_level z > 1 \<and> forward z (zsl_header z) (zsl_level z - 1) = None")
    case True
    let ?z = "set_span z (zsl_header z) (zsl_level z - 1) 0"
    let ?l = "zsl_level (shrink_levels z)"
    define y where "y = ?z\<lparr>zsl_level := zsl_level ?z - 1\<rparr>"
    have s: "shrink_levels z = shrink_levels y" using True by (subst shrink_levels.simps) (simp add: Let_def y_def)
    have sm: "same_but_links z ?z" by (rule set_links_same(2) [OF "1.prems"(3)])
    have len: "zsl_level z - 1 < length (zn_level (node z (zsl_header z)))" using "1.prems"(2) True by linarith
    have y: "zsl_header y = zsl_header z" "zsl_header y \<in> dom (zsl_heap y)"
      "zsl_level y \<le> length (zn_level (node y (zsl_header y)))" "1 \<le> zsl_level y" "zsl_level y = zsl_level z - 1"
      using sm "1.prems" True by (auto simp: same_but_links_def y_def)
    have yl: "forward y = forward z" "span y = span ?z" by (simp_all add: y_def forward_set_span fun_eq_iff)
    have ih: "same_but_links y ((shrink_levels z)\<lparr>zsl_level := zsl_level y\<rparr>)" "1 \<le> ?l" "?l \<le> zsl_level y"
      "?l = 1 \<or> forward z (zsl_header z) (?l - 1) \<noteq> None"
      "\<And>i. ?l \<le> i \<and> i < zsl_level y \<Longrightarrow> forward z (zsl_header z) i = None"
      "\<And>p i. forward (shrink_levels z) p i = forward z p i"
      "\<And>p i. p \<noteq> zsl_header z \<or> i < ?l \<Longrightarrow> span (shrink_levels z) p i = span ?z p i"
      using "1.IH" [OF True refl, folded y_def, OF y(4,3,2)] unfolding s y(1) yl by blast+
    have "same_but_links z ((shrink_levels z)\<lparr>zsl_level := zsl_level z\<rparr>)"
      using ih(1) sm by (simp add: same_but_links_def y_def)
    moreover have "forward z (zsl_header z) i = None" if "?l \<le> i" "i < zsl_level z" for i
      using ih(5) that True y(5) by (cases "i = zsl_level z - 1") auto
    moreover have "span ?z p i = span z p i" if "p \<noteq> zsl_header z \<or> i < ?l" for p i
      using that ih(3) y(4,5) len by (auto simp: span_set_span)
    ultimately show ?thesis using ih y(5) by auto
  next
    case False
    then have "shrink_levels z = z" by (subst shrink_levels.simps) auto
    then show ?thesis using "1.prems"(1) False by auto
  qed
qed

text \<open>What unlinking changes: the pointers to the node, the spans across it, and the backward pointer behind it.\<close>

definition unlinked :: "'s zskiplist \<Rightarrow> addr \<Rightarrow> addr list \<Rightarrow> addr list \<Rightarrow> 's zskiplist \<Rightarrow> bool" where
  "unlinked z n as bs z' \<longleftrightarrow>
     zsl_header z' = zsl_header z \<and> zsl_length z' = zsl_length z - 1 \<and>
     dom (zsl_heap z') = dom (zsl_heap z) \<and> zn_key z' = zn_key z \<and> lev z' = lev z \<and>
     (\<forall>p. length (zn_level (node z' p)) = length (zn_level (node z p))) \<and>
     1 \<le> zsl_level z' \<and> zsl_level z' \<le> zsl_level z \<and>
     (zsl_level z' = 1 \<or> forward z' (zsl_header z) (zsl_level z' - 1) \<noteq> None) \<and>
     (\<forall>i. zsl_level z' \<le> i \<and> i < zsl_level z \<longrightarrow> forward z' (zsl_header z) i = None) \<and>
     (\<forall>p i. forward z' p i =
        (if i < zsl_level z \<and> i < lev z n \<and> p = upd (zsl_header z) (lev z) i as then next_at (lev z) i bs
         else forward z p i)) \<and>
     (\<forall>p i. 0 < i \<and> (p \<noteq> zsl_header z \<or> i < zsl_level z') \<longrightarrow> span z' p i =
        (if i < zsl_level z \<and> p = upd (zsl_header z) (lev z) i as then
           if i < lev z n then span z p i + (span z n i - 1) else span z p i - 1
         else span z p i)) \<and>
     (\<forall>p. zn_backward (node z' p) = (if last_opt (rev bs) = Some p then last_opt as else zn_backward (node z p))) \<and>
     zsl_tail z' = (if bs = [] then last_opt as else zsl_tail z)"

lemma core_upd_forward:
  assumes core: "zsl_core z (as @ n # bs)" and i: "i < zsl_level z"
  shows "forward z (upd (zsl_header z) (lev z) i as) i = (if i < lev z n then Some n else next_at (lev z) i bs)"
proof -
  obtain xs ys where sp: "as = xs @ ys" "xs = [] \<or> i < lev z (last xs)" "\<forall>p\<in>set ys. \<not> i < lev z p"
    "upd (zsl_header z) (lev z) i as = last (zsl_header z # xs)" "pos (lev z) i as = length xs"
    using upd_split [of as i "lev z" "zsl_header z"] by blast
  have e: "as @ n # bs = xs @ (ys @ n # bs)" using sp by simp
  have "linked_at z (upd (zsl_header z) (lev z) i as) (ys @ n # bs)" using zsl_core_linked [OF core e] sp(4) by simp
  moreover have "i < height z (upd (zsl_header z) (lev z) i as)" using height_last [OF core e i sp(2)] sp(4) by simp
  ultimately show ?thesis using sp(3) by (auto simp: linked_at_def next_at_append next_at_Cons)
qed

lemma core_node:
  assumes "zsl_core z (as @ n # bs)"
  shows "n \<noteq> zsl_header z" "n \<notin> set as" "n \<notin> set bs" "zsl_header z \<notin> set as" "zsl_header z \<notin> set bs"
    "n \<in> dom (zsl_heap z)" "1 \<le> lev z n" "lev z n \<le> ZSKIPLIST_MAXLEVEL" "lev z n \<le> zsl_level z"
    "length (zn_level (node z n)) = lev z n" "zn_backward (node z n) = last_opt as" "linked_at z n bs"
    "distinct (zsl_header z # as)" "set as \<inter> set bs = {}"
    "zsl_header z \<in> dom (zsl_heap z)" "length (zn_level (node z (zsl_header z))) = ZSKIPLIST_MAXLEVEL"
    "1 \<le> zsl_level z" "zsl_level z \<le> ZSKIPLIST_MAXLEVEL"
proof -
  show "zn_backward (node z n) = last_opt as" using assms by (simp add: zsl_core_def backs_ok_def)
  have "zsl_header z # as @ n # bs = (zsl_header z # as) @ n # bs" by simp
  then show "linked_at z n bs" using assms unfolding zsl_core_def links_ok_def by blast
qed (use assms in \<open>auto simp: zsl_core_def blocks_ok_def levels_ok_def\<close>)

lemma next_zero:
  assumes "zsl_core z ns" "set bs \<subseteq> set ns"
  shows "next_at (lev z) 0 bs = last_opt (rev bs)"
proof (cases bs)
  case (Cons b bs')
  then have "b \<in> set ns" using assms(2) by simp
  then have "0 < lev z b" using assms(1) by (force simp: zsl_core_def blocks_ok_def)
  then show ?thesis using Cons by (simp add: next_at_def last_opt_def)
qed (simp add: next_at_def)

lemma zslUnlinkNode_unlinked:
  assumes core: "zsl_core z (as @ n # bs)"
    and u: "\<And>i. i < zsl_level z \<Longrightarrow> update ! i = upd (zsl_header z) (lev z) i as"
  shows "unlinked z n as bs (zslUnlinkNode z n update)"
proof -
  let ?h = "zsl_header z" and ?L = "zsl_level z"
  note cn = core_node [OF core]
  have um: "upd ?h (lev z) i as \<in> set (?h # as)" for i using core_prefix(1) [OF core] .
  have un: "upd ?h (lev z) i as \<noteq> n" for i using um [of i] cn(1,2) by auto
  have ud: "upd ?h (lev z) i as \<in> dom (zsl_heap z)" for i using um [of i] core by (auto simp: zsl_core_def blocks_ok_def)
  have ul: "i < length (zn_level (node z (upd ?h (lev z) i as)))" if "i < ?L" for i
    using core_prefix(2) [OF core] that cn(18) by simp
  define z1 where "z1 = fold (unlink_level n update) [0..<?L] z"
  have z1': "same_but_links z z1 \<and>
    (\<forall>p j. forward z1 p j = (if j < ?L \<and> p = update ! j \<and> forward z p j = Some n then forward z n j else forward z p j)) \<and>
    (\<forall>p j. 0 < j \<longrightarrow> span z1 p j =
       (if j < ?L \<and> p = update ! j then if forward z p j = Some n then span z p j + (span z n j - 1) else span z p j - 1
        else span z p j))"
    unfolding z1_def by (rule fold_unlink_levels) (use u un ud ul in simp)
  have fu: "forward z (upd ?h (lev z) i as) i = Some n \<longleftrightarrow> i < lev z n" if "i < ?L" for i
  proof -
    have "next_at (lev z) i bs = Some n \<Longrightarrow> n \<in> set bs" by (auto simp: next_at_def find_Some_iff)
    then show ?thesis using core_upd_forward [OF core that] cn(3) by auto
  qed
  have fn: "forward z n i = next_at (lev z) i bs" if "i < lev z n" for i
    using cn(1,12) that by (simp add: linked_at_def height_def)
  have z1: "same_but_links z z1"
    "\<And>p i. forward z1 p i = (if i < ?L \<and> i < lev z n \<and> p = upd ?h (lev z) i as then next_at (lev z) i bs else forward z p i)"
    "\<And>p i. 0 < i \<Longrightarrow> span z1 p i = (if i < ?L \<and> p = upd ?h (lev z) i as then
           if i < lev z n then span z p i + (span z n i - 1) else span z p i - 1 else span z p i)"
    using z1' u fu fn by auto
  have f1n: "forward z1 n 0 = last_opt (rev bs)"
    using z1(2) [of n 0] un [of 0] fn [of 0] cn(7) next_zero [OF core, of bs] by auto
  define z2 where "z2 = (case forward z1 n 0 of
      Some y \<Rightarrow> set_node z1 y (\<lambda>m. m\<lparr>zn_backward := zn_backward (node z1 n)\<rparr>) | None \<Rightarrow> z1\<lparr>zsl_tail := zn_backward (node z1 n)\<rparr>)"
  have bk: "zn_backward (node z1 n) = last_opt as" using z1(1) cn(11) by (simp add: same_but_links_def)
  have lb: "p \<in> dom (zsl_heap z)" if "last_opt (rev bs) = Some p" for p
  proof -
    have "p \<in> set bs" using that by (cases bs) (auto simp: last_opt_def)
    then show ?thesis using core by (auto simp: zsl_core_def blocks_ok_def)
  qed
  have z2: "forward z2 = forward z1" "span z2 = span z1" "zsl_header z2 = ?h" "zsl_length z2 = zsl_length z" "zsl_level z2 = ?L"
    "dom (zsl_heap z2) = dom (zsl_heap z)" "zsl_tail z2 = (if bs = [] then last_opt as else zsl_tail z)"
    using f1n bk z1(1) lb by (auto simp: z2_def same_but_links_def insert_absorb split: option.splits)
  have n2: "node z2 p = (if last_opt (rev bs) = Some p then (node z1 p)\<lparr>zn_backward := last_opt as\<rparr> else node z1 p)" for p
    using f1n bk by (auto simp: z2_def split: option.splits)
  have "zsl_header z2 \<in> dom (zsl_heap z2)" "zsl_level z2 \<le> length (zn_level (node z2 (zsl_header z2)))" "1 \<le> zsl_level z2"
    using z1(1) z2 n2 cn by (auto simp: same_but_links_def)
  note sh = shrink_levels_effect [OF this(3,2,1), unfolded z2(1-3,5)]
  let ?z' = "zslUnlinkNode z n update"
  have zd: "?z' = (shrink_levels z2)\<lparr>zsl_length := zsl_length (shrink_levels z2) - 1\<rparr>"
    unfolding zslUnlinkNode_def Let_def z1_def [symmetric] z2_def by (rule refl)
  have fs: "forward ?z' = forward (shrink_levels z2)" "span ?z' = span (shrink_levels z2)" "node ?z' = node (shrink_levels z2)"
    "zsl_level ?z' = zsl_level (shrink_levels z2)"
    unfolding zd by simp_all
  have ss: "zn_score (node ?z' p) = zn_score (node z p)" "zn_ele (node ?z' p) = zn_ele (node z p)"
    "zn_levels (node ?z' p) = zn_levels (node z p)" "length (zn_level (node ?z' p)) = length (zn_level (node z p))"
    "zn_backward (node ?z' p) = (if last_opt (rev bs) = Some p then last_opt as else zn_backward (node z p))" for p
    using sh z1(1) n2 [of p] unfolding fs by (auto simp: same_but_links_def)
  have st: "zsl_header ?z' = ?h" "zsl_length ?z' = zsl_length z - 1" "dom (zsl_heap ?z') = dom (zsl_heap z)"
    "zsl_tail ?z' = (if bs = [] then last_opt as else zsl_tail z)"
    using sh z2 unfolding zd by (simp_all add: same_but_links_def)
  show ?thesis
    unfolding unlinked_def
  proof (intro conjI allI impI)
    show "zsl_header ?z' = ?h" "zsl_length ?z' = zsl_length z - 1" "dom (zsl_heap ?z') = dom (zsl_heap z)"
      "zsl_tail ?z' = (if bs = [] then last_opt as else zsl_tail z)" by (fact st)+
    show "zn_key ?z' = zn_key z" "lev ?z' = lev z" using ss st(1) by (auto simp: zn_key_def lev_def fun_eq_iff)
    show "length (zn_level (node ?z' p)) = length (zn_level (node z p))" for p by (fact ss)
    show "zn_backward (node ?z' p) = (if last_opt (rev bs) = Some p then last_opt as else zn_backward (node z p))" for p
      by (fact ss)
    show "1 \<le> zsl_level ?z'" "zsl_level ?z' \<le> ?L" using sh unfolding fs by blast+
    show "zsl_level ?z' = 1 \<or> forward ?z' ?h (zsl_level ?z' - 1) \<noteq> None" using sh unfolding fs by simp
    show "forward ?z' ?h i = None" if "zsl_level ?z' \<le> i \<and> i < ?L" for i using sh that unfolding fs by simp
    show "forward ?z' p i = (if i < ?L \<and> i < lev z n \<and> p = upd ?h (lev z) i as then next_at (lev z) i bs else forward z p i)" for p i
      using sh z1(2) unfolding fs by simp
    show "span ?z' p i = (if i < ?L \<and> p = upd ?h (lev z) i as then
           if i < lev z n then span z p i + (span z n i - 1) else span z p i - 1 else span z p i)"
      if "0 < i \<and> (p \<noteq> ?h \<or> i < zsl_level ?z')" for p i
      using sh z1(3) that unfolding fs by simp
  qed
qed

lemma unlinked_core:
  assumes core: "zsl_core z (as @ n # bs)" and un: "unlinked z n as bs z'"
  shows "zsl_core z' (as @ bs)"
proof -
  let ?h = "zsl_header z" and ?L = "zsl_level z"
  note i = un [unfolded unlinked_def] and cn = core_node [OF core]
  have fw: "forward z' p i = (if i < ?L \<and> i < lev z n \<and> p = upd ?h (lev z) i as then next_at (lev z) i bs else forward z p i)"
    and bk: "zn_backward (node z' p) = (if last_opt (rev bs) = Some p then last_opt as else zn_backward (node z p))"
    and tl: "zsl_tail z' = (if bs = [] then last_opt as else zsl_tail z)"
    and lL: "1 \<le> zsl_level z'" "zsl_level z' \<le> ?L" for p i using i by blast+
  have sw: "span z' p i = (if i < ?L \<and> p = upd ?h (lev z) i as then
           if i < lev z n then span z p i + (span z n i - 1) else span z p i - 1
         else span z p i)" if "0 < i" "p \<noteq> ?h \<or> i < zsl_level z'" for p i using i that by blast
  have h: "zsl_header z' = ?h" and lv: "lev z' = lev z" and ky: "zn_key z' = zn_key z" using i by simp_all
  have b: "blocks_ok z (as @ n # bs)" "levels_ok z (as @ n # bs)" "backs_ok z (as @ n # bs)" "sorted_ok z (as @ n # bs)"
    using core by (simp_all add: zsl_core_def)
  have 1: "blocks_ok z' (as @ bs)" using b(1) i by (auto simp: blocks_ok_def)
  have 3: "linked_at z' p ys" if e: "?h # as @ bs = xs @ p # ys" for xs p ys
  proof -
    have e': "(?h # as) @ bs = xs @ p # ys" using e by simp
    from e' show ?thesis
    proof (cases rule: split_two)
      case (1 vs)
      have lk: "linked_at z p (vs @ n # bs)"
        using core 1(1) by (auto simp: zsl_core_def links_ok_def append_eq_Cons_conv Cons_eq_append_conv)
      have pm: "p \<in> set (?h # as)" using 1(1) by (metis in_set_conv_decomp)
      show ?thesis
        unfolding linked_at_def
      proof (intro allI impI)
        fix i assume ih: "i < height z' p"
        have hp: "p \<noteq> ?h \<Longrightarrow> i < lev z p" using ih h lv by (simp add: height_def)
        have "p \<noteq> ?h \<Longrightarrow> lev z p \<le> ?L" using pm b(2) by (simp add: levels_ok_def)
        then have iL: "i < ?L" using ih h hp lL(2) by (cases "p = ?h") (simp_all add: height_def)
        have hz: "i < height z p" using hp iL by (simp add: height_def)
        have hs: "p \<noteq> ?h \<or> i < zsl_level z'" using ih h by (auto simp: height_def)
        note u = upd_at [where l = "lev z" and i = i, OF cn(13) 1(1) hp]
        have sp: "forward z p i = next_at (lev z) i (vs @ n # bs)"
          "0 < i \<Longrightarrow> span z p i = of_nat (dist (lev z) i (vs @ n # bs))"
          using lk hz by (auto simp: linked_at_def)
        have sn: "span z n i = of_nat (dist (lev z) i bs)" if "i < lev z n" "0 < i"
          using cn(1,12) that by (simp add: linked_at_def height_def)
        show "forward z' p i = next_at (lev z') i ys \<and> (0 < i \<longrightarrow> span z' p i = of_nat (dist (lev z') i ys))"
        proof (cases "\<exists>q\<in>set vs. i < lev z q")
          case True
          then have "p \<noteq> upd ?h (lev z) i as" using u(1) by blast
          then show ?thesis using sp fw [of p i] sw [of i p] hs True lv 1(2) by (auto simp: next_at_append dist_append)
        next
          case False
          then have up: "p = upd ?h (lev z) i as" using u by blast
          show ?thesis
          proof (cases "i < lev z n")
            case True
            then show ?thesis using fw [of p i] sw [of i p] sp sn hs iL up False lv 1(2) by (auto simp: next_at_append dist_append dist_Cons)
          next
            case nk: False
            then show ?thesis using fw [of p i] sw [of i p] sp hs iL up False lv 1(2)
              by (auto simp: next_at_append dist_append next_at_Cons dist_Cons)
          qed
        qed
      qed
    next
      case (2 us)
      have lk: "linked_at z p ys"
      proof -
        have "zsl_header z # as @ n # bs = (zsl_header z # as @ n # us) @ p # ys" using 2(2) by simp
        then show ?thesis using core unfolding zsl_core_def links_ok_def by blast
      qed
      have p: "p \<in> set bs" "p \<noteq> n" "p \<noteq> ?h" using 2(2) cn by auto
      have "p \<noteq> upd ?h (lev z) i as" for i using core_prefix(1) [OF core, of i] p cn(14) by auto
      then show ?thesis using lk p fw sw lv h by (auto simp: linked_at_def height_def)
    qed
  qed
  have 2: "levels_ok z' (as @ bs)"
  proof -
    have lk: "linked_at z' ?h (as @ bs)" using 3 [of "[]" ?h "as @ bs"] by simp
    have hh: "height z' ?h = zsl_level z'" using h by (simp add: height_def)
    have nx: "next_at (lev z) j (as @ bs) = None" if "zsl_level z' \<le> j" "j < ?L" for j
    proof -
      have f: "forward z' ?h j = None" using i that by blast
      show ?thesis
      proof (cases "\<exists>q\<in>set as. j < lev z q")
        case True
        have "forward z ?h j = next_at (lev z) j (as @ n # bs)"
          using zsl_core_linked [OF core, of "[]"] that(2) by (simp add: linked_at_def height_def)
        moreover have "?h \<noteq> upd ?h (lev z) j as"
          using True upd_at(1) [where l = "lev z" and i = j, OF cn(13), of "[]" ?h as] by auto
        ultimately have "next_at (lev z) j as = None" using f fw True by (simp add: next_at_append)
        then show ?thesis using True by (auto simp: next_at_None)
      next
        case False
        then have "?h = upd ?h (lev z) j as"
          using upd_at(1) [where l = "lev z" and i = j, OF cn(13), of "[]" ?h as] by auto
        then have "forward z' ?h j = next_at (lev z) j bs"
          using fw [of ?h j] that(2) core_upd_forward [OF core that(2)] by auto
        then show ?thesis using f False by (simp add: next_at_append)
      qed
    qed
    have top: "lev z p \<le> zsl_level z'" if "p \<in> set (as @ bs)" for p
    proof (rule ccontr)
      assume "\<not> lev z p \<le> zsl_level z'"
      moreover have "lev z p \<le> ?L" using that b(2) by (auto simp: levels_ok_def)
      ultimately show False using nx [of "zsl_level z'"] that by (simp add: next_at_None not_le)
    qed
    have ex: "\<exists>p\<in>set (as @ bs). lev z p = zsl_level z'" if "1 < zsl_level z'"
    proof -
      have "zsl_level z' - 1 < height z' ?h" using that hh by simp
      then have "forward z' ?h (zsl_level z' - 1) = next_at (lev z') (zsl_level z' - 1) (as @ bs)"
        using lk by (simp only: linked_at_def)
      moreover have "zsl_level z' = 1 \<or> forward z' ?h (zsl_level z' - 1) \<noteq> None" using i by blast
      ultimately have "next_at (lev z) (zsl_level z' - 1) (as @ bs) \<noteq> None" using that lv by simp
      then obtain p where p: "p \<in> set (as @ bs)" "zsl_level z' - 1 < lev z p" unfolding next_at_None by blast
      then show ?thesis using top [OF p(1)] by (intro bexI [of _ p]) simp_all
    qed
    have "forward z' ?h j = None" if j: "zsl_level z' \<le> j" "j < ZSKIPLIST_MAXLEVEL" for j
    proof (cases "j < ?L")
      case True
      then show ?thesis using i j by blast
    next
      case False
      then show ?thesis using fw [of ?h j] b(2) j by (simp add: levels_ok_def)
    qed
    then show ?thesis using top ex lL cn(18) h lv by (simp add: levels_ok_def)
  qed
  have 4: "zn_backward (node z' p) = last_opt xs" if e: "as @ bs = xs @ p # ys" for xs p ys
    using e
  proof (cases rule: split_two)
    case (1 vs)
    then have "zn_backward (node z p) = last_opt xs" using b(3) by (auto simp: backs_ok_def)
    moreover have "p \<notin> set bs" using 1(1) cn(14) by auto
    moreover have "last_opt (rev bs) = Some q \<Longrightarrow> q \<in> set bs" for q
      by (cases bs) (auto simp: last_opt_def split: if_splits)
    ultimately show ?thesis using bk by auto
  next
    case (2 us)
    have "as @ n # bs = (as @ n # us) @ p # ys" using 2(2) by simp
    then have zb: "zn_backward (node z p) = last_opt (as @ n # us)" using b(3) unfolding backs_ok_def by blast
    show ?thesis
    proof (cases us)
      case Nil
      then show ?thesis using bk 2 by simp
    next
      case (Cons q us')
      then have "last_opt (rev bs) = Some q" "q \<noteq> p" using 2(2) b(1) by (auto simp: blocks_ok_def)
      then show ?thesis using bk 2 zb Cons by simp
    qed
  qed
  have 5: "zsl_tail z' = last_opt (as @ bs)" using tl b(3) by (auto simp: backs_ok_def last_opt_def)
  have 6: "sorted_ok z' (as @ bs)" using b(4) ky by (auto simp: sorted_ok_def sorted_wrt_append)
  have 7: "zsl_length z' = of_nat (length (as @ bs))" using i core by (simp add: zsl_core_def)
  show ?thesis using 1 2 3 4 5 6 7 h by (simp add: zsl_core_def links_ok_def backs_ok_def)
qed

end
