(* ===== verification/Zsl_Update.thy ===== *)
theory Zsl_Update
  imports Zsl_Delete
begin

text \<open>
  Deletion of a node, the update of a score, in place or by relinking, and freeing the whole list.
\<close>

section \<open>Places in the order\<close>

lemma core_sorted:
  assumes "zsl_core z (as @ n # bs)"
  shows "\<forall>p\<in>set as. zn_key z p < zn_key z n" "\<forall>p\<in>set bs. zn_key z n < zn_key z p"
    "\<forall>p\<in>set as. \<forall>q\<in>set bs. zn_key z p < zn_key z q"
  using assms by (simp_all add: zsl_core_def sorted_ok_def sorted_wrt_append)

lemma split_at_key:
  assumes "sorted_ok z ns" "k \<notin> zn_key z ` set ns"
  obtains as bs where "ns = as @ bs" "\<forall>p\<in>set as. zn_key z p < k" "\<forall>p\<in>set bs. k < zn_key z p"
  using assms
proof (induction ns arbitrary: thesis)
  case (Cons p ns)
  show ?case
  proof (cases "zn_key z p < k")
    case True
    obtain as bs where "ns = as @ bs" "\<forall>p\<in>set as. zn_key z p < k" "\<forall>p\<in>set bs. k < zn_key z p"
      by (rule Cons.IH) (use Cons.prems in \<open>auto simp: sorted_ok_def\<close>)
    then show ?thesis using Cons.prems(1) [of "p # as" bs] True by simp
  next
    case False
    then have p: "k < zn_key z p" using Cons.prems(3) by (auto simp: not_less order_le_less)
    moreover have "\<forall>q\<in>set ns. zn_key z p < zn_key z q" using Cons.prems(2) by (simp add: sorted_ok_def)
    ultimately have "\<forall>q\<in>set (p # ns). k < zn_key z q" by (auto intro: less_trans)
    then show ?thesis using Cons.prems(1) [of "[]" "p # ns"] by simp
  qed
qed simp

lemma find_update_ok:
  assumes core: "zsl_core z (as @ n # bs)"
  shows "find_update z n = Some (map (\<lambda>i. upd (zsl_header z) (lev z) i as) [0..<zsl_level z])"
proof -
  let ?go = "\<lambda>y r. zslCompareWithNode z (zn_score (node z n)) (zslGetNodeElement z n) (Some y) > 0"
  have "\<forall>p\<in>set (n # bs). \<not> zn_key z p < zn_key z n" using core_sorted(2) [OF core] by (auto dest: less_asym)
  then have "cuts 0 ?go as (n # bs)"
    by (intro cutsI) (use core_sorted(1) [OF core] in \<open>auto simp: zslCompareWithNode_key zslGetNodeElement_def zn_key_def [of z n]\<close>)
  from search_from_header [OF core this] have s: "search z ?go (zsl_level z) (zsl_header z) 0 =
    Some (map (\<lambda>i. (upd (zsl_header z) (lev z) i as, of_nat (pos (lev z) i as))) [0..<zsl_level z])" .
  have L: "0 < zsl_level z" using core_node(17) [OF core] by simp
  have "forward z (upd (zsl_header z) (lev z) 0 as) 0 = Some n"
    using core_upd_forward [OF core L] core_node(7) [OF core] by simp
  then show ?thesis unfolding find_update_def Let_def s using L by (simp add: comp_def)
qed

lemma zslUnlinkNode_found:
  assumes core: "zsl_core z (as @ n # bs)" and u: "find_update z n = Some update"
  shows "unlinked z n as bs (zslUnlinkNode z n update)"
  by (rule zslUnlinkNode_unlinked [OF core]) (use u find_update_ok [OF core] in auto)

section \<open>Deletion of a node\<close>

lemma zslFreeNode_core:
  assumes "zsl_core z ns" "n \<notin> set (zsl_header z # ns)"
  shows "zsl_core (zslFreeNode z n) ns"
  by (rule zsl_core_cong [OF assms(1)]) (use assms(2) in \<open>auto simp: zslFreeNode_def\<close>)

lemma unlink_free_ok:
  assumes inv: "zsl_inv z (as @ n # bs)" and un: "unlinked z n as bs z'"
  shows "zsl_inv (zslFreeNode z' n) (as @ bs)" "zsl_header (zslFreeNode z' n) = zsl_header z"
    "\<And>p. p \<noteq> n \<Longrightarrow> zn_key (zslFreeNode z' n) p = zn_key z p"
proof -
  have core: "zsl_core z (as @ n # bs)" using inv by (simp add: zsl_inv_def)
  note cn = core_node [OF core]
  have u: "zsl_header z' = zsl_header z" "dom (zsl_heap z') = dom (zsl_heap z)" "zn_key z' = zn_key z"
    using un by (simp_all add: unlinked_def)
  have "zsl_core (zslFreeNode z' n) (as @ bs)"
    by (rule zslFreeNode_core [OF unlinked_core [OF core un]]) (use cn u in auto)
  moreover have "dom (zsl_heap (zslFreeNode z' n)) = set (zsl_header z' # as @ bs)"
    using inv u cn by (auto simp: zslFreeNode_def zsl_inv_def)
  ultimately show "zsl_inv (zslFreeNode z' n) (as @ bs)" by (simp add: zsl_inv_def zslFreeNode_def)
  show "zsl_header (zslFreeNode z' n) = zsl_header z" using u by (simp add: zslFreeNode_def)
  show "\<And>p. p \<noteq> n \<Longrightarrow> zn_key (zslFreeNode z' n) p = zn_key z p"
    using fun_cong [OF u(3)] by (simp add: zn_key_def zslFreeNode_def node_def)
qed

lemma zslDelete_ok:
  assumes inv: "zsl_inv z (as @ n # bs)"
  shows "\<exists>z'. zslDelete z n = Some z' \<and> zsl_inv z' (as @ bs) \<and> zsl_header z' = zsl_header z \<and>
    (\<forall>p. p \<noteq> n \<longrightarrow> zn_key z' p = zn_key z p)"
proof -
  have core: "zsl_core z (as @ n # bs)" using inv by (simp add: zsl_inv_def)
  obtain update where u: "find_update z n = Some update" using find_update_ok [OF core] by blast
  note un = zslUnlinkNode_found [OF core u]
  show ?thesis using unlink_free_ok [OF inv un] u by (simp add: zslDelete_def)
qed

section \<open>Update of a score\<close>

text \<open>The score of a node of the list changes in place.\<close>

lemma set_score_core:
  assumes core: "zsl_core z ns" and so: "sorted_ok (set_node z n (\<lambda>m. m\<lparr>zn_score := s\<rparr>)) ns" and n: "n \<in> set ns"
  shows "zsl_core (set_node z n (\<lambda>m. m\<lparr>zn_score := s\<rparr>)) ns"
proof -
  let ?z = "set_node z n (\<lambda>m. m\<lparr>zn_score := s\<rparr>)"
  have f: "forward ?z = forward z" "span ?z = span z" "lev ?z = lev z" "height ?z = height z"
    by (auto simp: forward_def span_def lev_def height_def fun_eq_iff)
  have "n \<in> dom (zsl_heap z)" using core n by (auto simp: zsl_core_def blocks_ok_def)
  then have "dom (zsl_heap ?z) = dom (zsl_heap z)" by auto
  moreover have "linked_at ?z = linked_at z" by (simp add: linked_at_def f fun_eq_iff)
  moreover have "length (zn_level (node ?z p)) = length (zn_level (node z p))" "zn_backward (node ?z p) = zn_backward (node z p)" for p
    by simp_all
  ultimately show ?thesis using core so f
    unfolding zsl_core_def blocks_ok_def levels_ok_def links_ok_def backs_ok_def by simp
qed

lemma set_score_key:
  "zn_key (set_node z n (\<lambda>m. m\<lparr>zn_score := s\<rparr>)) = (zn_key z)(n := (s, zn_ele (node z n)))"
  by (auto simp: zn_key_def fun_eq_iff)

lemma sorted_last:
  assumes "sorted_ok z as" "as \<noteq> []" "zn_score (node z (last as)) < s"
  shows "\<forall>p\<in>set as. zn_key z p < (s, e)"
proof
  fix p assume p: "p \<in> set as"
  show "zn_key z p < (s, e)"
  proof (cases "p = last as")
    case False
    then have "p \<in> set (butlast as)" using p assms(2) by (metis append_butlast_last_id in_set_conv_decomp rotate1.simps(2) set_ConsD set_rotate1)
    moreover have "sorted_ok z (butlast as @ [last as])" using assms(1,2) by simp
    ultimately have "zn_key z p < zn_key z (last as)" by (simp add: sorted_ok_def sorted_wrt_append)
    then show ?thesis using assms(3) by (auto simp: zn_key_def intro: less_trans)
  qed (use assms(3) in \<open>simp add: zn_key_def\<close>)
qed

lemma zslUpdateScore_ok:
  assumes inv: "zsl_inv z (as @ n # bs)" and new: "(s, zn_ele (node z n)) \<notin> zn_key z ` set (as @ bs)"
  shows "\<exists>z' as' bs'. zslUpdateScore z n s = Some z' \<and> as' @ bs' = as @ bs \<and> zsl_inv z' (as' @ n # bs') \<and>
    zsl_header z' = zsl_header z \<and> zn_key z' = (zn_key z)(n := (s, zn_ele (node z n)))"
proof -
  let ?f = "\<lambda>m. m\<lparr>zn_score := s\<rparr>" and ?k = "(s, zn_ele (node z n))"
  have core: "zsl_core z (as @ n # bs)" and dm: "dom (zsl_heap z) = set (zsl_header z # as @ n # bs)"
    using inv by (simp_all add: zsl_inv_def)
  note cn = core_node [OF core]
  have so: "sorted_ok z (as @ n # bs)" using core by (simp add: zsl_core_def)
  have f0: "forward z n 0 = last_opt (rev bs)"
    using cn(1,7,12) next_zero [OF core, of bs] by (auto simp: linked_at_def height_def)
  show ?thesis
  proof (cases "(case zn_backward (node z n) of None \<Rightarrow> True | Some b \<Rightarrow> zn_score (node z b) < s) \<and>
         (case forward z n 0 of None \<Rightarrow> True | Some f \<Rightarrow> zn_score (node z f) > s)")
    case True
    have a: "\<forall>p\<in>set as. zn_key z p < ?k"
    proof (cases "as = []")
      case False
      then have "zn_score (node z (last as)) < s" using True cn(11) by (simp add: last_opt_def)
      moreover have "sorted_ok z as" using so by (simp add: sorted_ok_def sorted_wrt_append)
      ultimately show ?thesis using False by (intro sorted_last)
    qed simp
    have b: "\<forall>p\<in>set bs. ?k < zn_key z p"
    proof (cases bs)
      case (Cons q bs')
      then have q: "?k < zn_key z q" using True f0 by (simp add: zn_key_def)
      moreover have "\<forall>p\<in>set bs'. zn_key z q < zn_key z p" using so Cons by (simp add: sorted_ok_def sorted_wrt_append)
      ultimately show ?thesis using Cons by (auto intro: less_trans)
    qed simp
    have "sorted_ok (set_node z n ?f) (as @ n # bs)"
    proof -
      have "sorted_wrt (\<lambda>p q. zn_key (set_node z n ?f) p < zn_key (set_node z n ?f) q) xs"
        if "sorted_wrt (\<lambda>p q. zn_key z p < zn_key z q) xs" "n \<notin> set xs" for xs
        using that by (induction xs) (auto simp: set_score_key)
      then show ?thesis using so a b cn(2,3) by (auto simp: sorted_ok_def sorted_wrt_append set_score_key)
    qed
    then have "zsl_core (set_node z n ?f) (as @ n # bs)" by (intro set_score_core [OF core]) simp_all
    moreover have "zslUpdateScore z n s = Some (set_node z n ?f)" using True by (simp add: zslUpdateScore_def)
    ultimately show ?thesis using dm by (intro exI [of _ "set_node z n ?f"] exI [of _ as] exI [of _ bs])
      (auto simp: zsl_inv_def set_score_key)
  next
    case False
    obtain update where u: "find_update z n = Some update" using find_update_ok [OF core] by blast
    let ?z1 = "zslUnlinkNode z n update"
    let ?z2 = "set_node ?z1 n ?f"
    note un = zslUnlinkNode_found [OF core u]
    have z1: "zsl_header ?z1 = zsl_header z" "dom (zsl_heap ?z1) = dom (zsl_heap z)" "zn_key ?z1 = zn_key z"
      "lev ?z1 = lev z" "\<And>p. length (zn_level (node ?z1 p)) = length (zn_level (node z p))"
      using un by (simp_all add: unlinked_def)
    have ex: "zslUpdateScore z n s = zslInsertNode ?z2 n" using False u by (auto simp: zslUpdateScore_def Let_def)
    have core1: "zsl_core ?z1 (as @ bs)" by (rule unlinked_core [OF core un])
    have nn: "n \<notin> set (zsl_header z # as @ bs)" using cn by auto
    have core2: "zsl_core ?z2 (as @ bs)"
      by (rule zsl_core_cong [OF core1]) (use nn z1(1) in \<open>auto simp: set_node_def\<close>)
    have ele: "zn_ele (node ?z1 n) = zn_ele (node z n)" using fun_cong [OF z1(3), of n] by (simp add: zn_key_def)
    have "lev ?z2 = lev ?z1" by (auto simp: lev_def fun_eq_iff)
    then have l2: "lev ?z2 n = lev z n" by (simp only: z1(4))
    have z2: "zsl_header ?z2 = zsl_header z" "dom (zsl_heap ?z2) = dom (zsl_heap z)" "zn_key ?z2 = (zn_key z)(n := ?k)"
      "lev ?z2 n = lev z n" "length (zn_level (node ?z2 n)) = lev z n" "n \<in> dom (zsl_heap ?z2)"
      using l2 z1(1-3) z1(5) [of n] cn(6,10) ele by (auto simp: set_score_key)
    have "?k \<notin> zn_key ?z2 ` set (as @ bs)" using new nn z2(3) by auto
    moreover have "sorted_ok ?z2 (as @ bs)" using core2 by (simp add: zsl_core_def)
    ultimately obtain as' bs' where sp: "as @ bs = as' @ bs'" "\<forall>p\<in>set as'. zn_key ?z2 p < ?k" "\<forall>p\<in>set bs'. ?k < zn_key ?z2 p"
      using split_at_key by blast
    have kn: "zn_key ?z2 n = ?k" using z2(3) by simp
    have key: "\<forall>p\<in>set as'. zn_key ?z2 p < zn_key ?z2 n" "\<forall>p\<in>set bs'. zn_key ?z2 n < zn_key ?z2 p"
      unfolding kn using sp(2,3) by blast+
    then have key': "\<forall>p\<in>set bs'. \<not> zn_key ?z2 p < zn_key ?z2 n" by (auto dest: less_asym)
    have core2': "zsl_core ?z2 (as' @ bs')" using core2 sp(1) by simp
    have nn': "n \<notin> set (zsl_header ?z2 # as' @ bs')" using nn sp(1) z2(1) by (metis list.set(2) set_append)
    have lv: "1 \<le> lev ?z2 n" "lev ?z2 n \<le> ZSKIPLIST_MAXLEVEL" "length (zn_level (node ?z2 n)) = lev ?z2 n"
      using z2(4,5) cn by simp_all
    obtain z3 where z3: "zslInsertNode ?z2 n = Some z3" "inserted ?z2 n as' bs' z3"
      using zslInsertNode_inserted [OF core2' nn' z2(6) lv key(1) key'] by blast
    have "zsl_core z3 (as' @ n # bs')" by (rule inserted_core [OF core2' nn' z2(6) lv key z3(2)])
    moreover have "zsl_header z3 = zsl_header z" "dom (zsl_heap z3) = dom (zsl_heap z)" "zn_key z3 = (zn_key z)(n := ?k)"
      using z3(2) z2 by (simp_all add: inserted_def)
    moreover have "set (as' @ n # bs') = set (as @ n # bs)" using arg_cong [OF sp(1), of set] by auto
    ultimately have "zsl_inv z3 (as' @ n # bs')" using dm by (simp add: zsl_inv_def)
    then show ?thesis using ex z3(1) sp(1) \<open>zsl_header z3 = zsl_header z\<close> \<open>zn_key z3 = (zn_key z)(n := ?k)\<close> by metis
  qed
qed

section \<open>Freeing the list\<close>

lemma free_loop_ok:
  assumes "distinct ns" "\<And>xs p ys. ns = xs @ p # ys \<Longrightarrow> forward z p 0 = last_opt (rev ys)"
  shows "free_loop z (last_opt (rev ns)) = Some (z\<lparr>zsl_heap := zsl_heap z |` (- set ns)\<rparr>)"
  using assms
proof (induction ns arbitrary: z)
  case Nil
  then show ?case by (subst free_loop.simps) (simp add: restrict_map_def)
next
  case (Cons n ns)
  have f: "forward z n 0 = last_opt (rev ns)" using Cons.prems(2) [of "[]"] by simp
  let ?z = "zslFreeNode z n"
  have "forward ?z p 0 = last_opt (rev ys)" if e: "ns = xs @ p # ys" for xs p ys
  proof -
    have "p \<noteq> n" using Cons.prems(1) e by auto
    then show ?thesis using Cons.prems(2) [of "n # xs" p ys] e by (simp add: forward_def node_def zslFreeNode_def)
  qed
  then have "free_loop ?z (last_opt (rev ns)) = Some (?z\<lparr>zsl_heap := zsl_heap ?z |` (- set ns)\<rparr>)"
    using Cons.IH [of ?z] Cons.prems(1) by simp
  moreover have "zsl_heap ?z |` (- set ns) = zsl_heap z |` (- set (n # ns))"
    by (auto simp: zslFreeNode_def restrict_map_def fun_eq_iff)
  ultimately show ?case by (subst free_loop.simps) (simp add: f Let_def zslFreeNode_def)
qed

lemma zslFree_ok:
  assumes inv: "zsl_inv z ns"
  shows "\<exists>z'. zslFree z = Some z' \<and> zsl_heap z' = (\<lambda>x. None)"
proof -
  let ?z = "zslFreeNode z (zsl_header z)"
  have core: "zsl_core z ns" using inv by (simp add: zsl_inv_def)
  have f: "forward z p 0 = last_opt (rev ys)" if e: "zsl_header z # ns = xs @ p # ys" for xs p ys
  proof -
    have l: "linked_at z p ys" using core e by (simp add: zsl_core_def links_ok_def)
    have "set ys \<subseteq> set ns" using e by (cases xs) auto
    moreover have "0 < height z p"
      using core e by (cases xs) (force simp: height_def zsl_core_def blocks_ok_def levels_ok_def)+
    ultimately show ?thesis using l next_zero [OF core] by (simp add: linked_at_def)
  qed
  have "forward ?z p 0 = last_opt (rev ys)" if e: "ns = xs @ p # ys" for xs p ys
  proof -
    have "p \<noteq> zsl_header z" using core e by (auto simp: zsl_core_def blocks_ok_def)
    then show ?thesis using f [of "zsl_header z # xs" p ys] e by (simp add: forward_def node_def zslFreeNode_def)
  qed
  then have "free_loop ?z (last_opt (rev ns)) = Some (?z\<lparr>zsl_heap := zsl_heap ?z |` (- set ns)\<rparr>)"
    using core by (intro free_loop_ok) (auto simp: zsl_core_def blocks_ok_def)
  moreover have "zsl_heap ?z |` (- set ns) = (\<lambda>x. None)"
  proof
    fix x
    show "(zsl_heap ?z |` (- set ns)) x = None"
      using inv by (cases "x \<in> dom (zsl_heap z)") (auto simp: zsl_inv_def zslFreeNode_def restrict_map_def)
  qed
  ultimately show ?thesis using f [of "[]"] by (simp add: zslFree_def Let_def)
qed

end
