(* ===== verification/Zsl_Rank.thy ===== *)
theory Zsl_Rank
  imports Zsl_Update
begin

text \<open>
  The rank of an element, the element of a rank and the rank of a node: they are the positions in the list of nodes,
  counted from 1.
\<close>

section \<open>The rank of an element\<close>

lemma core_zero_level:
  assumes "zsl_core z (as @ bs)" "as = us @ vs" "upd (zsl_header z) (lev z) 0 as = last (zsl_header z # us)" "us \<noteq> []"
  shows "last us = last as"
  using assms(3,4) pos_zero(2) [OF assms(1)] by (cases as) (use assms(2) in auto)

lemma get_rank_loop_ok:
  assumes core: "zsl_core z (as @ bs)" and le: "\<forall>p\<in>set as. zn_key z p \<le> (score, ele)" "\<forall>p\<in>set bs. (score, ele) < zn_key z p"
  shows "as = xs @ ys \<Longrightarrow> xs = [] \<or> n \<le> lev z (last xs) \<Longrightarrow> n \<le> zsl_level z \<Longrightarrow>
    get_rank_loop z score ele n (last (zsl_header z # xs)) (of_nat (length xs)) =
      Some (if 0 < n \<and> as \<noteq> [] \<and> zn_key z (last as) = (score, ele) then of_nat (length as) else 0)"
proof (induction n arbitrary: xs ys)
  case (Suc n)
  let ?go = "\<lambda>y r. zslCompareWithNode z score ele (Some y) \<ge> 0" and ?h = "zsl_header z"
  have go: "cuts 0 ?go as bs"
    by (rule cutsI) (use le in \<open>auto simp: zslCompareWithNode_key not_le\<close>)
  have w: "walk z ?go n (last (?h # xs)) (of_nat (length xs)) = Some (upd ?h (lev z) n as, of_nat (pos (lev z) n as))"
    using walk_ok [where k = 0, OF core go _ Suc.prems(1)] Suc.prems(2,3) by auto
  obtain us vs where u: "as = us @ vs" "us = [] \<or> n < lev z (last us)"
    "upd ?h (lev z) n as = last (?h # us)" "pos (lev z) n as = length us"
    using upd_split [of as n "lev z" ?h] by blast
  have so: "sorted_ok z as" using core by (simp add: zsl_core_def sorted_ok_def sorted_wrt_append)
  have nh: "last us \<noteq> ?h" if "us \<noteq> []"
  proof -
    have "last us \<in> set (as @ bs)" using that u(1) by simp
    then show ?thesis using core by (auto simp: zsl_core_def blocks_ok_def)
  qed
  have hit: "us = as" if "us \<noteq> []" "zn_key z (last us) = (score, ele)"
  proof (rule ccontr)
    assume "us \<noteq> as"
    then obtain v vs' where v: "vs = v # vs'" using u(1) by (cases vs) auto
    have "last us \<in> set us" using that(1) by simp
    then have "zn_key z (last us) < zn_key z v" using so u(1) v by (simp add: sorted_ok_def sorted_wrt_append)
    moreover have "zn_key z v \<le> (score, ele)" using le(1) u(1) v by simp
    ultimately show False using that(2) by simp
  qed
  show ?case
  proof (cases "us \<noteq> [] \<and> zn_key z (last us) = (score, ele)")
    case True
    then show ?thesis using w u hit nh by (simp add: zslCompareWithNode_key)
  next
    case False
    then have "get_rank_loop z score ele (Suc n) (last (?h # xs)) (of_nat (length xs)) =
        get_rank_loop z score ele n (last (?h # us)) (of_nat (length us))"
      using w u(3,4) nh by (auto simp: zslCompareWithNode_key)
    also have "\<dots> = Some (if 0 < n \<and> as \<noteq> [] \<and> zn_key z (last as) = (score, ele) then of_nat (length as) else 0)"
      by (rule Suc.IH [OF u(1)]) (use u(2) Suc.prems(3) in auto)
    also have "\<dots> = Some (if as \<noteq> [] \<and> zn_key z (last as) = (score, ele) then of_nat (length as) else 0)"
    proof (cases n)
      case 0
      have "us \<noteq> []" "last us = last as" if "as \<noteq> []"
      proof -
        have l: "last (?h # us) = last as" using pos_zero(2) [OF core] u(3) 0 that by simp
        have "last as \<in> set (as @ bs)" using that by simp
        then have "last as \<noteq> ?h" using core by (auto simp: zsl_core_def blocks_ok_def)
        then show "us \<noteq> []" using l by (cases "us = []") auto
        then show "last us = last as" using l by simp
      qed
      then show ?thesis using False 0 by auto
    qed simp
    finally show ?thesis by simp
  qed
qed simp

lemma zslGetRank_ok:
  assumes core: "zsl_core z (as @ n # bs)"
  shows "zslGetRank z (zn_score (node z n)) (zn_ele (node z n)) = Some (of_nat (length as + 1))"
proof -
  note so = core_sorted [OF core] and k = zn_key_def [of z n]
  have c: "zsl_core z ((as @ [n]) @ bs)" using core by simp
  have 1: "\<forall>p\<in>set (as @ [n]). zn_key z p \<le> (zn_score (node z n), zn_ele (node z n))"
    "\<forall>p\<in>set bs. (zn_score (node z n), zn_ele (node z n)) < zn_key z p" using so unfolding k [symmetric] by auto
  have "0 < zsl_level z" using core_node(17) [OF core] by simp
  then show ?thesis using get_rank_loop_ok [OF c 1, of "[]" "as @ [n]" "zsl_level z"] by (simp add: zslGetRank_def k)
qed

lemma zslGetRank_absent:
  assumes core: "zsl_core z ns" and new: "(score, ele) \<notin> zn_key z ` set ns"
  shows "zslGetRank z score ele = Some 0"
proof -
  have "sorted_ok z ns" using core by (simp add: zsl_core_def)
  from split_at_key [OF this new] obtain as bs where s: "ns = as @ bs"
    "\<forall>p\<in>set as. zn_key z p < (score, ele)" "\<forall>p\<in>set bs. (score, ele) < zn_key z p" by blast
  have c: "zsl_core z (as @ bs)" using core s(1) by simp
  have le: "\<forall>p\<in>set as. zn_key z p \<le> (score, ele)" using s(2) by auto
  have "zn_key z (last as) \<noteq> (score, ele)" if "as \<noteq> []" using s(2) last_in_set [OF that] by fastforce
  then show ?thesis using get_rank_loop_ok [OF c le s(3), of "[]" as "zsl_level z"]
    by (cases "as = []") (simp_all add: zslGetRank_def)
qed

section \<open>The rank of a node\<close>

lemma distance_loop_ok:
  assumes core: "zsl_core z ns"
  shows "ns = as @ n # bs \<Longrightarrow> distance_loop z (Some n) d = Some (d + of_nat (length bs))"
proof (induction "length bs" arbitrary: as n bs d rule: less_induct)
  case less
  note c = core [unfolded less.prems]
  note cn = core_node [OF c]
  let ?l = "lev z n - 1"
  have nl: "zn_levels (node z n) = lev z n" using cn(1) by (simp add: lev_def)
  have l: "?l < height z n" using cn(1,7) by (simp add: height_def)
  have f: "forward z n ?l = next_at (lev z) ?l bs" using cn(12) l by (simp add: linked_at_def)
  have s: "zslGetNodeSpanAtLevel z n ?l = of_nat (dist (lev z) ?l bs)"
    by (rule zslGetNodeSpanAtLevel_dist [OF c cn(12) l]) auto
  show ?case
  proof (cases "\<exists>p\<in>set bs. ?l < lev z p")
    case True
    then obtain us y vs where y: "bs = us @ y # vs" "?l < lev z y" "\<forall>p\<in>set us. \<not> ?l < lev z p"
      using split_list_first_prop [OF True] by blast
    have "next_at (lev z) ?l bs = Some y" "dist (lev z) ?l bs = length us + 1"
      using y by (auto simp: next_at_append next_at_Cons dist_append dist_Cons)
    then have "distance_loop z (Some n) d = distance_loop z (Some y) (d + of_nat (length us + 1))"
      using f s nl by (subst distance_loop.simps) (simp add: Let_def)
    also have "\<dots> = Some (d + of_nat (length us + 1) + of_nat (length vs))"
      by (rule less.hyps [of vs "as @ n # us"]) (use y(1) less.prems in auto)
    finally show ?thesis using y(1) by (simp add: ac_simps)
  next
    case False
    then have "next_at (lev z) ?l bs = None" "dist (lev z) ?l bs = length bs"
      by (auto simp: next_at_None dist_def takeWhile_eq_all_conv [THEN iffD2])
    then show ?thesis using f s nl by (subst distance_loop.simps) (simp add: Let_def distance_loop.simps [of z None])
  qed
qed

lemma zslGetRankByNode_ok:
  assumes "zsl_core z (as @ n # bs)"
  shows "zslGetRankByNode z n = Some (of_nat (length as + 1))"
  using distance_loop_ok [OF assms refl] assms by (simp add: zslGetRankByNode_def zsl_core_def)

section \<open>The element of a rank\<close>

lemma pos_ge:
  assumes "as = xs @ ys" "xs = [] \<or> i < l (last xs)"
  shows "length xs \<le> pos l i as"
proof (rule upd_split [of as i l undefined])
  fix us vs assume u: "as = us @ vs" "\<forall>p\<in>set vs. \<not> i < l p" "pos l i as = length us"
  show "length xs \<le> pos l i as"
  proof (rule ccontr)
    assume "\<not> ?thesis"
    then obtain w ws where "xs = us @ w # ws" "vs = w # ws @ ys" using u assms(1)
      by (auto simp: append_eq_append_conv2 append_eq_Cons_conv neq_Nil_conv)
    then have "xs \<noteq> []" "last xs \<in> set vs" by (cases ws; simp)+
    then show False using assms(2) u(2) by blast
  qed
qed

lemma by_rank_loop_ok:
  assumes core: "zsl_core z (as @ bs)" and go: "cuts k (\<lambda>y r. r \<le> rank) as bs"
    and hit: "\<And>j. k \<le> j \<Longrightarrow> j \<le> length as \<Longrightarrow> (of_nat (j - k) = rank) = (found \<and> j = length as)"
  shows "as = xs @ ys \<Longrightarrow> xs = [] \<or> n \<le> lev z (last xs) \<Longrightarrow> k \<le> length xs \<Longrightarrow> n \<le> zsl_level z \<Longrightarrow>
    by_rank_loop z rank n (last (zsl_header z # xs)) (of_nat (length xs - k)) =
      Some (if 0 < n \<and> found then Some (last (zsl_header z # as)) else None)"
proof (induction n arbitrary: xs ys)
  case (Suc n)
  let ?go = "\<lambda>y r. r \<le> rank" and ?h = "zsl_header z"
  have xl: "xs = [] \<or> n < lev z (last xs)" using Suc.prems(2) by auto
  have w: "walk z ?go n (last (?h # xs)) (of_nat (length xs - k)) =
      Some (upd ?h (lev z) n as, of_nat (pos (lev z) n as - k))"
    using walk_ok [OF core go _ Suc.prems(1) xl Suc.prems(3)] Suc.prems(4) by simp
  obtain us vs where u: "as = us @ vs" "us = [] \<or> n < lev z (last us)"
    "upd ?h (lev z) n as = last (?h # us)" "pos (lev z) n as = length us"
    using upd_split [of as n "lev z" ?h] by blast
  have ku: "k \<le> length us" using pos_ge [where l = "lev z" and i = n, OF Suc.prems(1) xl] u(4) Suc.prems(3) by simp
  have lu: "length us \<le> length as" using u(1) by simp
  show ?case
  proof (cases "of_nat (length us - k) = rank")
    case True
    then have "found" "us = as" using hit [OF ku lu] u(1) by auto
    then show ?thesis using w u True by simp
  next
    case False
    have "by_rank_loop z rank (Suc n) (last (?h # xs)) (of_nat (length xs - k)) =
        by_rank_loop z rank n (last (?h # us)) (of_nat (length us - k))"
      using w u(3,4) False by simp
    also have "\<dots> = Some (if 0 < n \<and> found then Some (last (?h # as)) else None)"
      by (rule Suc.IH [OF u(1) _ ku]) (use u(2) Suc.prems(4) in auto)
    also have "\<dots> = Some (if found then Some (last (?h # as)) else None)"
    proof (cases n)
      case 0
      then have "\<not> found" using pos_zero(1) [OF core] u(4) hit [OF ku lu] False by simp
      then show ?thesis by simp
    qed simp
    finally show ?thesis by simp
  qed
qed simp

lemma by_rank_from_ok:
  assumes core: "zsl_core z ns" and ns: "ns = xs @ ys" "length ns < 2 ^ 64"
    and l: "level < zsl_level z" "xs = [] \<or> level < lev z (last xs)"
  shows "zslGetElementByRankFromNode z (last (zsl_header z # xs)) level rank =
    Some (if unat rank \<le> length ys then Some (last (zsl_header z # take (length xs + unat rank) ns)) else None)"
proof -
  let ?as = "take (length xs + unat rank) ns" and ?bs = "drop (length xs + unat rank) ns"
  have c: "zsl_core z (?as @ ?bs)" using core by simp
  have le: "(of_nat j \<le> rank) = (j \<le> unat rank)" "(of_nat j = rank) = (j = unat rank)" if "j \<le> length ns" for j
  proof -
    have "unat (of_nat j :: 64 word) = j" using that ns(2) by (simp add: unat_of_nat)
    then show "(of_nat j \<le> rank) = (j \<le> unat rank)" "(of_nat j = rank) = (j = unat rank)"
      by (auto simp: word_le_nat_alt)
  qed
  have go: "cuts (length xs) (\<lambda>y r. r \<le> rank) ?as ?bs"
    unfolding cuts_def
  proof (intro allI impI)
    fix us y vs assume "?as @ ?bs = us @ y # vs \<and> length xs \<le> length us"
    then have e: "ns = us @ y # vs" "length xs \<le> length us" by simp_all
    then have "length us < length ns" by simp
    then have "(of_nat (length us + 1 - length xs) \<le> rank) = (length us + 1 - length xs \<le> unat rank)" by (intro le) simp
    then show "(of_nat (length us + 1 - length xs) \<le> rank) = (length us < length ?as)"
      using e(2) \<open>length us < length ns\<close> by auto
  qed
  have hit: "(of_nat (j - length xs) = rank) = (unat rank \<le> length ys \<and> j = length ?as)"
    if "length xs \<le> j" "j \<le> length ?as" for j
    using le(2) [of "j - length xs"] that ns(1) by auto
  have as: "?as = xs @ take (unat rank) ys" using ns(1) by simp
  have "by_rank_loop z rank (level + 1) (last (zsl_header z # xs)) (of_nat (length xs - length xs)) =
      Some (if 0 < level + 1 \<and> unat rank \<le> length ys then Some (last (zsl_header z # ?as)) else None)"
    by (rule by_rank_loop_ok [OF c go hit as]) (use l in auto)
  then show ?thesis by (simp add: zslGetElementByRankFromNode_def)
qed

lemma zslGetElementByRank_ok:
  assumes core: "zsl_core z ns" and ns: "length ns < 2 ^ 64"
  shows "zslGetElementByRank z rank =
    Some (if unat rank \<le> length ns then Some (last (zsl_header z # take (unat rank) ns)) else None)"
proof -
  have "zsl_level z - 1 < zsl_level z" using core by (simp add: zsl_core_def levels_ok_def)
  then show ?thesis using by_rank_from_ok [OF core, of "[]" ns "zsl_level z - 1" rank] ns by (simp add: zslGetElementByRank_def)
qed

end
