(* ===== verification/Zsl_Range.thy ===== *)
theory Zsl_Range
  imports Zsl_Rank
begin

text \<open>
  Ranges by score, by element and by rank: the deletions remove exactly the nodes of the range, and the n-th node of
  a range is found from either end.
\<close>

section \<open>The loop that deletes\<close>

lemma upd_cong:
  assumes "\<And>p. p \<in> set ps \<Longrightarrow> l p = l' p"
  shows "upd h l i ps = upd h l' i ps"
proof -
  have "filter (\<lambda>p. i < l p) ps = filter (\<lambda>p. i < l' p) ps" by (rule filter_cong) (use assms in auto)
  then show ?thesis by (simp add: upd_def)
qed

lemma first_forward:
  assumes core: "zsl_core z (as @ bs)"
  shows "forward z (last (zsl_header z # as)) 0 = last_opt (rev bs)"
proof -
  have lk: "linked_at z (last (zsl_header z # as)) bs" by (rule zsl_core_linked [OF core refl])
  have "0 < zsl_level z" using core by (simp add: zsl_core_def levels_ok_def)
  moreover have "as = [] \<or> 0 < lev z (last as)"
  proof (cases "as = []")
    case False
    then have m: "last as \<in> set (as @ bs)" by simp
    have "\<forall>p\<in>set (as @ bs). 1 \<le> lev z p" using core by (auto simp: zsl_core_def blocks_ok_def)
    from bspec [OF this m] show ?thesis by simp
  qed simp
  ultimately have "0 < height z (last (zsl_header z # as))" by (intro height_last [OF core refl])
  then show ?thesis using lk next_zero [OF core, of bs] by (simp add: linked_at_def)
qed

lemma delete_loop_ok:
  assumes inv: "zsl_inv z (as @ ds @ cs)"
    and u: "\<And>i. i < zsl_level z \<Longrightarrow> update ! i = upd (zsl_header z) (lev z) i as"
    and go: "\<And>z y t. go z y t = g (zn_key z y) t"
    and all: "\<And>xs y ys. ds = xs @ y # ys \<Longrightarrow> g (zn_key z y) (t + of_nat (length xs))"
    and stop: "\<And>y ys. cs = y # ys \<Longrightarrow> \<not> g (zn_key z y) (t + of_nat (length ds))"
  shows "\<exists>z'. delete_loop z update go (last_opt (rev (ds @ cs))) t del = Some (z', del @ map (\<lambda>p. snd (zn_key z p)) ds) \<and>
    zsl_inv z' (as @ cs) \<and> zsl_header z' = zsl_header z \<and> (\<forall>p\<in>set (as @ cs). zn_key z' p = zn_key z p)"
  using inv u all stop
proof (induction ds arbitrary: z t del)
  case Nil
  have "delete_loop z update go (last_opt (rev cs)) t del = Some (z, del)"
  proof (cases cs)
    case (Cons y ys)
    then show ?thesis using Nil.prems(4) [of y ys] by (subst delete_loop.simps) (simp add: go)
  qed (subst delete_loop.simps, simp)
  then show ?case using Nil.prems(1) by auto
next
  case (Cons n ds)
  have inv': "zsl_inv z (as @ n # ds @ cs)" using Cons.prems(1) by simp
  then have core: "zsl_core z (as @ n # ds @ cs)" by (simp add: zsl_inv_def)
  note cn = core_node [OF core]
  let ?u = "zslUnlinkNode z n update"
  let ?z = "zslFreeNode ?u n"
  have un: "unlinked z n as (ds @ cs) ?u" by (rule zslUnlinkNode_unlinked [OF core]) (use Cons.prems(2) in auto)
  note fr = unlink_free_ok [OF inv' un]
  have lv: "lev ?z p = lev z p" if "p \<noteq> n" for p
  proof -
    have "lev ?u p = lev z p" "zsl_header ?u = zsl_header z" using un by (simp_all add: unlinked_def)
    then show ?thesis using that by (auto simp: lev_def zslFreeNode_def node_def split: if_splits)
  qed
  have lL: "zsl_level ?z \<le> zsl_level z" using un by (simp add: unlinked_def zslFreeNode_def)
  have nn: "p \<noteq> n" if "p \<in> set (as @ ds @ cs)" for p using that cn(2,3) by auto
  have upd: "update ! i = upd (zsl_header ?z) (lev ?z) i as" if "i < zsl_level ?z" for i
  proof -
    have "upd (zsl_header z) (lev ?z) i as = upd (zsl_header z) (lev z) i as" by (rule upd_cong) (use lv nn in auto)
    then show ?thesis using Cons.prems(2) [of i] that lL fr(2) by simp
  qed
  have all: "g (zn_key ?z y) (t + 1 + of_nat (length xs))" if e: "ds = xs @ y # ys" for xs y ys
    using Cons.prems(3) [of "n # xs" y ys] fr(3) [OF nn [of y]] e by (simp add: ac_simps)
  have stop: "\<not> g (zn_key ?z y) (t + 1 + of_nat (length ds))" if e: "cs = y # ys" for y ys
    using Cons.prems(4) [OF e] fr(3) [OF nn [of y]] e by (simp add: ac_simps)
  let ?del = "del @ [zslGetNodeElement ?u n]"
  have "\<exists>z'. delete_loop ?z update go (last_opt (rev (ds @ cs))) (t + 1) ?del =
      Some (z', ?del @ map (\<lambda>p. snd (zn_key ?z p)) ds) \<and> zsl_inv z' (as @ cs) \<and> zsl_header z' = zsl_header ?z \<and>
      (\<forall>p\<in>set (as @ cs). zn_key z' p = zn_key ?z p)"
    by (rule Cons.IH [OF fr(1)]) (use upd all stop in blast)+
  then obtain z' where z': "delete_loop ?z update go (last_opt (rev (ds @ cs))) (t + 1) ?del =
      Some (z', ?del @ map (\<lambda>p. snd (zn_key ?z p)) ds)"
    "zsl_inv z' (as @ cs)" "zsl_header z' = zsl_header ?z" "\<forall>p\<in>set (as @ cs). zn_key z' p = zn_key ?z p" by blast
  have "zn_key ?u n = zn_key z n" using un by (simp add: unlinked_def)
  then have el: "zslGetNodeElement ?u n = snd (zn_key z n)" by (simp add: zslGetNodeElement_def zn_key_def)
  have mp: "map (\<lambda>p. snd (zn_key ?z p)) ds = map (\<lambda>p. snd (zn_key z p)) ds" using fr(3) nn by simp
  have f: "forward z n 0 = last_opt (rev (ds @ cs))"
    using first_forward [of z "as @ [n]" "ds @ cs"] core by simp
  have "go z n t" using Cons.prems(3) [of "[]" n ds] by (simp add: go)
  moreover have "last_opt (rev ((n # ds) @ cs)) = Some n" by (simp add: last_opt_def)
  ultimately have "delete_loop z update go (last_opt (rev ((n # ds) @ cs))) t del =
      delete_loop ?z update go (last_opt (rev (ds @ cs))) (t + 1) (del @ [zslGetNodeElement ?u n])"
    by (subst delete_loop.simps) (simp only: f Let_def option.case if_True)
  then show ?case using z' el mp fr(2,3) nn by auto
qed

lemma search_update:
  assumes core: "zsl_core z (as @ bs)" and go: "cuts 0 go as bs"
    and s: "search z go (zsl_level z) (zsl_header z) 0 = Some us"
  shows "\<And>i. i < zsl_level z \<Longrightarrow> map fst us ! i = upd (zsl_header z) (lev z) i as"
    "forward z (fst (us ! 0)) 0 = last_opt (rev bs)" "snd (us ! 0) = of_nat (length as)"
proof -
  have us: "us = map (\<lambda>i. (upd (zsl_header z) (lev z) i as, of_nat (pos (lev z) i as))) [0..<zsl_level z]"
    using search_from_header [OF core go] s by simp
  have L: "0 < zsl_level z" using core by (simp add: zsl_core_def levels_ok_def)
  show "\<And>i. i < zsl_level z \<Longrightarrow> map fst us ! i = upd (zsl_header z) (lev z) i as" by (simp add: us)
  show "forward z (fst (us ! 0)) 0 = last_opt (rev bs)" using L first_forward [OF core] pos_zero(2) [OF core] by (simp add: us)
  show "snd (us ! 0) = of_nat (length as)" using L pos_zero(1) [OF core] by (simp add: us)
qed

section \<open>Deletion by score and by element\<close>

text \<open>Tests that hold from some node on, or up to some node, split the list in three.\<close>

lemma filter_two:
  assumes "ns = as @ ds @ cs" "\<forall>p\<in>set as. \<not> (P p \<and> Q p)" "\<forall>p\<in>set ds. P p \<and> Q p" "\<forall>p\<in>set cs. \<not> (P p \<and> Q p)"
  shows "filter (\<lambda>p. P p \<and> Q p) ns = ds" "filter (\<lambda>p. \<not> (P p \<and> Q p)) ns = as @ cs"
  using assms by (simp_all add: filter_id_conv filter_empty_conv)

lemma split_first:
  assumes up: "\<And>xs p ys q zs. ns = xs @ p # ys @ q # zs \<Longrightarrow> P p \<Longrightarrow> P q"
  obtains as bs where "ns = as @ bs" "\<forall>p\<in>set as. \<not> P p" "\<forall>p\<in>set bs. P p"
proof (cases "\<exists>p\<in>set ns. P p")
  case True
  then obtain as p bs where s: "ns = as @ p # bs" "P p" "\<forall>q\<in>set as. \<not> P q" using split_list_first_prop [OF True] by blast
  have "P q" if q: "q \<in> set bs" for q
  proof -
    obtain ys zs where "bs = ys @ q # zs" using split_list [OF q] by blast
    then show ?thesis using up [of as p ys q zs] s(1,2) by simp
  qed
  then show ?thesis using that [of as "p # bs"] s by simp
next
  case False
  then show ?thesis using that [of ns "[]"] by simp
qed

lemma split_range:
  assumes P: "\<And>xs p ys q zs. ns = xs @ p # ys @ q # zs \<Longrightarrow> P p \<Longrightarrow> P q"
    and Q: "\<And>xs p ys q zs. ns = xs @ p # ys @ q # zs \<Longrightarrow> Q q \<Longrightarrow> Q p"
  obtains as ds cs where "ns = as @ ds @ cs" "\<forall>p\<in>set as. \<not> P p" "\<forall>p\<in>set ds. P p \<and> Q p" "\<forall>p\<in>set cs. P p \<and> \<not> Q p"
proof -
  obtain as bs where a: "ns = as @ bs" "\<forall>p\<in>set as. \<not> P p" "\<forall>p\<in>set bs. P p" using split_first [of ns P] P by blast
  have Q': "\<not> Q q" if "bs = xs @ p # ys @ q # zs" "\<not> Q p" for xs p ys q zs
    using Q [of "as @ xs" p ys q zs] a(1) that by auto
  obtain ds cs where "bs = ds @ cs" "\<forall>p\<in>set ds. \<not> \<not> Q p" "\<forall>p\<in>set cs. \<not> Q p"
    using split_first [of bs "\<lambda>p. \<not> Q p"] Q' by blast
  then show ?thesis using that [of as ds cs] a by simp
qed

definition zsl_kept :: "'s::linorder zskiplist \<Rightarrow> ('s \<times> bytes \<Rightarrow> bool) \<Rightarrow> addr list \<Rightarrow> 's zskiplist \<Rightarrow> bool" where
  "zsl_kept z R ns z' \<longleftrightarrow> zsl_inv z' (filter (\<lambda>p. \<not> R (zn_key z p)) ns) \<and> zsl_header z' = zsl_header z \<and>
     (\<forall>p\<in>set (filter (\<lambda>p. \<not> R (zn_key z p)) ns). zn_key z' p = zn_key z p)"

lemma delete_range_ok:
  assumes inv: "zsl_inv z ns"
    and sp: "ns = as @ ds @ cs" "\<forall>p\<in>set as. \<not> P (zn_key z p)" "\<forall>p\<in>set ds. P (zn_key z p) \<and> Q (zn_key z p)"
      "\<forall>p\<in>set cs. P (zn_key z p) \<and> \<not> Q (zn_key z p)"
  shows "\<exists>us z'. search z (\<lambda>y r. \<not> P (zn_key z y)) (zsl_level z) (zsl_header z) 0 = Some us \<and>
    delete_loop z (map fst us) (\<lambda>z y t. Q (zn_key z y)) (forward z (fst (us ! 0)) 0) 0 [] =
      Some (z', map (\<lambda>p. snd (zn_key z p)) (filter (\<lambda>p. P (zn_key z p) \<and> Q (zn_key z p)) ns)) \<and>
    zsl_kept z (\<lambda>k. P k \<and> Q k) ns z'"
proof -
  have inv': "zsl_inv z (as @ ds @ cs)" and core: "zsl_core z (as @ (ds @ cs))" using inv sp(1) by (simp_all add: zsl_inv_def)
  have go: "cuts 0 (\<lambda>y r. \<not> P (zn_key z y)) as (ds @ cs)" by (rule cutsI) (use sp in auto)
  obtain us where us: "search z (\<lambda>y r. \<not> P (zn_key z y)) (zsl_level z) (zsl_header z) 0 = Some us"
    using search_from_header [OF core go] by blast
  note su = search_update [OF core go us]
  have f: "filter (\<lambda>p. P (zn_key z p) \<and> Q (zn_key z p)) ns = ds"
    "filter (\<lambda>p. \<not> (P (zn_key z p) \<and> Q (zn_key z p))) ns = as @ cs"
    by (rule filter_two [OF sp(1)]; use sp in auto)+
  have "\<exists>z'. delete_loop z (map fst us) (\<lambda>z y t. Q (zn_key z y)) (last_opt (rev (ds @ cs))) 0 [] =
      Some (z', [] @ map (\<lambda>p. snd (zn_key z p)) ds) \<and> zsl_inv z' (as @ cs) \<and> zsl_header z' = zsl_header z \<and>
      (\<forall>p\<in>set (as @ cs). zn_key z' p = zn_key z p)"
    by (rule delete_loop_ok [where g = "\<lambda>k t. Q k", OF inv' su(1) refl]) (use sp in auto)
  then show ?thesis unfolding zsl_kept_def f using us su(2) by simp
qed

lemma core_order:
  assumes "zsl_core z ns" "ns = xs @ p # ys @ q # zs"
  shows "zn_key z p < zn_key z q"
  using assms by (simp add: zsl_core_def sorted_ok_def sorted_wrt_append)

lemma score_order:
  assumes "zsl_core z ns" "ns = xs @ p # ys @ q # zs"
  shows "zn_score (node z p) \<le> zn_score (node z q)"
  using core_order [OF assms] by (auto simp: zn_key_def)

text \<open>What is in a range.\<close>

definition in_range :: "'s::linorder zrangespec \<Rightarrow> 's \<times> bytes \<Rightarrow> bool" where
  "in_range spec k \<longleftrightarrow> zslValueGteMin (fst k) spec \<and> zslValueLteMax (fst k) spec"

definition in_lex_range :: "zlexrangespec \<Rightarrow> 's \<times> bytes \<Rightarrow> bool" where
  "in_lex_range spec k \<longleftrightarrow> zslLexValueGteMin (snd k) spec \<and> zslLexValueLteMax (snd k) spec"

lemma score_split:
  assumes core: "zsl_core z ns"
  obtains as ds cs where "ns = as @ ds @ cs" "\<forall>p\<in>set as. \<not> zslValueGteMin (fst (zn_key z p)) spec"
    "\<forall>p\<in>set ds. zslValueGteMin (fst (zn_key z p)) spec \<and> zslValueLteMax (fst (zn_key z p)) spec"
    "\<forall>p\<in>set cs. zslValueGteMin (fst (zn_key z p)) spec \<and> \<not> zslValueLteMax (fst (zn_key z p)) spec"
proof (rule split_range [of ns "\<lambda>p. zslValueGteMin (fst (zn_key z p)) spec" "\<lambda>p. zslValueLteMax (fst (zn_key z p)) spec"])
  fix xs p ys q zs assume e: "ns = xs @ p # ys @ q # zs"
  note o = score_order [OF core e]
  show "zslValueGteMin (fst (zn_key z p)) spec \<Longrightarrow> zslValueGteMin (fst (zn_key z q)) spec"
    using o by (auto simp: zn_key_def zslValueGteMin_def split: if_splits)
  show "zslValueLteMax (fst (zn_key z q)) spec \<Longrightarrow> zslValueLteMax (fst (zn_key z p)) spec"
    using o by (auto simp: zn_key_def zslValueLteMax_def split: if_splits)
qed blast

lemma zslDeleteRangeByScore_ok:
  assumes inv: "zsl_inv z ns"
  shows "\<exists>z'. zslDeleteRangeByScore z spec =
      Some (z', map (\<lambda>p. snd (zn_key z p)) (filter (\<lambda>p. in_range spec (zn_key z p)) ns)) \<and>
    zsl_kept z (in_range spec) ns z'"
proof -
  have core: "zsl_core z ns" using inv by (simp add: zsl_inv_def)
  obtain as ds cs where sp: "ns = as @ ds @ cs" "\<forall>p\<in>set as. \<not> zslValueGteMin (fst (zn_key z p)) spec"
    "\<forall>p\<in>set ds. zslValueGteMin (fst (zn_key z p)) spec \<and> zslValueLteMax (fst (zn_key z p)) spec"
    "\<forall>p\<in>set cs. zslValueGteMin (fst (zn_key z p)) spec \<and> \<not> zslValueLteMax (fst (zn_key z p)) spec"
    using score_split [OF core] by blast
  have R: "in_range spec = (\<lambda>k. zslValueGteMin (fst k) spec \<and> zslValueLteMax (fst k) spec)"
    by (simp add: in_range_def fun_eq_iff)
  have k: "zn_score (node x p) = fst (zn_key x p)" for x :: "'a zskiplist" and p by (simp add: zn_key_def)
  show ?thesis
    using delete_range_ok [where P = "\<lambda>k. zslValueGteMin (fst k) spec" and Q = "\<lambda>k. zslValueLteMax (fst k) spec", OF inv sp]
    unfolding zslDeleteRangeByScore_def R k by auto
qed

text \<open>A range by element is meaningful when all scores are the same.\<close>

lemma sdscmplex_mono:
  "v < w \<Longrightarrow> sdscmplex (Lex v) b \<ge> 0 \<Longrightarrow> sdscmplex (Lex w) b > 0"
  "v < w \<Longrightarrow> sdscmplex (Lex w) b \<le> 0 \<Longrightarrow> sdscmplex (Lex v) b < 0"
proof -
  assume vw: "v < w"
  show "sdscmplex (Lex v) b \<ge> 0 \<Longrightarrow> sdscmplex (Lex w) b > 0"
  proof (cases b)
    case (Lex s)
    have "sdscmplex (Lex x) (Lex s) = sdscmp x s" for x using sdscmp_eq [of x s] by (auto simp: sdscmplex.simps)
    moreover assume "sdscmplex (Lex v) b \<ge> 0"
    ultimately show ?thesis using Lex vw sdscmp_less [of v s] sdscmp_greater [of w s] by (simp add: not_less [symmetric])
  qed (simp_all add: sdscmplex.simps)
  show "sdscmplex (Lex w) b \<le> 0 \<Longrightarrow> sdscmplex (Lex v) b < 0"
  proof (cases b)
    case (Lex s)
    have "sdscmplex (Lex x) (Lex s) = sdscmp x s" for x using sdscmp_eq [of x s] by (auto simp: sdscmplex.simps)
    moreover assume "sdscmplex (Lex w) b \<le> 0"
    ultimately show ?thesis using Lex vw sdscmp_less [of v s] sdscmp_greater [of w s] by (simp add: not_less [symmetric])
  qed (simp_all add: sdscmplex.simps)
qed

lemma lex_split:
  assumes core: "zsl_core z ns" and one: "\<forall>p\<in>set ns. zn_score (node z p) = s"
  obtains as ds cs where "ns = as @ ds @ cs" "\<forall>p\<in>set as. \<not> zslLexValueGteMin (snd (zn_key z p)) spec"
    "\<forall>p\<in>set ds. zslLexValueGteMin (snd (zn_key z p)) spec \<and> zslLexValueLteMax (snd (zn_key z p)) spec"
    "\<forall>p\<in>set cs. zslLexValueGteMin (snd (zn_key z p)) spec \<and> \<not> zslLexValueLteMax (snd (zn_key z p)) spec"
proof (rule split_range [of ns "\<lambda>p. zslLexValueGteMin (snd (zn_key z p)) spec" "\<lambda>p. zslLexValueLteMax (snd (zn_key z p)) spec"])
  fix xs p ys q zs assume e: "ns = xs @ p # ys @ q # zs"
  have l: "snd (zn_key z p) < snd (zn_key z q)"
    using core_order [OF core e] one e by (simp add: zn_key_def zslGetNodeElement_def)
  show "zslLexValueGteMin (snd (zn_key z p)) spec \<Longrightarrow> zslLexValueGteMin (snd (zn_key z q)) spec"
    using sdscmplex_mono(1) [OF l, of "zlr_min spec"] by (auto simp: zslLexValueGteMin_def split: if_splits)
  show "zslLexValueLteMax (snd (zn_key z q)) spec \<Longrightarrow> zslLexValueLteMax (snd (zn_key z p)) spec"
    using sdscmplex_mono(2) [OF l, of "zlr_max spec"] by (auto simp: zslLexValueLteMax_def split: if_splits)
qed blast

lemma zslDeleteRangeByLex_ok:
  assumes inv: "zsl_inv z ns" and one: "\<forall>p\<in>set ns. zn_score (node z p) = s"
  shows "\<exists>z'. zslDeleteRangeByLex z spec =
      Some (z', map (\<lambda>p. snd (zn_key z p)) (filter (\<lambda>p. in_lex_range spec (zn_key z p)) ns)) \<and>
    zsl_kept z (in_lex_range spec) ns z'"
proof -
  have core: "zsl_core z ns" using inv by (simp add: zsl_inv_def)
  obtain as ds cs where sp: "ns = as @ ds @ cs" "\<forall>p\<in>set as. \<not> zslLexValueGteMin (snd (zn_key z p)) spec"
    "\<forall>p\<in>set ds. zslLexValueGteMin (snd (zn_key z p)) spec \<and> zslLexValueLteMax (snd (zn_key z p)) spec"
    "\<forall>p\<in>set cs. zslLexValueGteMin (snd (zn_key z p)) spec \<and> \<not> zslLexValueLteMax (snd (zn_key z p)) spec"
    using lex_split [OF core one] by blast
  have R: "in_lex_range spec = (\<lambda>k :: 'a \<times> bytes. zslLexValueGteMin (snd k) spec \<and> zslLexValueLteMax (snd k) spec)"
    by (simp add: in_lex_range_def fun_eq_iff)
  have k: "zslGetNodeElement x p = snd (zn_key x p)" for x :: "'a zskiplist" and p
    by (simp add: zn_key_def zslGetNodeElement_def)
  show ?thesis
    using delete_range_ok [where P = "\<lambda>k. zslLexValueGteMin (snd k) spec" and Q = "\<lambda>k. zslLexValueLteMax (snd k) spec", OF inv sp]
    unfolding zslDeleteRangeByLex_def R k by auto
qed

section \<open>Deletion by rank\<close>

lemma zslDeleteRangeByRank_ok:
  fixes start en :: "32 word"
  assumes inv: "zsl_inv z ns" and len: "length ns < 2 ^ 63" and st: "1 \<le> unat start"
  defines "as \<equiv> take (unat start - 1) ns" and "ds \<equiv> take (unat en - (unat start - 1)) (drop (unat start - 1) ns)"
    and "cs \<equiv> drop (unat en - (unat start - 1)) (drop (unat start - 1) ns)"
  shows "\<exists>z'. zslDeleteRangeByRank z start en = Some (z', map (\<lambda>p. snd (zn_key z p)) ds) \<and> zsl_inv z' (as @ cs) \<and>
    zsl_header z' = zsl_header z \<and> (\<forall>p\<in>set (as @ cs). zn_key z' p = zn_key z p)"
proof -
  have ns: "ns = as @ ds @ cs" unfolding as_def ds_def cs_def by (simp only: append_take_drop_id)
  have inv': "zsl_inv z (as @ ds @ cs)" and core: "zsl_core z (as @ (ds @ cs))" using inv unfolding ns [symmetric]
    by (simp_all add: zsl_inv_def ns [symmetric])
  have uc: "unat (ucast w :: 64 word) = unat w" for w :: "32 word"
    using unsigned_less [where 'a = nat, of w] by (simp add: unsigned_ucast_eq take_bit_nat_eq_self)
  have lt: "(of_nat j < (ucast w :: 64 word)) = (j < unat w)" "(of_nat j \<le> (ucast w :: 64 word)) = (j \<le> unat w)"
    if "j \<le> length ns + 1" for j and w :: "32 word"
  proof -
    have "unat (of_nat j :: 64 word) = j" using that len by (simp add: unat_of_nat)
    then show "(of_nat j < (ucast w :: 64 word)) = (j < unat w)" "(of_nat j \<le> (ucast w :: 64 word)) = (j \<le> unat w)"
      by (simp_all add: word_less_nat_alt word_le_nat_alt uc)
  qed
  have go: "cuts 0 (\<lambda>y r. r < ucast start) as (ds @ cs)"
    unfolding cuts_def
  proof (intro allI impI)
    fix xs y ys assume "as @ ds @ cs = xs @ y # ys \<and> 0 \<le> length xs"
    then have "length xs < length ns" using ns by (metis length_append length_Cons add_Suc_right less_add_Suc1)
    then show "(of_nat (length xs + 1 - 0) < (ucast start :: 64 word)) = (length xs < length as)"
      using lt(1) [of "length xs + 1" start] st by (auto simp: as_def)
  qed
  obtain us where us: "search z (\<lambda>y r. r < ucast start) (zsl_level z) (zsl_header z) 0 = Some us"
    using search_from_header [OF core go] by blast
  note su = search_update [OF core go us]
  let ?t = "of_nat (length as) + 1 :: 64 word"
  have all: "?t + of_nat (length xs) \<le> ucast en" if e: "ds = xs @ y # ys" for xs y ys
  proof -
    have l: "length as + 1 + length xs \<le> length ns" using ns e by simp
    have "length xs < length ds" using e by simp
    then have "length as + 1 + length xs \<le> unat en" using l by (auto simp: as_def ds_def)
    then show ?thesis using lt(2) [of "length as + 1 + length xs" en] l by (simp add: ac_simps)
  qed
  have stop: "\<not> ?t + of_nat (length ds) \<le> ucast en" if e: "cs = y # ys" for y ys
  proof -
    have l: "length as + 1 + length ds \<le> length ns" using ns e by simp
    have "0 < length cs" using e by simp
    then have "\<not> length as + 1 + length ds \<le> unat en" using st by (auto simp: as_def ds_def cs_def)
    then show ?thesis using lt(2) [of "length as + 1 + length ds" en] l by (simp add: ac_simps)
  qed
  have "\<exists>z'. delete_loop z (map fst us) (\<lambda>z y t. t \<le> ucast en) (last_opt (rev (ds @ cs))) ?t [] =
      Some (z', [] @ map (\<lambda>p. snd (zn_key z p)) ds) \<and> zsl_inv z' (as @ cs) \<and> zsl_header z' = zsl_header z \<and>
      (\<forall>p\<in>set (as @ cs). zn_key z' p = zn_key z p)"
    by (rule delete_loop_ok [where g = "\<lambda>k t. t \<le> ucast en", OF inv' su(1) refl]) (use all stop in auto)
  then show ?thesis using us su(2,3) by (simp add: zslDeleteRangeByRank_def)
qed

end
