(* ===== verification/Zsl_Nth.thy ===== *)
theory Zsl_Nth
  imports Zsl_Range
begin

text \<open>The n-th node of a range, counted from its first node or, with a negative number, from its last one.\<close>

section \<open>Steps along level 0\<close>

lemma forward_steps:
  assumes core: "zsl_core z ns"
  shows "ns = xs @ ys \<Longrightarrow> k < length ys \<Longrightarrow>
    ((\<lambda>x. forward z (the x) 0) ^^ (k + 1)) (Some (last (zsl_header z # xs))) = Some (ys ! k)"
proof (induction k)
  case 0
  then show ?case using first_forward [of z xs ys] core by (cases ys) (simp_all add: last_opt_def)
next
  case (Suc k)
  have "((\<lambda>x. forward z (the x) 0) ^^ (Suc k + 1)) (Some (last (zsl_header z # xs))) = forward z (ys ! k) 0"
    using Suc by simp
  moreover have e: "ns = (xs @ take (Suc k) ys) @ drop (Suc k) ys" using Suc.prems by simp
  have "forward z (last (zsl_header z # xs @ take (Suc k) ys)) 0 = last_opt (rev (drop (Suc k) ys))"
    using first_forward [of z "xs @ take (Suc k) ys" "drop (Suc k) ys"] core unfolding e by simp
  moreover have "take (Suc k) ys = take k ys @ [ys ! k]" using Suc.prems(2) by (simp add: take_Suc_conv_app_nth)
  moreover have "drop (Suc k) ys = ys ! Suc k # drop (Suc (Suc k)) ys" using Suc.prems(2) by (simp add: Cons_nth_drop_Suc)
  ultimately show ?case by (simp add: last_opt_def)
qed

lemma backward_steps:
  assumes core: "zsl_core z ns" and ns: "ns = xs @ ys"
  shows "k < length xs \<Longrightarrow>
    ((\<lambda>x. zn_backward (node z (the x))) ^^ k) (Some (last (zsl_header z # xs))) = Some (xs ! (length xs - 1 - k))"
proof (induction k)
  case 0
  then show ?case by (simp add: last_conv_nth)
next
  case (Suc k)
  let ?i = "length xs - 1 - k"
  have i: "0 < ?i" "?i < length xs" using Suc.prems by simp_all
  have e: "ns = take ?i xs @ xs ! ?i # drop (Suc ?i) xs @ ys"
    using id_take_nth_drop [OF i(2)] ns by (metis append.assoc append_Cons)
  have "\<forall>us p vs. ns = us @ p # vs \<longrightarrow> zn_backward (node z p) = last_opt us" using core by (simp add: zsl_core_def backs_ok_def)
  then have "zn_backward (node z (xs ! ?i)) = last_opt (take ?i xs)" using e by blast
  moreover have "take ?i xs = take (?i - 1) xs @ [xs ! (?i - 1)]"
  proof -
    obtain j where j: "?i = Suc j" using i(1) gr0_implies_Suc by blast
    then have "j < length xs" using i(2) by simp
    from take_Suc_conv_app_nth [OF this] show ?thesis unfolding j by simp
  qed
  ultimately have b: "zn_backward (node z (xs ! ?i)) = Some (xs ! (?i - 1))" by (simp only: last_opt_simps(3))
  have "?i - 1 = length xs - 1 - Suc k" by simp
  then show ?case using Suc b by simp
qed

section \<open>The n-th node of a range\<close>

definition range_nth :: "addr list \<Rightarrow> addr list \<Rightarrow> int \<Rightarrow> (addr \<times> 64 word) option" where
  "range_nth as ds n =
     (if 0 \<le> n then
        if nat n < length ds then Some (ds ! nat n, of_nat (length as + nat n + 1)) else None
      else
        if nat (- n) \<le> length ds then Some (ds ! (length ds - nat (- n)), of_nat (length as + length ds - nat (- n) + 1))
        else None)"

lemma nth_in_range_front:
  assumes "walk z (\<lambda>y r. \<not> P y) (zsl_level z - 1) (zsl_header z) 0 = Some (x0, r0)"
    "search z (\<lambda>y r. \<not> P y) (zsl_level z - 1) x0 r0 = Some us" "(if us = [] then (x0, r0) else us ! 0) = (x, e)" "0 \<le> n"
    "\<not> e + word_of_int n \<ge> zsl_length z \<Longrightarrow>
       (if n < ZSKIPLIST_MAX_SEARCH then Some (((\<lambda>x. forward z (the x) 0) ^^ nat (n + 1)) (Some x))
        else zslGetElementByRankFromNode z x0 (zsl_level z - 1) (e + 1 + word_of_int n - r0)) = Some y"
  shows "nth_in_range z P Q n = Some (if e + word_of_int n \<ge> zsl_length z then None
    else case y of None \<Rightarrow> None | Some y \<Rightarrow> if Q y then Some (y, e + word_of_int n + 1) else None)"
  using assms unfolding nth_in_range_def by (simp only: bind.simps prod.case Let_def if_True if_False) simp

lemma nth_in_range_back:
  assumes "walk z (\<lambda>y r. \<not> P y) (zsl_level z - 1) (zsl_header z) 0 = Some (x0, r0)"
    "search z (\<lambda>y r. Q y) (zsl_level z) x0 r0 = Some us" "us ! 0 = (x, e)" "\<not> 0 \<le> n"
    "\<not> word_sless e (- word_of_int n) \<Longrightarrow>
       (if n + 1 > - ZSKIPLIST_MAX_SEARCH then Some (((\<lambda>x. zn_backward (node z (the x))) ^^ nat (- n - 1)) (Some x))
        else zslGetElementByRankFromNode z x0 (zsl_level z - 1) (e + 1 + word_of_int n - r0)) = Some y"
  shows "nth_in_range z P Q n = Some (if word_sless e (- word_of_int n) then None
    else case y of None \<Rightarrow> None | Some y \<Rightarrow> if P y then Some (y, e + word_of_int n + 1) else None)"
  using assms unfolding nth_in_range_def by (simp only: bind.simps prod.case Let_def if_True if_False) simp

lemma last_take: "0 < k \<Longrightarrow> k \<le> length ns \<Longrightarrow> last (h # take k ns) = ns ! (k - 1)"
  by (cases k) (simp_all add: take_Suc_conv_app_nth)

lemma unat_of_nat_small: "k < 2 ^ 64 \<Longrightarrow> unat (of_nat k :: 64 word) = k"
  by (simp add: unat_of_nat)

lemma sless_of_nat:
  assumes "a < 2 ^ 63" "b < 2 ^ 63"
  shows "word_sless (of_nat a :: 64 word) (of_nat b) = (a < b)"
proof -
  have "sint (of_nat k :: 64 word) = int k" if "k < 2 ^ 63" for k
    using that by (simp add: sint_uint signed_take_bit_int_eq_self unsigned_of_nat take_bit_nat_eq_self)
  then show ?thesis using assms by (simp add: word_sless_alt)
qed

lemma nth_in_range_ok:
  assumes core: "zsl_core z ns" and len: "length ns < 2 ^ 63" and ns: "ns = as @ ds @ cs"
    and P: "\<forall>p\<in>set as. \<not> P p \<and> Q p" "\<forall>p\<in>set ds. P p \<and> Q p" "\<forall>p\<in>set cs. P p \<and> \<not> Q p"
    and n: "- (2 ^ 63) < n" "n < 2 ^ 63"
  shows "nth_in_range z P Q n = Some (range_nth as ds n)"
proof -
  let ?h = "zsl_header z" and ?L = "zsl_level z"
  have ca: "zsl_core z (as @ (ds @ cs))" and cd: "zsl_core z ((as @ ds) @ cs)" using core ns by simp_all
  have L: "0 < ?L" using core by (simp add: zsl_core_def levels_ok_def)
  have ga: "cuts 0 (\<lambda>y r. \<not> P y) as (ds @ cs)" and gd: "cuts 0 (\<lambda>y r. Q y) (as @ ds) cs"
    by (rule cutsI; use P in auto)+
  obtain xs ys where x: "as = xs @ ys" "xs = [] \<or> ?L - 1 < lev z (last xs)" "\<forall>p\<in>set ys. \<not> ?L - 1 < lev z p"
    "upd ?h (lev z) (?L - 1) as = last (?h # xs)" "pos (lev z) (?L - 1) as = length xs"
    using upd_split [of as "?L - 1" "lev z" ?h] by blast
  have w: "walk z (\<lambda>y r. \<not> P y) (?L - 1) ?h 0 = Some (last (?h # xs), of_nat (length xs))"
    using walk_ok [OF ca ga _ _ , of "?L - 1" "[]" as] L x(4,5) by simp
  have zl: "zsl_length z = of_nat (length ns)" using core by (simp add: zsl_core_def)
  let ?a = "length as" and ?d = "length ds" and ?c = "length xs"
  have lx: "?c \<le> ?a" and ln: "length ns = ?a + ?d + length cs" using x(1) ns by simp_all
  show ?thesis
  proof (cases "0 \<le> n")
    case True
    define m where "m = nat n"
    have m: "n = int m" "m < 2 ^ 63" using True n by (auto simp: m_def)
    have x1: "xs = [] \<or> ?L - 1 \<le> lev z (last xs)" using x(2) by auto
    obtain us where us: "search z (\<lambda>y r. \<not> P y) (?L - 1) (last (?h # xs)) (of_nat ?c) = Some us"
      "(if us = [] then (last (?h # xs), of_nat ?c) else us ! 0) = (last (?h # as), of_nat ?a)"
    proof -
      let ?us = "map (\<lambda>i. (upd ?h (lev z) i as, of_nat (pos (lev z) i as))) [0..<?L - 1]"
      have s: "search z (\<lambda>y r. \<not> P y) (?L - 1) (last (?h # xs)) (of_nat ?c) = Some ?us"
        by (rule search_ok [OF ca ga x(1) x1]) simp
      have "(if ?us = [] then (last (?h # xs), of_nat ?c) else ?us ! 0) = (last (?h # as), of_nat ?a)"
        using pos_zero [OF ca] x(4,5) L by (cases "?L = 1") auto
      then show ?thesis using that s by blast
    qed
    have big: "(of_nat ?a + word_of_int n \<ge> zsl_length z) = (length ns \<le> ?a + m)"
    proof -
      have "(of_nat ?a + word_of_int n :: 64 word) = of_nat (?a + m)" by (simp add: m(1))
      moreover have "?a + m < 2 ^ 64" "length ns < 2 ^ 64" using len ln m(2) by simp_all
      ultimately show ?thesis by (simp only: zl word_le_nat_alt unat_of_nat_small)
    qed
    show ?thesis
    proof (cases "length ns \<le> ?a + m")
      case lng: True
      then have "\<not> m < ?d" using ln by simp
      moreover have "nth_in_range z P Q n = Some None"
        using nth_in_range_front [OF w us True, of None Q] lng unfolding big by simp
      ultimately show ?thesis using True by (simp add: range_nth_def m_def)
    next
      case False
      let ?y = "(ds @ cs) ! m"
      have mr: "m < length (ds @ cs)" using False ln by simp
      have f: "((\<lambda>x. forward z (the x) 0) ^^ nat (n + 1)) (Some (last (?h # as))) = Some ?y"
      proof -
        have "nat (n + 1) = m + 1" using m(1) by simp
        then show ?thesis using forward_steps [OF ca refl mr] by simp
      qed
      have r: "zslGetElementByRankFromNode z (last (?h # xs)) (?L - 1) (of_nat ?a + 1 + word_of_int n - of_nat ?c) = Some (Some ?y)"
      proof -
        let ?k = "?a + 1 + m - ?c"
        have d: "(of_nat ?a + 1 + word_of_int n - of_nat ?c :: 64 word) = of_nat ?k" using lx by (simp add: m(1) of_nat_diff)
        have u: "unat (of_nat ?k :: 64 word) = ?k" using len ln False by (intro unat_of_nat_small) simp
        have "zslGetElementByRankFromNode z (last (?h # xs)) (?L - 1) (of_nat ?k) =
            Some (if unat (of_nat ?k :: 64 word) \<le> length (ys @ ds @ cs)
              then Some (last (?h # take (?c + unat (of_nat ?k :: 64 word)) ns)) else None)"
          by (rule by_rank_from_ok [OF core]) (use ns x(1,2) len L in auto)
        moreover have "?k \<le> length (ys @ ds @ cs)" "?c + ?k = ?a + m + 1" using False ln x(1) by simp_all
        moreover have "last (?h # take (?a + m + 1) ns) = ?y"
          using last_take [of "?a + m + 1" ns ?h] False ns by (simp add: nth_append)
        ultimately show ?thesis unfolding d u by (simp only: if_True)
      qed
      have q: "Q ?y = (m < ?d)"
      proof (cases "m < ?d")
        case False
        then have "?y \<in> set cs" using mr by (simp add: nth_append)
        then show ?thesis using P False by simp
      qed (use P in \<open>simp add: nth_append\<close>)
      have rk: "of_nat ?a + word_of_int n + 1 = (of_nat (?a + m + 1) :: 64 word)" by (simp add: m(1))
      have fr: "(if n < ZSKIPLIST_MAX_SEARCH then Some (((\<lambda>x. forward z (the x) 0) ^^ nat (n + 1)) (Some (last (?h # as))))
        else zslGetElementByRankFromNode z (last (?h # xs)) (?L - 1) (of_nat ?a + 1 + word_of_int n - of_nat ?c)) = Some (Some ?y)"
        unfolding f r by (rule if_cancel)
      have "nth_in_range z P Q n = Some (if Q ?y then Some (?y, of_nat ?a + word_of_int n + 1) else None)"
        using nth_in_range_front [OF w us True fr, of Q] False unfolding big by simp
      then show ?thesis unfolding q rk using True by (simp add: range_nth_def m_def nth_append)
    qed
  next
    case neg: False
    define m where "m = nat (- n)"
    have m: "n = - int m" "m < 2 ^ 63" "1 \<le> m" using neg n by (auto simp: m_def)
    let ?e = "?a + ?d"
    have x1: "xs = [] \<or> ?L \<le> lev z (last xs)" using x(2) by auto
    have xd: "as @ ds = xs @ (ys @ ds)" using x(1) by simp
    obtain us where us: "search z (\<lambda>y r. Q y) ?L (last (?h # xs)) (of_nat ?c) = Some us"
      "us ! 0 = (last (?h # as @ ds), of_nat ?e)"
    proof -
      let ?us = "map (\<lambda>i. (upd ?h (lev z) i (as @ ds), of_nat (pos (lev z) i (as @ ds)))) [0..<?L]"
      have s: "search z (\<lambda>y r. Q y) ?L (last (?h # xs)) (of_nat ?c) = Some ?us" by (rule search_ok [OF cd gd xd x1]) simp
      have "?us ! 0 = (last (?h # as @ ds), of_nat ?e)" using pos_zero [OF cd] L by simp
      then show ?thesis using that s by blast
    qed
    have mw: "- word_of_int n = (of_nat m :: 64 word)" by (simp add: m(1))
    have sm: "word_sless (of_nat ?e) (- word_of_int n :: 64 word) = (?e < m)"
      unfolding mw by (rule sless_of_nat) (use len ln m(2) in simp_all)
    show ?thesis
    proof (cases "?e < m")
      case True
      then have "\<not> m \<le> ?d" by simp
      moreover have "nth_in_range z P Q n = Some None"
        using nth_in_range_back [OF w us neg, of None] True unfolding sm by simp
      ultimately show ?thesis using neg by (simp add: range_nth_def m_def)
    next
      case False
      let ?y = "(as @ ds) ! (?e - m)"
      have b: "((\<lambda>x. zn_backward (node z (the x))) ^^ nat (- n - 1)) (Some (last (?h # as @ ds))) = Some ?y"
      proof -
        have "nat (- n - 1) = m - 1" "m - 1 < length (as @ ds)" "length (as @ ds) - 1 - (m - 1) = ?e - m" using m False by auto
        then show ?thesis using backward_steps [OF cd refl, of "m - 1"] by simp
      qed
      let ?diff = "of_nat ?e + 1 + word_of_int n - of_nat ?c :: 64 word"
      have r: "zslGetElementByRankFromNode z (last (?h # xs)) (?L - 1) ?diff = Some (if ?c \<le> ?e + 1 - m then Some (last (?h # take (?e + 1 - m) ns)) else None)"
      proof -
        have fr: "zslGetElementByRankFromNode z (last (?h # xs)) (?L - 1) ?diff =
            Some (if unat ?diff \<le> length (ys @ ds @ cs) then Some (last (?h # take (?c + unat ?diff) ns)) else None)"
          by (rule by_rank_from_ok [OF core]) (use ns x(1,2) len L in auto)
        show ?thesis
        proof (cases "?c \<le> ?e + 1 - m")
          case True
          have "?diff = of_nat (?e + 1 - m - ?c)" using True False by (simp add: m(1) of_nat_diff)
          moreover have "?e + 1 - m - ?c < 2 ^ 64" using len ln by simp
          ultimately have "unat ?diff = ?e + 1 - m - ?c" by (simp only: unat_of_nat_small)
          moreover have "?e + 1 - m - ?c \<le> length (ys @ ds @ cs)" using x(1) m(3) by simp
          moreover have "?c + (?e + 1 - m - ?c) = ?e + 1 - m" using True by simp
          ultimately show ?thesis unfolding fr using True by (simp only: if_True)
        next
          case lt: False
          let ?g = "?c - (?e + 1 - m)"
          have g: "?g < 2 ^ 63" "0 < ?g" using len ln lx lt by simp_all
          have "?diff = - of_nat ?g" using lt False by (simp add: m(1) of_nat_diff)
          also have "\<dots> = of_nat (2 ^ 64 - ?g)" using g(1) by (simp add: of_nat_diff)
          finally have "?diff = of_nat (2 ^ 64 - ?g)" .
          moreover have "2 ^ 64 - ?g < 2 ^ 64" using g(2) by simp
          ultimately have "unat ?diff = 2 ^ 64 - ?g" by (simp only: unat_of_nat_small)
          moreover have "\<not> 2 ^ 64 - ?g \<le> length (ys @ ds @ cs)" using g(1) len ln x(1) by simp
          ultimately show ?thesis unfolding fr using lt by (simp only: if_False)
        qed
      qed
      have yd: "?y = ds ! (?d - m)" if "m \<le> ?d"
      proof -
        have "?e - m = ?a + (?d - m)" using that by simp
        then show ?thesis by (simp only: nth_append_length_plus)
      qed
      have q: "P ?y = (m \<le> ?d)"
      proof (cases "m \<le> ?d")
        case True
        then have "?y \<in> set ds" using m(3) yd by simp
        then show ?thesis using P True by simp
      next
        case lt: False
        then have "?y \<in> set as" using False m(3) by (auto simp: nth_append)
        then show ?thesis using P lt by simp
      qed
      have rk: "of_nat ?e + word_of_int n + 1 = (of_nat (?e - m + 1) :: 64 word)" using False by (simp add: m(1) of_nat_diff)
      have lt: "last (?h # take (?e + 1 - m) ns) = ?y"
        using last_take [of "?e + 1 - m" ns ?h] False m(3) ln ns by (auto simp: nth_append)
      let ?res = "if n + 1 > - ZSKIPLIST_MAX_SEARCH \<or> ?c \<le> ?e + 1 - m then Some ?y else None"
      have fr: "(if n + 1 > - ZSKIPLIST_MAX_SEARCH then Some (((\<lambda>x. zn_backward (node z (the x))) ^^ nat (- n - 1)) (Some (last (?h # as @ ds))))
        else zslGetElementByRankFromNode z (last (?h # xs)) (?L - 1) ?diff) = Some ?res"
        unfolding b r lt by simp
      have "?c \<le> ?e + 1 - m" if "P ?y" using that lx unfolding q by simp
      then have "nth_in_range z P Q n = Some (if P ?y then Some (?y, of_nat ?e + word_of_int n + 1) else None)"
        using nth_in_range_back [OF w us neg fr] False unfolding sm by auto
      then show ?thesis unfolding q rk using neg yd by (simp add: range_nth_def m_def [symmetric])
    qed
  qed
qed

section \<open>By score\<close>

lemma core_ends:
  assumes core: "zsl_core z ns" and p: "p \<in> set ns"
  shows "zsl_tail z = Some (last ns)" "forward z (zsl_header z) 0 = Some (hd ns)"
    "zn_key z p \<le> zn_key z (last ns)" "zn_key z (hd ns) \<le> zn_key z p"
proof -
  have ne: "ns \<noteq> []" using p by auto
  then show "zsl_tail z = Some (last ns)" using core by (simp add: zsl_core_def backs_ok_def last_opt_def)
  show "forward z (zsl_header z) 0 = Some (hd ns)"
    using first_forward [of z "[]" ns] core ne by (simp add: last_opt_def last_rev)
  have so: "sorted_ok z ns" using core by (simp add: zsl_core_def)
  show "zn_key z p \<le> zn_key z (last ns)"
    using so p by (cases ns rule: rev_cases) (auto simp: sorted_ok_def sorted_wrt_append)
  show "zn_key z (hd ns) \<le> zn_key z p" using so p by (cases ns) (auto simp: sorted_ok_def)
qed

lemma zslIsInRange_if:
  assumes core: "zsl_core z ns" and p: "p \<in> set ns" "in_range spec (zn_key z p)"
  shows "zslIsInRange z spec"
proof -
  note e = core_ends [OF core p(1)]
  have "zn_score (node z p) \<le> zn_score (node z (last ns))" "zn_score (node z (hd ns)) \<le> zn_score (node z p)"
    using e(3,4) by (auto simp: zn_key_def)
  then show ?thesis using e(1,2) p(2)
    by (auto simp: zslIsInRange_def in_range_def zn_key_def zslValueGteMin_def zslValueLteMax_def split: if_splits)
qed

lemma below_min_lte_max:
  "zslIsInRange z spec \<Longrightarrow> \<not> zslValueGteMin v spec \<Longrightarrow> zslValueLteMax v spec"
  by (auto simp: zslIsInRange_def zslValueGteMin_def zslValueLteMax_def split: if_splits)

text \<open>Both functions of the code are the search under the same kind of split.\<close>

lemma nth_range_split:
  assumes core: "zsl_core z ns" and len: "length ns < 2 ^ 63"
    and sp: "ns = as @ ds @ cs" "\<forall>p\<in>set as. \<not> P p" "\<forall>p\<in>set ds. P p \<and> Q p" "\<forall>p\<in>set cs. P p \<and> \<not> Q p"
    and some: "\<And>p. p \<in> set ns \<Longrightarrow> P p \<Longrightarrow> Q p \<Longrightarrow> B" and low: "\<And>p. B \<Longrightarrow> \<not> P p \<Longrightarrow> Q p"
    and R: "\<And>p. R p \<longleftrightarrow> P p \<and> Q p"
  shows "\<exists>as cs. ns = as @ filter R ns @ cs \<and> (\<forall>p\<in>set as. \<not> P p) \<and> (\<forall>p\<in>set cs. \<not> Q p) \<and>
    (\<forall>n. - (2 ^ 63) < n \<and> n < 2 ^ 63 \<longrightarrow>
       (if \<not> B then Some None else nth_in_range z P Q n) = Some (range_nth as (filter R ns) n))"
proof -
  have "filter (\<lambda>p. P p \<and> Q p) ns = ds" by (rule filter_two(1) [OF sp(1)]) (use sp in auto)
  then have f: "filter R ns = ds" using R by (simp add: fun_eq_iff [of R] cong: filter_cong)
  have "(if \<not> B then Some None else nth_in_range z P Q n) = Some (range_nth as ds n)" if n: "- (2 ^ 63) < n" "n < 2 ^ 63" for n
  proof (cases B)
    case True
    then have "nth_in_range z P Q n = Some (range_nth as ds n)"
      using sp low by (intro nth_in_range_ok [OF core len sp(1) _ _ _ n]) auto
    then show ?thesis using True by simp
  next
    case False
    have "ds = []"
    proof (rule ccontr)
      assume "ds \<noteq> []"
      then obtain p where "p \<in> set ds" by (cases ds) auto
      then show False using some [of p] sp(1,3) False by auto
    qed
    then show ?thesis using False by (simp add: range_nth_def)
  qed
  moreover have "\<forall>p\<in>set cs. \<not> Q p" using sp(4) by blast
  ultimately show ?thesis using f sp(1,2) by blast
qed

lemma zslNthInRange_ok:
  assumes core: "zsl_core z ns" and len: "length ns < 2 ^ 63"
  shows "\<exists>as cs. ns = as @ filter (\<lambda>p. in_range spec (zn_key z p)) ns @ cs \<and>
    (\<forall>p\<in>set as. \<not> zslValueGteMin (fst (zn_key z p)) spec) \<and> (\<forall>p\<in>set cs. \<not> zslValueLteMax (fst (zn_key z p)) spec) \<and>
    (\<forall>n. - (2 ^ 63) < n \<and> n < 2 ^ 63 \<longrightarrow>
       zslNthInRange z spec n = Some (range_nth as (filter (\<lambda>p. in_range spec (zn_key z p)) ns) n))"
proof -
  obtain as ds cs where sp: "ns = as @ ds @ cs" "\<forall>p\<in>set as. \<not> zslValueGteMin (fst (zn_key z p)) spec"
    "\<forall>p\<in>set ds. zslValueGteMin (fst (zn_key z p)) spec \<and> zslValueLteMax (fst (zn_key z p)) spec"
    "\<forall>p\<in>set cs. zslValueGteMin (fst (zn_key z p)) spec \<and> \<not> zslValueLteMax (fst (zn_key z p)) spec"
    using score_split [OF core] by blast
  have k: "zn_score (node z p) = fst (zn_key z p)" for p by (simp add: zn_key_def)
  have "zslIsInRange z spec" if "p \<in> set ns" "zslValueGteMin (fst (zn_key z p)) spec" "zslValueLteMax (fst (zn_key z p)) spec" for p
    using zslIsInRange_if [OF core that(1)] that(2,3) by (simp add: in_range_def)
  then have "\<exists>as cs. ns = as @ filter (\<lambda>p. in_range spec (zn_key z p)) ns @ cs \<and>
    (\<forall>p\<in>set as. \<not> zslValueGteMin (fst (zn_key z p)) spec) \<and> (\<forall>p\<in>set cs. \<not> zslValueLteMax (fst (zn_key z p)) spec) \<and>
    (\<forall>n. - (2 ^ 63) < n \<and> n < 2 ^ 63 \<longrightarrow> (if \<not> zslIsInRange z spec then Some None
     else nth_in_range z (\<lambda>p. zslValueGteMin (fst (zn_key z p)) spec) (\<lambda>p. zslValueLteMax (fst (zn_key z p)) spec) n) =
      Some (range_nth as (filter (\<lambda>p. in_range spec (zn_key z p)) ns) n))"
    by (intro nth_range_split [OF core len sp]) (auto simp: in_range_def intro: below_min_lte_max)
  then show ?thesis unfolding zslNthInRange_def k by blast
qed

section \<open>By element\<close>

text \<open>The order of the bounds.\<close>

fun lex_key :: "lex_bound \<Rightarrow> nat \<times> bytes" where
  "lex_key Minstring = (0, [])"
| "lex_key (Lex s) = (1, s)"
| "lex_key Maxstring = (2, [])"

lemma sdscmplex_key:
  "sdscmplex a b < 0 \<longleftrightarrow> lex_key a < lex_key b" "sdscmplex a b = 0 \<longleftrightarrow> lex_key a = lex_key b"
  "sdscmplex a b > 0 \<longleftrightarrow> lex_key b < lex_key a"
proof -
  have "(sdscmplex a b < 0) = (lex_key a < lex_key b) \<and> (sdscmplex a b = 0) = (lex_key a = lex_key b) \<and>
      (sdscmplex a b > 0) = (lex_key b < lex_key a)"
  proof (cases "\<exists>s t. a = Lex s \<and> b = Lex t")
    case True
    then obtain s t where st: "a = Lex s" "b = Lex t" by blast
    have "sdscmplex a b = sdscmp s t" using sdscmp_eq [of s t] st by (auto simp: sdscmplex.simps)
    then show ?thesis using st sdscmp_less [of s t] sdscmp_eq [of s t] sdscmp_greater [of s t] by simp
  next
    case False
    then show ?thesis by (cases a; cases b) (simp_all add: sdscmplex.simps)
  qed
  then show "sdscmplex a b < 0 \<longleftrightarrow> lex_key a < lex_key b" "sdscmplex a b = 0 \<longleftrightarrow> lex_key a = lex_key b"
    "sdscmplex a b > 0 \<longleftrightarrow> lex_key b < lex_key a" by blast+
qed

lemma lex_tests:
  "zslLexValueGteMin v spec =
     (if zlr_minex spec then lex_key (zlr_min spec) < lex_key (Lex v) else lex_key (zlr_min spec) \<le> lex_key (Lex v))"
  "zslLexValueLteMax v spec =
     (if zlr_maxex spec then lex_key (Lex v) < lex_key (zlr_max spec) else lex_key (Lex v) \<le> lex_key (zlr_max spec))"
  using sdscmplex_key(1,3) [of "Lex v" "zlr_min spec"] sdscmplex_key(1,3) [of "Lex v" "zlr_max spec"]
  unfolding zslLexValueGteMin_def zslLexValueLteMax_def by (simp_all add: not_less [symmetric])

lemma zslIsInLexRange_if:
  assumes core: "zsl_core z ns" and one: "\<forall>p\<in>set ns. zn_score (node z p) = s" and p: "p \<in> set ns" "in_lex_range spec (zn_key z p)"
  shows "zslIsInLexRange z spec"
proof -
  note e = core_ends [OF core p(1)]
  have m: "hd ns \<in> set ns" "last ns \<in> set ns" using p(1) by (cases ns; auto)+
  have "lex_key (Lex (zn_ele (node z p))) \<le> lex_key (Lex (zn_ele (node z (last ns))))"
    "lex_key (Lex (zn_ele (node z (hd ns)))) \<le> lex_key (Lex (zn_ele (node z p)))"
    using e(3,4) bspec [OF one m(1)] bspec [OF one m(2)] bspec [OF one p(1)] by (auto simp: zn_key_def)
  then show ?thesis using e(1,2) p(2)
    unfolding zslIsInLexRange_def in_lex_range_def Let_def lex_tests sdscmplex_key
    by (auto simp: zn_key_def zslGetNodeElement_def simp del: lex_key.simps split: if_splits)
qed

lemma below_lex_min_lte_max:
  "zslIsInLexRange z spec \<Longrightarrow> \<not> zslLexValueGteMin v spec \<Longrightarrow> zslLexValueLteMax v spec"
  unfolding zslIsInLexRange_def Let_def lex_tests sdscmplex_key by (auto simp del: lex_key.simps split: if_splits)

lemma zslNthInLexRange_ok:
  assumes core: "zsl_core z ns" and len: "length ns < 2 ^ 63"
    and one: "\<forall>p\<in>set ns. zn_score (node z p) = s"
  shows "\<exists>as cs. ns = as @ filter (\<lambda>p. in_lex_range spec (zn_key z p)) ns @ cs \<and>
    (\<forall>p\<in>set as. \<not> zslLexValueGteMin (snd (zn_key z p)) spec) \<and> (\<forall>p\<in>set cs. \<not> zslLexValueLteMax (snd (zn_key z p)) spec) \<and>
    (\<forall>n. - (2 ^ 63) < n \<and> n < 2 ^ 63 \<longrightarrow>
       zslNthInLexRange z spec n = Some (range_nth as (filter (\<lambda>p. in_lex_range spec (zn_key z p)) ns) n))"
proof -
  obtain as ds cs where sp: "ns = as @ ds @ cs" "\<forall>p\<in>set as. \<not> zslLexValueGteMin (snd (zn_key z p)) spec"
    "\<forall>p\<in>set ds. zslLexValueGteMin (snd (zn_key z p)) spec \<and> zslLexValueLteMax (snd (zn_key z p)) spec"
    "\<forall>p\<in>set cs. zslLexValueGteMin (snd (zn_key z p)) spec \<and> \<not> zslLexValueLteMax (snd (zn_key z p)) spec"
    using lex_split [OF core one] by blast
  have k: "zslGetNodeElement z p = snd (zn_key z p)" for p by (simp add: zn_key_def zslGetNodeElement_def)
  have "zslIsInLexRange z spec"
    if "p \<in> set ns" "zslLexValueGteMin (snd (zn_key z p)) spec" "zslLexValueLteMax (snd (zn_key z p)) spec" for p
    using zslIsInLexRange_if [OF core one that(1)] that(2,3) by (simp add: in_lex_range_def)
  then have "\<exists>as cs. ns = as @ filter (\<lambda>p. in_lex_range spec (zn_key z p)) ns @ cs \<and>
    (\<forall>p\<in>set as. \<not> zslLexValueGteMin (snd (zn_key z p)) spec) \<and> (\<forall>p\<in>set cs. \<not> zslLexValueLteMax (snd (zn_key z p)) spec) \<and>
    (\<forall>n. - (2 ^ 63) < n \<and> n < 2 ^ 63 \<longrightarrow> (if \<not> zslIsInLexRange z spec then Some None
     else nth_in_range z (\<lambda>p. zslLexValueGteMin (snd (zn_key z p)) spec) (\<lambda>p. zslLexValueLteMax (snd (zn_key z p)) spec) n) =
      Some (range_nth as (filter (\<lambda>p. in_lex_range spec (zn_key z p)) ns) n))"
    by (intro nth_range_split [OF core len sp]) (auto simp: in_lex_range_def intro: below_lex_min_lte_max)
  then show ?thesis unfolding zslNthInLexRange_def k by blast
qed

end
