(* ===== verification/Zset.thy ===== *)
theory Zset
  imports Zsl_Nth
begin

unbundle bit_operations_syntax

text \<open>
  Sorted sets in their large encoding, \<open>t_zset.c\<close>: a dict from elements to nodes beside the skip list of the
  nodes. The dict is the finite map that \<open>Dict_Map\<close> shows the hash table to be. A score that comes in is \<open>None\<close>
  when it is not a number, and \<open>add\<close> adds scores with the same meaning of \<open>None\<close>. What a command emits is the list
  of elements with their scores. \<open>None\<close> for a whole operation is a loop that does not end or a failed assertion.
\<close>

record 's zset =
  zs_dict :: "bytes \<Rightarrow> addr option"
  zs_zsl :: "'s zskiplist"

section \<open>One element\<close>

definition ZADD_IN_INCR :: int where "ZADD_IN_INCR = 1"
definition ZADD_IN_NX :: int where "ZADD_IN_NX = 2"
definition ZADD_IN_XX :: int where "ZADD_IN_XX = 4"
definition ZADD_IN_GT :: int where "ZADD_IN_GT = 8"
definition ZADD_IN_LT :: int where "ZADD_IN_LT = 16"

definition ZADD_OUT_NOP :: int where "ZADD_OUT_NOP = 1"
definition ZADD_OUT_NAN :: int where "ZADD_OUT_NAN = 2"
definition ZADD_OUT_ADDED :: int where "ZADD_OUT_ADDED = 4"
definition ZADD_OUT_UPDATED :: int where "ZADD_OUT_UPDATED = 8"

definition createZsetObject :: "addr \<Rightarrow> 's::zero zset" where
  "createZsetObject h = \<lparr>zs_dict = (\<lambda>e. None), zs_zsl = zslCreate h\<rparr>"

definition zsetLength :: "'s zset \<Rightarrow> 64 word" where
  "zsetLength zs = zsl_length (zs_zsl zs)"

definition zsetScore :: "'s zset \<Rightarrow> bytes \<Rightarrow> 's option" where
  "zsetScore zs member =
     (case zs_dict zs member of
        None \<Rightarrow> None
      | Some znode \<Rightarrow> Some (zn_score (node (zs_zsl zs) znode)))"

text \<open>The set afterwards, the output flags, the return value and the new score when one is stored. A new node
  gets the address \<open>p\<close> and \<open>level\<close> levels.\<close>

definition zsetAdd ::
  "('s::linorder \<Rightarrow> 's \<Rightarrow> 's option) \<Rightarrow> 's zset \<Rightarrow> addr \<Rightarrow> nat \<Rightarrow> 's option \<Rightarrow> bytes \<Rightarrow> int \<Rightarrow>
   ('s zset \<times> int \<times> bool \<times> 's option) option" where
  "zsetAdd add zs p level score ele in_flags =
     (let incr = in_flags AND ZADD_IN_INCR \<noteq> 0; nx = in_flags AND ZADD_IN_NX \<noteq> 0; xx = in_flags AND ZADD_IN_XX \<noteq> 0;
          gt = in_flags AND ZADD_IN_GT \<noteq> 0; lt = in_flags AND ZADD_IN_LT \<noteq> 0 in
      case score of
        None \<Rightarrow> Some (zs, ZADD_OUT_NAN, False, None)
      | Some score \<Rightarrow>
          (case zs_dict zs ele of
             Some znode \<Rightarrow>
               if nx then Some (zs, ZADD_OUT_NOP, True, None)
               else
                 let curscore = zn_score (node (zs_zsl zs) znode) in
                 (case if incr then add score curscore else Some score of
                    None \<Rightarrow> Some (zs, ZADD_OUT_NAN, False, None)
                  | Some score \<Rightarrow>
                      if lt \<and> score \<ge> curscore \<or> gt \<and> score \<le> curscore then Some (zs, ZADD_OUT_NOP, True, None)
                      else if score \<noteq> curscore then
                        do { z \<leftarrow> zslUpdateScore (zs_zsl zs) znode score;
                             Some (zs\<lparr>zs_zsl := z\<rparr>, ZADD_OUT_UPDATED, True, Some score) }
                      else Some (zs, 0, True, Some score))
           | None \<Rightarrow>
               if \<not> xx then
                 do { z \<leftarrow> zslInsert (zs_zsl zs) p level score ele;
                      Some (zs\<lparr>zs_zsl := z, zs_dict := (zs_dict zs)(ele \<mapsto> p)\<rparr>, ZADD_OUT_ADDED, True, Some score) }
               else Some (zs, ZADD_OUT_NOP, True, None)))"

definition zsetRemoveFromSkiplist :: "'s::linorder zset \<Rightarrow> bytes \<Rightarrow> ('s zset \<times> bool) option" where
  "zsetRemoveFromSkiplist zs ele =
     (case zs_dict zs ele of
        Some znode \<Rightarrow>
          do { z \<leftarrow> zslDelete (zs_zsl zs) znode;
               Some (zs\<lparr>zs_dict := (zs_dict zs)(ele := None), zs_zsl := z\<rparr>, True) }
      | None \<Rightarrow> Some (zs, False))"

definition zsetDel :: "'s::linorder zset \<Rightarrow> bytes \<Rightarrow> ('s zset \<times> bool) option" where
  "zsetDel zs ele = zsetRemoveFromSkiplist zs ele"

text \<open>The rank from either end and the score; -1 when there is no such element.\<close>

definition zsetRank :: "'s zset \<Rightarrow> bytes \<Rightarrow> bool \<Rightarrow> (int \<times> 's option) option" where
  "zsetRank zs ele reverse =
     (let llen = zsetLength zs in
      case zs_dict zs ele of
        Some n \<Rightarrow>
          do { rank \<leftarrow> zslGetRankByNode (zs_zsl zs) n;
               if rank = 0 then None
               else Some (sint (if reverse then llen - rank else rank - 1), Some (zn_score (node (zs_zsl zs) n))) }
      | None \<Rightarrow> Some (- 1, None))"

text \<open>The copy of a set, from its last element on; addresses and levels of the new nodes are given.\<close>

fun dup_loop :: "'s::linorder zskiplist \<Rightarrow> 's zset \<Rightarrow> (addr \<times> nat) list \<Rightarrow> addr option \<Rightarrow> 's zset option" where
  "dup_loop zsl new_zs [] ln = Some new_zs"
| "dup_loop zsl new_zs ((p, level) # ps) ln =
     (let y = the ln; ele = zslGetNodeElement zsl y in
      do { z \<leftarrow> zslInsert (zs_zsl new_zs) p level (zn_score (node zsl y)) ele;
           dup_loop zsl (new_zs\<lparr>zs_zsl := z, zs_dict := (zs_dict new_zs)(ele \<mapsto> p)\<rparr>) ps (zn_backward (node zsl y)) })"

definition zsetDup :: "'s::{linorder,zero} zset \<Rightarrow> addr \<Rightarrow> (nat \<Rightarrow> addr \<times> nat) \<Rightarrow> 's zset option" where
  "zsetDup zs h ps = dup_loop (zs_zsl zs) (createZsetObject h) (map ps [0..<unat (zsetLength zs)]) (zsl_tail (zs_zsl zs))"

section \<open>Ranges\<close>

text \<open>Negative indexes count from the end; the pair is of the first and the last index, if the range is not empty.\<close>

definition sanitize_indexes :: "int \<Rightarrow> int \<Rightarrow> int \<Rightarrow> (int \<times> int) option" where
  "sanitize_indexes llen start en =
     (let start = (if start < 0 then llen + start else start);
          en = (if en < 0 then llen + en else en);
          start = (if start < 0 then 0 else start) in
      if start > en \<or> start \<ge> llen then None else Some (start, if en \<ge> llen then llen - 1 else en))"

text \<open>The loop over \<open>rangelen\<close> nodes, with the assertion that there is one.\<close>

fun emit_nodes :: "'s zskiplist \<Rightarrow> bool \<Rightarrow> nat \<Rightarrow> addr option \<Rightarrow> (bytes \<times> 's) list option" where
  "emit_nodes z reverse 0 ln = Some []"
| "emit_nodes z reverse (Suc rangelen) ln =
     (case ln of
        None \<Rightarrow> None
      | Some y \<Rightarrow>
          do { rest \<leftarrow> emit_nodes z reverse rangelen (if reverse then zn_backward (node z y) else forward z y 0);
               Some ((zslGetNodeElement z y, zn_score (node z y)) # rest) })"

definition genericZrangebyrankCommand :: "'s zset \<Rightarrow> int \<Rightarrow> int \<Rightarrow> bool \<Rightarrow> (bytes \<times> 's) list option" where
  "genericZrangebyrankCommand zs start en reverse =
     (let llen = sint (zsetLength zs); zsl = zs_zsl zs in
      case sanitize_indexes llen start en of
        None \<Rightarrow> Some []
      | Some (start, en) \<Rightarrow>
          let rangelen = en - start + 1 in
          do { ln \<leftarrow> (if reverse then
                         if start > 0 then zslGetElementByRank zsl (word_of_int (llen - start)) else Some (zsl_tail zsl)
                       else
                         if start > 0 then zslGetElementByRank zsl (word_of_int (start + 1))
                         else Some (forward zsl (zsl_header zsl) 0));
               emit_nodes zsl reverse (nat rangelen) ln })"

text \<open>The loop over at most \<open>limit\<close> nodes, all for a negative one, until the end of the range.\<close>

partial_function (option) emit_while ::
  "'s zskiplist \<Rightarrow> bool \<Rightarrow> (addr \<Rightarrow> bool) \<Rightarrow> int \<Rightarrow> addr option \<Rightarrow> (bytes \<times> 's) list option" where
  "emit_while z reverse go limit ln =
     (case ln of
        None \<Rightarrow> Some []
      | Some y \<Rightarrow>
          if limit = 0 \<or> \<not> go y then Some []
          else
            do { rest \<leftarrow> emit_while z reverse go (limit - 1) (if reverse then zn_backward (node z y) else forward z y 0);
                 Some ((zslGetNodeElement z y, zn_score (node z y)) # rest) })"

definition genericZrangebyscoreCommand ::
  "'s::linorder zset \<Rightarrow> 's zrangespec \<Rightarrow> int \<Rightarrow> int \<Rightarrow> bool \<Rightarrow> (bytes \<times> 's) list option" where
  "genericZrangebyscoreCommand zs spec offset limit reverse =
     (let zsl = zs_zsl zs in
      if offset < 0 \<or> offset > 0 \<and> offset \<ge> sint (zsetLength zs) then Some []
      else
        do { ln \<leftarrow> zslNthInRange zsl spec (if reverse then - offset - 1 else offset);
             emit_while zsl reverse
               (\<lambda>y. if reverse then zslValueGteMin (zn_score (node zsl y)) spec else zslValueLteMax (zn_score (node zsl y)) spec)
               limit (map_option fst ln) })"

definition genericZrangebylexCommand ::
  "'s::linorder zset \<Rightarrow> zlexrangespec \<Rightarrow> int \<Rightarrow> int \<Rightarrow> bool \<Rightarrow> (bytes \<times> 's) list option" where
  "genericZrangebylexCommand zs spec offset limit reverse =
     (let zsl = zs_zsl zs in
      if offset < 0 \<or> offset > 0 \<and> offset \<ge> sint (zsetLength zs) then Some []
      else
        do { ln \<leftarrow> zslNthInLexRange zsl spec (if reverse then - offset - 1 else offset);
             emit_while zsl reverse
               (\<lambda>y. if reverse then zslLexValueGteMin (zslGetNodeElement zsl y) spec
                    else zslLexValueLteMax (zslGetNodeElement zsl y) spec)
               limit (map_option fst ln) })"

text \<open>The two counts of the code differ in the search only.\<close>

definition count_range :: "'s zskiplist \<Rightarrow> (int \<Rightarrow> (addr \<times> 64 word) option option) \<Rightarrow> 64 word option" where
  "count_range zsl nth_node =
     do { zn \<leftarrow> nth_node 0;
          case zn of
            None \<Rightarrow> Some 0
          | Some (y, rank) \<Rightarrow>
              let count = zsl_length zsl - (rank - 1) in
              do { zn \<leftarrow> nth_node (- 1);
                   case zn of
                     None \<Rightarrow> Some count
                   | Some (y, rank) \<Rightarrow> Some (count - (zsl_length zsl - rank)) } }"

definition zcountCommand :: "'s::linorder zset \<Rightarrow> 's zrangespec \<Rightarrow> 64 word option" where
  "zcountCommand zs spec = count_range (zs_zsl zs) (zslNthInRange (zs_zsl zs) spec)"

definition zlexcountCommand :: "'s::linorder zset \<Rightarrow> zlexrangespec \<Rightarrow> 64 word option" where
  "zlexcountCommand zs spec = count_range (zs_zsl zs) (zslNthInLexRange (zs_zsl zs) spec)"

text \<open>Removal of a range, the number of elements removed with it. The deletion takes the elements out of the dict.
  The indexes of a range by rank are converted to 32 bits.\<close>

datatype 's zrange = Zrange_rank int int | Zrange_score "'s zrangespec" | Zrange_lex zlexrangespec

definition drop_deleted :: "'s zset \<Rightarrow> ('s zskiplist \<times> bytes list) option \<Rightarrow> ('s zset \<times> nat) option" where
  "drop_deleted zs r =
     do { (z, deleted) \<leftarrow> r;
          Some (zs\<lparr>zs_zsl := z, zs_dict := fold (\<lambda>e d. d(e := None)) deleted (zs_dict zs)\<rparr>, length deleted) }"

definition zremrangeGenericCommand :: "'s::linorder zset \<Rightarrow> 's zrange \<Rightarrow> ('s zset \<times> nat) option" where
  "zremrangeGenericCommand zs ty =
     (case ty of
        Zrange_rank start en \<Rightarrow>
          (case sanitize_indexes (sint (zsetLength zs)) start en of
             None \<Rightarrow> Some (zs, 0)
           | Some (start, en) \<Rightarrow>
               drop_deleted zs (zslDeleteRangeByRank (zs_zsl zs) (word_of_int (start + 1)) (word_of_int (en + 1))))
      | Zrange_score spec \<Rightarrow> drop_deleted zs (zslDeleteRangeByScore (zs_zsl zs) spec)
      | Zrange_lex spec \<Rightarrow> drop_deleted zs (zslDeleteRangeByLex (zs_zsl zs) spec))"

end
