(* ===== verification/Zset_Ops.thy ===== *)
theory Zset_Ops
  imports Zset
begin

text \<open>
  The dict and the skip list of a sorted set hold the same elements: every operation keeps this, and does to the map
  from elements to scores what it promises. The list of nodes is the sorted list of this map's entries.
\<close>

section \<open>The invariant and the map\<close>

definition zset_inv :: "'s::linorder zset \<Rightarrow> addr list \<Rightarrow> bool" where
  "zset_inv zs ns \<longleftrightarrow> zsl_inv (zs_zsl zs) ns \<and>
     (\<forall>e p. zs_dict zs e = Some p \<longleftrightarrow> p \<in> set ns \<and> snd (zn_key (zs_zsl zs) p) = e)"

definition zset_map :: "'s zset \<Rightarrow> bytes \<Rightarrow> 's option" where
  "zset_map zs = zsetScore zs"

text \<open>The entries of a map in the order of scores and, for equal scores, of elements.\<close>

definition entries :: "(bytes \<Rightarrow> 's::linorder option) \<Rightarrow> ('s \<times> bytes) list" where
  "entries m = sorted_list_of_set {(s, e). m e = Some s}"

lemma zset_inv_core: "zset_inv zs ns \<Longrightarrow> zsl_core (zs_zsl zs) ns"
  by (simp add: zset_inv_def zsl_inv_def)

lemma zset_map_key: "zset_map zs e = map_option (\<lambda>p. fst (zn_key (zs_zsl zs) p)) (zs_dict zs e)"
  by (simp add: zset_map_def zsetScore_def zn_key_def split: option.splits)

lemma zset_map_iff:
  assumes "zset_inv zs ns"
  shows "zset_map zs e = Some s \<longleftrightarrow> (s, e) \<in> zn_key (zs_zsl zs) ` set ns"
proof
  assume "zset_map zs e = Some s"
  then obtain p where "zs_dict zs e = Some p" "fst (zn_key (zs_zsl zs) p) = s" by (auto simp: zset_map_key)
  then show "(s, e) \<in> zn_key (zs_zsl zs) ` set ns" using assms by (force simp: zset_inv_def)
next
  assume "(s, e) \<in> zn_key (zs_zsl zs) ` set ns"
  then obtain p where "p \<in> set ns" "zn_key (zs_zsl zs) p = (s, e)" by force
  moreover from this have "zs_dict zs e = Some p" using assms by (simp add: zset_inv_def)
  ultimately show "zset_map zs e = Some s" by (simp add: zset_map_key)
qed

lemma zset_entries:
  assumes inv: "zset_inv zs ns"
  shows "entries (zset_map zs) = map (zn_key (zs_zsl zs)) ns"
proof -
  have "{(s, e). zset_map zs e = Some s} = set (map (zn_key (zs_zsl zs)) ns)" using zset_map_iff [OF inv] by auto
  moreover have "sorted_wrt (<) (map (zn_key (zs_zsl zs)) ns)"
    using zset_inv_core [OF inv] by (simp add: zsl_core_def sorted_ok_def sorted_wrt_map)
  ultimately show ?thesis unfolding entries_def
    by (metis sorted_list_of_set.idem_if_sorted_distinct strict_sorted_iff)
qed

lemma zset_elements:
  assumes inv: "zset_inv zs ns"
  shows "p \<in> set ns \<Longrightarrow> q \<in> set ns \<Longrightarrow> snd (zn_key (zs_zsl zs) p) = snd (zn_key (zs_zsl zs) q) \<Longrightarrow> p = q"
  using inv unfolding zset_inv_def by (metis option.inject)

lemma zset_find:
  assumes inv: "zset_inv zs ns" and d: "zs_dict zs e = Some n"
  obtains as bs where "ns = as @ n # bs" "zn_ele (node (zs_zsl zs) n) = e" "n \<notin> set (as @ bs)"
    "\<And>s. (s, e) \<notin> zn_key (zs_zsl zs) ` set (as @ bs)" "zset_map zs e = Some (zn_score (node (zs_zsl zs) n))"
proof -
  have n: "n \<in> set ns" "snd (zn_key (zs_zsl zs) n) = e" using inv d by (auto simp: zset_inv_def)
  from split_list [OF n(1)] obtain as bs where s: "ns = as @ n # bs" by blast
  have nn: "n \<notin> set (as @ bs)" using core_node(2,3) [of "zs_zsl zs" as n bs] zset_inv_core [OF inv] s by simp
  moreover have "(s, e) \<notin> zn_key (zs_zsl zs) ` set (as @ bs)" for s
  proof
    assume "(s, e) \<in> zn_key (zs_zsl zs) ` set (as @ bs)"
    then obtain p where p: "p \<in> set (as @ bs)" "zn_key (zs_zsl zs) p = (s, e)" by force
    then have "p \<in> set ns" using s by auto
    then have "p = n" using zset_elements [OF inv _ n(1)] n(2) p(2) by simp
    then show False using nn p(1) by blast
  qed
  moreover have "zset_map zs e = Some (zn_score (node (zs_zsl zs) n))" using d by (simp add: zset_map_key zn_key_def)
  ultimately show ?thesis using that s n(2) by (simp add: zn_key_def)
qed

section \<open>Creation and the operations on one element\<close>

lemma zset_create: "zset_inv (createZsetObject h :: 's::{linorder,zero} zset) []"
  by (simp add: zset_inv_def createZsetObject_def zslCreate_inv)

lemma zset_insert:
  assumes inv: "zset_inv zs ns" and d: "zs_dict zs ele = None" and p: "p \<notin> dom (zsl_heap (zs_zsl zs))"
    and l: "1 \<le> level" "level \<le> ZSKIPLIST_MAXLEVEL"
  shows "\<exists>z ns'. zslInsert (zs_zsl zs) p level score ele = Some z \<and>
    zset_inv (zs\<lparr>zs_zsl := z, zs_dict := (zs_dict zs)(ele \<mapsto> p)\<rparr>) ns' \<and>
    zset_map (zs\<lparr>zs_zsl := z, zs_dict := (zs_dict zs)(ele \<mapsto> p)\<rparr>) = (zset_map zs)(ele \<mapsto> score) \<and>
    dom (zsl_heap z) = insert p (dom (zsl_heap (zs_zsl zs)))"
proof -
  let ?z = "zs_zsl zs"
  have el: "snd (zn_key ?z q) \<noteq> ele" if "q \<in> set ns" for q
  proof
    assume "snd (zn_key ?z q) = ele"
    then have "zs_dict zs ele = Some q" using inv that by (simp add: zset_inv_def)
    then show False using d by simp
  qed
  then have new: "(score, ele) \<notin> zn_key ?z ` set ns" by (metis imageE snd_conv)
  have "sorted_ok ?z ns" using zset_inv_core [OF inv] by (simp add: zsl_core_def)
  from split_at_key [OF this new] obtain as bs where s: "ns = as @ bs" "\<forall>q\<in>set as. zn_key ?z q < (score, ele)"
    "\<forall>q\<in>set bs. (score, ele) < zn_key ?z q" by blast
  have zi: "zsl_inv ?z (as @ bs)" using inv s(1) by (simp add: zset_inv_def)
  obtain z where z: "zslInsert ?z p level score ele = Some z" "zsl_inv z (as @ p # bs)" "zn_key z = (zn_key ?z)(p := (score, ele))"
    "zsl_header z = zsl_header ?z"
    using zslInsert_ok [OF zi p l s(2,3)] by blast
  let ?zs = "zs\<lparr>zs_zsl := z, zs_dict := (zs_dict zs)(ele \<mapsto> p)\<rparr>"
  have pn: "p \<notin> set ns" using p inv by (auto simp: zset_inv_def zsl_inv_def)
  have "zset_inv ?zs (as @ p # bs)"
    using inv z(2,3) pn el s(1) by (auto simp: zset_inv_def)
  moreover have "zset_map ?zs = (zset_map zs)(ele \<mapsto> score)"
  proof
    fix e
    have "q \<noteq> p" if "zs_dict zs e = Some q" for q using that inv pn by (auto simp: zset_inv_def)
    then show "zset_map ?zs e = ((zset_map zs)(ele \<mapsto> score)) e"
      using z(3) by (cases "zs_dict zs e") (auto simp: zset_map_key)
  qed
  moreover have "dom (zsl_heap z) = insert p (dom (zsl_heap ?z))" using z(2,4) zi by (auto simp: zsl_inv_def)
  ultimately show ?thesis using z(1) by blast
qed

lemma zset_update:
  assumes inv: "zset_inv zs ns" and d: "zs_dict zs ele = Some n"
  shows "\<exists>z ns'. zslUpdateScore (zs_zsl zs) n score = Some z \<and> zset_inv (zs\<lparr>zs_zsl := z\<rparr>) ns' \<and>
    zset_map (zs\<lparr>zs_zsl := z\<rparr>) = (zset_map zs)(ele \<mapsto> score)"
proof -
  let ?z = "zs_zsl zs"
  obtain as bs where f: "ns = as @ n # bs" "zn_ele (node ?z n) = ele" "n \<notin> set (as @ bs)"
    "\<And>s. (s, ele) \<notin> zn_key ?z ` set (as @ bs)" using zset_find [OF inv d] by blast
  have zi: "zsl_inv ?z (as @ n # bs)" using inv f(1) by (simp add: zset_inv_def)
  have "(score, zn_ele (node ?z n)) \<notin> zn_key ?z ` set (as @ bs)" using f(2,4) by simp
  from zslUpdateScore_ok [OF zi this] obtain z as' bs' where z: "zslUpdateScore ?z n score = Some z"
    "as' @ bs' = as @ bs" "zsl_inv z (as' @ n # bs')" "zn_key z = (zn_key ?z)(n := (score, ele))" using f(2) by auto
  have st: "set (as' @ n # bs') = set ns" using arg_cong [OF z(2), of set] f(1) by auto
  have el: "snd (zn_key z p) = snd (zn_key ?z p)" for p using z(4) f(2) by (simp add: zn_key_def)
  have "zset_inv (zs\<lparr>zs_zsl := z\<rparr>) (as' @ n # bs')" using inv z(3) el unfolding zset_inv_def st by simp
  moreover have "zset_map (zs\<lparr>zs_zsl := z\<rparr>) = (zset_map zs)(ele \<mapsto> score)"
  proof
    fix e
    have "zs_dict zs e = Some n \<longleftrightarrow> e = ele" using inv d f(2) by (auto simp: zset_inv_def zn_key_def)
    then show "zset_map (zs\<lparr>zs_zsl := z\<rparr>) e = ((zset_map zs)(ele \<mapsto> score)) e"
      using z(4) by (cases "zs_dict zs e") (auto simp: zset_map_key)
  qed
  ultimately show ?thesis using z(1) by blast
qed

lemma zset_delete:
  assumes inv: "zset_inv zs ns"
  shows "\<exists>zs' ns'. zsetDel zs ele = Some (zs', zset_map zs ele \<noteq> None) \<and> zset_inv zs' ns' \<and>
    zset_map zs' = (zset_map zs)(ele := None)"
proof (cases "zs_dict zs ele")
  case None
  then have "zset_map zs ele = None" by (simp add: zset_map_key)
  then show ?thesis using None inv by (auto simp: zsetDel_def zsetRemoveFromSkiplist_def fun_upd_idem)
next
  case (Some n)
  let ?z = "zs_zsl zs"
  obtain as bs where f: "ns = as @ n # bs" "zn_ele (node ?z n) = ele" "n \<notin> set (as @ bs)"
    "\<And>s. (s, ele) \<notin> zn_key ?z ` set (as @ bs)" using zset_find [OF inv Some] by blast
  have zi: "zsl_inv ?z (as @ n # bs)" using inv f(1) by (simp add: zset_inv_def)
  obtain z where z: "zslDelete ?z n = Some z" "zsl_inv z (as @ bs)" "\<And>p. p \<noteq> n \<Longrightarrow> zn_key z p = zn_key ?z p"
    using zslDelete_ok [OF zi] by blast
  let ?zs = "zs\<lparr>zs_dict := (zs_dict zs)(ele := None), zs_zsl := z\<rparr>"
  have dn: "zs_dict zs e = Some n \<longleftrightarrow> e = ele" for e using inv Some f(2) by (auto simp: zset_inv_def zn_key_def)
  have kp: "p \<noteq> n" "zn_key z p = zn_key ?z p" if "p \<in> set (as @ bs)" for p
  proof -
    show "p \<noteq> n" using that f(3) by auto
    then show "zn_key z p = zn_key ?z p" by (rule z(3))
  qed
  have "zset_inv ?zs (as @ bs)"
    unfolding zset_inv_def
  proof (intro conjI allI)
    fix e p
    show "zs_dict ?zs e = Some p \<longleftrightarrow> p \<in> set (as @ bs) \<and> snd (zn_key (zs_zsl ?zs) p) = e"
    proof (cases "p \<in> set (as @ bs)")
      case True
      have "(zs_dict zs e = Some p) = (snd (zn_key ?z p) = e)" using inv f(1) True by (auto simp: zset_inv_def)
      moreover have "snd (zn_key ?z p) \<noteq> ele" using f(4) True by (metis imageI prod.collapse)
      ultimately show ?thesis using True kp(2) [OF True] by auto
    next
      case False
      have "p = n" if "zs_dict zs e = Some p" using that inv f(1) False by (auto simp: zset_inv_def)
      then show ?thesis using False dn [of e] by auto
    qed
  qed (use z(2) in simp)
  moreover have "zset_map ?zs = (zset_map zs)(ele := None)"
  proof
    fix e
    have "p \<noteq> n" if "zs_dict zs e = Some p" "e \<noteq> ele" for p using that dn [of e] by auto
    then show "zset_map ?zs e = ((zset_map zs)(ele := None)) e"
      using z(3) by (cases "zs_dict zs e") (auto simp: zset_map_key)
  qed
  moreover have "zset_map zs ele \<noteq> None" using Some by (simp add: zset_map_key)
  ultimately show ?thesis using Some z(1) by (auto simp: zsetDel_def zsetRemoveFromSkiplist_def)
qed

text \<open>What \<open>ZADD\<close> means on the map: the new map, the output flags, the return value and the new score.\<close>

definition zadd_spec ::
  "('s::linorder \<Rightarrow> 's \<Rightarrow> 's option) \<Rightarrow> 's option \<Rightarrow> bytes \<Rightarrow> int \<Rightarrow> (bytes \<Rightarrow> 's option) \<Rightarrow>
   (bytes \<Rightarrow> 's option) \<times> int \<times> bool \<times> 's option" where
  "zadd_spec add score ele flags m =
     (let new = (if flags AND ZADD_IN_INCR \<noteq> 0 \<and> m ele \<noteq> None then Option.bind score (\<lambda>s. add s (the (m ele))) else score);
          skip = (case m ele of
                    None \<Rightarrow> flags AND ZADD_IN_XX \<noteq> 0
                  | Some cur \<Rightarrow> flags AND ZADD_IN_NX \<noteq> 0 \<or>
                      (case new of None \<Rightarrow> False
                       | Some s \<Rightarrow> flags AND ZADD_IN_LT \<noteq> 0 \<and> cur \<le> s \<or> flags AND ZADD_IN_GT \<noteq> 0 \<and> s \<le> cur)) in
      if score = None then (m, ZADD_OUT_NAN, False, None)
      else if skip then (m, ZADD_OUT_NOP, True, None)
      else if new = None then (m, ZADD_OUT_NAN, False, None)
      else
        (m(ele := new), if m ele = None then ZADD_OUT_ADDED else if m ele = new then 0 else ZADD_OUT_UPDATED, True, new))"

lemma zsetAdd_ok:
  assumes inv: "zset_inv zs ns" and p: "p \<notin> dom (zsl_heap (zs_zsl zs))" and l: "1 \<le> level" "level \<le> ZSKIPLIST_MAXLEVEL"
  shows "\<exists>zs' ns' r. zsetAdd add zs p level score ele flags = Some (zs', r) \<and> zset_inv zs' ns' \<and>
    zadd_spec add score ele flags (zset_map zs) = (zset_map zs', r)"
proof (cases score)
  case None
  then show ?thesis using inv by (auto simp: zsetAdd_def zadd_spec_def)
next
  case (Some s)
  show ?thesis
  proof (cases "zs_dict zs ele")
    case None
    then have m: "zset_map zs ele = None" by (simp add: zset_map_key)
    obtain z ns' where z: "zslInsert (zs_zsl zs) p level s ele = Some z"
      "zset_inv (zs\<lparr>zs_zsl := z, zs_dict := (zs_dict zs)(ele \<mapsto> p)\<rparr>) ns'"
      "zset_map (zs\<lparr>zs_zsl := z, zs_dict := (zs_dict zs)(ele \<mapsto> p)\<rparr>) = (zset_map zs)(ele \<mapsto> s)"
      using zset_insert [OF inv None p l, of s] by blast
    show ?thesis
    proof (cases "flags AND ZADD_IN_XX = 0")
      case True
      then have "zsetAdd add zs p level score ele flags =
          Some (zs\<lparr>zs_zsl := z, zs_dict := (zs_dict zs)(ele \<mapsto> p)\<rparr>, ZADD_OUT_ADDED, True, Some s)"
        using None Some z(1) by (simp add: zsetAdd_def)
      moreover have "zadd_spec add score ele flags (zset_map zs) = ((zset_map zs)(ele \<mapsto> s), ZADD_OUT_ADDED, True, Some s)"
        using True m Some by (simp add: zadd_spec_def Let_def)
      ultimately show ?thesis using z(2,3) by auto
    next
      case False
      then show ?thesis using None Some m inv by (auto simp: zsetAdd_def zadd_spec_def Let_def)
    qed
  next
    case d: (Some n)
    let ?cur = "zn_score (node (zs_zsl zs) n)"
    have m: "zset_map zs ele = Some ?cur" using d by (simp add: zset_map_key zn_key_def)
    then have same: "(zset_map zs)(ele \<mapsto> ?cur) = zset_map zs" by auto
    define new where "new = (if flags AND ZADD_IN_INCR \<noteq> 0 then add s ?cur else Some s)"
    define nx where "nx \<longleftrightarrow> flags AND ZADD_IN_NX \<noteq> 0"
    define skip where "skip t \<longleftrightarrow> flags AND ZADD_IN_LT \<noteq> 0 \<and> ?cur \<le> t \<or> flags AND ZADD_IN_GT \<noteq> 0 \<and> t \<le> ?cur" for t
    have code: "zsetAdd add zs p level score ele flags =
      (if nx then Some (zs, ZADD_OUT_NOP, True, None)
       else case new of None \<Rightarrow> Some (zs, ZADD_OUT_NAN, False, None)
       | Some t \<Rightarrow> if skip t then Some (zs, ZADD_OUT_NOP, True, None)
           else if t \<noteq> ?cur then do { z \<leftarrow> zslUpdateScore (zs_zsl zs) n t; Some (zs\<lparr>zs_zsl := z\<rparr>, ZADD_OUT_UPDATED, True, Some t) }
           else Some (zs, 0, True, Some t))"
      unfolding zsetAdd_def Let_def Some d new_def nx_def skip_def by (simp only: option.case)
    have spec: "zadd_spec add score ele flags (zset_map zs) =
      (if nx \<or> (case new of None \<Rightarrow> False | Some t \<Rightarrow> skip t) then (zset_map zs, ZADD_OUT_NOP, True, None)
       else if new = None then (zset_map zs, ZADD_OUT_NAN, False, None)
       else ((zset_map zs)(ele := new), if Some ?cur = new then 0 else ZADD_OUT_UPDATED, True, new))"
      unfolding zadd_spec_def Let_def Some m new_def nx_def skip_def by simp
    show ?thesis
    proof (cases "nx \<or> (case new of None \<Rightarrow> True | Some t \<Rightarrow> skip t \<or> t = ?cur)")
      case True
      then show ?thesis unfolding code spec using inv same
        by (cases new) (auto split: if_splits)
    next
      case False
      then obtain t where t: "new = Some t" "\<not> nx" "\<not> skip t" "t \<noteq> ?cur" by (cases new) auto
      obtain z ns' where z: "zslUpdateScore (zs_zsl zs) n t = Some z" "zset_inv (zs\<lparr>zs_zsl := z\<rparr>) ns'"
        "zset_map (zs\<lparr>zs_zsl := z\<rparr>) = (zset_map zs)(ele \<mapsto> t)" using zset_update [OF inv d, of t] by blast
      have "zsetAdd add zs p level score ele flags = Some (zs\<lparr>zs_zsl := z\<rparr>, ZADD_OUT_UPDATED, True, Some t)"
        unfolding code using t z(1) by simp
      moreover have "zadd_spec add score ele flags (zset_map zs) = ((zset_map zs)(ele \<mapsto> t), ZADD_OUT_UPDATED, True, Some t)"
        unfolding spec using t by auto
      ultimately show ?thesis using z(2,3) by auto
    qed
  qed
qed

end
