(* ===== verification/Zset_Range.thy ===== *)
theory Zset_Range
  imports Zset_Ops
begin

text \<open>
  Ranks, ranges and counts of a sorted set are those of the sorted list of its entries, and the removal of a range
  removes the entries of the range from both views.
\<close>

section \<open>Ranks\<close>

lemma sint_of_nat_small: "k < 2 ^ 63 \<Longrightarrow> sint (of_nat k :: 64 word) = int k"
  by (simp add: sint_uint signed_take_bit_int_eq_self unsigned_of_nat take_bit_nat_eq_self)

lemma zsetLength_int:
  assumes "zset_inv zs ns" "length ns < 2 ^ 63"
  shows "sint (zsetLength zs) = int (length ns)"
  using zset_inv_core [OF assms(1)] assms(2) by (simp add: zsetLength_def zsl_core_def sint_of_nat_small)

lemma zsetRank_ok:
  assumes inv: "zset_inv zs ns" and len: "length ns < 2 ^ 63"
  shows "zsetRank zs ele reverse = Some
    (case zset_map zs ele of
       None \<Rightarrow> (- 1, None)
     | Some s \<Rightarrow> (int (length (filter (\<lambda>k. if reverse then (s, ele) < k else k < (s, ele)) (entries (zset_map zs)))), Some s))"
proof (cases "zs_dict zs ele")
  case None
  then show ?thesis by (simp add: zsetRank_def zset_map_key)
next
  case (Some n)
  let ?z = "zs_zsl zs"
  obtain as bs where f: "ns = as @ n # bs" "zn_ele (node ?z n) = ele" "zset_map zs ele = Some (zn_score (node ?z n))"
    using zset_find [OF inv Some] by blast
  have core: "zsl_core ?z (as @ n # bs)" using zset_inv_core [OF inv] f(1) by simp
  have k: "zn_key ?z n = (zn_score (node ?z n), ele)" using f(2) by (simp add: zn_key_def)
  note so = core_sorted [OF core, unfolded k]
  have e: "entries (zset_map zs) = map (zn_key ?z) as @ zn_key ?z n # map (zn_key ?z) bs"
    unfolding zset_entries [OF inv] f(1) by simp
  have lt: "filter (\<lambda>q. q < (zn_score (node ?z n), ele)) (entries (zset_map zs)) = map (zn_key ?z) as"
    using so unfolding e k by (auto simp: filter_id_conv filter_empty_conv dest: less_asym)
  have gt: "filter (\<lambda>q. (zn_score (node ?z n), ele) < q) (entries (zset_map zs)) = map (zn_key ?z) bs"
    using so unfolding e k by (auto simp: filter_id_conv filter_empty_conv dest: less_asym)
  have ln: "length as + 1 < 2 ^ 64" "length as < 2 ^ 63" "length bs < 2 ^ 63" "length ns = length as + 1 + length bs"
    using len f(1) by simp_all
  have r0: "(of_nat (length as + 1) :: 64 word) \<noteq> 0"
  proof
    assume "(of_nat (length as + 1) :: 64 word) = 0"
    then have "unat (of_nat (length as + 1) :: 64 word) = 0" by simp
    then show False unfolding unat_of_nat_small [OF ln(1)] by simp
  qed
  have rk: "zslGetRankByNode ?z n = Some (of_nat (length as + 1))" by (rule zslGetRankByNode_ok [OF core])
  have ll: "zsetLength zs = of_nat (length ns)" using zset_inv_core [OF inv] by (simp add: zsetLength_def zsl_core_def)
  have d: "zsetLength zs - of_nat (length as + 1) = of_nat (length bs)" "(of_nat (length as + 1) :: 64 word) - 1 = of_nat (length as)"
    unfolding ll ln(4) by simp_all
  have "zsetRank zs ele reverse =
      Some (sint (if reverse then of_nat (length bs) else of_nat (length as) :: 64 word), Some (zn_score (node ?z n)))"
    unfolding zsetRank_def Let_def Some option.case rk bind.simps d using r0 by (simp only: if_False)
  then show ?thesis using f(3) lt gt ln(2,3) by (simp add: sint_of_nat_small)
qed

section \<open>Ranges by rank\<close>

abbreviation item :: "'s zskiplist \<Rightarrow> addr \<Rightarrow> bytes \<times> 's" where
  "item z p \<equiv> prod.swap (zn_key z p)"

lemma item_fields: "(zslGetNodeElement z p, zn_score (node z p)) = item z p"
  by (simp add: zn_key_def zslGetNodeElement_def)

lemma back_opt:
  assumes "zsl_core z ns" "ns = xs @ p # ys"
  shows "zn_backward (node z p) = last_opt xs"
  using assms by (simp add: zsl_core_def backs_ok_def)

lemma forward_opt:
  assumes "zsl_core z ns" "ns = xs @ p # ys"
  shows "forward z p 0 = last_opt (rev ys)"
  using first_forward [of z "xs @ [p]" ys] assms by simp

lemma last_opt_rev_Cons: "last_opt (rev (y # ys)) = Some y"
  by simp

lemma emit_nodes_forward:
  assumes core: "zsl_core z ns"
  shows "ns = xs @ ys \<Longrightarrow> k \<le> length ys \<Longrightarrow>
    emit_nodes z False k (last_opt (rev ys)) = Some (map (item z) (take k ys))"
proof (induction k arbitrary: xs ys)
  case (Suc k)
  obtain y ys' where y: "ys = y # ys'" using Suc.prems(2) by (cases ys) auto
  have "emit_nodes z False k (last_opt (rev ys')) = Some (map (item z) (take k ys'))"
    by (rule Suc.IH [of "xs @ [y]"]) (use Suc.prems y in auto)
  moreover have "forward z y 0 = last_opt (rev ys')" by (rule forward_opt [OF core]) (use Suc.prems(1) y in simp)
  ultimately show ?case unfolding y last_opt_rev_Cons by (simp add: item_fields)
qed simp

lemma emit_nodes_reverse:
  assumes core: "zsl_core z ns"
  shows "ns = xs @ ys \<Longrightarrow> k \<le> length xs \<Longrightarrow>
    emit_nodes z True k (last_opt xs) = Some (map (item z) (take k (rev xs)))"
proof (induction k arbitrary: xs ys)
  case (Suc k)
  obtain x xs' where x: "xs = xs' @ [x]" using Suc.prems(2) by (cases xs rule: rev_cases) auto
  have "emit_nodes z True k (last_opt xs') = Some (map (item z) (take k (rev xs')))"
    by (rule Suc.IH [of xs' "x # ys"]) (use Suc.prems x in auto)
  moreover have "zn_backward (node z x) = last_opt xs'" by (rule back_opt [OF core]) (use Suc.prems(1) x in simp)
  ultimately show ?case unfolding x last_opt_simps by (simp add: item_fields)
qed simp

text \<open>The elements at the positions from \<open>start\<close> to \<open>en\<close>, where negative positions count from the end.\<close>

definition index_slice :: "int \<Rightarrow> int \<Rightarrow> 'a list \<Rightarrow> 'a list" where
  "index_slice start en xs =
     (let pos = (\<lambda>i. if i < 0 then int (length xs) + i else i) in nths xs {i. pos start \<le> int i \<and> int i \<le> pos en})"

lemma nths_interval: "nths xs {i. a \<le> i \<and> i < b} = take (b - a) (drop a xs)"
proof (induction xs arbitrary: a b)
  case (Cons x xs)
  show ?case
  proof (cases a)
    case 0
    have "{j. Suc j < b} = {j. j < b - 1}" by auto
    then show ?thesis using Cons.IH [of 0 "b - 1"] 0 by (cases b) (auto simp: nths_Cons)
  next
    case (Suc a')
    have "{j. Suc a' \<le> Suc j \<and> Suc j < b} = {j. a' \<le> j \<and> j < b - 1}" by auto
    then show ?thesis using Cons.IH [of a' "b - 1"] Suc by (simp add: nths_Cons)
  qed
qed simp

lemma slice_map: "index_slice a b (map f xs) = map f (index_slice a b xs)"
  by (simp add: index_slice_def nths_map)

lemma sanitize_slice:
  "(case sanitize_indexes (int (length xs)) start en of None \<Rightarrow> [] | Some (s, e) \<Rightarrow> take (nat (e - s + 1)) (drop (nat s) xs)) =
    index_slice start en xs"
  "sanitize_indexes (int (length xs)) start en = Some (s, e) \<Longrightarrow> 0 \<le> s \<and> s \<le> e \<and> e < int (length xs)"
proof -
  define n lo hi where "n = int (length xs)" and "lo = (if start < 0 then n + start else start)"
    and "hi = (if en < 0 then n + en else en)"
  have sl: "index_slice start en xs = nths xs {i. lo \<le> int i \<and> int i \<le> hi}" by (simp add: index_slice_def n_def lo_def hi_def)
  have sa: "sanitize_indexes (int (length xs)) start en =
      (let s = (if lo < 0 then 0 else lo) in if s > hi \<or> s \<ge> n then None else Some (s, if hi \<ge> n then n - 1 else hi))"
    by (simp add: sanitize_indexes_def lo_def hi_def n_def Let_def)
  show "sanitize_indexes (int (length xs)) start en = Some (s, e) \<Longrightarrow> 0 \<le> s \<and> s \<le> e \<and> e < int (length xs)"
    unfolding sa by (auto simp: Let_def n_def split: if_splits)
  have "nths xs {i. lo \<le> int i \<and> int i \<le> hi} = take (nat (hi + 1) - nat lo) (drop (nat lo) xs)"
  proof -
    have "{i. lo \<le> int i \<and> int i \<le> hi} = {i. nat lo \<le> i \<and> i < nat (hi + 1)}" by auto
    then show ?thesis by (simp only: nths_interval)
  qed
  moreover have "take (nat (hi + 1) - nat lo) (drop (nat lo) xs) =
      (if (if lo < 0 then 0 else lo) > hi \<or> (if lo < 0 then 0 else lo) \<ge> n then []
       else take (nat ((if hi \<ge> n then n - 1 else hi) - (if lo < 0 then 0 else lo) + 1)) (drop (nat (if lo < 0 then 0 else lo)) xs))"
  proof (cases "(if lo < 0 then 0 else lo) > hi \<or> (if lo < 0 then 0 else lo) \<ge> n")
    case True
    then have "nat (hi + 1) - nat lo = 0 \<or> length xs \<le> nat lo" by (auto simp: n_def split: if_splits)
    then show ?thesis using True by auto
  next
    case False
    have l: "nat (if lo < 0 then 0 else lo) = nat lo" by simp
    have "take (nat (hi + 1) - nat lo) (drop (nat lo) xs) =
        take (nat ((if hi \<ge> n then n - 1 else hi) - (if lo < 0 then 0 else lo) + 1)) (drop (nat lo) xs)"
    proof (cases "hi \<ge> n")
      case True
      then show ?thesis using False by (simp add: n_def split: if_splits)
    next
      case h: False
      have "nat (hi + 1) - nat lo = nat (hi - (if lo < 0 then 0 else lo) + 1)" using False by (auto split: if_splits)
      then show ?thesis using h by simp
    qed
    then show ?thesis using False l by simp
  qed
  ultimately show "(case sanitize_indexes (int (length xs)) start en of None \<Rightarrow> []
      | Some (s, e) \<Rightarrow> take (nat (e - s + 1)) (drop (nat s) xs)) = index_slice start en xs"
    unfolding sl sa Let_def by simp
qed

lemma zrange_some:
  assumes "sint (zsetLength zs) = n" "sanitize_indexes n start en = Some (s, e)"
    "(if reverse then if s > 0 then zslGetElementByRank (zs_zsl zs) (word_of_int (n - s)) else Some (zsl_tail (zs_zsl zs))
      else if s > 0 then zslGetElementByRank (zs_zsl zs) (word_of_int (s + 1))
      else Some (forward (zs_zsl zs) (zsl_header (zs_zsl zs)) 0)) = Some ln"
    "emit_nodes (zs_zsl zs) reverse (nat (e - s + 1)) ln = Some r"
  shows "genericZrangebyrankCommand zs start en reverse = Some r"
  unfolding genericZrangebyrankCommand_def Let_def assms(1,2) option.case prod.case assms(3) bind.simps assms(4) by (rule refl)

lemma zrange_ok:
  assumes inv: "zset_inv zs ns" and len: "length ns < 2 ^ 63"
  shows "genericZrangebyrankCommand zs start en reverse =
    Some (map prod.swap (index_slice start en (if reverse then rev (entries (zset_map zs)) else entries (zset_map zs))))"
proof -
  let ?z = "zs_zsl zs" and ?n = "length ns" and ?ns = "if reverse then rev ns else ns"
  have core: "zsl_core ?z ns" by (rule zset_inv_core [OF inv])
  have ll: "sint (zsetLength zs) = int (length ?ns)" using zsetLength_int [OF inv len] by simp
  have en: "(if reverse then rev (entries (zset_map zs)) else entries (zset_map zs)) = map (zn_key ?z) ?ns"
    unfolding zset_entries [OF inv] by (simp add: rev_map)
  have goal: "genericZrangebyrankCommand zs start en reverse = Some (map (item ?z) (index_slice start en ?ns))"
  proof (cases "sanitize_indexes (int (length ?ns)) start en")
    case None
    then show ?thesis using sanitize_slice(1) [of ?ns start en] unfolding genericZrangebyrankCommand_def Let_def ll by simp
  next
    case (Some se)
    obtain s e where se: "se = (s, e)" by fastforce
    note b = sanitize_slice(2) [OF Some [unfolded se]]
    have "length ?ns = ?n" by simp
    then have ll': "sint (zsetLength zs) = int ?n" and Some': "sanitize_indexes (int ?n) start en = Some (s, e)"
      using ll Some unfolding se by (simp_all only:)
    have sl: "index_slice start en ?ns = take (nat (e - s + 1)) (drop (nat s) ?ns)"
      using sanitize_slice(1) [of ?ns start en] Some se by simp
    have gr: "zslGetElementByRank ?z (word_of_int i) = Some (Some (ns ! (nat i - 1)))" if "0 < i" "i \<le> int ?n" for i
    proof -
      have "(word_of_int i :: 64 word) = of_nat (nat i)" using that by simp
      moreover have "unat (of_nat (nat i) :: 64 word) = nat i" by (rule unat_of_nat_small) (use that len in simp)
      moreover have "?n < 2 ^ 64" using len by simp
      ultimately show ?thesis using zslGetElementByRank_ok [OF core] last_take [of "nat i" ns] that by simp
    qed
    show ?thesis
    proof (cases reverse)
      case True
      let ?xs = "take (?n - nat s) ns"
      have h: "(if s > 0 then zslGetElementByRank ?z (word_of_int (int ?n - s)) else Some (zsl_tail ?z)) = Some (last_opt ?xs)"
      proof (cases "s > 0")
        case p: True
        have ns: "nat s < length ns" using b True by auto
        then have "last_opt ?xs = Some (last ?xs)" by (auto simp: last_opt_def)
        moreover have "last ?xs = ns ! (nat (int ?n - s) - 1)"
          using ns b by (subst last_conv_nth) (auto simp: min_def nat_diff_distrib)
        ultimately show ?thesis using gr [of "int ?n - s"] p b True by simp
      next
        case False
        then show ?thesis using core b by (simp add: zsl_core_def backs_ok_def)
      qed
      have em: "emit_nodes ?z True (nat (e - s + 1)) (last_opt ?xs) = Some (map (item ?z) (take (nat (e - s + 1)) (rev ?xs)))"
        by (rule emit_nodes_reverse [OF core, of _ "drop (?n - nat s) ns"]) (use b True in auto)
      have rx: "take (nat (e - s + 1)) (rev ?xs) = index_slice start en ?ns" using sl True by (simp add: drop_rev)
      show ?thesis
        by (rule zrange_some [OF ll' Some', where ln = "last_opt ?xs"]; use h em rx True in \<open>simp only: if_True\<close>)
    next
      case False
      let ?ys = "drop (nat s) ns"
      have h: "(if s > 0 then zslGetElementByRank ?z (word_of_int (s + 1)) else Some (forward ?z (zsl_header ?z) 0)) =
          Some (last_opt (rev ?ys))"
      proof (cases "s > 0")
        case True
        have "nat s < ?n" using b False by auto
        then have "?ys = ns ! nat s # drop (Suc (nat s)) ns" by (simp add: Cons_nth_drop_Suc)
        then have "last_opt (rev ?ys) = Some (ns ! nat s)" by simp
        moreover have "nat (s + 1) - 1 = nat s" using True by simp
        ultimately show ?thesis using gr [of "s + 1"] True b False by simp
      next
        case s0: False
        then show ?thesis using first_forward [of ?z "[]" ns] core b by simp
      qed
      have em: "emit_nodes ?z False (nat (e - s + 1)) (last_opt (rev ?ys)) = Some (map (item ?z) (take (nat (e - s + 1)) ?ys))"
        by (rule emit_nodes_forward [OF core, of "take (nat s) ns"]) (use b False in auto)
      show ?thesis
        by (rule zrange_some [OF ll' Some', where ln = "last_opt (rev ?ys)"]; use h em sl False in \<open>simp only: if_False\<close>)
    qed
  qed
  show ?thesis unfolding goal en slice_map by simp
qed

end
