(* ===== verification/Zset_Window.thy ===== *)
theory Zset_Window
  imports Zset_Range
begin

text \<open>Ranges by score and by element, with an offset and a limit, their counts, and the removal of ranges.\<close>

section \<open>The loop over a range\<close>

definition limit_take :: "int \<Rightarrow> 'a list \<Rightarrow> 'a list" where
  "limit_take limit xs = (if limit < 0 then xs else take (nat limit) xs)"

lemma limit_take_Nil [simp]: "limit_take limit [] = []"
  by (simp add: limit_take_def)

lemma limit_take_Cons: "limit \<noteq> 0 \<Longrightarrow> limit_take limit (x # xs) = x # limit_take (limit - 1) xs"
  by (auto simp: limit_take_def take_Cons' nat_diff_distrib)

lemma limit_take_map: "limit_take limit (map f xs) = map f (limit_take limit xs)"
  by (simp add: limit_take_def take_map)

lemma emit_while_forward:
  assumes core: "zsl_core z ns"
  shows "ns = xs @ ys \<Longrightarrow>
    emit_while z False go limit (last_opt (rev ys)) = Some (map (item z) (limit_take limit (takeWhile go ys)))"
proof (induction ys arbitrary: xs limit)
  case Nil
  then show ?case by (subst emit_while.simps) simp
next
  case (Cons y ys)
  have "emit_while z False go (limit - 1) (last_opt (rev ys)) = Some (map (item z) (limit_take (limit - 1) (takeWhile go ys)))"
    by (rule Cons.IH [of "xs @ [y]"]) (use Cons.prems in simp)
  moreover have "forward z y 0 = last_opt (rev ys)" by (rule forward_opt [OF core Cons.prems])
  ultimately show ?case
    unfolding last_opt_rev_Cons
    by (subst emit_while.simps) (auto simp: item_fields limit_take_Cons limit_take_def [of 0])
qed

lemma emit_while_reverse:
  assumes core: "zsl_core z ns"
  shows "ns = xs @ ys \<Longrightarrow>
    emit_while z True go limit (last_opt xs) = Some (map (item z) (limit_take limit (takeWhile go (rev xs))))"
proof (induction xs arbitrary: ys limit rule: rev_induct)
  case Nil
  then show ?case by (subst emit_while.simps) simp
next
  case (snoc x xs)
  have "emit_while z True go (limit - 1) (last_opt xs) = Some (map (item z) (limit_take (limit - 1) (takeWhile go (rev xs))))"
    by (rule snoc.IH [of "x # ys"]) (use snoc.prems in simp)
  moreover have "zn_backward (node z x) = last_opt xs" by (rule back_opt [OF core]) (use snoc.prems in simp)
  ultimately show ?case
    unfolding last_opt_simps
    by (subst emit_while.simps) (auto simp: item_fields limit_take_Cons limit_take_def [of 0])
qed

text \<open>Both commands start at the node that the search for the offset finds.\<close>

lemma emit_range:
  assumes core: "zsl_core z ns" and ns: "ns = as @ ds @ cs" and o: "0 \<le> offset"
    and go: "\<forall>p\<in>set ds. go p" "\<forall>p\<in>set (if reverse then as else cs). \<not> go p"
  shows "emit_while z reverse go limit (map_option fst (range_nth as ds (if reverse then - offset - 1 else offset))) =
    Some (map (item z) (limit_take limit (drop (nat offset) (if reverse then rev ds else ds))))"
proof (cases "nat offset < length ds")
  case True
  let ?k = "nat offset"
  show ?thesis
  proof (cases reverse)
    case r: True
    let ?i = "length ds - Suc ?k"
    let ?xs = "as @ take (Suc ?i) ds" and ?ys = "drop (Suc ?i) ds @ cs"
    have n: "nat (- (- offset - 1)) = Suc ?k" "\<not> 0 \<le> - offset - 1" using o by (simp_all add: nat_add_distrib)
    then have "map_option fst (range_nth as ds (- offset - 1)) = Some (ds ! ?i)" using True by (simp add: range_nth_def)
    also have "\<dots> = last_opt ?xs" using True by (simp add: last_opt_def take_Suc_conv_app_nth)
    finally have "emit_while z True go limit (map_option fst (range_nth as ds (- offset - 1))) =
        emit_while z True go limit (last_opt ?xs)" by simp
    also have "\<dots> = Some (map (item z) (limit_take limit (takeWhile go (rev ?xs))))"
      by (rule emit_while_reverse [OF core, of _ ?ys]) (simp add: ns)
    also have "takeWhile go (rev ?xs) = rev (take (Suc ?i) ds)"
    proof -
      have "takeWhile go (rev as) = []" using go(2) r by (cases "rev as") auto
      moreover have "takeWhile go (rev (take (Suc ?i) ds) @ rev as) = rev (take (Suc ?i) ds) @ takeWhile go (rev as)"
        using go(1) by (intro takeWhile_append2) (auto dest: in_set_takeD)
      ultimately show ?thesis by simp
    qed
    also have "rev (take (Suc ?i) ds) = drop ?k (rev ds)" using True by (simp add: drop_rev Suc_diff_Suc)
    finally show ?thesis using r by simp
  next
    case False
    let ?xs = "as @ take ?k ds" and ?ys = "drop ?k ds @ cs"
    have "map_option fst (range_nth as ds offset) = Some (ds ! ?k)" using o True by (simp add: range_nth_def)
    also have "\<dots> = last_opt (rev ?ys)"
    proof -
      have "?ys = ds ! ?k # drop (Suc ?k) ds @ cs" using True by (simp add: Cons_nth_drop_Suc)
      then show ?thesis by (simp only: last_opt_rev_Cons)
    qed
    finally have "emit_while z False go limit (map_option fst (range_nth as ds offset)) =
        emit_while z False go limit (last_opt (rev ?ys))" by simp
    also have "\<dots> = Some (map (item z) (limit_take limit (takeWhile go ?ys)))"
      by (rule emit_while_forward [OF core, of ?xs]) (simp add: ns)
    also have "takeWhile go ?ys = drop ?k ds"
    proof -
      have "takeWhile go cs = []" using go(2) False by (cases cs) auto
      moreover have "takeWhile go (drop ?k ds @ cs) = drop ?k ds @ takeWhile go cs"
        using go(1) by (intro takeWhile_append2) (auto dest: in_set_dropD)
      ultimately show ?thesis by simp
    qed
    finally show ?thesis using False by simp
  qed
next
  case False
  then have "range_nth as ds (if reverse then - offset - 1 else offset) = None" using o by (auto simp: range_nth_def)
  then show ?thesis using False by (auto simp: emit_while.simps [of z reverse go limit None])
qed

definition range_window :: "('s \<times> bytes \<Rightarrow> bool) \<Rightarrow> int \<Rightarrow> int \<Rightarrow> bool \<Rightarrow> ('s \<times> bytes) list \<Rightarrow> ('s \<times> bytes) list" where
  "range_window R offset limit reverse ks =
     (if offset < 0 then []
      else limit_take limit (drop (nat offset) (if reverse then rev (filter R ks) else filter R ks)))"

lemma range_window_map:
  "0 \<le> offset \<Longrightarrow> range_window R offset limit reverse (map f ns) =
    map f (limit_take limit (drop (nat offset) (if reverse then rev (filter (R \<circ> f) ns) else filter (R \<circ> f) ns)))"
  by (simp add: range_window_def filter_map limit_take_map [symmetric] drop_map rev_map)

lemma range_window_far:
  assumes "offset < 0 \<or> offset > 0 \<and> offset \<ge> int (length ks)"
  shows "range_window R offset limit reverse ks = []"
proof (cases "offset < 0")
  case False
  have "length (filter R ks) \<le> length ks" by simp
  then have "length (filter R ks) \<le> nat offset" using assms False by linarith
  then show ?thesis using False by (simp add: range_window_def)
qed (simp add: range_window_def)

lemma zrange_window:
  assumes core: "zsl_core z ns" and len: "length ns < 2 ^ 63" and o: "\<not> (offset < 0 \<or> offset > 0 \<and> offset \<ge> int (length ns))"
    and sp: "ns = as @ filter (\<lambda>p. R (zn_key z p)) ns @ cs" and P: "\<forall>p\<in>set as. \<not> P p" and Q: "\<forall>p\<in>set cs. \<not> Q p"
    and R: "\<And>p. R (zn_key z p) \<longleftrightarrow> P p \<and> Q p"
  shows "emit_while z reverse (\<lambda>y. if reverse then P y else Q y) limit
      (map_option fst (range_nth as (filter (\<lambda>p. R (zn_key z p)) ns) (if reverse then - offset - 1 else offset))) =
    Some (map prod.swap (range_window R offset limit reverse (map (zn_key z) ns)))"
proof -
  let ?ds = "filter (\<lambda>p. R (zn_key z p)) ns"
  have "emit_while z reverse (\<lambda>y. if reverse then P y else Q y) limit
      (map_option fst (range_nth as ?ds (if reverse then - offset - 1 else offset))) =
    Some (map (item z) (limit_take limit (drop (nat offset) (if reverse then rev ?ds else ?ds))))"
    by (rule emit_range [OF core sp]) (use o P Q R in auto)
  moreover have "filter (R \<circ> zn_key z) ns = ?ds" by (simp add: comp_def)
  ultimately show ?thesis using o by (simp add: range_window_map comp_def)
qed

lemma offset_bounds:
  assumes "length (ns :: addr list) < 2 ^ 63" "\<not> (offset < 0 \<or> offset > 0 \<and> offset \<ge> int (length ns))"
  shows "- (2 ^ 63) < (if reverse then - offset - 1 else offset)" "(if reverse then - offset - 1 else offset) < 2 ^ 63"
  using assms by auto

lemma zrangebyscore_ok:
  assumes inv: "zset_inv zs ns" and len: "length ns < 2 ^ 63"
  shows "genericZrangebyscoreCommand zs spec offset limit reverse =
    Some (map prod.swap (range_window (in_range spec) offset limit reverse (entries (zset_map zs))))"
proof (cases "offset < 0 \<or> offset > 0 \<and> offset \<ge> int (length ns)")
  case True
  then show ?thesis using range_window_far [of offset "entries (zset_map zs)"]
    by (simp add: genericZrangebyscoreCommand_def zsetLength_int [OF inv len] zset_entries [OF inv])
next
  case False
  let ?z = "zs_zsl zs" and ?n = "if reverse then - offset - 1 else offset"
  have core: "zsl_core ?z ns" by (rule zset_inv_core [OF inv])
  obtain as cs where n: "ns = as @ filter (\<lambda>p. in_range spec (zn_key ?z p)) ns @ cs"
    "\<forall>p\<in>set as. \<not> zslValueGteMin (fst (zn_key ?z p)) spec" "\<forall>p\<in>set cs. \<not> zslValueLteMax (fst (zn_key ?z p)) spec"
    "zslNthInRange ?z spec ?n = Some (range_nth as (filter (\<lambda>p. in_range spec (zn_key ?z p)) ns) ?n)"
    using zslNthInRange_ok [OF core len] offset_bounds [OF len False] by blast
  note w = zrange_window [OF core len False n(1-3) in_range_def, of reverse limit]
  have k: "zn_score (node ?z p) = fst (zn_key ?z p)" for p by (simp add: zn_key_def)
  show ?thesis
    unfolding genericZrangebyscoreCommand_def Let_def zsetLength_int [OF inv len] n(4) k zset_entries [OF inv]
    using False w by (simp only: if_False bind.simps)
qed

lemma zrangebylex_ok:
  assumes inv: "zset_inv zs ns" and len: "length ns < 2 ^ 63" and one: "\<forall>p\<in>set ns. zn_score (node (zs_zsl zs) p) = s"
  shows "genericZrangebylexCommand zs spec offset limit reverse =
    Some (map prod.swap (range_window (in_lex_range spec) offset limit reverse (entries (zset_map zs))))"
proof (cases "offset < 0 \<or> offset > 0 \<and> offset \<ge> int (length ns)")
  case True
  then show ?thesis using range_window_far [of offset "entries (zset_map zs)"]
    by (simp add: genericZrangebylexCommand_def zsetLength_int [OF inv len] zset_entries [OF inv])
next
  case False
  let ?z = "zs_zsl zs" and ?n = "if reverse then - offset - 1 else offset"
  have core: "zsl_core ?z ns" by (rule zset_inv_core [OF inv])
  obtain as cs where n: "ns = as @ filter (\<lambda>p. in_lex_range spec (zn_key ?z p)) ns @ cs"
    "\<forall>p\<in>set as. \<not> zslLexValueGteMin (snd (zn_key ?z p)) spec" "\<forall>p\<in>set cs. \<not> zslLexValueLteMax (snd (zn_key ?z p)) spec"
    "zslNthInLexRange ?z spec ?n = Some (range_nth as (filter (\<lambda>p. in_lex_range spec (zn_key ?z p)) ns) ?n)"
    using zslNthInLexRange_ok [OF core len one] offset_bounds [OF len False] by blast
  note w = zrange_window [OF core len False n(1-3) in_lex_range_def, of reverse limit]
  have k: "zslGetNodeElement ?z p = snd (zn_key ?z p)" for p by (simp add: zn_key_def zslGetNodeElement_def)
  show ?thesis
    unfolding genericZrangebylexCommand_def Let_def zsetLength_int [OF inv len] n(4) k zset_entries [OF inv]
    using False w by (simp only: if_False bind.simps)
qed

section \<open>Counts\<close>

lemma count_range_ok:
  assumes "zsl_length z = of_nat (length ns)" "ns = as @ ds @ cs"
    "nth_node 0 = Some (range_nth as ds 0)" "nth_node (- 1) = Some (range_nth as ds (- 1))"
  shows "count_range z nth_node = Some (of_nat (length ds))"
proof (cases "ds = []")
  case False
  then have d: "0 < length ds" by simp
  then have r: "range_nth as ds 0 = Some (ds ! 0, of_nat (length as + 1))"
    "range_nth as ds (- 1) = Some (ds ! (length ds - 1), of_nat (length as + length ds))"
    using d by (simp_all add: range_nth_def Suc_le_eq)
  have "(of_nat (length ns) :: 64 word) - (of_nat (length as + 1) - 1) - (of_nat (length ns) - of_nat (length as + length ds)) = of_nat (length ds)"
    by (simp add: algebra_simps)
  then show ?thesis
    unfolding count_range_def assms(1,3,4) r bind.simps option.case prod.case Let_def by simp
qed (simp add: count_range_def assms(3) range_nth_def)

lemma zcount_ok:
  assumes inv: "zset_inv zs ns" and len: "length ns < 2 ^ 63"
  shows "zcountCommand zs spec = Some (of_nat (length (filter (in_range spec) (entries (zset_map zs)))))"
proof -
  let ?z = "zs_zsl zs" and ?ds = "filter (\<lambda>p. in_range spec (zn_key (zs_zsl zs) p)) ns"
  have core: "zsl_core ?z ns" by (rule zset_inv_core [OF inv])
  obtain as cs where n: "ns = as @ ?ds @ cs" "zslNthInRange ?z spec 0 = Some (range_nth as ?ds 0)"
    "zslNthInRange ?z spec (- 1) = Some (range_nth as ?ds (- 1))" using zslNthInRange_ok [OF core len] by force
  have "zsl_length ?z = of_nat (length ns)" using core by (simp add: zsl_core_def)
  from count_range_ok [OF this n] show ?thesis
    by (simp add: zcountCommand_def zset_entries [OF inv] filter_map comp_def)
qed

lemma zlexcount_ok:
  assumes inv: "zset_inv zs ns" and len: "length ns < 2 ^ 63" and one: "\<forall>p\<in>set ns. zn_score (node (zs_zsl zs) p) = s"
  shows "zlexcountCommand zs spec = Some (of_nat (length (filter (in_lex_range spec) (entries (zset_map zs)))))"
proof -
  let ?z = "zs_zsl zs" and ?ds = "filter (\<lambda>p. in_lex_range spec (zn_key (zs_zsl zs) p)) ns"
  have core: "zsl_core ?z ns" by (rule zset_inv_core [OF inv])
  obtain as cs where n: "ns = as @ ?ds @ cs" "zslNthInLexRange ?z spec 0 = Some (range_nth as ?ds 0)"
    "zslNthInLexRange ?z spec (- 1) = Some (range_nth as ?ds (- 1))" using zslNthInLexRange_ok [OF core len one] by force
  have "zsl_length ?z = of_nat (length ns)" using core by (simp add: zsl_core_def)
  from count_range_ok [OF this n] show ?thesis
    by (simp add: zlexcountCommand_def zset_entries [OF inv] filter_map comp_def)
qed

section \<open>Removal of a range\<close>

lemma fold_forget: "fold (\<lambda>e d. d(e := None)) es d = (\<lambda>e. if e \<in> set es then None else d e)"
  by (induction es arbitrary: d) (auto simp: fun_eq_iff)

lemma drop_deleted_ok:
  assumes inv: "zset_inv zs ns" and st: "set ns = set ks \<union> set ds" "set ks \<inter> set ds = {}"
    and z: "zsl_inv z ks" "\<forall>p\<in>set ks. zn_key z p = zn_key (zs_zsl zs) p"
  shows "\<exists>zs'. drop_deleted zs (Some (z, map (\<lambda>p. snd (zn_key (zs_zsl zs) p)) ds)) = Some (zs', length ds) \<and> zset_inv zs' ks \<and>
    zset_map zs' = (\<lambda>e. if e \<in> set (map (\<lambda>p. snd (zn_key (zs_zsl zs) p)) ds) then None else zset_map zs e)"
proof -
  let ?k = "\<lambda>p. snd (zn_key (zs_zsl zs) p)"
  let ?zs = "zs\<lparr>zs_zsl := z, zs_dict := fold (\<lambda>e d. d(e := None)) (map ?k ds) (zs_dict zs)\<rparr>"
  have d: "zs_dict zs e = Some p \<longleftrightarrow> (p \<in> set ks \<or> p \<in> set ds) \<and> ?k p = e" for e p using inv st(1) by (auto simp: zset_inv_def)
  have gone: "?k p \<in> ?k ` set ds \<longleftrightarrow> p \<in> set ds" if "p \<in> set ks \<or> p \<in> set ds" for p
    using that zset_elements [OF inv] st(1) by auto
  have dk: "zs_dict ?zs e = Some p \<longleftrightarrow> p \<in> set ks \<and> ?k p = e" for e p
    using d [of e p] gone [of p] st(2) by (auto simp: fold_forget)
  have "zset_inv ?zs ks" unfolding zset_inv_def
  proof (intro conjI allI)
    fix e p
    show "zs_dict ?zs e = Some p \<longleftrightarrow> p \<in> set ks \<and> snd (zn_key (zs_zsl ?zs) p) = e"
      unfolding dk using z(2) by auto
  qed (use z(1) in simp)
  moreover have "zset_map ?zs = (\<lambda>e. if e \<in> set (map ?k ds) then None else zset_map zs e)"
  proof
    fix e
    show "zset_map ?zs e = (if e \<in> set (map ?k ds) then None else zset_map zs e)"
    proof (cases "e \<in> set (map ?k ds)")
      case True
      then show ?thesis by (simp add: zset_map_key fold_forget)
    next
      case False
      then have same: "zs_dict ?zs e = zs_dict zs e" by (simp add: fold_forget)
      show ?thesis
      proof (cases "zs_dict zs e")
        case None
        then show ?thesis using same False by (simp add: zset_map_key)
      next
        case (Some p)
        then have "p \<in> set ks" using dk [of e p] same by simp
        then show ?thesis using same Some False z(2) by (simp add: zset_map_key)
      qed
    qed
  qed
  ultimately show ?thesis by (auto simp: drop_deleted_def)
qed

text \<open>The map without the entries of a range.\<close>

definition map_without :: "('s \<times> bytes \<Rightarrow> bool) \<Rightarrow> (bytes \<Rightarrow> 's option) \<Rightarrow> bytes \<Rightarrow> 's option" where
  "map_without R m e = (case m e of None \<Rightarrow> None | Some s \<Rightarrow> if R (s, e) then None else Some s)"

lemma kept_drop:
  assumes inv: "zset_inv zs ns" and kept: "zsl_kept (zs_zsl zs) R ns z"
  shows "\<exists>zs' ns'. drop_deleted zs (Some (z, map (\<lambda>p. snd (zn_key (zs_zsl zs) p)) (filter (\<lambda>p. R (zn_key (zs_zsl zs) p)) ns))) =
      Some (zs', length (filter R (entries (zset_map zs)))) \<and> zset_inv zs' ns' \<and> zset_map zs' = map_without R (zset_map zs)"
proof -
  let ?z = "zs_zsl zs"
  let ?ds = "filter (\<lambda>p. R (zn_key ?z p)) ns" and ?ks = "filter (\<lambda>p. \<not> R (zn_key ?z p)) ns"
  have k: "zsl_inv z ?ks" "\<forall>p\<in>set ?ks. zn_key z p = zn_key ?z p" using kept by (simp_all add: zsl_kept_def)
  have st: "set ns = set ?ks \<union> set ?ds" "set ?ks \<inter> set ?ds = {}" by auto
  from drop_deleted_ok [OF inv st k] obtain zs' where z': "drop_deleted zs (Some (z, map (\<lambda>p. snd (zn_key ?z p)) ?ds)) = Some (zs', length ?ds)"
    "zset_inv zs' ?ks" "zset_map zs' = (\<lambda>e. if e \<in> set (map (\<lambda>p. snd (zn_key ?z p)) ?ds) then None else zset_map zs e)" by blast
  have "length (filter R (entries (zset_map zs))) = length ?ds" unfolding zset_entries [OF inv] by (simp add: filter_map comp_def)
  moreover have "zset_map zs' = map_without R (zset_map zs)"
  proof
    fix e
    show "zset_map zs' e = map_without R (zset_map zs) e"
    proof (cases "zset_map zs e")
      case None
      then show ?thesis by (simp add: z'(3) map_without_def)
    next
      case (Some s)
      then obtain p where p: "p \<in> set ns" "zn_key ?z p = (s, e)" using zset_map_iff [OF inv] by force
      have "e \<in> set (map (\<lambda>p. snd (zn_key ?z p)) ?ds) \<longleftrightarrow> R (s, e)"
      proof
        assume "e \<in> set (map (\<lambda>p. snd (zn_key ?z p)) ?ds)"
        then obtain q where q: "q \<in> set ns" "R (zn_key ?z q)" "snd (zn_key ?z q) = e" by auto
        then have "q = p" using zset_elements [OF inv q(1) p(1)] p(2) by simp
        then show "R (s, e)" using q(2) p(2) by simp
      qed (use p in force)
      then show ?thesis using Some by (simp add: z'(3) map_without_def)
    qed
  qed
  ultimately show ?thesis using z'(1,2) by auto
qed

text \<open>The entries removed are as many as the elements that leave the map.\<close>

lemma removed_card:
  assumes "zset_inv zs ns"
  shows "card (dom (zset_map zs) - dom (map_without R (zset_map zs))) = length (filter R (entries (zset_map zs)))"
proof -
  let ?m = "zset_map zs"
  have e: "set (entries ?m) = {(s, e). ?m e = Some s}" "distinct (entries ?m)"
    unfolding zset_entries [OF assms] using zset_map_iff [OF assms] zset_inv_core [OF assms]
    by (auto simp: zsl_core_def sorted_ok_def strict_sorted_iff simp flip: sorted_wrt_map)
  have "card (dom ?m - dom (map_without R ?m)) = card (snd ` set (filter R (entries ?m)))"
    by (rule arg_cong [where f = card]) (auto simp: e(1) map_without_def image_iff split: option.splits if_splits)
  also have "\<dots> = card (set (filter R (entries ?m)))"
    by (rule card_image) (auto simp: inj_on_def e(1))
  also have "\<dots> = length (filter R (entries ?m))" by (rule distinct_card) (simp add: e(2))
  finally show ?thesis .
qed

lemma zremrangebyscore_ok:
  assumes inv: "zset_inv zs ns"
  shows "\<exists>zs' ns'. zremrangeGenericCommand zs (Zrange_score spec) = Some (zs', length (filter (in_range spec) (entries (zset_map zs)))) \<and>
    zset_inv zs' ns' \<and> zset_map zs' = map_without (in_range spec) (zset_map zs)"
proof -
  have "zsl_inv (zs_zsl zs) ns" using inv by (simp add: zset_inv_def)
  from zslDeleteRangeByScore_ok [OF this] obtain z where "zslDeleteRangeByScore (zs_zsl zs) spec =
      Some (z, map (\<lambda>p. snd (zn_key (zs_zsl zs) p)) (filter (\<lambda>p. in_range spec (zn_key (zs_zsl zs) p)) ns))"
    "zsl_kept (zs_zsl zs) (in_range spec) ns z" by blast
  then show ?thesis using kept_drop [OF inv] by (simp add: zremrangeGenericCommand_def)
qed

lemma zremrangebylex_ok:
  assumes inv: "zset_inv zs ns" and one: "\<forall>p\<in>set ns. zn_score (node (zs_zsl zs) p) = s"
  shows "\<exists>zs' ns'. zremrangeGenericCommand zs (Zrange_lex spec) = Some (zs', length (filter (in_lex_range spec) (entries (zset_map zs)))) \<and>
    zset_inv zs' ns' \<and> zset_map zs' = map_without (in_lex_range spec) (zset_map zs)"
proof -
  have "zsl_inv (zs_zsl zs) ns" using inv by (simp add: zset_inv_def)
  from zslDeleteRangeByLex_ok [OF this one] obtain z where "zslDeleteRangeByLex (zs_zsl zs) spec =
      Some (z, map (\<lambda>p. snd (zn_key (zs_zsl zs) p)) (filter (\<lambda>p. in_lex_range spec (zn_key (zs_zsl zs) p)) ns))"
    "zsl_kept (zs_zsl zs) (in_lex_range spec) ns z" by blast
  then show ?thesis using kept_drop [OF inv] by (simp add: zremrangeGenericCommand_def)
qed

text \<open>A range by rank, whose ends are converted to 32 bits.\<close>

lemma zremrangebyrank_step:
  assumes inv: "zset_inv zs ns" and len: "length ns < 2 ^ 63" and ss: "sanitize_indexes (int (length ns)) start en = Some (s, e)"
    and w: "unat (word_of_int (s + 1) :: 32 word) = nat s + 1" and u: "unat (word_of_int (e + 1) :: 32 word) = nat u"
  shows "\<exists>zs' ns'. zremrangeGenericCommand zs (Zrange_rank start en) =
      Some (zs', length (take (nat u - nat s) (drop (nat s) (entries (zset_map zs))))) \<and> zset_inv zs' ns' \<and>
    zset_map zs' = (\<lambda>k. if k \<in> snd ` set (take (nat u - nat s) (drop (nat s) (entries (zset_map zs)))) then None else zset_map zs k)"
proof -
  let ?z = "zs_zsl zs"
  let ?as = "take (nat s) ns" and ?ds = "take (nat u - nat s) (drop (nat s) ns)" and ?cs = "drop (nat u - nat s) (drop (nat s) ns)"
  have zi: "zsl_inv ?z ns" using inv by (simp add: zset_inv_def)
  have core: "zsl_core ?z ns" by (rule zset_inv_core [OF inv])
  have "1 \<le> unat (word_of_int (s + 1) :: 32 word)" using w by simp
  from zslDeleteRangeByRank_ok [OF zi len this, of "word_of_int (e + 1)"] obtain z where z:
    "zslDeleteRangeByRank ?z (word_of_int (s + 1)) (word_of_int (e + 1)) = Some (z, map (\<lambda>p. snd (zn_key ?z p)) ?ds)"
    "zsl_inv z (?as @ ?cs)" "\<forall>p\<in>set (?as @ ?cs). zn_key z p = zn_key ?z p" unfolding w u by auto
  have ns: "ns = ?as @ ?ds @ ?cs" by (simp only: append_take_drop_id)
  have dis: "distinct ns" using core by (simp add: zsl_core_def blocks_ok_def)
  have st: "set ns = set (?as @ ?cs) \<union> set ?ds" using arg_cong [OF ns, of set] by auto
  have "distinct (?as @ ?ds @ ?cs)" using dis ns by simp
  then have dj: "set (?as @ ?cs) \<inter> set ?ds = {}" by auto
  have e: "take (nat u - nat s) (drop (nat s) (entries (zset_map zs))) = map (zn_key ?z) ?ds"
    unfolding zset_entries [OF inv] by (simp add: take_map drop_map)
  have "snd ` set (map (zn_key ?z) ?ds) = set (map (\<lambda>p. snd (zn_key ?z p)) ?ds)" by (simp add: image_image)
  from drop_deleted_ok [OF inv st dj z(2,3)] obtain zs' where
    "drop_deleted zs (Some (z, map (\<lambda>p. snd (zn_key ?z p)) ?ds)) = Some (zs', length ?ds)" "zset_inv zs' (?as @ ?cs)"
    "zset_map zs' = (\<lambda>k. if k \<in> set (map (\<lambda>p. snd (zn_key ?z p)) ?ds) then None else zset_map zs k)" by blast
  moreover have "zremrangeGenericCommand zs (Zrange_rank start en) =
      drop_deleted zs (Some (z, map (\<lambda>p. snd (zn_key ?z p)) ?ds))"
    unfolding zremrangeGenericCommand_def zsetLength_int [OF inv len] zrange.case ss option.case prod.case z(1) by (rule refl)
  ultimately show ?thesis unfolding e \<open>snd ` set (map (zn_key ?z) ?ds) = set (map (\<lambda>p. snd (zn_key ?z p)) ?ds)\<close>
    by (intro exI [of _ zs'] exI [of _ "?as @ ?cs"]) (simp only: length_map simp_thms)
qed

lemma zremrangebyrank_ok:
  assumes inv: "zset_inv zs ns" and len: "length ns < 2 ^ 32"
  shows "\<exists>zs' ns'. zremrangeGenericCommand zs (Zrange_rank start en) =
      Some (zs', length (index_slice start en (entries (zset_map zs)))) \<and> zset_inv zs' ns' \<and>
    zset_map zs' = (\<lambda>k. if k \<in> snd ` set (index_slice start en (entries (zset_map zs))) then None else zset_map zs k)"
proof -
  have l: "length (entries (zset_map zs)) = length ns" by (simp add: zset_entries [OF inv])
  have l63: "length ns < 2 ^ 63" using len by simp
  show ?thesis
  proof (cases "sanitize_indexes (int (length ns)) start en")
    case None
    then have "index_slice start en (entries (zset_map zs)) = []" using sanitize_slice(1) [of "entries (zset_map zs)" start en] l by simp
    moreover have "zremrangeGenericCommand zs (Zrange_rank start en) = Some (zs, 0)"
      by (simp add: zremrangeGenericCommand_def zsetLength_int [OF inv l63] None)
    ultimately show ?thesis using inv by auto
  next
    case (Some se)
    obtain s e where se: "se = (s, e)" by fastforce
    have b: "0 \<le> s \<and> s \<le> e \<and> e < int (length ns)"
      using sanitize_slice(2) [of "entries (zset_map zs)" start en s e] Some se l by simp
    have uw: "unat (word_of_int (i + 1) :: 32 word) = nat (i + 1)" if "0 \<le> i" "i < int (length ns)" for i
    proof -
      have k1: "0 \<le> i + 1" using that by simp
      obtain k where k: "i + 1 = int k" using zero_le_imp_eq_int [OF k1] by blast
      have "k < 2 ^ 32" using that len k by simp
      then show ?thesis unfolding k by (simp add: unat_of_nat)
    qed
    have sl: "take (nat (e + 1) - nat s) (drop (nat s) (entries (zset_map zs))) = index_slice start en (entries (zset_map zs))"
    proof -
      have "nat (e + 1) - nat s = nat (e - s + 1)" using b by arith
      then show ?thesis using sanitize_slice(1) [of "entries (zset_map zs)" start en] Some se l by simp
    qed
    have "unat (word_of_int (s + 1) :: 32 word) = nat s + 1" using uw [of s] b by (simp add: nat_add_distrib)
    from zremrangebyrank_step [OF inv l63 Some [unfolded se] this, of "e + 1"] show ?thesis unfolding sl using uw [of e] b by simp
  qed
qed

lemma zremrangebyrank_wraps:
  assumes inv: "zset_inv zs ns" and len: "length ns = 2 ^ 32"
  shows "\<exists>zs' ns'. zremrangeGenericCommand zs (Zrange_rank 0 (- 1)) = Some (zs', 0) \<and> zset_inv zs' ns' \<and> zset_map zs' = zset_map zs"
proof -
  have l63: "length ns < 2 ^ 63" using len by simp
  have "sanitize_indexes (int (length ns)) 0 (- 1) = Some (0, 2 ^ 32 - 1)" by (simp add: sanitize_indexes_def len Let_def)
  from zremrangebyrank_step [OF inv l63 this, of 0] show ?thesis by simp
qed

section \<open>Copying a sorted set\<close>

lemma dup_loop_ok:
  assumes inv: "zset_inv zs ns"
  shows "ns = xs @ ys \<Longrightarrow> length ps = length xs \<Longrightarrow> zset_inv new_zs ms \<Longrightarrow>
    (\<And>e. zset_map new_zs e = (if e \<in> (\<lambda>p. snd (zn_key (zs_zsl zs) p)) ` set ys then zset_map zs e else None)) \<Longrightarrow>
    distinct (map fst ps) \<Longrightarrow> \<forall>(p, l)\<in>set ps. p \<notin> dom (zsl_heap (zs_zsl new_zs)) \<and> 1 \<le> l \<and> l \<le> ZSKIPLIST_MAXLEVEL \<Longrightarrow>
    \<exists>zs' ns'. dup_loop (zs_zsl zs) new_zs ps (last_opt xs) = Some zs' \<and> zset_inv zs' ns' \<and> zset_map zs' = zset_map zs"
proof (induction ps arbitrary: xs ys new_zs ms)
  case Nil
  have "zset_map new_zs e = zset_map zs e" for e
  proof -
    have "zset_map zs e = None" if "e \<notin> (\<lambda>p. snd (zn_key (zs_zsl zs) p)) ` set ys"
    proof (rule ccontr)
      assume "zset_map zs e \<noteq> None"
      then obtain s where "(s, e) \<in> zn_key (zs_zsl zs) ` set ns" using zset_map_iff [OF inv] by blast
      then obtain p where p: "(s, e) = zn_key (zs_zsl zs) p" "p \<in> set ns" by (rule imageE)
      have "e = snd (zn_key (zs_zsl zs) p)" by (simp add: p(1) [symmetric])
      then have "e \<in> (\<lambda>p. snd (zn_key (zs_zsl zs) p)) ` set ns" using p(2) by (rule image_eqI)
      then show False using that Nil.prems(1,2) by simp
    qed
    then show ?thesis using Nil.prems(4) by simp
  qed
  then show ?case using Nil.prems(3) by (auto simp: fun_eq_iff)
next
  case (Cons pl ps)
  obtain p level where pl: "pl = (p, level)" by fastforce
  obtain x xs' where x: "xs = xs' @ [x]" using Cons.prems(2) by (cases xs rule: rev_cases) auto
  let ?z = "zs_zsl zs"
  let ?s = "fst (zn_key ?z x)" and ?e = "snd (zn_key ?z x)"
  have core: "zsl_core ?z ns" by (rule zset_inv_core [OF inv])
  have xn: "x \<in> set ns" using Cons.prems(1) x by simp
  have "distinct ns" using core by (simp add: zsl_core_def blocks_ok_def)
  then have xy: "x \<notin> set ys" using Cons.prems(1) x by auto
  have "?e \<notin> (\<lambda>p. snd (zn_key ?z p)) ` set ys"
  proof
    assume "?e \<in> (\<lambda>p. snd (zn_key ?z p)) ` set ys"
    then obtain q where "q \<in> set ys" "?e = snd (zn_key ?z q)" by blast
    moreover from this have "x = q" using zset_elements [OF inv xn] Cons.prems(1) by simp
    ultimately show False using xy by simp
  qed
  then have "zset_map new_zs ?e = None" using Cons.prems(4) by simp
  then have dn: "zs_dict new_zs ?e = None" by (simp add: zset_map_key)
  have pf: "p \<notin> dom (zsl_heap (zs_zsl new_zs))" "1 \<le> level" "level \<le> ZSKIPLIST_MAXLEVEL" using Cons.prems(6) pl by auto
  obtain z ms' where z: "zslInsert (zs_zsl new_zs) p level ?s ?e = Some z"
    "zset_inv (new_zs\<lparr>zs_zsl := z, zs_dict := (zs_dict new_zs)(?e \<mapsto> p)\<rparr>) ms'"
    "zset_map (new_zs\<lparr>zs_zsl := z, zs_dict := (zs_dict new_zs)(?e \<mapsto> p)\<rparr>) = (zset_map new_zs)(?e \<mapsto> ?s)"
    "dom (zsl_heap z) = insert p (dom (zsl_heap (zs_zsl new_zs)))"
    using zset_insert [OF Cons.prems(3) dn pf, of ?s] by blast
  let ?new = "new_zs\<lparr>zs_zsl := z, zs_dict := (zs_dict new_zs)(?e \<mapsto> p)\<rparr>"
  have me: "zset_map zs ?e = Some ?s" unfolding zset_map_iff [OF inv] using xn by simp
  have "\<exists>zs' ns'. dup_loop ?z ?new ps (last_opt xs') = Some zs' \<and> zset_inv zs' ns' \<and> zset_map zs' = zset_map zs"
  proof (rule Cons.IH [of xs' "x # ys"])
    show "ns = xs' @ x # ys" using Cons.prems(1) x by simp
    show "length ps = length xs'" using Cons.prems(2) x by simp
    show "zset_inv ?new ms'" by (rule z(2))
    show "zset_map ?new e = (if e \<in> (\<lambda>p. snd (zn_key ?z p)) ` set (x # ys) then zset_map zs e else None)" for e
      unfolding z(3) using Cons.prems(4) me by auto
    show "distinct (map fst ps)" using Cons.prems(5) by simp
    show "\<forall>(q, l)\<in>set ps. q \<notin> dom (zsl_heap (zs_zsl ?new)) \<and> 1 \<le> l \<and> l \<le> ZSKIPLIST_MAXLEVEL"
    proof clarify
      fix q l assume q: "(q, l) \<in> set ps"
      then have "q \<noteq> p" using Cons.prems(5) pl by force
      moreover have "q \<notin> dom (zsl_heap (zs_zsl new_zs)) \<and> 1 \<le> l \<and> l \<le> ZSKIPLIST_MAXLEVEL" using Cons.prems(6) q by auto
      ultimately show "q \<notin> dom (zsl_heap (zs_zsl ?new)) \<and> 1 \<le> l \<and> l \<le> ZSKIPLIST_MAXLEVEL" using z(4) by simp
    qed
  qed
  moreover have "zn_backward (node ?z x) = last_opt xs'" by (rule back_opt [OF core]) (use Cons.prems(1) x in simp)
  moreover have "zslGetNodeElement ?z x = ?e" "zn_score (node ?z x) = ?s" by (simp_all add: zn_key_def zslGetNodeElement_def)
  ultimately show ?case using z(1) unfolding pl x last_opt_simps by simp
qed

lemma zsetDup_ok:
  fixes zs :: "'s::{linorder,zero} zset"
  assumes inv: "zset_inv zs ns" and len: "length ns < 2 ^ 63" and d: "distinct (h # map (fst \<circ> ps) [0..<length ns])"
    and l: "\<forall>i<length ns. 1 \<le> snd (ps i) \<and> snd (ps i) \<le> ZSKIPLIST_MAXLEVEL"
  shows "\<exists>zs' ns'. zsetDup zs h ps = Some zs' \<and> zset_inv zs' ns' \<and> zset_map zs' = zset_map zs"
proof -
  have core: "zsl_core (zs_zsl zs) ns" by (rule zset_inv_core [OF inv])
  have "length ns < 2 ^ 64" using len by simp
  then have n: "unat (zsetLength zs) = length ns" using core by (simp only: zsetLength_def zsl_core_def unat_of_nat_small)
  have t: "zsl_tail (zs_zsl zs) = last_opt ns" using core by (simp add: zsl_core_def backs_ok_def)
  let ?new = "createZsetObject h :: 's zset"
  have nm: "zset_map ?new e = None" for e by (simp add: zset_map_key createZsetObject_def)
  have dm: "dom (zsl_heap (zs_zsl ?new)) = {h}" by (simp add: createZsetObject_def zslCreate_def)
  show ?thesis unfolding zsetDup_def n t
  proof (rule dup_loop_ok [OF inv, of ns "[]"])
    show "distinct (map fst (map ps [0..<length ns]))" using d by (simp add: comp_def)
    show "\<forall>(p, l)\<in>set (map ps [0..<length ns]). p \<notin> dom (zsl_heap (zs_zsl ?new)) \<and> 1 \<le> l \<and> l \<le> ZSKIPLIST_MAXLEVEL"
    proof clarify
      fix p k assume "(p, k) \<in> set (map ps [0..<length ns])"
      then obtain i where i: "i < length ns" "ps i = (p, k)" by auto
      then have "p \<in> set (map (fst \<circ> ps) [0..<length ns])" by force
      then have "p \<noteq> h" using d by (metis distinct.simps(2))
      then show "p \<notin> dom (zsl_heap (zs_zsl ?new)) \<and> 1 \<le> k \<and> k \<le> ZSKIPLIST_MAXLEVEL" using l i dm by force
    qed
    show "zset_inv ?new []" by (rule zset_create)
  qed (simp_all add: nm)
qed

end
