(* ===== verification/Zset_Map.thy ===== *)
theory Zset_Map
  imports Zset_Window Map_Interface
begin

text \<open>
  A sorted set as a stored map from elements to scores: \<open>ZADD\<close> with and without \<open>NX\<close>, \<open>ZREM\<close> and \<open>ZSCORE\<close> are
  its operations. The allocator is a function of the heap; the random values for the levels come with each step.
\<close>

section \<open>Runs\<close>

definition fresh_alloc :: "((addr \<Rightarrow> 's zskiplistNode option) \<Rightarrow> addr) \<Rightarrow> bool" where
  "fresh_alloc alloc \<longleftrightarrow> (\<forall>h. finite (dom h) \<longrightarrow> alloc h \<notin> dom h)"

definition zset_step ::
  "((addr \<Rightarrow> 's::linorder zskiplistNode option) \<Rightarrow> addr) \<Rightarrow> nat \<times> nat list \<Rightarrow> 's zset \<Rightarrow> (bytes, 's) map_op \<Rightarrow>
   ('s zset \<times> 's map_answer) outcome" where
  "zset_step alloc p zs c =
     (let add = (\<lambda>flags k v. case zsetAdd (\<lambda>_ _. None) zs (alloc (zsl_heap (zs_zsl zs))) (zslRandomLevel (fst p) (snd p)) (Some v) k flags of
                   None \<Rightarrow> Abort
                 | Some (zs, out, r) \<Rightarrow> Ok (zs, Changed (out = ZADD_OUT_ADDED))) in
      case c of
        Map_add k v \<Rightarrow> add ZADD_IN_NX k v
      | Map_replace k v \<Rightarrow> add 0 k v
      | Map_delete k \<Rightarrow> (case zsetDel zs k of None \<Rightarrow> Abort | Some (zs, r) \<Rightarrow> Ok (zs, Changed r))
      | Map_find k \<Rightarrow> Ok (zs, Found (zsetScore zs k)))"

definition zset_ok :: "((addr \<Rightarrow> 's::linorder zskiplistNode option) \<Rightarrow> addr) \<Rightarrow> nat \<Rightarrow> 's zset \<Rightarrow> bool" where
  "zset_ok alloc n zs \<longleftrightarrow> fresh_alloc alloc \<and> (\<exists>ns. zset_inv zs ns)"

lemma level_loop_ge: "level \<le> level_loop threshold rs level"
proof (induction rs arbitrary: level)
  case (Cons r rs)
  show ?case using Cons.IH [of "level + 1"] by auto
qed simp

lemma zslRandomLevel_bounds: "1 \<le> zslRandomLevel threshold rs" "zslRandomLevel threshold rs \<le> ZSKIPLIST_MAXLEVEL"
  using level_loop_ge [of 1 threshold rs] by (auto simp: zslRandomLevel_def Let_def ZSKIPLIST_MAXLEVEL_def)

lemma alloc_fresh:
  assumes "fresh_alloc alloc" "zset_inv zs ns"
  shows "alloc (zsl_heap (zs_zsl zs)) \<notin> dom (zsl_heap (zs_zsl zs))"
proof -
  have "finite (dom (zsl_heap (zs_zsl zs)))" using assms(2) by (simp add: zset_inv_def zsl_inv_def)
  then show ?thesis using assms(1) by (simp add: fresh_alloc_def)
qed

lemma zadd_spec_nx: "zadd_spec add (Some v) k ZADD_IN_NX m =
    (if m k = None then (m(k \<mapsto> v), ZADD_OUT_ADDED, True, Some v) else (m, ZADD_OUT_NOP, True, None))"
  by (auto simp: zadd_spec_def ZADD_IN_NX_def ZADD_IN_INCR_def ZADD_IN_XX_def Let_def split: option.splits)

lemma zadd_spec_plain: "zadd_spec add (Some v) k 0 m =
    (m(k \<mapsto> v), if m k = None then ZADD_OUT_ADDED else if m k = Some v then 0 else ZADD_OUT_UPDATED, True, Some v)"
  by (auto simp: zadd_spec_def Let_def split: option.splits)

lemma out_flags_distinct [simp]:
  "ZADD_OUT_NOP \<noteq> ZADD_OUT_ADDED" "0 \<noteq> ZADD_OUT_ADDED" "ZADD_OUT_UPDATED \<noteq> ZADD_OUT_ADDED"
  by (simp_all add: ZADD_OUT_NOP_def ZADD_OUT_ADDED_def ZADD_OUT_UPDATED_def)

lemma zset_step_ok:
  assumes ok: "zset_ok alloc (Suc n) zs"
  shows "\<exists>zs' r. zset_step alloc p zs c = Ok (zs', r) \<and> zset_ok alloc n zs' \<and> map_spec c (zset_map zs) = (zset_map zs', r)"
proof -
  obtain ns where al: "fresh_alloc alloc" and inv: "zset_inv zs ns" using ok by (auto simp: zset_ok_def)
  have add: "\<exists>zs' ns' r. zsetAdd (\<lambda>_ _. None) zs (alloc (zsl_heap (zs_zsl zs))) (zslRandomLevel (fst p) (snd p)) (Some v) k flags = Some (zs', r) \<and>
      zset_inv zs' ns' \<and> zadd_spec (\<lambda>_ _. None) (Some v) k flags (zset_map zs) = (zset_map zs', r)" for k v flags
    by (rule zsetAdd_ok [OF inv alloc_fresh [OF al inv] zslRandomLevel_bounds])
  show ?thesis
  proof (cases c)
    case (Map_add k v)
    obtain zs' ns' out r where a: "zsetAdd (\<lambda>_ _. None) zs (alloc (zsl_heap (zs_zsl zs))) (zslRandomLevel (fst p) (snd p)) (Some v) k ZADD_IN_NX = Some (zs', out, r)"
      "zset_inv zs' ns'" "zadd_spec (\<lambda>_ _. None) (Some v) k ZADD_IN_NX (zset_map zs) = (zset_map zs', out, r)"
      using add [of v k ZADD_IN_NX] by auto
    then show ?thesis using Map_add al unfolding zadd_spec_nx by (auto simp: zset_step_def zset_ok_def split: if_splits)
  next
    case (Map_replace k v)
    obtain zs' ns' out r where a: "zsetAdd (\<lambda>_ _. None) zs (alloc (zsl_heap (zs_zsl zs))) (zslRandomLevel (fst p) (snd p)) (Some v) k 0 = Some (zs', out, r)"
      "zset_inv zs' ns'" "zadd_spec (\<lambda>_ _. None) (Some v) k 0 (zset_map zs) = (zset_map zs', out, r)"
      using add [of v k 0] by auto
    have "out = ZADD_OUT_ADDED \<longleftrightarrow> zset_map zs k = None" "zset_map zs' = (zset_map zs)(k \<mapsto> v)"
      using a(3) out_flags_distinct unfolding zadd_spec_plain by (auto split: if_splits)
    then show ?thesis using Map_replace al a(1,2) by (auto simp: zset_step_def zset_ok_def)
  next
    case (Map_delete k)
    then show ?thesis using zset_delete [OF inv, of k] al by (auto simp: zset_step_def zset_ok_def)
  next
    case (Map_find k)
    then show ?thesis using ok by (auto simp: zset_step_def zset_ok_def zset_map_def)
  qed
qed

interpretation zsetm: stored_map "createZsetObject h :: 's::{linorder,zero} zset" "zset_step alloc" "zset_ok alloc" zset_map
  for h and alloc :: "(addr \<Rightarrow> 's::{linorder,zero} zskiplistNode option) \<Rightarrow> addr"
proof
  show "zset_map (createZsetObject h :: 's zset) = Map.empty" by (simp add: zset_map_key createZsetObject_def fun_eq_iff)
qed (rule zset_step_ok)

lemma zset_ok_create: "fresh_alloc alloc \<Longrightarrow> zset_ok alloc n (createZsetObject h :: 's::{linorder,zero} zset)"
  using zset_create [of h] by (auto simp: zset_ok_def)

section \<open>Sets of any size\<close>

lemma fresh_exists: "finite (dom (h :: addr \<Rightarrow> 'b option)) \<Longrightarrow> \<exists>p. p \<notin> dom h"
  by (rule ex_new_if_finite) (simp_all add: infinite_UNIV_nat)

lemma zset_exists: "\<exists>(zs :: int zset) ns. zset_inv zs ns \<and> length ns = n"
proof (induction n)
  case 0
  then show ?case using zset_create [of 0, where 's = int] by auto
next
  case (Suc n)
  obtain zs :: "int zset" and ns where z: "zset_inv zs ns" "length ns = n" using Suc.IH by blast
  have fin: "finite (dom (zsl_heap (zs_zsl zs)))" using z(1) by (simp add: zset_inv_def zsl_inv_def)
  from fresh_exists [OF fin] obtain p where p: "p \<notin> dom (zsl_heap (zs_zsl zs))" by blast
  have "finite (dom (zs_dict zs))"
  proof (rule finite_subset)
    show "dom (zs_dict zs) \<subseteq> (\<lambda>p. snd (zn_key (zs_zsl zs) p)) ` set ns" using z(1) by (auto simp: zset_inv_def)
  qed simp
  then obtain e where e: "zs_dict zs e = None"
    using ex_new_if_finite [OF infinite_UNIV_listI, of "dom (zs_dict zs)"] by auto
  obtain z' ns' where n: "zset_inv (zs\<lparr>zs_zsl := z', zs_dict := (zs_dict zs)(e \<mapsto> p)\<rparr>) ns'"
    "dom (zsl_heap z') = insert p (dom (zsl_heap (zs_zsl zs)))"
    using zset_insert [OF z(1) e p, of 1 0] by (auto simp: ZSKIPLIST_MAXLEVEL_def)
  have c: "card (dom (zsl_heap (zs_zsl zs))) = Suc (length ns)" if "zset_inv zs ns" for zs :: "int zset" and ns
    using that by (simp add: zset_inv_def zsl_inv_def zsl_core_def blocks_ok_def distinct_card)
  have "card (dom (zsl_heap z')) = Suc (Suc n)" using n(2) p c [OF z(1)] z(2) fin by simp
  then have "length ns' = Suc n" using c [OF n(1)] by simp
  then show ?case using n(1) by blast
qed

end
