(* ===== verification/Zset_Theorems.thy ===== *)
theory Zset_Theorems
  imports Zset_Map
begin

text \<open>The properties of sorted sets, and a small set to apply them to.\<close>

lemma entries_eq:
  assumes "{(s, e). m e = Some s} = set ks" "sorted_wrt (<) ks"
  shows "entries m = ks"
  unfolding entries_def assms(1) using assms(2) by (metis sorted_list_of_set.idem_if_sorted_distinct strict_sorted_iff)

lemma sample_entries: "entries [[97] \<mapsto> 3, [98] \<mapsto> (1 :: int)] = [(1, [98]), (3, [97])]"
  by (rule entries_eq) (auto split: if_splits)

lemma zset_sample:
  "\<exists>(zs :: int zset) ns. zset_inv zs ns \<and> length ns = 2 \<and> zset_map zs = [[97] \<mapsto> 3, [98] \<mapsto> 1]"
proof -
  let ?a = "createZsetObject 0 :: int zset"
  have l: "(1 :: nat) \<le> 1" "1 \<le> ZSKIPLIST_MAXLEVEL" by (simp_all add: ZSKIPLIST_MAXLEVEL_def)
  have a: "zset_inv ?a []" "zs_dict ?a = (\<lambda>e. None)" "dom (zsl_heap (zs_zsl ?a)) = {0}" "zset_map ?a = Map.empty"
    by (rule zset_create) (simp_all add: createZsetObject_def zslCreate_def zset_map_key fun_eq_iff)
  have d1: "zs_dict ?a [97] = None" and f1: "1 \<notin> dom (zsl_heap (zs_zsl ?a))" by (simp_all only: a(2,3)) simp
  from zset_insert [OF a(1) d1 f1 l, of 3] obtain z1 ns1 where 1:
    "zset_inv (?a\<lparr>zs_zsl := z1, zs_dict := (zs_dict ?a)([97] \<mapsto> 1)\<rparr>) ns1"
    "zset_map (?a\<lparr>zs_zsl := z1, zs_dict := (zs_dict ?a)([97] \<mapsto> 1)\<rparr>) = (zset_map ?a)([97] \<mapsto> 3)"
    "dom (zsl_heap z1) = insert 1 (dom (zsl_heap (zs_zsl ?a)))" by blast
  define b where "b = ?a\<lparr>zs_zsl := z1, zs_dict := (zs_dict ?a)([97] \<mapsto> 1)\<rparr>"
  have d2: "zs_dict b [98] = None" and f2: "2 \<notin> dom (zsl_heap (zs_zsl b))" using 1(3) by (simp_all add: b_def a(2,3))
  from zset_insert [OF 1(1) [folded b_def] d2 f2 l, of 1] obtain zs ns where 2: "zset_inv zs ns"
    "zset_map zs = (zset_map b)([98] \<mapsto> 1)" by blast
  have m: "zset_map zs = [[97] \<mapsto> 3, [98] \<mapsto> 1]" unfolding 2(2) b_def 1(2) a(4) by (rule refl)
  have "length ns = length (entries (zset_map zs))" by (simp add: zset_entries [OF 2(1)])
  then have "length ns = 2" unfolding m sample_entries by simp
  then show ?thesis using 2(1) m by blast
qed

section \<open>Operations on elements\<close>

text \<open>
  Property C5: a sorted set is a map from elements to scores. Any run of \<open>ZADD\<close>, \<open>ZADD NX\<close>, \<open>ZREM\<close> and \<open>ZSCORE\<close> on
  a new set, with whatever levels the random numbers give the nodes, never fails, answers as the map does, and
  leaves a well-formed skip list whose nodes are the sorted entries of the map.
\<close>

theorem zset_run_refines_map:
  fixes alloc :: "(addr \<Rightarrow> 's::{linorder,zero} zskiplistNode option) \<Rightarrow> addr"
  assumes "fresh_alloc alloc"
  shows "\<exists>zs rs ns. map_run (zset_step alloc) (createZsetObject h) cs = Ok (zs, rs) \<and>
    map_spec_run (List.map snd cs) Map.empty = (zset_map zs, rs) \<and> zset_inv zs ns \<and>
    List.map (zn_key (zs_zsl zs)) ns = entries (zset_map zs)"
proof -
  from zsetm.run_start [OF zset_ok_create [OF assms], where n = 0] obtain zs rs where
    "map_run (zset_step alloc) (createZsetObject h) cs = Ok (zs, rs)" "zset_ok alloc 0 zs"
    "map_spec_run (List.map snd cs) Map.empty = (zset_map zs, rs)" by blast
  then show ?thesis using zset_entries by (fastforce simp: zset_ok_def)
qed

lemma least_alloc: "fresh_alloc (\<lambda>h. LEAST p. h p = None)"
  unfolding fresh_alloc_def
proof (intro allI impI)
  fix h :: "addr \<Rightarrow> 'b option" assume "finite (dom h)"
  from fresh_exists [OF this] obtain p where "h p = None" by blast
  then have "h (LEAST p. h p = None) = None" by (rule LeastI)
  then show "(LEAST p. h p = None) \<notin> dom h" by (simp only: domIff not_not)
qed

theorem zset_run_refines_map_witness:
  "\<exists>(zs :: int zset). map_run (zset_step (\<lambda>h. LEAST p. h p = None)) (createZsetObject 7)
     [((2, [1, 5]), Map_add [97] 3), ((2, [4]), Map_replace [98] 9), ((2, [0, 1, 1, 8]), Map_replace [97] 5),
      ((2, []), Map_add [97] 4), ((2, []), Map_delete [98]), ((2, []), Map_find [97])] =
     Ok (zs, [Changed True, Changed True, Changed False, Changed False, Changed True, Found (Some 5)])"
  using zset_run_refines_map [OF least_alloc, of 7 "[((2, [1, 5]), Map_add [97] (3 :: int)), ((2, [4]), Map_replace [98] 9),
      ((2, [0, 1, 1, 8]), Map_replace [97] 5), ((2, []), Map_add [97] 4), ((2, []), Map_delete [98]), ((2, []), Map_find [97])]"]
  by auto

text \<open>
  Property C21: \<open>zsetAdd\<close> under every combination of its flags, with scores that may not be numbers: it does not
  fail, keeps the set well formed, and has the new map, the output flag, the return value and the new score that
  the flags ask for.
\<close>

theorem zsetAdd_meets_flags:
  assumes "zset_inv zs ns" "p \<notin> dom (zsl_heap (zs_zsl zs))" "1 \<le> level" "level \<le> ZSKIPLIST_MAXLEVEL"
  shows "\<exists>zs' ns' r. zsetAdd add zs p level score ele flags = Some (zs', r) \<and> zset_inv zs' ns' \<and>
    zadd_spec add score ele flags (zset_map zs) = (zset_map zs', r)"
  by (rule zsetAdd_ok [OF assms])

theorem zsetAdd_meets_flags_witness:
  "\<exists>(zs :: int zset) p zs' ns'. zset_map zs = [[97] \<mapsto> 3, [98] \<mapsto> 1] \<and>
     zsetAdd (\<lambda>x y. Some (x + y)) zs p 1 (Some 5) [98] (ZADD_IN_INCR OR ZADD_IN_GT) = Some (zs', ZADD_OUT_UPDATED, True, Some 6) \<and>
     zset_inv zs' ns' \<and> zset_map zs' = [[97] \<mapsto> 3, [98] \<mapsto> 6]"
proof -
  obtain zs :: "int zset" and ns where s: "zset_inv zs ns" "zset_map zs = [[97] \<mapsto> 3, [98] \<mapsto> 1]" using zset_sample by blast
  have "finite (dom (zsl_heap (zs_zsl zs)))" using s(1) by (simp add: zset_inv_def zsl_inv_def)
  from fresh_exists [OF this] obtain p where p: "p \<notin> dom (zsl_heap (zs_zsl zs))" by blast
  have sp: "zadd_spec (\<lambda>x y. Some (x + y)) (Some 5) [98] (ZADD_IN_INCR OR ZADD_IN_GT) (zset_map zs) =
      ([[97] \<mapsto> 3, [98] \<mapsto> 6], ZADD_OUT_UPDATED, True, Some 6)"
    unfolding s(2) by (simp add: zadd_spec_def ZADD_IN_INCR_def ZADD_IN_GT_def ZADD_IN_NX_def ZADD_IN_LT_def Let_def)
  have l: "(1 :: nat) \<le> 1" "1 \<le> ZSKIPLIST_MAXLEVEL" by (simp_all add: ZSKIPLIST_MAXLEVEL_def)
  from zsetAdd_meets_flags [OF s(1) p l, of "\<lambda>x y. Some (x + y)" "Some 5" "[98]" "ZADD_IN_INCR OR ZADD_IN_GT", unfolded sp]
  obtain zs' ns' where "zsetAdd (\<lambda>x y. Some (x + y)) zs p 1 (Some 5) [98] (ZADD_IN_INCR OR ZADD_IN_GT) =
      Some (zs', ZADD_OUT_UPDATED, True, Some 6)" "zset_inv zs' ns'" "zset_map zs' = [[97] \<mapsto> 3, [98] \<mapsto> 6]"
    unfolding prod.inject by metis
  then show ?thesis using s(2) by blast
qed

section \<open>Ranks\<close>

text \<open>
  Property C22: the rank of an element is the number of entries below it in the order of scores and elements, or
  above it for the reverse rank, and -1 for no element.
\<close>

theorem zsetRank_counts:
  assumes "zset_inv zs ns" "length ns < 2 ^ 63"
  shows "zsetRank zs ele reverse = Some
    (case zset_map zs ele of
       None \<Rightarrow> (- 1, None)
     | Some s \<Rightarrow> (int (length (filter (\<lambda>k. if reverse then (s, ele) < k else k < (s, ele)) (entries (zset_map zs)))), Some s))"
  by (rule zsetRank_ok [OF assms])

theorem zsetRank_counts_witness:
  "\<exists>(zs :: int zset). zset_map zs = [[97] \<mapsto> 3, [98] \<mapsto> 1] \<and> zsetRank zs [97] False = Some (1, Some 3) \<and>
     zsetRank zs [97] True = Some (0, Some 3) \<and> zsetRank zs [99] False = Some (- 1, None)"
proof -
  obtain zs :: "int zset" and ns where s: "zset_inv zs ns" "length ns = 2" "zset_map zs = [[97] \<mapsto> 3, [98] \<mapsto> 1]"
    using zset_sample by blast
  have "length ns < 2 ^ 63" by (simp add: s(2))
  from zsetRank_counts [OF s(1) this] show ?thesis unfolding s(3) sample_entries
    by (intro exI [of _ zs]) (simp add: s(3))
qed

text \<open>
  Property C23: the three ways between a node and its rank agree: the search by score and element and the walk from
  the node give the same rank, and the node of this rank is the node.
\<close>

theorem zsl_rank_roundtrip:
  assumes "zset_inv zs ns" "length ns < 2 ^ 63" "n \<in> set ns"
  shows "\<exists>rank. zslGetRank (zs_zsl zs) (zn_score (node (zs_zsl zs) n)) (zn_ele (node (zs_zsl zs) n)) = Some rank \<and>
    zslGetRankByNode (zs_zsl zs) n = Some rank \<and> zslGetElementByRank (zs_zsl zs) rank = Some (Some n)"
proof -
  have core: "zsl_core (zs_zsl zs) ns" by (rule zset_inv_core [OF assms(1)])
  from split_list [OF assms(3)] obtain as bs where s: "ns = as @ n # bs" by blast
  note c = core [unfolded s]
  have "length as + 1 < 2 ^ 64" and l: "length ns < 2 ^ 64" using assms(2) s by simp_all
  then have "unat (of_nat (length as + 1) :: 64 word) = length as + 1" by (simp only: unat_of_nat_small)
  then have "zslGetElementByRank (zs_zsl zs) (of_nat (length as + 1)) = Some (Some n)"
    using zslGetElementByRank_ok [OF core l, of "of_nat (length as + 1)"] s by simp
  then show ?thesis using zslGetRank_ok [OF c] zslGetRankByNode_ok [OF c] by blast
qed

theorem zsl_rank_roundtrip_witness:
  "\<exists>(zs :: int zset) n rank. zset_map zs = [[97] \<mapsto> 3, [98] \<mapsto> 1] \<and> zslGetRankByNode (zs_zsl zs) n = Some rank \<and>
     zslGetElementByRank (zs_zsl zs) rank = Some (Some n)"
proof -
  obtain zs :: "int zset" and ns where s: "zset_inv zs ns" "length ns = 2" "zset_map zs = [[97] \<mapsto> 3, [98] \<mapsto> 1]"
    using zset_sample by blast
  have "length ns < 2 ^ 63" "hd ns \<in> set ns" using s(2) by (cases ns; simp)+
  from zsl_rank_roundtrip [OF s(1) this] show ?thesis using s(3) by blast
qed

section \<open>Ranges\<close>

text \<open>
  Property C24: \<open>ZRANGE\<close> and \<open>ZREVRANGE\<close> by rank emit the entries at the positions from \<open>start\<close> to \<open>end\<close> of the sorted
  list or of its reverse, negative positions counted from the end and positions outside cut off.
\<close>

theorem zrange_is_slice:
  assumes "zset_inv zs ns" "length ns < 2 ^ 63"
  shows "genericZrangebyrankCommand zs start en reverse =
    Some (map prod.swap (index_slice start en (if reverse then rev (entries (zset_map zs)) else entries (zset_map zs))))"
  by (rule zrange_ok [OF assms])

theorem zrange_is_slice_witness:
  "\<exists>(zs :: int zset). zset_map zs = [[97] \<mapsto> 3, [98] \<mapsto> 1] \<and>
     genericZrangebyrankCommand zs 0 (- 1) False = Some [([98], 1), ([97], 3)] \<and>
     genericZrangebyrankCommand zs (- 7) 0 True = Some [([97], 3)]"
proof -
  obtain zs :: "int zset" and ns where s: "zset_inv zs ns" "length ns = 2" "zset_map zs = [[97] \<mapsto> 3, [98] \<mapsto> 1]"
    using zset_sample by blast
  have l: "length ns < 2 ^ 63" by (simp add: s(2))
  have "index_slice 0 (- 1) [(1 :: int, [98 :: 8 word]), (3, [97])] = [(1, [98]), (3, [97])]"
    "index_slice (- 7) 0 [(3 :: int, [97 :: 8 word]), (1, [98])] = [(3, [97])]"
    by (simp_all add: index_slice_def nths_Cons)
  then show ?thesis
    using zrange_is_slice [OF s(1) l, of 0 "- 1" False] zrange_is_slice [OF s(1) l, of "- 7" 0 True]
    unfolding s(3) sample_entries by (intro exI [of _ zs]) (simp add: s(3))
qed

text \<open>
  Property C25: \<open>ZRANGEBYSCORE\<close> and \<open>ZREVRANGEBYSCORE\<close> emit the entries whose score is in the range, in ascending or
  descending order, without the first \<open>offset\<close> and at most \<open>limit\<close> of them, all for a negative limit.
\<close>

theorem zrangebyscore_window:
  assumes "zset_inv zs ns" "length ns < 2 ^ 63"
  shows "genericZrangebyscoreCommand zs spec offset limit reverse =
    Some (map prod.swap (range_window (in_range spec) offset limit reverse (entries (zset_map zs))))"
  by (rule zrangebyscore_ok [OF assms])

theorem zrangebyscore_window_witness:
  "\<exists>(zs :: int zset). zset_map zs = [[97] \<mapsto> 3, [98] \<mapsto> 1] \<and>
     genericZrangebyscoreCommand zs \<lparr>zr_min = 1, zr_max = 3, zr_minex = False, zr_maxex = False\<rparr> 1 (- 1) True = Some [([98], 1)] \<and>
     genericZrangebyscoreCommand zs \<lparr>zr_min = 1, zr_max = 9, zr_minex = True, zr_maxex = False\<rparr> 0 5 False = Some [([97], 3)]"
proof -
  obtain zs :: "int zset" and ns where s: "zset_inv zs ns" "length ns = 2" "zset_map zs = [[97] \<mapsto> 3, [98] \<mapsto> 1]"
    using zset_sample by blast
  have l: "length ns < 2 ^ 63" by (simp add: s(2))
  show ?thesis
    using zrangebyscore_window [OF s(1) l, of "\<lparr>zr_min = 1, zr_max = 3, zr_minex = False, zr_maxex = False\<rparr>" 1 "- 1" True]
      zrangebyscore_window [OF s(1) l, of "\<lparr>zr_min = 1, zr_max = 9, zr_minex = True, zr_maxex = False\<rparr>" 0 5 False]
    unfolding s(3) sample_entries
    by (intro exI [of _ zs]) (simp add: s(3) range_window_def limit_take_def in_range_def zslValueGteMin_def zslValueLteMax_def)
qed

text \<open>
  Property C26: \<open>ZREMRANGEBYSCORE\<close> removes exactly the entries whose score is in the range, from the skip list and the
  dict, and returns the number of elements that were in the set before and are not in it afterwards. This is the
  number of entries with a score in the range, and what \<open>ZCOUNT\<close> answers before.
\<close>

theorem zremrangebyscore_removes:
  assumes "zset_inv zs ns" "length ns < 2 ^ 63"
  shows "\<exists>zs' ns' k. zremrangeGenericCommand zs (Zrange_score spec) = Some (zs', k) \<and> zset_inv zs' ns' \<and>
    zset_map zs' = map_without (in_range spec) (zset_map zs) \<and>
    k = card (dom (zset_map zs) - dom (zset_map zs')) \<and> k = length (filter (in_range spec) (entries (zset_map zs))) \<and>
    zcountCommand zs spec = Some (of_nat k)"
proof -
  obtain zs' ns' where z: "zremrangeGenericCommand zs (Zrange_score spec) =
      Some (zs', length (filter (in_range spec) (entries (zset_map zs))))" "zset_inv zs' ns'"
    "zset_map zs' = map_without (in_range spec) (zset_map zs)" using zremrangebyscore_ok [OF assms(1), of spec] by blast
  then show ?thesis using removed_card [OF assms(1), of "in_range spec"] zcount_ok [OF assms, of spec] by auto
qed

theorem zremrangebyscore_removes_witness:
  "\<exists>(zs :: int zset) zs' ns'. zset_map zs = [[97] \<mapsto> 3, [98] \<mapsto> 1] \<and>
     zremrangeGenericCommand zs (Zrange_score \<lparr>zr_min = 1, zr_max = 3, zr_minex = False, zr_maxex = True\<rparr>) = Some (zs', 1) \<and>
     zset_inv zs' ns' \<and> zset_map zs' = [[97] \<mapsto> 3]"
proof -
  let ?spec = "\<lparr>zr_min = 1, zr_max = 3, zr_minex = False, zr_maxex = True\<rparr> :: int zrangespec"
  obtain zs :: "int zset" and ns where s: "zset_inv zs ns" "length ns = 2" "zset_map zs = [[97] \<mapsto> 3, [98] \<mapsto> 1]"
    using zset_sample by blast
  have l: "length ns < 2 ^ 63" by (simp add: s(2))
  have w: "map_without (in_range ?spec) [[97] \<mapsto> 3, [98] \<mapsto> 1] = [[97] \<mapsto> 3]"
    by (auto simp: map_without_def in_range_def zslValueGteMin_def zslValueLteMax_def fun_eq_iff)
  obtain zs' ns' k where r: "zremrangeGenericCommand zs (Zrange_score ?spec) = Some (zs', k)" "zset_inv zs' ns'"
    "zset_map zs' = [[97] \<mapsto> 3]" "k = card (dom [[97] \<mapsto> 3, [98] \<mapsto> (1 :: int)] - dom (zset_map zs'))"
    using zremrangebyscore_removes [OF s(1) l, of ?spec] unfolding s(3) w by metis
  have "k = 1" unfolding r(4) r(3) by simp
  then show ?thesis using r s(3) by blast
qed

text \<open>
  Property C27: the ends of a range by rank are passed as 32-bit numbers. \<open>ZREMRANGEBYRANK\<close> with the range of all
  elements removes nothing from a set of \<open>2 ^ 32\<close> elements.
\<close>

theorem zremrangebyrank_truncates:
  assumes "zset_inv zs ns" "length ns = 2 ^ 32"
  shows "\<exists>zs' ns'. zremrangeGenericCommand zs (Zrange_rank 0 (- 1)) = Some (zs', 0) \<and> zset_inv zs' ns' \<and> zset_map zs' = zset_map zs"
  by (rule zremrangebyrank_wraps [OF assms])

theorem zremrangebyrank_truncates_witness:
  "\<exists>(zs :: int zset) zs' ns'. length (entries (zset_map zs)) = 2 ^ 32 \<and>
     zremrangeGenericCommand zs (Zrange_rank 0 (- 1)) = Some (zs', 0) \<and> zset_inv zs' ns' \<and> zset_map zs' = zset_map zs"
proof -
  obtain zs :: "int zset" and ns where s: "zset_inv zs ns" "length ns = 2 ^ 32" using zset_exists by blast
  have "length (entries (zset_map zs)) = 2 ^ 32" unfolding zset_entries [OF s(1)] length_map by (rule s(2))
  then show ?thesis using zremrangebyrank_truncates [OF s] by blast
qed

end
