(* ===== verification/Spec2Isabelle.thy ===== *)
theory Spec2Isabelle
  imports Intset Lp_Borrowed Dict_Theorems Glob_Match Lzf_Roundtrip Kvstore_Theorems Resp_Theorems Zset_Theorems
begin

text \<open>
  A verification of the core of the Redis 8.6.1 server that the repository carries under
  \<open>modalgateway-Tops-1/modalgateway-Tops-1/redis-stable/src\<close> (file names below are relative to that directory).

  \<^bold>\<open>The program.\<close> A client's bytes are read by \<open>networking.c\<close>, cut into commands (RESP arrays of bulk strings, or
  inline lines split by \<open>sds.c\<close>), and executed against the keyspace: an array of hash tables (\<open>kvstore.c\<close>, one
  per cluster slot), each an incrementally rehashing hash table (\<open>dict.c\<close>), with a Fenwick tree of their
  sizes (\<open>fwtree.c\<close>). Small values are kept in compact encodings: integer sets (\<open>intset.c\<close>), listpacks
  (\<open>listpack.c\<close>), LZF-compressed strings (\<open>lzf_c.c\<close>, \<open>lzf_d.c\<close>); large sorted sets are a hash table beside a
  skip list (\<open>t_zset.c\<close>). \<open>util.c\<close> has the conversions between
  numbers and text and the glob patterns of \<open>KEYS\<close>, \<open>SCAN\<close> and \<open>PSUBSCRIBE\<close>; \<open>endianconv.c\<close> the byte order of
  what is stored.

  \<^bold>\<open>The library.\<close> \<open>Prelude\<close> has the vocabulary of the models: bytes, blocks of memory with \<open>memmove\<close>, C integer
  conversions with their wrap-around, and \<open>outcome\<close>, whose \<open>Abort\<close> is a failed assertion (or an access outside
  an object, where a definition says so). Four theories state contracts as locales, each interpreted on the
  model of the code that provides it: \<open>Set_Interface\<close> (by \<open>Intset\<close>), \<open>Seq_Interface\<close> (by \<open>Lp_Sequence\<close>),
  \<open>Map_Interface\<close> (by \<open>Dict_Map\<close>, over many dicts by \<open>Kvstore_Map\<close>, and over a dict and a skip list by \<open>Zset_Map\<close>) and \<open>Slot_Interface\<close> (by \<open>Fwtree\<close>,
  used by the keyspace).

  \<^bold>\<open>Components.\<close>
  \<^item> \<open>Endianconv\<close> and \<open>Intset\<close>: byte reversal; the bytes of an integer set, its search, insertion with upgrade of
    the encoding, removal and validation. A run of calls represents the mathematical set, the same blob on
    hosts of both byte orders; the byte count of \<open>intsetMoveTail\<close> wraps at \<open>2 ^ 29\<close> elements.
  \<^item> \<open>Numbers\<close>: \<open>ll2string\<close>, \<open>string2ll\<close> and their relatives over 64-bit values, equivalent to the decimal
    representation; hexadecimal numbers; memory sizes.
  \<^item> \<open>Glob\<close>, \<open>Glob_Match\<close>: \<open>stringmatchlen\<close> and \<open>prefixmatch\<close>, equivalent to a matching relation on patterns.
  \<^item> \<open>Lp_Codec\<close>, \<open>Lp_Entry\<close>, \<open>Lp_List\<close>, \<open>Lp_Update\<close>: the listpack as a block of bytes, its entries, the walks and the
    updates; \<open>Lp_Refine\<close>, \<open>Lp_Sequence\<close>, \<open>Lp_Theorems\<close>: every operation against lists of strings; \<open>Lp_Validate\<close>: what
    the deep validation of untrusted blocks guarantees; \<open>Lp_Borrowed\<close>: the one kind of block it lets through.
  \<^item> \<open>Dict\<close>, \<open>Dict_Inv\<close>, \<open>Dict_Ops\<close>, \<open>Dict_Map\<close>: two tables of chains and the incremental rehashing between them, as a
    finite map; \<open>Dict_Scan\<close>: the cursor with reversed bits; \<open>Dict_Theorems\<close>: the properties of both.
  \<^item> \<open>Fwtree\<close>, \<open>Kvstore\<close>, \<open>Kvstore_Inv\<close>, \<open>Kvstore_Ops\<close>, \<open>Kvstore_Map\<close>, \<open>Kvstore_Scan\<close>, \<open>Kvstore_Move\<close>,
    \<open>Kvstore_Theorems\<close>: the keyspace over its dicts as one finite map, its counts in all states reachable by its
    calls, dicts moved between keyspaces included (which leaves the count of non-empty dicts off), fair
    random choice, and the scan that visits every key that stays.
  \<^item> \<open>Lzf\<close>, \<open>Lzf_Roundtrip\<close>: both directions stay inside their buffers, and decompression undoes compression.
  \<^item> \<open>Sds_Args\<close>, \<open>Resp\<close>, \<open>Resp_Inv\<close>, \<open>Resp_Roundtrip\<close>, \<open>Resp_Theorems\<close>: \<open>readQueryFromClient\<close> and all below it down to
    the bytes. No input makes an assertion fail; a stream of encoded requests, cut anywhere, is executed
    exactly; a bad argument header that arrives only after the read with its command's header is not reported.
  \<^item> \<open>Zsl\<close>: the skip list on a heap of nodes with forward pointers and spans; \<open>Zsl_Inv\<close>: its invariant and the
    search; \<open>Zsl_Insert\<close>, \<open>Zsl_Delete\<close>, \<open>Zsl_Update\<close>: insertion, unlinking, deletion, the update of a score in place or
    by relinking, and freeing; \<open>Zsl_Rank\<close>, \<open>Zsl_Range\<close>, \<open>Zsl_Nth\<close>: ranks and ranges are those of the sorted list.
  \<^item> \<open>Zset\<close>: the sorted set, a dict beside the skip list, and the commands on it; \<open>Zset_Ops\<close>: both views hold the same
    elements after every operation; \<open>Zset_Range\<close>, \<open>Zset_Window\<close>: ranks, ranges, counts, removals and copies in
    terms of the sorted entries of a map from elements to scores; \<open>Zset_Map\<close>, \<open>Zset_Theorems\<close>: the sorted set as a
    stored map, and its properties. The dict is its map here, which \<open>Dict_Map\<close> shows the hash table to be.

  \<^bold>\<open>Bounds and loops.\<close> Sizes that the code keeps in 32 or 64 bits are kept at their width; theorems carry the
  bound under which nothing wraps (\<open>2 ^ 29\<close> calls for an integer set, \<open>2 ^ 32\<close> bytes for a listpack, \<open>2 ^ 64\<close> keys
  for a keyspace, fewer than \<open>2 ^ 63\<close> elements for a sorted set, \<open>2 ^ 32\<close> for its removal by rank) or are about the wrap itself. Loops are structural recursions or functions with a measure;
  where a fuel is used, the definition starts it with a number the theory proves to be enough (the number of
  buckets for a rehash, the length of the block for a walk, one bit of the table's mask per expansion of
  the scan), and the loops that follow pointers of a skip list are partial functions, proved to return on every
  well-formed list. Hash functions, random numbers, the resize policy, the host's byte order, what a
  read delivers and what an uninitialised table holds are arguments, and the theorems hold for all of them.

  \<^bold>\<open>Not modelled.\<close> Memory allocation and its failure, reference counts, I/O, threads, time, the command table and
  configuration, replication, cluster bus, persistence files, scripting and modules: they are effects on the
  outside world or glue around it. Floating point is not modelled (scores of sorted sets are an ordered
  type, which doubles are without NaN); neither are quicklists, radix trees, streams, HyperLogLog and
  geohashes. Vendored libraries under \<open>deps\<close>, the tests, and the web services of the repository, which
  are in other languages, are outside. Within the modelled files, diagnostics, iterators, random sampling and
  defragmentation are left out; the manifest lists each.
\<close>

end
